(* ===== verification/Ape_Prelude.thy ===== *)
theory Ape_Prelude
  imports Main "HOL-Library.Word"
begin

text \<open>
  Shared vocabulary of the development: the C integer types as words, C string literals as byte
  lists, the case folding of \<open>strcasecmp\<close>, the loop that feeds a buffer to a byte-at-a-time
  machine (the shape of the HTTP parser, the JSON parser and their callers), the contract of such
  a machine as a locale, and linked chains over an explicit store of \<open>next\<close> pointers.
\<close>

unbundle bit_operations_syntax

section \<open>C types\<close>

type_synonym byte = "8 word"
type_synonym u16 = "16 word"
type_synonym u32 = "32 word"
type_synonym u64 = "64 word"

lemma unat_word_of_nat: "k < 2 ^ LENGTH('a::len) \<Longrightarrow> unat (word_of_nat k :: 'a word) = k"
  by (simp add: unat_of_nat take_bit_nat_eq_self)

lemma uint_word_of_nat: "k < 2 ^ LENGTH('a::len) \<Longrightarrow> uint (word_of_nat k :: 'a word) = int k"
  by (simp only: uint_nat unat_word_of_nat)

lemma word_of_nat_0_iff: "k < 2 ^ LENGTH('a::len) \<Longrightarrow> (word_of_nat k :: 'a word) = 0 \<longleftrightarrow> k = 0"
  by (metis unat_word_of_nat unsigned_eq_0_iff)

lemma unat_byte: "unat (x :: 8 word) < 256"
  using unsigned_less [of x] by simp

named_theorems c_simps \<open>evaluation of C-level helper functions\<close>

text \<open>The bytes of a C string literal, without its terminator.\<close>

definition bytes :: "string \<Rightarrow> byte list" where
  "bytes s = map of_char s"

lemma bytes_simps [simp, c_simps]:
  "bytes [] = []"
  "bytes (c # cs) = of_char c # bytes cs"
  by (simp_all add: bytes_def)

lemma length_bytes [simp]: "length (bytes s) = length s"
  by (simp add: bytes_def)

section \<open>Memory\<close>

text \<open>\<open>memcpy\<close> of \<open>xs\<close> to offset \<open>i\<close> of the block \<open>b\<close>.\<close>

definition poke :: "nat \<Rightarrow> 'a list \<Rightarrow> 'a list \<Rightarrow> 'a list" where
  "poke i xs b = take i b @ xs @ drop (i + length xs) b"

lemma poke_fill:
  "i \<le> length b \<Longrightarrow> i + length xs = length b \<Longrightarrow> poke i xs b = take i b @ xs"
  by (simp add: poke_def)

lemma take_poke: "i \<le> length b \<Longrightarrow> take (i + length xs) (poke i xs b) = take i b @ xs"
  by (simp add: poke_def)

lemma length_poke: "i + length xs \<le> length b \<Longrightarrow> length (poke i xs b) = length b"
  by (simp add: poke_def)

text \<open>The \<open>k\<close> low bytes of a number, most significant first.\<close>

primrec be_bytes :: "nat \<Rightarrow> nat \<Rightarrow> byte list" where
  "be_bytes 0 n = []"
| "be_bytes (Suc k) n = be_bytes k (n div 256) @ [word_of_nat n]"

lemma be_bytes_add: "be_bytes (j + k) n = be_bytes j (n div 256 ^ k) @ be_bytes k n"
  by (induction k arbitrary: n) (simp_all add: div_mult2_eq)

lemma be_bytes_mod: "be_bytes k (n mod 256 ^ k) = be_bytes k n"
proof (induction k arbitrary: n)
  case (Suc k)
  have "n mod 256 ^ Suc k div 256 = n div 256 mod 256 ^ k"
    by (simp add: mod_mult2_eq)
  moreover have "word_of_nat (n mod 256 ^ Suc k) = (word_of_nat n :: byte)"
    by (simp add: word_of_nat_eq_iff take_bit_eq_mod mod_mod_cancel)
  ultimately show ?case using Suc.IH [of "n div 256"] by simp
qed simp

lemma length_be_bytes [simp]: "length (be_bytes k n) = k"
  by (induction k arbitrary: n) simp_all

section \<open>Words and UTF-8\<close>

lemma or_push_bit_plus:
  fixes x y :: "'a::len word"
  assumes "unat x < 2 ^ k"
  shows "push_bit k y OR x = push_bit k y + x"
proof -
  have "\<not> bit x n" if "k \<le> n" for n
  proof -
    have "unat x < 2 ^ n" using assms that by (meson less_le_trans one_le_numeral power_increasing)
    then have "\<not> bit (unat x) n" by (simp add: bit_iff_odd)
    then show ?thesis by (simp add: bit_unsigned_iff)
  qed
  then have "push_bit k y AND x = 0" by (intro bit_word_eqI) (auto simp: bit_and_iff bit_push_bit_iff)
  then show ?thesis by (simp add: disjunctive_add_eq_or)
qed

lemma drop_bit_word_of_nat:
  "n < 2 ^ LENGTH('a::len) \<Longrightarrow> drop_bit k (word_of_nat n :: 'a word) = word_of_nat (n div 2 ^ k)"
proof -
  assume n: "n < 2 ^ LENGTH('a)"
  then have "n div 2 ^ k < 2 ^ LENGTH('a)" by (meson div_le_dividend le_less_trans)
  with n show ?thesis
    by (simp only: word_unat_eq_iff unat_drop_bit_eq unat_word_of_nat) (simp add: drop_bit_eq_div)
qed

lemma and_mask_word_of_nat:
  "(word_of_nat n :: 'a::len word) AND mask k = word_of_nat (n mod 2 ^ k)"
  by (simp add: take_bit_eq_mask [symmetric] take_bit_of_nat) (simp add: take_bit_eq_mod)

lemma ucast_word_of_nat:
  "n < 2 ^ LENGTH('a::len) \<Longrightarrow> (ucast (word_of_nat n :: 'a word) :: 'b::len word) = word_of_nat n"
  by (metis of_nat_unat unat_word_of_nat)

text \<open>The UTF-8 encoding of a code point, by its definition.\<close>

definition utf8 :: "nat \<Rightarrow> byte list" where
  "utf8 n = map word_of_nat
     (if n < 0x80 then [n]
      else if n < 0x800 then [0xC0 + n div 64, 0x80 + n mod 64]
      else if n < 0x10000 then [0xE0 + n div 4096, 0x80 + n div 64 mod 64, 0x80 + n mod 64]
      else [0xF0 + n div 262144, 0x80 + n div 4096 mod 64, 0x80 + n div 64 mod 64, 0x80 + n mod 64])"

text \<open>A continuation byte, and a lead byte with \<open>7 - k\<close> marker bits.\<close>

lemma utf8_trail_byte:
  "m < 2 ^ 32 \<Longrightarrow> (ucast (((word_of_nat m :: u32) AND 0x3F) OR 0x80) :: byte) = word_of_nat (0x80 + m mod 64)"
proof -
  have "(0x3F :: u32) = mask 6" by (simp add: mask_eq_exp_minus_1)
  then have a: "(word_of_nat m :: u32) AND 0x3F = word_of_nat (m mod 64)"
    by (simp only: and_mask_word_of_nat) simp
  have "unat (word_of_nat (m mod 64) :: u32) = m mod 64"
    by (rule unat_word_of_nat) (auto intro: less_trans [OF mod_less_divisor])
  then have "push_bit 7 (1 :: u32) OR word_of_nat (m mod 64) = push_bit 7 1 + word_of_nat (m mod 64)"
    by (intro or_push_bit_plus) (simp add: less_trans [OF mod_less_divisor])
  then have b: "(word_of_nat (m mod 64) :: u32) OR 0x80 = word_of_nat (0x80 + m mod 64)"
    by (simp add: or.commute)
  have "0x80 + m mod 64 < 2 ^ LENGTH(32)"
    using mod_less_divisor [of 64 m] by simp
  then show ?thesis unfolding a b by (rule ucast_word_of_nat)
qed

lemma utf8_lead_byte:
  assumes "m < 2 ^ k" "k < 8" "push_bit k l = (lead :: u32)" "lead = word_of_nat nl" "nl + 2 ^ k \<le> 256"
  shows "(ucast (word_of_nat m OR lead) :: byte) = word_of_nat (nl + m)"
proof -
  have m: "m < 256" "nl + m < 256" using assms(1,5) by simp_all
  then have "unat (word_of_nat m :: u32) = m" by (intro unat_word_of_nat) simp
  with assms(1) have "push_bit k l OR word_of_nat m = push_bit k l + (word_of_nat m :: u32)"
    by (intro or_push_bit_plus) simp
  then have "word_of_nat m OR lead = (word_of_nat (nl + m) :: u32)"
    using assms(3,4) by (simp add: or.commute)
  moreover from m have "nl + m < 2 ^ LENGTH(32)" by simp
  ultimately show ?thesis by (simp only: ucast_word_of_nat)
qed

section \<open>Case folding\<close>

text \<open>C's \<open>tolower\<close> in the C locale, and the comparison \<open>strcasecmp\<close> makes.\<close>

definition tolower :: "byte \<Rightarrow> byte" where
  "tolower c = (if 65 \<le> c \<and> c \<le> 90 then c + 32 else c)"

definition ci_eq :: "byte list \<Rightarrow> byte list \<Rightarrow> bool" where
  "ci_eq xs ys \<longleftrightarrow> map tolower xs = map tolower ys"

lemma ci_eq_refl [simp, intro]: "ci_eq xs xs"
  by (simp add: ci_eq_def)

lemma ci_eq_sym: "ci_eq xs ys \<Longrightarrow> ci_eq ys xs"
  by (simp add: ci_eq_def)

lemma ci_eq_trans: "ci_eq xs ys \<Longrightarrow> ci_eq ys zs \<Longrightarrow> ci_eq xs zs"
  by (simp add: ci_eq_def)

lemma ci_eq_length: "ci_eq xs ys \<Longrightarrow> length xs = length ys"
  unfolding ci_eq_def by (metis length_map)

section \<open>Byte-at-a-time machines\<close>

text \<open>
  The C parsers are functions that take one character and answer non-zero (go on) or zero
  (refuse); an \<open>assert\<close> that fails ends the process. The calls of the client's callback are the
  events of the step, in order.
\<close>

datatype verdict = Accept | Reject | Abort

type_synonym ('s, 'e) machine = "'s \<Rightarrow> byte \<Rightarrow> 's \<times> 'e list \<times> verdict"

text \<open>The loop over a buffer: stop at the first character that is not accepted.\<close>

fun feed :: "('s, 'e) machine \<Rightarrow> 's \<Rightarrow> byte list \<Rightarrow> 's \<times> 'e list \<times> verdict" where
  "feed m s [] = (s, [], Accept)"
| "feed m s (c # cs) =
     (case m s c of
        (s', ev, v) \<Rightarrow>
          if v = Accept
          then (case feed m s' cs of (s'', ev', v') \<Rightarrow> (s'', ev @ ev', v'))
          else (s', ev, v))"

lemma feed_Accept_step:
  "m s c = (s', ev, Accept) \<Longrightarrow> feed m s' cs = (s'', ev', v) \<Longrightarrow>
   feed m s (c # cs) = (s'', ev @ ev', v)"
  by simp

lemma feed_stop: "m s c = (s', ev, v) \<Longrightarrow> v \<noteq> Accept \<Longrightarrow> feed m s (c # cs) = (s', ev, v)"
  by simp

lemma feed_append:
  "feed m s (xs @ ys) =
     (case feed m s xs of
        (s', ev, v) \<Rightarrow>
          if v = Accept
          then (case feed m s' ys of (s'', ev', v') \<Rightarrow> (s'', ev @ ev', v'))
          else (s', ev, v))"
  by (induction xs arbitrary: s) (auto split: prod.splits)

lemma feed_append_Accept:
  "feed m s xs = (s', ev, Accept) \<Longrightarrow> feed m s' ys = (s'', ev', v) \<Longrightarrow>
   feed m s (xs @ ys) = (s'', ev @ ev', v)"
  by (simp add: feed_append)

text \<open>
  A step made of several calls: the next call is made only when the one before it succeeded.
  \<open>check\<close> is an assertion of the source, or the bound of a memory access.
\<close>

type_synonym ('s, 'e) result = "'s \<times> 'e list \<times> verdict"

definition and_then :: "('s, 'e) result \<Rightarrow> ('s \<Rightarrow> ('s, 'e) result) \<Rightarrow> ('s, 'e) result" where
  "and_then r k =
     (case r of (s, ev, v) \<Rightarrow>
        if v = Accept then (case k s of (s', ev', v') \<Rightarrow> (s', ev @ ev', v')) else (s, ev, v))"

definition accept :: "'s \<Rightarrow> ('s, 'e) result" where
  "accept s = (s, [], Accept)"

definition refuse :: "'s \<Rightarrow> ('s, 'e) result" where
  "refuse s = (s, [], Reject)"

definition check :: "bool \<Rightarrow> 's \<Rightarrow> ('s, 'e) result" where
  "check P s = (s, [], if P then Accept else Abort)"

lemma and_then_Accept [simp]: "and_then (s, [], Accept) k = k s"
  by (simp add: and_then_def)

lemma and_then_accept [simp]: "and_then (accept s) k = k s"
  by (simp add: accept_def)

lemma and_then_events:
  "and_then (s, ev, Accept) k = (case k s of (s', ev', v') \<Rightarrow> (s', ev @ ev', v'))"
  by (simp add: and_then_def)

lemma and_then_stop [simp]: "v \<noteq> Accept \<Longrightarrow> and_then (s, ev, v) k = (s, ev, v)"
  by (simp add: and_then_def)

lemma and_then_refuse [simp]: "and_then (refuse s) k = refuse s"
  by (simp add: refuse_def)

lemma and_then_check [simp]:
  "and_then (check P s) k = (if P then k s else (s, [], Abort))"
  by (simp add: check_def)

lemma and_then_assoc: "and_then (and_then r k) l = and_then r (\<lambda>s. and_then (k s) l)"
  by (auto simp: and_then_def split: prod.splits)

text \<open>
  The contract of a machine: an invariant that every step keeps, under which no assertion fails
  and every event is well formed. The lemmas lift it to whole buffers.
\<close>

locale safe_machine =
  fixes m :: "('s, 'e) machine"
    and inv :: "'s \<Rightarrow> bool"
    and ok_event :: "'e \<Rightarrow> bool"
  assumes inv_step: "inv s \<Longrightarrow> m s c = (s', ev, v) \<Longrightarrow> v = Accept \<Longrightarrow> inv s'"
    and no_abort: "inv s \<Longrightarrow> m s c = (s', ev, v) \<Longrightarrow> v \<noteq> Abort"
    and ok_step: "inv s \<Longrightarrow> m s c = (s', ev, v) \<Longrightarrow> list_all ok_event ev"
begin

lemma inv_feed: "inv s \<Longrightarrow> feed m s cs = (s', ev, Accept) \<Longrightarrow> inv s'"
proof (induction cs arbitrary: s ev)
  case Nil
  then show ?case by simp
next
  case (Cons c cs)
  obtain s1 ev1 v1 where st: "m s c = (s1, ev1, v1)" by (cases "m s c") auto
  with Cons.prems have acc: "v1 = Accept" by (auto split: prod.splits if_splits)
  from inv_step [OF Cons.prems(1) st acc] have "inv s1" .
  with Cons.IH st acc Cons.prems(2) show ?case by (auto split: prod.splits)
qed

lemma feed_no_abort: "inv s \<Longrightarrow> feed m s cs = (s', ev, v) \<Longrightarrow> v \<noteq> Abort"
proof (induction cs arbitrary: s ev)
  case Nil
  then show ?case by simp
next
  case (Cons c cs)
  obtain s1 ev1 v1 where st: "m s c = (s1, ev1, v1)" by (cases "m s c") auto
  from no_abort [OF Cons.prems(1) st] have "v1 \<noteq> Abort" .
  then show ?case
    using Cons.IH inv_step [OF Cons.prems(1) st] st Cons.prems(2)
    by (auto split: prod.splits if_splits)
qed

lemma feed_ok_events: "inv s \<Longrightarrow> feed m s cs = (s', ev, v) \<Longrightarrow> list_all ok_event ev"
proof (induction cs arbitrary: s ev)
  case Nil
  then show ?case by simp
next
  case (Cons c cs)
  obtain s1 ev1 v1 where st: "m s c = (s1, ev1, v1)" by (cases "m s c") auto
  from ok_step [OF Cons.prems(1) st] have "list_all ok_event ev1" .
  then show ?case
    using Cons.IH inv_step [OF Cons.prems(1) st] st Cons.prems(2)
    by (auto split: prod.splits if_splits)
qed

end

text \<open>
  A machine whose events follow a protocol: an abstract automaton \<open>run\<close> over event lists, and a
  simulation \<open>sim\<close> between the machine's states and the automaton's. Whatever bytes arrive, the
  events of the whole buffer are a run of the automaton.
\<close>

locale protocol_machine =
  fixes m :: "('s, 'e) machine"
    and sim :: "'s \<Rightarrow> 'p \<Rightarrow> bool"
    and run :: "'p \<Rightarrow> 'e list \<Rightarrow> 'p option"
  assumes run_Nil: "run ph [] = Some ph"
    and run_append: "run ph (xs @ ys) = Option.bind (run ph xs) (\<lambda>ph'. run ph' ys)"
    and sim_step: "sim s ph \<Longrightarrow> m s c = (s', ev, v) \<Longrightarrow>
           \<exists>ph'. run ph ev = Some ph' \<and> (v = Accept \<longrightarrow> sim s' ph')"
begin

lemma sim_feed:
  "sim s ph \<Longrightarrow> feed m s cs = (s', ev, v) \<Longrightarrow>
   \<exists>ph'. run ph ev = Some ph' \<and> (v = Accept \<longrightarrow> sim s' ph')"
proof (induction cs arbitrary: s ph ev)
  case Nil
  then show ?case by (auto simp: run_Nil)
next
  case (Cons c cs)
  obtain s1 ev1 v1 where st: "m s c = (s1, ev1, v1)" by (cases "m s c") auto
  from sim_step [OF Cons.prems(1) st]
  obtain ph1 where r1: "run ph ev1 = Some ph1" and sim1: "v1 = Accept \<longrightarrow> sim s1 ph1" by blast
  show ?case
  proof (cases "v1 = Accept")
    case True
    with st Cons.prems(2) obtain ev2
      where fd: "feed m s1 cs = (s', ev2, v)" and ev: "ev = ev1 @ ev2"
      by (auto split: prod.splits)
    from Cons.IH [OF _ fd] sim1 True
    obtain ph2 where "run ph1 ev2 = Some ph2" "v = Accept \<longrightarrow> sim s' ph2" by blast
    with r1 ev show ?thesis by (simp add: run_append)
  next
    case False
    with st Cons.prems(2) r1 sim1 show ?thesis by auto
  qed
qed

end

subsection \<open>Weakest preconditions of steps\<close>

text \<open>
  \<open>traced run ph r Q\<close>: the result \<open>r\<close> does not abort, its events are a run of the automaton from
  \<open>ph\<close>, and if it is accepted then \<open>Q\<close> holds of the automaton's and the machine's next states.
  The rules compute it through the calls of a step, so that the simplifier proves a step by
  evaluating it.
\<close>

definition traced ::
    "('p \<Rightarrow> 'e list \<Rightarrow> 'p option) \<Rightarrow> 'p \<Rightarrow> ('s, 'e) result \<Rightarrow> ('p \<Rightarrow> 's \<Rightarrow> bool) \<Rightarrow> bool" where
  "traced run ph r Q =
     (case r of (s, ev, v) \<Rightarrow>
        v \<noteq> Abort \<and> (\<exists>ph'. run ph ev = Some ph' \<and> (v = Accept \<longrightarrow> Q ph' s)))"

fun run_list :: "('p \<Rightarrow> 'e \<Rightarrow> 'p option) \<Rightarrow> 'p \<Rightarrow> 'e list \<Rightarrow> 'p option" where
  "run_list nxt ph [] = Some ph"
| "run_list nxt ph (e # es) = (case nxt ph e of None \<Rightarrow> None | Some ph' \<Rightarrow> run_list nxt ph' es)"

lemma run_list_append:
  "run_list nxt ph (xs @ ys) = Option.bind (run_list nxt ph xs) (\<lambda>ph'. run_list nxt ph' ys)"
  by (induction xs arbitrary: ph) (auto split: option.splits)

named_theorems traced_rules \<open>evaluation of traced\<close>

lemma traced_accept [traced_rules]: "traced (run_list nxt) ph (accept s) Q = Q ph s"
  by (simp add: traced_def accept_def)

lemma traced_refuse [traced_rules]: "traced (run_list nxt) ph (refuse s) Q"
  by (simp add: traced_def refuse_def)

lemma traced_check [traced_rules]: "traced (run_list nxt) ph (check P s) Q = (P \<and> Q ph s)"
  by (simp add: traced_def check_def)

lemma traced_and_then [traced_rules]:
  "traced (run_list nxt) ph (and_then r k) Q =
     traced (run_list nxt) ph r (\<lambda>ph' s. traced (run_list nxt) ph' (k s) Q)"
  by (cases r)
    (auto simp: traced_def and_then_def run_list_append split: prod.splits if_splits
      bind_splits)

lemma traced_Accept [simp]: "traced (run_list nxt) ph (s, [], Accept) Q = Q ph s"
  by (simp add: traced_def)

lemma traced_Abort [simp]: "\<not> traced run ph (s, ev, Abort) Q"
  by (simp add: traced_def)

lemma traced_mono:
  "traced run ph r Q \<Longrightarrow> (\<And>ph s. Q ph s \<Longrightarrow> R ph s) \<Longrightarrow> traced run ph r R"
  by (auto simp: traced_def)

text \<open>
  The same for steps that must succeed: \<open>yields r Q\<close> says that \<open>r\<close> is accepted and that \<open>Q\<close> holds
  of its events and its state.
\<close>

definition yields :: "('s, 'e) result \<Rightarrow> ('e list \<Rightarrow> 's \<Rightarrow> bool) \<Rightarrow> bool" where
  "yields r Q = (case r of (s, ev, v) \<Rightarrow> v = Accept \<and> Q ev s)"

named_theorems yields_rules \<open>evaluation of yields\<close>

lemma yields_accept [yields_rules]: "yields (accept s) Q = Q [] s"
  by (simp add: yields_def accept_def)

lemma yields_refuse [yields_rules]: "\<not> yields (refuse s) Q"
  by (simp add: yields_def refuse_def)

lemma yields_check [yields_rules]: "yields (check P s) Q = (P \<and> Q [] s)"
  by (simp add: yields_def check_def)

lemma yields_Accept [simp]: "yields (s, ev, Accept) Q = Q ev s"
  by (simp add: yields_def)

lemma yields_Abort [simp]: "\<not> yields (s, ev, Abort) Q"
  by (simp add: yields_def)

lemma yields_and_then [yields_rules]:
  "yields (and_then r k) Q = yields r (\<lambda>ev s. yields (k s) (\<lambda>ev' s'. Q (ev @ ev') s'))"
  by (cases r) (auto simp: yields_def and_then_def split: prod.splits if_splits)

lemma yields_feed_Nil [yields_rules]: "yields (feed m s []) Q = Q [] s"
  by (simp add: yields_def)

lemma yields_feed_Cons [yields_rules]:
  "yields (feed m s (c # cs)) Q = yields (m s c) (\<lambda>ev s'. yields (feed m s' cs) (\<lambda>ev' s''. Q (ev @ ev') s''))"
  by (auto simp: yields_def split: prod.splits if_splits)

lemma yields_feed_append:
  "yields (feed m s (xs @ ys)) Q = yields (feed m s xs) (\<lambda>ev s'. yields (feed m s' ys) (\<lambda>ev' s''. Q (ev @ ev') s''))"
  by (auto simp: yields_def feed_append split: prod.splits if_splits)

lemma yields_mono: "yields r Q \<Longrightarrow> (\<And>ev s. Q ev s \<Longrightarrow> R ev s) \<Longrightarrow> yields r R"
  by (auto simp: yields_def)

section \<open>Linked chains\<close>

text \<open>
  Objects reached through pointers live in a store indexed by addresses; \<open>chain nx p as\<close> says that
  following \<open>nx\<close> from \<open>p\<close> visits exactly the addresses \<open>as\<close> and ends at NULL.
\<close>

type_synonym addr = nat

fun chain :: "('a \<Rightarrow> 'a option) \<Rightarrow> 'a option \<Rightarrow> 'a list \<Rightarrow> bool" where
  "chain nx p [] = (p = None)"
| "chain nx p (a # as) = (p = Some a \<and> chain nx (nx a) as)"

lemma chain_cong: "(\<And>a. a \<in> set as \<Longrightarrow> nx a = ny a) \<Longrightarrow> chain nx p as = chain ny p as"
  by (induction as arbitrary: p) auto

lemma chain_unique: "chain nx p as \<Longrightarrow> chain nx p bs \<Longrightarrow> as = bs"
proof (induction as arbitrary: p bs)
  case Nil
  then show ?case by (cases bs) auto
next
  case (Cons a as)
  then show ?case by (cases bs) auto
qed


end
