(* ===== verification/Pool.thy ===== *)
theory Pool
  imports Ape_Prelude
begin

text \<open>
  The pools of \<^verbatim>\<open>src/core/ape_pool.c\<close>: blocks of cells, linked into one list, of which the first cell
  of each block carries the flag that says that a block begins there. A cell's address is its block
  and its index; the cells of a larger structure that begins with an \<open>ape_pool_t\<close> extend the record.
  Following a null or freed pointer, or freeing an address that is not the beginning of a block, is
  undefined behaviour: the result \<open>None\<close>.
\<close>

section \<open>Cells\<close>

type_synonym paddr = "addr \<times> nat"

record 'p pool =
  pl_ptr :: "'p option"
  pl_next :: "paddr option"
  pl_flags :: u32

type_synonym ('p, 'z) pool_heap = "('p, 'z) pool_scheme list option list"

definition APE_POOL_ALLOC :: u32 where "APE_POOL_ALLOC = 0x01"

definition pool_get :: "('p, 'z) pool_heap \<Rightarrow> paddr \<Rightarrow> ('p, 'z) pool_scheme option" where
  "pool_get h a =
     (if fst a < length h
      then (case h ! fst a of None \<Rightarrow> None | Some cs \<Rightarrow> if snd a < length cs then Some (cs ! snd a) else None)
      else None)"

definition pool_upd ::
    "paddr \<Rightarrow> (('p, 'z) pool_scheme \<Rightarrow> ('p, 'z) pool_scheme) \<Rightarrow> ('p, 'z) pool_heap \<Rightarrow> ('p, 'z) pool_heap option" where
  "pool_upd a f h =
     (case pool_get h a of
        None \<Rightarrow> None
      | Some c \<Rightarrow> Some (h[fst a := Some ((the (h ! fst a))[snd a := f c])]))"

definition pool_free :: "paddr \<Rightarrow> ('p, 'z) pool_heap \<Rightarrow> ('p, 'z) pool_heap option" where
  "pool_free a h =
     (if snd a = 0 \<and> fst a < length h \<and> h ! fst a \<noteq> None then Some (h[fst a := None]) else None)"

section \<open>Pools\<close>

text \<open>\<open>mk\<close> is what the memory of a cell holds when it is allocated.\<close>

definition ape_new_pool :: "('p, 'z) pool_scheme \<Rightarrow> nat \<Rightarrow> ('p, 'z) pool_heap \<Rightarrow> paddr \<times> ('p, 'z) pool_heap" where
  "ape_new_pool mk n h =
     (let b = length h
      in ((b, 0), h @ [Some (map (\<lambda>i.
            mk\<lparr>pl_next := (if i = n - 1 then None else Some (b, i + 1)), pl_ptr := None,
               pl_flags := (if i = 0 then APE_POOL_ALLOC else 0)\<rparr>) [0..<n])]))"

record pool_list =
  ps_head :: "paddr option"
  ps_queue :: "paddr option"
  ps_current :: "paddr option"

definition ape_init_pool_list :: "('p, 'z) pool_scheme \<Rightarrow> nat \<Rightarrow> ('p, 'z) pool_heap \<Rightarrow> pool_list \<times> ('p, 'z) pool_heap" where
  "ape_init_pool_list mk n h =
     (let (pool, h) = ape_new_pool mk n h
      in (\<lparr>ps_head = Some pool, ps_queue = Some (fst pool, n - 1), ps_current = Some pool\<rparr>, h))"

definition ape_new_pool_list :: "('p, 'z) pool_scheme \<Rightarrow> nat \<Rightarrow> ('p, 'z) pool_heap \<Rightarrow> pool_list \<times> ('p, 'z) pool_heap" where
  "ape_new_pool_list mk n h = ape_init_pool_list mk n h"

text \<open>The new list; its head is what the function returns.\<close>

definition ape_pool_head_to_queue :: "pool_list \<Rightarrow> ('p, 'z) pool_heap \<Rightarrow> (pool_list \<times> ('p, 'z) pool_heap) option" where
  "ape_pool_head_to_queue l h =
     Option.bind (ps_head l) (\<lambda>head.
     Option.bind (pool_get h head) (\<lambda>hc.
     let l = l\<lparr>ps_head := pl_next hc\<rparr> in
     Option.bind (ps_queue l) (\<lambda>queue.
     Option.bind (pool_upd queue (\<lambda>c. c\<lparr>pl_next := Some head\<rparr>) h) (\<lambda>h.
     let l = l\<lparr>ps_queue := Some head\<rparr> in
     Option.bind (pool_upd head (\<lambda>c. c\<lparr>pl_next := None\<rparr>) h) (\<lambda>h.
     Some (l, h))))))"

definition ape_pool_head_to_current :: "pool_list \<Rightarrow> ('p, 'z) pool_heap \<Rightarrow> (pool_list \<times> ('p, 'z) pool_heap) option" where
  "ape_pool_head_to_current l h =
     (if ps_head l = ps_current l then Some (l, h)
      else
        Option.bind (ps_head l) (\<lambda>head.
        Option.bind (pool_get h head) (\<lambda>hc.
        let l = l\<lparr>ps_head := pl_next hc\<rparr> in
        Option.bind (ps_current l) (\<lambda>current.
        Option.bind (pool_get h current) (\<lambda>cc.
        Option.bind (pool_upd head (\<lambda>c. c\<lparr>pl_next := pl_next cc\<rparr>) h) (\<lambda>h.
        Option.bind (pool_upd current (\<lambda>c. c\<lparr>pl_next := Some head\<rparr>) h) (\<lambda>h.
        let l = l\<lparr>ps_current := Some head\<rparr> in
        Option.bind (pool_get h head) (\<lambda>hc.
        Some (if pl_next hc = None then l\<lparr>ps_queue := Some head\<rparr> else l, h)))))))))"

definition ape_grow_pool ::
    "('p, 'z) pool_scheme \<Rightarrow> nat \<Rightarrow> pool_list \<Rightarrow> ('p, 'z) pool_heap \<Rightarrow>
     (paddr \<times> pool_list \<times> ('p, 'z) pool_heap) option" where
  "ape_grow_pool mk n l h =
     (let (pool, h) = ape_new_pool mk n h
      in Option.bind (ps_queue l) (\<lambda>queue.
         Option.bind (pool_upd queue (\<lambda>c. c\<lparr>pl_next := Some pool\<rparr>) h) (\<lambda>h.
         Some (pool, l\<lparr>ps_queue := Some (fst pool, n - 1)\<rparr>, h))))"

section \<open>Destroying a pool\<close>

text \<open>
  In order: a block is freed when the next one begins. The cleaner of a block sees the memory, the
  cells and the rest of it, \<open>'b\<close>.
\<close>

type_synonym ('p, 'z, 'b) pool_cleaner =
  "(paddr \<Rightarrow> ('p, 'z) pool_heap \<times> 'b \<Rightarrow> (('p, 'z) pool_heap \<times> 'b) option) option"

definition destroy_block ::
    "('p, 'z, 'b) pool_cleaner \<Rightarrow> paddr option \<Rightarrow> ('p, 'z) pool_heap \<times> 'b \<Rightarrow> (('p, 'z) pool_heap \<times> 'b) option" where
  "destroy_block cleaner tPool s =
     (case tPool of
        None \<Rightarrow> Some s
      | Some t \<Rightarrow>
          Option.bind (case cleaner of None \<Rightarrow> Some s | Some f \<Rightarrow> f t s) (\<lambda>(h, rest).
          Option.bind (pool_free t h) (\<lambda>h. Some (h, rest))))"

partial_function (option) destroy_ordered_loop ::
    "('p, 'z, 'b) pool_cleaner \<Rightarrow> paddr option \<Rightarrow> paddr option \<Rightarrow> ('p, 'z) pool_heap \<times> 'b \<Rightarrow>
     (('p, 'z) pool_heap \<times> 'b) option" where
  "destroy_ordered_loop cleaner pool tPool s =
     (case pool of
        None \<Rightarrow> destroy_block cleaner tPool s
      | Some a \<Rightarrow>
          Option.bind (pool_get (fst s) a) (\<lambda>c.
          if pl_flags c AND APE_POOL_ALLOC \<noteq> 0
          then Option.bind (destroy_block cleaner tPool s) (\<lambda>s.
               Option.bind (pool_get (fst s) a) (\<lambda>c.
               destroy_ordered_loop cleaner (pl_next c) (Some a) s))
          else destroy_ordered_loop cleaner (pl_next c) tPool s))"

declare destroy_ordered_loop.simps [code]

definition ape_destroy_pool_ordered ::
    "('p, 'z, 'b) pool_cleaner \<Rightarrow> paddr option \<Rightarrow> ('p, 'z) pool_heap \<times> 'b \<Rightarrow> (('p, 'z) pool_heap \<times> 'b) option" where
  "ape_destroy_pool_ordered cleaner pool s = destroy_ordered_loop cleaner pool None s"

text \<open>
  Without a cleaner: the first cells of the blocks are first linked to each other, the last block in
  front, and taken out of the list through the first one.
\<close>

partial_function (option) destroy_link_loop ::
    "paddr option \<Rightarrow> paddr option \<Rightarrow> paddr option \<Rightarrow> ('p, 'z) pool_heap \<Rightarrow>
     (paddr option \<times> paddr option \<times> ('p, 'z) pool_heap) option" where
  "destroy_link_loop pool tPool fPool h =
     (case pool of
        None \<Rightarrow> Some (tPool, fPool, h)
      | Some a \<Rightarrow>
          Option.bind (pool_get h a) (\<lambda>c.
          if pl_flags c AND APE_POOL_ALLOC \<noteq> 0
          then (case tPool of
                  None \<Rightarrow> destroy_link_loop (pl_next c) (Some a) (if fPool = None then Some a else fPool) h
                | Some t \<Rightarrow>
                    Option.bind (if fPool = None then Some a else fPool) (\<lambda>f.
                    Option.bind (pool_upd f (\<lambda>d. d\<lparr>pl_next := pl_next c\<rparr>) h) (\<lambda>h.
                    Option.bind (pool_upd a (\<lambda>d. d\<lparr>pl_next := Some t\<rparr>) h) (\<lambda>h.
                    Option.bind (pool_get h f) (\<lambda>fc.
                    destroy_link_loop (pl_next fc) (Some a) (Some f) h)))))
          else destroy_link_loop (pl_next c) tPool fPool h))"

partial_function (option) destroy_free_loop ::
    "paddr option \<Rightarrow> ('p, 'z) pool_heap \<Rightarrow> ('p, 'z) pool_heap option" where
  "destroy_free_loop pool h =
     (case pool of
        None \<Rightarrow> Some h
      | Some a \<Rightarrow>
          Option.bind (pool_get h a) (\<lambda>c.
          if pl_flags c AND APE_POOL_ALLOC \<noteq> 0
          then Option.bind (pool_free a h) (destroy_free_loop (pl_next c))
          else Some h))"

declare destroy_link_loop.simps [code] destroy_free_loop.simps [code]

definition ape_destroy_pool :: "paddr option \<Rightarrow> ('p, 'z) pool_heap \<Rightarrow> ('p, 'z) pool_heap option" where
  "ape_destroy_pool pool h =
     Option.bind (destroy_link_loop pool None None h) (\<lambda>(tPool, fPool, h).
     Option.bind fPool (\<lambda>f.
     Option.bind (pool_upd f (\<lambda>c. c\<lparr>pl_next := None\<rparr>) h) (\<lambda>h.
     destroy_free_loop tPool h)))"

definition ape_destroy_pool_list :: "pool_list \<Rightarrow> ('p, 'z) pool_heap \<Rightarrow> ('p, 'z) pool_heap option" where
  "ape_destroy_pool_list l h = ape_destroy_pool (ps_head l) h"

definition ape_destroy_pool_list_ordered ::
    "pool_list \<Rightarrow> ('p, 'z, 'b) pool_cleaner \<Rightarrow> ('p, 'z) pool_heap \<times> 'b \<Rightarrow> (('p, 'z) pool_heap \<times> 'b) option" where
  "ape_destroy_pool_list_ordered l cleaner s = ape_destroy_pool_ordered cleaner (ps_head l) s"

section \<open>The list of cells\<close>

definition pool_next :: "('p, 'z) pool_heap \<Rightarrow> paddr \<Rightarrow> paddr option" where
  "pool_next h a = Option.bind (pool_get h a) pl_next"

definition pool_begins :: "('p, 'z) pool_heap \<Rightarrow> paddr \<Rightarrow> bool" where
  "pool_begins h a \<longleftrightarrow> (\<exists>c. pool_get h a = Some c \<and> pl_flags c AND APE_POOL_ALLOC \<noteq> 0)"

definition pool_blocks :: "('p, 'z) pool_heap \<Rightarrow> addr set" where
  "pool_blocks h = {b. b < length h \<and> h ! b \<noteq> None}"

lemma pool_upd_get:
  assumes "pool_get h a = Some c"
  shows "\<exists>h'. pool_upd a f h = Some h' \<and> pool_get h' = (pool_get h)(a := Some (f c)) \<and>
    pool_blocks h' = pool_blocks h \<and> length h' = length h"
proof -
  obtain b i where a: "a = (b, i)" by (cases a)
  with assms obtain cs where b: "b < length h" "h ! b = Some cs" "i < length cs" "cs ! i = c"
    by (auto simp: pool_get_def split: if_splits option.splits)
  let ?h = "h[b := Some (cs[i := f c])]"
  have "pool_upd a f h = Some ?h" using assms b by (simp add: pool_upd_def a)
  moreover have "pool_get ?h = (pool_get h)(a := Some (f c))"
    using b by (auto simp: fun_eq_iff pool_get_def a nth_list_update)
  moreover have "pool_blocks ?h = pool_blocks h" using b by (auto simp: pool_blocks_def nth_list_update)
  ultimately show ?thesis by auto
qed

lemma pool_free_get:
  assumes "b \<in> pool_blocks h"
  shows "\<exists>h'. pool_free (b, 0) h = Some h' \<and> pool_get h' = (\<lambda>a. if fst a = b then None else pool_get h a) \<and>
    pool_blocks h' = pool_blocks h - {b}"
  using assms by (auto simp: pool_free_def pool_blocks_def pool_get_def fun_eq_iff nth_list_update)

lemma pool_get_block: "pool_get h a \<noteq> None \<Longrightarrow> fst a \<in> pool_blocks h"
  by (auto simp: pool_get_def pool_blocks_def split: if_splits option.splits)

lemma ape_new_pool_get:
  assumes "ape_new_pool mk n h = (pool, h')"
  shows "pool = (length h, 0) \<and> pool_blocks h' = insert (length h) (pool_blocks h) \<and>
    pool_get h' = (\<lambda>a. if fst a = length h
      then if snd a < n
        then Some (mk\<lparr>pl_next := (if snd a = n - 1 then None else Some (length h, snd a + 1)), pl_ptr := None,
          pl_flags := (if snd a = 0 then APE_POOL_ALLOC else 0)\<rparr>)
        else None
      else pool_get h a)"
  using assms
  by (auto simp: ape_new_pool_def Let_def pool_blocks_def pool_get_def fun_eq_iff nth_append split: if_splits)

text \<open>
  The invariant: the list visits every cell that is allocated once, ends at \<open>queue\<close>, and the cells
  with the flag are the first ones of the blocks. The cells may be in any order.
\<close>

definition pool_ok :: "pool_list \<Rightarrow> ('p, 'z) pool_heap \<Rightarrow> paddr list \<Rightarrow> bool" where
  "pool_ok l h cs \<longleftrightarrow>
     chain (pool_next h) (ps_head l) cs \<and> distinct cs \<and> cs \<noteq> [] \<and> ps_queue l = Some (last cs) \<and>
     {a. pool_get h a \<noteq> None} = set cs \<and> (\<forall>a\<in>set cs. pool_begins h a \<longleftrightarrow> snd a = 0) \<and>
     (\<forall>b\<in>pool_blocks h. (b, 0) \<in> set cs)"

lemma pool_okD:
  assumes "pool_ok l h cs"
  shows "chain (pool_next h) (ps_head l) cs" "distinct cs" "cs \<noteq> []" "ps_queue l = Some (last cs)"
    "pool_get h a \<noteq> None \<longleftrightarrow> a \<in> set cs" "a \<in> set cs \<Longrightarrow> pool_begins h a \<longleftrightarrow> snd a = 0"
    "b \<in> pool_blocks h \<Longrightarrow> (b, 0) \<in> set cs"
  using assms unfolding pool_ok_def by blast+

lemma chain_cells: "0 < n - i \<Longrightarrow> (\<And>k. i \<le> k \<Longrightarrow> k < n \<Longrightarrow> nx (b, k) = (if k = n - 1 then q else Some (b, k + 1))) \<Longrightarrow>
   chain nx q ys \<Longrightarrow> chain nx (Some (b, i)) (map (Pair b) [i..<n] @ ys)"
proof (induction "n - i" arbitrary: i)
  case (Suc m)
  then have i: "i < n" by simp
  show ?case
  proof (cases "i = n - 1")
    case True
    then have "[i..<n] = [i]" using i by (simp add: upt_rec)
    with Suc.prems True i show ?thesis by simp
  next
    case False
    have "chain nx (Some (b, Suc i)) (map (Pair b) [Suc i..<n] @ ys)"
      by (rule Suc.hyps(1)) (use Suc False in auto)
    with Suc.prems(2) [of i] False i show ?thesis by (simp add: upt_rec [of i n])
  qed
qed simp

lemma ape_init_pool_list_ok:
  assumes "0 < n" "pool_blocks h0 = {}" "ape_init_pool_list mk n h0 = (l, h)"
  shows "pool_ok l h (map (Pair (length h0)) [0..<n]) \<and> ps_current l = Some (length h0, 0) \<and> length h = length h0 + 1 \<and>
    (\<forall>i<n. \<exists>q. pool_get h (length h0, i) = Some (mk\<lparr>pl_next := q, pl_ptr := None, pl_flags := (if i = 0 then APE_POOL_ALLOC else 0)\<rparr>))"
proof -
  obtain pool h' where n: "ape_new_pool mk n h0 = (pool, h')" by (cases "ape_new_pool mk n h0")
  note g = ape_new_pool_get [OF n]
  let ?b = "length h0"
  have l: "l = \<lparr>ps_head = Some (?b, 0), ps_queue = Some (?b, n - 1), ps_current = Some (?b, 0)\<rparr>" "h = h'"
    using assms(3) n g by (auto simp: ape_init_pool_list_def)
  have e: "pool_get h0 a = None" for a using assms(2) pool_get_block [of h0 a] by blast
  have "chain (pool_next h) (Some (?b, 0)) (map (Pair ?b) [0..<n] @ [])"
    by (rule chain_cells) (use assms(1) g in \<open>auto simp: l(2) pool_next_def\<close>)
  moreover have "{a. pool_get h a \<noteq> None} = set (map (Pair ?b) [0..<n])"
    using g e by (auto simp: l(2) image_iff split: if_splits)
  moreover have "Some (?b, n - 1) = Some (last (map (Pair ?b) [0..<n]))" using assms(1) by (simp add: last_map)
  moreover have "pool_begins h (?b, i) = (i = 0)" if "i < n" for i
    using g that by (auto simp: l(2) pool_begins_def APE_POOL_ALLOC_def)
  moreover have "pool_blocks h = {?b}" using g assms(2) by (auto simp: l(2))
  moreover have "distinct (map (Pair ?b) [0..<n])" by (simp add: distinct_map inj_on_def)
  ultimately have "pool_ok l h (map (Pair ?b) [0..<n])" using assms(1) unfolding pool_ok_def l(1) by auto
  moreover have "length h' = length h0 + 1" using n by (auto simp: ape_new_pool_def Let_def)
  moreover have "\<exists>q. pool_get h (?b, i) = Some (mk\<lparr>pl_next := q, pl_ptr := None, pl_flags := (if i = 0 then APE_POOL_ALLOC else 0)\<rparr>)"
    if "i < n" for i using that g by (simp add: l(2)) blast
  ultimately show ?thesis by (simp add: l)
qed

text \<open>The last cell gets a successor.\<close>

lemma chain_extend:
  "chain nx p cs \<Longrightarrow> cs \<noteq> [] \<Longrightarrow> distinct cs \<Longrightarrow> chain (nx(last cs := q)) q ds \<Longrightarrow>
   chain (nx(last cs := q)) p (cs @ ds)"
proof (induction cs arbitrary: p)
  case (Cons c cs)
  show ?case
  proof (cases "cs = []")
    case True
    with Cons.prems show ?thesis by simp
  next
    case False
    have l: "last (c # cs) = last cs" using False by simp
    have "chain nx (nx c) cs" "distinct cs" using Cons.prems by simp_all
    from Cons.IH [OF this(1) False this(2) Cons.prems(4) [unfolded l]]
    have "chain (nx(last cs := q)) (nx c) (cs @ ds)" .
    moreover have "last cs \<noteq> c" using Cons.prems(3) False by auto
    then have "(nx(last cs := q)) c = nx c" by simp
    moreover have "p = Some c" using Cons.prems(1) by simp
    ultimately show ?thesis unfolding l append_Cons chain.simps by metis
  qed
qed simp

lemma pool_next_upd:
  "pool_get h' = (pool_get h)(a := Some c) \<Longrightarrow> pool_next h' = (pool_next h)(a := pl_next c)"
  by (auto simp: pool_next_def fun_eq_iff)

lemma pool_begins_upd:
  "pool_get h' = (pool_get h)(a := Some c) \<Longrightarrow> pool_get h a = Some d \<Longrightarrow>
   pl_flags c AND APE_POOL_ALLOC = pl_flags d AND APE_POOL_ALLOC \<Longrightarrow> pool_begins h' = pool_begins h"
  by (auto simp: pool_begins_def fun_eq_iff)

lemma ape_grow_pool_ok:
  assumes ok: "pool_ok l h cs" and n: "0 < n"
  shows "\<exists>l' h'. ape_grow_pool mk n l h = Some ((length h, 0), l', h') \<and>
    pool_ok l' h' (cs @ map (Pair (length h)) [0..<n]) \<and> ps_head l' = ps_head l \<and> ps_current l' = ps_current l \<and>
    length h' = length h + 1 \<and>
    (\<forall>a. fst a \<noteq> length h \<longrightarrow> map_option (\<lambda>c. c\<lparr>pl_next := None\<rparr>) (pool_get h' a) = map_option (\<lambda>c. c\<lparr>pl_next := None\<rparr>) (pool_get h a)) \<and>
    (\<forall>i<n. \<exists>q. pool_get h' (length h, i) = Some (mk\<lparr>pl_next := q, pl_ptr := None, pl_flags := (if i = 0 then APE_POOL_ALLOC else 0)\<rparr>))"
proof -
  let ?b = "length h"
  obtain pool h1 where n1: "ape_new_pool mk n h = (pool, h1)" by (cases "ape_new_pool mk n h")
  note g = ape_new_pool_get [OF n1]
  note o = pool_okD [OF ok]
  have old: "fst a \<noteq> ?b" if "a \<in> set cs" for a
    using that o(5) [of a] pool_get_block [of h a] by (auto simp: pool_blocks_def)
  let ?q = "last cs"
  have q: "?q \<in> set cs" using o(3) by simp
  have nb: "(?b, k) \<notin> set cs" for k using old by force
  have qb: "(?b, k) \<noteq> ?q" "?q \<noteq> (?b, k)" for k using old [OF q] by (metis fst_conv)+
  from q o(5) [of ?q] obtain qc where qc: "pool_get h ?q = Some qc" by blast
  with old [OF q] g have q1: "pool_get h1 ?q = Some qc" by simp
  obtain h2 where h2: "pool_upd ?q (\<lambda>c. c\<lparr>pl_next := Some pool\<rparr>) h1 = Some h2"
    "pool_get h2 = (pool_get h1)(?q := Some (qc\<lparr>pl_next := Some pool\<rparr>))" "pool_blocks h2 = pool_blocks h1"
    "length h2 = length h1"
    using pool_upd_get [OF q1] by blast
  have nx: "pool_next h2 = (pool_next h1)(?q := Some (?b, 0))" using pool_next_upd [OF h2(2)] g by simp
  have "chain (pool_next h1) (ps_head l) cs = chain (pool_next h) (ps_head l) cs"
    by (rule chain_cong) (use g old in \<open>simp add: pool_next_def\<close>)
  then have c1: "chain (pool_next h1) (ps_head l) cs" using o(1) by simp
  have "chain (pool_next h2) (Some (?b, 0)) (map (Pair ?b) [0..<n] @ [])"
    by (rule chain_cells) (use n g qb in \<open>auto simp: nx pool_next_def\<close>)
  then have "chain ((pool_next h1)(?q := Some (?b, 0))) (Some (?b, 0)) (map (Pair ?b) [0..<n])" by (simp add: nx)
  from chain_extend [OF c1 o(3,2) this] have "chain (pool_next h2) (ps_head l) (cs @ map (Pair ?b) [0..<n])"
    by (simp add: nx)
  moreover have "distinct (cs @ map (Pair ?b) [0..<n])" using o(2) old by (fastforce simp: distinct_map inj_on_def)
  moreover have "last (cs @ map (Pair ?b) [0..<n]) = (?b, n - 1)" using n by (simp add: last_map)
  moreover have "{a. pool_get h2 a \<noteq> None} = set (cs @ map (Pair ?b) [0..<n])"
  proof (rule set_eqI)
    fix a
    show "a \<in> {a. pool_get h2 a \<noteq> None} \<longleftrightarrow> a \<in> set (cs @ map (Pair ?b) [0..<n])"
      using o(5) [of a] q nb g by (cases a) (auto simp: h2(2) split: if_splits)
  qed
  moreover have "pool_begins h2 a \<longleftrightarrow> snd a = 0" if "a \<in> set (cs @ map (Pair ?b) [0..<n])" for a
  proof -
    have "pool_begins h2 a = pool_begins h1 a" using pool_begins_upd [OF h2(2) q1] by simp
    also have "\<dots> \<longleftrightarrow> snd a = 0"
    proof (cases "a \<in> set cs")
      case True
      with o(6) [OF True] old [OF True] g show ?thesis by (simp add: pool_begins_def)
    next
      case False
      with that g show ?thesis by (auto simp: pool_begins_def APE_POOL_ALLOC_def)
    qed
    finally show ?thesis .
  qed
  moreover have "(b, 0) \<in> set (cs @ map (Pair ?b) [0..<n])" if "b \<in> pool_blocks h2" for b
    using that g n o(7) [of b] by (auto simp: h2(3))
  ultimately have "pool_ok (l\<lparr>ps_queue := Some (?b, n - 1)\<rparr>) h2 (cs @ map (Pair ?b) [0..<n])"
    using n by (simp add: pool_ok_def)
  moreover have "ape_grow_pool mk n l h = Some ((?b, 0), l\<lparr>ps_queue := Some (?b, n - 1)\<rparr>, h2)"
    using n1 o(4) h2(1) g by (simp add: ape_grow_pool_def)
  moreover have "length h1 = length h + 1" using n1 by (auto simp: ape_new_pool_def Let_def)
  moreover have "map_option (\<lambda>c. c\<lparr>pl_next := None\<rparr>) (pool_get h2 a) = map_option (\<lambda>c. c\<lparr>pl_next := None\<rparr>) (pool_get h a)"
    if "fst a \<noteq> ?b" for a using that g qc by (simp add: h2(2))
  moreover have "\<exists>q. pool_get h2 (?b, i) = Some (mk\<lparr>pl_next := q, pl_ptr := None, pl_flags := (if i = 0 then APE_POOL_ALLOC else 0)\<rparr>)"
    if "i < n" for i using that g qb by (auto simp: h2(2))
  ultimately show ?thesis using h2(4) by auto
qed

text \<open>The two rotations keep the cells, in another order.\<close>

lemma chain_append_iff:
  "chain nx p (xs @ a # ys) \<longleftrightarrow>
     (if xs = [] then p = Some a else nx (last xs) = Some a \<and> chain (nx(last xs := None)) p xs) \<and> chain nx (nx a) ys"
  if "distinct (xs @ a # ys)"
  using that
proof (induction xs arbitrary: p)
  case (Cons x xs)
  show ?case
  proof (cases "xs = []")
    case False
    have l: "last (x # xs) = last xs" "last xs \<noteq> x" using False Cons.prems by auto
    have "chain nx p (x # xs @ a # ys) \<longleftrightarrow> p = Some x \<and> chain nx (nx x) (xs @ a # ys)" by simp
    also have "\<dots> \<longleftrightarrow> p = Some x \<and> nx (last xs) = Some a \<and> chain (nx(last xs := None)) (nx x) xs \<and> chain nx (nx a) ys"
      using Cons False by simp
    finally have e: "chain nx p (x # xs @ a # ys) \<longleftrightarrow>
        p = Some x \<and> nx (last xs) = Some a \<and> chain (nx(last xs := None)) (nx x) xs \<and> chain nx (nx a) ys" .
    have u: "(nx(last xs := None)) x = nx x" using l(2) by simp
    show ?thesis using e unfolding append_Cons l(1) by (simp only: chain.simps u list.distinct if_False) blast
  qed auto
qed simp

lemma pool_ok_perm:
  assumes ok: "pool_ok l h cs" and s: "set ds = set cs" "distinct ds"
    and g: "\<And>a. map_option (\<lambda>c. c\<lparr>pl_next := None\<rparr>) (pool_get h' a) = map_option (\<lambda>c. c\<lparr>pl_next := None\<rparr>) (pool_get h a)"
    and "pool_blocks h' = pool_blocks h" "chain (pool_next h') (ps_head l') ds" "ps_queue l' = Some (last ds)"
  shows "pool_ok l' h' ds"
proof -
  have n: "pool_get h' a = None \<longleftrightarrow> pool_get h a = None" for a using g [of a] by (cases "pool_get h a"; cases "pool_get h' a") auto
  have f: "pool_begins h' a = pool_begins h a" for a
  proof (cases "pool_get h a")
    case None
    then show ?thesis using n [of a] by (simp add: pool_begins_def)
  next
    case (Some c)
    then obtain c' where c': "pool_get h' a = Some c'" using n [of a] by (cases "pool_get h' a") auto
    with g [of a] Some have "c'\<lparr>pl_next := None\<rparr> = c\<lparr>pl_next := None\<rparr>" by simp
    then have "pl_flags (c'\<lparr>pl_next := None\<rparr>) = pl_flags (c\<lparr>pl_next := None\<rparr>)" by (rule arg_cong)
    with Some c' show ?thesis by (simp add: pool_begins_def)
  qed
  have "ds \<noteq> []" using s(1) pool_okD(3) [OF ok] by auto
  then show ?thesis using ok s assms(5-7) unfolding pool_ok_def n f by simp
qed

lemma head_to_queue_ok:
  assumes ok: "pool_ok l h (a # cs)" and cs: "cs \<noteq> []"
  shows "\<exists>l' h'. ape_pool_head_to_queue l h = Some (l', h') \<and> pool_ok l' h' (cs @ [a]) \<and> ps_current l' = ps_current l \<and>
    (\<forall>x. map_option (\<lambda>c. c\<lparr>pl_next := None\<rparr>) (pool_get h' x) = map_option (\<lambda>c. c\<lparr>pl_next := None\<rparr>) (pool_get h x))"
proof -
  note o = pool_okD [OF ok]
  let ?q = "last cs"
  have d: "distinct (a # cs)" "?q \<noteq> a" using o(2) cs by auto
  obtain ac where ac: "pool_get h a = Some ac" using o(5) [of a] by auto
  obtain qc where qc: "pool_get h ?q = Some qc" using o(5) [of ?q] cs by auto
  obtain h1 where h1: "pool_upd ?q (\<lambda>c. c\<lparr>pl_next := Some a\<rparr>) h = Some h1"
    "pool_get h1 = (pool_get h)(?q := Some (qc\<lparr>pl_next := Some a\<rparr>))" "pool_blocks h1 = pool_blocks h"
    using pool_upd_get [OF qc] by blast
  have a1: "pool_get h1 a = Some ac" using ac d(2) h1(2) by simp
  obtain h2 where h2: "pool_upd a (\<lambda>c. c\<lparr>pl_next := None\<rparr>) h1 = Some h2"
    "pool_get h2 = (pool_get h1)(a := Some (ac\<lparr>pl_next := None\<rparr>))" "pool_blocks h2 = pool_blocks h1"
    using pool_upd_get [OF a1] by blast
  have nx: "pool_next h2 = (pool_next h)(?q := Some a, a := None)"
    using pool_next_upd [OF h1(2)] pool_next_upd [OF h2(2)] by simp
  have p: "ps_head l = Some a" "chain (pool_next h) (pl_next ac) cs"
    using o(1) ac by (simp_all add: pool_next_def)
  have "chain ((pool_next h)(a := None)) (pl_next ac) cs = chain (pool_next h) (pl_next ac) cs"
    by (rule chain_cong) (use d in auto)
  then have "chain (((pool_next h)(a := None))(?q := Some a)) (pl_next ac) (cs @ [a])"
    using chain_extend [of "(pool_next h)(a := None)" "pl_next ac" cs "Some a" "[a]"] p(2) cs d by simp
  moreover have "((pool_next h)(a := None))(?q := Some a) = pool_next h2" using d(2) by (simp add: nx fun_upd_twist)
  ultimately have c: "chain (pool_next h2) (pl_next ac) (cs @ [a])" by simp
  have "pool_ok (l\<lparr>ps_head := pl_next ac, ps_queue := Some a\<rparr>) h2 (cs @ [a])"
    by (rule pool_ok_perm [OF ok]) (use c d ac qc in \<open>auto simp: h2(2,3) h1(2,3)\<close>)
  moreover have "ape_pool_head_to_queue l h = Some (l\<lparr>ps_head := pl_next ac, ps_queue := Some a\<rparr>, h2)"
    using p(1) ac o(4) cs h1(1) h2(1) by (simp add: ape_pool_head_to_queue_def)
  moreover have "map_option (\<lambda>c. c\<lparr>pl_next := None\<rparr>) (pool_get h2 x) = map_option (\<lambda>c. c\<lparr>pl_next := None\<rparr>) (pool_get h x)" for x
    using ac qc by (auto simp: h2(2) h1(2))
  ultimately show ?thesis by auto
qed

lemma head_to_current_ok:
  assumes ok: "pool_ok l h (a # cs @ c # ds)" and cur: "ps_current l = Some c"
  shows "\<exists>l' h'. ape_pool_head_to_current l h = Some (l', h') \<and> pool_ok l' h' (cs @ c # a # ds) \<and> ps_current l' = Some a"
proof -
  note o = pool_okD [OF ok]
  have d: "distinct (a # cs @ c # ds)" "a \<noteq> c" using o(2) by auto
  obtain ac where ac: "pool_get h a = Some ac" using o(5) [of a] by auto
  obtain cc where cc: "pool_get h c = Some cc" using o(5) [of c] by auto
  obtain h1 where h1: "pool_upd a (\<lambda>x. x\<lparr>pl_next := pl_next cc\<rparr>) h = Some h1"
    "pool_get h1 = (pool_get h)(a := Some (ac\<lparr>pl_next := pl_next cc\<rparr>))" "pool_blocks h1 = pool_blocks h"
    using pool_upd_get [OF ac] by blast
  have c1: "pool_get h1 c = Some cc" using cc d(2) h1(2) by simp
  obtain h2 where h2: "pool_upd c (\<lambda>x. x\<lparr>pl_next := Some a\<rparr>) h1 = Some h2"
    "pool_get h2 = (pool_get h1)(c := Some (cc\<lparr>pl_next := Some a\<rparr>))" "pool_blocks h2 = pool_blocks h1"
    using pool_upd_get [OF c1] by blast
  have nx: "pool_next h2 = (pool_next h)(a := pl_next cc, c := Some a)"
    using pool_next_upd [OF h1(2)] pool_next_upd [OF h2(2)] by simp
  have p: "ps_head l = Some a" "chain (pool_next h) (pl_next ac) (cs @ c # ds)"
    using o(1) ac by (simp_all add: pool_next_def)
  have nc: "pool_next h c = pl_next cc" using cc by (simp add: pool_next_def)
  have "chain (pool_next h2) (pl_next ac) (cs @ c # a # ds)"
  proof -
    have t: "chain (pool_next h2) (pl_next cc) ds = chain (pool_next h) (pl_next cc) ds"
      by (rule chain_cong) (use d in \<open>auto simp: nx\<close>)
    have dd: "distinct (cs @ c # ds)" "distinct (cs @ c # a # ds)" using d by auto
    have s: "(if cs = [] then pl_next ac = Some c
        else pool_next h (last cs) = Some c \<and> chain ((pool_next h)(last cs := None)) (pl_next ac) cs)"
      "chain (pool_next h) (pl_next cc) ds"
      using p(2) chain_append_iff [OF dd(1), of "pool_next h" "pl_next ac"] nc by simp_all
    have e: "chain ((pool_next h2)(last cs := None)) (pl_next ac) cs = chain ((pool_next h)(last cs := None)) (pl_next ac) cs"
      by (rule chain_cong) (use d in \<open>auto simp: nx\<close>)
    have "cs \<noteq> [] \<Longrightarrow> last cs \<noteq> a \<and> last cs \<noteq> c" using d by auto
    then show ?thesis
      using s t e d(2) unfolding chain_append_iff [OF dd(2)] by (auto simp: nx)
  qed
  moreover have "last (cs @ c # a # ds) = (if ds = [] then a else last (a # cs @ c # ds))" by simp
  moreover have "pl_next cc = None \<longleftrightarrow> ds = []"
  proof -
    have "chain (pool_next h) (pl_next cc) ds" using p(2) chain_append_iff [of cs c ds "pool_next h" "pl_next ac"] nc d by auto
    then show ?thesis by (cases ds) auto
  qed
  ultimately have q: "chain (pool_next h2) (pl_next ac) (cs @ c # a # ds)"
    "(if pl_next cc = None then Some a else ps_queue l) = Some (last (cs @ c # a # ds))"
    using o(4) by auto
  let ?l = "l\<lparr>ps_head := pl_next ac, ps_current := Some a\<rparr>"
  let ?l2 = "if pl_next cc = None then ?l\<lparr>ps_queue := Some a\<rparr> else ?l"
  have "pool_ok ?l2 h2 (cs @ c # a # ds)"
    by (rule pool_ok_perm [OF ok]) (use q d ac cc in \<open>auto simp: h2(2,3) h1(2,3)\<close>)
  moreover have "pool_get h2 a = Some (ac\<lparr>pl_next := pl_next cc\<rparr>)" using d(2) h1(2) h2(2) by simp
  then have "ape_pool_head_to_current l h = Some (?l2, h2)"
    using p(1) ac cur d(2) cc h1(1) h2(1) by (cases "pl_next cc = None") (simp_all add: ape_pool_head_to_current_def Let_def)
  ultimately show ?thesis by (intro exI [of _ ?l2] exI [of _ h2]) simp
qed

section \<open>Destroying\<close>

text \<open>
  The first loop: \<open>ts\<close> are the first cells already met, the last one in front; the cells still to
  come are as they were.
\<close>

lemma destroy_free_loop_all:
  assumes "chain (pool_next h) p ts" "distinct (map fst ts)" "\<forall>a\<in>set ts. snd a = 0 \<and> pool_begins h a"
  shows "\<exists>h'. destroy_free_loop p h = Some h' \<and> pool_blocks h' = pool_blocks h - fst ` set ts"
  using assms
proof (induction ts arbitrary: p h)
  case Nil
  then show ?case by (simp add: destroy_free_loop.simps)
next
  case (Cons a ts)
  from Cons.prems(3) obtain c where c: "pool_get h a = Some c" "pl_flags c AND APE_POOL_ALLOC \<noteq> 0" "snd a = 0"
    by (auto simp: pool_begins_def)
  then have "pool_next h a = pl_next c" by (simp add: pool_next_def)
  with Cons.prems(1) c have a: "p = Some a" "pool_get h a = Some c" "pl_flags c AND APE_POOL_ALLOC \<noteq> 0"
    "snd a = 0" "chain (pool_next h) (pl_next c) ts" by simp_all
  have "fst a \<in> pool_blocks h" using a(2) pool_get_block [of h a] by simp
  then obtain h1 where h1: "pool_free a h = Some h1" "pool_get h1 = (\<lambda>x. if fst x = fst a then None else pool_get h x)"
    "pool_blocks h1 = pool_blocks h - {fst a}" using pool_free_get [of "fst a" h] a(4) by (cases a) auto
  have "chain (pool_next h1) (pl_next c) ts = chain (pool_next h) (pl_next c) ts"
    by (rule chain_cong) (use Cons.prems(2) in \<open>auto simp: h1(2) pool_next_def image_iff\<close>)
  moreover have "\<forall>b\<in>set ts. snd b = 0 \<and> pool_begins h1 b"
    using Cons.prems(2,3) by (auto simp: pool_begins_def h1(2) image_iff)
  ultimately obtain h' where "destroy_free_loop (pl_next c) h1 = Some h'" "pool_blocks h' = pool_blocks h1 - fst ` set ts"
    using Cons.IH [of h1 "pl_next c"] a(5) Cons.prems(2) by auto
  moreover have "destroy_free_loop p h = destroy_free_loop (pl_next c) h1"
    using a h1(1) by (subst destroy_free_loop.simps) simp
  ultimately show ?case using h1(3) by auto
qed

lemma destroy_link_loop_ok:
  assumes "chain (pool_next h) p cs" "distinct (cs @ ts)" "\<forall>a\<in>set (cs @ ts). pool_get h a \<noteq> None"
    and "case ts of [] \<Rightarrow> t = None \<and> f = None
      | _ \<Rightarrow> f = Some (last ts) \<and> (\<exists>q. chain ((pool_next h)(last ts := None)) t ts)"
  shows "\<exists>t' f' h'. destroy_link_loop p t f h = Some (t', f', h') \<and>
    (let ts' = rev (filter (pool_begins h) cs) @ ts in
      (case ts' of [] \<Rightarrow> t' = None \<and> f' = None
       | _ \<Rightarrow> f' = Some (last ts') \<and> chain ((pool_next h')(last ts' := None)) t' ts')) \<and>
    pool_blocks h' = pool_blocks h \<and> pool_begins h' = pool_begins h \<and> (\<forall>a. pool_get h' a = None \<longleftrightarrow> pool_get h a = None)"
  using assms
proof (induction cs arbitrary: p t f ts h)
  case Nil
  then have "destroy_link_loop p t f h = Some (t, f, h)" by (subst destroy_link_loop.simps) simp
  with Nil.prems(4) show ?case by (cases ts) (simp_all del: last.simps)
next
  case (Cons a cs)
  from Cons.prems(3) obtain c where c: "pool_get h a = Some c" by auto
  then have "pool_next h a = pl_next c" by (simp add: pool_next_def)
  with Cons.prems(1) c have a: "p = Some a" "pool_get h a = Some c" "chain (pool_next h) (pl_next c) cs" by simp_all
  show ?case
  proof (cases "pool_begins h a")
    case False
    then have "pl_flags c AND APE_POOL_ALLOC = 0" using a(2) by (simp add: pool_begins_def)
    then have l: "destroy_link_loop p t f h = destroy_link_loop (pl_next c) t f h"
      using a by (subst destroy_link_loop.simps) simp
    show ?thesis unfolding l using Cons.IH [OF a(3), of ts t f] Cons.prems(2-4) False by simp
  next
    case True
    then have fl: "pl_flags c AND APE_POOL_ALLOC \<noteq> 0" using a(2) by (simp add: pool_begins_def)
    show ?thesis
    proof (cases ts)
      case Nil
      then have tf: "t = None" "f = None" using Cons.prems(4) by simp_all
      have l: "destroy_link_loop p t f h = destroy_link_loop (pl_next c) (Some a) (Some a) h"
        using a fl tf by (subst destroy_link_loop.simps) simp
      have "chain ((pool_next h)(last [a] := None)) (Some a) [a]" by simp
      then show ?thesis unfolding l using Cons.IH [OF a(3), of "[a]" "Some a" "Some a"] Cons.prems(2,3) True Nil by auto
    next
      case (Cons u us)
      let ?f = "last ts"
      obtain ft: "f = Some ?f" "t = Some u" "chain ((pool_next h)(?f := None)) t ts"
        using Cons.prems(4) Cons by auto
      have fs: "?f \<in> set ts" "?f \<noteq> a" "?f \<notin> set cs" using Cons.prems(2) Cons by (auto dest: last_in_set)
      obtain fc where fc: "pool_get h ?f = Some fc" using Cons.prems(3) fs(1) by auto
      obtain h1 where h1: "pool_upd ?f (\<lambda>d. d\<lparr>pl_next := pl_next c\<rparr>) h = Some h1"
        "pool_get h1 = (pool_get h)(?f := Some (fc\<lparr>pl_next := pl_next c\<rparr>))" "pool_blocks h1 = pool_blocks h"
        using pool_upd_get [OF fc] by blast
      have a1: "pool_get h1 a = Some c" using a(2) fs(2) h1(2) by simp
      obtain h2 where h2: "pool_upd a (\<lambda>d. d\<lparr>pl_next := t\<rparr>) h1 = Some h2"
        "pool_get h2 = (pool_get h1)(a := Some (c\<lparr>pl_next := t\<rparr>))" "pool_blocks h2 = pool_blocks h1"
        using pool_upd_get [OF a1] by blast
      have nx: "pool_next h2 = (pool_next h)(?f := pl_next c, a := t)"
        using pool_next_upd [OF h1(2)] pool_next_upd [OF h2(2)] by simp
      have bg: "pool_begins h2 = pool_begins h"
        using pool_begins_upd [OF h1(2) fc] pool_begins_upd [OF h2(2) a1] by simp
      have lv: "pool_get h2 x = None \<longleftrightarrow> pool_get h x = None" for x using a(2) fc by (auto simp: h2(2) h1(2))
      have f2: "pool_get h2 ?f = Some (fc\<lparr>pl_next := pl_next c\<rparr>)" using fs(2) by (simp add: h2(2) h1(2))
      have l: "destroy_link_loop p t f h = destroy_link_loop (pl_next c) (Some a) (Some ?f) h2"
        using a fl ft(1,2) h1(1) h2(1) f2 by (subst destroy_link_loop.simps) simp
      have c2: "chain (pool_next h2) (pl_next c) cs"
      proof -
        have "chain (pool_next h2) (pl_next c) cs = chain (pool_next h) (pl_next c) cs"
          by (rule chain_cong) (use Cons.prems(2) fs(3) in \<open>auto simp: nx\<close>)
        with a(3) show ?thesis by simp
      qed
      have ne: "ts \<noteq> []" using Cons by simp
      have an: "a \<notin> set ts" using Cons.prems(2) by auto
      have "chain ((pool_next h2)(?f := None)) t ts = chain ((pool_next h)(?f := None)) t ts"
        by (rule chain_cong) (use an in \<open>auto simp: nx\<close>)
      with ft(3) have "chain ((pool_next h2)(?f := None)) t ts" by simp
      moreover have "((pool_next h2)(?f := None)) a = t" using fs(2) by (simp add: nx)
      ultimately have c3: "chain ((pool_next h2)(last (a # ts) := None)) (Some a) (a # ts)"
        using ne by (simp only: chain.simps last_ConsR) simp
      have d3: "distinct (cs @ a # ts)" "\<forall>x\<in>set (cs @ a # ts). pool_get h2 x \<noteq> None" using Cons.prems(2,3) lv by auto
      have s3: "case a # ts of [] \<Rightarrow> Some a = None \<and> Some ?f = None
        | _ \<Rightarrow> Some ?f = Some (last (a # ts)) \<and> (\<exists>q. chain ((pool_next h2)(last (a # ts) := None)) (Some a) (a # ts))"
        using c3 ne by simp
      have r: "rev (filter (pool_begins h) (a # cs)) @ ts = rev (filter (pool_begins h) cs) @ a # ts" using True by simp
      from Cons.IH [OF c2 d3 s3] show ?thesis unfolding l r bg h2(3) h1(3) lv .
    qed
  qed
qed

lemma pool_destroy_all:
  assumes ok: "pool_ok l h cs"
  shows "\<exists>h'. ape_destroy_pool_list l h = Some h' \<and> pool_blocks h' = {}"
proof -
  note o = pool_okD [OF ok]
  let ?ts = "rev (filter (pool_begins h) cs)"
  have live: "\<forall>a\<in>set (cs @ []). pool_get h a \<noteq> None" using o(5) by auto
  obtain t f h1 where h1: "destroy_link_loop (ps_head l) None None h = Some (t, f, h1)"
    "case ?ts of [] \<Rightarrow> t = None \<and> f = None | _ \<Rightarrow> f = Some (last ?ts) \<and> chain ((pool_next h1)(last ?ts := None)) t ?ts"
    "pool_blocks h1 = pool_blocks h" "pool_begins h1 = pool_begins h" "\<And>a. pool_get h1 a = None \<longleftrightarrow> pool_get h a = None"
    using destroy_link_loop_ok [OF o(1) _ live, of None None] o(2) by (auto simp: Let_def)
  obtain b i where b: "(b, i) \<in> set cs" using o(3) by (cases cs) auto
  then have "b \<in> pool_blocks h" using o(5) [of "(b, i)"] pool_get_block [of h "(b, i)"] by simp
  then have "(b, 0) \<in> set ?ts" using o(7) [of b] o(6) [of "(b, 0)"] by auto
  then have ne: "?ts \<noteq> []" by force
  let ?f = "last ?ts"
  have f: "f = Some ?f" "chain ((pool_next h1)(?f := None)) t ?ts" using h1(2) ne by (auto split: list.splits)
  have "?f \<in> set ?ts" using ne by (rule last_in_set)
  then have "?f \<in> set cs" by auto
  then obtain fc where fc: "pool_get h1 ?f = Some fc" using h1(5) o(5) [of ?f] by (cases "pool_get h1 ?f") auto
  obtain h2 where h2: "pool_upd ?f (\<lambda>c. c\<lparr>pl_next := None\<rparr>) h1 = Some h2"
    "pool_get h2 = (pool_get h1)(?f := Some (fc\<lparr>pl_next := None\<rparr>))" "pool_blocks h2 = pool_blocks h1"
    using pool_upd_get [OF fc] by blast
  have nx: "pool_next h2 = (pool_next h1)(?f := None)" using pool_next_upd [OF h2(2)] by simp
  have bg: "pool_begins h2 = pool_begins h" using pool_begins_upd [OF h2(2) fc] h1(4) by simp
  have ts: "\<forall>a\<in>set ?ts. snd a = 0 \<and> pool_begins h2 a" using o(6) unfolding bg by auto
  have "distinct (map fst ?ts)"
  proof -
    have "inj_on fst (set ?ts)" using ts by (intro inj_onI) (metis prod.collapse)
    then show ?thesis using o(2) by (simp add: distinct_map)
  qed
  from destroy_free_loop_all [OF f(2) [folded nx] this ts] obtain h' where
    h': "destroy_free_loop t h2 = Some h'" "pool_blocks h' = pool_blocks h2 - fst ` set ?ts" by blast
  have "b \<in> fst ` set ?ts" if "b \<in> pool_blocks h" for b
  proof -
    have "(b, 0) \<in> set cs" by (rule o(7) [OF that])
    then have "(b, 0) \<in> set ?ts" using o(6) by simp
    then show ?thesis by force
  qed
  then have "pool_blocks h' = {}" using h'(2) h2(3) h1(3) by auto
  moreover have "ape_destroy_pool_list l h = Some h'"
    using h1(1) f(1) h2(1) h'(1) by (simp add: ape_destroy_pool_list_def ape_destroy_pool_def)
  ultimately show ?thesis by blast
qed

section \<open>Destroying in order\<close>

text \<open>
  The list of the first cells, in the order of the list; the cleaner is called with each of them,
  and with no other cell. A cleaner may change a cell, but neither its link nor its flag.
\<close>

definition cells_of :: "(addr \<times> nat) list \<Rightarrow> paddr list" where
  "cells_of bs = concat (map (\<lambda>(b, n). map (Pair b) [0..<n]) bs)"

lemma cells_of_simps [simp]:
  "cells_of [] = []" "cells_of ((b, n) # bs) = map (Pair b) [0..<n] @ cells_of bs"
  "cells_of (bs @ cs) = cells_of bs @ cells_of cs"
  by (simp_all add: cells_of_def)

lemma in_cells_of: "a \<in> set (cells_of bs) \<longleftrightarrow> (\<exists>n. (fst a, n) \<in> set bs \<and> snd a < n)"
  by (cases a) (force simp: cells_of_def)

definition pool_same :: "('p, 'z) pool_heap \<Rightarrow> ('p, 'z) pool_heap \<Rightarrow> bool" where
  "pool_same h h' \<longleftrightarrow> pool_next h' = pool_next h \<and> pool_begins h' = pool_begins h \<and>
     pool_blocks h' = pool_blocks h \<and> (\<forall>a. pool_get h' a = None \<longleftrightarrow> pool_get h a = None)"

lemma pool_sameD:
  assumes "pool_same h h'"
  shows "pool_next h' = pool_next h" "pool_begins h' = pool_begins h" "pool_blocks h' = pool_blocks h"
    "pool_get h' a = None \<longleftrightarrow> pool_get h a = None"
  using assms by (auto simp only: pool_same_def)

lemma pool_same_refl: "pool_same h h"
  by (simp add: pool_same_def)

lemma destroy_cells_skip:
  assumes "\<forall>i<n. i \<noteq> 0 \<longrightarrow> (\<exists>c. pool_get (fst s) (b, i) = Some c \<and> pl_flags c AND APE_POOL_ALLOC = 0)"
    and "chain (pool_next (fst s)) p (map (Pair b) [k..<n] @ cs)" "0 < k" "k \<le> n"
  shows "\<exists>q. destroy_ordered_loop f p t s = destroy_ordered_loop f q t s \<and> chain (pool_next (fst s)) q cs"
  using assms(2-4)
proof (induction "n - k" arbitrary: k p)
  case 0
  then show ?case by auto
next
  case (Suc m)
  then have k: "[k..<n] = k # [Suc k..<n]" by (simp add: upt_rec)
  obtain c where c: "pool_get (fst s) (b, k) = Some c" "pl_flags c AND APE_POOL_ALLOC = 0"
    using assms(1) [THEN spec, of k] Suc.hyps(2) Suc.prems(2) by auto
  have "pool_next (fst s) (b, k) = pl_next c" using c(1) by (simp add: pool_next_def)
  then have p: "p = Some (b, k)" "chain (pool_next (fst s)) (pl_next c) (map (Pair b) [Suc k..<n] @ cs)"
    using Suc.prems(1) k by simp_all
  have "destroy_ordered_loop f p t s = destroy_ordered_loop f (pl_next c) t s"
    using p(1) c by (subst destroy_ordered_loop.simps) simp
  with Suc.hyps(1) [of "Suc k", OF _ p(2)] Suc.hyps(2) show ?case by auto
qed

text \<open>What a block of the list looks like before it is reached.\<close>

definition blocks_ok :: "('p, 'z) pool_heap \<Rightarrow> (addr \<times> nat) list \<Rightarrow> bool" where
  "blocks_ok h bs \<longleftrightarrow> distinct (map fst bs) \<and>
     (\<forall>(b, n)\<in>set bs. 0 < n \<and> b \<in> pool_blocks h \<and>
        (\<forall>i<n. pool_get h (b, i) \<noteq> None \<and> (pool_begins h (b, i) \<longleftrightarrow> i = 0)))"

lemma blocks_ok_cong: "pool_same h h' \<Longrightarrow> blocks_ok h' bs = blocks_ok h bs"
  by (auto simp: pool_same_def blocks_ok_def)

lemma destroy_block_clean:
  "destroy_block (Some f) (Some (b, 0)) s =
     Option.bind (f (b, 0) s) (\<lambda>(h, r). Option.bind (pool_free (b, 0) h) (\<lambda>h. Some (h, r)))"
  by (simp add: destroy_block_def)

lemma destroy_ordered_step:
  assumes ok: "blocks_ok h ((b, n) # bs)" and c: "chain (pool_next h) p (cells_of ((b, n) # bs))"
    and d: "destroy_block f t (h, r) = Some s" "pool_next (fst s) = (\<lambda>a. if fst a \<in> B then None else pool_next h a)"
      "pool_begins (fst s) = (\<lambda>a. fst a \<notin> B \<and> pool_begins h a)" "b \<notin> B"
      "\<And>a. fst a \<notin> B \<Longrightarrow> pool_get (fst s) a = None \<longleftrightarrow> pool_get h a = None"
      "B \<inter> fst ` set bs = {}"
  shows "\<exists>q. destroy_ordered_loop f p t (h, r) = destroy_ordered_loop f q (Some (b, 0)) s \<and>
    chain (pool_next (fst s)) q (cells_of bs)"
proof -
  have n: "0 < n" and g: "\<And>i. i < n \<Longrightarrow> pool_get h (b, i) \<noteq> None \<and> (pool_begins h (b, i) \<longleftrightarrow> i = 0)"
    using ok by (auto simp: blocks_ok_def)
  have u: "[0..<n] = 0 # [1..<n]" using n by (simp add: upt_rec)
  obtain c0 where c0: "pool_get h (b, 0) = Some c0" "pl_flags c0 AND APE_POOL_ALLOC \<noteq> 0"
    using g [OF n] by (auto simp: pool_begins_def)
  have "pool_get (fst s) (b, 0) \<noteq> None" using d(4,5) c0 by simp
  then obtain c1 where c1: "pool_get (fst s) (b, 0) = Some c1" by blast
  have p: "p = Some (b, 0)" "chain (pool_next h) (pool_next h (b, 0)) (map (Pair b) [1..<n] @ cells_of bs)"
    using c u by simp_all
  have "pool_next (fst s) (b, 0) = pl_next c1" using c1 by (simp add: pool_next_def)
  then have nx: "pl_next c1 = pool_next h (b, 0)" using d(4) unfolding d(2) by simp
  have l: "destroy_ordered_loop f p t (h, r) = destroy_ordered_loop f (pl_next c1) (Some (b, 0)) s"
    using p(1) c0 d(1) c1 by (subst destroy_ordered_loop.simps) simp
  have "chain (pool_next (fst s)) (pl_next c1) (map (Pair b) [1..<n] @ cells_of bs) =
      chain (pool_next h) (pl_next c1) (map (Pair b) [1..<n] @ cells_of bs)"
  proof (rule chain_cong)
    fix a assume "a \<in> set (map (Pair b) [1..<n] @ cells_of bs)"
    then have "fst a = b \<or> fst a \<in> fst ` set bs" by (auto simp: in_cells_of image_iff) force
    then have "fst a \<notin> B" using d(4,6) by auto
    then show "pool_next (fst s) a = pool_next h a" using d(2) by simp
  qed
  then have ch: "chain (pool_next (fst s)) (pl_next c1) (map (Pair b) [1..<n] @ cells_of bs)" using p(2) nx by simp
  have "\<forall>i<n. i \<noteq> 0 \<longrightarrow> (\<exists>c. pool_get (fst s) (b, i) = Some c \<and> pl_flags c AND APE_POOL_ALLOC = 0)"
  proof (intro allI impI)
    fix i assume i: "i < n" "i \<noteq> 0"
    then have "pool_get (fst s) (b, i) \<noteq> None" using d(4,5) g by simp
    moreover have "\<not> pool_begins (fst s) (b, i)" using i g d(3) by simp
    ultimately show "\<exists>c. pool_get (fst s) (b, i) = Some c \<and> pl_flags c AND APE_POOL_ALLOC = 0"
      by (auto simp: pool_begins_def)
  qed
  from destroy_cells_skip [OF this ch, of f "Some (b, 0)"] n l show ?thesis by auto
qed

text \<open>\<open>I\<close> is what the cleaner and the freeing of the cleaned block keep.\<close>

lemma destroy_ordered_rest:
  assumes f: "\<And>b h r. I (h, r) \<Longrightarrow> pool_get h (b, 0) \<noteq> None \<Longrightarrow>
      \<exists>h1 r1 h2. f (b, 0) (h, r) = Some (h1, r1) \<and> pool_same h h1 \<and> pool_free (b, 0) h1 = Some h2 \<and> I (h2, r1)"
  shows "I (h, r) \<Longrightarrow> blocks_ok h ((b0, n0) # bs) \<Longrightarrow> chain (pool_next h) p (cells_of bs) \<Longrightarrow>
    \<exists>s'. destroy_ordered_loop (Some f) p (Some (b0, 0)) (h, r) = Some s' \<and>
      I s' \<and> pool_blocks (fst s') = pool_blocks h - fst ` set ((b0, n0) # bs)"
proof (induction bs arbitrary: b0 n0 h r p)
  case Nil
  then have b0: "b0 \<in> pool_blocks h" "pool_get h (b0, 0) \<noteq> None" by (auto simp: blocks_ok_def)
  obtain h1 r1 h2 where f1: "f (b0, 0) (h, r) = Some (h1, r1)" "pool_same h h1" and
    h2: "pool_free (b0, 0) h1 = Some h2" and I2: "I (h2, r1)" using f [OF Nil(1), of b0] b0 by auto
  have "b0 \<in> pool_blocks h1" using b0 f1(2) by (simp add: pool_same_def)
  then have b2: "pool_blocks h2 = pool_blocks h1 - {b0}" using pool_free_get [of b0 h1] h2 by auto
  have "p = None" using Nil(3) by simp
  then have "destroy_ordered_loop (Some f) p (Some (b0, 0)) (h, r) = Some (h2, r1)"
    using f1(1) h2 by (subst destroy_ordered_loop.simps) (simp add: destroy_block_clean)
  then show ?case using I2 b2 pool_sameD(3) [OF f1(2)] by simp
next
  case (Cons bn bs)
  obtain b n where bn: "bn = (b, n)" by (cases bn)
  note ok = Cons.prems(2) [unfolded bn]
  have b0: "b0 \<in> pool_blocks h" "pool_get h (b0, 0) \<noteq> None" "b0 \<noteq> b" "b0 \<notin> fst ` set bs"
    using ok by (auto simp: blocks_ok_def)
  obtain h1 r1 h2 where f1: "f (b0, 0) (h, r) = Some (h1, r1)" "pool_same h h1" and
    fr: "pool_free (b0, 0) h1 = Some h2" and I2: "I (h2, r1)" using f [OF Cons.prems(1), of b0] b0 by auto
  have "b0 \<in> pool_blocks h1" using b0 f1(2) by (simp add: pool_same_def)
  then have h2: "pool_free (b0, 0) h1 = Some h2"
    "pool_get h2 = (\<lambda>a. if fst a = b0 then None else pool_get h1 a)" "pool_blocks h2 = pool_blocks h1 - {b0}"
    using pool_free_get [of b0 h1] fr by auto
  have "pool_next h2 = (\<lambda>a. if fst a \<in> {b0} then None else pool_next h1 a)"
    by (auto simp: pool_next_def h2(2) fun_eq_iff)
  then have nx: "pool_next h2 = (\<lambda>a. if fst a \<in> {b0} then None else pool_next h a)"
    unfolding pool_sameD(1) [OF f1(2)] .
  have "pool_begins h2 = (\<lambda>a. fst a \<notin> {b0} \<and> pool_begins h1 a)"
    by (auto simp: pool_begins_def h2(2) fun_eq_iff)
  then have bg: "pool_begins h2 = (\<lambda>a. fst a \<notin> {b0} \<and> pool_begins h a)"
    unfolding pool_sameD(2) [OF f1(2)] .
  have lv: "pool_get h2 a = None \<longleftrightarrow> pool_get h a = None" if "fst a \<notin> {b0}" for a
    using pool_sameD(4) [OF f1(2)] that by (simp add: h2(2))
  have d: "destroy_block (Some f) (Some (b0, 0)) (h, r) = Some (h2, r1)"
    using f1(1) h2(1) by (simp add: destroy_block_clean)
  have ok1: "blocks_ok h ((b, n) # bs)" using ok by (auto simp: blocks_ok_def)
  obtain q where q: "destroy_ordered_loop (Some f) p (Some (b0, 0)) (h, r) =
      destroy_ordered_loop (Some f) q (Some (b, 0)) (h2, r1)" "chain (pool_next h2) q (cells_of bs)"
    using destroy_ordered_step [OF ok1 Cons.prems(3) [unfolded bn] d, of "{b0}"] nx bg lv b0(3,4) by auto
  have ok2: "blocks_ok h2 ((b, n) # bs)"
    unfolding blocks_ok_def
  proof (intro conjI ballI)
    show "distinct (map fst ((b, n) # bs))" using ok1 by (simp add: blocks_ok_def)
    fix x assume x: "x \<in> set ((b, n) # bs)"
    obtain b' n' where x': "x = (b', n')" by (cases x)
    have ne: "b' \<noteq> b0" using x b0(3,4) x' by force
    have "0 < n' \<and> b' \<in> pool_blocks h \<and> (\<forall>i<n'. pool_get h (b', i) \<noteq> None \<and> (pool_begins h (b', i) \<longleftrightarrow> i = 0))"
      using ok1 x x' by (auto simp: blocks_ok_def)
    moreover have "b' \<in> pool_blocks h2 \<longleftrightarrow> b' \<in> pool_blocks h" using ne f1(2) by (simp add: h2(3) pool_same_def)
    ultimately show "case x of (b, n) \<Rightarrow> 0 < n \<and> b \<in> pool_blocks h2 \<and>
        (\<forall>i<n. pool_get h2 (b, i) \<noteq> None \<and> (pool_begins h2 (b, i) \<longleftrightarrow> i = 0))"
      using ne lv [of "(b', i)" for i] bg x' by (simp del: not_None_eq)
  qed
  from Cons.IH [OF I2 ok2 q(2)] obtain s' where s': "destroy_ordered_loop (Some f) q (Some (b, 0)) (h2, r1) = Some s'"
    "I s'" "pool_blocks (fst s') = pool_blocks h2 - fst ` set ((b, n) # bs)" by blast
  have "pool_blocks h1 = pool_blocks h" using f1(2) by (simp add: pool_same_def)
  then have "pool_blocks (fst s') = pool_blocks h - fst ` set ((b0, n0) # bn # bs)" using s'(3) h2(3) bn by auto
  with s' q(1) f1(1) h2(1) show ?case by (simp add: bn)
qed

text \<open>A list whose cells are in the order of their blocks is freed, each block after it is cleaned.\<close>

lemma destroy_ordered_all:
  assumes f: "\<And>b h r. I (h, r) \<Longrightarrow> pool_get h (b, 0) \<noteq> None \<Longrightarrow>
      \<exists>h1 r1 h2. f (b, 0) (h, r) = Some (h1, r1) \<and> pool_same h h1 \<and> pool_free (b, 0) h1 = Some h2 \<and> I (h2, r1)"
    and I: "I (h, r)" and ok: "blocks_ok h bs" and c: "chain (pool_next h) (ps_head l) (cells_of bs)"
  shows "\<exists>s'. ape_destroy_pool_list_ordered l (Some f) (h, r) = Some s' \<and>
    I s' \<and> pool_blocks (fst s') = pool_blocks h - fst ` set bs"
proof (cases bs)
  case Nil
  then have "destroy_ordered_loop (Some f) (ps_head l) None (h, r) = Some (h, r)"
    using c by (subst destroy_ordered_loop.simps) (simp add: destroy_block_def)
  with Nil I show ?thesis by (simp add: ape_destroy_pool_list_ordered_def ape_destroy_pool_ordered_def)
next
  case (Cons bn bs')
  obtain b n where bn: "bn = (b, n)" by (cases bn)
  have "destroy_block (Some f) None (h, r) = Some (h, r)" by (simp add: destroy_block_def)
  from destroy_ordered_step [OF ok [unfolded Cons bn] c [unfolded Cons bn] this, of "{}"]
  obtain q where q: "destroy_ordered_loop (Some f) (ps_head l) None (h, r) =
      destroy_ordered_loop (Some f) q (Some (b, 0)) (h, r)" "chain (pool_next h) q (cells_of bs')" by auto
  from destroy_ordered_rest [of I f, OF f I ok [unfolded Cons bn] q(2)] q(1) show ?thesis
    by (auto simp: ape_destroy_pool_list_ordered_def ape_destroy_pool_ordered_def Cons bn)
qed

section \<open>The life of a pool\<close>

datatype pool_op = Grow nat | Head_To_Queue | Head_To_Current

primrec pool_step :: "('p, 'z) pool_scheme \<Rightarrow> pool_op \<Rightarrow> pool_list \<times> ('p, 'z) pool_heap \<Rightarrow> (pool_list \<times> ('p, 'z) pool_heap) option" where
  "pool_step mk (Grow n) s = map_option snd (ape_grow_pool mk n (fst s) (snd s))"
| "pool_step mk Head_To_Queue s = ape_pool_head_to_queue (fst s) (snd s)"
| "pool_step mk Head_To_Current s = ape_pool_head_to_current (fst s) (snd s)"

primrec pool_run :: "('p, 'z) pool_scheme \<Rightarrow> pool_op list \<Rightarrow> pool_list \<times> ('p, 'z) pool_heap \<Rightarrow> (pool_list \<times> ('p, 'z) pool_heap) option" where
  "pool_run mk [] s = Some s"
| "pool_run mk (op # ops) s = Option.bind (pool_step mk op s) (pool_run mk ops)"

primrec grown :: "pool_op list \<Rightarrow> nat" where
  "grown [] = 0"
| "grown (op # ops) = (case op of Grow n \<Rightarrow> n | _ \<Rightarrow> 0) + grown ops"

lemma pool_step_ok:
  assumes ok: "pool_ok l h cs" and two: "2 \<le> length cs" and cur: "ps_current l = Some c" "c \<in> set cs"
    and op: "op \<noteq> Grow 0"
  shows "\<exists>l' h' cs' c'. pool_step mk op (l, h) = Some (l', h') \<and> pool_ok l' h' cs' \<and>
    ps_current l' = Some c' \<and> c' \<in> set cs' \<and> length cs' = length cs + grown [op]"
proof -
  obtain a cs1 where cs: "cs = a # cs1" "cs1 \<noteq> []" using two by (cases cs) force+
  show ?thesis
  proof (cases op)
    case (Grow n)
    with op have n: "0 < n" by simp
    from ape_grow_pool_ok [OF ok n, of mk] obtain l' h' where g: "ape_grow_pool mk n l h = Some ((length h, 0), l', h')"
      "pool_ok l' h' (cs @ map (Pair (length h)) [0..<n])" "ps_current l' = ps_current l" by blast
    show ?thesis
      by (rule exI [of _ l'], rule exI [of _ h'], rule exI [of _ "cs @ map (Pair (length h)) [0..<n]"], rule exI [of _ c])
        (use g cur Grow in simp)
  next
    case Head_To_Queue
    from head_to_queue_ok [OF ok [unfolded cs(1)] cs(2)] obtain l' h' where
      g: "ape_pool_head_to_queue l h = Some (l', h')" "pool_ok l' h' (cs1 @ [a])" "ps_current l' = ps_current l" by blast
    show ?thesis
      by (rule exI [of _ l'], rule exI [of _ h'], rule exI [of _ "cs1 @ [a]"], rule exI [of _ c])
        (use g cur cs Head_To_Queue in auto)
  next
    case Head_To_Current
    show ?thesis
    proof (cases "c = a")
      case True
      have "ps_head l = Some a" using pool_okD(1) [OF ok] cs(1) by simp
      then have "ape_pool_head_to_current l h = Some (l, h)" using True cur by (simp add: ape_pool_head_to_current_def)
      then show ?thesis using ok cur Head_To_Current
        by (intro exI [of _ l] exI [of _ h] exI [of _ cs] exI [of _ c]) simp
    next
      case False
      then obtain us ds where s: "cs1 = us @ c # ds" using cur(2) cs(1) split_list [of c cs1] by auto
      from head_to_current_ok [of l h a us c ds] ok cs(1) s cur(1) obtain l' h' where
        g: "ape_pool_head_to_current l h = Some (l', h')" "pool_ok l' h' (us @ c # a # ds)" "ps_current l' = Some a" by blast
      show ?thesis
        by (rule exI [of _ l'], rule exI [of _ h'], rule exI [of _ "us @ c # a # ds"], rule exI [of _ a])
          (use g cs s Head_To_Current in auto)
    qed
  qed
qed

lemma pool_run_ok:
  "pool_ok l h cs \<Longrightarrow> 2 \<le> length cs \<Longrightarrow> ps_current l = Some c \<Longrightarrow> c \<in> set cs \<Longrightarrow> Grow 0 \<notin> set ops \<Longrightarrow>
   \<exists>l' h' cs'. pool_run mk ops (l, h) = Some (l', h') \<and> pool_ok l' h' cs' \<and> length cs' = length cs + grown ops"
proof (induction ops arbitrary: l h cs c)
  case (Cons op ops)
  from pool_step_ok [OF Cons.prems(1-4), of op mk] Cons.prems(5) obtain l1 h1 cs1 c1 where
    s: "pool_step mk op (l, h) = Some (l1, h1)" "pool_ok l1 h1 cs1" "ps_current l1 = Some c1" "c1 \<in> set cs1"
      "length cs1 = length cs + grown [op]" by auto
  from Cons.IH [OF s(2) _ s(3,4)] Cons.prems(2,5) s(5) obtain l2 h2 cs2 where
    "pool_run mk ops (l1, h1) = Some (l2, h2)" "pool_ok l2 h2 cs2" "length cs2 = length cs1 + grown ops" by auto
  with s show ?case by auto
qed auto

text \<open>C37: After any sequence of growths and rotations of a new pool of at least two cells, nothing freed
  or null has been followed; the list from \<open>head\<close> still visits every allocated cell exactly once and
  none is lost; and \<open>ape_destroy_pool_list\<close>, whatever the order of the cells has become, frees every
  block, none twice.\<close>

theorem pool_life:
  assumes "2 \<le> n" "Grow 0 \<notin> set ops"
  shows "\<exists>l h cs h'. pool_run mk ops (ape_new_pool_list mk n []) = Some (l, h) \<and>
    chain (pool_next h) (ps_head l) cs \<and> distinct cs \<and> set cs = {a. pool_get h a \<noteq> None} \<and>
    length cs = n + grown ops \<and>
    ape_destroy_pool_list l h = Some h' \<and> pool_blocks h' = {}"
proof -
  obtain l0 h0 where i: "ape_init_pool_list mk n [] = (l0, h0)" by (cases "ape_init_pool_list mk n []")
  have "pool_ok l0 h0 (map (Pair 0) [0..<n])" "ps_current l0 = Some (0, 0)"
    using ape_init_pool_list_ok [OF _ _ i] assms(1) by (auto simp: pool_blocks_def)
  from pool_run_ok [OF this(1) _ this(2) _ assms(2), of mk] assms(1) obtain l h cs where
    r: "pool_run mk ops (l0, h0) = Some (l, h)" "pool_ok l h cs" "length cs = n + grown ops" by auto
  obtain h' where "ape_destroy_pool_list l h = Some h'" "pool_blocks h' = {}" using pool_destroy_all [OF r(2)] by blast
  moreover have "set cs = {a. pool_get h a \<noteq> None}" using pool_okD(5) [OF r(2)] by blast
  ultimately show ?thesis
    using r pool_okD(1,2) [OF r(2)] i unfolding ape_new_pool_list_def by metis
qed

lemma pool_life_witness:
  "\<exists>l h cs h'. pool_run (\<lparr>pl_ptr = None, pl_next = None, pl_flags = 0\<rparr> :: nat pool)
      [Head_To_Queue, Grow 2, Head_To_Current, Head_To_Queue] (ape_new_pool_list \<lparr>pl_ptr = None, pl_next = None, pl_flags = 0\<rparr> 3 []) = Some (l, h) \<and>
    chain (pool_next h) (ps_head l) cs \<and> distinct cs \<and> set cs = {a. pool_get h a \<noteq> None} \<and> length cs = 5 \<and>
    ape_destroy_pool_list l h = Some h' \<and> pool_blocks h' = {}"
  using pool_life [of 3 "[Head_To_Queue, Grow 2, Head_To_Current, Head_To_Queue]"
      "\<lparr>pl_ptr = None, pl_next = None, pl_flags = 0\<rparr> :: nat pool"] by simp

end
