(* ===== verification/Buffer.thy ===== *)
theory Buffer
  imports Ape_Prelude
begin

text \<open>
  The growing byte buffers of \<^verbatim>\<open>src/core/ape_buffer.c\<close>, with the Latin-1 / UTF-8
  conversions, and the strings of \<^verbatim>\<open>src/core/ape_string.c\<close>. A block of memory is a list of
  cells, \<open>None\<close> for one that was never written; a write outside the block, or a read of a cell that
  is outside or was never written, is undefined behaviour: the result \<open>None\<close>. Sizes are unbounded
  (\<open>size_t\<close> additions do not wrap for blocks that fit the memory), and \<open>malloc\<close> does not fail.
\<close>

section \<open>Buffers\<close>

record buffer =
  buf_data :: "byte option list option"
  buf_size :: nat
  buf_used :: nat
  buf_pos :: u32

definition buffer_init :: buffer where
  "buffer_init = \<lparr>buf_data = None, buf_size = 0, buf_used = 0, buf_pos = 0\<rparr>"

definition buffer_new :: "nat \<Rightarrow> buffer" where
  "buffer_new sz =
     (if 0 < sz then buffer_init\<lparr>buf_size := sz, buf_data := Some (replicate sz None)\<rparr>
      else buffer_init\<lparr>buf_size := 0\<rparr>)"

definition realloc :: "nat \<Rightarrow> byte option list \<Rightarrow> byte option list" where
  "realloc n block = take n block @ replicate (n - length block) None"

definition buffer_prepare :: "nat \<Rightarrow> buffer \<Rightarrow> buffer" where
  "buffer_prepare sz b =
     (if buf_size b = 0 then
        b\<lparr>buf_size := sz, buf_used := 0, buf_data := Some (replicate sz None)\<rparr>
      else if buf_size b < buf_used b + sz then
        b\<lparr>buf_size := buf_size b + sz,
          buf_data := map_option (realloc (buf_size b + sz)) (buf_data b)\<rparr>
      else b)"

text \<open>\<open>memcpy\<close> into the block at an offset.\<close>

definition buf_write :: "nat \<Rightarrow> byte list \<Rightarrow> buffer \<Rightarrow> buffer option" where
  "buf_write off xs b =
     (case buf_data b of
        None \<Rightarrow> if xs = [] then Some b else None
      | Some block \<Rightarrow>
          if off + length xs \<le> length block
          then Some (b\<lparr>buf_data := Some (take off block @ map Some xs @ drop (off + length xs) block)\<rparr>)
          else None)"

definition buffer_append_data :: "byte list \<Rightarrow> buffer \<Rightarrow> buffer option" where
  "buffer_append_data data b =
     (let b = buffer_prepare (length data) b
      in map_option (\<lambda>b. b\<lparr>buf_used := buf_used b + length data\<rparr>) (buf_write (buf_used b) data b))"

definition buffer_append_char :: "byte \<Rightarrow> buffer \<Rightarrow> buffer option" where
  "buffer_append_char data b =
     (let b = buffer_prepare 1 b
      in map_option (\<lambda>b. b\<lparr>buf_used := buf_used b + 1\<rparr>) (buf_write (buf_used b) [data] b))"

text \<open>\<open>string\<close> is the memory that can be read at the pointer: \<open>length + 1\<close> bytes are copied.\<close>

definition buffer_append_string_n :: "byte list \<Rightarrow> nat \<Rightarrow> buffer \<Rightarrow> buffer option" where
  "buffer_append_string_n string n b =
     (let b = buffer_prepare (n + 1) b
      in if length string < n + 1 then None
         else map_option (\<lambda>b. b\<lparr>buf_used := n\<rparr>) (buf_write (buf_used b) (take (n + 1) string) b))"

definition buffer_append_string :: "byte list \<Rightarrow> buffer \<Rightarrow> buffer option" where
  "buffer_append_string string = buffer_append_string_n (string @ [0]) (length string)"

section \<open>Latin-1 and UTF-8\<close>

definition peek :: "buffer \<Rightarrow> nat \<Rightarrow> byte option" where
  "peek b i =
     (case buf_data b of
        None \<Rightarrow> None
      | Some block \<Rightarrow> if i < length block then block ! i else None)"

text \<open>\<open>newb->data[newb->used++] = c\<close>\<close>

definition buf_put :: "u32 \<Rightarrow> buffer \<Rightarrow> buffer option" where
  "buf_put c b = map_option (\<lambda>b. b\<lparr>buf_used := buf_used b + 1\<rparr>) (buf_write (buf_used b) [ucast c] b)"

primrec buf_puts :: "u32 list \<Rightarrow> buffer \<Rightarrow> buffer option" where
  "buf_puts [] b = Some b"
| "buf_puts (c # cs) b = Option.bind (buf_put c b) (buf_puts cs)"

definition utf8_units :: "u32 \<Rightarrow> u32 list" where
  "utf8_units c =
     (if c < 0x80 then [c]
      else if c < 0x800 then [0xc0 OR drop_bit 6 c, 0x80 OR (c AND 0x3f)]
      else if c < 0x10000 then
        [0xe0 OR drop_bit 12 c, 0xc0 OR (drop_bit 6 c AND 0x3f), 0x80 OR (c AND 0x3f)]
      else if c < 0x200000 then
        [0xf0 OR drop_bit 18 c, 0xe0 OR (drop_bit 12 c AND 0x3f), 0xc0 OR (drop_bit 6 c AND 0x3f),
         0x80 OR (c AND 0x3f)]
      else [])"

primrec to_utf8_loop :: "nat \<Rightarrow> nat \<Rightarrow> buffer \<Rightarrow> buffer \<Rightarrow> buffer option" where
  "to_utf8_loop 0 s b newb = Some newb"
| "to_utf8_loop (Suc pos) s b newb =
     Option.bind (peek b s) (\<lambda>x.
     Option.bind (buf_puts (utf8_units (ucast x)) newb) (to_utf8_loop pos (s + 1) b))"

text \<open>The terminator, and the block cut to the bytes used.\<close>

definition utf8_finish :: "buffer \<Rightarrow> buffer option" where
  "utf8_finish newb =
     map_option (\<lambda>b.
       if buf_used b + 1 < buf_size b
       then b\<lparr>buf_size := buf_used b + 1, buf_data := map_option (realloc (buf_used b + 1)) (buf_data b)\<rparr>
       else b) (buf_write (buf_used newb) [0] newb)"

definition buffer_to_buffer_utf8 :: "buffer \<Rightarrow> buffer option" where
  "buffer_to_buffer_utf8 b =
     Option.bind (to_utf8_loop (buf_used b) 0 b (buffer_new (buf_used b * 4 + 1))) utf8_finish"

text \<open>One character, and how many bytes it takes; a truncated one is \<open>'?'\<close>.\<close>

definition utf8_char :: "int \<Rightarrow> nat \<Rightarrow> buffer \<Rightarrow> (u32 \<times> nat) option" where
  "utf8_char pos s b =
     Option.bind (peek b s) (\<lambda>x.
       let c = ucast x :: u32
       in if 0xf0 \<le> c then
            (if 0 \<le> pos - 4 then
               Option.bind (peek b (s + 1)) (\<lambda>x1.
               Option.bind (peek b (s + 2)) (\<lambda>x2.
               Option.bind (peek b (s + 3)) (\<lambda>x3.
               Some (push_bit 18 (c AND 7) OR push_bit 12 (ucast x1 AND 63) OR
                     push_bit 6 (ucast x2 AND 63) OR (ucast x3 AND 63), 4))))
             else Some (63, 4))
          else if 0xe0 \<le> c then
            (if 0 \<le> pos - 3 then
               Option.bind (peek b (s + 1)) (\<lambda>x1.
               Option.bind (peek b (s + 2)) (\<lambda>x2.
               Some (push_bit 12 (c AND 63) OR push_bit 6 (ucast x1 AND 63) OR (ucast x2 AND 63), 3)))
             else Some (63, 3))
          else if 0xc0 \<le> c then
            (if 0 \<le> pos - 2 then
               Option.bind (peek b (s + 1)) (\<lambda>x1.
               Some (push_bit 6 (c AND 63) OR (ucast x1 AND 63), 2))
             else Some (63, 2))
          else Some (c, 1))"

lemma utf8_char_step: "utf8_char pos s b = Some (c, n) \<Longrightarrow> 1 \<le> n"
  by (auto simp: utf8_char_def Let_def bind_eq_Some_conv split: if_splits)

function from_utf8_loop :: "int \<Rightarrow> nat \<Rightarrow> buffer \<Rightarrow> buffer \<Rightarrow> buffer option" where
  "from_utf8_loop pos s b newb =
     (if 0 < pos then
        Option.bind (utf8_char pos s b) (\<lambda>cn.
        Option.bind (buf_put (if 0xff < fst cn then 63 else fst cn) newb)
          (from_utf8_loop (pos - int (snd cn)) (s + snd cn) b))
      else Some newb)"
  by auto
termination
  by (relation "measure (\<lambda>(pos, s, b, newb). nat pos)") (auto dest: utf8_char_step)

declare from_utf8_loop.simps [simp del]

definition buffer_utf8_to_buffer :: "buffer \<Rightarrow> buffer option" where
  "buffer_utf8_to_buffer b =
     Option.bind (from_utf8_loop (int (buf_used b)) 0 b (buffer_new (buf_used b + 1))) utf8_finish"

section \<open>Strings\<close>

datatype string_encoding = ISO88591 | UTF8

record ape_string =
  str_b :: buffer
  str_len :: int
  str_encoding :: string_encoding

text \<open>The constructor is a stub: it returns \<open>NULL\<close> for each encoding.\<close>

definition string_new :: "byte list \<Rightarrow> nat \<Rightarrow> string_encoding \<Rightarrow> ape_string option" where
  "string_new str n encoding = None"

text \<open>\<open>strlen\<close> reads to the first zero, wherever it is.\<close>

fun strlen_from :: "nat \<Rightarrow> byte option list \<Rightarrow> nat option" where
  "strlen_from n [] = None"
| "strlen_from n (None # cs) = None"
| "strlen_from n (Some x # cs) = (if x = 0 then Some n else strlen_from (n + 1) cs)"

function utf8_len_loop :: "int \<Rightarrow> nat \<Rightarrow> buffer \<Rightarrow> int \<Rightarrow> int option" where
  "utf8_len_loop pos s b len =
     (if 0 < pos then
        Option.bind (peek b s) (\<lambda>c.
          if 0xf0 \<le> c then utf8_len_loop (pos - 4) (s + 4) b (len + 4)
          else if 0xe0 \<le> c then utf8_len_loop (pos - 3) (s + 3) b (len + 3)
          else if 0xc0 \<le> c then utf8_len_loop (pos - 2) (s + 2) b (len + 2)
          else utf8_len_loop (pos - 1) (s + 1) b (len + 1))
      else Some len)"
  by auto
termination by (relation "measure (\<lambda>(pos, s, b, len). nat pos)") auto

declare utf8_len_loop.simps [simp del]

definition string_update_len :: "ape_string \<Rightarrow> ape_string option" where
  "string_update_len str =
     (case str_encoding str of
        ISO88591 \<Rightarrow>
          Option.bind (buf_data (str_b str)) (\<lambda>block.
          map_option (\<lambda>n. str\<lparr>str_len := int n\<rparr>) (strlen_from 0 block))
      | UTF8 \<Rightarrow>
          map_option (\<lambda>n. str\<lparr>str_len := n\<rparr>)
            (utf8_len_loop (int (buf_used (str_b str))) 0 (str_b str) 0))"

section \<open>The bytes of a buffer\<close>

text \<open>The first \<open>used\<close> bytes are written, and the block has \<open>size\<close> cells.\<close>

definition holds :: "buffer \<Rightarrow> byte list \<Rightarrow> bool" where
  "holds b xs \<longleftrightarrow>
     (case buf_data b of
        None \<Rightarrow> xs = [] \<and> buf_used b = 0 \<and> buf_size b = 0
      | Some block \<Rightarrow> length block = buf_size b \<and> buf_used b = length xs \<and> length xs \<le> buf_size b \<and>
          take (length xs) block = map Some xs)"

lemma holds_new: "holds (buffer_new n) []"
  by (simp add: holds_def buffer_new_def buffer_init_def)

lemma holds_peek: "holds b xs \<Longrightarrow> i < length xs \<Longrightarrow> peek b i = Some (xs ! i)"
  using nth_take [of i "length xs" "the (buf_data b)"]
  by (cases "buf_data b") (auto simp: holds_def peek_def)

text \<open>A growing buffer keeps its bytes, and has room for the new ones.\<close>

lemma prepare_room:
  assumes "holds b xs"
  shows "holds (buffer_prepare n b) xs \<and>
    (\<exists>block. buf_data (buffer_prepare n b) = Some block \<and> length xs + n \<le> length block)"
proof (cases "buf_size b = 0")
  case True
  with assms have "xs = []" by (auto simp: holds_def split: option.splits)
  with True show ?thesis by (simp add: buffer_prepare_def holds_def)
next
  case False
  with assms obtain block where b: "buf_data b = Some block" "length block = buf_size b"
    "buf_used b = length xs" "length xs \<le> buf_size b" "take (length xs) block = map Some xs"
    by (auto simp: holds_def split: option.splits)
  with False show ?thesis by (auto simp: buffer_prepare_def holds_def realloc_def min_def)
qed

lemma write_holds:
  assumes "holds b xs" "buf_data b = Some block" "length xs + length ys \<le> length block" "n \<le> length (xs @ ys)"
  shows "\<exists>b'. buf_write (length xs) ys b = Some b' \<and> buf_used b' = buf_used b \<and> buf_pos b' = buf_pos b \<and>
     holds (b'\<lparr>buf_used := n\<rparr>) (take n (xs @ ys))"
  using assms
  by (auto simp: holds_def buf_write_def min_def take_map [symmetric] take_append)

lemma append_data_holds:
  assumes "holds b xs"
  shows "\<exists>b'. buffer_append_data ys b = Some b' \<and> holds b' (xs @ ys)"
proof -
  obtain block where p: "holds (buffer_prepare (length ys) b) xs"
    "buf_data (buffer_prepare (length ys) b) = Some block" "length xs + length ys \<le> length block"
    using prepare_room [OF assms, of "length ys"] by blast
  then have u: "buf_used (buffer_prepare (length ys) b) = length xs" by (simp add: holds_def)
  obtain b' where "buf_write (length xs) ys (buffer_prepare (length ys) b) = Some b'"
    "buf_used b' = length xs" "holds (b'\<lparr>buf_used := length xs + length ys\<rparr>) (xs @ ys)"
    using write_holds [OF p, of "length (xs @ ys)"] u by auto
  with u show ?thesis by (simp add: buffer_append_data_def)
qed

lemma append_char_data: "buffer_append_char c = buffer_append_data [c]"
  by (simp add: fun_eq_iff buffer_append_char_def buffer_append_data_def)

text \<open>A buffer of \<open>n\<close> cells that is being filled from the start.\<close>

definition filling :: "nat \<Rightarrow> byte list \<Rightarrow> buffer" where
  "filling n xs = \<lparr>buf_data = Some (map Some xs @ replicate (n - length xs) None), buf_size = n,
     buf_used = length xs, buf_pos = 0\<rparr>"

lemma buffer_new_filling: "0 < n \<Longrightarrow> buffer_new n = filling n []"
  by (simp add: buffer_new_def buffer_init_def filling_def)

lemma buf_put_filling: "length xs < n \<Longrightarrow> buf_put c (filling n xs) = Some (filling n (xs @ [ucast c]))"
  by (simp add: buf_put_def buf_write_def filling_def)

lemma buf_puts_filling:
  "length xs + length cs \<le> n \<Longrightarrow> buf_puts cs (filling n xs) = Some (filling n (xs @ map ucast cs))"
  by (induction cs arbitrary: xs) (auto simp: buf_put_filling)

lemma utf8_finish_filling:
  "length xs < n \<Longrightarrow> utf8_finish (filling n xs) =
     Some \<lparr>buf_data = Some (map Some (xs @ [0])), buf_size = length xs + 1, buf_used = length xs, buf_pos = 0\<rparr>"
  by (auto simp: utf8_finish_def buf_write_def filling_def realloc_def)


section \<open>The conversions on lists of bytes\<close>

definition utf8_byte :: "byte \<Rightarrow> byte list" where
  "utf8_byte x = (if x < 0x80 then [x] else [0xc0 OR drop_bit 6 x, 0x80 OR (x AND 0x3f)])"

lemma utf8_units_byte: "map ucast (utf8_units (ucast (x :: byte))) = utf8_byte x"
proof -
  have u: "unat (ucast x :: u32) = unat x" by (simp add: unsigned_ucast_eq take_bit_nat_eq_self unat_byte [THEN less_trans])
  have b: "unat x < 256" by (rule unat_byte)
  have l: "(ucast x < (0x80 :: u32)) = (x < 0x80)" "ucast x < (0x800 :: u32)"
    using u b by (simp_all add: word_less_nat_alt)
  show ?thesis
    unfolding utf8_units_def utf8_byte_def
    by (simp add: l) (intro impI conjI bit_word_eqI; simp add: bit_simps)
qed

definition latin1_utf8 :: "byte list \<Rightarrow> byte list" where
  "latin1_utf8 xs = concat (map utf8_byte xs)"

definition utf8_head :: "byte list \<Rightarrow> u32 \<times> nat" where
  "utf8_head xs =
     (let c = ucast (xs ! 0) :: u32; m = (\<lambda>i. ucast (xs ! i) AND 63 :: u32)
      in if 0xf0 \<le> c then
           (if 4 \<le> length xs
            then (push_bit 18 (c AND 7) OR push_bit 12 (m 1) OR push_bit 6 (m 2) OR m 3, 4) else (63, 4))
         else if 0xe0 \<le> c then
           (if 3 \<le> length xs then (push_bit 12 (m 0) OR push_bit 6 (m 1) OR m 2, 3) else (63, 3))
         else if 0xc0 \<le> c then
           (if 2 \<le> length xs then (push_bit 6 (m 0) OR m 1, 2) else (63, 2))
         else (c, 1))"

lemma utf8_head_step: "1 \<le> snd (utf8_head xs)"
  by (simp add: utf8_head_def Let_def)

function utf8_dec :: "byte list \<Rightarrow> byte list" where
  "utf8_dec xs =
     (if xs = [] then []
      else ucast (if 0xff < fst (utf8_head xs) then 63 else fst (utf8_head xs)) #
             utf8_dec (drop (snd (utf8_head xs)) xs))"
  by auto
termination
proof (relation "measure length", simp)
  fix xs :: "byte list" assume "xs \<noteq> []"
  then show "(drop (snd (utf8_head xs)) xs, xs) \<in> measure length"
    using utf8_head_step [of xs] by (cases xs) auto
qed

declare utf8_dec.simps [simp del]

lemma utf8_dec_length: "length (utf8_dec xs) \<le> length xs"
proof (induction xs rule: utf8_dec.induct)
  case (1 xs)
  show ?case
  proof (cases "xs = []")
    case False
    then have "length (utf8_dec xs) = 1 + length (utf8_dec (drop (snd (utf8_head xs)) xs))" "1 \<le> length xs"
      by (simp_all add: utf8_dec.simps [of xs] Suc_le_eq)
    moreover have "length (utf8_dec (drop (snd (utf8_head xs)) xs)) \<le> length xs - snd (utf8_head xs)"
      using 1 [OF False] by simp
    ultimately show ?thesis using utf8_head_step [of xs] by linarith
  qed (simp add: utf8_dec.simps)
qed

text \<open>The encoder fills the new buffer.\<close>

lemma utf8_byte_length: "length (utf8_byte x) \<le> 2"
  by (simp add: utf8_byte_def)

lemma to_utf8_loop_holds:
  "holds b (us @ ys) \<Longrightarrow> length out + 4 * length ys \<le> n \<Longrightarrow>
   to_utf8_loop (length ys) (length us) b (filling n out) = Some (filling n (out @ latin1_utf8 ys))"
proof (induction ys arbitrary: us out)
  case Nil
  then show ?case by (simp add: latin1_utf8_def)
next
  case (Cons y ys)
  have p: "peek b (length us) = Some y" using holds_peek [OF Cons.prems(1), of "length us"] by simp
  have u: "length (utf8_units (ucast y)) \<le> 2"
    using utf8_byte_length [of y] utf8_units_byte [of y] by (metis length_map)
  then have w: "buf_puts (utf8_units (ucast y)) (filling n out) = Some (filling n (out @ utf8_byte y))"
    using Cons.prems(2) buf_puts_filling [of out "utf8_units (ucast y)" n] utf8_units_byte [of y] by simp
  have "to_utf8_loop (length ys) (length (us @ [y])) b (filling n (out @ utf8_byte y)) =
      Some (filling n ((out @ utf8_byte y) @ latin1_utf8 ys))"
    by (rule Cons.IH) (use Cons.prems utf8_byte_length [of y] in auto)
  with p w show ?case by (simp add: latin1_utf8_def)
qed

lemma latin1_utf8_length: "length (latin1_utf8 xs) \<le> 2 * length xs"
proof (induction xs)
  case (Cons x xs)
  then show ?case using utf8_byte_length [of x] by (simp add: latin1_utf8_def)
qed (simp add: latin1_utf8_def)

lemma buffer_to_buffer_utf8_holds:
  assumes "holds b xs"
  shows "buffer_to_buffer_utf8 b =
     Some \<lparr>buf_data = Some (map Some (latin1_utf8 xs @ [0])), buf_size = length (latin1_utf8 xs) + 1,
       buf_used = length (latin1_utf8 xs), buf_pos = 0\<rparr>"
proof -
  have u: "buf_used b = length xs" using assms by (auto simp: holds_def split: option.splits)
  have l: "length (latin1_utf8 xs) \<le> 2 * length xs" by (rule latin1_utf8_length)
  have "to_utf8_loop (length xs) 0 b (filling (length xs * 4 + 1) []) =
      Some (filling (length xs * 4 + 1) (latin1_utf8 xs))"
    using to_utf8_loop_holds [of b "[]" xs "[]" "length xs * 4 + 1"] assms by simp
  then show ?thesis
    using l by (simp add: buffer_to_buffer_utf8_def u buffer_new_filling utf8_finish_filling)
qed

text \<open>So does the decoder, on every sequence of bytes.\<close>

lemma utf8_char_head:
  assumes "holds b zs" "s < length zs"
  shows "utf8_char (int (length zs) - int s) s b = Some (utf8_head (drop s zs))"
proof -
  have p: "peek b (s + i) = Some (drop s zs ! i)" if "s + i < length zs" for i
    using holds_peek [OF assms(1) that] that by simp
  have p0: "peek b s = Some (drop s zs ! 0)" using p [of 0] assms(2) by simp
  have l: "(0 \<le> int (length zs) - int s - int k) = (k \<le> length (drop s zs))" for k
    using assms(2) by auto
  note ls = l [of 4, simplified] l [of 3, simplified] l [of 2, simplified]
  have i: "s + j < length zs" if "k \<le> length (drop s zs)" "j < k" for j k using that by auto
  show ?thesis
    unfolding utf8_char_def utf8_head_def Let_def p0 Option.bind.bind_lunit
    using p [OF i [of 4 1]] p [OF i [of 4 2]] p [OF i [of 4 3]]
      p [OF i [of 3 1]] p [OF i [of 3 2]] p [OF i [of 2 1]] assms(2) by (auto simp: ls)
qed

lemma from_utf8_loop_holds:
  "holds b zs \<Longrightarrow> length out + (length zs - s) \<le> n \<Longrightarrow>
   from_utf8_loop (int (length zs) - int s) s b (filling n out) = Some (filling n (out @ utf8_dec (drop s zs)))"
proof (induction "length zs - s" arbitrary: s out rule: less_induct)
  case less
  show ?case
  proof (cases "s < length zs")
    case False
    then show ?thesis by (simp add: from_utf8_loop.simps utf8_dec.simps)
  next
    case True
    obtain c k where h: "utf8_head (drop s zs) = (c, k)" by force
    with utf8_head_step [of "drop s zs"] have k: "1 \<le> k" by simp
    let ?c = "if 0xff < c then 63 else c"
    have "from_utf8_loop (int (length zs) - int (s + k)) (s + k) b (filling n (out @ [ucast ?c])) =
        Some (filling n ((out @ [ucast ?c]) @ utf8_dec (drop (s + k) zs)))"
      by (rule less.hyps) (use True k less.prems in auto)
    moreover have "buf_put ?c (filling n out) = Some (filling n (out @ [ucast ?c]))"
      by (rule buf_put_filling) (use True less.prems in simp)
    moreover have "utf8_dec (drop s zs) = ucast ?c # utf8_dec (drop (s + k) zs)"
    proof -
      have "drop s zs \<noteq> []" using True by simp
      then show ?thesis
        by (subst utf8_dec.simps) (simp only: h fst_conv snd_conv if_False drop_drop add.commute [of k s])
    qed
    moreover have "int (length zs) - int s - int k = int (length zs) - int (s + k)" "0 < int (length zs) - int s"
      using True by simp_all
    ultimately show ?thesis
      unfolding from_utf8_loop.simps [of "int (length zs) - int s" s b "filling n out"]
        utf8_char_head [OF less.prems(1) True] h by (simp only: Option.bind.bind_lunit fst_conv snd_conv if_True append.assoc append_Cons append_Nil)
  qed
qed

lemma buffer_utf8_to_buffer_holds:
  assumes "holds b zs"
  shows "buffer_utf8_to_buffer b =
     Some \<lparr>buf_data = Some (map Some (utf8_dec zs @ [0])), buf_size = length (utf8_dec zs) + 1,
       buf_used = length (utf8_dec zs), buf_pos = 0\<rparr>"
proof -
  have u: "buf_used b = length zs" using assms by (auto simp: holds_def split: option.splits)
  show ?thesis
    using from_utf8_loop_holds [OF assms, of "[]" 0 "length zs + 1"] utf8_dec_length [of zs]
    by (simp add: buffer_utf8_to_buffer_def u buffer_new_filling utf8_finish_filling)
qed

text \<open>The decoder on what the encoder writes.\<close>

lemma utf8_lead:
  assumes "\<not> x < 0x80"
  shows "0xc0 OR drop_bit 6 (x :: byte) = 0xc2 \<or> 0xc0 OR drop_bit 6 x = 0xc3"
proof -
  have "unat (drop_bit 6 x) = unat x div 2 ^ 6"
    by (simp only: unat_drop_bit_eq [of 6 x] drop_bit_eq_div [of 6 "unat x"])
  moreover have "128 \<le> n \<Longrightarrow> n < 256 \<Longrightarrow> n div 64 = 2 \<or> n div 64 = 3" for n :: nat by arith
  moreover have "128 \<le> unat x" using assms by (simp add: word_less_nat_alt)
  ultimately have "unat (drop_bit 6 x) = 2 \<or> unat (drop_bit 6 x) = 3" using unat_byte [of x] by simp
  then have "drop_bit 6 x = 2 \<or> drop_bit 6 x = 3" by (auto simp: word_unat_eq_iff)
  then show ?thesis by auto
qed

lemma utf8_pair:
  "push_bit 6 (ucast (0xc0 OR drop_bit 6 x) AND 63) OR (ucast (0x80 OR (x AND 0x3f)) AND 63) =
   (ucast (x :: byte) :: u32)"
proof -
  have m: "(63 :: u32) = mask 6" "(63 :: byte) = mask 6" by (simp_all add: mask_eq_exp_minus_1)
  have t: "ucast y AND mask 6 = (ucast (take_bit 6 y) :: u32)" for y :: byte
    by (rule bit_word_eqI) (auto simp: bit_simps)
  have "take_bit 6 (0xc0 OR d) = take_bit 6 d" "take_bit 6 (0x80 OR d) = take_bit 6 d" for d :: byte
    by (simp_all add: take_bit_or)
  then show ?thesis
    unfolding m t by (intro bit_word_eqI) (auto simp: bit_simps dest: bit_imp_le_length)
qed

lemma ucast_back [simp]: "ucast (ucast x :: u32) = (x :: byte)"
  by (rule bit_word_eqI) (auto simp: bit_simps)

lemma utf8_dec_byte: "utf8_dec (utf8_byte x @ ys) = x # utf8_dec ys"
proof (cases "x < 0x80")
  case True
  then have l: "unat x < 128" by (simp add: word_less_nat_alt)
  have u: "unat (ucast x :: u32) = unat x"
    by (simp add: unsigned_ucast_eq take_bit_nat_eq_self unat_byte [THEN less_trans])
  have "utf8_head (x # ys) = (ucast x, 1)"
    using l by (simp add: utf8_head_def word_le_nat_alt u)
  moreover have "\<not> 0xff < (ucast x :: u32)" using l by (simp add: word_less_nat_alt u)
  ultimately show ?thesis using True by (simp add: utf8_byte_def utf8_dec.simps [of "x # ys"])
next
  case False
  let ?a = "0xc0 OR drop_bit 6 x" and ?b = "0x80 OR (x AND 0x3f)"
  have u: "unat (ucast x :: u32) = unat x"
    by (simp add: unsigned_ucast_eq take_bit_nat_eq_self unat_byte [THEN less_trans])
  have "(0xc0 :: u32) \<le> ucast ?a" "\<not> (0xe0 :: u32) \<le> ucast ?a" "\<not> (0xf0 :: u32) \<le> ucast ?a"
    using utf8_lead [OF False] by auto
  then have "utf8_head (?a # ?b # ys) = (ucast x, 2)"
    using utf8_pair [of x] by (simp add: utf8_head_def Let_def)
  moreover have "\<not> 0xff < (ucast x :: u32)" using unat_byte [of x] by (simp add: word_less_nat_alt u)
  ultimately show ?thesis using False by (simp add: utf8_byte_def utf8_dec.simps [of "?a # ?b # ys"])
qed

lemma utf8_dec_latin1: "utf8_dec (latin1_utf8 xs) = xs"
  by (induction xs) (simp_all add: latin1_utf8_def utf8_dec_byte utf8_dec.simps [of "[]"])


section \<open>Appending strings, lengths of strings\<close>

lemma append_string_holds:
  assumes "holds b xs"
  shows "\<exists>b'. buffer_append_string s b = Some b' \<and> holds b' (take (length s) (xs @ s))"
proof -
  let ?b = "buffer_prepare (length s + 1) b"
  obtain block where p: "holds ?b xs" "buf_data ?b = Some block" "length xs + (length s + 1) \<le> length block"
    using prepare_room [OF assms, of "length s + 1"] by blast
  then have u: "buf_used ?b = length xs" by (simp add: holds_def)
  obtain b' where "buf_write (length xs) (s @ [0]) ?b = Some b'"
    "holds (b'\<lparr>buf_used := length s\<rparr>) (take (length s) (xs @ s @ [0]))"
    using write_holds [OF p(1,2), of "s @ [0]" "length s"] p(3) by auto
  moreover have "take (length s) (xs @ s @ [0]) = take (length s) (xs @ s)"
    unfolding append_assoc [symmetric] by (rule take_append [THEN trans]) simp
  ultimately show ?thesis
    using u by (simp add: buffer_append_string_def buffer_append_string_n_def Let_def)
qed

primrec append_all :: "byte list list \<Rightarrow> buffer \<Rightarrow> buffer option" where
  "append_all [] b = Some b"
| "append_all (xs # xss) b = Option.bind (buffer_append_data xs b) (append_all xss)"

lemma append_all_holds: "holds b ys \<Longrightarrow> \<exists>b'. append_all xss b = Some b' \<and> holds b' (ys @ concat xss)"
proof (induction xss arbitrary: b ys)
  case (Cons xs xss)
  from append_data_holds [OF Cons.prems] obtain b1 where b1: "buffer_append_data xs b = Some b1" "holds b1 (ys @ xs)"
    by blast
  from Cons.IH [OF b1(2)] b1(1) show ?case by simp
qed simp

lemma utf8_byte_head: "x < 0x80 \<Longrightarrow> \<not> 0xc0 \<le> (x :: byte)"
  by (simp add: word_less_nat_alt word_le_nat_alt)

lemma utf8_len_loop_holds:
  "holds b (us @ latin1_utf8 ys) \<Longrightarrow>
   utf8_len_loop (int (length (latin1_utf8 ys))) (length us) b len = Some (len + int (length (latin1_utf8 ys)))"
proof (induction ys arbitrary: us len)
  case Nil
  then show ?case by (simp add: latin1_utf8_def utf8_len_loop.simps)
next
  case (Cons y ys)
  let ?z = "latin1_utf8 ys"
  have z: "latin1_utf8 (y # ys) = utf8_byte y @ ?z" by (simp add: latin1_utf8_def)
  have IH: "utf8_len_loop (int (length ?z)) (length us + length (utf8_byte y)) b len' =
      Some (len' + int (length ?z))" for len'
    using Cons.IH [of "us @ utf8_byte y" len'] Cons.prems z by simp
  have p: "peek b (length us) = Some (utf8_byte y ! 0)"
    using holds_peek [OF Cons.prems, of "length us"] by (simp add: z utf8_byte_def nth_append)
  show ?case
  proof (cases "y < 0x80")
    case True
    then have "\<not> 0xc0 \<le> y" "\<not> 0xe0 \<le> y" "\<not> 0xf0 \<le> y"
      by (simp_all add: word_less_nat_alt word_le_nat_alt)
    then show ?thesis
      using p IH [of "len + 1"] True unfolding z
      by (subst utf8_len_loop.simps) (simp add: utf8_byte_def)
  next
    case False
    then have "\<not> 0xf0 \<le> utf8_byte y ! 0" "\<not> 0xe0 \<le> utf8_byte y ! 0" "0xc0 \<le> utf8_byte y ! 0"
      using utf8_lead [OF False] by (auto simp: utf8_byte_def)
    then show ?thesis
      using p IH [of "len + 2"] False unfolding z
      by (subst utf8_len_loop.simps) (simp add: utf8_byte_def)
  qed
qed

lemma latin1_utf8_count: "length (latin1_utf8 xs) = length xs + length (filter (\<lambda>x. \<not> x < 0x80) xs)"
  by (induction xs) (simp_all add: latin1_utf8_def utf8_byte_def)

lemma strlen_from_zero: "0 \<notin> set xs \<Longrightarrow> strlen_from n (map Some xs @ Some 0 # cs) = Some (n + length xs)"
  by (induction xs arbitrary: n) auto


section \<open>Buffers in memory\<close>

text \<open>
  Where buffers are shared they are allocated objects: \<open>None\<close> is one that was freed. After
  \<open>buffer_delete\<close> the data pointer of a buffer is dangling: a block of which no cell may be accessed.
\<close>

type_synonym bheap = "buffer option list"

definition buf_get :: "bheap \<Rightarrow> addr \<Rightarrow> buffer option" where
  "buf_get bs a = (if a < length bs then bs ! a else None)"

definition buf_upd :: "addr \<Rightarrow> (buffer \<Rightarrow> buffer option) \<Rightarrow> bheap \<Rightarrow> bheap option" where
  "buf_upd a f bs = Option.bind (buf_get bs a) (\<lambda>b. Option.bind (f b) (\<lambda>b. Some (bs[a := Some b])))"

definition buf_malloc :: "nat \<Rightarrow> bheap \<Rightarrow> addr \<times> bheap" where
  "buf_malloc sz bs = (length bs, bs @ [Some (buffer_new sz)])"

definition buffer_delete :: "buffer \<Rightarrow> buffer" where
  "buffer_delete b = b\<lparr>buf_data := map_option (\<lambda>_. []) (buf_data b)\<rparr>"

definition buffer_destroy :: "addr option \<Rightarrow> bheap \<Rightarrow> bheap option" where
  "buffer_destroy p bs =
     (case p of
        None \<Rightarrow> Some bs
      | Some a \<Rightarrow> if buf_get bs a \<noteq> None then Some (bs[a := None]) else None)"

text \<open>The first bytes of a buffer, as \<open>memcmp\<close> and its like read them.\<close>

definition buf_bytes :: "nat \<Rightarrow> buffer \<Rightarrow> byte list option" where
  "buf_bytes n b = those (map (peek b) [0..<n])"

lemma buf_upd_get:
  assumes "buf_get bs a = Some b" "f b = Some b'"
  shows "\<exists>bs'. buf_upd a f bs = Some bs' \<and> buf_get bs' = (buf_get bs)(a := Some b') \<and> length bs' = length bs"
  using assms by (auto simp: buf_upd_def buf_get_def fun_eq_iff split: if_splits)

lemma buf_malloc_get:
  "buf_malloc sz bs = (a, bs') \<Longrightarrow> a = length bs \<and> buf_get bs a = None \<and> length bs' = length bs + 1 \<and>
     buf_get bs' = (buf_get bs)(a := Some (buffer_new sz))"
  by (auto simp: buf_malloc_def buf_get_def fun_eq_iff nth_append)

lemma buffer_destroy_get:
  "buf_get bs a \<noteq> None \<Longrightarrow> \<exists>bs'. buffer_destroy (Some a) bs = Some bs' \<and> buf_get bs' = (buf_get bs)(a := None) \<and>
     length bs' = length bs"
  by (auto simp: buffer_destroy_def buf_get_def fun_eq_iff split: if_splits)

lemma those_map_Some: "(\<And>x. x \<in> set xs \<Longrightarrow> f x = Some (g x)) \<Longrightarrow> those (map f xs) = Some (map g xs)"
  by (induction xs) auto

lemma buf_bytes_holds:
  assumes "holds b xs"
  shows "buf_bytes (length xs) b = Some xs"
  using those_map_Some [of "[0..<length xs]" "peek b" "(!) xs"] holds_peek [OF assms]
  by (simp add: buf_bytes_def map_nth)

lemma holds_used: "holds b xs \<Longrightarrow> buf_used b = length xs"
  by (auto simp: holds_def split: option.splits)

lemma holds_unique: "holds b xs \<Longrightarrow> holds b ys \<Longrightarrow> xs = ys"
  using buf_bytes_holds [of b xs] buf_bytes_holds [of b ys] holds_used [of b xs] holds_used [of b ys] by simp

text \<open>What follows a heap with some buffers freed.\<close>

definition buf_without :: "addr set \<Rightarrow> bheap \<Rightarrow> addr \<Rightarrow> buffer option" where
  "buf_without as bs a = (if a \<in> as then None else buf_get bs a)"

lemma append_string_n_holds:
  assumes "holds b xs" "n < length s"
  shows "\<exists>b'. buffer_append_string_n s n b = Some b' \<and> holds b' (take n (xs @ s))"
proof -
  let ?b = "buffer_prepare (n + 1) b"
  obtain block where p: "holds ?b xs" "buf_data ?b = Some block" "length xs + (n + 1) \<le> length block"
    using prepare_room [OF assms(1), of "n + 1"] by blast
  then have u: "buf_used ?b = length xs" by (simp add: holds_def)
  have t: "length (take (n + 1) s) = n + 1" using assms(2) by simp
  obtain b' where b': "buf_write (length xs) (take (n + 1) s) ?b = Some b'"
    "holds (b'\<lparr>buf_used := n\<rparr>) (take n (xs @ take (n + 1) s))"
    using write_holds [OF p(1,2), of "take (n + 1) s" n] p(3) t by auto
  have "take n (xs @ take (n + 1) s) = take n (xs @ s)"
  proof -
    have "n - length xs \<le> Suc n" by simp
    then show ?thesis by (simp add: min_absorb1)
  qed
  with b' u assms(2) show ?thesis by (simp add: buffer_append_string_n_def Let_def)
qed

lemma buf_without_empty [simp]: "buf_without {} bs = buf_get bs"
  by (simp add: buf_without_def fun_eq_iff)


section \<open>Properties\<close>

text \<open>appending data to a new buffer of any size never writes outside the block, and the buffer
  then holds the concatenation: a buffer grows by what is appended.\<close>

theorem buffer_appends_hold:
  "\<exists>b. append_all xss (buffer_new n) = Some b \<and> holds b (concat xss)"
  using append_all_holds [OF holds_new, of xss n] by simp

text \<open>\<open>buffer_append_string\<close> writes after the bytes in use but sets \<open>used\<close> to the length of the
  string: a buffer that held \<open>xs\<close> holds the first \<open>length s\<close> bytes of \<open>xs @ s\<close>, which is the string
  when the buffer was empty, and the old bytes alone when there were at least as many.\<close>

theorem buffer_append_string_used:
  assumes "holds b xs"
  shows "\<exists>b'. buffer_append_string s b = Some b' \<and> holds b' (take (length s) (xs @ s)) \<and>
     (xs = [] \<longrightarrow> holds b' s) \<and> (length s \<le> length xs \<longrightarrow> holds b' (take (length s) xs))"
  using append_string_holds [OF assms, of s] by auto

theorem buffer_append_string_used_witness:
  "\<exists>b'. buffer_append_string [3] (filling 2 [1, 2]) = Some b' \<and> holds b' [1]"
proof -
  have "holds (filling 2 [1, 2]) [1, 2]" by (simp add: holds_def filling_def)
  from buffer_append_string_used [OF this, of "[3]"] show ?thesis by auto
qed



text \<open>the conversion from UTF-8 reads only the bytes in use and writes only inside its block,
  whatever the bytes are (truncated and overlong sequences, stray continuation bytes).\<close>

theorem buffer_utf8_decode_safe:
  assumes "holds b zs"
  shows "\<exists>r. buffer_utf8_to_buffer b = Some r \<and> holds r (utf8_dec zs) \<and> buf_used r \<le> buf_used b"
proof -
  have "buf_used b = length zs" using assms by (auto simp: holds_def split: option.splits)
  with buffer_utf8_to_buffer_holds [OF assms] utf8_dec_length [of zs] show ?thesis by (simp add: holds_def)
qed

theorem buffer_utf8_decode_safe_witness:
  "\<exists>r. buffer_utf8_to_buffer (filling 1 [0xf4]) = Some r \<and> holds r (utf8_dec [0xf4]) \<and> buf_used r \<le> 1"
proof -
  have "holds (filling 1 [0xf4]) [0xf4]" by (simp add: holds_def filling_def)
  from buffer_utf8_decode_safe [OF this] show ?thesis by (simp add: filling_def)
qed

text \<open>\<open>string_update_len\<close> counts the bytes of a UTF-8 string, not its characters: a Latin-1
  text converted to UTF-8 has the length of the text and one more for each character outside
  ASCII. For the Latin-1 encoding it is the number of characters before the terminator.\<close>

theorem string_update_len_bytes:
  assumes "holds b xs" "0 \<notin> set xs" "buffer_to_buffer_utf8 b = Some u"
  shows "map_option str_len (string_update_len \<lparr>str_b = u, str_len = n, str_encoding = UTF8\<rparr>) =
       Some (int (length xs) + int (length (filter (\<lambda>x. \<not> x < 0x80) xs))) \<and>
     map_option str_len (string_update_len
       \<lparr>str_b = b\<lparr>buf_data := Some (map Some (xs @ [0]))\<rparr>, str_len = n, str_encoding = ISO88591\<rparr>) =
       Some (int (length xs))"
proof -
  let ?u = "latin1_utf8 xs"
  have u: "u = \<lparr>buf_data = Some (map Some (?u @ [0])), buf_size = length ?u + 1, buf_used = length ?u, buf_pos = 0\<rparr>"
    using buffer_to_buffer_utf8_holds [OF assms(1)] assms(3) by simp
  then have "holds u ([] @ ?u)" by (simp add: holds_def)
  from utf8_len_loop_holds [OF this, of 0] u
  have "utf8_len_loop (int (buf_used u)) 0 u 0 = Some (int (length ?u))" by simp
  then show ?thesis
    using strlen_from_zero [OF assms(2), of 0 "[]"] by (simp add: string_update_len_def latin1_utf8_count)
qed

theorem string_update_len_bytes_witness:
  "\<exists>u. map_option str_len (string_update_len \<lparr>str_b = u, str_len = 0, str_encoding = UTF8\<rparr>) = Some 3"
proof -
  have h: "holds (filling 2 [0x41, 0xe9]) [0x41, 0xe9]" by (simp add: holds_def filling_def)
  obtain u where "buffer_to_buffer_utf8 (filling 2 [0x41, 0xe9]) = Some u"
    using buffer_to_buffer_utf8_holds [OF h] by blast
  from string_update_len_bytes [OF h _ this, of 0] show ?thesis by auto
qed

end
