(* ===== verification/Keyed_Table.thy ===== *)
theory Keyed_Table
  imports Ape_Prelude
begin

text \<open>
  The contract of a table of keys and values, as its clients rely on it: the two kinds of hash table
  (\<^verbatim>\<open>ape_hash.c\<close>) and the arrays (\<^verbatim>\<open>ape_array.c\<close>) are interpretations. A client's sequence of
  operations is a map of the last values.
\<close>

section \<open>The contract of a keyed table\<close>

text \<open>
  \<open>same\<close> says that two keys are one to the table. The lookup, and what every operation does to the
  lookups; operations are defined on tables that satisfy the invariant, and keep it. A key that is
  already in the table is outside the contract of \<open>insert\<close>.
\<close>

definition last_value :: "('k \<Rightarrow> 'k \<Rightarrow> bool) \<Rightarrow> ('k \<times> 'v option) list \<Rightarrow> 'k \<Rightarrow> 'v option" where
  "last_value same ops k =
     (case filter (\<lambda>op. same (fst op) k) (rev ops) of [] \<Rightarrow> None | op # _ \<Rightarrow> snd op)"

locale keyed_table =
  fixes same :: "'k \<Rightarrow> 'k \<Rightarrow> bool"
    and inv :: "'t \<Rightarrow> bool"
    and lookup :: "'k \<Rightarrow> 't \<Rightarrow> 'v option option"
    and insert :: "'k \<Rightarrow> 'v \<Rightarrow> 't \<Rightarrow> 't option"
    and delete :: "'k \<Rightarrow> 't \<Rightarrow> 't option"
  assumes lookup_defined: "inv t \<Longrightarrow> \<exists>r. lookup k t = Some r"
    and insert_law: "inv t \<Longrightarrow> lookup k t = Some None \<Longrightarrow>
       \<exists>t'. insert k v t = Some t' \<and> inv t' \<and>
         (\<forall>k'. lookup k' t' = (if same k k' then Some (Some v) else lookup k' t))"
    and delete_law: "inv t \<Longrightarrow>
       \<exists>t'. delete k t = Some t' \<and> inv t' \<and>
         (\<forall>k'. lookup k' t' = (if same k k' then Some None else lookup k' t))"
begin

text \<open>A table's life: replacing a key is deleting it first.\<close>

primrec run :: "('k \<times> 'v option) list \<Rightarrow> 't \<Rightarrow> 't option" where
  "run [] t = Some t"
| "run (op # ops) t =
     Option.bind (delete (fst op) t) (\<lambda>t.
     Option.bind (case snd op of None \<Rightarrow> Some t | Some v \<Rightarrow> insert (fst op) v t) (run ops))"

primrec last_write :: "'v option \<Rightarrow> ('k \<times> 'v option) list \<Rightarrow> 'k \<Rightarrow> 'v option" where
  "last_write r [] k = r"
| "last_write r (op # ops) k = last_write (if same (fst op) k then snd op else r) ops k"

lemma run_lookup:
  assumes "inv t" and refl: "\<And>k. same k k"
  shows "\<exists>t'. run ops t = Some t' \<and> inv t' \<and>
     (\<forall>k r. lookup k t = Some r \<longrightarrow> lookup k t' = Some (last_write r ops k))"
  using assms(1)
proof (induction ops arbitrary: t)
  case (Cons op ops)
  obtain k vo where op: "op = (k, vo)" by (cases op)
  obtain t1 where t1: "delete k t = Some t1" "inv t1"
    "\<And>k'. lookup k' t1 = (if same k k' then Some None else lookup k' t)"
    using delete_law [OF Cons.prems, of k] by blast
  obtain t2 where t2: "(case vo of None \<Rightarrow> Some t1 | Some v \<Rightarrow> insert k v t1) = Some t2" "inv t2"
    "\<And>k'. lookup k' t2 = (if same k k' then Some vo else lookup k' t)"
  proof (cases vo)
    case None
    with t1 that show ?thesis by simp
  next
    case (Some v)
    have "lookup k t1 = Some None" using t1(3) refl by simp
    with insert_law [OF t1(2), of k v] obtain t' where "insert k v t1 = Some t'" "inv t'"
      "\<And>k'. lookup k' t' = (if same k k' then Some (Some v) else lookup k' t1)" by blast
    with t1(3) Some that show ?thesis by simp
  qed
  obtain t3 where t3: "run ops t2 = Some t3" "inv t3"
    "\<And>k r. lookup k t2 = Some r \<Longrightarrow> lookup k t3 = Some (last_write r ops k)"
    using Cons.IH [OF t2(2)] by blast
  have "(case vo of None \<Rightarrow> Some t1 | Some v \<Rightarrow> insert (fst (k, vo)) v t1) = Some t2"
    using t2(1) by (cases vo) simp_all
  then show ?case using t1(1) t2(3) t3 by (auto simp: op)
qed simp

lemma last_write_value:
  "last_write r ops k =
     (case filter (\<lambda>op. same (fst op) k) (rev ops) of [] \<Rightarrow> r | op # _ \<Rightarrow> snd op)"
  by (induction ops arbitrary: r) (auto split: list.splits)

lemma run_values:
  assumes "inv t" "\<And>k. same k k" "\<And>k. lookup k t = Some None"
  shows "\<exists>t'. run ops t = Some t' \<and> inv t' \<and> (\<forall>k. lookup k t' = Some (last_value same ops k))"
  using run_lookup [OF assms(1,2), of ops] assms(3)
  by (auto simp: last_write_value last_value_def)

end

end
