(* ===== verification/Array.thy ===== *)
theory Array
  imports Pool Buffer Keyed_Table "HOL-Library.AList"
begin

text \<open>
  The arrays of \<^verbatim>\<open>src/core/ape_array.c\<close>, association lists in the cells of a pool, and the properties of
  \<^verbatim>\<open>src/core/ape_extend.c\<close> over them. An array has a list of cells, the memory of the cells and the
  memory of the buffers; the operations are undefined (\<open>None\<close>) where they follow a null or freed pointer
  or read an unwritten byte. \<open>array_rep\<close> relates an array to its slots; \<open>array_table\<close> to the list of
  the keys and values of an array to which items were only added. The contract \<open>keyed_table\<close> is
  interpreted for the properties.
\<close>

declare split_paired_All [simp del] split_paired_Ex [simp del]

section \<open>Items\<close>

text \<open>
  The union of a cell holds a buffer or another pointer; a null pointer is \<open>None\<close>.
\<close>

datatype 'v array_ptr = Ptr_Buf addr | Ptr_Data 'v

record 'v array_item = "'v array_ptr pool" +
  ai_key :: "addr option"

type_synonym 'v array_heap = "'v array_item list option list"

text \<open>An array (\<open>ape_array_t\<close> is \<open>ape_pool_list_t\<close>), its cells, and the memory of the buffers.\<close>

record 'v array_state =
  as_list :: pool_list
  as_cells :: "'v array_heap"
  as_bufs :: bheap

definition APE_POOL_ALL_FLAGS :: u32 where "APE_POOL_ALL_FLAGS = APE_POOL_ALLOC"
definition APE_ARRAY_USED_SLOT :: u32 where "APE_ARRAY_USED_SLOT = push_bit 1 1"
definition APE_ARRAY_VAL_BUF :: u32 where "APE_ARRAY_VAL_BUF = push_bit 2 1"
definition APE_ARRAY_VAL_INT :: u32 where "APE_ARRAY_VAL_INT = push_bit 3 1"

text \<open>What \<open>malloc\<close> leaves in the key of a new cell is not read before it is written; \<open>None\<close> stands for it.\<close>

definition raw_item :: "'v array_item" where
  "raw_item = \<lparr>pl_ptr = None, pl_next = None, pl_flags = 0, ai_key = None\<rparr>"

definition ape_array_new :: "nat \<Rightarrow> 'v array_heap \<Rightarrow> bheap \<Rightarrow> 'v array_state" where
  "ape_array_new n h bufs =
     (let (l, h) = ape_new_pool_list raw_item n h in \<lparr>as_list = l, as_cells = h, as_bufs = bufs\<rparr>)"

definition ai_used :: "'v array_item \<Rightarrow> bool" where
  "ai_used c \<longleftrightarrow> pl_flags c AND APE_ARRAY_USED_SLOT \<noteq> 0"

section \<open>Looking up\<close>

text \<open>
  \<open>APE_A_FOREACH\<close> with the test of its body: a used cell whose key and value are not null. The
  comparisons read the key's bytes after its length was compared; \<open>strncasecmp\<close> stops at a zero.
\<close>

partial_function (option) array_foreach ::
    "(buffer \<Rightarrow> bool option) \<Rightarrow> 'v array_heap \<Rightarrow> bheap \<Rightarrow> paddr option \<Rightarrow> paddr option option" where
  "array_foreach test h bufs p =
     (case p of
        None \<Rightarrow> Some None
      | Some a \<Rightarrow>
          Option.bind (pool_get h a) (\<lambda>c.
          if ai_used c \<and> ai_key c \<noteq> None \<and> pl_ptr c \<noteq> None
          then Option.bind (ai_key c) (\<lambda>ka.
               Option.bind (buf_get bufs ka) (\<lambda>k.
               Option.bind (test k) (\<lambda>hit.
               if hit then Some (Some a) else array_foreach test h bufs (pl_next c))))
          else array_foreach test h bufs (pl_next c)))"

declare array_foreach.simps [code]

definition key_test :: "(byte list \<Rightarrow> byte list \<Rightarrow> bool) \<Rightarrow> byte list \<Rightarrow> buffer \<Rightarrow> bool option" where
  "key_test cmp key k =
     (if buf_used k = length key then map_option (cmp key) (buf_bytes (length key) k) else Some False)"

fun strncasecmp_eq :: "byte list \<Rightarrow> byte list \<Rightarrow> bool" where
  "strncasecmp_eq (x # xs) (y # ys) \<longleftrightarrow> tolower x = tolower y \<and> (x = 0 \<or> strncasecmp_eq xs ys)"
| "strncasecmp_eq _ _ \<longleftrightarrow> True"

definition ape_array_lookup_item :: "byte list \<Rightarrow> 'v array_state \<Rightarrow> paddr option option" where
  "ape_array_lookup_item key st =
     array_foreach (key_test (=) key) (as_cells st) (as_bufs st) (ps_head (as_list st))"

definition item_ptr :: "paddr option \<Rightarrow> 'v array_state \<Rightarrow> 'v array_ptr option option" where
  "item_ptr p st = (case p of None \<Rightarrow> Some None | Some a \<Rightarrow> map_option pl_ptr (pool_get (as_cells st) a))"

definition ape_array_lookup :: "byte list \<Rightarrow> 'v array_state \<Rightarrow> 'v array_ptr option option" where
  "ape_array_lookup key st =
     Option.bind (array_foreach (key_test strncasecmp_eq key) (as_cells st) (as_bufs st) (ps_head (as_list st)))
       (\<lambda>p. item_ptr p st)"

definition ape_array_lookup_data :: "byte list \<Rightarrow> 'v array_state \<Rightarrow> 'v array_ptr option option" where
  "ape_array_lookup_data key st =
     Option.bind (array_foreach (key_test strncasecmp_eq key) (as_cells st) (as_bufs st) (ps_head (as_list st)))
       (\<lambda>p. item_ptr p st)"

definition ape_get_property :: "byte list \<Rightarrow> 'v array_state \<Rightarrow> 'v array_ptr option option" where
  "ape_get_property key st = Option.bind (ape_array_lookup_item key st) (\<lambda>p. item_ptr p st)"

section \<open>Deleting and adding\<close>

text \<open>Freeing the value of a cell: only a buffer can be given to \<open>buffer_destroy\<close>.\<close>

definition destroy_value :: "'v array_item \<Rightarrow> bheap \<Rightarrow> bheap option" where
  "destroy_value c bufs =
     (if pl_flags c AND NOT APE_POOL_ALL_FLAGS = APE_ARRAY_VAL_BUF then
        (case pl_ptr c of
           None \<Rightarrow> buffer_destroy None bufs
         | Some (Ptr_Buf a) \<Rightarrow> buffer_destroy (Some a) bufs
         | Some (Ptr_Data _) \<Rightarrow> None)
      else Some bufs)"

definition ape_array_delete :: "byte list \<Rightarrow> 'v array_state \<Rightarrow> 'v array_state option" where
  "ape_array_delete key st =
     Option.bind (ape_array_lookup_item key st) (\<lambda>item.
     case item of
       None \<Rightarrow> Some st
     | Some a \<Rightarrow>
         Option.bind (pool_upd a (\<lambda>c. c\<lparr>pl_flags := pl_flags c AND NOT APE_ARRAY_USED_SLOT\<rparr>) (as_cells st)) (\<lambda>h.
         Option.bind (pool_get h a) (\<lambda>c.
         Option.bind (buffer_destroy (ai_key c) (as_bufs st)) (\<lambda>bufs.
         Option.bind (destroy_value c bufs) (\<lambda>bufs.
         Option.bind
           (if pl_flags c AND NOT APE_POOL_ALL_FLAGS = APE_ARRAY_VAL_BUF
            then pool_upd a (\<lambda>c. c\<lparr>pl_flags := pl_flags c AND NOT APE_ARRAY_VAL_BUF\<rparr>) h
            else Some h) (\<lambda>h.
         Some \<lparr>as_list = (as_list st)\<lparr>ps_current := Some a\<rparr>, as_cells = h, as_bufs = bufs\<rparr>))))))"

definition slot_taken :: "paddr option \<Rightarrow> 'v array_heap \<Rightarrow> bool option" where
  "slot_taken p h = (case p of None \<Rightarrow> Some True | Some a \<Rightarrow> map_option ai_used (pool_get h a))"

text \<open>From the head to the first cell that is not used.\<close>

partial_function (option) array_free_slot :: "'v array_heap \<Rightarrow> paddr option \<Rightarrow> paddr option option" where
  "array_free_slot h p =
     (case p of
        None \<Rightarrow> Some None
      | Some a \<Rightarrow> Option.bind (pool_get h a) (\<lambda>c. if ai_used c then array_free_slot h (pl_next c) else Some (Some a)))"

declare array_free_slot.simps [code]

definition ape_array_add_s :: "addr \<Rightarrow> 'v array_state \<Rightarrow> (paddr \<times> 'v array_state) option" where
  "ape_array_add_s key st =
     Option.bind (buf_get (as_bufs st) key) (\<lambda>k.
     Option.bind (buf_bytes (buf_used k) k) (\<lambda>data.
     Option.bind (ape_array_delete data st) (\<lambda>st.
     Option.bind (slot_taken (ps_current (as_list st)) (as_cells st)) (\<lambda>taken.
     Option.bind
       (if taken then ape_grow_pool raw_item 4 (as_list st) (as_cells st)
        else map_option (\<lambda>a. (a, as_list st, as_cells st)) (ps_current (as_list st))) (\<lambda>(slot, l, h).
     Option.bind (pool_upd slot (\<lambda>c. c\<lparr>pl_flags := pl_flags c OR APE_ARRAY_USED_SLOT, ai_key := Some key\<rparr>) h) (\<lambda>h.
     Option.bind (pool_get h slot) (\<lambda>c.
     Option.bind (slot_taken (pl_next c) h) (\<lambda>taken.
     Option.bind (if taken then array_free_slot h (ps_head l) else Some (pl_next c)) (\<lambda>current.
     Some (slot, \<lparr>as_list = l\<lparr>ps_current := current\<rparr>, as_cells = h, as_bufs = as_bufs st\<rparr>))))))))))"

definition ape_array_add_b :: "addr \<Rightarrow> addr \<Rightarrow> 'v array_state \<Rightarrow> 'v array_state option" where
  "ape_array_add_b key value st =
     Option.bind (ape_array_add_s key st) (\<lambda>(slot, st).
     map_option (\<lambda>h. st\<lparr>as_cells := h\<rparr>)
       (pool_upd slot (\<lambda>c. c\<lparr>pl_flags := pl_flags c OR APE_ARRAY_VAL_BUF, pl_ptr := Some (Ptr_Buf value)\<rparr>) (as_cells st)))"

definition ape_array_add_ptr :: "addr \<Rightarrow> 'v option \<Rightarrow> 'v array_state \<Rightarrow> (paddr \<times> 'v array_state) option" where
  "ape_array_add_ptr key ptr st =
     Option.bind (ape_array_add_s key st) (\<lambda>(slot, st).
     map_option (\<lambda>h. (slot, st\<lparr>as_cells := h\<rparr>))
       (pool_upd slot (\<lambda>c. c\<lparr>pl_ptr := map_option Ptr_Data ptr\<rparr>) (as_cells st)))"

text \<open>\<open>key\<close> and \<open>value\<close> are the memory at the pointers: as much of it as can be read.\<close>

definition buffer_of :: "byte list \<Rightarrow> nat \<Rightarrow> bheap \<Rightarrow> (addr \<times> bheap) option" where
  "buffer_of string n bufs =
     (let (k, bufs) = buf_malloc (n + 1) bufs
      in map_option (Pair k) (buf_upd k (buffer_append_string_n string n) bufs))"

definition ape_array_add_ptrn :: "byte list \<Rightarrow> nat \<Rightarrow> 'v option \<Rightarrow> 'v array_state \<Rightarrow> (paddr \<times> 'v array_state) option" where
  "ape_array_add_ptrn key klen ptr st =
     Option.bind (buffer_of key klen (as_bufs st)) (\<lambda>(k, bufs).
     ape_array_add_ptr k ptr (st\<lparr>as_bufs := bufs\<rparr>))"

definition ape_array_add_n :: "byte list \<Rightarrow> nat \<Rightarrow> byte list \<Rightarrow> nat \<Rightarrow> 'v array_state \<Rightarrow> 'v array_state option" where
  "ape_array_add_n key klen value vlen st =
     (let (k, bufs) = buf_malloc (klen + 1) (as_bufs st);
          (v, bufs) = buf_malloc (vlen + 1) bufs
      in Option.bind (buf_upd k (buffer_append_string_n key klen) bufs) (\<lambda>bufs.
         Option.bind (buf_upd v (buffer_append_string_n value vlen) bufs) (\<lambda>bufs.
         ape_array_add_b k v (st\<lparr>as_bufs := bufs\<rparr>))))"

text \<open>\<open>strlen\<close> of the memory at a pointer.\<close>

definition c_strlen :: "byte list \<Rightarrow> nat option" where
  "c_strlen string = strlen_from 0 (map Some string)"

definition ape_array_add :: "byte list \<Rightarrow> byte list \<Rightarrow> 'v array_state \<Rightarrow> 'v array_state option" where
  "ape_array_add key value st =
     Option.bind (c_strlen key) (\<lambda>klen.
     Option.bind (c_strlen value) (\<lambda>vlen. ape_array_add_n key klen value vlen st))"

definition ape_add_property :: "byte list \<Rightarrow> 'v option \<Rightarrow> 'v array_state \<Rightarrow> 'v array_state option" where
  "ape_add_property key val st =
     Option.bind (c_strlen key) (\<lambda>klen. map_option snd (ape_array_add_ptrn key klen val st))"

section \<open>Destroying\<close>

definition ape_array_clean_cb :: "paddr \<Rightarrow> 'v array_heap \<times> bheap \<Rightarrow> ('v array_heap \<times> bheap) option" where
  "ape_array_clean_cb a s =
     Option.bind (pool_get (fst s) a) (\<lambda>c.
     if \<not> ai_used c then Some s
     else
       Option.bind (pool_upd a (\<lambda>c. c\<lparr>pl_flags := pl_flags c AND NOT APE_ARRAY_USED_SLOT\<rparr>) (fst s)) (\<lambda>h.
       Option.bind (pool_get h a) (\<lambda>c.
       Option.bind (buffer_destroy (ai_key c) (snd s)) (\<lambda>bufs.
       Option.bind (destroy_value c bufs) (\<lambda>bufs.
       Some (h, bufs))))))"

definition ape_array_destroy :: "'v array_state \<Rightarrow> ('v array_heap \<times> bheap) option" where
  "ape_array_destroy st =
     ape_destroy_pool_list_ordered (as_list st) (Some ape_array_clean_cb) (as_cells st, as_bufs st)"

section \<open>What an array holds\<close>

text \<open>
  A slot: free, or the key's bytes, the key's buffer and the pointer. \<open>slot_entry\<close> is what the loops
  see of it (an item with a null value is not seen), \<open>slot_owns\<close> the buffers that are its own.
\<close>

type_synonym 'v slot = "(byte list \<times> addr \<times> 'v array_ptr option) option"

fun slot_entry :: "'v slot \<Rightarrow> (byte list \<times> 'v array_ptr) option" where
  "slot_entry (Some (k, ka, Some p)) = Some (k, p)"
| "slot_entry _ = None"

fun ptr_owns :: "'v array_ptr option \<Rightarrow> addr set" where
  "ptr_owns (Some (Ptr_Buf v)) = {v}"
| "ptr_owns _ = {}"

fun slot_owns :: "'v slot \<Rightarrow> addr set" where
  "slot_owns None = {}"
| "slot_owns (Some (k, ka, p)) = insert ka (ptr_owns p)"

definition item_rep :: "(addr \<Rightarrow> buffer option) \<Rightarrow> 'v array_item \<Rightarrow> 'v slot \<Rightarrow> bool" where
  "item_rep bf c s \<longleftrightarrow>
     (case s of
        None \<Rightarrow> pl_flags c AND NOT APE_POOL_ALL_FLAGS = 0
      | Some (k, ka, p) \<Rightarrow> ai_key c = Some ka \<and> pl_ptr c = p \<and> (\<exists>kb. bf ka = Some kb \<and> holds kb k) \<and>
          pl_flags c AND NOT APE_POOL_ALL_FLAGS =
            (if ptr_owns p = {} then APE_ARRAY_USED_SLOT else APE_ARRAY_USED_SLOT OR APE_ARRAY_VAL_BUF) \<and>
          (\<forall>v\<in>ptr_owns p. bf v \<noteq> None) \<and> ka \<notin> ptr_owns p)"

lemmas array_flags = APE_POOL_ALL_FLAGS_def APE_POOL_ALLOC_def APE_ARRAY_USED_SLOT_def APE_ARRAY_VAL_BUF_def

lemma flags_split: "f AND NOT 1 = (g :: u32) \<Longrightarrow> f AND 2 = g AND 2"
  by (auto simp: and.assoc)

lemma ai_used_rep: "item_rep bf c s \<Longrightarrow> ai_used c \<longleftrightarrow> s \<noteq> None"
  using flags_split [of "pl_flags c"]
  by (auto simp: item_rep_def ai_used_def array_flags split: option.splits if_splits)

definition array_rep :: "paddr set \<Rightarrow> 'v array_state \<Rightarrow> (addr \<times> nat) list \<Rightarrow> (paddr \<Rightarrow> 'v slot) \<Rightarrow> bool" where
  "array_rep X st bs \<sigma> \<longleftrightarrow>
     pool_ok (as_list st) (as_cells st) (cells_of bs) \<and> (\<forall>(b, n)\<in>set bs. 0 < n) \<and>
     (\<forall>a\<in>set (cells_of bs) - X. \<exists>c. pool_get (as_cells st) a = Some c \<and> item_rep (buf_get (as_bufs st)) c (\<sigma> a)) \<and>
     (\<forall>a. \<sigma> a \<noteq> None \<longrightarrow> a \<in> set (cells_of bs) - X) \<and>
     (\<forall>a b. a \<noteq> b \<longrightarrow> slot_owns (\<sigma> a) \<inter> slot_owns (\<sigma> b) = {}) \<and>
     (\<forall>a b k p q. slot_entry (\<sigma> a) = Some (k, p) \<longrightarrow> slot_entry (\<sigma> b) = Some (k, q) \<longrightarrow> a = b) \<and>
     (case ps_current (as_list st) of
        None \<Rightarrow> \<forall>a\<in>set (cells_of bs) - X. \<sigma> a \<noteq> None
      | Some c \<Rightarrow> c \<in> set (cells_of bs) - X \<and> \<sigma> c = None)"

text \<open>\<open>X\<close> is a cell that is being filled.\<close>

lemma array_repD:
  assumes "array_rep X st bs \<sigma>"
  shows "pool_ok (as_list st) (as_cells st) (cells_of bs)" "(b, n) \<in> set bs \<Longrightarrow> 0 < n"
    "a \<in> set (cells_of bs) \<Longrightarrow> a \<notin> X \<Longrightarrow> \<exists>c. pool_get (as_cells st) a = Some c \<and> item_rep (buf_get (as_bufs st)) c (\<sigma> a)"
    "\<sigma> a \<noteq> None \<Longrightarrow> a \<in> set (cells_of bs) \<and> a \<notin> X"
    "a \<noteq> b' \<Longrightarrow> slot_owns (\<sigma> a) \<inter> slot_owns (\<sigma> b') = {}"
    "slot_entry (\<sigma> a) = Some (k, p) \<Longrightarrow> slot_entry (\<sigma> b') = Some (k, q) \<Longrightarrow> a = b'"
    "ps_current (as_list st) = None \<Longrightarrow> a \<in> set (cells_of bs) \<Longrightarrow> a \<notin> X \<Longrightarrow> \<sigma> a \<noteq> None"
    "ps_current (as_list st) = Some c \<Longrightarrow> c \<in> set (cells_of bs) \<and> c \<notin> X \<and> \<sigma> c = None"
proof -
  note r = assms [unfolded array_rep_def]
  show "pool_ok (as_list st) (as_cells st) (cells_of bs)" by (rule conjunct1 [OF r])
  show "0 < n" if "(b, n) \<in> set bs" using r that by (simp only: Ball_def) (elim conjE, force)
  show "\<exists>c. pool_get (as_cells st) a = Some c \<and> item_rep (buf_get (as_bufs st)) c (\<sigma> a)"
    if "a \<in> set (cells_of bs)" "a \<notin> X" using r that by blast
  show "a \<in> set (cells_of bs) \<and> a \<notin> X" if "\<sigma> a \<noteq> None" using r that by blast
  show "slot_owns (\<sigma> a) \<inter> slot_owns (\<sigma> b') = {}" if "a \<noteq> b'" using r that by blast
  show "a = b'" if "slot_entry (\<sigma> a) = Some (k, p)" "slot_entry (\<sigma> b') = Some (k, q)" using r that by blast
  show "\<sigma> a \<noteq> None" if "ps_current (as_list st) = None" "a \<in> set (cells_of bs)" "a \<notin> X"
    using r that by (simp only: option.case) blast
  show "c \<in> set (cells_of bs) \<and> c \<notin> X \<and> \<sigma> c = None" if "ps_current (as_list st) = Some c"
    using r that by (simp only: option.case) blast
qed

lemma array_repI:
  assumes "pool_ok (as_list st) (as_cells st) (cells_of bs)" "\<And>b n. (b, n) \<in> set bs \<Longrightarrow> 0 < n"
    "\<And>a. a \<in> set (cells_of bs) \<Longrightarrow> a \<notin> X \<Longrightarrow> \<exists>c. pool_get (as_cells st) a = Some c \<and> item_rep (buf_get (as_bufs st)) c (\<sigma> a)"
    "\<And>a. \<sigma> a \<noteq> None \<Longrightarrow> a \<in> set (cells_of bs) \<and> a \<notin> X"
    "\<And>a b. a \<noteq> b \<Longrightarrow> slot_owns (\<sigma> a) \<inter> slot_owns (\<sigma> b) = {}"
    "\<And>a b k p q. slot_entry (\<sigma> a) = Some (k, p) \<Longrightarrow> slot_entry (\<sigma> b) = Some (k, q) \<Longrightarrow> a = b"
    "case ps_current (as_list st) of None \<Rightarrow> \<forall>a\<in>set (cells_of bs) - X. \<sigma> a \<noteq> None
      | Some c \<Rightarrow> c \<in> set (cells_of bs) - X \<and> \<sigma> c = None"
  shows "array_rep X st bs \<sigma>"
  unfolding array_rep_def using assms by (intro conjI) blast+

section \<open>Lookups\<close>

lemma array_foreach_find:
  assumes t: "\<And>kb k. holds kb k \<Longrightarrow> test kb = Some (P k)"
  shows "chain (pool_next h) p cs \<Longrightarrow>
    (\<forall>a\<in>set cs. \<exists>c. pool_get h a = Some c \<and> item_rep (buf_get bufs) c (\<sigma> a)) \<Longrightarrow>
    array_foreach test h bufs p = Some (find (\<lambda>a. \<exists>k v. slot_entry (\<sigma> a) = Some (k, v) \<and> P k) cs)"
proof (induction cs arbitrary: p)
  case Nil
  then show ?case by (subst array_foreach.simps) simp
next
  case (Cons a cs)
  from Cons.prems(2) obtain c where c: "pool_get h a = Some c" "item_rep (buf_get bufs) c (\<sigma> a)" by auto
  then have "pool_next h a = pl_next c" by (simp add: pool_next_def)
  with Cons.prems(1) have p: "p = Some a" "chain (pool_next h) (pl_next c) cs" by simp_all
  have IH: "array_foreach test h bufs (pl_next c) = Some (find (\<lambda>a. \<exists>k v. slot_entry (\<sigma> a) = Some (k, v) \<and> P k) cs)"
    by (rule Cons.IH [OF p(2)]) (use Cons.prems(2) in auto)
  show ?case
  proof (cases "slot_entry (\<sigma> a)")
    case None
    then have "\<not> (ai_used c \<and> ai_key c \<noteq> None \<and> pl_ptr c \<noteq> None)"
      using ai_used_rep [OF c(2)] c(2) by (cases "\<sigma> a" rule: slot_entry.cases) (auto simp: item_rep_def)
    then have "array_foreach test h bufs p = array_foreach test h bufs (pl_next c)"
      using p(1) c(1) by (subst array_foreach.simps) (auto simp del: not_None_eq)
    with None IH show ?thesis by simp
  next
    case (Some kv)
    obtain k v where kv: "kv = (k, v)" by (cases kv)
    with Some obtain ka where s: "\<sigma> a = Some (k, ka, Some v)" by (cases "\<sigma> a" rule: slot_entry.cases) auto
    with c(2) obtain kb where kb: "ai_key c = Some ka" "pl_ptr c = Some v" "buf_get bufs ka = Some kb" "holds kb k"
      by (auto simp: item_rep_def)
    have "ai_used c" using ai_used_rep [OF c(2)] s by simp
    then show ?thesis using p(1) c(1) kb t [OF kb(4)] IH Some kv by (subst array_foreach.simps) simp
  qed
qed

lemma key_test_holds: "holds kb k \<Longrightarrow> key_test cmp key kb = Some (length k = length key \<and> cmp key k)"
  using holds_used [of kb k] buf_bytes_holds [of kb k] by (auto simp: key_test_def)

definition array_find :: "(paddr \<Rightarrow> 'v slot) \<Rightarrow> (addr \<times> nat) list \<Rightarrow> (byte list \<Rightarrow> bool) \<Rightarrow> paddr option" where
  "array_find \<sigma> bs P = find (\<lambda>a. \<exists>k v. slot_entry (\<sigma> a) = Some (k, v) \<and> P k) (cells_of bs)"

definition array_val :: "(paddr \<Rightarrow> 'v slot) \<Rightarrow> (addr \<times> nat) list \<Rightarrow> (byte list \<Rightarrow> bool) \<Rightarrow> 'v array_ptr option" where
  "array_val \<sigma> bs P = Option.bind (array_find \<sigma> bs P) (\<lambda>a. map_option snd (slot_entry (\<sigma> a)))"

lemma array_foreach_rep:
  assumes "array_rep {} st bs \<sigma>"
  shows "array_foreach (key_test cmp key) (as_cells st) (as_bufs st) (ps_head (as_list st)) =
    Some (array_find \<sigma> bs (\<lambda>k. length k = length key \<and> cmp key k))"
  unfolding array_find_def
  by (rule array_foreach_find) (use assms array_repD [OF assms] pool_okD(1) in \<open>auto simp: key_test_holds\<close>)

lemma array_findD:
  assumes "array_find \<sigma> bs P = Some a"
  shows "a \<in> set (cells_of bs) \<and> (\<exists>k ka v. \<sigma> a = Some (k, ka, Some v) \<and> P k)"
proof -
  from assms have "a \<in> set (cells_of bs)" "\<exists>k v. slot_entry (\<sigma> a) = Some (k, v) \<and> P k"
    by (auto simp: array_find_def find_Some_iff)
  then show ?thesis by (cases "\<sigma> a" rule: slot_entry.cases) auto
qed

lemma item_ptr_rep:
  assumes "array_rep {} st bs \<sigma>"
  shows "item_ptr (array_find \<sigma> bs P) st = Some (array_val \<sigma> bs P)"
proof (cases "array_find \<sigma> bs P")
  case (Some a)
  from array_findD [OF this] obtain k ka v where a: "a \<in> set (cells_of bs)" "\<sigma> a = Some (k, ka, Some v)" by auto
  with array_repD(3) [OF assms, of a] Some show ?thesis by (auto simp: item_ptr_def array_val_def item_rep_def)
qed (simp add: item_ptr_def array_val_def)

lemma array_lookups:
  assumes "array_rep {} st bs \<sigma>"
  shows "ape_array_lookup_item key st = Some (array_find \<sigma> bs ((=) key))"
    "ape_get_property key st = Some (array_val \<sigma> bs ((=) key))"
    "ape_array_lookup key st = Some (array_val \<sigma> bs (\<lambda>k. length k = length key \<and> strncasecmp_eq key k))"
    "ape_array_lookup_data key st = Some (array_val \<sigma> bs (\<lambda>k. length k = length key \<and> strncasecmp_eq key k))"
proof -
  have "(\<lambda>k. length k = length key \<and> key = k) = (=) key" by auto
  with array_foreach_rep [OF assms, of "(=)" key] show l: "ape_array_lookup_item key st = Some (array_find \<sigma> bs ((=) key))"
    by (simp add: ape_array_lookup_item_def)
  then show "ape_get_property key st = Some (array_val \<sigma> bs ((=) key))"
    by (simp add: ape_get_property_def item_ptr_rep [OF assms])
  show "ape_array_lookup key st = Some (array_val \<sigma> bs (\<lambda>k. length k = length key \<and> strncasecmp_eq key k))"
    "ape_array_lookup_data key st = Some (array_val \<sigma> bs (\<lambda>k. length k = length key \<and> strncasecmp_eq key k))"
    by (simp_all add: ape_array_lookup_def ape_array_lookup_data_def array_foreach_rep [OF assms] item_ptr_rep [OF assms])
qed

lemma array_val_iff:
  assumes "array_rep X st bs \<sigma>"
  shows "array_val \<sigma> bs ((=) key) = Some p \<longleftrightarrow> (\<exists>a. slot_entry (\<sigma> a) = Some (key, p))"
proof
  assume "array_val \<sigma> bs ((=) key) = Some p"
  then obtain a where a: "array_find \<sigma> bs ((=) key) = Some a" "map_option snd (slot_entry (\<sigma> a)) = Some p"
    by (auto simp: array_val_def bind_eq_Some_conv)
  from array_findD [OF a(1)] a(2) have "slot_entry (\<sigma> a) = Some (key, p)" by auto
  then show "\<exists>a. slot_entry (\<sigma> a) = Some (key, p)" by blast
next
  assume "\<exists>a. slot_entry (\<sigma> a) = Some (key, p)"
  then obtain a where a: "slot_entry (\<sigma> a) = Some (key, p)" by blast
  then have "\<sigma> a \<noteq> None" by (cases "\<sigma> a") simp_all
  then have "a \<in> set (cells_of bs)" using array_repD(4) [OF assms, of a] by blast
  with a have "array_find \<sigma> bs ((=) key) \<noteq> None" unfolding array_find_def find_None_iff by blast
  then obtain b where b: "array_find \<sigma> bs ((=) key) = Some b" by blast
  from array_findD [OF b] obtain ka v where "\<sigma> b = Some (key, ka, Some v)" by auto
  with array_repD(6) [OF assms a, of b v] a b show "array_val \<sigma> bs ((=) key) = Some p" by (auto simp: array_val_def)
qed

section \<open>A change of the contents\<close>

text \<open>
  A cell that is written keeps its place, as long as the flag of the block and the link stay; the
  representation of the other slots holds if their buffers are untouched.
\<close>

lemma item_rep_cong:
  "item_rep bf c s \<Longrightarrow> (\<And>x. x \<in> slot_owns s \<Longrightarrow> bf' x = bf x) \<Longrightarrow> item_rep bf' c s"
  by (auto simp: item_rep_def split: option.splits)

lemma pool_ok_write:
  assumes ok: "pool_ok l h cs" and a: "pool_get h a = Some c" and h': "pool_get h' = (pool_get h)(a := Some c')"
    and c': "pl_next c' = pl_next c" "pl_flags c' AND APE_POOL_ALLOC = pl_flags c AND APE_POOL_ALLOC"
    and bl: "pool_blocks h' = pool_blocks h" and l: "ps_head l' = ps_head l" "ps_queue l' = ps_queue l"
  shows "pool_ok l' h' cs"
proof -
  have "pool_next h' = (pool_next h)(a := pl_next c)" using pool_next_upd [OF h'] c'(1) by simp
  moreover have "pool_next h a = pl_next c" using a by (simp add: pool_next_def)
  ultimately have n: "pool_next h' = pool_next h" by (simp add: fun_upd_idem)
  have b: "pool_begins h' = pool_begins h" by (rule pool_begins_upd [OF h' a c'(2)])
  have "(\<lambda>a. pool_get h' a \<noteq> None) = (\<lambda>a. pool_get h a \<noteq> None)" using a by (auto simp: h' fun_eq_iff)
  then have "{a. pool_get h' a \<noteq> None} = {a. pool_get h a \<noteq> None}" by meson
  then show ?thesis using ok unfolding pool_ok_def n b bl l by simp
qed

text \<open>The slot \<open>a\<close> gets the contents \<open>s\<close>.\<close>

lemma array_rep_write:
  assumes r: "array_rep X st bs \<sigma>" and x: "X \<subseteq> {a}" and a: "pool_get (as_cells st) a = Some c"
    and h': "pool_get h' = (pool_get (as_cells st))(a := Some c')" "pool_blocks h' = pool_blocks (as_cells st)"
    and c': "pl_next c' = pl_next c" "pl_flags c' AND APE_POOL_ALLOC = pl_flags c AND APE_POOL_ALLOC"
      "item_rep (buf_get bufs') c' s"
    and bf: "\<And>b x. b \<noteq> a \<Longrightarrow> x \<in> slot_owns (\<sigma> b) \<Longrightarrow> buf_get bufs' x = buf_get (as_bufs st) x"
    and own: "\<And>b. b \<noteq> a \<Longrightarrow> slot_owns (\<sigma> b) \<inter> slot_owns s = {}"
    and key: "\<And>b k p q. b \<noteq> a \<Longrightarrow> slot_entry (\<sigma> b) = Some (k, p) \<Longrightarrow> slot_entry s \<noteq> Some (k, q)"
    and cur: "case cur of None \<Rightarrow> \<forall>b\<in>set (cells_of bs). (\<sigma>(a := s)) b \<noteq> None
      | Some c \<Rightarrow> c \<in> set (cells_of bs) \<and> (\<sigma>(a := s)) c = None"
  shows "array_rep {} \<lparr>as_list = (as_list st)\<lparr>ps_current := cur\<rparr>, as_cells = h', as_bufs = bufs'\<rparr> bs (\<sigma>(a := s))"
proof -
  note d = array_repD [OF r]
  have ac: "a \<in> set (cells_of bs)" using pool_okD(5) [OF d(1), of a] a by simp
  have "pool_ok ((as_list st)\<lparr>ps_current := cur\<rparr>) h' (cells_of bs)"
    by (rule pool_ok_write [OF d(1) a h'(1) c'(1,2) h'(2)]) simp_all
  moreover have "\<exists>c. pool_get h' b = Some c \<and> item_rep (buf_get bufs') c ((\<sigma>(a := s)) b)"
    if b: "b \<in> set (cells_of bs)" for b
  proof (cases "b = a")
    case True
    then show ?thesis using c'(3) h'(1) by simp
  next
    case False
    then obtain c where c: "pool_get (as_cells st) b = Some c" "item_rep (buf_get (as_bufs st)) c (\<sigma> b)"
      using d(3) [OF b] x by auto
    from item_rep_cong [OF c(2) bf [OF False]] False c(1) h'(1) show ?thesis by simp
  qed
  moreover have "b \<in> set (cells_of bs)" if "(\<sigma>(a := s)) b \<noteq> None" for b
    using that ac d(4) [of b] by (cases "b = a") simp_all
  moreover have "slot_owns ((\<sigma>(a := s)) b) \<inter> slot_owns ((\<sigma>(a := s)) b') = {}" if "b \<noteq> b'" for b b'
    using that own [of b] own [of b'] d(5) [of b b'] by (cases "b = a"; cases "b' = a") (simp_all add: Int_commute)
  moreover have "b = b'" if "slot_entry ((\<sigma>(a := s)) b) = Some (k, p)" "slot_entry ((\<sigma>(a := s)) b') = Some (k, q)" for b b' k p q
    using that key [of b k p q] key [of b' k q p] d(6) [of b k p b' q] by (auto split: if_splits)
  ultimately show ?thesis using cur d(2) unfolding array_rep_def
    by (auto simp del: fun_upd_apply split: option.splits)
qed

lemma flags_clear:
  "(f AND - 3) AND - 2 = (f AND - 2) AND (- 3 :: u32)" "(f AND - 3) AND 1 = f AND (1 :: u32)"
  "(f AND - 5) AND - 2 = (f AND - 2) AND (- 5 :: u32)" "(f AND - 5) AND 1 = f AND (1 :: u32)"
  "(f OR 2) AND - 2 = (f AND - 2) OR (2 :: u32)" "(f OR 2) AND 1 = f AND (1 :: u32)"
  "(f OR 4) AND - 2 = (f AND - 2) OR (4 :: u32)" "(f OR 4) AND 1 = f AND (1 :: u32)"
  by (simp_all add: and.assoc bit.conj_disj_distrib2)

section \<open>Deleting\<close>

text \<open>The buffers of an item that is no longer in use are freed, once each.\<close>

lemma destroy_item:
  assumes "item_rep (buf_get bufs) c s" "s \<noteq> None"
  defines "c' \<equiv> c\<lparr>pl_flags := pl_flags c AND NOT APE_ARRAY_USED_SLOT\<rparr>"
  shows "\<exists>b1 b2. buffer_destroy (ai_key c') bufs = Some b1 \<and> destroy_value c' b1 = Some b2 \<and>
    buf_get b2 = buf_without (slot_owns s) bufs \<and> length b2 = length bufs \<and>
    (pl_flags c' AND NOT APE_POOL_ALL_FLAGS = 0 \<or> pl_flags c' AND NOT APE_POOL_ALL_FLAGS = APE_ARRAY_VAL_BUF)"
proof -
  obtain k ka p where s: "s = Some (k, ka, p)" using assms(2) by (cases s) auto
  from assms(1) s have k: "ai_key c = Some ka" "pl_ptr c = p" "buf_get bufs ka \<noteq> None"
    "\<forall>w\<in>ptr_owns p. buf_get bufs w \<noteq> None" "ka \<notin> ptr_owns p" "pl_flags c AND - 2 = (if ptr_owns p = {} then 2 else 6)"
    by (auto simp: item_rep_def array_flags)
  obtain b1 where b1: "buffer_destroy (Some ka) bufs = Some b1" "buf_get b1 = (buf_get bufs)(ka := None)" "length b1 = length bufs"
    using buffer_destroy_get [OF k(3)] by blast
  have f: "pl_flags c' AND - 2 = (if ptr_owns p = {} then 0 else 4)"
    using k(6) by (simp add: c'_def array_flags flags_clear split del: if_split) simp
  show ?thesis
  proof (cases "ptr_owns p = {}")
    case True
    then show ?thesis using f s b1 k(1)
      by (intro exI [of _ b1]) (auto simp: c'_def destroy_value_def array_flags buf_without_def)
  next
    case False
    then obtain w where w: "p = Some (Ptr_Buf w)" by (cases p rule: ptr_owns.cases) auto
    have "buf_get b1 w \<noteq> None" using k(4,5) w b1(2) by auto
    then obtain b2 where b2: "buffer_destroy (Some w) b1 = Some b2" "buf_get b2 = (buf_get b1)(w := None)" "length b2 = length b1"
      using buffer_destroy_get [of b1 w] by blast
    show ?thesis
      by (intro exI [of _ b1] exI [of _ b2])
        (use f w s b1 b2 k(1,2) in \<open>auto simp: c'_def destroy_value_def array_flags buf_without_def\<close>)
  qed
qed

lemma array_delete_rep:
  assumes r: "array_rep {} st bs \<sigma>"
  shows "case array_find \<sigma> bs ((=) key) of
      None \<Rightarrow> ape_array_delete key st = Some st
    | Some a \<Rightarrow> \<exists>st'. ape_array_delete key st = Some st' \<and> array_rep {} st' bs (\<sigma>(a := None)) \<and>
        ps_current (as_list st') = Some a \<and> length (as_cells st') = length (as_cells st) \<and>
        buf_get (as_bufs st') = buf_without (slot_owns (\<sigma> a)) (as_bufs st) \<and>
        length (as_bufs st') = length (as_bufs st)"
proof (cases "array_find \<sigma> bs ((=) key)")
  case None
  then show ?thesis by (simp add: ape_array_delete_def array_lookups [OF r])
next
  case (Some a)
  from array_findD [OF Some] obtain ka v where a: "a \<in> set (cells_of bs)" "\<sigma> a = Some (key, ka, Some v)" by auto
  obtain c where c: "pool_get (as_cells st) a = Some c" "item_rep (buf_get (as_bufs st)) c (\<sigma> a)"
    using array_repD(3) [OF r a(1)] by auto
  let ?f = "pl_flags c AND NOT APE_ARRAY_USED_SLOT"
  let ?c = "c\<lparr>pl_flags := ?f\<rparr>"
  obtain h1 where h1: "pool_upd a (\<lambda>c. c\<lparr>pl_flags := pl_flags c AND NOT APE_ARRAY_USED_SLOT\<rparr>) (as_cells st) = Some h1"
    "pool_get h1 = (pool_get (as_cells st))(a := Some ?c)" "pool_blocks h1 = pool_blocks (as_cells st)"
    "length h1 = length (as_cells st)"
    using pool_upd_get [OF c(1)] by blast
  have g1: "pool_get h1 a = Some ?c" using h1(2) by simp
  obtain bf1 bf2 where b: "buffer_destroy (ai_key ?c) (as_bufs st) = Some bf1" "destroy_value ?c bf1 = Some bf2"
    "buf_get bf2 = buf_without (slot_owns (\<sigma> a)) (as_bufs st)" "length bf2 = length (as_bufs st)"
    "?f AND NOT APE_POOL_ALL_FLAGS = 0 \<or> ?f AND NOT APE_POOL_ALL_FLAGS = APE_ARRAY_VAL_BUF"
    using destroy_item [OF c(2)] a(2) by auto
  have "\<exists>h2 f'. (if pl_flags ?c AND NOT APE_POOL_ALL_FLAGS = APE_ARRAY_VAL_BUF
       then pool_upd a (\<lambda>c. c\<lparr>pl_flags := pl_flags c AND NOT APE_ARRAY_VAL_BUF\<rparr>) h1 else Some h1) = Some h2 \<and>
      pool_get h2 = (pool_get (as_cells st))(a := Some (c\<lparr>pl_flags := f'\<rparr>)) \<and> pool_blocks h2 = pool_blocks (as_cells st) \<and>
      length h2 = length (as_cells st) \<and> f' AND - 2 = 0 \<and> f' AND 1 = pl_flags c AND 1"
    using b(5)
  proof
    assume z: "?f AND NOT APE_POOL_ALL_FLAGS = 0"
    then show ?thesis using h1 by (intro exI [of _ h1] exI [of _ ?f]) (simp add: array_flags flags_clear)
  next
    assume z: "?f AND NOT APE_POOL_ALL_FLAGS = APE_ARRAY_VAL_BUF"
    obtain h2 where h2: "pool_upd a (\<lambda>c. c\<lparr>pl_flags := pl_flags c AND NOT APE_ARRAY_VAL_BUF\<rparr>) h1 = Some h2"
      "pool_get h2 = (pool_get h1)(a := Some (c\<lparr>pl_flags := ?f AND NOT APE_ARRAY_VAL_BUF\<rparr>))"
      "pool_blocks h2 = pool_blocks h1" "length h2 = length h1"
      using pool_upd_get [OF g1, of "\<lambda>c. c\<lparr>pl_flags := pl_flags c AND NOT APE_ARRAY_VAL_BUF\<rparr>"] by auto
    from z show ?thesis using h1 h2
      by (intro exI [of _ h2] exI [of _ "?f AND NOT APE_ARRAY_VAL_BUF"]) (simp add: array_flags flags_clear)
  qed
  then obtain h2 f' where z: "(if pl_flags ?c AND NOT APE_POOL_ALL_FLAGS = APE_ARRAY_VAL_BUF
       then pool_upd a (\<lambda>c. c\<lparr>pl_flags := pl_flags c AND NOT APE_ARRAY_VAL_BUF\<rparr>) h1 else Some h1) = Some h2"
    "pool_get h2 = (pool_get (as_cells st))(a := Some (c\<lparr>pl_flags := f'\<rparr>))" "pool_blocks h2 = pool_blocks (as_cells st)"
    "length h2 = length (as_cells st)" "f' AND - 2 = 0" "f' AND 1 = pl_flags c AND 1" by blast
  let ?st = "\<lparr>as_list = (as_list st)\<lparr>ps_current := Some a\<rparr>, as_cells = h2, as_bufs = bf2\<rparr>"
  have "ape_array_delete key st = Some ?st"
    unfolding ape_array_delete_def array_lookups(1) [OF r] Some
    using h1(1) g1 b(1,2) z(1) by (simp del: if_split)
  moreover have "array_rep {} ?st bs (\<sigma>(a := None))"
  proof (rule array_rep_write [OF r _ c(1) z(2,3)])
    show "buf_get bf2 x = buf_get (as_bufs st) x" if "b \<noteq> a" "x \<in> slot_owns (\<sigma> b)" for b x
      using that array_repD(5) [OF r, of b a] by (auto simp: b(3) buf_without_def)
  qed (use z(5,6) a in \<open>auto simp: item_rep_def array_flags\<close>)
  ultimately show ?thesis using Some z(4) b(3,4) by simp
qed

section \<open>Adding\<close>

lemma item_rep_next [simp]: "item_rep bf (c\<lparr>pl_next := q\<rparr>) s = item_rep bf c s"
  by (simp add: item_rep_def split: option.splits)

lemma array_grow_rep:
  assumes r: "array_rep {} st bs \<sigma>"
  shows "\<exists>l h. ape_grow_pool raw_item 4 (as_list st) (as_cells st) = Some ((length (as_cells st), 0), l, h) \<and>
    array_rep {} (st\<lparr>as_list := l\<lparr>ps_current := Some (length (as_cells st), 0)\<rparr>, as_cells := h\<rparr>)
      (bs @ [(length (as_cells st), 4)]) \<sigma> \<and> length h = length (as_cells st) + 1"
proof -
  note d = array_repD [OF r]
  let ?b = "length (as_cells st)"
  have four: "0 < (4 :: nat)" by simp
  from ape_grow_pool_ok [OF d(1) four, of raw_item] obtain l h where
    g: "ape_grow_pool raw_item 4 (as_list st) (as_cells st) = Some ((?b, 0), l, h)"
    "pool_ok l h (cells_of bs @ map (Pair ?b) [0..<4])" "length h = ?b + 1"
    "\<forall>a. fst a \<noteq> ?b \<longrightarrow> map_option (\<lambda>c. c\<lparr>pl_next := None\<rparr>) (pool_get h a) =
       map_option (\<lambda>c. c\<lparr>pl_next := None\<rparr>) (pool_get (as_cells st) a)"
    "\<forall>i<4. \<exists>q. pool_get h (?b, i) = Some (raw_item\<lparr>pl_next := q, pl_ptr := None, pl_flags := (if i = 0 then APE_POOL_ALLOC else 0)\<rparr>)"
    by blast
  let ?bs = "bs @ [(?b, 4)]"
  have cs: "cells_of ?bs = cells_of bs @ map (Pair ?b) [0..<4]" by simp
  have old: "fst a \<noteq> ?b" if "a \<in> set (cells_of bs)" for a
    using that pool_okD(5) [OF d(1), of a] pool_get_block [of "as_cells st" a] by (auto simp: pool_blocks_def)
  have new: "\<sigma> (?b, i) = None" for i using d(4) [of "(?b, i)"] old [of "(?b, i)"] by (metis fst_conv)
  have "\<exists>c. pool_get h a = Some c \<and> item_rep (buf_get (as_bufs st)) c (\<sigma> a)" if a: "a \<in> set (cells_of ?bs)" for a
  proof (cases "a \<in> set (cells_of bs)")
    case True
    then obtain c where c: "pool_get (as_cells st) a = Some c" "item_rep (buf_get (as_bufs st)) c (\<sigma> a)"
      using d(3) [of a] by auto
    with g(4) [THEN spec, of a] old [OF True] obtain c' where c': "pool_get h a = Some c'"
      "c'\<lparr>pl_next := None\<rparr> = c\<lparr>pl_next := None\<rparr>" by (cases "pool_get h a") auto
    have "item_rep (buf_get (as_bufs st)) (c'\<lparr>pl_next := None\<rparr>) (\<sigma> a)" unfolding c'(2) using c(2) by simp
    with c'(1) show ?thesis by simp
  next
    case False
    with a obtain i where i: "a = (?b, i)" "i < 4" unfolding cs by auto
    with g(5) obtain q where "pool_get h a = Some (raw_item\<lparr>pl_next := q, pl_ptr := None, pl_flags := (if i = 0 then APE_POOL_ALLOC else 0)\<rparr>)" by blast
    then show ?thesis using new [of i] i(1) by (auto simp: item_rep_def array_flags)
  qed
  moreover have "a \<in> set (cells_of ?bs)" if "\<sigma> a \<noteq> None" for a using d(4) [OF that] by simp
  moreover have "pool_ok (l\<lparr>ps_current := Some (?b, 0)\<rparr>) h (cells_of ?bs)" using g(2) unfolding cs pool_ok_def by simp
  moreover have "(?b, 0) \<in> set (cells_of ?bs)" by (simp add: in_cells_of)
  moreover have "\<And>b n. (b, n) \<in> set ?bs \<Longrightarrow> 0 < n" using d(2) by auto
  ultimately have "array_rep {} (st\<lparr>as_list := l\<lparr>ps_current := Some (?b, 0)\<rparr>, as_cells := h\<rparr>) ?bs \<sigma>"
    using new by (intro array_repI d(5,6)) simp_all
  with g(1,3) show ?thesis by blast
qed

lemma array_free_slot_find:
  "chain (pool_next h) p cs \<Longrightarrow> (\<forall>a\<in>set cs. \<exists>c. pool_get h a = Some c \<and> (ai_used c \<longleftrightarrow> U a)) \<Longrightarrow>
   array_free_slot h p = Some (find (\<lambda>a. \<not> U a) cs)"
proof (induction cs arbitrary: p)
  case Nil
  then show ?case by (subst array_free_slot.simps) simp
next
  case (Cons a cs)
  from Cons.prems(2) obtain c where c: "pool_get h a = Some c" "ai_used c \<longleftrightarrow> U a" by auto
  then have "pool_next h a = pl_next c" by (simp add: pool_next_def)
  with Cons.prems(1) have p: "p = Some a" "chain (pool_next h) (pl_next c) cs" by simp_all
  from Cons.IH [OF p(2)] Cons.prems(2) p(1) c show ?case by (subst array_free_slot.simps) simp
qed

lemma chain_middle: "chain nx p (us @ a # vs) \<Longrightarrow> nx a = (if vs = [] then None else Some (hd vs))"
  by (induction us arbitrary: p) (cases vs; simp)+

lemma find_cases: "find P xs = None \<and> (\<forall>a\<in>set xs. \<not> P a) \<or> (\<exists>a\<in>set xs. find P xs = Some a \<and> P a)"
  by (induction xs) auto

text \<open>
  A free cell is taken: it gets the key, and \<open>current\<close> becomes the next free cell, or the first one,
  or null.
\<close>

definition array_next :: "(paddr \<Rightarrow> 'v slot) \<Rightarrow> (addr \<times> nat) list \<Rightarrow> paddr \<Rightarrow> paddr option \<Rightarrow> bool" where
  "array_next \<sigma> bs slot cur \<longleftrightarrow>
     (\<exists>us vs. cells_of bs = us @ slot # vs \<and>
       cur = (if vs \<noteq> [] \<and> \<sigma> (hd vs) = None then Some (hd vs)
              else find (\<lambda>a. a \<noteq> slot \<and> \<sigma> a = None) (cells_of bs)))"

lemma array_take_rep:
  assumes r: "array_rep {} st bs \<sigma>" and slot: "ps_current (as_list st) = Some slot"
  shows "\<exists>h c taken cur.
    pool_upd slot (\<lambda>c. c\<lparr>pl_flags := pl_flags c OR APE_ARRAY_USED_SLOT, ai_key := Some ka\<rparr>) (as_cells st) = Some h \<and>
    pool_get h slot = Some c \<and> slot_taken (pl_next c) h = Some taken \<and>
    (if taken then array_free_slot h (ps_head (as_list st)) else Some (pl_next c)) = Some cur \<and>
    array_rep {slot} (st\<lparr>as_list := (as_list st)\<lparr>ps_current := cur\<rparr>, as_cells := h\<rparr>) bs \<sigma> \<and>
    ai_key c = Some ka \<and> pl_flags c AND NOT APE_POOL_ALL_FLAGS = APE_ARRAY_USED_SLOT \<and>
    array_next \<sigma> bs slot cur \<and> length h = length (as_cells st)"
proof -
  note d = array_repD [OF r]
  have s: "slot \<in> set (cells_of bs)" "\<sigma> slot = None" using d(8) [OF slot] by simp_all
  obtain c where c: "pool_get (as_cells st) slot = Some c" "item_rep (buf_get (as_bufs st)) c (\<sigma> slot)"
    using d(3) [OF s(1)] by auto
  let ?c = "c\<lparr>pl_flags := pl_flags c OR APE_ARRAY_USED_SLOT, ai_key := Some ka\<rparr>"
  obtain h where h: "pool_upd slot (\<lambda>c. c\<lparr>pl_flags := pl_flags c OR APE_ARRAY_USED_SLOT, ai_key := Some ka\<rparr>) (as_cells st) = Some h"
    "pool_get h = (pool_get (as_cells st))(slot := Some ?c)" "pool_blocks h = pool_blocks (as_cells st)"
    "length h = length (as_cells st)"
    using pool_upd_get [OF c(1), of "\<lambda>c. c\<lparr>pl_flags := pl_flags c OR APE_ARRAY_USED_SLOT, ai_key := Some ka\<rparr>"] by auto
  have ok: "pool_ok (l\<lparr>ps_current := cur\<rparr>) h (cells_of bs)" if "l = as_list st" for l cur
    by (rule pool_ok_write [OF d(1) c(1) h(2) _ _ h(3)]) (simp_all add: array_flags flags_clear that)
  have us: "\<exists>c. pool_get h a = Some c \<and> (ai_used c \<longleftrightarrow> a = slot \<or> \<sigma> a \<noteq> None)" if a: "a \<in> set (cells_of bs)" for a
  proof (cases "a = slot")
    case True
    have "(pl_flags c OR 2) AND 2 = 2" by (simp add: bit.conj_disj_distrib2)
    with True h(2) show ?thesis by (simp add: ai_used_def array_flags)
  next
    case False
    then obtain e where e: "pool_get (as_cells st) a = Some e" "item_rep (buf_get (as_bufs st)) e (\<sigma> a)" using d(3) [OF a] by auto
    with False h(2) ai_used_rep [OF e(2)] show ?thesis by simp
  qed
  obtain xs vs where cs: "cells_of bs = xs @ slot # vs" using split_list [OF s(1)] by blast
  let ?n = "pl_next ?c"
  have ch: "chain (pool_next h) (ps_head (as_list st)) (cells_of bs)" using pool_okD(1) [OF ok [OF refl]] by simp
  have nx: "?n = (if vs = [] then None else Some (hd vs))"
    using chain_middle [OF ch [unfolded cs]] h(2) by (simp add: pool_next_def)
  have dist: "distinct (cells_of bs)" using pool_okD(2) [OF d(1)] .
  let ?t = "vs = [] \<or> \<sigma> (hd vs) \<noteq> None"
  have t: "slot_taken ?n h = Some ?t"
  proof (cases "vs = []")
    case False
    then have "hd vs \<in> set vs" by simp
    then have "hd vs \<in> set (cells_of bs)" "hd vs \<noteq> slot" using cs dist by auto
    with us [of "hd vs"] False show ?thesis unfolding nx by (auto simp: slot_taken_def simp del: not_None_eq)
  qed (simp add: nx slot_taken_def)
  let ?cur = "if ?t then find (\<lambda>a. \<not> (a = slot \<or> \<sigma> a \<noteq> None)) (cells_of bs) else ?n"
  have cur: "(if ?t then array_free_slot h (ps_head (as_list st)) else Some ?n) = Some ?cur"
    using array_free_slot_find [OF ch, of "\<lambda>a. a = slot \<or> \<sigma> a \<noteq> None"] us by auto
  have next': "array_next \<sigma> bs slot ?cur" 
  proof -
    have "(\<lambda>a. \<not> (a = slot \<or> \<sigma> a \<noteq> None)) = (\<lambda>a. a \<noteq> slot \<and> \<sigma> a = None)" by (simp del: not_None_eq)
    then have "?cur = (if vs \<noteq> [] \<and> \<sigma> (hd vs) = None then Some (hd vs)
        else find (\<lambda>a. a \<noteq> slot \<and> \<sigma> a = None) (cells_of bs))"
      unfolding nx by (cases "vs = []"; cases "\<sigma> (hd vs) = None") (simp_all del: not_None_eq)
    with cs show ?thesis unfolding array_next_def by blast
  qed
  have fr: "case ?cur of None \<Rightarrow> \<forall>a\<in>set (cells_of bs) - {slot}. \<sigma> a \<noteq> None
      | Some a \<Rightarrow> a \<in> set (cells_of bs) - {slot} \<and> \<sigma> a = None"
  proof (cases ?t)
    case True
    then show ?thesis
      using find_cases [of "\<lambda>a. \<not> (a = slot \<or> \<sigma> a \<noteq> None)" "cells_of bs"]
      by (auto simp del: not_None_eq)
  next
    case False
    then have "hd vs \<in> set vs" by simp
    then have "hd vs \<in> set (cells_of bs)" "hd vs \<noteq> slot" using cs dist by auto
    with False show ?thesis unfolding nx by (simp del: not_None_eq)
  qed
  have "array_rep {slot} (st\<lparr>as_list := (as_list st)\<lparr>ps_current := ?cur\<rparr>, as_cells := h\<rparr>) bs \<sigma>"
  proof (rule array_repI)
    show "a \<in> set (cells_of bs) \<and> a \<notin> {slot}" if "\<sigma> a \<noteq> None" for a using that d(4) [of a] s(2) by auto
  qed (use ok [OF refl] fr d(2,3,5,6) h(2) in \<open>simp_all del: if_split\<close>)
  moreover have "pool_get h slot = Some ?c" using h(2) by simp
  moreover have "pl_flags ?c AND NOT APE_POOL_ALL_FLAGS = APE_ARRAY_USED_SLOT"
    using c(2) s(2) by (simp add: item_rep_def array_flags flags_clear)
  moreover have "ai_key ?c = Some ka" by simp
  ultimately show ?thesis using h(1,4) t cur next' by blast
qed

text \<open>The slots after a key was deleted, and the cell that the next item goes to.\<close>

definition slots_del :: "byte list \<Rightarrow> (addr \<times> nat) list \<Rightarrow> (paddr \<Rightarrow> 'v slot) \<Rightarrow> paddr \<Rightarrow> 'v slot" where
  "slots_del key bs \<sigma> = (case array_find \<sigma> bs ((=) key) of None \<Rightarrow> \<sigma> | Some a \<Rightarrow> \<sigma>(a := None))"

definition slots_gone :: "byte list \<Rightarrow> (addr \<times> nat) list \<Rightarrow> (paddr \<Rightarrow> 'v slot) \<Rightarrow> addr set" where
  "slots_gone key bs \<sigma> = (case array_find \<sigma> bs ((=) key) of None \<Rightarrow> {} | Some a \<Rightarrow> slot_owns (\<sigma> a))"

definition array_slot :: "byte list \<Rightarrow> 'v array_state \<Rightarrow> (addr \<times> nat) list \<Rightarrow> (paddr \<Rightarrow> 'v slot) \<Rightarrow> paddr" where
  "array_slot key st bs \<sigma> =
     (case array_find \<sigma> bs ((=) key) of
        Some a \<Rightarrow> a
      | None \<Rightarrow> (case ps_current (as_list st) of Some c \<Rightarrow> c | None \<Rightarrow> (length (as_cells st), 0)))"

definition array_room :: "byte list \<Rightarrow> 'v array_state \<Rightarrow> (addr \<times> nat) list \<Rightarrow> (paddr \<Rightarrow> 'v slot) \<Rightarrow> (addr \<times> nat) list" where
  "array_room key st bs \<sigma> =
     (if array_find \<sigma> bs ((=) key) = None \<and> ps_current (as_list st) = None then bs @ [(length (as_cells st), 4)] else bs)"

lemma array_deleted:
  assumes r: "array_rep {} st bs \<sigma>"
  shows "\<exists>st'. ape_array_delete key st = Some st' \<and> array_rep {} st' bs (slots_del key bs \<sigma>) \<and>
    ps_current (as_list st') = (case array_find \<sigma> bs ((=) key) of None \<Rightarrow> ps_current (as_list st) | a \<Rightarrow> a) \<and>
    length (as_cells st') = length (as_cells st) \<and> length (as_bufs st') = length (as_bufs st) \<and>
    buf_get (as_bufs st') = buf_without (slots_gone key bs \<sigma>) (as_bufs st)"
  using array_delete_rep [OF r, of key] r
  by (cases "array_find \<sigma> bs ((=) key)") (auto simp: slots_del_def slots_gone_def buf_without_def fun_eq_iff)

lemma slots_del_entry:
  assumes "array_rep {} st bs \<sigma>"
  shows "slot_entry (slots_del key bs \<sigma> a) = Some (k, p) \<longleftrightarrow> k \<noteq> key \<and> slot_entry (\<sigma> a) = Some (k, p)"
proof (cases "array_find \<sigma> bs ((=) key)")
  case None
  have "slot_entry (\<sigma> a) \<noteq> Some (key, p)"
  proof
    assume e: "slot_entry (\<sigma> a) = Some (key, p)"
    then have "array_val \<sigma> bs ((=) key) = Some p" using array_val_iff [OF assms] by blast
    with None show False by (simp add: array_val_def)
  qed
  with None show ?thesis by (auto simp: slots_del_def)
next
  case (Some b)
  from array_findD [OF Some] obtain ka v where b: "\<sigma> b = Some (key, ka, Some v)" by auto
  then have "slot_entry (\<sigma> b) = Some (key, v)" by simp
  then have "slot_entry (\<sigma> a) = Some (key, p) \<Longrightarrow> a = b" using array_repD(6) [OF assms] by blast
  with Some b show ?thesis by (cases "a = b") (auto simp: slots_del_def)
qed

lemma slots_del_owns: "slot_owns (slots_del key bs \<sigma> a) \<subseteq> slot_owns (\<sigma> a)"
  by (auto simp: slots_del_def split: option.splits if_splits)

text \<open>The whole of an addition: \<open>F\<close> stores the value.\<close>

lemma array_add_rep:
  assumes r: "array_rep {} st bs \<sigma>" and k: "buf_get (as_bufs st) ka = Some kb" "holds kb key"
    and own: "\<And>a. slot_owns (\<sigma> a) \<inter> insert ka (ptr_owns p) = {}"
    and p: "\<And>v. v \<in> ptr_owns p \<Longrightarrow> buf_get (as_bufs st) v \<noteq> None" "ka \<notin> ptr_owns p"
    and F: "\<And>c. pl_next (F c) = pl_next c \<and> ai_key (F c) = ai_key c \<and> pl_ptr (F c) = p \<and>
      pl_flags (F c) = (if ptr_owns p = {} then pl_flags c else pl_flags c OR APE_ARRAY_VAL_BUF)"
  shows "\<exists>st1 h cur. ape_array_add_s ka st = Some (array_slot key st bs \<sigma>, st1) \<and>
    pool_upd (array_slot key st bs \<sigma>) F (as_cells st1) = Some h \<and>
    array_rep {} (st1\<lparr>as_cells := h\<rparr>) (array_room key st bs \<sigma>)
      ((slots_del key bs \<sigma>)(array_slot key st bs \<sigma> := Some (key, ka, p))) \<and>
    slots_del key bs \<sigma> (array_slot key st bs \<sigma>) = None \<and>
    buf_get (as_bufs st1) = buf_without (slots_gone key bs \<sigma>) (as_bufs st) \<and>
    length (as_bufs st1) = length (as_bufs st) \<and>
    array_next (slots_del key bs \<sigma>) (array_room key st bs \<sigma>) (array_slot key st bs \<sigma>) (ps_current (as_list st1))"
proof -
  let ?\<sigma> = "slots_del key bs \<sigma>" and ?slot = "array_slot key st bs \<sigma>" and ?bs = "array_room key st bs \<sigma>"
  obtain st1 where st1: "ape_array_delete key st = Some st1" "array_rep {} st1 bs ?\<sigma>"
    "ps_current (as_list st1) = (case array_find \<sigma> bs ((=) key) of None \<Rightarrow> ps_current (as_list st) | a \<Rightarrow> a)"
    "length (as_cells st1) = length (as_cells st)" "length (as_bufs st1) = length (as_bufs st)"
    "buf_get (as_bufs st1) = buf_without (slots_gone key bs \<sigma>) (as_bufs st)"
    using array_deleted [OF r, of key] by blast
  have data: "buf_bytes (buf_used kb) kb = Some key" using buf_bytes_holds [OF k(2)] holds_used [OF k(2)] by simp
  have "\<exists>taken l h. slot_taken (ps_current (as_list st1)) (as_cells st1) = Some taken \<and>
      (if taken then ape_grow_pool raw_item 4 (as_list st1) (as_cells st1)
       else map_option (\<lambda>a. (a, as_list st1, as_cells st1)) (ps_current (as_list st1))) = Some (?slot, l, h) \<and>
      array_rep {} (st1\<lparr>as_list := l\<lparr>ps_current := Some ?slot\<rparr>, as_cells := h\<rparr>) ?bs ?\<sigma>"
  proof (cases "ps_current (as_list st1)")
    case None
    then have n: "?slot = (length (as_cells st1), 0)" "?bs = bs @ [(length (as_cells st1), 4)]"
      using st1(3,4) by (auto simp: array_slot_def array_room_def split: option.splits)
    from array_grow_rep [OF st1(2)] None show ?thesis unfolding n by (auto simp: slot_taken_def)
  next
    case (Some c)
    then have n: "?slot = c" "?bs = bs"
      using st1(3) by (auto simp: array_slot_def array_room_def split: option.splits)
    have c: "c \<in> set (cells_of bs)" "?\<sigma> c = None" using array_repD(8) [OF st1(2) Some] by simp_all
    then obtain e where e: "pool_get (as_cells st1) c = Some e" "item_rep (buf_get (as_bufs st1)) e (?\<sigma> c)"
      using array_repD(3) [OF st1(2), of c] by auto
    have "slot_taken (Some c) (as_cells st1) = Some False" using e(1) ai_used_rep [OF e(2)] c(2) by (simp add: slot_taken_def)
    moreover have "(as_list st1)\<lparr>ps_current := Some c\<rparr> = as_list st1" using Some by (cases "as_list st1") simp
    then have e: "st1\<lparr>as_list := (as_list st1)\<lparr>ps_current := Some c\<rparr>, as_cells := as_cells st1\<rparr> = st1" by simp
    have "array_rep {} (st1\<lparr>as_list := (as_list st1)\<lparr>ps_current := Some c\<rparr>, as_cells := as_cells st1\<rparr>) bs ?\<sigma>"
      unfolding e by (rule st1(2))
    ultimately show ?thesis unfolding n using Some
      by (intro exI [of _ False] exI [of _ "as_list st1"] exI [of _ "as_cells st1"]) simp
  qed
  then obtain taken l h where g: "slot_taken (ps_current (as_list st1)) (as_cells st1) = Some taken"
    "(if taken then ape_grow_pool raw_item 4 (as_list st1) (as_cells st1)
       else map_option (\<lambda>a. (a, as_list st1, as_cells st1)) (ps_current (as_list st1))) = Some (?slot, l, h)"
    "array_rep {} (st1\<lparr>as_list := l\<lparr>ps_current := Some ?slot\<rparr>, as_cells := h\<rparr>) ?bs ?\<sigma>" by blast
  have "ps_current (as_list (st1\<lparr>as_list := l\<lparr>ps_current := Some ?slot\<rparr>, as_cells := h\<rparr>)) = Some ?slot" by simp
  from array_take_rep [OF g(3) this, of ka] obtain h1 c t cur where t:
    "pool_upd ?slot (\<lambda>c. c\<lparr>pl_flags := pl_flags c OR APE_ARRAY_USED_SLOT, ai_key := Some ka\<rparr>) h = Some h1"
    "pool_get h1 ?slot = Some c" "slot_taken (pl_next c) h1 = Some t"
    "(if t then array_free_slot h1 (ps_head l) else Some (pl_next c)) = Some cur"
    "array_rep {?slot} (st1\<lparr>as_list := l\<lparr>ps_current := cur\<rparr>, as_cells := h1\<rparr>) ?bs ?\<sigma>"
    "ai_key c = Some ka" "pl_flags c AND NOT APE_POOL_ALL_FLAGS = APE_ARRAY_USED_SLOT"
    "array_next ?\<sigma> ?bs ?slot cur"
    by (auto cong: if_cong split del: if_split)
  let ?st = "st1\<lparr>as_list := l\<lparr>ps_current := cur\<rparr>, as_cells := h1\<rparr>"
  have add: "ape_array_add_s ka st = Some (?slot, ?st)"
    using k(1) data st1(1) g(1,2) t(1-4) by (simp add: ape_array_add_s_def split del: if_split)
  have c': "pool_get (as_cells ?st) ?slot = Some c" using t(2) by simp
  obtain h2 where h2: "pool_upd ?slot F (as_cells ?st) = Some h2"
    "pool_get h2 = (pool_get (as_cells ?st))(?slot := Some (F c))" "pool_blocks h2 = pool_blocks (as_cells ?st)"
    using pool_upd_get [OF c'] by blast
  have none: "?\<sigma> ?slot = None" using array_repD(8) [OF g(3), of ?slot] by simp
  have sub: "slot_owns (?\<sigma> a) \<inter> insert ka (ptr_owns p) = {}" for a using own [of a] slots_del_owns [of key bs \<sigma> a] by blast
  have gone: "slots_gone key bs \<sigma> \<inter> insert ka (ptr_owns p) = {}" using own by (auto simp: slots_gone_def split: option.splits)
  have kept: "buf_get (as_bufs ?st) x = buf_get (as_bufs st) x" if "x \<in> insert ka (ptr_owns p)" for x
    using gone that by (auto simp: st1(6) buf_without_def)
  have "array_rep {} \<lparr>as_list = (as_list ?st)\<lparr>ps_current := cur\<rparr>, as_cells = h2, as_bufs = as_bufs ?st\<rparr> ?bs (?\<sigma>(?slot := Some (key, ka, p)))"
  proof (rule array_rep_write [OF t(5) _ c' h2(2,3)])
    show "pl_flags (F c) AND APE_POOL_ALLOC = pl_flags c AND APE_POOL_ALLOC"
      using F [of c] by (simp add: array_flags flags_clear)
    have "pl_flags (F c) AND NOT APE_POOL_ALL_FLAGS = (if ptr_owns p = {} then APE_ARRAY_USED_SLOT else APE_ARRAY_USED_SLOT OR APE_ARRAY_VAL_BUF)"
      using F [of c] t(7) by (simp add: array_flags flags_clear)
    moreover have "buf_get (as_bufs ?st) ka = Some kb" using kept [of ka] k(1) by simp
    moreover have "\<forall>v\<in>ptr_owns p. buf_get (as_bufs ?st) v \<noteq> None" using kept p(1) by simp
    ultimately show "item_rep (buf_get (as_bufs ?st)) (F c) (Some (key, ka, p))"
      using F [of c] t(6) k(2) p(2) by (auto simp: item_rep_def simp del: not_None_eq)
    show "slot_entry (Some (key, ka, p)) \<noteq> Some (k, q)" if "slot_entry (?\<sigma> b) = Some (k, p')" for b k p' q
      using that slots_del_entry [OF r, of key b k p'] by (cases p) auto
    show "case cur of None \<Rightarrow> \<forall>b\<in>set (cells_of ?bs). (?\<sigma>(?slot := Some (key, ka, p))) b \<noteq> None
      | Some c \<Rightarrow> c \<in> set (cells_of ?bs) \<and> (?\<sigma>(?slot := Some (key, ka, p))) c = None"
    proof (cases cur)
      case None
      with array_repD(7) [OF t(5)] show ?thesis by simp
    next
      case (Some c)
      with array_repD(8) [OF t(5), of c] show ?thesis by simp
    qed
  qed (use F [of c] sub in auto)
  moreover have "\<lparr>as_list = (as_list ?st)\<lparr>ps_current := cur\<rparr>, as_cells = h2, as_bufs = as_bufs ?st\<rparr> = ?st\<lparr>as_cells := h2\<rparr>" by simp
  ultimately have "array_rep {} (?st\<lparr>as_cells := h2\<rparr>) ?bs (?\<sigma>(?slot := Some (key, ka, p)))" by (simp only:)
  then show ?thesis using add h2(1) none st1(5,6) t(8) by (intro exI [of _ ?st] exI [of _ h2]) simp
qed

section \<open>The operations that clients call\<close>

definition array_after ::
    "'v array_state \<Rightarrow> byte list \<Rightarrow> addr \<Rightarrow> 'v array_ptr option \<Rightarrow> 'v array_state \<Rightarrow> (addr \<times> nat) list \<Rightarrow> (paddr \<Rightarrow> 'v slot) \<Rightarrow> bool" where
  "array_after st key ka p st' bs \<sigma> \<longleftrightarrow>
     array_rep {} st' (array_room key st bs \<sigma>) ((slots_del key bs \<sigma>)(array_slot key st bs \<sigma> := Some (key, ka, p))) \<and>
     slots_del key bs \<sigma> (array_slot key st bs \<sigma>) = None \<and>
     buf_get (as_bufs st') = buf_without (slots_gone key bs \<sigma>) (as_bufs st) \<and>
     length (as_bufs st') = length (as_bufs st) \<and>
     array_next (slots_del key bs \<sigma>) (array_room key st bs \<sigma>) (array_slot key st bs \<sigma>) (ps_current (as_list st'))"

text \<open>The condition under which a key can be added: its buffer is live, and no slot's own.\<close>

definition array_fresh :: "'v array_state \<Rightarrow> (paddr \<Rightarrow> 'v slot) \<Rightarrow> addr \<Rightarrow> byte list \<Rightarrow> bool" where
  "array_fresh st \<sigma> a xs \<longleftrightarrow> (\<exists>b. buf_get (as_bufs st) a = Some b \<and> holds b xs) \<and> (\<forall>c. a \<notin> slot_owns (\<sigma> c))"

lemma array_add_b_rep:
  assumes r: "array_rep {} st bs \<sigma>" and k: "array_fresh st \<sigma> ka key" and v: "array_fresh st \<sigma> va val" "ka \<noteq> va"
  shows "\<exists>st'. ape_array_add_b ka va st = Some st' \<and> array_after st key ka (Some (Ptr_Buf va)) st' bs \<sigma>"
proof -
  obtain kb where kb: "buf_get (as_bufs st) ka = Some kb" "holds kb key" using k by (auto simp: array_fresh_def)
  let ?F = "\<lambda>c. c\<lparr>pl_flags := pl_flags c OR APE_ARRAY_VAL_BUF, pl_ptr := Some (Ptr_Buf va)\<rparr>"
  have o: "slot_owns (\<sigma> a) \<inter> insert ka (ptr_owns (Some (Ptr_Buf va))) = {}" for a
    using k v by (auto simp: array_fresh_def)
  from array_add_rep [OF r kb o, of ?F] v obtain st1 h where
    "ape_array_add_s ka st = Some (array_slot key st bs \<sigma>, st1)" "pool_upd (array_slot key st bs \<sigma>) ?F (as_cells st1) = Some h"
    "array_after st key ka (Some (Ptr_Buf va)) (st1\<lparr>as_cells := h\<rparr>) bs \<sigma>"
    by (auto simp: array_fresh_def array_after_def)
  then show ?thesis by (simp add: ape_array_add_b_def)
qed

lemma array_add_ptr_rep:
  assumes r: "array_rep {} st bs \<sigma>" and k: "array_fresh st \<sigma> ka key"
  shows "\<exists>st'. ape_array_add_ptr ka p st = Some (array_slot key st bs \<sigma>, st') \<and>
    array_after st key ka (map_option Ptr_Data p) st' bs \<sigma>"
proof -
  obtain kb where kb: "buf_get (as_bufs st) ka = Some kb" "holds kb key" using k by (auto simp: array_fresh_def)
  let ?F = "\<lambda>c. c\<lparr>pl_ptr := map_option Ptr_Data p\<rparr>"
  have e: "ptr_owns (map_option Ptr_Data p) = {}" by (cases p) simp_all
  have o: "slot_owns (\<sigma> a) \<inter> insert ka (ptr_owns (map_option Ptr_Data p)) = {}" for a
    using k by (auto simp: array_fresh_def e)
  from array_add_rep [OF r kb o, of ?F] obtain st1 h where
    "ape_array_add_s ka st = Some (array_slot key st bs \<sigma>, st1)" "pool_upd (array_slot key st bs \<sigma>) ?F (as_cells st1) = Some h"
    "array_after st key ka (map_option Ptr_Data p) (st1\<lparr>as_cells := h\<rparr>) bs \<sigma>"
    by (auto simp: e array_after_def)
  then show ?thesis by (simp add: ape_array_add_ptr_def)
qed

text \<open>Another memory in which nothing of the array was touched.\<close>

lemma array_rep_bufs:
  assumes r: "array_rep X st bs \<sigma>" and b: "\<And>a x. x \<in> slot_owns (\<sigma> a) \<Longrightarrow> buf_get bufs x = buf_get (as_bufs st) x"
  shows "array_rep X (st\<lparr>as_bufs := bufs\<rparr>) bs \<sigma>"
proof (rule array_repI)
  show "\<exists>c. pool_get (as_cells (st\<lparr>as_bufs := bufs\<rparr>)) a = Some c \<and> item_rep (buf_get (as_bufs (st\<lparr>as_bufs := bufs\<rparr>))) c (\<sigma> a)"
    if a: "a \<in> set (cells_of bs)" "a \<notin> X" for a
  proof -
    obtain c where c: "pool_get (as_cells st) a = Some c" "item_rep (buf_get (as_bufs st)) c (\<sigma> a)"
      using array_repD(3) [OF r a] by blast
    from item_rep_cong [OF c(2), of "buf_get bufs"] b c(1) show ?thesis by simp
  qed
  show "case ps_current (as_list (st\<lparr>as_bufs := bufs\<rparr>)) of None \<Rightarrow> \<forall>a\<in>set (cells_of bs) - X. \<sigma> a \<noteq> None
      | Some c \<Rightarrow> c \<in> set (cells_of bs) - X \<and> \<sigma> c = None"
    using array_repD(7,8) [OF r] by (cases "ps_current (as_list st)") auto
  show "a = b" if "slot_entry (\<sigma> a) = Some (k, p)" "slot_entry (\<sigma> b) = Some (k, q)" for a b k p q
    by (rule array_repD(6) [OF r that])
qed (use array_repD(1,2,4,5) [OF r] in \<open>simp_all del: not_None_eq\<close>)

lemma slot_owns_live:
  assumes "array_rep {} st bs \<sigma>" "x \<in> slot_owns (\<sigma> a)"
  shows "buf_get (as_bufs st) x \<noteq> None"
proof -
  from assms(2) obtain k ka p where s: "\<sigma> a = Some (k, ka, p)" by (cases "\<sigma> a") auto
  then obtain c where "item_rep (buf_get (as_bufs st)) c (\<sigma> a)" using array_repD(3,4) [OF assms(1), of a] by blast
  with assms(2) s show ?thesis by (auto simp: item_rep_def)
qed

lemma buffer_of_holds:
  assumes "n < length string"
  shows "\<exists>bufs'. buffer_of string n bufs = Some (length bufs, bufs') \<and> length bufs' = length bufs + 1 \<and>
    (\<forall>x. x \<noteq> length bufs \<longrightarrow> buf_get bufs' x = buf_get bufs x) \<and> (\<exists>b. buf_get bufs' (length bufs) = Some b \<and> holds b (take n string))"
proof -
  obtain k bufs1 where m: "buf_malloc (n + 1) bufs = (k, bufs1)" by (cases "buf_malloc (n + 1) bufs")
  note g = buf_malloc_get [OF m]
  obtain b where b: "buffer_append_string_n string n (buffer_new (n + 1)) = Some b" "holds b (take n string)"
    using append_string_n_holds [OF holds_new assms] by auto
  have "buf_get bufs1 k = Some (buffer_new (n + 1))" using g by simp
  from buf_upd_get [of bufs1 k _ "buffer_append_string_n string n", OF this b(1)] obtain bufs' where
    "buf_upd k (buffer_append_string_n string n) bufs1 = Some bufs'" "buf_get bufs' = (buf_get bufs1)(k := Some b)"
    "length bufs' = length bufs1" by blast
  with g m b(2) show ?thesis by (simp add: buffer_of_def)
qed

lemma array_add_ptrn_rep:
  assumes r: "array_rep {} st bs \<sigma>" and n: "n < length key"
  shows "\<exists>bufs st' ka. ape_array_add_ptrn key n p st = Some (array_slot (take n key) st bs \<sigma>, st') \<and>
    array_after (st\<lparr>as_bufs := bufs\<rparr>) (take n key) ka (map_option Ptr_Data p) st' bs \<sigma> \<and>
    array_rep {} (st\<lparr>as_bufs := bufs\<rparr>) bs \<sigma>"
proof -
  obtain bufs where b: "buffer_of key n (as_bufs st) = Some (length (as_bufs st), bufs)"
    "\<forall>x. x \<noteq> length (as_bufs st) \<longrightarrow> buf_get bufs x = buf_get (as_bufs st) x"
    "\<exists>b. buf_get bufs (length (as_bufs st)) = Some b \<and> holds b (take n key)"
    using buffer_of_holds [OF n, of "as_bufs st"] by blast
  have o: "x \<noteq> length (as_bufs st)" if "x \<in> slot_owns (\<sigma> a)" for a x
    using slot_owns_live [OF r that] by (auto simp: buf_get_def)
  have r1: "array_rep {} (st\<lparr>as_bufs := bufs\<rparr>) bs \<sigma>" by (rule array_rep_bufs [OF r]) (use b(2) o in auto)
  have "array_fresh (st\<lparr>as_bufs := bufs\<rparr>) \<sigma> (length (as_bufs st)) (take n key)"
    using b(3) o by (auto simp: array_fresh_def)
  from array_add_ptr_rep [OF r1 this, of p] obtain st' where
    "ape_array_add_ptr (length (as_bufs st)) p (st\<lparr>as_bufs := bufs\<rparr>) = Some (array_slot (take n key) (st\<lparr>as_bufs := bufs\<rparr>) bs \<sigma>, st')"
    "array_after (st\<lparr>as_bufs := bufs\<rparr>) (take n key) (length (as_bufs st)) (map_option Ptr_Data p) st' bs \<sigma>" by blast
  moreover have "array_slot (take n key) (st\<lparr>as_bufs := bufs\<rparr>) bs \<sigma> = array_slot (take n key) st bs \<sigma>"
    by (simp add: array_slot_def split: option.split)
  ultimately have "ape_array_add_ptrn key n p st = Some (array_slot (take n key) st bs \<sigma>, st')"
    "array_after (st\<lparr>as_bufs := bufs\<rparr>) (take n key) (length (as_bufs st)) (map_option Ptr_Data p) st' bs \<sigma>"
    using b(1) by (simp_all add: ape_array_add_ptrn_def)
  with r1 show ?thesis by blast
qed

lemma array_val_after:
  assumes r: "array_rep {} st bs \<sigma>" and a: "array_after st key ka p st' bs \<sigma>"
  shows "array_val ((slots_del key bs \<sigma>)(array_slot key st bs \<sigma> := Some (key, ka, p))) (array_room key st bs \<sigma>) ((=) k) =
    (if key = k then p else array_val \<sigma> bs ((=) k))"
proof -
  let ?slot = "array_slot key st bs \<sigma>" and ?\<sigma> = "slots_del key bs \<sigma>"
  have r': "array_rep {} st' (array_room key st bs \<sigma>) (?\<sigma>(?slot := Some (key, ka, p)))" and n: "?\<sigma> ?slot = None"
    using a by (simp_all add: array_after_def)
  have "(\<exists>a. slot_entry ((?\<sigma>(?slot := Some (key, ka, p))) a) = Some (k, q)) \<longleftrightarrow>
      (if key = k then p = Some q else \<exists>a. slot_entry (\<sigma> a) = Some (k, q))" for q
  proof (cases "key = k")
    case True
    have "\<not> (\<exists>a. slot_entry (?\<sigma> a) = Some (k, q))" using slots_del_entry [OF r] True by blast
    with True show ?thesis by (cases p) auto
  next
    case False
    have "slot_entry ((?\<sigma>(?slot := Some (key, ka, p))) a) = Some (k, q) \<longleftrightarrow> slot_entry (?\<sigma> a) = Some (k, q)" for a
      using False n by (cases p) auto
    with False show ?thesis using slots_del_entry [OF r, of key _ k q] by auto
  qed
  then have "array_val (?\<sigma>(?slot := Some (key, ka, p))) (array_room key st bs \<sigma>) ((=) k) = Some q \<longleftrightarrow>
      (if key = k then p else array_val \<sigma> bs ((=) k)) = Some q" for q
    unfolding array_val_iff [OF r'] using array_val_iff [OF r] by auto
  then show ?thesis by (metis option.exhaust)
qed

section \<open>Arrays as keyed tables\<close>

definition array_inv :: "'v array_state \<Rightarrow> bool" where
  "array_inv st \<longleftrightarrow> (\<exists>bs \<sigma>. array_rep {} st bs \<sigma>)"

lemma array_new_rep:
  assumes "0 < n" "pool_blocks h = {}"
  shows "array_rep {} (ape_array_new n h bufs) [(length h, n)] (\<lambda>_. None) \<and>
    ps_current (as_list (ape_array_new n h bufs)) = Some (length h, 0) \<and> as_bufs (ape_array_new n h bufs) = bufs"
proof -
  obtain l h' where i: "ape_init_pool_list raw_item n h = (l, h')" by (cases "ape_init_pool_list raw_item n h")
  from ape_init_pool_list_ok [OF assms i] have g: "pool_ok l h' (cells_of [(length h, n)])" "ps_current l = Some (length h, 0)"
    "\<And>k. k < n \<Longrightarrow> \<exists>q. pool_get h' (length h, k) =
       Some (raw_item\<lparr>pl_next := q, pl_ptr := None, pl_flags := (if k = 0 then APE_POOL_ALLOC else 0)\<rparr>)" by simp_all
  have e: "ape_array_new n h bufs = \<lparr>as_list = l, as_cells = h', as_bufs = bufs\<rparr>"
    by (simp add: ape_array_new_def ape_new_pool_list_def i)
  have "array_rep {} \<lparr>as_list = l, as_cells = h', as_bufs = bufs\<rparr> [(length h, n)] (\<lambda>_. None)"
  proof (rule array_repI)
    show "\<exists>c. pool_get (as_cells \<lparr>as_list = l, as_cells = h', as_bufs = bufs\<rparr>) a = Some c \<and>
        item_rep (buf_get (as_bufs \<lparr>as_list = l, as_cells = h', as_bufs = bufs\<rparr>)) c None"
      if "a \<in> set (cells_of [(length h, n)])" for a
    proof -
      from that obtain k where k: "a = (length h, k)" "k < n" by auto
      with g(3) [OF k(2)] show ?thesis by (auto simp: item_rep_def array_flags)
    qed
  qed (use g assms(1) in auto)
  with g(2) show ?thesis by (simp add: e)
qed

lemma array_val_none: "array_val (\<lambda>_. None) bs P = None"
  by (simp add: array_val_def array_find_def find_None_iff)

definition ape_set_property :: "byte list \<Rightarrow> 'v \<Rightarrow> 'v array_state \<Rightarrow> 'v array_state option" where
  "ape_set_property key v st = map_option snd (ape_array_add_ptrn (key @ [0]) (length key) (Some v) st)"

text \<open>The call of \<open>ape_add_property\<close> on a key without zero bytes, followed by a terminator.\<close>

lemma ape_add_property_set: "0 \<notin> set key \<Longrightarrow> ape_add_property (key @ [0]) (Some v) st = ape_set_property key v st"
  using strlen_from_zero [of key 0 "[]"] by (simp add: ape_add_property_def ape_set_property_def c_strlen_def)

lemma array_set_rep:
  assumes r: "array_rep {} st bs \<sigma>"
  shows "\<exists>st' bufs ka. ape_set_property key v st = Some st' \<and>
    array_after (st\<lparr>as_bufs := bufs\<rparr>) key ka (Some (Ptr_Data v)) st' bs \<sigma> \<and> array_rep {} (st\<lparr>as_bufs := bufs\<rparr>) bs \<sigma>"
proof -
  have n: "length key < length (key @ [0])" by simp
  obtain bufs st' ka where "ape_array_add_ptrn (key @ [0]) (length key) (Some v) st = Some (array_slot key st bs \<sigma>, st')"
    "array_after (st\<lparr>as_bufs := bufs\<rparr>) key ka (Some (Ptr_Data v)) st' bs \<sigma>" "array_rep {} (st\<lparr>as_bufs := bufs\<rparr>) bs \<sigma>"
    using array_add_ptrn_rep [OF r n, of "Some v"] by auto
  moreover from this(1) have "ape_set_property key v st = Some st'" by (simp add: ape_set_property_def)
  ultimately show ?thesis by blast
qed

text \<open>A property is the pointer that is not a buffer.\<close>

fun ptr_data :: "'v array_ptr \<Rightarrow> 'v option" where
  "ptr_data (Ptr_Data v) = Some v"
| "ptr_data (Ptr_Buf _) = None"

definition ape_property :: "byte list \<Rightarrow> 'v array_state \<Rightarrow> 'v option option" where
  "ape_property key st = map_option (\<lambda>p. Option.bind p ptr_data) (ape_get_property key st)"

interpretation property_table: keyed_table "(=)" array_inv ape_property ape_set_property ape_array_delete
proof
  fix t :: "'v array_state" and k v
  assume "array_inv t"
  then obtain bs \<sigma> where r: "array_rep {} t bs \<sigma>" by (auto simp: array_inv_def)
  show "\<exists>r. ape_property k t = Some r" using array_lookups(2) [OF r] by (simp add: ape_property_def)
  show "\<exists>t'. ape_array_delete k t = Some t' \<and> array_inv t' \<and>
      (\<forall>k'. ape_property k' t' = (if k = k' then Some None else ape_property k' t))"
  proof -
    obtain t' where t': "ape_array_delete k t = Some t'" "array_rep {} t' bs (slots_del k bs \<sigma>)"
      using array_deleted [OF r] by blast
    have "array_val (slots_del k bs \<sigma>) bs ((=) k') = (if k = k' then None else array_val \<sigma> bs ((=) k'))" for k'
    proof -
      have "array_val (slots_del k bs \<sigma>) bs ((=) k') = Some q \<longleftrightarrow> (if k = k' then None else array_val \<sigma> bs ((=) k')) = Some q" for q
        unfolding array_val_iff [OF t'(2)] slots_del_entry [OF r] using array_val_iff [OF r] by auto
      then show ?thesis by (metis option.exhaust)
    qed
    with t' show ?thesis unfolding array_inv_def by (auto simp: ape_property_def array_lookups(2) [OF r] array_lookups(2) [OF t'(2)])
  qed
  show "\<exists>t'. ape_set_property k v t = Some t' \<and> array_inv t' \<and>
      (\<forall>k'. ape_property k' t' = (if k = k' then Some (Some v) else ape_property k' t))"
    if "ape_property k t = Some None"
  proof -
    obtain t' bufs ka where t': "ape_set_property k v t = Some t'"
      "array_after (t\<lparr>as_bufs := bufs\<rparr>) k ka (Some (Ptr_Data v)) t' bs \<sigma>" "array_rep {} (t\<lparr>as_bufs := bufs\<rparr>) bs \<sigma>"
      using array_set_rep [OF r] by blast
    from t'(2) have "array_rep {} t' (array_room k (t\<lparr>as_bufs := bufs\<rparr>) bs \<sigma>)
        ((slots_del k bs \<sigma>)(array_slot k (t\<lparr>as_bufs := bufs\<rparr>) bs \<sigma> := Some (k, ka, Some (Ptr_Data v))))"
      by (simp add: array_after_def)
    with t' array_val_after [OF t'(3,2)] show ?thesis unfolding array_inv_def
      by (auto simp: ape_property_def array_lookups(2) [OF r] array_lookups(2))
  qed
qed

section \<open>Tables of buffers\<close>

text \<open>
  The items in the order of the cells, with the bytes of their values. In an array that nothing was
  deleted from, the used cells come first, and \<open>current\<close> is the first free one.
\<close>

fun table_row :: "'v array_state \<Rightarrow> (paddr \<Rightarrow> 'v slot) \<Rightarrow> paddr \<Rightarrow> byte list \<times> byte list \<Rightarrow> bool" where
  "table_row st \<sigma> a (k, v) \<longleftrightarrow>
     (\<exists>ka va b. \<sigma> a = Some (k, ka, Some (Ptr_Buf va)) \<and> buf_get (as_bufs st) va = Some b \<and> holds b v)"

definition array_table :: "'v array_state \<Rightarrow> (addr \<times> nat) list \<Rightarrow> (paddr \<Rightarrow> 'v slot) \<Rightarrow> (byte list \<times> byte list) list \<Rightarrow> bool" where
  "array_table st bs \<sigma> tbl \<longleftrightarrow> array_rep {} st bs \<sigma> \<and>
     (\<exists>us ws. cells_of bs = us @ ws \<and> ps_current (as_list st) = (if ws = [] then None else Some (hd ws)) \<and>
        (\<forall>a\<in>set ws. \<sigma> a = None) \<and> distinct (map fst tbl) \<and>
        list_all2 (table_row st \<sigma>) us tbl)"

lemma update_new: "k \<notin> fst ` set xs \<Longrightarrow> AList.update k v xs = xs @ [(k, v)]"
  by (induction xs) auto

lemma update_old: "k \<notin> fst ` set xs \<Longrightarrow> AList.update k v (xs @ (k, w) # ys) = xs @ (k, v) # ys"
  by (induction xs) auto

text \<open>The search of the loops is the search of the table.\<close>

lemma list_all2_find:
  assumes "list_all2 R xs ys" "\<And>x y. R x y \<Longrightarrow> P x \<longleftrightarrow> Q y"
  shows "case find P xs of None \<Rightarrow> find Q ys = None | Some x \<Rightarrow> \<exists>y. find Q ys = Some y \<and> R x y"
  using assms(1)
proof (induction rule: list_all2_induct)
  case (Cons x xs y ys)
  then show ?case using assms(2) [of x y] by (auto split: option.splits)
qed simp

lemma array_table_find:
  assumes "array_table st bs \<sigma> tbl"
  shows "case find (\<lambda>(k, v). P k) tbl of
      None \<Rightarrow> array_find \<sigma> bs P = None
    | Some (k, v) \<Rightarrow> \<exists>a ka va b. array_find \<sigma> bs P = Some a \<and> \<sigma> a = Some (k, ka, Some (Ptr_Buf va)) \<and> P k \<and>
        buf_get (as_bufs st) va = Some b \<and> holds b v"
proof -
  obtain us ws where u: "cells_of bs = us @ ws" "\<forall>a\<in>set ws. \<sigma> a = None"
    "list_all2 (table_row st \<sigma>) us tbl"
    using assms by (auto simp: array_table_def)
  let ?P = "\<lambda>a. \<exists>k v. slot_entry (\<sigma> a) = Some (k, v) \<and> P k"
  have w: "find ?P ws = None" using u(2) by (auto simp: find_None_iff)
  have e: "array_find \<sigma> bs P = find ?P us" unfolding array_find_def u(1)
    using w by (induction us) auto
  have "case find ?P us of None \<Rightarrow> find (\<lambda>(k, v). P k) tbl = None
    | Some a \<Rightarrow> \<exists>y. find (\<lambda>(k, v). P k) tbl = Some y \<and>
        table_row st \<sigma> a y"
    by (rule list_all2_find [OF u(3)]) auto
  moreover have "P k" if "find (\<lambda>(k, v). P k) tbl = Some (k, v)" for k v using that by (auto simp: find_Some_iff)
  ultimately show ?thesis unfolding e by (auto split: option.splits prod.splits)
qed

lemma array_table_lookup:
  assumes t: "array_table st bs \<sigma> tbl"
  shows "case find (\<lambda>(k, v). length k = length key \<and> strncasecmp_eq key k) tbl of
      None \<Rightarrow> ape_array_lookup key st = Some None
    | Some (k, v) \<Rightarrow> \<exists>va b. ape_array_lookup key st = Some (Some (Ptr_Buf va)) \<and> buf_get (as_bufs st) va = Some b \<and> holds b v"
proof -
  have "array_rep {} st bs \<sigma>" using t by (simp add: array_table_def)
  from array_lookups(3) [OF this] array_table_find [OF t, of "\<lambda>k. length k = length key \<and> strncasecmp_eq key k"]
  show ?thesis by (auto simp: array_val_def split: option.splits)
qed

lemma array_next_packed:
  assumes n: "array_next \<sigma> bs slot cur" and c: "cells_of bs = us @ ws" "distinct (cells_of bs)" "slot \<in> set us"
    and u: "\<And>a. a \<in> set us \<Longrightarrow> \<sigma> a \<noteq> None \<or> a = slot" and w: "\<And>a. a \<in> set ws \<Longrightarrow> \<sigma> a = None"
  shows "cur = (if ws = [] then None else Some (hd ws))"
proof -
  let ?P = "\<lambda>a. a \<noteq> slot \<and> \<sigma> a = None"
  obtain xs ys where us: "us = xs @ slot # ys" using split_list [OF c(3)] by blast
  obtain xs' vs where n': "cells_of bs = xs' @ slot # vs"
    "cur = (if vs \<noteq> [] \<and> \<sigma> (hd vs) = None then Some (hd vs) else find ?P (cells_of bs))"
    using n by (auto simp: array_next_def)
  have "xs' = xs \<and> vs = ys @ ws"
  proof (rule append_Cons_eq_iff [THEN iffD1])
    show "xs' @ slot # vs = xs @ slot # (ys @ ws)" using n'(1) c(1) us by simp
  qed (use c(2) n'(1) c(1) us in auto)
  then have vs: "vs = ys @ ws" by simp
  have "find ?P us = None" using u by (auto simp: find_None_iff)
  then have "find ?P (us @ ws) = find ?P ws" by (induction us) (auto split: if_splits)
  moreover have "find ?P ws = (if ws = [] then None else Some (hd ws))"
  proof (cases ws)
    case (Cons a ws')
    then have "\<sigma> a = None" "a \<noteq> slot" using w [of a] c us by auto
    with Cons show ?thesis by simp
  qed simp
  ultimately have f: "find ?P (cells_of bs) = (if ws = [] then None else Some (hd ws))" using c(1) by simp
  show ?thesis
  proof (cases ys)
    case Nil
    with vs n'(2) f show ?thesis by simp
  next
    case (Cons a ys')
    then have "\<sigma> a \<noteq> None" using u [of a] c us by auto
    with vs n'(2) f Cons show ?thesis by (simp del: not_None_eq)
  qed
qed

lemma list_all2_left: "list_all2 R xs ys \<Longrightarrow> x \<in> set xs \<Longrightarrow> \<exists>y. R x y"
  by (induction rule: list_all2_induct) auto

lemma array_table_add:
  assumes t: "array_table st bs \<sigma> tbl" and k: "array_fresh st \<sigma> ka key" and v: "array_fresh st \<sigma> va val" "ka \<noteq> va"
  shows "\<exists>st'. ape_array_add_b ka va st = Some st' \<and> array_after st key ka (Some (Ptr_Buf va)) st' bs \<sigma> \<and>
    array_table st' (array_room key st bs \<sigma>)
      ((slots_del key bs \<sigma>)(array_slot key st bs \<sigma> := Some (key, ka, Some (Ptr_Buf va)))) (AList.update key val tbl)"
proof -
  let ?slot = "array_slot key st bs \<sigma>" and ?bs = "array_room key st bs \<sigma>" and ?\<sigma>1 = "slots_del key bs \<sigma>"
  let ?\<sigma> = "?\<sigma>1(?slot := Some (key, ka, Some (Ptr_Buf va)))"
  have r: "array_rep {} st bs \<sigma>" using t by (simp add: array_table_def)
  obtain us ws where u: "cells_of bs = us @ ws" "ps_current (as_list st) = (if ws = [] then None else Some (hd ws))"
    "\<forall>a\<in>set ws. \<sigma> a = None" "distinct (map fst tbl)" "list_all2 (table_row st \<sigma>) us tbl"
    using t by (auto simp: array_table_def)
  obtain st' where st': "ape_array_add_b ka va st = Some st'" "array_after st key ka (Some (Ptr_Buf va)) st' bs \<sigma>"
    using array_add_b_rep [OF r k v] by blast
  from st'(2) have a: "array_rep {} st' ?bs ?\<sigma>" "?\<sigma>1 ?slot = None"
    "buf_get (as_bufs st') = buf_without (slots_gone key bs \<sigma>) (as_bufs st)" "array_next ?\<sigma>1 ?bs ?slot (ps_current (as_list st'))"
    by (simp_all add: array_after_def)
  have d: "distinct (cells_of bs)" "distinct (cells_of ?bs)" using array_repD(1) [OF r] array_repD(1) [OF a(1)] pool_okD(2) by auto
  obtain vb where vb: "buf_get (as_bufs st) va = Some vb" "holds vb val" using v by (auto simp: array_fresh_def)
  have "va \<notin> slots_gone key bs \<sigma>" using v by (auto simp: slots_gone_def array_fresh_def split: option.splits)
  then have new: "table_row st' ?\<sigma> ?slot (key, val)" using vb by (simp add: a(3) buf_without_def)
  have same: "table_row st' ?\<sigma> x y" if "table_row st \<sigma> x y" "x \<noteq> ?slot" "array_find \<sigma> bs ((=) key) \<noteq> Some x" for x y
  proof -
    obtain kx vx where y: "y = (kx, vx)" by (cases y)
    with that(1) obtain kx' vx' b where x: "\<sigma> x = Some (kx, kx', Some (Ptr_Buf vx'))" "buf_get (as_bufs st) vx' = Some b" "holds b vx" by auto
    have "vx' \<notin> slots_gone key bs \<sigma>"
    proof (cases "array_find \<sigma> bs ((=) key)")
      case (Some z)
      then have "x \<noteq> z" using that(3) by auto
      from array_repD(5) [OF r this] Some x(1) show ?thesis by (auto simp: slots_gone_def)
    qed (simp add: slots_gone_def)
    moreover have "?\<sigma>1 x = \<sigma> x" using that(3) by (auto simp: slots_del_def split: option.splits)
    ultimately show ?thesis using x y that(2) by (simp add: a(3) buf_without_def)
  qed
  have goal: "array_table st' ?bs ?\<sigma> (AList.update key val tbl)"
    if c: "cells_of ?bs = us' @ ws'" "?slot \<in> set us'" "\<And>a. a \<in> set us' \<Longrightarrow> ?\<sigma>1 a \<noteq> None \<or> a = ?slot"
      "\<And>a. a \<in> set ws' \<Longrightarrow> ?\<sigma>1 a = None" "list_all2 (table_row st' ?\<sigma>) us' (AList.update key val tbl)" for us' ws'
  proof -
    have "ps_current (as_list st') = (if ws' = [] then None else Some (hd ws'))"
      by (rule array_next_packed [OF a(4) c(1) d(2) c(2-4)])
    moreover have "\<forall>a\<in>set ws'. ?\<sigma> a = None" using c(1,2,4) d(2) by auto
    moreover have "distinct (map fst (AList.update key val tbl))" using u(4) by (rule distinct_update)
    ultimately show ?thesis using a(1) c(1,5) unfolding array_table_def by blast
  qed
  have used: "\<sigma> x \<noteq> None" if x: "x \<in> set us" for x
  proof -
    obtain y where "table_row st \<sigma> x y" using list_all2_left [OF u(5) x] by blast
    then show ?thesis by (cases y) auto
  qed
  show ?thesis
  proof (cases "array_find \<sigma> bs ((=) key)")
    case (Some z)
    then have s: "?slot = z" "?bs = bs" "?\<sigma>1 = \<sigma>(z := None)" by (simp_all add: array_slot_def array_room_def slots_del_def)
    from array_findD [OF Some] obtain kz pz where z: "z \<in> set (cells_of bs)" "\<sigma> z = Some (key, kz, Some pz)" by auto
    then have "z \<in> set us" using u(1,3) by auto
    then obtain xs ys where us: "us = xs @ z # ys" by (auto dest: split_list)
    with u(5) obtain txs tz tys where tbl: "tbl = txs @ tz # tys" "list_all2 (table_row st \<sigma>) xs txs" "table_row st \<sigma> z tz" "list_all2 (table_row st \<sigma>) ys tys"
      by (auto simp: list_all2_append1 list_all2_Cons1)
    from tbl(3) z(2) have tz: "fst tz = key" by (cases tz) auto
    have nz: "z \<notin> set xs" "z \<notin> set ys" using d(1) u(1) us by auto
    have "key \<notin> fst ` set txs" using u(4) tbl(1) tz by auto
    then have up: "AList.update key val tbl = txs @ (key, val) # tys"
      using update_old [of key txs val "snd tz" tys] tbl(1) tz by (cases tz) simp
    have m0: "table_row st' ?\<sigma> x y" if "table_row st \<sigma> x y" "x \<noteq> z" for x y
      by (rule same [OF that(1)]) (use that(2) s(1) Some in simp_all)
    have m1: "list_all2 (table_row st' ?\<sigma>) xs txs" by (rule list.rel_mono_strong [OF tbl(2)], rule m0) (use nz in blast)+
    have m2: "list_all2 (table_row st' ?\<sigma>) ys tys" by (rule list.rel_mono_strong [OF tbl(4)], rule m0) (use nz in blast)+
    have "array_table st' ?bs ?\<sigma> (AList.update key val tbl)"
    proof (rule goal)
      show "cells_of ?bs = us @ ws" using u(1) s(2) by simp
      show "?slot \<in> set us" using s(1) us by simp
      show "?\<sigma>1 x \<noteq> None \<or> x = ?slot" if "x \<in> set us" for x using used [OF that] s(1,3) by simp
      show "?\<sigma>1 x = None" if "x \<in> set ws" for x using that u(3) s(3) by simp
      show "list_all2 (table_row st' ?\<sigma>) us (AList.update key val tbl)"
        unfolding up us using m1 m2 new s(1) by (simp add: list_all2_appendI del: fun_upd_apply)
    qed
    with st' show ?thesis by blast
  next
    case None
    then have s: "?\<sigma>1 = \<sigma>" by (simp add: slots_del_def)
    have "find (\<lambda>(k, v). key = k) tbl = None" using array_table_find [OF t, of "(=) key"] None by (auto split: option.splits)
    then have "key \<notin> fst ` set tbl" by (auto simp: find_None_iff)
    then have up: "AList.update key val tbl = tbl @ [(key, val)]" by (rule update_new)
    obtain ws' where w: "cells_of ?bs = us @ ?slot # ws'" "\<forall>x\<in>set ws'. \<sigma> x = None"
    proof (cases ws)
      case Nil
      let ?b = "length (as_cells st)"
      have bs: "?bs = bs @ [(?b, 4)]" "?slot = (?b, 0)" using None u(2) Nil by (simp_all add: array_room_def array_slot_def)
      have c4: "map (Pair ?b) [0..<4] = (?b, 0) # [(?b, 1), (?b, 2), (?b, 3)]" by (simp add: upt_rec)
      have "\<sigma> x = None" if "x \<in> set [(?b, 1), (?b, 2), (?b, 3)]" for x
      proof -
        have "x \<notin> set (cells_of bs)" using d(2) that unfolding bs(1) cells_of_simps c4 by auto
        then show ?thesis using array_repD(4) [OF r, of x] by blast
      qed
      with that [of "[(?b, 1), (?b, 2), (?b, 3)]"] show ?thesis using u(1) Nil c4 bs by simp
    next
      case (Cons x ws')
      then have "?bs = bs" "?slot = x" using None u(2) by (simp_all add: array_room_def array_slot_def)
      with that [of ws'] Cons u(1,3) show ?thesis by simp
    qed
    have nu: "?slot \<notin> set us" using d(2) w(1) by auto
    have m: "list_all2 (table_row st' ?\<sigma>) us tbl"
      by (rule list.rel_mono_strong [OF u(5)], rule same) (use nu None in \<open>simp_all, blast\<close>)
    have "array_table st' ?bs ?\<sigma> (AList.update key val tbl)"
    proof (rule goal)
      show "cells_of ?bs = (us @ [?slot]) @ ws'" using w(1) by simp
      show "?slot \<in> set (us @ [?slot])" by simp
      show "?\<sigma>1 x \<noteq> None \<or> x = ?slot" if "x \<in> set (us @ [?slot])" for x using that used [of x] s by auto
      show "?\<sigma>1 x = None" if "x \<in> set ws'" for x using that w(2) s by simp
      show "list_all2 (table_row st' ?\<sigma>) (us @ [?slot]) (AList.update key val tbl)"
        unfolding up using m new by (simp add: list_all2_appendI del: fun_upd_apply)
    qed
    with st' show ?thesis by blast
  qed
qed

section \<open>Destroying an array\<close>

lemma distinct_cells_of: "distinct (cells_of bs) \<Longrightarrow> (\<And>b n. (b, n) \<in> set bs \<Longrightarrow> 0 < n) \<Longrightarrow> distinct (map fst bs)"
proof (induction bs)
  case (Cons bn bs)
  obtain b n where bn: "bn = (b, n)" by (cases bn)
  have n: "0 < n" using Cons.prems(2) bn by auto
  have "(b, 0) \<in> set (map (Pair b) [0..<n])" using n by auto
  moreover have "(b, 0) \<in> set (cells_of bs)" if "b \<in> fst ` set bs"
  proof -
    from that obtain m where m: "(b, m) \<in> set bs" by force
    then have "0 < m" using Cons.prems(2) by auto
    with m show ?thesis by (auto simp: in_cells_of)
  qed
  ultimately have "b \<notin> fst ` set bs" using Cons.prems(1) bn by auto
  with Cons bn show ?case by auto
qed simp

lemma array_blocks:
  assumes r: "array_rep {} st bs \<sigma>"
  shows "blocks_ok (as_cells st) bs \<and> pool_blocks (as_cells st) = fst ` set bs"
proof -
  note d = array_repD [OF r] and o = pool_okD [OF d(1)]
  have live: "pool_get (as_cells st) (b, i) \<noteq> None \<and> (pool_begins (as_cells st) (b, i) \<longleftrightarrow> i = 0)"
    if "(b, n) \<in> set bs" "i < n" for b n i
  proof -
    have "(b, i) \<in> set (cells_of bs)" using that by (auto simp: in_cells_of)
    with o(5,6) [of "(b, i)"] show ?thesis by auto
  qed
  moreover have sub: "b \<in> pool_blocks (as_cells st)" if "(b, n) \<in> set bs" for b n
    using live [OF that, of 0] d(2) [OF that] pool_get_block [of "as_cells st" "(b, 0)"] by simp
  moreover have "b \<in> fst ` set bs" if "b \<in> pool_blocks (as_cells st)" for b
    using o(7) [OF that] by (force simp: in_cells_of)
  ultimately show ?thesis using distinct_cells_of [OF o(2)] d(2) unfolding blocks_ok_def by fastforce
qed

text \<open>While the blocks are freed: what was freed, and which buffers with it.\<close>

definition array_dying ::
    "'v array_heap \<Rightarrow> bheap \<Rightarrow> (paddr \<Rightarrow> 'v slot) \<Rightarrow> 'v array_heap \<times> bheap \<Rightarrow> bool" where
  "array_dying h0 bf0 \<sigma> s \<longleftrightarrow>
     pool_get (fst s) = (\<lambda>a. if fst a \<in> pool_blocks (fst s) then pool_get h0 a else None) \<and>
     buf_get (snd s) = buf_without (\<Union>b\<in>pool_blocks h0 - pool_blocks (fst s). slot_owns (\<sigma> (b, 0))) bf0 \<and>
     pool_blocks (fst s) \<subseteq> pool_blocks h0"

lemma array_clean_step:
  assumes r: "array_rep {} st bs \<sigma>" and I: "array_dying (as_cells st) (as_bufs st) \<sigma> (h, bufs)"
    and b: "pool_get h (b, 0) \<noteq> None"
  shows "\<exists>h1 r1 h2. ape_array_clean_cb (b, 0) (h, bufs) = Some (h1, r1) \<and> pool_same h h1 \<and>
    pool_free (b, 0) h1 = Some h2 \<and> array_dying (as_cells st) (as_bufs st) \<sigma> (h2, r1)"
proof -
  have B: "b \<in> pool_blocks h" using pool_get_block [OF b] by simp
  note i = I [unfolded array_dying_def fst_conv snd_conv]
  have g0: "pool_get h (b, 0) = pool_get (as_cells st) (b, 0)" using i B by simp
  then have "(b, 0) \<in> set (cells_of bs)" using b pool_okD(5) [OF array_repD(1) [OF r], of "(b, 0)"] by simp
  then obtain c where c: "pool_get h (b, 0) = Some c" "item_rep (buf_get (as_bufs st)) c (\<sigma> (b, 0))"
    using array_repD(3) [OF r, of "(b, 0)"] g0 by auto
  let ?dead = "\<Union>b\<in>pool_blocks (as_cells st) - pool_blocks h. slot_owns (\<sigma> (b, 0))"
  have "x \<notin> ?dead" if "x \<in> slot_owns (\<sigma> (b, 0))" for x
  proof
    assume "x \<in> ?dead"
    then obtain b' where "b' \<in> pool_blocks (as_cells st) - pool_blocks h" "x \<in> slot_owns (\<sigma> (b', 0))" by blast
    moreover from this(1) B have "b' \<noteq> b" by auto
    ultimately show False using that array_repD(5) [OF r, of "(b, 0)" "(b', 0)"] by auto
  qed
  then have c2: "item_rep (buf_get bufs) c (\<sigma> (b, 0))" using i by (intro item_rep_cong [OF c(2)]) (simp add: buf_without_def)
  have "\<exists>h1 r1. ape_array_clean_cb (b, 0) (h, bufs) = Some (h1, r1) \<and> pool_same h h1 \<and>
      (\<forall>a. fst a \<noteq> b \<longrightarrow> pool_get h1 a = pool_get h a) \<and> buf_get r1 = buf_without (slot_owns (\<sigma> (b, 0))) bufs"
  proof (cases "\<sigma> (b, 0)")
    case None
    then have "\<not> ai_used c" using ai_used_rep [OF c(2)] by simp
    with c(1) None show ?thesis
      by (intro exI [of _ h] exI [of _ bufs]) (simp add: ape_array_clean_cb_def pool_same_refl buf_without_def)
  next
    case (Some s)
    then have u: "ai_used c" using ai_used_rep [OF c(2)] by simp
    let ?c = "c\<lparr>pl_flags := pl_flags c AND NOT APE_ARRAY_USED_SLOT\<rparr>"
    obtain h1 where h1: "pool_upd (b, 0) (\<lambda>c. c\<lparr>pl_flags := pl_flags c AND NOT APE_ARRAY_USED_SLOT\<rparr>) h = Some h1"
      "pool_get h1 = (pool_get h)((b, 0) := Some ?c)" "pool_blocks h1 = pool_blocks h"
      using pool_upd_get [OF c(1)] by blast
    obtain b1 b2 where d: "buffer_destroy (ai_key ?c) bufs = Some b1" "destroy_value ?c b1 = Some b2"
      "buf_get b2 = buf_without (slot_owns (\<sigma> (b, 0))) bufs"
      using destroy_item [OF c2] Some by auto
    have "pool_next h (b, 0) = pl_next ?c" using c(1) by (simp add: pool_next_def)
    then have "pool_next h1 = pool_next h" using pool_next_upd [OF h1(2)] by (simp add: fun_upd_idem)
    moreover have "pool_begins h1 = pool_begins h"
      by (rule pool_begins_upd [OF h1(2) c(1)]) (simp add: array_flags flags_clear)
    ultimately have "pool_same h h1" using h1(2,3) c(1) by (simp add: pool_same_def)
    moreover have "ape_array_clean_cb (b, 0) (h, bufs) = Some (h1, b2)"
      using c(1) u h1(1,2) d(1,2) by (simp add: ape_array_clean_cb_def)
    ultimately show ?thesis using h1(2) d(3) by auto
  qed
  then obtain h1 r1 where s: "ape_array_clean_cb (b, 0) (h, bufs) = Some (h1, r1)" "pool_same h h1"
    "\<forall>a. fst a \<noteq> b \<longrightarrow> pool_get h1 a = pool_get h a" "buf_get r1 = buf_without (slot_owns (\<sigma> (b, 0))) bufs" by blast
  have B1: "pool_blocks h1 = pool_blocks h" by (rule pool_sameD(3) [OF s(2)])
  obtain h2 where h2: "pool_free (b, 0) h1 = Some h2" "pool_get h2 = (\<lambda>a. if fst a = b then None else pool_get h1 a)"
    "pool_blocks h2 = pool_blocks h - {b}" using pool_free_get [of b h1] B B1 by auto
  have "pool_get h2 = (\<lambda>a. if fst a \<in> pool_blocks h2 then pool_get (as_cells st) a else None)"
    using i s(3) by (auto simp: h2(2,3) fun_eq_iff)
  moreover have "pool_blocks (as_cells st) - pool_blocks h2 = insert b (pool_blocks (as_cells st) - pool_blocks h)"
    using B i by (auto simp: h2(3))
  then have "buf_get r1 = buf_without (\<Union>b\<in>pool_blocks (as_cells st) - pool_blocks h2. slot_owns (\<sigma> (b, 0))) (as_bufs st)"
    using i by (auto simp: s(4) buf_without_def fun_eq_iff)
  ultimately have "array_dying (as_cells st) (as_bufs st) \<sigma> (h2, r1)" using i h2(3) by (auto simp: array_dying_def)
  with s(1,2) h2(1) show ?thesis by blast
qed

lemma array_destroy_rep:
  assumes r: "array_rep {} st bs \<sigma>"
  shows "\<exists>h bufs. ape_array_destroy st = Some (h, bufs) \<and> pool_blocks h = {} \<and>
    buf_get bufs = buf_without (\<Union>b\<in>pool_blocks (as_cells st). slot_owns (\<sigma> (b, 0))) (as_bufs st)"
proof -
  have "pool_get (as_cells st) = (\<lambda>a. if fst a \<in> pool_blocks (as_cells st) then pool_get (as_cells st) a else None)"
    using pool_get_block by (fastforce simp: fun_eq_iff)
  then have I0: "array_dying (as_cells st) (as_bufs st) \<sigma> (as_cells st, as_bufs st)"
    by (simp add: array_dying_def buf_without_def fun_eq_iff)
  note b = array_blocks [OF r]
  from destroy_ordered_all [of "array_dying (as_cells st) (as_bufs st) \<sigma>" ape_array_clean_cb,
      OF array_clean_step [OF r] I0 conjunct1 [OF b] pool_okD(1) [OF array_repD(1) [OF r]]]
  obtain s where s: "ape_array_destroy st = Some s" "array_dying (as_cells st) (as_bufs st) \<sigma> s" "pool_blocks (fst s) = {}"
    using b by (auto simp: ape_array_destroy_def)
  then show ?thesis by (cases s) (auto simp: array_dying_def)
qed

section \<open>Properties\<close>

primrec array_adds :: "(byte list \<times> byte list) list \<Rightarrow> 'v array_state \<Rightarrow> 'v array_state option" where
  "array_adds [] st = Some st"
| "array_adds (kv # kvs) st = Option.bind (ape_array_add (fst kv @ [0]) (snd kv @ [0]) st) (array_adds kvs)"

lemma array_table_new:
  assumes "0 < n" "pool_blocks h = {}"
  shows "array_table (ape_array_new n h bufs) [(length h, n)] (\<lambda>_. None) []"
proof -
  have "map (Pair (length h)) [0..<n] = (length h, 0) # map (Pair (length h)) [1..<n]"
    using assms(1) by (simp add: upt_rec)
  with array_new_rep [OF assms, of bufs] show ?thesis
    unfolding array_table_def by (intro conjI exI [of _ "[]"] exI [of _ "map (Pair (length h)) [0..<n]"]) simp_all
qed

lemma array_table_bufs:
  assumes t: "array_table st bs \<sigma> tbl" and b: "\<And>a x. x \<in> slot_owns (\<sigma> a) \<Longrightarrow> buf_get bufs x = buf_get (as_bufs st) x"
  shows "array_table (st\<lparr>as_bufs := bufs\<rparr>) bs \<sigma> tbl"
proof -
  obtain us ws where u: "cells_of bs = us @ ws" "ps_current (as_list st) = (if ws = [] then None else Some (hd ws))"
    "\<forall>a\<in>set ws. \<sigma> a = None" "distinct (map fst tbl)" "list_all2 (table_row st \<sigma>) us tbl"
    using t by (auto simp: array_table_def)
  have "table_row (st\<lparr>as_bufs := bufs\<rparr>) \<sigma> a y" if "table_row st \<sigma> a y" for a y
    using that b [of _ a] by (cases y) auto
  with u(5) have "list_all2 (table_row (st\<lparr>as_bufs := bufs\<rparr>) \<sigma>) us tbl" by (rule list_all2_mono)
  moreover have "array_rep {} (st\<lparr>as_bufs := bufs\<rparr>) bs \<sigma>" using t b by (auto simp: array_table_def intro: array_rep_bufs)
  ultimately show ?thesis using u(1-4) unfolding array_table_def by (intro conjI exI [of _ us] exI [of _ ws]) simp_all
qed

lemma array_table_add_n:
  assumes t: "array_table st bs \<sigma> tbl" and n: "kn < length key" "vn < length value"
  shows "\<exists>st' bs' \<sigma>'. ape_array_add_n key kn value vn st = Some st' \<and>
    array_table st' bs' \<sigma>' (AList.update (take kn key) (take vn value) tbl)"
proof -
  have r: "array_rep {} st bs \<sigma>" using t by (simp add: array_table_def)
  obtain k b1 where m1: "buf_malloc (kn + 1) (as_bufs st) = (k, b1)" by (cases "buf_malloc (kn + 1) (as_bufs st)")
  obtain v b2 where m2: "buf_malloc (vn + 1) b1 = (v, b2)" by (cases "buf_malloc (vn + 1) b1")
  note g1 = buf_malloc_get [OF m1] and g2 = buf_malloc_get [OF m2]
  obtain kb where kb: "buffer_append_string_n key kn (buffer_new (kn + 1)) = Some kb" "holds kb (take kn key)"
    using append_string_n_holds [OF holds_new n(1)] by auto
  obtain vb where vb: "buffer_append_string_n value vn (buffer_new (vn + 1)) = Some vb" "holds vb (take vn value)"
    using append_string_n_holds [OF holds_new n(2)] by auto
  have kv: "k \<noteq> v" "k = length (as_bufs st)" "v = length (as_bufs st) + 1" using g1 g2 by auto
  have "buf_get b2 k = Some (buffer_new (kn + 1))" using g1 g2 kv by simp
  from buf_upd_get [of b2 k _ "buffer_append_string_n key kn", OF this kb(1)] obtain b3 where
    b3: "buf_upd k (buffer_append_string_n key kn) b2 = Some b3" "buf_get b3 = (buf_get b2)(k := Some kb)" by blast
  have "buf_get b3 v = Some (buffer_new (vn + 1))" using g2 kv b3(2) by simp
  from buf_upd_get [of b3 v _ "buffer_append_string_n value vn", OF this vb(1)] obtain b4 where
    b4: "buf_upd v (buffer_append_string_n value vn) b3 = Some b4" "buf_get b4 = (buf_get b3)(v := Some vb)" by blast
  have o: "x \<noteq> k \<and> x \<noteq> v" if "x \<in> slot_owns (\<sigma> a)" for a x
    using slot_owns_live [OF r that] kv by (auto simp: buf_get_def split: if_splits)
  have t4: "array_table (st\<lparr>as_bufs := b4\<rparr>) bs \<sigma> tbl"
    by (rule array_table_bufs [OF t]) (use o g1 g2 b3 b4 in auto)
  have f: "array_fresh (st\<lparr>as_bufs := b4\<rparr>) \<sigma> k (take kn key)" "array_fresh (st\<lparr>as_bufs := b4\<rparr>) \<sigma> v (take vn value)"
    using o kb(2) vb(2) kv(1) b3(2) b4(2) by (auto simp: array_fresh_def)
  from array_table_add [OF t4 f kv(1)] m1 m2 b3(1) b4(1) show ?thesis
    by (auto simp: ape_array_add_n_def)
qed

lemma array_adds_table:
  "array_table st bs \<sigma> tbl \<Longrightarrow> (\<forall>(k, v)\<in>set kvs. 0 \<notin> set k \<and> 0 \<notin> set v) \<Longrightarrow>
   \<exists>st' bs' \<sigma>'. array_adds kvs st = Some st' \<and> array_table st' bs' \<sigma>' (fold (\<lambda>(k, v). AList.update k v) kvs tbl)"
proof (induction kvs arbitrary: st bs \<sigma> tbl)
  case (Cons kv kvs)
  obtain k v where kv: "kv = (k, v)" by (cases kv)
  with Cons.prems(2) have z: "c_strlen (k @ [0]) = Some (length k)" "c_strlen (v @ [0]) = Some (length v)"
    using strlen_from_zero [of k 0 "[]"] strlen_from_zero [of v 0 "[]"] by (auto simp: c_strlen_def)
  have l: "length k < length (k @ [0 :: byte])" "length v < length (v @ [0 :: byte])" by simp_all
  from array_table_add_n [OF Cons.prems(1) l] obtain st1 bs1 \<sigma>1 where
    s: "ape_array_add_n (k @ [0]) (length k) (v @ [0]) (length v) st = Some st1" "array_table st1 bs1 \<sigma>1 (AList.update k v tbl)" by auto
  from Cons.IH [OF s(2)] Cons.prems(2) s(1) z kv show ?case by (auto simp: ape_array_add_def)
qed auto

text \<open>C40: Adding keys and values to a new array never fails, and replaces the value of a key that is
  already there (with the same case) in its place; \<open>ape_array_lookup\<close> finds the first item whose key is
  equal but for the case, and its value's buffer holds the bytes that were last added.\<close>

theorem array_lookup_last_added:
  assumes "0 < n" "pool_blocks h = {}" "\<forall>(k, v)\<in>set kvs. 0 \<notin> set k \<and> 0 \<notin> set v"
  shows "\<exists>st. array_adds kvs (ape_array_new n h bufs) = Some st \<and>
    (case find (\<lambda>(k, v). length k = length key \<and> strncasecmp_eq key k) (fold (\<lambda>(k, v). AList.update k v) kvs []) of
       None \<Rightarrow> ape_array_lookup key st = Some None
     | Some (k, v) \<Rightarrow> \<exists>a b. ape_array_lookup key st = Some (Some (Ptr_Buf a)) \<and> buf_get (as_bufs st) a = Some b \<and> holds b v)"
  using array_adds_table [OF array_table_new [OF assms(1,2)] assms(3)] array_table_lookup by blast

lemma array_lookup_last_added_witness:
  "\<exists>(st :: nat array_state) a b. array_adds [(bytes ''Host'', [1]), (bytes ''Via'', [2]), (bytes ''Host'', [3])] (ape_array_new 2 [] []) = Some st \<and>
    ape_array_lookup (bytes ''HOST'') st = Some (Some (Ptr_Buf a)) \<and> buf_get (as_bufs st) a = Some b \<and> holds b [3]"
proof -
  have "find (\<lambda>(k, v). length k = length (bytes ''HOST'') \<and> strncasecmp_eq (bytes ''HOST'') k)
      (fold (\<lambda>(k, v). AList.update k v) [(bytes ''Host'', [1]), (bytes ''Via'', [2]), (bytes ''Host'', [3 :: byte])] []) = Some (bytes ''Host'', [3])"
    by code_simp
  moreover have "\<forall>(k, v)\<in>set [(bytes ''Host'', [1]), (bytes ''Via'', [2]), (bytes ''Host'', [3 :: byte])]. 0 \<notin> set k \<and> 0 \<notin> set v"
    by code_simp
  moreover have "pool_blocks [] = {}" by (simp add: pool_blocks_def)
  ultimately show ?thesis
    using array_lookup_last_added [of 2 "[]" "[(bytes ''Host'', [1]), (bytes ''Via'', [2]), (bytes ''Host'', [3])]" "[]" "bytes ''HOST''"] by force
qed

definition property_run :: "(byte list \<times> 'v option) list \<Rightarrow> 'v array_state \<Rightarrow> 'v array_state option" where
  "property_run = keyed_table.run ape_set_property ape_array_delete"

text \<open>After any sequence of properties added and deleted, on an array of any size, no memory is
  misused and every key has exactly the last pointer stored under it, or none.\<close>

theorem property_last_value:
  assumes "0 < n" "pool_blocks h = {}"
  shows "\<exists>st. property_run ops (ape_array_new n h bufs) = Some st \<and> array_inv st \<and>
    (\<forall>k. ape_property k st = Some (last_value (=) ops k))"
proof -
  note r = array_new_rep [OF assms, of bufs]
  have "array_inv (ape_array_new n h bufs)" using r by (auto simp: array_inv_def)
  moreover have "ape_property k (ape_array_new n h bufs) = Some None" for k
    using array_lookups(2) [OF conjunct1 [OF r]] by (simp add: ape_property_def array_val_none)
  ultimately show ?thesis unfolding property_run_def by (intro property_table.run_values) simp_all
qed

lemma property_last_value_witness:
  "\<exists>st. property_run [([1], Some (7 :: nat)), ([2], Some 8), ([1], None), ([2], Some 9)] (ape_array_new 1 [] []) = Some st \<and>
    ape_property [1] st = Some None \<and> ape_property [2] st = Some (Some 9)"
proof -
  have "last_value (=) [([1], Some (7 :: nat)), ([2], Some 8), ([1], None), ([2], Some 9)] [1 :: byte] = None"
    "last_value (=) [([1], Some (7 :: nat)), ([2], Some 8), ([1], None), ([2], Some 9)] [2 :: byte] = Some 9"
    by (simp_all add: last_value_def)
  moreover have "pool_blocks [] = {}" by (simp add: pool_blocks_def)
  ultimately show ?thesis
    using property_last_value [of 1 "[]" "[([1], Some (7 :: nat)), ([2], Some 8), ([1], None), ([2], Some 9)]" "[]"] by fastforce
qed

text \<open>\<open>ape_array_destroy\<close> frees all the cells, but calls its cleaner only for the first cell of each
  block: the key and the value of every item in another cell stay allocated for ever.\<close>

theorem array_destroy_leaks:
  assumes "array_inv st" "pool_get (as_cells st) a = Some c" "ai_used c" "snd a \<noteq> 0"
  shows "\<exists>h bufs ka. ape_array_destroy st = Some (h, bufs) \<and> pool_blocks h = {} \<and>
    ai_key c = Some ka \<and> buf_get bufs ka = buf_get (as_bufs st) ka \<and> buf_get bufs ka \<noteq> None \<and>
    (\<forall>v. pl_ptr c = Some (Ptr_Buf v) \<longrightarrow> buf_get bufs v = buf_get (as_bufs st) v \<and> buf_get bufs v \<noteq> None)"
proof -
  obtain bs \<sigma> where r: "array_rep {} st bs \<sigma>" using assms(1) by (auto simp: array_inv_def)
  have "a \<in> set (cells_of bs)" using pool_okD(5) [OF array_repD(1) [OF r], of a] assms(2) by simp
  then have c: "item_rep (buf_get (as_bufs st)) c (\<sigma> a)" using array_repD(3) [OF r, of a] assms(2) by auto
  then obtain k ka p where s: "\<sigma> a = Some (k, ka, p)" using ai_used_rep [OF c] assms(3) by auto
  obtain h bufs where d: "ape_array_destroy st = Some (h, bufs)" "pool_blocks h = {}"
    "buf_get bufs = buf_without (\<Union>b\<in>pool_blocks (as_cells st). slot_owns (\<sigma> (b, 0))) (as_bufs st)"
    using array_destroy_rep [OF r] by blast
  have keep: "buf_get bufs x = buf_get (as_bufs st) x" if "x \<in> slot_owns (\<sigma> a)" for x
  proof -
    have "x \<notin> slot_owns (\<sigma> (b, 0))" for b using array_repD(5) [OF r, of a "(b, 0)"] that assms(4) by (cases a) auto
    then show ?thesis by (auto simp: d(3) buf_without_def)
  qed
  from c s have k: "ai_key c = Some ka" "pl_ptr c = p" by (simp_all add: item_rep_def)
  have "buf_get bufs ka = buf_get (as_bufs st) ka" "buf_get (as_bufs st) ka \<noteq> None"
    using keep [of ka] slot_owns_live [OF r, of ka a] s by simp_all
  moreover have "buf_get bufs v = buf_get (as_bufs st) v \<and> buf_get bufs v \<noteq> None" if "p = Some (Ptr_Buf v)" for v
    using keep [of v] slot_owns_live [OF r, of v a] s that by simp
  ultimately show ?thesis using d(1,2) k by metis
qed

lemma array_destroy_leaks_witness:
  "\<exists>st h bufs. array_adds [([1], [5]), ([2], [6])] (ape_array_new 4 [] [] :: nat array_state) = Some st \<and>
    ape_array_destroy st = Some (h, bufs) \<and> pool_blocks h = {} \<and> buf_get bufs 2 \<noteq> None \<and> buf_get bufs 3 \<noteq> None"
proof -
  let ?st = "the (array_adds [([1], [5]), ([2], [6])] (ape_array_new 4 [] [] :: nat array_state))"
  have p: "pool_blocks ([] :: nat array_heap) = {}" by (simp add: pool_blocks_def)
  have z: "\<forall>(k, v)\<in>set [([1], [5]), ([2], [6 :: byte])]. (0 :: byte) \<notin> set k \<and> 0 \<notin> set v" by code_simp
  obtain st where st: "array_adds [([1], [5]), ([2], [6])] (ape_array_new 4 [] [] :: nat array_state) = Some st" "array_inv st"
    using array_adds_table [OF array_table_new [OF _ p, of 4 "[]"] z] by (auto simp: array_table_def array_inv_def)
  have c: "map_option (\<lambda>c. (ai_used c, ai_key c, pl_ptr c)) (pool_get (as_cells ?st) (0, 1)) = Some (True, Some 2, Some (Ptr_Buf 3))"
    by code_simp
  obtain c where "pool_get (as_cells st) (0, 1) = Some c" "ai_used c" "ai_key c = Some 2" "pl_ptr c = Some (Ptr_Buf 3)"
    using c st(1) by auto
  with array_destroy_leaks [OF st(2), of "(0, 1)" c] st(1) show ?thesis by auto
qed

end
