(* ===== verification/Base64.thy ===== *)
theory Base64
  imports Ape_Prelude
begin

text \<open>
  \<^verbatim>\<open>src/core/ape_base64.c\<close>: the encoder, a bit stream that emits one character as soon as six bits
  are pending, and the decoder with its table. The reference is the encoding of RFC 4648 by groups
  of three bytes.
\<close>

section \<open>The code\<close>

definition base64_alphabet :: "byte list" where
  "base64_alphabet = bytes ''ABCDEFGHIJKLMNOPQRSTUVWXYZabcdefghijklmnopqrstuvwxyz0123456789+/''"

text \<open>
  The inner \<open>do \<dots> while\<close>: \<open>bits\<close> is \<open>i_bits\<close>, \<open>shift\<close> is \<open>i_shift\<close>, \<open>final\<close> says that no byte
  remains. It returns the characters it writes and the final shift.
\<close>

function base64_emit :: "u32 \<Rightarrow> int \<Rightarrow> bool \<Rightarrow> byte list \<times> int" where
  "base64_emit bits shift final =
     (let c = base64_alphabet ! unat (drop_bit (nat shift) (push_bit 6 bits) AND 0x3F);
          shift = shift - 6
      in if 6 < shift \<or> final \<and> 0 < shift
         then (case base64_emit bits shift final of (cs, shift) \<Rightarrow> (c # cs, shift))
         else ([c], shift))"
  by auto
termination by (relation "measure (\<lambda>(_, shift, _). nat shift)") auto

declare base64_emit.simps [simp del]

fun base64_loop :: "u32 \<Rightarrow> int \<Rightarrow> byte list \<Rightarrow> byte list" where
  "base64_loop bits shift [] = []"
| "base64_loop bits shift (b # bs) =
     (let bits = push_bit 8 bits + ucast b;
          (cs, shift) = base64_emit bits (shift + 8) (bs = [])
      in cs @ base64_loop bits shift bs)"

text \<open>The padding loop, and the string written to \<open>dst\<close> (its terminator is not listed).\<close>

function base64_pad :: "byte list \<Rightarrow> byte list" where
  "base64_pad dst = (if length dst mod 4 \<noteq> 0 then base64_pad (dst @ [61]) else dst)"
  by auto
termination by (relation "measure (\<lambda>dst. 3 - (length dst + 3) mod 4)") (auto, presburger)

declare base64_pad.simps [simp del]

definition base64_encode_b :: "byte list \<Rightarrow> byte list" where
  "base64_encode_b src = (if src \<noteq> [] then base64_pad (base64_loop 0 0 src) else [])"

text \<open>The bytes \<open>base64_encode\<close> allocates for its result.\<close>

definition base64_encode_size :: "nat \<Rightarrow> nat" where
  "base64_encode_size len = len * 4 div 3 + 12"

definition base64_encode :: "byte list \<Rightarrow> byte list" where
  "base64_encode src = base64_encode_b src"

definition base64_map2 :: "byte list" where
  "base64_map2 =
    [0x3e, 0xff, 0xff, 0xff, 0x3f, 0x34, 0x35, 0x36,
     0x37, 0x38, 0x39, 0x3a, 0x3b, 0x3c, 0x3d, 0xff,
     0xff, 0xff, 0xff, 0xff, 0xff, 0xff, 0x00, 0x01,
     0x02, 0x03, 0x04, 0x05, 0x06, 0x07, 0x08, 0x09,
     0x0a, 0x0b, 0x0c, 0x0d, 0x0e, 0x0f, 0x10, 0x11,
     0x12, 0x13, 0x14, 0x15, 0x16, 0x17, 0x18, 0x19,
     0xff, 0xff, 0xff, 0xff, 0xff, 0xff, 0x1a, 0x1b,
     0x1c, 0x1d, 0x1e, 0x1f, 0x20, 0x21, 0x22, 0x23,
     0x24, 0x25, 0x26, 0x27, 0x28, 0x29, 0x2a, 0x2b,
     0x2c, 0x2d, 0x2e, 0x2f, 0x30, 0x31, 0x32, 0x33]"

text \<open>
  The decoder reads a C string: the list ends at its terminator. The characters are of type
  \<open>char\<close>, so those from 128 on are negative and their index exceeds the table, as does that of a
  character below 43. The accumulator is an \<open>int\<close> of which only the low twelve bits are ever used;
  it is kept at its width and wraps. \<open>None\<close> is the result -1.
\<close>

fun base64_decode_loop :: "nat \<Rightarrow> u32 \<Rightarrow> byte list \<Rightarrow> nat \<Rightarrow> byte list \<Rightarrow> byte list option" where
  "base64_decode_loop i v [] out_length dst = Some dst"
| "base64_decode_loop i v (c # cs) out_length dst =
     (if c = 0 \<or> c = 61 then Some dst
      else
        let index = (scast c :: u32) - 43 in
        if length base64_map2 \<le> unat index \<or> base64_map2 ! unat index = 0xff then None
        else
          let v = push_bit 6 v + ucast (base64_map2 ! unat index) in
          base64_decode_loop (i + 1) v cs out_length
            (if i mod 4 \<noteq> 0 \<and> length dst < out_length
             then dst @ [ucast (drop_bit (6 - 2 * (i mod 4)) v)] else dst))"

definition base64_decode :: "byte list \<Rightarrow> nat \<Rightarrow> byte list option" where
  "base64_decode inp out_length = base64_decode_loop 0 0 inp out_length []"

section \<open>RFC 4648\<close>

definition b64_char :: "nat \<Rightarrow> byte" where
  "b64_char n = base64_alphabet ! n"

fun rfc_base64_chars :: "nat list \<Rightarrow> byte list" where
  "rfc_base64_chars [] = []"
| "rfc_base64_chars [a] = [b64_char (a div 4), b64_char (a mod 4 * 16)]"
| "rfc_base64_chars [a, b] =
     [b64_char (a div 4), b64_char (a mod 4 * 16 + b div 16), b64_char (b mod 16 * 4)]"
| "rfc_base64_chars (a # b # c # bs) =
     b64_char (a div 4) # b64_char (a mod 4 * 16 + b div 16) #
     b64_char (b mod 16 * 4 + c div 64) # b64_char (c mod 64) # rfc_base64_chars bs"

definition rfc_base64 :: "byte list \<Rightarrow> byte list" where
  "rfc_base64 bs =
     rfc_base64_chars (map unat bs) @ replicate ((3 - length bs mod 3) mod 3) 61"

section \<open>The bit stream\<close>

lemma emit_index:
  assumes "0 < s" "s \<le> 26"
  shows "unat (drop_bit s (push_bit 6 bits) AND 0x3F :: u32) = (unat bits mod 2 ^ s) * 64 div 2 ^ s"
proof -
  have "(0x3F :: u32) = mask 6" by (simp add: mask_eq_exp_minus_1)
  then have "drop_bit s (push_bit 6 bits) AND 0x3F = take_bit 6 (drop_bit s (push_bit 6 bits))"
    by (simp add: take_bit_eq_mask)
  also have "unat \<dots> = take_bit 6 (drop_bit s (take_bit 32 (push_bit 6 (unat bits))))"
    by (simp add: unsigned_take_bit_eq unat_drop_bit_eq unsigned_push_bit_eq)
  also have "\<dots> = drop_bit s (push_bit 6 (take_bit s (unat bits)))"
    by (rule bit_eqI) (use assms in \<open>auto simp: bit_simps\<close>)
  finally show ?thesis
    by (simp add: drop_bit_eq_div push_bit_eq_mult take_bit_eq_mod)
qed

lemma or_push_bit_plus_nat: "x < 2 ^ k \<Longrightarrow> push_bit k y OR x = push_bit k y + (x :: nat)"
proof -
  assume x: "x < 2 ^ k"
  have "\<not> bit x n" if "k \<le> n" for n
    using x that by (metis bit_take_bit_iff leD take_bit_nat_eq_self)
  then have "push_bit k y AND x = 0" by (intro bit_eqI) (auto simp: bit_simps)
  then show ?thesis by (simp add: disjunctive_add_eq_or)
qed

lemma byte_in:
  assumes "k \<le> 24"
  shows "unat (push_bit 8 bits + ucast (b :: byte) :: u32) mod 2 ^ (k + 8) = unat bits mod 2 ^ k * 256 + unat b"
proof -
  have "push_bit 8 bits + ucast b = push_bit 8 bits OR (ucast b :: u32)"
    by (rule or_push_bit_plus [symmetric]) (simp add: unsigned_ucast_eq take_bit_eq_mod
        less_le_trans [OF le_less_trans [OF mod_less_eq_dividend unsigned_less]])
  then have "unat (push_bit 8 bits + ucast b :: u32) mod 2 ^ (k + 8) =
      take_bit (k + 8) (unat (push_bit 8 bits OR (ucast b :: u32)))"
    by (simp add: take_bit_eq_mod)
  also have "\<dots> = push_bit 8 (take_bit k (unat bits)) OR unat b"
    by (rule bit_eqI) (use assms in \<open>auto simp: bit_simps dest: bit_imp_le_length\<close>)
  also have "\<dots> = push_bit 8 (take_bit k (unat bits)) + unat b"
    by (rule or_push_bit_plus_nat) (use unsigned_less [of b] in simp)
  finally show ?thesis by (simp add: push_bit_eq_mult take_bit_eq_mod)
qed

text \<open>One round of the inner loop for each number of pending bits.\<close>

lemma emit_char:
  "0 < s \<Longrightarrow> s \<le> 26 \<Longrightarrow>
   base64_alphabet ! unat (drop_bit s (push_bit 6 bits) AND 0x3F :: u32) =
     b64_char ((unat bits mod 2 ^ s) * 64 div 2 ^ s)"
  by (simp only: emit_index b64_char_def)

lemma emit_more:
  "base64_emit bits 8 False = ([b64_char (unat bits mod 256 div 4)], 2)"
  "base64_emit bits 10 False = ([b64_char (unat bits mod 1024 div 16)], 4)"
  "base64_emit bits 12 False = ([b64_char (unat bits mod 4096 div 64)], 6)"
  "base64_emit bits 14 False = ([b64_char (unat bits mod 16384 div 256), b64_char (unat bits mod 256 div 4)], 2)"
  using emit_char [of 8 bits] emit_char [of 10 bits] emit_char [of 12 bits] emit_char [of 14 bits]
    div_mult2_eq [of _ 64, symmetric]
  by (simp_all add: base64_emit.simps Let_def mult.commute)

lemma emit_last:
  "base64_emit bits 2 True = ([b64_char (unat bits mod 4 * 16)], -4)"
  "base64_emit bits 4 True = ([b64_char (unat bits mod 16 * 4)], -2)"
  "base64_emit bits 6 True = ([b64_char (unat bits mod 64)], 0)"
  "base64_emit bits 8 True = ([b64_char (unat bits mod 256 div 4), b64_char (unat bits mod 4 * 16)], -4)"
  "base64_emit bits 10 True = ([b64_char (unat bits mod 1024 div 16), b64_char (unat bits mod 16 * 4)], -2)"
  "base64_emit bits 12 True = ([b64_char (unat bits mod 4096 div 64), b64_char (unat bits mod 64)], 0)"
  "base64_emit bits 14 True =
     ([b64_char (unat bits mod 16384 div 256), b64_char (unat bits mod 256 div 4), b64_char (unat bits mod 4 * 16)], -4)"
  using emit_char [of 2 bits] emit_char [of 4 bits] emit_char [of 6 bits] emit_char [of 8 bits]
    emit_char [of 10 bits] emit_char [of 12 bits] emit_char [of 14 bits]
  by (simp_all add: base64_emit.simps Let_def mult.commute)

text \<open>The pending bits after a byte has come in.\<close>

lemma byte_mods:
  fixes b :: byte and bits :: u32
  obtains bits' :: u32 where "bits' = push_bit 8 bits + ucast b"
    "unat bits' mod 256 = unat b" "unat bits' mod 4 = unat b mod 4" "unat bits' mod 16 = unat b mod 16"
    "unat bits' mod 64 = unat b mod 64"
    "unat bits' mod 1024 = unat bits mod 4 * 256 + unat b"
    "unat bits' mod 4096 = unat bits mod 16 * 256 + unat b"
    "unat bits' mod 16384 = unat bits mod 64 * 256 + unat b"
proof -
  obtain w where w: "w = push_bit 8 bits + (ucast b :: u32)" by simp
  have m: "unat w mod 256 = unat b" using byte_in [of 0 bits b] by (simp add: w)
  have d: "unat w mod k = unat b mod k" if "k dvd 256" for k
    unfolding m [symmetric] using that by (simp only: mod_mod_cancel)
  have "unat w mod 1024 = unat bits mod 4 * 256 + unat b" "unat w mod 4096 = unat bits mod 16 * 256 + unat b"
    "unat w mod 16384 = unat bits mod 64 * 256 + unat b"
    using byte_in [of 2 bits b] byte_in [of 4 bits b] byte_in [of 6 bits b] by (simp_all add: w)
  from that [OF w m d d d this] show thesis by simp
qed

lemma base64_loop_chars:
  "bs \<noteq> [] \<Longrightarrow>
   base64_loop bits 0 bs = rfc_base64_chars (map unat bs) \<and>
   base64_loop bits 6 bs = b64_char (unat bits mod 64) # rfc_base64_chars (map unat bs)"
proof (induction "length bs" arbitrary: bits bs rule: less_induct)
  case less
  obtain a as where bs: "bs = a # as" using less.prems by (cases bs) auto
  obtain w1 :: u32 where w1: "w1 = push_bit 8 bits + ucast a"
    "unat w1 mod 256 = unat a" "unat w1 mod 4 = unat a mod 4" "unat w1 mod 16 = unat a mod 16"
    "unat w1 mod 64 = unat a mod 64" "unat w1 mod 1024 = unat bits mod 4 * 256 + unat a"
    "unat w1 mod 4096 = unat bits mod 16 * 256 + unat a"
    "unat w1 mod 16384 = unat bits mod 64 * 256 + unat a"
    by (rule byte_mods)
  note ev = Let_def emit_more emit_last
  have ab: "unat x < 256" for x :: byte using unsigned_less [of x] by simp
  have hi: "(k * 256 + unat x) div 256 = k" for k and x :: byte using ab [of x] by simp
  show ?case
  proof (cases as)
    case Nil
    then show ?thesis by (simp add: bs ev w1(1) [symmetric] w1(2-) hi)
  next
    case 2: (Cons b as')
    obtain w2 :: u32 where w2: "w2 = push_bit 8 w1 + ucast b"
      "unat w2 mod 256 = unat b" "unat w2 mod 4 = unat b mod 4" "unat w2 mod 16 = unat b mod 16"
      "unat w2 mod 64 = unat b mod 64" "unat w2 mod 1024 = unat w1 mod 4 * 256 + unat b"
      "unat w2 mod 4096 = unat w1 mod 16 * 256 + unat b"
      "unat w2 mod 16384 = unat w1 mod 64 * 256 + unat b"
      by (rule byte_mods)
    have d16: "(k * 256 + unat b) div 16 = k * 16 + unat b div 16" for k
      using div_mult_self3 [of 16 "k * 16" "unat b"] by (simp add: algebra_simps)
    show ?thesis
    proof (cases as')
      case Nil
      then show ?thesis
        by (simp add: bs 2 ev w1(1) [symmetric] w2(1) [symmetric] w1(2-) w2(2-) hi d16)
    next
      case 3: (Cons c cs)
      obtain w3 :: u32 where w3: "w3 = push_bit 8 w2 + ucast c"
        "unat w3 mod 256 = unat c" "unat w3 mod 4 = unat c mod 4" "unat w3 mod 16 = unat c mod 16"
        "unat w3 mod 64 = unat c mod 64" "unat w3 mod 1024 = unat w2 mod 4 * 256 + unat c"
        "unat w3 mod 4096 = unat w2 mod 16 * 256 + unat c"
        "unat w3 mod 16384 = unat w2 mod 64 * 256 + unat c"
        by (rule byte_mods)
      have d64: "(k * 256 + unat c) div 64 = k * 4 + unat c div 64" for k
        using div_mult_self3 [of 64 "k * 4" "unat c"] by (simp add: algebra_simps)
      show ?thesis
      proof (cases "cs = []")
        case True
        then show ?thesis
          by (simp add: bs 2 3 ev w1(1) [symmetric] w2(1) [symmetric] w3(1) [symmetric] w1(2-) w2(2-) w3(2-)
              hi d16 d64)
      next
        case False
        have "base64_loop w3 6 cs = b64_char (unat w3 mod 64) # rfc_base64_chars (map unat cs)"
          using less.hyps [of cs w3] False by (simp add: bs 2 3)
        then show ?thesis
          using False by (simp add: bs 2 3 ev w1(1) [symmetric] w2(1) [symmetric] w3(1) [symmetric]
              w1(2-) w2(2-) w3(2-) hi d16 d64)
      qed
    qed
  qed
qed

lemma length_rfc_chars: "length (rfc_base64_chars ns) = (4 * length ns + 2) div 3"
  by (induction ns rule: rfc_base64_chars.induct) simp_all

lemma pad_count: "n mod 4 \<noteq> 0 \<Longrightarrow> (4 - n mod 4) mod 4 = Suc ((4 - Suc n mod 4) mod 4)" for n :: nat
proof -
  assume n: "n mod 4 \<noteq> 0"
  obtain r where r: "n mod 4 = r" "r < 4" by simp
  have "Suc n mod 4 = Suc r mod 4" using r(1) mod_Suc_eq [of n 4] by simp
  moreover have "r = 1 \<or> r = 2 \<or> r = 3" using r n by linarith
  ultimately show ?thesis using r by (elim disjE) simp_all
qed

lemma base64_pad_replicate:
  "base64_pad dst = dst @ replicate ((4 - length dst mod 4) mod 4) 61"
proof (induction dst rule: base64_pad.induct)
  case (1 dst)
  show ?case
  proof (cases "length dst mod 4 = 0")
    case True
    then show ?thesis by (simp add: base64_pad.simps [of dst])
  next
    case False
    with 1 pad_count [OF False] show ?thesis by (simp add: base64_pad.simps [of dst])
  qed
qed

lemma pad_lengths:
  fixes n :: nat
  shows "(4 - (4 * n + 2) div 3 mod 4) mod 4 = (3 - n mod 3) mod 3"
    and "(4 * n + 2) div 3 + (3 - n mod 3) mod 3 = 4 * ((n + 2) div 3)"
proof -
  obtain q r where n: "n = 3 * q + r" "r < 3" by (metis mult_div_mod_eq mod_less_divisor zero_less_numeral)
  then have r: "r = 0 \<or> r = 1 \<or> r = 2" by linarith
  have e: "(4 * n + 2) div 3 = 4 * q + (4 * r + 2) div 3" "(n + 2) div 3 = q + (r + 2) div 3" "n mod 3 = r"
    using div_mult_self2 [of 3 "4 * r + 2" "4 * q"] div_mult_self2 [of 3 "r + 2" q] n
    by (simp_all add: algebra_simps)
  show "(4 - (4 * n + 2) div 3 mod 4) mod 4 = (3 - n mod 3) mod 3"
    "(4 * n + 2) div 3 + (3 - n mod 3) mod 3 = 4 * ((n + 2) div 3)"
    unfolding e using r by (auto simp: div_mult_self2)
qed

lemma base64_encode_b_rfc: "base64_encode_b src = rfc_base64 src"
proof (cases "src = []")
  case False
  then have "base64_loop 0 0 src = rfc_base64_chars (map unat src)" by (simp add: base64_loop_chars)
  with False show ?thesis
    by (simp only: base64_encode_b_def base64_pad_replicate rfc_base64_def length_rfc_chars length_map
        pad_lengths(1)) simp
qed (simp add: base64_encode_b_def rfc_base64_def)

lemma length_rfc_base64: "length (rfc_base64 src) = 4 * ((length src + 2) div 3)"
  using pad_lengths(2) [of "length src"] by (simp add: rfc_base64_def length_rfc_chars)

section \<open>Decoding\<close>

lemma base64_alphabet_eq: "base64_alphabet = [65,66,67,68,69,70,71,72,73,74,75,76,77,78,79,80,81,82,83,84,85,86,87,88,89,90,97,98,99,100,101,102,103,104,105,106,107,108,109,110,111,112,113,114,115,116,117,118,119,120,121,122,48,49,50,51,52,53,54,55,56,57,43,47]"
  by (simp add: base64_alphabet_def)
lemma upt_64: "[0..<64] = [0, 1, 2, 3, 4, 5, 6, 7, 8, 9, 10, 11, 12, 13, 14, 15,
    16, 17, 18, 19, 20, 21, 22, 23, 24, 25, 26, 27, 28, 29, 30, 31,
    32, 33, 34, 35, 36, 37, 38, 39, 40, 41, 42, 43, 44, 45, 46, 47,
    48, 49, 50, 51, 52, 53, 54, 55, 56, 57, 58, 59, 60, 61, 62, 63]"
  by (simp add: upt_rec)
lemma base64_alphabet_inverse: "list_all (\<lambda>n. 43 \<le> unat (base64_alphabet ! n) \<and> unat (base64_alphabet ! n) < 123 \<and>
   unat (base64_alphabet ! n) \<noteq> 61 \<and> unat (base64_map2 ! (unat (base64_alphabet ! n) - 43)) = n) [0..<64]"
  unfolding base64_alphabet_eq base64_map2_def upt_64 by simp

lemma unat_scast_ascii: "unat c < 128 \<Longrightarrow> unat (scast (c :: byte) :: u32) = unat c"
proof -
  assume c: "unat c < 128"
  then have "\<not> bit (unat c) 7" by (simp add: bit_iff_odd)
  then have 7: "\<not> bit c 7" by (simp add: bit_unsigned_iff)
  have "(scast c :: u32) = ucast c"
  proof (rule bit_word_eqI)
    fix n assume "n < LENGTH(32)"
    then show "bit (scast c :: u32) n = bit (ucast c :: u32) n"
      using 7 by (cases "n < 7"; cases "n = 7") (auto simp: bit_simps min_def dest: bit_imp_le_length)
  qed
  then show ?thesis using c by (simp add: unsigned_ucast_eq take_bit_eq_mod)
qed

lemma base64_char_index:
  assumes "n < 64"
  obtains c where "b64_char n = c" "c \<noteq> 0" "c \<noteq> 61" "unat ((scast c :: u32) - 43) < length base64_map2"
    "base64_map2 ! unat ((scast c :: u32) - 43) = word_of_nat n" "unat (base64_map2 ! unat ((scast c :: u32) - 43)) = n"
proof -
  obtain c where c: "b64_char n = c" "43 \<le> unat c" "unat c < 123" "unat c \<noteq> 61"
    "unat (base64_map2 ! (unat c - 43)) = n"
    using base64_alphabet_inverse assms by (auto simp: list_all_iff b64_char_def)
  have "unat ((scast c :: u32) - 43) = unat c - 43"
    using c by (simp add: unat_scast_ascii unat_sub_if')
  moreover have "c \<noteq> 0" "c \<noteq> 61" using c by auto
  moreover have "length base64_map2 = 80" by (simp add: base64_map2_def)
  ultimately show thesis using that [of c] c by (auto simp: word_unat_eq_iff unat_word_of_nat assms)
qed


text \<open>One character of the encoding: the low twelve bits of the accumulator hold the last two.\<close>

lemma sextet_in:
  assumes "n < 64"
  shows "unat (push_bit 6 v + word_of_nat n :: u32) mod 4096 = unat v mod 64 * 64 + n"
proof -
  have n: "unat (word_of_nat n :: u32) = n" using assms by (intro unat_word_of_nat) simp
  then have "push_bit 6 v + word_of_nat n = push_bit 6 v OR (word_of_nat n :: u32)"
    by (intro or_push_bit_plus [symmetric]) (use assms in simp)
  then have "unat (push_bit 6 v + word_of_nat n :: u32) mod 2 ^ 12 =
      take_bit 12 (take_bit 32 (push_bit 6 (unat v)) OR n)"
    by (simp add: take_bit_eq_mod unsigned_or_eq unsigned_push_bit_eq n)
  also have "\<dots> = push_bit 6 (take_bit 6 (unat v)) OR n"
  proof (rule bit_eqI)
    fix k
    have "take_bit 12 n = n" using assms by (simp add: take_bit_nat_eq_self)
    then have "bit n k \<Longrightarrow> k < 12" by (metis bit_take_bit_iff)
    then show "bit (take_bit 12 (take_bit 32 (push_bit 6 (unat v)) OR n)) k =
        bit (push_bit 6 (take_bit 6 (unat v)) OR n) k"
      by (auto simp: bit_simps)
  qed
  also have "\<dots> = push_bit 6 (take_bit 6 (unat v)) + n"
    by (rule or_push_bit_plus_nat) (use assms in simp)
  finally show ?thesis by (simp add: push_bit_eq_mult take_bit_eq_mod)
qed

definition base64_takes :: "nat \<Rightarrow> u32 \<Rightarrow> u32 \<Rightarrow> bool" where
  "base64_takes n v v' \<longleftrightarrow> unat v' mod 64 = n \<and>
     (\<forall>i cs L dst. base64_decode_loop i v (b64_char n # cs) L dst =
        base64_decode_loop (i + 1) v' cs L
          (if i mod 4 \<noteq> 0 \<and> length dst < L
           then dst @ [word_of_nat ((unat v mod 64 * 64 + n) div 2 ^ (6 - 2 * (i mod 4)) mod 256)] else dst))"

lemma decode_char:
  assumes "n < 64"
  shows "\<exists>v'. base64_takes n v v'"
proof -
  obtain v' where v': "v' = push_bit 6 v + (word_of_nat n :: u32)" by simp
  have m: "unat v' mod 4096 = unat v mod 64 * 64 + n" unfolding v' by (rule sextet_in [OF assms])
  have out: "(ucast (drop_bit s v') :: byte) = word_of_nat ((unat v mod 64 * 64 + n) div 2 ^ s mod 256)"
    if "s \<le> 4" for s
  proof -
    have "(ucast (drop_bit s v') :: byte) = word_of_nat (unat v' div 2 ^ s)"
      using drop_bit_eq_div [of s "unat v'"] unat_drop_bit_eq [of s v'] by (metis of_nat_unat)
    also have "\<dots> = word_of_nat (take_bit 8 (drop_bit s (take_bit 12 (unat v'))))"
    proof -
      have "take_bit 8 (drop_bit s (take_bit 12 (unat v'))) = take_bit 8 (drop_bit s (unat v'))"
        by (rule bit_eqI) (use that in \<open>auto simp: bit_simps\<close>)
      then show ?thesis by (simp add: word_of_nat_eq_iff drop_bit_eq_div)
    qed
    also have "take_bit 8 (drop_bit s (take_bit 12 (unat v'))) = (unat v mod 64 * 64 + n) div 2 ^ s mod 256"
      using m by (simp add: take_bit_eq_mod drop_bit_eq_div)
    finally show ?thesis .
  qed
  obtain c where c: "b64_char n = c" "c \<noteq> 0" "c \<noteq> 61" "unat ((scast c :: u32) - 43) < length base64_map2"
    "base64_map2 ! unat ((scast c :: u32) - 43) = word_of_nat n"
    using base64_char_index [OF assms] by metis
  have ff: "word_of_nat n \<noteq> (0xff :: byte)"
    using assms by (simp add: word_unat_eq_iff unat_word_of_nat)
  have u: "(ucast (word_of_nat n :: byte) :: u32) = word_of_nat n"
    using assms by (intro ucast_word_of_nat) simp
  have "unat v' mod 64 = unat v' mod 4096 mod 64" by (simp add: mod_mod_cancel)
  then have "unat v' mod 64 = n" unfolding m using assms by simp
  moreover have "base64_decode_loop i v (b64_char n # cs) L dst =
      base64_decode_loop (i + 1) v' cs L
        (if i mod 4 \<noteq> 0 \<and> length dst < L
         then dst @ [word_of_nat ((unat v mod 64 * 64 + n) div 2 ^ (6 - 2 * (i mod 4)) mod 256)] else dst)"
    for i cs L dst
  proof -
    have "6 - 2 * (i mod 4) \<le> 4" if "i mod 4 \<noteq> 0" using that by simp
    then show ?thesis
      using c ff by (auto simp: Let_def u v' [symmetric] out not_le)
  qed
  ultimately show ?thesis unfolding base64_takes_def by blast
qed

lemma sextets:
  fixes a b c y :: nat
  shows "y < 16 \<Longrightarrow> (a div 4 * 64 + (a mod 4 * 16 + y)) div 16 = a"
    and "y < 4 \<Longrightarrow> b < 256 \<Longrightarrow> ((a mod 4 * 16 + b div 16) * 64 + (b mod 16 * 4 + y)) div 4 mod 256 = b"
    and "c < 256 \<Longrightarrow> ((b mod 16 * 4 + c div 64) * 64 + c mod 64) mod 256 = c"
proof -
  obtain p q where a: "p = a div 4" "q = a mod 4" "a = p * 4 + q" by (metis div_mult_mod_eq)
  have e: "p * 64 + (q * 16 + y) = a * 16 + y" unfolding a(3) by simp
  show "y < 16 \<Longrightarrow> (a div 4 * 64 + (a mod 4 * 16 + y)) div 16 = a"
    unfolding a(1,2) [symmetric] e by simp
  have div4: "y < 4 \<Longrightarrow> (z * 4 + y) div 4 = z" for y z :: nat by simp
  obtain p q where b: "p = b div 16" "q = b mod 16" "b = p * 16 + q" by (metis div_mult_mod_eq)
  have e: "(x * 16 + p) * 64 + (q * 4 + y) = (x * 256 + b) * 4 + y" for x unfolding b(3) by simp
  show "y < 4 \<Longrightarrow> b < 256 \<Longrightarrow> ((a mod 4 * 16 + b div 16) * 64 + (b mod 16 * 4 + y)) div 4 mod 256 = b"
    unfolding b(1,2) [symmetric] e using div4 [of y "a mod 4 * 256 + b"] by simp
  obtain p q where c: "p = c div 64" "q = c mod 64" "c = p * 64 + q" by (metis div_mult_mod_eq)
  have e: "(x * 4 + p) * 64 + q = x * 256 + c" for x unfolding c(3) by simp
  show "c < 256 \<Longrightarrow> ((b mod 16 * 4 + c div 64) * 64 + c mod 64) mod 256 = c"
    unfolding c(1,2) [symmetric] e by simp
qed

lemma decode_end: "base64_decode_loop i v (replicate k 61) L dst = Some dst"
  by (cases k) simp_all

declare base64_decode_loop.simps(2) [simp del]

lemma decode_first:
  assumes "i mod 4 = 0" "length dst < L" "y < 16"
  obtains v' where "unat v' mod 64 = unat (x :: byte) mod 4 * 16 + y"
    "\<And>cs. base64_decode_loop i v (b64_char (unat x div 4) # b64_char (unat x mod 4 * 16 + y) # cs) L dst =
      base64_decode_loop (i + 2) v' cs L (dst @ [x])"
proof -
  have a: "unat x < 256" using unat_byte [of x] by simp
  then have n: "unat x div 4 < 64" "unat x mod 4 * 16 + y < 64" using assms(3) by simp_all
  have i: "(i + 1) mod 4 = 1" using assms(1) by (simp add: mod_Suc)
  obtain v1 where v1: "base64_takes (unat x div 4) v v1" using decode_char [OF n(1)] by blast
  obtain v2 where v2: "base64_takes (unat x mod 4 * 16 + y) v1 v2" using decode_char [OF n(2)] by blast
  have b: "(unat x div 4 * 64 + (unat x mod 4 * 16 + y)) div 16 mod 256 = unat x"
    using sextets(1) [OF assms(3), of "unat x"] a by simp
  show thesis
  proof (rule that)
    show "unat v2 mod 64 = unat x mod 4 * 16 + y" using v2 by (simp add: base64_takes_def)
  next
    fix cs
    have "base64_decode_loop i v (b64_char (unat x div 4) # b64_char (unat x mod 4 * 16 + y) # cs) L dst =
        base64_decode_loop (i + 1) v1 (b64_char (unat x mod 4 * 16 + y) # cs) L dst"
      using v1 assms(1) by (simp add: base64_takes_def)
    also have "\<dots> = base64_decode_loop (i + 1 + 1) v2 cs L (dst @ [word_of_nat (unat x)])"
      using v2 i v1 assms(2) b by (simp add: base64_takes_def)
    finally show "base64_decode_loop i v (b64_char (unat x div 4) # b64_char (unat x mod 4 * 16 + y) # cs) L dst =
        base64_decode_loop (i + 2) v2 cs L (dst @ [x])" by simp
  qed
qed

lemma decode_second:
  assumes "i mod 4 = 2" "length dst < L" "y < 4" "unat v mod 64 = a mod 4 * 16 + unat (x :: byte) div 16"
  obtains v' where "unat v' mod 64 = unat x mod 16 * 4 + y"
    "\<And>cs. base64_decode_loop i v (b64_char (unat x mod 16 * 4 + y) # cs) L dst =
      base64_decode_loop (i + 1) v' cs L (dst @ [x])"
proof -
  have b: "unat x < 256" using unat_byte [of x] by simp
  then have n: "unat x mod 16 * 4 + y < 64" using assms(3) by simp
  obtain v1 where v1: "base64_takes (unat x mod 16 * 4 + y) v v1" using decode_char [OF n] by blast
  show thesis
    by (rule that [of v1]) (use v1 assms sextets(2) [OF assms(3) b, of a] in \<open>simp_all add: base64_takes_def\<close>)
qed

lemma decode_third:
  assumes "i mod 4 = 3" "length dst < L" "unat v mod 64 = b mod 16 * 4 + unat (x :: byte) div 64"
  obtains v' where
    "\<And>cs. base64_decode_loop i v (b64_char (unat x mod 64) # cs) L dst =
      base64_decode_loop (i + 1) v' cs L (dst @ [x])"
proof -
  have c: "unat x < 256" using unat_byte [of x] by simp
  have n: "unat x mod 64 < 64" by simp
  obtain v1 where v1: "base64_takes (unat x mod 64) v v1" using decode_char [OF n] by blast
  show thesis
    by (rule that [of v1]) (use v1 assms sextets(3) [OF c, of b] in \<open>simp_all add: base64_takes_def\<close>)
qed

lemma base64_decode_chars:
  "i mod 4 = 0 \<Longrightarrow> length dst + length bs \<le> L \<Longrightarrow>
   base64_decode_loop i v (rfc_base64_chars (map unat bs) @ replicate k 61) L dst = Some (dst @ bs)"
proof (induction "length bs" arbitrary: i v dst bs rule: less_induct)
  case less
  consider "bs = []" | x where "bs = [x]" | x y where "bs = [x, y]" | x y z cs where "bs = x # y # z # cs"
    by (metis list.exhaust)
  then show ?case
  proof cases
    case 1
    then show ?thesis by (simp add: decode_end)
  next
    case (2 x)
    obtain v1 where "base64_decode_loop i v (b64_char (unat x div 4) # b64_char (unat x mod 4 * 16 + 0) # cs) L dst =
        base64_decode_loop (i + 2) v1 cs L (dst @ [x])" for cs
      by (rule decode_first [of i dst L 0 x v]) (use less.prems 2 in auto)
    then show ?thesis by (simp add: 2 decode_end)
  next
    case (3 x y)
    have y: "unat y div 16 < 16" using unat_byte [of y] by simp
    obtain v1 where v1: "unat v1 mod 64 = unat x mod 4 * 16 + unat y div 16"
      "base64_decode_loop i v (b64_char (unat x div 4) # b64_char (unat x mod 4 * 16 + unat y div 16) # cs) L dst =
        base64_decode_loop (i + 2) v1 cs L (dst @ [x])" for cs
      by (rule decode_first [of i dst L "unat y div 16" x v]) (use less.prems 3 y in auto)
    have "(i + 2) mod 4 = 2" using less.prems(1) by (simp add: mod_Suc)
    then obtain v2 where "base64_decode_loop (i + 2) v1 (b64_char (unat y mod 16 * 4 + 0) # cs) L (dst @ [x]) =
        base64_decode_loop (i + 2 + 1) v2 cs L ((dst @ [x]) @ [y])" for cs
      by (rule decode_second [of "i + 2" "dst @ [x]" L 0 v1 "unat x" y]) (use less.prems 3 v1 in auto)
    with v1(2) show ?thesis by (simp add: 3 decode_end)
  next
    case (4 x y z cs)
    have y: "unat y div 16 < 16" "unat z div 64 < 4"
      using unat_byte [of y] unat_byte [of z] by simp_all
    obtain v1 where v1: "unat v1 mod 64 = unat x mod 4 * 16 + unat y div 16"
      "base64_decode_loop i v (b64_char (unat x div 4) # b64_char (unat x mod 4 * 16 + unat y div 16) # cs) L dst =
        base64_decode_loop (i + 2) v1 cs L (dst @ [x])" for cs
      by (rule decode_first [of i dst L "unat y div 16" x v]) (use less.prems 4 y in auto)
    have i: "(i + 2) mod 4 = 2" "(i + 2 + 1) mod 4 = 3" "(i + 2 + 1 + 1) mod 4 = 0"
      using less.prems(1) by presburger+
    obtain v2 where v2: "unat v2 mod 64 = unat y mod 16 * 4 + unat z div 64"
      "base64_decode_loop (i + 2) v1 (b64_char (unat y mod 16 * 4 + unat z div 64) # cs) L (dst @ [x]) =
        base64_decode_loop (i + 2 + 1) v2 cs L ((dst @ [x]) @ [y])" for cs
      by (rule decode_second [of "i + 2" "dst @ [x]" L "unat z div 64" v1 "unat x" y])
        (use less.prems 4 v1 i y in auto)
    obtain v3 where v3: "base64_decode_loop (i + 2 + 1) v2 (b64_char (unat z mod 64) # cs) L (dst @ [x, y]) =
        base64_decode_loop (i + 2 + 1 + 1) v3 cs L ((dst @ [x, y]) @ [z])" for cs
      by (rule decode_third [of "i + 2 + 1" "dst @ [x, y]" L v2 "unat y" z]) (use less.prems 4 v2 i in auto)
    have "base64_decode_loop (i + 2 + 1 + 1) v3 (rfc_base64_chars (map unat cs) @ replicate k 61) L (dst @ [x, y, z]) =
        Some ((dst @ [x, y, z]) @ cs)"
      by (rule less.hyps) (use less.prems 4 i in auto)
    then show ?thesis using v1(2) v2(2) v3 by (simp add: 4)
  qed
qed

section \<open>Properties\<close>




end
