(* ===== verification/Json_Parser.thy ===== *)
theory Json_Parser
  imports Ape_Prelude
begin

text \<open>
  The streaming JSON parser, src/core/JSON_parser.c and .h: a table-driven automaton over one
  character at a time, with a stack of modes, a parse buffer that collects the current token, and
  a client callback. The enums and the two tables are the source's, entry by entry; \<open>JGo s\<close> is an
  entry \<open>>= 0\<close>, \<open>JAct a\<close> an action and \<open>JX\<close> the error code.

  Memory. The stack and the buffer are lists: \<open>jp_stack\<close> is stack[top], ..., stack[0], so that
  \<open>top\<close> is its length minus one; \<open>jp_buf\<close> is the first parse_buffer_count bytes of the buffer
  (the terminator behind them is implicit). An access outside the allocated array, like a failed
  \<open>assert\<close>, is the verdict \<open>Abort\<close>. Whether an allocation succeeds is an argument of the model,
  asked with the reason string and the size the source passes.

  The callback is a function of the client's context, which the parser carries along, and of the
  event; it answers with the new context and whether to go on. \<open>strtod\<close> is not evaluated: the
  value of a floating point event is the text given to it.
\<close>

section \<open>Tables\<close>

datatype json_error =
    JSON_E_NONE | JSON_E_INVALID_CHAR | JSON_E_INVALID_KEYWORD |
    JSON_E_INVALID_ESCAPE_SEQUENCE | JSON_E_INVALID_UNICODE_SEQUENCE | JSON_E_INVALID_NUMBER |
    JSON_E_NESTING_DEPTH_REACHED | JSON_E_UNBALANCED_COLLECTION | JSON_E_EXPECTED_KEY |
    JSON_E_EXPECTED_COLON | JSON_E_OUT_OF_MEMORY

datatype json_type =
    JSON_T_NONE | JSON_T_ARRAY_BEGIN | JSON_T_ARRAY_END | JSON_T_OBJECT_BEGIN |
    JSON_T_OBJECT_END | JSON_T_INTEGER | JSON_T_FLOAT | JSON_T_NULL | JSON_T_TRUE |
    JSON_T_FALSE | JSON_T_STRING | JSON_T_KEY

datatype json_class =
    JC_SPACE | JC_WHITE | JC_LCURB | JC_RCURB | JC_LSQRB | JC_RSQRB | JC_COLON | JC_COMMA |
    JC_QUOTE | JC_BACKS | JC_SLASH | JC_PLUS | JC_MINUS | JC_POINT | JC_ZERO | JC_DIGIT |
    JC_LOW_A | JC_LOW_B | JC_LOW_C | JC_LOW_D | JC_LOW_E | JC_LOW_F | JC_LOW_L | JC_LOW_N |
    JC_LOW_R | JC_LOW_S | JC_LOW_T | JC_LOW_U | JC_ABCDF | JC_E | JC_ETC | JC_STAR

datatype json_state =
    J_GO | J_OK | J_OB | J_KE | J_CO | J_VA | J_AR | J_ST | J_ES | J_U1 | J_U2 | J_U3 | J_U4 |
    J_MI | J_ZE | J_IT | J_FR | J_E1 | J_E2 | J_E3 | J_T1 | J_T2 | J_T3 | J_F1 | J_F2 | J_F3 |
    J_F4 | J_N1 | J_N2 | J_N3 | J_C1 | J_C2 | J_C3 | J_FX | J_D1 | J_D2

text \<open>The actions of the enum, then the anonymous codes -2 to -9 by the character they stand for.\<close>

datatype json_action =
    JA_CB | JA_CE | JA_FA | JA_TR | JA_NU | JA_DE | JA_DF | JA_SB | JA_MX | JA_ZX | JA_IX |
    JA_EX | JA_UC | JA_COLON | JA_COMMA | JA_QUOTE | JA_LSQRB | JA_LCURB | JA_RSQRB |
    JA_RCURB | JA_EMPTY

datatype json_cell = JGo json_state | JAct json_action | JX

definition json_ascii_class :: "json_class option list" where
  "json_ascii_class = [
     None, None, None, None, None, None, None, None, None, Some JC_WHITE, Some JC_WHITE, None,
     None, Some JC_WHITE, None, None, None, None, None, None, None, None, None, None, None,
     None, None, None, None, None, None, None, Some JC_SPACE, Some JC_ETC, Some JC_QUOTE,
     Some JC_ETC, Some JC_ETC, Some JC_ETC, Some JC_ETC, Some JC_ETC, Some JC_ETC, Some JC_ETC,
     Some JC_STAR, Some JC_PLUS, Some JC_COMMA, Some JC_MINUS, Some JC_POINT, Some JC_SLASH,
     Some JC_ZERO, Some JC_DIGIT, Some JC_DIGIT, Some JC_DIGIT, Some JC_DIGIT, Some JC_DIGIT,
     Some JC_DIGIT, Some JC_DIGIT, Some JC_DIGIT, Some JC_DIGIT, Some JC_COLON, Some JC_ETC,
     Some JC_ETC, Some JC_ETC, Some JC_ETC, Some JC_ETC, Some JC_ETC, Some JC_ABCDF,
     Some JC_ABCDF, Some JC_ABCDF, Some JC_ABCDF, Some JC_E, Some JC_ABCDF, Some JC_ETC,
     Some JC_ETC, Some JC_ETC, Some JC_ETC, Some JC_ETC, Some JC_ETC, Some JC_ETC, Some JC_ETC,
     Some JC_ETC, Some JC_ETC, Some JC_ETC, Some JC_ETC, Some JC_ETC, Some JC_ETC, Some JC_ETC,
     Some JC_ETC, Some JC_ETC, Some JC_ETC, Some JC_ETC, Some JC_ETC, Some JC_LSQRB,
     Some JC_BACKS, Some JC_RSQRB, Some JC_ETC, Some JC_ETC, Some JC_ETC, Some JC_LOW_A,
     Some JC_LOW_B, Some JC_LOW_C, Some JC_LOW_D, Some JC_LOW_E, Some JC_LOW_F, Some JC_ETC,
     Some JC_ETC, Some JC_ETC, Some JC_ETC, Some JC_ETC, Some JC_LOW_L, Some JC_ETC,
     Some JC_LOW_N, Some JC_ETC, Some JC_ETC, Some JC_ETC, Some JC_LOW_R, Some JC_LOW_S,
     Some JC_LOW_T, Some JC_LOW_U, Some JC_ETC, Some JC_ETC, Some JC_ETC, Some JC_ETC,
     Some JC_ETC, Some JC_LCURB, Some JC_ETC, Some JC_RCURB, Some JC_ETC, Some JC_ETC]"

fun json_row :: "json_state \<Rightarrow> json_cell list" where
  "json_row J_GO = [
     JGo J_GO, JGo J_GO, JAct JA_LCURB, JX, JAct JA_LSQRB, JX, JX, JX, JX, JX, JAct JA_CB, JX,
     JX, JX, JX, JX, JX, JX, JX, JX, JX, JX, JX, JX, JX, JX, JX, JX, JX, JX, JX, JX]"
| "json_row J_OK = [
     JGo J_OK, JGo J_OK, JX, JAct JA_RCURB, JX, JAct JA_RSQRB, JX, JAct JA_COMMA, JX, JX,
     JAct JA_CB, JX, JX, JX, JX, JX, JX, JX, JX, JX, JX, JX, JX, JX, JX, JX, JX, JX, JX, JX,
     JX, JX]"
| "json_row J_OB = [
     JGo J_OB, JGo J_OB, JX, JAct JA_EMPTY, JX, JX, JX, JX, JAct JA_SB, JX, JAct JA_CB, JX, JX,
     JX, JX, JX, JX, JX, JX, JX, JX, JX, JX, JX, JX, JX, JX, JX, JX, JX, JX, JX]"
| "json_row J_KE = [
     JGo J_KE, JGo J_KE, JX, JX, JX, JX, JX, JX, JAct JA_SB, JX, JAct JA_CB, JX, JX, JX, JX,
     JX, JX, JX, JX, JX, JX, JX, JX, JX, JX, JX, JX, JX, JX, JX, JX, JX]"
| "json_row J_CO = [
     JGo J_CO, JGo J_CO, JX, JX, JX, JX, JAct JA_COLON, JX, JX, JX, JAct JA_CB, JX, JX, JX, JX,
     JX, JX, JX, JX, JX, JX, JX, JX, JX, JX, JX, JX, JX, JX, JX, JX, JX]"
| "json_row J_VA = [
     JGo J_VA, JGo J_VA, JAct JA_LCURB, JX, JAct JA_LSQRB, JX, JX, JX, JAct JA_SB, JX,
     JAct JA_CB, JX, JAct JA_MX, JX, JAct JA_ZX, JAct JA_IX, JX, JX, JX, JX, JX, JAct JA_FA,
     JX, JAct JA_NU, JX, JX, JAct JA_TR, JX, JX, JX, JX, JX]"
| "json_row J_AR = [
     JGo J_AR, JGo J_AR, JAct JA_LCURB, JX, JAct JA_LSQRB, JAct JA_RSQRB, JX, JX, JAct JA_SB,
     JX, JAct JA_CB, JX, JAct JA_MX, JX, JAct JA_ZX, JAct JA_IX, JX, JX, JX, JX, JX,
     JAct JA_FA, JX, JAct JA_NU, JX, JX, JAct JA_TR, JX, JX, JX, JX, JX]"
| "json_row J_ST = [
     JGo J_ST, JX, JGo J_ST, JGo J_ST, JGo J_ST, JGo J_ST, JGo J_ST, JGo J_ST, JAct JA_QUOTE,
     JAct JA_EX, JGo J_ST, JGo J_ST, JGo J_ST, JGo J_ST, JGo J_ST, JGo J_ST, JGo J_ST,
     JGo J_ST, JGo J_ST, JGo J_ST, JGo J_ST, JGo J_ST, JGo J_ST, JGo J_ST, JGo J_ST, JGo J_ST,
     JGo J_ST, JGo J_ST, JGo J_ST, JGo J_ST, JGo J_ST, JGo J_ST]"
| "json_row J_ES = [
     JX, JX, JX, JX, JX, JX, JX, JX, JGo J_ST, JGo J_ST, JGo J_ST, JX, JX, JX, JX, JX, JX,
     JGo J_ST, JX, JX, JX, JGo J_ST, JX, JGo J_ST, JGo J_ST, JX, JGo J_ST, JGo J_U1, JX, JX,
     JX, JX]"
| "json_row J_U1 = [
     JX, JX, JX, JX, JX, JX, JX, JX, JX, JX, JX, JX, JX, JX, JGo J_U2, JGo J_U2, JGo J_U2,
     JGo J_U2, JGo J_U2, JGo J_U2, JGo J_U2, JGo J_U2, JX, JX, JX, JX, JX, JX, JGo J_U2,
     JGo J_U2, JX, JX]"
| "json_row J_U2 = [
     JX, JX, JX, JX, JX, JX, JX, JX, JX, JX, JX, JX, JX, JX, JGo J_U3, JGo J_U3, JGo J_U3,
     JGo J_U3, JGo J_U3, JGo J_U3, JGo J_U3, JGo J_U3, JX, JX, JX, JX, JX, JX, JGo J_U3,
     JGo J_U3, JX, JX]"
| "json_row J_U3 = [
     JX, JX, JX, JX, JX, JX, JX, JX, JX, JX, JX, JX, JX, JX, JGo J_U4, JGo J_U4, JGo J_U4,
     JGo J_U4, JGo J_U4, JGo J_U4, JGo J_U4, JGo J_U4, JX, JX, JX, JX, JX, JX, JGo J_U4,
     JGo J_U4, JX, JX]"
| "json_row J_U4 = [
     JX, JX, JX, JX, JX, JX, JX, JX, JX, JX, JX, JX, JX, JX, JAct JA_UC, JAct JA_UC,
     JAct JA_UC, JAct JA_UC, JAct JA_UC, JAct JA_UC, JAct JA_UC, JAct JA_UC, JX, JX, JX, JX,
     JX, JX, JAct JA_UC, JAct JA_UC, JX, JX]"
| "json_row J_MI = [
     JX, JX, JX, JX, JX, JX, JX, JX, JX, JX, JX, JX, JX, JX, JGo J_ZE, JGo J_IT, JX, JX, JX,
     JX, JX, JX, JX, JX, JX, JX, JX, JX, JX, JX, JX, JX]"
| "json_row J_ZE = [
     JGo J_OK, JGo J_OK, JX, JAct JA_RCURB, JX, JAct JA_RSQRB, JX, JAct JA_COMMA, JX, JX,
     JAct JA_CB, JX, JX, JAct JA_DF, JX, JX, JX, JX, JX, JX, JX, JX, JX, JX, JX, JX, JX, JX,
     JX, JX, JX, JX]"
| "json_row J_IT = [
     JGo J_OK, JGo J_OK, JX, JAct JA_RCURB, JX, JAct JA_RSQRB, JX, JAct JA_COMMA, JX, JX,
     JAct JA_CB, JX, JX, JAct JA_DF, JGo J_IT, JGo J_IT, JX, JX, JX, JX, JAct JA_DE, JX, JX,
     JX, JX, JX, JX, JX, JX, JAct JA_DE, JX, JX]"
| "json_row J_FR = [
     JGo J_OK, JGo J_OK, JX, JAct JA_RCURB, JX, JAct JA_RSQRB, JX, JAct JA_COMMA, JX, JX,
     JAct JA_CB, JX, JX, JX, JGo J_FR, JGo J_FR, JX, JX, JX, JX, JGo J_E1, JX, JX, JX, JX, JX,
     JX, JX, JX, JGo J_E1, JX, JX]"
| "json_row J_E1 = [
     JX, JX, JX, JX, JX, JX, JX, JX, JX, JX, JX, JGo J_E2, JGo J_E2, JX, JGo J_E3, JGo J_E3,
     JX, JX, JX, JX, JX, JX, JX, JX, JX, JX, JX, JX, JX, JX, JX, JX]"
| "json_row J_E2 = [
     JX, JX, JX, JX, JX, JX, JX, JX, JX, JX, JX, JX, JX, JX, JGo J_E3, JGo J_E3, JX, JX, JX,
     JX, JX, JX, JX, JX, JX, JX, JX, JX, JX, JX, JX, JX]"
| "json_row J_E3 = [
     JGo J_OK, JGo J_OK, JX, JAct JA_RCURB, JX, JAct JA_RSQRB, JX, JAct JA_COMMA, JX, JX, JX,
     JX, JX, JX, JGo J_E3, JGo J_E3, JX, JX, JX, JX, JX, JX, JX, JX, JX, JX, JX, JX, JX, JX,
     JX, JX]"
| "json_row J_T1 = [
     JX, JX, JX, JX, JX, JX, JX, JX, JX, JX, JX, JX, JX, JX, JX, JX, JX, JX, JX, JX, JX, JX,
     JX, JX, JGo J_T2, JX, JX, JX, JX, JX, JX, JX]"
| "json_row J_T2 = [
     JX, JX, JX, JX, JX, JX, JX, JX, JX, JX, JX, JX, JX, JX, JX, JX, JX, JX, JX, JX, JX, JX,
     JX, JX, JX, JX, JX, JGo J_T3, JX, JX, JX, JX]"
| "json_row J_T3 = [
     JX, JX, JX, JX, JX, JX, JX, JX, JX, JX, JAct JA_CB, JX, JX, JX, JX, JX, JX, JX, JX, JX,
     JGo J_OK, JX, JX, JX, JX, JX, JX, JX, JX, JX, JX, JX]"
| "json_row J_F1 = [
     JX, JX, JX, JX, JX, JX, JX, JX, JX, JX, JX, JX, JX, JX, JX, JX, JGo J_F2, JX, JX, JX, JX,
     JX, JX, JX, JX, JX, JX, JX, JX, JX, JX, JX]"
| "json_row J_F2 = [
     JX, JX, JX, JX, JX, JX, JX, JX, JX, JX, JX, JX, JX, JX, JX, JX, JX, JX, JX, JX, JX, JX,
     JGo J_F3, JX, JX, JX, JX, JX, JX, JX, JX, JX]"
| "json_row J_F3 = [
     JX, JX, JX, JX, JX, JX, JX, JX, JX, JX, JX, JX, JX, JX, JX, JX, JX, JX, JX, JX, JX, JX,
     JX, JX, JX, JGo J_F4, JX, JX, JX, JX, JX, JX]"
| "json_row J_F4 = [
     JX, JX, JX, JX, JX, JX, JX, JX, JX, JX, JAct JA_CB, JX, JX, JX, JX, JX, JX, JX, JX, JX,
     JGo J_OK, JX, JX, JX, JX, JX, JX, JX, JX, JX, JX, JX]"
| "json_row J_N1 = [
     JX, JX, JX, JX, JX, JX, JX, JX, JX, JX, JX, JX, JX, JX, JX, JX, JX, JX, JX, JX, JX, JX,
     JX, JX, JX, JX, JX, JGo J_N2, JX, JX, JX, JX]"
| "json_row J_N2 = [
     JX, JX, JX, JX, JX, JX, JX, JX, JX, JX, JX, JX, JX, JX, JX, JX, JX, JX, JX, JX, JX, JX,
     JGo J_N3, JX, JX, JX, JX, JX, JX, JX, JX, JX]"
| "json_row J_N3 = [
     JX, JX, JX, JX, JX, JX, JX, JX, JX, JX, JAct JA_CB, JX, JX, JX, JX, JX, JX, JX, JX, JX,
     JX, JX, JGo J_OK, JX, JX, JX, JX, JX, JX, JX, JX, JX]"
| "json_row J_C1 = [
     JX, JX, JX, JX, JX, JX, JX, JX, JX, JX, JX, JX, JX, JX, JX, JX, JX, JX, JX, JX, JX, JX,
     JX, JX, JX, JX, JX, JX, JX, JX, JX, JGo J_C2]"
| "json_row J_C2 = [
     JGo J_C2, JGo J_C2, JGo J_C2, JGo J_C2, JGo J_C2, JGo J_C2, JGo J_C2, JGo J_C2, JGo J_C2,
     JGo J_C2, JGo J_C2, JGo J_C2, JGo J_C2, JGo J_C2, JGo J_C2, JGo J_C2, JGo J_C2, JGo J_C2,
     JGo J_C2, JGo J_C2, JGo J_C2, JGo J_C2, JGo J_C2, JGo J_C2, JGo J_C2, JGo J_C2, JGo J_C2,
     JGo J_C2, JGo J_C2, JGo J_C2, JGo J_C2, JGo J_C3]"
| "json_row J_C3 = [
     JGo J_C2, JGo J_C2, JGo J_C2, JGo J_C2, JGo J_C2, JGo J_C2, JGo J_C2, JGo J_C2, JGo J_C2,
     JGo J_C2, JAct JA_CE, JGo J_C2, JGo J_C2, JGo J_C2, JGo J_C2, JGo J_C2, JGo J_C2,
     JGo J_C2, JGo J_C2, JGo J_C2, JGo J_C2, JGo J_C2, JGo J_C2, JGo J_C2, JGo J_C2, JGo J_C2,
     JGo J_C2, JGo J_C2, JGo J_C2, JGo J_C2, JGo J_C2, JGo J_C3]"
| "json_row J_FX = [
     JGo J_OK, JGo J_OK, JX, JAct JA_RCURB, JX, JAct JA_RSQRB, JX, JAct JA_COMMA, JX, JX, JX,
     JX, JX, JX, JGo J_FR, JGo J_FR, JX, JX, JX, JX, JGo J_E1, JX, JX, JX, JX, JX, JX, JX, JX,
     JGo J_E1, JX, JX]"
| "json_row J_D1 = [
     JX, JX, JX, JX, JX, JX, JX, JX, JX, JGo J_D2, JX, JX, JX, JX, JX, JX, JX, JX, JX, JX, JX,
     JX, JX, JX, JX, JX, JX, JX, JX, JX, JX, JX]"
| "json_row J_D2 = [
     JX, JX, JX, JX, JX, JX, JX, JX, JX, JX, JX, JX, JX, JX, JX, JX, JX, JX, JX, JX, JX, JX,
     JX, JX, JX, JX, JX, JGo J_U1, JX, JX, JX, JX]"

fun json_column :: "json_class \<Rightarrow> nat" where
  "json_column JC_SPACE = 0"
| "json_column JC_WHITE = 1"
| "json_column JC_LCURB = 2"
| "json_column JC_RCURB = 3"
| "json_column JC_LSQRB = 4"
| "json_column JC_RSQRB = 5"
| "json_column JC_COLON = 6"
| "json_column JC_COMMA = 7"
| "json_column JC_QUOTE = 8"
| "json_column JC_BACKS = 9"
| "json_column JC_SLASH = 10"
| "json_column JC_PLUS = 11"
| "json_column JC_MINUS = 12"
| "json_column JC_POINT = 13"
| "json_column JC_ZERO = 14"
| "json_column JC_DIGIT = 15"
| "json_column JC_LOW_A = 16"
| "json_column JC_LOW_B = 17"
| "json_column JC_LOW_C = 18"
| "json_column JC_LOW_D = 19"
| "json_column JC_LOW_E = 20"
| "json_column JC_LOW_F = 21"
| "json_column JC_LOW_L = 22"
| "json_column JC_LOW_N = 23"
| "json_column JC_LOW_R = 24"
| "json_column JC_LOW_S = 25"
| "json_column JC_LOW_T = 26"
| "json_column JC_LOW_U = 27"
| "json_column JC_ABCDF = 28"
| "json_column JC_E = 29"
| "json_column JC_ETC = 30"
| "json_column JC_STAR = 31"

datatype json_mode = MODE_ARRAY | MODE_DONE | MODE_KEY | MODE_OBJECT

section \<open>State and environment\<close>

text \<open>The values of the callback: a null pointer, the text strtod reads, an integer, a string.\<close>

datatype json_value = JV_none | JV_float "byte list" | JV_int int | JV_str "byte list"

type_synonym json_event = "json_type \<times> json_value"

record 'c json_env =
  je_callback :: "('c \<Rightarrow> json_event \<Rightarrow> 'c \<times> bool) option"
  je_alloc :: "string \<Rightarrow> nat \<Rightarrow> bool"
  je_decimal_point :: byte

record json_config =
  jc_depth :: int
  jc_allow_comments :: int
  jc_handle_floats_manually :: int

record 'c json_parser =
  jp_ctx :: 'c
  jp_state :: json_state
  jp_before_comment_state :: json_state
  jp_type :: json_type
  jp_escaped :: bool
  jp_comment :: bool
  jp_allow_comments :: bool
  jp_handle_floats_manually :: bool
  jp_error :: json_error
  jp_decimal_point :: byte
  jp_utf16_high_surrogate :: u16
  jp_current_char :: int
  jp_depth :: int
  jp_stack :: "json_mode list"
  jp_stack_capacity :: int
  jp_stack_static :: bool
  jp_buf :: "byte list"
  jp_buf_capacity :: nat
  jp_buf_static :: bool

type_synonym 'c json_step = "('c json_parser, json_event) result"

definition JSON_PARSER_STACK_SIZE :: int where "JSON_PARSER_STACK_SIZE = 128"
definition JSON_PARSER_PARSE_BUFFER_SIZE :: nat where "JSON_PARSER_PARSE_BUFFER_SIZE = 3500"

definition json_top :: "'c json_parser \<Rightarrow> int" where
  "json_top jc = int (length (jp_stack jc)) - 1"

text \<open>The number of entries the stack array really has.\<close>

definition json_stack_room :: "'c json_parser \<Rightarrow> int" where
  "json_stack_room jc = (if jp_stack_static jc then JSON_PARSER_STACK_SIZE else jp_stack_capacity jc)"

section \<open>Errors, the stack and the buffer\<close>

definition set_error_code :: "json_error \<Rightarrow> 'c json_parser \<Rightarrow> 'c json_parser" where
  "set_error_code e jc = jc\<lparr>jp_error := e\<rparr>"

definition set_error :: "'c json_parser \<Rightarrow> 'c json_parser" where
  "set_error jc =
     set_error_code
       (case jp_state jc of
          J_GO \<Rightarrow>
            (if jp_current_char jc \<in> {123, 125, 91, 93}
             then JSON_E_UNBALANCED_COLLECTION else JSON_E_INVALID_CHAR)
        | J_OB \<Rightarrow> JSON_E_EXPECTED_KEY
        | J_AR \<Rightarrow> JSON_E_UNBALANCED_COLLECTION
        | J_CO \<Rightarrow> JSON_E_EXPECTED_COLON
        | J_KE \<Rightarrow> JSON_E_EXPECTED_KEY
        | J_U1 \<Rightarrow> JSON_E_INVALID_UNICODE_SEQUENCE | J_U2 \<Rightarrow> JSON_E_INVALID_UNICODE_SEQUENCE
        | J_U3 \<Rightarrow> JSON_E_INVALID_UNICODE_SEQUENCE | J_U4 \<Rightarrow> JSON_E_INVALID_UNICODE_SEQUENCE
        | J_D1 \<Rightarrow> JSON_E_INVALID_UNICODE_SEQUENCE | J_D2 \<Rightarrow> JSON_E_INVALID_UNICODE_SEQUENCE
        | J_T1 \<Rightarrow> JSON_E_INVALID_KEYWORD | J_T2 \<Rightarrow> JSON_E_INVALID_KEYWORD
        | J_T3 \<Rightarrow> JSON_E_INVALID_KEYWORD | J_F1 \<Rightarrow> JSON_E_INVALID_KEYWORD
        | J_F2 \<Rightarrow> JSON_E_INVALID_KEYWORD | J_F3 \<Rightarrow> JSON_E_INVALID_KEYWORD
        | J_F4 \<Rightarrow> JSON_E_INVALID_KEYWORD | J_N1 \<Rightarrow> JSON_E_INVALID_KEYWORD
        | J_N2 \<Rightarrow> JSON_E_INVALID_KEYWORD | J_N3 \<Rightarrow> JSON_E_INVALID_KEYWORD
        | J_MI \<Rightarrow> JSON_E_INVALID_NUMBER | J_ZE \<Rightarrow> JSON_E_INVALID_NUMBER
        | J_IT \<Rightarrow> JSON_E_INVALID_NUMBER | J_FR \<Rightarrow> JSON_E_INVALID_NUMBER
        | J_E1 \<Rightarrow> JSON_E_INVALID_NUMBER | J_E2 \<Rightarrow> JSON_E_INVALID_NUMBER
        | J_E3 \<Rightarrow> JSON_E_INVALID_NUMBER
        | _ \<Rightarrow> JSON_E_INVALID_CHAR) jc"

text \<open>The growth of an unbounded stack, and the write \<open>stack[++top] = mode\<close>.\<close>

definition json_stack_grow :: "'c json_env \<Rightarrow> 'c json_parser \<Rightarrow> 'c json_step" where
  "json_stack_grow E jc =
     (if je_alloc E ''stack'' (nat (jp_stack_capacity jc * 2))
      then accept (jc\<lparr>jp_stack_capacity := jp_stack_capacity jc * 2, jp_stack_static := False\<rparr>)
      else refuse (set_error_code JSON_E_OUT_OF_MEMORY jc))"

definition json_push :: "'c json_env \<Rightarrow> json_mode \<Rightarrow> 'c json_parser \<Rightarrow> 'c json_step" where
  "json_push E mode jc =
     and_then (check (json_top jc \<le> jp_stack_capacity jc) jc) (\<lambda>jc.
     and_then
       (if jp_depth jc < 0
        then (if json_top jc = jp_stack_capacity jc then json_stack_grow E jc else accept jc)
        else if json_top jc = jp_depth jc
        then refuse (set_error_code JSON_E_NESTING_DEPTH_REACHED jc)
        else accept jc) (\<lambda>jc.
     and_then (check (json_top jc + 1 < json_stack_room jc) jc) (\<lambda>jc.
     accept (jc\<lparr>jp_stack := mode # jp_stack jc\<rparr>))))"

definition json_pop :: "json_mode \<Rightarrow> 'c json_parser \<Rightarrow> 'c json_step" where
  "json_pop mode jc =
     (case jp_stack jc of
        [] \<Rightarrow> refuse jc
      | m # ms \<Rightarrow> if m \<noteq> mode then refuse jc else accept (jc\<lparr>jp_stack := ms\<rparr>))"

text \<open>Reading \<open>stack[top]\<close>, which is outside the array when the stack is empty.\<close>

definition json_peek :: "'c json_parser \<Rightarrow> (json_mode \<Rightarrow> 'c json_step) \<Rightarrow> 'c json_step" where
  "json_peek jc k = (case jp_stack jc of [] \<Rightarrow> (jc, [], Abort) | m # _ \<Rightarrow> k m)"

definition parse_buffer_clear :: "'c json_parser \<Rightarrow> 'c json_parser" where
  "parse_buffer_clear jc = jc\<lparr>jp_buf := []\<rparr>"

definition parse_buffer_pop_back_char :: "'c json_parser \<Rightarrow> 'c json_step" where
  "parse_buffer_pop_back_char jc =
     and_then (check (1 \<le> length (jp_buf jc)) jc) (\<lambda>jc. accept (jc\<lparr>jp_buf := butlast (jp_buf jc)\<rparr>))"

definition parse_buffer_grow :: "'c json_env \<Rightarrow> 'c json_parser \<Rightarrow> 'c json_step" where
  "parse_buffer_grow E jc =
     (if \<not> je_alloc E ''parse buffer'' (jp_buf_capacity jc * 2)
      then refuse (set_error_code JSON_E_OUT_OF_MEMORY jc)
      else and_then (check (0 < jp_buf_capacity jc * 2) jc) (\<lambda>jc.
        accept (jc\<lparr>jp_buf_capacity := jp_buf_capacity jc * 2, jp_buf_static := False\<rparr>)))"

lemma parse_buffer_grow_Accept:
  assumes "parse_buffer_grow E jc = (jc', ev, Accept)"
  shows "ev = [] \<and> jc' = jc\<lparr>jp_buf_capacity := jp_buf_capacity jc * 2, jp_buf_static := False\<rparr> \<and>
    0 < jp_buf_capacity jc"
  using assms by (auto simp: parse_buffer_grow_def accept_def refuse_def split: if_splits)

text \<open>The loop ends because a growth that succeeds doubles a positive capacity.\<close>

function parse_buffer_reserve_for :: "'c json_env \<Rightarrow> nat \<Rightarrow> 'c json_parser \<Rightarrow> 'c json_step" where
  "parse_buffer_reserve_for E chars jc =
     (if jp_buf_capacity jc < length (jp_buf jc) + chars + 1
      then (case parse_buffer_grow E jc of
              (jc', ev, v) \<Rightarrow>
                if v = Accept then parse_buffer_reserve_for E chars jc'
                else and_then (check (v = Reject \<longrightarrow> jp_error jc' = JSON_E_OUT_OF_MEMORY) jc')
                       (\<lambda>jc'. (jc', [], v)))
      else accept jc)"
  by pat_completeness auto
termination
  by (relation "measure (\<lambda>(E, chars, jc). length (jp_buf jc) + chars + 1 - jp_buf_capacity jc)")
    (auto dest!: parse_buffer_grow_Accept [OF sym])

declare parse_buffer_reserve_for.simps [simp del]

definition parse_buffer_has_space_for :: "'c json_parser \<Rightarrow> nat \<Rightarrow> bool" where
  "parse_buffer_has_space_for jc count \<longleftrightarrow> length (jp_buf jc) + count + 1 \<le> jp_buf_capacity jc"

definition parse_buffer_push_back_char :: "byte \<Rightarrow> 'c json_parser \<Rightarrow> 'c json_step" where
  "parse_buffer_push_back_char c jc =
     and_then (check (parse_buffer_has_space_for jc 1) jc) (\<lambda>jc.
     accept (jc\<lparr>jp_buf := jp_buf jc @ [c]\<rparr>))"

section \<open>Values\<close>

text \<open>\<open>sscanf\<close> with "%lld": white space, a sign, digits up to the first other character; a value
  that does not fit is clamped.\<close>

fun scan_digits :: "int \<Rightarrow> byte list \<Rightarrow> int" where
  "scan_digits a [] = a"
| "scan_digits a (c # cs) =
     (if 48 \<le> c \<and> c \<le> 57 then scan_digits (a * 10 + (uint c - 48)) cs else a)"

fun scan_sign :: "byte list \<Rightarrow> int" where
  "scan_sign [] = 0"
| "scan_sign (c # cs) =
     (if c = 45 then - scan_digits 0 cs else if c = 43 then scan_digits 0 cs
      else scan_digits 0 (c # cs))"

definition sscanf_lld :: "byte list \<Rightarrow> int" where
  "sscanf_lld cs =
     max (- (2 ^ 63)) (min (2 ^ 63 - 1)
       (scan_sign (dropWhile (\<lambda>c. c = 32 \<or> 9 \<le> c \<and> c \<le> 13) cs)))"

definition json_emit :: "'c json_env \<Rightarrow> json_type \<Rightarrow> json_value \<Rightarrow> 'c json_parser \<Rightarrow> 'c json_step" where
  "json_emit E t val jc =
     (case je_callback E of
        None \<Rightarrow> accept jc
      | Some cb \<Rightarrow>
          (case cb (jp_ctx jc) (t, val) of
             (c', go) \<Rightarrow> (jc\<lparr>jp_ctx := c'\<rparr>, [(t, val)], if go then Accept else Reject)))"

definition json_is_non_container_type :: "json_type \<Rightarrow> bool" where
  "json_is_non_container_type t \<longleftrightarrow>
     t = JSON_T_NULL \<or> t = JSON_T_FALSE \<or> t = JSON_T_TRUE \<or> t = JSON_T_FLOAT \<or>
     t = JSON_T_INTEGER \<or> t = JSON_T_STRING"

definition json_token_value :: "'c json_parser \<Rightarrow> json_value" where
  "json_token_value jc =
     (case jp_type jc of
        JSON_T_FLOAT \<Rightarrow>
          if jp_handle_floats_manually jc then JV_str (jp_buf jc) else JV_float (jp_buf jc)
      | JSON_T_INTEGER \<Rightarrow> JV_int (sscanf_lld (jp_buf jc))
      | JSON_T_STRING \<Rightarrow> JV_str (jp_buf jc)
      | _ \<Rightarrow> JV_none)"

definition parse_parse_buffer :: "'c json_env \<Rightarrow> 'c json_parser \<Rightarrow> 'c json_step" where
  "parse_parse_buffer E jc =
     and_then
       (if je_callback E \<noteq> None \<and> jp_type jc \<noteq> JSON_T_NONE
        then and_then (check (json_is_non_container_type (jp_type jc)) jc) (\<lambda>jc.
          json_emit E (jp_type jc) (json_token_value jc) jc)
        else accept jc) (\<lambda>jc.
     accept (parse_buffer_clear jc))"

section \<open>Characters\<close>

definition IS_HIGH_SURROGATE :: "u32 \<Rightarrow> bool" where
  "IS_HIGH_SURROGATE uc \<longleftrightarrow> uc AND 0xFC00 = 0xD800"
definition IS_LOW_SURROGATE :: "u32 \<Rightarrow> bool" where
  "IS_LOW_SURROGATE uc \<longleftrightarrow> uc AND 0xFC00 = 0xDC00"
definition DECODE_SURROGATE_PAIR :: "u32 \<Rightarrow> u32 \<Rightarrow> u32" where
  "DECODE_SURROGATE_PAIR hi lo = push_bit 10 (hi AND 0x3FF) + (lo AND 0x3FF) + 0x10000"

fun utf8_lead_bits :: "nat \<Rightarrow> u32" where
  "utf8_lead_bits n = (if n = 0 then 0 else if n = 1 then 0xC0 else if n = 2 then 0xE0 else 0xF0)"

text \<open>One hex digit of \<open>unsigned x = *p\<close> (a char is signed), and the loop over four of them.\<close>

definition json_hex_digit :: "byte \<Rightarrow> u32" where
  "json_hex_digit c =
     (let x = signed c :: u32 in
      if 97 \<le> x then x - 87 else if 65 \<le> x then x - 55 else x AND NOT 0x30)"

fun json_hex_loop :: "u32 \<Rightarrow> byte list \<Rightarrow> u32 option" where
  "json_hex_loop uc [] = Some uc"
| "json_hex_loop uc (c # cs) =
     (let x = json_hex_digit c in
      if x < 16 then json_hex_loop (uc OR push_bit (4 * length cs) x) cs else None)"

fun json_trail :: "nat \<Rightarrow> u32 \<Rightarrow> byte list" where
  "json_trail 0 uc = []"
| "json_trail (Suc n) uc = ucast ((drop_bit (6 * n) uc AND 0x3F) OR 0x80) # json_trail n uc"

definition json_utf8 :: "nat \<Rightarrow> u32 \<Rightarrow> byte list" where
  "json_utf8 n uc = ucast (drop_bit (n * 6) uc OR utf8_lead_bits n) # json_trail n uc"

definition decode_unicode_char :: "'c json_parser \<Rightarrow> 'c json_step" where
  "decode_unicode_char jc =
     and_then (check (6 \<le> length (jp_buf jc)) jc) (\<lambda>jc.
     (case json_hex_loop 0 (drop (length (jp_buf jc) - 4) (jp_buf jc)) of
        None \<Rightarrow> (jc, [], Abort)
      | Some uc \<Rightarrow>
          let jc = jc\<lparr>jp_buf := take (length (jp_buf jc) - 6) (jp_buf jc)\<rparr>;
              put = (\<lambda>n uc jc. accept (jc\<lparr>jp_buf := jp_buf jc @ json_utf8 n uc\<rparr>))
          in if jp_utf16_high_surrogate jc \<noteq> 0
             then (if IS_LOW_SURROGATE uc
                   then put 3 (DECODE_SURROGATE_PAIR (ucast (jp_utf16_high_surrogate jc)) uc)
                          (jc\<lparr>jp_utf16_high_surrogate := 0\<rparr>)
                   else refuse jc)
             else if uc < 0x80 then put 0 uc jc
             else if uc < 0x800 then put 1 uc jc
             else if IS_HIGH_SURROGATE uc then accept (jc\<lparr>jp_utf16_high_surrogate := ucast uc\<rparr>)
             else if IS_LOW_SURROGATE uc then refuse jc
             else put 2 uc jc))"

definition add_escaped_char_to_parse_buffer :: "int \<Rightarrow> 'c json_parser \<Rightarrow> 'c json_step" where
  "add_escaped_char_to_parse_buffer ch jc =
     and_then (check (parse_buffer_has_space_for jc 1) jc) (\<lambda>jc.
     and_then (parse_buffer_pop_back_char (jc\<lparr>jp_escaped := False\<rparr>)) (\<lambda>jc.
     if ch = 98 then parse_buffer_push_back_char 8 jc
     else if ch = 102 then parse_buffer_push_back_char 12 jc
     else if ch = 110 then parse_buffer_push_back_char 10 jc
     else if ch = 114 then parse_buffer_push_back_char 13 jc
     else if ch = 116 then parse_buffer_push_back_char 9 jc
     else if ch = 34 then parse_buffer_push_back_char 34 jc
     else if ch = 92 then parse_buffer_push_back_char 92 jc
     else if ch = 47 then parse_buffer_push_back_char 47 jc
     else if ch = 117 then
       and_then (parse_buffer_push_back_char 92 jc) (parse_buffer_push_back_char 117)
     else refuse jc))"

definition json_blank :: "json_class \<Rightarrow> bool" where
  "json_blank k \<longleftrightarrow> k = JC_SPACE \<or> k = JC_WHITE"

definition add_char_to_parse_buffer ::
    "'c json_env \<Rightarrow> int \<Rightarrow> json_class \<Rightarrow> 'c json_parser \<Rightarrow> 'c json_step" where
  "add_char_to_parse_buffer E ch k jc =
     (case parse_buffer_reserve_for E 1 jc of
        (jc, ev, v) \<Rightarrow>
          if v = Reject then and_then (check (jp_error jc = JSON_E_OUT_OF_MEMORY) jc) refuse
          else if v = Abort then (jc, ev, v)
          else if jp_escaped jc
          then (case add_escaped_char_to_parse_buffer ch jc of
                  (jc, ev, v) \<Rightarrow>
                    if v = Reject then refuse (set_error_code JSON_E_INVALID_ESCAPE_SEQUENCE jc)
                    else (jc, ev, v))
          else if \<not> jp_comment jc \<and> (jp_type jc \<noteq> JSON_T_NONE \<or> \<not> json_blank k)
          then parse_buffer_push_back_char (word_of_int ch) jc
          else accept jc)"

section \<open>Actions\<close>

definition json_go :: "json_state \<Rightarrow> 'c json_parser \<Rightarrow> 'c json_step" where
  "json_go s jc = accept (jc\<lparr>jp_state := s\<rparr>)"

definition json_type_go :: "json_type \<Rightarrow> json_state \<Rightarrow> 'c json_parser \<Rightarrow> 'c json_step" where
  "json_type_go t s jc = accept (jc\<lparr>jp_type := t, jp_state := s\<rparr>)"

definition json_not_string_null_or_bool :: "'c json_parser \<Rightarrow> bool" where
  "json_not_string_null_or_bool jc \<longleftrightarrow>
     jp_type jc \<noteq> JSON_T_FALSE \<and> jp_type jc \<noteq> JSON_T_TRUE \<and> jp_type jc \<noteq> JSON_T_NULL \<and>
     jp_type jc \<noteq> JSON_T_STRING"

text \<open>A failed \<open>pop\<close> of the closing brackets sets the error before the refusal.\<close>

definition json_close :: "json_mode \<Rightarrow> 'c json_parser \<Rightarrow> 'c json_step" where
  "json_close mode jc =
     (case json_pop mode jc of
        (jc', ev, v) \<Rightarrow>
          if v = Accept then json_type_go JSON_T_NONE J_OK jc'
          else (set_error_code JSON_E_UNBALANCED_COLLECTION jc', ev, v))"

text \<open>The state to go back to after a comment, the two nested switches.\<close>

definition json_resume_state :: "json_mode \<Rightarrow> json_state \<Rightarrow> json_state" where
  "json_resume_state m s =
     (if m = MODE_ARRAY \<or> m = MODE_OBJECT then (if s = J_VA \<or> s = J_AR then s else J_OK) else s)"

fun json_action_step :: "'c json_env \<Rightarrow> json_action \<Rightarrow> 'c json_parser \<Rightarrow> 'c json_step" where
  "json_action_step E JA_UC jc =
     (case decode_unicode_char jc of
        (jc, ev, v) \<Rightarrow>
          if v = Accept
          then json_go (if jp_utf16_high_surrogate jc \<noteq> 0 then J_D1 else J_ST) jc
          else if v = Reject then refuse (set_error_code JSON_E_INVALID_UNICODE_SEQUENCE jc)
          else (jc, ev, v))"
| "json_action_step E JA_EX jc = json_go J_ES (jc\<lparr>jp_escaped := True\<rparr>)"
| "json_action_step E JA_MX jc = json_type_go JSON_T_INTEGER J_MI jc"
| "json_action_step E JA_ZX jc = json_type_go JSON_T_INTEGER J_ZE jc"
| "json_action_step E JA_IX jc = json_type_go JSON_T_INTEGER J_IT jc"
| "json_action_step E JA_DE jc =
     and_then (check (json_not_string_null_or_bool jc) jc) (json_type_go JSON_T_FLOAT J_E1)"
| "json_action_step E JA_DF jc =
     and_then (check (json_not_string_null_or_bool jc) jc) (\<lambda>jc.
     and_then
       (if jp_handle_floats_manually jc then accept jc
        else and_then (check (jp_buf jc \<noteq> [] \<and> last (jp_buf jc) = 46) jc) (\<lambda>jc.
          accept (jc\<lparr>jp_buf := butlast (jp_buf jc) @ [jp_decimal_point jc]\<rparr>)))
       (json_type_go JSON_T_FLOAT J_FX))"
| "json_action_step E JA_SB jc =
     (let jc = parse_buffer_clear jc in
      and_then (check (jp_type jc = JSON_T_NONE) jc) (json_type_go JSON_T_STRING J_ST))"
| "json_action_step E JA_NU jc =
     and_then (check (jp_type jc = JSON_T_NONE) jc) (json_type_go JSON_T_NULL J_N1)"
| "json_action_step E JA_FA jc =
     and_then (check (jp_type jc = JSON_T_NONE) jc) (json_type_go JSON_T_FALSE J_F1)"
| "json_action_step E JA_TR jc =
     and_then (check (jp_type jc = JSON_T_NONE) jc) (json_type_go JSON_T_TRUE J_T1)"
| "json_action_step E JA_CE jc =
     and_then (check (jp_buf jc = [] \<and> jp_type jc = JSON_T_NONE) (jc\<lparr>jp_comment := False\<rparr>)) (\<lambda>jc.
     json_go (jp_before_comment_state jc) jc)"
| "json_action_step E JA_CB jc =
     (if \<not> jp_allow_comments jc then refuse jc
      else and_then (parse_buffer_pop_back_char jc) (\<lambda>jc.
        and_then (parse_parse_buffer E jc) (\<lambda>jc.
        and_then (check (jp_buf jc = [] \<and> jp_type jc \<noteq> JSON_T_STRING) jc) (\<lambda>jc.
        json_peek jc (\<lambda>m.
        json_type_go JSON_T_NONE J_C1
          (jc\<lparr>jp_before_comment_state := json_resume_state m (jp_state jc), jp_comment := True\<rparr>))))))"
| "json_action_step E JA_EMPTY jc =
     and_then (json_emit E JSON_T_OBJECT_END JV_none (parse_buffer_clear jc)) (\<lambda>jc.
     and_then (json_pop MODE_KEY jc) (json_go J_OK))"
| "json_action_step E JA_RCURB jc =
     and_then (parse_buffer_pop_back_char jc) (\<lambda>jc.
     and_then (parse_parse_buffer E jc) (\<lambda>jc.
     and_then (json_emit E JSON_T_OBJECT_END JV_none jc) (json_close MODE_OBJECT)))"
| "json_action_step E JA_RSQRB jc =
     and_then (parse_buffer_pop_back_char jc) (\<lambda>jc.
     and_then (parse_parse_buffer E jc) (\<lambda>jc.
     and_then (json_emit E JSON_T_ARRAY_END JV_none jc) (json_close MODE_ARRAY)))"
| "json_action_step E JA_LCURB jc =
     and_then (parse_buffer_pop_back_char jc) (\<lambda>jc.
     and_then (json_emit E JSON_T_OBJECT_BEGIN JV_none jc) (\<lambda>jc.
     and_then (json_push E MODE_KEY jc) (\<lambda>jc.
     and_then (check (jp_type jc = JSON_T_NONE) jc) (json_go J_OB))))"
| "json_action_step E JA_LSQRB jc =
     and_then (parse_buffer_pop_back_char jc) (\<lambda>jc.
     and_then (json_emit E JSON_T_ARRAY_BEGIN JV_none jc) (\<lambda>jc.
     and_then (json_push E MODE_ARRAY jc) (\<lambda>jc.
     and_then (check (jp_type jc = JSON_T_NONE) jc) (json_go J_AR))))"
| "json_action_step E JA_QUOTE jc =
     and_then (parse_buffer_pop_back_char jc) (\<lambda>jc.
     json_peek jc (\<lambda>m.
     if m = MODE_KEY
     then and_then (check (jp_type jc = JSON_T_STRING) jc) (\<lambda>jc.
       let jc = jc\<lparr>jp_type := JSON_T_NONE, jp_state := J_CO\<rparr> in
       and_then (json_emit E JSON_T_KEY (JV_str (jp_buf jc)) jc) (\<lambda>jc.
       accept (parse_buffer_clear jc)))
     else if m = MODE_ARRAY \<or> m = MODE_OBJECT
     then and_then (check (jp_type jc = JSON_T_STRING) jc) (\<lambda>jc.
       and_then (parse_parse_buffer E jc) (json_type_go JSON_T_NONE J_OK))
     else refuse jc))"
| "json_action_step E JA_COMMA jc =
     and_then (parse_buffer_pop_back_char jc) (\<lambda>jc.
     and_then (parse_parse_buffer E jc) (\<lambda>jc.
     json_peek jc (\<lambda>m.
     if m = MODE_OBJECT
     then and_then (json_pop MODE_OBJECT jc) (\<lambda>jc.
       and_then (json_push E MODE_KEY jc) (\<lambda>jc.
       and_then (check (jp_type jc \<noteq> JSON_T_STRING) jc) (json_type_go JSON_T_NONE J_KE)))
     else if m = MODE_ARRAY
     then and_then (check (jp_type jc \<noteq> JSON_T_STRING) jc) (json_type_go JSON_T_NONE J_VA)
     else refuse jc)))"
| "json_action_step E JA_COLON jc =
     and_then (parse_buffer_pop_back_char jc) (\<lambda>jc.
     and_then (json_pop MODE_KEY jc) (\<lambda>jc.
     and_then (json_push E MODE_OBJECT jc) (\<lambda>jc.
     and_then (check (jp_type jc = JSON_T_NONE) jc) (json_go J_VA))))"

definition json_cell :: "json_state \<Rightarrow> json_class \<Rightarrow> json_cell" where
  "json_cell s k = json_row s ! json_column k"

definition json_class_of :: "int \<Rightarrow> json_class option" where
  "json_class_of ch = (if 128 \<le> ch then Some JC_ETC else json_ascii_class ! nat ch)"

definition JSON_parser_char :: "'c json_env \<Rightarrow> 'c json_parser \<Rightarrow> int \<Rightarrow> 'c json_step" where
  "JSON_parser_char E jc ch =
     (let jc = jc\<lparr>jp_current_char := ch\<rparr> in
      if ch < 0 then refuse (set_error_code JSON_E_INVALID_CHAR jc)
      else case json_class_of ch of
        None \<Rightarrow> refuse (set_error jc)
      | Some k \<Rightarrow>
          and_then (add_char_to_parse_buffer E ch k jc) (\<lambda>jc.
          case json_cell (jp_state jc) k of
            JGo s \<Rightarrow> json_go s jc
          | JAct a \<Rightarrow> json_action_step E a jc
          | JX \<Rightarrow> refuse (set_error jc)))"

section \<open>Life of a parser\<close>

definition json_parser_sizeof :: nat where "json_parser_sizeof = 3712"

definition init_JSON_config :: json_config where
  "init_JSON_config =
     \<lparr>jc_depth = JSON_PARSER_STACK_SIZE - 1, jc_allow_comments = 0,
      jc_handle_floats_manually = 0\<rparr>"

definition new_JSON_parser ::
    "'c json_env \<Rightarrow> json_config option \<Rightarrow> 'c \<Rightarrow> 'c json_parser option" where
  "new_JSON_parser E config ctx =
     (let config = (case config of None \<Rightarrow> init_JSON_config | Some c \<Rightarrow> c);
          depth = (if jc_depth config = 0 then 1 else jc_depth config);
          static = (depth \<le> JSON_PARSER_STACK_SIZE)
      in if \<not> je_alloc E ''parser'' json_parser_sizeof then None
         else if \<not> static \<and> \<not> je_alloc E ''stack'' (nat depth) then None
         else
           let jc =
             \<lparr>jp_ctx = ctx, jp_state = J_GO, jp_before_comment_state = J_GO, jp_type = JSON_T_NONE,
              jp_escaped = False, jp_comment = False,
              jp_allow_comments = ((word_of_int (jc_allow_comments config) :: byte) \<noteq> 0),
              jp_handle_floats_manually =
                ((word_of_int (jc_handle_floats_manually config) :: byte) \<noteq> 0),
              jp_error = JSON_E_NONE, jp_decimal_point = je_decimal_point E,
              jp_utf16_high_surrogate = 0, jp_current_char = 0,
              jp_depth = (if 0 < depth then depth else -1), jp_stack = [],
              jp_stack_capacity = (if 0 < depth then depth else JSON_PARSER_STACK_SIZE),
              jp_stack_static = static, jp_buf = [],
              jp_buf_capacity = JSON_PARSER_PARSE_BUFFER_SIZE, jp_buf_static = True\<rparr>
           in Some (fst (json_push E MODE_DONE jc)))"

definition JSON_parser_done :: "'c json_parser \<Rightarrow> 'c json_step" where
  "JSON_parser_done jc =
     (case (if jp_state jc = J_OK \<or> jp_state jc = J_GO then json_pop MODE_DONE jc else refuse jc) of
        (jc', ev, v) \<Rightarrow>
          if v = Accept then accept jc'
          else refuse (set_error_code JSON_E_UNBALANCED_COLLECTION jc'))"

definition JSON_parser_get_last_error :: "'c json_parser \<Rightarrow> json_error" where
  "JSON_parser_get_last_error jc = jp_error jc"

text \<open>The string is the bytes before the terminator, or a null pointer; \<open>c\<close> is a signed char.\<close>

fun json_white_loop :: "byte list \<Rightarrow> bool" where
  "json_white_loop [] = True"
| "json_white_loop (b # bs) =
     (let c = sint b in
      if c < 0 \<or> 128 \<le> c then False
      else case json_ascii_class ! nat c of
        None \<Rightarrow> False
      | Some k \<Rightarrow> if k \<noteq> JC_SPACE \<and> k \<noteq> JC_WHITE then False else json_white_loop bs)"

definition JSON_parser_is_legal_white_space_string :: "byte list option \<Rightarrow> bool" where
  "JSON_parser_is_legal_white_space_string s = (case s of None \<Rightarrow> False | Some bs \<Rightarrow> json_white_loop bs)"

text \<open>The machine that callers drive: \<open>JSON_parser_char(jc, (unsigned char) c)\<close>.\<close>

definition json_char :: "'c json_env \<Rightarrow> ('c json_parser, json_event) machine" where
  "json_char E jc c = JSON_parser_char E jc (uint c)"

abbreviation json_feed ::
    "'c json_env \<Rightarrow> 'c json_parser \<Rightarrow> byte list \<Rightarrow> 'c json_parser \<times> json_event list \<times> verdict" where
  "json_feed E \<equiv> feed (json_char E)"


section \<open>Invariant and callback protocol\<close>

datatype json_group = JG_Start | JG_Ok | JG_Key | JG_Value | JG_Array | JG_String | JG_Number |
  JG_Word | JG_Comment

fun json_group_of :: "json_state \<Rightarrow> json_group" where
  "json_group_of J_GO = JG_Start" | "json_group_of J_OK = JG_Ok"
| "json_group_of J_OB = JG_Key" | "json_group_of J_KE = JG_Key" | "json_group_of J_CO = JG_Key"
| "json_group_of J_VA = JG_Value" | "json_group_of J_AR = JG_Array"
| "json_group_of J_ST = JG_String" | "json_group_of J_ES = JG_String"
| "json_group_of J_U1 = JG_String" | "json_group_of J_U2 = JG_String"
| "json_group_of J_U3 = JG_String" | "json_group_of J_U4 = JG_String"
| "json_group_of J_D1 = JG_String" | "json_group_of J_D2 = JG_String"
| "json_group_of J_MI = JG_Number" | "json_group_of J_ZE = JG_Number"
| "json_group_of J_IT = JG_Number" | "json_group_of J_FR = JG_Number"
| "json_group_of J_E1 = JG_Number" | "json_group_of J_E2 = JG_Number"
| "json_group_of J_E3 = JG_Number" | "json_group_of J_FX = JG_Number"
| "json_group_of J_T1 = JG_Word" | "json_group_of J_T2 = JG_Word" | "json_group_of J_T3 = JG_Word"
| "json_group_of J_F1 = JG_Word" | "json_group_of J_F2 = JG_Word" | "json_group_of J_F3 = JG_Word"
| "json_group_of J_F4 = JG_Word"
| "json_group_of J_N1 = JG_Word" | "json_group_of J_N2 = JG_Word" | "json_group_of J_N3 = JG_Word"
| "json_group_of J_C1 = JG_Comment" | "json_group_of J_C2 = JG_Comment"
| "json_group_of J_C3 = JG_Comment"

text \<open>What each group of states says of the token type and of the mode on top of the stack.\<close>

fun json_group_ok :: "json_group \<Rightarrow> json_type \<Rightarrow> json_mode \<Rightarrow> bool" where
  "json_group_ok JG_Start t m = (t = JSON_T_NONE \<and> m = MODE_DONE)"
| "json_group_ok JG_Ok t m =
     ((t = JSON_T_NONE \<or> json_is_non_container_type t) \<and> t \<noteq> JSON_T_STRING \<and> m \<noteq> MODE_KEY \<and>
      (m = MODE_DONE \<longrightarrow> t = JSON_T_NONE))"
| "json_group_ok JG_Key t m = (t = JSON_T_NONE \<and> m = MODE_KEY)"
| "json_group_ok JG_Value t m = (t = JSON_T_NONE \<and> (m = MODE_ARRAY \<or> m = MODE_OBJECT))"
| "json_group_ok JG_Array t m = (t = JSON_T_NONE \<and> m = MODE_ARRAY)"
| "json_group_ok JG_String t m = (t = JSON_T_STRING \<and> m \<noteq> MODE_DONE)"
| "json_group_ok JG_Number t m =
     ((t = JSON_T_INTEGER \<or> t = JSON_T_FLOAT) \<and> (m = MODE_ARRAY \<or> m = MODE_OBJECT))"
| "json_group_ok JG_Word t m =
     ((t = JSON_T_TRUE \<or> t = JSON_T_FALSE \<or> t = JSON_T_NULL) \<and> (m = MODE_ARRAY \<or> m = MODE_OBJECT))"
| "json_group_ok JG_Comment t m = False"

text \<open>Below the top, the stack holds the enclosing containers and MODE_DONE at the bottom.\<close>

fun json_below :: "json_mode list \<Rightarrow> bool" where
  "json_below [] = False"
| "json_below (m # ms) =
     (if ms = [] then m = MODE_DONE else (m = MODE_ARRAY \<or> m = MODE_OBJECT) \<and> json_below ms)"

definition json_stack_ok :: "json_mode list \<Rightarrow> bool" where
  "json_stack_ok st \<longleftrightarrow>
     (case st of [] \<Rightarrow> False | m # ms \<Rightarrow> if ms = [] then m = MODE_DONE else m \<noteq> MODE_DONE \<and> json_below ms)"

definition json_is_hex :: "byte \<Rightarrow> bool" where
  "json_is_hex c \<longleftrightarrow> c \<in> set (bytes ''0123456789ABCDEFabcdef'')"

text \<open>Inside an escape the buffer ends with the part of it that has been read.\<close>

definition json_ends_hex :: "byte list \<Rightarrow> nat \<Rightarrow> bool" where
  "json_ends_hex buf n \<longleftrightarrow> (\<exists>p hs. buf = p @ [92, 117] @ hs \<and> length hs = n \<and> list_all json_is_hex hs)"

fun json_buf_ok :: "json_state \<Rightarrow> byte list \<Rightarrow> bool" where
  "json_buf_ok J_ES buf = (\<exists>p. buf = p @ [92])"
| "json_buf_ok J_D2 buf = (\<exists>p. buf = p @ [92])"
| "json_buf_ok J_U1 buf = json_ends_hex buf 0"
| "json_buf_ok J_U2 buf = json_ends_hex buf 1"
| "json_buf_ok J_U3 buf = json_ends_hex buf 2"
| "json_buf_ok J_U4 buf = json_ends_hex buf 3"
| "json_buf_ok J_C1 buf = (buf = [])"
| "json_buf_ok J_C2 buf = (buf = [])"
| "json_buf_ok J_C3 buf = (buf = [])"
| "json_buf_ok _ buf = True"

definition json_bounds :: "int \<Rightarrow> 'c json_parser \<Rightarrow> bool" where
  "json_bounds d jc \<longleftrightarrow>
     0 < d \<and> d < JSON_PARSER_STACK_SIZE \<and> jp_depth jc = d \<and> jp_stack_capacity jc = d \<and>
     jp_stack_static jc \<and> json_top jc \<le> d \<and> length (jp_buf jc) < jp_buf_capacity jc"

definition json_inv :: "int \<Rightarrow> 'c json_parser \<Rightarrow> bool" where
  "json_inv d jc \<longleftrightarrow>
     json_bounds d jc \<and> json_stack_ok (jp_stack jc) \<and>
     json_buf_ok (jp_state jc) (jp_buf jc) \<and>
     jp_escaped jc = (jp_state jc = J_ES) \<and>
     jp_comment jc = (json_group_of (jp_state jc) = JG_Comment) \<and>
     json_group_ok
       (json_group_of (if jp_comment jc then jp_before_comment_state jc else jp_state jc))
       (jp_type jc) (hd (jp_stack jc)) \<and>
     (jp_comment jc \<longrightarrow> jp_type jc = JSON_T_NONE)"

text \<open>
  The protocol of the callback: a stack of open containers; in an object a key must come before
  each value. The one departure is a closing bracket that does not match: the source calls the
  client before it looks at the stack. It is the last event, since the parser then refuses.
\<close>

datatype json_frame = F_Array | F_Key | F_Value

datatype json_phase = P_Start | P_In json_frame "json_frame list" | P_End | P_Broken

fun json_after_value :: "json_frame \<Rightarrow> json_frame option" where
  "json_after_value F_Array = Some F_Array"
| "json_after_value F_Value = Some F_Key"
| "json_after_value F_Key = None"

fun json_enter :: "json_frame \<Rightarrow> json_phase \<Rightarrow> json_phase option" where
  "json_enter new P_Start = Some (P_In new [])"
| "json_enter new (P_In f fs) =
     (case json_after_value f of None \<Rightarrow> None | Some f' \<Rightarrow> Some (P_In new (f' # fs)))"
| "json_enter new P_End = None"
| "json_enter new P_Broken = None"

fun json_leave :: "json_frame \<Rightarrow> json_phase \<Rightarrow> json_phase option" where
  "json_leave old P_Start = None"
| "json_leave old (P_In f fs) =
     (if f = old then Some (case fs of [] \<Rightarrow> P_End | f' # fs' \<Rightarrow> P_In f' fs')
      else if f = F_Value then None else Some P_Broken)"
| "json_leave old P_End = Some P_Broken"
| "json_leave old P_Broken = None"

text \<open>The shape of an event: which value comes with which type, integers in 64 bits.\<close>

fun json_event_ok :: "json_event \<Rightarrow> bool" where
  "json_event_ok (t, v) =
     (case v of
        JV_none \<Rightarrow> t \<notin> {JSON_T_NONE, JSON_T_INTEGER, JSON_T_FLOAT, JSON_T_STRING, JSON_T_KEY}
      | JV_float _ \<Rightarrow> t = JSON_T_FLOAT
      | JV_int i \<Rightarrow> t = JSON_T_INTEGER \<and> - (2 ^ 63) \<le> i \<and> i < 2 ^ 63
      | JV_str _ \<Rightarrow> t = JSON_T_STRING \<or> t = JSON_T_KEY \<or> t = JSON_T_FLOAT)"

lemma json_token_value_ok:
  "json_is_non_container_type (jp_type jc) \<Longrightarrow> json_event_ok (jp_type jc, json_token_value jc)"
  by (auto simp: json_is_non_container_type_def json_token_value_def sscanf_lld_def)

definition json_phase_next :: "json_phase \<Rightarrow> json_event \<Rightarrow> json_phase option" where
  "json_phase_next ph e =
     (if \<not> json_event_ok e then None else case fst e of
        JSON_T_NONE \<Rightarrow> None
      | JSON_T_ARRAY_BEGIN \<Rightarrow> json_enter F_Array ph
      | JSON_T_OBJECT_BEGIN \<Rightarrow> json_enter F_Key ph
      | JSON_T_ARRAY_END \<Rightarrow> json_leave F_Array ph
      | JSON_T_OBJECT_END \<Rightarrow> json_leave F_Key ph
      | JSON_T_KEY \<Rightarrow>
          (case ph of P_In f fs \<Rightarrow> if f = F_Key then Some (P_In F_Value fs) else None | _ \<Rightarrow> None)
      | _ \<Rightarrow>
          (case ph of
             P_In f fs \<Rightarrow> map_option (\<lambda>f'. P_In f' fs) (json_after_value f) | _ \<Rightarrow> None))"

definition json_frame_of :: "json_mode \<Rightarrow> json_frame" where
  "json_frame_of m = (if m = MODE_ARRAY then F_Array else F_Key)"

definition json_phase_at :: "json_state \<Rightarrow> json_type \<Rightarrow> json_mode list \<Rightarrow> json_phase" where
  "json_phase_at s t st =
     (if hd st = MODE_DONE then (if s = J_GO then P_Start else P_End)
      else P_In (if hd st = MODE_OBJECT \<and> \<not> (s = J_OK \<and> t = JSON_T_NONE) \<or>
                    hd st = MODE_KEY \<and> s = J_CO
                 then F_Value else json_frame_of (hd st))
             (map json_frame_of (butlast (tl st))))"

definition json_phase_of :: "'c json_parser \<Rightarrow> json_phase" where
  "json_phase_of jc =
     json_phase_at (if jp_comment jc then jp_before_comment_state jc else jp_state jc)
       (jp_type jc) (jp_stack jc)"

definition json_sim :: "'c json_env \<Rightarrow> int \<Rightarrow> json_phase \<Rightarrow> 'c json_parser \<Rightarrow> bool" where
  "json_sim E d ph jc \<longleftrightarrow> json_inv d jc \<and> (je_callback E \<noteq> None \<longrightarrow> ph = json_phase_of jc)"

abbreviation json_traced where "json_traced \<equiv> traced (run_list json_phase_next)"

lemma traced_emit:
  assumes "\<And>c. je_callback E \<noteq> None \<Longrightarrow> \<exists>ph'. json_phase_next ph (t, v) = Some ph' \<and> Q ph' (jc\<lparr>jp_ctx := c\<rparr>)"
    and "je_callback E = None \<Longrightarrow> Q ph jc"
  shows "json_traced ph (json_emit E t v jc) Q"
proof (cases "je_callback E")
  case None
  with assms(2) show ?thesis by (simp add: json_emit_def traced_accept)
next
  case (Some cb)
  obtain c' g where cb: "cb (jp_ctx jc) (t, v) = (c', g)" by (cases "cb (jp_ctx jc) (t, v)")
  with Some assms(1) [of c'] show ?thesis
    by (auto simp: json_emit_def traced_def split: if_splits)
qed


subsection \<open>Rules for the calls of a step\<close>





lemma traced_push [traced_rules]:
  assumes "json_bounds d jc"
  shows "json_traced ph (json_push E m jc) Q \<longleftrightarrow>
    json_top jc = d \<or> Q ph (jc\<lparr>jp_stack := m # jp_stack jc\<rparr>)"
  using assms
  by (simp add: json_push_def traced_rules json_bounds_def json_stack_room_def
      JSON_PARSER_STACK_SIZE_def)

lemma traced_pop [traced_rules]:
  "json_traced ph (json_pop m jc) Q \<longleftrightarrow>
    (case jp_stack jc of [] \<Rightarrow> True | m' # ms \<Rightarrow> m' = m \<longrightarrow> Q ph (jc\<lparr>jp_stack := ms\<rparr>))"
  by (simp add: json_pop_def traced_rules split: list.splits)

lemma traced_peek [traced_rules]:
  "json_traced ph (json_peek jc k) Q \<longleftrightarrow>
    (case jp_stack jc of [] \<Rightarrow> False | m # ms \<Rightarrow> json_traced ph (k m) Q)"
  by (simp add: json_peek_def traced_def split: list.splits)

lemma traced_pop_back [traced_rules]:
  "json_traced ph (parse_buffer_pop_back_char jc) Q \<longleftrightarrow>
    jp_buf jc \<noteq> [] \<and> Q ph (jc\<lparr>jp_buf := butlast (jp_buf jc)\<rparr>)"
  by (auto simp: parse_buffer_pop_back_char_def traced_rules Suc_le_eq)

lemma traced_push_back [traced_rules]:
  "json_traced ph (parse_buffer_push_back_char c jc) Q \<longleftrightarrow>
    parse_buffer_has_space_for jc 1 \<and> Q ph (jc\<lparr>jp_buf := jp_buf jc @ [c]\<rparr>)"
  by (auto simp: parse_buffer_push_back_char_def traced_rules)

lemma traced_go [traced_rules]: "json_traced ph (json_go s jc) Q \<longleftrightarrow> Q ph (jc\<lparr>jp_state := s\<rparr>)"
  by (simp add: json_go_def traced_rules)

lemma traced_type_go [traced_rules]:
  "json_traced ph (json_type_go t s jc) Q \<longleftrightarrow> Q ph (jc\<lparr>jp_type := t, jp_state := s\<rparr>)"
  by (simp add: json_type_go_def traced_rules)

lemma traced_close [traced_rules]:
  "json_traced ph (json_close m jc) Q \<longleftrightarrow>
    (case jp_stack jc of [] \<Rightarrow> True
     | m' # ms \<Rightarrow> m' = m \<longrightarrow> Q ph (jc\<lparr>jp_stack := ms, jp_type := JSON_T_NONE, jp_state := J_OK\<rparr>))"
  by (auto simp: json_close_def json_pop_def traced_rules refuse_def accept_def traced_def
      json_type_go_def split: list.splits)

lemma traced_parse_parse_buffer:
  assumes "jp_type jc \<noteq> JSON_T_NONE \<Longrightarrow> json_is_non_container_type (jp_type jc)"
    and "\<And>c. je_callback E \<noteq> None \<Longrightarrow> jp_type jc \<noteq> JSON_T_NONE \<Longrightarrow>
      \<exists>ph'. json_phase_next ph (jp_type jc, json_token_value jc) = Some ph' \<and>
        Q ph' (jc\<lparr>jp_ctx := c, jp_buf := []\<rparr>)"
    and "je_callback E = None \<or> jp_type jc = JSON_T_NONE \<Longrightarrow> Q ph (jc\<lparr>jp_buf := []\<rparr>)"
  shows "json_traced ph (parse_parse_buffer E jc) Q"
proof (cases "je_callback E = None \<or> jp_type jc = JSON_T_NONE")
  case True
  with assms(3) show ?thesis
    by (auto simp: parse_parse_buffer_def traced_rules parse_buffer_clear_def)
next
  case False
  with assms(1,2) show ?thesis
    by (simp add: parse_parse_buffer_def traced_rules parse_buffer_clear_def)
      (rule traced_emit; simp)
qed

lemma parse_buffer_reserve_for_cases:
  assumes "0 < jp_buf_capacity jc"
  obtains (ok) n st where "parse_buffer_reserve_for E k jc =
      accept (jc\<lparr>jp_buf_capacity := n, jp_buf_static := st\<rparr>)" "length (jp_buf jc) + k + 1 \<le> n"
    | (oom) jc' where "parse_buffer_reserve_for E k jc = refuse jc'" "jp_error jc' = JSON_E_OUT_OF_MEMORY"
  using assms
proof (induction E k jc arbitrary: thesis rule: parse_buffer_reserve_for.induct)
  case (1 E k jc)
  show ?case
  proof (cases "jp_buf_capacity jc < length (jp_buf jc) + k + 1")
    case False
    then have "parse_buffer_reserve_for E k jc =
        accept (jc\<lparr>jp_buf_capacity := jp_buf_capacity jc, jp_buf_static := jp_buf_static jc\<rparr>)"
      by (subst parse_buffer_reserve_for.simps) simp
    with 1(2) False show ?thesis by (metis not_less)
  next
    case True
    note less = True
    show ?thesis
    proof (cases "je_alloc E ''parse buffer'' (jp_buf_capacity jc * 2)")
      case False
      then have "parse_buffer_reserve_for E k jc = refuse (set_error_code JSON_E_OUT_OF_MEMORY jc)"
        by (subst parse_buffer_reserve_for.simps)
          (use less in \<open>simp add: parse_buffer_grow_def refuse_def set_error_code_def\<close>)
      with 1(3) show ?thesis by (simp add: set_error_code_def)
    next
      case True
      let ?jc = "jc\<lparr>jp_buf_capacity := jp_buf_capacity jc * 2, jp_buf_static := False\<rparr>"
      have g: "parse_buffer_grow E jc = (?jc, [], Accept)"
        using True 1(4) by (simp add: parse_buffer_grow_def accept_def)
      then have "parse_buffer_reserve_for E k jc = parse_buffer_reserve_for E k ?jc"
        by (subst parse_buffer_reserve_for.simps) (use less in simp)
      then have eq: "parse_buffer_reserve_for E k ?jc = parse_buffer_reserve_for E k jc" by simp
      show ?thesis
      proof (rule 1(1) [OF less g [symmetric] refl refl])
        show "0 < jp_buf_capacity ?jc" using 1(4) by simp
      next
        fix n st
        assume "parse_buffer_reserve_for E k ?jc = accept (?jc\<lparr>jp_buf_capacity := n, jp_buf_static := st\<rparr>)"
          and "length (jp_buf ?jc) + k + 1 \<le> n"
        with eq show thesis by (intro 1(2) [of st n]) simp_all
      next
        fix jc'
        assume "parse_buffer_reserve_for E k ?jc = refuse jc'" "jp_error jc' = JSON_E_OUT_OF_MEMORY"
        with eq show thesis by (intro 1(3) [of jc']) simp_all
      qed
    qed
  qed
qed

text \<open>What an escape leaves in the buffer in place of the backslash.\<close>

definition json_escape :: "int \<Rightarrow> byte list option" where
  "json_escape ch =
     (if ch = 98 then Some [8] else if ch = 102 then Some [12] else if ch = 110 then Some [10]
      else if ch = 114 then Some [13] else if ch = 116 then Some [9] else if ch = 34 then Some [34]
      else if ch = 92 then Some [92] else if ch = 47 then Some [47]
      else if ch = 117 then Some [92, 117] else None)"

lemma add_escaped_char_eval:
  assumes "jp_buf jc \<noteq> []" "length (jp_buf jc) + 2 \<le> jp_buf_capacity jc"
  shows "add_escaped_char_to_parse_buffer ch jc =
    (case json_escape ch of
       None \<Rightarrow> refuse (jc\<lparr>jp_escaped := False, jp_buf := butlast (jp_buf jc)\<rparr>)
     | Some e \<Rightarrow> accept (jc\<lparr>jp_escaped := False, jp_buf := butlast (jp_buf jc) @ e\<rparr>))"
proof -
  have "1 \<le> length (jp_buf jc)" using assms(1) by (cases "jp_buf jc") auto
  with assms show ?thesis
    by (simp add: add_escaped_char_to_parse_buffer_def parse_buffer_pop_back_char_def
        parse_buffer_push_back_char_def parse_buffer_has_space_for_def json_escape_def)
qed

lemma traced_add_char:
  assumes "length (jp_buf jc) < jp_buf_capacity jc" "jp_escaped jc \<Longrightarrow> jp_buf jc \<noteq> []"
    and "\<And>n st. length (jp_buf jc) + 2 \<le> n \<Longrightarrow>
      (let jc = jc\<lparr>jp_buf_capacity := n, jp_buf_static := st\<rparr> in
       if jp_escaped jc
       then (case json_escape ch of None \<Rightarrow> True
             | Some e \<Rightarrow> Q ph (jc\<lparr>jp_escaped := False, jp_buf := butlast (jp_buf jc) @ e\<rparr>))
       else if \<not> jp_comment jc \<and> (jp_type jc \<noteq> JSON_T_NONE \<or> \<not> json_blank k)
       then Q ph (jc\<lparr>jp_buf := jp_buf jc @ [word_of_int ch]\<rparr>)
       else Q ph jc)"
  shows "json_traced ph (add_char_to_parse_buffer E ch k jc) Q"
proof -
  from assms(1) have "0 < jp_buf_capacity jc" by simp
  then show ?thesis
  proof (cases rule: parse_buffer_reserve_for_cases [where E = E and k = 1])
  case (ok n st)
  let ?jc = "jc\<lparr>jp_buf_capacity := n, jp_buf_static := st\<rparr>"
  from ok(2) have n: "length (jp_buf jc) + 2 \<le> n" by simp
  note q = assms(3) [OF n, of st, unfolded Let_def]
  show ?thesis
  proof (cases "jp_escaped jc")
    case True
    with q n assms(2) show ?thesis
      unfolding add_char_to_parse_buffer_def ok(1)
      by (simp add: accept_def [of ?jc] add_escaped_char_eval)
        (auto simp: refuse_def accept_def traced_def set_error_code_def split: option.splits)
  next
    case False
    with q n show ?thesis
      unfolding add_char_to_parse_buffer_def ok(1)
      by (auto simp: accept_def [of ?jc] traced_rules parse_buffer_has_space_for_def)
  qed
next
  case (oom jc')
  then show ?thesis
    unfolding add_char_to_parse_buffer_def oom(1)
    by (simp add: refuse_def traced_def)
  qed
qed

subsection \<open>Facts of the tables\<close>

lemma json_cell_in_row: "json_cell s k \<in> set (json_row s)"
proof -
  have "length (json_row s) = 32" by (cases s) simp_all
  moreover have "json_column k < 32" by (cases k) simp_all
  ultimately show ?thesis by (simp add: json_cell_def)
qed

lemma json_go_src:
  "json_cell s k = JGo s' \<Longrightarrow>
    s' = s \<and> json_group_of s \<notin> {JG_Comment, JG_Number} \<and> s \<notin> {J_ES, J_U1, J_U2, J_U3, J_U4, J_D1, J_D2} \<or>
    json_group_of s = JG_Comment \<and> json_group_of s' = JG_Comment \<or>
    json_group_of s = JG_Number \<and> json_group_of s' = JG_Number \<or>
    json_group_of s = JG_Word \<and> json_group_of s' = JG_Word \<or>
    (json_group_of s = JG_Number \<or> json_group_of s = JG_Word) \<and> s' = J_OK \<or>
    s = J_ES \<and> s' = J_ST \<or> (s, s') \<in> {(J_ES, J_U1), (J_U1, J_U2), (J_U2, J_U3), (J_U3, J_U4),
      (J_D1, J_D2), (J_D2, J_U1)}"
  using json_cell_in_row [of s k] by (cases s) auto

fun json_src :: "json_action \<Rightarrow> json_state list" where
  "json_src JA_CB = [J_GO, J_OK, J_OB, J_KE, J_CO, J_VA, J_AR, J_ZE, J_IT, J_FR, J_T3, J_F4, J_N3]"
| "json_src JA_CE = [J_C3]" | "json_src JA_FA = [J_VA, J_AR]" | "json_src JA_TR = [J_VA, J_AR]"
| "json_src JA_NU = [J_VA, J_AR]" | "json_src JA_DE = [J_IT]" | "json_src JA_DF = [J_ZE, J_IT]"
| "json_src JA_SB = [J_OB, J_KE, J_VA, J_AR]" | "json_src JA_MX = [J_VA, J_AR]"
| "json_src JA_ZX = [J_VA, J_AR]" | "json_src JA_IX = [J_VA, J_AR]" | "json_src JA_EX = [J_ST]"
| "json_src JA_UC = [J_U4]" | "json_src JA_COLON = [J_CO]"
| "json_src JA_COMMA = [J_OK, J_ZE, J_IT, J_FR, J_E3, J_FX]" | "json_src JA_QUOTE = [J_ST]"
| "json_src JA_LSQRB = [J_GO, J_VA, J_AR]" | "json_src JA_LCURB = [J_GO, J_VA, J_AR]"
| "json_src JA_RSQRB = [J_OK, J_AR, J_ZE, J_IT, J_FR, J_E3, J_FX]"
| "json_src JA_RCURB = [J_OK, J_ZE, J_IT, J_FR, J_E3, J_FX]" | "json_src JA_EMPTY = [J_OB]"

lemma json_act_src: "json_cell s k = JAct a \<Longrightarrow> s \<in> set (json_src a)"
  using json_cell_in_row [of s k] by (cases s) auto

lemma json_act_not_blank: "json_cell s k = JAct a \<Longrightarrow> \<not> json_blank k"
  by (cases s) (auto simp: json_cell_def json_blank_def)

lemma json_escape_column:
  "json_cell J_ES k = JGo J_U1 \<Longrightarrow> k = JC_LOW_U" "json_cell J_D2 k = JGo J_U1 \<Longrightarrow> k = JC_LOW_U"
  "json_cell J_D1 k = JGo J_D2 \<Longrightarrow> k = JC_BACKS" "json_cell s k = JAct JA_DF \<Longrightarrow> k = JC_POINT"
  "json_cell J_ST k = JAct JA_EX \<Longrightarrow> k = JC_BACKS"
proof -
  show "json_cell J_ES k = JGo J_U1 \<Longrightarrow> k = JC_LOW_U" by (cases k) (simp_all add: json_cell_def)
  show "json_cell J_D2 k = JGo J_U1 \<Longrightarrow> k = JC_LOW_U" by (cases k) (simp_all add: json_cell_def)
  show "json_cell J_D1 k = JGo J_D2 \<Longrightarrow> k = JC_BACKS" by (cases k) (simp_all add: json_cell_def)
  show "json_cell J_ST k = JAct JA_EX \<Longrightarrow> k = JC_BACKS" by (cases k) (simp_all add: json_cell_def)
  assume df: "json_cell s k = JAct JA_DF"
  with json_act_src have "s = J_ZE \<or> s = J_IT" by fastforce
  with df show "k = JC_POINT" by (cases k) (auto simp: json_cell_def)
qed

definition json_hex_class :: "json_class \<Rightarrow> bool" where
  "json_hex_class k \<longleftrightarrow> k \<in> {JC_ZERO, JC_DIGIT, JC_LOW_A, JC_LOW_B, JC_LOW_C, JC_LOW_D, JC_LOW_E,
     JC_LOW_F, JC_ABCDF, JC_E}"

lemma json_hex_column:
  assumes "s \<in> {J_U1, J_U2, J_U3, J_U4}" "json_cell s k \<noteq> JX"
  shows "json_hex_class k"
  using assms by (cases k) (auto simp: json_cell_def json_hex_class_def)

definition json_hex_code :: "nat \<Rightarrow> bool" where
  "json_hex_code n \<longleftrightarrow> 48 \<le> n \<and> n \<le> 57 \<or> 65 \<le> n \<and> n \<le> 70 \<or> 97 \<le> n \<and> n \<le> 102"

fun json_ascii_ok :: "nat \<Rightarrow> json_class option \<Rightarrow> bool" where
  "json_ascii_ok n None = True"
| "json_ascii_ok n (Some k) =
     ((k = JC_LOW_U \<longrightarrow> n = 117) \<and> (k = JC_BACKS \<longrightarrow> n = 92) \<and> (k = JC_POINT \<longrightarrow> n = 46) \<and>
      (json_hex_class k \<longrightarrow> json_hex_code n))"

lemma json_ascii_table: "list_all (\<lambda>n. json_ascii_ok n (json_ascii_class ! n)) [0..<128]"
  by (simp add: json_ascii_class_def json_hex_class_def json_hex_code_def upt_rec)

lemma json_hex_code_list:
  "json_hex_code n \<Longrightarrow> n \<in> set (map unat (bytes ''0123456789ABCDEFabcdef''))"
  by (simp add: json_hex_code_def) arith

lemma json_class_char:
  assumes "json_class_of (uint c) = Some k"
  shows "k = JC_LOW_U \<Longrightarrow> c = 117" "k = JC_BACKS \<Longrightarrow> c = 92" "k = JC_POINT \<Longrightarrow> c = 46"
    "json_hex_class k \<Longrightarrow> json_is_hex c"
proof -
  have tab: "json_ascii_ok (unat c) (Some k)"
  proof (cases "k = JC_ETC")
    case True
    then show ?thesis by (simp add: json_hex_class_def)
  next
    case False
    with assms have lt: "uint c < 128" and "json_ascii_class ! nat (uint c) = Some k"
      by (simp_all add: json_class_of_def split: if_splits)
    then have k: "json_ascii_class ! unat c = Some k" by (simp only: unat_eq_nat_uint)
    from lt have "unat c < 128" by (simp only: unat_eq_nat_uint)
    then have "unat c \<in> set [0..<128]" by simp
    with json_ascii_table have "json_ascii_ok (unat c) (json_ascii_class ! unat c)"
      unfolding list_all_iff by (rule bspec)
    then show ?thesis by (simp only: k)
  qed
  have w: "unat c = unat d \<Longrightarrow> c = d" for d by (simp add: word_unat_eq_iff)
  show "k = JC_LOW_U \<Longrightarrow> c = 117" "k = JC_BACKS \<Longrightarrow> c = 92" "k = JC_POINT \<Longrightarrow> c = 46"
    using tab w by simp_all
  show "json_is_hex c" if "json_hex_class k"
  proof -
    from that tab have "json_hex_code (unat c)" by simp
    then have "unat c \<in> unat ` set (bytes ''0123456789ABCDEFabcdef'')"
      using json_hex_code_list unfolding set_map by blast
    then obtain d where "unat c = unat d" "d \<in> set (bytes ''0123456789ABCDEFabcdef'')"
      by (rule imageE)
    with w [of d] show ?thesis unfolding json_is_hex_def by (simp only:)
  qed
qed

lemma json_hex_digit_less: "json_is_hex c \<Longrightarrow> json_hex_digit c < 16"
  by (auto simp: json_is_hex_def json_hex_digit_def)

lemma json_hex_loop_Some: "list_all json_is_hex hs \<Longrightarrow> \<exists>uc. json_hex_loop a hs = Some uc"
  by (induction hs arbitrary: a) (auto simp: json_hex_digit_less Let_def)

subsection \<open>The step keeps the invariant and the protocol\<close>

text \<open>Between the two halves of a step: the character is in the buffer, the state is the old one.\<close>

definition json_mid :: "int \<Rightarrow> json_class \<Rightarrow> byte \<Rightarrow> 'c json_parser \<Rightarrow> bool" where
  "json_mid d k c jc \<longleftrightarrow>
     json_bounds d jc \<and> json_stack_ok (jp_stack jc) \<and> \<not> jp_escaped jc \<and>
     jp_comment jc = (json_group_of (jp_state jc) = JG_Comment) \<and>
     json_group_ok
       (json_group_of (if jp_comment jc then jp_before_comment_state jc else jp_state jc))
       (jp_type jc) (hd (jp_stack jc)) \<and>
     (jp_comment jc \<longrightarrow> jp_type jc = JSON_T_NONE \<and> jp_buf jc = []) \<and>
     (\<not> jp_comment jc \<longrightarrow> jp_state jc \<noteq> J_ES \<longrightarrow> jp_type jc \<noteq> JSON_T_NONE \<or> \<not> json_blank k \<longrightarrow>
       (\<exists>b. jp_buf jc = b @ [c] \<and> json_buf_ok (jp_state jc) b)) \<and>
     (jp_state jc = J_ES \<longrightarrow> (\<exists>p e. jp_buf jc = p @ e \<and> json_escape (uint c) = Some e))"

lemma json_group_comment: "json_group_of s = JG_Comment \<longleftrightarrow> s = J_C1 \<or> s = J_C2 \<or> s = J_C3"
  by (cases s) auto

lemma json_buf_comment: "json_group_of s = JG_Comment \<Longrightarrow> json_buf_ok s b \<longleftrightarrow> b = []"
  by (cases s) auto

lemma json_escape_length: "json_escape ch = Some e \<Longrightarrow> length e \<le> 2"
  by (auto simp: json_escape_def split: if_splits)

lemma json_mid_add_char:
  assumes inv: "json_inv d jc"
    and Q: "\<And>jc'. json_mid d k c jc' \<Longrightarrow> json_phase_of jc' = json_phase_of jc \<Longrightarrow> jp_state jc' = jp_state jc \<Longrightarrow> Q ph jc'"
  shows "json_traced ph (add_char_to_parse_buffer E (uint c) k jc) Q"
proof (rule traced_add_char)
  show "length (jp_buf jc) < jp_buf_capacity jc"
    using inv by (simp add: json_inv_def json_bounds_def)
  show "jp_escaped jc \<Longrightarrow> jp_buf jc \<noteq> []"
    using inv by (auto simp: json_inv_def)
next
  fix n st assume n: "length (jp_buf jc) + 2 \<le> n"
  show "let jc = jc\<lparr>jp_buf_capacity := n, jp_buf_static := st\<rparr> in
       if jp_escaped jc
       then (case json_escape (uint c) of None \<Rightarrow> True
             | Some e \<Rightarrow> Q ph (jc\<lparr>jp_escaped := False, jp_buf := butlast (jp_buf jc) @ e\<rparr>))
       else if \<not> jp_comment jc \<and> (jp_type jc \<noteq> JSON_T_NONE \<or> \<not> json_blank k)
       then Q ph (jc\<lparr>jp_buf := jp_buf jc @ [word_of_int (uint c)]\<rparr>)
       else Q ph jc"
  proof (cases "jp_escaped jc")
    case True
    with inv obtain p where "jp_state jc = J_ES" "jp_buf jc = p @ [92]" "\<not> jp_comment jc"
      by (auto simp: json_inv_def)
    moreover from this have "json_escape (uint c) = Some e \<Longrightarrow> length p + length e < n" for e
      using n json_escape_length [of "uint c" e] by simp
    ultimately show ?thesis using inv True
      by (auto simp: Let_def json_inv_def json_mid_def json_bounds_def json_top_def json_phase_of_def
          split: option.splits intro!: Q)
  next
    case False
    with inv n show ?thesis
      by (auto simp: Let_def json_inv_def json_mid_def json_bounds_def json_top_def json_phase_of_def
          json_buf_comment intro!: Q)
  qed
qed

lemmas json_defs = json_sim_def json_inv_def json_bounds_def json_top_def json_phase_of_def
  json_phase_at_def

lemma json_stack_cases:
  assumes "json_stack_ok st"
  obtains (bottom) "st = [MODE_DONE]"
    | (nested) m ms where "st = m # ms" "m \<noteq> MODE_DONE" "json_below ms"
  using assms by (auto simp: json_stack_ok_def split: list.splits if_splits)

lemma json_below_stack: "json_below ms \<Longrightarrow> json_stack_ok ms"
  by (cases ms) (auto simp: json_stack_ok_def)

lemma json_below_butlast:
  "json_below ms \<Longrightarrow> ms \<noteq> [] \<and> last ms = MODE_DONE \<and> (hd ms = MODE_DONE \<longrightarrow> ms = [MODE_DONE]) \<and> hd ms \<noteq> MODE_KEY"
  by (induction ms) (auto split: if_splits)

lemma json_phase_at_cong:
  "hd st \<noteq> MODE_DONE \<Longrightarrow> (s = J_OK \<and> t = JSON_T_NONE) = (s' = J_OK \<and> t' = JSON_T_NONE) \<Longrightarrow>
   (s = J_CO) = (s' = J_CO) \<Longrightarrow> json_phase_at s t st = json_phase_at s' t' st"
  by (simp add: json_phase_at_def)

lemmas json_inv_defs = json_inv_def json_mid_def json_bounds_def json_top_def

lemma json_simI:
  "json_inv d jc' \<Longrightarrow> (je_callback E \<noteq> None \<Longrightarrow> ph = json_phase_of jc') \<Longrightarrow> json_sim E d ph jc'"
  by (simp add: json_sim_def)

text \<open>The step's middle outside comments and escapes, with the character at the end of the buffer.\<close>

definition json_open ::
    "'c json_env \<Rightarrow> int \<Rightarrow> json_phase \<Rightarrow> byte list \<Rightarrow> 'c json_parser \<Rightarrow> bool" where
  "json_open E d ph b jc \<longleftrightarrow>
     json_bounds d jc \<and> length b \<le> length (jp_buf jc) \<and> json_stack_ok (jp_stack jc) \<and> \<not> jp_escaped jc \<and>
     \<not> jp_comment jc \<and>
     json_group_ok (json_group_of (jp_state jc)) (jp_type jc) (hd (jp_stack jc)) \<and>
     (je_callback E \<noteq> None \<longrightarrow> ph = json_phase_at (jp_state jc) (jp_type jc) (jp_stack jc))"

lemma json_mid_open:
  assumes "json_mid d k c jc" "\<not> json_blank k" "je_callback E \<noteq> None \<longrightarrow> ph = json_phase_of jc"
    and "json_group_of (jp_state jc) \<noteq> JG_Comment" "jp_state jc \<noteq> J_ES"
  shows "\<exists>b. jp_buf jc = b @ [c] \<and> json_buf_ok (jp_state jc) b \<and> json_open E d ph b jc"
  using assms by (auto simp: json_mid_def json_phase_of_def json_open_def)

lemma json_sim_open:
  assumes "json_open E d ph (jp_buf jc) (jc\<lparr>jp_escaped := False\<rparr>)" "json_buf_ok (jp_state jc) (jp_buf jc)"
    "jp_escaped jc = (jp_state jc = J_ES)" "json_group_of (jp_state jc) \<noteq> JG_Comment"
  shows "json_sim E d ph jc"
  using assms by (simp add: json_open_def json_sim_def json_inv_def json_phase_of_def json_bounds_def json_top_def)

lemma json_act_token:
  assumes mid: "json_mid d k c jc" and ph: "je_callback E \<noteq> None \<longrightarrow> ph = json_phase_of jc"
    and src: "jp_state jc = J_VA \<or> jp_state jc = J_AR"
    and s: "json_group_ok (json_group_of s) t MODE_ARRAY" "json_group_ok (json_group_of s) t MODE_OBJECT"
       "\<And>b. json_buf_ok s b" "s \<noteq> J_ES" "s \<noteq> J_OK" "json_group_of s \<noteq> JG_Comment"
  shows "json_sim E d ph (jc\<lparr>jp_type := t, jp_state := s\<rparr>)"
proof (rule json_simI)
  show "json_inv d (jc\<lparr>jp_type := t, jp_state := s\<rparr>)"
    using mid src s by (auto simp: json_inv_defs)
  have "s \<noteq> J_CO" using s(1) by auto
  then show "ph = json_phase_of (jc\<lparr>jp_type := t, jp_state := s\<rparr>)" if "je_callback E \<noteq> None"
    using mid src s(5,6) ph that
    by (auto simp: json_mid_def json_phase_of_def intro!: json_phase_at_cong)
qed

lemma json_act_number:
  assumes "json_mid d k c jc" "je_callback E \<noteq> None \<longrightarrow> ph = json_phase_of jc"
    and "jp_state jc \<in> set (json_src a)" "a \<in> {JA_MX, JA_ZX, JA_IX, JA_NU, JA_FA, JA_TR}"
  shows "json_traced ph (json_action_step E a jc) (json_sim E d)"
proof -
  from assms(3,4) have src: "jp_state jc = J_VA \<or> jp_state jc = J_AR" by auto
  with assms(1) have "jp_type jc = JSON_T_NONE" by (auto simp: json_mid_def)
  with assms(4) json_act_token [OF assms(1,2) src] show ?thesis
    by (auto simp: traced_rules)
qed

lemma json_bounds_upd [simp]:
  "json_bounds d (jc\<lparr>jp_state := s\<rparr>) = json_bounds d jc"
  "json_bounds d (jc\<lparr>jp_type := t\<rparr>) = json_bounds d jc"
  "json_bounds d (jc\<lparr>jp_ctx := x\<rparr>) = json_bounds d jc"
  "json_bounds d (jc\<lparr>jp_escaped := e\<rparr>) = json_bounds d jc"
  "json_bounds d (jc\<lparr>jp_comment := e\<rparr>) = json_bounds d jc"
  "json_bounds d (jc\<lparr>jp_before_comment_state := s\<rparr>) = json_bounds d jc"
  "json_bounds d (jc\<lparr>jp_utf16_high_surrogate := h\<rparr>) = json_bounds d jc"
  "json_bounds d (jc\<lparr>jp_current_char := ch\<rparr>) = json_bounds d jc"
  by (simp_all add: json_bounds_def json_top_def)

lemma json_bounds_buf:
  "json_bounds d jc \<Longrightarrow> length b \<le> length (jp_buf jc) \<Longrightarrow> json_bounds d (jc\<lparr>jp_buf := b\<rparr>)"
  by (simp add: json_bounds_def json_top_def)

lemma json_act_double:
  assumes "json_open E d ph b jc" "jp_state jc = J_IT"
  shows "json_traced ph (json_action_step E JA_DE jc) (json_sim E d)"
proof -
  from assms have t: "jp_type jc = JSON_T_INTEGER \<or> jp_type jc = JSON_T_FLOAT"
    and m: "hd (jp_stack jc) = MODE_ARRAY \<or> hd (jp_stack jc) = MODE_OBJECT"
    by (simp_all add: json_open_def)
  have "json_sim E d ph (jc\<lparr>jp_type := JSON_T_FLOAT, jp_state := J_E1\<rparr>)"
    by (rule json_sim_open) (use assms m t in \<open>auto simp: json_open_def intro!: json_phase_at_cong\<close>)
  with t show ?thesis
    by (auto simp: traced_rules json_not_string_null_or_bool_def)
qed

lemma json_act_point:
  assumes "json_open E d ph b jc" "jp_buf jc = b @ [46]" "jp_state jc = J_ZE \<or> jp_state jc = J_IT"
  shows "json_traced ph (json_action_step E JA_DF jc) (json_sim E d)"
proof -
  from assms have t: "jp_type jc = JSON_T_INTEGER \<or> jp_type jc = JSON_T_FLOAT"
    and m: "hd (jp_stack jc) = MODE_ARRAY \<or> hd (jp_stack jc) = MODE_OBJECT"
    by (auto simp: json_open_def)
  have "json_sim E d ph (jc\<lparr>jp_buf := b @ [x], jp_type := JSON_T_FLOAT, jp_state := J_FX\<rparr>)" for x
    by (rule json_sim_open)
      (use assms m t in \<open>auto simp: json_open_def json_bounds_def json_top_def intro!: json_phase_at_cong\<close>)
  moreover have "json_sim E d ph (jc\<lparr>jp_type := JSON_T_FLOAT, jp_state := J_FX\<rparr>)"
    by (rule json_sim_open)
      (use assms m t in \<open>auto simp: json_open_def json_bounds_def json_top_def intro!: json_phase_at_cong\<close>)
  ultimately show ?thesis using t assms(2)
    by (simp add: traced_rules json_not_string_null_or_bool_def) fastforce
qed

lemma json_act_string_begin:
  assumes "json_open E d ph b jc" "jp_state jc \<in> set (json_src JA_SB)"
  shows "json_traced ph (json_action_step E JA_SB jc) (json_sim E d)"
proof -
  from assms have t: "jp_type jc = JSON_T_NONE" and m: "hd (jp_stack jc) \<noteq> MODE_DONE"
    by (auto simp: json_open_def)
  have "json_sim E d ph (jc\<lparr>jp_buf := [], jp_type := JSON_T_STRING, jp_state := J_ST\<rparr>)"
    by (rule json_sim_open)
      (use assms m t in \<open>auto simp: json_open_def json_bounds_def json_top_def intro!: json_phase_at_cong\<close>)
  with t show ?thesis by (simp add: traced_rules parse_buffer_clear_def)
qed

lemma json_act_escape:
  assumes "json_open E d ph b jc" "jp_buf jc = b @ [92]" "jp_state jc = J_ST"
  shows "json_traced ph (json_action_step E JA_EX jc) (json_sim E d)"
proof -
  from assms have m: "hd (jp_stack jc) \<noteq> MODE_DONE" by (simp add: json_open_def)
  have "json_sim E d ph (jc\<lparr>jp_escaped := True, jp_state := J_ES\<rparr>)"
    by (rule json_sim_open)
      (use assms m in \<open>auto simp: json_open_def json_bounds_def json_top_def intro!: json_phase_at_cong\<close>)
  then show ?thesis by (simp add: traced_rules)
qed

lemma json_group_ok_none:
  "json_group_ok (json_group_of s) JSON_T_NONE m \<Longrightarrow> json_buf_ok s b \<and> s \<noteq> J_ES \<and> json_group_of s \<noteq> JG_Comment"
  by (cases s) auto

lemma json_act_comment_end:
  assumes "json_mid d k c jc" "je_callback E \<noteq> None \<longrightarrow> ph = json_phase_of jc"
    and "jp_state jc = J_C3"
  shows "json_traced ph (json_action_step E JA_CE jc) (json_sim E d)"
  using assms
  by (auto simp: traced_rules json_defs json_mid_def dest: json_group_ok_none)

subsubsection \<open>Events\<close>

lemma json_phase_value:
  "json_is_non_container_type t \<Longrightarrow> json_event_ok (t, v) \<Longrightarrow> hd st = MODE_ARRAY \<or> hd st = MODE_OBJECT \<Longrightarrow>
   json_phase_next (json_phase_at s t st) (t, v) = Some (json_phase_at J_OK JSON_T_NONE st)"
  by (auto simp: json_is_non_container_type_def json_phase_next_def json_phase_at_def
      json_frame_of_def)

lemma json_phase_key:
  "hd st = MODE_KEY \<Longrightarrow> s \<noteq> J_CO \<Longrightarrow>
   json_phase_next (json_phase_at s t st) (JSON_T_KEY, JV_str v) = Some (json_phase_at J_CO JSON_T_NONE st)"
  by (simp add: json_phase_next_def json_phase_at_def json_frame_of_def)

fun json_begin :: "json_mode \<Rightarrow> json_type" where
  "json_begin MODE_ARRAY = JSON_T_ARRAY_BEGIN"
| "json_begin _ = JSON_T_OBJECT_BEGIN"

fun json_end :: "json_mode \<Rightarrow> json_type" where
  "json_end MODE_ARRAY = JSON_T_ARRAY_END"
| "json_end _ = JSON_T_OBJECT_END"

lemma json_phase_begin:
  assumes "json_stack_ok st" "json_group_ok (json_group_of s) JSON_T_NONE (hd st)"
    "s = J_GO \<or> s = J_VA \<or> s = J_AR" "m = MODE_ARRAY \<and> s' = J_AR \<or> m = MODE_KEY \<and> s' = J_OB"
  shows "json_phase_next (json_phase_at s JSON_T_NONE st) (json_begin m, JV_none) =
    Some (json_phase_at s' JSON_T_NONE (m # st))"
  using assms(1)
proof (cases rule: json_stack_cases)
  case bottom
  with assms show ?thesis
    by (auto simp: json_phase_next_def json_phase_at_def json_frame_of_def)
next
  case (nested n ms)
  with json_below_butlast [of ms] assms show ?thesis
    by (auto simp: json_phase_next_def json_phase_at_def json_frame_of_def)
qed

lemma json_phase_end:
  assumes "json_stack_ok st" "s = J_OK \<and> hd st \<noteq> MODE_KEY \<or> s = J_OB \<and> hd st = MODE_KEY"
    "m = MODE_ARRAY \<or> m = MODE_OBJECT \<or> m = MODE_KEY \<and> s = J_OB"
  shows "\<exists>ph. json_phase_next (json_phase_at s JSON_T_NONE st) (json_end m, JV_none) = Some ph \<and>
    (hd st = m \<longrightarrow> ph = json_phase_at J_OK JSON_T_NONE (tl st))"
  using assms(1)
proof (cases rule: json_stack_cases)
  case bottom
  with assms show ?thesis
    by (auto simp: json_phase_next_def json_phase_at_def json_frame_of_def)
next
  case (nested n ms)
  then obtain m' ms' where ms: "ms = m' # ms'" by (cases ms) auto
  show ?thesis
  proof (cases ms')
    case Nil
    with nested ms assms show ?thesis
      by (auto simp: json_phase_next_def json_phase_at_def json_frame_of_def)
  next
    case (Cons m'' ms'')
    with nested ms assms show ?thesis
      by (auto simp: json_phase_next_def json_phase_at_def json_frame_of_def)
  qed
qed

subsubsection \<open>Tokens and brackets\<close>

lemma traced_flush:
  assumes op: "json_open E d ph b jc"
    and ty: "jp_type jc \<noteq> JSON_T_NONE \<Longrightarrow>
      json_is_non_container_type (jp_type jc) \<and> (hd (jp_stack jc) = MODE_ARRAY \<or> hd (jp_stack jc) = MODE_OBJECT)"
    and Q: "\<And>x ph'. (je_callback E \<noteq> None \<Longrightarrow>
        ph' = json_phase_at (if jp_type jc = JSON_T_NONE then jp_state jc else J_OK) JSON_T_NONE (jp_stack jc)) \<Longrightarrow>
      Q ph' (jc\<lparr>jp_ctx := x, jp_buf := []\<rparr>)"
  shows "json_traced ph (parse_parse_buffer E (jc\<lparr>jp_buf := b\<rparr>)) Q"
proof (rule traced_parse_parse_buffer)
  show "json_is_non_container_type (jp_type (jc\<lparr>jp_buf := b\<rparr>))"
    if "jp_type (jc\<lparr>jp_buf := b\<rparr>) \<noteq> JSON_T_NONE"
    using that ty by simp
next
  fix c assume cb: "je_callback E \<noteq> None" and t: "jp_type (jc\<lparr>jp_buf := b\<rparr>) \<noteq> JSON_T_NONE"
  let ?v = "(jp_type jc, json_token_value (jc\<lparr>jp_buf := b\<rparr>))"
  from cb op have "ph = json_phase_at (jp_state jc) (jp_type jc) (jp_stack jc)" by (simp add: json_open_def)
  moreover have "json_event_ok ?v" if "json_is_non_container_type (jp_type jc)"
    using json_token_value_ok [of "jc\<lparr>jp_buf := b\<rparr>"] that by simp
  ultimately have "json_phase_next ph ?v = Some (json_phase_at J_OK JSON_T_NONE (jp_stack jc))"
    using t ty json_phase_value by simp
  with Q [of "json_phase_at J_OK JSON_T_NONE (jp_stack jc)" c] t
  show "\<exists>ph'. json_phase_next ph (jp_type (jc\<lparr>jp_buf := b\<rparr>), json_token_value (jc\<lparr>jp_buf := b\<rparr>)) = Some ph' \<and>
      Q ph' (jc\<lparr>jp_buf := b, jp_ctx := c, jp_buf := []\<rparr>)"
    by simp
next
  assume "je_callback E = None \<or> jp_type (jc\<lparr>jp_buf := b\<rparr>) = JSON_T_NONE"
  with op have "Q ph (jc\<lparr>jp_ctx := jp_ctx jc, jp_buf := []\<rparr>)"
    by (intro Q) (auto simp: json_open_def)
  then show "Q ph (jc\<lparr>jp_buf := b, jp_buf := []\<rparr>)" by simp
qed

lemma json_open_flush_type:
  assumes "json_open E d ph b jc"
    and "jp_state jc \<in> {J_GO, J_OK, J_OB, J_KE, J_CO, J_VA, J_AR, J_ZE, J_IT, J_FR, J_E3, J_FX, J_T3, J_F4, J_N3, J_ST}"
    and "jp_state jc = J_ST \<Longrightarrow> hd (jp_stack jc) \<noteq> MODE_KEY" "jp_type jc \<noteq> JSON_T_NONE"
  shows "json_is_non_container_type (jp_type jc) \<and> (hd (jp_stack jc) = MODE_ARRAY \<or> hd (jp_stack jc) = MODE_OBJECT)"
  using assms by (cases "hd (jp_stack jc)") (auto simp: json_open_def json_is_non_container_type_def)

lemma json_close_sim:
  assumes "json_bounds d jc" "json_stack_ok (jp_stack jc)" "m = MODE_ARRAY \<or> m = MODE_OBJECT"
    "\<not> jp_escaped jc" "\<not> jp_comment jc"
    "je_callback E \<noteq> None \<Longrightarrow> hd (jp_stack jc) = m \<Longrightarrow> ph = json_phase_at J_OK JSON_T_NONE (tl (jp_stack jc))"
  shows "json_traced ph (json_close m jc) (json_sim E d)"
proof (cases "jp_stack jc")
  case Nil
  then show ?thesis by (simp add: traced_rules)
next
  case (Cons m' ms)
  show ?thesis
  proof (cases "m' = m")
    case True
    with assms Cons have "json_below ms" by (auto simp: json_stack_ok_def split: if_splits)
    with json_below_stack json_below_butlast have "json_stack_ok ms" "hd ms \<noteq> MODE_KEY" by blast+
    with assms Cons True show ?thesis
      by (auto simp: traced_rules json_sim_def json_inv_def json_bounds_def json_top_def json_phase_of_def)
  next
    case False
    with Cons show ?thesis by (simp add: traced_rules)
  qed
qed

lemma json_act_close:
  assumes op: "json_open E d ph b jc" and buf: "jp_buf jc = b @ [c]"
    and am: "a = JA_RCURB \<and> m = MODE_OBJECT \<or> a = JA_RSQRB \<and> m = MODE_ARRAY"
    and src: "jp_state jc \<in> set (json_src a)"
  shows "json_traced ph (json_action_step E a jc) (json_sim E d)"
proof -
  have st: "json_stack_ok (jp_stack jc)" and bd: "json_bounds d jc" and fl: "\<not> jp_escaped jc" "\<not> jp_comment jc"
    using op by (simp_all add: json_open_def)
  have eq: "json_action_step E a jc =
      and_then (parse_buffer_pop_back_char jc) (\<lambda>jc.
      and_then (parse_parse_buffer E jc) (\<lambda>jc.
      and_then (json_emit E (json_end m) JV_none jc) (json_close m)))"
    using am by auto
  have key: "hd (jp_stack jc) \<noteq> MODE_KEY"
    using src am op by (auto simp: json_open_def)
  have ar: "jp_type jc = JSON_T_NONE \<Longrightarrow> json_phase_at (jp_state jc) JSON_T_NONE (jp_stack jc) =
      json_phase_at J_OK JSON_T_NONE (jp_stack jc)"
    using src am op by (auto simp: json_open_def json_phase_at_def)
  have bd0: "json_bounds d (jc\<lparr>jp_buf := []\<rparr>)" using bd by (rule json_bounds_buf) simp
  have "json_traced ph (parse_parse_buffer E (jc\<lparr>jp_buf := b\<rparr>)) (\<lambda>ph jc.
      json_traced ph (json_emit E (json_end m) JV_none jc) (\<lambda>ph jc. json_traced ph (json_close m jc) (json_sim E d)))"
  proof (rule traced_flush [OF op])
    show "json_is_non_container_type (jp_type jc) \<and> (hd (jp_stack jc) = MODE_ARRAY \<or> hd (jp_stack jc) = MODE_OBJECT)"
      if "jp_type jc \<noteq> JSON_T_NONE"
      using json_open_flush_type [OF op _ _ that] src am by auto
  next
    fix x ph'
    assume ph': "je_callback E \<noteq> None \<Longrightarrow>
        ph' = json_phase_at (if jp_type jc = JSON_T_NONE then jp_state jc else J_OK) JSON_T_NONE (jp_stack jc)"
    show "json_traced ph' (json_emit E (json_end m) JV_none (jc\<lparr>jp_ctx := x, jp_buf := []\<rparr>))
        (\<lambda>ph jc. json_traced ph (json_close m jc) (json_sim E d))"
    proof (rule traced_emit)
      fix y assume cb: "je_callback E \<noteq> None"
      with ph' ar have "ph' = json_phase_at J_OK JSON_T_NONE (jp_stack jc)" by (auto split: if_splits)
      with json_phase_end [OF st, of J_OK m] am key obtain ph'' where
        "json_phase_next ph' (json_end m, JV_none) = Some ph''"
        and e: "hd (jp_stack jc) = m \<longrightarrow> ph'' = json_phase_at J_OK JSON_T_NONE (tl (jp_stack jc))" by auto
      moreover have "json_traced ph'' (json_close m (jc\<lparr>jp_ctx := x, jp_buf := [], jp_ctx := y\<rparr>)) (json_sim E d)"
        using e bd0 st am fl by (intro json_close_sim) auto
      ultimately show "\<exists>ph''. json_phase_next ph' (json_end m, JV_none) = Some ph'' \<and>
          json_traced ph'' (json_close m (jc\<lparr>jp_ctx := x, jp_buf := [], jp_ctx := y\<rparr>)) (json_sim E d)" by blast
    next
      assume "je_callback E = None"
      then show "json_traced ph' (json_close m (jc\<lparr>jp_ctx := x, jp_buf := []\<rparr>)) (json_sim E d)"
        using bd0 st am fl by (intro json_close_sim) (auto simp: json_bounds_def json_top_def)
    qed
  qed
  with buf show ?thesis by (simp add: eq traced_rules)
qed

lemma traced_emit_to:
  assumes "je_callback E \<noteq> None \<Longrightarrow> json_phase_next ph (t, v) = Some ph1"
    and "\<And>c. je_callback E \<noteq> None \<Longrightarrow> Q ph1 (jc\<lparr>jp_ctx := c\<rparr>)"
    and "je_callback E = None \<Longrightarrow> Q ph jc"
  shows "json_traced ph (json_emit E t v jc) Q"
  using assms by (intro traced_emit) blast+

lemma json_act_empty:
  assumes op: "json_open E d ph b jc" and src: "jp_state jc = J_OB"
  shows "json_traced ph (json_action_step E JA_EMPTY jc) (json_sim E d)"
proof -
  from op have st: "json_stack_ok (jp_stack jc)" and bd: "json_bounds d jc"
    and fl: "\<not> jp_escaped jc" "\<not> jp_comment jc" by (simp_all add: json_open_def)
  from op src have key: "hd (jp_stack jc) = MODE_KEY" and ty: "jp_type jc = JSON_T_NONE"
    by (simp_all add: json_open_def)
  with st obtain ms where ms: "jp_stack jc = MODE_KEY # ms" "json_below ms"
    by (cases rule: json_stack_cases) auto
  with json_below_stack json_below_butlast have below: "json_stack_ok ms" "hd ms \<noteq> MODE_KEY" by blast+
  have pop: "json_traced ph' (json_pop MODE_KEY jc1) (\<lambda>ph jc. json_traced ph (json_go J_OK jc) (json_sim E d))"
    if "json_bounds d jc1" "jp_stack jc1 = jp_stack jc" "jp_type jc1 = JSON_T_NONE" "\<not> jp_escaped jc1"
      "\<not> jp_comment jc1" "je_callback E \<noteq> None \<Longrightarrow> ph' = json_phase_at J_OK JSON_T_NONE ms" for ph' jc1
  proof -
    have "json_sim E d ph' (jc1\<lparr>jp_stack := ms, jp_state := J_OK\<rparr>)"
      by (rule json_sim_open) (use that below ms in \<open>simp_all add: json_open_def json_bounds_def json_top_def\<close>)
    with ms that(2) show ?thesis by (simp add: traced_rules)
  qed
  have bd0: "json_bounds d (jc\<lparr>jp_buf := []\<rparr>)" using bd by (rule json_bounds_buf) simp
  have "json_traced ph (json_emit E JSON_T_OBJECT_END JV_none (jc\<lparr>jp_buf := []\<rparr>))
      (\<lambda>ph jc. json_traced ph (json_pop MODE_KEY jc) (\<lambda>ph jc. json_traced ph (json_go J_OK jc) (json_sim E d)))"
  proof (rule traced_emit_to [where ?ph1.0 = "json_phase_at J_OK JSON_T_NONE ms"])
    assume "je_callback E \<noteq> None"
    with op src ty have "ph = json_phase_at J_OB JSON_T_NONE (jp_stack jc)" by (simp add: json_open_def)
    with json_phase_end [OF st, of J_OB MODE_KEY] key ms(1)
    show "json_phase_next ph (JSON_T_OBJECT_END, JV_none) = Some (json_phase_at J_OK JSON_T_NONE ms)" by auto
  qed (rule pop; use bd0 fl ty in simp)+
  then show ?thesis by (simp add: traced_rules parse_buffer_clear_def)
qed

lemma json_act_open:
  assumes op: "json_open E d ph b jc" and buf: "jp_buf jc = b @ [c]"
    and am: "a = JA_LCURB \<and> m = MODE_KEY \<and> s = J_OB \<or> a = JA_LSQRB \<and> m = MODE_ARRAY \<and> s = J_AR"
    and src: "jp_state jc \<in> set (json_src a)"
  shows "json_traced ph (json_action_step E a jc) (json_sim E d)"
proof -
  have eq: "json_action_step E a jc =
      and_then (parse_buffer_pop_back_char jc) (\<lambda>jc.
      and_then (json_emit E (json_begin m) JV_none jc) (\<lambda>jc.
      and_then (json_push E m jc) (\<lambda>jc.
      and_then (check (jp_type jc = JSON_T_NONE) jc) (json_go s))))"
    using am by auto
  from op have st: "json_stack_ok (jp_stack jc)" and bd: "json_bounds d jc"
    and fl: "\<not> jp_escaped jc" "\<not> jp_comment jc"
    and gr: "json_group_ok (json_group_of (jp_state jc)) (jp_type jc) (hd (jp_stack jc))"
    by (simp_all add: json_open_def)
  from src am have s: "jp_state jc = J_GO \<or> jp_state jc = J_VA \<or> jp_state jc = J_AR" by auto
  with gr have ty: "jp_type jc = JSON_T_NONE" and key: "hd (jp_stack jc) \<noteq> MODE_KEY" by auto
  have below: "json_below (jp_stack jc)"
    using st key by (cases "hd (jp_stack jc)") (auto simp: json_stack_ok_def split: list.splits if_splits)
  have bd': "json_bounds d (jc\<lparr>jp_buf := b\<rparr>)"
    using bd by (rule json_bounds_buf) (simp add: buf)
  have fin: "json_sim E d ph' (jc1\<lparr>jp_stack := m # jp_stack jc1, jp_state := s\<rparr>)"
    if "json_bounds d jc1" "json_top jc1 \<noteq> d" "jp_stack jc1 = jp_stack jc" "jp_type jc1 = JSON_T_NONE" "\<not> jp_escaped jc1"
      "\<not> jp_comment jc1" "je_callback E \<noteq> None \<Longrightarrow> ph' = json_phase_at s JSON_T_NONE (m # jp_stack jc)" for ph' jc1
    using that below am
    by (auto simp: json_sim_def json_inv_def json_bounds_def json_top_def json_phase_of_def json_stack_ok_def)
  have push: "json_traced ph' (json_push E m jc1) (\<lambda>ph jc. jp_type jc = JSON_T_NONE \<and> json_traced ph (json_go s jc) (json_sim E d))"
    if "json_bounds d jc1" "jp_stack jc1 = jp_stack jc" "jp_type jc1 = JSON_T_NONE" "\<not> jp_escaped jc1"
      "\<not> jp_comment jc1" "je_callback E \<noteq> None \<Longrightarrow> ph' = json_phase_at s JSON_T_NONE (m # jp_stack jc)" for ph' jc1
    using fin [of jc1 ph'] that by (simp add: traced_rules traced_push [OF that(1)]) blast
  have "json_traced ph (json_emit E (json_begin m) JV_none (jc\<lparr>jp_buf := b\<rparr>)) (\<lambda>ph jc.
      json_traced ph (json_push E m jc) (\<lambda>ph jc. jp_type jc = JSON_T_NONE \<and> json_traced ph (json_go s jc) (json_sim E d)))"
  proof (rule traced_emit_to [where ?ph1.0 = "json_phase_at s JSON_T_NONE (m # jp_stack jc)"])
    assume "je_callback E \<noteq> None"
    with op ty have "ph = json_phase_at (jp_state jc) JSON_T_NONE (jp_stack jc)" by (simp add: json_open_def)
    with json_phase_begin [OF st gr [unfolded ty] s, of m s] am
    show "json_phase_next ph (json_begin m, JV_none) = Some (json_phase_at s JSON_T_NONE (m # jp_stack jc))" by auto
  qed (rule push; use bd' ty fl in simp)+
  with buf show ?thesis by (simp add: eq traced_rules del: and_then_check)
qed

lemma json_act_quote:
  assumes op: "json_open E d ph b jc" and buf: "jp_buf jc = b @ [c]" and src: "jp_state jc = J_ST"
  shows "json_traced ph (json_action_step E JA_QUOTE jc) (json_sim E d)"
proof -
  from op have st: "json_stack_ok (jp_stack jc)" and bd: "json_bounds d jc"
    and fl: "\<not> jp_escaped jc" "\<not> jp_comment jc" by (simp_all add: json_open_def)
  from op src have ty: "jp_type jc = JSON_T_STRING" and bot: "hd (jp_stack jc) \<noteq> MODE_DONE"
    by (simp_all add: json_open_def)
  from st bot obtain m ms where ms: "jp_stack jc = m # ms" "m \<noteq> MODE_DONE" "json_below ms"
    by (cases rule: json_stack_cases) auto
  have bd0: "json_bounds d (jc\<lparr>jp_buf := []\<rparr>)" using bd by (rule json_bounds_buf) simp
  show ?thesis
  proof (cases "m = MODE_KEY")
    case True
    have fin: "json_sim E d ph' (jc1\<lparr>jp_buf := []\<rparr>)"
      if "json_bounds d (jc1\<lparr>jp_buf := []\<rparr>)" "jp_stack jc1 = jp_stack jc" "jp_type jc1 = JSON_T_NONE"
        "jp_state jc1 = J_CO" "\<not> jp_escaped jc1" "\<not> jp_comment jc1"
        "je_callback E \<noteq> None \<Longrightarrow> ph' = json_phase_at J_CO JSON_T_NONE (jp_stack jc)" for ph' jc1
      by (rule json_sim_open) (use that st ms True in \<open>simp_all add: json_open_def json_bounds_def json_top_def\<close>)
    have "json_traced ph (json_emit E JSON_T_KEY (JV_str b) (jc\<lparr>jp_buf := b, jp_type := JSON_T_NONE, jp_state := J_CO\<rparr>))
        (\<lambda>ph jc. json_sim E d ph (jc\<lparr>jp_buf := []\<rparr>))"
    proof (rule traced_emit_to [where ?ph1.0 = "json_phase_at J_CO JSON_T_NONE (jp_stack jc)"])
      assume "je_callback E \<noteq> None"
      with op src ty have "ph = json_phase_at J_ST JSON_T_STRING (jp_stack jc)" by (simp add: json_open_def)
      with json_phase_key [of "jp_stack jc" J_ST JSON_T_STRING b] ms True
      show "json_phase_next ph (JSON_T_KEY, JV_str b) = Some (json_phase_at J_CO JSON_T_NONE (jp_stack jc))"
        by simp
    qed (rule fin; use bd0 fl in \<open>simp add: json_bounds_def json_top_def\<close>)+
    then show ?thesis
      using buf ms True ty by (simp add: traced_rules parse_buffer_clear_def Let_def)
  next
    case False
    have "json_traced ph (parse_parse_buffer E (jc\<lparr>jp_buf := b\<rparr>))
        (\<lambda>ph jc. json_sim E d ph (jc\<lparr>jp_type := JSON_T_NONE, jp_state := J_OK\<rparr>))"
    proof (rule traced_flush [OF op])
      show "json_is_non_container_type (jp_type jc) \<and> (hd (jp_stack jc) = MODE_ARRAY \<or> hd (jp_stack jc) = MODE_OBJECT)"
        using ty ms False by (cases m) (auto simp: json_is_non_container_type_def)
    next
      fix x ph'
      assume "je_callback E \<noteq> None \<Longrightarrow>
        ph' = json_phase_at (if jp_type jc = JSON_T_NONE then jp_state jc else J_OK) JSON_T_NONE (jp_stack jc)"
      then show "json_sim E d ph' (jc\<lparr>jp_ctx := x, jp_buf := [], jp_type := JSON_T_NONE, jp_state := J_OK\<rparr>)"
        using bd st fl ty ms False
        by (auto simp: json_sim_def json_inv_def json_bounds_def json_top_def json_phase_of_def)
    qed
    then show ?thesis
      using buf ms False ty by (cases m) (simp_all add: traced_rules Let_def)
  qed
qed

lemma json_act_colon:
  assumes op: "json_open E d ph b jc" and buf: "jp_buf jc = b @ [c]" and src: "jp_state jc = J_CO"
  shows "json_traced ph (json_action_step E JA_COLON jc) (json_sim E d)"
proof -
  from op have st: "json_stack_ok (jp_stack jc)" and bd: "json_bounds d jc"
    and fl: "\<not> jp_escaped jc" "\<not> jp_comment jc" by (simp_all add: json_open_def)
  from op src have key: "hd (jp_stack jc) = MODE_KEY" and ty: "jp_type jc = JSON_T_NONE"
    by (simp_all add: json_open_def)
  with st obtain ms where ms: "jp_stack jc = MODE_KEY # ms" "json_below ms"
    by (cases rule: json_stack_cases) auto
  have bd': "json_bounds d (jc\<lparr>jp_buf := b, jp_stack := ms\<rparr>)"
    using bd ms buf by (simp add: json_bounds_def json_top_def)
  have "json_sim E d ph (jc\<lparr>jp_buf := b, jp_stack := MODE_OBJECT # ms, jp_state := J_VA\<rparr>)"
    by (rule json_sim_open)
      (use op bd buf fl ty ms src in \<open>auto simp: json_open_def json_bounds_def json_top_def json_stack_ok_def json_phase_at_def\<close>)
  then show ?thesis
    using buf ms ty by (simp add: traced_rules traced_push [OF bd'])
qed

lemma json_act_comma:
  assumes op: "json_open E d ph b jc" and buf: "jp_buf jc = b @ [c]"
    and src: "jp_state jc \<in> set (json_src JA_COMMA)"
  shows "json_traced ph (json_action_step E JA_COMMA jc) (json_sim E d)"
proof -
  from op have st: "json_stack_ok (jp_stack jc)" and bd: "json_bounds d jc"
    and fl: "\<not> jp_escaped jc" "\<not> jp_comment jc" by (simp_all add: json_open_def)
  from op src have ty: "jp_type jc \<noteq> JSON_T_STRING" and s: "jp_type jc = JSON_T_NONE \<Longrightarrow> jp_state jc = J_OK"
    by (auto simp: json_open_def)
  have "json_traced ph (parse_parse_buffer E (jc\<lparr>jp_buf := b\<rparr>)) (\<lambda>ph jc.
      json_traced ph (json_peek jc (\<lambda>m.
     if m = MODE_OBJECT
     then and_then (json_pop MODE_OBJECT jc) (\<lambda>jc.
       and_then (json_push E MODE_KEY jc) (\<lambda>jc.
       and_then (check (jp_type jc \<noteq> JSON_T_STRING) jc) (json_type_go JSON_T_NONE J_KE)))
     else if m = MODE_ARRAY
     then and_then (check (jp_type jc \<noteq> JSON_T_STRING) jc) (json_type_go JSON_T_NONE J_VA)
     else refuse jc)) (json_sim E d))"
  proof (rule traced_flush [OF op])
    show "json_is_non_container_type (jp_type jc) \<and> (hd (jp_stack jc) = MODE_ARRAY \<or> hd (jp_stack jc) = MODE_OBJECT)"
      if "jp_type jc \<noteq> JSON_T_NONE"
      using json_open_flush_type [OF op _ _ that] src by auto
  next
    fix x ph'
    assume "je_callback E \<noteq> None \<Longrightarrow>
        ph' = json_phase_at (if jp_type jc = JSON_T_NONE then jp_state jc else J_OK) JSON_T_NONE (jp_stack jc)"
    with s have ph': "je_callback E \<noteq> None \<Longrightarrow> ph' = json_phase_at J_OK JSON_T_NONE (jp_stack jc)"
      by (auto split: if_splits)
    let ?jc = "jc\<lparr>jp_ctx := x, jp_buf := []\<rparr>"
    from st obtain m ms where ms: "jp_stack jc = m # ms" by (cases "jp_stack jc") (auto simp: json_stack_ok_def)
    have bd': "json_bounds d (jc\<lparr>jp_ctx := x, jp_buf := [], jp_stack := ms\<rparr>)"
      using bd ms by (simp add: json_bounds_def json_top_def)
    have obj: "json_sim E d ph' (jc\<lparr>jp_ctx := x, jp_buf := [], jp_stack := MODE_KEY # ms, jp_type := JSON_T_NONE, jp_state := J_KE\<rparr>)"
      if "m = MODE_OBJECT"
      by (rule json_sim_open)
        (use that st bd fl ms ph' in \<open>auto simp: json_open_def json_bounds_def json_top_def json_stack_ok_def
           json_phase_at_def json_frame_of_def\<close>)
    have arr: "json_sim E d ph' (jc\<lparr>jp_ctx := x, jp_buf := [], jp_type := JSON_T_NONE, jp_state := J_VA\<rparr>)"
      if "m = MODE_ARRAY"
      by (rule json_sim_open)
        (use that st bd fl ms ph' in \<open>auto simp: json_open_def json_bounds_def json_top_def json_stack_ok_def
           json_phase_at_def json_frame_of_def\<close>)
    show "json_traced ph' (json_peek ?jc (\<lambda>m.
     if m = MODE_OBJECT
     then and_then (json_pop MODE_OBJECT ?jc) (\<lambda>jc.
       and_then (json_push E MODE_KEY jc) (\<lambda>jc.
       and_then (check (jp_type jc \<noteq> JSON_T_STRING) jc) (json_type_go JSON_T_NONE J_KE)))
     else if m = MODE_ARRAY
     then and_then (check (jp_type ?jc \<noteq> JSON_T_STRING) ?jc) (json_type_go JSON_T_NONE J_VA)
     else refuse ?jc)) (json_sim E d)"
      using ms ty obj arr by (simp add: traced_rules traced_push [OF bd'] del: and_then_check)
  qed
  then show ?thesis using buf by (simp add: traced_rules del: and_then_check)
qed

lemma json_act_comment:
  assumes op: "json_open E d ph b jc" and buf: "jp_buf jc = b @ [c]"
    and src: "jp_state jc \<in> set (json_src JA_CB)"
  shows "json_traced ph (json_action_step E JA_CB jc) (json_sim E d)"
proof -
  from op have st: "json_stack_ok (jp_stack jc)" and bd: "json_bounds d jc"
    and fl: "\<not> jp_escaped jc" "\<not> jp_comment jc"
    and gr: "json_group_ok (json_group_of (jp_state jc)) (jp_type jc) (hd (jp_stack jc))" by (simp_all add: json_open_def)
  from op src have ty: "jp_type jc \<noteq> JSON_T_STRING" by (auto simp: json_open_def)
  let ?k = "\<lambda>jc. and_then (check (jp_buf jc = [] \<and> jp_type jc \<noteq> JSON_T_STRING) jc) (\<lambda>jc.
        json_peek jc (\<lambda>m.
        json_type_go JSON_T_NONE J_C1
          (jc\<lparr>jp_before_comment_state := json_resume_state m (jp_state jc), jp_comment := True\<rparr>)))"
  have "json_traced ph (parse_parse_buffer E (jc\<lparr>jp_buf := b\<rparr>)) (\<lambda>ph jc. json_traced ph (?k jc) (json_sim E d))"
  proof (rule traced_flush [OF op])
    show "json_is_non_container_type (jp_type jc) \<and> (hd (jp_stack jc) = MODE_ARRAY \<or> hd (jp_stack jc) = MODE_OBJECT)"
      if "jp_type jc \<noteq> JSON_T_NONE"
      using json_open_flush_type [OF op _ _ that] src by auto
  next
    fix x ph'
    let ?jc = "jc\<lparr>jp_ctx := x, jp_buf := []\<rparr>"
    assume ph': "je_callback E \<noteq> None \<Longrightarrow>
        ph' = json_phase_at (if jp_type jc = JSON_T_NONE then jp_state jc else J_OK) JSON_T_NONE (jp_stack jc)"
    from st obtain m ms where ms: "jp_stack jc = m # ms" by (cases "jp_stack jc") (auto simp: json_stack_ok_def)
    let ?before = "json_resume_state m (jp_state jc)"
    have grp: "json_group_ok (json_group_of ?before) JSON_T_NONE m"
      using gr src ms unfolding json_resume_state_def by (cases m) auto
    have phs: "json_phase_at ?before JSON_T_NONE (jp_stack jc) =
        json_phase_at (if jp_type jc = JSON_T_NONE then jp_state jc else J_OK) JSON_T_NONE (jp_stack jc)"
      using gr src ms unfolding json_resume_state_def by (cases m) (auto simp: json_phase_at_def)
    have sim: "json_sim E d ph' (jc\<lparr>jp_ctx := x, jp_buf := [], jp_before_comment_state := ?before, jp_comment := True,
        jp_type := JSON_T_NONE, jp_state := J_C1\<rparr>)"
      using st bd fl ms ph' grp phs
      by (simp add: json_sim_def json_inv_def json_bounds_def json_top_def json_phase_of_def)
    from sim show "json_traced ph' (?k ?jc) (json_sim E d)"
      using ms ty by (simp add: traced_rules Let_def)
  qed
  then show ?thesis using buf by (simp add: traced_rules del: and_then_check)
qed

lemma json_utf8_length: "length (json_utf8 n uc) = n + 1"
proof -
  have "length (json_trail n uc) = n" by (induction n) auto
  then show ?thesis by (simp add: json_utf8_def)
qed

lemma decode_unicode_char_cases:
  assumes "jp_buf jc = p @ [92, 117] @ hs" "length hs = 4" "list_all json_is_hex hs"
  obtains x h where "decode_unicode_char jc = accept (jc\<lparr>jp_utf16_high_surrogate := h, jp_buf := p @ x\<rparr>)"
      "length x \<le> 4"
    | jc' where "decode_unicode_char jc = refuse jc'"
proof -
  from json_hex_loop_Some [OF assms(3)] obtain uc where uc: "json_hex_loop 0 hs = Some uc" by blast
  let ?h = "jp_utf16_high_surrogate jc"
  have eq: "decode_unicode_char jc =
      (let jc = jc\<lparr>jp_buf := p\<rparr>;
           put = (\<lambda>n uc jc. accept (jc\<lparr>jp_buf := jp_buf jc @ json_utf8 n uc\<rparr>))
       in if ?h \<noteq> 0
          then (if IS_LOW_SURROGATE uc
                then put 3 (DECODE_SURROGATE_PAIR (ucast ?h) uc) (jc\<lparr>jp_utf16_high_surrogate := 0\<rparr>)
                else refuse jc)
          else if uc < 0x80 then put 0 uc jc
          else if uc < 0x800 then put 1 uc jc
          else if IS_HIGH_SURROGATE uc then accept (jc\<lparr>jp_utf16_high_surrogate := ucast uc\<rparr>)
          else if IS_LOW_SURROGATE uc then refuse jc
          else put 2 uc jc)"
    using assms(1,2) uc by (simp add: decode_unicode_char_def Let_def)
  consider "?h \<noteq> 0" "IS_LOW_SURROGATE uc" | "?h \<noteq> 0" "\<not> IS_LOW_SURROGATE uc" | "?h = 0" "uc < 0x80"
    | "?h = 0" "\<not> uc < 0x80" "uc < 0x800" | "?h = 0" "\<not> uc < 0x800" "\<not> uc < 0x80" "IS_HIGH_SURROGATE uc"
    | "?h = 0" "\<not> uc < 0x800" "\<not> uc < 0x80" "\<not> IS_HIGH_SURROGATE uc" "IS_LOW_SURROGATE uc"
    | "?h = 0" "\<not> uc < 0x800" "\<not> uc < 0x80" "\<not> IS_HIGH_SURROGATE uc" "\<not> IS_LOW_SURROGATE uc" by blast
  then show thesis
  proof cases
    case 1
    have "decode_unicode_char jc = accept (jc\<lparr>jp_utf16_high_surrogate := 0,
        jp_buf := p @ json_utf8 3 (DECODE_SURROGATE_PAIR (ucast ?h) uc)\<rparr>)"
      using 1 by (simp add: eq Let_def)
    then show thesis by (rule that(1)) (simp add: json_utf8_length)
  next
    case 2
    then show thesis using that(2) by (simp add: eq Let_def)
  next
    case 3
    then have "decode_unicode_char jc = accept (jc\<lparr>jp_buf := p @ json_utf8 0 uc\<rparr>)"
      by (simp add: eq Let_def)
    then show thesis by (intro that(1) [of "json_utf8 0 uc" ?h]) (simp_all add: json_utf8_length)
  next
    case 4
    then have "decode_unicode_char jc = accept (jc\<lparr>jp_buf := p @ json_utf8 1 uc\<rparr>)"
      by (simp add: eq Let_def)
    then show thesis by (intro that(1) [of "json_utf8 1 uc" ?h]) (simp_all add: json_utf8_length)
  next
    case 5
    then have "decode_unicode_char jc = accept (jc\<lparr>jp_buf := p, jp_utf16_high_surrogate := ucast uc\<rparr>)"
      by (simp add: eq Let_def)
    moreover have "jc\<lparr>jp_buf := p, jp_utf16_high_surrogate := ucast uc\<rparr> =
        jc\<lparr>jp_utf16_high_surrogate := ucast uc, jp_buf := p\<rparr>" by simp
    ultimately show thesis by (intro that(1) [of "[]" "ucast uc"]) simp_all
  next
    case 6
    then show thesis using that(2) by (simp add: eq Let_def)
  next
    case 7
    then have "decode_unicode_char jc = accept (jc\<lparr>jp_buf := p @ json_utf8 2 uc\<rparr>)"
      by (simp add: eq Let_def)
    then show thesis by (intro that(1) [of "json_utf8 2 uc" ?h]) (simp_all add: json_utf8_length)
  qed
qed

lemma json_act_unicode:
  assumes op: "json_open E d ph b jc" and buf: "jp_buf jc = b @ [c]"
    and src: "jp_state jc = J_U4" and ok: "json_buf_ok (jp_state jc) b" and c: "json_is_hex c"
  shows "json_traced ph (json_action_step E JA_UC jc) (json_sim E d)"
proof -
  from ok src obtain p hs where b: "b = p @ [92, 117] @ hs" "length hs = 3" "list_all json_is_hex hs"
    by (auto simp: json_ends_hex_def)
  from op src have bot: "hd (jp_stack jc) \<noteq> MODE_DONE" by (simp add: json_open_def)
  have "jp_buf jc = p @ [92, 117] @ (hs @ [c])" using buf b by simp
  then show ?thesis
  proof (rule decode_unicode_char_cases)
    show "length (hs @ [c]) = 4" "list_all json_is_hex (hs @ [c])" using b c by simp_all
  next
    fix x h assume eq: "decode_unicode_char jc = accept (jc\<lparr>jp_utf16_high_surrogate := h, jp_buf := p @ x\<rparr>)"
      and x: "length x \<le> 4"
    have "json_sim E d ph (jc\<lparr>jp_utf16_high_surrogate := h, jp_buf := p @ x, jp_state := s\<rparr>)"
      if "s = J_ST \<or> s = J_D1" for s
      by (rule json_sim_open) (use op src bot buf b x that in
          \<open>auto simp: json_open_def json_bounds_def json_top_def intro!: json_phase_at_cong\<close>)
    then show ?thesis by (simp add: eq accept_def traced_rules)
  next
    fix jc' assume "decode_unicode_char jc = refuse jc'"
    then show ?thesis by (simp add: refuse_def traced_def)
  qed
qed

lemma json_buf_ok_plain:
  "s \<notin> {J_ES, J_U1, J_U2, J_U3, J_U4, J_D2} \<Longrightarrow> json_group_of s \<noteq> JG_Comment \<Longrightarrow> json_buf_ok s b"
  by (cases s) auto

lemma json_ends_hex_snoc: "json_ends_hex b n \<Longrightarrow> json_is_hex c \<Longrightarrow> json_ends_hex (b @ [c]) (Suc n)"
proof -
  assume "json_ends_hex b n" "json_is_hex c"
  then obtain p hs where "b @ [c] = p @ [92, 117] @ (hs @ [c])" "length (hs @ [c]) = Suc n"
    "list_all json_is_hex (hs @ [c])" by (auto simp: json_ends_hex_def)
  then show ?thesis unfolding json_ends_hex_def by blast
qed

lemma json_go_buf:
  assumes mid: "json_mid d k c jc" and cls: "json_class_of (uint c) = Some k" and "\<not> jp_comment jc"
    and cell: "json_cell (jp_state jc) k = JGo s"
  shows "json_buf_ok s (jp_buf jc)"
proof (cases "s \<in> {J_ES, J_U1, J_U2, J_U3, J_U4, J_D2}")
  case False
  with json_go_src [OF cell] assms(1,3) show ?thesis
    by (intro json_buf_ok_plain) (auto simp: json_mid_def)
next
  case True
  with json_go_src [OF cell] have st: "(jp_state jc, s) \<in> {(J_ES, J_U1), (J_U1, J_U2), (J_U2, J_U3),
      (J_U3, J_U4), (J_D1, J_D2), (J_D2, J_U1)}"
    by (cases "jp_state jc") auto
  from mid assms(3) st have ty: "jp_type jc = JSON_T_STRING" by (auto simp: json_mid_def)
  have shape: "\<exists>b. jp_buf jc = b @ [c] \<and> json_buf_ok (jp_state jc) b" if "jp_state jc \<noteq> J_ES"
    using mid assms(3) ty that by (auto simp: json_mid_def)
  consider "jp_state jc = J_ES" "s = J_U1" | "jp_state jc = J_D1" "s = J_D2" | "jp_state jc = J_D2" "s = J_U1"
    | "jp_state jc \<in> {J_U1, J_U2, J_U3}"
    using st by blast
  then show ?thesis
  proof cases
    case 1
    with cell json_escape_column(1) json_class_char(1) [OF cls] have "c = 117" by simp
    with mid 1 show ?thesis by (auto simp: json_mid_def json_escape_def json_ends_hex_def)
  next
    case 2
    with cell json_escape_column(3) json_class_char(2) [OF cls] have "c = 92" by simp
    with shape 2 show ?thesis by auto
  next
    case 3
    with cell json_escape_column(2) json_class_char(1) [OF cls] have "c = 117" by simp
    with shape 3 show ?thesis by (auto simp: json_ends_hex_def)
  next
    case 4
    then have "json_hex_class k" using cell by (intro json_hex_column [of "jp_state jc"]) auto
    with json_class_char(4) [OF cls] have "json_is_hex c" by blast
    with json_ends_hex_snoc shape 4 st show ?thesis
      by (auto simp: numeral_2_eq_2 numeral_3_eq_3)
  qed
qed

lemma json_mid_go:
  assumes mid: "json_mid d k c jc" and cls: "json_class_of (uint c) = Some k"
    and ph: "je_callback E \<noteq> None \<longrightarrow> ph = json_phase_of jc"
    and cell: "json_cell (jp_state jc) k = JGo s"
  shows "json_sim E d ph (jc\<lparr>jp_state := s\<rparr>)"
proof (cases "jp_comment jc")
  case True
  with mid json_go_src [OF cell] have "json_group_of s = JG_Comment"
    by (auto simp: json_mid_def json_group_comment)
  with True mid ph show ?thesis
    by (auto simp: json_sim_def json_inv_def json_mid_def json_bounds_def json_top_def json_phase_of_def
        json_buf_comment json_group_comment)
next
  case False
  note buf = json_go_buf [OF mid cls False cell]
  from mid False have gr: "json_group_ok (json_group_of (jp_state jc)) (jp_type jc) (hd (jp_stack jc))"
    and nc: "json_group_of (jp_state jc) \<noteq> JG_Comment"
    by (auto simp: json_mid_def)
  from json_go_src [OF cell] nc have ns: "s \<noteq> J_ES" "json_group_of s \<noteq> JG_Comment" by auto
  have grs: "json_group_ok (json_group_of s) (jp_type jc) (hd (jp_stack jc)) \<and>
      json_phase_at s (jp_type jc) (jp_stack jc) = json_phase_at (jp_state jc) (jp_type jc) (jp_stack jc)"
  proof (cases "s = jp_state jc")
    case True
    with gr show ?thesis by simp
  next
    case False
    with json_go_src [OF cell] nc have
      "json_group_of (jp_state jc) \<in> {JG_Number, JG_Word, JG_String} \<and>
       (json_group_of s = json_group_of (jp_state jc) \<or> json_group_of (jp_state jc) \<noteq> JG_String \<and> s = J_OK)"
      by auto
    moreover from this gr have "hd (jp_stack jc) \<noteq> MODE_DONE" "jp_type jc \<noteq> JSON_T_NONE" by auto
    ultimately show ?thesis using gr
      by (auto simp: json_is_non_container_type_def intro!: json_phase_at_cong)
  qed
  show ?thesis
    by (rule json_sim_open)
      (use mid ph False buf ns grs in \<open>auto simp: json_open_def json_mid_def json_bounds_def json_top_def json_phase_of_def\<close>)
qed

lemma json_mid_act:
  assumes mid: "json_mid d k c jc" and cls: "json_class_of (uint c) = Some k"
    and ph: "je_callback E \<noteq> None \<longrightarrow> ph = json_phase_of jc"
    and cell: "json_cell (jp_state jc) k = JAct a"
  shows "json_traced ph (json_action_step E a jc) (json_sim E d)"
proof (cases "jp_state jc = J_C3")
  case True
  with json_act_src [OF cell] have "a = JA_CE" by (cases a) auto
  with json_act_comment_end [OF mid ph True] show ?thesis by simp
next
  case False
  note src = json_act_src [OF cell] and nb = json_act_not_blank [OF cell]
  from src False have ns: "json_group_of (jp_state jc) \<noteq> JG_Comment" "jp_state jc \<noteq> J_ES"
    by (cases a; auto)+
  from json_mid_open [OF mid nb ph ns] obtain b where
    buf: "jp_buf jc = b @ [c]" and ok: "json_buf_ok (jp_state jc) b" and op: "json_open E d ph b jc" by blast
  note chr = json_class_char [OF cls]
  show ?thesis
  proof (cases a)
    case JA_DF
    with cell json_escape_column(4) chr(3) have "c = 46" by simp
    with json_act_point [OF op] buf src JA_DF show ?thesis by simp
  next
    case JA_EX
    with src have st: "jp_state jc = J_ST" by simp
    with cell JA_EX json_escape_column(5) chr(2) have "c = 92" by simp
    with json_act_escape [OF op] buf st JA_EX show ?thesis by simp
  next
    case JA_UC
    with src have st: "jp_state jc = J_U4" by simp
    with cell JA_UC json_hex_column [of J_U4 k] chr(4) have "json_is_hex c" by simp
    with json_act_unicode [OF op buf st ok] JA_UC show ?thesis by simp
  qed (use src op buf json_act_comment [OF op buf] json_act_colon [OF op buf] json_act_comma [OF op buf]
      json_act_quote [OF op buf] json_act_open [OF op buf] json_act_close [OF op buf]
      json_act_empty [OF op] json_act_double [OF op] json_act_string_begin [OF op]
      json_act_number [OF mid ph src] False in \<open>simp_all del: json_action_step.simps\<close>)
qed

lemma json_char_traced:
  fixes E :: "'c json_env"
  assumes "json_sim E d ph jc"
  shows "json_traced ph (json_char E jc c) (json_sim E d)"
proof -
  let ?jc = "jc\<lparr>jp_current_char := uint c\<rparr>"
  from assms have inv: "json_inv d ?jc"
    and ph: "je_callback E \<noteq> None \<Longrightarrow> ph = json_phase_of ?jc"
    by (auto simp: json_sim_def json_inv_def json_phase_of_def json_bounds_def json_top_def)
  have "\<not> uint c < 0" by simp
  show ?thesis
  proof (cases "json_class_of (uint c)")
    case None
    then show ?thesis by (simp add: json_char_def JSON_parser_char_def traced_rules)
  next
    case (Some k)
    have "json_traced ph (add_char_to_parse_buffer E (uint c) k ?jc)
        (\<lambda>ph jc. json_traced ph (case json_cell (jp_state jc) k of JGo s \<Rightarrow> json_go s jc
           | JAct a \<Rightarrow> json_action_step E a jc | JX \<Rightarrow> refuse (set_error jc)) (json_sim E d))"
    proof (rule json_mid_add_char [OF inv])
      fix jc1 :: "'c json_parser" assume mid: "json_mid d k c jc1" and p: "json_phase_of jc1 = json_phase_of ?jc"
      with ph have ph1: "je_callback E \<noteq> None \<longrightarrow> ph = json_phase_of jc1" by simp
      show "json_traced ph (case json_cell (jp_state jc1) k of JGo s \<Rightarrow> json_go s jc1
           | JAct a \<Rightarrow> json_action_step E a jc1 | JX \<Rightarrow> refuse (set_error jc1)) (json_sim E d)"
        using json_mid_go [OF mid Some ph1] json_mid_act [OF mid Some ph1]
        by (simp add: traced_rules split: json_cell.split)
    qed
    with Some show ?thesis
      by (simp add: json_char_def JSON_parser_char_def traced_rules)
  qed
qed

subsection \<open>Whole inputs\<close>

interpretation json_proto:
  protocol_machine "json_char E" "\<lambda>jc ph. json_sim E d ph jc" "run_list json_phase_next" for E d
proof
  show "run_list json_phase_next ph [] = Some ph" for ph by simp
  show "run_list json_phase_next ph (xs @ ys) =
      Option.bind (run_list json_phase_next ph xs) (\<lambda>ph'. run_list json_phase_next ph' ys)" for ph xs ys
    by (rule run_list_append)
  show "\<exists>ph'. run_list json_phase_next ph ev = Some ph' \<and> (v = Accept \<longrightarrow> json_sim E d ph' s')"
    if "json_sim E d ph s" "json_char E s c = (s', ev, v)" for s ph c s' ev v
    using json_char_traced [OF that(1), of c] that(2) by (simp add: traced_def)
qed

lemma json_run_events_ok: "run_list json_phase_next ph ev = Some ph' \<Longrightarrow> list_all json_event_ok ev"
  by (induction ev arbitrary: ph)
    (auto simp: json_phase_next_def simp del: json_event_ok.simps split: option.splits if_splits)

lemma json_inv_sim: "json_inv d jc \<Longrightarrow> json_sim E d (json_phase_of jc) jc"
  by (simp add: json_sim_def)

interpretation json_safe: safe_machine "json_char E" "json_inv d" json_event_ok for E d
proof
  fix s :: "'a json_parser" and c s' ev v
  assume "json_inv d s" and st: "json_char E s c = (s', ev, v)"
  from json_char_traced [OF json_inv_sim [OF this(1)], of E c] st
  have "v \<noteq> Abort" and "\<exists>ph'. run_list json_phase_next (json_phase_of s) ev = Some ph'"
    and "v = Accept \<longrightarrow> json_inv d s'" by (auto simp: traced_def json_sim_def)
  then show "v \<noteq> Abort" "list_all json_event_ok ev" "v = Accept \<Longrightarrow> json_inv d s'"
    by (auto dest: json_run_events_ok)
qed

text \<open>The nesting limit a configuration really gives.\<close>

definition json_depth :: "json_config option \<Rightarrow> int" where
  "json_depth config =
     (case config of None \<Rightarrow> 127 | Some c \<Rightarrow> if jc_depth c = 0 then 1 else jc_depth c)"

lemma json_new_inv:
  assumes "new_JSON_parser E config x = Some jc" "0 < json_depth config" "json_depth config < 128"
  shows "json_inv (json_depth config) jc \<and> json_phase_of jc = P_Start"
proof -
  from assms(2,3) show ?thesis using assms(1)
    by (auto simp: new_JSON_parser_def Let_def json_depth_def json_push_def json_top_def
        json_stack_room_def JSON_PARSER_STACK_SIZE_def init_JSON_config_def json_inv_def json_bounds_def
        json_stack_ok_def json_phase_of_def json_phase_at_def accept_def JSON_PARSER_PARSE_BUFFER_SIZE_def
        split: if_splits option.splits)
qed


section \<open>Reading JSON text\<close>

text \<open>An environment in which nothing outside the parser fails, and its callbacks.\<close>

definition json_env_ok :: "'c json_env \<Rightarrow> bool" where
  "json_env_ok E \<longleftrightarrow>
     (case je_callback E of None \<Rightarrow> False | Some cb \<Rightarrow> \<forall>c e. snd (cb c e)) \<and>
     (\<forall>why n. je_alloc E why n)"

lemma yields_emit [yields_rules]:
  "json_env_ok E \<Longrightarrow> yields (json_emit E t v jc) Q =
    Q [(t, v)] (jc\<lparr>jp_ctx := fst (the (je_callback E) (jp_ctx jc) (t, v))\<rparr>)"
proof -
  assume "json_env_ok E"
  then obtain cb where cb: "je_callback E = Some cb" and ok: "snd (cb (jp_ctx jc) (t, v))"
    by (auto simp: json_env_ok_def split: option.splits)
  from ok obtain c where "cb (jp_ctx jc) (t, v) = (c, True)" by (cases "cb (jp_ctx jc) (t, v)") auto
  with cb show ?thesis by (simp add: json_emit_def)
qed

lemma yields_pop [yields_rules]:
  "yields (json_pop m jc) Q \<longleftrightarrow>
    (case jp_stack jc of [] \<Rightarrow> False | m' # ms \<Rightarrow> m' = m \<and> Q [] (jc\<lparr>jp_stack := ms\<rparr>))"
  by (simp add: json_pop_def yields_rules split: list.splits)

lemma yields_peek [yields_rules]:
  "yields (json_peek jc k) Q \<longleftrightarrow> (case jp_stack jc of [] \<Rightarrow> False | m # ms \<Rightarrow> yields (k m) Q)"
  by (simp add: json_peek_def split: list.splits)

lemma yields_pop_back [yields_rules]:
  "yields (parse_buffer_pop_back_char jc) Q \<longleftrightarrow>
    jp_buf jc \<noteq> [] \<and> Q [] (jc\<lparr>jp_buf := butlast (jp_buf jc)\<rparr>)"
  by (auto simp: parse_buffer_pop_back_char_def yields_rules Suc_le_eq)

lemma yields_go [yields_rules]: "yields (json_go s jc) Q \<longleftrightarrow> Q [] (jc\<lparr>jp_state := s\<rparr>)"
  by (simp add: json_go_def yields_rules)

lemma yields_type_go [yields_rules]:
  "yields (json_type_go t s jc) Q \<longleftrightarrow> Q [] (jc\<lparr>jp_type := t, jp_state := s\<rparr>)"
  by (simp add: json_type_go_def yields_rules)

lemma yields_close [yields_rules]:
  "yields (json_close m jc) Q \<longleftrightarrow>
    (case jp_stack jc of [] \<Rightarrow> False
     | m' # ms \<Rightarrow> m' = m \<and> Q [] (jc\<lparr>jp_stack := ms, jp_type := JSON_T_NONE, jp_state := J_OK\<rparr>))"
  by (simp add: json_close_def json_pop_def refuse_def accept_def yields_def json_type_go_def
      split: list.splits)

lemma yields_push [yields_rules]:
  "json_bounds d jc \<Longrightarrow> yields (json_push E m jc) Q \<longleftrightarrow>
    json_top jc \<noteq> d \<and> Q [] (jc\<lparr>jp_stack := m # jp_stack jc\<rparr>)"
  by (simp add: json_push_def yields_rules json_bounds_def json_stack_room_def JSON_PARSER_STACK_SIZE_def)

text \<open>A configuration: state, token type, buffer, stack, whether an escape is open, surrogate.\<close>

definition json_at ::
    "int \<Rightarrow> json_state \<Rightarrow> json_type \<Rightarrow> byte list \<Rightarrow> json_mode list \<Rightarrow> bool \<Rightarrow> u16 \<Rightarrow> 'c json_parser \<Rightarrow> bool"
where
  "json_at d s t b k e h jc \<longleftrightarrow>
     jp_state jc = s \<and> jp_type jc = t \<and> jp_buf jc = b \<and> jp_stack jc = k \<and> jp_escaped jc = e \<and>
     jp_utf16_high_surrogate jc = h \<and> \<not> jp_comment jc \<and> \<not> jp_handle_floats_manually jc \<and>
     jp_decimal_point jc = 46 \<and> json_bounds d jc"

definition json_reach ::
    "'c json_env \<Rightarrow> int \<Rightarrow> ('c json_parser \<Rightarrow> bool) \<Rightarrow> byte list \<Rightarrow> json_event list \<Rightarrow> ('c json_parser \<Rightarrow> bool) \<Rightarrow> bool"
where
  "json_reach E d P cs es Q \<longleftrightarrow> (\<forall>jc. P jc \<longrightarrow> yields (json_feed E jc cs) (\<lambda>ev jc'. ev = es \<and> Q jc'))"

lemma json_reach_Nil: "json_reach E d P [] [] P"
  by (simp add: json_reach_def yields_rules)

lemma json_reach_append:
  "json_reach E d P xs es Q \<Longrightarrow> json_reach E d Q ys fs R \<Longrightarrow> json_reach E d P (xs @ ys) (es @ fs) R"
  unfolding json_reach_def yields_feed_append
  by (auto elim!: yields_mono)

lemma json_reach_Cons:
  "json_reach E d P [c] es Q \<Longrightarrow> json_reach E d Q cs fs R \<Longrightarrow> json_reach E d P (c # cs) (es @ fs) R"
  using json_reach_append [of E d P "[c]" es Q cs fs R] by simp

text \<open>One character: it is put in the buffer (which may grow), then the table decides.\<close>

lemma yields_add_char:
  assumes "json_env_ok E" "json_at d s t b k e h jc" "e \<longrightarrow> b \<noteq> []"
    and "\<And>jc'. e \<Longrightarrow> (\<exists>x. json_escape ch = Some x \<and> json_at d s t (butlast b @ x) k False h jc') \<Longrightarrow> Q [] jc'"
    and "e \<Longrightarrow> json_escape ch \<noteq> None"
    and "\<And>jc'. \<not> e \<Longrightarrow> json_at d s t (if t \<noteq> JSON_T_NONE \<or> \<not> json_blank kl then b @ [word_of_int ch] else b)
      k False h jc' \<Longrightarrow> Q [] jc'"
  shows "yields (add_char_to_parse_buffer E ch kl jc) Q"
proof -
  from assms(2) have "0 < jp_buf_capacity jc" by (simp add: json_at_def json_bounds_def)
  then show ?thesis
  proof (cases rule: parse_buffer_reserve_for_cases [where E = E and k = 1])
    case (ok n st)
    let ?jc = "jc\<lparr>jp_buf_capacity := n, jp_buf_static := st\<rparr>"
    from assms(2) have f: "jp_escaped jc = e" "jp_buf jc = b" "\<not> jp_comment jc" "jp_type jc = t"
      by (simp_all add: json_at_def)
    from ok(2) f have n: "length b + 2 \<le> n" by simp
    show ?thesis
    proof (cases e)
      case True
      with assms(5) obtain x where x: "json_escape ch = Some x" by blast
      have "add_escaped_char_to_parse_buffer ch ?jc =
          accept (?jc\<lparr>jp_escaped := False, jp_buf := butlast b @ x\<rparr>)"
        using add_escaped_char_eval [of ?jc ch] True assms(3) f n x by simp
      moreover have "json_at d s t (butlast b @ x) k False h (?jc\<lparr>jp_escaped := False, jp_buf := butlast b @ x\<rparr>)"
      proof -
        have "length b - 1 + length x < n"
          using assms(3) n True json_escape_length [OF x] by (cases b) auto
        with assms(2) show ?thesis by (auto simp: json_at_def json_bounds_def json_top_def)
      qed
      ultimately show ?thesis
        unfolding add_char_to_parse_buffer_def ok(1)
        using assms(4) True x f by (simp add: accept_def [of ?jc]) (simp add: accept_def)
    next
      case False
      have "json_at d s t (if t \<noteq> JSON_T_NONE \<or> \<not> json_blank kl then b @ [word_of_int ch] else b) k False h
          (if t \<noteq> JSON_T_NONE \<or> \<not> json_blank kl then ?jc\<lparr>jp_buf := b @ [word_of_int ch]\<rparr> else ?jc)"
        using assms(2) n False by (auto simp: json_at_def json_bounds_def json_top_def)
      with False have "Q [] (if t \<noteq> JSON_T_NONE \<or> \<not> json_blank kl then ?jc\<lparr>jp_buf := b @ [word_of_int ch]\<rparr> else ?jc)"
        by (rule assms(6))
      then show ?thesis
        unfolding add_char_to_parse_buffer_def ok(1)
        using False f n
        by (auto simp: accept_def [of ?jc] yields_rules parse_buffer_push_back_char_def
            parse_buffer_has_space_for_def split: if_splits)
    qed
  next
    case (oom jc')
    have "parse_buffer_reserve_for E 1 jc \<noteq> refuse jc'"
      using assms(1) \<open>0 < jp_buf_capacity jc\<close>
    proof (induction E "1 :: nat" jc rule: parse_buffer_reserve_for.induct)
      case (1 E jc)
      then show ?case
        by (subst parse_buffer_reserve_for.simps)
          (auto simp: parse_buffer_grow_def json_env_ok_def accept_def refuse_def)
    qed
    with oom(1) show ?thesis by simp
  qed
qed

lemma json_reach_char:
  assumes "json_env_ok E" "json_class_of (uint c) = Some kl" "e \<Longrightarrow> b \<noteq> [] \<and> json_escape (uint c) = Some x"
    and "b' = (if e then butlast b @ x else if t \<noteq> JSON_T_NONE \<or> \<not> json_blank kl then b @ [c] else b)"
    and "\<And>jc. json_at d s t b' k False h jc \<Longrightarrow>
      yields (case json_cell s kl of JGo s' \<Rightarrow> json_go s' jc | JAct a \<Rightarrow> json_action_step E a jc
              | JX \<Rightarrow> refuse (set_error jc)) (\<lambda>ev jc'. ev = es \<and> Q jc')"
  shows "json_reach E d (json_at d s t b k e h) [c] es Q"
  unfolding json_reach_def
proof (intro allI impI)
  fix jc :: "'a json_parser" assume at: "json_at d s t b k e h jc"
  let ?jc = "jc\<lparr>jp_current_char := uint c\<rparr>"
  let ?k = "\<lambda>jc. case json_cell (jp_state jc) kl of JGo s' \<Rightarrow> json_go s' jc
              | JAct a \<Rightarrow> json_action_step E a jc | JX \<Rightarrow> refuse (set_error jc)"
  from at have at': "json_at d s t b k e h ?jc" by (simp add: json_at_def)
  have fin: "yields (?k jc') (\<lambda>ev jc'. ev = es \<and> Q jc')" if "json_at d s t b' k False h jc'" for jc'
    using assms(5) [OF that] that by (simp add: json_at_def)
  have "yields (add_char_to_parse_buffer E (uint c) kl ?jc)
      (\<lambda>ev jc'. yields (?k jc') (\<lambda>ev' jc''. ev @ ev' = es \<and> Q jc''))"
    by (rule yields_add_char [OF assms(1) at']) (use assms(3,4) fin in \<open>auto cong: if_cong\<close>)
  then show "yields (json_feed E jc [c]) (\<lambda>ev jc'. ev = es \<and> Q jc')"
    by (simp add: yields_rules json_char_def JSON_parser_char_def assms(2) del: feed.simps)
qed

lemma json_reach_go:
  assumes "json_env_ok E" "json_class_of (uint c) = Some kl" "json_cell s kl = JGo s'"
    and "b' = (if t \<noteq> JSON_T_NONE \<or> \<not> json_blank kl then b @ [c] else b)"
  shows "json_reach E d (json_at d s t b k False h) [c] [] (json_at d s' t b' k False h)"
  by (rule json_reach_char [OF assms(1,2)])
    (use assms(3,4) in \<open>auto simp: yields_rules json_at_def\<close>)

lemma json_reach_act:
  assumes "json_env_ok E" "json_class_of (uint c) = Some kl" "json_cell s kl = JAct a"
    and "\<And>jc. json_at d s t (b @ [c]) k False h jc \<Longrightarrow>
      yields (json_action_step E a jc) (\<lambda>ev jc'. ev = es \<and> Q jc')"
  shows "json_reach E d (json_at d s t b k False h) [c] es Q"
  by (rule json_reach_char [OF assms(1,2)])
    (use assms(3,4) json_act_not_blank [OF assms(3)] in auto)

subsubsection \<open>Actions\<close>

text \<open>The event of a finished token: nothing for a container, which has been reported already.\<close>

definition json_token :: "json_type \<Rightarrow> byte list \<Rightarrow> json_event list" where
  "json_token t b =
     (if t = JSON_T_NONE then []
      else [(t, case t of JSON_T_FLOAT \<Rightarrow> JV_float b | JSON_T_INTEGER \<Rightarrow> JV_int (sscanf_lld b)
                | JSON_T_STRING \<Rightarrow> JV_str b | _ \<Rightarrow> JV_none)])"

lemma yields_flush:
  assumes "json_env_ok E" "json_at d s t (b @ [c]) k False h jc" "t = JSON_T_NONE \<or> json_is_non_container_type t"
    and "\<And>jc'. json_at d s t [] k False h jc' \<Longrightarrow> Q (json_token t b) jc'"
  shows "yields (and_then (parse_buffer_pop_back_char jc) (parse_parse_buffer E)) Q"
proof (cases "t = JSON_T_NONE")
  case True
  have "json_at d s t [] k False h (jc\<lparr>jp_buf := []\<rparr>)"
    using assms(2) by (auto simp: json_at_def json_bounds_def json_top_def)
  from assms(4) [OF this] assms(2) True show ?thesis
    by (simp add: yields_rules json_at_def parse_parse_buffer_def parse_buffer_clear_def json_token_def)
next
  case False
  have "json_at d s t [] k False h (jc\<lparr>jp_ctx := x, jp_buf := []\<rparr>)" for x
    using assms(2) by (auto simp: json_at_def json_bounds_def json_top_def)
  note q = assms(4) [OF this]
  from assms(1) have cb: "je_callback E \<noteq> None" by (auto simp: json_env_ok_def split: option.splits)
  from assms(3) False q cb assms(2) show ?thesis
    by (auto simp: yields_rules json_at_def parse_parse_buffer_def parse_buffer_clear_def json_token_def
        json_token_value_def json_is_non_container_type_def assms(1))
qed

lemma yields_flush_then:
  assumes "json_env_ok E" "json_at d s t (b @ [c]) k False h jc" "t = JSON_T_NONE \<or> json_is_non_container_type t"
    and "\<And>jc'. json_at d s t [] k False h jc' \<Longrightarrow> yields (f jc') (\<lambda>ev jc''. Q (json_token t b @ ev) jc'')"
  shows "yields (and_then (parse_buffer_pop_back_char jc) (\<lambda>jc. and_then (parse_parse_buffer E jc) f)) Q"
proof -
  have "yields (and_then (parse_buffer_pop_back_char jc) (parse_parse_buffer E))
      (\<lambda>ev s. yields (f s) (\<lambda>ev' s'. Q (ev @ ev') s'))"
    by (rule yields_flush [OF assms(1-3)]) (rule assms(4))
  then show ?thesis by (simp add: yields_rules)
qed

lemma yields_comma_array:
  assumes "json_env_ok E" "json_at d s t (b @ [c]) (MODE_ARRAY # k) False h jc"
    and "t = JSON_T_NONE \<or> json_is_non_container_type t" "t \<noteq> JSON_T_STRING"
  shows "yields (json_action_step E JA_COMMA jc)
    (\<lambda>ev jc'. ev = json_token t b \<and> json_at d J_VA JSON_T_NONE [] (MODE_ARRAY # k) False h jc')"
  unfolding json_action_step.simps
  by (rule yields_flush_then [OF assms(1-3)])
    (use assms(4) in \<open>auto simp: yields_rules json_at_def\<close>)

lemma yields_comma_object:
  fixes E :: "'c json_env"
  assumes "json_env_ok E" "json_at d s t (b @ [c]) (MODE_OBJECT # k) False h jc"
    and "t = JSON_T_NONE \<or> json_is_non_container_type t" "t \<noteq> JSON_T_STRING"
  shows "yields (json_action_step E JA_COMMA jc)
    (\<lambda>ev jc'. ev = json_token t b \<and> json_at d J_KE JSON_T_NONE [] (MODE_KEY # k) False h jc')"
  unfolding json_action_step.simps
proof (rule yields_flush_then [OF assms(1-3)])
  fix jc' :: "'c json_parser" assume at: "json_at d s t [] (MODE_OBJECT # k) False h jc'"
  then have bd: "json_bounds d (jc'\<lparr>jp_stack := k\<rparr>)" by (auto simp: json_at_def json_bounds_def json_top_def)
  from at assms(4) show "yields (json_peek jc' (\<lambda>m.
     if m = MODE_OBJECT
     then and_then (json_pop MODE_OBJECT jc') (\<lambda>jc.
       and_then (json_push E MODE_KEY jc) (\<lambda>jc.
       and_then (check (jp_type jc \<noteq> JSON_T_STRING) jc) (json_type_go JSON_T_NONE J_KE)))
     else if m = MODE_ARRAY
     then and_then (check (jp_type jc' \<noteq> JSON_T_STRING) jc') (json_type_go JSON_T_NONE J_VA)
     else refuse jc'))
     (\<lambda>ev jc''. json_token t b @ ev = json_token t b \<and> json_at d J_KE JSON_T_NONE [] (MODE_KEY # k) False h jc'')"
    by (auto simp: yields_rules yields_push [OF bd] json_at_def json_bounds_def json_top_def)
qed

lemma yields_end:
  assumes "json_env_ok E" "json_at d s t (b @ [c]) (m # k) False h jc"
    and "t = JSON_T_NONE \<or> json_is_non_container_type t"
    and "m = MODE_ARRAY \<and> a = JA_RSQRB \<or> m = MODE_OBJECT \<and> a = JA_RCURB"
  shows "yields (json_action_step E a jc)
    (\<lambda>ev jc'. ev = json_token t b @ [(json_end m, JV_none)] \<and> json_at d J_OK JSON_T_NONE [] k False h jc')"
proof -
  have eq: "json_action_step E a jc =
      and_then (parse_buffer_pop_back_char jc) (\<lambda>jc.
      and_then (parse_parse_buffer E jc) (\<lambda>jc.
      and_then (json_emit E (json_end m) JV_none jc) (json_close m)))"
    using assms(4) by auto
  show ?thesis unfolding eq
    by (rule yields_flush_then [OF assms(1-3)])
      (auto simp: yields_rules assms(1) json_at_def json_bounds_def json_top_def)
qed

lemma yields_begin:
  assumes "json_env_ok E" "json_at d s JSON_T_NONE [c] k False h jc" "int (length k) \<le> d"
    and "m = MODE_ARRAY \<and> a = JA_LSQRB \<and> s' = J_AR \<or> m = MODE_KEY \<and> a = JA_LCURB \<and> s' = J_OB"
  shows "yields (json_action_step E a jc)
    (\<lambda>ev jc'. ev = [(json_begin m, JV_none)] \<and> json_at d s' JSON_T_NONE [] (m # k) False h jc')"
proof -
  have eq: "json_action_step E a jc =
      and_then (parse_buffer_pop_back_char jc) (\<lambda>jc.
      and_then (json_emit E (json_begin m) JV_none jc) (\<lambda>jc.
      and_then (json_push E m jc) (\<lambda>jc.
      and_then (check (jp_type jc = JSON_T_NONE) jc) (json_go s'))))"
    using assms(4) by auto
  have bd: "json_bounds d (jc\<lparr>jp_buf := [], jp_ctx := x\<rparr>)" for x
    using assms(2) by (auto simp: json_at_def json_bounds_def json_top_def)
  from assms(2,3) show ?thesis unfolding eq
    by (auto simp: yields_rules yields_push [OF bd] assms(1) json_at_def json_bounds_def json_top_def)
qed

subsubsection \<open>Unicode escapes\<close>

definition json_hexval :: "byte \<Rightarrow> nat" where
  "json_hexval c = unat (if c \<le> 57 then c - 48 else if c \<le> 70 then c - 55 else c - 87)"

fun json_hexnum :: "nat \<Rightarrow> byte list \<Rightarrow> nat" where
  "json_hexnum a [] = a"
| "json_hexnum a (c # cs) = json_hexnum (16 * a + json_hexval c) cs"

lemma json_hex_digit_val:
  "json_is_hex c \<Longrightarrow> json_hex_digit c = word_of_nat (json_hexval c) \<and> json_hexval c < 16"
  by (auto simp: json_is_hex_def json_hex_digit_def json_hexval_def)

lemma json_hexnum_less:
  "list_all json_is_hex hs \<Longrightarrow> json_hexnum a hs < (a + 1) * 16 ^ length hs"
proof (induction hs arbitrary: a)
  case Nil
  then show ?case by simp
next
  case (Cons h hs)
  then have "json_hexval h < 16" by (simp add: json_hex_digit_val)
  then have le: "16 * a + json_hexval h + 1 \<le> 16 * (a + 1)" by simp
  have "json_hexnum a (h # hs) < (16 * a + json_hexval h + 1) * 16 ^ length hs" using Cons by simp
  also have "\<dots> \<le> 16 * (a + 1) * 16 ^ length hs" using le by (rule mult_le_mono1)
  finally show ?case by (simp add: algebra_simps)
qed

lemma json_hex_loop_eq:
  "list_all json_is_hex hs \<Longrightarrow> (a + 1) * 16 ^ length hs \<le> 2 ^ 32 \<Longrightarrow>
   json_hex_loop (push_bit (4 * length hs) (word_of_nat a)) hs = Some (word_of_nat (json_hexnum a hs))"
proof (induction hs arbitrary: a)
  case Nil
  then show ?case by simp
next
  case (Cons h hs)
  from Cons.prems have h: "json_hex_digit h = word_of_nat (json_hexval h)" "json_hexval h < 16"
    by (simp_all add: json_hex_digit_val)
  then have lt: "json_hex_digit h < 16" "unat (word_of_nat (json_hexval h) :: u32) < 2 ^ 4"
    by (simp_all add: word_less_nat_alt unat_word_of_nat)
  have "push_bit (4 * length (h # hs)) (word_of_nat a :: u32) OR push_bit (4 * length hs) (json_hex_digit h) =
      push_bit (4 * length hs) (push_bit 4 (word_of_nat a) OR word_of_nat (json_hexval h))"
    by (simp add: h push_bit_or add.commute)
  also have "push_bit 4 (word_of_nat a :: u32) OR word_of_nat (json_hexval h) = word_of_nat (16 * a + json_hexval h)"
    by (simp only: or_push_bit_plus [OF lt(2)]) (simp add: push_bit_eq_mult)
  finally have "json_hex_loop (push_bit (4 * length (h # hs)) (word_of_nat a)) (h # hs) =
      json_hex_loop (push_bit (4 * length hs) (word_of_nat (16 * a + json_hexval h))) hs"
    using lt(1) by (simp del: push_bit_of_nat)
  moreover have "(16 * a + json_hexval h + 1) * 16 ^ length hs \<le> 2 ^ 32"
  proof -
    have "(16 * a + json_hexval h + 1) * 16 ^ length hs \<le> (16 * (a + 1)) * 16 ^ length hs"
      using h(2) by (intro mult_le_mono1) simp
    also have "\<dots> = (a + 1) * 16 ^ length (h # hs)" by (simp add: algebra_simps)
    finally show ?thesis using Cons.prems(2) by linarith
  qed
  moreover from Cons.prems(1) have "list_all json_is_hex hs" by simp
  ultimately show ?case using Cons.IH [of "16 * a + json_hexval h"] by (simp only: json_hexnum.simps)
qed

lemma json_surrogate_mask:
  assumes "n < 0x10000"
  shows "(word_of_nat n :: u32) AND 0xFC00 = word_of_nat (n div 1024 * 1024)"
proof -
  have m: "(0xFC00 :: u32) = push_bit 10 (mask 6)" by (simp add: mask_eq_exp_minus_1)
  have "(word_of_nat n :: u32) AND push_bit 10 (mask 6) = push_bit 10 (drop_bit 10 (word_of_nat n) AND mask 6)"
    by (intro bit_word_eqI) (auto simp: bit_and_iff bit_push_bit_iff bit_drop_bit_eq bit_mask_iff)
  also have "drop_bit 10 (word_of_nat n :: u32) AND mask 6 = word_of_nat (n div 1024)"
    using assms by (simp add: drop_bit_word_of_nat and_mask_word_of_nat)
  also have "push_bit 10 (word_of_nat (n div 1024) :: u32) = word_of_nat (n div 1024 * 1024)"
    by (simp add: push_bit_eq_mult)
  finally show ?thesis by (simp only: m)
qed

lemma word_of_nat_eq_u32: "n < 2 ^ 32 \<Longrightarrow> m < 2 ^ 32 \<Longrightarrow> (word_of_nat n :: u32) = word_of_nat m \<longleftrightarrow> n = m"
proof -
  assume "n < 2 ^ 32" "m < 2 ^ 32"
  then have "unat (word_of_nat n :: u32) = n" "unat (word_of_nat m :: u32) = m"
    by (simp_all add: unat_word_of_nat)
  then show ?thesis by metis
qed

lemma json_surrogates:
  assumes "n < 0x10000"
  shows "IS_HIGH_SURROGATE (word_of_nat n) \<longleftrightarrow> 0xD800 \<le> n \<and> n < 0xDC00"
    and "IS_LOW_SURROGATE (word_of_nat n) \<longleftrightarrow> 0xDC00 \<le> n \<and> n < 0xE000"
proof -
  have le: "n div 1024 * 1024 \<le> n" by simp
  have block: "n div 1024 * 1024 = k * 1024 \<longleftrightarrow> k * 1024 \<le> n \<and> n < (k + 1) * 1024" for k
    by (auto simp: div_nat_eqI less_eq_div_iff_mult_less_eq dividend_less_times_div
        div_less_iff_less_mult intro: antisym)
  have "IS_HIGH_SURROGATE (word_of_nat n) \<longleftrightarrow> word_of_nat (n div 1024 * 1024) = (word_of_nat 0xD800 :: u32)"
    by (simp only: IS_HIGH_SURROGATE_def json_surrogate_mask [OF assms] of_nat_numeral)
  also have "\<dots> \<longleftrightarrow> n div 1024 * 1024 = 0xD800"
    using assms le by (intro word_of_nat_eq_u32) simp_all
  also have "\<dots> \<longleftrightarrow> 0xD800 \<le> n \<and> n < 0xDC00" using block [of 54] by simp
  finally show "IS_HIGH_SURROGATE (word_of_nat n) \<longleftrightarrow> 0xD800 \<le> n \<and> n < 0xDC00" .
  have "IS_LOW_SURROGATE (word_of_nat n) \<longleftrightarrow> word_of_nat (n div 1024 * 1024) = (word_of_nat 0xDC00 :: u32)"
    by (simp only: IS_LOW_SURROGATE_def json_surrogate_mask [OF assms] of_nat_numeral)
  also have "\<dots> \<longleftrightarrow> n div 1024 * 1024 = 0xDC00"
    using assms le by (intro word_of_nat_eq_u32) simp_all
  also have "\<dots> \<longleftrightarrow> 0xDC00 \<le> n \<and> n < 0xE000" using block [of 55] by simp
  finally show "IS_LOW_SURROGATE (word_of_nat n) \<longleftrightarrow> 0xDC00 \<le> n \<and> n < 0xE000" .
qed

lemma json_pair_value:
  assumes "0xD800 \<le> h" "h < 0xDC00" "0xDC00 \<le> l" "l < 0xE000"
  shows "DECODE_SURROGATE_PAIR (ucast (word_of_nat h :: u16)) (word_of_nat l) =
    word_of_nat (0x10000 + (h - 0xD800) * 1024 + (l - 0xDC00))"
proof -
  have h: "ucast (word_of_nat h :: u16) = (word_of_nat h :: u32)"
    using assms by (intro ucast_word_of_nat) simp
  have m: "(0x3FF :: u32) = mask 10" by (simp add: mask_eq_exp_minus_1)
  have shift: "n mod 1024 = n - 1024 * k" if "1024 * k \<le> n" "n < 1024 * k + 1024" for n k :: nat
  proof -
    have "n mod 1024 = (n - 1024 * k + 1024 * k) mod 1024" using that(1) by simp
    also have "\<dots> = (n - 1024 * k) mod 1024" by (rule mod_mult_self2)
    finally show ?thesis using that by simp
  qed
  have "h mod 1024 = h - 0xD800" "l mod 1024 = l - 0xDC00"
    using shift [of 54 h] shift [of 55 l] assms by simp_all
  then show ?thesis
    unfolding DECODE_SURROGATE_PAIR_def h m
    by (simp only: and_mask_word_of_nat) (simp add: push_bit_eq_mult)
qed

lemma json_trail_Suc:
  "json_trail 1 uc = [ucast ((drop_bit 0 uc AND 0x3F) OR 0x80)]"
  "json_trail 2 uc = [ucast ((drop_bit 6 uc AND 0x3F) OR 0x80), ucast ((drop_bit 0 uc AND 0x3F) OR 0x80)]"
  "json_trail 3 uc = [ucast ((drop_bit 12 uc AND 0x3F) OR 0x80), ucast ((drop_bit 6 uc AND 0x3F) OR 0x80),
     ucast ((drop_bit 0 uc AND 0x3F) OR 0x80)]"
proof -
  have n: "(1 :: nat) = Suc 0" "(2 :: nat) = Suc (Suc 0)" "(3 :: nat) = Suc (Suc (Suc 0))" by simp_all
  show "json_trail 1 uc = [ucast ((drop_bit 0 uc AND 0x3F) OR 0x80)]"
    by (subst n(1)) simp
  show "json_trail 2 uc = [ucast ((drop_bit 6 uc AND 0x3F) OR 0x80), ucast ((drop_bit 0 uc AND 0x3F) OR 0x80)]"
    by (subst n(2)) simp
  show "json_trail 3 uc = [ucast ((drop_bit 12 uc AND 0x3F) OR 0x80), ucast ((drop_bit 6 uc AND 0x3F) OR 0x80),
     ucast ((drop_bit 0 uc AND 0x3F) OR 0x80)]"
    by (subst n(3)) simp
qed

lemma json_utf8_eq:
  assumes "cp < 0x110000"
  shows "json_utf8 (if cp < 0x80 then 0 else if cp < 0x800 then 1 else if cp < 0x10000 then 2 else 3)
    (word_of_nat cp) = utf8 cp"
proof -
  have d: "drop_bit k (word_of_nat cp :: u32) = word_of_nat (cp div 2 ^ k)" for k
    using assms by (intro drop_bit_word_of_nat) simp
  have t: "(ucast ((word_of_nat (cp div k) AND 0x3F :: u32) OR 0x80) :: byte) = word_of_nat (0x80 + cp div k mod 64)" for k
  proof (rule utf8_trail_byte)
    show "cp div k < 2 ^ 32" by (rule le_less_trans [OF div_le_dividend]) (use assms in simp)
  qed
  note trail = t [of 1] t [of 64] t [of 4096]
  have "(ucast (word_of_nat cp OR 0 :: u32) :: byte) = word_of_nat cp" if "cp < 0x80"
    using utf8_lead_byte [of cp 7 0 0 0] that by simp
  note b0 = this
  have d1: "cp div 64 < 2 ^ 5" if "cp < 0x800" using that by (simp add: div_less_iff_less_mult)
  have d2: "cp div 4096 < 2 ^ 4" if "cp < 0x10000" using that by (simp add: div_less_iff_less_mult)
  have b1: "(ucast (word_of_nat (cp div 64) OR 0xC0 :: u32) :: byte) = word_of_nat (0xC0 + cp div 64)" if "cp < 0x800"
    by (rule utf8_lead_byte [OF d1 [OF that], where l = 6]) simp_all
  have b2: "(ucast (word_of_nat (cp div 4096) OR 0xE0 :: u32) :: byte) = word_of_nat (0xE0 + cp div 4096)" if "cp < 0x10000"
    by (rule utf8_lead_byte [OF d2 [OF that], where l = 14]) simp_all
  have b3: "(ucast (word_of_nat (cp div 262144) OR 0xF0 :: u32) :: byte) = word_of_nat (0xF0 + cp div 262144)"
  proof -
    have "cp div 262144 < 2 ^ 3" using assms by (simp add: div_less_iff_less_mult)
    then show ?thesis by (rule utf8_lead_byte [where l = 30]) simp_all
  qed
  have trails: "json_trail 1 (word_of_nat cp) = [word_of_nat (0x80 + cp mod 64)]"
    "json_trail 2 (word_of_nat cp) = [word_of_nat (0x80 + cp div 64 mod 64), word_of_nat (0x80 + cp mod 64)]"
    "json_trail 3 (word_of_nat cp) = [word_of_nat (0x80 + cp div 4096 mod 64),
       word_of_nat (0x80 + cp div 64 mod 64), word_of_nat (0x80 + cp mod 64)]"
    using t [of 1] t [of 64] t [of 4096]
    by (simp_all add: json_trail_Suc d del: of_nat_add One_nat_def)
  consider "cp < 0x80" | "\<not> cp < 0x80" "cp < 0x800" | "\<not> cp < 0x80" "\<not> cp < 0x800" "cp < 0x10000"
    | "\<not> cp < 0x80" "\<not> cp < 0x800" "\<not> cp < 0x10000" by blast
  then show ?thesis
  proof cases
    case 1
    with b0 show ?thesis by (simp add: json_utf8_def utf8_def)
  next
    case 2
    with b1 trails(1) show ?thesis by (simp add: json_utf8_def utf8_def d del: of_nat_add One_nat_def)
  next
    case 3
    with b2 trails(2) show ?thesis by (simp add: json_utf8_def utf8_def d del: of_nat_add)
  next
    case 4
    with b3 trails(3) show ?thesis by (simp add: json_utf8_def utf8_def d del: of_nat_add)
  qed
qed

lemma json_unicode_decode:
  assumes "json_at d s t (p @ [92, 117] @ hs) k False 0 jc" "length hs = 4" "list_all json_is_hex hs"
    and "json_hexnum 0 hs < 0xD800 \<or> 0xE000 \<le> json_hexnum 0 hs"
  shows "decode_unicode_char jc = accept (jc\<lparr>jp_buf := p @ utf8 (json_hexnum 0 hs)\<rparr>)"
proof -
  let ?n = "json_hexnum 0 hs"
  have n: "?n < 0x10000" using json_hexnum_less [OF assms(3), of 0] assms(2) by simp
  have loop: "json_hex_loop 0 hs = Some (word_of_nat ?n)"
    using json_hex_loop_eq [OF assms(3), of 0] assms(2) by simp
  have cmp: "(word_of_nat ?n :: u32) < 0x80 \<longleftrightarrow> ?n < 0x80" "(word_of_nat ?n :: u32) < 0x800 \<longleftrightarrow> ?n < 0x800"
    using n by (simp_all add: word_less_nat_alt unat_word_of_nat)
  have sur: "\<not> IS_HIGH_SURROGATE (word_of_nat ?n)" "\<not> IS_LOW_SURROGATE (word_of_nat ?n)"
    using assms(4) by (auto simp: json_surrogates [OF n])
  have "utf8 ?n = json_utf8 (if ?n < 0x80 then 0 else if ?n < 0x800 then 1 else 2) (word_of_nat ?n)"
    using json_utf8_eq [of ?n] n by (auto split: if_splits)
  with assms(1-3) sur loop cmp show ?thesis
    by (simp add: decode_unicode_char_def json_at_def Let_def)
qed

lemma json_unicode_high:
  assumes "json_at d s t (p @ [92, 117] @ hs) k False 0 jc" "length hs = 4" "list_all json_is_hex hs"
    and "0xD800 \<le> json_hexnum 0 hs" "json_hexnum 0 hs < 0xDC00"
  shows "decode_unicode_char jc =
    accept (jc\<lparr>jp_buf := p, jp_utf16_high_surrogate := word_of_nat (json_hexnum 0 hs)\<rparr>)"
proof -
  let ?n = "json_hexnum 0 hs"
  have n: "?n < 0x10000" using assms(5) by simp
  have loop: "json_hex_loop 0 hs = Some (word_of_nat ?n)"
    using json_hex_loop_eq [OF assms(3), of 0] assms(2) by simp
  have cmp: "\<not> (word_of_nat ?n :: u32) < 0x80" "\<not> (word_of_nat ?n :: u32) < 0x800"
    using n assms(4) by (simp_all add: word_less_nat_alt unat_word_of_nat)
  have u: "ucast (word_of_nat ?n :: u32) = (word_of_nat ?n :: u16)"
    using n by (intro ucast_word_of_nat) simp
  note sur = json_surrogates [OF n]
  with assms loop cmp u show ?thesis
    by (simp add: decode_unicode_char_def json_at_def Let_def)
qed

lemma json_unicode_low:
  assumes "json_at d s t (p @ [92, 117] @ ls) k False (word_of_nat h) jc" "length ls = 4" "list_all json_is_hex ls"
    and "0xD800 \<le> h" "h < 0xDC00" "0xDC00 \<le> json_hexnum 0 ls" "json_hexnum 0 ls < 0xE000"
  shows "decode_unicode_char jc =
    accept (jc\<lparr>jp_utf16_high_surrogate := 0,
      jp_buf := p @ utf8 (0x10000 + (h - 0xD800) * 1024 + (json_hexnum 0 ls - 0xDC00))\<rparr>)"
proof -
  let ?l = "json_hexnum 0 ls" and ?cp = "0x10000 + (h - 0xD800) * 1024 + (json_hexnum 0 ls - 0xDC00)"
  have l: "?l < 0x10000" using assms(7) by simp
  have loop: "json_hex_loop 0 ls = Some (word_of_nat ?l)"
    using json_hex_loop_eq [OF assms(3), of 0] assms(2) by simp
  have h0: "(word_of_nat h :: u16) \<noteq> 0"
    using assms(4,5) by (subst word_of_nat_0_iff) simp_all
  note pair = json_pair_value [OF assms(4-7)]
  have "utf8 ?cp = json_utf8 3 (word_of_nat ?cp)"
    using json_utf8_eq [of ?cp] assms(4-7) by simp
  with assms(1,2,6,7) h0 loop json_surrogates(2) [OF l] show ?thesis
    by (simp add: decode_unicode_char_def json_at_def Let_def pair del: of_nat_add of_nat_mult)
qed

subsubsection \<open>Strings\<close>

datatype json_item = JChar byte | JEsc byte | JUni "byte list" | JPair "byte list" "byte list"

definition json_hex4 :: "byte list \<Rightarrow> bool" where
  "json_hex4 hs \<longleftrightarrow> length hs = 4 \<and> list_all json_is_hex hs"

fun json_item_ok :: "json_item \<Rightarrow> bool" where
  "json_item_ok (JChar c) =
     (case json_class_of (uint c) of None \<Rightarrow> False | Some k \<Rightarrow> json_cell J_ST k = JGo J_ST)"
| "json_item_ok (JEsc c) = (c \<in> set (bytes ''bfnrt/'') \<or> c = 34 \<or> c = 92)"
| "json_item_ok (JUni hs) = (json_hex4 hs \<and> (json_hexnum 0 hs < 0xD800 \<or> 0xE000 \<le> json_hexnum 0 hs))"
| "json_item_ok (JPair hs ls) =
     (json_hex4 hs \<and> json_hex4 ls \<and> 0xD800 \<le> json_hexnum 0 hs \<and> json_hexnum 0 hs < 0xDC00 \<and>
      0xDC00 \<le> json_hexnum 0 ls \<and> json_hexnum 0 ls < 0xE000)"

fun json_item_text :: "json_item \<Rightarrow> byte list" where
  "json_item_text (JChar c) = [c]"
| "json_item_text (JEsc c) = [92, c]"
| "json_item_text (JUni hs) = [92, 117] @ hs"
| "json_item_text (JPair hs ls) = [92, 117] @ hs @ [92, 117] @ ls"

fun json_item_value :: "json_item \<Rightarrow> byte list" where
  "json_item_value (JChar c) = [c]"
| "json_item_value (JEsc c) =
     [if c = 98 then 8 else if c = 102 then 12 else if c = 110 then 10 else if c = 114 then 13
      else if c = 116 then 9 else c]"
| "json_item_value (JUni hs) = utf8 (json_hexnum 0 hs)"
| "json_item_value (JPair hs ls) =
     utf8 (0x10000 + (json_hexnum 0 hs - 0xD800) * 1024 + (json_hexnum 0 ls - 0xDC00))"

lemmas json_table_simps = json_class_of_def json_ascii_class_def json_cell_def

lemma json_hex_cells:
  "json_is_hex c \<Longrightarrow> \<exists>k. json_class_of (uint c) = Some k \<and> json_cell J_U1 k = JGo J_U2 \<and>
     json_cell J_U2 k = JGo J_U3 \<and> json_cell J_U3 k = JGo J_U4 \<and> json_cell J_U4 k = JAct JA_UC"
  by (auto simp: json_is_hex_def json_table_simps)

abbreviation json_str :: "int \<Rightarrow> json_state \<Rightarrow> byte list \<Rightarrow> json_mode list \<Rightarrow> bool \<Rightarrow> u16 \<Rightarrow> 'c json_parser \<Rightarrow> bool" where
  "json_str d s \<equiv> json_at d s JSON_T_STRING"

lemma json_reach_hex:
  assumes "json_env_ok E" "json_hex4 hs"
    and "\<And>jc. json_str d J_U4 (b @ hs) k False h jc \<Longrightarrow>
      yields (json_action_step E JA_UC jc) (\<lambda>ev jc'. ev = [] \<and> Q jc')"
  shows "json_reach E d (json_str d J_U1 b k False h) hs [] Q"
proof -
  from assms(2) obtain h1 h2 h3 h4 where hs: "hs = [h1, h2, h3, h4]"
    and hex: "json_is_hex h1" "json_is_hex h2" "json_is_hex h3" "json_is_hex h4"
    by (auto simp: json_hex4_def length_Suc_conv numeral_eq_Suc)
  note c = hex [THEN json_hex_cells]
  have 1: "json_reach E d (json_str d J_U1 b k False h) [h1] [] (json_str d J_U2 (b @ [h1]) k False h)"
    using c(1) by (elim exE conjE) (rule json_reach_go [OF assms(1)]; simp)
  have 2: "json_reach E d (json_str d J_U2 (b @ [h1]) k False h) [h2] [] (json_str d J_U3 (b @ [h1, h2]) k False h)"
    using c(2) by (elim exE conjE) (rule json_reach_go [OF assms(1)]; simp)
  have 3: "json_reach E d (json_str d J_U3 (b @ [h1, h2]) k False h) [h3] [] (json_str d J_U4 (b @ [h1, h2, h3]) k False h)"
    using c(3) by (elim exE conjE) (rule json_reach_go [OF assms(1)]; simp)
  have 4: "json_reach E d (json_str d J_U4 (b @ [h1, h2, h3]) k False h) [h4] [] Q"
  proof -
    from c(4) obtain kl where "json_class_of (uint h4) = Some kl" "json_cell J_U4 kl = JAct JA_UC" by blast
    then show ?thesis
      by (rule json_reach_act [OF assms(1)]) (use assms(3) hs in \<open>simp del: json_action_step.simps\<close>)
  qed
  from json_reach_append [OF 1 json_reach_append [OF 2 json_reach_append [OF 3 4]]]
  show ?thesis by (simp add: hs)
qed

lemma json_reach_backslash:
  assumes "json_env_ok E"
  shows "json_reach E d (json_str d J_ST b k False h) [92] [] (json_str d J_ES (b @ [92]) k True h)"
  by (rule json_reach_act [OF assms, where a = JA_EX and kl = JC_BACKS])
    (auto simp: json_table_simps yields_rules json_at_def)

lemma json_reach_u:
  assumes "json_env_ok E"
  shows "json_reach E d (json_str d J_ST b k False h) [92, 117] [] (json_str d J_U1 (b @ [92, 117]) k False h)"
proof -
  have "json_reach E d (json_str d J_ES (b @ [92]) k True h) [117] [] (json_str d J_U1 (b @ [92, 117]) k False h)"
    by (rule json_reach_char [OF assms, where kl = JC_LOW_U and x = "[92, 117]"])
      (auto simp: json_table_simps yields_rules json_at_def json_escape_def)
  from json_reach_append [OF json_reach_backslash [OF assms] this] show ?thesis by simp
qed

lemma json_reach_item:
  assumes "json_env_ok E" "json_item_ok i"
  shows "json_reach E d (json_str d J_ST b k False 0) (json_item_text i) []
    (json_str d J_ST (b @ json_item_value i) k False 0)"
proof (cases i)
  case (JChar c)
  with assms(2) obtain kl where "json_class_of (uint c) = Some kl" "json_cell J_ST kl = JGo J_ST"
    by (auto split: option.splits)
  with JChar json_reach_go [OF assms(1) this, of "b @ [c]" JSON_T_STRING b d k 0] show ?thesis by simp
next
  case (JEsc c)
  have "\<exists>kl. json_class_of (uint c) = Some kl \<and> json_cell J_ES kl = JGo J_ST \<and>
      json_escape (uint c) = Some (json_item_value i)"
    using assms(2) JEsc by (auto simp: json_table_simps json_escape_def)
  then obtain kl where kl: "json_class_of (uint c) = Some kl" "json_cell J_ES kl = JGo J_ST"
    "json_escape (uint c) = Some (json_item_value i)" by blast
  have "json_reach E d (json_str d J_ES (b @ [92]) k True 0) [c] [] (json_str d J_ST (b @ json_item_value i) k False 0)"
    by (rule json_reach_char [OF assms(1) kl(1)])
      (use kl in \<open>auto simp: yields_rules json_at_def\<close>)
  from json_reach_append [OF json_reach_backslash [OF assms(1)] this] JEsc show ?thesis by simp
next
  case (JUni hs)
  with assms(2) have hs: "json_hex4 hs" "json_hexnum 0 hs < 0xD800 \<or> 0xE000 \<le> json_hexnum 0 hs" by simp_all
  have "json_reach E d (json_str d J_U1 (b @ [92, 117]) k False 0) hs []
      (json_str d J_ST (b @ json_item_value i) k False 0)"
  proof (rule json_reach_hex [OF assms(1) hs(1)])
    fix jc :: "'a json_parser" assume at: "json_str d J_U4 ((b @ [92, 117]) @ hs) k False 0 jc"
    have "decode_unicode_char jc = accept (jc\<lparr>jp_buf := b @ utf8 (json_hexnum 0 hs)\<rparr>)"
      using at hs by (intro json_unicode_decode) (simp_all add: json_hex4_def)
    moreover have "length (json_item_value i) \<le> 4" using JUni by (simp add: utf8_def)
    ultimately show "yields (json_action_step E JA_UC jc)
        (\<lambda>ev jc'. ev = [] \<and> json_str d J_ST (b @ json_item_value i) k False 0 jc')"
      using at JUni hs(1)
      by (auto simp: accept_def json_go_def json_at_def json_bounds_def json_top_def json_hex4_def)
  qed
  from json_reach_append [OF json_reach_u [OF assms(1)] this] JUni show ?thesis by simp
next
  case (JPair hs ls)
  let ?h = "word_of_nat (json_hexnum 0 hs) :: u16"
  from JPair assms(2) have hs: "json_hex4 hs" "0xD800 \<le> json_hexnum 0 hs" "json_hexnum 0 hs < 0xDC00"
    and ls: "json_hex4 ls" "0xDC00 \<le> json_hexnum 0 ls" "json_hexnum 0 ls < 0xE000" by simp_all
  have h0: "?h \<noteq> 0" using hs by (subst word_of_nat_0_iff) simp_all
  have 1: "json_reach E d (json_str d J_U1 (b @ [92, 117]) k False 0) hs [] (json_str d J_D1 b k False ?h)"
  proof (rule json_reach_hex [OF assms(1) hs(1)])
    fix jc :: "'a json_parser" assume at: "json_str d J_U4 ((b @ [92, 117]) @ hs) k False 0 jc"
    have "decode_unicode_char jc = accept (jc\<lparr>jp_buf := b, jp_utf16_high_surrogate := ?h\<rparr>)"
      using at hs by (intro json_unicode_high) (simp_all add: json_hex4_def)
    then show "yields (json_action_step E JA_UC jc) (\<lambda>ev jc'. ev = [] \<and> json_str d J_D1 b k False ?h jc')"
      using at h0 by (auto simp: accept_def json_go_def json_at_def json_bounds_def json_top_def)
  qed
  have 2: "json_reach E d (json_str d J_D1 b k False ?h) [92] [] (json_str d J_D2 (b @ [92]) k False ?h)"
    by (rule json_reach_go [OF assms(1), where kl = JC_BACKS]) (simp_all add: json_table_simps)
  have 3: "json_reach E d (json_str d J_D2 (b @ [92]) k False ?h) [117] [] (json_str d J_U1 (b @ [92, 117]) k False ?h)"
    by (rule json_reach_go [OF assms(1), where kl = JC_LOW_U]) (simp_all add: json_table_simps)
  have 4: "json_reach E d (json_str d J_U1 (b @ [92, 117]) k False ?h) ls []
      (json_str d J_ST (b @ json_item_value i) k False 0)"
  proof (rule json_reach_hex [OF assms(1) ls(1)])
    fix jc :: "'a json_parser" assume at: "json_str d J_U4 ((b @ [92, 117]) @ ls) k False ?h jc"
    have "decode_unicode_char jc = accept (jc\<lparr>jp_utf16_high_surrogate := 0, jp_buf := b @ json_item_value i\<rparr>)"
      unfolding JPair json_item_value.simps
      using at hs ls by (intro json_unicode_low) (simp_all add: json_hex4_def)
    moreover have "length (json_item_value i) \<le> 4" using JPair by (simp add: utf8_def)
    ultimately show "yields (json_action_step E JA_UC jc)
        (\<lambda>ev jc'. ev = [] \<and> json_str d J_ST (b @ json_item_value i) k False 0 jc')"
      using at JPair ls(1)
      by (auto simp: accept_def json_go_def json_at_def json_bounds_def json_top_def json_hex4_def)
  qed
  from json_reach_append [OF json_reach_u [OF assms(1)] json_reach_append [OF 1
      json_reach_append [OF 2 json_reach_append [OF 3 4]]]] JPair
  show ?thesis by simp
qed

lemma json_reach_items:
  "json_env_ok E \<Longrightarrow> list_all json_item_ok is \<Longrightarrow>
   json_reach E d (json_str d J_ST b k False 0) (concat (map json_item_text is)) []
     (json_str d J_ST (b @ concat (map json_item_value is)) k False 0)"
proof (induction "is" arbitrary: b)
  case Nil
  then show ?case by (simp add: json_reach_Nil)
next
  case (Cons i "is")
  then have "json_item_ok i" by simp
  from json_reach_append [OF json_reach_item [OF Cons.prems(1) this] Cons.IH] Cons.prems
  show ?case by simp
qed

subsubsection \<open>White space, words and numbers\<close>

definition json_ws :: "byte list \<Rightarrow> bool" where
  "json_ws w \<longleftrightarrow> list_all (\<lambda>c. c = 32 \<or> c = 9 \<or> c = 10 \<or> c = 13) w"

lemma json_ws_class:
  "c = 32 \<or> c = 9 \<or> c = 10 \<or> c = 13 \<Longrightarrow>
   \<exists>kl. json_class_of (uint (c :: byte)) = Some kl \<and> json_blank kl \<and>
     (\<forall>s \<in> {J_GO, J_OK, J_OB, J_KE, J_CO, J_VA, J_AR}. json_cell s kl = JGo s) \<and>
     (\<forall>s \<in> {J_OK, J_ZE, J_IT, J_FR, J_E3}. json_cell s kl = JGo J_OK)"
  by (auto simp: json_table_simps json_blank_def)

lemma json_reach_ws:
  assumes "json_env_ok E" "s \<in> {J_GO, J_OK, J_OB, J_KE, J_CO, J_VA, J_AR}"
  shows "json_ws w \<Longrightarrow>
    json_reach E d (json_at d s JSON_T_NONE b k False h) w [] (json_at d s JSON_T_NONE b k False h)"
proof (induction w)
  case Nil
  show ?case by (rule json_reach_Nil)
next
  case (Cons c w)
  then have "c = 32 \<or> c = 9 \<or> c = 10 \<or> c = 13" by (simp add: json_ws_def)
  from json_ws_class [OF this] assms(2) obtain kl where kl: "json_class_of (uint c) = Some kl" "json_blank kl"
    "json_cell s kl = JGo s" by blast
  have "json_reach E d (json_at d s JSON_T_NONE b k False h) [c] [] (json_at d s JSON_T_NONE b k False h)"
    by (rule json_reach_go [OF assms(1) kl(1,3)]) (simp add: kl(2))
  from json_reach_Cons [OF this Cons.IH] Cons.prems show ?case by (simp add: json_ws_def)
qed

text \<open>A value has been read when the parser is in one of these states; a scalar is then still in the
  buffer and is reported by the next comma or bracket.\<close>

definition json_value_state :: "json_state \<Rightarrow> json_type \<Rightarrow> bool" where
  "json_value_state s t \<longleftrightarrow>
     s \<in> {J_OK, J_ZE, J_IT, J_FR, J_E3} \<and> (t = JSON_T_NONE \<longrightarrow> s = J_OK) \<and>
     (t = JSON_T_NONE \<or> json_is_non_container_type t) \<and> t \<noteq> JSON_T_STRING"

lemma json_reach_ws_after:
  assumes "json_env_ok E" "json_value_state s t" "t \<noteq> JSON_T_NONE"
  shows "json_ws w \<Longrightarrow>
    json_reach E d (json_at d s t b k False h) w [] (json_at d (if w = [] then s else J_OK) t (b @ w) k False h)"
  using assms(2)
proof (induction w arbitrary: s b)
  case Nil
  show ?case by (simp add: json_reach_Nil)
next
  case (Cons c w)
  then have "c = 32 \<or> c = 9 \<or> c = 10 \<or> c = 13" by (simp add: json_ws_def)
  from json_ws_class [OF this] Cons.prems(2) obtain kl where kl: "json_class_of (uint c) = Some kl"
    "json_cell s kl = JGo J_OK" unfolding json_value_state_def by blast
  have "json_reach E d (json_at d s t b k False h) [c] [] (json_at d J_OK t (b @ [c]) k False h)"
    by (rule json_reach_go [OF assms(1) kl]) (simp add: assms(3))
  moreover have "json_value_state J_OK t" using Cons.prems(2) by (auto simp: json_value_state_def)
  ultimately show ?case using json_reach_Cons [OF _ Cons.IH [of J_OK "b @ [c]"]] Cons.prems
    by (auto simp: json_ws_def split: if_splits)
qed

text \<open>\<open>true\<close>, \<open>false\<close> and \<open>null\<close>.\<close>

lemma json_reach_word:
  assumes "json_env_ok E" "s = J_VA \<or> s = J_AR"
    and "(txt, t) \<in> {(bytes ''true'', JSON_T_TRUE), (bytes ''false'', JSON_T_FALSE), (bytes ''null'', JSON_T_NULL)}"
  shows "json_reach E d (json_at d s JSON_T_NONE [] k False h) txt [] (json_at d J_OK t txt k False h)"
proof -
  have start: "json_reach E d (json_at d s JSON_T_NONE [] k False h) [c] [] (json_at d s' t' [c] k False h)"
    if "(c, a, t', s') \<in> {(116, JA_TR, JSON_T_TRUE, J_T1), (102, JA_FA, JSON_T_FALSE, J_F1), (110, JA_NU, JSON_T_NULL, J_N1)}"
    for c a t' s'
  proof -
    from that assms(2) obtain kl where kl: "json_class_of (uint c) = Some kl" "json_cell s kl = JAct a"
      by (auto simp: json_table_simps)
    show ?thesis
      by (rule json_reach_act [OF assms(1) kl])
        (use that in \<open>auto simp: yields_rules json_at_def\<close>)
  qed
  have go: "json_reach E d (json_at d s1 t' b k False h) [c] [] (json_at d s2 t' (b @ [c]) k False h)"
    if "json_class_of (uint c) = Some kl" "json_cell s1 kl = JGo s2" "t' \<noteq> JSON_T_NONE" for c kl s1 s2 t' b
    by (rule json_reach_go [OF assms(1) that(1,2)]) (simp add: that(3))
  have g: "json_reach E d (json_at d s1 t' b k False h) [c] [] (json_at d s2 t' (b @ [c]) k False h)"
    if "(s1, c, s2) \<in> {(J_T1, 114, J_T2), (J_T2, 117, J_T3), (J_T3, 101, J_OK), (J_F1, 97, J_F2), (J_F2, 108, J_F3),
      (J_F3, 115, J_F4), (J_F4, 101, J_OK), (J_N1, 117, J_N2), (J_N2, 108, J_N3), (J_N3, 108, J_OK)}"
      "t' \<noteq> JSON_T_NONE" for c s1 s2 t' b
  proof -
    from that(1) have "\<exists>kl. json_class_of (uint c) = Some kl \<and> json_cell s1 kl = JGo s2"
      by (elim insertE) (simp_all add: json_table_simps)
    with go that(2) show ?thesis by blast
  qed
  have tr: "json_reach E d (json_at d s JSON_T_NONE [] k False h) [116, 114, 117, 101] []
      (json_at d J_OK JSON_T_TRUE [116, 114, 117, 101] k False h)"
    using json_reach_append [OF start [of 116 JA_TR JSON_T_TRUE J_T1] json_reach_append [OF g [of J_T1 114 J_T2]
      json_reach_append [OF g [of J_T2 117 J_T3] g [of J_T3 101 J_OK]]]] by simp
  have fa: "json_reach E d (json_at d s JSON_T_NONE [] k False h) [102, 97, 108, 115, 101] []
      (json_at d J_OK JSON_T_FALSE [102, 97, 108, 115, 101] k False h)"
    using json_reach_append [OF start [of 102 JA_FA JSON_T_FALSE J_F1] json_reach_append [OF g [of J_F1 97 J_F2]
      json_reach_append [OF g [of J_F2 108 J_F3] json_reach_append [OF g [of J_F3 115 J_F4] g [of J_F4 101 J_OK]]]]]
    by simp
  have nu: "json_reach E d (json_at d s JSON_T_NONE [] k False h) [110, 117, 108, 108] []
      (json_at d J_OK JSON_T_NULL [110, 117, 108, 108] k False h)"
    using json_reach_append [OF start [of 110 JA_NU JSON_T_NULL J_N1] json_reach_append [OF g [of J_N1 117 J_N2]
      json_reach_append [OF g [of J_N2 108 J_N3] g [of J_N3 108 J_OK]]]] by simp
  from assms(3) tr fa nu show ?thesis by auto
qed

text \<open>Numbers: sign, integer digits, fraction, exponent.\<close>

datatype json_num = JNum bool "byte list" "byte list option" "(byte \<times> byte list \<times> byte list) option"

definition json_digits :: "byte list \<Rightarrow> bool" where
  "json_digits ds \<longleftrightarrow> ds \<noteq> [] \<and> list_all (\<lambda>c. c \<in> set (bytes ''0123456789'')) ds"

fun json_num_ok :: "json_num \<Rightarrow> bool" where
  "json_num_ok (JNum neg ds fr ex) =
     (json_digits ds \<and> (hd ds = 48 \<longrightarrow> tl ds = []) \<and>
      (case fr of None \<Rightarrow> True | Some fs \<Rightarrow> json_digits fs) \<and>
      (case ex of None \<Rightarrow> True
       | Some (e, sg, xs) \<Rightarrow> (e = 101 \<or> e = 69) \<and> sg \<in> {[], [43], [45]} \<and> json_digits xs \<and>
           (fr = None \<longrightarrow> hd ds \<noteq> 48)))"

fun json_num_text :: "json_num \<Rightarrow> byte list" where
  "json_num_text (JNum neg ds fr ex) =
     (if neg then [45] else []) @ ds @ (case fr of None \<Rightarrow> [] | Some fs \<Rightarrow> 46 # fs) @
     (case ex of None \<Rightarrow> [] | Some (e, sg, xs) \<Rightarrow> e # sg @ xs)"

fun json_num_type :: "json_num \<Rightarrow> json_type" where
  "json_num_type (JNum neg ds fr ex) = (if fr = None \<and> ex = None then JSON_T_INTEGER else JSON_T_FLOAT)"

lemma json_digit_cells:
  assumes "c \<in> set (bytes ''0123456789'')"
  shows "\<exists>kl. json_class_of (uint c) = Some kl \<and>
    (\<forall>s \<in> {J_IT, J_FR, J_E3}. json_cell s kl = JGo s) \<and> json_cell J_FX kl = JGo J_FR \<and>
    json_cell J_E1 kl = JGo J_E3 \<and> json_cell J_E2 kl = JGo J_E3 \<and>
    json_cell J_MI kl = JGo (if c = 48 then J_ZE else J_IT) \<and>
    (\<forall>s \<in> {J_VA, J_AR}. json_cell s kl = JAct (if c = 48 then JA_ZX else JA_IX))"
  using assms by (auto simp: json_table_simps)

lemma json_reach_digits:
  assumes "json_env_ok E" "s = J_IT \<or> s = J_FR \<or> s = J_E3" "t \<noteq> JSON_T_NONE"
  shows "list_all (\<lambda>c. c \<in> set (bytes ''0123456789'')) ds \<Longrightarrow>
    json_reach E d (json_at d s t b k False h) ds [] (json_at d s t (b @ ds) k False h)"
proof (induction ds arbitrary: b)
  case Nil
  show ?case by (simp add: json_reach_Nil)
next
  case (Cons c ds)
  then have "c \<in> set (bytes ''0123456789'')" by simp
  from json_digit_cells [OF this] assms(2) obtain kl where
    kl: "json_class_of (uint c) = Some kl" "json_cell s kl = JGo s" by blast
  have "json_reach E d (json_at d s t b k False h) [c] [] (json_at d s t (b @ [c]) k False h)"
    by (rule json_reach_go [OF assms(1) kl]) (simp add: assms(3))
  from json_reach_Cons [OF this Cons.IH] Cons.prems show ?case by simp
qed

lemma json_reach_digits_from:
  assumes "json_env_ok E" "(s, s') \<in> {(J_FX, J_FR), (J_E1, J_E3), (J_E2, J_E3)}" "t \<noteq> JSON_T_NONE" "json_digits ds"
  shows "json_reach E d (json_at d s t b k False h) ds [] (json_at d s' t (b @ ds) k False h)"
proof -
  from assms(4) obtain c cs where ds: "ds = c # cs" by (cases ds) (auto simp: json_digits_def)
  with assms(4) have "c \<in> set (bytes ''0123456789'')" and cs: "list_all (\<lambda>c. c \<in> set (bytes ''0123456789'')) cs"
    by (simp_all add: json_digits_def)
  from json_digit_cells [OF this(1)] assms(2) obtain kl where
    kl: "json_class_of (uint c) = Some kl" "json_cell s kl = JGo s'" by blast
  have 1: "json_reach E d (json_at d s t b k False h) [c] [] (json_at d s' t (b @ [c]) k False h)"
    by (rule json_reach_go [OF assms(1) kl]) (simp add: assms(3))
  have s': "s' = J_IT \<or> s' = J_FR \<or> s' = J_E3" using assms(2) by auto
  from json_reach_Cons [OF 1 json_reach_digits [OF assms(1) s' assms(3) cs]] ds show ?thesis by simp
qed

lemma json_reach_int:
  assumes "json_env_ok E" "s = J_VA \<or> s = J_AR" "json_digits ds" "hd ds = 48 \<longrightarrow> tl ds = []"
  shows "json_reach E d (json_at d s JSON_T_NONE [] k False h) ((if neg then [45] else []) @ ds) []
    (json_at d (if hd ds = 48 then J_ZE else J_IT) JSON_T_INTEGER ((if neg then [45] else []) @ ds) k False h)"
proof -
  from assms(3) obtain c cs where ds: "ds = c # cs" by (cases ds) (auto simp: json_digits_def)
  with assms(3) have c: "c \<in> set (bytes ''0123456789'')" and cs: "list_all (\<lambda>c. c \<in> set (bytes ''0123456789'')) cs"
    by (simp_all add: json_digits_def)
  let ?s = "if c = 48 then J_ZE else J_IT"
  from json_digit_cells [OF c] assms(2) obtain kl where
    kl: "json_class_of (uint c) = Some kl" "json_cell J_MI kl = JGo ?s"
      "json_cell s kl = JAct (if c = 48 then JA_ZX else JA_IX)" by blast
  have first: "json_reach E d (json_at d s JSON_T_NONE [] k False h) ((if neg then [45] else []) @ [c]) []
      (json_at d ?s JSON_T_INTEGER ((if neg then [45] else []) @ [c]) k False h)"
  proof (cases neg)
    case True
    have 1: "json_reach E d (json_at d s JSON_T_NONE [] k False h) [45] [] (json_at d J_MI JSON_T_INTEGER [45] k False h)"
      by (rule json_reach_act [OF assms(1), where kl = JC_MINUS and a = JA_MX])
        (use assms(2) in \<open>auto simp: json_table_simps yields_rules json_at_def\<close>)
    have 2: "json_reach E d (json_at d J_MI JSON_T_INTEGER [45] k False h) [c] [] (json_at d ?s JSON_T_INTEGER [45, c] k False h)"
      by (rule json_reach_go [OF assms(1) kl(1,2)]) simp
    from json_reach_append [OF 1 2] True show ?thesis by simp
  next
    case False
    have "json_reach E d (json_at d s JSON_T_NONE [] k False h) [c] [] (json_at d ?s JSON_T_INTEGER [c] k False h)"
      by (rule json_reach_act [OF assms(1) kl(1,3)]) (auto simp: yields_rules json_at_def)
    with False show ?thesis by simp
  qed
  show ?thesis
  proof (cases "c = 48")
    case True
    with first ds assms(4) show ?thesis by simp
  next
    case False
    from json_reach_append [OF first json_reach_digits [OF assms(1) _ _ cs]] False ds show ?thesis by simp
  qed
qed

lemma json_reach_number:
  assumes "json_env_ok E" "s = J_VA \<or> s = J_AR" "json_num_ok n"
  shows "\<exists>s'. s' \<in> {J_ZE, J_IT, J_FR, J_E3} \<and>
    json_reach E d (json_at d s JSON_T_NONE [] k False h) (json_num_text n) []
      (json_at d s' (json_num_type n) (json_num_text n) k False h)"
proof (cases n)
  case (JNum neg ds fr ex)
  let ?i = "(if neg then [45] else []) @ ds"
  let ?f = "case fr of None \<Rightarrow> [] | Some fs \<Rightarrow> 46 # fs"
  let ?s0 = "if hd ds = 48 then J_ZE else J_IT"
  let ?s1 = "if fr = None then ?s0 else J_FR"
  let ?t1 = "if fr = None then JSON_T_INTEGER else JSON_T_FLOAT"
  from assms(3) JNum have ds: "json_digits ds" "hd ds = 48 \<longrightarrow> tl ds = []" by simp_all
  note 1 = json_reach_int [OF assms(1,2) ds, of d k h neg]
  have 2: "json_reach E d (json_at d ?s0 JSON_T_INTEGER ?i k False h) ?f [] (json_at d ?s1 ?t1 (?i @ ?f) k False h)"
  proof (cases fr)
    case None
    then show ?thesis by (simp add: json_reach_Nil)
  next
    case (Some fs)
    with assms(3) JNum have fs: "json_digits fs" by simp
    have dot: "json_reach E d (json_at d ?s0 JSON_T_INTEGER ?i k False h) [46] [] (json_at d J_FX JSON_T_FLOAT (?i @ [46]) k False h)"
    proof (rule json_reach_act [OF assms(1), where kl = JC_POINT and a = JA_DF])
      fix jc :: "'a json_parser" assume "json_at d ?s0 JSON_T_INTEGER (?i @ [46]) k False h jc"
      then show "yields (json_action_step E JA_DF jc)
          (\<lambda>ev jc'. ev = [] \<and> json_at d J_FX JSON_T_FLOAT (?i @ [46]) k False h jc')"
        by (auto simp: yields_rules json_at_def json_bounds_def json_top_def json_not_string_null_or_bool_def)
    qed (simp_all add: json_table_simps)
    from json_reach_append [OF dot json_reach_digits_from [OF assms(1) _ _ fs, of J_FX J_FR]] Some
    show ?thesis by simp
  qed
  note 12 = json_reach_append [OF 1 2]
  show ?thesis
  proof (cases ex)
    case None
    with 12 JNum show ?thesis by (intro exI [of _ ?s1]) (auto split: option.splits)
  next
    case (Some x)
    then obtain e sg xs where ex: "ex = Some (e, sg, xs)" by (cases x) auto
    with assms(3) JNum have e: "e = 101 \<or> e = 69" and sg: "sg \<in> {[], [43], [45]}" and xs: "json_digits xs"
      and nz: "fr = None \<longrightarrow> hd ds \<noteq> 48" by auto
    let ?b = "?i @ ?f"
    have 3: "json_reach E d (json_at d ?s1 ?t1 ?b k False h) [e] [] (json_at d J_E1 JSON_T_FLOAT (?b @ [e]) k False h)"
    proof (cases fr)
      case None
      have kl: "json_class_of (uint e) = Some (if e = 101 then JC_LOW_E else JC_E)"
        "json_cell J_IT (if e = 101 then JC_LOW_E else JC_E) = JAct JA_DE"
        using e by (auto simp: json_table_simps)
      have "json_reach E d (json_at d J_IT JSON_T_INTEGER ?b k False h) [e] [] (json_at d J_E1 JSON_T_FLOAT (?b @ [e]) k False h)"
        by (rule json_reach_act [OF assms(1) kl]) (auto simp: yields_rules json_at_def json_not_string_null_or_bool_def)
      with None nz show ?thesis by simp
    next
      case (Some fs)
      have kl: "json_class_of (uint e) = Some (if e = 101 then JC_LOW_E else JC_E)"
        "json_cell J_FR (if e = 101 then JC_LOW_E else JC_E) = JGo J_E1"
        using e by (auto simp: json_table_simps)
      with Some show ?thesis by (simp add: json_reach_go [OF assms(1) kl])
    qed
    have 4: "\<exists>s2. (s2, J_E3) \<in> {(J_FX, J_FR), (J_E1, J_E3), (J_E2, J_E3)} \<and>
        json_reach E d (json_at d J_E1 JSON_T_FLOAT (?b @ [e]) k False h) sg [] (json_at d s2 JSON_T_FLOAT (?b @ [e] @ sg) k False h)"
    proof (cases "sg = []")
      case True
      then show ?thesis by (intro exI [of _ J_E1]) (simp add: json_reach_Nil)
    next
      case False
      with sg obtain c where c: "sg = [c]" "c = 43 \<or> c = 45" by auto
      have kl: "json_class_of (uint c) = Some (if c = 43 then JC_PLUS else JC_MINUS)"
        "json_cell J_E1 (if c = 43 then JC_PLUS else JC_MINUS) = JGo J_E2"
        using c(2) by (auto simp: json_table_simps)
      show ?thesis unfolding c(1) by (intro exI [of _ J_E2] conjI json_reach_go [OF assms(1) kl]) simp_all
    qed
    then obtain s2 where s2: "(s2, J_E3) \<in> {(J_FX, J_FR), (J_E1, J_E3), (J_E2, J_E3)}"
      and 4: "json_reach E d (json_at d J_E1 JSON_T_FLOAT (?b @ [e]) k False h) sg [] (json_at d s2 JSON_T_FLOAT (?b @ [e] @ sg) k False h)"
      by blast
    have 5: "json_reach E d (json_at d s2 JSON_T_FLOAT (?b @ [e] @ sg) k False h) xs []
        (json_at d J_E3 JSON_T_FLOAT ((?b @ [e] @ sg) @ xs) k False h)"
      by (rule json_reach_digits_from [OF assms(1) s2 _ xs]) simp
    from json_reach_append [OF 12 json_reach_append [OF 3 json_reach_append [OF 4 5]]] JNum ex
    show ?thesis by (intro exI [of _ J_E3]) simp
  qed
qed

subsubsection \<open>Documents\<close>

text \<open>A JSON text with its white space, the events it stands for, and its nesting.\<close>

datatype jval = JNull | JTrue | JFalse | JNumber json_num | JString "json_item list"
    | JArray "byte list" jelems | JObject "byte list" jmembers
  and jelems = JNoElem | JElem "byte list" jval "byte list" jelems
  and jmembers = JNoMember
    | JMember "byte list" "json_item list" "byte list" "byte list" jval "byte list" jmembers

definition jstring_text :: "json_item list \<Rightarrow> byte list" where
  "jstring_text is = 34 # concat (map json_item_text is) @ [34]"

definition jstring_value :: "json_item list \<Rightarrow> byte list" where
  "jstring_value is = concat (map json_item_value is)"

primrec jval_text :: "jval \<Rightarrow> byte list" and jelems_text :: "jelems \<Rightarrow> byte list"
  and jmembers_text :: "jmembers \<Rightarrow> byte list" where
  "jval_text JNull = bytes ''null''"
| "jval_text JTrue = bytes ''true''"
| "jval_text JFalse = bytes ''false''"
| "jval_text (JNumber n) = json_num_text n"
| "jval_text (JString is) = jstring_text is"
| "jval_text (JArray w es) = 91 # w @ jelems_text es @ [93]"
| "jval_text (JObject w ms) = 123 # w @ jmembers_text ms @ [125]"
| "jelems_text JNoElem = []"
| "jelems_text (JElem w v w' es) =
     w @ jval_text v @ w' @ (if es = JNoElem then [] else 44 # jelems_text es)"
| "jmembers_text JNoMember = []"
| "jmembers_text (JMember w k w1 w2 v w' ms) =
     w @ jstring_text k @ w1 @ [58] @ w2 @ jval_text v @ w' @
     (if ms = JNoMember then [] else 44 # jmembers_text ms)"

primrec jval_ok :: "jval \<Rightarrow> bool" and jelems_ok :: "jelems \<Rightarrow> bool" and jmembers_ok :: "jmembers \<Rightarrow> bool" where
  "jval_ok JNull = True"
| "jval_ok JTrue = True"
| "jval_ok JFalse = True"
| "jval_ok (JNumber n) = json_num_ok n"
| "jval_ok (JString is) = list_all json_item_ok is"
| "jval_ok (JArray w es) = (json_ws w \<and> jelems_ok es)"
| "jval_ok (JObject w ms) = (json_ws w \<and> jmembers_ok ms)"
| "jelems_ok JNoElem = True"
| "jelems_ok (JElem w v w' es) = (json_ws w \<and> jval_ok v \<and> json_ws w' \<and> jelems_ok es)"
| "jmembers_ok JNoMember = True"
| "jmembers_ok (JMember w k w1 w2 v w' ms) =
     (json_ws w \<and> list_all json_item_ok k \<and> json_ws w1 \<and> json_ws w2 \<and> jval_ok v \<and> json_ws w' \<and> jmembers_ok ms)"

primrec jval_depth :: "jval \<Rightarrow> nat" and jelems_depth :: "jelems \<Rightarrow> nat" and jmembers_depth :: "jmembers \<Rightarrow> nat" where
  "jval_depth JNull = 0"
| "jval_depth JTrue = 0"
| "jval_depth JFalse = 0"
| "jval_depth (JNumber n) = 0"
| "jval_depth (JString is) = 0"
| "jval_depth (JArray w es) = Suc (jelems_depth es)"
| "jval_depth (JObject w ms) = Suc (jmembers_depth ms)"
| "jelems_depth JNoElem = 0"
| "jelems_depth (JElem w v w' es) = max (jval_depth v) (jelems_depth es)"
| "jmembers_depth JNoMember = 0"
| "jmembers_depth (JMember w k w1 w2 v w' ms) = max (jval_depth v) (jmembers_depth ms)"

text \<open>White space behind a number stays in the buffer and is part of what strtod and sscanf see.\<close>

primrec jval_events :: "jval \<Rightarrow> byte list \<Rightarrow> json_event list" and jelems_events :: "jelems \<Rightarrow> json_event list"
  and jmembers_events :: "jmembers \<Rightarrow> json_event list" where
  "jval_events JNull w' = [(JSON_T_NULL, JV_none)]"
| "jval_events JTrue w' = [(JSON_T_TRUE, JV_none)]"
| "jval_events JFalse w' = [(JSON_T_FALSE, JV_none)]"
| "jval_events (JNumber n) w' = json_token (json_num_type n) (json_num_text n @ w')"
| "jval_events (JString is) w' = [(JSON_T_STRING, JV_str (jstring_value is))]"
| "jval_events (JArray w es) w' =
     (JSON_T_ARRAY_BEGIN, JV_none) # jelems_events es @ [(JSON_T_ARRAY_END, JV_none)]"
| "jval_events (JObject w ms) w' =
     (JSON_T_OBJECT_BEGIN, JV_none) # jmembers_events ms @ [(JSON_T_OBJECT_END, JV_none)]"
| "jelems_events JNoElem = []"
| "jelems_events (JElem w v w' es) = jval_events v w' @ jelems_events es"
| "jmembers_events JNoMember = []"
| "jmembers_events (JMember w k w1 w2 v w' ms) =
     (JSON_T_KEY, JV_str (jstring_value k)) # jval_events v w' @ jmembers_events ms"

definition json_reads ::
    "'c json_env \<Rightarrow> int \<Rightarrow> ('c json_parser \<Rightarrow> bool) \<Rightarrow> json_mode list \<Rightarrow> byte list \<Rightarrow> json_event list \<Rightarrow> bool"
where
  "json_reads E d P k cs evs \<longleftrightarrow>
     (\<exists>s t b es. json_reach E d P cs es (json_at d s t b k False 0) \<and> json_value_state s t \<and>
        evs = es @ json_token t b)"

lemma json_reads_prefix:
  "json_reach E d P cs es Q \<Longrightarrow> json_reads E d Q k ds fs \<Longrightarrow> json_reads E d P k (cs @ ds) (es @ fs)"
  unfolding json_reads_def by (elim exE conjE) (blast intro: json_reach_append append.assoc [symmetric])

lemma json_reads_then:
  assumes "json_reads E d P k cs evs"
    and "\<And>s t b. json_value_state s t \<Longrightarrow> json_reach E d (json_at d s t b k False 0) ds (json_token t b @ fs) Q"
  shows "json_reach E d P (cs @ ds) (evs @ fs) Q"
  using assms(1) unfolding json_reads_def
proof (elim exE conjE)
  fix s t b es assume r: "json_reach E d P cs es (json_at d s t b k False 0)" and v: "json_value_state s t"
    and evs: "evs = es @ json_token t b"
  from json_reach_append [OF r assms(2) [OF v]] evs show ?thesis by simp
qed

lemma json_value_cells:
  assumes "json_value_state s t"
  shows "json_cell s JC_COMMA = JAct JA_COMMA \<and> json_cell s JC_RSQRB = JAct JA_RSQRB \<and> json_cell s JC_RCURB = JAct JA_RCURB"
  using assms by (auto simp: json_value_state_def json_cell_def)

lemma json_reads_comma_array:
  assumes "json_env_ok E" "json_value_state s t"
  shows "json_reach E d (json_at d s t b (MODE_ARRAY # k) False 0) [44] (json_token t b)
    (json_at d J_VA JSON_T_NONE [] (MODE_ARRAY # k) False 0)"
  by (rule json_reach_act [OF assms(1), where kl = JC_COMMA and a = JA_COMMA])
    (use assms json_value_cells [OF assms(2)] yields_comma_array [OF assms(1)] in
      \<open>auto simp: json_value_state_def json_class_of_def json_ascii_class_def simp del: json_action_step.simps\<close>)

lemma json_reads_comma_object:
  assumes "json_env_ok E" "json_value_state s t"
  shows "json_reach E d (json_at d s t b (MODE_OBJECT # k) False 0) [44] (json_token t b)
    (json_at d J_KE JSON_T_NONE [] (MODE_KEY # k) False 0)"
  by (rule json_reach_act [OF assms(1), where kl = JC_COMMA and a = JA_COMMA])
    (use assms json_value_cells [OF assms(2)] yields_comma_object [OF assms(1)] in
      \<open>auto simp: json_value_state_def json_class_of_def json_ascii_class_def simp del: json_action_step.simps\<close>)

lemma json_reads_end:
  assumes "json_env_ok E" "json_value_state s t"
    and "m = MODE_ARRAY \<and> c = 93 \<or> m = MODE_OBJECT \<and> c = 125"
  shows "json_reach E d (json_at d s t b (m # k) False 0) [c] (json_token t b @ [(json_end m, JV_none)])
    (json_at d J_OK JSON_T_NONE [] k False 0)"
proof -
  obtain kl a where kl: "json_class_of (uint c) = Some kl" "json_cell s kl = JAct a"
    "m = MODE_ARRAY \<and> a = JA_RSQRB \<or> m = MODE_OBJECT \<and> a = JA_RCURB"
    using assms(3) json_value_cells [OF assms(2)] by (auto simp: json_class_of_def json_ascii_class_def)
  show ?thesis
    by (rule json_reach_act [OF assms(1) kl(1,2)], rule yields_end [OF assms(1) _ _ kl(3)])
      (use assms(2) in \<open>auto simp: json_value_state_def\<close>)
qed

lemma json_reach_begin:
  assumes "json_env_ok E" "s = J_GO \<or> s = J_VA \<or> s = J_AR" "int (length k) \<le> d"
    and "m = MODE_ARRAY \<and> c = 91 \<and> s' = J_AR \<or> m = MODE_KEY \<and> c = 123 \<and> s' = J_OB"
  shows "json_reach E d (json_at d s JSON_T_NONE [] k False 0) [c] [(json_begin m, JV_none)]
    (json_at d s' JSON_T_NONE [] (m # k) False 0)"
proof -
  obtain kl a where kl: "json_class_of (uint c) = Some kl" "json_cell s kl = JAct a"
    "m = MODE_ARRAY \<and> a = JA_LSQRB \<and> s' = J_AR \<or> m = MODE_KEY \<and> a = JA_LCURB \<and> s' = J_OB"
    using assms(2,4) by (auto simp: json_table_simps)
  show ?thesis
    by (rule json_reach_act [OF assms(1) kl(1,2)], rule yields_begin [OF assms(1) _ assms(3) kl(3)]) simp
qed

lemma json_reach_string:
  assumes "json_env_ok E" "s \<in> {J_VA, J_AR, J_OB, J_KE}" "list_all json_item_ok is"
    and "\<And>jc. json_str d J_ST (jstring_value is @ [34]) k False 0 jc \<Longrightarrow>
      yields (json_action_step E JA_QUOTE jc) (\<lambda>ev jc'. ev = es \<and> Q jc')"
  shows "json_reach E d (json_at d s JSON_T_NONE [] k False 0) (jstring_text is) es Q"
proof -
  have 1: "json_reach E d (json_at d s JSON_T_NONE [] k False 0) [34] [] (json_str d J_ST [] k False 0)"
    by (rule json_reach_act [OF assms(1), where kl = JC_QUOTE and a = JA_SB])
      (use assms(2) in \<open>auto simp: json_table_simps yields_rules json_at_def parse_buffer_clear_def
         json_bounds_def json_top_def\<close>)
  have 3: "json_reach E d (json_str d J_ST (jstring_value is) k False 0) [34] es Q"
    by (rule json_reach_act [OF assms(1), where kl = JC_QUOTE and a = JA_QUOTE])
      (use assms(4) in \<open>auto simp: json_table_simps simp del: json_action_step.simps\<close>)
  note 2 = json_reach_items [OF assms(1,3), of d "[]" k]
  from json_reach_append [OF 1 json_reach_append [OF 2 [unfolded append_Nil, folded jstring_value_def] 3]]
  show ?thesis by (simp add: jstring_text_def)
qed

lemma yields_quote_value:
  assumes "json_env_ok E" "json_str d J_ST (b @ [34]) (m # k) False h jc" "m = MODE_ARRAY \<or> m = MODE_OBJECT"
  shows "yields (json_action_step E JA_QUOTE jc)
    (\<lambda>ev jc'. ev = [(JSON_T_STRING, JV_str b)] \<and> json_at d J_OK JSON_T_NONE [] (m # k) False h jc')"
proof -
  have cb: "je_callback E \<noteq> None" using assms(1) by (auto simp: json_env_ok_def split: option.splits)
  with assms show ?thesis
    by (auto simp: yields_rules json_at_def parse_parse_buffer_def parse_buffer_clear_def
        json_is_non_container_type_def json_token_value_def json_bounds_def json_top_def)
qed

lemma yields_quote_key:
  assumes "json_env_ok E" "json_str d J_ST (b @ [34]) (MODE_KEY # k) False h jc"
  shows "yields (json_action_step E JA_QUOTE jc)
    (\<lambda>ev jc'. ev = [(JSON_T_KEY, JV_str b)] \<and> json_at d J_CO JSON_T_NONE [] (MODE_KEY # k) False h jc')"
  using assms
  by (auto simp: yields_rules json_at_def parse_buffer_clear_def json_bounds_def json_top_def Let_def)

lemma json_reach_colon:
  assumes "json_env_ok E"
  shows "json_reach E d (json_at d J_CO JSON_T_NONE [] (MODE_KEY # k) False 0) [58] []
    (json_at d J_VA JSON_T_NONE [] (MODE_OBJECT # k) False 0)"
proof (rule json_reach_act [OF assms, where kl = JC_COLON and a = JA_COLON])
  fix jc :: "'a json_parser" assume at: "json_at d J_CO JSON_T_NONE ([] @ [58]) (MODE_KEY # k) False 0 jc"
  then have bd: "json_bounds d (jc\<lparr>jp_buf := [], jp_stack := k\<rparr>)"
    by (auto simp: json_at_def json_bounds_def json_top_def)
  with at show "yields (json_action_step E JA_COLON jc)
      (\<lambda>ev jc'. ev = [] \<and> json_at d J_VA JSON_T_NONE [] (MODE_OBJECT # k) False 0 jc')"
    by (auto simp: yields_rules yields_push [OF bd] json_at_def json_bounds_def json_top_def)
qed (simp_all add: json_table_simps)

lemma json_reads_ws:
  assumes "json_env_ok E" "json_ws w"
    and "json_reach E d P cs es (json_at d s t b k False 0)" "json_value_state s t"
  shows "json_reads E d P k (cs @ w) (es @ json_token t (if t = JSON_T_NONE then b else b @ w))"
proof (cases "t = JSON_T_NONE")
  case True
  with assms(4) have s: "s = J_OK" by (simp add: json_value_state_def)
  note r = json_reach_append [OF assms(3) [unfolded True s] json_reach_ws [OF assms(1) _ assms(2)]]
  have "json_reach E d P (cs @ w) es (json_at d J_OK JSON_T_NONE b k False 0)" using r by simp
  with True s assms(4) show ?thesis unfolding json_reads_def by auto
next
  case False
  note r = json_reach_append [OF assms(3) json_reach_ws_after [OF assms(1,4) False assms(2)]]
  have "json_value_state (if w = [] then s else J_OK) t"
    using assms(4) False by (simp add: json_value_state_def)
  with r False show ?thesis unfolding json_reads_def by auto
qed

lemma json_reads_scalar:
  assumes "json_env_ok E" "json_ws w"
    and "json_reach E d P cs [] (json_at d s t b k False 0)" "json_value_state s t" "t \<noteq> JSON_T_NONE"
  shows "json_reads E d P k (cs @ w) (json_token t (b @ w))"
  using json_reads_ws [OF assms(1-4)] assms(5) by simp

text \<open>The stack below a value, and where a value may stand.\<close>

definition json_slot :: "int \<Rightarrow> nat \<Rightarrow> json_state \<Rightarrow> json_mode list \<Rightarrow> bool" where
  "json_slot d n s k \<longleftrightarrow>
     int (length k) + int n \<le> d + 1 \<and>
     (case k of [] \<Rightarrow> False | m # ms \<Rightarrow> s = J_VA \<and> (m = MODE_ARRAY \<or> m = MODE_OBJECT) \<or> s = J_AR \<and> m = MODE_ARRAY)"

lemma json_reads_array:
  assumes E: "json_env_ok E" and s: "s = J_GO \<or> s = J_VA \<or> s = J_AR" and len: "int (length k) \<le> d" and w: "json_ws w"
    and es: "es \<noteq> JNoElem \<Longrightarrow> json_reads E d (json_at d J_AR JSON_T_NONE [] (MODE_ARRAY # k) False 0)
      (MODE_ARRAY # k) (jelems_text es) (jelems_events es)"
  shows "json_reach E d (json_at d s JSON_T_NONE [] k False 0) (jval_text (JArray w es)) (jval_events (JArray w es) w')
    (json_at d J_OK JSON_T_NONE [] k False 0)"
proof -
  note 1 = json_reach_begin [OF E s len, of MODE_ARRAY 91 J_AR]
  have 2: "json_reach E d (json_at d J_AR JSON_T_NONE [] (MODE_ARRAY # k) False 0) w []
      (json_at d J_AR JSON_T_NONE [] (MODE_ARRAY # k) False 0)"
    by (rule json_reach_ws [OF E _ w]) simp
  have 3: "json_reach E d (json_at d J_AR JSON_T_NONE [] (MODE_ARRAY # k) False 0) (jelems_text es @ [93])
      (jelems_events es @ [(JSON_T_ARRAY_END, JV_none)]) (json_at d J_OK JSON_T_NONE [] k False 0)"
  proof (cases "es = JNoElem")
    case True
    have kl: "json_class_of (uint (93 :: byte)) = Some JC_RSQRB" "json_cell J_AR JC_RSQRB = JAct JA_RSQRB"
      by (simp_all add: json_table_simps)
    have "json_reach E d (json_at d J_AR JSON_T_NONE [] (MODE_ARRAY # k) False 0) [93]
        (json_token JSON_T_NONE [] @ [(json_end MODE_ARRAY, JV_none)]) (json_at d J_OK JSON_T_NONE [] k False 0)"
      by (rule json_reach_act [OF E kl], rule yields_end [OF E]) simp_all
    with True show ?thesis by (simp add: json_token_def)
  next
    case False
    show ?thesis
      by (rule json_reads_then [OF es [OF False]])
        (use json_reads_end [OF E, of _ _ MODE_ARRAY 93] in simp)
  qed
  from json_reach_append [OF 1 json_reach_append [OF 2 3]] show ?thesis by simp
qed

lemma json_reads_object:
  assumes E: "json_env_ok E" and s: "s = J_GO \<or> s = J_VA \<or> s = J_AR" and len: "int (length k) \<le> d" and w: "json_ws w"
    and ms: "ms \<noteq> JNoMember \<Longrightarrow> json_reads E d (json_at d J_OB JSON_T_NONE [] (MODE_KEY # k) False 0)
      (MODE_OBJECT # k) (jmembers_text ms) (jmembers_events ms)"
  shows "json_reach E d (json_at d s JSON_T_NONE [] k False 0) (jval_text (JObject w ms)) (jval_events (JObject w ms) w')
    (json_at d J_OK JSON_T_NONE [] k False 0)"
proof -
  note 1 = json_reach_begin [OF E s len, of MODE_KEY 123 J_OB]
  have 2: "json_reach E d (json_at d J_OB JSON_T_NONE [] (MODE_KEY # k) False 0) w []
      (json_at d J_OB JSON_T_NONE [] (MODE_KEY # k) False 0)"
    by (rule json_reach_ws [OF E _ w]) simp
  have 3: "json_reach E d (json_at d J_OB JSON_T_NONE [] (MODE_KEY # k) False 0) (jmembers_text ms @ [125])
      (jmembers_events ms @ [(JSON_T_OBJECT_END, JV_none)]) (json_at d J_OK JSON_T_NONE [] k False 0)"
  proof (cases "ms = JNoMember")
    case True
    have kl: "json_class_of (uint (125 :: byte)) = Some JC_RCURB" "json_cell J_OB JC_RCURB = JAct JA_EMPTY"
      by (simp_all add: json_table_simps)
    have "json_reach E d (json_at d J_OB JSON_T_NONE [] (MODE_KEY # k) False 0) [125]
        [(JSON_T_OBJECT_END, JV_none)] (json_at d J_OK JSON_T_NONE [] k False 0)"
      by (rule json_reach_act [OF E kl])
        (auto simp: yields_rules E json_at_def parse_buffer_clear_def json_bounds_def json_top_def)
    with True show ?thesis by simp
  next
    case False
    show ?thesis
      by (rule json_reads_then [OF ms [OF False]])
        (use json_reads_end [OF E, of _ _ MODE_OBJECT 125] in simp)
  qed
  from json_reach_append [OF 1 json_reach_append [OF 2 3]] show ?thesis by simp
qed

lemma json_reads_document:
  assumes E: "json_env_ok E"
  shows "jval_ok v \<Longrightarrow> json_ws w' \<Longrightarrow> json_slot d (jval_depth v) s k \<Longrightarrow>
      json_reads E d (json_at d s JSON_T_NONE [] k False 0) k (jval_text v @ w') (jval_events v w')"
    and "jelems_ok es \<Longrightarrow> es \<noteq> JNoElem \<Longrightarrow> json_slot d (jelems_depth es) sa (MODE_ARRAY # ka) \<Longrightarrow>
      json_reads E d (json_at d sa JSON_T_NONE [] (MODE_ARRAY # ka) False 0) (MODE_ARRAY # ka)
        (jelems_text es) (jelems_events es)"
    and "jmembers_ok ms \<Longrightarrow> ms \<noteq> JNoMember \<Longrightarrow> so = J_OB \<or> so = J_KE \<Longrightarrow>
      json_slot d (jmembers_depth ms) J_VA (MODE_OBJECT # ko) \<Longrightarrow>
      json_reads E d (json_at d so JSON_T_NONE [] (MODE_KEY # ko) False 0) (MODE_OBJECT # ko)
        (jmembers_text ms) (jmembers_events ms)"
proof (induction v and es and ms arbitrary: w' s k and sa ka and so ko)
  case JNull
  then have s: "s = J_VA \<or> s = J_AR" by (auto simp: json_slot_def split: list.splits)
  from json_reads_scalar [OF E JNull(2) json_reach_word [OF E s, of "bytes ''null''" JSON_T_NULL d k 0]]
  show ?case by (simp add: json_value_state_def json_is_non_container_type_def json_token_def)
next
  case JTrue
  then have s: "s = J_VA \<or> s = J_AR" by (auto simp: json_slot_def split: list.splits)
  from json_reads_scalar [OF E JTrue(2) json_reach_word [OF E s, of "bytes ''true''" JSON_T_TRUE d k 0]]
  show ?case by (simp add: json_value_state_def json_is_non_container_type_def json_token_def)
next
  case JFalse
  then have s: "s = J_VA \<or> s = J_AR" by (auto simp: json_slot_def split: list.splits)
  from json_reads_scalar [OF E JFalse(2) json_reach_word [OF E s, of "bytes ''false''" JSON_T_FALSE d k 0]]
  show ?case by (simp add: json_value_state_def json_is_non_container_type_def json_token_def)
next
  case (JNumber n)
  then have s: "s = J_VA \<or> s = J_AR" by (auto simp: json_slot_def split: list.splits)
  from JNumber(1) have "json_num_ok n" by simp
  from json_reach_number [OF E s this, of d k 0] obtain s' where
    s': "s' \<in> {J_ZE, J_IT, J_FR, J_E3}"
    and r: "json_reach E d (json_at d s JSON_T_NONE [] k False 0) (json_num_text n) []
      (json_at d s' (json_num_type n) (json_num_text n) k False 0)" by blast
  have "json_value_state s' (json_num_type n)" "json_num_type n \<noteq> JSON_T_NONE"
    using s' by (cases n; auto simp: json_value_state_def json_is_non_container_type_def)+
  from json_reads_scalar [OF E JNumber(2) r this] show ?case by simp
next
  case (JString "is")
  from JString(3) obtain m ms where k: "k = m # ms" "m = MODE_ARRAY \<or> m = MODE_OBJECT" "s = J_VA \<or> s = J_AR"
    by (auto simp: json_slot_def split: list.splits)
  from JString(1) have "is": "list_all json_item_ok is" by simp
  have r: "json_reach E d (json_at d s JSON_T_NONE [] k False 0) (jstring_text is) [(JSON_T_STRING, JV_str (jstring_value is))]
      (json_at d J_OK JSON_T_NONE [] k False 0)"
    by (rule json_reach_string [OF E _ "is"]) (use k yields_quote_value [OF E] in \<open>auto simp del: json_action_step.simps\<close>)
  from json_reads_ws [OF E JString(2) r] show ?case
    by (simp add: json_value_state_def json_token_def)
next
  case (JArray w es)
  from JArray.prems have s: "s = J_GO \<or> s = J_VA \<or> s = J_AR" and len: "int (length k) \<le> d"
    and sl: "json_slot d (jelems_depth es) J_AR (MODE_ARRAY # k)" and w: "json_ws w" and ok: "jelems_ok es"
    by (auto simp: json_slot_def split: list.splits)
  note r = json_reads_array [OF E s len w JArray.IH [OF ok _ sl], of w']
  from json_reads_ws [OF E JArray.prems(2) r] show ?case
    by (simp add: json_value_state_def json_token_def)
next
  case (JObject w ms)
  from JObject.prems have s: "s = J_GO \<or> s = J_VA \<or> s = J_AR" and len: "int (length k) \<le> d"
    and sl: "json_slot d (jmembers_depth ms) J_VA (MODE_OBJECT # k)" and w: "json_ws w" and ok: "jmembers_ok ms"
    by (auto simp: json_slot_def split: list.splits)
  note r = json_reads_object [OF E s len w JObject.IH [OF ok _ _ sl], of w']
  from json_reads_ws [OF E JObject.prems(2) r] show ?case
    by (simp add: json_value_state_def json_token_def)
next
  case JNoElem
  then show ?case by simp
next
  case (JElem w v w' es)
  from JElem.prems have ok: "json_ws w" "jval_ok v" "json_ws w'" "jelems_ok es"
    and sl: "json_slot d (jval_depth v) sa (MODE_ARRAY # ka)" "json_slot d (jelems_depth es) J_VA (MODE_ARRAY # ka)"
    and sa: "sa \<in> {J_GO, J_OK, J_OB, J_KE, J_CO, J_VA, J_AR}" by (auto simp: json_slot_def)
  note r = json_reads_prefix [OF json_reach_ws [OF E sa ok(1)] JElem.IH(1) [OF ok(2,3) sl(1)]]
  show ?case
  proof (cases "es = JNoElem")
    case True
    with r show ?thesis by simp
  next
    case False
    have "json_reach E d (json_at d sa JSON_T_NONE [] (MODE_ARRAY # ka) False 0) ((w @ jval_text v @ w') @ [44])
        (([] @ jval_events v w') @ []) (json_at d J_VA JSON_T_NONE [] (MODE_ARRAY # ka) False 0)"
      by (rule json_reads_then [OF r]) (use json_reads_comma_array [OF E] in simp)
    from json_reads_prefix [OF this JElem.IH(2) [OF ok(4) False sl(2)]] False show ?thesis by simp
  qed
next
  case JNoMember
  then show ?case by simp
next
  case (JMember w key w1 w2 v w' ms)
  from JMember.prems have ok: "json_ws w" "list_all json_item_ok key" "json_ws w1" "json_ws w2" "jval_ok v" "json_ws w'"
    "jmembers_ok ms"
    and sl: "json_slot d (jval_depth v) J_VA (MODE_OBJECT # ko)" "json_slot d (jmembers_depth ms) J_VA (MODE_OBJECT # ko)"
    and so: "so \<in> {J_GO, J_OK, J_OB, J_KE, J_CO, J_VA, J_AR}" "so \<in> {J_VA, J_AR, J_OB, J_KE}"
    by (auto simp: json_slot_def)
  note r1 = json_reach_ws [OF E so(1) ok(1), of d "[]" "MODE_KEY # ko" 0]
  have r2: "json_reach E d (json_at d so JSON_T_NONE [] (MODE_KEY # ko) False 0) (jstring_text key)
      [(JSON_T_KEY, JV_str (jstring_value key))] (json_at d J_CO JSON_T_NONE [] (MODE_KEY # ko) False 0)"
    by (rule json_reach_string [OF E so(2) ok(2)]) (rule yields_quote_key [OF E])
  have r3: "json_reach E d (json_at d J_CO JSON_T_NONE [] (MODE_KEY # ko) False 0) w1 []
      (json_at d J_CO JSON_T_NONE [] (MODE_KEY # ko) False 0)" by (rule json_reach_ws [OF E _ ok(3)]) simp
  have r5: "json_reach E d (json_at d J_VA JSON_T_NONE [] (MODE_OBJECT # ko) False 0) w2 []
      (json_at d J_VA JSON_T_NONE [] (MODE_OBJECT # ko) False 0)" by (rule json_reach_ws [OF E _ ok(4)]) simp
  note r = json_reads_prefix [OF r1 json_reads_prefix [OF r2 json_reads_prefix [OF r3
      json_reads_prefix [OF json_reach_colon [OF E] json_reads_prefix [OF r5 JMember.IH(1) [OF ok(5,6) sl(1)]]]]]]
  show ?case
  proof (cases "ms = JNoMember")
    case True
    with r show ?thesis by simp
  next
    case False
    have "json_reach E d (json_at d so JSON_T_NONE [] (MODE_KEY # ko) False 0)
        ((w @ jstring_text key @ w1 @ [58] @ w2 @ jval_text v @ w') @ [44])
        (([] @ [(JSON_T_KEY, JV_str (jstring_value key))] @ [] @ [] @ [] @ jval_events v w') @ [])
        (json_at d J_KE JSON_T_NONE [] (MODE_KEY # ko) False 0)"
      by (rule json_reads_then [OF r]) (use json_reads_comma_object [OF E] in simp)
    from json_reads_prefix [OF this JMember.IH(2) [OF ok(7) False _ sl(2)]] False show ?thesis by simp
  qed
qed
section \<open>Properties\<close>

text \<open>C4: with any nesting limit from 1 to 127, whatever bytes arrive, whatever the callback answers
  and whichever allocations fail, no assertion of the parser fails, no access leaves the stack or
  the parse buffer, every event is well formed, and as long as the parser accepts, the stack holds
  at most limit + 1 modes and the buffer has room for its terminator.\<close>

theorem json_never_aborts:
  assumes "0 < json_depth config" "json_depth config < 128"
    and "new_JSON_parser E config x = Some jc" and "json_feed E jc cs = (jc', ev, v)"
  shows "v \<noteq> Abort \<and> list_all json_event_ok ev \<and>
    (v = Accept \<longrightarrow> json_top jc' \<le> json_depth config \<and> length (jp_buf jc') < jp_buf_capacity jc')"
proof -
  from json_new_inv [OF assms(3,1,2)] have inv: "json_inv (json_depth config) jc" by simp
  from json_safe.feed_no_abort [OF inv assms(4)] json_safe.feed_ok_events [OF inv assms(4)]
    json_safe.inv_feed [OF inv, of E cs jc' ev] assms(4)
  show ?thesis by (auto simp: json_inv_def json_bounds_def)
qed

text \<open>C6: the events of any input are a run of the protocol: containers open and close in the order of
  a stack, an object alternates keys and values, and the only event out of order is an unmatched
  closing bracket, after which nothing comes. If the input is accepted and JSON_parser_done
  succeeds, then every container has been closed, and nothing follows the document.\<close>

theorem json_events_follow_protocol:
  assumes "0 < json_depth config" "json_depth config < 128" "je_callback E \<noteq> None"
    and "new_JSON_parser E config x = Some jc" and "json_feed E jc cs = (jc', ev, v)"
  shows "\<exists>ph. run_list json_phase_next P_Start ev = Some ph \<and>
    (v = Accept \<longrightarrow> snd (snd (JSON_parser_done jc')) = Accept \<longrightarrow> ph = P_End \<or> ph = P_Start \<and> ev = [])"
proof -
  have start: "ph = P_Start \<Longrightarrow> run_list json_phase_next P_Start ev = Some ph \<Longrightarrow> ev = []" for ph ev
  proof (cases ev)
    case (Cons e es)
    assume "ph = P_Start" "run_list json_phase_next P_Start ev = Some ph"
    moreover have "run_list json_phase_next ph0 es \<noteq> Some P_Start" if "ph0 \<noteq> P_Start" for ph0 es
      using that
    proof (induction es arbitrary: ph0)
      case (Cons a es)
      have "json_phase_next ph0 a \<noteq> Some P_Start"
        using Cons.prems by (cases ph0; cases "fst a")
          (auto simp: json_phase_next_def split: if_splits option.splits list.splits
            elim!: json_leave.elims)
      with Cons.IH show ?case by (auto split: option.splits)
    qed simp
    moreover have "json_phase_next P_Start e \<noteq> Some P_Start" by (cases "fst e") (auto simp: json_phase_next_def)
    ultimately show ?thesis using Cons by (auto split: option.splits)
  qed simp
  from json_new_inv [OF assms(4,1,2)] have "json_sim E (json_depth config) P_Start jc"
    by (simp add: json_sim_def)
  from json_proto.sim_feed [OF this assms(5)] obtain ph where
    run: "run_list json_phase_next P_Start ev = Some ph"
    and sim: "v = Accept \<longrightarrow> json_sim E (json_depth config) ph jc'" by blast
  have "ph = P_End \<or> ph = P_Start" if "v = Accept" "snd (snd (JSON_parser_done jc')) = Accept"
  proof -
    from that(2) have st: "jp_state jc' = J_OK \<or> jp_state jc' = J_GO" "hd (jp_stack jc') = MODE_DONE"
      by (auto simp: JSON_parser_done_def json_pop_def refuse_def split: if_splits list.splits)
    moreover from st(1) sim that(1) have "\<not> jp_comment jc'" by (auto simp: json_sim_def json_inv_def)
    ultimately show ?thesis using sim that(1) assms(3)
      by (auto simp: json_sim_def json_phase_of_def json_phase_at_def)
  qed
  with run start show ?thesis by blast
qed

definition json_demo_env :: "nat json_env" where
  "json_demo_env = \<lparr>je_callback = Some (\<lambda>n e. (n + 1, True)), je_alloc = (\<lambda>why n. True),
     je_decimal_point = 46\<rparr>"

lemma json_demo_new: "\<exists>jc. new_JSON_parser json_demo_env None 0 = Some jc"
  by (simp add: new_JSON_parser_def json_demo_env_def Let_def)

lemma json_never_aborts_witness:
  "case json_feed json_demo_env (the (new_JSON_parser json_demo_env None 0)) (bytes ''[1,'') of
     (jc', ev, v) \<Rightarrow> v \<noteq> Abort \<and> list_all json_event_ok ev \<and>
       (v = Accept \<longrightarrow> json_top jc' \<le> 127 \<and> length (jp_buf jc') < jp_buf_capacity jc')"
proof -
  obtain jc where jc: "new_JSON_parser json_demo_env None 0 = Some jc" using json_demo_new ..
  obtain jc' ev v where fd: "json_feed json_demo_env jc (bytes ''[1,'') = (jc', ev, v)"
    by (cases "json_feed json_demo_env jc (bytes ''[1,'')") auto
  have "0 < json_depth None" "json_depth None < 128" by (simp_all add: json_depth_def)
  from json_never_aborts [OF this jc fd] jc fd show ?thesis by (simp add: json_depth_def)
qed

lemma json_events_follow_protocol_witness:
  "case json_feed json_demo_env (the (new_JSON_parser json_demo_env None 0)) (bytes ''[1}'') of
     (jc', ev, v) \<Rightarrow> run_list json_phase_next P_Start ev \<noteq> None"
proof -
  obtain jc where jc: "new_JSON_parser json_demo_env None 0 = Some jc" using json_demo_new ..
  obtain jc' ev v where fd: "json_feed json_demo_env jc (bytes ''[1}'') = (jc', ev, v)"
    by (cases "json_feed json_demo_env jc (bytes ''[1}'')") auto
  have "0 < json_depth None" "json_depth None < 128" "je_callback json_demo_env \<noteq> None"
    by (simp_all add: json_depth_def json_demo_env_def)
  from json_events_follow_protocol [OF this jc fd] jc fd show ?thesis by auto
qed

lemma json_document_read:
  assumes "json_env_ok E" "je_decimal_point E = 46"
    and "new_JSON_parser E config x = Some jc" "0 < json_depth config" "json_depth config < 128"
    and "\<not> jp_handle_floats_manually jc"
    and "v = JArray w es \<or> v = JObject w ms" "jval_ok v" "int (jval_depth v) \<le> json_depth config"
    and "json_ws w0" "json_ws w1"
  shows "\<exists>jc'. json_feed E jc (w0 @ jval_text v @ w1) = (jc', jval_events v w1, Accept) \<and>
    snd (snd (JSON_parser_done jc')) = Accept"
proof -
  let ?d = "json_depth config"
  note E = assms(1)
  have at: "json_at ?d J_GO JSON_T_NONE [] [MODE_DONE] False 0 jc"
    using assms(2-6) json_new_inv [OF assms(3-5)]
    by (auto simp: new_JSON_parser_def Let_def json_push_def json_top_def json_stack_room_def json_at_def
        json_inv_def JSON_PARSER_STACK_SIZE_def accept_def split: if_splits)
  have len: "int (length [MODE_DONE]) \<le> ?d" using assms(4) by simp
  have 1: "json_reach E ?d (json_at ?d J_GO JSON_T_NONE [] [MODE_DONE] False 0) w0 []
      (json_at ?d J_GO JSON_T_NONE [] [MODE_DONE] False 0)" by (rule json_reach_ws [OF E _ assms(10)]) simp
  have 2: "json_reach E ?d (json_at ?d J_GO JSON_T_NONE [] [MODE_DONE] False 0) (jval_text v) (jval_events v w1)
      (json_at ?d J_OK JSON_T_NONE [] [MODE_DONE] False 0)"
    using assms(7)
  proof
    assume v: "v = JArray w es"
    with assms(8,9) have ok: "json_ws w" "jelems_ok es" and sl: "json_slot ?d (jelems_depth es) J_AR [MODE_ARRAY, MODE_DONE]"
      by (auto simp: json_slot_def)
    show ?thesis unfolding v
      by (rule json_reads_array [OF E _ len ok(1) json_reads_document(2) [OF E ok(2) _ sl]]) simp_all
  next
    assume v: "v = JObject w ms"
    with assms(8,9) have ok: "json_ws w" "jmembers_ok ms" and sl: "json_slot ?d (jmembers_depth ms) J_VA [MODE_OBJECT, MODE_DONE]"
      by (auto simp: json_slot_def)
    show ?thesis unfolding v
      by (rule json_reads_object [OF E _ len ok(1) json_reads_document(3) [OF E ok(2) _ _ sl]]) simp_all
  qed
  have 3: "json_reach E ?d (json_at ?d J_OK JSON_T_NONE [] [MODE_DONE] False 0) w1 []
      (json_at ?d J_OK JSON_T_NONE [] [MODE_DONE] False 0)" by (rule json_reach_ws [OF E _ assms(11)]) simp
  from json_reach_append [OF 1 json_reach_append [OF 2 3]] at
  have "yields (json_feed E jc (w0 @ jval_text v @ w1))
      (\<lambda>ev jc'. ev = jval_events v w1 \<and> json_at ?d J_OK JSON_T_NONE [] [MODE_DONE] False 0 jc')"
    by (simp add: json_reach_def)
  then obtain jc' where fd: "json_feed E jc (w0 @ jval_text v @ w1) = (jc', jval_events v w1, Accept)"
    and at': "json_at ?d J_OK JSON_T_NONE [] [MODE_DONE] False 0 jc'"
    by (auto simp: yields_def split: prod.splits)
  from at' have "snd (snd (JSON_parser_done jc')) = Accept"
    by (auto simp: json_at_def JSON_parser_done_def json_pop_def accept_def)
  with fd show ?thesis by blast
qed



text \<open>The number that digits spell, clamped to 64 bits: the value reported for an integer.\<close>

fun json_dec :: "int \<Rightarrow> byte list \<Rightarrow> int" where
  "json_dec a [] = a"
| "json_dec a (c # cs) = json_dec (a * 10 + (uint c - 48)) cs"

lemma scan_digits_text:
  "list_all (\<lambda>c. c \<in> set (bytes ''0123456789'')) ds \<Longrightarrow> json_ws w \<Longrightarrow>
   scan_digits a (ds @ w) = json_dec a ds"
proof (induction ds arbitrary: a)
  case Nil
  then show ?case by (cases w) (auto simp: json_ws_def)
next
  case (Cons c ds)
  then have "48 \<le> c" "c \<le> 57" by auto
  with Cons show ?case by simp
qed

text \<open>the value reported for an integer is the number its digits spell, clamped to 64 bits,
  whatever white space follows it in the buffer.\<close>

theorem json_integer_value:
  assumes "json_num_ok (JNum neg ds None None)" "json_ws w"
  shows "jval_events (JNumber (JNum neg ds None None)) w =
    [(JSON_T_INTEGER, JV_int (max (- (2 ^ 63)) (min (2 ^ 63 - 1) ((if neg then -1 else 1) * json_dec 0 ds))))]"
proof -
  from assms(1) obtain c cs where ds: "ds = c # cs" "c \<in> set (bytes ''0123456789'')"
    by (cases ds) (auto simp: json_digits_def)
  then have c: "c \<noteq> 45" "c \<noteq> 43" "c \<noteq> 32" "\<not> c \<le> 13" by auto
  from assms have sc: "scan_digits 0 (ds @ w) = json_dec 0 ds"
    by (intro scan_digits_text) (simp_all add: json_digits_def)
  have "sscanf_lld ((if neg then [45] else []) @ ds @ w) =
      max (- (2 ^ 63)) (min (2 ^ 63 - 1) ((if neg then -1 else 1) * json_dec 0 ds))"
    using sc c ds(1) by (simp add: sscanf_lld_def del: scan_digits.simps)
  then show ?thesis by (simp add: json_token_def)
qed

lemma json_integer_value_witness:
  "jval_events (JNumber (JNum True (bytes ''42'') None None)) [32] = [(JSON_T_INTEGER, JV_int (- 42))]"
  using json_integer_value [of True "bytes ''42''" "[32]"]
  by (simp add: json_digits_def json_ws_def)

text \<open>C23: a nesting limit of exactly 128, or an unlimited one, makes the parser write outside its
  stack: 128 opening brackets are enough. The array has 128 entries, but the limit counts containers,
  and MODE_DONE takes the first entry; and an unlimited stack is grown one push too late.\<close>

theorem json_stack_overflow:
  assumes "jc_depth config = 128 \<or> jc_depth config < 0" "je_callback E = None" "\<forall>why n. je_alloc E why n"
    and "new_JSON_parser E (Some config) x = Some jc"
  shows "snd (snd (json_feed E jc (replicate 128 91))) = Abort"
proof -
  let ?at = "\<lambda>n jc. jp_state jc \<in> {J_GO, J_AR} \<and> jp_type jc = JSON_T_NONE \<and> jp_buf jc = [] \<and> \<not> jp_escaped jc \<and>
    \<not> jp_comment jc \<and> length (jp_stack jc) = n \<and> jp_stack_capacity jc = 128 \<and> jp_stack_static jc \<and>
    (jp_depth jc = 128 \<or> jp_depth jc = -1) \<and> jp_buf_capacity jc = 3500"
  have start: "?at 1 jc"
    using assms(1,4)
    by (auto simp: new_JSON_parser_def Let_def json_push_def json_top_def json_stack_room_def
        JSON_PARSER_STACK_SIZE_def JSON_PARSER_PARSE_BUFFER_SIZE_def accept_def split: if_splits)
  have push: "json_char E jc 91 =
      (if n < 128 then (jc\<lparr>jp_current_char := 91, jp_stack := MODE_ARRAY # jp_stack jc, jp_state := J_AR\<rparr>, [], Accept)
       else (jc\<lparr>jp_current_char := 91\<rparr>, [], Abort))"
    if at: "?at n jc" and "n \<le> 128" for n jc
  proof -
    have kl: "json_class_of 91 = Some JC_LSQRB" "json_cell J_GO JC_LSQRB = JAct JA_LSQRB"
      "json_cell J_AR JC_LSQRB = JAct JA_LSQRB" by (simp_all add: json_table_simps)
    have res: "parse_buffer_reserve_for E 1 (jc\<lparr>jp_current_char := 91\<rparr>) = accept (jc\<lparr>jp_current_char := 91\<rparr>)"
      using at by (subst parse_buffer_reserve_for.simps) simp
    have add: "add_char_to_parse_buffer E 91 JC_LSQRB (jc\<lparr>jp_current_char := 91\<rparr>) =
        accept (jc\<lparr>jp_current_char := 91, jp_buf := [91]\<rparr>)"
      unfolding add_char_to_parse_buffer_def res using at
      by (simp add: accept_def json_blank_def parse_buffer_push_back_char_def parse_buffer_has_space_for_def)
    have same: "jc\<lparr>jp_current_char := 91, jp_buf := []\<rparr> = jc\<lparr>jp_current_char := 91\<rparr>"
      using at by (cases jc) simp
    from at \<open>n \<le> 128\<close> show ?thesis
      by (auto simp: json_char_def JSON_parser_char_def kl add parse_buffer_pop_back_char_def json_emit_def assms(2)
          json_push_def json_top_def json_stack_room_def JSON_PARSER_STACK_SIZE_def json_go_def accept_def same Let_def)
  qed
  have "?at n jc \<Longrightarrow> n \<le> 128 \<Longrightarrow> 128 \<le> n + k \<Longrightarrow> snd (snd (json_feed E jc (replicate (Suc k) 91))) = Abort" for n k jc
  proof (induction k arbitrary: jc n)
    case 0
    then show ?case using push [of jc n] by simp
  next
    case (Suc k)
    show ?case
    proof (cases "n < 128")
      case True
      let ?jc = "jc\<lparr>jp_current_char := 91, jp_stack := MODE_ARRAY # jp_stack jc, jp_state := J_AR\<rparr>"
      have "snd (snd (json_feed E ?jc (replicate (Suc k) 91))) = Abort"
        by (rule Suc.IH [of ?jc "Suc n"]) (use Suc.prems True in auto)
      then show ?thesis using push [of jc n] Suc.prems True by (auto split: prod.splits)
    next
      case False
      then show ?thesis using push [of jc n] Suc.prems by simp
    qed
  qed
  from this [OF start, of 127] show ?thesis by (simp del: replicate.simps)
qed

definition json_check_env :: "unit json_env" where
  "json_check_env = \<lparr>je_callback = None, je_alloc = (\<lambda>why n. True), je_decimal_point = 46\<rparr>"

lemma json_stack_overflow_witness:
  "snd (snd (json_feed json_check_env
     (the (new_JSON_parser json_check_env (Some \<lparr>jc_depth = -1, jc_allow_comments = 0, jc_handle_floats_manually = 0\<rparr>) ()))
     (replicate 128 91))) = Abort"
proof -
  let ?c = "\<lparr>jc_depth = -1, jc_allow_comments = 0, jc_handle_floats_manually = 0\<rparr>"
  obtain jc where jc: "new_JSON_parser json_check_env (Some ?c) () = Some jc"
    by (simp add: new_JSON_parser_def json_check_env_def Let_def JSON_PARSER_STACK_SIZE_def)
  have "jc_depth ?c = 128 \<or> jc_depth ?c < 0" "je_callback json_check_env = None"
    "\<forall>why n. je_alloc json_check_env why n" by (simp_all add: json_check_env_def)
  from json_stack_overflow [OF this jc] jc show ?thesis by simp
qed

text \<open>The parser as the HTTP callback drives it: each character of the query string or of the body is
  given to it, a refusal is printed and the next character is given to it all the same. None: the
  process has ended in a failed assertion.\<close>

fun http_json_chars :: "'c json_env \<Rightarrow> 'c json_parser \<Rightarrow> byte list \<Rightarrow> 'c json_parser option" where
  "http_json_chars E jc [] = Some jc"
| "http_json_chars E jc (c # cs) =
     (case json_char E jc c of
        (jc', ev, v) \<Rightarrow> if v = Abort then None else http_json_chars E jc' cs)"

definition http_json_config :: json_config where
  "http_json_config = init_JSON_config\<lparr>jc_depth := 15, jc_allow_comments := 0, jc_handle_floats_manually := 0\<rparr>"



end
