(* ===== verification/Json_Tree.thy ===== *)
theory Json_Tree
  imports Json_Parser
begin

text \<open>
  The JSON trees of \<^verbatim>\<open>src/core/ape_json.c\<close>: the callback that builds a tree from the events of
  the parser, the functions that build one by hand, the serializer, the copy, the release, and the
  lookup of a path. The items are cells of an explicit heap; a pointer that is \<open>NULL\<close> or freed and
  is followed, and a write outside an array, are undefined behaviour: the result \<open>None\<close>. The strings
  of an item are private copies of the item and are kept in it (\<open>None\<close> is \<open>NULL\<close>).
\<close>

section \<open>The C library\<close>

text \<open>
  Doubles are a type of the model's parameters: zero, the test of an \<open>if\<close>, what \<open>strtod\<close> reads,
  and \<open>(long int) log10(fabs(n))\<close> of an integer \<open>n\<close>.
\<close>

record 'f json_libm =
  jl_zero :: 'f
  jl_nonzero :: "'f \<Rightarrow> bool"
  jl_strtod :: "byte list \<Rightarrow> 'f"
  jl_log10 :: "int \<Rightarrow> nat"

section \<open>Items\<close>

datatype json_child_t = JSON_C_T_OBJ | JSON_C_T_ARR | JSON_C_T_VAL | JSON_C_T_NULL

text \<open>The type \<open>-1\<close> of a new item is \<open>None\<close>; a string's length is that of its bytes.\<close>

record 'f json_item =
  ji_integer :: int
  ji_float :: 'f
  ji_str :: "byte list option"
  ji_child :: "addr option"
  ji_head :: "addr option"
  ji_ctype :: json_child_t
  ji_key :: "byte list option"
  ji_father :: "addr option"
  ji_next :: "addr option"
  ji_type :: "json_type option"

type_synonym 'f json_heap = "'f json_item option list"

definition ji_get :: "'f json_heap \<Rightarrow> addr \<Rightarrow> 'f json_item option" where
  "ji_get h a = (if a < length h then h ! a else None)"

text \<open>A field of the item at a pointer is written.\<close>

definition ji_upd :: "addr option \<Rightarrow> ('f json_item \<Rightarrow> 'f json_item) \<Rightarrow> 'f json_heap \<Rightarrow> 'f json_heap option" where
  "ji_upd p f h =
     (case p of
        None \<Rightarrow> None
      | Some a \<Rightarrow> (case ji_get h a of None \<Rightarrow> None | Some it \<Rightarrow> Some (h[a := Some (f it)])))"

definition ji_free :: "addr \<Rightarrow> 'f json_heap \<Rightarrow> 'f json_heap option" where
  "ji_free a h = (case ji_get h a of None \<Rightarrow> None | Some _ \<Rightarrow> Some (h[a := None]))"

text \<open>The new item, in a cell that was never used.\<close>

definition init_json_item :: "'f json_libm \<Rightarrow> 'f json_heap \<Rightarrow> addr \<times> 'f json_heap" where
  "init_json_item L h =
     (length h,
      h @ [Some \<lparr>ji_integer = 0, ji_float = jl_zero L, ji_str = None, ji_child = None, ji_head = None,
        ji_ctype = JSON_C_T_NULL, ji_key = None, ji_father = None, ji_next = None, ji_type = None\<rparr>])"

partial_function (option) free_json_item :: "addr option \<Rightarrow> 'f json_heap \<Rightarrow> 'f json_heap option" where
  "free_json_item cx h =
     (case cx of
        None \<Rightarrow> Some h
      | Some a \<Rightarrow>
          Option.bind (ji_get h a) (\<lambda>it.
          Option.bind
            (if ji_child it \<noteq> None then free_json_item (ji_child it) h else Some h) (\<lambda>h.
          Option.bind (ji_free a h) (free_json_item (ji_next it)))))"

section \<open>Building a tree by hand\<close>

definition json_new_object :: "'f json_libm \<Rightarrow> 'f json_heap \<Rightarrow> (addr \<times> 'f json_heap) option" where
  "json_new_object L h =
     (let (obj, h) = init_json_item L h
      in map_option (\<lambda>h. (obj, h)) (ji_upd (Some obj) (\<lambda>it. it\<lparr>ji_ctype := JSON_C_T_OBJ\<rparr>) h))"

definition json_new_array :: "'f json_libm \<Rightarrow> 'f json_heap \<Rightarrow> (addr \<times> 'f json_heap) option" where
  "json_new_array L h =
     (let (obj, h) = init_json_item L h
      in map_option (\<lambda>h. (obj, h)) (ji_upd (Some obj) (\<lambda>it. it\<lparr>ji_ctype := JSON_C_T_ARR\<rparr>) h))"

text \<open>
  The end of every setter: the new item is the first child, or follows the last one; it is the
  last one.
\<close>

definition json_link :: "addr \<Rightarrow> addr \<Rightarrow> 'f json_heap \<Rightarrow> 'f json_heap option" where
  "json_link obj new_item h =
     Option.bind (ji_get h obj) (\<lambda>it.
     Option.bind
       (if ji_child it = None then ji_upd (Some obj) (\<lambda>it. it\<lparr>ji_child := Some new_item\<rparr>) h
        else ji_upd (ji_head it) (\<lambda>it. it\<lparr>ji_next := Some new_item\<rparr>) h)
       (ji_upd (Some obj) (\<lambda>it. it\<lparr>ji_head := Some new_item\<rparr>)))"

definition json_set_key :: "byte list option \<Rightarrow> 'f json_item \<Rightarrow> 'f json_item" where
  "json_set_key key it = (if key \<noteq> None then it\<lparr>ji_key := key\<rparr> else it)"

definition json_set_property_objN ::
    "addr \<Rightarrow> byte list option \<Rightarrow> addr \<Rightarrow> 'f json_heap \<Rightarrow> 'f json_heap option" where
  "json_set_property_objN obj key new_item h =
     Option.bind (ji_upd (Some new_item) (json_set_key key) h) (\<lambda>h.
     Option.bind (ji_upd (Some new_item) (\<lambda>it. it\<lparr>ji_father := Some obj\<rparr>) h)
       (json_link obj new_item))"

definition json_set_property_intN ::
    "'f json_libm \<Rightarrow> addr \<Rightarrow> byte list option \<Rightarrow> int \<Rightarrow> 'f json_heap \<Rightarrow> 'f json_heap option" where
  "json_set_property_intN L obj key val h =
     (let (new_item, h) = init_json_item L h
      in Option.bind (ji_upd (Some new_item) (json_set_key key) h) (\<lambda>h.
         Option.bind (ji_upd (Some new_item)
           (\<lambda>it. it\<lparr>ji_father := Some obj, ji_integer := val, ji_type := Some JSON_T_INTEGER\<rparr>) h)
           (json_link obj new_item)))"

definition json_set_property_floatN ::
    "'f json_libm \<Rightarrow> addr \<Rightarrow> byte list option \<Rightarrow> 'f \<Rightarrow> 'f json_heap \<Rightarrow> 'f json_heap option" where
  "json_set_property_floatN L obj key val h =
     (let (new_item, h) = init_json_item L h
      in Option.bind (ji_upd (Some new_item) (json_set_key key) h) (\<lambda>h.
         Option.bind (ji_upd (Some new_item)
           (\<lambda>it. it\<lparr>ji_father := Some obj, ji_float := val, ji_type := Some JSON_T_FLOAT\<rparr>) h)
           (json_link obj new_item)))"

definition json_set_property_boolean ::
    "'f json_libm \<Rightarrow> addr \<Rightarrow> byte list option \<Rightarrow> bool \<Rightarrow> 'f json_heap \<Rightarrow> 'f json_heap option" where
  "json_set_property_boolean L obj key val h =
     (let (new_item, h) = init_json_item L h
      in Option.bind (ji_upd (Some new_item) (json_set_key key) h) (\<lambda>h.
         Option.bind (ji_upd (Some new_item)
           (\<lambda>it. it\<lparr>ji_father := Some obj, ji_type := Some (if val then JSON_T_TRUE else JSON_T_FALSE)\<rparr>) h)
           (json_link obj new_item)))"

definition json_set_property_null ::
    "'f json_libm \<Rightarrow> addr \<Rightarrow> byte list option \<Rightarrow> 'f json_heap \<Rightarrow> 'f json_heap option" where
  "json_set_property_null L obj key h =
     (let (new_item, h) = init_json_item L h
      in Option.bind (ji_upd (Some new_item) (json_set_key key) h) (\<lambda>h.
         Option.bind (ji_upd (Some new_item)
           (\<lambda>it. it\<lparr>ji_father := Some obj, ji_type := Some JSON_T_NULL\<rparr>) h)
           (json_link obj new_item)))"

definition json_set_property_strN ::
    "'f json_libm \<Rightarrow> addr \<Rightarrow> byte list option \<Rightarrow> byte list \<Rightarrow> 'f json_heap \<Rightarrow> 'f json_heap option" where
  "json_set_property_strN L obj key val h =
     (let (new_item, h) = init_json_item L h
      in Option.bind (ji_upd (Some new_item) (json_set_key key) h) (\<lambda>h.
         Option.bind (ji_upd (Some new_item)
           (\<lambda>it. it\<lparr>ji_str := Some val, ji_type := Some JSON_T_STRING, ji_father := Some obj\<rparr>) h)
           (json_link obj new_item)))"

text \<open>The elements of an array have no key.\<close>

definition json_set_element_strN :: "'f json_libm \<Rightarrow> addr \<Rightarrow> byte list \<Rightarrow> 'f json_heap \<Rightarrow> 'f json_heap option" where
  "json_set_element_strN L obj val = json_set_property_strN L obj None val"

definition json_set_element_obj :: "addr \<Rightarrow> addr \<Rightarrow> 'f json_heap \<Rightarrow> 'f json_heap option" where
  "json_set_element_obj obj val = json_set_property_objN obj None val"

definition json_set_element_int :: "'f json_libm \<Rightarrow> addr \<Rightarrow> int \<Rightarrow> 'f json_heap \<Rightarrow> 'f json_heap option" where
  "json_set_element_int L obj val = json_set_property_intN L obj None val"

definition json_set_element_float :: "'f json_libm \<Rightarrow> addr \<Rightarrow> 'f \<Rightarrow> 'f json_heap \<Rightarrow> 'f json_heap option" where
  "json_set_element_float L obj val = json_set_property_floatN L obj None val"

definition json_set_element_boolean :: "'f json_libm \<Rightarrow> addr \<Rightarrow> bool \<Rightarrow> 'f json_heap \<Rightarrow> 'f json_heap option" where
  "json_set_element_boolean L obj val = json_set_property_boolean L obj None val"

definition json_set_element_null :: "'f json_libm \<Rightarrow> addr \<Rightarrow> 'f json_heap \<Rightarrow> 'f json_heap option" where
  "json_set_element_null L obj = json_set_property_null L obj None"

section \<open>Numbers and strings as text\<close>

text \<open>
  \<open>itos\<close> writes into an array of \<open>n\<close> bytes from its end: the terminator, then the digits. The
  argument is unsigned: the test for a sign never holds.
\<close>

function itos_loop :: "nat \<Rightarrow> u64 \<Rightarrow> nat \<Rightarrow> byte option list \<Rightarrow> (byte option list \<times> nat) option" where
  "itos_loop n input i out =
     (if input \<noteq> 0 then
        (if n < i then None
         else itos_loop n (input div 10) (i + 1) (out[n - i := Some (48 + ucast (input mod 10))]))
      else Some (out, i))"
  by auto
termination
proof (relation "measure (\<lambda>(n, input, i, out). unat input)", simp)
  fix n :: nat and input :: u64 and i out
  assume "input \<noteq> 0" "\<not> n < i"
  then show "((n, input div 10, i + 1, out[n - i := Some (48 + ucast (input mod 10))]),
      n, input, i, out :: byte option list) \<in> measure (\<lambda>(n, input, i, out). unat input)"
    by (simp add: unat_div unat_gt_0)
qed

declare itos_loop.simps [simp del]

definition itos :: "u64 \<Rightarrow> nat \<Rightarrow> (byte option list \<times> nat) option" where
  "itos input n =
     (if n < 1 then None
      else map_option (\<lambda>(out, i). (out, n - (i - 1)))
        (itos_loop n input 2 ((replicate n None)[n - 1 := Some 0])))"

definition LENGTH_N :: "'f json_libm \<Rightarrow> int \<Rightarrow> nat" where
  "LENGTH_N L num = (if num < 10 \<and> 0 \<le> num then 1 else jl_log10 L num + 1)"

text \<open>The digits that \<open>json_to_string\<close> copies out of the array.\<close>

definition json_integer_text :: "'f json_libm \<Rightarrow> int \<Rightarrow> byte list option" where
  "json_integer_text L v =
     (let l = LENGTH_N L v
      in Option.bind (itos (word_of_int v) (l + 2)) (\<lambda>(integer_str, offset).
         let copied = take (l + 2 - 1 - offset) (drop offset integer_str)
         in if None \<in> set copied then None else Some (map the copied)))"

definition escape_char :: "byte \<Rightarrow> byte list" where
  "escape_char c =
     (if c = 34 then [92, 34]
      else if c = 39 then [92, 39]
      else if c = 92 then [92, 92]
      else if c = 10 then [92, 110]
      else if c = 8 then [92, 98]
      else if c = 9 then [92, 116]
      else if c = 12 then [92, 102]
      else if c = 13 then [92, 114]
      else [c])"

primrec escape_json_string :: "byte list \<Rightarrow> byte list" where
  "escape_json_string [] = []"
| "escape_json_string (c # cs) = escape_char c @ escape_json_string cs"

section \<open>The serializer\<close>

partial_function (option) json_evaluate_loop :: "'f json_heap \<Rightarrow> nat \<Rightarrow> addr option \<Rightarrow> nat option" where
  "json_evaluate_loop h evalsize head =
     (case head of
        None \<Rightarrow> Some evalsize
      | Some a \<Rightarrow>
          Option.bind (ji_get h a) (\<lambda>it.
          let evalsize = (case ji_key it of None \<Rightarrow> evalsize | Some k \<Rightarrow> evalsize + (length k + 3));
              evalsize =
                (case ji_str it of
                   Some s \<Rightarrow> evalsize + (length s + 3)
                 | None \<Rightarrow> if ji_child it = None then evalsize + 16 else evalsize)
          in Option.bind
               (if ji_child it \<noteq> None
                then Option.bind (json_evaluate_loop h 2 (ji_child it)) (\<lambda>n. Some (evalsize + n))
                else Some evalsize) (\<lambda>evalsize.
             json_evaluate_loop h evalsize (ji_next it))))"

definition json_evaluate_string_size :: "'f json_heap \<Rightarrow> addr option \<Rightarrow> nat option" where
  "json_evaluate_string_size h head = json_evaluate_loop h 2 head"

text \<open>The string under construction: the block has \<open>jsize + 1\<close> bytes, \<open>len\<close> are written.\<close>

record jsontring =
  js_jstring :: "byte list"
  js_jsize :: nat

definition js_put :: "byte list \<Rightarrow> jsontring \<Rightarrow> jsontring option" where
  "js_put xs s =
     (if length (js_jstring s) + length xs \<le> js_jsize s + 1
      then Some (s\<lparr>js_jstring := js_jstring s @ xs\<rparr>) else None)"

definition json_key_text :: "'f json_item \<Rightarrow> byte list" where
  "json_key_text it = (case ji_key it of None \<Rightarrow> [] | Some k \<Rightarrow> [34] @ k @ [34] @ [58])"

text \<open>
  The chain of tests for a value. A floating point value is printed with the format of a
  \<open>long double\<close>, which its argument is not: undefined behaviour.
\<close>

definition json_value_text :: "'f json_libm \<Rightarrow> 'f json_item \<Rightarrow> byte list option" where
  "json_value_text L it =
     (case ji_str it of
        Some s \<Rightarrow> Some ([34] @ escape_json_string s @ [34])
      | None \<Rightarrow>
          if ji_integer it \<noteq> 0 then json_integer_text L (ji_integer it)
          else if jl_nonzero L (ji_float it) then None
          else if ji_type it = Some JSON_T_TRUE then Some (bytes ''true'')
          else if ji_type it = Some JSON_T_FALSE then Some (bytes ''false'')
          else if ji_type it = Some JSON_T_NULL then Some (bytes ''null'')
          else if ji_child it = None then Some [48]
          else Some [])"

definition json_open_text :: "json_child_t \<Rightarrow> byte list" where
  "json_open_text t = (case t of JSON_C_T_OBJ \<Rightarrow> [123] | JSON_C_T_ARR \<Rightarrow> [91] | _ \<Rightarrow> [])"

definition json_close_text :: "json_child_t \<Rightarrow> byte list" where
  "json_close_text t = (case t of JSON_C_T_OBJ \<Rightarrow> [125] | JSON_C_T_ARR \<Rightarrow> [93] | _ \<Rightarrow> [])"

text \<open>
  After an item that has a father: a comma, or the bracket that closes the father. The father is
  read from the heap: it must not be freed yet.
\<close>

definition json_sep_text :: "'f json_heap \<Rightarrow> 'f json_item \<Rightarrow> byte list option" where
  "json_sep_text h it =
     (case ji_father it of
        None \<Rightarrow> Some []
      | Some f \<Rightarrow>
          if ji_next it \<noteq> None then Some [44]
          else map_option (\<lambda>ft. json_close_text (ji_ctype ft)) (ji_get h f))"

partial_function (option) json_to_string_loop ::
    "'f json_libm \<Rightarrow> bool \<Rightarrow> addr option \<Rightarrow> jsontring \<Rightarrow> 'f json_heap \<Rightarrow> (jsontring \<times> 'f json_heap) option" where
  "json_to_string_loop L free_tree head string h =
     (case head of
        None \<Rightarrow> map_option (\<lambda>s. (string, h)) (js_put [0] string)
      | Some a \<Rightarrow>
          Option.bind (ji_get h a) (\<lambda>it.
          Option.bind (js_put (json_key_text it) string) (\<lambda>string.
          Option.bind (Option.bind (json_value_text L it) (\<lambda>v. js_put v string)) (\<lambda>string.
          Option.bind
            (if ji_child it \<noteq> None
             then Option.bind (js_put (json_open_text (ji_ctype it)) string) (\<lambda>string.
                  json_to_string_loop L free_tree (ji_child it) string h)
             else Some (string, h)) (\<lambda>sh.
          Option.bind (Option.bind (json_sep_text (snd sh) it) (\<lambda>v. js_put v (fst sh))) (\<lambda>string.
          Option.bind (if free_tree then ji_free a (snd sh) else Some (snd sh)) (\<lambda>h.
          json_to_string_loop L free_tree (ji_next it) string h)))))))"

definition json_to_string ::
    "'f json_libm \<Rightarrow> addr option \<Rightarrow> jsontring option \<Rightarrow> bool \<Rightarrow> 'f json_heap \<Rightarrow>
     (jsontring \<times> 'f json_heap) option" where
  "json_to_string L head string free_tree h =
     (case string of
        Some s \<Rightarrow> json_to_string_loop L free_tree head s h
      | None \<Rightarrow>
          Option.bind (json_evaluate_string_size h head) (\<lambda>n.
          json_to_string_loop L free_tree head \<lparr>js_jstring = [], js_jsize = n * 2\<rparr> h))"

section \<open>Copies\<close>

definition json_copy_item :: "'f json_libm \<Rightarrow> 'f json_item \<Rightarrow> 'f json_item \<Rightarrow> 'f json_item" where
  "json_copy_item L cx new_item =
     (let n = new_item\<lparr>ji_key := (case ji_key cx of None \<Rightarrow> ji_key new_item | Some k \<Rightarrow> Some k)\<rparr>
      in if ji_str cx \<noteq> None then n\<lparr>ji_str := ji_str cx\<rparr>
         else if ji_integer cx \<noteq> 0 then n\<lparr>ji_integer := ji_integer cx\<rparr>
         else if jl_nonzero L (ji_float cx) then n\<lparr>ji_float := ji_float cx\<rparr>
         else n)"

partial_function (option) json_copy_loop ::
    "'f json_libm \<Rightarrow> addr option \<Rightarrow> addr option \<Rightarrow> addr option \<Rightarrow> addr option \<Rightarrow> 'f json_heap \<Rightarrow>
     (addr option \<times> 'f json_heap) option" where
  "json_copy_loop L father return_item temp_item cx h =
     (case cx of
        None \<Rightarrow> Some (return_item, h)
      | Some a \<Rightarrow>
          (let (new_item, h) = init_json_item L h
           in Option.bind (ji_get h a) (\<lambda>it.
              Option.bind (ji_upd (Some new_item)
                (\<lambda>n. n\<lparr>ji_father := father, ji_type := ji_type it, ji_ctype := ji_ctype it\<rparr>) h) (\<lambda>h.
              Option.bind
                (if temp_item \<noteq> None then ji_upd temp_item (\<lambda>t. t\<lparr>ji_next := Some new_item\<rparr>) h else Some h) (\<lambda>h.
              Option.bind (ji_upd (Some new_item) (json_copy_item L it) h) (\<lambda>h.
              Option.bind
                (if ji_child it \<noteq> None
                 then Option.bind (json_copy_loop L (Some new_item) None None (ji_child it) h) (\<lambda>ch.
                      ji_upd (Some new_item) (\<lambda>n. n\<lparr>ji_child := fst ch\<rparr>) (snd ch))
                 else Some h) (\<lambda>h.
              Option.bind
                (if father \<noteq> None then ji_upd father (\<lambda>f. f\<lparr>ji_head := Some new_item\<rparr>) h else Some h) (\<lambda>h.
              json_copy_loop L father (if return_item = None then Some new_item else return_item)
                (Some new_item) (ji_next it) h))))))))"

definition json_item_copy ::
    "'f json_libm \<Rightarrow> addr option \<Rightarrow> addr option \<Rightarrow> 'f json_heap \<Rightarrow> (addr option \<times> 'f json_heap) option" where
  "json_item_copy L cx father h = json_copy_loop L father None None cx h"

section \<open>The callback of the parser\<close>

text \<open>The context, with the heap that the callback works on.\<close>

record 'f json_context =
  cx_key_under :: bool
  cx_start_depth :: bool
  cx_head :: "addr option"
  cx_current :: "addr option"
  cx_heap :: "'f json_heap"

text \<open>The new item is the first child of the current one, or its next sibling.\<close>

definition cx_attach :: "addr \<Rightarrow> 'f json_context \<Rightarrow> 'f json_context option" where
  "cx_attach jval cx =
     (if cx_start_depth cx then
        Option.bind (ji_upd (cx_current cx) (\<lambda>it. it\<lparr>ji_child := Some jval\<rparr>) (cx_heap cx)) (\<lambda>h.
        map_option (\<lambda>h. cx\<lparr>cx_heap := h\<rparr>) (ji_upd (Some jval) (\<lambda>it. it\<lparr>ji_father := cx_current cx\<rparr>) h))
      else
        Option.bind (Option.bind (cx_current cx) (ji_get (cx_heap cx))) (\<lambda>cur.
        Option.bind (ji_upd (Some jval) (\<lambda>it. it\<lparr>ji_father := ji_father cur\<rparr>) (cx_heap cx)) (\<lambda>h.
        map_option (\<lambda>h. cx\<lparr>cx_heap := h\<rparr>) (ji_upd (cx_current cx) (\<lambda>it. it\<lparr>ji_next := Some jval\<rparr>) h))))"

definition cx_write :: "('f json_item \<Rightarrow> 'f json_item) \<Rightarrow> 'f json_context \<Rightarrow> 'f json_context option" where
  "cx_write f cx = map_option (\<lambda>h. cx\<lparr>cx_heap := h\<rparr>) (ji_upd (cx_current cx) f (cx_heap cx))"

definition cx_new :: "'f json_libm \<Rightarrow> 'f json_context \<Rightarrow> addr \<times> 'f json_context" where
  "cx_new L cx = (let (jval, h) = init_json_item L (cx_heap cx) in (jval, cx\<lparr>cx_heap := h\<rparr>))"

definition cx_begin :: "'f json_libm \<Rightarrow> json_child_t \<Rightarrow> 'f json_context \<Rightarrow> 'f json_context option" where
  "cx_begin L t cx =
     Option.bind
       (if \<not> cx_key_under cx then
          (let (jval, cx) = cx_new L cx
           in Option.bind (if cx_current cx \<noteq> None then cx_attach jval cx else Some cx) (\<lambda>cx.
              Some (cx\<lparr>cx_current := Some jval\<rparr>)))
        else Some cx) (\<lambda>cx.
     Option.bind (cx_write (\<lambda>it. it\<lparr>ji_ctype := t\<rparr>) cx) (\<lambda>cx.
     Some (cx\<lparr>cx_start_depth := True, cx_key_under := False\<rparr>)))"

definition cx_end :: "'f json_context \<Rightarrow> 'f json_context option" where
  "cx_end cx =
     Option.bind (Option.bind (cx_current cx) (ji_get (cx_heap cx))) (\<lambda>cur.
     Some (cx\<lparr>cx_current := (if ji_father cur \<noteq> None \<and> \<not> cx_start_depth cx then ji_father cur else cx_current cx),
       cx_start_depth := False, cx_key_under := False\<rparr>))"

text \<open>The item of a key or of a value: \<open>start_depth\<close> is cleared with the first child.\<close>

definition cx_next :: "'f json_libm \<Rightarrow> 'f json_context \<Rightarrow> 'f json_context option" where
  "cx_next L cx =
     (let (jval, cx) = cx_new L cx
      in Option.bind (cx_attach jval cx) (\<lambda>cx.
         Some (cx\<lparr>cx_start_depth := False, cx_current := Some jval\<rparr>)))"

definition cx_key :: "'f json_libm \<Rightarrow> byte list \<Rightarrow> 'f json_context \<Rightarrow> 'f json_context option" where
  "cx_key L k cx =
     Option.bind (cx_next L cx) (\<lambda>cx.
     cx_write (\<lambda>it. it\<lparr>ji_key := Some k\<rparr>) (cx\<lparr>cx_key_under := True\<rparr>))"

definition json_set_value :: "'f json_libm \<Rightarrow> json_type \<Rightarrow> json_value \<Rightarrow> 'f json_item \<Rightarrow> 'f json_item" where
  "json_set_value L t v it =
     (case v of
        JV_int i \<Rightarrow> if t = JSON_T_INTEGER then it\<lparr>ji_integer := i\<rparr> else it
      | JV_float s \<Rightarrow> if t = JSON_T_FLOAT then it\<lparr>ji_float := jl_strtod L s\<rparr> else it
      | JV_str s \<Rightarrow> if t = JSON_T_STRING then it\<lparr>ji_str := Some s\<rparr> else it
      | JV_none \<Rightarrow>
          if t = JSON_T_NULL \<or> t = JSON_T_FALSE then it\<lparr>ji_integer := 0\<rparr>
          else if t = JSON_T_TRUE then it\<lparr>ji_integer := 1\<rparr> else it)"

definition cx_value ::
    "'f json_libm \<Rightarrow> json_type \<Rightarrow> json_value \<Rightarrow> 'f json_context \<Rightarrow> 'f json_context option" where
  "cx_value L t v cx =
     Option.bind (if \<not> cx_key_under cx then cx_next L cx else Some cx) (\<lambda>cx.
     Option.bind (cx_write (json_set_value L t v) (cx\<lparr>cx_key_under := False\<rparr>)) (\<lambda>cx.
     cx_write (\<lambda>it. it\<lparr>ji_type := Some t\<rparr>) cx))"

definition json_callback :: "'f json_libm \<Rightarrow> 'f json_context \<Rightarrow> json_event \<Rightarrow> 'f json_context option" where
  "json_callback L cx e =
     map_option (\<lambda>cx. if cx_head cx = None \<and> cx_current cx \<noteq> None then cx\<lparr>cx_head := cx_current cx\<rparr> else cx)
       (case fst e of
          JSON_T_OBJECT_BEGIN \<Rightarrow> cx_begin L JSON_C_T_OBJ cx
        | JSON_T_ARRAY_BEGIN \<Rightarrow> cx_begin L JSON_C_T_ARR cx
        | JSON_T_OBJECT_END \<Rightarrow> cx_end cx
        | JSON_T_ARRAY_END \<Rightarrow> cx_end cx
        | JSON_T_KEY \<Rightarrow> (case snd e of JV_str k \<Rightarrow> cx_key L k cx | _ \<Rightarrow> None)
        | JSON_T_NONE \<Rightarrow> Some cx
        | t \<Rightarrow> cx_value L t (snd e) cx)"

section \<open>Parsing a string into a tree\<close>

text \<open>The callback returns 1; a context that is undefined stays undefined.\<close>

definition json_tree_callback ::
    "'f json_libm \<Rightarrow> 'f json_context option \<Rightarrow> json_event \<Rightarrow> 'f json_context option \<times> bool" where
  "json_tree_callback L c e = (Option.bind c (\<lambda>cx. json_callback L cx e), True)"

definition json_tree_env :: "'f json_libm \<Rightarrow> (string \<Rightarrow> nat \<Rightarrow> bool) \<Rightarrow> byte \<Rightarrow> 'f json_context option json_env" where
  "json_tree_env L alloc dp =
     \<lparr>je_callback = Some (json_tree_callback L), je_alloc = alloc, je_decimal_point = dp\<rparr>"

definition json_tree_config :: json_config where
  "json_tree_config = init_JSON_config\<lparr>jc_depth := 15, jc_allow_comments := 0, jc_handle_floats_manually := 0\<rparr>"

text \<open>The characters are passed as they are, signed.\<close>

primrec json_string_loop ::
    "'c json_env \<Rightarrow> 'c json_parser \<Rightarrow> byte list \<Rightarrow> 'c json_parser \<times> verdict" where
  "json_string_loop E jc [] = (jc, Accept)"
| "json_string_loop E jc (c # cs) =
     (case JSON_parser_char E jc (sint c) of
        (jc, ev, v) \<Rightarrow> if v = Accept then json_string_loop E jc cs else (jc, v))"

text \<open>\<open>NULL\<close> and the partial tree freed, when the text is refused.\<close>

definition init_json_parser ::
    "'f json_libm \<Rightarrow> (string \<Rightarrow> nat \<Rightarrow> bool) \<Rightarrow> byte \<Rightarrow> byte list \<Rightarrow> 'f json_heap \<Rightarrow>
     (addr option \<times> 'f json_heap) option" where
  "init_json_parser L alloc dp json_string h =
     (let E = json_tree_env L alloc dp;
          jcx = \<lparr>cx_key_under = False, cx_start_depth = False, cx_head = None, cx_current = None, cx_heap = h\<rparr>
      in Option.bind (new_JSON_parser E (Some json_tree_config) (Some jcx)) (\<lambda>jc.
         let (jc, v) = json_string_loop E jc json_string;
             (jc, v) = (if v = Accept then (case JSON_parser_done jc of (jc, ev, v) \<Rightarrow> (jc, v)) else (jc, v))
         in Option.bind (jp_ctx jc) (\<lambda>cx.
            if v = Abort then None
            else if v = Accept then Some (cx_head cx, cx_heap cx)
            else map_option (\<lambda>h. (None, h)) (free_json_item (cx_head cx) (cx_heap cx)))))"

section \<open>Lookup\<close>

text \<open>
  \<open>explode\<close> on the memory \<open>mem\<close> of the string, from position \<open>p\<close>: the separators are overwritten,
  the tokens are positions. Reading past the end of the memory is undefined.
\<close>

function explode_loop ::
    "byte \<Rightarrow> nat \<Rightarrow> nat \<Rightarrow> byte list \<Rightarrow> nat list \<Rightarrow> nat \<Rightarrow> (byte list \<times> nat list \<times> nat) option" where
  "explode_loop split limit p mem tP i =
     (if length mem \<le> p then None
      else if mem ! p = 0 then Some (mem, tP, i)
      else if mem ! p = split \<and> length mem \<le> p + 1 then None
      else
        let new = (mem ! p = split \<and> mem ! (p + 1) \<noteq> 0 \<and> mem ! (p + 1) \<noteq> split);
            mem = (if mem ! p = split then mem[p := 0] else mem);
            tP = (if new then tP @ [p + 1] else tP);
            i = (if new then i + 1 else i)
        in if i + 1 = limit then Some (mem, tP, i) else explode_loop split limit (p + 1) mem tP i)"
  by auto
termination by (relation "measure (\<lambda>(split, limit, p, mem, tP, i). length mem - p)") auto

declare explode_loop.simps [simp del]

definition explode :: "byte \<Rightarrow> byte list \<Rightarrow> nat \<Rightarrow> (byte list \<times> nat list \<times> nat) option" where
  "explode split input limit = explode_loop split limit 0 input [0] 0"

definition c_string :: "byte list \<Rightarrow> nat \<Rightarrow> byte list" where
  "c_string mem p = takeWhile (\<lambda>c. c \<noteq> 0) (drop p mem)"

partial_function (option) json_lookup_loop ::
    "'f json_heap \<Rightarrow> byte list list \<Rightarrow> nat \<Rightarrow> nat \<Rightarrow> addr option \<Rightarrow> addr option option" where
  "json_lookup_loop h split nTok i head =
     (case head of
        None \<Rightarrow> Some None
      | Some a \<Rightarrow>
          if nTok < i then Some None
          else
            Option.bind (ji_get h a) (\<lambda>it.
            if (\<exists>k. ji_key it = Some k \<and> ci_eq (split ! i) k)
            then (if i = nTok then Some (if ji_child it \<noteq> None then ji_child it else Some a)
                  else json_lookup_loop h split nTok (i + 1) (ji_child it))
            else json_lookup_loop h split nTok i (ji_next it)))"

definition json_lookup :: "'f json_heap \<Rightarrow> addr option \<Rightarrow> byte list option \<Rightarrow> addr option option" where
  "json_lookup h head path =
     (case (head, path) of
        (Some _, Some path) \<Rightarrow>
          Option.bind (explode 46 (path @ [0]) 15) (\<lambda>(base, split, nTok).
          json_lookup_loop h (map (c_string base) split) nTok 0 head)
      | _ \<Rightarrow> Some None)"


section \<open>Trees in the heap\<close>

text \<open>The data of an item, without its pointers; a tree has the address of its root.\<close>

definition ji_data :: "'f json_item \<Rightarrow> 'f json_item" where
  "ji_data it = it\<lparr>ji_child := None, ji_head := None, ji_father := None, ji_next := None\<rparr>"

datatype 'f jtree = JT addr "'f json_item" "'f jtree list"

primrec jt_at :: "'f jtree \<Rightarrow> addr" where "jt_at (JT a d ts) = a"

fun jrep :: "'f json_heap \<Rightarrow> addr option \<Rightarrow> addr option \<Rightarrow> 'f jtree list \<Rightarrow> bool" where
  "jrep h f p [] = (p = None)"
| "jrep h f p (JT a d ts # us) =
     (p = Some a \<and> (\<exists>it. ji_get h a = Some it \<and> ji_data it = d \<and> ji_father it = f \<and>
        jrep h (Some a) (ji_child it) ts \<and> jrep h f (ji_next it) us))"

fun jaddrs :: "'f jtree list \<Rightarrow> addr list" where
  "jaddrs [] = []"
| "jaddrs (JT a d ts # us) = a # jaddrs ts @ jaddrs us"

lemmas jforest_induct = jaddrs.induct [case_names Nil Cons]

text \<open>Cells that are freed.\<close>

definition unset :: "nat set \<Rightarrow> 'a option list \<Rightarrow> 'a option list" where
  "unset A h = map (\<lambda>i. if i \<in> A then None else h ! i) [0..<length h]"

lemma length_unset [simp]: "length (unset A h) = length h"
  by (simp add: unset_def)

lemma unset_empty [simp]: "unset {} h = h"
  by (simp add: unset_def map_nth)

lemma unset_unset [simp]: "unset A (unset B h) = unset (A \<union> B) h"
  by (auto simp: unset_def)

lemma ji_get_unset: "ji_get (unset A h) a = (if a \<in> A then None else ji_get h a)"
  by (auto simp: ji_get_def unset_def)

lemma ji_free_unset: "ji_get h a = Some it \<Longrightarrow> ji_free a h = Some (unset {a} h)"
  by (auto simp: ji_free_def unset_def ji_get_def nth_list_update intro!: nth_equalityI split: if_splits)

lemma jrep_cong:
  "(\<And>a. a \<in> set (jaddrs ts) \<Longrightarrow> ji_get h' a = ji_get h a) \<Longrightarrow> jrep h' f p ts = jrep h f p ts"
proof (induction ts arbitrary: f p rule: jforest_induct)
  case (Cons a d ts us)
  then have "ji_get h' a = ji_get h a"
    and IH: "\<And>f p. jrep h' f p ts = jrep h f p ts" "\<And>f p. jrep h' f p us = jrep h f p us" by auto
  then show ?case by simp
qed simp

lemma jrep_live: "jrep h f p ts \<Longrightarrow> a \<in> set (jaddrs ts) \<Longrightarrow> ji_get h a \<noteq> None"
  by (induction ts arbitrary: f p rule: jforest_induct) auto

lemma jrep_head: "jrep h f p ts \<Longrightarrow> (p = None) = (ts = [])"
  by (cases ts rule: jaddrs.cases) auto

lemma ji_data_fields [simp]:
  "ji_key (ji_data it) = ji_key it" "ji_str (ji_data it) = ji_str it" "ji_integer (ji_data it) = ji_integer it"
  "ji_float (ji_data it) = ji_float it" "ji_ctype (ji_data it) = ji_ctype it" "ji_type (ji_data it) = ji_type it"
  by (simp_all add: ji_data_def)

text \<open>\<open>free_json_item\<close> frees every cell of the trees, each once.\<close>

lemma free_json_item_jrep:
  "jrep h f p ts \<Longrightarrow> distinct (jaddrs ts) \<Longrightarrow> free_json_item p h = Some (unset (set (jaddrs ts)) h)"
proof (induction ts arbitrary: f p h rule: jforest_induct)
  case Nil
  then show ?case by (simp add: free_json_item.simps)
next
  case (Cons a d ts us)
  then obtain it where it: "p = Some a" "ji_get h a = Some it" "jrep h (Some a) (ji_child it) ts"
    "jrep h f (ji_next it) us" by auto
  have ds: "a \<notin> set (jaddrs ts)" "a \<notin> set (jaddrs us)" "set (jaddrs ts) \<inter> set (jaddrs us) = {}"
    "distinct (jaddrs ts)" "distinct (jaddrs us)" using Cons.prems(2) by auto
  let ?h1 = "unset (set (jaddrs ts)) h"
  have c: "(if ji_child it \<noteq> None then free_json_item (ji_child it) h else Some h) = Some ?h1"
    using Cons.IH(1) [OF it(3) ds(4)] jrep_head [OF it(3)] by auto
  have g: "ji_get ?h1 a = Some it" using it(2) ds(1) by (simp add: ji_get_unset)
  have "jrep (unset {a} ?h1) f (ji_next it) us = jrep h f (ji_next it) us"
    by (rule jrep_cong) (use ds in \<open>auto simp: ji_get_unset\<close>)
  then have "free_json_item (ji_next it) (unset {a} ?h1) = Some (unset (set (jaddrs us)) (unset {a} ?h1))"
    using Cons.IH(2) it(4) ds(5) by blast
  moreover have "unset (set (jaddrs us)) (unset {a} ?h1) = unset (set (jaddrs (JT a d ts # us))) h"
    unfolding unset_unset by (rule arg_cong [where f = "\<lambda>A. unset A h"]) auto
  ultimately show ?case
    using it(1,2) c ji_free_unset [OF g] by (simp add: free_json_item.simps [of "Some a"] del: unset_unset)
qed


section \<open>Integers as text\<close>

function dec_digits :: "nat \<Rightarrow> byte list" where
  "dec_digits n = (if n = 0 then [] else dec_digits (n div 10) @ [48 + word_of_nat (n mod 10)])"
  by auto
termination by (relation "measure id") auto

declare dec_digits.simps [simp del]

lemma dec_digits_length: "n < 10 ^ k \<Longrightarrow> length (dec_digits n) \<le> k"
proof (induction k arbitrary: n)
  case (Suc k)
  then have "n div 10 < 10 ^ k" by (simp add: less_mult_imp_div_less mult.commute)
  from Suc.IH [OF this] show ?case by (simp add: dec_digits.simps [of n])
qed (simp add: dec_digits.simps)

lemma dec_digits_length_ge: "10 ^ k \<le> n \<Longrightarrow> k < length (dec_digits n)"
proof (induction k arbitrary: n)
  case 0
  then show ?case by (simp add: dec_digits.simps [of n])
next
  case (Suc k)
  then have "10 ^ k \<le> n div 10" by (simp add: less_eq_div_iff_mult_less_eq mult.commute)
  moreover have "n \<noteq> 0" using Suc.prems by (intro notI) simp
  ultimately show ?case using Suc.IH [of "n div 10"] by (simp add: dec_digits.simps [of n])
qed

lemma itos_loop_digits:
  assumes "length out = n" "1 \<le> i"
  shows "itos_loop n input i out =
    (if length (dec_digits (unat input)) + i \<le> n + 1
     then Some (take (n + 1 - i - length (dec_digits (unat input))) out @
       map Some (dec_digits (unat input)) @ drop (n + 1 - i) out, i + length (dec_digits (unat input)))
     else if input = 0 then Some (out, i) else None)"
  using assms
proof (induction "unat input" arbitrary: input i out rule: less_induct)
  case less
  show ?case
  proof (cases "input = 0")
    case True
    with less.prems show ?thesis by (auto simp: itos_loop.simps dec_digits.simps)
  next
    case False
    then have pos: "unat input \<noteq> 0" by (simp add: unat_eq_0)
    have dv: "unat (input div 10) = unat input div 10" by (simp add: unat_div)
    have md: "(48 + ucast (input mod 10) :: byte) = 48 + word_of_nat (unat input mod 10)"
    proof -
      have "(ucast (input mod 10) :: byte) = word_of_nat (unat (input mod 10))" by (simp add: of_nat_unat)
      then show ?thesis by (simp add: unat_mod)
    qed
    have ds: "dec_digits (unat input) = dec_digits (unat (input div 10)) @ [48 + word_of_nat (unat input mod 10)]"
      using pos dv by (simp add: dec_digits.simps [of "unat input"])
    show ?thesis
    proof (cases "n < i")
      case True
      then show ?thesis using False by (simp add: itos_loop.simps [of n input] ds)
    next
      case l: False
      let ?out = "out[n - i := Some (48 + ucast (input mod 10))]"
      have s: "itos_loop n input i out = itos_loop n (input div 10) (i + 1) ?out"
        using False l by (simp add: itos_loop.simps [of n input])
      have "unat (input div 10) < unat input" using dv pos by simp
      note IH = less.hyps [OF this, of ?out "i + 1"]
      let ?k = "length (dec_digits (unat (input div 10)))"
      show ?thesis
      proof (cases "?k + (i + 1) \<le> n + 1")
        case True
        have "take (n - i - ?k) ?out = take (n - i - ?k) out"
          by (rule take_update_cancel) simp
        moreover have "drop (n - i) ?out = Some (48 + word_of_nat (unat input mod 10)) # drop (n + 1 - i) out"
          using l less.prems by (simp add: md Cons_nth_drop_Suc [symmetric] drop_update_swap Suc_diff_le)
        ultimately show ?thesis using IH less.prems True s ds by simp
      next
        case k: False
        have "input div 10 \<noteq> 0 \<or> ?k = 0" by (auto simp: dec_digits.simps)
        with k l have "input div 10 \<noteq> 0" by auto
        with IH less.prems k s ds False show ?thesis by simp
      qed
    qed
  qed
qed

text \<open>\<open>(long int) log10(fabs(n))\<close>, up to the rounding of the double.\<close>

definition log10_ok :: "'f json_libm \<Rightarrow> bool" where
  "log10_ok L \<longleftrightarrow> (\<forall>n. n \<noteq> 0 \<longrightarrow> nat \<bar>n\<bar> < 10 ^ (jl_log10 L n + 1) \<and> 10 ^ jl_log10 L n \<le> 2 * nat \<bar>n\<bar>)"

lemma log10_okD: "log10_ok L \<Longrightarrow> n \<noteq> 0 \<Longrightarrow>
    nat \<bar>n\<bar> < 10 ^ (jl_log10 L n + 1) \<and> 10 ^ jl_log10 L n \<le> 2 * nat \<bar>n\<bar>"
  by (simp add: log10_ok_def)

lemma integer_text_digits:
  assumes "log10_ok L" "0 < v" "v < 2 ^ 63"
  shows "json_integer_text L v = Some (dec_digits (nat v))"
proof -
  let ?ds = "dec_digits (nat v)" and ?l = "LENGTH_N L v"
  have u: "unat (word_of_int v :: u64) = nat v"
    using assms(2,3) by (simp add: unsigned_of_int take_bit_int_eq_self nat_take_bit_eq take_bit_nat_eq_self)
  have "nat v < 10 ^ ?l"
  proof (cases "v < 10")
    case False
    have "nat \<bar>v\<bar> < 10 ^ (jl_log10 L v + 1)" using log10_okD [OF assms(1), of v] assms(2) by simp
    with False assms(2) show ?thesis by (simp add: LENGTH_N_def)
  qed (use assms(2) in \<open>simp add: LENGTH_N_def\<close>)
  then have len: "length ?ds \<le> ?l" by (rule dec_digits_length)
  obtain l where l: "?l = l" by simp
  obtain out where out: "out = (replicate (l + 2) (None :: byte option))[l + 1 := Some 0]" by simp
  then have lo: "length out = l + 2" by (simp only: length_list_update length_replicate)
  obtain pre post where r: "itos_loop (l + 2) (word_of_int v) 2 out =
      Some (pre @ map Some ?ds @ post, 2 + length ?ds)" "length pre = l + 1 - length ?ds"
  proof
    show "itos_loop (l + 2) (word_of_int v) 2 out =
        Some (take (l + 1 - length ?ds) out @ map Some ?ds @ drop (l + 1) out, 2 + length ?ds)"
      using len l u itos_loop_digits [OF lo, of 2 "word_of_int v"] by (simp add: algebra_simps)
    show "length (take (l + 1 - length ?ds) out) = l + 1 - length ?ds" using lo by simp
  qed
  have "itos (word_of_int v) (l + 2) = Some (pre @ map Some ?ds @ post, l + 1 - length ?ds)"
    using r(1) by (simp add: itos_def out)
  then show ?thesis
    using len l r(2) by (auto simp: json_integer_text_def Let_def o_def)
qed

lemma integer_text_negative:
  assumes "log10_ok L" "v < 0" "- (10 ^ 17) < v"
  shows "json_integer_text L v = None"
proof -
  let ?w = "word_of_int v :: u64" and ?lg = "jl_log10 L v"
  have "uint ?w = v mod 2 ^ 64" by (simp add: uint_word_of_int)
  also have "\<dots> = (v + 2 ^ 64) mod 2 ^ 64" by simp
  also have "\<dots> = v + 2 ^ 64" by (rule mod_pos_pos_trivial) (use assms(2,3) in simp_all)
  finally have "unat ?w = nat (v + 2 ^ 64)" by (metis unat_eq_nat_uint)
  then have "10 ^ 19 \<le> unat ?w" using assms(2,3) by simp
  then have d: "19 < length (dec_digits (unat ?w))" by (rule dec_digits_length_ge)
  then have nz: "?w \<noteq> 0" by (intro notI) (simp add: dec_digits.simps)
  have "10 ^ ?lg \<le> 2 * nat \<bar>v\<bar>" using log10_okD [OF assms(1), of v] assms(2) by simp
  also have "\<dots> < 10 ^ 18" using assms(2,3) by simp
  finally have "?lg < 18" by (rule power_less_imp_less_exp [rotated]) simp
  moreover have "LENGTH_N L v = ?lg + 1" using assms(2) by (simp add: LENGTH_N_def)
  ultimately have l: "LENGTH_N L v \<le> 18" by simp
  obtain out where out: "out = (replicate (LENGTH_N L v + 2) (None :: byte option))[LENGTH_N L v + 1 := Some 0]"
    by simp
  then have lo: "length out = LENGTH_N L v + 2" by (simp only: length_list_update length_replicate)
  have "itos_loop (LENGTH_N L v + 2) ?w 2 out = None"
    using itos_loop_digits [OF lo, of 2 ?w] d nz l by simp
  then show ?thesis by (simp add: json_integer_text_def itos_def out)
qed


section \<open>The text of a tree\<close>

definition jd_value :: "'f json_item \<Rightarrow> bool \<Rightarrow> byte list" where
  "jd_value d leaf =
     (case ji_str d of
        Some s \<Rightarrow> [34] @ escape_json_string s @ [34]
      | None \<Rightarrow>
          if ji_integer d \<noteq> 0 then dec_digits (nat (ji_integer d))
          else if ji_type d = Some JSON_T_TRUE then bytes ''true''
          else if ji_type d = Some JSON_T_FALSE then bytes ''false''
          else if ji_type d = Some JSON_T_NULL then bytes ''null''
          else if leaf then [48] else [])"

text \<open>An item without a negative integer or a floating point number.\<close>

definition jd_printable :: "'f json_libm \<Rightarrow> 'f json_item \<Rightarrow> bool" where
  "jd_printable L d \<longleftrightarrow>
     ji_str d \<noteq> None \<or> 0 \<le> ji_integer d \<and> ji_integer d < 2 ^ 63 \<and> (ji_integer d = 0 \<longrightarrow> \<not> jl_nonzero L (ji_float d))"

fun jforest_all :: "('f json_item \<Rightarrow> bool \<Rightarrow> bool) \<Rightarrow> 'f jtree list \<Rightarrow> bool" where
  "jforest_all P [] = True"
| "jforest_all P (JT a d ts # us) = (P d (ts = []) \<and> jforest_all P ts \<and> jforest_all P us)"

fun jforest_text :: "json_child_t option \<Rightarrow> 'f jtree list \<Rightarrow> byte list" where
  "jforest_text fc [] = []"
| "jforest_text fc (JT a d ts # us) =
     json_key_text d @ jd_value d (ts = []) @
     (if ts = [] then [] else json_open_text (ji_ctype d) @ jforest_text (Some (ji_ctype d)) ts) @
     (case fc of None \<Rightarrow> [] | Some c \<Rightarrow> if us = [] then json_close_text c else [44]) @
     jforest_text fc us"

lemma json_value_text_data:
  assumes "log10_ok L" "jd_printable L (ji_data it)" "(ji_child it = None) = leaf"
  shows "json_value_text L it = Some (jd_value (ji_data it) leaf)"
  using assms(2,3) integer_text_digits [OF assms(1), of "ji_integer it"]
  by (auto simp: json_value_text_def jd_value_def jd_printable_def split: option.splits)

definition freed :: "bool \<Rightarrow> nat set \<Rightarrow> 'a option list \<Rightarrow> 'a option list" where
  "freed b A h = (if b then unset A h else h)"

lemma freed_simps [simp]: "freed b {} h = h" "freed b A (freed b B h) = freed b (A \<union> B) h"
  by (simp_all add: freed_def)

lemma ji_get_freed: "ji_get (freed b A h) a = (if b \<and> a \<in> A then None else ji_get h a)"
  by (simp add: freed_def ji_get_unset)

lemma js_put_room:
  "length (js_jstring s) + length xs \<le> js_jsize s \<Longrightarrow> js_put xs s = Some (s\<lparr>js_jstring := js_jstring s @ xs\<rparr>)"
  by (simp add: js_put_def)

lemma json_key_text_data [simp]: "json_key_text (ji_data it) = json_key_text it"
  by (simp add: json_key_text_def)

lemma json_to_string_loop_text:
  assumes "log10_ok L"
  shows "jrep h f p ts \<Longrightarrow> distinct (jaddrs ts) \<Longrightarrow> jforest_all (\<lambda>d _. jd_printable L d) ts \<Longrightarrow>
    (case f of None \<Rightarrow> fc = None
     | Some fa \<Rightarrow> fa \<notin> set (jaddrs ts) \<and> (\<exists>ft. ji_get h fa = Some ft \<and> fc = Some (ji_ctype ft))) \<Longrightarrow>
    length (js_jstring s) + length (jforest_text fc ts) \<le> js_jsize s \<Longrightarrow>
    json_to_string_loop L fr p s h =
      Some (s\<lparr>js_jstring := js_jstring s @ jforest_text fc ts\<rparr>, freed fr (set (jaddrs ts)) h)"
proof (induction ts arbitrary: f fc p s h rule: jforest_induct)
  case Nil
  then show ?case by (simp add: json_to_string_loop.simps js_put_def)
next
  case (Cons a d ts us)
  from Cons.prems(1) obtain it where it: "p = Some a" "ji_get h a = Some it" "ji_data it = d" "ji_father it = f"
    "jrep h (Some a) (ji_child it) ts" "jrep h f (ji_next it) us" by auto
  have ds: "a \<notin> set (jaddrs ts)" "a \<notin> set (jaddrs us)" "set (jaddrs ts) \<inter> set (jaddrs us) = {}"
    "distinct (jaddrs ts)" "distinct (jaddrs us)" using Cons.prems(2) by auto
  let ?c = "Some (ji_ctype it)" and ?h1 = "freed fr (set (jaddrs ts)) h"
  let ?val = "jd_value d (ts = [])"
  let ?sub = "if ts = [] then [] else json_open_text (ji_ctype it) @ jforest_text ?c ts"
  let ?sep = "case fc of None \<Rightarrow> [] | Some c \<Rightarrow> if us = [] then json_close_text c else [44]"
  have len: "length (js_jstring s) + length (json_key_text it) + length ?val + length ?sub + length ?sep +
      length (jforest_text fc us) \<le> js_jsize s"
    using Cons.prems(5) it(3) by (cases "ts = []") auto
  let ?put = "\<lambda>s xs. s\<lparr>js_jstring := js_jstring s @ xs\<rparr>"
  let ?s1 = "?put s (json_key_text it)"
  let ?s2 = "?put ?s1 ?val"
  let ?s3 = "?put ?s2 ?sub"
  let ?s4 = "?put ?s3 ?sep"
  have p1: "js_put (json_key_text it) s = Some ?s1" by (rule js_put_room) (use len in simp)
  have v: "json_value_text L it = Some ?val"
    using json_value_text_data [OF assms, of it "ts = []"] Cons.prems(3) jrep_head [OF it(5)] it(3) by simp
  have p2: "js_put ?val ?s1 = Some ?s2" by (rule js_put_room) (use len in simp)
  have sub: "(if ji_child it \<noteq> None
             then Option.bind (js_put (json_open_text (ji_ctype it)) ?s2) (\<lambda>string.
                  json_to_string_loop L fr (ji_child it) string h)
             else Some (?s2, h)) = Some (?s3, ?h1)"
  proof (cases "ts = []")
    case True
    then show ?thesis using jrep_head [OF it(5)] by simp
  next
    case False
    let ?so = "?put ?s2 (json_open_text (ji_ctype it))"
    have "js_put (json_open_text (ji_ctype it)) ?s2 = Some ?so" by (rule js_put_room) (use len False in simp)
    moreover have "json_to_string_loop L fr (ji_child it) ?so h = Some (?put ?so (jforest_text ?c ts), ?h1)"
      by (rule Cons.IH(1) [OF it(5)]) (use Cons.prems(3) len False ds it(2) in auto)
    ultimately show ?thesis using False jrep_head [OF it(5)] by simp
  qed
  have sep: "json_sep_text ?h1 it = Some ?sep"
  proof (cases f)
    case None
    with Cons.prems(4) it(4) show ?thesis by (simp add: json_sep_text_def)
  next
    case (Some fa)
    with Cons.prems(4) obtain ft where "fa \<notin> set (jaddrs ts)" "ji_get h fa = Some ft" "fc = Some (ji_ctype ft)"
      by auto
    then show ?thesis using it(4) Some jrep_head [OF it(6)] by (auto simp: json_sep_text_def ji_get_freed)
  qed
  have p4: "js_put ?sep ?s3 = Some ?s4" by (rule js_put_room) (use len in simp)
  have g: "ji_get ?h1 a = Some it" using it(2) ds(1) by (simp add: ji_get_freed)
  have fr: "(if fr then ji_free a ?h1 else Some ?h1) = Some (freed fr {a} ?h1)"
    using ji_free_unset [OF g] by (cases fr) (simp_all add: freed_def)
  have "jrep (freed fr {a} ?h1) f (ji_next it) us = jrep h f (ji_next it) us"
    by (rule jrep_cong) (use ds in \<open>auto simp: ji_get_freed\<close>)
  then have "json_to_string_loop L fr (ji_next it) ?s4 (freed fr {a} ?h1) =
      Some (?put ?s4 (jforest_text fc us), freed fr (set (jaddrs us)) (freed fr {a} ?h1))"
  proof (intro Cons.IH(2))
    show "case f of None \<Rightarrow> fc = None
     | Some fa \<Rightarrow> fa \<notin> set (jaddrs us) \<and>
         (\<exists>ft. ji_get (freed fr {a} ?h1) fa = Some ft \<and> fc = Some (ji_ctype ft))"
      using Cons.prems(4) by (auto simp: ji_get_freed split: option.splits)
  qed (use Cons.prems(3) it(6) ds len in auto)
  moreover have "freed fr (set (jaddrs us)) (freed fr {a} ?h1) = freed fr (set (jaddrs (JT a d ts # us))) h"
    unfolding freed_simps by (rule arg_cong [where f = "\<lambda>A. freed fr A h"]) auto
  moreover have "?put ?s4 (jforest_text fc us) = ?put s (jforest_text fc (JT a d ts # us))"
    using it(3) by auto
  ultimately have r: "json_to_string_loop L fr (ji_next it) ?s4 (freed fr {a} ?h1) =
      Some (?put s (jforest_text fc (JT a d ts # us)), freed fr (set (jaddrs (JT a d ts # us))) h)" by metis
  show ?case
    unfolding it(1) json_to_string_loop.simps [of L fr "Some a" s h] option.case it(2) Option.bind.bind_lunit p1 v p2 sub
      fst_conv snd_conv sep p4 fr r ..
qed

text \<open>The size that is computed before, and that it is enough.\<close>

fun jforest_size :: "'f jtree list \<Rightarrow> nat" where
  "jforest_size [] = 0"
| "jforest_size (JT a d ts # us) =
     (case ji_key d of None \<Rightarrow> 0 | Some k \<Rightarrow> length k + 3) +
     (case ji_str d of Some s \<Rightarrow> length s + 3 | None \<Rightarrow> if ts = [] then 16 else 0) +
     (if ts = [] then 0 else 2 + jforest_size ts) + jforest_size us"

lemma json_evaluate_loop_size: "jrep h f p ts \<Longrightarrow> json_evaluate_loop h n p = Some (n + jforest_size ts)"
proof (induction ts arbitrary: f p n rule: jforest_induct)
  case Nil
  then show ?case by (simp add: json_evaluate_loop.simps)
next
  case (Cons a d ts us)
  then obtain it where it: "p = Some a" "ji_get h a = Some it" "ji_data it = d" "jrep h (Some a) (ji_child it) ts"
    "jrep h f (ji_next it) us" by auto
  have c: "(ji_child it = None) = (ts = [])" using jrep_head [OF it(4)] by simp
  note IH = Cons.IH(1) [OF it(4)] Cons.IH(2) [OF it(5)]
  show ?case
    using it(1-3) c by (auto simp: json_evaluate_loop.simps [of h n "Some a"] IH Let_def split: option.splits)
qed

lemma escape_length: "length (escape_json_string s) \<le> 2 * length s"
proof (induction s)
  case (Cons c s)
  have "length (escape_char c) \<le> 2" by (simp add: escape_char_def)
  with Cons show ?case by simp
qed simp

text \<open>An item with children has no value of its own, or a string.\<close>

definition jd_sound :: "'f json_item \<Rightarrow> bool \<Rightarrow> bool" where
  "jd_sound d leaf \<longleftrightarrow> leaf \<or> ji_str d \<noteq> None \<or>
     ji_integer d = 0 \<and> ji_type d \<notin> {Some JSON_T_TRUE, Some JSON_T_FALSE, Some JSON_T_NULL}"

lemma jd_value_length:
  assumes "jd_printable L d" "jd_sound d leaf"
  shows "length (jd_value d leaf) + 1 \<le> 2 * (case ji_str d of Some s \<Rightarrow> length s + 3 | None \<Rightarrow> if leaf then 16 else 1)"
proof (cases "ji_str d")
  case (Some s)
  with escape_length [of s] show ?thesis by (simp add: jd_value_def)
next
  case None
  have "length (dec_digits (nat (ji_integer d))) \<le> 19"
    by (rule dec_digits_length) (use assms(1) None in \<open>auto simp: jd_printable_def nat_less_iff\<close>)
  with None assms(2) show ?thesis by (auto simp: jd_value_def jd_sound_def bytes_def)
qed

lemma json_punct_length: "length (json_open_text c) \<le> 1" "length (json_close_text c) \<le> 1"
  by (simp_all add: json_open_text_def json_close_text_def split: json_child_t.splits)

lemma jforest_text_length:
  "jforest_all (\<lambda>d leaf. jd_printable L d \<and> jd_sound d leaf) ts \<Longrightarrow>
   length (jforest_text fc ts) \<le> 2 * jforest_size ts"
proof (induction ts arbitrary: fc rule: jforest_induct)
  case (Cons a d ts us)
  have v: "length (jd_value d (ts = [])) + 1 \<le>
      2 * (case ji_str d of Some s \<Rightarrow> length s + 3 | None \<Rightarrow> if ts = [] then 16 else 1)"
    by (rule jd_value_length) (use Cons.prems in auto)
  have k: "length (json_key_text d) \<le> 2 * (case ji_key d of None \<Rightarrow> 0 | Some k \<Rightarrow> length k + 3)"
    by (simp add: json_key_text_def split: option.splits)
  have s: "length (case fc of None \<Rightarrow> [] | Some c \<Rightarrow> if us = [] then json_close_text c else [44 :: byte]) \<le> 1"
    using json_punct_length(2) by (simp split: option.splits)
  have u: "length (jforest_text fc us) \<le> 2 * jforest_size us" using Cons.IH(2) Cons.prems by simp
  show ?case
  proof (cases "ts = []")
    case True
    with v k s u show ?thesis by (cases "ji_str d") simp_all
  next
    case False
    have t: "length (jforest_text (Some (ji_ctype d)) ts) \<le> 2 * jforest_size ts" using Cons.IH(1) Cons.prems by simp
    have "2 * (case ji_str d of Some s \<Rightarrow> length s + 3 | None \<Rightarrow> 1) \<le>
        2 * (case ji_str d of Some s \<Rightarrow> length s + 3 | None \<Rightarrow> (0 :: nat)) + 2" by (simp split: option.splits)
    with v k s u t json_punct_length(1) [of "ji_ctype d"] False show ?thesis by (cases "ji_str d") simp_all
  qed
qed simp


section \<open>Properties of the serializer\<close>


text \<open>a negative integer above \<open>-10^17\<close> is converted to unsigned by the call of \<open>itos\<close>, whose 20
  digits do not fit the array that is sized for the digits of the absolute value: the digits are
  written before the array.\<close>

theorem json_to_string_negative:
  assumes "log10_ok L" "ji_get h a = Some it" "ji_str it = None" "- (10 ^ 17) < ji_integer it" "ji_integer it < 0"
  shows "json_to_string L (Some a) (Some s) fr h = None"
proof -
  have "json_integer_text L (ji_integer it) = None" using integer_text_negative assms by blast
  then have v: "json_value_text L it = None" using assms(3,5) by (simp add: json_value_text_def)
  show ?thesis
    by (cases "js_put (json_key_text it) s")
      (simp_all add: json_to_string_def json_to_string_loop.simps [of L fr "Some a"] assms(2) v)
qed

text \<open>A library with the number of digits.\<close>

definition digits_libm :: "nat json_libm" where
  "digits_libm = \<lparr>jl_zero = 0, jl_nonzero = (\<lambda>f. f \<noteq> 0), jl_strtod = length,
     jl_log10 = (\<lambda>n. length (dec_digits (nat \<bar>n\<bar>)) - 1)\<rparr>"

lemma digits_libm_ok: "log10_ok digits_libm"
  unfolding log10_ok_def
proof (intro allI impI)
  fix n :: int assume "n \<noteq> 0"
  then obtain m where m: "nat \<bar>n\<bar> = m" "0 < m" by simp
  obtain k where k: "length (dec_digits m) = Suc k" using dec_digits_length_ge [of 0 m] m(2)
    by (cases "length (dec_digits m)") auto
  have "m < 10 ^ Suc k" using dec_digits_length_ge [of "Suc k" m] k by force
  moreover have "10 ^ k \<le> m" using dec_digits_length [of m k] k by force
  ultimately show "nat \<bar>n\<bar> < 10 ^ (jl_log10 digits_libm n + 1) \<and> 10 ^ jl_log10 digits_libm n \<le> 2 * nat \<bar>n\<bar>"
    using m(1) k by (simp add: digits_libm_def)
qed

text \<open>An item for the examples: no pointers.\<close>

definition plain_item :: "int \<Rightarrow> byte list option \<Rightarrow> json_child_t \<Rightarrow> nat json_item" where
  "plain_item i s t = \<lparr>ji_integer = i, ji_float = 0, ji_str = s, ji_child = None, ji_head = None, ji_ctype = t,
     ji_key = None, ji_father = None, ji_next = None, ji_type = None\<rparr>"


theorem json_to_string_negative_witness:
  "json_to_string digits_libm (Some 0) (Some \<lparr>js_jstring = [], js_jsize = 100\<rparr>) False
     [Some (plain_item (-5) None JSON_C_T_NULL)] = None"
  by (rule json_to_string_negative [OF digits_libm_ok, of _ 0 "plain_item (-5) None JSON_C_T_NULL"])
    (simp_all add: ji_get_def plain_item_def)


section \<open>Trees that are built by hand\<close>

lemma ji_upd_get:
  assumes "ji_get h a = Some it"
  shows "\<exists>h'. ji_upd (Some a) f h = Some h' \<and> ji_get h' = (ji_get h)(a := Some (f it)) \<and> length h' = length h"
  using assms by (auto simp: ji_upd_def ji_get_def fun_eq_iff split: if_splits)

lemma init_json_item_get:
  "ji_get (h @ [Some it]) = (ji_get h)(length h := Some it)"
  by (auto simp: ji_get_def fun_eq_iff nth_append)

lemma ji_get_fresh: "ji_get h (length h) = None"
  by (simp add: ji_get_def)

lemma jaddrs_append: "jaddrs (ts @ us) = jaddrs ts @ jaddrs us"
  by (induction ts rule: jforest_induct) auto

lemma jt_at_in: "t \<in> set ts \<Longrightarrow> jt_at t \<in> set (jaddrs ts)"
  by (induction ts rule: jforest_induct) auto

text \<open>The last sibling gets a successor.\<close>

lemma jrep_snoc:
  assumes "jrep h f p ts" "ts \<noteq> []" "distinct (jaddrs ts)" "ji_get h (jt_at (last ts)) = Some it"
    and "ji_get h' (jt_at (last ts)) = Some it'" "it' = it\<lparr>ji_next := q\<rparr>"
    and "\<And>a. a \<in> set (jaddrs ts) \<Longrightarrow> a \<noteq> jt_at (last ts) \<Longrightarrow> ji_get h' a = ji_get h a"
    and "jrep h' f q us"
  shows "jrep h' f p (ts @ us)"
  using assms
proof (induction ts arbitrary: p rule: jforest_induct)
  case (Cons a d ts vs)
  from Cons.prems(1) obtain ai where a: "p = Some a" "ji_get h a = Some ai" "ji_data ai = d" "ji_father ai = f"
    "jrep h (Some a) (ji_child ai) ts" "jrep h f (ji_next ai) vs" by auto
  show ?case
  proof (cases "vs = []")
    case True
    have "jrep h' (Some a) (ji_child ai) ts = jrep h (Some a) (ji_child ai) ts"
      by (rule jrep_cong) (use Cons.prems(3,7) True in auto)
    with a Cons.prems(4-6,8) True show ?thesis by (auto simp: ji_data_def)
  next
    case False
    then have l: "jt_at (last vs) \<in> set (jaddrs vs)" by (simp add: jt_at_in)
    have "jrep h' (Some a) (ji_child ai) ts = jrep h (Some a) (ji_child ai) ts"
      by (rule jrep_cong) (use Cons.prems(3,7) False l in auto)
    moreover have "a \<noteq> jt_at (last vs)" using Cons.prems(3) l by auto
    then have "ji_get h' a = Some ai" using Cons.prems(7) [of a] False a(2) by simp
    moreover have "jrep h' f (ji_next ai) (vs @ us)"
      by (rule Cons.IH(2) [OF a(6) False]) (use Cons.prems False in auto)
    ultimately show ?thesis using a by auto
  qed
qed simp

text \<open>A container under construction: its children, and \<open>head\<close> the last of them.\<close>

definition jbuild :: "'f json_heap \<Rightarrow> addr \<Rightarrow> 'f json_item \<Rightarrow> 'f jtree list \<Rightarrow> bool" where
  "jbuild h obj d ts \<longleftrightarrow>
     (\<exists>it. ji_get h obj = Some it \<and> ji_data it = d \<and> jrep h (Some obj) (ji_child it) ts \<and>
        distinct (obj # jaddrs ts) \<and> (ts \<noteq> [] \<longrightarrow> ji_head it = Some (jt_at (last ts))))"

lemma json_link_build:
  assumes b: "jbuild h obj d ts" and n: "ji_get h n = Some ni" "ji_father ni = Some obj" "ji_next ni = None"
    and k: "jrep h (Some n) (ji_child ni) ks" "distinct (n # jaddrs ks)"
      "set (n # jaddrs ks) \<inter> set (obj # jaddrs ts) = {}"
  shows "\<exists>h'. json_link obj n h = Some h' \<and> length h' = length h \<and>
    jbuild h' obj d (ts @ [JT n (ji_data ni) ks])"
proof -
  from b obtain it where it: "ji_get h obj = Some it" "ji_data it = d" "jrep h (Some obj) (ji_child it) ts"
    "distinct (obj # jaddrs ts)" "ts \<noteq> [] \<longrightarrow> ji_head it = Some (jt_at (last ts))" by (auto simp: jbuild_def)
  have c: "(ji_child it = None) = (ts = [])" using jrep_head [OF it(3)] .
  have no: "n \<noteq> obj" "n \<notin> set (jaddrs ts)" "obj \<notin> set (jaddrs ks)" "set (jaddrs ks) \<inter> set (jaddrs ts) = {}"
    using k(3) by auto
  have leaf: "jrep h' (Some obj) (Some n) [JT n (ji_data ni) ks]"
    if "\<And>a. a \<in> set (n # jaddrs ks) \<Longrightarrow> ji_get h' a = ji_get h a" for h'
    using n k(1) jrep_cong [of ks h' h] that by auto
  have dist: "distinct (obj # jaddrs (ts @ [JT n (ji_data ni) ks]))"
    using it(4) k(2,3) by (auto simp: jaddrs_append)
  show ?thesis
  proof (cases "ts = []")
    case True
    obtain h1 where h1: "ji_upd (Some obj) (\<lambda>it. it\<lparr>ji_child := Some n\<rparr>) h = Some h1"
      "ji_get h1 = (ji_get h)(obj := Some (it\<lparr>ji_child := Some n\<rparr>))" "length h1 = length h"
      using ji_upd_get [OF it(1)] by blast
    obtain h2 where h2: "ji_upd (Some obj) (\<lambda>it. it\<lparr>ji_head := Some n\<rparr>) h1 = Some h2"
      "ji_get h2 = (ji_get h1)(obj := Some (it\<lparr>ji_child := Some n, ji_head := Some n\<rparr>))" "length h2 = length h1"
      using ji_upd_get [of h1 obj "it\<lparr>ji_child := Some n\<rparr>" "\<lambda>it. it\<lparr>ji_head := Some n\<rparr>"] h1(2) by auto
    have "jrep h2 (Some obj) (Some n) [JT n (ji_data ni) ks]"
      by (rule leaf) (use no h1(2) h2(2) in auto)
    moreover have "json_link obj n h = Some h2" using it(1) c True h1(1) h2(1) by (simp add: json_link_def)
    ultimately show ?thesis
      using True dist h1(3) h2(2,3) it(2) by (auto simp: jbuild_def ji_data_def)
  next
    case False
    let ?l = "jt_at (last ts)"
    have l: "?l \<in> set (jaddrs ts)" using False by (simp add: jt_at_in)
    then obtain li where li: "ji_get h ?l = Some li" using jrep_live [OF it(3)] by blast
    have lo: "?l \<noteq> obj" "?l \<noteq> n" using l it(4) no by auto
    obtain h1 where h1: "ji_upd (Some ?l) (\<lambda>it. it\<lparr>ji_next := Some n\<rparr>) h = Some h1"
      "ji_get h1 = (ji_get h)(?l := Some (li\<lparr>ji_next := Some n\<rparr>))" "length h1 = length h"
      using ji_upd_get [OF li] by blast
    have o1: "ji_get h1 obj = Some it" using h1(2) it(1) lo by auto
    obtain h2 where h2: "ji_upd (Some obj) (\<lambda>it. it\<lparr>ji_head := Some n\<rparr>) h1 = Some h2"
      "ji_get h2 = (ji_get h1)(obj := Some (it\<lparr>ji_head := Some n\<rparr>))" "length h2 = length h1"
      using ji_upd_get [OF o1] by blast
    have "jrep h2 (Some obj) (Some n) [JT n (ji_data ni) ks]"
      by (rule leaf) (use no l h1(2) h2(2) lo in auto)
    then have "jrep h2 (Some obj) (ji_child it) (ts @ [JT n (ji_data ni) ks])"
      by (intro jrep_snoc [OF it(3) False _ li]) (use it(4) h1(2) h2(2) lo in auto)
    moreover have "json_link obj n h = Some h2"
      using it(1,5) c False h1(1) h2(1) by (auto simp: json_link_def)
    ultimately show ?thesis
      using dist h1(3) h2(2,3) it(2) by (auto simp: jbuild_def ji_data_def)
  qed
qed

text \<open>A new item, its fields written, is linked.\<close>

definition jitem_new :: "'f json_libm \<Rightarrow> 'f json_item" where
  "jitem_new L = \<lparr>ji_integer = 0, ji_float = jl_zero L, ji_str = None, ji_child = None, ji_head = None,
     ji_ctype = JSON_C_T_NULL, ji_key = None, ji_father = None, ji_next = None, ji_type = None\<rparr>"

lemma jbuild_cong:
  "jbuild h obj d ts \<Longrightarrow> (\<And>a. a \<in> set (obj # jaddrs ts) \<Longrightarrow> ji_get h' a = ji_get h a) \<Longrightarrow> jbuild h' obj d ts"
  using jrep_cong [of ts h' h] by (auto simp: jbuild_def)

lemma jbuild_live: "jbuild h obj d ts \<Longrightarrow> a \<in> set (obj # jaddrs ts) \<Longrightarrow> ji_get h a \<noteq> None"
  using jrep_live by (auto simp: jbuild_def)

lemma json_setter_build:
  assumes b: "jbuild h obj d ts"
    and f: "\<And>it. ji_father (f it) = Some obj \<and> ji_next (f it) = ji_next it \<and> ji_child (f it) = ji_child it"
  shows "\<exists>h'. Option.bind (ji_upd (Some (length h)) (json_set_key key) (h @ [Some (jitem_new L)])) (\<lambda>h1.
      Option.bind (ji_upd (Some (length h)) f h1) (json_link obj (length h))) = Some h' \<and>
    length h' = length h + 1 \<and> jbuild h' obj d (ts @ [JT (length h) (ji_data (f (json_set_key key (jitem_new L)))) []])"
proof -
  let ?n = "length h" and ?i = "json_set_key key (jitem_new L)"
  have fresh: "a \<noteq> ?n" if "a \<in> set (obj # jaddrs ts)" for a
    using jbuild_live [OF b that] ji_get_fresh [of h] by auto
  have g0: "ji_get (h @ [Some (jitem_new L)]) ?n = Some (jitem_new L)" by (simp add: init_json_item_get)
  obtain h1 where h1: "ji_upd (Some ?n) (json_set_key key) (h @ [Some (jitem_new L)]) = Some h1"
    "ji_get h1 = (ji_get (h @ [Some (jitem_new L)]))(?n := Some ?i)" "length h1 = length h + 1"
    using ji_upd_get [OF g0, of "json_set_key key"] by auto
  obtain h2 where h2: "ji_upd (Some ?n) f h1 = Some h2" "ji_get h2 = (ji_get h1)(?n := Some (f ?i))"
    "length h2 = length h1"
    using ji_upd_get [of h1 ?n ?i f] h1(2) by auto
  have "jbuild h2 obj d ts"
    by (rule jbuild_cong [OF b]) (use fresh h1(2) h2(2) in \<open>auto simp: init_json_item_get\<close>)
  moreover have "ji_next (f ?i) = None" "ji_child (f ?i) = None" "ji_father (f ?i) = Some obj"
    using f [of ?i] by (simp_all add: json_set_key_def jitem_new_def)
  moreover have "ji_get h2 ?n = Some (f ?i)" using h2(2) by simp
  ultimately obtain h' where "json_link obj ?n h2 = Some h'" "length h' = length h2"
    "jbuild h' obj d (ts @ [JT ?n (ji_data (f ?i)) []])"
    using json_link_build [of h2 obj d ts ?n "f ?i" "[]"] fresh by auto
  then show ?thesis using h1(1,3) h2(1,3) by simp
qed

lemma init_json_item_new: "init_json_item L h = (length h, h @ [Some (jitem_new L)])"
  by (simp add: init_json_item_def jitem_new_def)

text \<open>The data of a leaf.\<close>

definition jleaf :: "'f json_libm \<Rightarrow> byte list option \<Rightarrow> ('f json_item \<Rightarrow> 'f json_item) \<Rightarrow> 'f json_item" where
  "jleaf L key f = f (json_set_key key (jitem_new L))"

lemma json_set_key_swap:
  "ji_data ((json_set_key key (jitem_new L))\<lparr>ji_father := p, ji_integer := i, ji_type := t\<rparr>) =
     jleaf L key (\<lambda>it. it\<lparr>ji_integer := i, ji_type := t\<rparr>)"
  "ji_data ((json_set_key key (jitem_new L))\<lparr>ji_father := p, ji_float := x, ji_type := t\<rparr>) =
     jleaf L key (\<lambda>it. it\<lparr>ji_float := x, ji_type := t\<rparr>)"
  "ji_data ((json_set_key key (jitem_new L))\<lparr>ji_father := p, ji_type := t\<rparr>) = jleaf L key (\<lambda>it. it\<lparr>ji_type := t\<rparr>)"
  "ji_data ((json_set_key key (jitem_new L))\<lparr>ji_str := s, ji_type := t, ji_father := p\<rparr>) =
     jleaf L key (\<lambda>it. it\<lparr>ji_str := s, ji_type := t\<rparr>)"
  by (simp_all add: jleaf_def ji_data_def json_set_key_def jitem_new_def)

lemma json_set_obj_build:
  assumes b: "jbuild h obj d ts" and r: "jrep h None (Some v) [JT v dv ks]"
    and d: "distinct (jaddrs [JT v dv ks])" "set (jaddrs [JT v dv ks]) \<inter> set (obj # jaddrs ts) = {}"
  shows "\<exists>h'. json_set_property_objN obj key v h = Some h' \<and> jbuild h' obj d (ts @ [JT v (json_set_key key dv) ks])"
proof -
  from r obtain vi where vi: "ji_get h v = Some vi" "ji_data vi = dv" "ji_father vi = None"
    "jrep h (Some v) (ji_child vi) ks" "ji_next vi = None" by auto
  let ?i = "(json_set_key key vi)\<lparr>ji_father := Some obj\<rparr>"
  obtain h1 where h1: "ji_upd (Some v) (json_set_key key) h = Some h1"
    "ji_get h1 = (ji_get h)(v := Some (json_set_key key vi))"
    using ji_upd_get [OF vi(1), of "json_set_key key"] by blast
  obtain h2 where h2: "ji_upd (Some v) (\<lambda>it. it\<lparr>ji_father := Some obj\<rparr>) h1 = Some h2"
    "ji_get h2 = (ji_get h1)(v := Some ?i)"
    using ji_upd_get [of h1 v "json_set_key key vi" "\<lambda>it. it\<lparr>ji_father := Some obj\<rparr>"] h1(2) by auto
  have "jbuild h2 obj d ts" by (rule jbuild_cong [OF b]) (use d h1(2) h2(2) in auto)
  moreover have "jrep h2 (Some v) (ji_child vi) ks = jrep h (Some v) (ji_child vi) ks"
    by (rule jrep_cong) (use d(1) h1(2) h2(2) in auto)
  then have "jrep h2 (Some v) (ji_child ?i) ks" using vi(4) by (simp add: json_set_key_def)
  moreover have "ji_data ?i = json_set_key key dv" "ji_next ?i = None" "ji_father ?i = Some obj"
    using vi by (auto simp: json_set_key_def ji_data_def)
  moreover have "ji_get h2 v = Some ?i" using h2(2) by simp
  ultimately obtain h' where "json_link obj v h2 = Some h'" "jbuild h' obj d (ts @ [JT v (json_set_key key dv) ks])"
    using json_link_build [of h2 obj d ts v ?i ks] d by auto
  then show ?thesis using h1(1) h2(1) by (auto simp: json_set_property_objN_def)
qed

lemma json_new_build:
  "\<exists>g. ji_upd (Some (length h)) (\<lambda>it. it\<lparr>ji_ctype := t\<rparr>) (h @ [Some (jitem_new L)]) = Some g \<and>
    jbuild g (length h) (jleaf L None (\<lambda>it. it\<lparr>ji_ctype := t\<rparr>)) []"
proof -
  have "ji_get (h @ [Some (jitem_new L)]) (length h) = Some (jitem_new L)" by (simp add: init_json_item_get)
  from ji_upd_get [OF this, of "\<lambda>it. it\<lparr>ji_ctype := t\<rparr>"] show ?thesis
    by (auto simp: jbuild_def jleaf_def ji_data_def jitem_new_def json_set_key_def)
qed

lemma json_new_containers:
  "(\<exists>o' g. json_new_object L h = Some (o', g) \<and> jbuild g o' (jleaf L None (\<lambda>it. it\<lparr>ji_ctype := JSON_C_T_OBJ\<rparr>)) []) \<and>
   (\<exists>a g. json_new_array L h = Some (a, g) \<and> jbuild g a (jleaf L None (\<lambda>it. it\<lparr>ji_ctype := JSON_C_T_ARR\<rparr>)) [])"
  using json_new_build by (auto simp: json_new_object_def json_new_array_def init_json_item_new)

text \<open>every setter, on a container that was built with them, appends one child after the others
  and keeps the container's pointers right: the leaf that it allocates, with the key and the value,
  or the tree it is given, under the key.\<close>

theorem json_setters_append:
  assumes "jbuild h obj d ts"
  shows "(\<exists>h'. json_set_property_intN L obj key i h = Some h' \<and>
      jbuild h' obj d (ts @ [JT (length h) (jleaf L key (\<lambda>it. it\<lparr>ji_integer := i, ji_type := Some JSON_T_INTEGER\<rparr>)) []])) \<and>
    (\<exists>h'. json_set_property_floatN L obj key x h = Some h' \<and>
      jbuild h' obj d (ts @ [JT (length h) (jleaf L key (\<lambda>it. it\<lparr>ji_float := x, ji_type := Some JSON_T_FLOAT\<rparr>)) []])) \<and>
    (\<exists>h'. json_set_property_boolean L obj key b h = Some h' \<and>
      jbuild h' obj d (ts @ [JT (length h) (jleaf L key (\<lambda>it. it\<lparr>ji_type := Some (if b then JSON_T_TRUE else JSON_T_FALSE)\<rparr>)) []])) \<and>
    (\<exists>h'. json_set_property_null L obj key h = Some h' \<and>
      jbuild h' obj d (ts @ [JT (length h) (jleaf L key (\<lambda>it. it\<lparr>ji_type := Some JSON_T_NULL\<rparr>)) []])) \<and>
    (\<exists>h'. json_set_property_strN L obj key s h = Some h' \<and>
      jbuild h' obj d (ts @ [JT (length h) (jleaf L key (\<lambda>it. it\<lparr>ji_str := Some s, ji_type := Some JSON_T_STRING\<rparr>)) []])) \<and>
    (jrep h None (Some v) [JT v dv ks] \<and> distinct (jaddrs [JT v dv ks]) \<and>
        set (jaddrs [JT v dv ks]) \<inter> set (obj # jaddrs ts) = {} \<longrightarrow>
      (\<exists>h'. json_set_property_objN obj key v h = Some h' \<and> jbuild h' obj d (ts @ [JT v (json_set_key key dv) ks])))"
  (is "?I \<and> ?F \<and> ?B \<and> ?N \<and> ?S \<and> ?O")
proof (intro conjI)
  note set = json_setter_build [OF assms, of _ key L]
  show ?I using set [of "\<lambda>it. it\<lparr>ji_father := Some obj, ji_integer := i, ji_type := Some JSON_T_INTEGER\<rparr>"]
    by (auto simp: json_set_property_intN_def init_json_item_new json_set_key_swap)
  show ?F using set [of "\<lambda>it. it\<lparr>ji_father := Some obj, ji_float := x, ji_type := Some JSON_T_FLOAT\<rparr>"]
    by (auto simp: json_set_property_floatN_def init_json_item_new json_set_key_swap)
  show ?B using set [of "\<lambda>it. it\<lparr>ji_father := Some obj, ji_type := Some (if b then JSON_T_TRUE else JSON_T_FALSE)\<rparr>"]
    by (auto simp: json_set_property_boolean_def init_json_item_new json_set_key_swap)
  show ?N using set [of "\<lambda>it. it\<lparr>ji_father := Some obj, ji_type := Some JSON_T_NULL\<rparr>"]
    by (auto simp: json_set_property_null_def init_json_item_new json_set_key_swap)
  show ?S using set [of "\<lambda>it. it\<lparr>ji_str := Some s, ji_type := Some JSON_T_STRING, ji_father := Some obj\<rparr>"]
    by (auto simp: json_set_property_strN_def init_json_item_new json_set_key_swap)
  show ?O using json_set_obj_build [OF assms] by blast
qed

theorem json_setters_append_witness:
  "\<exists>h'. json_set_property_intN digits_libm 0 (Some [97]) 5
      [Some ((jitem_new digits_libm)\<lparr>ji_ctype := JSON_C_T_OBJ\<rparr>), Some (jitem_new digits_libm)] = Some h' \<and>
    jbuild h' 0 ((jitem_new digits_libm)\<lparr>ji_ctype := JSON_C_T_OBJ\<rparr>)
      [JT 2 (jleaf digits_libm (Some [97]) (\<lambda>it. it\<lparr>ji_integer := 5, ji_type := Some JSON_T_INTEGER\<rparr>)) []] \<and>
    (\<exists>g. json_set_property_objN 0 (Some [98]) 1
        [Some ((jitem_new digits_libm)\<lparr>ji_ctype := JSON_C_T_OBJ\<rparr>), Some (jitem_new digits_libm)] = Some g)"
proof -
  let ?n = "jitem_new digits_libm"
  let ?o = "?n\<lparr>ji_ctype := JSON_C_T_OBJ\<rparr>"
  have d: "ji_data ?n = ?n" "ji_data ?o = ?o" by (simp_all add: ji_data_def jitem_new_def)
  have "jbuild [Some ?o, Some ?n] 0 ?o []" "jrep [Some ?o, Some ?n] None (Some 1) [JT 1 ?n []]"
    by (simp_all add: jbuild_def ji_get_def d) (simp_all add: jitem_new_def)
  from json_setters_append [OF this(1), of digits_libm "Some [97]" 5] this(2)
    json_setters_append [OF this(1), of digits_libm "Some [98]" 5 0 False "[]" 1 ?n "[]"]
  show ?thesis by (auto simp: numeral_2_eq_2)
qed


section \<open>The callback context\<close>

text \<open>The context is touched by the callback only: it is the fold of the callback over the events.\<close>

definition ctx_follows :: "'c json_env \<Rightarrow> 'c \<Rightarrow> ('c json_parser, json_event) result \<Rightarrow> bool" where
  "ctx_follows E c r \<longleftrightarrow>
     (\<forall>cb. je_callback E = Some cb \<longrightarrow> jp_ctx (fst r) = foldl (\<lambda>c e. fst (cb c e)) c (fst (snd r)))"

named_theorems follows \<open>steps that keep the context\<close>

lemma follows_base [follows]:
  "jp_ctx s = c \<Longrightarrow> ctx_follows E c (accept s)"
  "jp_ctx s = c \<Longrightarrow> ctx_follows E c (refuse s)"
  "jp_ctx s = c \<Longrightarrow> ctx_follows E c (check P s)"
  "jp_ctx s = c \<Longrightarrow> ctx_follows E c (s, [], v)"
  by (simp_all add: ctx_follows_def accept_def refuse_def check_def)

lemma follows_and_then [follows]:
  "ctx_follows E c r \<Longrightarrow> (\<And>s. ctx_follows E (jp_ctx s) (k s)) \<Longrightarrow> ctx_follows E c (and_then r k)"
proof -
  assume r: "ctx_follows E c r" and k: "\<And>s. ctx_follows E (jp_ctx s) (k s)"
  obtain s ev v where e: "r = (s, ev, v)" by (cases r)
  obtain s' ev' v' where e': "k s = (s', ev', v')" by (cases "k s")
  from r k [of s] show "ctx_follows E c (and_then r k)" by (simp add: ctx_follows_def and_then_def e e')
qed

lemma follows_if [follows]:
  "(P \<Longrightarrow> ctx_follows E c r) \<Longrightarrow> (\<not> P \<Longrightarrow> ctx_follows E c r') \<Longrightarrow> ctx_follows E c (if P then r else r')"
  by simp

text \<open>A result that is inspected: its state follows, and what is made of it does not call back.\<close>

lemma follows_case [follows]:
  "ctx_follows E c r \<Longrightarrow> (\<And>s ev v. r = (s, ev, v) \<Longrightarrow> ctx_follows E c (s, ev, v) \<Longrightarrow> ctx_follows E c (k s ev v)) \<Longrightarrow>
   ctx_follows E c (case r of (s, ev, v) \<Rightarrow> k s ev v)"
  by (cases r) auto

lemma follows_update [follows]:
  "ctx_follows E c (s, ev, v) \<Longrightarrow> jp_ctx s' = jp_ctx s \<Longrightarrow> ctx_follows E c (s', ev, v')"
  by (simp add: ctx_follows_def)

lemma follows_emit [follows]: "jp_ctx jc = c \<Longrightarrow> ctx_follows E c (json_emit E t v jc)"
  by (auto simp: json_emit_def ctx_follows_def split: option.splits prod.splits intro!: follows_base)

lemma ctx_set_error [simp]: "jp_ctx (set_error_code e jc) = jp_ctx jc" "jp_ctx (set_error jc) = jp_ctx jc"
  "jp_ctx (parse_buffer_clear jc) = jp_ctx jc"
  by (simp_all add: set_error_code_def set_error_def parse_buffer_clear_def)

text \<open>No event, the context unchanged.\<close>

definition silent :: "'c json_parser \<Rightarrow> ('c json_parser, json_event) result \<Rightarrow> bool" where
  "silent jc r \<longleftrightarrow> jp_ctx (fst r) = jp_ctx jc \<and> fst (snd r) = []"

lemma silent_follows: "silent jc r \<Longrightarrow> jp_ctx jc = c \<Longrightarrow> ctx_follows E c r"
  by (simp add: silent_def ctx_follows_def)

lemma silent_rules:
  "jp_ctx s = jp_ctx jc \<Longrightarrow> silent jc (accept s)" "jp_ctx s = jp_ctx jc \<Longrightarrow> silent jc (refuse s)"
  "jp_ctx s = jp_ctx jc \<Longrightarrow> silent jc (check P s)" "jp_ctx s = jp_ctx jc \<Longrightarrow> silent jc (s, [], v)"
  "(P \<Longrightarrow> silent jc r) \<Longrightarrow> (\<not> P \<Longrightarrow> silent jc r') \<Longrightarrow> silent jc (if P then r else r')"
  by (simp_all add: silent_def accept_def refuse_def check_def)

lemma silent_and_then: "silent jc r \<Longrightarrow> (\<And>s. silent s (k s)) \<Longrightarrow> silent jc (and_then r k)"
proof -
  assume r: "silent jc r" and k: "\<And>s. silent s (k s)"
  obtain s ev v where e: "r = (s, ev, v)" by (cases r)
  obtain s' ev' v' where e': "k s = (s', ev', v')" by (cases "k s")
  from r k [of s] show "silent jc (and_then r k)" by (simp add: silent_def and_then_def e e')
qed

lemma silent_case:
  "silent jc r \<Longrightarrow> (\<And>s v. r = (s, [], v) \<Longrightarrow> jp_ctx s = jp_ctx jc \<Longrightarrow> silent jc (k s [] v)) \<Longrightarrow>
   silent jc (case r of (s, ev, v) \<Rightarrow> k s ev v)"
  by (cases r) (auto simp: silent_def)

lemma silent_from: "jp_ctx jc' = jp_ctx jc \<Longrightarrow> silent jc' r \<Longrightarrow> silent jc r"
  by (simp add: silent_def)

lemma silent_push: "silent jc (json_push E m jc)"
  unfolding json_push_def json_stack_grow_def by (intro silent_and_then silent_rules) simp_all

lemma silent_pop: "silent jc (json_pop m jc)"
  unfolding json_pop_def by (auto split: list.splits intro!: silent_rules)

lemma silent_pop_back: "silent jc (parse_buffer_pop_back_char jc)"
  unfolding parse_buffer_pop_back_char_def by (intro silent_and_then silent_rules) simp_all

lemma silent_push_back: "silent jc (parse_buffer_push_back_char c jc)"
  unfolding parse_buffer_push_back_char_def by (intro silent_and_then silent_rules) simp_all

lemma silent_decode: "silent jc (decode_unicode_char jc)"
  unfolding decode_unicode_char_def Let_def
  by (intro silent_and_then silent_rules) (auto split: option.splits intro!: silent_rules)

lemma silent_escaped: "silent jc (add_escaped_char_to_parse_buffer ch jc)"
  unfolding add_escaped_char_to_parse_buffer_def
  by (intro silent_and_then silent_rules silent_push_back silent_from [OF _ silent_pop_back]) simp_all

lemma silent_grow: "silent jc (parse_buffer_grow E jc)"
  unfolding parse_buffer_grow_def by (intro silent_and_then silent_rules) simp_all

lemma silent_reserve: "silent jc (parse_buffer_reserve_for E n jc)"
proof (induction E n jc rule: parse_buffer_reserve_for.induct)
  case (1 E n jc)
  obtain jc' ev v where g: "parse_buffer_grow E jc = (jc', ev, v)" by (cases "parse_buffer_grow E jc")
  with silent_grow [of jc E] have c: "jp_ctx jc' = jp_ctx jc" "ev = []" by (simp_all add: silent_def)
  show ?case
  proof (cases "jp_buf_capacity jc < length (jp_buf jc) + n + 1")
    case False
    then show ?thesis by (simp add: parse_buffer_reserve_for.simps [of E n jc] silent_rules)
  next
    case True
    show ?thesis
    proof (cases "v = Accept")
      case v: True
      have "silent jc' (parse_buffer_reserve_for E n jc')" by (rule 1 [OF True g [symmetric] refl v])
      then show ?thesis
        using True v g c(1) silent_from [of jc' jc] by (simp add: parse_buffer_reserve_for.simps [of E n jc])
    next
      case v: False
      have "silent jc' (and_then (check (v = Reject \<longrightarrow> jp_error jc' = JSON_E_OUT_OF_MEMORY) jc') (\<lambda>jc'. (jc', [], v)))"
        by (intro silent_and_then silent_rules) simp_all
      then show ?thesis
        using True v g c(1) silent_from [of jc' jc] by (simp add: parse_buffer_reserve_for.simps [of E n jc])
    qed
  qed
qed

lemma silent_add_char: "silent jc (add_char_to_parse_buffer E ch k jc)"
  unfolding add_char_to_parse_buffer_def
  by (intro silent_case [OF silent_reserve] silent_rules silent_and_then)
    (auto intro!: silent_rules silent_from [OF _ silent_push_back] silent_from [OF _ silent_case [OF silent_escaped]])

lemma follows_silent [follows]:
  "jp_ctx jc = c \<Longrightarrow> ctx_follows E c (json_push E' m jc)" "jp_ctx jc = c \<Longrightarrow> ctx_follows E c (json_pop m jc)"
  "jp_ctx jc = c \<Longrightarrow> ctx_follows E c (parse_buffer_pop_back_char jc)"
  "jp_ctx jc = c \<Longrightarrow> ctx_follows E c (add_char_to_parse_buffer E' ch k jc)"
  by (rule silent_follows; simp add: silent_push silent_pop silent_pop_back silent_add_char)+

lemma follows_peek [follows]:
  "jp_ctx jc = c \<Longrightarrow> (\<And>m. ctx_follows E c (k m)) \<Longrightarrow> ctx_follows E c (json_peek jc k)"
  by (auto simp: json_peek_def split: list.splits intro: follows)

lemma follows_go [follows]:
  "jp_ctx jc = c \<Longrightarrow> ctx_follows E c (json_go s jc)" "jp_ctx jc = c \<Longrightarrow> ctx_follows E c (json_type_go t s jc)"
  by (simp_all add: json_go_def json_type_go_def follows)

lemma follows_flush [follows]: "jp_ctx jc = c \<Longrightarrow> ctx_follows E c (parse_parse_buffer E jc)"
  unfolding parse_parse_buffer_def by (intro follows) simp_all

lemma follows_close [follows]: "jp_ctx jc = c \<Longrightarrow> ctx_follows E c (json_close m jc)"
proof -
  assume c: "jp_ctx jc = c"
  obtain jc' ev v where p: "json_pop m jc = (jc', ev, v)" by (cases "json_pop m jc")
  with silent_pop [of jc m] have "jp_ctx jc' = c" "ev = []" using c by (simp_all add: silent_def)
  then show ?thesis by (simp add: json_close_def p follows)
qed

lemma follows_action: "jp_ctx jc = c \<Longrightarrow> ctx_follows E c (json_action_step E a jc)"
proof (cases a)
  case JA_UC
  assume c: "jp_ctx jc = c"
  obtain jc' ev v where p: "decode_unicode_char jc = (jc', ev, v)" by (cases "decode_unicode_char jc")
  with silent_decode [of jc] have "jp_ctx jc' = c" "ev = []" using c by (simp_all add: silent_def)
  then show ?thesis by (simp add: JA_UC p follows)
qed (simp only: json_action_step.simps Let_def; intro follows; simp)+

lemma follows_char: "ctx_follows E (jp_ctx jc) (JSON_parser_char E jc ch)"
  unfolding JSON_parser_char_def Let_def
  by (auto split: option.splits json_cell.splits intro!: follows follows_action)

lemma follows_done: "jp_ctx (fst (JSON_parser_done jc)) = jp_ctx jc"
proof -
  obtain jc' ev v where p: "json_pop MODE_DONE jc = (jc', ev, v)" by (cases "json_pop MODE_DONE jc")
  with silent_pop [of jc MODE_DONE] have "jp_ctx jc' = jp_ctx jc" by (simp add: silent_def)
  then show ?thesis by (simp add: JSON_parser_done_def p accept_def refuse_def)
qed

lemma sint_ascii: "c < 0x80 \<Longrightarrow> sint (c :: byte) = uint c"
proof -
  assume "c < 0x80"
  then have "uint c < 128" by (simp add: word_less_def)
  then show ?thesis by (simp add: sint_uint signed_take_bit_eq_if_positive bit_iff_odd take_bit_int_eq_self)
qed

lemma json_string_loop_feed:
  assumes "je_callback E = Some cb"
  shows "\<forall>c\<in>set cs. c < 0x80 \<Longrightarrow> json_feed E jc cs = (jc', ev, v) \<Longrightarrow>
    json_string_loop E jc cs = (jc', v) \<and> jp_ctx jc' = foldl (\<lambda>c e. fst (cb c e)) (jp_ctx jc) ev"
proof (induction cs arbitrary: jc ev)
  case (Cons c cs)
  obtain jc1 ev1 v1 where s: "JSON_parser_char E jc (uint c) = (jc1, ev1, v1)"
    by (cases "JSON_parser_char E jc (uint c)")
  then have s': "json_char E jc c = (jc1, ev1, v1)" by (simp add: json_char_def)
  have x: "jp_ctx jc1 = foldl (\<lambda>c e. fst (cb c e)) (jp_ctx jc) ev1"
    using follows_char [of E jc "uint c"] assms by (simp add: ctx_follows_def s)
  have u: "sint c = uint c" using Cons.prems(1) sint_ascii by simp
  show ?case
  proof (cases "v1 = Accept")
    case True
    obtain ev2 where "json_feed E jc1 cs = (jc', ev2, v)" "ev = ev1 @ ev2"
      using Cons.prems(2) s' True by (auto split: prod.splits)
    with Cons.IH [of jc1 ev2] Cons.prems(1) s True u x show ?thesis by simp
  next
    case False
    with Cons.prems(2) s s' u x show ?thesis by auto
  qed
qed simp

lemma json_string_loop_refused:
  assumes "c \<ge> 0x80" "\<forall>c\<in>set cs. c < 0x80"
  shows "snd (json_string_loop E jc (cs @ c # ds)) \<noteq> Accept"
  using assms(2)
proof (induction cs arbitrary: jc)
  case Nil
  have "128 \<le> uint c" using assms(1) by (simp add: word_le_def)
  moreover have "int (unat c) < 256" using unat_byte [of c] by linarith
  then have "uint c < 256" by simp
  moreover from calculation have "uint c div 128 = 1" by presburger
  then have "bit (uint c) 7" by (simp add: bit_iff_odd)
  ultimately have "sint c < 0" by (simp add: sint_uint signed_take_bit_eq_take_bit_minus take_bit_int_eq_self)
  then show ?case by (simp add: JSON_parser_char_def refuse_def Let_def)
next
  case (Cons x cs)
  then show ?case by (auto split: prod.splits)
qed


section \<open>The tree of a document\<close>

text \<open>
  Items are allocated in the order of the events: the addresses of a tree are consecutive. The value
  of a member is stored in the item of its key.
\<close>

primrec jval_cells :: "jval \<Rightarrow> nat" and jelems_cells :: "jelems \<Rightarrow> nat" and jmembers_cells :: "jmembers \<Rightarrow> nat" where
  "jval_cells JNull = 1"
| "jval_cells JTrue = 1"
| "jval_cells JFalse = 1"
| "jval_cells (JNumber n) = 1"
| "jval_cells (JString is) = 1"
| "jval_cells (JArray w es) = Suc (jelems_cells es)"
| "jval_cells (JObject w ms) = Suc (jmembers_cells ms)"
| "jelems_cells JNoElem = 0"
| "jelems_cells (JElem w v w' es) = jval_cells v + jelems_cells es"
| "jmembers_cells JNoMember = 0"
| "jmembers_cells (JMember w k w1 w2 v w' ms) = jval_cells v + jmembers_cells ms"

definition jscalar :: "'f json_libm \<Rightarrow> byte list option \<Rightarrow> json_event \<Rightarrow> 'f json_item" where
  "jscalar L k e = (json_set_value L (fst e) (snd e) (json_set_key k (jitem_new L)))\<lparr>ji_type := Some (fst e)\<rparr>"

definition jcontainer :: "'f json_libm \<Rightarrow> byte list option \<Rightarrow> json_child_t \<Rightarrow> 'f json_item" where
  "jcontainer L k t = (json_set_key k (jitem_new L))\<lparr>ji_ctype := t\<rparr>"

primrec jval_tree :: "jval \<Rightarrow> 'f json_libm \<Rightarrow> byte list option \<Rightarrow> byte list \<Rightarrow> addr \<Rightarrow> 'f jtree"
  and jelems_tree :: "jelems \<Rightarrow> 'f json_libm \<Rightarrow> addr \<Rightarrow> 'f jtree list"
  and jmembers_tree :: "jmembers \<Rightarrow> 'f json_libm \<Rightarrow> addr \<Rightarrow> 'f jtree list" where
  "jval_tree JNull L k w' a = JT a (jscalar L k (JSON_T_NULL, JV_none)) []"
| "jval_tree JTrue L k w' a = JT a (jscalar L k (JSON_T_TRUE, JV_none)) []"
| "jval_tree JFalse L k w' a = JT a (jscalar L k (JSON_T_FALSE, JV_none)) []"
| "jval_tree (JNumber n) L k w' a = JT a (jscalar L k (hd (json_token (json_num_type n) (json_num_text n @ w')))) []"
| "jval_tree (JString is) L k w' a = JT a (jscalar L k (JSON_T_STRING, JV_str (jstring_value is))) []"
| "jval_tree (JArray w es) L k w' a = JT a (jcontainer L k JSON_C_T_ARR) (jelems_tree es L (Suc a))"
| "jval_tree (JObject w ms) L k w' a = JT a (jcontainer L k JSON_C_T_OBJ) (jmembers_tree ms L (Suc a))"
| "jelems_tree JNoElem L a = []"
| "jelems_tree (JElem w v w' es) L a = jval_tree v L None w' a # jelems_tree es L (a + jval_cells v)"
| "jmembers_tree JNoMember L a = []"
| "jmembers_tree (JMember w k w1 w2 v w' ms) L a =
     jval_tree v L (Some (jstring_value k)) w' a # jmembers_tree ms L (a + jval_cells v)"

lemma jaddrs_Cons: "jaddrs (t # ts) = jaddrs [t] @ jaddrs ts"
  by (cases t) simp

lemma upt_join: "[a..<a + m] @ [a + m..<a + (m + n)] = [a..<a + (m + n :: nat)]"
  using upt_add_eq_append [of a "a + m" n] by (simp add: add.assoc)

lemma jtree_addrs:
  "jaddrs [jval_tree v L k w' a] = [a..<a + jval_cells v]"
  "jaddrs (jelems_tree es L a) = [a..<a + jelems_cells es]"
  "jaddrs (jmembers_tree ms L a) = [a..<a + jmembers_cells ms]"
  by (induction v and es and ms arbitrary: k w' a and a and a rule: jval.induct jelems.induct jmembers.induct)
    (simp_all add: upt_conv_Cons jaddrs_Cons [of "jval_tree v L k w a" "jelems_tree es L b" for v L k w a es b]
      jaddrs_Cons [of "jval_tree v L k w a" "jmembers_tree ms L b" for v L k w a ms b] upt_join add.assoc)

lemma jval_tree_at: "jt_at (jval_tree v L k w' a) = a"
  by (cases v) simp_all

lemma jval_cells_pos: "0 < jval_cells v"
  by (cases v) simp_all


section \<open>The callback builds it\<close>

definition cb_run :: "'f json_libm \<Rightarrow> json_event list \<Rightarrow> 'f json_context \<Rightarrow> 'f json_context option" where
  "cb_run L es cx = foldl (\<lambda>c e. Option.bind c (\<lambda>cx. json_callback L cx e)) (Some cx) es"

lemma cb_run_None: "foldl (\<lambda>c e. Option.bind c (\<lambda>cx. json_callback L cx e)) None es = None"
  by (induction es) simp_all

lemma cb_run_simps [simp]:
  "cb_run L [] cx = Some cx" "cb_run L (e # es) cx = Option.bind (json_callback L cx e) (cb_run L es)"
  by (auto simp: cb_run_def cb_run_None split: Option.bind_splits)

lemma cb_run_append: "cb_run L (es @ fs) cx = Option.bind (cb_run L es cx) (cb_run L fs)"
  by (induction es arbitrary: cx) (auto split: Option.bind_splits)

text \<open>The item of the next key or value, made before its event.\<close>

definition cx_place :: "'f json_libm \<Rightarrow> 'f json_context \<Rightarrow> 'f json_context option" where
  "cx_place L cx = map_option (\<lambda>cx. cx\<lparr>cx_key_under := True\<rparr>) (cx_next L cx)"

definition value_start :: "json_event \<Rightarrow> bool" where
  "value_start e \<longleftrightarrow> fst e \<notin> {JSON_T_OBJECT_END, JSON_T_ARRAY_END, JSON_T_KEY, JSON_T_NONE}"

lemma cx_place_value:
  assumes "value_start e" "\<not> cx_key_under cx" "cx_current cx \<noteq> None" "cx_head cx \<noteq> None"
  shows "json_callback L cx e = Option.bind (cx_place L cx) (\<lambda>cx. json_callback L cx e)"
proof -
  obtain t v where e: "e = (t, v)" by (cases e)
  have c: "cx_value L t v cx = Option.bind (cx_place L cx) (cx_value L t v)" for t
    using assms(2) by (cases "cx_next L cx") (simp_all add: cx_place_def cx_value_def)
  have b: "cx_begin L t cx = Option.bind (cx_place L cx) (cx_begin L t)" for t
    using assms(2,3)
    by (auto simp: cx_begin_def cx_place_def cx_next_def cx_new_def init_json_item_new Let_def cx_write_def bind_map_option o_def
        option.map_comp split: prod.splits Option.bind_splits option.splits intro!: option.map_cong)
  have h: "cx_head cx' = cx_head cx" if "cx_place L cx = Some cx'" for cx'
    using that by (auto simp: cx_place_def cx_next_def cx_new_def cx_attach_def bind_eq_Some_conv Let_def
        split: prod.splits if_splits)
  show ?thesis
    using assms(1) e c b h by (cases "cx_place L cx") (auto simp: json_callback_def value_start_def split: json_type.splits)
qed

lemma cx_place_key:
  assumes "cx_head cx \<noteq> None"
  shows "json_callback L cx (JSON_T_KEY, JV_str k) =
    Option.bind (cx_place L cx) (cx_write (\<lambda>it. it\<lparr>ji_key := Some k\<rparr>))"
proof -
  have h: "cx_head cx' = cx_head cx" if "cx_next L cx = Some cx'" for cx'
    using that by (auto simp: cx_next_def cx_new_def cx_attach_def bind_eq_Some_conv Let_def
        split: prod.splits if_splits)
  show ?thesis
    using assms h by (cases "cx_next L cx")
      (auto simp: json_callback_def cx_key_def cx_place_def cx_write_def option.map_comp o_def intro!: option.map_cong)
qed


text \<open>
  Inside a container \<open>c\<close> with children \<open>ts\<close>: they are all the cells after \<open>c\<close>, and the next item
  is the first child, or follows the last one.
\<close>

definition cx_in :: "'f json_context \<Rightarrow> addr \<Rightarrow> 'f json_item \<Rightarrow> addr option \<Rightarrow> addr option \<Rightarrow> 'f jtree list \<Rightarrow> bool" where
  "cx_in cx c d f hp ts \<longleftrightarrow>
     (\<exists>it. ji_get (cx_heap cx) c = Some it \<and> ji_data it = d \<and> ji_father it = f \<and> ji_next it = None \<and>
        jrep (cx_heap cx) (Some c) (ji_child it) ts) \<and>
     jaddrs ts = [Suc c..<length (cx_heap cx)] \<and>
     cx_start_depth cx = (ts = []) \<and> \<not> cx_key_under cx \<and>
     cx_current cx = Some (if ts = [] then c else jt_at (last ts)) \<and> cx_head cx = hp \<and> hp \<noteq> None"

text \<open>At an item that waits for its value, and at one that has it.\<close>

definition cx_wait :: "'f json_context \<Rightarrow> addr \<Rightarrow> 'f json_item \<Rightarrow> addr option \<Rightarrow> addr option \<Rightarrow> bool" where
  "cx_wait cx a d f hp \<longleftrightarrow>
     (\<exists>it. ji_get (cx_heap cx) a = Some it \<and> ji_data it = d \<and> ji_father it = f \<and> ji_next it = None \<and>
        ji_child it = None) \<and> length (cx_heap cx) = Suc a \<and>
     \<not> cx_start_depth cx \<and> cx_key_under cx \<and> cx_current cx = Some a \<and> cx_head cx = hp \<and> hp \<noteq> None"

definition cx_have :: "'f json_context \<Rightarrow> 'f jtree \<Rightarrow> addr option \<Rightarrow> addr option \<Rightarrow> bool" where
  "cx_have cx t f hp \<longleftrightarrow>
     jrep (cx_heap cx) f (Some (jt_at t)) [t] \<and> jaddrs [t] = [jt_at t..<length (cx_heap cx)] \<and>
     \<not> cx_start_depth cx \<and> \<not> cx_key_under cx \<and> cx_current cx = Some (jt_at t) \<and> cx_head cx = hp \<and> hp \<noteq> None"

text \<open>The cells before an address are kept.\<close>

definition below :: "addr \<Rightarrow> 'f json_heap \<Rightarrow> 'f json_heap \<Rightarrow> bool" where
  "below a h h' \<longleftrightarrow> (\<forall>b<a. ji_get h' b = ji_get h b)"

lemma below_refl [simp]: "below a h h" by (simp add: below_def)

lemma below_trans: "below a h h' \<Longrightarrow> below a' h' h'' \<Longrightarrow> a \<le> a' \<Longrightarrow> below a h h''"
  by (simp add: below_def)

lemma cx_write_get:
  assumes "cx_current cx = Some a" "ji_get (cx_heap cx) a = Some it"
  shows "\<exists>cx'. cx_write f cx = Some cx' \<and> ji_get (cx_heap cx') = (ji_get (cx_heap cx))(a := Some (f it)) \<and>
    length (cx_heap cx') = length (cx_heap cx) \<and> cx_start_depth cx' = cx_start_depth cx \<and>
    cx_key_under cx' = cx_key_under cx \<and> cx_current cx' = Some a \<and> cx_head cx' = cx_head cx"
  using ji_upd_get [OF assms(2), of f] assms(1) by (auto simp: cx_write_def)

lemma jrep_father_last: "jrep h f p ts \<Longrightarrow> ts \<noteq> [] \<Longrightarrow> ji_father (the (ji_get h (jt_at (last ts)))) = f"
  by (induction ts arbitrary: p rule: jforest_induct) (auto split: if_splits)

text \<open>The next item of a container.\<close>

lemma cx_place_in:
  assumes "cx_in cx c d f hp ts"
  shows "\<exists>cx'. cx_place L cx = Some cx' \<and> cx_wait cx' (length (cx_heap cx)) (jitem_new L) (Some c) hp \<and>
    below c (cx_heap cx) (cx_heap cx') \<and>
    (\<exists>it. ji_get (cx_heap cx') c = Some it \<and> ji_data it = d \<and> ji_father it = f \<and> ji_next it = None \<and>
      jrep (cx_heap cx') (Some c) (ji_child it) (ts @ [JT (length (cx_heap cx)) (jitem_new L) []]))"
proof -
  let ?h = "cx_heap cx" and ?n = "length (cx_heap cx)"
  from assms obtain it where it: "ji_get ?h c = Some it" "ji_data it = d" "ji_father it = f" "ji_next it = None"
    "jrep ?h (Some c) (ji_child it) ts" and ad: "jaddrs ts = [Suc c..<?n]"
    and cx: "cx_start_depth cx = (ts = [])" "\<not> cx_key_under cx"
      "cx_current cx = Some (if ts = [] then c else jt_at (last ts))" "cx_head cx = hp" "hp \<noteq> None"
    by (auto simp: cx_in_def)
  have cn: "c < ?n" using it(1) by (auto simp: ji_get_def split: if_splits)
  obtain h0 where h0: "h0 = ?h @ [Some (jitem_new L)]" by simp
  have g0: "ji_get h0 = (ji_get ?h)(?n := Some (jitem_new L))" "length h0 = Suc ?n"
    by (simp_all add: h0 init_json_item_get)
  show ?thesis
  proof (cases "ts = []")
    case True
    have c0: "ji_get h0 c = Some it" using g0 it(1) cn by simp
    obtain h1 where h1: "ji_upd (Some c) (\<lambda>it. it\<lparr>ji_child := Some ?n\<rparr>) h0 = Some h1"
      "ji_get h1 = (ji_get h0)(c := Some (it\<lparr>ji_child := Some ?n\<rparr>))" "length h1 = length h0"
      using ji_upd_get [OF c0] by blast
    have n1: "ji_get h1 ?n = Some (jitem_new L)" using h1(2) g0 cn by simp
    obtain h2 where h2: "ji_upd (Some ?n) (\<lambda>it. it\<lparr>ji_father := Some c\<rparr>) h1 = Some h2"
      "ji_get h2 = (ji_get h1)(?n := Some ((jitem_new L)\<lparr>ji_father := Some c\<rparr>))" "length h2 = length h1"
      using ji_upd_get [OF n1] by blast
    have "cx_place L cx = Some (cx\<lparr>cx_heap := h2, cx_start_depth := False, cx_current := Some ?n, cx_key_under := True\<rparr>)"
      using True cx h1(1) h2(1) by (simp add: cx_place_def cx_next_def cx_new_def init_json_item_new h0 cx_attach_def)
    with True it cn cx g0 h1(2,3) h2(2,3) show ?thesis
      by (auto simp: cx_wait_def below_def ji_data_def jitem_new_def)
  next
    case False
    let ?l = "jt_at (last ts)"
    have l: "?l \<in> set (jaddrs ts)" using False by (simp add: jt_at_in)
    then have ln: "c < ?l" "?l < ?n" using ad by auto
    from l obtain li where li: "ji_get ?h ?l = Some li" using jrep_live [OF it(5)] by blast
    have lf: "ji_father li = Some c" using jrep_father_last [OF it(5) False] li by simp
    have n0: "ji_get h0 ?n = Some (jitem_new L)" "ji_get h0 ?l = Some li" using g0 li ln by simp_all
    obtain h1 where h1: "ji_upd (Some ?n) (\<lambda>it. it\<lparr>ji_father := Some c\<rparr>) h0 = Some h1"
      "ji_get h1 = (ji_get h0)(?n := Some ((jitem_new L)\<lparr>ji_father := Some c\<rparr>))" "length h1 = length h0"
      using ji_upd_get [OF n0(1)] by blast
    have l1: "ji_get h1 ?l = Some li" using h1(2) n0(2) ln by simp
    obtain h2 where h2: "ji_upd (Some ?l) (\<lambda>it. it\<lparr>ji_next := Some ?n\<rparr>) h1 = Some h2"
      "ji_get h2 = (ji_get h1)(?l := Some (li\<lparr>ji_next := Some ?n\<rparr>))" "length h2 = length h1"
      using ji_upd_get [OF l1] by blast
    have p: "cx_place L cx = Some (cx\<lparr>cx_heap := h2, cx_start_depth := False, cx_current := Some ?n, cx_key_under := True\<rparr>)"
      using False cx lf n0(2) h1(1) h2(1)
      by (simp add: cx_place_def cx_next_def cx_new_def init_json_item_new h0 [symmetric] cx_attach_def)
    have old: "ji_get h2 b = ji_get ?h b" if "b \<noteq> ?l" "b < ?n" for b using that h2(2) h1(2) g0 by simp
    have "jrep h2 (Some c) (Some ?n) [JT ?n (jitem_new L) []]"
      using h2(2) h1(2) ln by (simp add: ji_data_def jitem_new_def)
    then have "jrep h2 (Some c) (ji_child it) (ts @ [JT ?n (jitem_new L) []])"
      by (intro jrep_snoc [OF it(5) False _ li]) (use ad ln h2(2) old in auto)
    moreover have "ji_get h2 c = Some it" using old [of c] ln cn it(1) by simp
    moreover have "below c ?h h2" using old ln cn by (simp add: below_def)
    moreover have "ji_get h2 ?n = Some ((jitem_new L)\<lparr>ji_father := Some c\<rparr>)" using h2(2) h1(2) ln by simp
    ultimately show ?thesis
      using p it cx h1(3) h2(3) g0(2) by (auto simp: cx_wait_def ji_data_def jitem_new_def)
  qed
qed

text \<open>A child has got its value: the container is as before, with one more child.\<close>

lemma cx_in_child:
  assumes r: "jrep h (Some c) p (ts @ [JT n d0 []])" and c: "c < n" and ad: "jaddrs ts = [Suc c..<n]"
    and b: "below n h h'" and t: "jrep h' (Some c) (Some n) [t]" "jt_at t = n"
  shows "jrep h' (Some c) p (ts @ [t])"
proof -
  have "set (jaddrs ts) \<subseteq> {..<n}" using ad by auto
  with r show ?thesis
  proof (induction ts arbitrary: p rule: jforest_induct)
    case Nil
    with t show ?case by simp
  next
    case (Cons a d ks us)
    have "jrep h' f q ks = jrep h f q ks" for f q
      by (rule jrep_cong) (use Cons.prems(2) b in \<open>auto simp: below_def subset_iff\<close>)
    moreover have "ji_get h' a = ji_get h a" using Cons.prems(2) b by (simp add: below_def)
    ultimately show ?case using Cons by auto
  qed
qed


text \<open>One event each.\<close>

lemma json_callback_head:
  "cx_head cx = hp \<Longrightarrow> hp \<noteq> None \<Longrightarrow> r = Some cx' \<Longrightarrow> cx_head cx' = hp \<Longrightarrow>
   map_option (\<lambda>cx. if cx_head cx = None \<and> cx_current cx \<noteq> None then cx\<lparr>cx_head := cx_current cx\<rparr> else cx) r = Some cx'"
  by auto

definition scalar_type :: "json_type \<Rightarrow> bool" where
  "scalar_type t \<longleftrightarrow> t \<in> {JSON_T_INTEGER, JSON_T_FLOAT, JSON_T_NULL, JSON_T_TRUE, JSON_T_FALSE, JSON_T_STRING}"

lemma ji_data_set_value [simp]: "ji_data (json_set_value L t v it) = json_set_value L t v (ji_data it)"
  by (simp add: json_set_value_def ji_data_def split: json_value.splits)

lemma ji_data_type [simp]: "ji_data (it\<lparr>ji_type := t\<rparr>) = (ji_data it)\<lparr>ji_type := t\<rparr>"
  by (simp add: ji_data_def)

lemma ji_data_key: "ji_data (it\<lparr>ji_key := k\<rparr>) = (ji_data it)\<lparr>ji_key := k\<rparr>"
  by (simp add: ji_data_def)

lemma set_value_pointers [simp]:
  "ji_child (json_set_value L t v it) = ji_child it" "ji_next (json_set_value L t v it) = ji_next it"
  "ji_father (json_set_value L t v it) = ji_father it"
  by (simp_all add: json_set_value_def split: json_value.splits)

lemma cb_scalar:
  assumes w: "cx_wait cx a d f hp" and t: "scalar_type t"
  shows "\<exists>cx'. json_callback L cx (t, v) = Some cx' \<and>
    cx_have cx' (JT a ((json_set_value L t v d)\<lparr>ji_type := Some t\<rparr>) []) f hp \<and> below a (cx_heap cx) (cx_heap cx')"
proof -
  from w obtain it where it: "ji_get (cx_heap cx) a = Some it" "ji_data it = d" "ji_father it = f"
    "ji_next it = None" "ji_child it = None" and cx: "length (cx_heap cx) = Suc a" "\<not> cx_start_depth cx"
    "cx_key_under cx" "cx_current cx = Some a" "cx_head cx = hp" "hp \<noteq> None" by (auto simp: cx_wait_def)
  let ?cx = "cx\<lparr>cx_key_under := False\<rparr>"
  obtain cx1 where c1: "cx_write (json_set_value L t v) ?cx = Some cx1"
    "ji_get (cx_heap cx1) = (ji_get (cx_heap cx))(a := Some (json_set_value L t v it))"
    "length (cx_heap cx1) = Suc a" "\<not> cx_start_depth cx1" "\<not> cx_key_under cx1" "cx_current cx1 = Some a" "cx_head cx1 = hp"
    using cx_write_get [of ?cx a it "json_set_value L t v"] it(1) cx by auto
  obtain cx2 where c2: "cx_write (\<lambda>it. it\<lparr>ji_type := Some t\<rparr>) cx1 = Some cx2"
    "ji_get (cx_heap cx2) = (ji_get (cx_heap cx1))(a := Some ((json_set_value L t v it)\<lparr>ji_type := Some t\<rparr>))"
    "length (cx_heap cx2) = Suc a" "\<not> cx_start_depth cx2" "\<not> cx_key_under cx2" "cx_current cx2 = Some a" "cx_head cx2 = hp"
    using cx_write_get [of cx1 a "json_set_value L t v it" "\<lambda>it. it\<lparr>ji_type := Some t\<rparr>"] c1 by auto
  have "cx_value L t v cx = Some cx2" using cx(3) c1(1) c2(1) by (simp add: cx_value_def)
  then have "json_callback L cx (t, v) = Some cx2"
    unfolding json_callback_def fst_conv snd_conv
    by (intro json_callback_head [OF cx(5,6) _ c2(7)]) (use t in \<open>auto simp: scalar_type_def\<close>)
  moreover have "ji_data ((json_set_value L t v it)\<lparr>ji_type := Some t\<rparr>) = (json_set_value L t v d)\<lparr>ji_type := Some t\<rparr>"
    using it(2) by simp
  ultimately show ?thesis
    using it(3-5) c1(2) c2(2-7) cx(6) by (auto simp: cx_have_def below_def)
qed

lemma cb_begin:
  assumes w: "cx_wait cx a d f hp" and t: "(t, ct) \<in> {(JSON_T_OBJECT_BEGIN, JSON_C_T_OBJ), (JSON_T_ARRAY_BEGIN, JSON_C_T_ARR)}"
  shows "\<exists>cx'. json_callback L cx (t, v) = Some cx' \<and> cx_in cx' a (d\<lparr>ji_ctype := ct\<rparr>) f hp [] \<and>
    length (cx_heap cx') = Suc a \<and> below a (cx_heap cx) (cx_heap cx')"
proof -
  from w obtain it where it: "ji_get (cx_heap cx) a = Some it" "ji_data it = d" "ji_father it = f"
    "ji_next it = None" "ji_child it = None" and cx: "length (cx_heap cx) = Suc a" "\<not> cx_start_depth cx"
    "cx_key_under cx" "cx_current cx = Some a" "cx_head cx = hp" "hp \<noteq> None" by (auto simp: cx_wait_def)
  obtain cx1 where c1: "cx_write (\<lambda>it. it\<lparr>ji_ctype := ct\<rparr>) cx = Some cx1"
    "ji_get (cx_heap cx1) = (ji_get (cx_heap cx))(a := Some (it\<lparr>ji_ctype := ct\<rparr>))"
    "length (cx_heap cx1) = Suc a" "cx_current cx1 = Some a" "cx_head cx1 = hp"
    using cx_write_get [of cx a it "\<lambda>it. it\<lparr>ji_ctype := ct\<rparr>"] it(1) cx by auto
  let ?cx = "cx1\<lparr>cx_start_depth := True, cx_key_under := False\<rparr>"
  have "cx_begin L ct cx = Some ?cx" using cx(3) c1(1) by (simp add: cx_begin_def)
  then have "json_callback L cx (t, v) = Some ?cx"
    unfolding json_callback_def fst_conv snd_conv
    by (intro json_callback_head [OF cx(5,6)]) (use t c1(5) in auto)
  moreover have "ji_data (it\<lparr>ji_ctype := ct\<rparr>) = d\<lparr>ji_ctype := ct\<rparr>" using it(2) by (auto simp: ji_data_def)
  ultimately show ?thesis
    using it(3-5) c1(2-5) cx(6) by (auto simp: cx_in_def below_def)
qed

lemma cb_end:
  assumes c: "cx_in cx c d f hp ts" and t: "t = JSON_T_OBJECT_END \<or> t = JSON_T_ARRAY_END"
  shows "\<exists>cx'. json_callback L cx (t, v) = Some cx' \<and> cx_have cx' (JT c d ts) f hp \<and> cx_heap cx' = cx_heap cx"
proof -
  let ?h = "cx_heap cx"
  from c obtain it where it: "ji_get ?h c = Some it" "ji_data it = d" "ji_father it = f" "ji_next it = None"
    "jrep ?h (Some c) (ji_child it) ts" and ad: "jaddrs ts = [Suc c..<length ?h]"
    and cx: "cx_start_depth cx = (ts = [])" "\<not> cx_key_under cx"
      "cx_current cx = Some (if ts = [] then c else jt_at (last ts))" "cx_head cx = hp" "hp \<noteq> None"
    by (auto simp: cx_in_def)
  have cn: "c < length ?h" using it(1) by (auto simp: ji_get_def split: if_splits)
  let ?cx = "cx\<lparr>cx_current := Some c, cx_start_depth := False, cx_key_under := False\<rparr>"
  have "cx_end cx = Some ?cx"
  proof (cases "ts = []")
    case True
    with cx it(1) show ?thesis by (simp add: cx_end_def)
  next
    case False
    then have "jt_at (last ts) \<in> set (jaddrs ts)" by (simp add: jt_at_in)
    then obtain li where "ji_get ?h (jt_at (last ts)) = Some li" using jrep_live [OF it(5)] by blast
    with jrep_father_last [OF it(5) False] False cx show ?thesis by (simp add: cx_end_def)
  qed
  then have "json_callback L cx (t, v) = Some ?cx"
    unfolding json_callback_def fst_conv snd_conv
    by (intro json_callback_head [OF cx(4,5)]) (use t cx(4) in auto)
  then show ?thesis
    using it ad cx cn by (auto simp: cx_have_def upt_conv_Cons)
qed

lemma json_num_type_cases: "json_num_type n = JSON_T_INTEGER \<or> json_num_type n = JSON_T_FLOAT"
  by (cases n) simp

lemma jval_events_start: "\<exists>e es. jval_events v w' = e # es \<and> value_start e"
proof (cases v)
  case (JNumber n)
  then show ?thesis using json_num_type_cases [of n] by (auto simp: value_start_def json_token_def)
qed (auto simp: value_start_def)

text \<open>A value of an array, or behind a key.\<close>

lemma cb_child:
  assumes c: "cx_in cx c d f hp ts" and p: "cx_place L cx = Some cx1"
    and r: "jrep (cx_heap cx1) (Some c) p (ts @ [JT (length (cx_heap cx)) (jitem_new L) []])"
    and it: "ji_get (cx_heap cx1) c = Some it" "ji_data it = d" "ji_father it = f" "ji_next it = None" "ji_child it = p"
    and b1: "below c (cx_heap cx) (cx_heap cx1)"
    and h: "cx_have cx2 t (Some c) hp" "jt_at t = length (cx_heap cx)"
    and b2: "below (length (cx_heap cx)) (cx_heap cx1) (cx_heap cx2)"
  shows "cx_in cx2 c d f hp (ts @ [t])"
    and "below c (cx_heap cx) (cx_heap cx2)"
proof -
  let ?n = "length (cx_heap cx)"
  have ad: "jaddrs ts = [Suc c..<?n]" using c by (simp add: cx_in_def)
  have cn: "c < ?n" using c by (auto simp: cx_in_def ji_get_def split: if_splits)
  have t: "jrep (cx_heap cx2) (Some c) (Some ?n) [t]" "jaddrs [t] = [?n..<length (cx_heap cx2)]"
    "\<not> cx_start_depth cx2" "\<not> cx_key_under cx2" "cx_current cx2 = Some ?n" "cx_head cx2 = hp" "hp \<noteq> None"
    using h by (auto simp: cx_have_def)
  have "jrep (cx_heap cx2) (Some c) p (ts @ [t])" by (rule cx_in_child [OF r cn ad b2 t(1) h(2)])
  moreover have "ji_get (cx_heap cx2) c = Some it" using b2 cn it(1) by (simp add: below_def)
  moreover have "?n < length (cx_heap cx2)"
  proof -
    have "jaddrs [t] \<noteq> []" by (cases t) simp
    with t(2) show ?thesis by (auto simp: upt_eq_Nil_conv)
  qed
  then have "jaddrs (ts @ [t]) = [Suc c..<length (cx_heap cx2)]"
    using ad t(2) cn upt_add_eq_append [of "Suc c" ?n "length (cx_heap cx2) - ?n"] by (simp add: jaddrs_append)
  ultimately show "cx_in cx2 c d f hp (ts @ [t])"
    using it t h(2) by (auto simp: cx_in_def)
  show "below c (cx_heap cx) (cx_heap cx2)" using below_trans [OF b1 b2] cn by simp
qed

lemma upt_end: "[a..<b] = [a..<c] \<Longrightarrow> a < b \<Longrightarrow> c = (b :: nat)"
  by (drule arg_cong [where f = length]) simp

lemma json_set_key_None [simp]: "json_set_key None it = it"
  by (simp add: json_set_key_def)

lemma cb_document:
  "cx_wait cx a (json_set_key k (jitem_new L)) f hp \<Longrightarrow>
    \<exists>cx'. cb_run L (jval_events v w') cx = Some cx' \<and> cx_have cx' (jval_tree v L k w' a) f hp \<and>
      below a (cx_heap cx) (cx_heap cx')"
  "cx_in cx c d f hp ts \<Longrightarrow>
    \<exists>cx'. cb_run L (jelems_events es) cx = Some cx' \<and>
      cx_in cx' c d f hp (ts @ jelems_tree es L (length (cx_heap cx))) \<and> below c (cx_heap cx) (cx_heap cx')"
  "cx_in cx c d f hp ts \<Longrightarrow>
    \<exists>cx'. cb_run L (jmembers_events ms) cx = Some cx' \<and>
      cx_in cx' c d f hp (ts @ jmembers_tree ms L (length (cx_heap cx))) \<and> below c (cx_heap cx) (cx_heap cx')"
proof (induction v and es and ms arbitrary: cx a k w' f and cx c d f ts and cx c d f ts
    rule: jval.induct jelems.induct jmembers.induct)
  case JNull
  from cb_scalar [OF this, of JSON_T_NULL L JV_none] show ?case by (auto simp: scalar_type_def jscalar_def)
next
  case JTrue
  from cb_scalar [OF this, of JSON_T_TRUE L JV_none] show ?case by (auto simp: scalar_type_def jscalar_def)
next
  case JFalse
  from cb_scalar [OF this, of JSON_T_FALSE L JV_none] show ?case by (auto simp: scalar_type_def jscalar_def)
next
  case (JNumber n)
  obtain t v where e: "json_token (json_num_type n) (json_num_text n @ w') = [(t, v)]" "scalar_type t"
    using json_num_type_cases [of n] by (auto simp: json_token_def scalar_type_def)
  from cb_scalar [OF JNumber e(2), of L v] show ?case by (auto simp: e(1) jscalar_def)
next
  case (JString items)
  from cb_scalar [OF this, of JSON_T_STRING L "JV_str (jstring_value items)"] show ?case
    by (auto simp: scalar_type_def jscalar_def)
next
  case (JArray w es)
  obtain cx1 where c1: "json_callback L cx (JSON_T_ARRAY_BEGIN, JV_none) = Some cx1"
    "cx_in cx1 a (jcontainer L k JSON_C_T_ARR) f hp []" "length (cx_heap cx1) = Suc a"
    "below a (cx_heap cx) (cx_heap cx1)"
    using cb_begin [OF JArray.prems, of JSON_T_ARRAY_BEGIN JSON_C_T_ARR L JV_none] by (auto simp: jcontainer_def)
  obtain cx2 where c2: "cb_run L (jelems_events es) cx1 = Some cx2"
    "cx_in cx2 a (jcontainer L k JSON_C_T_ARR) f hp (jelems_tree es L (Suc a))" "below a (cx_heap cx1) (cx_heap cx2)"
    using JArray.IH [OF c1(2)] c1(3) by auto
  obtain cx3 where c3: "json_callback L cx2 (JSON_T_ARRAY_END, JV_none) = Some cx3"
    "cx_have cx3 (JT a (jcontainer L k JSON_C_T_ARR) (jelems_tree es L (Suc a))) f hp" "cx_heap cx3 = cx_heap cx2"
    using cb_end [OF c2(2), of JSON_T_ARRAY_END L JV_none] by auto
  show ?case using c1 c2 c3 below_trans [OF c1(4) c2(3)] by (simp add: cb_run_append)
next
  case (JObject w ms)
  obtain cx1 where c1: "json_callback L cx (JSON_T_OBJECT_BEGIN, JV_none) = Some cx1"
    "cx_in cx1 a (jcontainer L k JSON_C_T_OBJ) f hp []" "length (cx_heap cx1) = Suc a"
    "below a (cx_heap cx) (cx_heap cx1)"
    using cb_begin [OF JObject.prems, of JSON_T_OBJECT_BEGIN JSON_C_T_OBJ L JV_none] by (auto simp: jcontainer_def)
  obtain cx2 where c2: "cb_run L (jmembers_events ms) cx1 = Some cx2"
    "cx_in cx2 a (jcontainer L k JSON_C_T_OBJ) f hp (jmembers_tree ms L (Suc a))" "below a (cx_heap cx1) (cx_heap cx2)"
    using JObject.IH [OF c1(2)] c1(3) by auto
  obtain cx3 where c3: "json_callback L cx2 (JSON_T_OBJECT_END, JV_none) = Some cx3"
    "cx_have cx3 (JT a (jcontainer L k JSON_C_T_OBJ) (jmembers_tree ms L (Suc a))) f hp" "cx_heap cx3 = cx_heap cx2"
    using cb_end [OF c2(2), of JSON_T_OBJECT_END L JV_none] by auto
  show ?case using c1 c2 c3 below_trans [OF c1(4) c2(3)] by (simp add: cb_run_append)
next
  case JNoElem
  then show ?case by simp
next
  case (JElem w v w' es)
  let ?n = "length (cx_heap cx)" let ?t = "jval_tree v L None w' ?n"
  note cx = JElem.prems
  obtain cx1 it where p: "cx_place L cx = Some cx1" "cx_wait cx1 ?n (jitem_new L) (Some c) hp"
    "below c (cx_heap cx) (cx_heap cx1)"
    "ji_get (cx_heap cx1) c = Some it" "ji_data it = d" "ji_father it = f" "ji_next it = None"
    "jrep (cx_heap cx1) (Some c) (ji_child it) (ts @ [JT ?n (jitem_new L) []])"
    using cx_place_in [OF cx, of L] by blast
  obtain e es' where ev: "jval_events v w' = e # es'" "value_start e" using jval_events_start [of v w'] by blast
  have "cb_run L (jval_events v w') cx = cb_run L (jval_events v w') cx1"
    using cx_place_value [OF ev(2), of cx L] cx p(1) by (simp add: ev(1) cx_in_def)
  moreover have "cx_wait cx1 ?n (json_set_key None (jitem_new L)) (Some c) hp" using p(2) by simp
  ultimately obtain cx2 where c2: "cb_run L (jval_events v w') cx = Some cx2" "cx_have cx2 ?t (Some c) hp"
    "below ?n (cx_heap cx1) (cx_heap cx2)"
    using JElem.IH(1) [of cx1 ?n None "Some c" w'] by auto
  note ch = cb_child [OF cx p(1) p(8) p(4-7) refl p(3) c2(2) jval_tree_at c2(3)]
  have len: "length (cx_heap cx2) = ?n + jval_cells v"
    using c2(2) jtree_addrs(1) [of v L None w' ?n] jval_cells_pos [of v]
      upt_end [of ?n "?n + jval_cells v" "length (cx_heap cx2)"] by (simp add: cx_have_def jval_tree_at)
  obtain cx3 where c3: "cb_run L (jelems_events es) cx2 = Some cx3"
    "cx_in cx3 c d f hp ((ts @ [?t]) @ jelems_tree es L (length (cx_heap cx2)))" "below c (cx_heap cx2) (cx_heap cx3)"
    using JElem.IH(2) [OF ch(1)] by blast
  show ?case using c2(1) c3 len below_trans [OF ch(2) c3(3)] by (simp add: cb_run_append)
next
  case JNoMember
  then show ?case by simp
next
  case (JMember w k w1 w2 v w' ms)
  let ?n = "length (cx_heap cx)" let ?k = "Some (jstring_value k)" let ?t = "jval_tree v L ?k w' ?n"
  note cx = JMember.prems
  obtain cx1 it where p: "cx_place L cx = Some cx1" "cx_wait cx1 ?n (jitem_new L) (Some c) hp"
    "below c (cx_heap cx) (cx_heap cx1)"
    "ji_get (cx_heap cx1) c = Some it" "ji_data it = d" "ji_father it = f" "ji_next it = None"
    "jrep (cx_heap cx1) (Some c) (ji_child it) (ts @ [JT ?n (jitem_new L) []])"
    using cx_place_in [OF cx, of L] by blast
  have cn: "c < ?n" using cx by (auto simp: cx_in_def ji_get_def split: if_splits)
  from p(2) obtain ni where ni: "ji_get (cx_heap cx1) ?n = Some ni" "ji_data ni = jitem_new L" "ji_father ni = Some c"
    "ji_next ni = None" "ji_child ni = None" "cx_current cx1 = Some ?n" by (auto simp: cx_wait_def)
  obtain cxk where ck: "cx_write (\<lambda>it. it\<lparr>ji_key := ?k\<rparr>) cx1 = Some cxk"
    "ji_get (cx_heap cxk) = (ji_get (cx_heap cx1))(?n := Some (ni\<lparr>ji_key := ?k\<rparr>))"
    "length (cx_heap cxk) = length (cx_heap cx1)" "cx_start_depth cxk = cx_start_depth cx1"
    "cx_key_under cxk = cx_key_under cx1" "cx_current cxk = Some ?n" "cx_head cxk = cx_head cx1"
    using cx_write_get [OF ni(6,1), of "\<lambda>it. it\<lparr>ji_key := ?k\<rparr>"] by blast
  have key: "json_callback L cx (JSON_T_KEY, JV_str (jstring_value k)) = Some cxk"
    using cx_place_key [of cx L "jstring_value k"] cx p(1) ck(1) by (simp add: cx_in_def)
  have bk: "below ?n (cx_heap cx1) (cx_heap cxk)" using ck(2) by (simp add: below_def)
  have "ji_data (ni\<lparr>ji_key := ?k\<rparr>) = json_set_key ?k (jitem_new L)"
    using ni(2) by (simp add: ji_data_key json_set_key_def)
  then have "cx_wait cxk ?n (json_set_key ?k (jitem_new L)) (Some c) hp"
    using p(2) ni ck by (auto simp: cx_wait_def)
  then obtain cx2 where c2: "cb_run L (jval_events v w') cxk = Some cx2" "cx_have cx2 ?t (Some c) hp"
    "below ?n (cx_heap cxk) (cx_heap cx2)"
    using JMember.IH(1) [of cxk ?n ?k "Some c" w'] by auto
  note ch = cb_child [OF cx p(1) p(8) p(4-7) refl p(3) c2(2) jval_tree_at below_trans [OF bk c2(3) le_refl]]
  have len: "length (cx_heap cx2) = ?n + jval_cells v"
    using c2(2) jtree_addrs(1) [of v L ?k w' ?n] jval_cells_pos [of v]
      upt_end [of ?n "?n + jval_cells v" "length (cx_heap cx2)"] by (simp add: cx_have_def jval_tree_at)
  obtain cx3 where c3: "cb_run L (jmembers_events ms) cx2 = Some cx3"
    "cx_in cx3 c d f hp ((ts @ [?t]) @ jmembers_tree ms L (length (cx_heap cx2)))" "below c (cx_heap cx2) (cx_heap cx3)"
    using JMember.IH(2) [OF ch(1)] by blast
  show ?case using key c2(1) c3 len below_trans [OF ch(2) c3(3)] by (simp add: cb_run_append)
qed


text \<open>The root: the first event makes an item that is not linked to any other.\<close>

definition cx_start :: "'f json_heap \<Rightarrow> 'f json_context" where
  "cx_start h = \<lparr>cx_key_under = False, cx_start_depth = False, cx_head = None, cx_current = None, cx_heap = h\<rparr>"

lemma cb_root:
  assumes t: "(t, ct) \<in> {(JSON_T_OBJECT_BEGIN, JSON_C_T_OBJ), (JSON_T_ARRAY_BEGIN, JSON_C_T_ARR)}"
  shows "\<exists>cx. json_callback L (cx_start h) (t, v) = Some cx \<and>
    cx_in cx (length h) (jcontainer L None ct) None (Some (length h)) [] \<and>
    length (cx_heap cx) = Suc (length h) \<and> below (length h) h (cx_heap cx)"
proof -
  let ?h = "h @ [Some (jitem_new L)]" and ?n = "length h"
  have "ji_get ?h ?n = Some (jitem_new L)" by (simp add: init_json_item_get)
  from ji_upd_get [OF this, of "\<lambda>it. it\<lparr>ji_ctype := ct\<rparr>"] obtain h' where
    h': "ji_upd (Some ?n) (\<lambda>it. it\<lparr>ji_ctype := ct\<rparr>) ?h = Some h'"
    "ji_get h' = (ji_get ?h)(?n := Some ((jitem_new L)\<lparr>ji_ctype := ct\<rparr>))" "length h' = length ?h" by blast
  have "json_callback L (cx_start h) (t, v) =
      Some \<lparr>cx_key_under = False, cx_start_depth = True, cx_head = Some ?n, cx_current = Some ?n, cx_heap = h'\<rparr>"
    using t h'(1) by (auto simp: json_callback_def cx_begin_def cx_start_def cx_new_def init_json_item_new cx_write_def)
  with h'(2,3) show ?thesis
    by (simp add: cx_in_def below_def init_json_item_get jcontainer_def ji_data_def jitem_new_def)
qed

lemma cb_text:
  assumes "v = JArray w es \<or> v = JObject w ms"
  shows "\<exists>cx. cb_run L (jval_events v w') (cx_start h) = Some cx \<and>
    cx_have cx (jval_tree v L None w' (length h)) None (Some (length h)) \<and> below (length h) h (cx_heap cx)"
  using assms
proof
  assume v: "v = JArray w es"
  obtain cx1 where c1: "json_callback L (cx_start h) (JSON_T_ARRAY_BEGIN, JV_none) = Some cx1"
    "cx_in cx1 (length h) (jcontainer L None JSON_C_T_ARR) None (Some (length h)) []"
    "length (cx_heap cx1) = Suc (length h)" "below (length h) h (cx_heap cx1)"
    using cb_root [of JSON_T_ARRAY_BEGIN JSON_C_T_ARR L h JV_none] by auto
  obtain cx2 where c2: "cb_run L (jelems_events es) cx1 = Some cx2"
    "cx_in cx2 (length h) (jcontainer L None JSON_C_T_ARR) None (Some (length h)) (jelems_tree es L (Suc (length h)))"
    "below (length h) (cx_heap cx1) (cx_heap cx2)"
    using cb_document(2) [OF c1(2), of L es] c1(3) by auto
  obtain cx3 where c3: "json_callback L cx2 (JSON_T_ARRAY_END, JV_none) = Some cx3"
    "cx_have cx3 (JT (length h) (jcontainer L None JSON_C_T_ARR) (jelems_tree es L (Suc (length h)))) None (Some (length h))"
    "cx_heap cx3 = cx_heap cx2"
    using cb_end [OF c2(2), of JSON_T_ARRAY_END L JV_none] by auto
  show ?thesis using c1 c2 c3 below_trans [OF c1(4) c2(3)] by (simp add: v cb_run_append)
next
  assume v: "v = JObject w ms"
  obtain cx1 where c1: "json_callback L (cx_start h) (JSON_T_OBJECT_BEGIN, JV_none) = Some cx1"
    "cx_in cx1 (length h) (jcontainer L None JSON_C_T_OBJ) None (Some (length h)) []"
    "length (cx_heap cx1) = Suc (length h)" "below (length h) h (cx_heap cx1)"
    using cb_root [of JSON_T_OBJECT_BEGIN JSON_C_T_OBJ L h JV_none] by auto
  obtain cx2 where c2: "cb_run L (jmembers_events ms) cx1 = Some cx2"
    "cx_in cx2 (length h) (jcontainer L None JSON_C_T_OBJ) None (Some (length h)) (jmembers_tree ms L (Suc (length h)))"
    "below (length h) (cx_heap cx1) (cx_heap cx2)"
    using cb_document(3) [OF c1(2), of L ms] c1(3) by auto
  obtain cx3 where c3: "json_callback L cx2 (JSON_T_OBJECT_END, JV_none) = Some cx3"
    "cx_have cx3 (JT (length h) (jcontainer L None JSON_C_T_OBJ) (jmembers_tree ms L (Suc (length h)))) None (Some (length h))"
    "cx_heap cx3 = cx_heap cx2"
    using cb_end [OF c2(2), of JSON_T_OBJECT_END L JV_none] by auto
  show ?thesis using c1 c2 c3 below_trans [OF c1(4) c2(3)] by (simp add: v cb_run_append)
qed

text \<open>The callback never writes \<open>head\<close>.\<close>

definition headless :: "nat \<Rightarrow> 'f json_heap \<Rightarrow> bool" where
  "headless n h \<longleftrightarrow> (\<forall>a it. n \<le> a \<longrightarrow> ji_get h a = Some it \<longrightarrow> ji_head it = None)"

lemma headless_upd: "ji_upd p f h = Some h' \<Longrightarrow> (\<And>it. ji_head (f it) = ji_head it) \<Longrightarrow> headless n h \<Longrightarrow> headless n h'"
  by (auto simp: headless_def ji_upd_def ji_get_def nth_list_update split: option.splits if_splits)

lemma headless_new: "headless n h \<Longrightarrow> headless n (h @ [Some (jitem_new L)])"
  by (auto simp: headless_def init_json_item_get jitem_new_def)

lemma headless_write: "cx_write f cx = Some cx' \<Longrightarrow> (\<And>it. ji_head (f it) = ji_head it) \<Longrightarrow>
    headless n (cx_heap cx) \<Longrightarrow> headless n (cx_heap cx')"
  by (auto simp: cx_write_def intro: headless_upd)

lemma headless_attach: "cx_attach a cx = Some cx' \<Longrightarrow> headless n (cx_heap cx) \<Longrightarrow> headless n (cx_heap cx')"
  by (auto simp: cx_attach_def bind_eq_Some_conv split: if_splits elim!: headless_upd)

lemma headless_next: "cx_next L cx = Some cx' \<Longrightarrow> headless n (cx_heap cx) \<Longrightarrow> headless n (cx_heap cx')"
  by (auto simp: cx_next_def cx_new_def init_json_item_new bind_eq_Some_conv dest!: headless_attach intro: headless_new)

lemma headless_begin: "cx_begin L t cx = Some cx' \<Longrightarrow> headless n (cx_heap cx) \<Longrightarrow> headless n (cx_heap cx')"
  by (auto simp: cx_begin_def cx_new_def init_json_item_new bind_eq_Some_conv split: if_splits
      dest!: headless_write [where n = n] headless_attach [where n = n] intro: headless_new)

lemma headless_set_value: "ji_head (json_set_value L t v it) = ji_head it"
  by (simp add: json_set_value_def split: json_value.splits)

lemma headless_value: "cx_value L t v cx = Some cx' \<Longrightarrow> headless n (cx_heap cx) \<Longrightarrow> headless n (cx_heap cx')"
  by (auto simp: cx_value_def bind_eq_Some_conv headless_set_value split: if_splits
      dest!: headless_write [where n = n] headless_next [where n = n])

lemma headless_key: "cx_key L k cx = Some cx' \<Longrightarrow> headless n (cx_heap cx) \<Longrightarrow> headless n (cx_heap cx')"
  by (auto simp: cx_key_def bind_eq_Some_conv dest!: headless_write [where n = n] headless_next [where n = n])

lemma headless_end: "cx_end cx = Some cx' \<Longrightarrow> cx_heap cx' = cx_heap cx"
  by (auto simp: cx_end_def bind_eq_Some_conv)

lemma headless_callback:
  assumes "json_callback L cx e = Some cx'" "headless n (cx_heap cx)"
  shows "headless n (cx_heap cx')"
proof -
  obtain cx1 where "cx_heap cx' = cx_heap cx1" and
    "(case fst e of
          JSON_T_OBJECT_BEGIN \<Rightarrow> cx_begin L JSON_C_T_OBJ cx
        | JSON_T_ARRAY_BEGIN \<Rightarrow> cx_begin L JSON_C_T_ARR cx
        | JSON_T_OBJECT_END \<Rightarrow> cx_end cx
        | JSON_T_ARRAY_END \<Rightarrow> cx_end cx
        | JSON_T_KEY \<Rightarrow> (case snd e of JV_str k \<Rightarrow> cx_key L k cx | _ \<Rightarrow> None)
        | JSON_T_NONE \<Rightarrow> Some cx
        | t \<Rightarrow> cx_value L t (snd e) cx) = Some cx1"
    using assms(1) by (auto simp: json_callback_def split: if_splits)
  with assms(2) show ?thesis
    by (auto split: json_type.splits json_value.splits
        dest: headless_begin headless_value headless_key headless_end)
qed

lemma headless_run: "cb_run L es cx = Some cx' \<Longrightarrow> headless n (cx_heap cx) \<Longrightarrow> headless n (cx_heap cx')"
  by (induction es arbitrary: cx) (auto simp: bind_eq_Some_conv dest: headless_callback)


section \<open>Parsing a string\<close>

lemma json_tree_env_ok: "(\<forall>why n. alloc why n) \<Longrightarrow> json_env_ok (json_tree_env L alloc dp)"
  by (simp add: json_env_ok_def json_tree_env_def json_tree_callback_def)

lemma json_tree_new:
  assumes "\<forall>why n. alloc why n"
  shows "\<exists>jc. new_JSON_parser (json_tree_env L alloc dp) (Some json_tree_config) x = Some jc \<and>
    jp_ctx jc = x \<and> \<not> jp_handle_floats_manually jc"
  using assms
  by (auto simp: new_JSON_parser_def json_tree_env_def json_tree_config_def Let_def JSON_PARSER_STACK_SIZE_def
      json_push_def json_top_def json_stack_room_def accept_def init_JSON_config_def)

lemma json_tree_fold:
  "foldl (\<lambda>c e. fst (json_tree_callback L c e)) (Some cx) es = cb_run L es cx"
  by (simp add: cb_run_def json_tree_callback_def)

lemma init_json_parser_start:
  "init_json_parser L alloc dp s h =
     Option.bind (new_JSON_parser (json_tree_env L alloc dp) (Some json_tree_config) (Some (cx_start h))) (\<lambda>jc.
       let (jc, v) = json_string_loop (json_tree_env L alloc dp) jc s;
           (jc, v) = (if v = Accept then (case JSON_parser_done jc of (jc, ev, v) \<Rightarrow> (jc, v)) else (jc, v))
       in Option.bind (jp_ctx jc) (\<lambda>cx.
          if v = Abort then None
          else if v = Accept then Some (cx_head cx, cx_heap cx)
          else map_option (\<lambda>h. (None, h)) (free_json_item (cx_head cx) (cx_heap cx))))"
  unfolding init_json_parser_def cx_start_def Let_def ..

lemma init_json_parser_document:
  assumes al: "\<forall>why n. alloc why n" and v: "v = JArray w es \<or> v = JObject w ms" "jval_ok v" "jval_depth v \<le> 15"
    and ws: "json_ws w0" "json_ws w1" and ascii: "\<forall>c\<in>set (w0 @ jval_text v @ w1). c < 0x80"
  shows "\<exists>h'. init_json_parser L alloc 46 (w0 @ jval_text v @ w1) h = Some (Some (length h), h') \<and>
    jrep h' None (Some (length h)) [jval_tree v L None w1 (length h)] \<and>
    jaddrs [jval_tree v L None w1 (length h)] = [length h..<length h'] \<and> below (length h) h h'"
proof -
  let ?E = "json_tree_env L alloc 46" and ?s = "w0 @ jval_text v @ w1" and ?t = "jval_tree v L None w1 (length h)"
  obtain jc where jc: "new_JSON_parser ?E (Some json_tree_config) (Some (cx_start h)) = Some jc"
    "jp_ctx jc = Some (cx_start h)" "\<not> jp_handle_floats_manually jc"
    using json_tree_new [OF al] by blast
  have d: "json_depth (Some json_tree_config) = 15" by (simp add: json_depth_def json_tree_config_def)
  obtain jc1 where f: "json_feed ?E jc ?s = (jc1, jval_events v w1, Accept)" "snd (snd (JSON_parser_done jc1)) = Accept"
    using json_document_read [OF json_tree_env_ok [OF al] _ jc(1) _ _ jc(3) v(1,2) _ ws] v(3)
    by (auto simp: d) (auto simp: json_tree_env_def)
  have cb: "je_callback ?E = Some (json_tree_callback L)" by (simp add: json_tree_env_def)
  have l: "json_string_loop ?E jc ?s = (jc1, Accept)"
    and c: "jp_ctx jc1 = foldl (\<lambda>c e. fst (json_tree_callback L c e)) (jp_ctx jc) (jval_events v w1)"
    using json_string_loop_feed [OF cb ascii f(1)] by simp_all
  obtain cx where cx: "cb_run L (jval_events v w1) (cx_start h) = Some cx"
    "cx_have cx ?t None (Some (length h))" "below (length h) h (cx_heap cx)"
    using cb_text [OF v(1)] by blast
  have c1: "jp_ctx jc1 = Some cx" using c cx(1) by (simp add: jc(2) json_tree_fold)
  obtain jc2 ev v2 where dn: "JSON_parser_done jc1 = (jc2, ev, v2)" by (cases "JSON_parser_done jc1")
  with f(2) follows_done [of jc1] c1 have "v2 = Accept" "jp_ctx jc2 = Some cx" by simp_all
  then have "init_json_parser L alloc 46 ?s h = Some (cx_head cx, cx_heap cx)"
    by (simp add: init_json_parser_start jc(1) l dn)
  with cx(2,3) show ?thesis by (auto simp: cx_have_def jval_tree_at)
qed

text \<open>Whatever the text is: the context is the fold of the callback over some events.\<close>

lemma json_string_loop_ctx:
  assumes "je_callback E = Some cb"
  shows "\<exists>ev. jp_ctx (fst (json_string_loop E jc cs)) = foldl (\<lambda>c e. fst (cb c e)) (jp_ctx jc) ev"
proof (induction cs arbitrary: jc)
  case Nil
  show ?case by (rule exI [of _ "[]"]) simp
next
  case (Cons c cs)
  obtain jc1 ev1 v1 where s: "JSON_parser_char E jc (sint c) = (jc1, ev1, v1)"
    by (cases "JSON_parser_char E jc (sint c)")
  have x: "jp_ctx jc1 = foldl (\<lambda>c e. fst (cb c e)) (jp_ctx jc) ev1"
    using follows_char [of E jc "sint c"] assms by (simp add: ctx_follows_def s)
  show ?case
  proof (cases "v1 = Accept")
    case True
    obtain ev where "jp_ctx (fst (json_string_loop E jc1 cs)) = foldl (\<lambda>c e. fst (cb c e)) (jp_ctx jc1) ev"
      using Cons.IH by blast
    with s x True show ?thesis by (intro exI [of _ "ev1 @ ev"]) simp
  next
    case False
    with s x show ?thesis by (intro exI [of _ ev1]) simp
  qed
qed

lemma new_JSON_parser_ctx:
  assumes "new_JSON_parser E config x = Some jc"
  shows "jp_ctx jc = x"
  using assms silent_push [of _ E MODE_DONE]
  by (auto simp: new_JSON_parser_def Let_def silent_def split: if_splits)

lemma init_json_parser_headless:
  assumes "init_json_parser L alloc dp s [] = Some (Some r, h)"
  shows "headless 0 h"
proof -
  let ?E = "json_tree_env L alloc dp"
  have cb: "je_callback ?E = Some (json_tree_callback L)" by (simp add: json_tree_env_def)
  obtain jc where jc: "new_JSON_parser ?E (Some json_tree_config) (Some (cx_start [])) = Some jc"
    using assms by (auto simp: init_json_parser_start bind_eq_Some_conv)
  obtain jc1 v1 where l: "json_string_loop ?E jc s = (jc1, v1)" by (cases "json_string_loop ?E jc s")
  obtain ev where "jp_ctx jc1 = foldl (\<lambda>c e. fst (json_tree_callback L c e)) (jp_ctx jc) ev"
    using json_string_loop_ctx [OF cb, of jc s] l by auto
  then have c1: "jp_ctx jc1 = cb_run L ev (cx_start [])"
    using new_JSON_parser_ctx [OF jc] by (simp add: json_tree_fold)
  obtain jc2 e2 v2 where dn: "JSON_parser_done jc1 = (jc2, e2, v2)" by (cases "JSON_parser_done jc1")
  with follows_done [of jc1] have c2: "jp_ctx jc2 = jp_ctx jc1" by simp
  obtain cx where "cb_run L ev (cx_start []) = Some cx" "h = cx_heap cx"
    using assms c1 c2 by (auto simp: init_json_parser_start jc l dn bind_eq_Some_conv split: if_splits)
  moreover have "headless 0 (cx_heap (cx_start [] :: 'a json_context))" by (simp add: headless_def cx_start_def ji_get_def)
  ultimately show ?thesis using headless_run by metis
qed

lemma json_link_headless:
  assumes "ji_get h obj = Some it" "ji_child it \<noteq> None" "ji_head it = None"
  shows "json_link obj n h = None"
  using assms by (auto simp: json_link_def ji_upd_def)

lemma json_setter_headless:
  assumes it: "ji_get h obj = Some it" "ji_child it \<noteq> None" "ji_head it = None"
  shows "Option.bind (ji_upd (Some (length h)) (json_set_key key) (h @ [Some (jitem_new L)])) (\<lambda>h1.
      Option.bind (ji_upd (Some (length h)) f h1) (json_link obj (length h))) = None"
proof -
  let ?n = "length h"
  have o: "obj \<noteq> ?n" using it(1) ji_get_fresh [of h] by auto
  have g0: "ji_get (h @ [Some (jitem_new L)]) ?n = Some (jitem_new L)" by (simp add: init_json_item_get)
  obtain h1 where h1: "ji_upd (Some ?n) (json_set_key key) (h @ [Some (jitem_new L)]) = Some h1"
    "ji_get h1 = (ji_get (h @ [Some (jitem_new L)]))(?n := Some (json_set_key key (jitem_new L)))"
    using ji_upd_get [OF g0, of "json_set_key key"] by auto
  obtain h2 where h2: "ji_upd (Some ?n) f h1 = Some h2" "ji_get h2 = (ji_get h1)(?n := Some (f (json_set_key key (jitem_new L))))"
    using ji_upd_get [of h1 ?n "json_set_key key (jitem_new L)" f] h1(2) by auto
  have "ji_get h2 obj = Some it" using it(1) o h1(2) h2(2) by (simp add: init_json_item_get)
  with json_link_headless [OF this it(2,3)] h1(1) h2(1) show ?thesis by simp
qed


section \<open>Properties of the parsed tree\<close>



text \<open>a byte outside ASCII is passed to the parser as a negative number and refused: no text that
  has one is parsed, even inside a string.\<close>

theorem init_json_parser_ascii_only:
  assumes "init_json_parser L alloc dp s h = Some (p, h')" "p \<noteq> None"
  shows "\<forall>c\<in>set s. c < 0x80"
proof (rule ccontr)
  assume "\<not> (\<forall>c\<in>set s. c < 0x80)"
  then have "\<exists>c\<in>set s. 0x80 \<le> c" by (auto simp: not_less)
  from split_list_first_propE [OF this] obtain cs c ds where s: "s = cs @ c # ds" "0x80 \<le> c" "\<forall>x\<in>set cs. \<not> 0x80 \<le> x"
    by blast
  let ?E = "json_tree_env L alloc dp"
  obtain jc where jc: "new_JSON_parser ?E (Some json_tree_config) (Some (cx_start h)) = Some jc"
    using assms(1) by (auto simp: init_json_parser_start bind_eq_Some_conv)
  obtain jc1 v1 where l: "json_string_loop ?E jc s = (jc1, v1)" by (cases "json_string_loop ?E jc s")
  have "snd (json_string_loop ?E jc (cs @ c # ds)) \<noteq> Accept"
    by (rule json_string_loop_refused [OF s(2)]) (use s(3) in \<open>simp add: not_le\<close>)
  then have "v1 \<noteq> Accept" using l s(1) by simp
  with assms show False by (auto simp: init_json_parser_start jc l bind_eq_Some_conv split: if_splits)
qed

theorem init_json_parser_ascii_only_witness:
  "\<exists>p h'. init_json_parser digits_libm (\<lambda>why n. True) 46 (bytes ''[]'') [] = Some (p, h') \<and> p \<noteq> None \<and>
     (\<forall>c\<in>set (bytes ''[]''). c < 0x80)"
proof -
  have t: "jval_text (JArray [] JNoElem) = bytes ''[]''" by (simp add: bytes_def)
  have "\<forall>why n. (\<lambda>why n. True) (why :: string) (n :: nat)" by simp
  from init_json_parser_document [OF this, of "JArray [] JNoElem" _ _ _ "[]" "[]" digits_libm "[]"]
  obtain h' where "init_json_parser digits_libm (\<lambda>why n. True) 46 (bytes ''[]'') [] = Some (Some 0, h')"
    by (auto simp: t json_ws_def bytes_def)
  with init_json_parser_ascii_only [OF this] show ?thesis by blast
qed

text \<open>the parser does not set the pointer to the last child. Every setter on a container of a
  parsed tree that has children follows that null pointer.\<close>

theorem json_setter_on_parsed:
  assumes "init_json_parser L alloc dp s [] = Some (Some r, h)" "ji_get h obj = Some it" "ji_child it \<noteq> None"
  shows "json_set_property_intN L obj key i h = None \<and> json_set_property_strN L obj key t h = None \<and>
    json_set_property_boolean L obj key b h = None \<and> json_set_property_null L obj key h = None \<and>
    json_set_property_floatN L obj key x h = None"
proof -
  have "ji_head it = None" using init_json_parser_headless [OF assms(1)] assms(2) by (simp add: headless_def)
  note n = json_setter_headless [OF assms(2,3) this]
  show ?thesis
    using n by (simp add: json_set_property_intN_def json_set_property_strN_def json_set_property_boolean_def
        json_set_property_null_def json_set_property_floatN_def init_json_item_new)
qed

theorem json_setter_on_parsed_witness:
  "\<exists>h. init_json_parser digits_libm (\<lambda>why n. True) 46 (bytes ''[null]'') [] = Some (Some 0, h) \<and>
     json_set_property_intN digits_libm 0 None 1 h = None"
proof -
  have t: "jval_text (JArray [] (JElem [] JNull [] JNoElem)) = bytes ''[null]''" by (simp add: bytes_def)
  have "\<forall>why n. (\<lambda>why n. True) (why :: string) (n :: nat)" by simp
  from init_json_parser_document [OF this, of "JArray [] (JElem [] JNull [] JNoElem)" _ _ _ "[]" "[]" digits_libm "[]"]
  obtain h where h: "init_json_parser digits_libm (\<lambda>why n. True) 46 (bytes ''[null]'') [] = Some (Some 0, h)"
    and r: "jrep h None (Some 0) [jval_tree (JArray [] (JElem [] JNull [] JNoElem)) digits_libm None [] 0]"
    by (auto simp: t json_ws_def bytes_def)
  from r obtain it where "ji_get h 0 = Some it" "ji_child it = Some 1" by auto
  with json_setter_on_parsed [OF h, of 0 it None 1] h show ?thesis by simp
qed

end
