(* ===== verification/Hash.thy ===== *)
theory Hash
  imports Keyed_Table
begin

text \<open>
  The hash tables of \<^verbatim>\<open>src/core/ape_hash.c\<close> on an explicit heap: items with a bucket chain
  (\<open>next\<close>) and a list of all items (\<open>first\<close>, \<open>lnext\<close>, \<open>lprev\<close>). A pointer that is followed to a
  cell that is not allocated (never, or no longer) is undefined behaviour, the result \<open>None\<close>.
  The string tables and the 64-bit tables are two copies of the same code; both are instances of
  functions over the comparison and the bucket function, and both are interpretations of the locale
  of keyed tables.
\<close>

section \<open>MurmurHash2\<close>

text \<open>\<open>*(unsigned int * )data\<close> is a little-endian load.\<close>

definition le32 :: "byte list \<Rightarrow> u32" where
  "le32 d = ucast (d ! 0) OR push_bit 8 (ucast (d ! 1)) OR push_bit 16 (ucast (d ! 2)) OR
     push_bit 24 (ucast (d ! 3))"

definition murmur_m :: u32 where "murmur_m = 0x5bd1e995"

function murmur_loop :: "u32 \<Rightarrow> byte list \<Rightarrow> u32 \<times> byte list" where
  "murmur_loop h d =
     (if 4 \<le> length d then
        let k = le32 d;
            k = k * murmur_m;
            k = k XOR drop_bit 24 k;
            k = k * murmur_m;
            h = h * murmur_m;
            h = h XOR k
        in murmur_loop h (drop 4 d)
      else (h, d))"
  by auto
termination by (relation "measure (\<lambda>(h, d). length d)") auto

declare murmur_loop.simps [simp del]

definition MurmurHash2 :: "byte list \<Rightarrow> u32 \<Rightarrow> u32" where
  "MurmurHash2 key seed =
     (let (h, data) = murmur_loop (seed XOR word_of_nat (length key)) key;
          h = (if length data = 3 then h XOR push_bit 16 (ucast (data ! 2)) else h);
          h = (if 2 \<le> length data then h XOR push_bit 8 (ucast (data ! 1)) else h);
          h = (if 1 \<le> length data then (h XOR ucast (data ! 0)) * murmur_m else h);
          h = h XOR drop_bit 13 h;
          h = h * murmur_m
      in h XOR drop_bit 15 h)"

definition HACH_TABLE_MAX :: nat where "HACH_TABLE_MAX = 8192"

definition ape_hash_str :: "u32 \<Rightarrow> byte list \<Rightarrow> nat" where
  "ape_hash_str seed key = unat (MurmurHash2 key seed mod word_of_nat HACH_TABLE_MAX)"

section \<open>Tables\<close>

datatype ape_hash_type = APE_HASH_STR | APE_HASH_INT

text \<open>The union \<open>key\<close> is the type \<open>'k\<close>: the bytes of a string, or a 64-bit integer.\<close>

record ('k, 'v) htable_item =
  hi_key :: 'k
  hi_addrs :: 'v
  hi_next :: "addr option"
  hi_lnext :: "addr option"
  hi_lprev :: "addr option"

text \<open>The heap of items is part of the state; \<open>malloc\<close> takes a cell that was never used.\<close>

record ('k, 'v) htable =
  ht_first :: "addr option"
  ht_table :: "addr option list"
  ht_type :: ape_hash_type
  ht_heap :: "('k, 'v) htable_item option list"

definition ht_get :: "('k, 'v) htable \<Rightarrow> addr \<Rightarrow> ('k, 'v) htable_item option" where
  "ht_get t a = (if a < length (ht_heap t) then ht_heap t ! a else None)"

definition ht_upd ::
    "addr \<Rightarrow> (('k, 'v) htable_item \<Rightarrow> ('k, 'v) htable_item) \<Rightarrow> ('k, 'v) htable \<Rightarrow> ('k, 'v) htable option" where
  "ht_upd a f t =
     (case ht_get t a of
        None \<Rightarrow> None
      | Some it \<Rightarrow> Some (t\<lparr>ht_heap := (ht_heap t)[a := Some (f it)]\<rparr>))"

definition ht_free :: "addr \<Rightarrow> ('k, 'v) htable \<Rightarrow> ('k, 'v) htable option" where
  "ht_free a t =
     (case ht_get t a of None \<Rightarrow> None | Some _ \<Rightarrow> Some (t\<lparr>ht_heap := (ht_heap t)[a := None]\<rparr>))"

definition hashtbl_init :: "ape_hash_type \<Rightarrow> ('k, 'v) htable" where
  "hashtbl_init ty =
     \<lparr>ht_first = None, ht_table = replicate HACH_TABLE_MAX None, ht_type = ty, ht_heap = []\<rparr>"

text \<open>
  The loop over a bucket, with the cell before the current one. A cycle would never end: the
  function is partial.
\<close>

partial_function (option) ht_scan ::
    "('k \<Rightarrow> 'k \<Rightarrow> bool) \<Rightarrow> ('k, 'v) htable \<Rightarrow> 'k \<Rightarrow> addr option \<Rightarrow> addr option \<Rightarrow>
     (addr option \<times> addr option) option" where
  "ht_scan eq t k prev p =
     (case p of
        None \<Rightarrow> Some (prev, None)
      | Some a \<Rightarrow>
          (case ht_get t a of
             None \<Rightarrow> None
           | Some it \<Rightarrow> if eq (hi_key it) k then Some (prev, Some a) else ht_scan eq t k (Some a) (hi_next it)))"

text \<open>
  The cell is allocated first and linked in front of the list of all items; only then the bucket is
  searched.
\<close>

definition ht_link_new :: "'k \<Rightarrow> 'v \<Rightarrow> ('k, 'v) htable \<Rightarrow> ('k, 'v) htable option" where
  "ht_link_new key structaddr t =
     (let hTmp = length (ht_heap t);
          t = t\<lparr>ht_heap := ht_heap t @
            [Some \<lparr>hi_key = key, hi_addrs = structaddr, hi_next = None, hi_lnext = ht_first t, hi_lprev = None\<rparr>]\<rparr>
      in case ht_first t of
           None \<Rightarrow> Some t
         | Some f \<Rightarrow> ht_upd f (\<lambda>it. it\<lparr>hi_lprev := Some hTmp\<rparr>) t)"

definition ht_append :: "('k \<Rightarrow> 'k \<Rightarrow> bool) \<Rightarrow> nat \<Rightarrow> 'k \<Rightarrow> 'v \<Rightarrow> ('k, 'v) htable \<Rightarrow> ('k, 'v) htable option" where
  "ht_append eq key_hash key structaddr t =
     (let hTmp = length (ht_heap t)
      in Option.bind (ht_link_new key structaddr t) (\<lambda>t.
         Option.bind (ht_scan eq t key None (ht_table t ! key_hash)) (\<lambda>(_, hDbl).
         case hDbl of
           Some d \<Rightarrow>
             Option.bind (ht_free hTmp t) (ht_upd d (\<lambda>it. it\<lparr>hi_addrs := structaddr\<rparr>))
         | None \<Rightarrow>
             Option.bind (ht_upd hTmp (\<lambda>it. it\<lparr>hi_next := ht_table t ! key_hash\<rparr>) t) (\<lambda>t.
             Some (t\<lparr>ht_first := Some hTmp, ht_table := (ht_table t)[key_hash := Some hTmp]\<rparr>)))))"

definition ht_erase :: "('k \<Rightarrow> 'k \<Rightarrow> bool) \<Rightarrow> nat \<Rightarrow> 'k \<Rightarrow> ('k, 'v) htable \<Rightarrow> ('k, 'v) htable option" where
  "ht_erase eq key_hash key t =
     Option.bind (ht_scan eq t key None (ht_table t ! key_hash)) (\<lambda>(hPrev, hit).
     case hit of
       None \<Rightarrow> Some t
     | Some a \<Rightarrow>
         Option.bind (ht_get t a) (\<lambda>it.
         Option.bind
           (case hPrev of
              Some p \<Rightarrow> ht_upd p (\<lambda>pi. pi\<lparr>hi_next := hi_next it\<rparr>) t
            | None \<Rightarrow> Some (t\<lparr>ht_table := (ht_table t)[key_hash := hi_next it]\<rparr>)) (\<lambda>t.
         Option.bind
           (case hi_lprev it of
              None \<Rightarrow> Some (t\<lparr>ht_first := hi_lnext it\<rparr>)
            | Some p \<Rightarrow> ht_upd p (\<lambda>pi. pi\<lparr>hi_lnext := hi_lnext it\<rparr>) t) (\<lambda>t.
         Option.bind
           (case hi_lnext it of
              None \<Rightarrow> Some t
            | Some n \<Rightarrow> ht_upd n (\<lambda>ni. ni\<lparr>hi_lprev := hi_lprev it\<rparr>) t) (\<lambda>t.
         ht_free a t)))))"

text \<open>The result of a seek: undefined, NULL, or the address stored.\<close>

definition ht_seek :: "('k \<Rightarrow> 'k \<Rightarrow> bool) \<Rightarrow> nat \<Rightarrow> 'k \<Rightarrow> ('k, 'v) htable \<Rightarrow> 'v option option" where
  "ht_seek eq key_hash key t =
     Option.bind (ht_scan eq t key None (ht_table t ! key_hash)) (\<lambda>(_, hit).
     case hit of
       None \<Rightarrow> Some None
     | Some a \<Rightarrow> map_option (\<lambda>it. Some (hi_addrs it)) (ht_get t a))"

text \<open>
  The string functions (\<open>strcasecmp\<close>, and \<open>NULL\<close> for no key; the key's bytes are those before its
  terminator, \<open>key_len\<close> many) and the 64-bit functions.
\<close>

definition hashtbl_append ::
    "u32 \<Rightarrow> byte list option \<Rightarrow> 'v \<Rightarrow> (byte list, 'v) htable \<Rightarrow> (byte list, 'v) htable option" where
  "hashtbl_append seed key structaddr t =
     (case key of None \<Rightarrow> Some t | Some k \<Rightarrow> ht_append ci_eq (ape_hash_str seed k) k structaddr t)"

definition hashtbl_erase ::
    "u32 \<Rightarrow> byte list option \<Rightarrow> (byte list, 'v) htable \<Rightarrow> (byte list, 'v) htable option" where
  "hashtbl_erase seed key t =
     (case key of None \<Rightarrow> Some t | Some k \<Rightarrow> ht_erase ci_eq (ape_hash_str seed k) k t)"

definition hashtbl_seek :: "u32 \<Rightarrow> byte list option \<Rightarrow> (byte list, 'v) htable \<Rightarrow> 'v option option" where
  "hashtbl_seek seed key t =
     (case key of None \<Rightarrow> Some None | Some k \<Rightarrow> ht_seek ci_eq (ape_hash_str seed k) k t)"

definition hash64 :: "u64 \<Rightarrow> nat" where
  "hash64 key = unat (key mod word_of_nat HACH_TABLE_MAX)"

definition hashtbl_append64 :: "u64 \<Rightarrow> 'v \<Rightarrow> (u64, 'v) htable \<Rightarrow> (u64, 'v) htable option" where
  "hashtbl_append64 key structaddr t = ht_append (=) (hash64 key) key structaddr t"

definition hashtbl_erase64 :: "u64 \<Rightarrow> (u64, 'v) htable \<Rightarrow> (u64, 'v) htable option" where
  "hashtbl_erase64 key t = ht_erase (=) (hash64 key) key t"

definition hashtbl_seek64 :: "u64 \<Rightarrow> (u64, 'v) htable \<Rightarrow> 'v option option" where
  "hashtbl_seek64 key t = ht_seek (=) (hash64 key) key t"

text \<open>\<open>hashtbl_free\<close>: every item of every bucket; then the table itself.\<close>

partial_function (option) ht_free_chain :: "addr option \<Rightarrow> ('k, 'v) htable \<Rightarrow> ('k, 'v) htable option" where
  "ht_free_chain p t =
     (case p of
        None \<Rightarrow> Some t
      | Some a \<Rightarrow>
          Option.bind (ht_get t a) (\<lambda>it.
          Option.bind (ht_free a t) (ht_free_chain (hi_next it))))"

primrec ht_free_buckets :: "addr option list \<Rightarrow> ('k, 'v) htable \<Rightarrow> ('k, 'v) htable option" where
  "ht_free_buckets [] t = Some t"
| "ht_free_buckets (p # ps) t = Option.bind (ht_free_chain p t) (ht_free_buckets ps)"

definition hashtbl_free :: "('k, 'v) htable \<Rightarrow> ('k, 'v) htable option" where
  "hashtbl_free t = ht_free_buckets (ht_table t) t"

section \<open>Lists in the heap\<close>

lemma chain_remove:
  "chain nx p (xs @ a # ys) \<Longrightarrow> distinct (xs @ a # ys) \<Longrightarrow>
   chain (if xs = [] then nx else nx(last xs := nx a)) (if xs = [] then nx a else p) (xs @ ys)"
proof (induction xs arbitrary: p)
  case Nil
  then show ?case by simp
next
  case (Cons x xs)
  show ?case
  proof (cases "xs = []")
    case True
    with Cons.prems show ?thesis by (auto intro: chain_cong [THEN iffD1, rotated])
  next
    case False
    with Cons.prems have l: "last xs \<noteq> x" by (metis distinct.simps(2) append_Cons in_set_conv_decomp last_in_set Un_iff set_append)
    from Cons False l show ?thesis by simp
  qed
qed

text \<open>The backward pointers of the list: each is the element before it, the first one's is \<open>q\<close>.\<close>

fun back_chain :: "(addr \<Rightarrow> addr option) \<Rightarrow> addr option \<Rightarrow> addr list \<Rightarrow> bool" where
  "back_chain lp q [] = True"
| "back_chain lp q (x # xs) = (lp x = q \<and> back_chain lp (Some x) xs)"

lemma back_chain_cong: "(\<And>a. a \<in> set xs \<Longrightarrow> lp a = lp' a) \<Longrightarrow> back_chain lp q xs = back_chain lp' q xs"
  by (induction xs arbitrary: q) auto

lemma back_chain_at: "back_chain lp q (us @ a # vs) \<Longrightarrow> lp a = (if us = [] then q else Some (last us))"
  by (induction us arbitrary: q) auto

lemma back_chain_remove:
  "back_chain lp q (us @ a # vs) \<Longrightarrow> distinct (us @ a # vs) \<Longrightarrow>
   back_chain (if vs = [] then lp else lp(hd vs := lp a)) q (us @ vs)"
proof (induction us arbitrary: q)
  case Nil
  then show ?case by (cases vs) (auto intro: back_chain_cong [THEN iffD1, rotated])
next
  case (Cons u us)
  then show ?case by (cases vs) auto
qed


section \<open>The shape of a table\<close>

definition ht_next :: "('k, 'v) htable \<Rightarrow> addr \<Rightarrow> addr option" where
  "ht_next t a = Option.bind (ht_get t a) hi_next"

definition ht_lnext :: "('k, 'v) htable \<Rightarrow> addr \<Rightarrow> addr option" where
  "ht_lnext t a = Option.bind (ht_get t a) hi_lnext"

definition ht_lprev :: "('k, 'v) htable \<Rightarrow> addr \<Rightarrow> addr option" where
  "ht_lprev t a = Option.bind (ht_get t a) hi_lprev"

definition ht_key :: "('k, 'v) htable \<Rightarrow> addr \<Rightarrow> 'k" where
  "ht_key t a = hi_key (the (ht_get t a))"

definition ht_addrs :: "('k, 'v) htable \<Rightarrow> addr \<Rightarrow> 'v" where
  "ht_addrs t a = hi_addrs (the (ht_get t a))"

definition ht_live :: "('k, 'v) htable \<Rightarrow> addr set" where
  "ht_live t = {a. ht_get t a \<noteq> None}"

text \<open>
  \<open>bs i\<close> are the cells of bucket \<open>i\<close>, in order, \<open>ls\<close> those of the list of all items. No two keys of
  a bucket are equal, and every cell that is allocated is in the list: nothing leaks.
\<close>

definition ht_shape ::
    "('k \<Rightarrow> 'k \<Rightarrow> bool) \<Rightarrow> ('k \<Rightarrow> nat) \<Rightarrow> ('k, 'v) htable \<Rightarrow> (nat \<Rightarrow> addr list) \<Rightarrow> addr list \<Rightarrow> bool" where
  "ht_shape eq hash t bs ls \<longleftrightarrow>
     length (ht_table t) = HACH_TABLE_MAX \<and>
     (\<forall>i < HACH_TABLE_MAX. chain (ht_next t) (ht_table t ! i) (bs i) \<and> distinct (bs i) \<and>
        (\<forall>a \<in> set (bs i). a \<in> ht_live t \<and> hash (ht_key t a) = i) \<and>
        (\<forall>a \<in> set (bs i). \<forall>b \<in> set (bs i). eq (ht_key t a) (ht_key t b) \<longrightarrow> a = b)) \<and>
     chain (ht_lnext t) (ht_first t) ls \<and> distinct ls \<and> back_chain (ht_lprev t) None ls \<and>
     set ls = ht_live t \<and> (\<forall>a \<in> ht_live t. \<exists>i < HACH_TABLE_MAX. a \<in> set (bs i))"

definition ht_inv :: "('k \<Rightarrow> 'k \<Rightarrow> bool) \<Rightarrow> ('k \<Rightarrow> nat) \<Rightarrow> ('k, 'v) htable \<Rightarrow> bool" where
  "ht_inv eq hash t \<longleftrightarrow> (\<exists>bs ls. ht_shape eq hash t bs ls)"

lemmas ht_views = ht_next_def ht_lnext_def ht_lprev_def ht_key_def ht_addrs_def

lemma ht_upd_Some:
  assumes "ht_get t a = Some it"
  obtains t' where "ht_upd a f t = Some t'" "ht_get t' = (ht_get t)(a := Some (f it))"
    "ht_first t' = ht_first t" "ht_table t' = ht_table t" "length (ht_heap t') = length (ht_heap t)"
    "ht_live t' = ht_live t"
proof
  have a: "a < length (ht_heap t)" using assms by (simp add: ht_get_def split: if_splits)
  show "ht_upd a f t = Some (t\<lparr>ht_heap := (ht_heap t)[a := Some (f it)]\<rparr>)"
    using assms by (simp add: ht_upd_def)
  show "ht_get (t\<lparr>ht_heap := (ht_heap t)[a := Some (f it)]\<rparr>) = (ht_get t)(a := Some (f it))"
    using a by (auto simp: ht_get_def)
  then show "ht_live (t\<lparr>ht_heap := (ht_heap t)[a := Some (f it)]\<rparr>) = ht_live t"
    using assms by (auto simp: ht_live_def)
qed simp_all

lemma ht_free_Some:
  assumes "ht_get t a = Some it"
  obtains t' where "ht_free a t = Some t'" "ht_get t' = (ht_get t)(a := None)"
    "ht_first t' = ht_first t" "ht_table t' = ht_table t" "ht_live t' = ht_live t - {a}"
proof
  have a: "a < length (ht_heap t)" using assms by (simp add: ht_get_def split: if_splits)
  show "ht_free a t = Some (t\<lparr>ht_heap := (ht_heap t)[a := None]\<rparr>)"
    using assms by (simp add: ht_free_def)
  show "ht_get (t\<lparr>ht_heap := (ht_heap t)[a := None]\<rparr>) = (ht_get t)(a := None)"
    using a by (auto simp: ht_get_def)
  then show "ht_live (t\<lparr>ht_heap := (ht_heap t)[a := None]\<rparr>) = ht_live t - {a}"
    by (auto simp: ht_live_def)
qed simp_all

text \<open>The loop over a bucket, on the list of its cells.\<close>

lemma ht_scan_miss:
  "chain (ht_next t) p as \<Longrightarrow> set as \<subseteq> ht_live t \<Longrightarrow> \<forall>a\<in>set as. \<not> eq (ht_key t a) k \<Longrightarrow>
   ht_scan eq t k prev p = Some (if as = [] then prev else Some (last as), None)"
proof (induction as arbitrary: p prev)
  case Nil
  then show ?case by (simp add: ht_scan.simps)
next
  case (Cons a as)
  then obtain it where "ht_get t a = Some it" by (auto simp: ht_live_def)
  with Cons show ?case by (simp add: ht_scan.simps [of eq t k prev "Some a"] ht_views)
qed

lemma ht_scan_hit:
  "chain (ht_next t) p (xs @ a # ys) \<Longrightarrow> set (xs @ [a]) \<subseteq> ht_live t \<Longrightarrow>
   \<forall>x\<in>set xs. \<not> eq (ht_key t x) k \<Longrightarrow> eq (ht_key t a) k \<Longrightarrow>
   ht_scan eq t k prev p = Some (if xs = [] then prev else Some (last xs), Some a)"
proof (induction xs arbitrary: p prev)
  case Nil
  then obtain it where "ht_get t a = Some it" by (auto simp: ht_live_def)
  with Nil show ?case by (simp add: ht_scan.simps [of eq t k prev "Some a"] ht_views)
next
  case (Cons x xs)
  then obtain it where "ht_get t x = Some it" by (auto simp: ht_live_def)
  with Cons show ?case by (simp add: ht_scan.simps [of eq t k prev "Some x"] ht_views)
qed

lemma ht_seek_chain:
  assumes c: "chain (ht_next t) (ht_table t ! i) as" and l: "set as \<subseteq> ht_live t"
  shows "ht_seek eq i k t = Some (map_option (ht_addrs t) (find (\<lambda>a. eq (ht_key t a) k) as))"
proof (cases "\<forall>a\<in>set as. \<not> eq (ht_key t a) k")
    case True
    moreover from True have "find (\<lambda>a. eq (ht_key t a) k) as = None" by (simp add: find_None_iff)
    ultimately show ?thesis using ht_scan_miss [of t "ht_table t ! i" as eq k, OF c l True] by (simp add: ht_seek_def)
  next
    case False
    then have "\<exists>a\<in>set as. eq (ht_key t a) k" by simp
    from split_list_first_propE [OF this]
    obtain xs a ys where xs: "as = xs @ a # ys" "eq (ht_key t a) k" "\<forall>x\<in>set xs. \<not> eq (ht_key t x) k"
      by blast
    have "find (\<lambda>a. eq (ht_key t a) k) (xs @ a # ys) = Some a" using xs(2,3) by (induction xs) auto
    then have "find (\<lambda>a. eq (ht_key t a) k) as = Some a" by (simp add: xs(1))
    moreover obtain it where "ht_get t a = Some it" using l xs(1) by (auto simp: ht_live_def)
    ultimately show ?thesis
      using ht_scan_hit [of t "ht_table t ! i" xs a ys eq k None] c l xs
      by (auto simp: ht_seek_def ht_addrs_def)
qed

lemma ht_seek_find:
  assumes s: "ht_shape eq hash t bs ls" and h: "hash k < HACH_TABLE_MAX"
  shows "ht_seek eq (hash k) k t =
     Some (map_option (ht_addrs t) (find (\<lambda>a. eq (ht_key t a) k) (bs (hash k))))"
  by (rule ht_seek_chain) (use s h in \<open>auto simp: ht_shape_def\<close>)


section \<open>A new key\<close>

lemma ht_upd_views:
  assumes "ht_upd a f t = Some t'"
  shows "ht_get t' = (ht_get t)(a := map_option f (ht_get t a))" "ht_first t' = ht_first t"
    "ht_table t' = ht_table t" "ht_live t' = ht_live t" "a \<in> ht_live t"
proof -
  obtain it where it: "ht_get t a = Some it" using assms by (auto simp: ht_upd_def split: option.splits)
  show "ht_get t' = (ht_get t)(a := map_option f (ht_get t a))" "ht_first t' = ht_first t"
    "ht_table t' = ht_table t" "ht_live t' = ht_live t"
    by (rule ht_upd_Some [OF it, of f]; use assms it in simp)+
  show "a \<in> ht_live t" using it by (simp add: ht_live_def)
qed

lemma ht_get_heap [simp]:
  "ht_get (t\<lparr>ht_first := p\<rparr>) = ht_get t" "ht_get (t\<lparr>ht_table := ps\<rparr>) = ht_get t"
  "ht_live (t\<lparr>ht_first := p\<rparr>) = ht_live t" "ht_live (t\<lparr>ht_table := ps\<rparr>) = ht_live t"
  by (simp_all add: ht_get_def ht_live_def fun_eq_iff)

lemma ht_upd_defined: "a \<in> ht_live t \<Longrightarrow> \<exists>t'. ht_upd a f t = Some t'"
  by (auto simp: ht_live_def ht_upd_def)

text \<open>\<open>hTmp\<close> is allocated, and is the \<open>lprev\<close> of the first item; nothing else changes.\<close>

lemma ht_append_start:
  fixes t :: "('k, 'v) htable"
  defines "n \<equiv> length (ht_heap t)"
  assumes "\<forall>f. ht_first t = Some f \<longrightarrow> f \<in> ht_live t"
  obtains t2 where
    "ht_link_new k v t = Some t2"
    "n \<notin> ht_live t" "ht_first t2 = ht_first t" "ht_table t2 = ht_table t" "ht_live t2 = insert n (ht_live t)"
    "ht_get t2 n = Some \<lparr>hi_key = k, hi_addrs = v, hi_next = None, hi_lnext = ht_first t, hi_lprev = None\<rparr>"
    "\<And>a. a \<in> ht_live t \<Longrightarrow> ht_next t2 a = ht_next t a \<and> ht_lnext t2 a = ht_lnext t a \<and>
       ht_key t2 a = ht_key t a \<and> ht_addrs t2 a = ht_addrs t a \<and>
       ht_lprev t2 a = (if ht_first t = Some a then Some n else ht_lprev t a)"
proof -
  let ?i = "\<lparr>hi_key = k, hi_addrs = v, hi_next = None, hi_lnext = ht_first t, hi_lprev = None\<rparr>"
  have n: "n \<notin> ht_live t" by (simp add: ht_live_def ht_get_def n_def)
  obtain t1 where t1: "t1 = t\<lparr>ht_heap := ht_heap t @ [Some ?i]\<rparr>" by simp
  have g: "ht_get t1 = (ht_get t)(n := Some ?i)"
    by (rule ext) (auto simp: t1 ht_get_def n_def nth_append)
  then have l: "ht_live t1 = insert n (ht_live t)" by (auto simp: ht_live_def)
  have f1: "ht_first t1 = ht_first t" "ht_table t1 = ht_table t" by (simp_all add: t1)
  show ?thesis
  proof (cases "ht_first t")
    case None
    have "ht_link_new k v t = Some t1" using None by (simp add: ht_link_new_def t1)
    then show ?thesis
    proof (rule that)
      fix a assume "a \<in> ht_live t"
      then show "ht_next t1 a = ht_next t a \<and> ht_lnext t1 a = ht_lnext t a \<and>
         ht_key t1 a = ht_key t a \<and> ht_addrs t1 a = ht_addrs t a \<and>
         ht_lprev t1 a = (if ht_first t = Some a then Some n else ht_lprev t a)"
        using n None by (auto simp: ht_views g)
    qed (use n g l f1 in \<open>simp_all\<close>)
  next
    case (Some f)
    then have f: "f \<in> ht_live t" using assms(2) by simp
    then obtain t2 where t2: "ht_upd f (\<lambda>it. it\<lparr>hi_lprev := Some n\<rparr>) t1 = Some t2"
      using ht_upd_defined [of f t1] l by blast
    note u = ht_upd_views [OF t2]
    from f obtain fi where fi: "ht_get t f = Some fi" by (auto simp: ht_live_def)
    have fn: "f \<noteq> n" using f n by auto
    have "ht_link_new k v t = Some t2" using Some t2 by (simp add: ht_link_new_def t1 n_def)
    then show ?thesis
    proof (rule that)
      fix a assume "a \<in> ht_live t"
      then show "ht_next t2 a = ht_next t a \<and> ht_lnext t2 a = ht_lnext t a \<and>
         ht_key t2 a = ht_key t a \<and> ht_addrs t2 a = ht_addrs t a \<and>
         ht_lprev t2 a = (if ht_first t = Some a then Some n else ht_lprev t a)"
        using n Some fi fn by (auto simp: ht_views u g)
    qed (use n g l u fn f1 in \<open>simp_all\<close>)
  qed
qed

lemma chain_live:
  "ht_shape eq hash t bs ls \<Longrightarrow> i < HACH_TABLE_MAX \<Longrightarrow>
   chain (ht_next t) (ht_table t ! i) (bs i) \<and> set (bs i) \<subseteq> ht_live t"
  by (auto simp: ht_shape_def)

lemma ht_shape_hash:
  "ht_shape eq hash t bs ls \<Longrightarrow> i < HACH_TABLE_MAX \<Longrightarrow> a \<in> set (bs i) \<Longrightarrow> hash (ht_key t a) = i"
  by (simp add: ht_shape_def)

lemma ht_shape_cover:
  "ht_shape eq hash t bs ls \<Longrightarrow> a \<in> ht_live t \<Longrightarrow> \<exists>i<HACH_TABLE_MAX. a \<in> set (bs i)"
  by (simp add: ht_shape_def)

lemma ht_append_new:
  assumes s: "ht_shape eq hash t bs ls" and h: "hash k < HACH_TABLE_MAX"
    and new: "\<forall>a\<in>set (bs (hash k)). \<not> eq (ht_key t a) k" and n: "n = length (ht_heap t)"
  obtains t' where "ht_append eq (hash k) k v t = Some t'" "n \<notin> ht_live t"
    "ht_first t' = Some n" "ht_table t' = (ht_table t)[hash k := Some n]"
    "ht_live t' = insert n (ht_live t)"
    "ht_get t' n = Some \<lparr>hi_key = k, hi_addrs = v, hi_next = ht_table t ! hash k,
       hi_lnext = ht_first t, hi_lprev = None\<rparr>"
    "\<forall>a\<in>ht_live t. ht_next t' a = ht_next t a \<and> ht_lnext t' a = ht_lnext t a \<and>
       ht_key t' a = ht_key t a \<and> ht_addrs t' a = ht_addrs t a \<and>
       ht_lprev t' a = (if ht_first t = Some a then Some n else ht_lprev t a)"
proof -
  have f: "\<forall>f. ht_first t = Some f \<longrightarrow> f \<in> ht_live t"
    using s by (cases ls) (auto simp: ht_shape_def)
  obtain t2 where t2: "ht_link_new k v t = Some t2"
    "n \<notin> ht_live t" "ht_first t2 = ht_first t" "ht_table t2 = ht_table t" "ht_live t2 = insert n (ht_live t)"
    "ht_get t2 n = Some \<lparr>hi_key = k, hi_addrs = v, hi_next = None, hi_lnext = ht_first t, hi_lprev = None\<rparr>"
    "\<And>a. a \<in> ht_live t \<Longrightarrow> ht_next t2 a = ht_next t a \<and> ht_lnext t2 a = ht_lnext t a \<and>
       ht_key t2 a = ht_key t a \<and> ht_addrs t2 a = ht_addrs t a \<and>
       ht_lprev t2 a = (if ht_first t = Some a then Some n else ht_lprev t a)"
    by (rule ht_append_start [OF f, of k v]) (auto simp: n)
  have c: "chain (ht_next t2) (ht_table t2 ! hash k) (bs (hash k))"
    using chain_live [OF s h] t2(4,7) by (metis chain_cong subset_iff)
  have sub: "set (bs (hash k)) \<subseteq> ht_live t2" using chain_live [OF s h] t2(5) by auto
  have "\<forall>a\<in>set (bs (hash k)). \<not> eq (ht_key t2 a) k"
    using new chain_live [OF s h] t2(7) by (metis subset_iff)
  note scan = ht_scan_miss [of t2 "ht_table t2 ! hash k" "bs (hash k)" eq k, OF c sub this, of None]
  obtain t3 where t3: "ht_upd n (\<lambda>it. it\<lparr>hi_next := ht_table t2 ! hash k\<rparr>) t2 = Some t3"
    using ht_upd_defined [of n t2] t2(5) by blast
  note u = ht_upd_views [OF t3]
  let ?t = "t3\<lparr>ht_first := Some n, ht_table := (ht_table t3)[hash k := Some n]\<rparr>"
  have g: "ht_get t3 = (ht_get t2)(n := map_option (\<lambda>it. it\<lparr>hi_next := ht_table t2 ! hash k\<rparr>) (ht_get t2 n))"
    using u(1) by simp
  show ?thesis
  proof (rule that [of ?t])
    show "ht_append eq (hash k) k v t = Some ?t"
      using t2(1) scan t3 u by (simp add: ht_append_def Let_def n)
    show "ht_live ?t = insert n (ht_live t)" using u(4) t2(5) by simp
    show "\<forall>a\<in>ht_live t. ht_next ?t a = ht_next t a \<and> ht_lnext ?t a = ht_lnext t a \<and>
       ht_key ?t a = ht_key t a \<and> ht_addrs ?t a = ht_addrs t a \<and>
       ht_lprev ?t a = (if ht_first t = Some a then Some n else ht_lprev t a)"
      using t2(2,7) by (auto simp: ht_next_def ht_lnext_def ht_lprev_def ht_key_def ht_addrs_def g)
  qed (use t2(2-6) u g in simp_all)
qed

lemma ht_append_shape:
  assumes s: "ht_shape eq hash t bs ls" and h: "\<And>k. hash k < HACH_TABLE_MAX" and eq: "equivp eq"
    and new: "ht_seek eq (hash k) k t = Some None"
  shows "\<exists>t' bs' ls'. ht_append eq (hash k) k v t = Some t' \<and> ht_shape eq hash t' bs' ls' \<and>
     (\<forall>k'. ht_seek eq (hash k') k' t' =
       (if eq k k' \<and> hash k = hash k' then Some (Some v) else ht_seek eq (hash k') k' t))"
proof -
  have new': "\<forall>a\<in>set (bs (hash k)). \<not> eq (ht_key t a) k"
    using new ht_seek_find [OF s h] by (simp add: find_None_iff)
  obtain n where n0: "n = length (ht_heap t)" by simp
  obtain t' where t': "ht_append eq (hash k) k v t = Some t'" "n \<notin> ht_live t"
    "ht_first t' = Some n" "ht_table t' = (ht_table t)[hash k := Some n]"
    "ht_live t' = insert n (ht_live t)"
    "ht_get t' n = Some \<lparr>hi_key = k, hi_addrs = v, hi_next = ht_table t ! hash k,
       hi_lnext = ht_first t, hi_lprev = None\<rparr>"
    "\<forall>a\<in>ht_live t. ht_next t' a = ht_next t a \<and> ht_lnext t' a = ht_lnext t a \<and>
       ht_key t' a = ht_key t a \<and> ht_addrs t' a = ht_addrs t a \<and>
       ht_lprev t' a = (if ht_first t = Some a then Some n else ht_lprev t a)"
    by (rule ht_append_new [OF s h new' n0, of v])
  have n: "ht_next t' n = ht_table t ! hash k" "ht_lnext t' n = ht_first t" "ht_lprev t' n = None"
    "ht_key t' n = k" "ht_addrs t' n = v" using t'(6) by (simp_all add: ht_views)
  let ?bs = "bs(hash k := n # bs (hash k))"
  have live: "set ls = ht_live t" and len: "length (ht_table t) = HACH_TABLE_MAX"
    and ch: "chain (ht_lnext t) (ht_first t) ls" "distinct ls" "back_chain (ht_lprev t) None ls"
    using s by (simp_all add: ht_shape_def)
  have sub: "set (bs i) \<subseteq> ht_live t" if "i < HACH_TABLE_MAX" for i
    using chain_live [OF s that] by simp
  have bucket: "chain (ht_next t') (ht_table t' ! i) (?bs i) \<and> distinct (?bs i) \<and>
        (\<forall>a \<in> set (?bs i). a \<in> ht_live t' \<and> hash (ht_key t' a) = i) \<and>
        (\<forall>a \<in> set (?bs i). \<forall>b \<in> set (?bs i). eq (ht_key t' a) (ht_key t' b) \<longrightarrow> a = b)"
    if i: "i < HACH_TABLE_MAX" for i
  proof -
    have key: "ht_key t' a = ht_key t a" if "a \<in> set (bs i)" for a using t'(7) sub [OF i] that by blast
    have c: "chain (ht_next t') p (bs i) = chain (ht_next t) p (bs i)" for p
      by (rule chain_cong) (use t'(7) sub [OF i] in blast)
    have old: "chain (ht_next t) (ht_table t ! i) (bs i)" "distinct (bs i)"
        "\<And>a. a \<in> set (bs i) \<Longrightarrow> hash (ht_key t a) = i"
        "\<And>a b. a \<in> set (bs i) \<Longrightarrow> b \<in> set (bs i) \<Longrightarrow> eq (ht_key t a) (ht_key t b) \<Longrightarrow> a = b"
      using s i by (auto simp: ht_shape_def)
    have ne: "\<not> eq k (ht_key t a)" "\<not> eq (ht_key t a) k" if "a \<in> set (bs i)" "i = hash k" for a
      using new' that equivp_symp [OF eq] by blast+
    show ?thesis
    proof (cases "i = hash k")
      case False
      with old key c t'(4,5) sub [OF i] show ?thesis by auto
    next
      case True
      have "n \<notin> set (bs i)" using sub [OF i] t'(2) by auto
      with True old key c t'(4,5) sub [OF i] n ne len i show ?thesis by auto
    qed
  qed
  have lchain: "chain (ht_lnext t') (ht_lnext t' n) ls"
    using ch(1) n(2) chain_cong [of ls "ht_lnext t'" "ht_lnext t"] t'(7) live by auto
  have bchain: "back_chain (ht_lprev t') (Some n) ls"
  proof (cases ls)
    case (Cons x xs)
    then have "ht_first t = Some x" using ch(1) by simp
    moreover have "back_chain (ht_lprev t') (Some x) xs = back_chain (ht_lprev t) (Some x) xs"
      by (rule back_chain_cong) (use calculation t'(7) live ch(2) Cons in auto)
    moreover have "x \<in> ht_live t" using live Cons by (metis list.set_intros(1))
    then have "ht_lprev t' x = Some n" using t'(7) \<open>ht_first t = Some x\<close> by simp
    ultimately show ?thesis using ch(3) Cons by simp
  qed simp
  have cover: "\<exists>i < HACH_TABLE_MAX. a \<in> set (?bs i)" if "a \<in> ht_live t'" for a
  proof (cases "a = n")
    case True
    with h [of k] show ?thesis by (intro exI [of _ "hash k"]) simp
  next
    case False
    with that t'(5) obtain i where "i < HACH_TABLE_MAX" "a \<in> set (bs i)"
      using s by (auto simp: ht_shape_def)
    then show ?thesis by (intro exI [of _ i]) auto
  qed
  have s': "ht_shape eq hash t' ?bs (n # ls)"
    unfolding ht_shape_def
  proof (intro conjI)
    show "\<forall>i<HACH_TABLE_MAX. chain (ht_next t') (ht_table t' ! i) (?bs i) \<and> distinct (?bs i) \<and>
        (\<forall>a \<in> set (?bs i). a \<in> ht_live t' \<and> hash (ht_key t' a) = i) \<and>
        (\<forall>a \<in> set (?bs i). \<forall>b \<in> set (?bs i). eq (ht_key t' a) (ht_key t' b) \<longrightarrow> a = b)"
      using bucket by blast
    show "\<forall>a\<in>ht_live t'. \<exists>i<HACH_TABLE_MAX. a \<in> set (?bs i)" using cover by blast
  qed (use t'(2-5) len lchain bchain n ch live in simp_all)
  have "ht_seek eq (hash k') k' t' =
       (if eq k k' \<and> hash k = hash k' then Some (Some v) else ht_seek eq (hash k') k' t)" for k'
  proof -
    have key: "ht_key t' a = ht_key t a" "ht_addrs t' a = ht_addrs t a" if "a \<in> set (bs (hash k'))" for a
      using t'(7) sub [OF h [of k']] that by blast+
    have f: "find (\<lambda>a. eq (ht_key t' a) k') (bs (hash k')) = find (\<lambda>a. eq (ht_key t a) k') (bs (hash k'))"
      by (rule find_cong) (simp_all add: key)
    have "map_option (ht_addrs t') (find (\<lambda>a. eq (ht_key t a) k') (bs (hash k'))) =
       map_option (ht_addrs t) (find (\<lambda>a. eq (ht_key t a) k') (bs (hash k')))"
      by (rule map_option_cong) (auto simp: find_Some_iff key)
    then show ?thesis
      unfolding ht_seek_find [OF s' h] ht_seek_find [OF s h] using f n(4,5) by auto
  qed
  then show ?thesis using t'(1) s' by blast
qed


section \<open>Erasing a key\<close>

lemma chain_next_at: "chain nx p (us @ a # vs) \<Longrightarrow> nx a = (if vs = [] then None else Some (hd vs))"
  by (induction us arbitrary: p) (cases vs; auto)+

lemma ht_upd_next:
  assumes "ht_upd a (\<lambda>it. it\<lparr>hi_next := x\<rparr>) t = Some t'"
  shows "ht_live t' = ht_live t \<and> ht_table t' = ht_table t \<and> ht_first t' = ht_first t \<and> ht_next t' = (ht_next t)(a := x) \<and>
    ht_lnext t' = ht_lnext t \<and> ht_lprev t' = ht_lprev t \<and> ht_key t' = ht_key t \<and> ht_addrs t' = ht_addrs t"
proof -
  note u = ht_upd_views [OF assms]
  from u(5) obtain it where "ht_get t a = Some it" by (auto simp: ht_live_def)
  then show ?thesis by (auto simp: fun_eq_iff ht_views u(1-4))
qed

lemma ht_upd_lnext:
  assumes "ht_upd a (\<lambda>it. it\<lparr>hi_lnext := x\<rparr>) t = Some t'"
  shows "ht_live t' = ht_live t \<and> ht_table t' = ht_table t \<and> ht_first t' = ht_first t \<and> ht_next t' = ht_next t \<and>
    ht_lnext t' = (ht_lnext t)(a := x) \<and> ht_lprev t' = ht_lprev t \<and> ht_key t' = ht_key t \<and> ht_addrs t' = ht_addrs t"
proof -
  note u = ht_upd_views [OF assms]
  from u(5) obtain it where "ht_get t a = Some it" by (auto simp: ht_live_def)
  then show ?thesis by (auto simp: fun_eq_iff ht_views u(1-4))
qed

lemma ht_upd_lprev:
  assumes "ht_upd a (\<lambda>it. it\<lparr>hi_lprev := x\<rparr>) t = Some t'"
  shows "ht_live t' = ht_live t \<and> ht_table t' = ht_table t \<and> ht_first t' = ht_first t \<and> ht_next t' = ht_next t \<and>
    ht_lnext t' = ht_lnext t \<and> ht_lprev t' = (ht_lprev t)(a := x) \<and> ht_key t' = ht_key t \<and> ht_addrs t' = ht_addrs t"
proof -
  note u = ht_upd_views [OF assms]
  from u(5) obtain it where "ht_get t a = Some it" by (auto simp: ht_live_def)
  then show ?thesis by (auto simp: fun_eq_iff ht_views u(1-4))
qed

lemma ht_field_heap [simp]:
  "ht_next (t\<lparr>ht_first := p\<rparr>) = ht_next t" "ht_next (t\<lparr>ht_table := ps\<rparr>) = ht_next t"
  "ht_lnext (t\<lparr>ht_first := p\<rparr>) = ht_lnext t" "ht_lnext (t\<lparr>ht_table := ps\<rparr>) = ht_lnext t"
  "ht_lprev (t\<lparr>ht_first := p\<rparr>) = ht_lprev t" "ht_lprev (t\<lparr>ht_table := ps\<rparr>) = ht_lprev t"
  "ht_key (t\<lparr>ht_first := p\<rparr>) = ht_key t" "ht_key (t\<lparr>ht_table := ps\<rparr>) = ht_key t"
  "ht_addrs (t\<lparr>ht_first := p\<rparr>) = ht_addrs t" "ht_addrs (t\<lparr>ht_table := ps\<rparr>) = ht_addrs t"
  by (simp_all add: ht_views fun_eq_iff)

text \<open>The state after the three pointer updates, the cell \<open>a\<close> still allocated.\<close>

lemma ht_unlink:
  assumes s: "ht_shape eq hash t bs ls" and h: "hash k < HACH_TABLE_MAX"
    and b: "bs (hash k) = xs @ a # ys" and l: "ls = us @ a # vs"
    and k: "\<forall>x\<in>set xs. \<not> eq (ht_key t x) k" "eq (ht_key t a) k"
  shows "\<exists>t'. ht_erase eq (hash k) k t = ht_free a t' \<and> ht_live t' = ht_live t \<and>
    ht_table t' = (if xs = [] then (ht_table t)[hash k := ht_next t a] else ht_table t) \<and>
    ht_first t' = (if us = [] then ht_lnext t a else ht_first t) \<and>
    ht_next t' = (if xs = [] then ht_next t else (ht_next t)(last xs := ht_next t a)) \<and>
    ht_lnext t' = (if us = [] then ht_lnext t else (ht_lnext t)(last us := ht_lnext t a)) \<and>
    ht_lprev t' = (if vs = [] then ht_lprev t else (ht_lprev t)(hd vs := ht_lprev t a)) \<and>
    ht_key t' = ht_key t \<and> ht_addrs t' = ht_addrs t"
proof -
  have c: "chain (ht_next t) (ht_table t ! hash k) (xs @ a # ys)" and sub: "set (xs @ a # ys) \<subseteq> ht_live t"
    using chain_live [OF s h] by (simp_all only: b)
  have sub': "set (xs @ [a]) \<subseteq> ht_live t" using sub by auto
  note scan = ht_scan_hit [of t "ht_table t ! hash k" xs a ys eq k, OF c sub' k, of None]
  have live: "set (us @ a # vs) = ht_live t" "chain (ht_lnext t) (ht_first t) (us @ a # vs)"
    "back_chain (ht_lprev t) None (us @ a # vs)"
    using s by (simp_all add: ht_shape_def l)
  from sub obtain it where it: "ht_get t a = Some it" by (auto simp: ht_live_def)
  then have its: "hi_next it = ht_next t a" "hi_lnext it = ht_lnext t a" "hi_lprev it = ht_lprev t a"
    by (simp_all add: ht_views)
  have lp: "ht_lprev t a = (if us = [] then None else Some (last us))"
    using back_chain_at [OF live(3)] .
  have ln: "ht_lnext t a = (if vs = [] then None else Some (hd vs))"
    using chain_next_at [OF live(2)] .
  obtain t1 where t1: "(case if xs = [] then None else Some (last xs) of
              Some p \<Rightarrow> ht_upd p (\<lambda>pi. pi\<lparr>hi_next := ht_next t a\<rparr>) t
            | None \<Rightarrow> Some (t\<lparr>ht_table := (ht_table t)[hash k := ht_next t a]\<rparr>)) = Some t1"
    "ht_live t1 = ht_live t"
    "ht_table t1 = (if xs = [] then (ht_table t)[hash k := ht_next t a] else ht_table t)"
    "ht_first t1 = ht_first t"
    "ht_next t1 = (if xs = [] then ht_next t else (ht_next t)(last xs := ht_next t a))"
    "ht_lnext t1 = ht_lnext t" "ht_lprev t1 = ht_lprev t" "ht_key t1 = ht_key t" "ht_addrs t1 = ht_addrs t"
  proof (cases "xs = []")
    case True
    then show ?thesis by (intro that [of "t\<lparr>ht_table := (ht_table t)[hash k := ht_next t a]\<rparr>"]) simp_all
  next
    case False
    then have m: "last xs \<in> ht_live t" using sub by auto
    then obtain t1 where u: "ht_upd (last xs) (\<lambda>pi. pi\<lparr>hi_next := ht_next t a\<rparr>) t = Some t1"
      using ht_upd_defined by blast
    with False ht_upd_next [OF u] show ?thesis
      by (intro that [of t1]) simp_all
  qed
  obtain t2 where t2: "(case ht_lprev t a of
              None \<Rightarrow> Some (t1\<lparr>ht_first := ht_lnext t a\<rparr>)
            | Some p \<Rightarrow> ht_upd p (\<lambda>pi. pi\<lparr>hi_lnext := ht_lnext t a\<rparr>) t1) = Some t2"
    "ht_live t2 = ht_live t" "ht_table t2 = ht_table t1"
    "ht_first t2 = (if us = [] then ht_lnext t a else ht_first t)" "ht_next t2 = ht_next t1"
    "ht_lnext t2 = (if us = [] then ht_lnext t else (ht_lnext t)(last us := ht_lnext t a))"
    "ht_lprev t2 = ht_lprev t" "ht_key t2 = ht_key t" "ht_addrs t2 = ht_addrs t"
  proof (cases "us = []")
    case True
    then show ?thesis by (intro that [of "t1\<lparr>ht_first := ht_lnext t a\<rparr>"]) (simp_all add: lp t1(2-))
  next
    case False
    then have m: "last us \<in> ht_live t1" using live(1) t1(2) by auto
    then obtain t2 where u: "ht_upd (last us) (\<lambda>pi. pi\<lparr>hi_lnext := ht_lnext t a\<rparr>) t1 = Some t2"
      using ht_upd_defined by blast
    with False ht_upd_lnext [OF u] t1(2-) lp show ?thesis
      by (intro that [of t2]) simp_all
  qed
  obtain t3 where t3: "(case ht_lnext t a of
              None \<Rightarrow> Some t2
            | Some n \<Rightarrow> ht_upd n (\<lambda>ni. ni\<lparr>hi_lprev := ht_lprev t a\<rparr>) t2) = Some t3"
    "ht_live t3 = ht_live t" "ht_table t3 = ht_table t1" "ht_first t3 = ht_first t2" "ht_next t3 = ht_next t1"
    "ht_lnext t3 = ht_lnext t2"
    "ht_lprev t3 = (if vs = [] then ht_lprev t else (ht_lprev t)(hd vs := ht_lprev t a))"
    "ht_key t3 = ht_key t" "ht_addrs t3 = ht_addrs t"
  proof (cases "vs = []")
    case True
    then show ?thesis by (intro that [of t2]) (simp_all add: ln t2(2-))
  next
    case False
    then have m: "hd vs \<in> ht_live t2" using live(1) t2(2) by auto
    then obtain t3 where u: "ht_upd (hd vs) (\<lambda>ni. ni\<lparr>hi_lprev := ht_lprev t a\<rparr>) t2 = Some t3"
      using ht_upd_defined by blast
    with False ht_upd_lprev [OF u] t2(2-) ln show ?thesis
      by (intro that [of t3]) simp_all
  qed
  have "ht_erase eq (hash k) k t = ht_free a t3"
    by (simp only: ht_erase_def scan it its t1(1) t2(1) t3(1) Option.bind.bind_lunit prod.case option.case cong: option.case_cong)
  then show ?thesis using t1 t2 t3 by (intro exI [of _ t3]) simp
qed

lemma chain_upd: "x \<notin> set as \<Longrightarrow> chain (nx(x := y)) p as = chain nx p as"
  by (rule chain_cong) auto

lemma find_remove1: "\<not> P a \<Longrightarrow> find P (xs @ a # ys) = find P (xs @ ys)"
  by (induction xs) auto

lemma ht_erase_shape:
  assumes s: "ht_shape eq hash t bs ls" and h: "\<And>k. hash k < HACH_TABLE_MAX" and eq: "equivp eq"
  shows "\<exists>t' bs' ls'. ht_erase eq (hash k) k t = Some t' \<and> ht_shape eq hash t' bs' ls' \<and>
     (\<forall>k'. ht_seek eq (hash k') k' t' =
       (if eq k k' \<and> hash k = hash k' then Some None else ht_seek eq (hash k') k' t))"
proof (cases "\<forall>a\<in>set (bs (hash k)). \<not> eq (ht_key t a) k")
  case True
  have "ht_scan eq t k None (ht_table t ! hash k) =
      Some (if bs (hash k) = [] then None else Some (last (bs (hash k))), None)"
    using ht_scan_miss [of t "ht_table t ! hash k" "bs (hash k)" eq k] chain_live [OF s h] True by simp
  then have e: "ht_erase eq (hash k) k t = Some t" by (simp add: ht_erase_def)
  have "ht_seek eq (hash k') k' t = Some None" if "eq k k'" "hash k = hash k'" for k'
  proof -
    have "\<not> eq (ht_key t a) k'" if "a \<in> set (bs (hash k'))" for a
      using True that \<open>eq k k'\<close> \<open>hash k = hash k'\<close> equivp_symp [OF eq] equivp_transp [OF eq] by metis
    then have "find (\<lambda>a. eq (ht_key t a) k') (bs (hash k')) = None" by (simp add: find_None_iff)
    then show ?thesis by (simp add: ht_seek_find [OF s h])
  qed
  with e s show ?thesis by metis
next
  case False
  then have "\<exists>a\<in>set (bs (hash k)). eq (ht_key t a) k" by simp
  from split_list_first_propE [OF this]
  obtain xs a ys where b: "bs (hash k) = xs @ a # ys" "eq (ht_key t a) k" "\<forall>x\<in>set xs. \<not> eq (ht_key t x) k"
    by blast
  have "a \<in> set ls" using s b(1) h [of k] by (auto simp: ht_shape_def)
  then obtain us vs where l: "ls = us @ a # vs" by (auto dest: split_list)
  obtain t1 where t1: "ht_erase eq (hash k) k t = ht_free a t1" "ht_live t1 = ht_live t"
    "ht_table t1 = (if xs = [] then (ht_table t)[hash k := ht_next t a] else ht_table t)"
    "ht_first t1 = (if us = [] then ht_lnext t a else ht_first t)"
    "ht_next t1 = (if xs = [] then ht_next t else (ht_next t)(last xs := ht_next t a))"
    "ht_lnext t1 = (if us = [] then ht_lnext t else (ht_lnext t)(last us := ht_lnext t a))"
    "ht_lprev t1 = (if vs = [] then ht_lprev t else (ht_lprev t)(hd vs := ht_lprev t a))"
    "ht_key t1 = ht_key t" "ht_addrs t1 = ht_addrs t"
    using ht_unlink [OF s h b(1) l b(3,2)] by blast
  have al: "a \<in> ht_live t1" using s b(1) h [of k] t1(2) by (auto simp: ht_shape_def)
  then obtain it where "ht_get t1 a = Some it" by (auto simp: ht_live_def)
  from ht_free_Some [OF this] obtain t' where t': "ht_free a t1 = Some t'" "ht_get t' = (ht_get t1)(a := None)"
    "ht_first t' = ht_first t1" "ht_table t' = ht_table t1" "ht_live t' = ht_live t1 - {a}" by blast
  have same: "ht_next t' x = ht_next t1 x" "ht_lnext t' x = ht_lnext t1 x" "ht_lprev t' x = ht_lprev t1 x"
    "ht_key t' x = ht_key t x" "ht_addrs t' x = ht_addrs t x" if "x \<noteq> a" for x
    using that t1(8,9) [THEN fun_cong, of x] by (simp_all add: ht_views t'(2))
  let ?bs = "bs(hash k := xs @ ys)"
  have live: "set ls = ht_live t" and len: "length (ht_table t) = HACH_TABLE_MAX"
    and ch: "chain (ht_lnext t) (ht_first t) ls" "distinct ls" "back_chain (ht_lprev t) None ls"
    using s by (simp_all add: ht_shape_def)
  have inb: "a \<in> set (bs (hash k))" using b(1) by simp
  have sub: "set (bs i) \<subseteq> ht_live t" and hash: "\<And>x. x \<in> set (bs i) \<Longrightarrow> hash (ht_key t x) = i"
     and old: "chain (ht_next t) (ht_table t ! i) (bs i)" "distinct (bs i)"
        "\<And>a b. a \<in> set (bs i) \<Longrightarrow> b \<in> set (bs i) \<Longrightarrow> eq (ht_key t a) (ht_key t b) \<Longrightarrow> a = b"
    if "i < HACH_TABLE_MAX" for i
    using s that by (auto simp: ht_shape_def)
  have notin: "a \<notin> set (?bs i)" if "i < HACH_TABLE_MAX" for i
    using old(2) [OF h [of k]] hash [OF h inb] hash [OF that, of a] b(1) by auto
  have bchain: "chain (ht_next t1) (ht_table t1 ! i) (?bs i)" if i: "i < HACH_TABLE_MAX" for i
  proof (cases "i = hash k")
    case True
    have "chain (if xs = [] then ht_next t else (ht_next t)(last xs := ht_next t a))
        (if xs = [] then ht_next t a else ht_table t ! i) (xs @ ys)"
      using chain_remove [of "ht_next t" "ht_table t ! i" xs a ys] old(1,2) [OF i] b(1) True by simp
    with True i len show ?thesis by (auto simp: t1(3,5))
  next
    case False
    have "last xs \<notin> set (bs i)" if "xs \<noteq> []"
      using hash [OF i, of "last xs"] hash [OF h [of k], of "last xs"] False that b(1) by auto
    then have "chain (ht_next t1) (ht_table t ! i) (bs i)"
      using old(1) [OF i] by (auto simp: t1(5) chain_upd)
    with False show ?thesis by (simp add: t1(3))
  qed
  have bucket: "chain (ht_next t') (ht_table t' ! i) (?bs i) \<and> distinct (?bs i) \<and>
        (\<forall>x \<in> set (?bs i). x \<in> ht_live t' \<and> hash (ht_key t' x) = i) \<and>
        (\<forall>x \<in> set (?bs i). \<forall>y \<in> set (?bs i). eq (ht_key t' x) (ht_key t' y) \<longrightarrow> x = y)"
    if i: "i < HACH_TABLE_MAX" for i
  proof -
    have ne: "x \<noteq> a" if "x \<in> set (?bs i)" for x using notin [OF i] that by blast
    have "chain (ht_next t') (ht_table t' ! i) (?bs i)"
      using bchain [OF i] chain_cong [of "?bs i" "ht_next t'" "ht_next t1"] same(1) ne t'(4) by metis
    moreover have m: "set (?bs i) \<subseteq> set (bs i)" using b(1) by auto
    moreover have "distinct (?bs i)" using old(2) [OF i] b(1) by (auto split: if_splits)
    ultimately show ?thesis
      using sub [OF i] hash [OF i] old(3) [OF i] same(4) ne t'(5) t1(2) by (simp add: subset_iff del: fun_upd_apply)
  qed
  have "chain (ht_lnext t1) (ht_first t1) (us @ vs)"
    using chain_remove [of "ht_lnext t" "ht_first t" us a vs] ch l by (simp add: t1(4,6))
  moreover have dl: "a \<notin> set (us @ vs)" "distinct (us @ vs)" using ch(2) l by auto
  ultimately have lchain: "chain (ht_lnext t') (ht_first t') (us @ vs)"
    using chain_cong [of "us @ vs" "ht_lnext t'" "ht_lnext t1"] same(2) t'(3) by metis
  have "back_chain (ht_lprev t1) None (us @ vs)"
    using back_chain_remove [of "ht_lprev t" None us a vs] ch l by (simp add: t1(7))
  then have lback: "back_chain (ht_lprev t') None (us @ vs)"
    using back_chain_cong [of "us @ vs" "ht_lprev t'" "ht_lprev t1"] same(3) dl by metis
  have cover: "\<exists>i < HACH_TABLE_MAX. x \<in> set (?bs i)" if x: "x \<in> ht_live t'" for x
  proof -
    from x t'(5) t1(2) have "x \<noteq> a" "x \<in> ht_live t" by auto
    then obtain i where "i < HACH_TABLE_MAX" "x \<in> set (bs i)" using s by (auto simp: ht_shape_def)
    with \<open>x \<noteq> a\<close> b(1) show ?thesis by (intro exI [of _ i]) auto
  qed
  have s': "ht_shape eq hash t' ?bs (us @ vs)"
    unfolding ht_shape_def
  proof (intro conjI)
    show "length (ht_table t') = HACH_TABLE_MAX" using len by (simp add: t'(4) t1(3))
    show "\<forall>i<HACH_TABLE_MAX. chain (ht_next t') (ht_table t' ! i) (?bs i) \<and> distinct (?bs i) \<and>
        (\<forall>x \<in> set (?bs i). x \<in> ht_live t' \<and> hash (ht_key t' x) = i) \<and>
        (\<forall>x \<in> set (?bs i). \<forall>y \<in> set (?bs i). eq (ht_key t' x) (ht_key t' y) \<longrightarrow> x = y)"
      using bucket by blast
    show "\<forall>x\<in>ht_live t'. \<exists>i<HACH_TABLE_MAX. x \<in> set (?bs i)" using cover by blast
    show "set (us @ vs) = ht_live t'" using t'(5) t1(2) live ch(2) l by auto
  qed (use lchain lback dl in simp_all)
  have "ht_seek eq (hash k') k' t' =
       (if eq k k' \<and> hash k = hash k' then Some None else ht_seek eq (hash k') k' t)" for k'
  proof -
    have ne: "x \<noteq> a" if "x \<in> set (?bs (hash k'))" for x using notin [OF h, of k'] that by blast
    have f: "find (\<lambda>x. eq (ht_key t' x) k') (?bs (hash k')) = find (\<lambda>x. eq (ht_key t x) k') (?bs (hash k'))"
      by (rule find_cong) (use same(4) ne in simp_all)
    have m: "map_option (ht_addrs t') (find (\<lambda>x. eq (ht_key t x) k') (?bs (hash k'))) =
       map_option (ht_addrs t) (find (\<lambda>x. eq (ht_key t x) k') (?bs (hash k')))"
      using same(5) ne by (auto simp: find_Some_iff simp del: fun_upd_apply intro!: map_option_cong)
    show ?thesis
    proof (cases "hash k' = hash k")
      case False
      with f m show ?thesis unfolding ht_seek_find [OF s' h] ht_seek_find [OF s h] by auto
    next
      case True
      have "find (\<lambda>x. eq (ht_key t x) k') (xs @ ys) =
          (if eq k k' then None else find (\<lambda>x. eq (ht_key t x) k') (bs (hash k)))"
      proof (cases "eq k k'")
        case E: True
        have "\<not> eq (ht_key t x) k'" if x: "x \<in> set (xs @ ys)" for x
        proof
          assume "eq (ht_key t x) k'"
          then have "eq (ht_key t x) (ht_key t a)"
            using E b(2) equivp_symp [OF eq] equivp_transp [OF eq] by metis
          then have "x = a" using old(3) [OF h [of k], of x a] x b(1) by auto
          with x dl notin [OF h [of k]] show False by simp
        qed
        with E show ?thesis by (auto simp: find_None_iff)
      next
        case False
        then have "\<not> eq (ht_key t a) k'"
          using b(2) equivp_symp [OF eq] equivp_transp [OF eq] by metis
        with False show ?thesis by (simp add: b(1) find_remove1)
      qed
      with True f m show ?thesis unfolding ht_seek_find [OF s' h] ht_seek_find [OF s h] by simp
    qed
  qed
  with t1(1) t'(1) s' show ?thesis by metis
qed


section \<open>The two kinds of table\<close>

lemma hashtbl_init_shape: "ht_shape eq hash (hashtbl_init ty) (\<lambda>_. []) []"
  by (auto simp: ht_shape_def hashtbl_init_def ht_live_def ht_get_def)

lemma hashtbl_init_seek: "hash k < HACH_TABLE_MAX \<Longrightarrow> ht_seek eq (hash k) k (hashtbl_init ty) = Some None"
  using ht_seek_find [OF hashtbl_init_shape, of hash k] by simp

lemma hash_bound: "ape_hash_str seed k < HACH_TABLE_MAX" "hash64 key < HACH_TABLE_MAX"
  by (simp_all add: ape_hash_str_def hash64_def HACH_TABLE_MAX_def unat_mod)

lemma equivp_ci_eq: "equivp ci_eq"
  by (intro equivpI reflpI sympI transpI) (auto simp: ci_eq_def)

text \<open>A table's operations in any order: a key that is stored is first erased.\<close>

definition same_str :: "u32 \<Rightarrow> byte list \<Rightarrow> byte list \<Rightarrow> bool" where
  "same_str seed k k' \<longleftrightarrow> ci_eq k k' \<and> ape_hash_str seed k = ape_hash_str seed k'"

interpretation str_table: keyed_table "same_str seed" "ht_inv ci_eq (ape_hash_str seed)"
  "\<lambda>k. hashtbl_seek seed (Some k)" "\<lambda>k. hashtbl_append seed (Some k)" "\<lambda>k. hashtbl_erase seed (Some k)"
proof
  fix t :: "(byte list, 'v) htable" and k v
  assume "ht_inv ci_eq (ape_hash_str seed) t"
  then obtain bs ls where s: "ht_shape ci_eq (ape_hash_str seed) t bs ls" by (auto simp: ht_inv_def)
  show "\<exists>r. hashtbl_seek seed (Some k) t = Some r"
    using ht_seek_find [OF s hash_bound(1)] by (simp add: hashtbl_seek_def)
  show "\<exists>t'. hashtbl_erase seed (Some k) t = Some t' \<and> ht_inv ci_eq (ape_hash_str seed) t' \<and>
         (\<forall>k'. hashtbl_seek seed (Some k') t' =
           (if same_str seed k k' then Some None else hashtbl_seek seed (Some k') t))"
    using ht_erase_shape [OF s hash_bound(1) equivp_ci_eq, of k]
    unfolding hashtbl_seek_def hashtbl_erase_def same_str_def ht_inv_def option.case by blast
  show "\<exists>t'. hashtbl_append seed (Some k) v t = Some t' \<and> ht_inv ci_eq (ape_hash_str seed) t' \<and>
         (\<forall>k'. hashtbl_seek seed (Some k') t' =
           (if same_str seed k k' then Some (Some v) else hashtbl_seek seed (Some k') t))"
    if "hashtbl_seek seed (Some k) t = Some None"
    using ht_append_shape [OF s hash_bound(1) equivp_ci_eq, of k v] that
    unfolding hashtbl_seek_def hashtbl_append_def same_str_def ht_inv_def option.case by blast
qed

interpretation int_table: keyed_table "(=)" "ht_inv (=) hash64" hashtbl_seek64 hashtbl_append64 hashtbl_erase64
proof
  fix t :: "(u64, 'v) htable" and k v
  assume "ht_inv (=) hash64 t"
  then obtain bs ls where s: "ht_shape (=) hash64 t bs ls" by (auto simp: ht_inv_def)
  have eq: "(k = k' \<and> hash64 k = hash64 k') = (k = k')" for k' by auto
  show "\<exists>r. hashtbl_seek64 k t = Some r"
    using ht_seek_find [OF s hash_bound(2)] by (simp add: hashtbl_seek64_def)
  show "\<exists>t'. hashtbl_erase64 k t = Some t' \<and> ht_inv (=) hash64 t' \<and>
         (\<forall>k'. hashtbl_seek64 k' t' = (if k = k' then Some None else hashtbl_seek64 k' t))"
    using ht_erase_shape [OF s hash_bound(2) identity_equivp, of k]
    unfolding hashtbl_seek64_def hashtbl_erase64_def ht_inv_def eq by blast
  show "\<exists>t'. hashtbl_append64 k v t = Some t' \<and> ht_inv (=) hash64 t' \<and>
         (\<forall>k'. hashtbl_seek64 k' t' = (if k = k' then Some (Some v) else hashtbl_seek64 k' t))"
    if "hashtbl_seek64 k t = Some None"
    using ht_append_shape [OF s hash_bound(2) identity_equivp, of k v] that
    unfolding hashtbl_seek64_def hashtbl_append64_def ht_inv_def eq by blast
qed

definition hashtbl_run ::
    "u32 \<Rightarrow> (byte list \<times> 'v option) list \<Rightarrow> (byte list, 'v) htable \<Rightarrow> (byte list, 'v) htable option" where
  "hashtbl_run seed = keyed_table.run (\<lambda>k. hashtbl_append seed (Some k)) (\<lambda>k. hashtbl_erase seed (Some k))"

definition hashtbl_run64 :: "(u64 \<times> 'v option) list \<Rightarrow> (u64, 'v) htable \<Rightarrow> (u64, 'v) htable option" where
  "hashtbl_run64 = keyed_table.run hashtbl_append64 hashtbl_erase64"


subsection \<open>A key that is already stored\<close>

text \<open>
  The new cell is the \<open>lprev\<close> of the first item when the search finds the key; it is freed, and the
  pointer stays. The lookups are right; the next erasure of that first item writes through it.
\<close>

lemma ht_append_dup:
  assumes s: "ht_shape eq hash t bs (f # ls)" and h: "\<And>k. hash k < HACH_TABLE_MAX" and eq: "equivp eq"
    and old: "ht_seek eq (hash k) k t = Some (Some w)"
  shows "\<exists>t'. ht_append eq (hash k) k v t = Some t' \<and>
     (\<forall>k'. ht_seek eq (hash k') k' t' =
       (if eq k k' \<and> hash k = hash k' then Some (Some v) else ht_seek eq (hash k') k' t)) \<and>
     ht_erase eq (hash (ht_key t f)) (ht_key t f) t' = None"
proof -
  have first: "ht_first t = Some f" "f \<in> ht_live t" using s by (auto simp: ht_shape_def)
  have "\<exists>a\<in>set (bs (hash k)). eq (ht_key t a) k"
    using old ht_seek_find [OF s h] by (auto simp: find_Some_iff)
  from split_list_first_propE [OF this]
  obtain xs d ys where d: "bs (hash k) = xs @ d # ys" "eq (ht_key t d) k" "\<forall>x\<in>set xs. \<not> eq (ht_key t x) k"
    by blast
  obtain n where n: "n = length (ht_heap t)" by simp
  have fl: "\<forall>f. ht_first t = Some f \<longrightarrow> f \<in> ht_live t" using first by simp
  obtain t2 where t2: "ht_link_new k v t = Some t2" "n \<notin> ht_live t" "ht_table t2 = ht_table t"
    "ht_live t2 = insert n (ht_live t)"
    "\<forall>a\<in>ht_live t. ht_next t2 a = ht_next t a \<and> ht_key t2 a = ht_key t a \<and> ht_addrs t2 a = ht_addrs t a"
    "ht_lprev t2 f = Some n"
    by (rule ht_append_start [OF fl, of k v]) (use first n in auto)
  have sub: "set (bs i) \<subseteq> ht_live t" "chain (ht_next t) (ht_table t ! i) (bs i)"
    if "i < HACH_TABLE_MAX" for i
    using chain_live [OF s that] by simp_all
  have "chain (ht_next t2) (ht_table t2 ! hash k) (bs (hash k))"
    using chain_cong [of "bs (hash k)" "ht_next t2" "ht_next t"] sub [OF h [of k]] t2(3,5) by (metis subset_iff)
  then have c2: "chain (ht_next t2) (ht_table t2 ! hash k) (xs @ d # ys)" "set (xs @ [d]) \<subseteq> ht_live t2"
    using sub [OF h [of k]] t2(4) d(1) by auto
  have "\<forall>x\<in>set xs. \<not> eq (ht_key t2 x) k" "eq (ht_key t2 d) k"
    using d sub [OF h [of k]] t2(5) by auto
  note scan = ht_scan_hit [of t2 "ht_table t2 ! hash k" xs d ys eq k, OF c2 this, of None]
  have dl: "d \<in> ht_live t" "d \<noteq> n" using sub [OF h [of k]] d(1) t2(2) by auto
  obtain ni where "ht_get t2 n = Some ni" using t2(4) by (auto simp: ht_live_def)
  from ht_free_Some [OF this] obtain t3 where t3: "ht_free n t2 = Some t3"
    "ht_get t3 = (ht_get t2)(n := None)" "ht_table t3 = ht_table t2" "ht_live t3 = ht_live t2 - {n}" by blast
  obtain t' where t': "ht_upd d (\<lambda>it. it\<lparr>hi_addrs := v\<rparr>) t3 = Some t'"
    using ht_upd_defined [of d t3] t3(4) t2(4) dl by blast
  note u = ht_upd_views [OF t']
  have a: "ht_append eq (hash k) k v t = Some t'"
    using t2(1) scan t3(1) t' by (simp add: ht_append_def n)
  have live: "ht_live t' = ht_live t" using u(4) t3(4) t2(2,4) by auto
  obtain di where di: "ht_get t2 d = Some di" using dl t2(4) by (auto simp: ht_live_def)
  have view: "ht_next t' x = ht_next t x" "ht_key t' x = ht_key t x" "ht_lprev t' x = ht_lprev t2 x"
    "ht_addrs t' x = (if x = d then v else ht_addrs t x)"
    if "x \<in> ht_live t" for x
    using that t2(2,5) di dl by (auto simp: ht_views u t3(2))
  have tab: "ht_table t' = ht_table t" using u(3) t3(3) t2(3) by simp
  have chain': "chain (ht_next t') (ht_table t' ! i) (bs i)" if "i < HACH_TABLE_MAX" for i
    using sub [OF that] chain_cong [of "bs i" "ht_next t'" "ht_next t"] view(1) tab by (metis subset_iff)
  have seek: "ht_seek eq (hash k') k' t' =
      Some (map_option (ht_addrs t') (find (\<lambda>a. eq (ht_key t a) k') (bs (hash k'))))" for k'
  proof -
    have "find (\<lambda>a. eq (ht_key t' a) k') (bs (hash k')) = find (\<lambda>a. eq (ht_key t a) k') (bs (hash k'))"
      by (rule find_cong) (use view sub [OF h [of k']] in auto)
    then show ?thesis
      using ht_seek_chain [OF chain' [OF h], of k' eq k'] sub [OF h [of k']] live by simp
  qed
  have lookups: "ht_seek eq (hash k') k' t' =
       (if eq k k' \<and> hash k = hash k' then Some (Some v) else ht_seek eq (hash k') k' t)" for k'
  proof (cases "eq k k' \<and> hash k = hash k'")
    case True
    have "\<not> eq (ht_key t x) k'" if "x \<in> set xs" for x
      using d(3) that True equivp_symp [OF eq] equivp_transp [OF eq] by metis
    moreover have "eq (ht_key t d) k'" using d(2) True equivp_transp [OF eq] by metis
    ultimately have "find (\<lambda>a. eq (ht_key t a) k') (xs @ d # ys) = Some d" by (induction xs) auto
    with True d(1) show ?thesis by (simp add: seek view dl)
  next
    case False
    have "a \<noteq> d" if "find (\<lambda>a. eq (ht_key t a) k') (bs (hash k')) = Some a" for a
    proof
      assume "a = d"
      with that have m: "d \<in> set (bs (hash k'))" "eq (ht_key t d) k'" by (auto simp: find_Some_iff)
      then have "hash k' = hash k"
        using ht_shape_hash [OF s h [of k], of d] ht_shape_hash [OF s h [of k'], of d] d(1) by simp
      moreover have "eq k k'" using m(2) d(2) equivp_symp [OF eq] equivp_transp [OF eq] by metis
      ultimately show False using False by simp
    qed
    moreover have "a \<in> ht_live t" if "find (\<lambda>a. eq (ht_key t a) k') (bs (hash k')) = Some a" for a
      using that sub [OF h [of k']] by (auto simp: find_Some_iff)
    ultimately show ?thesis using False
      unfolding seek ht_seek_find [OF s h] by (auto simp: view intro!: map_option_cong)
  qed
  have "ht_erase eq (hash (ht_key t f)) (ht_key t f) t' = None"
  proof -
    let ?k = "ht_key t f"
    obtain i where i: "i < HACH_TABLE_MAX" "f \<in> set (bs i)" using s first by (auto simp: ht_shape_def)
    then have hi: "hash ?k = i" using s by (auto simp: ht_shape_def)
    from i(2) have "\<exists>x\<in>set (bs i). eq (ht_key t x) ?k" using equivp_reflp [OF eq] by blast
    from split_list_first_propE [OF this]
    obtain us g vs where g: "bs i = us @ g # vs" "eq (ht_key t g) ?k" "\<forall>x\<in>set us. \<not> eq (ht_key t x) ?k"
      by blast
    have "g = f" using s i g(1,2) by (auto simp: ht_shape_def)
    note g = g [unfolded this]
    have sl: "set (us @ f # vs) \<subseteq> ht_live t" using sub [OF i(1)] g(1) by simp
    have "\<forall>x\<in>set us. \<not> eq (ht_key t' x) ?k" "eq (ht_key t' f) ?k" using g(2,3) view(2) sl by auto
    then have sc: "ht_scan eq t' ?k None (ht_table t' ! i) =
        Some (if us = [] then None else Some (last us), Some f)"
      using ht_scan_hit [of t' "ht_table t' ! i" us f vs eq ?k None] chain' [OF i(1)] g(1) sl live by simp
    obtain fi where fi: "ht_get t' f = Some fi" using first(2) live by (auto simp: ht_live_def)
    have lp: "hi_lprev fi = Some n" using view(3) [OF first(2)] t2(6) fi by (simp add: ht_views)
    have nn: "ht_upd n p t'' = None" if "ht_live t'' = ht_live t" for p t''
    proof -
      have "n \<notin> ht_live t''" using that t2(2) by simp
      then have "ht_get t'' n = None" by (simp add: ht_live_def)
      then show ?thesis by (simp add: ht_upd_def)
    qed
    let ?X = "case if us = [] then None else Some (last us) of
              Some p \<Rightarrow> ht_upd p (\<lambda>pi. pi\<lparr>hi_next := hi_next fi\<rparr>) t'
            | None \<Rightarrow> Some (t'\<lparr>ht_table := (ht_table t')[i := hi_next fi]\<rparr>)"
    have e: "ht_erase eq (hash ?k) ?k t' =
        Option.bind ?X (\<lambda>t. Option.bind (ht_upd n (\<lambda>pi. pi\<lparr>hi_lnext := hi_lnext fi\<rparr>) t)
          (\<lambda>t. Option.bind
           (case hi_lnext fi of
              None \<Rightarrow> Some t
            | Some m \<Rightarrow> ht_upd m (\<lambda>ni. ni\<lparr>hi_lprev := Some n\<rparr>) t) (ht_free f)))"
      by (simp only: ht_erase_def hi sc fi lp Option.bind.bind_lunit prod.case option.case)
    show ?thesis
    proof (cases ?X)
      case None
      then show ?thesis by (simp only: e Option.bind.bind_lzero)
    next
      case (Some t'')
      have "ht_live t'' = ht_live t'"
      proof (cases "us = []")
        case True
        then have "t'' = t'\<lparr>ht_table := (ht_table t')[i := hi_next fi]\<rparr>" using Some by simp
        then show ?thesis by simp
      next
        case False
        then have "ht_upd (last us) (\<lambda>pi. pi\<lparr>hi_next := hi_next fi\<rparr>) t' = Some t''" using Some by simp
        then show ?thesis by (rule ht_upd_views(4))
      qed
      then have "ht_live t'' = ht_live t" using live by (rule trans)
      note n0 = nn [OF this]
      show ?thesis by (simp only: e Some n0 Option.bind.bind_lunit Option.bind.bind_lzero)
    qed
  qed
  with a lookups show ?thesis by blast
qed

section \<open>Freeing a table\<close>

lemma ht_free_chain_all:
  assumes "chain (ht_next t) p as" "set as \<subseteq> ht_live t" "distinct as"
  shows "\<exists>t'. ht_free_chain p t = Some t' \<and> ht_get t' = (\<lambda>x. if x \<in> set as then None else ht_get t x)"
  using assms
proof (induction as arbitrary: p t)
  case Nil
  then show ?case by (simp add: ht_free_chain.simps fun_eq_iff)
next
  case (Cons a as)
  then obtain it where it: "ht_get t a = Some it" by (auto simp: ht_live_def)
  from ht_free_Some [OF this] obtain t1 where t1: "ht_free a t = Some t1"
    "ht_get t1 = (ht_get t)(a := None)" "ht_live t1 = ht_live t - {a}" by blast
  have a: "a \<notin> set as" using Cons.prems by simp
  have "chain (ht_next t1) (ht_next t a) as = chain (ht_next t) (ht_next t a) as"
    by (rule chain_cong) (use a in \<open>auto simp: ht_next_def t1(2)\<close>)
  then obtain t' where "ht_free_chain (ht_next t a) t1 = Some t'"
    "ht_get t' = (\<lambda>x. if x \<in> set as then None else ht_get t1 x)"
    using Cons.IH [of t1 "ht_next t a"] Cons.prems t1(3) by auto
  then show ?case
    using Cons.prems it t1 by (auto simp: ht_free_chain.simps [of "Some a"] ht_next_def fun_eq_iff)
qed

lemma ht_free_buckets_all:
  assumes "\<forall>i\<in>set js. chain (ht_next t) (tb i) (bs i) \<and> set (bs i) \<subseteq> ht_live t \<and> distinct (bs i)"
    "\<forall>i\<in>set js. \<forall>j\<in>set js. i \<noteq> j \<longrightarrow> set (bs i) \<inter> set (bs j) = {}" "distinct js"
  shows "\<exists>t'. ht_free_buckets (map tb js) t = Some t' \<and> ht_live t' = ht_live t - (\<Union>i\<in>set js. set (bs i))"
  using assms
proof (induction js arbitrary: t)
  case (Cons j js)
  then obtain t1 where t1: "ht_free_chain (tb j) t = Some t1"
    "ht_get t1 = (\<lambda>x. if x \<in> set (bs j) then None else ht_get t x)"
    using ht_free_chain_all [of t "tb j" "bs j"] by auto
  then have l: "ht_live t1 = ht_live t - set (bs j)" by (auto simp: ht_live_def)
  have "chain (ht_next t1) (tb i) (bs i) \<and> set (bs i) \<subseteq> ht_live t1 \<and> distinct (bs i)" if i: "i \<in> set js" for i
  proof -
    have dj: "set (bs i) \<inter> set (bs j) = {}" using Cons.prems i by auto
    then have "chain (ht_next t1) (tb i) (bs i) = chain (ht_next t) (tb i) (bs i)"
      by (intro chain_cong) (auto simp: ht_next_def t1(2))
    with Cons.prems i dj l show ?thesis by auto
  qed
  then obtain t' where "ht_free_buckets (map tb js) t1 = Some t'"
    "ht_live t' = ht_live t1 - (\<Union>i\<in>set js. set (bs i))"
    using Cons.IH [of t1] Cons.prems by auto
  with t1(1) l show ?case by auto
qed simp

lemma hashtbl_free_all:
  assumes "ht_inv eq hash t"
  shows "\<exists>t'. hashtbl_free t = Some t' \<and> ht_live t' = {}"
proof -
  from assms obtain bs ls where s: "ht_shape eq hash t bs ls" by (auto simp: ht_inv_def)
  then have l: "length (ht_table t) = HACH_TABLE_MAX" by (simp add: ht_shape_def)
  let ?js = "[0..<HACH_TABLE_MAX]"
  have "\<forall>i\<in>set ?js. chain (ht_next t) (ht_table t ! i) (bs i) \<and> set (bs i) \<subseteq> ht_live t \<and> distinct (bs i)"
    using s by (auto simp: ht_shape_def)
  moreover have hash: "hash (ht_key t x) = i" if "i < HACH_TABLE_MAX" "x \<in> set (bs i)" for i x
    using s that by (simp add: ht_shape_def)
  then have "\<forall>i\<in>set ?js. \<forall>j\<in>set ?js. i \<noteq> j \<longrightarrow> set (bs i) \<inter> set (bs j) = {}"
    by (metis disjoint_iff atLeastLessThan_iff set_upt)
  ultimately obtain t' where t': "ht_free_buckets (map ((!) (ht_table t)) ?js) t = Some t'"
    "ht_live t' = ht_live t - (\<Union>i\<in>set ?js. set (bs i))"
    using ht_free_buckets_all [of ?js t "(!) (ht_table t)" bs] by auto
  have "map ((!) (ht_table t)) ?js = ht_table t" unfolding l [symmetric] by (rule map_nth)
  moreover have "ht_live t \<subseteq> (\<Union>i\<in>set ?js. set (bs i))" using ht_shape_cover [OF s] by fastforce
  ultimately show ?thesis using t' by (auto simp: hashtbl_free_def)
qed

lemma hashtbl64_runs:
  "\<exists>t. hashtbl_run64 ops (hashtbl_init APE_HASH_INT) = Some t \<and> ht_inv (=) hash64 t \<and>
     (\<forall>k. hashtbl_seek64 k t = Some (last_value (=) ops k))"
proof -
  have "ht_inv (=) hash64 (hashtbl_init APE_HASH_INT)"
    unfolding ht_inv_def using hashtbl_init_shape by blast
  moreover have "hashtbl_seek64 k (hashtbl_init APE_HASH_INT) = Some None" for k
    by (simp add: hashtbl_seek64_def hashtbl_init_seek [where hash = hash64] hash_bound)
  ultimately show ?thesis
    using int_table.run_values [of "hashtbl_init APE_HASH_INT" ops] unfolding hashtbl_run64_def by blast
qed


section \<open>Properties\<close>

text \<open>C36: from an empty string table, every sequence of appends and erasures is defined (no access
  to freed memory), and afterwards each key is found with the value it was last given, or not
  found when it was last erased; keys are the same when \<open>strcasecmp\<close> says so and they are in the
  same bucket.\<close>

theorem hashtbl_last_write:
  "\<exists>t. hashtbl_run seed ops (hashtbl_init APE_HASH_STR) = Some t \<and>
     (\<forall>k. hashtbl_seek seed (Some k) t = Some (last_value (same_str seed) ops k))"
proof -
  have "ht_inv ci_eq (ape_hash_str seed) (hashtbl_init APE_HASH_STR)"
    unfolding ht_inv_def using hashtbl_init_shape by blast
  moreover have "same_str seed k k" for k by (simp add: same_str_def)
  moreover have "hashtbl_seek seed (Some k) (hashtbl_init APE_HASH_STR) = Some None" for k
    by (simp add: hashtbl_seek_def hashtbl_init_seek [where hash = "ape_hash_str seed"] hash_bound)
  ultimately show ?thesis
    using str_table.run_values [of seed "hashtbl_init APE_HASH_STR" ops] by (auto simp: hashtbl_run_def)
qed

text \<open>the 64-bit table likewise, with equality of keys; after every sequence of operations,
  \<open>hashtbl_free\<close> is defined and frees every item: nothing is freed twice, and nothing is left.\<close>

theorem hashtbl64_no_leak:
  "\<exists>t t'. hashtbl_run64 ops (hashtbl_init APE_HASH_INT) = Some t \<and>
     (\<forall>k. hashtbl_seek64 k t = Some (last_value (=) ops k)) \<and>
     hashtbl_free t = Some t' \<and> ht_live t' = {}"
proof -
  obtain t where "hashtbl_run64 ops (hashtbl_init APE_HASH_INT) = Some t" "ht_inv (=) hash64 t"
    "\<forall>k. hashtbl_seek64 k t = Some (last_value (=) ops k)"
    using hashtbl64_runs [of ops] by blast
  with hashtbl_free_all show ?thesis by blast
qed

text \<open>the list of all items. After every sequence of operations the walk from \<open>first\<close> over
  \<open>lnext\<close> passes every allocated item once and nothing else, and \<open>lprev\<close> is the way back: an erasure
  unlinks from both lists.\<close>

theorem hashtbl64_item_list:
  "\<exists>t ls. hashtbl_run64 ops (hashtbl_init APE_HASH_INT) = Some t \<and>
     chain (ht_lnext t) (ht_first t) ls \<and> distinct ls \<and> back_chain (ht_lprev t) None ls \<and>
     set ls = ht_live t \<and> (\<forall>k. k \<in> ht_key t ` set ls \<longleftrightarrow> last_value (=) ops k \<noteq> None)"
proof -
  obtain t where t: "hashtbl_run64 ops (hashtbl_init APE_HASH_INT) = Some t" "ht_inv (=) hash64 t"
    "\<forall>k. hashtbl_seek64 k t = Some (last_value (=) ops k)"
    using hashtbl64_runs [of ops] by blast
  then obtain bs ls where s: "ht_shape (=) hash64 t bs ls" by (auto simp: ht_inv_def)
  have "k \<in> ht_key t ` set ls \<longleftrightarrow> last_value (=) ops k \<noteq> None" for k
  proof -
    have "last_value (=) ops k = map_option (ht_addrs t) (find (\<lambda>a. ht_key t a = k) (bs (hash64 k)))"
      using t(3) ht_seek_find [OF s hash_bound(2), of k] by (simp add: hashtbl_seek64_def)
    then have "last_value (=) ops k \<noteq> None \<longleftrightarrow> (\<exists>a\<in>set (bs (hash64 k)). ht_key t a = k)"
      by (auto simp: find_None_iff)
    also have "\<dots> \<longleftrightarrow> (\<exists>a\<in>ht_live t. ht_key t a = k)"
      using s hash_bound(2) by (auto simp: ht_shape_def) (metis (no_types, lifting))
    finally show ?thesis using s by (auto simp: ht_shape_def)
  qed
  moreover have "chain (ht_lnext t) (ht_first t) ls" "distinct ls" "back_chain (ht_lprev t) None ls"
    "set ls = ht_live t"
    using s by (simp_all add: ht_shape_def)
  ultimately show ?thesis using t(1) by blast
qed

text \<open>appending a key that is already stored replaces its value, but leaves the \<open>lprev\<close> of the
  first item of the list pointing to the cell that was just freed: the erasure of that item then
  writes to freed memory. Every table that was filled without such an append and is not empty has
  this item.\<close>

theorem hashtbl64_duplicate_dangles:
  assumes "hashtbl_run64 ops (hashtbl_init APE_HASH_INT) = Some t" "last_value (=) ops k = Some w"
  shows "\<exists>t' f. hashtbl_append64 k v t = Some t' \<and>
     (\<forall>k'. hashtbl_seek64 k' t' = (if k = k' then Some (Some v) else hashtbl_seek64 k' t)) \<and>
     ht_first t = Some f \<and> hashtbl_erase64 (ht_key t f) t' = None"
proof -
  have t: "ht_inv (=) hash64 t" "\<forall>k. hashtbl_seek64 k t = Some (last_value (=) ops k)"
    using hashtbl64_runs [of ops] assms(1) by auto
  then obtain bs ls where s: "ht_shape (=) hash64 t bs ls" by (auto simp: ht_inv_def)
  have k: "ht_seek (=) (hash64 k) k t = Some (Some w)" using t(2) assms(2) by (simp add: hashtbl_seek64_def)
  have "ls \<noteq> []"
  proof
    assume "ls = []"
    then have "bs (hash64 k) = []" using s hash_bound(2) [of k] by (auto simp: ht_shape_def)
    then show False using k ht_seek_find [OF s hash_bound(2), of k] by simp
  qed
  then obtain f fs where "ls = f # fs" by (cases ls) auto
  with s have s: "ht_shape (=) hash64 t bs (f # fs)" by simp
  have "(k = k' \<and> hash64 k = hash64 k') = (k = k')" for k' by auto
  moreover have "ht_first t = Some f" using s by (simp add: ht_shape_def)
  ultimately show ?thesis
    using ht_append_dup [OF s hash_bound(2) identity_equivp k, of v]
    unfolding hashtbl_append64_def hashtbl_seek64_def hashtbl_erase64_def by simp
qed

theorem hashtbl64_duplicate_dangles_witness:
  "\<exists>t t' f. hashtbl_run64 [(5, Some 7)] (hashtbl_init APE_HASH_INT) = Some t \<and>
     hashtbl_append64 5 (8 :: nat) t = Some t' \<and>
     (\<forall>k'. hashtbl_seek64 k' t' = (if 5 = k' then Some (Some 8) else hashtbl_seek64 k' t)) \<and>
     ht_first t = Some f \<and> hashtbl_erase64 (ht_key t f) t' = None"
proof -
  obtain t where t: "hashtbl_run64 [(5, Some (7 :: nat))] (hashtbl_init APE_HASH_INT) = Some t"
    using hashtbl64_runs by blast
  have "last_value (=) [(5 :: u64, Some (7 :: nat))] 5 = Some 7" by (simp add: last_value_def)
  from hashtbl64_duplicate_dangles [OF t this, of 8] t show ?thesis by blast
qed
end
