(* ===== verification/Command.thy ===== *)
theory Command
  imports Json_Tree Hash Base64 Array
begin

text \<open>
  Commands and users: \<^verbatim>\<open>ape_cmd.c\<close>, \<^verbatim>\<open>ape_user.c\<close>, \<^verbatim>\<open>ape_pipe.c\<close> and the random identifiers of
  \<^verbatim>\<open>ape_hash.c\<close>. A message is a tree of JSON items on a heap (\<^verbatim>\<open>Json_Tree\<close>); the commands are in a string
  table, the pipes in two tables of 64-bit keys (\<^verbatim>\<open>Hash\<close>), whose laws are used through the
  interpretations \<open>str_table\<close> and \<open>int_table\<close> of the locale of keyed tables. Pipes, users and sessions
  are addressed by their positions, as nothing ever frees one. The result \<open>None\<close> is undefined
  behaviour or a loop that does not end.
\<close>

section \<open>Users, pipes and commands\<close>

text \<open>
  What the operating system gives: the numbers read from \<^verbatim>\<open>/dev/urandom\<close>, the clock, and the seed
  of the string hash that was drawn at start-up.
\<close>

record ape_os =
  os_rand :: "nat \<Rightarrow> u64"
  os_time :: int
  os_seed :: u32

datatype ape_pipe_id_t = APE_PIPE_PUB_ID | APE_PIPE_PRIV_ID

record ape_pipe =
  pp_priv_str :: "byte list"
  pp_priv_bin :: u64
  pp_pub_str :: "byte list"
  pp_pub_bin :: u64
  pp_link :: "addr option"

record ape_user =
  us_pipe :: addr
  us_extend :: "unit array_state"

record ape_user_session =
  se_user :: addr
  se_client :: nat
  se_idle :: int
  se_connect :: int

text \<open>
  A command's function is the core's \<open>connect\<close>, or one that a module registered, of which the call is
  recorded. The session of a client is the client's own field.
\<close>

datatype cmd_call = Call_connect | Call_module nat

record ape_cmd_spec =
  cs_name :: "byte list"
  cs_call :: cmd_call
  cs_flags :: u16

definition APE_CMD_REQ_USER :: u16 where "APE_CMD_REQ_USER = push_bit 0 1"
definition APE_CMD_FAILFATAL :: u16 where "APE_CMD_FAILFATAL = push_bit 1 1"

record ape_message_client =
  mc_chl :: u32
  mc_cmd :: "ape_cmd_spec option"
  mc_client :: nat
  mc_time :: int

text \<open>Pipes, users and sessions are never freed: their addresses are positions.\<close>

record ape_global =
  g_cmds :: "(byte list, ape_cmd_spec) htable"
  g_pub :: "(u64, addr) htable"
  g_priv :: "(u64, addr) htable"
  g_pipes :: "ape_pipe list"
  g_users :: "ape_user list"
  g_sessions :: "ape_user_session list"
  g_drawn :: nat
  g_calls :: "(nat \<times> ape_message_client) list"

section \<open>Making a user\<close>

definition ape_rand_64 :: "ape_os \<Rightarrow> nat \<Rightarrow> u64 \<times> nat" where
  "ape_rand_64 os n = (os_rand os n, n + 1)"

text \<open>The number's bytes as they lie in memory, and their encoding.\<close>

definition ape_rand_64_base64_b :: "ape_os \<Rightarrow> nat \<Rightarrow> byte list \<times> u64 \<times> nat" where
  "ape_rand_64_base64_b os n =
     (let (r, n) = ape_rand_64 os n in (base64_encode_b (rev (be_bytes 8 (unat r))), r, n))"

text \<open>Drawn until the table does not have it: a source that only gives taken numbers never ends it.\<close>

partial_function (option) gen_id_loop ::
    "ape_os \<Rightarrow> (u64, addr) htable \<Rightarrow> nat \<Rightarrow> (byte list \<times> u64 \<times> nat) option" where
  "gen_id_loop os h n =
     (case ape_rand_64_base64_b os n of
        (str, bin, n) \<Rightarrow>
          Option.bind (hashtbl_seek64 bin h) (\<lambda>r.
          if r \<noteq> None then gen_id_loop os h n else Some (str, bin, n)))"

declare gen_id_loop.simps [code]

definition ape_pipe_gen_id :: "ape_os \<Rightarrow> addr \<Rightarrow> ape_pipe_id_t \<Rightarrow> ape_global \<Rightarrow> ape_global option" where
  "ape_pipe_gen_id os pipe type g =
     (case type of
        APE_PIPE_PUB_ID \<Rightarrow>
          Option.bind (gen_id_loop os (g_pub g) (g_drawn g)) (\<lambda>(str, bin, n).
          let g = g\<lparr>g_drawn := n, g_pipes := (g_pipes g)[pipe := (g_pipes g ! pipe)\<lparr>pp_pub_str := str, pp_pub_bin := bin\<rparr>]\<rparr>
          in map_option (\<lambda>h. g\<lparr>g_pub := h\<rparr>) (hashtbl_append64 bin pipe (g_pub g)))
      | APE_PIPE_PRIV_ID \<Rightarrow>
          Option.bind (gen_id_loop os (g_priv g) (g_drawn g)) (\<lambda>(str, bin, n).
          let g = g\<lparr>g_drawn := n, g_pipes := (g_pipes g)[pipe := (g_pipes g ! pipe)\<lparr>pp_priv_str := str, pp_priv_bin := bin\<rparr>]\<rparr>
          in map_option (\<lambda>h. g\<lparr>g_priv := h\<rparr>) (hashtbl_append64 bin pipe (g_priv g))))"

text \<open>\<open>raw\<close> is what \<open>malloc\<close> leaves in the pipe.\<close>

definition raw_pipe :: ape_pipe where
  "raw_pipe = \<lparr>pp_priv_str = [], pp_priv_bin = 0, pp_pub_str = [], pp_pub_bin = 0, pp_link = None\<rparr>"

definition APE_pipe_new :: "ape_os \<Rightarrow> ape_global \<Rightarrow> (addr \<times> ape_global) option" where
  "APE_pipe_new os g =
     (let pipe = length (g_pipes g);
          g = g\<lparr>g_pipes := g_pipes g @ [raw_pipe]\<rparr>
      in Option.bind (ape_pipe_gen_id os pipe APE_PIPE_PRIV_ID g) (\<lambda>g.
         Option.bind (ape_pipe_gen_id os pipe APE_PIPE_PUB_ID g) (\<lambda>g.
         Some (pipe, g\<lparr>g_pipes := (g_pipes g)[pipe := (g_pipes g ! pipe)\<lparr>pp_link := None\<rparr>]\<rparr>))))"

definition APE_user_new :: "ape_os \<Rightarrow> ape_global \<Rightarrow> (addr \<times> ape_global) option" where
  "APE_user_new os g =
     Option.bind (APE_pipe_new os g) (\<lambda>(pipe, g).
     let user = length (g_users g)
     in Some (user, g\<lparr>g_users := g_users g @ [\<lparr>us_pipe = pipe, us_extend = ape_array_new 8 [] []\<rparr>],
          g_pipes := (g_pipes g)[pipe := (g_pipes g ! pipe)\<lparr>pp_link := Some user\<rparr>]\<rparr>))"

definition APE_user_session_new :: "ape_os \<Rightarrow> addr \<Rightarrow> nat \<Rightarrow> ape_global \<Rightarrow> addr \<times> ape_global" where
  "APE_user_session_new os user client g =
     (length (g_sessions g),
      g\<lparr>g_sessions := g_sessions g @
        [\<lparr>se_user = user, se_client = client, se_idle = os_time os, se_connect = os_time os\<rparr>]\<rparr>)"

section \<open>Commands\<close>

definition APE_cmd_register :: "ape_os \<Rightarrow> ape_cmd_spec \<Rightarrow> ape_global \<Rightarrow> ape_global option" where
  "APE_cmd_register os spec g =
     map_option (\<lambda>t. g\<lparr>g_cmds := t\<rparr>) (hashtbl_append (os_seed os) (Some (cs_name spec)) spec (g_cmds g))"

definition ape_cmd_core :: "ape_cmd_spec list" where
  "ape_cmd_core = [\<lparr>cs_name = bytes ''connect'', cs_call = Call_connect, cs_flags = APE_CMD_FAILFATAL\<rparr>]"

primrec cmd_register_all :: "ape_os \<Rightarrow> ape_cmd_spec list \<Rightarrow> ape_global \<Rightarrow> ape_global option" where
  "cmd_register_all os [] g = Some g"
| "cmd_register_all os (c # cs) g = Option.bind (APE_cmd_register os c g) (cmd_register_all os cs)"

definition ape_cmd_init_core :: "ape_os \<Rightarrow> ape_global \<Rightarrow> ape_global option" where
  "ape_cmd_init_core os g = cmd_register_all os ape_cmd_core g"

text \<open>The tables of \<open>ape_init\<close>.\<close>

definition ape_global_init :: ape_global where
  "ape_global_init =
     \<lparr>g_cmds = hashtbl_init APE_HASH_STR, g_pub = hashtbl_init APE_HASH_INT, g_priv = hashtbl_init APE_HASH_INT,
      g_pipes = [], g_users = [], g_sessions = [], g_drawn = 0, g_calls = []\<rparr>"

text \<open>
  The hash of a name is of all its bytes; the comparison, \<open>strcasecmp\<close>, stops at a zero byte, which
  a string of a document can have.
\<close>

definition APE_cmd_lookup :: "ape_os \<Rightarrow> byte list option \<Rightarrow> ape_global \<Rightarrow> ape_cmd_spec option option" where
  "APE_cmd_lookup os name g =
     (case name of
        None \<Rightarrow> Some None
      | Some s \<Rightarrow>
          ht_seek (\<lambda>k s. ci_eq k (takeWhile (\<lambda>b. b \<noteq> 0) s)) (ape_hash_str (os_seed os) s) s (g_cmds g))"

text \<open>The client is its number and its session.\<close>

type_synonym cmd_state = "addr option \<times> ape_global"

definition ape_cmd__connect :: "ape_os \<Rightarrow> ape_message_client \<Rightarrow> cmd_state \<Rightarrow> cmd_state option" where
  "ape_cmd__connect os msg s =
     (case fst s of
        Some _ \<Rightarrow> Some s
      | None \<Rightarrow>
          Option.bind (APE_user_new os (snd s)) (\<lambda>(user, g).
          let (session, g) = APE_user_session_new os user (mc_client msg) g in Some (Some session, g)))"

definition cmd_run :: "ape_os \<Rightarrow> ape_cmd_spec \<Rightarrow> ape_message_client \<Rightarrow> cmd_state \<Rightarrow> cmd_state option" where
  "cmd_run os spec msg s =
     (case cs_call spec of
        Call_connect \<Rightarrow> ape_cmd__connect os msg s
      | Call_module k \<Rightarrow> Some (fst s, (snd s)\<lparr>g_calls := g_calls (snd s) @ [(k, msg)]\<rparr>))"

text \<open>The loop over the items of one command: \<open>Some None\<close> is \<open>return 0\<close>.\<close>

definition cmd_item ::
    "ape_os \<Rightarrow> nat \<Rightarrow> 'f json_item \<Rightarrow> cmd_state \<Rightarrow> ape_message_client \<Rightarrow> ape_message_client option option" where
  "cmd_item os i it s msg =
     (if i = 0 then
        (if ji_type it \<noteq> Some JSON_T_INTEGER then Some None
         else Some (Some (msg\<lparr>mc_chl := word_of_int (ji_integer it)\<rparr>)))
      else if i = 2 then
        (if ji_type it \<noteq> Some JSON_T_STRING then Some None
         else Option.bind (APE_cmd_lookup os (ji_str it) (snd s)) (\<lambda>cmd.
           case cmd of
             None \<Rightarrow> Some None
           | Some spec \<Rightarrow>
               if cs_flags spec AND APE_CMD_REQ_USER \<noteq> 0 \<and> fst s = None then Some None
               else Some (Some (msg\<lparr>mc_cmd := Some spec\<rparr>))))
      else Some (Some msg))"

partial_function (option) cmd_items ::
    "ape_os \<Rightarrow> 'f json_heap \<Rightarrow> nat \<Rightarrow> addr option \<Rightarrow> cmd_state \<Rightarrow> ape_message_client \<Rightarrow> ape_message_client option option" where
  "cmd_items os h i head s msg =
     (case head of
        None \<Rightarrow> Some (Some msg)
      | Some a \<Rightarrow>
          Option.bind (ji_get h a) (\<lambda>it.
          Option.bind (cmd_item os i it s msg) (\<lambda>r.
          case r of None \<Rightarrow> Some None | Some msg \<Rightarrow> cmd_items os h (i + 1) (ji_next it) s msg)))"

declare cmd_items.simps [code]

definition ape_cmd_process ::
    "ape_os \<Rightarrow> 'f json_heap \<Rightarrow> addr option \<Rightarrow> nat \<Rightarrow> cmd_state \<Rightarrow> (bool \<times> cmd_state) option" where
  "ape_cmd_process os h head client s =
     Option.bind (cmd_items os h 0 head s \<lparr>mc_chl = 0, mc_cmd = None, mc_client = client, mc_time = os_time os\<rparr>) (\<lambda>r.
     case r of
       None \<Rightarrow> Some (False, s)
     | Some msg \<Rightarrow>
         (case mc_cmd msg of
            None \<Rightarrow> Some (True, s)
          | Some spec \<Rightarrow> map_option (Pair True) (cmd_run os spec msg s)))"

partial_function (option) cmd_multi_loop ::
    "ape_os \<Rightarrow> 'f json_heap \<Rightarrow> addr option \<Rightarrow> nat \<Rightarrow> cmd_state \<Rightarrow> cmd_state option" where
  "cmd_multi_loop os h head client s =
     (case head of
        None \<Rightarrow> Some s
      | Some a \<Rightarrow>
          Option.bind (ji_get h a) (\<lambda>it.
          if ji_ctype it \<noteq> JSON_C_T_ARR then Some s
          else Option.bind (ape_cmd_process os h (ji_child it) client s) (\<lambda>(ok, s).
            if \<not> ok then Some s else cmd_multi_loop os h (ji_next it) client s)))"

declare cmd_multi_loop.simps [code]

definition ape_cmd_process_multi ::
    "ape_os \<Rightarrow> 'f json_heap \<Rightarrow> addr option \<Rightarrow> nat \<Rightarrow> cmd_state \<Rightarrow> cmd_state option" where
  "ape_cmd_process_multi os h head client s =
     (case head of
        None \<Rightarrow> Some s
      | Some a \<Rightarrow>
          Option.bind (ji_get h a) (\<lambda>it.
          if ji_child it = None then Some s else cmd_multi_loop os h (ji_child it) client s))"


section \<open>The tables of identifiers\<close>

text \<open>The table has the pipes' numbers, each with its pipe's address, and nothing else.\<close>

definition ids_ok :: "(u64, addr) htable \<Rightarrow> u64 list \<Rightarrow> bool" where
  "ids_ok t ks \<longleftrightarrow> ht_inv (=) hash64 t \<and>
     (\<forall>k p. hashtbl_seek64 k t = Some (Some p) \<longleftrightarrow> p < length ks \<and> ks ! p = k)"

lemma ids_ok_seek:
  assumes "ids_ok t ks"
  shows "\<exists>r. hashtbl_seek64 k t = Some r \<and> (r = None) = (k \<notin> set ks)"
proof -
  have i: "ht_inv (=) hash64 t"
    and e: "\<And>p. hashtbl_seek64 k t = Some (Some p) \<longleftrightarrow> p < length ks \<and> ks ! p = k"
    using assms by (simp_all add: ids_ok_def)
  obtain r where r: "hashtbl_seek64 k t = Some r" using int_table.lookup_defined [OF i] by blast
  have "(\<exists>p. r = Some p) = (k \<in> set ks)" using e by (simp add: r in_set_conv_nth)
  with r show ?thesis by (cases r) auto
qed

lemma ids_ok_distinct:
  assumes "ids_ok t ks"
  shows "distinct ks"
proof (rule distinct_conv_nth [THEN iffD2], intro allI impI notI)
  fix i j
  assume ij: "i < length ks" "j < length ks" "i \<noteq> j" "ks ! i = ks ! j"
  have "hashtbl_seek64 (ks ! i) t = Some (Some i)" "hashtbl_seek64 (ks ! i) t = Some (Some j)"
    using assms ij unfolding ids_ok_def by auto
  then show False using ij(3) by simp
qed

lemma ids_ok_append:
  assumes "ids_ok t ks" "k \<notin> set ks"
  shows "\<exists>t'. hashtbl_append64 k (length ks) t = Some t' \<and> ids_ok t' (ks @ [k])"
proof -
  have i: "ht_inv (=) hash64 t" using assms(1) by (simp add: ids_ok_def)
  have n: "hashtbl_seek64 k t = Some None" using ids_ok_seek [OF assms(1), of k] assms(2) by auto
  from int_table.insert_law [OF i n, of "length ks"] obtain t' where
    t': "hashtbl_append64 k (length ks) t = Some t'" "ht_inv (=) hash64 t'"
    "\<And>k'. hashtbl_seek64 k' t' = (if k = k' then Some (Some (length ks)) else hashtbl_seek64 k' t)"
    by blast
  have "hashtbl_seek64 k' t' = Some (Some p) \<longleftrightarrow> p < length (ks @ [k]) \<and> (ks @ [k]) ! p = k'" for k' p
    using assms unfolding t'(3) by (auto simp: ids_ok_def nth_append less_Suc_eq in_set_conv_nth)
  with t'(1,2) show ?thesis by (auto simp: ids_ok_def)
qed

lemma ids_ok_init: "ids_ok (hashtbl_init APE_HASH_INT) []"
proof -
  have "ht_inv (=) hash64 (hashtbl_init APE_HASH_INT :: (u64, addr) htable)"
    unfolding ht_inv_def using hashtbl_init_shape by blast
  moreover have "hashtbl_seek64 k (hashtbl_init APE_HASH_INT :: (u64, addr) htable) = Some None" for k
    by (simp add: hashtbl_seek64_def hashtbl_init_seek [where hash = hash64] hash_bound)
  ultimately show ?thesis by (simp add: ids_ok_def)
qed

text \<open>The string of a number, as a client sees it.\<close>

definition id_text :: "u64 \<Rightarrow> byte list" where
  "id_text r = base64_encode_b (rev (be_bytes 8 (unat r)))"

lemma ape_rand_64_base64_b_text: "ape_rand_64_base64_b os n = (id_text (os_rand os n), os_rand os n, n + 1)"
  by (simp add: ape_rand_64_base64_b_def ape_rand_64_def id_text_def)

lemma gen_id_loop_step:
  assumes "ids_ok t ks"
  shows "gen_id_loop os t n =
    (if os_rand os n \<in> set ks then gen_id_loop os t (n + 1)
     else Some (id_text (os_rand os n), os_rand os n, n + 1))"
  using ids_ok_seek [OF assms, of "os_rand os n"]
  by (subst gen_id_loop.simps) (auto simp: ape_rand_64_base64_b_text)

lemma gen_id_loop_first:
  "ids_ok t ks \<Longrightarrow> \<forall>i < d. os_rand os (n + i) \<in> set ks \<Longrightarrow> os_rand os (n + d) \<notin> set ks \<Longrightarrow>
   gen_id_loop os t n = Some (id_text (os_rand os (n + d)), os_rand os (n + d), n + d + 1)"
proof (induction d arbitrary: n)
  case 0
  then show ?case by (simp add: gen_id_loop_step)
next
  case (Suc d)
  have "\<forall>i < d. os_rand os (Suc n + i) \<in> set ks" using Suc.prems(2) by auto
  moreover have "os_rand os n \<in> set ks" using Suc.prems(2) by (metis add_0_right zero_less_Suc)
  ultimately show ?case using Suc.IH [of "Suc n"] Suc.prems(1,3) by (simp add: gen_id_loop_step)
qed

lemma gen_id_loop_starves:
  assumes "ids_ok t ks" "\<forall>m \<ge> n. os_rand os m \<in> set ks"
  shows "gen_id_loop os t n = None"
proof (rule ccontr)
  assume "gen_id_loop os t n \<noteq> None"
  then obtain r where r: "gen_id_loop os t n = Some r" by auto
  have "\<not> (os' = os \<and> t' = t \<and> (\<forall>m \<ge> n. os_rand os m \<in> set ks))" if "gen_id_loop os' t' n = Some r" for os' t' n r
  proof (rule gen_id_loop.raw_induct
      [where P = "\<lambda>os' t' n r. \<not> (os' = os \<and> t' = t \<and> (\<forall>m \<ge> n. os_rand os m \<in> set ks))", OF _ that])
    fix loop os' t' n r
    assume IH: "\<And>os' t' n r. loop os' t' n = Some r \<Longrightarrow> \<not> (os' = os \<and> t' = t \<and> (\<forall>m \<ge> n. os_rand os m \<in> set ks))"
      and eq: "(case ape_rand_64_base64_b os' n of (str, bin, n) \<Rightarrow>
          Option.bind (hashtbl_seek64 bin t') (\<lambda>r.
          if r \<noteq> None then loop os' t' n else Some (str, bin, n))) = Some r"
    show "\<not> (os' = os \<and> t' = t \<and> (\<forall>m \<ge> n. os_rand os m \<in> set ks))"
    proof
      assume a: "os' = os \<and> t' = t \<and> (\<forall>m \<ge> n. os_rand os m \<in> set ks)"
      then have "os_rand os n \<in> set ks" by simp
      with ids_ok_seek [OF assms(1), of "os_rand os n"] obtain p where "hashtbl_seek64 (os_rand os n) t = Some (Some p)" by auto
      with eq a have "loop os t (n + 1) = Some r" by (simp add: ape_rand_64_base64_b_text)
      from IH [OF this] a show False by simp
    qed
  qed
  from this [OF r] assms(2) show False by simp
qed

lemma gen_id_loop_result:
  assumes "ids_ok t ks" "gen_id_loop os t n = Some (str, bin, m)"
  shows "bin \<notin> set ks \<and> str = id_text bin \<and> n < m \<and> bin = os_rand os (m - 1)"
proof -
  have ex: "\<exists>d. os_rand os (n + d) \<notin> set ks"
  proof (rule ccontr)
    assume "\<nexists>d. os_rand os (n + d) \<notin> set ks"
    then have "\<forall>m \<ge> n. os_rand os m \<in> set ks" by (auto simp: le_iff_add)
    from gen_id_loop_starves [OF assms(1) this] assms(2) show False by simp
  qed
  let ?d = "LEAST d. os_rand os (n + d) \<notin> set ks"
  have "os_rand os (n + ?d) \<notin> set ks" using LeastI_ex [OF ex] .
  moreover have "\<forall>i < ?d. os_rand os (n + i) \<in> set ks" using not_less_Least by blast
  ultimately show ?thesis using gen_id_loop_first [OF assms(1), of ?d os n] assms(2) by auto
qed

lemma gen_id_loop_returns:
  assumes "ids_ok t ks" "\<exists>m \<ge> n. os_rand os m \<notin> set ks"
  shows "\<exists>str bin m. gen_id_loop os t n = Some (str, bin, m)"
proof -
  have ex: "\<exists>d. os_rand os (n + d) \<notin> set ks" using assms(2) by (auto simp: le_iff_add)
  let ?d = "LEAST d. os_rand os (n + d) \<notin> set ks"
  have "os_rand os (n + ?d) \<notin> set ks" using LeastI_ex [OF ex] .
  moreover have "\<forall>i < ?d. os_rand os (n + i) \<in> set ks" using not_less_Least by blast
  ultimately show ?thesis using gen_id_loop_first [OF assms(1), of ?d os n] by blast
qed

section \<open>Users, pipes and sessions stay consistent\<close>

text \<open>
  Every pipe is in the two tables under its numbers, and only the pipes are; its strings are the
  numbers' texts; pipes and users belong to each other; a session has a user.
\<close>

definition g_ok :: "ape_global \<Rightarrow> bool" where
  "g_ok g \<longleftrightarrow>
     ids_ok (g_priv g) (map pp_priv_bin (g_pipes g)) \<and> ids_ok (g_pub g) (map pp_pub_bin (g_pipes g)) \<and>
     (\<forall>p \<in> set (g_pipes g). pp_priv_str p = id_text (pp_priv_bin p) \<and> pp_pub_str p = id_text (pp_pub_bin p)) \<and>
     map us_pipe (g_users g) = [0..<length (g_pipes g)] \<and>
     map pp_link (g_pipes g) = map Some [0..<length (g_users g)] \<and>
     (\<forall>s \<in> set (g_sessions g). se_user s < length (g_users g))"

definition session_ok :: "nat \<Rightarrow> cmd_state \<Rightarrow> bool" where
  "session_ok client s \<longleftrightarrow>
     (case fst s of
        None \<Rightarrow> True
      | Some a \<Rightarrow> a < length (g_sessions (snd s)) \<and> se_client (g_sessions (snd s) ! a) = client)"

text \<open>What was there is still there.\<close>

definition g_grows :: "ape_global \<Rightarrow> ape_global \<Rightarrow> bool" where
  "g_grows g g' \<longleftrightarrow> g_cmds g' = g_cmds g \<and>
     (\<exists>ps us ss cs. g_pipes g' = g_pipes g @ ps \<and> g_users g' = g_users g @ us \<and>
        g_sessions g' = g_sessions g @ ss \<and> g_calls g' = g_calls g @ cs)"

lemma g_grows_refl [simp]: "g_grows g g"
  by (simp add: g_grows_def)

lemma g_grows_trans: "g_grows g g' \<Longrightarrow> g_grows g' g'' \<Longrightarrow> g_grows g g''"
  unfolding g_grows_def by fastforce

text \<open>A fresh number comes sooner or later.\<close>

definition rand_fresh :: "ape_os \<Rightarrow> ape_global \<Rightarrow> bool" where
  "rand_fresh os g \<longleftrightarrow> (\<forall>n. \<exists>m \<ge> n.
     os_rand os m \<notin> pp_priv_bin ` set (g_pipes g) \<union> pp_pub_bin ` set (g_pipes g))"

lemma ape_pipe_gen_id_priv:
  assumes "ids_ok (g_priv g) (map pp_priv_bin ps)" "g_pipes g = ps @ [p]"
    and "ape_pipe_gen_id os (length ps) APE_PIPE_PRIV_ID g = Some g'"
  shows "\<exists>t n bin. g' = g\<lparr>g_drawn := n, g_pipes := ps @ [p\<lparr>pp_priv_str := id_text bin, pp_priv_bin := bin\<rparr>], g_priv := t\<rparr> \<and>
    ids_ok t (map pp_priv_bin ps @ [bin]) \<and> bin \<in> range (os_rand os)"
proof -
  obtain str bin n where r: "gen_id_loop os (g_priv g) (g_drawn g) = Some (str, bin, n)"
    using assms(3) by (auto simp: ape_pipe_gen_id_def bind_eq_Some_conv)
  note f = gen_id_loop_result [OF assms(1) r]
  obtain t where t: "hashtbl_append64 bin (length ps) (g_priv g) = Some t" "ids_ok t (map pp_priv_bin ps @ [bin])"
    using ids_ok_append [OF assms(1), of bin] f by auto
  have "g' = g\<lparr>g_drawn := n, g_pipes := ps @ [p\<lparr>pp_priv_str := id_text bin, pp_priv_bin := bin\<rparr>], g_priv := t\<rparr>"
    using assms(2,3) r f t(1) by (simp add: ape_pipe_gen_id_def Let_def)
  with t(2) f show ?thesis by blast
qed

lemma ape_pipe_gen_id_pub:
  assumes "ids_ok (g_pub g) (map pp_pub_bin ps)" "g_pipes g = ps @ [p]"
    and "ape_pipe_gen_id os (length ps) APE_PIPE_PUB_ID g = Some g'"
  shows "\<exists>t n bin. g' = g\<lparr>g_drawn := n, g_pipes := ps @ [p\<lparr>pp_pub_str := id_text bin, pp_pub_bin := bin\<rparr>], g_pub := t\<rparr> \<and>
    ids_ok t (map pp_pub_bin ps @ [bin]) \<and> bin \<in> range (os_rand os)"
proof -
  obtain str bin n where r: "gen_id_loop os (g_pub g) (g_drawn g) = Some (str, bin, n)"
    using assms(3) by (auto simp: ape_pipe_gen_id_def bind_eq_Some_conv)
  note f = gen_id_loop_result [OF assms(1) r]
  obtain t where t: "hashtbl_append64 bin (length ps) (g_pub g) = Some t" "ids_ok t (map pp_pub_bin ps @ [bin])"
    using ids_ok_append [OF assms(1), of bin] f by auto
  have "g' = g\<lparr>g_drawn := n, g_pipes := ps @ [p\<lparr>pp_pub_str := id_text bin, pp_pub_bin := bin\<rparr>], g_pub := t\<rparr>"
    using assms(2,3) r f t(1) by (simp add: ape_pipe_gen_id_def Let_def)
  with t(2) f show ?thesis by blast
qed

lemma APE_user_new_ok:
  assumes "g_ok g" "APE_user_new os g = Some (u, g')"
  shows "\<exists>t1 t2 n p. u = length (g_users g) \<and>
    g' = g\<lparr>g_drawn := n, g_priv := t1, g_pub := t2, g_pipes := g_pipes g @ [p],
      g_users := g_users g @ [\<lparr>us_pipe = length (g_pipes g), us_extend = ape_array_new 8 [] []\<rparr>]\<rparr> \<and>
    ids_ok t1 (map pp_priv_bin (g_pipes g @ [p])) \<and> ids_ok t2 (map pp_pub_bin (g_pipes g @ [p])) \<and>
    pp_priv_str p = id_text (pp_priv_bin p) \<and> pp_pub_str p = id_text (pp_pub_bin p) \<and>
    pp_link p = Some (length (g_users g)) \<and> pp_priv_bin p \<in> range (os_rand os) \<and> pp_pub_bin p \<in> range (os_rand os)"
proof -
  let ?g0 = "g\<lparr>g_pipes := g_pipes g @ [raw_pipe]\<rparr>"
  obtain g1 g2 where
    g1: "ape_pipe_gen_id os (length (g_pipes g)) APE_PIPE_PRIV_ID ?g0 = Some g1" and
    g2: "ape_pipe_gen_id os (length (g_pipes g)) APE_PIPE_PUB_ID g1 = Some g2"
    using assms(2) by (auto simp: APE_user_new_def APE_pipe_new_def Let_def bind_eq_Some_conv)
  have "ids_ok (g_priv ?g0) (map pp_priv_bin (g_pipes g))" using assms(1) by (simp add: g_ok_def)
  from ape_pipe_gen_id_priv [OF this _ g1] obtain t1 n1 b1 where
    e1: "g1 = ?g0\<lparr>g_drawn := n1,
      g_pipes := g_pipes g @ [raw_pipe\<lparr>pp_priv_str := id_text b1, pp_priv_bin := b1\<rparr>], g_priv := t1\<rparr>" and
    i1: "ids_ok t1 (map pp_priv_bin (g_pipes g) @ [b1])" "b1 \<in> range (os_rand os)" by auto
  have "ids_ok (g_pub g1) (map pp_pub_bin (g_pipes g))" using assms(1) by (simp add: g_ok_def e1)
  from ape_pipe_gen_id_pub [OF this _ g2] e1 obtain t2 n2 b2 where
    e2: "g2 = g1\<lparr>g_drawn := n2,
      g_pipes := g_pipes g @ [raw_pipe\<lparr>pp_priv_str := id_text b1, pp_priv_bin := b1,
        pp_pub_str := id_text b2, pp_pub_bin := b2\<rparr>], g_pub := t2\<rparr>" and
    i2: "ids_ok t2 (map pp_pub_bin (g_pipes g) @ [b2])" "b2 \<in> range (os_rand os)" by auto
  show ?thesis
    using assms(2) g1 g2 i1 i2 unfolding e2 e1
    by (cases g) (intro exI [of _ t1] exI [of _ t2] exI [of _ n2]
        exI [of _ "raw_pipe\<lparr>pp_priv_str := id_text b1, pp_priv_bin := b1,
          pp_pub_str := id_text b2, pp_pub_bin := b2, pp_link := Some (length (g_users g))\<rparr>"]; auto simp: APE_user_new_def APE_pipe_new_def Let_def)
qed

lemma APE_user_new_returns:
  assumes "g_ok g" "rand_fresh os g"
  shows "\<exists>r. APE_user_new os g = Some r"
proof -
  have ex: "\<exists>m \<ge> n. os_rand os m \<notin> set (map pp_priv_bin (g_pipes g)) \<and> os_rand os m \<notin> set (map pp_pub_bin (g_pipes g))" for n
    using assms(2) by (fastforce simp: rand_fresh_def)
  let ?g0 = "g\<lparr>g_pipes := g_pipes g @ [raw_pipe]\<rparr>"
  have i0: "ids_ok (g_priv g) (map pp_priv_bin (g_pipes g))" using assms(1) by (simp add: g_ok_def)
  then have i: "ids_ok (g_priv ?g0) (map pp_priv_bin (g_pipes g))" by simp
  obtain str bin m where r: "gen_id_loop os (g_priv g) (g_drawn g) = Some (str, bin, m)"
    using gen_id_loop_returns [OF i0, of "g_drawn g" os] ex by blast
  obtain g1 where g1: "ape_pipe_gen_id os (length (g_pipes g)) APE_PIPE_PRIV_ID ?g0 = Some g1"
    using ids_ok_append [OF i, of bin] gen_id_loop_result [OF i, of os "g_drawn g" str bin m] r
    by (auto simp: ape_pipe_gen_id_def Let_def)
  from ape_pipe_gen_id_priv [OF i _ g1] obtain t1 n1 b1 where
    e1: "g1 = ?g0\<lparr>g_drawn := n1,
      g_pipes := g_pipes g @ [raw_pipe\<lparr>pp_priv_str := id_text b1, pp_priv_bin := b1\<rparr>], g_priv := t1\<rparr>" by auto
  have i1: "ids_ok (g_pub g1) (map pp_pub_bin (g_pipes g))" using assms(1) by (simp add: g_ok_def e1)
  obtain str' bin' m' where r': "gen_id_loop os (g_pub g1) (g_drawn g1) = Some (str', bin', m')"
    using gen_id_loop_returns [OF i1, of "g_drawn g1" os] ex by blast
  have "\<exists>g2. ape_pipe_gen_id os (length (g_pipes g)) APE_PIPE_PUB_ID g1 = Some g2"
    using ids_ok_append [OF i1, of bin'] gen_id_loop_result [OF i1 r'] r'
    by (auto simp: ape_pipe_gen_id_def Let_def)
  with g1 show ?thesis by (auto simp: APE_user_new_def APE_pipe_new_def Let_def)
qed

lemma connect_ok:
  assumes "g_ok (snd s)" "ape_cmd__connect os msg s = Some s'"
  shows "g_ok (snd s') \<and> g_grows (snd s) (snd s') \<and> fst s' \<noteq> None \<and>
    (session_ok (mc_client msg) s \<longrightarrow> session_ok (mc_client msg) s')"
proof (cases "fst s")
  case None
  obtain u g where u: "APE_user_new os (snd s) = Some (u, g)"
    using assms(2) None by (auto simp: ape_cmd__connect_def bind_eq_Some_conv)
  with assms(2) None have s': "s' = (Some (length (g_sessions g)), g\<lparr>g_sessions := g_sessions g @
      [\<lparr>se_user = u, se_client = mc_client msg, se_idle = os_time os, se_connect = os_time os\<rparr>]\<rparr>)"
    by (auto simp: ape_cmd__connect_def APE_user_session_new_def)
  from APE_user_new_ok [OF assms(1) u] assms(1) show ?thesis
    by (auto simp: s' g_ok_def g_grows_def session_ok_def less_SucI)
next
  case (Some a)
  then have "s' = s" using assms(2) by (simp add: ape_cmd__connect_def)
  with assms(1) Some show ?thesis by simp
qed

lemma cmd_run_ok:
  assumes "g_ok (snd s)" "cmd_run os spec msg s = Some s'"
  shows "g_ok (snd s') \<and> g_grows (snd s) (snd s') \<and> (fst s \<noteq> None \<longrightarrow> fst s' = fst s) \<and>
    (session_ok (mc_client msg) s \<longrightarrow> session_ok (mc_client msg) s')"
proof (cases "cs_call spec")
  case Call_connect
  then have c: "ape_cmd__connect os msg s = Some s'" using assms(2) by (simp add: cmd_run_def)
  moreover have "fst s \<noteq> None \<Longrightarrow> fst s' = fst s" using c by (auto simp: ape_cmd__connect_def)
  ultimately show ?thesis using connect_ok [OF assms(1) c] by simp
next
  case (Call_module k)
  then show ?thesis using assms by (auto simp: cmd_run_def g_ok_def g_grows_def session_ok_def split: option.splits)
qed

section \<open>What a message means\<close>

text \<open>
  A message is a list of commands, each a list of its challenge, its parameters and its name. The
  specification reads one command, or refuses it, and runs the commands up to the first that is
  refused or is no list.
\<close>

definition cmds_of :: "ape_os \<Rightarrow> ape_global \<Rightarrow> byte list option \<Rightarrow> ape_cmd_spec option" where
  "cmds_of os g name = the (APE_cmd_lookup os name g)"

fun read_command ::
    "(byte list option \<Rightarrow> ape_cmd_spec option) \<Rightarrow> bool \<Rightarrow> 'f jtree list \<Rightarrow> (u32 \<times> ape_cmd_spec option) option" where
  "read_command look user [] = Some (0, None)"
| "read_command look user (JT a c cs # ts) =
     (if ji_type c \<noteq> Some JSON_T_INTEGER then None
      else case ts of
        _ # JT b n ns # _ \<Rightarrow>
          (if ji_type n \<noteq> Some JSON_T_STRING then None
           else case look (ji_str n) of
             None \<Rightarrow> None
           | Some spec \<Rightarrow>
               if cs_flags spec AND APE_CMD_REQ_USER \<noteq> 0 \<and> \<not> user then None
               else Some (word_of_int (ji_integer c), Some spec))
      | _ \<Rightarrow> Some (word_of_int (ji_integer c), None))"

definition cmd_message :: "ape_os \<Rightarrow> nat \<Rightarrow> u32 \<Rightarrow> ape_cmd_spec \<Rightarrow> ape_message_client" where
  "cmd_message os client chl spec = \<lparr>mc_chl = chl, mc_cmd = Some spec, mc_client = client, mc_time = os_time os\<rparr>"

fun run_commands :: "ape_os \<Rightarrow> nat \<Rightarrow> 'f jtree list \<Rightarrow> cmd_state \<Rightarrow> cmd_state option" where
  "run_commands os client [] s = Some s"
| "run_commands os client (JT a d ts # us) s =
     (if ji_ctype d \<noteq> JSON_C_T_ARR then Some s
      else case read_command (cmds_of os (snd s)) (fst s \<noteq> None) ts of
        None \<Rightarrow> Some s
      | Some (chl, None) \<Rightarrow> run_commands os client us s
      | Some (chl, Some spec) \<Rightarrow>
          Option.bind (cmd_run os spec (cmd_message os client chl spec) s) (run_commands os client us))"

definition cmds_inv :: "ape_os \<Rightarrow> ape_global \<Rightarrow> bool" where
  "cmds_inv os g \<longleftrightarrow> ht_inv ci_eq (ape_hash_str (os_seed os)) (g_cmds g)"

lemma APE_cmd_lookup_defined:
  assumes "cmds_inv os g"
  shows "APE_cmd_lookup os name g = Some (cmds_of os g name)"
proof (cases name)
  case None
  then show ?thesis by (simp add: cmds_of_def APE_cmd_lookup_def)
next
  case (Some s)
  let ?i = "ape_hash_str (os_seed os) s"
  obtain bs ls where sh: "ht_shape ci_eq (ape_hash_str (os_seed os)) (g_cmds g) bs ls"
    using assms by (auto simp: cmds_inv_def ht_inv_def)
  have "chain (ht_next (g_cmds g)) (ht_table (g_cmds g) ! ?i) (bs ?i)" "set (bs ?i) \<subseteq> ht_live (g_cmds g)"
    using sh hash_bound(1) [of "os_seed os" s] by (auto simp: ht_shape_def)
  from ht_seek_chain [OF this] show ?thesis using Some by (simp add: cmds_of_def APE_cmd_lookup_def)
qed

lemma ji_data_views [simp]:
  "ji_type (ji_data it) = ji_type it" "ji_integer (ji_data it) = ji_integer it" "ji_str (ji_data it) = ji_str it"
  "ji_ctype (ji_data it) = ji_ctype it"
  by (simp_all add: ji_data_def)

lemma cmd_items_rest:
  "jrep h f p ts \<Longrightarrow> i > 2 \<Longrightarrow> cmd_items os h i p s msg = Some (Some msg)"
proof (induction h f p ts arbitrary: i rule: jrep.induct)
  case (1 h f p)
  then show ?case by (subst cmd_items.simps) simp
next
  case (2 h f p a d ts us)
  then obtain it where it: "p = Some a" "ji_get h a = Some it" "jrep h f (ji_next it) us" by auto
  with "2.IH"(2) [OF it(3), of "i + 1"] "2.prems"(2) show ?case
    by (subst cmd_items.simps) (simp add: cmd_item_def)
qed

lemma cmd_items_read:
  assumes "jrep h f p ts" "cmds_inv os (snd s)"
  shows "cmd_items os h 0 p s msg =
    Some (map_option (\<lambda>(chl, spec). case spec of
        None \<Rightarrow> if ts = [] then msg else msg\<lparr>mc_chl := chl\<rparr>
      | Some _ \<Rightarrow> msg\<lparr>mc_chl := chl, mc_cmd := spec\<rparr>) (read_command (cmds_of os (snd s)) (fst s \<noteq> None) ts))"
proof -
  note look = APE_cmd_lookup_defined [OF assms(2)]
  note step = cmd_items.simps [of os h 0] cmd_items.simps [of os h "Suc 0"] cmd_items.simps [of os h 2]
    cmd_items.simps [of os h "Suc (Suc 0)"]
  show ?thesis
  proof (cases ts)
    case Nil
    with assms(1) show ?thesis by (simp add: step)
  next
    case (Cons t us)
    obtain a c cs where t: "t = JT a c cs" by (cases t)
    obtain it where it: "p = Some a" "ji_get h a = Some it" "ji_data it = c" "jrep h f (ji_next it) us"
      using assms(1) by (auto simp: Cons t)
    show ?thesis
    proof (cases us)
      case Nil
      with it show ?thesis by (auto simp: Cons t step cmd_item_def)
    next
      case us: (Cons t1 vs)
      obtain a1 c1 cs1 where t1: "t1 = JT a1 c1 cs1" by (cases t1)
      obtain it1 where it1: "ji_next it = Some a1" "ji_get h a1 = Some it1" "jrep h f (ji_next it1) vs"
        using it(4) by (auto simp: us t1)
      show ?thesis
      proof (cases vs)
        case Nil
        with it it1 show ?thesis by (auto simp: Cons us t t1 step cmd_item_def)
      next
        case vs: (Cons t2 ws)
        obtain a2 c2 cs2 where t2: "t2 = JT a2 c2 cs2" by (cases t2)
        obtain it2 where it2: "ji_next it1 = Some a2" "ji_get h a2 = Some it2" "ji_data it2 = c2"
          "jrep h f (ji_next it2) ws" using it1(3) by (auto simp: vs t2)
        have rest: "cmd_items os h (Suc (Suc (Suc 0))) (ji_next it2) s m = Some (Some m)" for m
          by (rule cmd_items_rest [OF it2(4)]) simp
        show ?thesis using it it1 it2
          by (auto simp: Cons us vs t t1 t2 step cmd_item_def look rest split: option.split)
      qed
    qed
  qed
qed

lemma ape_cmd_process_read:
  assumes "jrep h f p ts" "cmds_inv os (snd s)"
  shows "ape_cmd_process os h p client s =
    (case read_command (cmds_of os (snd s)) (fst s \<noteq> None) ts of
       None \<Rightarrow> Some (False, s)
     | Some (chl, None) \<Rightarrow> Some (True, s)
     | Some (chl, Some spec) \<Rightarrow> map_option (Pair True) (cmd_run os spec (cmd_message os client chl spec) s))"
  unfolding ape_cmd_process_def cmd_items_read [OF assms]
  by (auto simp: cmd_message_def split: option.split)

lemma cmd_run_cmds:
  assumes "cmd_run os spec msg s = Some s'"
  shows "g_cmds (snd s') = g_cmds (snd s)"
  using assms
  by (auto simp: cmd_run_def ape_cmd__connect_def APE_user_new_def APE_user_session_new_def APE_pipe_new_def
      ape_pipe_gen_id_def Let_def bind_eq_Some_conv split: cmd_call.splits option.splits)

lemma cmd_multi_loop_run:
  "jrep h f p ts \<Longrightarrow> cmds_inv os (snd s) \<Longrightarrow> cmd_multi_loop os h p client s = run_commands os client ts s"
proof (induction ts arbitrary: p s)
  case Nil
  then show ?case by (simp add: cmd_multi_loop.simps)
next
  case (Cons t us)
  obtain a d cs where t: "t = JT a d cs" by (cases t)
  obtain it where it: "p = Some a" "ji_get h a = Some it" "ji_data it = d" "jrep h (Some a) (ji_child it) cs"
    "jrep h f (ji_next it) us" using Cons.prems(1) by (auto simp: t)
  have keep: "cmds_inv os (snd s')" if "cmd_run os spec msg s = Some s'" for spec msg s'
    using cmd_run_cmds [OF that] Cons.prems(2) by (simp add: cmds_inv_def)
  show ?case
    using it(1-3) Cons.IH [OF it(5)] Cons.prems(2) keep
    by (subst cmd_multi_loop.simps)
      (auto simp: t ape_cmd_process_read [OF it(4) Cons.prems(2)] split: option.split bind_split)
qed

lemma run_commands_ok:
  assumes "g_ok (snd s)" "session_ok client s" "fst s \<noteq> None \<or> rand_fresh os (snd s)"
  shows "\<exists>s'. run_commands os client ts s = Some s' \<and> g_ok (snd s') \<and> session_ok client s' \<and> g_grows (snd s) (snd s')"
  using assms
proof (induction os client ts s rule: run_commands.induct)
  case (2 os client a d ts us s)
  show ?case
  proof (cases "ji_ctype d \<noteq> JSON_C_T_ARR \<or> read_command (cmds_of os (snd s)) (fst s \<noteq> None) ts = None")
    case True
    then show ?thesis using "2.prems"(1,2) by (cases s) auto
  next
    case False
    then obtain chl so where c: "ji_ctype d = JSON_C_T_ARR"
      "read_command (cmds_of os (snd s)) (fst s \<noteq> None) ts = Some (chl, so)" by auto
    show ?thesis
    proof (cases so)
      case None
      with c "2.IH"(1) [of "(chl, so)" chl so] "2.prems" show ?thesis by auto
    next
      case (Some spec)
      let ?m = "cmd_message os client chl spec"
      have "\<exists>s'. cmd_run os spec ?m s = Some s'"
        using APE_user_new_returns [of "snd s" os] "2.prems"(1,3)
        by (auto simp: cmd_run_def ape_cmd__connect_def APE_user_session_new_def split: cmd_call.split option.split)
      then obtain s' where s': "cmd_run os spec ?m s = Some s'" by blast
      note k = cmd_run_ok [OF "2.prems"(1) s']
      have "fst s' \<noteq> None \<or> rand_fresh os (snd s')"
      proof (cases "cs_call spec")
        case Call_connect
        with s' connect_ok [OF "2.prems"(1), of os ?m s'] show ?thesis by (simp add: cmd_run_def)
      next
        case (Call_module n)
        with s' "2.prems"(3) show ?thesis by (auto simp: cmd_run_def rand_fresh_def)
      qed
      moreover have "session_ok client s'" using k "2.prems"(2) by (simp add: cmd_message_def)
      moreover have "\<not> ji_ctype d \<noteq> JSON_C_T_ARR" using c(1) by simp
      ultimately obtain s'' where "run_commands os client us s' = Some s''" "g_ok (snd s'')" "session_ok client s''"
        "g_grows (snd s') (snd s'')"
        using "2.IH"(2) [OF _ c(2) refl Some, of s'] k s' by metis
      moreover from this(4) k have "g_grows (snd s) (snd s'')" using g_grows_trans by blast
      moreover have "run_commands os client (JT a d ts # us) s = run_commands os client us s'"
        using c s' by (simp add: Some)
      ultimately show ?thesis by metis
    qed
  qed
qed simp

section \<open>The commands that are known\<close>

text \<open>A name without a zero byte is looked up as in every string table.\<close>

lemma APE_cmd_lookup_plain:
  assumes "cmds_inv os g" "0 \<notin> set s"
  shows "APE_cmd_lookup os (Some s) g = hashtbl_seek (os_seed os) (Some s) (g_cmds g)"
proof -
  let ?i = "ape_hash_str (os_seed os) s"
  obtain bs ls where sh: "ht_shape ci_eq (ape_hash_str (os_seed os)) (g_cmds g) bs ls"
    using assms(1) by (auto simp: cmds_inv_def ht_inv_def)
  have c: "chain (ht_next (g_cmds g)) (ht_table (g_cmds g) ! ?i) (bs ?i)" "set (bs ?i) \<subseteq> ht_live (g_cmds g)"
    using sh hash_bound(1) [of "os_seed os" s] by (auto simp: ht_shape_def)
  have "takeWhile (\<lambda>b. b \<noteq> 0) s = s" using assms(2) by (auto simp: takeWhile_eq_all_conv)
  then show ?thesis by (simp add: APE_cmd_lookup_def hashtbl_seek_def ht_seek_chain [OF c] del: takeWhile_eq_all_conv)
qed

lemma APE_cmd_register_law:
  assumes "cmds_inv os g" "hashtbl_seek (os_seed os) (Some (cs_name spec)) (g_cmds g) = Some None"
  shows "\<exists>t. APE_cmd_register os spec g = Some (g\<lparr>g_cmds := t\<rparr>) \<and> cmds_inv os (g\<lparr>g_cmds := t\<rparr>) \<and>
    (\<forall>s. hashtbl_seek (os_seed os) (Some s) t =
      (if same_str (os_seed os) (cs_name spec) s then Some (Some spec) else hashtbl_seek (os_seed os) (Some s) (g_cmds g)))"
  using str_table.insert_law [OF assms(1) [unfolded cmds_inv_def] assms(2), of spec]
  by (auto simp: APE_cmd_register_def cmds_inv_def)

definition connect_spec :: ape_cmd_spec where
  "connect_spec = \<lparr>cs_name = bytes ''connect'', cs_call = Call_connect, cs_flags = APE_CMD_FAILFATAL\<rparr>"

lemma ape_cmd_init_core_ok:
  "\<exists>t. ape_cmd_init_core os ape_global_init = Some (ape_global_init\<lparr>g_cmds := t\<rparr>) \<and>
    cmds_inv os (ape_global_init\<lparr>g_cmds := t\<rparr>) \<and> g_ok (ape_global_init\<lparr>g_cmds := t\<rparr>) \<and>
    (\<forall>s. hashtbl_seek (os_seed os) (Some s) t =
      Some (if same_str (os_seed os) (bytes ''connect'') s then Some connect_spec else None))"
proof -
  have i: "cmds_inv os ape_global_init"
    using hashtbl_init_shape unfolding cmds_inv_def ht_inv_def ape_global_init_def ape_global.simps by blast
  have n: "hashtbl_seek (os_seed os) (Some s) (g_cmds ape_global_init) = Some None" for s
    by (simp add: hashtbl_seek_def ape_global_init_def hashtbl_init_seek [where hash = "ape_hash_str (os_seed os)"] hash_bound)
  have "g_ok (ape_global_init\<lparr>g_cmds := t\<rparr>)" for t
    by (simp add: g_ok_def ape_global_init_def ids_ok_init)
  then show ?thesis
    using APE_cmd_register_law [OF i n [of "cs_name connect_spec"]] n
    by (auto simp: ape_cmd_init_core_def ape_cmd_core_def connect_spec_def)
qed

lemma cmds_of_connect:
  assumes "cmds_inv os g" "\<And>s. hashtbl_seek (os_seed os) (Some s) (g_cmds g) =
      Some (if same_str (os_seed os) (bytes ''connect'') s then Some connect_spec else None)"
  shows "cmds_of os g (Some (bytes ''connect'')) = Some connect_spec"
proof -
  have "0 \<notin> set (bytes ''connect'')" by code_simp
  from APE_cmd_lookup_plain [OF assms(1) this] assms(2) [of "bytes ''connect''"] show ?thesis
    by (simp add: cmds_of_def same_str_def)
qed


lemma process_multi_run:
  assumes "jrep h f p (JT a d ts # us)" "cmds_inv os (snd s)"
  shows "ape_cmd_process_multi os h p client s = run_commands os client ts s"
proof -
  obtain it where it: "p = Some a" "ji_get h a = Some it" "jrep h (Some a) (ji_child it) ts"
    using assms(1) by auto
  show ?thesis
  proof (cases "ji_child it")
    case None
    with jrep_head [OF it(3)] it show ?thesis by (simp add: ape_cmd_process_multi_def)
  next
    case (Some c)
    with it cmd_multi_loop_run [OF it(3) assms(2), of client] show ?thesis by (simp add: ape_cmd_process_multi_def)
  qed
qed

text \<open>The document \<open>[[1, {}, "connect"]]\<close> in memory.\<close>

definition connect_item :: "addr option \<Rightarrow> addr option \<Rightarrow> addr option \<Rightarrow> json_child_t \<Rightarrow> json_type \<Rightarrow> byte list option \<Rightarrow> unit json_item" where
  "connect_item fa ch nx ct ty str =
     \<lparr>ji_integer = 1, ji_float = (), ji_str = str, ji_child = ch, ji_head = ch, ji_ctype = ct, ji_key = None,
      ji_father = fa, ji_next = nx, ji_type = Some ty\<rparr>"

definition connect_doc :: "unit json_heap" where
  "connect_doc =
     [Some (connect_item None (Some 1) None JSON_C_T_ARR JSON_T_ARRAY_BEGIN None),
      Some (connect_item (Some 0) (Some 2) None JSON_C_T_ARR JSON_T_ARRAY_BEGIN None),
      Some (connect_item (Some 1) None (Some 3) JSON_C_T_VAL JSON_T_INTEGER None),
      Some (connect_item (Some 1) None (Some 4) JSON_C_T_OBJ JSON_T_OBJECT_BEGIN None),
      Some (connect_item (Some 1) None None JSON_C_T_VAL JSON_T_STRING (Some (bytes ''connect'')))]"

lemma connect_doc_tree:
  "\<exists>a d b e x y z. jrep connect_doc None (Some 0) [JT a d [JT b e [JT 2 x [], JT 3 y [], JT 4 z []]]] \<and>
     ji_ctype e = JSON_C_T_ARR \<and> ji_type x = Some JSON_T_INTEGER \<and> ji_integer x = 1 \<and>
     ji_type z = Some JSON_T_STRING \<and> ji_str z = Some (bytes ''connect'')"
  by (rule exI [of _ 0], rule exI [of _ "ji_data (the (connect_doc ! 0))"], rule exI [of _ 1],
      rule exI [of _ "ji_data (the (connect_doc ! 1))"],
      rule exI [of _ "ji_data (the (connect_doc ! 2))"], rule exI [of _ "ji_data (the (connect_doc ! 3))"],
      rule exI [of _ "ji_data (the (connect_doc ! 4))"])
    (simp add: connect_doc_def connect_item_def ji_get_def ji_data_def)

text \<open>A source that only ever gives one number, as a failing one that leaves 0.\<close>

lemma constant_source:
  fixes os :: ape_os and c :: u64
  assumes "g_ok g" "g_pipes g = []"
  defines "os0 \<equiv> os\<lparr>os_rand := \<lambda>_. c\<rparr>"
  shows "\<exists>g'. ape_cmd__connect os0 msg (None, g) = Some (Some (length (g_sessions g)), g') \<and>
      ape_cmd__connect os0 msg' (None, g') = None"
proof -
  have "rand_fresh os0 g" using assms(2) by (auto simp: rand_fresh_def)
  from APE_user_new_returns [OF assms(1) this] obtain u g1 where u: "APE_user_new os0 g = Some (u, g1)" by (cases "APE_user_new os0 g") auto
  let ?g = "snd (APE_user_session_new os0 u (mc_client msg) g1)"
  from APE_user_new_ok [OF assms(1) u] obtain t1 t2 n p where
    g1: "g1 = g\<lparr>g_drawn := n, g_priv := t1, g_pub := t2, g_pipes := g_pipes g @ [p],
      g_users := g_users g @ [\<lparr>us_pipe = length (g_pipes g), us_extend = ape_array_new 8 [] []\<rparr>]\<rparr>"
    and p: "pp_priv_bin p \<in> range (os_rand os0)" by blast
  have r: "ape_cmd__connect os0 msg (None, g) = Some (Some (length (g_sessions g)), ?g)"
    using u by (simp add: ape_cmd__connect_def APE_user_session_new_def g1)
  from connect_ok [OF _ r] assms(1) have "g_ok ?g" by simp
  moreover have "map pp_priv_bin (g_pipes ?g) = [c]"
    using p assms(2) by (auto simp: APE_user_session_new_def g1 os0_def)
  ultimately have "ids_ok (g_priv ?g) [c]" unfolding g_ok_def by metis
  moreover have "\<forall>m \<ge> g_drawn ?g. os_rand os0 m \<in> set [c]" by (simp add: os0_def)
  ultimately have "gen_id_loop os0 (g_priv ?g) (g_drawn ?g) = None" by (rule gen_id_loop_starves)
  then have "ape_cmd__connect os0 msg' (None, ?g) = None"
    by (simp add: ape_cmd__connect_def APE_user_new_def APE_pipe_new_def ape_pipe_gen_id_def Let_def)
  with r show ?thesis by blast
qed

text \<open>Where a client stands when the core is up.\<close>

lemma core_start:
  "\<exists>g. ape_cmd_init_core os ape_global_init = Some g \<and> cmds_inv os g \<and> g_ok g \<and> g_pipes g = [] \<and>
     g_sessions g = [] \<and> cmds_of os g (Some (bytes ''connect'')) = Some connect_spec"
proof -
  obtain t where t: "ape_cmd_init_core os ape_global_init = Some (ape_global_init\<lparr>g_cmds := t\<rparr>)"
    "cmds_inv os (ape_global_init\<lparr>g_cmds := t\<rparr>)" "g_ok (ape_global_init\<lparr>g_cmds := t\<rparr>)"
    "\<And>s. hashtbl_seek (os_seed os) (Some s) t =
      Some (if same_str (os_seed os) (bytes ''connect'') s then Some connect_spec else None)"
    using ape_cmd_init_core_ok [of os] by blast
  have "cmds_of os (ape_global_init\<lparr>g_cmds := t\<rparr>) (Some (bytes ''connect'')) = Some connect_spec"
    by (rule cmds_of_connect [OF t(2)]) (simp add: t(4))
  with t(1-3) show ?thesis by (simp add: ape_global_init_def)
qed

section \<open>Properties\<close>

text \<open>C10: for every document in memory and every table of commands, the walk over the parsed tree
  does what the message means: it never reads a freed item, and runs the commands in order up to the
  first that is refused (a challenge that is no integer, an unknown name, a command that needs a user
  without one) or is no list; a message with nothing inside does nothing.\<close>

theorem ape_cmd_process_multi_means:
  assumes "jrep h f p (JT a d ts # us)" "cmds_inv os (snd s)"
  shows "ape_cmd_process_multi os h p client s = run_commands os client ts s"
  by (rule process_multi_run [OF assms])

text \<open>C12: a message keeps the server's users consistent: every pipe is found in the two tables under
  its own numbers and nothing else is, pipes and users belong to each other, the session of the client
  is its own and has a user; what was there stays as it was. And the message is done with, when the
  client has a user already or the random source gives a fresh number sooner or later.\<close>

theorem ape_cmd_process_multi_keeps_users:
  assumes "jrep h f p (JT a d ts # us)" "cmds_inv os (snd s)"
    and "g_ok (snd s)" "session_ok client s" "fst s \<noteq> None \<or> rand_fresh os (snd s)"
  shows "\<exists>s'. ape_cmd_process_multi os h p client s = Some s' \<and> g_ok (snd s') \<and> session_ok client s' \<and>
    g_grows (snd s) (snd s')"
  unfolding process_multi_run [OF assms(1,2)] by (rule run_commands_ok [OF assms(3-5)])

text \<open>with a source that keeps giving one number (as one that cannot be read, which leaves 0), the
  first client gets its user and the server never returns from the second one's \<open>connect\<close>.\<close>

theorem connect_constant_source:
  "\<exists>g g'. ape_cmd_init_core os ape_global_init = Some g \<and>
     ape_cmd__connect (os\<lparr>os_rand := \<lambda>_. c\<rparr>) msg (None, g) = Some (Some 0, g') \<and>
     ape_cmd__connect (os\<lparr>os_rand := \<lambda>_. c\<rparr>) msg' (None, g') = None"
proof -
  obtain g where g: "ape_cmd_init_core os ape_global_init = Some g" "g_ok g" "g_pipes g = []" "g_sessions g = []"
    using core_start by blast
  with constant_source [OF g(2,3), of c os msg msg'] show ?thesis by auto
qed


section \<open>Witnesses\<close>

theorem ape_cmd_process_multi_means_witness:
  "\<exists>g. ape_cmd_init_core \<lparr>os_rand = word_of_nat, os_time = 5, os_seed = 0\<rparr> ape_global_init = Some g \<and>
     ape_cmd_process_multi \<lparr>os_rand = word_of_nat, os_time = 5, os_seed = 0\<rparr> connect_doc (Some 0) 7 (None, g) =
     ape_cmd__connect \<lparr>os_rand = word_of_nat, os_time = 5, os_seed = 0\<rparr>
       \<lparr>mc_chl = 1, mc_cmd = Some connect_spec, mc_client = 7, mc_time = 5\<rparr> (None, g)"
proof -
  let ?os = "\<lparr>os_rand = word_of_nat, os_time = 5, os_seed = 0\<rparr>"
  obtain g where g: "ape_cmd_init_core ?os ape_global_init = Some g" "cmds_inv ?os g"
    "cmds_of ?os g (Some (bytes ''connect'')) = Some connect_spec" using core_start by blast
  obtain a d b e x y z where t: "jrep connect_doc None (Some 0) [JT a d [JT b e [JT 2 x [], JT 3 y [], JT 4 z []]]]"
    and v: "ji_ctype e = JSON_C_T_ARR" "ji_type x = Some JSON_T_INTEGER" "ji_integer x = 1"
     "ji_type z = Some JSON_T_STRING" "ji_str z = Some (bytes ''connect'')" using connect_doc_tree by blast
  have f: "cs_flags connect_spec AND APE_CMD_REQ_USER = 0" by code_simp
  have "ape_cmd_process_multi ?os connect_doc (Some 0) 7 (None, g) =
      run_commands ?os 7 [JT b e [JT 2 x [], JT 3 y [], JT 4 z []]] (None, g)"
    using ape_cmd_process_multi_means [OF t, of ?os "(None, g)" 7] g(2) by simp
  also have "\<dots> = cmd_run ?os connect_spec (cmd_message ?os 7 1 connect_spec) (None, g)"
    using v f g(3) by (simp split: bind_split)
  also have "\<dots> = ape_cmd__connect ?os \<lparr>mc_chl = 1, mc_cmd = Some connect_spec, mc_client = 7, mc_time = 5\<rparr> (None, g)"
    by (simp add: cmd_run_def connect_spec_def cmd_message_def)
  finally show ?thesis using g(1) by blast
qed

theorem ape_cmd_process_multi_keeps_users_witness:
  "\<exists>g s'. ape_cmd_init_core \<lparr>os_rand = word_of_nat, os_time = 5, os_seed = 0\<rparr> ape_global_init = Some g \<and>
     ape_cmd_process_multi \<lparr>os_rand = word_of_nat, os_time = 5, os_seed = 0\<rparr> connect_doc (Some 0) 7 (None, g) = Some s' \<and>
     g_ok (snd s') \<and> session_ok 7 s'"
proof -
  let ?os = "\<lparr>os_rand = word_of_nat, os_time = 5, os_seed = 0\<rparr>"
  obtain g where g: "ape_cmd_init_core ?os ape_global_init = Some g" "cmds_inv ?os g" "g_ok g" "g_pipes g = []"
    using core_start by blast
  obtain a d us where t: "jrep connect_doc None (Some 0) [JT a d us]" using connect_doc_tree by blast
  have "session_ok 7 (None, g)" "rand_fresh ?os g" using g(4) by (auto simp: session_ok_def rand_fresh_def)
  with ape_cmd_process_multi_keeps_users [OF t, of ?os "(None, g)" 7] g show ?thesis by auto
qed

end
