(* ===== verification/Http_Parser.thy ===== *)
theory Http_Parser
  imports Ape_Prelude
begin

text \<open>
  The HTTP request parser, src/core/ape_http_parser.c and .h: a table-driven machine that is
  given one byte at a time and calls back with method, path, query, header and body events.
  The enums, \<open>ascii_class\<close> and \<open>state_transition_table\<close> are the source's, row by row;
  \<open>Go s\<close> is an entry \<open>>= 0\<close> of the C table, \<open>Act a\<close> a negative action code and \<open>XX\<close> the error
  entry \<open>__\<close>. The \<open>ctx\<close> and \<open>callback\<close> fields are opaque to the parser: a call of the callback is
  an event (type, value, step). The callback may reset the parser only from HTTP_READY, which is
  the last thing each branch does, so a step's events can be delivered after it.
\<close>

section \<open>Tables\<close>

datatype callback_type =
    HTTP_PARSE_ERROR | HTTP_METHOD | HTTP_PATH_CHAR | HTTP_PATH_END | HTTP_QS_CHAR |
    HTTP_BODY_CHAR | HTTP_VERSION_MAJOR | HTTP_VERSION_MINOR | HTTP_HEADER_KEY |
    HTTP_HEADER_KEYC | HTTP_HEADER_VAL | HTTP_HEADER_VALC | HTTP_CL_VAL | HTTP_HEADER_END |
    HTTP_READY

datatype http_state =
    H_GO | H_G1 | H_G2 | H_G3 | H_P1 | H_P2 | H_P3 | H_P4 | H_PT | H_H1 | H_H2 | H_H3 | H_H4 |
    H_H5 | H_H6 | H_H7 | H_H8 | H_EL | H_ER | H_HH | H_HI | H_C1 | H_C2 | H_C3 | H_C4 | H_C5 |
    H_C6 | H_C7 | H_C8 | H_C9 | H_CA | H_CB | H_CC | H_CD | H_CE | H_CF | H_CG | H_CV | H_E1 |
    H_E2 | H_FI | H_BT

datatype http_class =
    HC_NUL | HC_SPACE | HC_WHITE | HC_CR | HC_LF | HC_COLON | HC_COMMA | HC_QUOTE | HC_BACKS |
    HC_SLASH | HC_PLUS | HC_MINUS | HC_POINT | HC_MARK | HC_PCT | HC_DIGIT | HC_ETC | HC_STAR |
    HC_ABDF | HC_E | HC_G | HC_T | HC_P | HC_H | HC_O | HC_S | HC_C | HC_N | HC_L | HC_USCORE

datatype http_action =
    A_MG | A_MP | A_PE | A_HA | A_HB | A_KH | A_VH | A_KC | A_VC | A_VE | A_EA | A_EB | A_EH |
    A_BC | A_PC | A_QS | A_BH | A_HK | A_HV

datatype http_cell = Go http_state | Act http_action | XX

definition http_ascii_class :: "http_class list" where
  "http_ascii_class = [
     HC_NUL, HC_NUL, HC_NUL, HC_NUL, HC_NUL, HC_NUL, HC_NUL, HC_NUL, HC_NUL, HC_NUL, HC_LF,
     HC_NUL, HC_NUL, HC_CR, HC_NUL, HC_NUL, HC_NUL, HC_NUL, HC_NUL, HC_NUL, HC_NUL, HC_NUL,
     HC_NUL, HC_NUL, HC_NUL, HC_NUL, HC_NUL, HC_NUL, HC_NUL, HC_NUL, HC_NUL, HC_NUL, HC_SPACE,
     HC_ETC, HC_QUOTE, HC_ETC, HC_ETC, HC_PCT, HC_ETC, HC_ETC, HC_ETC, HC_ETC, HC_STAR,
     HC_PLUS, HC_COMMA, HC_MINUS, HC_POINT, HC_SLASH, HC_DIGIT, HC_DIGIT, HC_DIGIT, HC_DIGIT,
     HC_DIGIT, HC_DIGIT, HC_DIGIT, HC_DIGIT, HC_DIGIT, HC_DIGIT, HC_COLON, HC_ETC, HC_ETC,
     HC_ETC, HC_ETC, HC_MARK, HC_ETC, HC_ABDF, HC_ABDF, HC_C, HC_ABDF, HC_E, HC_ABDF, HC_G,
     HC_H, HC_ETC, HC_ETC, HC_ETC, HC_L, HC_ETC, HC_N, HC_O, HC_P, HC_ETC, HC_ETC, HC_S, HC_T,
     HC_ETC, HC_ETC, HC_ETC, HC_ETC, HC_ETC, HC_ETC, HC_ETC, HC_BACKS, HC_ETC, HC_ETC,
     HC_USCORE, HC_ETC, HC_ABDF, HC_ABDF, HC_C, HC_ABDF, HC_E, HC_ABDF, HC_G, HC_H, HC_ETC,
     HC_ETC, HC_ETC, HC_L, HC_ETC, HC_N, HC_O, HC_P, HC_ETC, HC_ETC, HC_S, HC_T, HC_ETC,
     HC_ETC, HC_ETC, HC_ETC, HC_ETC, HC_ETC, HC_ETC, HC_ETC, HC_ETC, HC_ETC, HC_NUL]"

fun http_row :: "http_state \<Rightarrow> http_cell list" where
  "http_row H_GO = [
     XX, XX, XX, XX, XX, XX, XX, XX, XX, XX, XX, XX, XX, XX, XX, XX, XX, XX, XX, XX, Go H_G1,
     XX, Go H_P1, XX, XX, XX, XX, XX, XX, XX]"
| "http_row H_G1 = [
     XX, XX, XX, XX, XX, XX, XX, XX, XX, XX, XX, XX, XX, XX, XX, XX, XX, XX, XX, Go H_G2, XX,
     XX, XX, XX, XX, XX, XX, XX, XX, XX]"
| "http_row H_G2 = [
     XX, XX, XX, XX, XX, XX, XX, XX, XX, XX, XX, XX, XX, XX, XX, XX, XX, XX, XX, XX, XX,
     Go H_G3, XX, XX, XX, XX, XX, XX, XX, XX]"
| "http_row H_G3 = [
     XX, Act A_MG, XX, XX, XX, XX, XX, XX, XX, XX, XX, XX, XX, XX, XX, XX, XX, XX, XX, XX, XX,
     XX, XX, XX, XX, XX, XX, XX, XX, XX]"
| "http_row H_P1 = [
     XX, XX, XX, XX, XX, XX, XX, XX, XX, XX, XX, XX, XX, XX, XX, XX, XX, XX, XX, XX, XX, XX,
     XX, XX, Go H_P2, XX, XX, XX, XX, XX]"
| "http_row H_P2 = [
     XX, XX, XX, XX, XX, XX, XX, XX, XX, XX, XX, XX, XX, XX, XX, XX, XX, XX, XX, XX, XX, XX,
     XX, XX, XX, Go H_P3, XX, XX, XX, XX]"
| "http_row H_P3 = [
     XX, XX, XX, XX, XX, XX, XX, XX, XX, XX, XX, XX, XX, XX, XX, XX, XX, XX, XX, XX, XX,
     Go H_P4, XX, XX, XX, XX, XX, XX, XX, XX]"
| "http_row H_P4 = [
     XX, Act A_MP, XX, XX, XX, XX, XX, XX, XX, XX, XX, XX, XX, XX, XX, XX, XX, XX, XX, XX, XX,
     XX, XX, XX, XX, XX, XX, XX, XX, XX]"
| "http_row H_PT = [
     XX, Act A_PE, XX, XX, XX, Act A_PC, Act A_PC, XX, XX, Act A_PC, Act A_PC, Act A_PC,
     Act A_PC, Act A_QS, Go H_E1, Act A_PC, Act A_PC, XX, Act A_PC, Act A_PC, Act A_PC,
     Act A_PC, Act A_PC, Act A_PC, Act A_PC, Act A_PC, Act A_PC, Act A_PC, Act A_PC, Act A_PC]"
| "http_row H_H1 = [
     XX, XX, XX, XX, XX, XX, XX, XX, XX, XX, XX, XX, XX, XX, XX, XX, XX, XX, XX, XX, XX, XX,
     XX, Go H_H2, XX, XX, XX, XX, XX, XX]"
| "http_row H_H2 = [
     XX, XX, XX, XX, XX, XX, XX, XX, XX, XX, XX, XX, XX, XX, XX, XX, XX, XX, XX, XX, XX,
     Go H_H3, XX, XX, XX, XX, XX, XX, XX, XX]"
| "http_row H_H3 = [
     XX, XX, XX, XX, XX, XX, XX, XX, XX, XX, XX, XX, XX, XX, XX, XX, XX, XX, XX, XX, XX,
     Go H_H4, XX, XX, XX, XX, XX, XX, XX, XX]"
| "http_row H_H4 = [
     XX, XX, XX, XX, XX, XX, XX, XX, XX, XX, XX, XX, XX, XX, XX, XX, XX, XX, XX, XX, XX, XX,
     Go H_H5, XX, XX, XX, XX, XX, XX, XX]"
| "http_row H_H5 = [
     XX, XX, XX, XX, XX, XX, XX, XX, XX, Go H_H6, XX, XX, XX, XX, XX, XX, XX, XX, XX, XX, XX,
     XX, XX, XX, XX, XX, XX, XX, XX, XX]"
| "http_row H_H6 = [
     XX, XX, XX, XX, XX, XX, XX, XX, XX, XX, XX, XX, XX, XX, XX, Act A_HA, XX, XX, XX, XX, XX,
     XX, XX, XX, XX, XX, XX, XX, XX, XX]"
| "http_row H_H7 = [
     XX, XX, XX, XX, XX, XX, XX, XX, XX, XX, XX, XX, Go H_H8, XX, XX, XX, XX, XX, XX, XX, XX,
     XX, XX, XX, XX, XX, XX, XX, XX, XX]"
| "http_row H_H8 = [
     XX, XX, XX, XX, XX, XX, XX, XX, XX, XX, XX, XX, XX, XX, XX, Act A_HB, XX, XX, XX, XX, XX,
     XX, XX, XX, XX, XX, XX, XX, XX, XX]"
| "http_row H_EL = [
     XX, XX, XX, Go H_ER, Go H_C1, XX, XX, XX, XX, XX, XX, XX, XX, XX, XX, XX, XX, XX, XX, XX,
     XX, XX, XX, XX, XX, XX, XX, XX, XX, XX]"
| "http_row H_ER = [
     XX, XX, XX, XX, Go H_C1, XX, XX, XX, XX, XX, XX, XX, XX, XX, XX, XX, XX, XX, XX, XX, XX,
     XX, XX, XX, XX, XX, XX, XX, XX, XX]"
| "http_row H_HH = [
     XX, XX, XX, XX, XX, Act A_KH, XX, XX, XX, XX, XX, Act A_HK, XX, XX, XX, XX, Act A_HK, XX,
     Act A_HK, Act A_HK, Act A_HK, Act A_HK, Act A_HK, Act A_HK, Act A_HK, Act A_HK, Act A_HK,
     Act A_HK, Act A_HK, XX]"
| "http_row H_HI = [
     XX, Act A_HV, XX, Act A_VH, Act A_VH, Act A_HV, Act A_HV, Act A_HV, Act A_HV, Act A_HV,
     Act A_HV, Act A_HV, Act A_HV, Act A_HV, Act A_HV, Act A_HV, Act A_HV, Act A_HV, Act A_HV,
     Act A_HV, Act A_HV, Act A_HV, Act A_HV, Act A_HV, Act A_HV, Act A_HV, Act A_HV, Act A_HV,
     Act A_HV, Act A_HV]"
| "http_row H_C1 = [
     XX, XX, XX, Go H_FI, Act A_EH, Act A_KH, XX, XX, XX, XX, XX, Act A_HK, XX, XX, XX, XX,
     Act A_HK, XX, Act A_HK, Act A_HK, Act A_HK, Act A_HK, Act A_HK, Act A_HK, Act A_HK,
     Act A_HK, Go H_C2, Act A_HK, Act A_HK, XX]"
| "http_row H_C2 = [
     XX, XX, XX, XX, XX, Act A_KH, XX, XX, XX, XX, XX, Act A_HK, XX, XX, XX, XX, Act A_HK, XX,
     Act A_HK, Act A_HK, Act A_HK, Act A_HK, Act A_HK, Act A_HK, Go H_C3, Act A_HK, Act A_HK,
     Act A_HK, Act A_HK, XX]"
| "http_row H_C3 = [
     XX, XX, XX, XX, XX, Act A_KH, XX, XX, XX, XX, XX, Act A_HK, XX, XX, XX, XX, Act A_HK, XX,
     Act A_HK, Act A_HK, Act A_HK, Act A_HK, Act A_HK, Act A_HK, Act A_HK, Act A_HK, Act A_HK,
     Go H_C4, Act A_HK, XX]"
| "http_row H_C4 = [
     XX, XX, XX, XX, XX, Act A_KH, XX, XX, XX, XX, XX, Act A_HK, XX, XX, XX, XX, Act A_HK, XX,
     Act A_HK, Act A_HK, Act A_HK, Go H_C5, Act A_HK, Act A_HK, Act A_HK, Act A_HK, Act A_HK,
     Act A_HK, Act A_HK, XX]"
| "http_row H_C5 = [
     XX, XX, XX, XX, XX, Act A_KH, XX, XX, XX, XX, XX, Act A_HK, XX, XX, XX, XX, Act A_HK, XX,
     Act A_HK, Go H_C6, Act A_HK, Act A_HK, Act A_HK, Act A_HK, Act A_HK, Act A_HK, Act A_HK,
     Act A_HK, Act A_HK, XX]"
| "http_row H_C6 = [
     XX, XX, XX, XX, XX, Act A_KH, XX, XX, XX, XX, XX, Act A_HK, XX, XX, XX, XX, Act A_HK, XX,
     Act A_HK, Act A_HK, Act A_HK, Act A_HK, Act A_HK, Act A_HK, Act A_HK, Act A_HK, Act A_HK,
     Go H_C7, Act A_HK, XX]"
| "http_row H_C7 = [
     XX, XX, XX, XX, XX, Act A_KH, XX, XX, XX, XX, XX, Act A_HK, XX, XX, XX, XX, Act A_HK, XX,
     Act A_HK, Act A_HK, Act A_HK, Go H_C8, Act A_HK, Act A_HK, Act A_HK, Act A_HK, Act A_HK,
     Act A_HK, Act A_HK, XX]"
| "http_row H_C8 = [
     XX, XX, XX, XX, XX, Act A_KH, XX, XX, XX, XX, XX, Go H_C9, XX, XX, XX, XX, Act A_HK, XX,
     Act A_HK, Act A_HK, Act A_HK, Act A_HK, Act A_HK, Act A_HK, Act A_HK, Act A_HK, Act A_HK,
     Act A_HK, Act A_HK, XX]"
| "http_row H_C9 = [
     XX, XX, XX, XX, XX, Act A_KH, XX, XX, XX, XX, XX, Act A_HK, XX, XX, XX, XX, Act A_HK, XX,
     Act A_HK, Act A_HK, Act A_HK, Act A_HK, Act A_HK, Act A_HK, Act A_HK, Act A_HK, Act A_HK,
     Act A_HK, Go H_CA, XX]"
| "http_row H_CA = [
     XX, XX, XX, XX, XX, Act A_KH, XX, XX, XX, XX, XX, Act A_HK, XX, XX, XX, XX, Act A_HK, XX,
     Act A_HK, Go H_CB, Act A_HK, Act A_HK, Act A_HK, Act A_HK, Act A_HK, Act A_HK, Act A_HK,
     Act A_HK, Act A_HK, XX]"
| "http_row H_CB = [
     XX, XX, XX, XX, XX, Act A_KH, XX, XX, XX, XX, XX, Act A_HK, XX, XX, XX, XX, Act A_HK, XX,
     Act A_HK, Act A_HK, Act A_HK, Act A_HK, Act A_HK, Act A_HK, Act A_HK, Act A_HK, Act A_HK,
     Go H_CC, Act A_HK, XX]"
| "http_row H_CC = [
     XX, XX, XX, XX, XX, Act A_KH, XX, XX, XX, XX, XX, Act A_HK, XX, XX, XX, XX, Act A_HK, XX,
     Act A_HK, Act A_HK, Go H_CD, Act A_HK, Act A_HK, Act A_HK, Act A_HK, Act A_HK, Act A_HK,
     Act A_HK, Act A_HK, XX]"
| "http_row H_CD = [
     XX, XX, XX, XX, XX, Act A_KH, XX, XX, XX, XX, XX, Act A_HK, XX, XX, XX, XX, Act A_HK, XX,
     Act A_HK, Act A_HK, Act A_HK, Go H_CE, Act A_HK, Act A_HK, Act A_HK, Act A_HK, Act A_HK,
     Act A_HK, Act A_HK, XX]"
| "http_row H_CE = [
     XX, XX, XX, XX, XX, Act A_KH, XX, XX, XX, XX, XX, Act A_HK, XX, XX, XX, XX, Act A_HK, XX,
     Act A_HK, Act A_HK, Act A_HK, Act A_HK, Act A_HK, Go H_CF, Act A_HK, Act A_HK, Act A_HK,
     Act A_HK, Act A_HK, XX]"
| "http_row H_CF = [
     XX, XX, XX, XX, XX, Go H_CG, XX, XX, XX, XX, XX, Act A_HK, XX, XX, XX, XX, Act A_HK, XX,
     Act A_HK, Act A_HK, Act A_HK, Act A_HK, Act A_HK, Act A_HK, Act A_HK, Act A_HK, Act A_HK,
     Act A_HK, Act A_HK, XX]"
| "http_row H_CG = [
     XX, Act A_KC, XX, XX, XX, XX, XX, XX, XX, XX, XX, XX, XX, XX, XX, XX, XX, XX, XX, XX, XX,
     XX, XX, XX, XX, XX, XX, XX, XX, XX]"
| "http_row H_CV = [
     XX, XX, XX, Act A_VE, Act A_VE, XX, XX, XX, XX, XX, XX, XX, XX, XX, XX, Act A_VC, XX, XX,
     XX, XX, XX, XX, XX, XX, XX, XX, XX, XX, XX, XX]"
| "http_row H_E1 = [
     XX, XX, XX, XX, XX, XX, XX, XX, XX, XX, XX, XX, XX, XX, XX, Act A_EA, XX, XX, Act A_EA,
     Act A_EA, XX, XX, XX, XX, XX, XX, Act A_EA, XX, XX, XX]"
| "http_row H_E2 = [
     XX, XX, XX, XX, XX, XX, XX, XX, XX, XX, XX, XX, XX, XX, XX, Act A_EB, XX, XX, Act A_EB,
     Act A_EB, XX, XX, XX, XX, XX, XX, Act A_EB, XX, XX, XX]"
| "http_row H_FI = [
     XX, XX, XX, XX, Act A_EH, XX, XX, XX, XX, XX, XX, XX, XX, XX, XX, XX, XX, XX, XX, XX, XX,
     XX, XX, XX, XX, XX, XX, XX, XX, XX]"
| "http_row H_BT = [
     XX, Act A_BC, Act A_BC, Act A_BC, Act A_BC, XX, XX, XX, XX, Act A_BC, Act A_BC, Act A_BC,
     Act A_BC, XX, Act A_BH, Act A_BC, Act A_BC, XX, Act A_BC, Act A_BC, Act A_BC, Act A_BC,
     Act A_BC, Act A_BC, Act A_BC, Act A_BC, Act A_BC, Act A_BC, Act A_BC, Act A_BC]"

fun http_column :: "http_class \<Rightarrow> nat" where
  "http_column HC_NUL = 0"
| "http_column HC_SPACE = 1"
| "http_column HC_WHITE = 2"
| "http_column HC_CR = 3"
| "http_column HC_LF = 4"
| "http_column HC_COLON = 5"
| "http_column HC_COMMA = 6"
| "http_column HC_QUOTE = 7"
| "http_column HC_BACKS = 8"
| "http_column HC_SLASH = 9"
| "http_column HC_PLUS = 10"
| "http_column HC_MINUS = 11"
| "http_column HC_POINT = 12"
| "http_column HC_MARK = 13"
| "http_column HC_PCT = 14"
| "http_column HC_DIGIT = 15"
| "http_column HC_ETC = 16"
| "http_column HC_STAR = 17"
| "http_column HC_ABDF = 18"
| "http_column HC_E = 19"
| "http_column HC_G = 20"
| "http_column HC_T = 21"
| "http_column HC_P = 22"
| "http_column HC_H = 23"
| "http_column HC_O = 24"
| "http_column HC_S = 25"
| "http_column HC_C = 26"
| "http_column HC_N = 27"
| "http_column HC_L = 28"
| "http_column HC_USCORE = 29"

section \<open>The parser\<close>

definition http_class_of :: "byte \<Rightarrow> http_class" where
  "http_class_of c = (if 128 \<le> c then HC_ETC else http_ascii_class ! unat c)"

definition http_cell :: "http_state \<Rightarrow> http_class \<Rightarrow> http_cell" where
  "http_cell s k = http_row s ! http_column k"

record http_parser =
  hp_state :: http_state
  hp_rx :: u32
  hp_step :: u32
  hp_cl :: u32

type_synonym http_event = "callback_type \<times> int \<times> u32"

definition MAX_CL :: u32 where "MAX_CL = 1048576"
definition HTTP_FLG_POST :: u32 where "HTTP_FLG_POST = 0x80000000"
definition HTTP_FLG_QS :: u32 where "HTTP_FLG_QS = 0x40000000"
definition HTTP_FLG_BODYCONTENT :: u32 where "HTTP_FLG_BODYCONTENT = 0x20000000"
definition HTTP_FLG_READY :: u32 where "HTTP_FLG_READY = 0x10000000"

lemmas http_flg_defs =
  HTTP_FLG_POST_def HTTP_FLG_QS_def HTTP_FLG_BODYCONTENT_def HTTP_FLG_READY_def

definition http_isqs :: "http_parser \<Rightarrow> bool" where
  "http_isqs p \<longleftrightarrow> hp_rx p AND HTTP_FLG_QS \<noteq> 0"
definition http_ispost :: "http_parser \<Rightarrow> bool" where
  "http_ispost p \<longleftrightarrow> hp_rx p AND HTTP_FLG_POST \<noteq> 0"
definition http_isbodycontent :: "http_parser \<Rightarrow> bool" where
  "http_isbodycontent p \<longleftrightarrow> hp_rx p AND HTTP_FLG_BODYCONTENT \<noteq> 0"
definition http_isready :: "http_parser \<Rightarrow> bool" where
  "http_isready p \<longleftrightarrow> hp_rx p AND HTTP_FLG_READY \<noteq> 0"

lemmas http_is_defs = http_isqs_def http_ispost_def http_isbodycontent_def http_isready_def

definition http_parser_reset :: http_parser where
  "http_parser_reset = \<lparr>hp_state = H_GO, hp_rx = 0, hp_step = 0, hp_cl = 0\<rparr>"

definition http_emit :: "http_parser \<Rightarrow> callback_type \<Rightarrow> int \<Rightarrow> http_event" where
  "http_emit p t v = (t, v, hp_step p)"

definition http_pathorqs :: "http_parser \<Rightarrow> callback_type" where
  "http_pathorqs p = (if http_isqs p then HTTP_QS_CHAR else HTTP_PATH_CHAR)"

text \<open>The macro \<open>HTTP_CONSUME_BODY\<close>: count one body byte, announce the end at zero.\<close>

definition http_consume_body :: "http_parser \<Rightarrow> http_parser \<times> http_event list" where
  "http_consume_body p =
     (let p1 = p\<lparr>hp_cl := hp_cl p - 1\<rparr> in
      if hp_cl p1 = 0
      then (p1\<lparr>hp_rx := hp_rx p1 OR HTTP_FLG_READY\<rparr>, [http_emit p1 HTTP_READY 0])
      else (p1, []))"

text \<open>The macro \<open>HTTP_BODY_AS_ENDED\<close>, whose condition counts down as it is evaluated.\<close>

definition http_body_as_ended :: "http_parser \<Rightarrow> http_parser \<times> bool" where
  "http_body_as_ended p =
     (if http_isbodycontent p
      then let p1 = p\<lparr>hp_cl := hp_cl p - 1\<rparr> in
           if hp_cl p1 = 0 then (p1\<lparr>hp_rx := hp_rx p1 OR HTTP_FLG_READY\<rparr>, True)
           else (p1, False)
      else (p, False))"

text \<open>\<open>10 + ch - ((ch >= '0' && ch <= '9') ? '0' + 10 : 'a')\<close> for \<open>ch = c | 0x20\<close>.\<close>

definition http_unhex :: "byte \<Rightarrow> u32" where
  "http_unhex c =
     (let ch = c OR 0x20 in
      10 + ucast ch - (if 48 \<le> ch \<and> ch \<le> 57 then 58 else 97))"

definition http_escape_acc :: "byte \<Rightarrow> u32" where
  "http_escape_acc c = ucast (ucast (http_unhex c) :: byte) OR push_bit 8 (ucast c)"

fun http_action_step ::
    "http_parser \<Rightarrow> http_class \<Rightarrow> byte \<Rightarrow> http_action \<Rightarrow> http_parser \<times> http_event list \<times> verdict"
where
  "http_action_step p k c A_MG =
     (p\<lparr>hp_state := H_PT\<rparr>, [http_emit p HTTP_METHOD 0], Accept)"
| "http_action_step p k c A_MP =
     (p\<lparr>hp_rx := hp_rx p OR HTTP_FLG_POST, hp_state := H_PT\<rparr>, [http_emit p HTTP_METHOD 1], Accept)"
| "http_action_step p k c A_PE =
     (p\<lparr>hp_state := H_H1\<rparr>, (if http_isqs p then [] else [http_emit p HTTP_PATH_END 0]), Accept)"
| "http_action_step p k c A_HA =
     (p\<lparr>hp_state := H_H7\<rparr>, [http_emit p HTTP_VERSION_MAJOR (uint c - 48)], Accept)"
| "http_action_step p k c A_HB =
     (p\<lparr>hp_state := H_EL\<rparr>, [http_emit p HTTP_VERSION_MINOR (uint c - 48)], Accept)"
| "http_action_step p k c A_KH =
     (p\<lparr>hp_state := H_HI\<rparr>, [http_emit p HTTP_HEADER_KEY 0], Accept)"
| "http_action_step p k c A_VH =
     (p\<lparr>hp_state := (if k = HC_CR then H_ER else H_C1)\<rparr>, [http_emit p HTTP_HEADER_VAL 0], Accept)"
| "http_action_step p k c A_KC =
     (p\<lparr>hp_state := H_CV\<rparr>, [http_emit p HTTP_HEADER_KEY 0], Accept)"
| "http_action_step p k c A_VC =
     (let p1 = p\<lparr>hp_cl := hp_cl p * 10 + (ucast c - 48)\<rparr> in
      if MAX_CL < hp_cl p1 then (p1, [], Reject)
      else (p1\<lparr>hp_state := H_CV\<rparr>, [], Accept))"
| "http_action_step p k c A_VE =
     (p\<lparr>hp_state := (if k = HC_CR then H_ER else H_C1)\<rparr>,
      [http_emit p HTTP_CL_VAL (uint (hp_cl p))], Accept)"
| "http_action_step p k c A_EA =
     (case http_body_as_ended p of
        (p1, ended) \<Rightarrow>
          if ended then (p1, [], Reject)
          else (p1\<lparr>hp_rx := hp_rx p1 OR http_escape_acc c, hp_state := H_E2\<rparr>, [], Accept))"
| "http_action_step p k c A_EB =
     (let ch = ucast (push_bit 4 (hp_rx p AND 0xFF) + http_unhex c) :: byte;
          body = http_isbodycontent p;
          p1 = p\<lparr>hp_state := (if body then H_BT else H_PT), hp_rx := hp_rx p AND 0xF0000000\<rparr>;
          ev = http_emit p (if body then HTTP_BODY_CHAR else http_pathorqs p) (uint ch)
      in if http_isbodycontent p1
         then (case http_consume_body p1 of (p2, ev2) \<Rightarrow> (p2, ev # ev2, Accept))
         else (p1, [ev], Accept))"
| "http_action_step p k c A_EH =
     (let e1 = http_emit p HTTP_HEADER_END 0;
          p1 = (if http_ispost p
                then p\<lparr>hp_state := H_BT,
                       hp_rx := HTTP_FLG_POST OR HTTP_FLG_QS OR HTTP_FLG_BODYCONTENT\<rparr>
                else p)
      in if http_ispost p \<and> hp_cl p \<noteq> 0 then (p1, [e1], Accept)
         else (p1\<lparr>hp_rx := hp_rx p1 OR HTTP_FLG_READY\<rparr>,
               [e1, http_emit p1 HTTP_READY 0], Accept))"
| "http_action_step p k c A_BC =
     (case http_consume_body p of
        (p1, ev) \<Rightarrow> (p1, http_emit p HTTP_BODY_CHAR (uint c) # ev, Accept))"
| "http_action_step p k c A_PC =
     (let p1 = p\<lparr>hp_state := H_PT\<rparr> in
      (p1, [http_emit p1 (http_pathorqs p1) (uint c)], Accept))"
| "http_action_step p k c A_QS =
     (let p1 = p\<lparr>hp_state := H_PT\<rparr> in
      if \<not> http_isqs p1
      then (p1\<lparr>hp_rx := hp_rx p1 OR HTTP_FLG_QS\<rparr>, [http_emit p1 HTTP_PATH_END 0], Accept)
      else (p1, [http_emit p1 (http_pathorqs p1) (uint c)], Accept))"
| "http_action_step p k c A_BH =
     (case http_body_as_ended p of
        (p1, ended) \<Rightarrow> if ended then (p1, [], Reject) else (p1\<lparr>hp_state := H_E1\<rparr>, [], Accept))"
| "http_action_step p k c A_HK =
     (p\<lparr>hp_state := H_HH\<rparr>, [http_emit p HTTP_HEADER_KEYC (uint c)], Accept)"
| "http_action_step p k c A_HV =
     (p\<lparr>hp_state := H_HI\<rparr>, [http_emit p HTTP_HEADER_VALC (uint c)], Accept)"

definition parse_http_char :: "(http_parser, http_event) machine" where
  "parse_http_char p c =
     (let p1 = p\<lparr>hp_step := hp_step p + 1\<rparr>;
          k = http_class_of c
      in if k = HC_NUL \<or> http_isready p1 then (p1, [], Reject)
         else case http_cell (hp_state p1) k of
                Go s \<Rightarrow> (p1\<lparr>hp_state := s\<rparr>, [], Accept)
              | Act a \<Rightarrow> http_action_step p1 k c a
              | XX \<Rightarrow> (p1, [], Reject))"

abbreviation http_feed :: "http_parser \<Rightarrow> byte list \<Rightarrow> http_parser \<times> http_event list \<times> verdict" where
  "http_feed \<equiv> feed parse_http_char"

lemma http_flag_bits:
  "http_isqs p = bit (hp_rx p) 30" "http_ispost p = bit (hp_rx p) 31"
  "http_isbodycontent p = bit (hp_rx p) 29" "http_isready p = bit (hp_rx p) 28"
  using and_exp_eq_0_iff_not_bit [of "hp_rx p" 30] and_exp_eq_0_iff_not_bit [of "hp_rx p" 31]
    and_exp_eq_0_iff_not_bit [of "hp_rx p" 29] and_exp_eq_0_iff_not_bit [of "hp_rx p" 28]
  by (simp_all add: http_is_defs http_flg_defs)

lemma http_flg_bit:
  "n < 32 \<Longrightarrow> bit HTTP_FLG_POST n \<longleftrightarrow> n = 31"
  "n < 32 \<Longrightarrow> bit HTTP_FLG_QS n \<longleftrightarrow> n = 30"
  "n < 32 \<Longrightarrow> bit HTTP_FLG_BODYCONTENT n \<longleftrightarrow> n = 29"
  "n < 32 \<Longrightarrow> bit HTTP_FLG_READY n \<longleftrightarrow> n = 28"
proof -
  have eq: "HTTP_FLG_POST = push_bit 31 1" "HTTP_FLG_QS = push_bit 30 1"
    "HTTP_FLG_BODYCONTENT = push_bit 29 1" "HTTP_FLG_READY = push_bit 28 1"
    by (simp_all add: http_flg_defs)
  show "n < 32 \<Longrightarrow> bit HTTP_FLG_POST n \<longleftrightarrow> n = 31"
    "n < 32 \<Longrightarrow> bit HTTP_FLG_QS n \<longleftrightarrow> n = 30"
    "n < 32 \<Longrightarrow> bit HTTP_FLG_BODYCONTENT n \<longleftrightarrow> n = 29"
    "n < 32 \<Longrightarrow> bit HTTP_FLG_READY n \<longleftrightarrow> n = 28"
    unfolding eq bit_push_bit_iff bit_1_iff by auto
qed

lemma http_cell_in_row: "http_cell s k \<in> set (http_row s)"
proof -
  have "length (http_row s) = 30" by (cases s) simp_all
  moreover have "http_column k < 30" by (cases k) simp_all
  ultimately show ?thesis by (simp add: http_cell_def)
qed

fun http_src :: "http_action \<Rightarrow> http_state list" where
  "http_src A_MG = [H_G3]" | "http_src A_MP = [H_P4]" | "http_src A_PE = [H_PT]"
| "http_src A_HA = [H_H6]" | "http_src A_HB = [H_H8]"
| "http_src A_KH = [H_HH, H_C1, H_C2, H_C3, H_C4, H_C5, H_C6, H_C7, H_C8, H_C9, H_CA, H_CB,
     H_CC, H_CD, H_CE]"
| "http_src A_VH = [H_HI]" | "http_src A_KC = [H_CG]" | "http_src A_VC = [H_CV]"
| "http_src A_VE = [H_CV]" | "http_src A_EA = [H_E1]" | "http_src A_EB = [H_E2]"
| "http_src A_EH = [H_C1, H_FI]" | "http_src A_BC = [H_BT]" | "http_src A_PC = [H_PT]"
| "http_src A_QS = [H_PT]" | "http_src A_BH = [H_BT]"
| "http_src A_HK = [H_HH, H_C1, H_C2, H_C3, H_C4, H_C5, H_C6, H_C7, H_C8, H_C9, H_CA, H_CB,
     H_CC, H_CD, H_CE, H_CF]"
| "http_src A_HV = [H_HI]"

lemma http_act_src: "http_cell s k = Act a \<Longrightarrow> s \<in> set (http_src a)"
  using http_cell_in_row [of s k] by (cases s) auto

lemma http_mask_bit: "n < 32 \<Longrightarrow> bit (0xF0000000 :: u32) n \<longleftrightarrow> 28 \<le> n"
proof -
  have eq: "(0xF0000000 :: u32) = push_bit 28 (mask 4)" by (simp add: mask_eq_exp_minus_1)
  assume "n < 32"
  then show ?thesis unfolding eq by (auto simp: bit_push_bit_iff bit_mask_iff)
qed

lemma http_escape_bits: "16 \<le> n \<Longrightarrow> \<not> bit (http_escape_acc c) n"
  by (auto simp: http_escape_acc_def bit_or_iff bit_push_bit_iff bit_ucast_iff
      dest: bit_imp_le_length)

lemmas http_bits = http_flag_bits http_flg_bit http_mask_bit http_escape_bits
  bit_or_iff bit_and_iff

subsection \<open>The callback protocol\<close>

datatype http_phase =
    Ph_Start | Ph_Path | Ph_Query | Ph_Minor | Ph_Headers | Ph_Key | Ph_Value | Ph_ValueC |
    Ph_HeadersEnd | Ph_Body | Ph_Done

fun http_phase_next :: "http_phase \<Rightarrow> callback_type \<Rightarrow> http_phase option" where
  "http_phase_next Ph_Start t = (if t = HTTP_METHOD then Some Ph_Path else None)"
| "http_phase_next Ph_Path t =
     (if t = HTTP_PATH_CHAR then Some Ph_Path
      else if t = HTTP_PATH_END then Some Ph_Query else None)"
| "http_phase_next Ph_Query t =
     (if t = HTTP_QS_CHAR then Some Ph_Query
      else if t = HTTP_VERSION_MAJOR then Some Ph_Minor else None)"
| "http_phase_next Ph_Minor t = (if t = HTTP_VERSION_MINOR then Some Ph_Headers else None)"
| "http_phase_next Ph_Headers t =
     (if t = HTTP_HEADER_KEYC then Some Ph_Key
      else if t = HTTP_HEADER_KEY then Some Ph_Value
      else if t = HTTP_HEADER_END then Some Ph_HeadersEnd else None)"
| "http_phase_next Ph_Key t =
     (if t = HTTP_HEADER_KEYC then Some Ph_Key
      else if t = HTTP_HEADER_KEY then Some Ph_Value else None)"
| "http_phase_next Ph_Value t =
     (if t = HTTP_HEADER_VALC then Some Ph_ValueC
      else if t \<in> {HTTP_HEADER_VAL, HTTP_CL_VAL} then Some Ph_Headers else None)"
| "http_phase_next Ph_ValueC t =
     (if t = HTTP_HEADER_VALC then Some Ph_ValueC
      else if t = HTTP_HEADER_VAL then Some Ph_Headers else None)"
| "http_phase_next Ph_HeadersEnd t =
     (if t = HTTP_BODY_CHAR then Some Ph_Body
      else if t = HTTP_READY then Some Ph_Done else None)"
| "http_phase_next Ph_Body t =
     (if t = HTTP_BODY_CHAR then Some Ph_Body
      else if t = HTTP_READY then Some Ph_Done else None)"
| "http_phase_next Ph_Done t = None"

fun http_protocol :: "http_phase \<Rightarrow> callback_type list \<Rightarrow> http_phase option" where
  "http_protocol ph [] = Some ph"
| "http_protocol ph (t # ts) =
     (case http_phase_next ph t of None \<Rightarrow> None | Some ph' \<Rightarrow> http_protocol ph' ts)"

lemma http_protocol_append:
  "http_protocol ph (xs @ ys) =
     (case http_protocol ph xs of None \<Rightarrow> None | Some ph' \<Rightarrow> http_protocol ph' ys)"
  by (induction xs arbitrary: ph) (auto split: option.splits)

datatype http_group = Gr_Start | Gr_Path | Gr_Version | Gr_Minor | Gr_Line | Gr_Key | Gr_Val |
  Gr_CL | Gr_Body

fun http_group_of :: "http_state \<Rightarrow> http_group" where
  "http_group_of H_GO = Gr_Start" | "http_group_of H_G1 = Gr_Start" | "http_group_of H_G2 = Gr_Start"
| "http_group_of H_G3 = Gr_Start" | "http_group_of H_P1 = Gr_Start" | "http_group_of H_P2 = Gr_Start"
| "http_group_of H_P3 = Gr_Start" | "http_group_of H_P4 = Gr_Start" | "http_group_of H_PT = Gr_Path"
| "http_group_of H_H1 = Gr_Version" | "http_group_of H_H2 = Gr_Version"
| "http_group_of H_H3 = Gr_Version" | "http_group_of H_H4 = Gr_Version"
| "http_group_of H_H5 = Gr_Version" | "http_group_of H_H6 = Gr_Version" | "http_group_of H_H7 = Gr_Minor"
| "http_group_of H_H8 = Gr_Minor" | "http_group_of H_EL = Gr_Line" | "http_group_of H_ER = Gr_Line"
| "http_group_of H_HH = Gr_Key" | "http_group_of H_HI = Gr_Val" | "http_group_of H_C1 = Gr_Line"
| "http_group_of H_C2 = Gr_Line" | "http_group_of H_C3 = Gr_Line" | "http_group_of H_C4 = Gr_Line"
| "http_group_of H_C5 = Gr_Line" | "http_group_of H_C6 = Gr_Line" | "http_group_of H_C7 = Gr_Line"
| "http_group_of H_C8 = Gr_Line" | "http_group_of H_C9 = Gr_Line" | "http_group_of H_CA = Gr_Line"
| "http_group_of H_CB = Gr_Line" | "http_group_of H_CC = Gr_Line" | "http_group_of H_CD = Gr_Line"
| "http_group_of H_CE = Gr_Line" | "http_group_of H_CF = Gr_Line" | "http_group_of H_CG = Gr_Line"
| "http_group_of H_CV = Gr_CL" | "http_group_of H_E1 = Gr_Path" | "http_group_of H_E2 = Gr_Path"
| "http_group_of H_FI = Gr_Line" | "http_group_of H_BT = Gr_Body"

lemma http_go_group: "http_cell s k = Go s' \<Longrightarrow> http_group_of s' = http_group_of s \<and> s \<notin> {H_E1, H_E2, H_BT}"
  using http_cell_in_row [of s k] by (cases s) auto

fun http_sim_at :: "http_group \<Rightarrow> http_parser \<Rightarrow> http_phase \<Rightarrow> bool" where
  "http_sim_at Gr_Start p ph = (ph = Ph_Start \<and> \<not> http_isqs p \<and> \<not> http_isbodycontent p)"
| "http_sim_at Gr_Path p ph =
     (if http_isbodycontent p
      then hp_state p \<noteq> H_PT \<and> hp_cl p \<noteq> 0 \<and> ph \<in> {Ph_HeadersEnd, Ph_Body}
      else ph = (if http_isqs p then Ph_Query else Ph_Path))"
| "http_sim_at Gr_Version p ph = (ph = Ph_Query \<and> \<not> http_isbodycontent p)"
| "http_sim_at Gr_Minor p ph = (ph = Ph_Minor \<and> \<not> http_isbodycontent p)"
| "http_sim_at Gr_Line p ph = (ph = Ph_Headers \<and> \<not> http_isbodycontent p)"
| "http_sim_at Gr_Key p ph = (ph = Ph_Key \<and> \<not> http_isbodycontent p)"
| "http_sim_at Gr_Val p ph = (ph \<in> {Ph_Value, Ph_ValueC} \<and> \<not> http_isbodycontent p)"
| "http_sim_at Gr_CL p ph = (ph = Ph_Value \<and> \<not> http_isbodycontent p)"
| "http_sim_at Gr_Body p ph =
     (ph \<in> {Ph_HeadersEnd, Ph_Body} \<and> http_isbodycontent p \<and> hp_cl p \<noteq> 0)"

definition http_sim :: "http_parser \<Rightarrow> http_phase \<Rightarrow> bool" where
  "http_sim p ph =
     (if http_isready p then ph = Ph_Done else http_sim_at (http_group_of (hp_state p)) p ph)"

lemma http_sim_action:
  assumes "http_sim_at (http_group_of (hp_state p)) p ph" "\<not> http_isready p" 
    "hp_state p \<in> set (http_src a)"
    and "http_action_step p k c a = (p', ev, v)"
  shows "\<exists>ph'. http_protocol ph (map fst ev) = Some ph' \<and> (v = Accept \<longrightarrow> http_sim p' ph')"
  using assms
  by (cases a)
    (auto simp: http_sim_def http_emit_def http_pathorqs_def http_bits Let_def
      http_body_as_ended_def http_consume_body_def split: if_splits)

lemma http_group_path: "http_group_of s = Gr_Path \<longleftrightarrow> s = H_PT \<or> s = H_E1 \<or> s = H_E2"
  by (cases s) auto

lemma http_group_body: "http_group_of s = Gr_Body \<longleftrightarrow> s = H_BT"
  by (cases s) auto

lemma http_sim_char:
  assumes "http_sim p ph" and "parse_http_char p c = (p', ev, v)"
  shows "\<exists>ph'. http_protocol ph (map fst ev) = Some ph' \<and> (v = Accept \<longrightarrow> http_sim p' ph')"
proof -
  let ?p = "p\<lparr>hp_step := hp_step p + 1\<rparr>" and ?k = "http_class_of c"
  have flags [simp]: "http_isready ?p = http_isready p" "http_isqs ?p = http_isqs p"
    "http_isbodycontent ?p = http_isbodycontent p" by (simp_all add: http_is_defs)
  show ?thesis
  proof (cases "?k = HC_NUL \<or> http_isready p")
    case True
    with assms show ?thesis by (auto simp: parse_http_char_def)
  next
    case False
    with assms(1) have at: "http_sim_at (http_group_of (hp_state p)) p ph"
      by (simp add: http_sim_def)
    then have at': "http_sim_at (http_group_of (hp_state ?p)) ?p ph"
      by (cases "http_group_of (hp_state p)") auto
    show ?thesis
    proof (cases "http_cell (hp_state p) ?k")
      case (Go s)
      from http_go_group [OF Go] have "http_group_of s = http_group_of (hp_state p)"
        "hp_state p \<notin> {H_E1, H_E2, H_BT}" by simp_all
      with Go False assms at show ?thesis
        by (cases "http_group_of (hp_state p)")
          (auto simp: parse_http_char_def http_sim_def http_is_defs http_group_path http_group_body
            split: if_splits)
    next
      case (Act a)
      with False assms(2) have "http_action_step ?p ?k c a = (p', ev, v)"
        by (simp add: parse_http_char_def)
      from http_sim_action [OF at' _ _ this] http_act_src [OF Act] False
      show ?thesis by simp
    next
      case XX
      with False assms show ?thesis by (simp add: parse_http_char_def)
    qed
  qed
qed

interpretation http_proto: protocol_machine parse_http_char http_sim
  "\<lambda>ph ev. http_protocol ph (map fst ev)"
proof
  show "http_protocol ph (map fst (xs @ ys)) =
      Option.bind (http_protocol ph (map fst xs)) (\<lambda>ph'. http_protocol ph' (map fst ys))"
    for ph and xs ys :: "http_event list"
    by (auto simp: http_protocol_append split: option.splits)
qed (auto dest: http_sim_char)

lemma http_sim_reset: "http_sim http_parser_reset Ph_Start"
  by (simp add: http_sim_def http_parser_reset_def http_is_defs)

subsection \<open>Runs over concrete shapes of input\<close>

text \<open>The events of a run without their step numbers, and runs that accept their whole input.\<close>

definition http_strip :: "http_event list \<Rightarrow> (callback_type \<times> int) list" where
  "http_strip ev = map (\<lambda>(t, v, n). (t, v)) ev"

definition http_run ::
    "http_parser \<Rightarrow> byte list \<Rightarrow> (callback_type \<times> int) list \<Rightarrow> http_parser \<Rightarrow> bool" where
  "http_run p cs es p' \<longleftrightarrow> (\<exists>ev. http_feed p cs = (p', ev, Accept) \<and> http_strip ev = es)"

abbreviation hp :: "http_state \<Rightarrow> u32 \<Rightarrow> u32 \<Rightarrow> u32 \<Rightarrow> http_parser" where
  "hp s rx n cl \<equiv> \<lparr>hp_state = s, hp_rx = rx, hp_step = n, hp_cl = cl\<rparr>"

lemma http_strip_simps [simp]:
  "http_strip [] = []" "http_strip ((t, v, n) # ev) = (t, v) # http_strip ev"
  "http_strip (xs @ ys) = http_strip xs @ http_strip ys"
  by (simp_all add: http_strip_def)

lemma http_run_Nil: "http_run p [] [] p"
  by (simp add: http_run_def)

lemma http_run_append:
  "http_run p xs es q \<Longrightarrow> http_run q ys fs r \<Longrightarrow> http_run p (xs @ ys) (es @ fs) r"
  by (auto simp: http_run_def feed_append)

lemma http_run_Cons:
  "http_run p [c] es q \<Longrightarrow> http_run q cs fs r \<Longrightarrow> http_run p (c # cs) (es @ fs) r"
  using http_run_append [of p "[c]" es q cs fs r] by simp

lemma http_cell_NUL: "http_cell s HC_NUL = XX"
  by (cases s) (simp_all add: http_cell_def)

lemma http_run_Go:
  assumes "http_cell s (http_class_of c) = Go s'" and "\<not> bit rx 28"
  shows "http_run (hp s rx n cl) [c] [] (hp s' rx (n + 1) cl)"
proof -
  from assms(1) have "http_class_of c \<noteq> HC_NUL" by (metis http_cell.distinct(3) http_cell_NUL)
  with assms show ?thesis
    by (simp add: http_run_def parse_http_char_def http_bits)
qed

lemma http_run_Act:
  assumes "http_cell s (http_class_of c) = Act a" and "\<not> bit rx 28"
    and "http_action_step (hp s rx (n + 1) cl) (http_class_of c) c a = (p', ev, Accept)"
  shows "http_run (hp s rx n cl) [c] (http_strip ev) p'"
proof -
  from assms(1) have "http_class_of c \<noteq> HC_NUL" by (metis http_cell.distinct(5) http_cell_NUL)
  with assms show ?thesis
    by (simp add: http_run_def parse_http_char_def http_bits)
qed

subsubsection \<open>Paths and query strings\<close>

definition http_plain :: "byte \<Rightarrow> bool" where
  "http_plain c \<longleftrightarrow> http_cell H_PT (http_class_of c) = Act A_PC"

definition http_hex :: "byte \<Rightarrow> bool" where
  "http_hex c \<longleftrightarrow> c \<in> set (bytes ''0123456789ABCDEFabcdef'')"

definition http_hexval :: "byte \<Rightarrow> nat" where
  "http_hexval c = unat (if c \<le> 57 then c - 48 else if c \<le> 70 then c - 55 else c - 87)"

datatype path_item = Plain byte | Pct byte byte

fun path_item_ok :: "path_item \<Rightarrow> bool" where
  "path_item_ok (Plain c) = http_plain c"
| "path_item_ok (Pct a b) = (http_hex a \<and> http_hex b)"

fun path_item_text :: "path_item \<Rightarrow> byte list" where
  "path_item_text (Plain c) = [c]"
| "path_item_text (Pct a b) = [37, a, b]"

fun path_item_value :: "path_item \<Rightarrow> int" where
  "path_item_value (Plain c) = uint c"
| "path_item_value (Pct a b) = int (16 * http_hexval a + http_hexval b)"

lemma http_hex_table:
  "http_hex c \<Longrightarrow> http_cell H_E1 (http_class_of c) = Act A_EA \<and>
     http_cell H_E2 (http_class_of c) = Act A_EB \<and>
     http_unhex c = word_of_nat (http_hexval c) \<and> http_hexval c < 16"
  by (auto simp: http_hex_def http_cell_def http_class_of_def http_ascii_class_def
      http_unhex_def http_hexval_def)

text \<open>The low 28 bits of \<open>rx\<close> are scratch space for the escape, clear outside an escape.\<close>

definition http_clean :: "u32 \<Rightarrow> bool" where
  "http_clean rx \<longleftrightarrow> rx AND 0x0FFFFFFF = 0"

lemma http_low_bit: "n < 32 \<Longrightarrow> bit (0x0FFFFFFF :: u32) n \<longleftrightarrow> n < 28"
proof -
  have eq: "(0x0FFFFFFF :: u32) = mask 28" by (simp add: mask_eq_exp_minus_1)
  show ?thesis unfolding eq by (auto simp: bit_mask_iff)
qed

lemma http_clean_bits: "http_clean rx \<longleftrightarrow> (\<forall>n<28. \<not> bit rx n)"
proof
  assume cl: "http_clean rx"
  show "\<forall>n<28. \<not> bit rx n"
  proof (intro allI impI)
    fix n :: nat assume n: "n < 28"
    from cl have "\<not> bit (rx AND 0x0FFFFFFF) n" by (simp add: http_clean_def)
    with n show "\<not> bit rx n"
      by (simp add: bit_and_iff http_low_bit del: bit_numeral_word_iff)
  qed
next
  assume "\<forall>n<28. \<not> bit rx n"
  then show "http_clean rx" unfolding http_clean_def
    by (intro bit_word_eqI) (auto simp: bit_and_iff http_low_bit simp del: bit_numeral_word_iff)
qed

lemma http_clean_escape:
  assumes "http_clean rx"
  shows "(rx OR http_escape_acc c) AND 0xF0000000 = rx"
    and "(rx OR http_escape_acc c) AND 0xFF = ucast (ucast (http_unhex c) :: byte)"
proof -
  have ff: "(0xFF :: u32) = mask 8" by (simp add: mask_eq_exp_minus_1)
  show "(rx OR http_escape_acc c) AND 0xF0000000 = rx"
    using assms unfolding http_clean_bits
    by (intro bit_word_eqI) (auto simp: bit_or_iff bit_and_iff http_mask_bit http_escape_bits
        simp del: bit_numeral_word_iff intro: leI)
  show "(rx OR http_escape_acc c) AND 0xFF = ucast (ucast (http_unhex c) :: byte)"
    using assms unfolding http_clean_bits ff
    by (intro bit_word_eqI)
      (auto simp: bit_or_iff bit_and_iff bit_mask_iff http_escape_acc_def bit_push_bit_iff
        bit_ucast_iff)
qed

lemma http_escape_value:
  assumes "n < 16" "m < 16"
  shows "uint (ucast (push_bit 4 (ucast (ucast (word_of_nat n :: u32) :: byte) :: u32)
           + word_of_nat m) :: byte) = int (16 * n + m)"
proof -
  have "unat (ucast (ucast (word_of_nat n :: u32) :: byte) :: u32) = n"
    using assms by (simp add: unsigned_ucast_eq unsigned_take_bit_eq unat_of_nat take_bit_nat_eq_self)
  then have w: "ucast (ucast (word_of_nat n :: u32) :: byte) = (word_of_nat n :: u32)"
    by (metis of_nat_unat ucast_id)
  have "push_bit 4 (word_of_nat n :: u32) + word_of_nat m = word_of_nat (16 * n + m)"
    by (simp add: push_bit_eq_mult)
  moreover have "unat (ucast (word_of_nat (16 * n + m) :: u32) :: byte) = 16 * n + m"
  proof -
    have "unat (word_of_nat (16 * n + m) :: u32) = 16 * n + m"
      using assms by (subst unat_of_nat) (simp add: take_bit_nat_eq_self)
    with assms show ?thesis
      by (simp only: unsigned_ucast_eq) (simp add: take_bit_nat_eq_self)
  qed
  ultimately show ?thesis unfolding w by (metis uint_nat of_nat_id)
qed

abbreviation path_text :: "path_item list \<Rightarrow> byte list" where
  "path_text is \<equiv> concat (map path_item_text is)"

lemma http_run_item:
  assumes "path_item_ok i" "http_clean rx" "\<not> bit rx 28" "\<not> bit rx 29"
  shows "http_run (hp H_PT rx n cl) (path_item_text i)
     [(if bit rx 30 then HTTP_QS_CHAR else HTTP_PATH_CHAR, path_item_value i)]
     (hp H_PT rx (n + of_nat (length (path_item_text i))) cl)"
proof (cases i)
  case (Plain c)
  with assms have "http_cell H_PT (http_class_of c) = Act A_PC" by (simp add: http_plain_def)
  from http_run_Act [OF this assms(3), of n cl] Plain show ?thesis
    by (auto simp: http_emit_def http_pathorqs_def http_bits)
next
  case (Pct a b)
  with assms(1) have a: "http_hex a" and b: "http_hex b" by simp_all
  have pct: "http_cell H_PT (http_class_of 37) = Go H_E1"
    by (simp add: http_cell_def http_class_of_def http_ascii_class_def)
  let ?rx = "rx OR http_escape_acc a"
  note ha = http_hex_table [OF a] and hb = http_hex_table [OF b]
  have r1: "http_run (hp H_PT rx n cl) [37] [] (hp H_E1 rx (n + 1) cl)"
    by (rule http_run_Go [OF pct assms(3)])
  have r2: "http_run (hp H_E1 rx (n + 1) cl) [a] [] (hp H_E2 ?rx (n + 1 + 1) cl)"
    using http_run_Act [of H_E1 a A_EA rx "n + 1" cl] ha assms
    by (auto simp: http_body_as_ended_def http_bits)
  have r3: "http_run (hp H_E2 ?rx (n + 1 + 1) cl) [b]
     [(if bit rx 30 then HTTP_QS_CHAR else HTTP_PATH_CHAR, path_item_value i)]
     (hp H_PT rx (n + 1 + 1 + 1) cl)"
    using http_run_Act [of H_E2 b A_EB ?rx "n + 1 + 1" cl] ha hb assms
    by (auto simp: http_emit_def http_pathorqs_def http_bits Let_def http_clean_escape
        http_escape_value Pct)
  from http_run_append [OF r1 http_run_append [OF r2 r3]] show ?thesis
    by (simp add: Pct add.assoc)
qed

lemma http_run_items:
  assumes "list_all path_item_ok is" "http_clean rx" "\<not> bit rx 28" "\<not> bit rx 29"
  shows "http_run (hp H_PT rx n cl) (path_text is)
     (map (\<lambda>i. (if bit rx 30 then HTTP_QS_CHAR else HTTP_PATH_CHAR, path_item_value i)) is)
     (hp H_PT rx (n + of_nat (length (path_text is))) cl)"
  using assms
proof (induction "is" arbitrary: n)
  case Nil
  then show ?case by (simp add: http_run_Nil)
next
  case (Cons i "is")
  from Cons.prems have "path_item_ok i" by simp
  from http_run_append [OF http_run_item [OF this assms(2-4)] Cons.IH] Cons.prems
  show ?case by (simp add: add.assoc)
qed

subsubsection \<open>Fixed texts and repeated characters\<close>

fun http_walk :: "http_state \<Rightarrow> byte list \<Rightarrow> http_state option" where
  "http_walk s [] = Some s"
| "http_walk s (c # cs) =
     (case http_cell s (http_class_of c) of Go s' \<Rightarrow> http_walk s' cs | _ \<Rightarrow> None)"

lemmas http_table_simps = http_cell_def http_class_of_def http_ascii_class_def

lemma http_run_walk:
  "http_walk s cs = Some s' \<Longrightarrow> \<not> bit rx 28 \<Longrightarrow>
   http_run (hp s rx n cl) cs [] (hp s' rx (n + of_nat (length cs)) cl)"
proof (induction cs arbitrary: s n)
  case Nil
  then show ?case by (simp add: http_run_Nil)
next
  case (Cons c cs)
  then obtain t where go: "http_cell s (http_class_of c) = Go t" and "http_walk t cs = Some s'"
    by (auto split: http_cell.splits)
  from http_run_Cons [OF http_run_Go [OF go] Cons.IH] this Cons.prems
  show ?case by (simp add: add.assoc)
qed

lemma http_run_repeat:
  assumes "list_all (\<lambda>c. http_cell s (http_class_of c) = Act a) cs" "\<not> bit rx 28"
    and "\<And>n k c. http_action_step (hp s rx n cl) k c a = (hp s rx n cl, [(t, uint c, n)], Accept)"
  shows "http_run (hp s rx n cl) cs (map (\<lambda>c. (t, uint c)) cs) (hp s rx (n + of_nat (length cs)) cl)"
  using assms(1)
proof (induction cs arbitrary: n)
  case Nil
  then show ?case by (simp add: http_run_Nil)
next
  case (Cons c cs)
  then have "http_cell s (http_class_of c) = Act a" by simp
  from http_run_Act [OF this assms(2,3)]
  have "http_run (hp s rx n cl) [c] [(t, uint c)] (hp s rx (n + 1) cl)" by simp
  from http_run_Cons [OF this Cons.IH] Cons.prems show ?case by (simp add: add.assoc)
qed

subsubsection \<open>Header lines\<close>

definition header_key_first :: "byte \<Rightarrow> bool" where
  "header_key_first c \<longleftrightarrow> http_cell H_C1 (http_class_of c) = Act A_HK"

definition header_key_char :: "byte \<Rightarrow> bool" where
  "header_key_char c \<longleftrightarrow> http_cell H_HH (http_class_of c) = Act A_HK"

definition header_val_char :: "byte \<Rightarrow> bool" where
  "header_val_char c \<longleftrightarrow> http_cell H_HI (http_class_of c) = Act A_HV"

type_synonym header = "byte list \<times> byte list"

fun header_ok :: "header \<Rightarrow> bool" where
  "header_ok (k, v) =
     (k \<noteq> [] \<and> header_key_first (hd k) \<and> list_all header_key_char (tl k) \<and> list_all header_val_char v)"

fun header_text :: "header \<Rightarrow> byte list" where
  "header_text (k, v) = k @ [58] @ v @ [13, 10]"

fun header_events :: "header \<Rightarrow> (callback_type \<times> int) list" where
  "header_events (k, v) =
     map (\<lambda>c. (HTTP_HEADER_KEYC, uint c)) k @ [(HTTP_HEADER_KEY, 0)] @
     map (\<lambda>c. (HTTP_HEADER_VALC, uint c)) v @ [(HTTP_HEADER_VAL, 0)]"

lemma http_run_value:
  assumes "list_all header_val_char v" "\<not> bit rx 28"
  shows "http_run (hp H_HI rx n cl) (v @ [13, 10])
     (map (\<lambda>c. (HTTP_HEADER_VALC, uint c)) v @ [(HTTP_HEADER_VAL, 0)])
     (hp H_C1 rx (n + of_nat (length (v @ [13, 10]))) cl)"
proof -
  let ?n = "n + of_nat (length v)"
  have 1: "http_run (hp H_HI rx n cl) v (map (\<lambda>c. (HTTP_HEADER_VALC, uint c)) v) (hp H_HI rx ?n cl)"
    using assms by (intro http_run_repeat [where a = A_HV])
      (auto simp: header_val_char_def [abs_def] http_emit_def)
  have 2: "http_run (hp H_HI rx ?n cl) [13] [(HTTP_HEADER_VAL, 0)] (hp H_ER rx (?n + 1) cl)"
    using http_run_Act [of H_HI 13 A_VH rx ?n cl] assms
    by (simp add: http_table_simps http_emit_def)
  have 3: "http_run (hp H_ER rx (?n + 1) cl) [10] [] (hp H_C1 rx (?n + 1 + 1) cl)"
    using assms by (intro http_run_Go) (simp_all add: http_table_simps)
  from http_run_append [OF 1 http_run_append [OF 2 3]] show ?thesis by (simp add: algebra_simps)
qed

lemma http_run_header:
  assumes "header_ok h" "\<not> bit rx 28"
  shows "http_run (hp H_C1 rx n cl) (header_text h) (header_events h)
     (hp H_C1 rx (n + of_nat (length (header_text h))) cl)"
proof -
  obtain k0 k v where h: "h = (k0 # k, v)" and k0: "header_key_first k0"
    and k: "list_all header_key_char k" and v: "list_all header_val_char v"
    using assms(1) by (cases h; cases "fst h") auto
  let ?n = "n + 1 + of_nat (length k)"
  have 1: "http_run (hp H_C1 rx n cl) [k0] [(HTTP_HEADER_KEYC, uint k0)] (hp H_HH rx (n + 1) cl)"
    using http_run_Act [of H_C1 k0 A_HK rx n cl] k0 assms(2)
    by (simp add: header_key_first_def http_emit_def)
  have 2: "http_run (hp H_HH rx (n + 1) cl) k (map (\<lambda>c. (HTTP_HEADER_KEYC, uint c)) k) (hp H_HH rx ?n cl)"
    using k assms by (intro http_run_repeat [where a = A_HK])
      (auto simp: header_key_char_def [abs_def] http_emit_def)
  have 3: "http_run (hp H_HH rx ?n cl) [58] [(HTTP_HEADER_KEY, 0)] (hp H_HI rx (?n + 1) cl)"
    using http_run_Act [of H_HH 58 A_KH rx ?n cl] assms
    by (simp add: http_table_simps http_emit_def)
  from http_run_append [OF 1 http_run_append [OF 2 http_run_append [OF 3
      http_run_value [OF v assms(2), of "?n + 1" cl]]]]
  show ?thesis by (simp add: h algebra_simps)
qed

lemma http_run_headers:
  "list_all header_ok hs \<Longrightarrow> \<not> bit rx 28 \<Longrightarrow>
   http_run (hp H_C1 rx n cl) (concat (map header_text hs)) (concat (map header_events hs))
     (hp H_C1 rx (n + of_nat (length (concat (map header_text hs)))) cl)"
proof (induction hs arbitrary: n)
  case Nil
  then show ?case by (simp add: http_run_Nil)
next
  case (Cons h hs)
  from Cons.prems have "header_ok h" by simp
  from http_run_append [OF http_run_header [OF this Cons.prems(2)] Cons.IH] Cons.prems
  show ?case by (simp add: algebra_simps)
qed

subsubsection \<open>Content-Length\<close>

definition http_digit :: "byte \<Rightarrow> bool" where
  "http_digit c \<longleftrightarrow> c \<in> set (bytes ''0123456789'')"

fun http_dec :: "nat \<Rightarrow> byte list \<Rightarrow> nat" where
  "http_dec a [] = a"
| "http_dec a (c # cs) = http_dec (a * 10 + (unat c - 48)) cs"

lemma http_dec_mono: "a \<le> http_dec a cs"
proof (induction cs arbitrary: a)
  case Nil
  then show ?case by simp
next
  case (Cons c cs)
  have "a \<le> a * 10 + (unat c - 48)" by simp
  also have "\<dots> \<le> http_dec (a * 10 + (unat c - 48)) cs" by (rule Cons.IH)
  finally show ?case by simp
qed

lemma http_digit_table:
  "http_digit c \<Longrightarrow> http_cell H_CV (http_class_of c) = Act A_VC \<and> unat c - 48 < 10 \<and>
     http_cell H_H6 (http_class_of c) = Act A_HA \<and> http_cell H_H8 (http_class_of c) = Act A_HB \<and>
     ucast c - 48 = (word_of_nat (unat c - 48) :: u32)"
  by (auto simp: http_digit_def http_table_simps)

lemma http_cl_update:
  assumes "a \<le> 1048576" "http_digit c"
  shows "(word_of_nat a :: u32) * 10 + (ucast c - 48) = word_of_nat (a * 10 + (unat c - 48))"
    and "MAX_CL < (word_of_nat (a * 10 + (unat c - 48)) :: u32) \<longleftrightarrow> 1048576 < a * 10 + (unat c - 48)"
proof -
  note dig = http_digit_table [OF assms(2)]
  show "(word_of_nat a :: u32) * 10 + (ucast c - 48) = word_of_nat (a * 10 + (unat c - 48))"
    using dig by simp
  have "unat (word_of_nat (a * 10 + (unat c - 48)) :: u32) = a * 10 + (unat c - 48)"
    using dig assms(1) by (subst unat_of_nat) (simp add: take_bit_nat_eq_self)
  then show "MAX_CL < (word_of_nat (a * 10 + (unat c - 48)) :: u32) \<longleftrightarrow>
      1048576 < a * 10 + (unat c - 48)"
    by (simp only: word_less_nat_alt) (simp add: MAX_CL_def)
qed

lemma http_run_digits:
  "list_all http_digit ds \<Longrightarrow> http_dec a ds \<le> 1048576 \<Longrightarrow> \<not> bit rx 28 \<Longrightarrow>
   http_run (hp H_CV rx n (of_nat a)) ds [] (hp H_CV rx (n + of_nat (length ds)) (of_nat (http_dec a ds)))"
proof (induction ds arbitrary: a n)
  case Nil
  then show ?case by (simp add: http_run_Nil)
next
  case (Cons d ds)
  let ?a = "a * 10 + (unat d - 48)"
  have d: "http_digit d" and le: "?a \<le> 1048576"
    using Cons.prems http_dec_mono [of ?a ds] by auto
  then have le': "a \<le> 1048576" by simp
  note up = http_cl_update [OF le' d]
  have "http_action_step (hp H_CV rx (n + 1) (of_nat a)) (http_class_of d) d A_VC =
      (hp H_CV rx (n + 1) (of_nat ?a), [], Accept)"
    using le by (simp add: up Let_def del: of_nat_add of_nat_mult)
  from http_run_Act [OF _ Cons.prems(3) this] http_digit_table [OF d]
  have "http_run (hp H_CV rx n (of_nat a)) [d] [] (hp H_CV rx (n + 1) (of_nat ?a))"
    by simp
  from http_run_Cons [OF this Cons.IH] Cons.prems show ?case by (simp add: algebra_simps)
qed

lemma http_feed_digits_reject:
  "list_all http_digit ds \<Longrightarrow> a \<le> 1048576 \<Longrightarrow> 1048576 < http_dec a ds \<Longrightarrow> \<not> bit rx 28 \<Longrightarrow>
   \<exists>p'. http_feed (hp H_CV rx n (of_nat a)) ds = (p', [], Reject)"
proof (induction ds arbitrary: a n)
  case Nil
  then show ?case by simp
next
  case (Cons d ds)
  let ?a = "a * 10 + (unat d - 48)"
  have d: "http_digit d" using Cons.prems by simp
  note up = http_cl_update [OF Cons.prems(2) d] and tab = http_digit_table [OF d]
  then have nn: "http_class_of d \<noteq> HC_NUL" by (metis http_cell.distinct(5) http_cell_NUL)
  show ?case
  proof (cases "1048576 < ?a")
    case True
    with tab nn up Cons.prems(4) show ?thesis
      by (simp add: parse_http_char_def http_bits Let_def del: of_nat_add of_nat_mult)
  next
    case False
    with tab nn up Cons.prems(4)
    have "parse_http_char (hp H_CV rx n (of_nat a)) d = (hp H_CV rx (n + 1) (of_nat ?a), [], Accept)"
      by (simp add: parse_http_char_def http_bits Let_def del: of_nat_add of_nat_mult)
    moreover obtain p' where "http_feed (hp H_CV rx (n + 1) (of_nat ?a)) ds = (p', [], Reject)"
      using Cons.IH [of ?a "n + 1"] Cons.prems False by auto
    ultimately show ?thesis by simp
  qed
qed

lemma http_run_content_length:
  assumes "list_all http_digit ds" "http_dec 0 ds \<le> 1048576" "\<not> bit rx 28"
  shows "http_run (hp H_C1 rx n 0) (bytes ''Content-Length: '' @ ds @ [13, 10])
     [(HTTP_HEADER_KEY, 0), (HTTP_CL_VAL, int (http_dec 0 ds))]
     (hp H_C1 rx (n + of_nat (length (bytes ''Content-Length: '' @ ds @ [13, 10])))
       (of_nat (http_dec 0 ds)))"
proof -
  let ?cl = "of_nat (http_dec 0 ds) :: u32" and ?n = "n + 15 + 1 + of_nat (length ds)"
  have 1: "http_run (hp H_C1 rx n 0) (bytes ''Content-Length:'') [] (hp H_CG rx (n + 15) 0)"
    using http_run_walk [of H_C1 "bytes ''Content-Length:''" H_CG rx n 0] assms(3)
    by (simp add: http_table_simps)
  have 2: "http_run (hp H_CG rx (n + 15) 0) [32] [(HTTP_HEADER_KEY, 0)] (hp H_CV rx (n + 15 + 1) 0)"
    using http_run_Act [of H_CG 32 A_KC rx "n + 15" 0] assms(3)
    by (simp add: http_table_simps http_emit_def)
  have 3: "http_run (hp H_CV rx (n + 15 + 1) 0) ds [] (hp H_CV rx ?n ?cl)"
    using http_run_digits [of ds 0 rx "n + 15 + 1"] assms by simp
  have "uint ?cl = int (http_dec 0 ds)"
    using assms(2) by (intro uint_word_of_nat) simp
  then have 4: "http_run (hp H_CV rx ?n ?cl) [13] [(HTTP_CL_VAL, int (http_dec 0 ds))] (hp H_ER rx (?n + 1) ?cl)"
    using http_run_Act [of H_CV 13 A_VE rx ?n ?cl] assms(3)
    by (simp add: http_table_simps http_emit_def)
  have 5: "http_run (hp H_ER rx (?n + 1) ?cl) [10] [] (hp H_C1 rx (?n + 1 + 1) ?cl)"
    using assms by (intro http_run_Go) (simp_all add: http_table_simps)
  from http_run_append [OF 1 http_run_append [OF 2 http_run_append [OF 3 http_run_append [OF 4 5]]]]
  show ?thesis by (simp add: algebra_simps)
qed

subsubsection \<open>Bodies\<close>

fun body_item_ok :: "path_item \<Rightarrow> bool" where
  "body_item_ok (Plain c) = (http_cell H_BT (http_class_of c) = Act A_BC)"
| "body_item_ok (Pct a b) = (http_hex a \<and> http_hex b)"

lemma word_of_nat_pred: "(word_of_nat (Suc k) :: 'a::len word) - 1 = word_of_nat k"
  by simp

lemma http_run_body_item:
  assumes "body_item_ok i" "http_clean rx" "\<not> bit rx 28" "bit rx 29"
    and "length (path_item_text i) + r < 2 ^ 32"
  shows "http_run (hp H_BT rx n (of_nat (length (path_item_text i) + r))) (path_item_text i)
     ((HTTP_BODY_CHAR, path_item_value i) # (if r = 0 then [(HTTP_READY, 0)] else []))
     (hp H_BT (if r = 0 then rx OR HTTP_FLG_READY else rx)
        (n + of_nat (length (path_item_text i))) (of_nat r))"
proof (cases i)
  case (Plain c)
  with assms have cell: "http_cell H_BT (http_class_of c) = Act A_BC" by simp
  from assms(5) have "(word_of_nat r :: u32) = 0 \<longleftrightarrow> r = 0"
    by (intro word_of_nat_0_iff) simp
  with http_run_Act [OF cell assms(3), of n "of_nat (Suc r)"] Plain show ?thesis
    by (auto simp: http_emit_def http_consume_body_def Let_def)
next
  case (Pct a b)
  with assms(1) have a: "http_hex a" and b: "http_hex b" by simp_all
  have pct: "http_cell H_BT (http_class_of 37) = Act A_BH" by (simp add: http_table_simps)
  let ?rx = "rx OR http_escape_acc a"
  note ha = http_hex_table [OF a] and hb = http_hex_table [OF b]
  have r: "r + 3 < 2 ^ 32" using assms(5) Pct by simp
  have z: "(word_of_nat (Suc (Suc r)) :: u32) \<noteq> 0" "(word_of_nat (Suc r) :: u32) \<noteq> 0"
    "(word_of_nat r :: u32) = 0 \<longleftrightarrow> r = 0"
    using r by (simp_all add: word_of_nat_0_iff del: of_nat_Suc)
  have e1: "http_body_as_ended (hp H_BT rx (n + 1) (of_nat (Suc (Suc (Suc r))))) =
      (hp H_BT rx (n + 1) (of_nat (Suc (Suc r))), False)"
    using assms(4) z by (simp add: http_body_as_ended_def http_bits word_of_nat_pred Let_def del: of_nat_Suc)
  have r1: "http_run (hp H_BT rx n (of_nat (Suc (Suc (Suc r))))) [37] []
      (hp H_E1 rx (n + 1) (of_nat (Suc (Suc r))))"
    using http_run_Act [OF pct assms(3), of n "of_nat (Suc (Suc (Suc r)))"] e1
    by (simp del: of_nat_Suc)
  have e2: "http_body_as_ended (hp H_E1 rx (n + 1 + 1) (of_nat (Suc (Suc r)))) =
      (hp H_E1 rx (n + 1 + 1) (of_nat (Suc r)), False)"
    using assms(4) z by (simp add: http_body_as_ended_def http_bits word_of_nat_pred Let_def del: of_nat_Suc)
  have r2: "http_run (hp H_E1 rx (n + 1) (of_nat (Suc (Suc r)))) [a] []
      (hp H_E2 ?rx (n + 1 + 1) (of_nat (Suc r)))"
    using http_run_Act [of H_E1 a A_EA rx "n + 1" "of_nat (Suc (Suc r))"] ha assms e2
    by (simp del: of_nat_Suc)
  have r3: "http_run (hp H_E2 ?rx (n + 1 + 1) (of_nat (Suc r))) [b]
      ((HTTP_BODY_CHAR, path_item_value i) # (if r = 0 then [(HTTP_READY, 0)] else []))
      (hp H_BT (if r = 0 then rx OR HTTP_FLG_READY else rx) (n + 1 + 1 + 1) (of_nat r))"
    using http_run_Act [of H_E2 b A_EB ?rx "n + 1 + 1" "of_nat (Suc r)"] ha hb assms z
    by (auto simp: http_emit_def http_bits Let_def http_clean_escape http_consume_body_def
        http_escape_value Pct word_of_nat_pred simp del: of_nat_Suc)
  from http_run_append [OF r1 http_run_append [OF r2 r3]] show ?thesis
    by (cases "r = 0") (simp_all add: Pct add.assoc)
qed

lemma http_run_body:
  assumes "list_all body_item_ok is" "is \<noteq> []" "http_clean rx" "\<not> bit rx 28" "bit rx 29"
    and "length (path_text is) < 2 ^ 32"
  shows "http_run (hp H_BT rx n (of_nat (length (path_text is)))) (path_text is)
     (map (\<lambda>i. (HTTP_BODY_CHAR, path_item_value i)) is @ [(HTTP_READY, 0)])
     (hp H_BT (rx OR HTTP_FLG_READY) (n + of_nat (length (path_text is))) 0)"
  using assms
proof (induction "is" arbitrary: n)
  case Nil
  then show ?case by simp
next
  case (Cons i "is")
  from Cons.prems have i: "body_item_ok i"
    and len: "length (path_item_text i) + length (path_text is) < 2 ^ 32" by simp_all
  note one = http_run_body_item [OF i Cons.prems(3-5) len, of n]
  show ?case
  proof (cases "is = []")
    case True
    with one show ?thesis by simp
  next
    case False
    then have "(length (path_text is) = 0) = False"
      by (cases "is"; cases "hd is") auto
    from one [unfolded this if_False] have "http_run (hp H_BT rx n (of_nat (length (path_item_text i) + length (path_text is))))
        (path_item_text i) [(HTTP_BODY_CHAR, path_item_value i)]
        (hp H_BT rx (n + of_nat (length (path_item_text i))) (of_nat (length (path_text is))))" .
    from http_run_append [OF this Cons.IH] Cons.prems False show ?thesis
      by (simp add: algebra_simps)
  qed
qed

subsubsection \<open>Whole requests\<close>

datatype http_method = HTTP_GET | HTTP_POST

fun method_text :: "http_method \<Rightarrow> byte list" where
  "method_text HTTP_GET = bytes ''GET ''"
| "method_text HTTP_POST = bytes ''POST ''"

fun method_value :: "http_method \<Rightarrow> int" where
  "method_value HTTP_GET = 0"
| "method_value HTTP_POST = 1"

definition method_rx :: "http_method \<Rightarrow> u32" where
  "method_rx m = (if m = HTTP_POST then HTTP_FLG_POST else 0)"

fun qs_item_ok :: "path_item \<Rightarrow> bool" where
  "qs_item_ok (Plain c) =
     (http_cell H_PT (http_class_of c) \<in> {Act A_PC, Act A_QS})"
| "qs_item_ok (Pct a b) = (http_hex a \<and> http_hex b)"

fun query_text :: "path_item list option \<Rightarrow> byte list" where
  "query_text None = []"
| "query_text (Some js) = 63 # path_text js"

fun query_events :: "path_item list option \<Rightarrow> (callback_type \<times> int) list" where
  "query_events None = []"
| "query_events (Some js) = map (\<lambda>j. (HTTP_QS_CHAR, path_item_value j)) js"

definition request_line_text ::
    "http_method \<Rightarrow> path_item list \<Rightarrow> path_item list option \<Rightarrow> byte \<Rightarrow> byte \<Rightarrow> byte list" where
  "request_line_text m is q d1 d2 =
     method_text m @ path_text is @ query_text q @
     ([32] @ bytes ''HTTP/'' @ [d1] @ [46] @ [d2] @ [13, 10])"

definition request_line_events ::
    "http_method \<Rightarrow> path_item list \<Rightarrow> path_item list option \<Rightarrow> byte \<Rightarrow> byte \<Rightarrow> (callback_type \<times> int) list"
where
  "request_line_events m is q d1 d2 =
     (HTTP_METHOD, method_value m) # map (\<lambda>i. (HTTP_PATH_CHAR, path_item_value i)) is @
     (HTTP_PATH_END, 0) # query_events q @
     [(HTTP_VERSION_MAJOR, uint d1 - 48), (HTTP_VERSION_MINOR, uint d2 - 48)]"

lemma method_rx_bits: "n < 32 \<Longrightarrow> bit (method_rx m) n \<longleftrightarrow> m = HTTP_POST \<and> n = 31"
  by (simp add: method_rx_def http_flg_bit)

lemma http_run_method:
  "http_run http_parser_reset (method_text m) [(HTTP_METHOD, method_value m)]
     (hp H_PT (method_rx m) (of_nat (length (method_text m))) 0)"
  by (cases m)
    (simp_all add: http_run_def http_parser_reset_def parse_http_char_def http_table_simps
      http_is_defs http_emit_def method_rx_def)

lemma http_run_qs_item:
  assumes "qs_item_ok i" "http_clean rx" "\<not> bit rx 28" "\<not> bit rx 29" "bit rx 30"
  shows "http_run (hp H_PT rx n cl) (path_item_text i) [(HTTP_QS_CHAR, path_item_value i)]
     (hp H_PT rx (n + of_nat (length (path_item_text i))) cl)"
proof (cases "path_item_ok i")
  case True
  from http_run_item [OF this assms(2-4)] assms(5) show ?thesis by simp
next
  case False
  with assms(1) obtain c where i: "i = Plain c" and "http_cell H_PT (http_class_of c) = Act A_QS"
    by (cases i) (auto simp: http_plain_def)
  from http_run_Act [OF this(2) assms(3), of n cl] assms(5) i show ?thesis
    by (auto simp: http_emit_def http_pathorqs_def http_bits)
qed

lemma http_run_query:
  assumes "case q of None \<Rightarrow> True | Some js \<Rightarrow> list_all qs_item_ok js"
    and "http_clean rx" "\<not> bit rx 28" "\<not> bit rx 29" "\<not> bit rx 30"
  shows "\<exists>es. http_run (hp H_PT rx n cl) (query_text q @ [32]) ((HTTP_PATH_END, 0) # es)
      (hp H_H1 (if q = None then rx else rx OR HTTP_FLG_QS)
        (n + of_nat (length (query_text q @ [32]))) cl) \<and> es = query_events q"
proof (cases q)
  case None
  have "http_cell H_PT (http_class_of 32) = Act A_PE" by (simp add: http_table_simps)
  from http_run_Act [OF this assms(3), of n cl] assms(5) None show ?thesis
    by (simp add: http_emit_def http_bits)
next
  case (Some js)
  let ?rx = "rx OR HTTP_FLG_QS"
  have q: "http_cell H_PT (http_class_of 63) = Act A_QS" by (simp add: http_table_simps)
  have e: "http_cell H_PT (http_class_of 32) = Act A_PE" by (simp add: http_table_simps)
  have cl: "http_clean ?rx" using assms(2) by (simp add: http_clean_bits http_bits)
  have fl: "\<not> bit ?rx 28" "\<not> bit ?rx 29" "bit ?rx 30" using assms by (simp_all add: http_bits)
  have 1: "http_run (hp H_PT rx n cl) [63] [(HTTP_PATH_END, 0)] (hp H_PT ?rx (n + 1) cl)"
    using http_run_Act [OF q assms(3), of n cl] assms(5)
    by (simp add: http_emit_def http_bits)
  have 2: "http_run (hp H_PT ?rx k cl) (path_text js) (query_events (Some js))
      (hp H_PT ?rx (k + of_nat (length (path_text js))) cl)" for k
  proof -
    from assms(1) Some have "list_all qs_item_ok js" by simp
    then show ?thesis
    proof (induction js arbitrary: k)
      case Nil
      then show ?case by (simp add: http_run_Nil)
    next
      case (Cons j js)
      then have "qs_item_ok j" by simp
      from http_run_append [OF http_run_qs_item [OF this cl fl] Cons.IH] Cons.prems
      show ?case by (simp add: algebra_simps)
    qed
  qed
  have 3: "http_run (hp H_PT ?rx k cl) [32] [] (hp H_H1 ?rx (k + 1) cl)" for k
    using http_run_Act [OF e fl(1), of k cl] fl by (simp add: http_bits)
  from http_run_append [OF 1 http_run_append [OF 2 3]] Some show ?thesis
    by (simp add: algebra_simps)
qed

lemma http_run_version:
  assumes "http_digit d1" "http_digit d2" "\<not> bit rx 28"
  shows "http_run (hp H_H1 rx n cl) (bytes ''HTTP/'' @ [d1] @ [46] @ [d2] @ [13, 10])
     [(HTTP_VERSION_MAJOR, uint d1 - 48), (HTTP_VERSION_MINOR, uint d2 - 48)]
     (hp H_C1 rx (n + 10) cl)"
proof -
  note t1 = http_digit_table [OF assms(1)] and t2 = http_digit_table [OF assms(2)]
  have 1: "http_run (hp H_H1 rx n cl) (bytes ''HTTP/'') [] (hp H_H6 rx (n + 5) cl)"
    using http_run_walk [of H_H1 "bytes ''HTTP/''" H_H6 rx n cl] assms(3)
    by (simp add: http_table_simps)
  have 2: "http_run (hp H_H6 rx (n + 5) cl) [d1] [(HTTP_VERSION_MAJOR, uint d1 - 48)] (hp H_H7 rx (n + 5 + 1) cl)"
    using http_run_Act [of H_H6 d1 A_HA rx "n + 5" cl] t1 assms(3) by (simp add: http_emit_def)
  have 3: "http_run (hp H_H7 rx (n + 5 + 1) cl) [46] [] (hp H_H8 rx (n + 5 + 1 + 1) cl)"
    using assms(3) by (intro http_run_Go) (simp_all add: http_table_simps)
  have 4: "http_run (hp H_H8 rx (n + 5 + 1 + 1) cl) [d2] [(HTTP_VERSION_MINOR, uint d2 - 48)]
      (hp H_EL rx (n + 5 + 1 + 1 + 1) cl)"
    using http_run_Act [of H_H8 d2 A_HB rx "n + 5 + 1 + 1" cl] t2 assms(3)
    by (simp add: http_emit_def)
  let ?m = "n + 5 + 1 + 1 + 1"
  have 5: "http_run (hp H_EL rx ?m cl) [13] [] (hp H_ER rx (?m + 1) cl)"
    using assms(3) by (intro http_run_Go) (simp_all add: http_table_simps)
  have 6: "http_run (hp H_ER rx (?m + 1) cl) [10] [] (hp H_C1 rx (?m + 1 + 1) cl)"
    using assms(3) by (intro http_run_Go) (simp_all add: http_table_simps)
  from http_run_append [OF 1 http_run_append [OF 2 http_run_append [OF 3 http_run_append [OF 4
      http_run_append [OF 5 6]]]]]
  show ?thesis by (simp add: add.commute)
qed

definition request_ok :: "path_item list \<Rightarrow> path_item list option \<Rightarrow> byte \<Rightarrow> byte \<Rightarrow> bool" where
  "request_ok is q d1 d2 \<longleftrightarrow> list_all path_item_ok is \<and>
     (case q of None \<Rightarrow> True | Some js \<Rightarrow> list_all qs_item_ok js) \<and> http_digit d1 \<and> http_digit d2"

definition request_rx :: "http_method \<Rightarrow> path_item list option \<Rightarrow> u32" where
  "request_rx m q = (if q = None then method_rx m else method_rx m OR HTTP_FLG_QS)"

lemma request_rx_bits:
  "n < 32 \<Longrightarrow> bit (request_rx m q) n \<longleftrightarrow> m = HTTP_POST \<and> n = 31 \<or> q \<noteq> None \<and> n = 30"
  by (auto simp: request_rx_def http_bits method_rx_bits)

lemma http_run_request_line:
  assumes "request_ok is q d1 d2"
  shows "\<exists>n. http_run http_parser_reset (request_line_text m is q d1 d2)
     (request_line_events m is q d1 d2) (hp H_C1 (request_rx m q) n 0)"
proof -
  let ?rx = "method_rx m" and ?n = "of_nat (length (method_text m)) :: u32"
  have cl: "http_clean ?rx" and fl: "\<not> bit ?rx 28" "\<not> bit ?rx 29" "\<not> bit ?rx 30"
    by (simp_all add: http_clean_bits method_rx_bits)
  from assms have "is": "list_all path_item_ok is" and d: "http_digit d1" "http_digit d2"
    and q: "case q of None \<Rightarrow> True | Some js \<Rightarrow> list_all qs_item_ok js"
    by (auto simp: request_ok_def)
  let ?n1 = "?n + of_nat (length (path_text is))"
  have 1: "http_run (hp H_PT ?rx ?n 0) (path_text is)
      (map (\<lambda>i. (HTTP_PATH_CHAR, path_item_value i)) is) (hp H_PT ?rx ?n1 0)"
    using http_run_items [OF "is" cl fl(1,2), of ?n 0] fl(3) by simp
  from http_run_query [OF q cl fl, of ?n1 0] obtain n2
    where 2: "http_run (hp H_PT ?rx ?n1 0) (query_text q @ [32])
      ((HTTP_PATH_END, 0) # query_events q) (hp H_H1 (request_rx m q) n2 0)"
    by (auto simp: request_rx_def)
  have "\<not> bit (request_rx m q) 28" by (simp add: request_rx_bits)
  from http_run_append [OF http_run_method [of m] http_run_append [OF 1 http_run_append [OF 2
      http_run_version [OF d this]]]]
  show ?thesis by (auto simp: request_line_text_def request_line_events_def)
qed

lemma http_run_end_get:
  assumes "\<not> bit rx 28" "\<not> bit rx 31"
  shows "http_run (hp H_C1 rx n cl) [13, 10] [(HTTP_HEADER_END, 0), (HTTP_READY, 0)]
     (hp H_FI (rx OR HTTP_FLG_READY) (n + 2) cl)"
proof -
  have 1: "http_run (hp H_C1 rx n cl) [13] [] (hp H_FI rx (n + 1) cl)"
    using assms by (intro http_run_Go) (simp_all add: http_table_simps)
  have 2: "http_run (hp H_FI rx (n + 1) cl) [10] [(HTTP_HEADER_END, 0), (HTTP_READY, 0)]
      (hp H_FI (rx OR HTTP_FLG_READY) (n + 1 + 1) cl)"
    using http_run_Act [of H_FI 10 A_EH rx "n + 1" cl] assms
    by (simp add: http_table_simps http_emit_def http_bits Let_def)
  from http_run_append [OF 1 2] show ?thesis by (auto simp: add.commute)
qed

definition HTTP_FLG_BODY :: u32 where
  "HTTP_FLG_BODY = HTTP_FLG_POST OR HTTP_FLG_QS OR HTTP_FLG_BODYCONTENT"

lemma http_run_end_post:
  assumes "\<not> bit rx 28" "bit rx 31"
  shows "http_run (hp H_C1 rx n cl) [13, 10]
     ((HTTP_HEADER_END, 0) # (if cl = 0 then [(HTTP_READY, 0)] else []))
     (hp H_BT (if cl = 0 then HTTP_FLG_BODY OR HTTP_FLG_READY else HTTP_FLG_BODY) (n + 2) cl)"
proof -
  have 1: "http_run (hp H_C1 rx n cl) [13] [] (hp H_FI rx (n + 1) cl)"
    using assms by (intro http_run_Go) (simp_all add: http_table_simps)
  have 2: "http_run (hp H_FI rx (n + 1) cl) [10]
      ((HTTP_HEADER_END, 0) # (if cl = 0 then [(HTTP_READY, 0)] else []))
      (hp H_BT (if cl = 0 then HTTP_FLG_BODY OR HTTP_FLG_READY else HTTP_FLG_BODY) (n + 1 + 1) cl)"
    using http_run_Act [of H_FI 10 A_EH rx "n + 1" cl] assms
    by (auto simp: http_table_simps http_emit_def http_bits Let_def HTTP_FLG_BODY_def)
  from http_run_append [OF 1 2] show ?thesis by (auto simp: add.commute)
qed

subsection \<open>The Content-Length bound\<close>

lemma http_ascii_digit:
  "list_all (\<lambda>n. http_ascii_class ! n = HC_DIGIT \<longrightarrow> 48 \<le> n \<and> n \<le> 57) [0..<128]"
  by (simp add: http_ascii_class_def upt_rec)

lemma http_class_digit: "http_class_of c = HC_DIGIT \<Longrightarrow> 48 \<le> unat c \<and> unat c \<le> 57"
proof -
  assume d: "http_class_of c = HC_DIGIT"
  then have "\<not> 128 \<le> c" by (auto simp: http_class_of_def)
  then have "unat c < 128" by (simp add: word_le_nat_alt)
  with d http_ascii_digit \<open>\<not> 128 \<le> c\<close> show ?thesis
    by (auto simp: http_class_of_def list_all_iff)
qed

lemma http_class_digit_uint: "http_class_of c = HC_DIGIT \<Longrightarrow> 48 \<le> uint c"
  using http_class_digit [of c] unfolding uint_nat by linarith

lemma http_cell_major: "http_cell s k = Act A_HA \<Longrightarrow> k = HC_DIGIT"
  using http_act_src [of s k A_HA] by (cases k) (auto simp: http_cell_def)

lemma http_cell_minor: "http_cell s k = Act A_HB \<Longrightarrow> k = HC_DIGIT"
  using http_act_src [of s k A_HB] by (cases k) (auto simp: http_cell_def)

lemmas http_cell_digit = http_cell_major http_cell_minor

definition http_inv :: "http_parser \<Rightarrow> bool" where
  "http_inv p \<longleftrightarrow> hp_cl p \<le> MAX_CL \<and> (\<exists>ph. http_sim p ph)"

fun http_event_ok :: "http_event \<Rightarrow> bool" where
  "http_event_ok (t, v, n) = (0 \<le> v \<and> (if t = HTTP_CL_VAL then v \<le> 1048576 else v < 256))"

lemma word_pred_le: "x \<noteq> 0 \<Longrightarrow> x \<le> y \<Longrightarrow> x - 1 \<le> y" for x y :: u32
  by unat_arith

lemma uint_byte_lt: "uint (c :: byte) < 256"
  using uint_lt2p [of c] by simp

lemma http_cl_action:
  assumes "http_sim_at (http_group_of (hp_state p)) p ph" "hp_cl p \<le> MAX_CL"
    and "hp_state p \<in> set (http_src a)" and "http_action_step p k c a = (p', ev, Accept)"
  shows "hp_cl p' \<le> MAX_CL"
  using assms
  by (cases a)
    (auto simp: Let_def http_body_as_ended_def http_consume_body_def http_bits word_pred_le
      not_less split: if_splits)

lemma http_event_ok_simps:
  "http_event_ok (http_emit p t v) \<longleftrightarrow>
     0 \<le> v \<and> (if t = HTTP_CL_VAL then v \<le> 1048576 else v < 256)"
  by (simp add: http_emit_def)

lemma http_pathorqs_cl: "http_pathorqs p \<noteq> HTTP_CL_VAL"
  by (simp add: http_pathorqs_def)

lemma http_event_consume:
  "http_consume_body p = (p', ev) \<Longrightarrow> list_all http_event_ok ev"
  by (auto simp: http_consume_body_def Let_def http_event_ok_simps split: if_splits
      simp del: http_event_ok.simps)

lemma http_event_action:
  assumes "a \<in> {A_HA, A_HB} \<longrightarrow> 48 \<le> uint c" "uint (hp_cl p) \<le> 1048576"
    and "http_action_step p k c a = (p', ev, v)"
  shows "list_all http_event_ok ev"
proof -
  have byte: "uint c - 48 < 256"
    using uint_byte_lt [of c] by simp
  have esc: "uint (ucast (push_bit 4 (hp_rx p AND 255) + http_unhex c) :: byte) < 256"
    by (rule uint_byte_lt)
  note simps = Let_def http_event_ok_simps http_pathorqs_cl uint_byte_lt byte
  show ?thesis
    using assms
  proof (cases a)
    case A_EB
    with assms(3) esc http_pathorqs_cl http_event_consume show ?thesis
      by (auto simp: Let_def http_event_ok_simps simp del: http_event_ok.simps
          split: if_splits prod.splits)
  next
    case A_BC
    with assms(3) http_event_consume show ?thesis
      by (auto simp: simps simp del: http_event_ok.simps split: prod.splits)
  qed (auto simp: simps http_body_as_ended_def simp del: http_event_ok.simps split: if_splits)
qed

lemma parse_http_char_elim:
  assumes "parse_http_char p c = (p', ev, v)"
  obtains (refuse) "ev = []" "v = Reject" "p' = p\<lparr>hp_step := hp_step p + 1\<rparr>"
    | (go) s where "ev = []" "v = Accept" "p' = p\<lparr>hp_step := hp_step p + 1, hp_state := s\<rparr>"
    | (act) a where "\<not> http_isready p" "http_cell (hp_state p) (http_class_of c) = Act a"
        "http_action_step (p\<lparr>hp_step := hp_step p + 1\<rparr>) (http_class_of c) c a = (p', ev, v)"
proof -
  show thesis
  proof (cases "http_class_of c = HC_NUL \<or> http_isready p")
    case True
    with assms refuse show ?thesis by (auto simp: parse_http_char_def Let_def http_is_defs)
  next
    case False
    then show ?thesis
      using assms refuse go act
      by (cases "http_cell (hp_state p) (http_class_of c)")
        (auto simp: parse_http_char_def Let_def http_is_defs)
  qed
qed

lemma http_action_no_abort: "snd (snd (http_action_step q k c a)) \<noteq> Abort"
  by (cases a) (auto simp: Let_def split: prod.splits)

interpretation http_safe: safe_machine parse_http_char http_inv http_event_ok
proof
  fix p p' :: http_parser and c ev v
  assume inv: "http_inv p" and st: "parse_http_char p c = (p', ev, v)"
  let ?p = "p\<lparr>hp_step := hp_step p + 1\<rparr>" and ?k = "http_class_of c"
  from inv obtain ph where sim: "http_sim p ph" and cl: "hp_cl p \<le> MAX_CL"
    by (auto simp: http_inv_def)
  show "http_inv p'" if acc: "v = Accept"
  proof -
    from http_sim_char [OF sim st] acc have "\<exists>ph. http_sim p' ph" by blast
    moreover from st have "hp_cl p' \<le> MAX_CL"
    proof (cases rule: parse_http_char_elim)
      case (act a)
      have "http_sim_at (http_group_of (hp_state ?p)) ?p ph"
        using act(1) sim by (cases "http_group_of (hp_state p)") (auto simp: http_sim_def http_is_defs)
      with act acc cl http_act_src [OF act(2)] http_cl_action [of ?p ph a ?k c p' ev]
      show ?thesis by simp
    qed (use cl in simp_all)
    ultimately show ?thesis by (simp add: http_inv_def)
  qed
  from st show "v \<noteq> Abort"
  proof (cases rule: parse_http_char_elim)
    case (act a)
    show ?thesis using http_action_no_abort [of ?p ?k c a] unfolding act(3) by simp
  qed simp_all
  from st show "list_all http_event_ok ev"
  proof (cases rule: parse_http_char_elim)
    case (act a)
    have "a \<in> {A_HA, A_HB} \<longrightarrow> 48 \<le> uint c"
      using act(2) http_cell_digit http_class_digit_uint [of c] by blast
    moreover have "uint (hp_cl ?p) \<le> 1048576"
      using cl by (simp add: word_le_def MAX_CL_def)
    ultimately show ?thesis using act(3) by (rule http_event_action)
  qed simp_all
qed

lemma http_inv_reset: "http_inv http_parser_reset"
  using http_sim_reset by (auto simp: http_inv_def http_parser_reset_def)

section \<open>Properties\<close>

lemma http_prefix_states:
  assumes "1 \<le> i" "i < 14"
  shows "\<exists>s. http_walk H_C1 (take i (bytes ''Content-Length'')) = Some s \<and>
    (\<forall>k. k \<noteq> http_class_of (bytes ''Content-Length'' ! i) \<longrightarrow> http_cell H_HH k = Act A_HK \<longrightarrow>
      http_cell s k = Act A_HK)"
proof -
  have "i \<in> {1, 2, 3, 4, 5, 6, 7, 8, 9, 10, 11, 12, 13}" using assms by simp arith
  then show ?thesis
    by (elim insertE emptyE; simp add: http_table_simps; intro allI; case_tac k; simp)
qed

lemma http_run_key_rest:
  assumes "list_all header_key_char k" "\<not> bit rx 28"
  shows "http_run (hp H_HH rx n cl) (k @ [58])
     (map (\<lambda>c. (HTTP_HEADER_KEYC, uint c)) k @ [(HTTP_HEADER_KEY, 0)])
     (hp H_HI rx (n + of_nat (length k) + 1) cl)"
proof -
  have 1: "http_run (hp H_HH rx n cl) k (map (\<lambda>c. (HTTP_HEADER_KEYC, uint c)) k)
      (hp H_HH rx (n + of_nat (length k)) cl)"
    using assms by (intro http_run_repeat [where a = A_HK])
      (auto simp: header_key_char_def [abs_def] http_emit_def)
  have 2: "http_run (hp H_HH rx m cl) [58] [(HTTP_HEADER_KEY, 0)] (hp H_HI rx (m + 1) cl)" for m
    using http_run_Act [of H_HH 58 A_KH rx m cl] assms
    by (simp add: http_table_simps http_emit_def)
  from http_run_append [OF 1 2] show ?thesis .
qed

lemma http_ready_set: "http_isready (hp s (rx OR HTTP_FLG_READY) n cl)"
  by (simp add: http_bits)





text \<open>C18: whatever bytes arrive, in whatever number and however malformed, the callbacks of a
  fresh parser follow the protocol its clients rely on: one method, then path characters, the end
  of the path, query characters, the version, headers as key then value, the end of the headers,
  body characters, and at most one readiness event, the last.\<close>

theorem http_callbacks_follow_protocol:
  "http_protocol Ph_Start (map fst (fst (snd (http_feed http_parser_reset cs)))) \<noteq> None"
proof (cases "http_feed http_parser_reset cs")
  case (fields p' ev v)
  from http_proto.sim_feed [OF http_sim_reset fields] fields show ?thesis by auto
qed

text \<open>A parser that has announced readiness refuses every further byte, reports nothing and
  keeps its state; only its step counter moves.\<close>

theorem http_ready_refuses:
  assumes "http_isready p"
  shows "parse_http_char p c = (p\<lparr>hp_step := hp_step p + 1\<rparr>, [], Reject)"
  using assms by (simp add: parse_http_char_def http_is_defs)

lemma http_ready_refuses_witness:
  "parse_http_char (hp H_FI HTTP_FLG_READY 5 0) 65 = (hp H_FI HTTP_FLG_READY 6 0, [], Reject)"
  using http_ready_refuses [of "hp H_FI HTTP_FLG_READY 5 0" 65]
  by (simp add: http_isready_def http_flg_defs)

text \<open>C34: on every input no step of a fresh parser can abort, the Content-Length accumulator of
  an accepting parser never exceeds MAX_CL (so that it cannot wrap), and every reported value is in
  range: a length at most MAX_CL, anything else a byte.\<close>

theorem http_values_bounded:
  "case http_feed http_parser_reset cs of
     (p', ev, v) \<Rightarrow> v \<noteq> Abort \<and> list_all http_event_ok ev \<and> (v = Accept \<longrightarrow> hp_cl p' \<le> MAX_CL)"
proof (cases "http_feed http_parser_reset cs")
  case (fields p' ev v)
  note inv = http_inv_reset
  from http_safe.feed_no_abort [OF inv fields] http_safe.feed_ok_events [OF inv fields]
    http_safe.inv_feed [OF inv, of cs p' ev] fields
  show ?thesis by (auto simp: http_inv_def)
qed

lemma http_values_bounded_witness:
  "case http_feed http_parser_reset (bytes ''GET /a'') of
     (p', ev, v) \<Rightarrow> v \<noteq> Abort \<and> list_all http_event_ok ev \<and> (v = Accept \<longrightarrow> hp_cl p' \<le> MAX_CL)"
  by (rule http_values_bounded)

text \<open>a Content-Length above MAX_CL is refused inside its digits, without an event.\<close>

theorem http_oversized_length_refused:
  assumes "list_all http_digit ds" and "1048576 < http_dec 0 ds" and "\<not> bit rx 28"
  shows "\<exists>p'. http_feed (hp H_CV rx n 0) ds = (p', [], Reject)"
  using http_feed_digits_reject [OF assms(1) _ assms(2,3), of n] by simp

lemma http_oversized_length_refused_witness:
  "\<exists>p'. http_feed (hp H_CV 0 0 0) (bytes ''1048577'') = (p', [], Reject)"
  by (rule http_oversized_length_refused) (simp_all add: http_digit_def)

text \<open>the keys the callback sees are not always the keys sent. A header name is matched
  against Content-Length first, and the characters matched so far are dropped when the match fails:
  for every proper prefix of Content-Length, a name that continues it with another letter is
  reported without the prefix (Cookie arrives as okie, Connection as nection).\<close>

theorem http_header_prefix_lost:
  assumes "1 \<le> i" "i < 14" and "header_key_char c" and "list_all header_key_char k"
    and "http_class_of c \<noteq> http_class_of (bytes ''Content-Length'' ! i)"
    and "\<not> bit rx 28"
  shows "http_run (hp H_C1 rx n cl) (take i (bytes ''Content-Length'') @ c # k @ [58])
     (map (\<lambda>c. (HTTP_HEADER_KEYC, uint c)) (c # k) @ [(HTTP_HEADER_KEY, 0)])
     (hp H_HI rx (n + of_nat (i + length k + 2)) cl)"
proof -
  obtain s where walk: "http_walk H_C1 (take i (bytes ''Content-Length'')) = Some s"
    and hk: "http_cell s (http_class_of c) = Act A_HK"
    using http_prefix_states [OF assms(1,2)] assms(3,5) by (auto simp: header_key_char_def)
  have 1: "http_run (hp H_C1 rx n cl) (take i (bytes ''Content-Length'')) []
      (hp s rx (n + of_nat i) cl)"
    using http_run_walk [OF walk assms(6), of n cl] assms(2) by (simp add: min_def)
  have 2: "http_run (hp s rx (n + of_nat i) cl) [c] [(HTTP_HEADER_KEYC, uint c)]
      (hp H_HH rx (n + of_nat i + 1) cl)"
    using http_run_Act [OF hk assms(6), of "n + of_nat i" cl] by (simp add: http_emit_def)
  from http_run_append [OF 1 http_run_append [OF 2
      http_run_key_rest [OF assms(4,6), of "n + of_nat i + 1" cl]]]
  show ?thesis by (simp add: algebra_simps)
qed

lemma http_header_prefix_lost_witness:
  "http_run (hp H_C1 0 0 0) (bytes ''Cookie:'')
     (map (\<lambda>c. (HTTP_HEADER_KEYC, uint c)) (bytes ''okie'') @ [(HTTP_HEADER_KEY, 0)]) (hp H_HI 0 7 0)"
  using http_header_prefix_lost [of 2 "111" "bytes ''kie''" 0 0 0]
  by (simp add: header_key_char_def http_table_simps)

text \<open>a body that ends inside a percent escape is lost: the parser sets its ready flag but
  refuses the byte without a callback, and refuses everything after it, so its client never learns
  that the request is complete.\<close>

theorem http_truncated_escape_not_ready:
  assumes "bit rx 29" "\<not> bit rx 28"
  shows "http_feed (hp H_BT rx n 1) (37 # cs) =
      (hp H_BT (rx OR HTTP_FLG_READY) (n + 1) 0, [], Reject) \<and>
    http_feed (hp H_BT rx n 2) (37 # 52 # cs) =
      (hp H_E1 (rx OR HTTP_FLG_READY) (n + 2) 0, [], Reject)"
proof -
  have k: "http_class_of 37 = HC_PCT" "http_class_of 52 = HC_DIGIT"
    "http_cell H_BT HC_PCT = Act A_BH" "http_cell H_E1 HC_DIGIT = Act A_EA"
    by (simp_all add: http_table_simps)
  show ?thesis
    using assms k by (simp add: parse_http_char_def http_bits http_body_as_ended_def add.commute)
qed

lemma http_truncated_escape_not_ready_witness:
  "http_feed (hp H_BT HTTP_FLG_BODY 0 1) [37] = (hp H_BT (HTTP_FLG_BODY OR HTTP_FLG_READY) 1 0, [], Reject)"
  using http_truncated_escape_not_ready [of HTTP_FLG_BODY 0 "[]"]
  by (simp add: HTTP_FLG_BODY_def http_bits)

end
