(* ===== verification/Sha1.thy ===== *)
theory Sha1
  imports Ape_Prelude
begin

text \<open>
  The SHA-1 digest of \<^verbatim>\<open>src/core/ape_sha1.c\<close>: the context that is fed by pieces, the unrolled
  compression function on \<open>unsigned long\<close> (64 bits wide on the server's targets, so that every
  register carries 32 bits of garbage above its value), the padding, and the HMAC. The standard
  (FIPS 180, RFC 2104) is stated beside it on 32-bit words and whole messages, and the code is
  proved to refine it: only the low halves of the registers are related to the standard's.
\<close>

section \<open>The code\<close>

text \<open>The five registers, in the order of the array \<open>state\<close>.\<close>

type_synonym 'w sha1_regs = "'w \<times> 'w \<times> 'w \<times> 'w \<times> 'w"

record sha1_context =
  sc_total0 :: u64
  sc_total1 :: u64
  sc_state :: "u64 sha1_regs"
  sc_buffer :: "byte list"

text \<open>\<open>GET_UINT32_BE\<close> and \<open>PUT_UINT32_BE\<close>.\<close>

definition sha1_get :: "byte list \<Rightarrow> nat \<Rightarrow> u64" where
  "sha1_get b i =
     (push_bit 24 (ucast (b ! i)) OR push_bit 16 (ucast (b ! (i + 1))) OR
      push_bit 8 (ucast (b ! (i + 2))) OR ucast (b ! (i + 3)))"

definition sha1_put :: "u64 \<Rightarrow> byte list" where
  "sha1_put n = [ucast (drop_bit 24 n), ucast (drop_bit 16 n), ucast (drop_bit 8 n), ucast n]"

definition sha1_starts :: "sha1_context \<Rightarrow> sha1_context" where
  "sha1_starts ctx = ctx
     \<lparr>sc_total0 := 0, sc_total1 := 0,
      sc_state := (0x67452301, 0xEFCDAB89, 0x98BADCFE, 0x10325476, 0xC3D2E1F0)\<rparr>"

definition sha1_S :: "u64 \<Rightarrow> nat \<Rightarrow> u64" where
  "sha1_S x n = (push_bit n x OR drop_bit (32 - n) (x AND 0xFFFFFFFF))"

text \<open>The macros \<open>F\<close> and \<open>K\<close>, redefined before each group of twenty steps.\<close>

definition sha1_F :: "nat \<Rightarrow> u64 \<Rightarrow> u64 \<Rightarrow> u64 \<Rightarrow> u64" where
  "sha1_F t x y z =
     (if t < 20 then z XOR (x AND (y XOR z))
      else if t < 40 then x XOR y XOR z
      else if t < 60 then (x AND y) OR (z AND (x OR y))
      else x XOR y XOR z)"

definition sha1_K :: "nat \<Rightarrow> u64" where
  "sha1_K t =
     (if t < 20 then 0x5A827999
      else if t < 40 then 0x6ED9EBA1
      else if t < 60 then 0x8F1BBCDC
      else 0xCA62C1D6)"

text \<open>\<open>R\<close> extends the circular schedule of sixteen words; \<open>P\<close> updates \<open>e\<close> and \<open>b\<close>.\<close>

definition sha1_R :: "u64 list \<Rightarrow> nat \<Rightarrow> u64 list" where
  "sha1_R W t =
     W[t mod 16 :=
       sha1_S (W ! ((t - 3) mod 16) XOR W ! ((t - 8) mod 16) XOR
               W ! ((t - 14) mod 16) XOR W ! (t mod 16)) 1]"

definition sha1_P :: "nat \<Rightarrow> u64 sha1_regs \<Rightarrow> u64 \<Rightarrow> u64 sha1_regs" where
  "sha1_P t r x =
     (case r of (a, b, c, d, e) \<Rightarrow>
        (a, sha1_S b 30, c, d, e + (sha1_S a 5 + sha1_F t b c d + sha1_K t + x)))"

text \<open>
  One of the eighty lines \<open>P(\<dots>)\<close>: the argument is \<open>W[t]\<close> for the first sixteen and \<open>R(t)\<close> after;
  each line names the registers one position further round, which is the rotation here. Eighty is
  a multiple of five, so the names are back in place at the end.
\<close>

definition sha1_round :: "nat \<Rightarrow> u64 sha1_regs \<times> u64 list \<Rightarrow> u64 sha1_regs \<times> u64 list" where
  "sha1_round t st =
     (case st of (r, W) \<Rightarrow>
        let W = (if t < 16 then W else sha1_R W t)
        in case sha1_P t r (W ! (t mod 16)) of (a, b, c, d, e) \<Rightarrow> ((e, a, b, c, d), W))"

definition sha1_add :: "'w::plus sha1_regs \<Rightarrow> 'w sha1_regs \<Rightarrow> 'w sha1_regs" where
  "sha1_add s r =
     (case s of (s0, s1, s2, s3, s4) \<Rightarrow> case r of (a, b, c, d, e) \<Rightarrow>
        (s0 + a, s1 + b, s2 + c, s3 + d, s4 + e))"

definition sha1_process :: "byte list \<Rightarrow> sha1_context \<Rightarrow> sha1_context" where
  "sha1_process data ctx =
     (let W = map (\<lambda>i. sha1_get data (4 * i)) [0..<16];
          (r, _) = fold sha1_round [0..<80] (sc_state ctx, W)
      in ctx\<lparr>sc_state := sha1_add (sc_state ctx) r\<rparr>)"

text \<open>
  \<open>sha1_update\<close>: the length is an \<open>unsigned int\<close>. \<open>sha1_whole\<close> is its loop over whole blocks.
\<close>

fun sha1_whole :: "sha1_context \<Rightarrow> byte list \<Rightarrow> sha1_context \<times> byte list" where
  "sha1_whole ctx input =
     (if 64 \<le> length input
      then sha1_whole (sha1_process (take 64 input) ctx) (drop 64 input)
      else (ctx, input))"

declare sha1_whole.simps [simp del]

text \<open>The length is counted in two words of 32 bits.\<close>

definition sha1_count :: "sha1_context \<Rightarrow> nat \<Rightarrow> sha1_context" where
  "sha1_count ctx n =
     (let len = word_of_nat n;
          ctx = ctx\<lparr>sc_total0 := (sc_total0 ctx + len) AND 0xFFFFFFFF\<rparr>
      in if sc_total0 ctx < len then ctx\<lparr>sc_total1 := sc_total1 ctx + 1\<rparr> else ctx)"

definition sha1_update :: "sha1_context \<Rightarrow> byte list \<Rightarrow> sha1_context" where
  "sha1_update ctx input =
     (if input = [] then ctx
      else
        let left = unat (sc_total0 ctx AND 0x3F);
            fill = 64 - left;
            ctx = sha1_count ctx (length input);
            (ctx, input, left) =
              (if left \<noteq> 0 \<and> fill \<le> length input
               then let ctx = ctx\<lparr>sc_buffer := poke left (take fill input) (sc_buffer ctx)\<rparr>
                    in (sha1_process (sc_buffer ctx) ctx, drop fill input, 0)
               else (ctx, input, left));
            (ctx, input) = sha1_whole ctx input
        in if input \<noteq> [] then ctx\<lparr>sc_buffer := poke left input (sc_buffer ctx)\<rparr> else ctx)"

definition sha1_padding :: "byte list" where
  "sha1_padding = 0x80 # replicate 63 0"

definition sha1_finish :: "sha1_context \<Rightarrow> byte list" where
  "sha1_finish ctx =
     (let high = drop_bit 29 (sc_total0 ctx) OR push_bit 3 (sc_total1 ctx);
          low = push_bit 3 (sc_total0 ctx);
          msglen = sha1_put high @ sha1_put low;
          last = unat (sc_total0 ctx AND 0x3F);
          padn = (if last < 56 then 56 - last else 120 - last);
          ctx = sha1_update ctx (take padn sha1_padding);
          ctx = sha1_update ctx msglen
      in case sc_state ctx of (s0, s1, s2, s3, s4) \<Rightarrow>
           sha1_put s0 @ sha1_put s1 @ sha1_put s2 @ sha1_put s3 @ sha1_put s4)"

text \<open>
  The callers' contexts are uninitialised local variables: \<open>junk\<close> is whatever they contain. The
  results of \<open>fread\<close> in \<open>sha1_file\<close> come from outside the program; an empty one ends the loop.
\<close>

definition sha1_csum :: "sha1_context \<Rightarrow> byte list \<Rightarrow> byte list" where
  "sha1_csum junk buf = sha1_finish (sha1_update (sha1_starts junk) buf)"

definition sha1_file :: "sha1_context \<Rightarrow> byte list list option \<Rightarrow> int \<times> byte list option" where
  "sha1_file junk f =
     (case f of
        None \<Rightarrow> (1, None)
      | Some reads \<Rightarrow>
          (0, Some (sha1_finish (foldl sha1_update (sha1_starts junk)
                (takeWhile (\<lambda>n. n \<noteq> []) reads)))))"

fun sha1_hmac_pad :: "byte list \<Rightarrow> byte list \<Rightarrow> byte list" where
  "sha1_hmac_pad (p # ps) (k # ks) = (p XOR k) # sha1_hmac_pad ps ks"
| "sha1_hmac_pad ps ks = ps"

definition sha1_hmac :: "sha1_context \<Rightarrow> byte list \<Rightarrow> byte list \<Rightarrow> byte list" where
  "sha1_hmac junk key buf =
     (let k_ipad = sha1_hmac_pad (replicate 64 0x36) key;
          k_opad = sha1_hmac_pad (replicate 64 0x5C) key;
          ctx = sha1_starts junk;
          ctx = sha1_update ctx k_ipad;
          ctx = sha1_update ctx buf;
          tmpbuf = sha1_finish ctx;
          ctx = sha1_starts ctx;
          ctx = sha1_update ctx k_opad;
          ctx = sha1_update ctx tmpbuf
      in sha1_finish ctx)"

section \<open>The standard\<close>

definition fips_f :: "nat \<Rightarrow> u32 \<Rightarrow> u32 \<Rightarrow> u32 \<Rightarrow> u32" where
  "fips_f t x y z =
     (if t < 20 then (x AND y) XOR (NOT x AND z)
      else if t < 40 then x XOR y XOR z
      else if t < 60 then (x AND y) XOR (x AND z) XOR (y AND z)
      else x XOR y XOR z)"

definition fips_K :: "nat \<Rightarrow> u32" where
  "fips_K t =
     (if t < 20 then 0x5A827999
      else if t < 40 then 0x6ED9EBA1
      else if t < 60 then 0x8F1BBCDC
      else 0xCA62C1D6)"

definition be32 :: "byte list \<Rightarrow> u32" where
  "be32 bs = word_of_nat (foldl (\<lambda>n b. 256 * n + unat b) 0 bs)"

fun fips_W :: "byte list \<Rightarrow> nat \<Rightarrow> u32" where
  "fips_W blk t =
     (if t < 16 then be32 (take 4 (drop (4 * t) blk))
      else word_rotl 1 (fips_W blk (t - 3) XOR fips_W blk (t - 8) XOR
                        fips_W blk (t - 14) XOR fips_W blk (t - 16)))"

declare fips_W.simps [simp del]

definition fips_step :: "byte list \<Rightarrow> nat \<Rightarrow> u32 sha1_regs \<Rightarrow> u32 sha1_regs" where
  "fips_step blk t r =
     (case r of (a, b, c, d, e) \<Rightarrow>
        (word_rotl 5 a + fips_f t b c d + e + fips_K t + fips_W blk t, a, word_rotl 30 b, c, d))"

definition fips_compress :: "byte list \<Rightarrow> u32 sha1_regs \<Rightarrow> u32 sha1_regs" where
  "fips_compress blk h = sha1_add h (fold (fips_step blk) [0..<80] h)"

function blocks64 :: "'a list \<Rightarrow> 'a list list" where
  "blocks64 xs = (if length xs < 64 then [] else take 64 xs # blocks64 (drop 64 xs))"
  by auto
termination by (relation "measure length") auto

declare blocks64.simps [simp del]

text \<open>The padding of a message of fewer than \<open>2 ^ 61\<close> bytes.\<close>

definition fips_pad :: "byte list \<Rightarrow> byte list" where
  "fips_pad m =
     m @ [0x80] @ replicate (nat ((55 - int (length m)) mod 64)) 0 @ be_bytes 8 (8 * length m)"

definition fips_H0 :: "u32 sha1_regs" where
  "fips_H0 = (0x67452301, 0xEFCDAB89, 0x98BADCFE, 0x10325476, 0xC3D2E1F0)"

definition fips_hash :: "byte list \<Rightarrow> u32 sha1_regs" where
  "fips_hash m = fold fips_compress (blocks64 m) fips_H0"

definition fips_digest :: "u32 sha1_regs \<Rightarrow> byte list" where
  "fips_digest r =
     (case r of (a, b, c, d, e) \<Rightarrow> concat (map (\<lambda>w. be_bytes 4 (unat w)) [a, b, c, d, e]))"

definition fips_sha1 :: "byte list \<Rightarrow> byte list" where
  "fips_sha1 m = fips_digest (fips_hash (fips_pad m))"

text \<open>RFC 2104, with the block size 64.\<close>

definition rfc_hmac_key :: "byte list \<Rightarrow> byte list" where
  "rfc_hmac_key k =
     (let k0 = (if 64 < length k then fips_sha1 k else k)
      in k0 @ replicate (64 - length k0) 0)"

definition rfc_hmac :: "byte list \<Rightarrow> byte list \<Rightarrow> byte list" where
  "rfc_hmac k m =
     fips_sha1 (map ((XOR) 0x5C) (rfc_hmac_key k) @
       fips_sha1 (map ((XOR) 0x36) (rfc_hmac_key k) @ m))"

section \<open>Low halves\<close>

definition low :: "u64 \<Rightarrow> u32" where "low x = ucast x"

fun low_regs :: "u64 sha1_regs \<Rightarrow> u32 sha1_regs" where
  "low_regs (a, b, c, d, e) = (low a, low b, low c, low d, low e)"

lemma bit_low: "bit (low x) n \<longleftrightarrow> n < 32 \<and> bit x n"
  by (auto simp: low_def bit_simps)

lemma low_bitwise:
  "low (x XOR y) = low x XOR low y"
  "low (x AND y) = low x AND low y"
  "low (x OR y) = low x OR low y"
  by (rule bit_word_eqI; auto simp: bit_low bit_simps)+

lemma low_add: "low (x + y) = low x + low y"
  proof -
  have "take_bit 32 (a + b) = take_bit 32 (take_bit 64 a + take_bit 64 b)" for a b :: int
    using take_bit_add [of 32 a b] take_bit_add [of 32 "take_bit 64 a" "take_bit 64 b"]
    by (simp add: take_bit_take_bit)
  then show ?thesis unfolding low_def by transfer simp
qed

lemma low_rotl: "0 < n \<Longrightarrow> n < 32 \<Longrightarrow> low (sha1_S x n) = word_rotl n (low x)"
proof (rule bit_word_eqI)
  fix k assume n: "0 < n" "n < 32" and k: "k < LENGTH(32)"
  have m: "(0xFFFFFFFF :: u64) = mask 32" by (simp add: mask_eq_exp_minus_1)
  show "bit (low (sha1_S x n)) k = bit (word_rotl n (low x)) k"
  proof (cases "k < n")
    case True
    with n k have "(k + (32 - n)) mod 32 = 32 - n + k" by simp
    with True n k show ?thesis
      by (simp add: bit_low sha1_S_def m bit_simps bit_word_rotl_iff del: bit_numeral_word_iff) auto
  next
    case False
    then obtain j where j: "k = n + j" by (metis le_add_diff_inverse leI)
    with n k have "(k + (32 - n)) mod 32 = (j + 32) mod 32" by (simp add: add.assoc)
    also have "\<dots> = j mod 32" by (rule mod_add_self2)
    also have "j mod 32 = j" using j k by simp
    finally have "(k + (32 - n)) mod 32 = j" .
    with j n k show ?thesis
      by (simp add: bit_low sha1_S_def m bit_simps bit_word_rotl_iff del: bit_numeral_word_iff)
  qed
qed

lemma low_F: "low (sha1_F t x y z) = fips_f t (low x) (low y) (low z)"
  unfolding sha1_F_def fips_f_def
  by (auto simp: low_bitwise intro!: bit_word_eqI) (auto simp: bit_simps)

lemma low_K: "low (sha1_K t) = fips_K t"
  unfolding sha1_K_def fips_K_def low_def by simp

section \<open>Bytes and words\<close>

lemma byte_words_or:
  "push_bit 24 (ucast b0) OR (push_bit 16 (ucast b1) OR (push_bit 8 (ucast b2) OR ucast b3)) =
   (push_bit 24 (ucast (b0 :: byte)) + (push_bit 16 (ucast (b1 :: byte)) +
      (push_bit 8 (ucast (b2 :: byte)) + ucast (b3 :: byte))) :: u32)"
proof -
  have d: "push_bit 8 (ucast b2) AND ucast b3 = (0 :: u32)"
    "push_bit 16 (ucast b1) AND (push_bit 8 (ucast b2) OR ucast b3) = (0 :: u32)"
    "push_bit 24 (ucast b0) AND (push_bit 16 (ucast b1) OR (push_bit 8 (ucast b2) OR ucast b3)) = (0 :: u32)"
    by (rule bit_word_eqI; auto simp: bit_simps dest: bit_imp_le_length)+
  show ?thesis
    by (simp only: disjunctive_add_eq_or [OF d(1)] disjunctive_add_eq_or [OF d(2)]
        disjunctive_add_eq_or [OF d(3)])
qed

lemma sha1_get_low:
  "4 * i + 4 \<le> length b \<Longrightarrow> low (sha1_get b (4 * i)) = be32 (take 4 (drop (4 * i) b))"
proof -
  assume len: "4 * i + 4 \<le> length b"
  obtain b0 b1 b2 b3 where b:
    "b0 = b ! (4 * i)" "b1 = b ! (4 * i + 1)" "b2 = b ! (4 * i + 2)" "b3 = b ! (4 * i + 3)" by simp
  have t: "take 4 (drop (4 * i) b) = [b0, b1, b2, b3]"
    using len by (intro nth_equalityI) (auto simp: b less_Suc_eq numeral_eq_Suc)
  have "low (sha1_get b (4 * i)) =
      push_bit 24 (ucast b0) OR (push_bit 16 (ucast b1) OR (push_bit 8 (ucast b2) OR ucast b3))"
    unfolding sha1_get_def b [symmetric] by (rule bit_word_eqI) (auto simp: bit_low bit_simps or.assoc)
  also have "\<dots> = be32 [b0, b1, b2, b3]"
    unfolding byte_words_or by (simp add: be32_def push_bit_eq_mult algebra_simps)
  finally show ?thesis unfolding t .
qed

lemma byte_of_unat: "(word_of_nat (unat w div 2 ^ k) :: byte) = ucast (drop_bit k (w :: 'a::len word))"
  by (simp add: unat_drop_bit_eq [symmetric] drop_bit_eq_div [symmetric] )

lemma be_bytes_4:
  "be_bytes 4 n = [word_of_nat (n div 2 ^ 24), word_of_nat (n div 2 ^ 16), word_of_nat (n div 2 ^ 8),
     word_of_nat (n div 2 ^ 0)]"
proof -
  have "(4 :: nat) = Suc (Suc (Suc (Suc 0)))" by simp
  then show ?thesis
    by (simp only: be_bytes.simps append.simps div_mult2_eq [symmetric]) simp
qed

lemma sha1_put_bytes: "sha1_put n = be_bytes 4 (unat (low n))"
proof -
  have "ucast (drop_bit k n) = (ucast (drop_bit k (low n)) :: byte)" if "k \<le> 24" for k
    by (rule bit_word_eqI) (use that in \<open>auto simp: bit_low bit_simps\<close>)
  from this [of 24] this [of 16] this [of 8] this [of 0] show ?thesis
    by (simp only: sha1_put_def be_bytes_4 byte_of_unat drop_bit_0 id_apply le_numeral_extra)
qed

section \<open>The compression function\<close>

definition sched :: "byte list \<Rightarrow> nat \<Rightarrow> u64 list \<Rightarrow> bool" where
  "sched blk t W \<longleftrightarrow> length W = 16 \<and>
     (\<forall>i. i < max 16 t \<and> max 16 t \<le> i + 16 \<longrightarrow> low (W ! (i mod 16)) = fips_W blk i)"

lemma sched_init:
  "length blk = 64 \<Longrightarrow> sched blk 0 (map (\<lambda>i. sha1_get blk (4 * i)) [0..<16])"
  by (auto simp: sched_def sha1_get_low fips_W.simps)

lemma sched_R:
  assumes s: "sched blk t W" and t: "16 \<le> t"
  shows "sched blk (Suc t) (sha1_R W t)"
proof -
  have W: "low (W ! (i mod 16)) = fips_W blk i" if "i < t" "t \<le> i + 16" for i
    using s that t by (auto simp: sched_def max_def)
  have e: "(t - 16) mod 16 = t mod 16" using t by (metis le_add_diff_inverse2 mod_add_self2)
  have "low (sha1_R W t ! (t mod 16)) =
     word_rotl 1 (fips_W blk (t - 3) XOR fips_W blk (t - 8) XOR fips_W blk (t - 14) XOR fips_W blk (t - 16))"
    using s t W [of "t - 3"] W [of "t - 8"] W [of "t - 14"] W [of "t - 16"]
    by (simp add: sha1_R_def sched_def low_rotl low_bitwise e)
  then have "low (sha1_R W t ! (t mod 16)) = fips_W blk t"
    using t by (subst fips_W.simps) simp
  moreover have "low (sha1_R W t ! (i mod 16)) = fips_W blk i" if "i < t" "Suc t \<le> i + 16" for i
  proof -
    have "i mod 16 \<noteq> t mod 16"
      using that by (metis add_le_cancel_left diff_add_inverse diff_less_mono2 dvd_imp_le leD le_add_diff_inverse
          less_diff_conv2 less_imp_le_nat mod_eq_dvd_iff_nat not_less_eq_eq zero_less_diff add.commute)
    then show ?thesis using W [of i] that by (simp add: sha1_R_def)
  qed
  ultimately show ?thesis using s t by (auto simp: sched_def sha1_R_def less_Suc_eq max_def)
qed

lemma sched_low: "sched blk (Suc t) W \<Longrightarrow> low (W ! (t mod 16)) = fips_W blk t"
  by (auto simp: sched_def max_def)

lemma sha1_round_step:
  assumes "sched blk t W" "sha1_round t (r, W) = (r', W')"
  shows "low_regs r' = fips_step blk t (low_regs r) \<and> sched blk (Suc t) W'"
proof -
  obtain a b c d e where r: "r = (a, b, c, d, e)" by (cases r)
  have W': "W' = (if t < 16 then W else sha1_R W t)"
    using assms(2) by (auto simp: sha1_round_def Let_def split: prod.splits)
  have s: "sched blk (Suc t) W'"
    using assms(1) sched_R [OF assms(1)] by (auto simp: W' sched_def max_def)
  have "r' = (e + (sha1_S a 5 + sha1_F t b c d + sha1_K t + W' ! (t mod 16)), a, sha1_S b 30, c, d)"
    using assms(2) by (simp add: sha1_round_def Let_def W' [symmetric] r sha1_P_def)
  with s show ?thesis
    by (simp add: r fips_step_def low_add low_rotl low_F low_K sched_low add_ac)
qed

lemma sha1_rounds:
  assumes "sched blk 0 W"
  shows "fold sha1_round [0..<n] (r, W) = (r', W') \<Longrightarrow>
     low_regs r' = fold (fips_step blk) [0..<n] (low_regs r) \<and> sched blk n W'"
proof (induction n arbitrary: r' W')
  case 0
  with assms show ?case by simp
next
  case (Suc n)
  obtain r1 W1 where f: "fold sha1_round [0..<n] (r, W) = (r1, W1)" by fastforce
  with Suc.prems have "sha1_round n (r1, W1) = (r', W')" by simp
  with Suc.IH [OF f] sha1_round_step [of blk n W1 r1 r' W'] show ?case by simp
qed

lemma low_regs_add: "low_regs (sha1_add s r) = sha1_add (low_regs s) (low_regs r)"
  by (cases s; cases r) (simp add: sha1_add_def low_add)

lemma sha1_process_compress:
  "length blk = 64 \<Longrightarrow>
   low_regs (sc_state (sha1_process blk ctx)) = fips_compress blk (low_regs (sc_state ctx))"
  using sha1_rounds [OF sched_init, of blk 80 "sc_state ctx"]
  by (auto simp: sha1_process_def fips_compress_def Let_def low_regs_add split: prod.splits)

lemma sha1_process_frame [simp]:
  "sc_total0 (sha1_process blk ctx) = sc_total0 ctx"
  "sc_total1 (sha1_process blk ctx) = sc_total1 ctx"
  "sc_buffer (sha1_process blk ctx) = sc_buffer ctx"
  by (simp_all add: sha1_process_def Let_def split: prod.splits)

section \<open>Contexts\<close>

definition tail64 :: "'a list \<Rightarrow> 'a list" where
  "tail64 m = drop (64 * (length m div 64)) m"

lemma length_tail64: "length (tail64 m) = length m mod 64"
  by (simp add: tail64_def minus_mult_div_eq_mod)

lemma tail64_step: "64 \<le> length m \<Longrightarrow> tail64 m = tail64 (drop 64 m)"
proof -
  assume "64 \<le> length m"
  then have "64 * (length m div 64) = 64 * ((length m - 64) div 64) + 64"
    by (simp add: le_div_geq)
  then show ?thesis by (simp add: tail64_def)
qed

lemma tail64_short: "length m < 64 \<Longrightarrow> tail64 m = m"
  by (simp add: tail64_def)

lemma blocks64_short: "length m < 64 \<Longrightarrow> blocks64 m = []"
  by (simp add: blocks64.simps)

lemma blocks64_step: "64 \<le> length m \<Longrightarrow> blocks64 m = take 64 m # blocks64 (drop 64 m)"
  by (simp add: blocks64.simps [of m])

lemma blocks64_append:
  "blocks64 (m @ x) = blocks64 m @ blocks64 (tail64 m @ x) \<and> tail64 (m @ x) = tail64 (tail64 m @ x)"
proof (induction m rule: blocks64.induct)
  case (1 m)
  show ?case
  proof (cases "length m < 64")
    case True
    then show ?thesis by (simp add: blocks64_short tail64_short)
  next
    case False
    with 1 show ?thesis by (simp add: blocks64_step tail64_step [of m] tail64_step [of "m @ x"])
  qed
qed

lemma length_block: "b \<in> set (blocks64 m) \<Longrightarrow> length b = 64"
proof (induction m rule: blocks64.induct)
  case (1 m)
  then show ?case by (cases "length m < 64") (auto simp: blocks64_short blocks64_step)
qed

text \<open>\<open>digests ctx m\<close>: the context \<open>ctx\<close> has been fed the message \<open>m\<close>.\<close>

definition digests :: "sha1_context \<Rightarrow> byte list \<Rightarrow> bool" where
  "digests ctx m \<longleftrightarrow>
     length (sc_buffer ctx) = 64 \<and>
     unat (sc_total0 ctx) = length m mod 2 ^ 32 \<and> unat (sc_total1 ctx) = length m div 2 ^ 32 \<and>
     low_regs (sc_state ctx) = fips_hash m \<and>
     take (length m mod 64) (sc_buffer ctx) = tail64 m"

lemma digests_starts: "length (sc_buffer junk) = 64 \<Longrightarrow> digests (sha1_starts junk) []"
  by (simp add: digests_def sha1_starts_def fips_hash_def fips_H0_def blocks64_short low_def tail64_def)

lemma sha1_whole_blocks:
  "sha1_whole ctx input = (ctx', rest) \<Longrightarrow>
   low_regs (sc_state ctx') = fold fips_compress (blocks64 input) (low_regs (sc_state ctx)) \<and>
   rest = tail64 input \<and> sc_total0 ctx' = sc_total0 ctx \<and> sc_total1 ctx' = sc_total1 ctx \<and>
   sc_buffer ctx' = sc_buffer ctx"
proof (induction ctx input rule: sha1_whole.induct)
  case (1 ctx input)
  show ?case
  proof (cases "64 \<le> length input")
    case True
    with 1 show ?thesis
      by (simp add: sha1_whole.simps [of ctx input] blocks64_step tail64_step [of input]
          sha1_process_compress)
  next
    case False
    with 1 show ?thesis
      by (auto simp: sha1_whole.simps [of ctx input] blocks64_short tail64_short)
  qed
qed

lemma unat_and_mask: "unat (w AND mask k) = unat w mod 2 ^ k"
  using take_bit_eq_mod [of k "unat w"]
  by (simp only: take_bit_eq_mask [symmetric] unsigned_take_bit_eq)

lemma and_mask_mod:
  "unat (w AND 0x3F :: u64) = unat w mod 64"
  "unat (w AND 0xFFFFFFFF :: u64) = unat w mod 2 ^ 32"
proof -
  have "(0x3F :: u64) = mask 6" "(0xFFFFFFFF :: u64) = mask 32" by (simp_all add: mask_eq_exp_minus_1)
  then show "unat (w AND 0x3F :: u64) = unat w mod 64"
    "unat (w AND 0xFFFFFFFF :: u64) = unat w mod 2 ^ 32"
    by (simp_all only: unat_and_mask) simp_all
qed

lemma sha1_count_frame [simp]:
  "sc_state (sha1_count ctx n) = sc_state ctx" "sc_buffer (sha1_count ctx n) = sc_buffer ctx"
  by (simp_all add: sha1_count_def Let_def)

lemma carry_cases:
  fixes m n B :: nat
  assumes "n < B"
  shows "(m + n) mod B < n \<longleftrightarrow> B \<le> m mod B + n"
    and "(m + n) div B = (if B \<le> m mod B + n then m div B + 1 else m div B)"
proof -
  obtain r where r: "m mod B = r" "r < B" using assms by (metis mod_less_divisor gr_implies_not0 not_gr_zero)
  have s: "(m + n) mod B = (m mod B + n) mod B" by (simp add: mod_simps)
  have d: "(m + n) div B = m div B + (m mod B + n) div B"
    using assms div_mult_self3 [of B "m div B" "m mod B + n"]
    by (simp add: add.assoc [symmetric])
  show "(m + n) mod B < n \<longleftrightarrow> B \<le> m mod B + n"
    unfolding s using assms r by (cases "B \<le> r + n") (simp_all add: le_mod_geq)
  show "(m + n) div B = (if B \<le> m mod B + n then m div B + 1 else m div B)"
    unfolding d using assms r by (cases "B \<le> r + n") (simp_all add: le_div_geq)
qed

lemma sha1_count_total:
  assumes "unat (sc_total0 ctx) = m mod 2 ^ 32" "unat (sc_total1 ctx) = m div 2 ^ 32"
    and n: "n < 2 ^ 32" "m + n < 2 ^ 64"
  shows "unat (sc_total0 (sha1_count ctx n)) = (m + n) mod 2 ^ 32"
    and "unat (sc_total1 (sha1_count ctx n)) = (m + n) div 2 ^ 32"
proof -
  have un: "unat (word_of_nat n :: u64) = n" using n by (intro unat_word_of_nat) simp
  have t0: "unat (sc_total0 ctx + word_of_nat n) = m mod 2 ^ 32 + n"
  proof -
    have "m mod 2 ^ 32 < (2 ^ 32 :: nat)" by simp
    then have "unat (sc_total0 ctx) + unat (word_of_nat n :: u64) < 2 ^ LENGTH(64)"
      using assms(1) n(1) un by simp
    then show ?thesis using assms(1) un by (simp add: unat_add_lem [THEN iffD1])
  qed
  have tot: "unat ((sc_total0 ctx + word_of_nat n) AND 0xFFFFFFFF) = (m + n) mod 2 ^ 32"
    by (simp only: and_mask_mod t0) (simp add: mod_simps)
  show "unat (sc_total0 (sha1_count ctx n)) = (m + n) mod 2 ^ 32"
    using tot by (simp add: sha1_count_def Let_def)
  have less: "(sc_total0 ctx + word_of_nat n) AND 0xFFFFFFFF < (word_of_nat n :: u64) \<longleftrightarrow>
      2 ^ 32 \<le> m mod 2 ^ 32 + n"
    unfolding word_less_nat_alt tot un by (rule carry_cases) (use n in simp)
  have "m div 2 ^ 32 < 2 ^ 32" using n(2) by (simp add: less_mult_imp_div_less)
  then have "unat (sc_total1 ctx + 1) = m div 2 ^ 32 + 1"
    using assms(2) by (subst unat_plus_if') simp
  then show "unat (sc_total1 (sha1_count ctx n)) = (m + n) div 2 ^ 32"
    using assms(2) carry_cases(2) [OF n(1), of m] less
    by (cases "2 ^ 32 \<le> m mod 2 ^ 32 + n") (simp_all add: sha1_count_def Let_def)
qed

lemma block_append:
  assumes "length b = 64"
  shows "blocks64 (b @ d) = b # blocks64 d" "tail64 (b @ d) = tail64 d"
  using assms tail64_step [of "b @ d"] by (simp_all add: blocks64_step)

lemma tail64_take [simp]: "take (length m mod 64) (tail64 m) = tail64 m"
  by (simp add: length_tail64)

lemma digests_rest:
  assumes "length (sc_buffer ctx) = 64" "take k (sc_buffer ctx) = r" "length r = k"
    and "tail64 m = r @ rest" "low_regs (sc_state ctx) = fips_hash m"
    and "unat (sc_total0 ctx) = length m mod 2 ^ 32" "unat (sc_total1 ctx) = length m div 2 ^ 32"
  shows "digests (if rest \<noteq> [] then ctx\<lparr>sc_buffer := poke k rest (sc_buffer ctx)\<rparr> else ctx) m"
proof -
  have l: "length m mod 64 = k + length rest"
    using assms(3,4) length_tail64 [of m] by simp
  moreover have "length m mod 64 < 64" by simp
  ultimately have "k + length rest < 64" by simp
  then show ?thesis
    using assms take_poke [of k "sc_buffer ctx" rest]
    unfolding digests_def l by (auto simp: length_poke)
qed

lemma digests_update:
  assumes d: "digests ctx m" and x: "length x < 2 ^ 32" "length m + length x < 2 ^ 64"
  shows "digests (sha1_update ctx x) (m @ x)"
proof (cases "x = []")
  case True
  with d show ?thesis by (simp add: sha1_update_def)
next
  case ne: False
  obtain r c where r: "r = tail64 m" and c: "c = sha1_count ctx (length x)" by simp
  obtain l where l: "l = length m mod 64" by simp
  have lr: "length r = l" "l < 64" by (simp_all add: r l length_tail64)
  have c': "length (sc_buffer c) = 64" "take l (sc_buffer c) = r"
    "low_regs (sc_state c) = fips_hash m"
    "unat (sc_total0 c) = length (m @ x) mod 2 ^ 32" "unat (sc_total1 c) = length (m @ x) div 2 ^ 32"
  proof -
    from d show "length (sc_buffer c) = 64" "take l (sc_buffer c) = r"
      "low_regs (sc_state c) = fips_hash m"
      unfolding c r l digests_def sha1_count_frame by blast+
    from d have "unat (sc_total0 ctx) = length m mod 2 ^ 32" "unat (sc_total1 ctx) = length m div 2 ^ 32"
      unfolding digests_def by blast+
    from sha1_count_total [OF this x]
    show "unat (sc_total0 c) = length (m @ x) mod 2 ^ 32" "unat (sc_total1 c) = length (m @ x) div 2 ^ 32"
      unfolding c length_append .
  qed
  have left: "unat (sc_total0 ctx) mod 64 = l"
  proof -
    have "unat (sc_total0 ctx) = length m mod 2 ^ 32" using d unfolding digests_def by blast
    moreover have "(64 :: nat) dvd 2 ^ 32" by simp
    ultimately show ?thesis unfolding l by (simp only: mod_mod_cancel)
  qed
  have hash: "fips_hash (m @ x) = fold fips_compress (blocks64 (r @ x)) (fips_hash m)"
    by (simp add: fips_hash_def blocks64_append [of m x] r)
  have tl: "tail64 (m @ x) = tail64 (r @ x)" by (simp add: blocks64_append [of m x] r)
  show ?thesis
  proof (cases "l \<noteq> 0 \<and> 64 - l \<le> length x")
    case True
    obtain b where b: "b = poke l (take (64 - l) x) (sc_buffer c)" by simp
    then have b': "b = r @ take (64 - l) x" "length b = 64"
      using True c' lr by (simp_all add: poke_fill)
    obtain c2 rest where w: "sha1_whole (sha1_process b (c\<lparr>sc_buffer := b\<rparr>)) (drop (64 - l) x) = (c2, rest)"
      by fastforce
    from sha1_whole_blocks [OF w] b' c'
    have c2: "low_regs (sc_state c2) = fold fips_compress (b # blocks64 (drop (64 - l) x)) (fips_hash m)"
      "rest = tail64 (drop (64 - l) x)" "sc_total0 c2 = sc_total0 c" "sc_total1 c2 = sc_total1 c"
      "sc_buffer c2 = b"
      by (simp_all add: sha1_process_compress)
    have rx: "r @ x = b @ drop (64 - l) x" by (simp add: b')
    have "blocks64 (r @ x) = b # blocks64 (drop (64 - l) x)" "tail64 (r @ x) = rest"
      unfolding rx c2(2) using block_append [OF b'(2)] by blast+
    then have "digests (if rest \<noteq> [] then c2\<lparr>sc_buffer := poke 0 rest (sc_buffer c2)\<rparr> else c2) (m @ x)"
      using c2 c' b' by (intro digests_rest [where r = "[]"]) (simp_all add: hash tl)
    then show ?thesis
      using True ne w
      by (simp add: sha1_update_def and_mask_mod left c [symmetric] b [symmetric] Let_def)
  next
    case False
    obtain c2 rest where w: "sha1_whole c x = (c2, rest)" by fastforce
    from sha1_whole_blocks [OF w] c'
    have c2: "low_regs (sc_state c2) = fold fips_compress (blocks64 x) (fips_hash m)"
      "rest = tail64 x" "sc_total0 c2 = sc_total0 c" "sc_total1 c2 = sc_total1 c"
      "sc_buffer c2 = sc_buffer c"
      by simp_all
    have "blocks64 (r @ x) = blocks64 x \<and> tail64 (r @ x) = r @ rest"
    proof (cases "l = 0")
      case True
      with lr show ?thesis by (simp add: c2)
    next
      case 2: False
      with False have "length x < 64" "length (r @ x) < 64" by (simp_all add: lr)
      then show ?thesis by (simp only: c2 blocks64_short tail64_short)
    qed
    then have "digests (if rest \<noteq> [] then c2\<lparr>sc_buffer := poke l rest (sc_buffer c2)\<rparr> else c2) (m @ x)"
      using c2 c' lr by (intro digests_rest [where r = r]) (simp_all add: hash tl)
    then show ?thesis
      using False ne w
      by (auto simp: sha1_update_def and_mask_mod left c [symmetric] Let_def)
  qed
qed

section \<open>The digest\<close>

lemma unat_low: "unat (low x) = unat x mod 2 ^ 32"
  by (simp add: low_def unsigned_ucast_eq take_bit_eq_mod)

lemma times8_div: "8 * (n div 2 ^ 32) + n mod 2 ^ 32 div 2 ^ 29 = 8 * n div (2 ^ 32 :: nat)"
proof -
  obtain q r where n: "n = q * 2 ^ 32 + r" "r < (2 ^ 32 :: nat)"
    by (metis div_mult_mod_eq mod_less_divisor zero_less_numeral zero_less_power)
  have "8 * n = 8 * r + (8 * q) * 2 ^ 32" by (simp add: n)
  then have "8 * n div 2 ^ 32 = 8 * q + 8 * r div 2 ^ 32" by simp
  moreover have "8 * r div 2 ^ 32 = r div 2 ^ 29" by (simp add: div_mult2_eq [of "8 * r" 8 "2 ^ 29", simplified])
  moreover have "n div 2 ^ 32 = q" "n mod 2 ^ 32 = r" using n by simp_all
  ultimately show ?thesis by simp
qed

lemma sha1_msglen:
  assumes t: "unat t0 = n mod 2 ^ 32" "unat t1 = n div 2 ^ 32" and n: "n < 2 ^ 61"
  shows "sha1_put (drop_bit 29 t0 OR push_bit 3 t1) @ sha1_put (push_bit 3 t0) = be_bytes 8 (8 * n)"
proof -
  have t0: "unat t0 < 2 ^ 32" unfolding t by simp
  then have d: "unat (drop_bit 29 t0) = unat t0 div 2 ^ 29" "unat t0 div 2 ^ 29 < 8"
    using unat_drop_bit_eq [of 29 t0] drop_bit_eq_div [of 29 "unat t0"]
    by (simp_all only:) (simp add: less_mult_imp_div_less)
  have or: "drop_bit 29 t0 OR push_bit 3 t1 = push_bit 3 t1 + drop_bit 29 t0"
    by (subst or.commute, rule or_push_bit_plus) (use d in simp)
  have t1: "unat t1 < 2 ^ 29" using n unfolding t by (simp add: less_mult_imp_div_less)
  then have p1: "unat (push_bit 3 t1) = 8 * unat t1"
    by (simp add: push_bit_eq_mult unat_word_ariths)
  have "unat (push_bit 3 t0) = 8 * unat t0"
    using t0 by (simp add: push_bit_eq_mult unat_word_ariths)
  then have lo: "unat (low (push_bit 3 t0)) = 8 * n mod 256 ^ 4"
    by (simp only: unat_low t) (simp add: mod_simps)
  have "unat (push_bit 3 t1 + drop_bit 29 t0) = 8 * unat t1 + unat t0 div 2 ^ 29"
    using p1 d t1 by (subst unat_plus_if') simp
  also have "\<dots> = 8 * n div 256 ^ 4"
    unfolding t using times8_div [of n] by simp
  finally have "unat (low (drop_bit 29 t0 OR push_bit 3 t1)) = 8 * n div 256 ^ 4 mod 256 ^ 4"
    by (simp add: unat_low or)
  moreover have "be_bytes 8 (8 * n) = be_bytes 4 (8 * n div 256 ^ 4) @ be_bytes 4 (8 * n)"
    using be_bytes_add [of 4 4 "8 * n"] by simp
  ultimately show ?thesis using lo by (simp only: sha1_put_bytes be_bytes_mod)
qed

lemma padding_length:
  "(if n mod 64 < 56 then 56 - n mod 64 else 120 - n mod 64) = Suc (nat ((55 - int n) mod 64))"
proof -
  obtain q r where n: "n = 64 * q + r" "r < 64" by (metis mult_div_mod_eq mod_less_divisor zero_less_numeral)
  have "55 - int n = (55 - int r) + (- int q) * 64" unfolding n by simp
  then have "(55 - int n) mod 64 = (55 - int r) mod 64" by (simp only: mod_mult_self1)
  also have "(55 - int r) mod 64 = (if r < 56 then 55 - int r else 119 - int r)"
  proof (cases "r < 56")
    case False
    have "(55 - int r) mod 64 = (119 - int r) mod 64"
      using mod_add_self2 [of "55 - int r" 64] by (simp add: algebra_simps)
    with False n(2) show ?thesis by simp
  qed simp
  finally have m: "(55 - int n) mod 64 = (if r < 56 then 55 - int r else 119 - int r)" .
  have r: "n mod 64 = r" using n by simp
  show ?thesis unfolding m r using n(2) by (cases "r < 56"; simp only: if_True if_False; arith)
qed

lemma sha1_finish_digest:
  assumes d: "digests ctx m" and m: "length m < 2 ^ 61"
  shows "sha1_finish ctx = fips_sha1 m"
proof -
  obtain p where p: "p = (if length m mod 64 < 56 then 56 - length m mod 64 else 120 - length m mod 64)" by simp
  obtain c1 c2 ml where c: "c1 = sha1_update ctx (take p sha1_padding)" "c2 = sha1_update c1 ml"
    "ml = be_bytes 8 (8 * length m)" by simp
  have t: "unat (sc_total0 ctx) = length m mod 2 ^ 32" "unat (sc_total1 ctx) = length m div 2 ^ 32"
    using d unfolding digests_def by blast+
  have last: "unat (sc_total0 ctx AND 0x3F) = length m mod 64"
    unfolding and_mask_mod t by (rule mod_mod_cancel) simp
  have "p \<le> 64" "0 < p" by (auto simp: p)
  then have pad: "take p sha1_padding = 0x80 # replicate (p - 1) 0"
    by (cases p) (simp_all add: sha1_padding_def min_def)
  have "digests c1 (m @ take p sha1_padding)"
    unfolding c by (rule digests_update [OF d]) (use m \<open>p \<le> 64\<close> in \<open>simp_all add: pad\<close>)
  then have "digests c2 ((m @ take p sha1_padding) @ ml)"
    unfolding c(2) by (rule digests_update) (use m \<open>p \<le> 64\<close> in \<open>simp_all add: pad c(3)\<close>)
  moreover have "(m @ take p sha1_padding) @ ml = fips_pad m"
    unfolding pad fips_pad_def c(3) using padding_length [of "length m"] p by simp
  ultimately have "low_regs (sc_state c2) = fips_hash (fips_pad m)" by (simp add: digests_def)
  then show ?thesis
    unfolding sha1_finish_def Let_def sha1_msglen [OF t m] last p [symmetric] c(3) [symmetric] c(1,2) [symmetric]
    by (cases "sc_state c2") (auto simp: fips_sha1_def fips_digest_def sha1_put_bytes dest: sym)
qed

section \<open>The contract of an incremental digest\<close>

text \<open>
  What the callers of the digest rely on: contexts that stand for the message fed so far. However
  the message is cut into pieces, the digest is that of the whole.
\<close>

locale incremental_digest =
  fixes start :: "'c \<Rightarrow> 'c"
    and update :: "'c \<Rightarrow> byte list \<Rightarrow> 'c"
    and finish :: "'c \<Rightarrow> byte list"
    and digest :: "byte list \<Rightarrow> byte list"
    and fed :: "'c \<Rightarrow> byte list \<Rightarrow> bool"
    and usable :: "'c \<Rightarrow> bool"
  assumes start_fed: "usable c \<Longrightarrow> fed (start c) []"
    and update_fed: "fed c m \<Longrightarrow> length x < 2 ^ 32 \<Longrightarrow> length m + length x < 2 ^ 61 \<Longrightarrow> fed (update c x) (m @ x)"
    and finish_digest: "fed c m \<Longrightarrow> length m < 2 ^ 61 \<Longrightarrow> finish c = digest m"
    and fed_usable: "fed c m \<Longrightarrow> usable c"
begin

lemma updates_fed:
  "fed c m \<Longrightarrow> \<forall>x\<in>set xs. length x < 2 ^ 32 \<Longrightarrow> length m + length (concat xs) < 2 ^ 61 \<Longrightarrow>
   fed (foldl update c xs) (m @ concat xs)"
proof (induction xs arbitrary: c m)
  case (Cons x xs)
  have "fed (update c x) (m @ x)" using Cons.prems by (intro update_fed) auto
  from Cons.IH [OF this] Cons.prems show ?case by simp
qed simp

lemma pieces:
  assumes "usable c" "\<forall>x\<in>set xs. length x < 2 ^ 32" "length (concat xs) < 2 ^ 61"
  shows "finish (foldl update (start c) xs) = digest (concat xs)"
  using updates_fed [OF start_fed [OF assms(1)] assms(2)] assms(3) finish_digest by simp

lemma pieces_usable:
  assumes "usable c" "\<forall>x\<in>set xs. length x < 2 ^ 32" "length (concat xs) < 2 ^ 61"
  shows "usable (foldl update (start c) xs)"
  using updates_fed [OF start_fed [OF assms(1)] assms(2)] assms(3) fed_usable by simp

end

interpretation sha1: incremental_digest sha1_starts sha1_update sha1_finish fips_sha1 digests
    "\<lambda>c. length (sc_buffer c) = 64"
proof unfold_locales
  fix c :: sha1_context and m x :: "byte list"
  show "length (sc_buffer c) = 64 \<Longrightarrow> digests (sha1_starts c) []" by (rule digests_starts)
  show "digests c m \<Longrightarrow> length x < 2 ^ 32 \<Longrightarrow> length m + length x < 2 ^ 61 \<Longrightarrow>
      digests (sha1_update c x) (m @ x)"
    by (rule digests_update) simp_all
  show "digests c m \<Longrightarrow> length m < 2 ^ 61 \<Longrightarrow> sha1_finish c = fips_sha1 m"
    by (rule sha1_finish_digest)
  show "digests c m \<Longrightarrow> length (sc_buffer c) = 64" by (simp add: digests_def)
qed

lemma sha1_csum_fips:
  "length (sc_buffer junk) = 64 \<Longrightarrow> length buf < 2 ^ 32 \<Longrightarrow> sha1_csum junk buf = fips_sha1 buf"
  using sha1.pieces [of junk "[buf]"] by (simp add: sha1_csum_def)

lemma length_fips_sha1 [simp]: "length (fips_sha1 m) = 20"
  by (simp add: fips_sha1_def fips_digest_def split: prod.splits)

section \<open>Keyed digests\<close>

lemma sha1_hmac_pad_xor:
  "sha1_hmac_pad (replicate n p) k = map ((XOR) p) (take n k @ replicate (n - length k) 0)"
proof (induction n arbitrary: k)
  case (Suc n)
  then show ?case by (cases k) (simp_all add: map_replicate_const)
qed simp

lemma rfc_hmac_key_take:
  "rfc_hmac_key (take 64 k) = take 64 k @ replicate (64 - length k) 0"
  by (simp add: rfc_hmac_key_def Let_def)

section \<open>Properties\<close>

text \<open>C24: SHA-1 of a message fed in pieces, whatever the pieces and whatever the context held
  before, is the digest of the standard for the whole message.\<close>

theorem sha1_pieces_fips:
  assumes "length (sc_buffer junk) = 64"
    and "\<forall>x\<in>set xs. length x < 2 ^ 32"
    and "length (concat xs) < 2 ^ 61"
  shows "sha1_finish (foldl sha1_update (sha1_starts junk) xs) = fips_sha1 (concat xs)
    \<and> sha1_file junk (Some (filter (\<lambda>n. n \<noteq> []) xs @ [[]])) = (0, Some (fips_sha1 (concat xs)))"
proof -
  obtain ys where ys: "ys = filter (\<lambda>n. n \<noteq> []) xs" by simp
  then have tw: "takeWhile (\<lambda>n. n \<noteq> []) (ys @ [[]]) = ys" by (induction xs arbitrary: ys) auto
  have cc: "concat ys = concat xs" unfolding ys by (induction xs) auto
  have "\<forall>x\<in>set ys. length x < 2 ^ 32" using assms(2) by (simp add: ys)
  from sha1.pieces [OF assms(1) this] assms(3) sha1.pieces [OF assms]
  show ?thesis unfolding sha1_file_def option.case ys [symmetric] tw cc by simp
qed

theorem sha1_pieces_fips_witness:
  "sha1_finish (foldl sha1_update
      (sha1_starts \<lparr>sc_total0 = 1, sc_total1 = 2, sc_state = (1, 2, 3, 4, 5), sc_buffer = replicate 64 7\<rparr>)
      [bytes ''ab'', bytes ''c'']) = fips_sha1 (bytes ''abc'')"
  using sha1_pieces_fips [of "\<lparr>sc_total0 = 1, sc_total1 = 2, sc_state = (1, 2, 3, 4, 5), sc_buffer = replicate 64 7\<rparr>"
      "[bytes ''ab'', bytes ''c'']"]
  by simp

text \<open>\<open>sha1_hmac\<close> is the HMAC of RFC 2104 for the first 64 bytes of the key; for keys of at
  most 64 bytes it is the HMAC, and two keys with the same first 64 bytes give the same code for
  every message.\<close>

theorem sha1_hmac_rfc:
  assumes "length (sc_buffer junk) = 64" and "length buf < 2 ^ 32"
  shows "sha1_hmac junk key buf = rfc_hmac (take 64 key) buf"
proof -
  obtain kp where kp: "kp = (\<lambda>p. sha1_hmac_pad (replicate 64 p) key)" by simp
  have k: "kp p = map ((XOR) p) (rfc_hmac_key (take 64 key))" for p
    by (simp only: kp sha1_hmac_pad_xor rfc_hmac_key_take)
  then have l: "length (kp p) = 64" for p by (simp add: rfc_hmac_key_take)
  have in_ok: "\<forall>x\<in>set [kp 0x36, buf]. length x < 2 ^ 32" "length (concat [kp 0x36, buf]) < 2 ^ 61"
    using assms(2) by (simp_all add: l)
  have out_ok: "\<forall>x\<in>set [kp 0x5C, fips_sha1 m]. length x < 2 ^ 32"
    "length (concat [kp 0x5C, fips_sha1 m]) < 2 ^ 61" for m
    by (simp_all add: l)
  have kp': "sha1_hmac_pad (replicate 64 p) key = kp p" for p by (simp add: kp)
  obtain c where c: "c = sha1_update (sha1_update (sha1_starts junk) (kp 0x36)) buf" by simp
  have i: "sha1_finish c = fips_sha1 (kp 0x36 @ buf)" and ok: "length (sc_buffer c) = 64"
    using sha1.pieces [OF assms(1) in_ok] sha1.pieces_usable [OF assms(1) in_ok] by (simp_all add: c)
  have "sha1_finish (sha1_update (sha1_update (sha1_starts c) (kp 0x5C)) (fips_sha1 m)) =
      fips_sha1 (kp 0x5C @ fips_sha1 m)" for m
    using sha1.pieces [OF ok out_ok, of m] by simp
  then show ?thesis
    unfolding sha1_hmac_def Let_def kp' c [symmetric] i rfc_hmac_def k [symmetric] .
qed

theorem sha1_hmac_rfc_witness:
  "sha1_hmac \<lparr>sc_total0 = 0, sc_total1 = 0, sc_state = (0, 0, 0, 0, 0), sc_buffer = replicate 64 0\<rparr>
     (bytes ''key'') (bytes ''text'') = rfc_hmac (bytes ''key'') (bytes ''text'')"
  using sha1_hmac_rfc [of "\<lparr>sc_total0 = 0, sc_total1 = 0, sc_state = (0, 0, 0, 0, 0), sc_buffer = replicate 64 0\<rparr>"
      "bytes ''text''" "bytes ''key''"]
  by simp

end
