(* ===== verification/Websocket.thy ===== *)
theory Websocket
  imports Sha1 Base64
begin

text \<open>
  The WebSocket layer of \<^verbatim>\<open>src/core/ape_websocket.c\<close>: the key of the opening handshake, the header
  of the frames the server writes, the close frame, and the state machine that takes the frames of
  the client apart, one byte of the socket's read buffer at a time. Its contract is the framing of
  RFC 6455.
\<close>

section \<open>The code\<close>

datatype ws_payload_step =
  WS_STEP_KEY | WS_STEP_START | WS_STEP_LENGTH | WS_STEP_SHORT_LENGTH | WS_STEP_EXTENDED_LENGTH |
  WS_STEP_DATA | WS_STEP_END

text \<open>
  The packed structure \<open>frame_payload\<close> is its ten bytes: \<open>start\<close>, \<open>length\<close>, and the union of the
  16-bit and the 64-bit length, which starts at byte 2 and is little-endian in memory. \<open>offset\<close> is
  below the 4 GiB of its type for every read buffer. The field \<open>data\<close> is the block \<open>malloc\<close> gave.
\<close>

record websocket_state =
  ws_data :: "byte list option"
  ws_offset :: nat
  ws_error :: u16
  ws_key_val :: "byte list"
  ws_key_pos :: int
  ws_frame_payload :: "byte list"
  ws_step :: ws_payload_step
  ws_data_pos :: int
  ws_data_inkey :: int
  ws_frame_pos :: int
  ws_close_sent :: bool

definition be_nat :: "byte list \<Rightarrow> nat" where
  "be_nat bs = foldl (\<lambda>n b. 256 * n + unat b) 0 bs"

definition ws_start :: "websocket_state \<Rightarrow> byte" where
  "ws_start ws = ws_frame_payload ws ! 0"

definition ws_extended_length :: "websocket_state \<Rightarrow> u64" where
  "ws_extended_length ws = word_of_nat (be_nat (rev (take 8 (drop 2 (ws_frame_payload ws)))))"

definition ws_set_extended_length :: "u64 \<Rightarrow> websocket_state \<Rightarrow> websocket_state" where
  "ws_set_extended_length n ws =
     ws\<lparr>ws_frame_payload := poke 2 (rev (be_bytes 8 (unat n))) (ws_frame_payload ws)\<rparr>"

text \<open>What the loop does to its surroundings.\<close>

datatype ws_event = WS_write "byte list" | WS_shutdown | WS_on_frame "byte list"

type_synonym ws_result = "(websocket_state, ws_event) result"

text \<open>\<open>malloc\<close> is outside the program: it gives a block of the size asked for, or NULL.\<close>

type_synonym c_malloc = "nat \<Rightarrow> byte list option"

text \<open>The increments of the \<open>for\<close> loop and at the end of its body.\<close>

definition ws_next :: "websocket_state \<Rightarrow> ws_result" where
  "ws_next ws = accept (ws\<lparr>ws_offset := ws_offset ws + 1, ws_frame_pos := ws_frame_pos ws + 1\<rparr>)"

text \<open>\<open>memcpy\<close> of one byte to \<open>frame_payload\<close>, and stores through \<open>data\<close>, within their bounds.\<close>

definition ws_payload_byte :: "byte \<Rightarrow> websocket_state \<Rightarrow> ws_result" where
  "ws_payload_byte c ws =
     and_then (check (0 \<le> ws_frame_pos ws \<and> ws_frame_pos ws < 10) ws) (\<lambda>ws.
     accept (ws\<lparr>ws_frame_payload := (ws_frame_payload ws)[nat (ws_frame_pos ws) := c]\<rparr>))"

definition ws_store :: "byte \<Rightarrow> websocket_state \<Rightarrow> ws_result" where
  "ws_store c ws =
     (case ws_data ws of
        None \<Rightarrow> (ws, [], Abort)
      | Some d \<Rightarrow>
          and_then (check (0 \<le> ws_data_inkey ws \<and> nat (ws_data_inkey ws) < length d) ws) (\<lambda>ws.
          accept (ws\<lparr>ws_data := Some (d[nat (ws_data_inkey ws) := c])\<rparr>)))"

text \<open>
  The end of a frame's payload. \<open>used\<close> is the number of bytes in the read buffer; leaving the
  function is \<open>Reject\<close>.
\<close>

definition ws_frame_done :: "nat \<Rightarrow> websocket_state \<Rightarrow> ws_result" where
  "ws_frame_done used ws =
     (if ws_offset ws + 1 = used
      then refuse (ws\<lparr>ws_offset := 0, ws_frame_pos := 0, ws_key_pos := 0\<rparr>)
      else ws_next ws)"

definition ws_frame_end :: "nat \<Rightarrow> websocket_state \<Rightarrow> ws_result" where
  "ws_frame_end used ws =
     and_then (ws_store 0 ws) (\<lambda>ws.
     let ws = (ws_set_extended_length 0
                (ws\<lparr>ws_step := WS_STEP_START, ws_frame_pos := -1\<rparr>))\<lparr>ws_data_pos := 0, ws_key_pos := 0\<rparr>;
         opcode = ws_start ws AND 0x0F
     in if opcode = 0x8
        then (ws, (if \<not> ws_close_sent ws then [WS_write [0x88, 0x00]] else []) @ [WS_shutdown], Reject)
        else if opcode = 0x9 \<or> opcode = 0xA then ws_frame_done used ws
        else and_then (ws, [WS_on_frame (take (nat (ws_data_inkey ws)) (the (ws_data ws)))], Accept)
               (ws_frame_done used))"

definition ws_data_byte :: "c_malloc \<Rightarrow> nat \<Rightarrow> byte \<Rightarrow> websocket_state \<Rightarrow> ws_result" where
  "ws_data_byte malloc used c ws =
     (let ws = (if ws_data_pos ws = 0
                then ws\<lparr>ws_data_pos := int (ws_offset ws),
                         ws_data := malloc (unat (ws_extended_length ws + 1))\<rparr>
                else ws)
      in and_then (ws_store (c XOR ws_key_val ws ! nat (ws_data_inkey ws mod 4)) ws) (\<lambda>ws.
         let ws = ws\<lparr>ws_data_inkey := ws_data_inkey ws + 1\<rparr>;
             ws = ws_set_extended_length (ws_extended_length ws - 1) ws
         in if ws_extended_length ws = 0 then ws_frame_end used ws else ws_next ws))"

definition ws_length_byte :: "byte \<Rightarrow> websocket_state \<Rightarrow> ws_result" where
  "ws_length_byte c ws =
     (if c AND 0x80 = 0 then refuse ws
      else if c AND 0x7F = 126 then ws_next (ws\<lparr>ws_step := WS_STEP_SHORT_LENGTH\<rparr>)
      else if c AND 0x7F = 127 then ws_next (ws\<lparr>ws_step := WS_STEP_EXTENDED_LENGTH\<rparr>)
      else ws_next (ws_set_extended_length (ucast (c AND 0x7F)) (ws\<lparr>ws_step := WS_STEP_KEY\<rparr>)))"

text \<open>\<open>ntohs\<close> and \<open>ntohl\<close> of what lies in memory is the big-endian value of its bytes.\<close>

definition ws_loop_step :: "c_malloc \<Rightarrow> nat \<Rightarrow> (websocket_state, ws_event) machine" where
  "ws_loop_step malloc used ws c =
     (case ws_step ws of
        WS_STEP_KEY \<Rightarrow>
          and_then (check (0 \<le> ws_key_pos ws \<and> ws_key_pos ws < 4) ws) (\<lambda>ws.
          let ws = ws\<lparr>ws_key_val := (ws_key_val ws)[nat (ws_key_pos ws) := c],
                      ws_key_pos := ws_key_pos ws + 1\<rparr>
          in ws_next (if ws_key_pos ws = 4 then ws\<lparr>ws_step := WS_STEP_DATA, ws_data_inkey := 0\<rparr> else ws))
      | WS_STEP_START \<Rightarrow>
          ws_next (ws\<lparr>ws_frame_payload := (ws_frame_payload ws)[0 := c], ws_step := WS_STEP_LENGTH\<rparr>)
      | WS_STEP_LENGTH \<Rightarrow> ws_length_byte c ws
      | WS_STEP_SHORT_LENGTH \<Rightarrow>
          and_then (ws_payload_byte c ws) (\<lambda>ws.
          ws_next
            (if ws_frame_pos ws = 3
             then ws_set_extended_length (word_of_nat (be_nat (take 2 (drop 2 (ws_frame_payload ws)))))
                    (ws\<lparr>ws_step := WS_STEP_KEY\<rparr>)
             else ws))
      | WS_STEP_EXTENDED_LENGTH \<Rightarrow>
          and_then (ws_payload_byte c ws) (\<lambda>ws.
          ws_next
            (if ws_frame_pos ws = 9
             then ws_set_extended_length (word_of_nat (be_nat (take 4 (drop 6 (ws_frame_payload ws)))))
                    (ws\<lparr>ws_step := WS_STEP_KEY\<rparr>)
             else ws))
      | WS_STEP_DATA \<Rightarrow> ws_data_byte malloc used c ws
      | WS_STEP_END \<Rightarrow> ws_next ws)"

definition ape_ws_process_frame :: "c_malloc \<Rightarrow> byte list \<Rightarrow> websocket_state \<Rightarrow> ws_result" where
  "ape_ws_process_frame malloc buf ws =
     feed (ws_loop_step malloc (length buf)) ws (drop (ws_offset ws) buf)"

definition ws_guid :: "byte list" where
  "ws_guid = bytes ''258EAFA5-E914-47DA-95CA-C5AB0DC85B11''"

definition ape_ws_compute_key :: "sha1_context \<Rightarrow> byte list \<Rightarrow> byte list option" where
  "ape_ws_compute_key junk key =
     (if 32 < length key then None
      else Some (base64_encode (sha1_csum junk (key @ ws_guid))))"

definition ape_ws_write :: "byte list \<Rightarrow> byte list list" where
  "ape_ws_write data =
     (let len = length data;
          payload_head =
            (if len \<le> 125 then [0x81, word_of_nat len AND 0x7F]
             else if len \<le> 65535 then [0x81, 126] @ be_bytes 2 len
             else if len \<le> 0xFFFFFFFF then [0x81, 127, 0, 0, 0, 0] @ be_bytes 4 len
             else [])
      in [payload_head, data])"

definition ape_ws_close :: "websocket_state \<Rightarrow> websocket_state \<times> ws_event list" where
  "ape_ws_close ws =
     (if ws_close_sent ws then (ws, [])
      else (ws\<lparr>ws_close_sent := True\<rparr>, [WS_write [0x88, 0x00]]))"

text \<open>The state \<open>ape_server_http_ready\<close> sets up; the fields it leaves alone are \<open>malloc\<close>'s.\<close>

definition ws_init :: "websocket_state \<Rightarrow> websocket_state" where
  "ws_init junk = (ws_set_extended_length 0
     (junk\<lparr>ws_step := WS_STEP_START, ws_offset := 0, ws_data := None, ws_error := 0, ws_key_pos := 0,
           ws_close_sent := False, ws_frame_payload := (ws_frame_payload junk)[0 := 0, 1 := 0]\<rparr>))
     \<lparr>ws_data_pos := 0, ws_frame_pos := 0\<rparr>"

section \<open>The framing of RFC 6455\<close>

definition rfc_length :: "byte \<Rightarrow> nat \<Rightarrow> byte list" where
  "rfc_length mbit n =
     (if n < 126 then [mbit OR word_of_nat n]
      else if n < 2 ^ 16 then (mbit OR 126) # be_bytes 2 n
      else (mbit OR 127) # be_bytes 8 n)"

definition rfc_mask :: "byte list \<Rightarrow> byte list \<Rightarrow> byte list" where
  "rfc_mask key p = map (\<lambda>i. p ! i XOR key ! (i mod 4)) [0..<length p]"

definition rfc_client_frame :: "byte \<Rightarrow> byte list \<Rightarrow> byte list \<Rightarrow> byte list" where
  "rfc_client_frame op key p = op # rfc_length 0x80 (length p) @ key @ rfc_mask key p"

definition rfc_server_frame :: "byte \<Rightarrow> byte list \<Rightarrow> byte list" where
  "rfc_server_frame op p = op # rfc_length 0 (length p) @ p"

section \<open>Lengths in memory\<close>

lemma be_nat_append: "be_nat (xs @ ys) = be_nat xs * 256 ^ length ys + be_nat ys"
proof -
  have "foldl (\<lambda>n b. 256 * n + unat (b :: byte)) a ys = a * 256 ^ length ys + foldl (\<lambda>n b. 256 * n + unat b) 0 ys" for a
  proof (induction ys arbitrary: a)
    case (Cons y ys)
    show ?case
      unfolding foldl_Cons Cons [of "256 * a + unat y"] Cons [of "256 * 0 + unat y"]
      by (simp add: algebra_simps)
  qed simp
  from this [of "be_nat xs"] show ?thesis by (simp add: be_nat_def)
qed

lemma be_nat_be_bytes: "be_nat (be_bytes k n) = n mod 256 ^ k"
proof (induction k arbitrary: n)
  case (Suc k)
  have "be_nat (be_bytes (Suc k) n) = (n div 256 mod 256 ^ k) * 256 + n mod 256"
    by (simp add: be_nat_append Suc) (simp add: be_nat_def unsigned_of_nat take_bit_eq_mod)
  also have "\<dots> = n mod 256 ^ Suc k" by (simp add: mod_mult2_eq)
  finally show ?case .
qed (simp add: be_nat_def)

text \<open>The length in the payload's bytes 2 to 9.\<close>

definition payload_length :: "byte list \<Rightarrow> u64" where
  "payload_length p = word_of_nat (be_nat (rev (take 8 (drop 2 p))))"

definition payload_set :: "u64 \<Rightarrow> byte list \<Rightarrow> byte list" where
  "payload_set n p = poke 2 (rev (be_bytes 8 (unat n))) p"

lemma payload_set_simps [simp]:
  assumes "length p = 10"
  shows "payload_length (payload_set n p) = n" "length (payload_set n p) = 10"
    "payload_set n p ! 0 = p ! 0"
proof -
  have "take 8 (drop 2 (poke 2 (rev (be_bytes 8 (unat n))) p)) = rev (be_bytes 8 (unat n))"
    using assms by (simp add: poke_def)
  then show "payload_length (payload_set n p) = n"
    using unsigned_less [of n, where ?'a = nat]
    by (simp add: payload_length_def payload_set_def be_nat_be_bytes)
  show "length (payload_set n p) = 10" "payload_set n p ! 0 = p ! 0"
    using assms by (simp_all add: payload_set_def poke_def nth_append)
qed

lemma ws_extended_length_payload: "ws_extended_length ws = payload_length (ws_frame_payload ws)"
  by (simp add: ws_extended_length_def payload_length_def)

lemma ws_set_extended_length_payload:
  "ws_set_extended_length n ws = ws\<lparr>ws_frame_payload := payload_set n (ws_frame_payload ws)\<rparr>"
  by (simp add: ws_set_extended_length_def payload_set_def)

section \<open>Receiving a frame\<close>

text \<open>Between frames, and at each later point of a frame.\<close>

definition ws_ready :: "websocket_state \<Rightarrow> bool" where
  "ws_ready ws \<longleftrightarrow> ws_step ws = WS_STEP_START \<and> length (ws_frame_payload ws) = 10 \<and>
     length (ws_key_val ws) = 4 \<and> ws_key_pos ws = 0 \<and> ws_data_pos ws = 0 \<and> ws_frame_pos ws = 0"

definition ws_keying :: "byte \<Rightarrow> nat \<Rightarrow> websocket_state \<Rightarrow> bool" where
  "ws_keying op n ws \<longleftrightarrow> ws_step ws = WS_STEP_KEY \<and> length (ws_frame_payload ws) = 10 \<and>
     length (ws_key_val ws) = 4 \<and> ws_key_pos ws = 0 \<and> ws_data_pos ws = 0 \<and>
     ws_start ws = op \<and> ws_extended_length ws = word_of_nat n"

definition ws_reading :: "byte \<Rightarrow> nat \<Rightarrow> byte list \<Rightarrow> websocket_state \<Rightarrow> bool" where
  "ws_reading op n key ws \<longleftrightarrow> ws_step ws = WS_STEP_DATA \<and> length (ws_frame_payload ws) = 10 \<and>
     length key = 4 \<and> ws_key_val ws = key \<and> ws_data_inkey ws = 0 \<and> ws_data_pos ws = 0 \<and>
     ws_start ws = op \<and> ws_extended_length ws = word_of_nat n"

lemma length_4: "length xs = 4 \<Longrightarrow> \<exists>a b c d. xs = [a, b, c, d]"
  by (auto simp: numeral_eq_Suc length_Suc_conv)

lemma length_8: "length xs = 8 \<Longrightarrow> \<exists>a b c d e f g h. xs = [a, b, c, d, e, f, g, h]"
  by (auto simp: numeral_eq_Suc length_Suc_conv)

lemma length_10: "length xs = 10 \<Longrightarrow> \<exists>a b c d e f g h i j. xs = [a, b, c, d, e, f, g, h, i, j]"
  by (auto simp: numeral_eq_Suc length_Suc_conv)

lemmas ws_eval = ws_loop_step_def ws_next_def ws_length_byte_def ws_payload_byte_def Let_def
  ws_extended_length_payload ws_set_extended_length_payload ws_start_def

text \<open>The first two to ten bytes: opcode and length.\<close>

lemma and_7f: "unat (x :: byte) < 128 \<Longrightarrow> x AND 0x7F = x"
proof -
  assume x: "unat x < 128"
  have "(0x7F :: byte) = mask 7" by (simp add: mask_eq_exp_minus_1)
  then have "x AND 0x7F = take_bit 7 x" by (simp only: take_bit_eq_mask)
  also have "\<dots> = x"
    using x by (simp add: word_unat_eq_iff unsigned_take_bit_eq take_bit_nat_eq_self)
  finally show ?thesis .
qed

lemma mask_bit:
  assumes "unat (x :: byte) < 128"
  shows "(0x80 OR x) AND 0x80 \<noteq> 0" "(0x80 OR x) AND 0x7F = x"
proof -
  have "(0x80 OR x) AND 0x7F = (0x80 AND 0x7F) OR (x AND 0x7F)" by (rule bit.conj_disj_distrib2)
  then show "(0x80 OR x) AND 0x7F = x" using and_7f [OF assms] by simp
  have "(0x80 OR x) AND 0x80 = (0x80 :: byte)" by (rule bit_word_eqI) (auto simp: bit_simps)
  then show "(0x80 OR x) AND 0x80 \<noteq> 0" by simp
qed

definition ws_header_read :: "byte \<Rightarrow> nat \<Rightarrow> websocket_state \<Rightarrow> ws_event list \<Rightarrow> websocket_state \<Rightarrow> bool" where
  "ws_header_read op n ws ev ws' \<longleftrightarrow> ev = [] \<and> ws_keying op n ws' \<and>
     ws_offset ws' = ws_offset ws + length (op # rfc_length 0x80 n) \<and> ws_close_sent ws' = ws_close_sent ws"

lemma ws_read_short:
  assumes "ws_ready ws" "n < 126"
  shows "yields (feed (ws_loop_step malloc used) ws (op # rfc_length 0x80 n)) (ws_header_read op n ws)"
proof -
  obtain c where c: "c = (0x80 OR word_of_nat n :: byte)" by simp
  have c': "c AND 0x80 \<noteq> 0" "c AND 0x7F = word_of_nat n"
    using mask_bit [of "word_of_nat n"] assms(2) by (simp_all add: c unat_word_of_nat)
  have w: "(word_of_nat n :: byte) \<noteq> 126" "(word_of_nat n :: byte) \<noteq> 127"
    "(ucast (word_of_nat n :: byte) :: u64) = word_of_nat n"
    using assms(2) by (simp_all add: word_unat_eq_iff unat_word_of_nat ucast_word_of_nat)
  show ?thesis
    using assms c' w
    by (simp add: rfc_length_def c [symmetric] ws_ready_def ws_keying_def ws_header_read_def ws_eval
        yields_rules del: feed.simps)
qed

lemma ws_read_medium:
  assumes "ws_ready ws" "126 \<le> n" "n < 2 ^ 16"
  shows "yields (feed (ws_loop_step malloc used) ws (op # rfc_length 0x80 n)) (ws_header_read op n ws)"
proof -
  obtain x y where xy: "be_bytes 2 n = [x, y]" by (simp add: numeral_2_eq_2)
  have n: "be_nat [x, y] = n" using be_nat_be_bytes [of 2 n] assms(3) by (simp add: xy)
  obtain a b c d e f g h i j where p: "ws_frame_payload ws = [a, b, c, d, e, f, g, h, i, j]"
    using length_10 [of "ws_frame_payload ws"] assms(1) unfolding ws_ready_def by blast
  show ?thesis
    using assms n
    by (simp add: rfc_length_def xy p ws_ready_def ws_keying_def ws_header_read_def ws_eval
        yields_rules del: feed.simps and_then_check)
qed

lemma ws_read_long:
  assumes "ws_ready ws" "2 ^ 16 \<le> n" "n < 2 ^ 32"
  shows "yields (feed (ws_loop_step malloc used) ws (op # rfc_length 0x80 n)) (ws_header_read op n ws)"
proof -
  obtain x1 x2 x3 x4 y1 y2 y3 y4 where xy: "be_bytes 8 n = [x1, x2, x3, x4, y1, y2, y3, y4]"
    using length_8 [of "be_bytes 8 n"] by auto
  have "be_bytes 4 n = drop 4 (be_bytes 8 n)" using be_bytes_add [of 4 4 n] by simp
  then have n: "be_nat [y1, y2, y3, y4] = n" using be_nat_be_bytes [of 4 n] assms(3) by (simp add: xy)
  obtain a b c d e f g h i j where p: "ws_frame_payload ws = [a, b, c, d, e, f, g, h, i, j]"
    using length_10 [of "ws_frame_payload ws"] assms(1) unfolding ws_ready_def by blast
  show ?thesis
    using assms n
    by (simp add: rfc_length_def xy p ws_ready_def ws_keying_def ws_header_read_def ws_eval
        yields_rules del: feed.simps and_then_check)
qed

text \<open>The frame's key: four bytes.\<close>

definition ws_key_read :: "byte \<Rightarrow> nat \<Rightarrow> byte list \<Rightarrow> websocket_state \<Rightarrow> ws_event list \<Rightarrow> websocket_state \<Rightarrow> bool" where
  "ws_key_read op n key ws ev ws' \<longleftrightarrow> ev = [] \<and> ws_reading op n key ws' \<and>
     ws_offset ws' = ws_offset ws + 4 \<and> ws_close_sent ws' = ws_close_sent ws"

lemma ws_read_key:
  assumes "ws_keying op n ws" "length key = 4"
  shows "yields (feed (ws_loop_step malloc used) ws key) (ws_key_read op n key ws)"
proof -
  obtain a b c d where key: "key = [a, b, c, d]" using length_4 [OF assms(2)] by blast
  obtain e f g h where old: "ws_key_val ws = [e, f, g, h]"
    using length_4 [of "ws_key_val ws"] assms(1) unfolding ws_keying_def by blast
  show ?thesis
    using assms(1)
    by (simp add: key old ws_keying_def ws_reading_def ws_key_read_def ws_eval yields_rules
        del: feed.simps and_then_check)
qed


text \<open>The payload: \<open>j\<close> of its bytes have been taken.\<close>

definition ws_at :: "byte \<Rightarrow> byte list \<Rightarrow> byte list \<Rightarrow> nat \<Rightarrow> websocket_state \<Rightarrow> bool" where
  "ws_at op key p j ws \<longleftrightarrow> ws_step ws = WS_STEP_DATA \<and> length (ws_frame_payload ws) = 10 \<and>
     length key = 4 \<and> ws_key_val ws = key \<and> ws_data_inkey ws = int j \<and> 0 < ws_offset ws \<and>
     ws_start ws = op \<and> ws_extended_length ws = word_of_nat (length p - j) \<and>
     (if j = 0 then ws_data_pos ws = 0
      else ws_data_pos ws \<noteq> 0 \<and>
        (\<exists>d. ws_data ws = Some d \<and> length d = length p + 1 \<and> take j d = take j p))"

definition malloc_ok :: "c_malloc \<Rightarrow> bool" where
  "malloc_ok malloc \<longleftrightarrow> (\<forall>n. \<exists>b. malloc n = Some b \<and> length b = n)"

text \<open>After the allocation the first byte is like the others.\<close>

definition ws_stored :: "byte list \<Rightarrow> nat \<Rightarrow> websocket_state \<Rightarrow> websocket_state" where
  "ws_stored d j ws = ws\<lparr>ws_data := Some d, ws_data_inkey := int j\<rparr>"

lemma word_of_nat_minus_1: "0 < n \<Longrightarrow> (word_of_nat n :: 'a::len word) - 1 = word_of_nat (n - 1)"
  by (simp add: of_nat_diff)

lemma ws_data_byte_at:
  assumes at: "ws_at op key p j ws" and j: "j < length p" and p: "length p < 2 ^ 31"
    and m: "malloc_ok malloc" and c: "c = p ! j XOR key ! (j mod 4)"
  obtains d ws1 where "length d = length p + 1" "take (j + 1) d = take (j + 1) p"
    "ws1 = ws\<lparr>ws_data := Some d, ws_data_inkey := int (j + 1),
       ws_data_pos := ws_data_pos ws1,
       ws_frame_payload := payload_set (word_of_nat (length p - (j + 1))) (ws_frame_payload ws)\<rparr>"
    "ws_data_pos ws1 \<noteq> 0"
    "ws_data_byte malloc used c ws = (if length p = j + 1 then ws_frame_end used ws1 else ws_next ws1)"
proof -
  obtain b where b: "malloc (length p + 1) = Some b" "length b = length p + 1"
    using m unfolding malloc_ok_def by metis
  have n: "unat (word_of_nat (length p - j) + 1 :: u64) = length p - j + 1"
  proof -
    have "word_of_nat (length p - j) + 1 = (word_of_nat (length p - j + 1) :: u64)"
      by (simp only: of_nat_add of_nat_1)
    moreover have "length p - j + 1 < 2 ^ LENGTH(64)" using p by simp
    ultimately show ?thesis by (simp only: unat_word_of_nat)
  qed
  obtain d0 where d0: "d0 = (if j = 0 then b else the (ws_data ws))" by simp
  have d0': "length d0 = length p + 1" "take j d0 = take j p"
    using at b by (auto simp: d0 ws_at_def split: if_splits)
  obtain pos where pos: "pos = (if j = 0 then int (ws_offset ws) else ws_data_pos ws)" by simp
  have "pos \<noteq> 0" using at by (simp add: pos ws_at_def split: if_splits)
  obtain ws0 where ws0: "ws0 = ws\<lparr>ws_data_pos := pos, ws_data := Some d0\<rparr>" by simp
  have "(if ws_data_pos ws = 0
         then ws\<lparr>ws_data_pos := int (ws_offset ws), ws_data := malloc (unat (ws_extended_length ws + 1))\<rparr>
         else ws) = ws0"
    using at n b by (auto simp: ws0 pos d0 ws_at_def split: if_splits)
  moreover have x: "c XOR key ! (nat (int j mod 4)) = p ! j"
    by (simp add: c nat_mod_distrib xor.assoc)
  obtain d where d: "d = d0[j := p ! j]" by simp
  have d': "length d = length p + 1" "take (j + 1) d = take (j + 1) p"
    using d0' j by (simp_all add: d take_Suc_conv_app_nth)
  obtain ws1 where ws1: "ws1 = ws0\<lparr>ws_data := Some d, ws_data_inkey := int (j + 1),
      ws_frame_payload := payload_set (word_of_nat (length p - (j + 1))) (ws_frame_payload ws)\<rparr>" by simp
  have len: "payload_length (ws_frame_payload ws) - 1 = word_of_nat (length p - (j + 1))"
    using at j word_of_nat_minus_1 [of "length p - j", where ?'a = 64]
    by (simp add: ws_at_def ws_extended_length_payload)
  have z: "(word_of_nat (length p - (j + 1)) :: u64) = 0 \<longleftrightarrow> length p = j + 1"
    using j p by (subst word_of_nat_0_iff) auto
  have "yields (ws_store (c XOR ws_key_val ws0 ! nat (ws_data_inkey ws0 mod 4)) ws0)
      (\<lambda>ev s. ev = [] \<and> s = ws0\<lparr>ws_data := Some d\<rparr>)"
    using at d0'(1) j
    by (simp add: ws_store_def ws0 ws_at_def x d yields_rules del: and_then_check)
  then have st: "ws_store (c XOR ws_key_val ws0 ! nat (ws_data_inkey ws0 mod 4)) ws0 =
      (ws0\<lparr>ws_data := Some d\<rparr>, [], Accept)"
    by (auto simp: yields_def split: prod.splits)
  have "ws_data_byte malloc used c ws = (if length p = j + 1 then ws_frame_end used ws1 else ws_next ws1)"
  proof -
    have e: "ws_set_extended_length (ws_extended_length (ws0\<lparr>ws_data := Some d, ws_data_inkey := int (j + 1)\<rparr>) - 1)
        (ws0\<lparr>ws_data := Some d, ws_data_inkey := int (j + 1)\<rparr>) = ws1"
      using len by (simp add: ws_extended_length_payload ws_set_extended_length_payload ws1 ws0)
    have l: "ws_extended_length ws1 = word_of_nat (length p - (j + 1))"
      using at by (simp add: ws_extended_length_payload ws1 ws_at_def)
    have k: "ws_data_inkey (ws0\<lparr>ws_data := Some d\<rparr>) + 1 = int (j + 1)"
      using at by (simp add: ws0 ws_at_def)
    show ?thesis
      unfolding ws_data_byte_def calculation Let_def st and_then_Accept k
      using e l z by simp
  qed
  then show thesis
    by (intro that [of d ws1]) (use d' \<open>pos \<noteq> 0\<close> in \<open>simp_all add: ws1 ws0\<close>)
qed


lemma ws_data_more:
  assumes at: "ws_at op key p j ws" and j: "j + 1 < length p" and p: "length p < 2 ^ 31"
    and m: "malloc_ok malloc" and c: "c = p ! j XOR key ! (j mod 4)"
  obtains ws' where "ws_loop_step malloc used ws c = (ws', [], Accept)" "ws_at op key p (j + 1) ws'"
    "ws_offset ws' = ws_offset ws + 1" "ws_close_sent ws' = ws_close_sent ws"
proof -
  have jl: "j < length p" using j by simp
  obtain d ws1 where r: "length d = length p + 1" "take (j + 1) d = take (j + 1) p"
    "ws1 = ws\<lparr>ws_data := Some d, ws_data_inkey := int (j + 1), ws_data_pos := ws_data_pos ws1,
       ws_frame_payload := payload_set (word_of_nat (length p - (j + 1))) (ws_frame_payload ws)\<rparr>"
    "ws_data_pos ws1 \<noteq> 0"
    "ws_data_byte malloc used c ws = (if length p = j + 1 then ws_frame_end used ws1 else ws_next ws1)"
    by (rule ws_data_byte_at [OF at jl p m c])
  obtain pos where pos: "pos = ws_data_pos ws1" by simp
  have step: "ws_loop_step malloc used ws c = ws_next ws1"
    using at j r(5) by (simp add: ws_loop_step_def ws_at_def)
  have ws1: "ws1 = ws\<lparr>ws_data := Some d, ws_data_inkey := int (j + 1), ws_data_pos := pos,
       ws_frame_payload := payload_set (word_of_nat (length p - (j + 1))) (ws_frame_payload ws)\<rparr>"
    using r(3) unfolding pos .
  have "pos \<noteq> 0" using r(4) pos by simp
  show thesis
    by (rule that [OF step [unfolded ws_next_def accept_def]])
      (use at r(1,2) \<open>pos \<noteq> 0\<close> in \<open>simp_all add: ws1 ws_at_def ws_start_def ws_extended_length_payload\<close>)
qed

text \<open>What the end of a frame reports, by its opcode.\<close>

definition ws_reports :: "byte \<Rightarrow> byte list \<Rightarrow> ws_event list" where
  "ws_reports op p = (if op AND 0x0F = 0x9 \<or> op AND 0x0F = 0xA then [] else [WS_on_frame p])"

lemma ws_data_last:
  assumes at: "ws_at op key p j ws" and j: "j + 1 = length p" and p: "length p < 2 ^ 31"
    and m: "malloc_ok malloc" and c: "c = p ! j XOR key ! (j mod 4)"
  obtains ws1 where "length (ws_frame_payload ws1) = 10" "length (ws_key_val ws1) = 4"
    "ws_key_pos ws1 = 0" "ws_data_pos ws1 = 0" "ws_step ws1 = WS_STEP_START" "ws_frame_pos ws1 = -1"
    "ws_offset ws1 = ws_offset ws" "ws_close_sent ws1 = ws_close_sent ws"
    "ws_loop_step malloc used ws c =
      (if op AND 0x0F = 0x8
       then (ws1, (if \<not> ws_close_sent ws then [WS_write [0x88, 0x00]] else []) @ [WS_shutdown], Reject)
       else and_then (ws1, ws_reports op p, Accept) (ws_frame_done used))"
proof -
  have jl: "j < length p" using j by simp
  obtain d ws1 where r: "length d = length p + 1" "take (j + 1) d = take (j + 1) p"
    "ws1 = ws\<lparr>ws_data := Some d, ws_data_inkey := int (j + 1), ws_data_pos := ws_data_pos ws1,
       ws_frame_payload := payload_set (word_of_nat (length p - (j + 1))) (ws_frame_payload ws)\<rparr>"
    "ws_data_pos ws1 \<noteq> 0"
    "ws_data_byte malloc used c ws = (if length p = j + 1 then ws_frame_end used ws1 else ws_next ws1)"
    by (rule ws_data_byte_at [OF at jl p m c])
  obtain pos where pos: "pos = ws_data_pos ws1" by simp
  have step: "ws_loop_step malloc used ws c = ws_frame_end used ws1"
    using at j r(5) by (simp add: ws_loop_step_def ws_at_def)
  have ws1: "ws1 = ws\<lparr>ws_data := Some d, ws_data_inkey := int (length p), ws_data_pos := pos,
       ws_frame_payload := payload_set (word_of_nat (length p - (j + 1))) (ws_frame_payload ws)\<rparr>"
    using r(3) unfolding pos j .
  obtain ws2 where ws2: "ws2 = ws\<lparr>ws_data_inkey := int (length p), ws_data := Some (d[length p := 0]),
       ws_step := WS_STEP_START, ws_frame_pos := -1,
       ws_frame_payload := payload_set 0 (payload_set (word_of_nat (length p - (j + 1))) (ws_frame_payload ws)),
       ws_data_pos := 0, ws_key_pos := 0\<rparr>" by simp
  have tk: "take (length p) (d[length p := 0]) = p"
    using r(1,2) j by simp
  have fe: "ws_frame_end used ws1 =
      (if op AND 0x0F = 0x8
       then (ws2, (if \<not> ws_close_sent ws then [WS_write [0x88, 0x00]] else []) @ [WS_shutdown], Reject)
       else and_then (ws2, ws_reports op p, Accept) (ws_frame_done used))"
    using at r(1) tk
    by (simp add: ws_frame_end_def ws_store_def ws1 ws2 accept_def Let_def ws_start_def ws_at_def
        ws_set_extended_length_payload ws_reports_def)
  show thesis
    by (rule that [OF _ _ _ _ _ _ _ _ step [unfolded fe]]) (use at in \<open>simp_all add: ws2 ws_at_def\<close>)
qed


text \<open>A whole frame: the header, the key, all payload bytes but the last, the last.\<close>

lemma ws_read_header:
  assumes "ws_ready ws" "n < 2 ^ 31"
  shows "yields (feed (ws_loop_step malloc used) ws (op # rfc_length 0x80 n)) (ws_header_read op n ws)"
  using assms ws_read_short [of ws n] ws_read_medium [of ws n] ws_read_long [of ws n]
  by (cases "n < 126"; cases "n < 2 ^ 16") simp_all

lemma length_rfc_mask [simp]: "length (rfc_mask key p) = length p"
  by (simp add: rfc_mask_def)

lemma rfc_mask_Cons:
  "j < length p \<Longrightarrow> drop j (rfc_mask key p) = (p ! j XOR key ! (j mod 4)) # drop (Suc j) (rfc_mask key p)"
proof -
  assume j: "j < length p"
  then have n: "rfc_mask key p ! j = p ! j XOR key ! (j mod 4)" and l: "j < length (rfc_mask key p)"
    by (simp_all add: rfc_mask_def)
  show ?thesis using Cons_nth_drop_Suc [OF l, symmetric] unfolding n .
qed

lemma drop_last1: "length xs = Suc j \<Longrightarrow> drop j xs = [last xs]"
  by (cases xs rule: rev_cases) auto

lemma ws_read_payload:
  assumes "ws_at op key p j ws" "j < length p" "length p < 2 ^ 31" "malloc_ok malloc"
  obtains ws1 where "feed (ws_loop_step malloc used) ws (drop j (rfc_mask key p)) =
      ws_loop_step malloc used ws1 (last (rfc_mask key p))"
    "ws_at op key p (length p - 1) ws1" "ws_offset ws1 + 1 = ws_offset ws + (length p - j)"
    "ws_close_sent ws1 = ws_close_sent ws"
  using assms
proof (induction "length p - j" arbitrary: j ws thesis)
  case (Suc k)
  show ?case
  proof (cases "j + 1 = length p")
    case True
    then have d: "drop j (rfc_mask key p) = [last (rfc_mask key p)]"
      by (intro drop_last1) simp
    obtain s ev v where st: "ws_loop_step malloc used ws (last (rfc_mask key p)) = (s, ev, v)"
      by (cases "ws_loop_step malloc used ws (last (rfc_mask key p))") auto
    have "feed (ws_loop_step malloc used) ws (drop j (rfc_mask key p)) = (s, ev, v)"
      unfolding d using st by (cases v) simp_all
    moreover have "j = length p - 1" using True by simp
    ultimately show ?thesis
      using Suc.prems(2) True st by (intro Suc.prems(1) [of ws]) simp_all
  next
    case False
    then have j: "j + 1 < length p" using Suc.prems(3) by simp
    obtain ws' where s: "ws_loop_step malloc used ws (p ! j XOR key ! (j mod 4)) = (ws', [], Accept)"
      "ws_at op key p (j + 1) ws'" "ws_offset ws' = ws_offset ws + 1" "ws_close_sent ws' = ws_close_sent ws"
      by (rule ws_data_more [OF Suc.prems(2) j Suc.prems(4,5) refl])
    have k: "k = length p - (j + 1)" using Suc.hyps(2) by simp
    obtain ws1 where i: "feed (ws_loop_step malloc used) ws' (drop (j + 1) (rfc_mask key p)) =
        ws_loop_step malloc used ws1 (last (rfc_mask key p))"
      "ws_at op key p (length p - 1) ws1" "ws_offset ws1 + 1 = ws_offset ws' + (length p - (j + 1))"
      "ws_close_sent ws1 = ws_close_sent ws'"
      using Suc.hyps(1) [OF k _ s(2) j Suc.prems(4,5)] by blast
    have "feed (ws_loop_step malloc used) ws (drop j (rfc_mask key p)) =
        ws_loop_step malloc used ws1 (last (rfc_mask key p))"
      using rfc_mask_Cons [of j p key] Suc.prems(3) s(1) i(1) by (simp split: prod.splits)
    then show ?thesis using Suc.prems(1) i s j by simp
  qed
qed simp

lemma ws_read_frame:
  assumes r: "ws_ready ws" and k: "length key = 4" and p: "p \<noteq> []" "length p < 2 ^ 31"
    and m: "malloc_ok malloc"
  obtains ws1 where "length (ws_frame_payload ws1) = 10" "length (ws_key_val ws1) = 4"
    "ws_key_pos ws1 = 0" "ws_data_pos ws1 = 0" "ws_step ws1 = WS_STEP_START" "ws_frame_pos ws1 = -1"
    "ws_offset ws1 + 1 = ws_offset ws + length (rfc_client_frame op key p)"
    "ws_close_sent ws1 = ws_close_sent ws"
    "feed (ws_loop_step malloc used) ws (rfc_client_frame op key p) =
      (if op AND 0x0F = 0x8
       then (ws1, (if \<not> ws_close_sent ws then [WS_write [0x88, 0x00]] else []) @ [WS_shutdown], Reject)
       else and_then (ws1, ws_reports op p, Accept) (ws_frame_done used))"
proof -
  obtain hdr where hdr: "hdr = op # rfc_length 0x80 (length p)" by simp
  obtain s1 where s1: "feed (ws_loop_step malloc used) ws hdr = (s1, [], Accept)"
    "ws_keying op (length p) s1" "ws_offset s1 = ws_offset ws + length hdr" "ws_close_sent s1 = ws_close_sent ws"
    using ws_read_header [OF r p(2), of malloc used op] by (auto simp: yields_def ws_header_read_def hdr split: prod.splits)
  obtain s2 where s2: "feed (ws_loop_step malloc used) s1 key = (s2, [], Accept)"
    "ws_reading op (length p) key s2" "ws_offset s2 = ws_offset s1 + 4" "ws_close_sent s2 = ws_close_sent s1"
    using ws_read_key [OF s1(2) k, of malloc used] by (auto simp: yields_def ws_key_read_def split: prod.splits)
  have at: "ws_at op key p 0 s2" using s2(2,3) k by (simp add: ws_reading_def ws_at_def)
  have p0: "0 < length p" using p(1) by simp
  obtain s3 where s3: "feed (ws_loop_step malloc used) s2 (drop 0 (rfc_mask key p)) =
      ws_loop_step malloc used s3 (last (rfc_mask key p))"
    "ws_at op key p (length p - 1) s3" "ws_offset s3 + 1 = ws_offset s2 + (length p - 0)"
    "ws_close_sent s3 = ws_close_sent s2"
    by (rule ws_read_payload [OF at p0 p(2) m, of used])
  have l: "last (rfc_mask key p) = p ! (length p - 1) XOR key ! ((length p - 1) mod 4)"
    using p0 by (simp add: rfc_mask_def last_map)
  have p1: "length p - 1 + 1 = length p" using p0 by simp
  have "rfc_client_frame op key p = hdr @ key @ rfc_mask key p"
    by (simp add: rfc_client_frame_def hdr)
  then have f: "feed (ws_loop_step malloc used) ws (rfc_client_frame op key p) =
      ws_loop_step malloc used s3 (last (rfc_mask key p))"
    and len: "length (rfc_client_frame op key p) = length hdr + 4 + length p"
    using s1(1) s2(1) s3(1) k by (simp_all add: feed_append split: prod.splits)
  obtain ws1 where w: "length (ws_frame_payload ws1) = 10" "length (ws_key_val ws1) = 4"
    "ws_key_pos ws1 = 0" "ws_data_pos ws1 = 0" "ws_step ws1 = WS_STEP_START" "ws_frame_pos ws1 = -1"
    "ws_offset ws1 = ws_offset s3" "ws_close_sent ws1 = ws_close_sent s3"
    "ws_loop_step malloc used s3 (last (rfc_mask key p)) =
      (if op AND 0x0F = 0x8
       then (ws1, (if \<not> ws_close_sent s3 then [WS_write [0x88, 0x00]] else []) @ [WS_shutdown], Reject)
       else and_then (ws1, ws_reports op p, Accept) (ws_frame_done used))"
    by (rule ws_data_last [OF s3(2) p1 p(2) m l, of used])
  show thesis
    by (rule that [of ws1]) (use w s1 s2 s3 f len p0 in simp_all)
qed

section \<open>Properties\<close>

text \<open>The reports of a list of frames (opcode, key, payload).\<close>

definition ws_frames_bytes :: "(byte \<times> byte list \<times> byte list) list \<Rightarrow> byte list" where
  "ws_frames_bytes fs = concat (map (\<lambda>(op, key, p). rfc_client_frame op key p) fs)"

definition ws_frames_reports :: "(byte \<times> byte list \<times> byte list) list \<Rightarrow> ws_event list" where
  "ws_frames_reports fs = concat (map (\<lambda>(op, key, p). ws_reports op p) fs)"

definition ws_client_frames :: "(byte \<times> byte list \<times> byte list) list \<Rightarrow> bool" where
  "ws_client_frames fs \<longleftrightarrow>
     (\<forall>(op, key, p) \<in> set fs. op AND 0x0F \<noteq> 0x8 \<and> length key = 4 \<and> p \<noteq> [] \<and> length p < 2 ^ 31)"

lemma ws_feed_frames:
  assumes "ws_client_frames fs" "fs \<noteq> []" "malloc_ok malloc" "ws_ready ws"
    "ws_offset ws + length (ws_frames_bytes fs) = used"
  shows "\<exists>ws'. feed (ws_loop_step malloc used) ws (ws_frames_bytes fs) = (ws', ws_frames_reports fs, Reject) \<and>
     ws_ready ws' \<and> ws_offset ws' = 0 \<and> ws_close_sent ws' = ws_close_sent ws"
  using assms
proof (induction fs arbitrary: ws)
  case (Cons f fs)
  obtain op key p where f: "f = (op, key, p)" by (cases f)
  have ok: "op AND 0x0F \<noteq> 0x8" "length key = 4" "p \<noteq> []" "length p < 2 ^ 31" "ws_client_frames fs"
    using Cons.prems(1) by (auto simp: ws_client_frames_def f)
  obtain ws1 where w: "length (ws_frame_payload ws1) = 10" "length (ws_key_val ws1) = 4"
    "ws_key_pos ws1 = 0" "ws_data_pos ws1 = 0" "ws_step ws1 = WS_STEP_START" "ws_frame_pos ws1 = -1"
    "ws_offset ws1 + 1 = ws_offset ws + length (rfc_client_frame op key p)"
    "ws_close_sent ws1 = ws_close_sent ws"
    "feed (ws_loop_step malloc used) ws (rfc_client_frame op key p) =
      (if op AND 0x0F = 0x8
       then (ws1, (if \<not> ws_close_sent ws then [WS_write [0x88, 0x00]] else []) @ [WS_shutdown], Reject)
       else and_then (ws1, ws_reports op p, Accept) (ws_frame_done used))"
    by (rule ws_read_frame [OF Cons.prems(4) ok(2-4) Cons.prems(3), of op used])
  have bs: "ws_frames_bytes (f # fs) = rfc_client_frame op key p @ ws_frames_bytes fs"
    "ws_frames_reports (f # fs) = ws_reports op p @ ws_frames_reports fs"
    by (simp_all add: ws_frames_bytes_def ws_frames_reports_def f)
  show ?case
  proof (cases fs)
    case Nil
    then have "ws_offset ws1 + 1 = used" using Cons.prems(5) w(7) bs by (simp add: ws_frames_bytes_def)
    then show ?thesis
      using w ok(1) Nil
      by (auto simp: f ws_frames_bytes_def ws_frames_reports_def ws_frame_done_def refuse_def
          and_then_events ws_ready_def)
  next
    case (Cons g gs)
    obtain ws2 where ws2: "ws2 = ws1\<lparr>ws_offset := ws_offset ws1 + 1, ws_frame_pos := 0\<rparr>" by simp
    have "ws_frames_bytes fs \<noteq> []"
      using Cons by (cases g) (simp add: ws_frames_bytes_def rfc_client_frame_def)
    then have "0 < length (ws_frames_bytes fs)" by simp
    then have "ws_offset ws1 + 1 \<noteq> used"
      using Cons.prems(5) w(7) unfolding bs(1) length_append by linarith
    then have one: "feed (ws_loop_step malloc used) ws (rfc_client_frame op key p) =
        (ws2, ws_reports op p, Accept)"
      using w(6,9) ok(1) by (simp add: ws_frame_done_def ws_next_def accept_def and_then_events ws2)
    have "ws_ready ws2" "ws_offset ws2 + length (ws_frames_bytes fs) = used"
      using w Cons.prems(5) by (simp_all add: ws2 ws_ready_def bs)
    then obtain ws' where "feed (ws_loop_step malloc used) ws2 (ws_frames_bytes fs) = (ws', ws_frames_reports fs, Reject)"
      "ws_ready ws'" "ws_offset ws' = 0" "ws_close_sent ws' = ws_close_sent ws2"
      using Cons.IH [OF ok(5) _ Cons.prems(3)] Cons by auto
    then show ?thesis
      using feed_append_Accept [OF one] w(8) by (auto simp: bs ws2)
  qed
qed simp


lemma ws_step_offset:
  assumes "ws_loop_step malloc used ws c = (ws', ev, Accept)"
  shows "ws_offset ws' = ws_offset ws + 1"
proof -
  have store: "ws_offset s = ws_offset w" if "ws_store x w = (s, e, Accept)" for x w s e
    using that by (auto simp: ws_store_def check_def accept_def and_then_def split: option.splits if_splits)
  have byte: "ws_offset s = ws_offset w" if "ws_payload_byte x w = (s, e, Accept)" for x w s e
    using that by (auto simp: ws_payload_byte_def check_def accept_def and_then_def split: if_splits)
  have nxt: "ws_offset s = ws_offset w + 1" if "ws_next w = (s, e, v)" for w s e v
    using that by (auto simp: ws_next_def accept_def)
  have fd: "ws_offset s = ws_offset w + 1" if "ws_frame_done used w = (s, e, Accept)" for w s e
    using that nxt by (auto simp: ws_frame_done_def refuse_def split: if_splits)
  have fe: "ws_offset s = ws_offset w + 1" if "ws_frame_end used w = (s, e, Accept)" for w s e
    using that fd store
    by (auto simp: ws_frame_end_def and_then_def Let_def ws_set_extended_length_payload
        split: prod.splits if_splits dest!: fd store)
  have db: "ws_offset s = ws_offset w + 1" if "ws_data_byte malloc used x w = (s, e, Accept)" for x w s e
    using that by (auto simp: ws_data_byte_def and_then_def Let_def ws_set_extended_length_payload split: prod.splits if_splits dest!: fe nxt store)
  show ?thesis
    using assms
    by (auto simp: ws_loop_step_def ws_length_byte_def refuse_def and_then_def check_def Let_def
        ws_set_extended_length_payload split: ws_payload_step.splits prod.splits if_splits dest!: db nxt byte)
qed

lemma ws_feed_offset:
  "feed (ws_loop_step malloc used) ws bs = (ws', ev, Accept) \<Longrightarrow> ws_offset ws' = ws_offset ws + length bs"
proof (induction bs arbitrary: ws ev)
  case (Cons b bs)
  obtain s e v where st: "ws_loop_step malloc used ws b = (s, e, v)" by (cases "ws_loop_step malloc used ws b")
  with Cons.prems have v: "v = Accept" by (auto split: if_splits prod.splits)
  with Cons.prems st obtain e' where "feed (ws_loop_step malloc used) s bs = (ws', e', Accept)"
    by (auto split: prod.splits)
  with Cons.IH ws_step_offset st v show ?case by fastforce
qed simp

text \<open>C13: a read that holds whole client frames (no close frame, no empty payload) is taken apart into
  exactly their payloads, unmasked and in order; pings and pongs are silent. The function returns ready
  for the next read, at its start.\<close>

theorem ws_frames_delivered:
  assumes "ws_client_frames fs" and "fs \<noteq> []" and "malloc_ok malloc" and "ws_ready ws" and "ws_offset ws = 0"
  shows "\<exists>ws'. ape_ws_process_frame malloc (ws_frames_bytes fs) ws = (ws', ws_frames_reports fs, Reject) \<and>
     ws_ready ws' \<and> ws_offset ws' = 0 \<and> ws_close_sent ws' = ws_close_sent ws"
  using ws_feed_frames [OF assms(1-4)] assms(5) by (simp add: ape_ws_process_frame_def)

text \<open>A state for the examples: what \<open>ape_server_http_ready\<close> sets up in a block of zeros.\<close>

definition ws_zero :: websocket_state where
  "ws_zero = ws_init
     \<lparr>ws_data = None, ws_offset = 0, ws_error = 0, ws_key_val = [0, 0, 0, 0], ws_key_pos = 0,
      ws_frame_payload = replicate 10 0, ws_step = WS_STEP_END, ws_data_pos = 0, ws_data_inkey = 0,
      ws_frame_pos = 0, ws_close_sent = False\<rparr>"

lemma ws_zero_ready: "ws_ready ws_zero" "ws_offset ws_zero = 0"
  by (simp_all add: ws_zero_def ws_init_def ws_ready_def ws_set_extended_length_payload)

definition zero_malloc :: c_malloc where
  "zero_malloc n = Some (replicate n 0)"

lemma zero_malloc_ok: "malloc_ok zero_malloc"
  by (simp add: malloc_ok_def zero_malloc_def)

theorem ws_frames_delivered_witness:
  "\<exists>ws'. ape_ws_process_frame zero_malloc
       (ws_frames_bytes [(0x81, [1, 2, 3, 4], bytes ''hello''), (0x89, [5, 6, 7, 8], bytes ''x'')]) ws_zero =
     (ws', [WS_on_frame (bytes ''hello'')], Reject) \<and> ws_ready ws' \<and> ws_offset ws' = 0 \<and>
     ws_close_sent ws' = ws_close_sent ws_zero"
proof -
  have r: "ws_frames_reports [(0x81, [1, 2, 3, 4], bytes ''hello''), (0x89, [5, 6, 7, 8], bytes ''x'')] =
      [WS_on_frame (bytes ''hello'')]"
    by (simp add: ws_frames_reports_def ws_reports_def)
  show ?thesis
    using ws_frames_delivered
        [of "[(0x81, [1, 2, 3, 4], bytes ''hello''), (0x89, [5, 6, 7, 8], bytes ''x'')]" zero_malloc ws_zero]
    unfolding r by (simp add: ws_client_frames_def zero_malloc_ok ws_zero_ready)
qed

text \<open>C33: when a read ends inside a frame, the offset stays at the read's length although the next read
  is put at the start of the buffer: its first bytes are skipped, and a read that is not longer than the
  one before is lost as a whole.\<close>

theorem ws_next_read_lost:
  assumes "ape_ws_process_frame malloc buf ws = (ws', ev, Accept)" and "ws_offset ws \<le> length buf"
  shows "ws_offset ws' = length buf \<and>
     (\<forall>buf2 m. length buf2 \<le> length buf \<longrightarrow> ape_ws_process_frame m buf2 ws' = (ws', [], Accept))"
  using ws_feed_offset [of malloc "length buf" ws "drop (ws_offset ws) buf" ws' ev] assms
  by (simp add: ape_ws_process_frame_def)

theorem ws_next_read_lost_witness:
  "\<exists>ws'. ape_ws_process_frame zero_malloc [0x81, 0x85, 1, 2, 3, 4] ws_zero = (ws', [], Accept) \<and>
     ape_ws_process_frame zero_malloc (rfc_mask [1, 2, 3, 4] (bytes ''hello'')) ws' = (ws', [], Accept)"
proof -
  obtain s1 where s1: "feed (ws_loop_step zero_malloc 6) ws_zero [0x81, 0x85] = (s1, [], Accept)"
    "ws_keying 0x81 5 s1"
    using ws_read_short [OF ws_zero_ready(1), where n = 5 and malloc = zero_malloc and used = 6 and op = "0x81"]
    by (auto simp: yields_def ws_header_read_def rfc_length_def simp del: feed.simps split: prod.splits)
  obtain s2 where s2: "feed (ws_loop_step zero_malloc 6) s1 [1, 2, 3, 4] = (s2, [], Accept)"
    using ws_read_key [OF s1(2), where key = "[1, 2, 3, 4]" and malloc = zero_malloc and used = 6]
    by (auto simp: yields_def ws_key_read_def simp del: feed.simps split: prod.splits)
  have l: "length [0x81, 0x85, 1, 2, 3, 4 :: byte] = 6" by simp
  have r: "ape_ws_process_frame zero_malloc [0x81, 0x85, 1, 2, 3, 4] ws_zero = (s2, [], Accept)"
    using feed_append_Accept [OF s1(1) s2]
    unfolding ape_ws_process_frame_def l ws_zero_ready(2) by (simp del: feed.simps)
  show ?thesis
    using ws_next_read_lost [OF r] r by (simp add: ws_zero_ready)
qed

text \<open>C20: a frame whose length is zero is not ended by its key: the next byte is taken as payload, and the
  one after it is stored behind the one-byte block that was allocated.\<close>

theorem ws_empty_frame_overflow:
  assumes "ws_ready ws" and "ws_offset ws = 0" and "malloc_ok malloc" and "length key = 4"
  shows "\<exists>ws'. ape_ws_process_frame malloc (rfc_client_frame op key [] @ c0 # c1 # rest) ws = (ws', [], Abort)"
proof -
  obtain used where used: "used = length (rfc_client_frame op key [] @ c0 # c1 # rest)" by simp
  obtain s1 where s1: "feed (ws_loop_step malloc used) ws (op # rfc_length 0x80 0) = (s1, [], Accept)"
    "ws_keying op 0 s1" "0 < ws_offset s1"
    using ws_read_short [OF assms(1), of 0 malloc used op]
    by (auto simp: yields_def ws_header_read_def simp del: feed.simps split: prod.splits)
  obtain s2 where s2: "feed (ws_loop_step malloc used) s1 key = (s2, [], Accept)"
    "ws_reading op 0 key s2" "0 < ws_offset s2"
    using ws_read_key [OF s1(2) assms(4), of malloc used] s1(3)
    by (auto simp: yields_def ws_key_read_def simp del: feed.simps split: prod.splits)
  have hd: "feed (ws_loop_step malloc used) ws ((op # rfc_length 0x80 0) @ key) = (s2, [], Accept)"
    using feed_append_Accept [OF s1(1) s2(1)] by simp
  obtain b where b: "malloc 1 = Some b" "length b = 1" using assms(3) unfolding malloc_ok_def by metis
  obtain s3 where s3: "ws_loop_step malloc used s2 c0 = (s3, [], Accept)"
    "ws_step s3 = WS_STEP_DATA" "ws_data_pos s3 \<noteq> 0" "ws_data_inkey s3 = 1"
    "\<exists>d. ws_data s3 = Some d \<and> length d = 1"
    using s2 b
    by (auto simp: ws_reading_def ws_loop_step_def ws_data_byte_def ws_store_def check_def accept_def Let_def
        ws_next_def ws_extended_length_payload ws_set_extended_length_payload)
  obtain s4 where "ws_loop_step malloc used s3 c1 = (s4, [], Abort)"
    using s3 by (auto simp: ws_loop_step_def ws_data_byte_def ws_store_def check_def Let_def)
  then have "feed (ws_loop_step malloc used) s2 (c0 # c1 # rest) = (s4, [], Abort)"
    using s3(1) by simp
  from feed_append_Accept [OF hd this] show ?thesis
    by (auto simp: ape_ws_process_frame_def assms(2) rfc_client_frame_def rfc_mask_def used)
qed

theorem ws_empty_frame_overflow_witness:
  "\<exists>ws'. ape_ws_process_frame zero_malloc (rfc_client_frame 0x88 [1, 2, 3, 4] [] @ bytes ''GET'') ws_zero =
     (ws', [], Abort)"
  using ws_empty_frame_overflow [OF ws_zero_ready zero_malloc_ok, where key = "[1, 2, 3, 4]" and op = "0x88" and ?c0.0 = 71 and ?c1.0 = 69 and rest = "[84]"]
  by simp

lemma ws_compute_key_rfc:
  assumes "length (sc_buffer junk) = 64"
  shows "ape_ws_compute_key junk key = (if length key \<le> 32 then Some (rfc_base64 (fips_sha1 (key @ ws_guid))) else None)"
proof -
  have "length (key @ ws_guid) < 2 ^ 32" if "length key \<le> 32" using that by (simp add: ws_guid_def)
  then show ?thesis
    using sha1_csum_fips [OF assms] by (auto simp: ape_ws_compute_key_def base64_encode_def base64_encode_b_rfc)
qed

text \<open>what \<open>ape_ws_write\<close> puts on the wire for fewer than 4 GiB is one unmasked RFC 6455 frame with
  the data; \<open>ape_ws_compute_key\<close> is the accept value of the opening handshake, and refuses keys longer
  than its buffer was made for.\<close>

theorem ws_server_side:
  assumes "length data < 2 ^ 32" and "length (sc_buffer junk) = 64"
  shows "concat (ape_ws_write data) = rfc_server_frame 0x81 data \<and>
     ape_ws_compute_key junk key =
       (if length key \<le> 32 then Some (rfc_base64 (fips_sha1 (key @ ws_guid))) else None)"
proof
  have a: "(word_of_nat (length data) :: byte) AND 0x7F = word_of_nat (length data)" if "length data \<le> 125"
    using and_7f [of "word_of_nat (length data)"] that by (simp add: unat_word_of_nat)
  have b: "be_bytes 8 (length data) = [0, 0, 0, 0] @ be_bytes 4 (length data)"
    using be_bytes_add [of 4 4 "length data"] be_bytes_4 [of 0] assms(1) by simp
  show "concat (ape_ws_write data) = rfc_server_frame 0x81 data"
    using a b assms(1) by (auto simp: ape_ws_write_def rfc_server_frame_def rfc_length_def Let_def)
  show "ape_ws_compute_key junk key =
      (if length key \<le> 32 then Some (rfc_base64 (fips_sha1 (key @ ws_guid))) else None)"
    by (rule ws_compute_key_rfc [OF assms(2)])
qed

theorem ws_server_side_witness:
  "concat (ape_ws_write (bytes ''hello'')) = [0x81, 5] @ bytes ''hello'' \<and>
   ape_ws_compute_key \<lparr>sc_total0 = 0, sc_total1 = 0, sc_state = (0, 0, 0, 0, 0), sc_buffer = replicate 64 0\<rparr>
     (bytes ''dGhlIHNhbXBsZSBub25jZQ=='') =
   Some (rfc_base64 (fips_sha1 (bytes ''dGhlIHNhbXBsZSBub25jZQ=='' @ ws_guid)))"
  using ws_server_side [of "bytes ''hello''"
      "\<lparr>sc_total0 = 0, sc_total1 = 0, sc_state = (0, 0, 0, 0, 0), sc_buffer = replicate 64 0\<rparr>"
      "bytes ''dGhlIHNhbXBsZSBub25jZQ==''"]
  by (simp add: rfc_server_frame_def rfc_length_def)

end
