(* ===== verification/Server.thy ===== *)
theory Server
  imports Json_Tree Hash Base64 Array Websocket Http_Parser Command
begin

text \<open>
  The server's connections: \<^verbatim>\<open>ape_server.c\<close>. The record \<open>server\<close> is one client's structure with the memory
  and the globals it works on. \<open>ape_server_on_connect\<close> sets it up; \<open>sv_on_read\<close> is what the socket calls with
  the bytes of a read: first \<open>ape_server_on_read\<close>, which drives \<^verbatim>\<open>Http_Parser\<close> and its callback (buffers of
  \<^verbatim>\<open>Buffer\<close>, a header table of \<^verbatim>\<open>Array\<close>, a parser of \<^verbatim>\<open>Json_Parser\<close>), and after an upgrade the frame machine
  of \<^verbatim>\<open>Websocket\<close>, whose frames go to the JSON parser with the tree callback of \<^verbatim>\<open>Json_Tree\<close> and to the
  commands of \<^verbatim>\<open>Command\<close>. The result \<open>None\<close> is undefined behaviour (a null or dangling pointer, an uninitialised
  read) or a command that does not return. What leaves the connection is the list \<open>sv_out\<close>.
\<close>

section \<open>A connection\<close>

datatype ape_transport_t = APE_TRANSPORT_LP | APE_TRANSPORT_WS | APE_TRANSPORT_FT | APE_TRANSPORT_NU

definition APE_TRANSPORT_QS_ISJSON :: "ape_transport_t \<Rightarrow> bool" where
  "APE_TRANSPORT_QS_ISJSON t \<longleftrightarrow> t \<noteq> APE_TRANSPORT_FT \<and> t \<noteq> APE_TRANSPORT_NU"

text \<open>
  The parser of a client, with whether it has a callback; the context is \<open>None\<close> when there is none, or
  when it was a local variable of a function that has returned.
\<close>

record 'f client_json =
  cj_parser :: "'f json_context option json_parser"
  cj_callback :: bool

datatype read_callback = On_read_http | On_read_ws

text \<open>What the connection does to its surroundings: a request is reported with the path's buffer and the table.\<close>

datatype server_out =
    SO_write "byte list" | SO_shutdown | SO_request http_method addr "unit array_state" | SO_wsframe "byte list"

text \<open>
  The client's structure (\<open>cl_\<close>), and the memory and the globals it works on (\<open>sv_\<close>). \<open>None\<close> is a null
  pointer, or one that is not set: following either is undefined.
\<close>

record 'f server =
  cl_session :: "addr option"
  cl_ws_state :: "websocket_state option"
  cl_parser :: http_parser
  cl_method :: http_method
  cl_transport :: ape_transport_t
  cl_path :: "addr option"
  cl_list :: "pool_list option"
  cl_tkey :: "addr option"
  cl_tval :: "addr option"
  cl_json :: "'f client_json option"
  cl_on_read :: read_callback
  sv_bufs :: bheap
  sv_cells :: "unit array_heap"
  sv_items :: "'f json_heap"
  sv_global :: ape_global
  sv_out :: "server_out list"

text \<open>
  The surroundings: the system, the C library and its allocations, what \<open>malloc\<close> leaves in a WebSocket
  state and the stack in a SHA-1 context, whether the socket is online, and the client's number.
\<close>

record 'f server_env =
  en_os :: ape_os
  en_libm :: "'f json_libm"
  en_alloc :: "string \<Rightarrow> nat \<Rightarrow> bool"
  en_point :: byte
  en_malloc :: c_malloc
  en_sha :: sha1_context
  en_ws :: websocket_state
  en_online :: "'f server \<Rightarrow> bool"
  en_client :: nat

definition sv_write :: "byte list list \<Rightarrow> 'f server \<Rightarrow> 'f server" where
  "sv_write bss s = s\<lparr>sv_out := sv_out s @ map SO_write bss\<rparr>"

text \<open>The calls on the client's buffers and on its table.\<close>

definition sv_buf :: "addr option \<Rightarrow> (buffer \<Rightarrow> buffer option) \<Rightarrow> 'f server \<Rightarrow> 'f server option" where
  "sv_buf p f s = Option.bind p (\<lambda>a. map_option (\<lambda>bs. s\<lparr>sv_bufs := bs\<rparr>) (buf_upd a f (sv_bufs s)))"

definition sv_array :: "'f server \<Rightarrow> unit array_state option" where
  "sv_array s = map_option (\<lambda>l. \<lparr>as_list = l, as_cells = sv_cells s, as_bufs = sv_bufs s\<rparr>) (cl_list s)"

definition sv_set_array :: "'f server \<Rightarrow> unit array_state \<Rightarrow> 'f server" where
  "sv_set_array s st = s\<lparr>cl_list := Some (as_list st), sv_cells := as_cells st, sv_bufs := as_bufs st\<rparr>"

definition sv_free_buf :: "addr option \<Rightarrow> 'f server \<Rightarrow> 'f server option" where
  "sv_free_buf p s = Option.bind p (\<lambda>a. map_option (\<lambda>bs. s\<lparr>sv_bufs := bs\<rparr>) (buffer_destroy (Some a) (sv_bufs s)))"

section \<open>Transports\<close>

definition ape_transports_s :: "(ape_transport_t \<times> byte list) list" where
  "ape_transports_s =
     [(APE_TRANSPORT_LP, bytes ''/1/''), (APE_TRANSPORT_WS, bytes ''/2/''), (APE_TRANSPORT_FT, bytes ''/static/'')]"

text \<open>
  A prefix of three bytes is compared as the lower three bytes of a 32-bit word, of which all four are
  read, a longer one with \<open>strncmp\<close>; with no zero in the prefix that is the comparison of the bytes.
\<close>

fun transport_loop :: "(ape_transport_t \<times> byte list) list \<Rightarrow> buffer \<Rightarrow> (ape_transport_t \<times> buffer) option" where
  "transport_loop [] path = Some (APE_TRANSPORT_NU, path)"
| "transport_loop ((t, p) # ts) path =
     (if buf_used path \<noteq> 0 \<and> buf_used path - 1 < length p then transport_loop ts path
      else Option.bind (buf_bytes (if length p = 3 then 4 else length p) path) (\<lambda>bs.
        if take (length p) bs = p then Some (t, path\<lparr>buf_pos := word_of_nat (length p)\<rparr>)
        else transport_loop ts path))"

definition ape_get_transport :: "buffer \<Rightarrow> (ape_transport_t \<times> buffer) option" where
  "ape_get_transport path =
     (if buf_data path = None then Some (APE_TRANSPORT_NU, path)
      else Option.bind (peek path 0) (\<lambda>c.
        if c = 0 \<or> c \<noteq> 47 then Some (APE_TRANSPORT_NU, path) else transport_loop ape_transports_s path))"

section \<open>The upgrade to a WebSocket\<close>

definition request_header :: "byte list \<Rightarrow> 'f server \<Rightarrow> addr option option" where
  "request_header name s =
     Option.bind (sv_array s) (\<lambda>st.
     Option.bind (ape_array_lookup name st) (\<lambda>r.
     case r of
       None \<Rightarrow> Some None
     | Some (Ptr_Buf a) \<Rightarrow> Some (Some a)
     | Some (Ptr_Data _) \<Rightarrow> None))"

definition is_websocket :: "addr option \<Rightarrow> 'f server \<Rightarrow> bool option" where
  "is_websocket upgrade s =
     (case upgrade of
        None \<Rightarrow> Some False
      | Some a \<Rightarrow>
          Option.bind (buf_get (sv_bufs s) a) (\<lambda>b.
          if buf_used b = 10 then map_option ((=) (bytes '' websocket'')) (buf_bytes 10 b) else Some False))"

text \<open>
  The tokens of the protocol header are only compared when another serialisation is compiled in: what
  is left of the \<open>strtok_r\<close> loop is the zero it writes over the separator behind each token, in the
  string that begins at the second byte.
\<close>

definition strtok_delim :: "byte \<Rightarrow> bool" where
  "strtok_delim c \<longleftrightarrow> c = 44 \<or> c = 32"

fun strtok_all :: "bool \<Rightarrow> byte list \<Rightarrow> byte list" where
  "strtok_all token [] = []"
| "strtok_all token (c # cs) =
     (if strtok_delim c then (if token then 0 else c) # strtok_all False cs else c # strtok_all True cs)"

definition strtok_proto :: "buffer \<Rightarrow> buffer option" where
  "strtok_proto b =
     Option.bind (buf_data b) (\<lambda>block.
     Option.bind (strlen_from 0 (drop 1 block)) (\<lambda>n.
     Option.bind (buf_bytes (n + 1) b) (\<lambda>bs. buf_write 1 (strtok_all False (tl bs)) b)))"

definition WEBSOCKET_HARDCODED_HEADERS :: "byte list" where
  "WEBSOCKET_HARDCODED_HEADERS =
     bytes ''HTTP/1.1 101 Switching Protocols'' @ [13, 10] @ bytes ''Upgrade: websocket'' @ [13, 10] @
     bytes ''Connection: Upgrade'' @ [13, 10]"

definition upgrade_response :: "byte list \<Rightarrow> byte list list" where
  "upgrade_response ws_accept =
     [WEBSOCKET_HARDCODED_HEADERS, bytes ''Sec-WebSocket-Protocol: json.ape'' @ [13, 10],
      bytes ''Sec-WebSocket-Accept: '', ws_accept,
      [13, 10] @ bytes ''Sec-WebSocket-Origin: 127.0.0.1'' @ [13, 10, 13, 10]]"

text \<open>The key's length is \<open>used - 1\<close>, which is no small number for an empty value; a refused key gives a null pointer to \<open>strlen\<close>.\<close>

definition http_upgrade :: "'f server_env \<Rightarrow> addr \<Rightarrow> 'f server \<Rightarrow> 'f server option" where
  "http_upgrade env ws_key s =
     Option.bind (request_header (bytes ''Sec-WebSocket-Protocol'') s) (\<lambda>ws_proto.
     Option.bind
       (case ws_proto of
          None \<Rightarrow> Some s
        | Some a \<Rightarrow> Option.bind (sv_buf (Some a) (buffer_append_char 0) s) (sv_buf (Some a) strtok_proto)) (\<lambda>s.
     Option.bind (buf_get (sv_bufs s) ws_key) (\<lambda>k.
     if buf_used k = 0 then None
     else
       Option.bind (buf_bytes (buf_used k) k) (\<lambda>key.
       Option.bind (ape_ws_compute_key (en_sha env) (tl key)) (\<lambda>ws_computed_key.
       Some ((sv_write (upgrade_response ws_computed_key) s)
               \<lparr>cl_on_read := On_read_ws, cl_ws_state := Some (ws_init (en_ws env))\<rparr>))))))"

text \<open>The handling of a request without an upgrade: only an unknown transport and a file are handled.\<close>

definition http_request :: "'f server \<Rightarrow> 'f server option" where
  "http_request s =
     (if cl_transport s = APE_TRANSPORT_NU \<or> cl_transport s = APE_TRANSPORT_FT then
        Option.bind (sv_array s) (\<lambda>st.
        Option.bind (cl_path s) (\<lambda>path.
        let s = s\<lparr>sv_out := sv_out s @ [SO_request (cl_method s) path st], cl_parser := http_parser_reset,
                  cl_method := HTTP_GET, cl_transport := APE_TRANSPORT_NU\<rparr>
        in Option.bind (ape_array_destroy st) (\<lambda>(cells, bufs).
           Option.bind (sv_free_buf (Some path) (s\<lparr>cl_list := None, sv_cells := cells, sv_bufs := bufs\<rparr>)) (\<lambda>s.
           Some (s\<lparr>cl_path := None\<rparr>)))))
      else Some s)"

definition ape_server_http_ready :: "'f server_env \<Rightarrow> 'f server \<Rightarrow> 'f server option" where
  "ape_server_http_ready env s =
     Option.bind (request_header (bytes ''host'') s) (\<lambda>host.
     Option.bind (request_header (bytes ''upgrade'') s) (\<lambda>upgrade.
     Option.bind (is_websocket upgrade s) (\<lambda>ws.
     if ws then
       Option.bind (request_header (bytes ''Sec-WebSocket-Key'') s) (\<lambda>ws_key.
       let s = s\<lparr>cl_transport := APE_TRANSPORT_WS\<rparr>
       in case ws_key of None \<Rightarrow> http_request s | Some k \<Rightarrow> http_upgrade env k s)
     else http_request s)))"

section \<open>The callback of the HTTP parser\<close>

definition server_json_env :: "'f server_env \<Rightarrow> bool \<Rightarrow> 'f json_context option json_env" where
  "server_json_env env callback =
     \<lparr>je_callback = (if callback then Some (json_tree_callback (en_libm env)) else None),
      je_alloc = en_alloc env, je_decimal_point = en_point env\<rparr>"

text \<open>A failure of \<open>new_JSON_parser\<close> leaves a null pointer.\<close>

definition new_client_json :: "'f server_env \<Rightarrow> bool \<Rightarrow> 'f json_context option \<Rightarrow> 'f client_json option" where
  "new_client_json env callback ctx =
     map_option (\<lambda>jc. \<lparr>cj_parser = jc, cj_callback = callback\<rparr>)
       (new_JSON_parser (server_json_env env callback) (Some http_json_config) ctx)"

text \<open>
  The parser with some characters: undefined if it is, or if it calls back into a context that is gone.
\<close>

definition client_json_feed ::
    "'f server_env \<Rightarrow> byte list \<Rightarrow> 'f client_json \<Rightarrow> ('f client_json \<times> verdict) option" where
  "client_json_feed env cs j =
     (case json_feed (server_json_env env (cj_callback j)) (cj_parser j) cs of
        (jc, ev, v) \<Rightarrow>
          if v = Abort \<or> cj_callback j \<and> ev \<noteq> [] \<and> jp_ctx jc = None then None
          else Some (j\<lparr>cj_parser := jc\<rparr>, v))"

text \<open>A character of the query or of the body; a refusal is only printed.\<close>

definition http_json_char :: "'f server_env \<Rightarrow> byte \<Rightarrow> 'f server \<Rightarrow> 'f server option" where
  "http_json_char env c s =
     (case cl_json s of
        None \<Rightarrow> Some s
      | Some j \<Rightarrow> map_option (\<lambda>(j, v). s\<lparr>cl_json := Some j\<rparr>) (client_json_feed env [c] j))"

definition sv_malloc_buf :: "nat \<Rightarrow> 'f server \<Rightarrow> addr \<times> 'f server" where
  "sv_malloc_buf n s = (let (a, bs) = buf_malloc n (sv_bufs s) in (a, s\<lparr>sv_bufs := bs\<rparr>))"

definition new_header :: "'f server \<Rightarrow> 'f server" where
  "new_header s =
     (let (k, s) = sv_malloc_buf 16 s; (v, s) = sv_malloc_buf 64 s in s\<lparr>cl_tkey := Some k, cl_tval := Some v\<rparr>)"

definition new_request :: "'f server \<Rightarrow> 'f server" where
  "new_request s =
     (let (p, s) = sv_malloc_buf 256 s; s = s\<lparr>cl_path := Some p\<rparr>
      in new_header (sv_set_array s (ape_array_new 16 (sv_cells s) (sv_bufs s))))"

definition path_end :: "'f server_env \<Rightarrow> 'f server \<Rightarrow> 'f server option" where
  "path_end env s =
     Option.bind (sv_buf (cl_path s) (buffer_append_char 0) s) (\<lambda>s.
     Option.bind (cl_path s) (\<lambda>p.
     Option.bind (buf_get (sv_bufs s) p) (\<lambda>b.
     Option.bind (ape_get_transport b) (\<lambda>(t, b).
     Option.bind (sv_buf (Some p) (\<lambda>_. Some b) s) (\<lambda>s.
     let s = s\<lparr>cl_transport := t\<rparr>
     in if APE_TRANSPORT_QS_ISJSON t then Some (s\<lparr>cl_json := new_client_json env False None\<rparr>) else Some s)))))"

text \<open>The callback always returns 1, and no case uses the step.\<close>

definition ape_http_callback :: "'f server_env \<Rightarrow> callback_type \<Rightarrow> int \<Rightarrow> 'f server \<Rightarrow> 'f server option" where
  "ape_http_callback env type value s =
     (case type of
        HTTP_METHOD \<Rightarrow>
          Some (new_request (s\<lparr>cl_method := (if value = 0 then HTTP_GET else if value = 1 then HTTP_POST else cl_method s)\<rparr>))
      | HTTP_PATH_CHAR \<Rightarrow> sv_buf (cl_path s) (buffer_append_char (word_of_int value)) s
      | HTTP_QS_CHAR \<Rightarrow>
          if cl_method s = HTTP_GET \<and> APE_TRANSPORT_QS_ISJSON (cl_transport s) then http_json_char env (word_of_int value) s
          else Some s
      | HTTP_HEADER_KEYC \<Rightarrow> sv_buf (cl_tkey s) (buffer_append_char (word_of_int value)) s
      | HTTP_HEADER_VALC \<Rightarrow> sv_buf (cl_tval s) (buffer_append_char (word_of_int value)) s
      | HTTP_BODY_CHAR \<Rightarrow>
          if APE_TRANSPORT_QS_ISJSON (cl_transport s) then http_json_char env (word_of_int value) s else Some s
      | HTTP_PATH_END \<Rightarrow> path_end env s
      | HTTP_HEADER_VAL \<Rightarrow>
          Option.bind (sv_array s) (\<lambda>st. Option.bind (cl_tkey s) (\<lambda>k. Option.bind (cl_tval s) (\<lambda>v.
          Option.bind (ape_array_add_b k v st) (\<lambda>st. Some (new_header (sv_set_array s st))))))
      | HTTP_READY \<Rightarrow>
          Option.bind (sv_free_buf (cl_tkey s) s) (\<lambda>s.
          Option.bind (sv_free_buf (cl_tval s) s) (ape_server_http_ready env))
      | _ \<Rightarrow> Some s)"

primrec http_callbacks :: "'f server_env \<Rightarrow> (callback_type \<times> int) list \<Rightarrow> 'f server \<Rightarrow> 'f server option" where
  "http_callbacks env [] s = Some s"
| "http_callbacks env (e # es) s = Option.bind (ape_http_callback env (fst e) (snd e) s) (http_callbacks env es)"

section \<open>The events of the socket\<close>

text \<open>
  The calls of the parser are made after its step: only the last one, at \<open>HTTP_READY\<close>, touches the parser.
\<close>

primrec ape_server_on_read :: "'f server_env \<Rightarrow> byte list \<Rightarrow> 'f server \<Rightarrow> 'f server option" where
  "ape_server_on_read env [] s = Some s"
| "ape_server_on_read env (c # cs) s =
     (case parse_http_char (cl_parser s) c of
        (p, ev, v) \<Rightarrow>
          Option.bind (http_callbacks env (http_strip ev) (s\<lparr>cl_parser := p\<rparr>)) (\<lambda>s.
          if v = Abort then None
          else if v = Reject then Some (s\<lparr>sv_out := sv_out s @ [SO_shutdown]\<rparr>)
          else if \<not> en_online env s then Some s
          else ape_server_on_read env cs s))"

text \<open>The client's memory and globals are those of the server; its new structure is set up.\<close>

definition ape_server_on_connect :: "'f server \<Rightarrow> 'f server" where
  "ape_server_on_connect s =
     s\<lparr>cl_session := None, cl_parser := http_parser_reset, cl_method := HTTP_GET, cl_transport := APE_TRANSPORT_NU,
       cl_path := None, cl_list := None, cl_tkey := None, cl_tval := None, cl_ws_state := None, cl_json := None,
       cl_on_read := On_read_http, sv_out := []\<rparr>"

definition ape_server_on_disconnect :: "'f server \<Rightarrow> 'f server option" where
  "ape_server_on_disconnect s =
     map_option (\<lambda>bs. s\<lparr>sv_bufs := bs, cl_path := None\<rparr>) (buffer_destroy (cl_path s) (sv_bufs s))"

section \<open>Frames\<close>

definition PATTERN_ERR_BAD_JSON :: "byte list" where
  "PATTERN_ERR_BAD_JSON = bytes ''[\"ERR\",0,[\"BAD_JSON\"]]''"

definition PATTERN_ERR_INTERNAL :: "byte list" where
  "PATTERN_ERR_INTERNAL = bytes ''[\"ERR\",0,[\"INTERNAL_ERROR\"]]''"

text \<open>
  The context is a local variable: it is gone when the function returns. A parser that was there
  before does not have it: the commands are then those of its \<open>head\<close>, which nothing has set.
\<close>

definition ws_frame_json :: "'f server_env \<Rightarrow> byte list \<Rightarrow> 'f server \<Rightarrow> ('f server \<times> addr option \<times> bool) option" where
  "ws_frame_json env data s =
     Option.bind (cl_json s) (\<lambda>j.
     Option.bind (client_json_feed env data j) (\<lambda>(j, v).
     let (jc, v) = (if v = Accept then (case JSON_parser_done (cj_parser j) of (jc, ev, v) \<Rightarrow> (jc, v)) else (cj_parser j, v));
         (head, items) =
           (case (if cj_callback j then jp_ctx jc else None) of
              None \<Rightarrow> (None, sv_items s)
            | Some cx \<Rightarrow> (cx_head cx, cx_heap cx));
         s = s\<lparr>cl_json := Some (j\<lparr>cj_parser := jc\<lparr>jp_ctx := None\<rparr>\<rparr>), sv_items := items\<rparr>
     in if v = Abort then None else Some (s, head, v = Accept)))"

definition ape_server_on_ws_frame :: "'f server_env \<Rightarrow> byte list \<Rightarrow> 'f server \<Rightarrow> 'f server option" where
  "ape_server_on_ws_frame env data s =
     (let s = (case cl_json s of
                 Some _ \<Rightarrow> s
               | None \<Rightarrow> s\<lparr>cl_json := new_client_json env True (Some (cx_start (sv_items s)))\<rparr>)
      in if cl_json s = None then Some (sv_write (ape_ws_write PATTERN_ERR_INTERNAL) s)
         else
           Option.bind (ws_frame_json env data s) (\<lambda>(s, head, ok).
           if \<not> ok then Some (sv_write (ape_ws_write PATTERN_ERR_BAD_JSON) s)
           else
             Option.bind (ape_cmd_process_multi (en_os env) (sv_items s) head (en_client env) (cl_session s, sv_global s))
               (\<lambda>(session, g).
             Some (s\<lparr>cl_session := session, sv_global := g, sv_out := sv_out s @ [SO_wsframe data]\<rparr>))))"

text \<open>The frame machine's calls, in their order.\<close>

primrec ws_events :: "'f server_env \<Rightarrow> ws_event list \<Rightarrow> 'f server \<Rightarrow> 'f server option" where
  "ws_events env [] s = Some s"
| "ws_events env (e # es) s =
     Option.bind
       (case e of
          WS_write bs \<Rightarrow> Some (sv_write [bs] s)
        | WS_shutdown \<Rightarrow> Some (s\<lparr>sv_out := sv_out s @ [SO_shutdown]\<rparr>)
        | WS_on_frame data \<Rightarrow> ape_server_on_ws_frame env data s) (ws_events env es)"

definition ws_on_read :: "'f server_env \<Rightarrow> byte list \<Rightarrow> 'f server \<Rightarrow> 'f server option" where
  "ws_on_read env buf s =
     Option.bind (cl_ws_state s) (\<lambda>ws.
     case ape_ws_process_frame (en_malloc env) buf ws of
       (ws, ev, v) \<Rightarrow> if v = Abort then None else ws_events env ev (s\<lparr>cl_ws_state := Some ws\<rparr>))"

text \<open>What the socket calls with the data it has read, and a connection's life.\<close>

definition sv_on_read :: "'f server_env \<Rightarrow> byte list \<Rightarrow> 'f server \<Rightarrow> 'f server option" where
  "sv_on_read env buf s =
     (case cl_on_read s of On_read_http \<Rightarrow> ape_server_on_read env buf s | On_read_ws \<Rightarrow> ws_on_read env buf s)"

primrec sv_reads :: "'f server_env \<Rightarrow> byte list list \<Rightarrow> 'f server \<Rightarrow> 'f server option" where
  "sv_reads env [] s = Some s"
| "sv_reads env (b # bs) s = Option.bind (sv_on_read env b s) (sv_reads env bs)"

declare split_paired_All [simp del] split_paired_Ex [simp del]

section \<open>A request in memory\<close>

text \<open>
  While a request is read: the path so far, the headers so far as a table, the key and the value so far,
  in live buffers that are nobody else's.
\<close>

definition request_mem ::
    "'f server \<Rightarrow> unit array_state \<Rightarrow> (addr \<times> nat) list \<Rightarrow> (paddr \<Rightarrow> unit slot) \<Rightarrow> addr \<Rightarrow> addr \<Rightarrow> addr \<Rightarrow>
     byte list \<Rightarrow> (byte list \<times> byte list) list \<Rightarrow> byte list \<Rightarrow> byte list \<Rightarrow> bool" where
  "request_mem s st bs \<sigma> pa ka va path tbl k v \<longleftrightarrow>
     cl_path s = Some pa \<and> cl_tkey s = Some ka \<and> cl_tval s = Some va \<and> sv_array s = Some st \<and>
     array_table st bs \<sigma> tbl \<and> array_fresh st \<sigma> pa path \<and> array_fresh st \<sigma> ka k \<and> array_fresh st \<sigma> va v \<and>
     distinct [pa, ka, va]"

definition request_at ::
    "'f server \<Rightarrow> byte list \<Rightarrow> (byte list \<times> byte list) list \<Rightarrow> byte list \<Rightarrow> byte list \<Rightarrow> bool" where
  "request_at s path tbl k v \<longleftrightarrow> (\<exists>st bs \<sigma> pa ka va. request_mem s st bs \<sigma> pa ka va path tbl k v)"

lemma request_atI: "request_mem s st bs \<sigma> pa ka va path tbl k v \<Longrightarrow> request_at s path tbl k v"
  unfolding request_at_def by blast

text \<open>All else.\<close>

definition sv_rest ::
    "'f server \<Rightarrow> addr option \<times> websocket_state option \<times> http_parser \<times> http_method \<times> ape_transport_t \<times>
      'f client_json option \<times> read_callback \<times> 'f json_heap \<times> ape_global \<times> server_out list" where
  "sv_rest s = (cl_session s, cl_ws_state s, cl_parser s, cl_method s, cl_transport s, cl_json s, cl_on_read s,
     sv_items s, sv_global s, sv_out s)"

lemma sv_rest_bufs [simp]: "sv_rest (s\<lparr>sv_bufs := bs\<rparr>) = sv_rest s"
  by (simp add: sv_rest_def)

lemma sv_array_simps [simp]:
  "sv_array (s\<lparr>sv_bufs := bs\<rparr>) = map_option (\<lambda>st. st\<lparr>as_bufs := bs\<rparr>) (sv_array s)"
  "sv_array (s\<lparr>cl_parser := p\<rparr>) = sv_array s" "sv_array (sv_set_array s st) = Some st"
  by (auto simp: sv_array_def sv_set_array_def option.map_comp comp_def)

lemma sv_array_bufs: "sv_array s = Some st \<Longrightarrow> as_bufs st = sv_bufs s \<and> as_cells st = sv_cells s \<and> cl_list s = Some (as_list st)"
  by (auto simp: sv_array_def)

text \<open>A change of one of the three buffers.\<close>

lemma array_fresh_upd:
  assumes "array_fresh st \<sigma> a xs" "buf_get bufs = (buf_get (as_bufs st))(x := b)" "x \<noteq> a"
  shows "array_fresh (st\<lparr>as_bufs := bufs\<rparr>) \<sigma> a xs"
  using assms by (auto simp: array_fresh_def)

lemma request_buf:
  assumes r: "request_mem s st bs \<sigma> pa ka va path tbl k v" and a: "array_fresh st \<sigma> a xs"
    and f: "\<forall>b. holds b xs \<longrightarrow> (\<exists>b'. f b = Some b' \<and> holds b' ys)"
  shows "\<exists>bufs b'. sv_buf (Some a) f s = Some (s\<lparr>sv_bufs := bufs\<rparr>) \<and>
    buf_get bufs = (buf_get (as_bufs st))(a := Some b') \<and>
    array_table (st\<lparr>as_bufs := bufs\<rparr>) bs \<sigma> tbl \<and> array_fresh (st\<lparr>as_bufs := bufs\<rparr>) \<sigma> a ys"
proof -
  from r have st: "sv_array s = Some st" "array_table st bs \<sigma> tbl" by (simp_all add: request_mem_def)
  note e = sv_array_bufs [OF st(1)]
  obtain b where b: "buf_get (sv_bufs s) a = Some b" "holds b xs" "\<forall>c. a \<notin> slot_owns (\<sigma> c)"
    using a e by (auto simp: array_fresh_def)
  obtain b' where b': "f b = Some b'" "holds b' ys" using f b(2) by blast
  obtain bufs where u: "buf_upd a f (sv_bufs s) = Some bufs" "buf_get bufs = (buf_get (sv_bufs s))(a := Some b')"
    using buf_upd_get [of "sv_bufs s" a b f b', OF b(1) b'(1)] by blast
  have "array_table (st\<lparr>as_bufs := bufs\<rparr>) bs \<sigma> tbl"
    by (rule array_table_bufs [OF st(2)]) (use b(3) e u(2) in auto)
  moreover have "array_fresh (st\<lparr>as_bufs := bufs\<rparr>) \<sigma> a ys" using u(2) b'(2) b(3) by (simp add: array_fresh_def)
  moreover have "sv_buf (Some a) f s = Some (s\<lparr>sv_bufs := bufs\<rparr>)" using u(1) by (simp add: sv_buf_def)
  ultimately show ?thesis using u(2) e by auto
qed

lemma append_char_holds: "\<forall>b. holds b xs \<longrightarrow> (\<exists>b'. buffer_append_char c b = Some b' \<and> holds b' (xs @ [c]))"
  unfolding append_char_data using append_data_holds by blast

lemma request_path_buf:
  assumes r: "request_at s path tbl k v" and f: "\<forall>b. holds b path \<longrightarrow> (\<exists>b'. f b = Some b' \<and> holds b' ys)"
  shows "\<exists>bufs. sv_buf (cl_path s) f s = Some (s\<lparr>sv_bufs := bufs\<rparr>) \<and> request_at (s\<lparr>sv_bufs := bufs\<rparr>) ys tbl k v"
proof -
  obtain st bs \<sigma> pa ka va where m: "request_mem s st bs \<sigma> pa ka va path tbl k v" using r by (auto simp: request_at_def)
  then have st: "array_fresh st \<sigma> pa path" "sv_array s = Some st" "cl_path s = Some pa" by (simp_all add: request_mem_def)
  obtain bufs b' where b: "sv_buf (Some pa) f s = Some (s\<lparr>sv_bufs := bufs\<rparr>)"
    "buf_get bufs = (buf_get (as_bufs st))(pa := Some b')" "array_table (st\<lparr>as_bufs := bufs\<rparr>) bs \<sigma> tbl"
    "array_fresh (st\<lparr>as_bufs := bufs\<rparr>) \<sigma> pa ys"
    using request_buf [OF m st(1) f] by blast
  have "request_mem (s\<lparr>sv_bufs := bufs\<rparr>) (st\<lparr>as_bufs := bufs\<rparr>) bs \<sigma> pa ka va ys tbl k v"
    using m b(3,4) array_fresh_upd [OF _ b(2)] by (simp add: request_mem_def)
  from request_atI [OF this] b(1) st(3) show ?thesis by metis
qed

lemma request_key_char:
  assumes r: "request_at s path tbl k v"
  shows "\<exists>bufs. sv_buf (cl_tkey s) (buffer_append_char c) s = Some (s\<lparr>sv_bufs := bufs\<rparr>) \<and>
    request_at (s\<lparr>sv_bufs := bufs\<rparr>) path tbl (k @ [c]) v"
proof -
  obtain st bs \<sigma> pa ka va where m: "request_mem s st bs \<sigma> pa ka va path tbl k v" using r by (auto simp: request_at_def)
  then have st: "array_fresh st \<sigma> ka k" "sv_array s = Some st" "cl_tkey s = Some ka" by (simp_all add: request_mem_def)
  obtain bufs b' where b: "sv_buf (Some ka) (buffer_append_char c) s = Some (s\<lparr>sv_bufs := bufs\<rparr>)"
    "buf_get bufs = (buf_get (as_bufs st))(ka := Some b')" "array_table (st\<lparr>as_bufs := bufs\<rparr>) bs \<sigma> tbl"
    "array_fresh (st\<lparr>as_bufs := bufs\<rparr>) \<sigma> ka (k @ [c])"
    using request_buf [OF m st(1) append_char_holds] by blast
  have "request_mem (s\<lparr>sv_bufs := bufs\<rparr>) (st\<lparr>as_bufs := bufs\<rparr>) bs \<sigma> pa ka va path tbl (k @ [c]) v"
    using m b(3,4) array_fresh_upd [OF _ b(2)] by (simp add: request_mem_def)
  from request_atI [OF this] b(1) st(3) show ?thesis by metis
qed

lemma request_val_char:
  assumes r: "request_at s path tbl k v"
  shows "\<exists>bufs. sv_buf (cl_tval s) (buffer_append_char c) s = Some (s\<lparr>sv_bufs := bufs\<rparr>) \<and>
    request_at (s\<lparr>sv_bufs := bufs\<rparr>) path tbl k (v @ [c])"
proof -
  obtain st bs \<sigma> pa ka va where m: "request_mem s st bs \<sigma> pa ka va path tbl k v" using r by (auto simp: request_at_def)
  then have st: "array_fresh st \<sigma> va v" "sv_array s = Some st" "cl_tval s = Some va" by (simp_all add: request_mem_def)
  obtain bufs b' where b: "sv_buf (Some va) (buffer_append_char c) s = Some (s\<lparr>sv_bufs := bufs\<rparr>)"
    "buf_get bufs = (buf_get (as_bufs st))(va := Some b')" "array_table (st\<lparr>as_bufs := bufs\<rparr>) bs \<sigma> tbl"
    "array_fresh (st\<lparr>as_bufs := bufs\<rparr>) \<sigma> va (v @ [c])"
    using request_buf [OF m st(1) append_char_holds] by blast
  have "request_mem (s\<lparr>sv_bufs := bufs\<rparr>) (st\<lparr>as_bufs := bufs\<rparr>) bs \<sigma> pa ka va path tbl k (v @ [c])"
    using m b(3,4) array_fresh_upd [OF _ b(2)] by (simp add: request_mem_def)
  from request_atI [OF this] b(1) st(3) show ?thesis by metis
qed

text \<open>Two new buffers for the next header.\<close>

lemma new_header_mem:
  assumes st: "sv_array s = Some st" "array_table st bs \<sigma> tbl" "array_fresh st \<sigma> pa path" "cl_path s = Some pa"
  shows "request_at (new_header s) path tbl [] [] \<and> sv_rest (new_header s) = sv_rest s"
proof -
  obtain k b1 where m1: "buf_malloc 16 (sv_bufs s) = (k, b1)" by (cases "buf_malloc 16 (sv_bufs s)")
  obtain v b2 where m2: "buf_malloc 64 b1 = (v, b2)" by (cases "buf_malloc 64 b1")
  note g1 = buf_malloc_get [OF m1] and g2 = buf_malloc_get [OF m2] and e = sv_array_bufs [OF st(1)]
  have n: "new_header s = s\<lparr>sv_bufs := b2, cl_tkey := Some k, cl_tval := Some v\<rparr>"
    by (simp add: new_header_def sv_malloc_buf_def m1 m2)
  have r: "array_rep {} st bs \<sigma>" using st(2) by (simp add: array_table_def)
  have o: "x < length (sv_bufs s)" if "x \<in> slot_owns (\<sigma> a)" for a x
    using slot_owns_live [OF r that] e by (auto simp: buf_get_def split: if_splits)
  have p: "pa < length (sv_bufs s)" using st(3) e by (auto simp: array_fresh_def buf_get_def split: if_splits)
  have g: "buf_get b2 = (buf_get (as_bufs st))(k := Some (buffer_new 16), v := Some (buffer_new 64))"
    using g1 g2 e by simp
  have kv: "k = length (sv_bufs s)" "v = length (sv_bufs s) + 1" using g1 g2 by auto
  have t: "array_table (st\<lparr>as_bufs := b2\<rparr>) bs \<sigma> tbl"
    by (rule array_table_bufs [OF st(2)]) (use o g kv in \<open>force simp: fun_upd_apply\<close>)
  have "array_fresh (st\<lparr>as_bufs := b2\<rparr>) \<sigma> pa path"
    using st(3) p kv e by (simp add: array_fresh_def g)
  moreover have "array_fresh (st\<lparr>as_bufs := b2\<rparr>) \<sigma> k []" "array_fresh (st\<lparr>as_bufs := b2\<rparr>) \<sigma> v []"
    using o kv holds_new by (fastforce simp: array_fresh_def g)+
  moreover have "sv_array (new_header s) = Some (st\<lparr>as_bufs := b2\<rparr>)"
    using st(1) by (auto simp: n sv_array_def)
  ultimately have "request_mem (new_header s) (st\<lparr>as_bufs := b2\<rparr>) bs \<sigma> pa k v path tbl [] []"
    using t st(4) p kv by (simp add: request_mem_def n)
  from request_atI [OF this] show ?thesis by (simp add: n sv_rest_def)
qed

lemma new_request_mem:
  assumes "pool_blocks (sv_cells s) = {}"
  shows "request_at (new_request s) [] [] [] [] \<and> sv_rest (new_request s) = sv_rest s"
proof -
  obtain p b1 where m1: "buf_malloc 256 (sv_bufs s) = (p, b1)" by (cases "buf_malloc 256 (sv_bufs s)")
  note g1 = buf_malloc_get [OF m1]
  let ?s = "s\<lparr>sv_bufs := b1, cl_path := Some p\<rparr>"
  let ?st = "ape_array_new 16 (sv_cells s) b1 :: unit array_state"
  have n: "new_request s = new_header (sv_set_array ?s ?st)"
    by (simp add: new_request_def sv_malloc_buf_def m1)
  have t: "array_table ?st [(length (sv_cells s), 16)] (\<lambda>_. None) []"
    by (rule array_table_new) (use assms in simp_all)
  have "as_bufs ?st = b1" using array_new_rep [of 16 "sv_cells s" b1] assms by simp
  then have "array_fresh ?st (\<lambda>_. None) p []" using g1 holds_new by (simp add: array_fresh_def)
  from new_header_mem [of "sv_set_array ?s ?st", OF sv_array_simps(3) t this] show ?thesis
    by (simp add: n sv_set_array_def sv_rest_def)
qed

lemma request_header_val:
  assumes "request_at s path tbl k v"
  shows "\<exists>s'. ape_http_callback env HTTP_HEADER_VAL 0 s = Some s' \<and> request_at s' path (AList.update k v tbl) [] [] \<and>
    sv_rest s' = sv_rest s"
proof -
  obtain st bs \<sigma> pa ka va where m: "request_mem s st bs \<sigma> pa ka va path tbl k v"
    using assms by (auto simp: request_at_def)
  then have st: "sv_array s = Some st" "array_table st bs \<sigma> tbl" "array_fresh st \<sigma> pa path" "array_fresh st \<sigma> ka k"
    "array_fresh st \<sigma> va v" "pa \<noteq> ka" "pa \<noteq> va" "ka \<noteq> va" "cl_path s = Some pa" "cl_tkey s = Some ka" "cl_tval s = Some va"
    by (simp_all add: request_mem_def)
  let ?bs = "array_room k st bs \<sigma>"
  let ?\<sigma> = "(slots_del k bs \<sigma>)(array_slot k st bs \<sigma> := Some (k, ka, Some (Ptr_Buf va)))"
  obtain st' where st': "ape_array_add_b ka va st = Some st'" "array_after st k ka (Some (Ptr_Buf va)) st' bs \<sigma>"
    "array_table st' ?bs ?\<sigma> (AList.update k v tbl)"
    using array_table_add [OF st(2,4,5,8)] by blast
  have g: "buf_get (as_bufs st') = buf_without (slots_gone k bs \<sigma>) (as_bufs st)" using st'(2) by (simp add: array_after_def)
  have "pa \<notin> slot_owns (?\<sigma> c)" for c
    using st(3,6,7) slots_del_owns [of k bs \<sigma> c] by (auto simp: array_fresh_def)
  moreover have "pa \<notin> slots_gone k bs \<sigma>" using st(3) by (auto simp: slots_gone_def array_fresh_def split: option.split)
  ultimately have "array_fresh st' ?\<sigma> pa path" using st(3) unfolding array_fresh_def g by (simp add: buf_without_def)
  from new_header_mem [of "sv_set_array s st'", OF sv_array_simps(3) st'(3) this]
  have "request_at (new_header (sv_set_array s st')) path (AList.update k v tbl) [] []"
    "sv_rest (new_header (sv_set_array s st')) = sv_rest s" using st(9) by (simp_all add: sv_set_array_def sv_rest_def)
  with st st'(1) show ?thesis by (simp add: ape_http_callback_def)
qed

section \<open>The events of a request\<close>

lemma http_callbacks_append:
  "http_callbacks env (xs @ ys) s = Option.bind (http_callbacks env xs s) (http_callbacks env ys)"
  by (induction xs arbitrary: s) (auto intro!: arg_cong2 [where f = Option.bind])

lemma request_path_chars:
  assumes "request_at s path tbl k v"
  shows "\<exists>bufs. http_callbacks env (map (\<lambda>i. (HTTP_PATH_CHAR, f i)) is) s = Some (s\<lparr>sv_bufs := bufs\<rparr>) \<and>
    request_at (s\<lparr>sv_bufs := bufs\<rparr>) (path @ map (\<lambda>i. word_of_int (f i)) is) tbl k v"
  using assms
proof (induction "is" arbitrary: s path)
  case Nil
  then show ?case by (intro exI [of _ "sv_bufs s"]) simp
next
  case (Cons i "is")
  from request_path_buf [OF Cons.prems append_char_holds, of "word_of_int (f i)"] obtain b1 where
    1: "sv_buf (cl_path s) (buffer_append_char (word_of_int (f i))) s = Some (s\<lparr>sv_bufs := b1\<rparr>)"
      "request_at (s\<lparr>sv_bufs := b1\<rparr>) (path @ [word_of_int (f i)]) tbl k v" by blast
  from Cons.IH [OF 1(2)] 1(1) show ?case by (simp add: ape_http_callback_def)
qed

lemma request_key_chars:
  assumes "request_at s path tbl k v"
  shows "\<exists>bufs. http_callbacks env (map (\<lambda>c. (HTTP_HEADER_KEYC, uint c)) cs) s = Some (s\<lparr>sv_bufs := bufs\<rparr>) \<and>
    request_at (s\<lparr>sv_bufs := bufs\<rparr>) path tbl (k @ cs) v"
  using assms
proof (induction cs arbitrary: s k)
  case Nil
  then show ?case by (intro exI [of _ "sv_bufs s"]) simp
next
  case (Cons c cs)
  from request_key_char [OF Cons.prems, of c] obtain b1 where
    1: "sv_buf (cl_tkey s) (buffer_append_char c) s = Some (s\<lparr>sv_bufs := b1\<rparr>)"
      "request_at (s\<lparr>sv_bufs := b1\<rparr>) path tbl (k @ [c]) v" by blast
  from Cons.IH [OF 1(2)] 1(1) show ?case by (simp add: ape_http_callback_def)
qed

lemma request_val_chars:
  assumes "request_at s path tbl k v"
  shows "\<exists>bufs. http_callbacks env (map (\<lambda>c. (HTTP_HEADER_VALC, uint c)) cs) s = Some (s\<lparr>sv_bufs := bufs\<rparr>) \<and>
    request_at (s\<lparr>sv_bufs := bufs\<rparr>) path tbl k (v @ cs)"
  using assms
proof (induction cs arbitrary: s v)
  case Nil
  then show ?case by (intro exI [of _ "sv_bufs s"]) simp
next
  case (Cons c cs)
  from request_val_char [OF Cons.prems, of c] obtain b1 where
    1: "sv_buf (cl_tval s) (buffer_append_char c) s = Some (s\<lparr>sv_bufs := b1\<rparr>)"
      "request_at (s\<lparr>sv_bufs := b1\<rparr>) path tbl k (v @ [c])" by blast
  from Cons.IH [OF 1(2)] 1(1) show ?case by (simp add: ape_http_callback_def)
qed

definition header_table :: "(byte list \<times> byte list) list \<Rightarrow> (byte list \<times> byte list) list \<Rightarrow> (byte list \<times> byte list) list" where
  "header_table = fold (\<lambda>(k, v). AList.update k v)"

lemma request_headers:
  assumes "request_at s path tbl [] []"
  shows "\<exists>s'. http_callbacks env (concat (map header_events hs)) s = Some s' \<and>
    request_at s' path (header_table hs tbl) [] [] \<and> sv_rest s' = sv_rest s"
  using assms
proof (induction hs arbitrary: s tbl)
  case Nil
  then show ?case by (simp add: header_table_def)
next
  case (Cons h hs)
  obtain k v where h: "h = (k, v)" by (cases h)
  from request_key_chars [OF Cons.prems, of env k] obtain b1 where
    1: "http_callbacks env (map (\<lambda>c. (HTTP_HEADER_KEYC, uint c)) k) s = Some (s\<lparr>sv_bufs := b1\<rparr>)"
      "request_at (s\<lparr>sv_bufs := b1\<rparr>) path tbl k []" by auto
  from request_val_chars [OF 1(2), of env v] obtain b2 where
    2: "http_callbacks env (map (\<lambda>c. (HTTP_HEADER_VALC, uint c)) v) (s\<lparr>sv_bufs := b1\<rparr>) = Some (s\<lparr>sv_bufs := b2\<rparr>)"
      "request_at (s\<lparr>sv_bufs := b2\<rparr>) path tbl k v" by auto
  from request_header_val [OF 2(2), of env] obtain s1 where
    3: "ape_http_callback env HTTP_HEADER_VAL 0 (s\<lparr>sv_bufs := b2\<rparr>) = Some s1"
      "request_at s1 path (AList.update k v tbl) [] []" "sv_rest s1 = sv_rest s" by auto
  have key: "ape_http_callback env HTTP_HEADER_KEY x s = Some s" for x s by (simp add: ape_http_callback_def)
  from Cons.IH [OF 3(2)] obtain s' where
    4: "http_callbacks env (concat (map header_events hs)) s1 = Some s'"
      "request_at s' path (header_table hs (AList.update k v tbl)) [] []" "sv_rest s' = sv_rest s" using 3(3) by auto
  with 1(1) 2(1) 3(1) show ?case
    by (auto simp: h http_callbacks_append key header_table_def)
qed

text \<open>The transport by the decoded path.\<close>

definition transport_of :: "byte list \<Rightarrow> ape_transport_t" where
  "transport_of p =
     (if take 3 p = bytes ''/1/'' then APE_TRANSPORT_LP
      else if take 3 p = bytes ''/2/'' then APE_TRANSPORT_WS
      else if take 8 p = bytes ''/static/'' then APE_TRANSPORT_FT
      else APE_TRANSPORT_NU)"

lemma buf_bytes_prefix:
  assumes "holds b xs" "n \<le> length xs"
  shows "buf_bytes n b = Some (take n xs)"
  using those_map_Some [of "[0..<n]" "peek b" "(!) xs"] holds_peek [OF assms(1)] assms(2)
  by (simp add: buf_bytes_def) (metis map_nth take_map take_upt add_0)

lemma ape_get_transport_path:
  assumes h: "holds b (p @ [0])"
  shows "\<exists>b'. ape_get_transport b = Some (transport_of p, b') \<and> holds b' (p @ [0])"
proof -
  have u: "buf_used b = length p + 1" using holds_used [OF h] by simp
  have keep: "holds (b\<lparr>buf_pos := x\<rparr>) (p @ [0])" for x using h by (cases "buf_data b") (simp_all add: holds_def)
  have d: "buf_data b \<noteq> None" using h by (cases "buf_data b") (simp_all add: holds_def)
  have p0: "peek b 0 = Some (if p = [] then 0 else hd p)" using holds_peek [OF h, of 0] by (cases p) auto
  have len: "length (bytes ''/1/'') = 3" "length (bytes ''/2/'') = 3" "length (bytes ''/static/'') = 8" by (simp_all add: bytes_def)
  have b4: "length p \<ge> 3 \<Longrightarrow> \<exists>x. buf_bytes 4 b = Some x \<and> take 3 x = take 3 p"
    using buf_bytes_prefix [OF h, of 4] by simp
  have b8: "length p \<ge> 8 \<Longrightarrow> buf_bytes 8 b = Some (take 8 p)"
    using buf_bytes_prefix [OF h, of 8] by simp
  have short: "take n p \<noteq> q" if "length p < length q" for n and q :: "byte list"
    using that by (metis length_take min_less_iff_conj nat_neq_iff)
  have loop: "\<exists>b'. transport_loop ape_transports_s b = Some (transport_of p, b') \<and> holds b' (p @ [0])"
  proof (cases "length p < 3")
    case True
    then have "take 3 p \<noteq> bytes ''/1/''" "take 3 p \<noteq> bytes ''/2/''" "take 8 p \<noteq> bytes ''/static/''"
      by (intro short; use True len in simp)+
    with True h show ?thesis by (simp add: ape_transports_s_def len u transport_of_def)
  next
    case False
    then obtain x where x: "buf_bytes 4 b = Some x" "take 3 x = take 3 p" using b4 by auto
    show ?thesis
    proof (cases "length p < 8")
      case True
      then have "take 8 p \<noteq> bytes ''/static/''" by (intro short) (use len in simp)
      with True False x keep h show ?thesis by (simp add: ape_transports_s_def len u transport_of_def numeral_2_eq_2 [symmetric])
    next
      case len8: False
      with b8 have "buf_bytes 8 b = Some (take 8 p)" by simp
      with len8 False x keep h show ?thesis by (simp add: ape_transports_s_def len u transport_of_def numeral_2_eq_2 [symmetric])
    qed
  qed
  show ?thesis
  proof (cases "p = [] \<or> hd p \<noteq> 47")
    case True
    have "transport_of p = APE_TRANSPORT_NU"
      using True by (cases p) (auto simp: transport_of_def bytes_def)
    with True d p0 h show ?thesis by (auto simp: ape_get_transport_def)
  next
    case False
    with d p0 loop show ?thesis by (auto simp: ape_get_transport_def)
  qed
qed

lemma request_path_end:
  assumes r: "request_at s path tbl k v"
  shows "\<exists>bufs. path_end env s =
      Some (s\<lparr>sv_bufs := bufs, cl_transport := transport_of path,
        cl_json := (if APE_TRANSPORT_QS_ISJSON (transport_of path) then new_client_json env False None else cl_json s)\<rparr>) \<and>
    request_at (s\<lparr>sv_bufs := bufs\<rparr>) (path @ [0]) tbl k v"
proof -
  from request_path_buf [OF r append_char_holds, of 0] obtain b1 where
    1: "sv_buf (cl_path s) (buffer_append_char 0) s = Some (s\<lparr>sv_bufs := b1\<rparr>)"
      "request_at (s\<lparr>sv_bufs := b1\<rparr>) (path @ [0]) tbl k v" by blast
  then obtain st bs \<sigma> pa ka va where m: "request_mem (s\<lparr>sv_bufs := b1\<rparr>) st bs \<sigma> pa ka va (path @ [0]) tbl k v"
    unfolding request_at_def by blast
  then have st: "array_fresh st \<sigma> pa (path @ [0])" "sv_array (s\<lparr>sv_bufs := b1\<rparr>) = Some st" "cl_path s = Some pa"
    by (simp_all add: request_mem_def)
  obtain b where b: "buf_get b1 pa = Some b" "holds b (path @ [0])"
    using st(1) sv_array_bufs [OF st(2)] by (auto simp: array_fresh_def)
  obtain b' where b': "ape_get_transport b = Some (transport_of path, b')" "holds b' (path @ [0])"
    using ape_get_transport_path [OF b(2)] by blast
  have "\<forall>x. holds x (path @ [0]) \<longrightarrow> (\<exists>y. (\<lambda>_. Some b') x = Some y \<and> holds y (path @ [0]))" using b'(2) by blast
  from request_path_buf [OF 1(2) this] obtain b2 where
    2: "sv_buf (Some pa) (\<lambda>_. Some b') (s\<lparr>sv_bufs := b1\<rparr>) = Some (s\<lparr>sv_bufs := b2\<rparr>)"
      "request_at (s\<lparr>sv_bufs := b2\<rparr>) (path @ [0]) tbl k v" using st(3) by auto
  show ?thesis using 1(1) b(1) b'(1) 2 st(3)
    by (intro exI [of _ b2]) (cases s, simp add: path_end_def)
qed

section \<open>Reading\<close>

text \<open>Before \<open>HTTP_READY\<close> the callbacks leave the parser alone.\<close>

lemma sv_buf_parser [simp]:
  "sv_buf p f (s\<lparr>cl_parser := q\<rparr>) = map_option (\<lambda>s. s\<lparr>cl_parser := q\<rparr>) (sv_buf p f s)"
  by (cases s) (auto simp: sv_buf_def option.map_comp comp_def split: bind_split)

lemma http_json_char_parser:
  "http_json_char env c (s\<lparr>cl_parser := q\<rparr>) = map_option (\<lambda>s. s\<lparr>cl_parser := q\<rparr>) (http_json_char env c s)"
  by (cases s) (auto simp: http_json_char_def option.map_comp comp_def case_prod_unfold split: option.split)

lemma new_header_parser: "new_header (s\<lparr>cl_parser := q\<rparr>) = (new_header s)\<lparr>cl_parser := q\<rparr>"
  by (cases s) (simp add: new_header_def sv_malloc_buf_def buf_malloc_def)

lemma sv_set_array_parser: "sv_set_array (s\<lparr>cl_parser := q\<rparr>) st = (sv_set_array s st)\<lparr>cl_parser := q\<rparr>"
  by (cases s) (simp add: sv_set_array_def)

lemma new_request_parser: "new_request (s\<lparr>cl_parser := q\<rparr>) = (new_request s)\<lparr>cl_parser := q\<rparr>"
proof -
  have "new_request (s\<lparr>cl_parser := q\<rparr>) =
      new_header ((sv_set_array (s\<lparr>sv_bufs := snd (buf_malloc 256 (sv_bufs s)), cl_path := Some (length (sv_bufs s))\<rparr>)
        (ape_array_new 16 (sv_cells s) (snd (buf_malloc 256 (sv_bufs s)))))\<lparr>cl_parser := q\<rparr>)"
    by (cases s) (simp add: new_request_def sv_malloc_buf_def buf_malloc_def sv_set_array_def)
  then show ?thesis
    by (cases s) (simp add: new_header_parser new_request_def sv_malloc_buf_def buf_malloc_def)
qed

lemma path_end_parser: "path_end env (s\<lparr>cl_parser := q\<rparr>) = map_option (\<lambda>s. s\<lparr>cl_parser := q\<rparr>) (path_end env s)"
proof -
  have b: "sv_bufs (s\<lparr>cl_parser := q\<rparr>) = sv_bufs s" "cl_path (s\<lparr>cl_parser := q\<rparr>) = cl_path s" for s :: "'a server" by simp_all
  show ?thesis
    by (cases s) (auto simp: path_end_def sv_buf_def Let_def map_option_bind split: bind_split option.split)
qed

lemma ape_http_callback_parser:
  assumes "t \<noteq> HTTP_READY"
  shows "ape_http_callback env t v (s\<lparr>cl_parser := q\<rparr>) = map_option (\<lambda>s. s\<lparr>cl_parser := q\<rparr>) (ape_http_callback env t v s)"
proof -
  have m: "s\<lparr>cl_parser := q, cl_method := m\<rparr> = (s\<lparr>cl_method := m\<rparr>)\<lparr>cl_parser := q\<rparr>" for m by (cases s) simp
  show ?thesis using assms
    by (cases t) (auto simp: ape_http_callback_def m new_request_parser http_json_char_parser path_end_parser
        sv_set_array_parser new_header_parser split: bind_split)
qed

lemma http_callbacks_parser:
  "HTTP_READY \<notin> fst ` set es \<Longrightarrow>
   http_callbacks env es (s\<lparr>cl_parser := q\<rparr>) = map_option (\<lambda>s. s\<lparr>cl_parser := q\<rparr>) (http_callbacks env es s)"
  by (induction es arbitrary: s) (auto simp: ape_http_callback_parser split: bind_split)

lemma http_run_split:
  assumes "http_run p (c # cs) es p'"
  shows "\<exists>p1 ev es2. parse_http_char p c = (p1, ev, Accept) \<and> es = http_strip ev @ es2 \<and> http_run p1 cs es2 p'"
proof -
  obtain ev where f: "http_feed p (c # cs) = (p', ev, Accept)" "http_strip ev = es" using assms by (auto simp: http_run_def)
  obtain p1 ev1 v1 where s: "parse_http_char p c = (p1, ev1, v1)" by (cases "parse_http_char p c")
  with f(1) have v: "v1 = Accept" by (auto split: if_splits)
  obtain p2 ev2 v2 where r: "http_feed p1 cs = (p2, ev2, v2)" by (cases "http_feed p1 cs")
  with s f v have "p2 = p'" "v2 = Accept" "es = http_strip ev1 @ http_strip ev2" by auto
  with s v r show ?thesis by (auto simp: http_run_def)
qed

definition always_online :: "'f server_env \<Rightarrow> bool" where
  "always_online env \<longleftrightarrow> (\<forall>s. en_online env s)"

lemma on_read_run:
  assumes "always_online env"
  shows "http_run (cl_parser s) cs es p' \<Longrightarrow> HTTP_READY \<notin> fst ` set es \<Longrightarrow> http_callbacks env es s = Some s' \<Longrightarrow>
    ape_server_on_read env (cs @ rest) s = ape_server_on_read env rest (s'\<lparr>cl_parser := p'\<rparr>)"
proof (induction cs arbitrary: s es s')
  case Nil
  then have "es = []" "p' = cl_parser s" by (auto simp: http_run_def)
  with Nil show ?case by (cases s) simp
next
  case (Cons c cs)
  from http_run_split [OF Cons.prems(1)] obtain p1 ev es2 where
    p: "parse_http_char (cl_parser s) c = (p1, ev, Accept)" "es = http_strip ev @ es2" "http_run p1 cs es2 p'" by blast
  from Cons.prems(3) obtain s1 where s1: "http_callbacks env (http_strip ev) s = Some s1" "http_callbacks env es2 s1 = Some s'"
    by (auto simp: p(2) http_callbacks_append bind_eq_Some_conv)
  have nr: "HTTP_READY \<notin> fst ` set (http_strip ev)" "HTTP_READY \<notin> fst ` set es2"
    using Cons.prems(2) by (auto simp: p(2))
  have "http_callbacks env (http_strip ev) (s\<lparr>cl_parser := p1\<rparr>) = Some (s1\<lparr>cl_parser := p1\<rparr>)"
    using s1(1) by (simp add: http_callbacks_parser [OF nr(1)])
  then have "ape_server_on_read env ((c # cs) @ rest) s = ape_server_on_read env (cs @ rest) (s1\<lparr>cl_parser := p1\<rparr>)"
    using p(1) assms by (simp add: always_online_def)
  moreover have "http_callbacks env es2 (s1\<lparr>cl_parser := p1\<rparr>) = Some (s'\<lparr>cl_parser := p1\<rparr>)"
    using s1(2) by (simp add: http_callbacks_parser [OF nr(2)])
  moreover have "http_run (cl_parser (s1\<lparr>cl_parser := p1\<rparr>)) cs es2 p'" using p(3) by simp
  ultimately show ?case using Cons.IH [of "s1\<lparr>cl_parser := p1\<rparr>" es2 "s'\<lparr>cl_parser := p1\<rparr>"] nr(2) by simp
qed

text \<open>The last byte of a request: the callback of readiness decides.\<close>

lemma on_read_last:
  assumes "always_online env" "http_run (cl_parser s) [c] es p'" "http_callbacks env es (s\<lparr>cl_parser := p'\<rparr>) = Some s'"
  shows "ape_server_on_read env (c # rest) s = ape_server_on_read env rest s'"
proof -
  from http_run_split [OF assms(2)] obtain p1 ev es2 where
    "parse_http_char (cl_parser s) c = (p1, ev, Accept)" "es = http_strip ev @ es2" "http_run p1 [] es2 p'" by blast
  then have "parse_http_char (cl_parser s) c = (p', ev, Accept)" "es = http_strip ev" by (auto simp: http_run_def)
  with assms(1,3) show ?thesis by (simp add: always_online_def)
qed

lemma on_read_last_undefined:
  assumes "http_run (cl_parser s) [c] es p'" "http_callbacks env es (s\<lparr>cl_parser := p'\<rparr>) = None"
  shows "ape_server_on_read env (c # rest) s = None"
proof -
  from http_run_split [OF assms(1)] obtain p1 ev es2 where
    "parse_http_char (cl_parser s) c = (p1, ev, Accept)" "es = http_strip ev @ es2" "http_run p1 [] es2 p'" by blast
  then have "parse_http_char (cl_parser s) c = (p', ev, Accept)" "es = http_strip ev" by (auto simp: http_run_def)
  with assms(2) show ?thesis by simp
qed

section \<open>Reads in pieces\<close>

lemma on_read_split:
  assumes on: "always_online env"
  shows "ape_server_on_read env (xs @ ys) s = Some s' \<Longrightarrow> \<forall>out. sv_out s' \<noteq> out @ [SO_shutdown] \<Longrightarrow>
    \<exists>s1. ape_server_on_read env xs s = Some s1 \<and> ape_server_on_read env ys s1 = Some s'"
proof (induction xs arbitrary: s)
  case (Cons c xs)
  obtain p ev v where c: "parse_http_char (cl_parser s) c = (p, ev, v)" by (cases "parse_http_char (cl_parser s) c")
  with Cons.prems(1) obtain s2 where s2: "http_callbacks env (http_strip ev) (s\<lparr>cl_parser := p\<rparr>) = Some s2"
    by (auto simp: bind_eq_Some_conv)
  show ?case
  proof (cases v)
    case Accept
    with Cons.prems(1) c s2 on have "ape_server_on_read env (xs @ ys) s2 = Some s'" by (simp add: always_online_def)
    from Cons.IH [OF this Cons.prems(2)] Accept c s2 on show ?thesis by (simp add: always_online_def)
  qed (use Cons.prems c s2 in auto)
qed simp

lemma sv_buf_on_read: "sv_buf p f s = Some s' \<Longrightarrow> cl_on_read s' = cl_on_read s"
  by (auto simp: sv_buf_def bind_eq_Some_conv)

lemma sv_free_buf_on_read: "sv_free_buf p s = Some s' \<Longrightarrow> cl_on_read s' = cl_on_read s"
  by (auto simp: sv_free_buf_def bind_eq_Some_conv)

lemma new_request_on_read [simp]: "cl_on_read (new_header s) = cl_on_read s" "cl_on_read (new_request s) = cl_on_read s"
  "cl_on_read (sv_set_array s st) = cl_on_read s"
  by (simp_all add: new_request_def new_header_def sv_malloc_buf_def sv_set_array_def split: prod.splits)

lemma path_end_on_read: "path_end env s = Some s' \<Longrightarrow> cl_on_read s' = cl_on_read s"
  by (auto simp: path_end_def bind_eq_Some_conv Let_def split: if_splits dest!: sv_buf_on_read)

lemma http_json_char_on_read: "http_json_char env c s = Some s' \<Longrightarrow> cl_on_read s' = cl_on_read s"
  by (auto simp: http_json_char_def split: option.splits)

lemma http_request_on_read: "http_request s = Some s' \<Longrightarrow> cl_on_read s' = cl_on_read s"
  by (auto simp: http_request_def bind_eq_Some_conv Let_def split: if_splits dest!: sv_free_buf_on_read)

lemma callback_on_read:
  assumes "ape_http_callback env t v s = Some s'" "t \<noteq> HTTP_READY"
  shows "cl_on_read s' = cl_on_read s"
  using assms
  by (cases t) (auto simp: ape_http_callback_def bind_eq_Some_conv split: if_splits
      dest!: sv_buf_on_read http_json_char_on_read path_end_on_read)

lemma callbacks_on_read:
  "http_callbacks env es s = Some s' \<Longrightarrow> HTTP_READY \<notin> fst ` set es \<Longrightarrow> cl_on_read s' = cl_on_read s"
  by (induction es arbitrary: s) (auto simp: bind_eq_Some_conv dest!: callback_on_read)

lemma ready_ws:
  assumes "ape_server_http_ready env s = Some s'" "cl_on_read s = On_read_ws"
  shows "cl_on_read s' = On_read_ws"
  using assms
  by (auto simp: ape_server_http_ready_def bind_eq_Some_conv Let_def http_upgrade_def split: if_splits option.splits dest!: http_request_on_read)

lemma callbacks_ws:
  "http_callbacks env es s = Some s' \<Longrightarrow> cl_on_read s = On_read_ws \<Longrightarrow> cl_on_read s' = On_read_ws"
proof (induction es arbitrary: s)
  case (Cons e es)
  then obtain s1 where s1: "ape_http_callback env (fst e) (snd e) s = Some s1" "http_callbacks env es s1 = Some s'"
    by (auto simp: bind_eq_Some_conv)
  have "cl_on_read s1 = On_read_ws"
  proof (cases "fst e = HTTP_READY")
    case True
    with s1(1) Cons.prems(2) show ?thesis
      by (auto simp: ape_http_callback_def bind_eq_Some_conv dest!: sv_free_buf_on_read ready_ws)
  qed (use callback_on_read [OF s1(1)] Cons.prems(2) in simp)
  with Cons.IH s1(2) show ?case by blast
qed simp

lemma on_read_ws:
  "ape_server_on_read env cs s = Some s' \<Longrightarrow> cl_on_read s = On_read_ws \<Longrightarrow> cl_on_read s' = On_read_ws"
  by (induction cs arbitrary: s) (auto simp: bind_eq_Some_conv split: prod.splits if_splits dest!: callbacks_ws)

lemma sv_reads_whole:
  assumes on: "always_online env"
  shows "ape_server_on_read env (concat bs) s = Some s' \<Longrightarrow> \<forall>out. sv_out s' \<noteq> out @ [SO_shutdown] \<Longrightarrow>
    cl_on_read s' = On_read_http \<Longrightarrow> sv_reads env bs s = Some s'"
proof (induction bs arbitrary: s)
  case (Cons b bs)
  from Cons.prems(1) have "ape_server_on_read env (b @ concat bs) s = Some s'" by simp
  from on_read_split [OF on this Cons.prems(2)] obtain s1 where
    s1: "ape_server_on_read env b s = Some s1" "ape_server_on_read env (concat bs) s1 = Some s'" by blast
  have "cl_on_read s \<noteq> On_read_ws" using on_read_ws [OF Cons.prems(1)] Cons.prems(3) by auto
  then have "sv_on_read env b s = Some s1" using s1(1) by (cases "cl_on_read s") (simp_all add: sv_on_read_def)
  with Cons.IH [OF s1(2) Cons.prems(2,3)] show ?case by simp
qed simp

text \<open>Inside a request, before its last byte.\<close>

lemma http_run_cut:
  "http_run p (xs @ ys) es p' \<Longrightarrow> \<exists>p1 es1 es2. http_run p xs es1 p1 \<and> es = es1 @ es2 \<and> http_run p1 ys es2 p'"
proof (induction xs arbitrary: p es)
  case Nil
  then show ?case by (intro exI [of _ p] exI [of _ "[]"] exI [of _ es]) (simp add: http_run_def)
next
  case (Cons c xs)
  from Cons.prems have "http_run p (c # (xs @ ys)) es p'" by simp
  from http_run_split [OF this] obtain p1 ev es2 where
    1: "parse_http_char p c = (p1, ev, Accept)" "es = http_strip ev @ es2" "http_run p1 (xs @ ys) es2 p'" by blast
  from Cons.IH [OF 1(3)] obtain p2 e1 e2 where 2: "http_run p1 xs e1 p2" "es2 = e1 @ e2" "http_run p2 ys e2 p'" by blast
  have "http_run p (c # xs) (http_strip ev @ e1) p2" using 1(1) 2(1) by (auto simp: http_run_def)
  with 1(2) 2(2,3) show ?case by (intro exI [of _ p2] exI [of _ "http_strip ev @ e1"] exI [of _ e2]) simp
qed

lemma on_read_prefix:
  assumes "always_online env" "http_run (cl_parser s) (xs @ ys) es p'" "HTTP_READY \<notin> fst ` set es" "http_callbacks env es s = Some s'"
  shows "\<exists>s1. ape_server_on_read env xs s = Some s1 \<and> cl_on_read s1 = cl_on_read s \<and>
    (\<forall>rest. ape_server_on_read env (xs @ rest) s = ape_server_on_read env rest s1)"
proof -
  from http_run_cut [OF assms(2)] obtain p1 e1 e2 where
    r: "http_run (cl_parser s) xs e1 p1" "es = e1 @ e2" "http_run p1 ys e2 p'" by blast
  from assms(4) obtain s1 where s1: "http_callbacks env e1 s = Some s1"
    by (auto simp: r(2) http_callbacks_append bind_eq_Some_conv)
  have nr: "HTTP_READY \<notin> fst ` set e1" using assms(3) by (auto simp: r(2))
  note run = on_read_run [OF assms(1) r(1) nr s1]
  have "ape_server_on_read env xs s = Some (s1\<lparr>cl_parser := p1\<rparr>)" using run [of "[]"] by simp
  with run callbacks_on_read [OF s1 nr] show ?thesis by (intro exI [of _ "s1\<lparr>cl_parser := p1\<rparr>"]) simp
qed

section \<open>A whole request\<close>

definition table_get :: "byte list \<Rightarrow> (byte list \<times> byte list) list \<Rightarrow> byte list option" where
  "table_get name tbl = map_option snd (find (\<lambda>(k, v). length k = length name \<and> strncasecmp_eq name k) tbl)"

lemma array_table_get:
  assumes "array_table st bs \<sigma> tbl"
  shows "case table_get name tbl of
      None \<Rightarrow> ape_array_lookup name st = Some None
    | Some v \<Rightarrow> \<exists>a b. ape_array_lookup name st = Some (Some (Ptr_Buf a)) \<and> buf_get (as_bufs st) a = Some b \<and> holds b v"
  using array_table_lookup [OF assms, of name] by (auto simp: table_get_def split: option.splits prod.splits)

lemma request_header_get:
  assumes "sv_array s = Some st" "array_table st bs \<sigma> tbl"
  shows "case table_get name tbl of
      None \<Rightarrow> request_header name s = Some None
    | Some v \<Rightarrow> \<exists>a b. request_header name s = Some (Some a) \<and> buf_get (sv_bufs s) a = Some b \<and> holds b v"
  using array_table_get [OF assms(2), of name] assms(1) sv_array_bufs [OF assms(1)]
  by (auto simp: request_header_def split: option.splits)

text \<open>After the last byte: the table, and the path.\<close>

definition request_done ::
    "'f server \<Rightarrow> unit array_state \<Rightarrow> addr \<Rightarrow> byte list \<Rightarrow> (byte list \<times> byte list) list \<Rightarrow> bool" where
  "request_done s st pa path tbl \<longleftrightarrow>
     (\<exists>bs \<sigma>. sv_array s = Some st \<and> array_table st bs \<sigma> tbl \<and> cl_path s = Some pa \<and> array_fresh st \<sigma> pa path)"

lemma callbacks_nil: "Option.bind x (http_callbacks env []) = x"
  by (cases x) simp_all

lemma request_ready:
  assumes "request_at s path tbl k v"
  shows "\<exists>bufs st pa. http_callbacks env [(HTTP_HEADER_END, 0), (HTTP_READY, 0)] s = ape_server_http_ready env (s\<lparr>sv_bufs := bufs\<rparr>) \<and>
    request_done (s\<lparr>sv_bufs := bufs\<rparr>) st pa path tbl"
proof -
  obtain st bs \<sigma> pa ka va where m: "request_mem s st bs \<sigma> pa ka va path tbl k v"
    using assms unfolding request_at_def by blast
  then have st: "sv_array s = Some st" "array_table st bs \<sigma> tbl" "array_fresh st \<sigma> pa path" "array_fresh st \<sigma> ka k"
    "array_fresh st \<sigma> va v" "pa \<noteq> ka" "pa \<noteq> va" "ka \<noteq> va" "cl_path s = Some pa" "cl_tkey s = Some ka" "cl_tval s = Some va"
    by (simp_all add: request_mem_def)
  note e = sv_array_bufs [OF st(1)]
  have "buf_get (sv_bufs s) ka \<noteq> None" using st(4) e by (auto simp: array_fresh_def)
  from buffer_destroy_get [OF this] obtain b1 where
    b1: "buffer_destroy (Some ka) (sv_bufs s) = Some b1" "buf_get b1 = (buf_get (sv_bufs s))(ka := None)" by blast
  have "buf_get b1 va \<noteq> None" using st(5,8) e b1(2) by (auto simp: array_fresh_def)
  from buffer_destroy_get [OF this] obtain b2 where
    b2: "buffer_destroy (Some va) b1 = Some b2" "buf_get b2 = (buf_get b1)(va := None)" by blast
  have g: "buf_get b2 x = buf_get (as_bufs st) x" if "x \<noteq> ka" "x \<noteq> va" for x using that b1(2) b2(2) e by simp
  have "array_table (st\<lparr>as_bufs := b2\<rparr>) bs \<sigma> tbl"
    by (rule array_table_bufs [OF st(2)], rule g) (use st(4,5) in \<open>auto simp: array_fresh_def\<close>)
  moreover have "array_fresh (st\<lparr>as_bufs := b2\<rparr>) \<sigma> pa path" using st(3,6,7) g [of pa] by (simp add: array_fresh_def)
  ultimately have "request_done (s\<lparr>sv_bufs := b2\<rparr>) (st\<lparr>as_bufs := b2\<rparr>) pa path tbl"
    unfolding request_done_def using st(1,9) by auto
  moreover have "http_callbacks env [(HTTP_HEADER_END, 0), (HTTP_READY, 0)] s = ape_server_http_ready env (s\<lparr>sv_bufs := b2\<rparr>)"
    using st(10,11) b1(1) b2(1) by (simp add: ape_http_callback_def sv_free_buf_def callbacks_nil)
  ultimately show ?thesis by blast
qed

text \<open>What the handling of a request does not touch.\<close>

definition sv_keep ::
    "'f server \<Rightarrow> addr option \<times> websocket_state option \<times> read_callback \<times> 'f json_heap \<times> ape_global" where
  "sv_keep s = (cl_session s, cl_ws_state s, cl_on_read s, sv_items s, sv_global s)"

definition path_bytes :: "path_item list \<Rightarrow> byte list" where
  "path_bytes is = map (\<lambda>i. word_of_int (path_item_value i)) is"

lemma query_ignored:
  assumes "\<not> APE_TRANSPORT_QS_ISJSON (cl_transport s)"
  shows "http_callbacks env (map (\<lambda>j. (HTTP_QS_CHAR, f j)) js) s = Some s"
  using assms by (induction js) (simp_all add: ape_http_callback_def)

lemma request_callbacks:
  assumes cells: "pool_blocks (sv_cells s) = {}" and q: "q = None \<or> \<not> APE_TRANSPORT_QS_ISJSON (transport_of (path_bytes is))"
  shows "\<exists>s'. http_callbacks env (request_line_events HTTP_GET is q d1 d2 @ concat (map header_events hs)) s = Some s' \<and>
    request_at s' (path_bytes is @ [0]) (header_table hs []) [] [] \<and> cl_method s' = HTTP_GET \<and>
    cl_transport s' = transport_of (path_bytes is) \<and>
    cl_json s' = (if APE_TRANSPORT_QS_ISJSON (transport_of (path_bytes is)) then new_client_json env False None else cl_json s) \<and>
    sv_keep s' = sv_keep s \<and> sv_out s' = sv_out s"
proof -
  let ?t = "transport_of (path_bytes is)"
  let ?s0 = "s\<lparr>cl_method := HTTP_GET\<rparr>"
  have "pool_blocks (sv_cells ?s0) = {}" using cells by simp
  from new_request_mem [OF this] have r0: "request_at (new_request ?s0) [] [] [] []" "sv_rest (new_request ?s0) = sv_rest ?s0"
    by blast+
  from request_path_chars [OF r0(1), of env path_item_value "is"] obtain b1 where
    1: "http_callbacks env (map (\<lambda>i. (HTTP_PATH_CHAR, path_item_value i)) is) (new_request ?s0) = Some ((new_request ?s0)\<lparr>sv_bufs := b1\<rparr>)"
      "request_at ((new_request ?s0)\<lparr>sv_bufs := b1\<rparr>) (path_bytes is) [] [] []" by (auto simp: path_bytes_def)
  from request_path_end [OF 1(2), of env] obtain s2 where
    2: "path_end env ((new_request ?s0)\<lparr>sv_bufs := b1\<rparr>) = Some s2" "request_at s2 (path_bytes is @ [0]) [] [] []"
      "cl_transport s2 = ?t" "cl_json s2 = (if APE_TRANSPORT_QS_ISJSON ?t then new_client_json env False None else cl_json s)"
      "cl_method s2 = HTTP_GET" "sv_keep s2 = sv_keep s" "sv_out s2 = sv_out s"
  proof -
    obtain b2 where b: "path_end env ((new_request ?s0)\<lparr>sv_bufs := b1\<rparr>) =
        Some ((new_request ?s0)\<lparr>sv_bufs := b1, sv_bufs := b2, cl_transport := ?t,
          cl_json := (if APE_TRANSPORT_QS_ISJSON ?t then new_client_json env False None else cl_json ((new_request ?s0)\<lparr>sv_bufs := b1\<rparr>))\<rparr>)"
      "request_at ((new_request ?s0)\<lparr>sv_bufs := b1, sv_bufs := b2\<rparr>) (path_bytes is @ [0]) [] [] []"
      using request_path_end [OF 1(2), of env] by auto
    show ?thesis
      by (rule that [OF b(1)]) (use b(2) r0(2) in \<open>auto simp: request_at_def request_mem_def sv_array_def sv_rest_def sv_keep_def\<close>)
  qed
  have qs: "http_callbacks env (query_events q) s2 = Some s2"
    using query_ignored [of s2 env path_item_value] q 2(3) by (cases q) auto
  have v: "ape_http_callback env HTTP_VERSION_MAJOR x s2 = Some s2" "ape_http_callback env HTTP_VERSION_MINOR x s2 = Some s2" for x
    by (simp_all add: ape_http_callback_def)
  from request_headers [OF 2(2), of env hs] obtain s' where
    3: "http_callbacks env (concat (map header_events hs)) s2 = Some s'"
      "request_at s' (path_bytes is @ [0]) (header_table hs []) [] []" "sv_rest s' = sv_rest s2" by blast
  have "http_callbacks env (request_line_events HTTP_GET is q d1 d2 @ concat (map header_events hs)) s = Some s'"
  proof -
    have m: "ape_http_callback env HTTP_METHOD (method_value HTTP_GET) s = Some (new_request ?s0)"
      by (simp add: ape_http_callback_def)
    have p: "ape_http_callback env HTTP_PATH_END 0 x = path_end env x" for x by (simp add: ape_http_callback_def)
    show ?thesis using 1(1) 2(1) qs v 3(1) m
      by (simp add: request_line_events_def http_callbacks_append p)
  qed
  with 2 3(2,3) show ?thesis by (auto simp: sv_rest_def sv_keep_def)
qed

lemma no_ready_events:
  "HTTP_READY \<notin> fst ` set (request_line_events m is q d1 d2 @ concat (map header_events hs))"
proof -
  have "HTTP_READY \<notin> fst ` set (header_events h)" for h by (cases h) auto
  moreover have "HTTP_READY \<notin> fst ` set (query_events q)" by (cases q) auto
  ultimately show ?thesis by (auto simp: request_line_events_def)
qed

text \<open>A GET request as a client sends it.\<close>

type_synonym get_request = "path_item list \<times> path_item list option \<times> byte \<times> byte \<times> header list"

fun get_text :: "get_request \<Rightarrow> byte list" where
  "get_text (is, q, d1, d2, hs) = request_line_text HTTP_GET is q d1 d2 @ concat (map header_text hs) @ [13, 10]"

fun get_ok :: "get_request \<Rightarrow> bool" where
  "get_ok (is, q, d1, d2, hs) \<longleftrightarrow> request_ok is q d1 d2 \<and> list_all header_ok hs \<and>
     (q = None \<or> \<not> APE_TRANSPORT_QS_ISJSON (transport_of (path_bytes is)))"

fun get_path :: "get_request \<Rightarrow> byte list" where
  "get_path (is, q, d1, d2, hs) = path_bytes is"

fun get_table :: "get_request \<Rightarrow> (byte list \<times> byte list) list" where
  "get_table (is, q, d1, d2, hs) = header_table hs []"

definition get_done :: "'f server_env \<Rightarrow> get_request \<Rightarrow> 'f server \<Rightarrow> 'f server \<Rightarrow> bool" where
  "get_done env r s s1 \<longleftrightarrow> (\<exists>st pa. request_done s1 st pa (get_path r @ [0]) (get_table r)) \<and> cl_method s1 = HTTP_GET \<and>
     cl_transport s1 = transport_of (get_path r) \<and>
     cl_json s1 = (if APE_TRANSPORT_QS_ISJSON (transport_of (get_path r)) then new_client_json env False None else cl_json s) \<and>
     sv_keep s1 = sv_keep s \<and> sv_out s1 = sv_out s \<and> http_isready (cl_parser s1)"

definition get_read :: "'f server_env \<Rightarrow> get_request \<Rightarrow> 'f server \<Rightarrow> 'f server \<Rightarrow> bool" where
  "get_read env r s s' \<longleftrightarrow> request_at s' (get_path r @ [0]) (get_table r) [] [] \<and> cl_method s' = HTTP_GET \<and>
     cl_transport s' = transport_of (get_path r) \<and>
     cl_json s' = (if APE_TRANSPORT_QS_ISJSON (transport_of (get_path r)) then new_client_json env False None else cl_json s) \<and>
     sv_keep s' = sv_keep s \<and> sv_out s' = sv_out s"

lemma get_run:
  assumes r: "get_ok r" and p: "cl_parser s = http_parser_reset" and cells: "pool_blocks (sv_cells s) = {}"
  shows "\<exists>cs es p q s'. get_text r = cs @ [10] \<and> http_run (cl_parser s) cs es p \<and> HTTP_READY \<notin> fst ` set es \<and>
    http_callbacks env es s = Some s' \<and> get_read env r s s' \<and>
    http_run p [10] [(HTTP_HEADER_END, 0), (HTTP_READY, 0)] q \<and> http_isready q"
proof -
  obtain "is" q d1 d2 hs where rr: "r = (is, q, d1, d2, hs)" by (cases r)
  let ?ev = "request_line_events HTTP_GET is q d1 d2 @ concat (map header_events hs)"
  let ?rx = "request_rx HTTP_GET q"
  from r have ok: "request_ok is q d1 d2" "list_all header_ok hs"
    and q: "q = None \<or> \<not> APE_TRANSPORT_QS_ISJSON (transport_of (path_bytes is))" by (simp_all add: rr)
  have fl: "\<not> bit ?rx 28" "\<not> bit ?rx 31" by (simp_all add: request_rx_bits)
  from http_run_request_line [OF ok(1)] obtain n where
    1: "http_run http_parser_reset (request_line_text HTTP_GET is q d1 d2)
      (request_line_events HTTP_GET is q d1 d2) (hp H_C1 ?rx n 0)" by blast
  note 2 = http_run_headers [OF ok(2) fl(1), of n 0]
  let ?m = "n + of_nat (length (concat (map header_text hs)))"
  have 3: "http_run (hp H_C1 ?rx ?m 0) [13] [] (hp H_FI ?rx (?m + 1) 0)"
    using fl by (intro http_run_Go) (simp_all add: http_table_simps)
  let ?p = "hp H_FI (?rx OR HTTP_FLG_READY) (?m + 1 + 1) 0"
  have 4: "http_run (hp H_FI ?rx (?m + 1) 0) [10] [(HTTP_HEADER_END, 0), (HTTP_READY, 0)] ?p"
    using http_run_Act [of H_FI 10 A_EH ?rx "?m + 1" 0] fl
    by (simp add: http_table_simps http_emit_def http_bits Let_def)
  have run: "http_run (cl_parser s) (request_line_text HTTP_GET is q d1 d2 @ concat (map header_text hs) @ [13]) ?ev
      (hp H_FI ?rx (?m + 1) 0)"
    using http_run_append [OF 1 http_run_append [OF 2 3]] p by simp
  obtain s' where s': "http_callbacks env ?ev s = Some s'" "get_read env r s s'"
    using request_callbacks [OF cells q, of env d1 d2 hs] by (auto simp: get_read_def rr)
  have t: "get_text r = (request_line_text HTTP_GET is q d1 d2 @ concat (map header_text hs) @ [13]) @ [10]" by (simp add: rr)
  have "http_isready ?p" by (rule http_ready_set)
  with t run no_ready_events s' 4 show ?thesis by blast
qed

lemma on_read_get:
  assumes on: "always_online env" and r: "get_ok r" and p: "cl_parser s = http_parser_reset"
    and cells: "pool_blocks (sv_cells s) = {}"
  shows "\<exists>s1. get_done env r s s1 \<and> (\<forall>rest. ape_server_on_read env (get_text r @ rest) s =
    (case ape_server_http_ready env s1 of None \<Rightarrow> None | Some s' \<Rightarrow> ape_server_on_read env rest s'))"
proof -
  obtain cs es p1 q s' where g: "get_text r = cs @ [10]" "http_run (cl_parser s) cs es p1" "HTTP_READY \<notin> fst ` set es"
    "http_callbacks env es s = Some s'" "get_read env r s s'"
    "http_run p1 [10] [(HTTP_HEADER_END, 0), (HTTP_READY, 0)] q" "http_isready q"
    using get_run [OF r p cells, of env] by blast
  have at: "request_at (s'\<lparr>cl_parser := q\<rparr>) (get_path r @ [0]) (get_table r) [] []"
    using g(5) by (simp add: get_read_def request_at_def request_mem_def)
  from request_ready [OF at, of env] obtain bufs st pa where
    fin: "http_callbacks env [(HTTP_HEADER_END, 0), (HTTP_READY, 0)] (s'\<lparr>cl_parser := q\<rparr>) =
        ape_server_http_ready env (s'\<lparr>cl_parser := q, sv_bufs := bufs\<rparr>)"
      "request_done (s'\<lparr>cl_parser := q, sv_bufs := bufs\<rparr>) st pa (get_path r @ [0]) (get_table r)" by auto
  let ?s1 = "s'\<lparr>cl_parser := q, sv_bufs := bufs\<rparr>"
  have "get_done env r s ?s1"
    using fin(2) g(5,7) unfolding get_done_def get_read_def by (auto simp: sv_keep_def)
  moreover have "ape_server_on_read env (get_text r @ rest) s =
    (case ape_server_http_ready env ?s1 of None \<Rightarrow> None | Some s' \<Rightarrow> ape_server_on_read env rest s')" for rest
  proof -
    have run1: "http_run (cl_parser (s'\<lparr>cl_parser := p1\<rparr>)) [10] [(HTTP_HEADER_END, 0), (HTTP_READY, 0)] q" using g(6) by simp
    have c: "http_callbacks env [(HTTP_HEADER_END, 0), (HTTP_READY, 0)] (s'\<lparr>cl_parser := p1, cl_parser := q\<rparr>) =
        ape_server_http_ready env ?s1" using fin(1) by (simp del: http_callbacks.simps)
    have e: "ape_server_on_read env (get_text r @ rest) s = ape_server_on_read env (10 # rest) (s'\<lparr>cl_parser := p1\<rparr>)"
      using on_read_run [OF on g(2,3,4), of "10 # rest"] g(1) by simp
    show ?thesis
    proof (cases "ape_server_http_ready env ?s1")
      case None
      with on_read_last_undefined [OF run1, of env rest] c e show ?thesis by simp
    next
      case (Some t)
      with on_read_last [OF on run1, of t rest] c e show ?thesis by simp
    qed
  qed
  ultimately show ?thesis by blast
qed

lemma on_read_get_prefix:
  assumes on: "always_online env" and r: "get_ok r" and p: "cl_parser s = http_parser_reset"
    and cells: "pool_blocks (sv_cells s) = {}" and xs: "get_text r = xs @ ys" "ys \<noteq> []"
  shows "\<exists>s1. ape_server_on_read env xs s = Some s1 \<and> cl_on_read s1 = cl_on_read s \<and>
    (\<forall>rest. ape_server_on_read env (xs @ rest) s = ape_server_on_read env rest s1)"
proof -
  obtain cs es p1 s' where g: "get_text r = cs @ [10]" "http_run (cl_parser s) cs es p1" "HTTP_READY \<notin> fst ` set es"
    "http_callbacks env es s = Some s'"
    using get_run [OF r p cells, of env] by blast
  have "cs = xs @ butlast ys" using g(1) xs by (metis butlast_append butlast_snoc)
  with on_read_prefix [OF on _ g(3,4)] g(2) show ?thesis by metis
qed

section \<open>What a request leads to\<close>

lemma is_websocket_get:
  assumes "request_done s st pa path tbl"
  shows "\<exists>u. request_header (bytes ''upgrade'') s = Some u \<and>
    is_websocket u s = Some (table_get (bytes ''upgrade'') tbl = Some (bytes '' websocket''))"
proof -
  obtain bs \<sigma> where d: "sv_array s = Some st" "array_table st bs \<sigma> tbl" using assms by (auto simp: request_done_def)
  have len: "length (bytes '' websocket'') = 10" by (simp add: bytes_def)
  show ?thesis
  proof (cases "table_get (bytes ''upgrade'') tbl")
    case None
    with request_header_get [OF d, of "bytes ''upgrade''"] show ?thesis by (auto simp: is_websocket_def simp del: bytes_def)
  next
    case (Some v)
    with request_header_get [OF d, of "bytes ''upgrade''"] obtain a b where
      h: "request_header (bytes ''upgrade'') s = Some (Some a)" "buf_get (sv_bufs s) a = Some b" "holds b v" by auto
    have "buf_used b = length v" using holds_used [OF h(3)] .
    moreover have "buf_bytes (length v) b = Some v" using buf_bytes_holds [OF h(3)] .
    ultimately have "is_websocket (Some a) s = Some (v = bytes '' websocket'')"
      using h(2) len by (cases "length v = 10") (auto simp: is_websocket_def)
    with h(1) Some show ?thesis by auto
  qed
qed

text \<open>Only the owner's path is freed besides the table.\<close>

lemma http_request_done:
  assumes d: "request_done s st pa path tbl" and t: "cl_transport s = APE_TRANSPORT_NU \<or> cl_transport s = APE_TRANSPORT_FT"
  shows "\<exists>s'. http_request s = Some s' \<and> sv_out s' = sv_out s @ [SO_request (cl_method s) pa st] \<and>
    cl_parser s' = http_parser_reset \<and> cl_transport s' = APE_TRANSPORT_NU \<and> cl_path s' = None \<and>
    pool_blocks (sv_cells s') = {} \<and> cl_json s' = cl_json s \<and> sv_keep s' = sv_keep s"
proof -
  obtain bs \<sigma> where r: "sv_array s = Some st" "array_rep {} st bs \<sigma>" "cl_path s = Some pa" "array_fresh st \<sigma> pa path"
    using d by (auto simp: request_done_def array_table_def)
  obtain h bufs where x: "ape_array_destroy st = Some (h, bufs)" "pool_blocks h = {}"
    "buf_get bufs = buf_without (\<Union>b\<in>pool_blocks (as_cells st). slot_owns (\<sigma> (b, 0))) (as_bufs st)"
    using array_destroy_rep [OF r(2)] by blast
  have "buf_get bufs pa \<noteq> None" using r(4) x(3) by (auto simp: array_fresh_def buf_without_def)
  from buffer_destroy_get [OF this] obtain b2 where "buffer_destroy (Some pa) bufs = Some b2" by blast
  with r(1,3) x(1,2) t show ?thesis by (auto simp: http_request_def sv_free_buf_def Let_def sv_keep_def)
qed

lemma http_ready_plain:
  assumes d: "request_done s st pa path tbl" and t: "cl_transport s = APE_TRANSPORT_NU \<or> cl_transport s = APE_TRANSPORT_FT"
    and u: "table_get (bytes ''upgrade'') tbl \<noteq> Some (bytes '' websocket'')"
  shows "\<exists>s'. ape_server_http_ready env s = Some s' \<and> sv_out s' = sv_out s @ [SO_request (cl_method s) pa st] \<and>
    cl_parser s' = http_parser_reset \<and> cl_transport s' = APE_TRANSPORT_NU \<and> cl_path s' = None \<and>
    pool_blocks (sv_cells s') = {} \<and> cl_json s' = cl_json s \<and> sv_keep s' = sv_keep s"
proof -
  obtain bs \<sigma> where r: "sv_array s = Some st" "array_table st bs \<sigma> tbl" using d by (auto simp: request_done_def)
  obtain h where "request_header (bytes ''host'') s = Some h"
    using request_header_get [OF r, of "bytes ''host''"] by (auto split: option.splits)
  moreover obtain w where "request_header (bytes ''upgrade'') s = Some w" "is_websocket w s = Some False"
    using is_websocket_get [OF d] u by auto
  ultimately have "ape_server_http_ready env s = http_request s" by (simp add: ape_server_http_ready_def)
  with http_request_done [OF d t] show ?thesis by simp
qed

lemma request_header_lookup:
  assumes "request_header nm s = Some (Some y)" "sv_array s = Some st"
  shows "ape_array_lookup nm st = Some (Some (Ptr_Buf y))"
proof -
  obtain r where r: "ape_array_lookup nm st = Some r"
    "(case r of None \<Rightarrow> Some None | Some (Ptr_Buf a) \<Rightarrow> Some (Some a) | Some (Ptr_Data _) \<Rightarrow> None) = Some (Some y)"
    using assms by (auto simp: request_header_def bind_eq_Some_conv)
  show ?thesis
  proof (cases r)
    case (Some p)
    with r show ?thesis by (cases p) auto
  qed (use r in simp)
qed

text \<open>The buffers of two headers whose names differ in length are different.\<close>

lemma headers_apart:
  assumes t: "array_table st bs \<sigma> tbl" and n: "length n1 \<noteq> length n2"
    and a: "ape_array_lookup n1 st = Some (Some (Ptr_Buf a1))" "ape_array_lookup n2 st = Some (Some (Ptr_Buf a2))"
  shows "a1 \<noteq> a2"
proof -
  have r: "array_rep {} st bs \<sigma>" using t by (simp add: array_table_def)
  have slot: "\<exists>x k ka. \<sigma> x = Some (k, ka, Some (Ptr_Buf a)) \<and> length k = length nm"
    if "ape_array_lookup nm st = Some (Some (Ptr_Buf a))" for nm a
  proof -
    let ?P = "\<lambda>k. length k = length nm \<and> strncasecmp_eq nm k"
    have "array_val \<sigma> bs ?P = Some (Ptr_Buf a)" using array_lookups(3) [OF r, of nm] that by simp
    then show ?thesis using array_table_find [OF t, of ?P]
      by (fastforce simp: array_val_def bind_eq_Some_conv split: option.splits)
  qed
  obtain x k ka where x: "\<sigma> x = Some (k, ka, Some (Ptr_Buf a1))" "length k = length n1" using slot [OF a(1)] by blast
  obtain y l la where y: "\<sigma> y = Some (l, la, Some (Ptr_Buf a2))" "length l = length n2" using slot [OF a(2)] by blast
  have "x \<noteq> y" using x y n by auto
  from array_repD(5) [OF r this] x(1) y(1) show ?thesis by auto
qed

lemma strtok_proto_holds:
  assumes h: "holds b (v @ [0])" and v: "v \<noteq> []" "0 \<notin> set v"
  shows "\<exists>b'. strtok_proto b = Some b'"
proof -
  obtain block where bl: "buf_data b = Some block" "length v + 1 \<le> length block" "take (length v + 1) block = map Some (v @ [0])"
    using h by (auto simp: holds_def split: option.splits)
  have "block = map Some (v @ [0]) @ drop (length v + 1) block"
    using append_take_drop_id [of "length v + 1" block] unfolding bl(3) by (rule sym)
  then obtain rest where rest: "block = map Some (v @ [0]) @ rest" by blast
  obtain c v' where cv: "v = c # v'" using v(1) by (cases v) auto
  have "drop 1 block = map Some (v' @ [0]) @ rest" by (simp add: rest cv)
  then have s: "strlen_from 0 (drop 1 block) = Some (length v')" using strlen_from_zero [of v' 0] v(2) cv by simp
  have b: "buf_bytes (length v' + 1) b = Some v" using buf_bytes_prefix [OF h, of "length v"] cv by simp
  have l: "length (strtok_all tk xs) = length xs" for tk xs by (induction xs arbitrary: tk) auto
  show ?thesis using bl(1,2) s b cv l by (simp add: strtok_proto_def buf_write_def)
qed

definition upgrade_ok :: "(byte list \<times> byte list) list \<Rightarrow> byte list \<Rightarrow> bool" where
  "upgrade_ok tbl key \<longleftrightarrow> table_get (bytes ''upgrade'') tbl = Some (bytes '' websocket'') \<and>
     (\<exists>c. table_get (bytes ''Sec-WebSocket-Key'') tbl = Some (c # key)) \<and>
     (\<forall>p. table_get (bytes ''Sec-WebSocket-Protocol'') tbl = Some p \<longrightarrow> p \<noteq> [] \<and> 0 \<notin> set p)"

lemma http_ready_upgrade:
  assumes d: "request_done s st pa path tbl"
    and u: "table_get (bytes ''upgrade'') tbl = Some (bytes '' websocket'')"
    and k: "table_get (bytes ''Sec-WebSocket-Key'') tbl = Some v"
  shows "\<exists>a b. ape_server_http_ready env s = http_upgrade env a (s\<lparr>cl_transport := APE_TRANSPORT_WS\<rparr>) \<and>
    request_header (bytes ''Sec-WebSocket-Key'') s = Some (Some a) \<and> buf_get (sv_bufs s) a = Some b \<and> holds b v"
proof -
  obtain bs \<sigma> where r: "sv_array s = Some st" "array_table st bs \<sigma> tbl" using d by (auto simp: request_done_def)
  obtain h where "request_header (bytes ''host'') s = Some h"
    using request_header_get [OF r, of "bytes ''host''"] by (auto split: option.splits)
  moreover obtain w where "request_header (bytes ''upgrade'') s = Some w" "is_websocket w s = Some True"
    using is_websocket_get [OF d] u by auto
  moreover obtain a b where "request_header (bytes ''Sec-WebSocket-Key'') s = Some (Some a)" "buf_get (sv_bufs s) a = Some b" "holds b v"
    using request_header_get [OF r, of "bytes ''Sec-WebSocket-Key''"] k by auto
  ultimately show ?thesis by (auto simp: ape_server_http_ready_def)
qed

lemma request_header_transport [simp]: "request_header n (s\<lparr>cl_transport := t\<rparr>) = request_header n s"
  by (simp add: request_header_def sv_array_def)

lemma http_upgrade_ok:
  assumes d: "request_done s st pa path tbl" and u: "upgrade_ok tbl key" "length key \<le> 32"
    and sha: "length (sc_buffer (en_sha env)) = 64"
  shows "\<exists>s'. ape_server_http_ready env s = Some s' \<and>
    sv_out s' = sv_out s @ map SO_write (upgrade_response (rfc_base64 (fips_sha1 (key @ ws_guid)))) \<and>
    cl_on_read s' = On_read_ws \<and> cl_ws_state s' = Some (ws_init (en_ws env)) \<and> cl_json s' = cl_json s \<and>
    cl_session s' = cl_session s \<and> sv_items s' = sv_items s \<and> sv_global s' = sv_global s \<and> cl_parser s' = cl_parser s"
proof -
  obtain c where t: "table_get (bytes ''upgrade'') tbl = Some (bytes '' websocket'')"
    "table_get (bytes ''Sec-WebSocket-Key'') tbl = Some (c # key)"
    and pr: "\<And>p. table_get (bytes ''Sec-WebSocket-Protocol'') tbl = Some p \<Longrightarrow> p \<noteq> [] \<and> 0 \<notin> set p"
    using u(1) unfolding upgrade_ok_def by blast
  from http_ready_upgrade [OF d t, of env] obtain a b where
    h: "ape_server_http_ready env s = http_upgrade env a (s\<lparr>cl_transport := APE_TRANSPORT_WS\<rparr>)"
      "request_header (bytes ''Sec-WebSocket-Key'') s = Some (Some a)" "buf_get (sv_bufs s) a = Some b" "holds b (c # key)" by blast
  obtain bs \<sigma> where r: "sv_array s = Some st" "array_table st bs \<sigma> tbl" using d by (auto simp: request_done_def)
  let ?s = "s\<lparr>cl_transport := APE_TRANSPORT_WS\<rparr>"
  have ck: "ape_ws_compute_key (en_sha env) key = Some (rfc_base64 (fips_sha1 (key @ ws_guid)))"
    using ws_compute_key_rfc [OF sha, of key] u(2) by simp
  have bb: "buf_used b = length (c # key)" "buf_bytes (length (c # key)) b = Some (c # key)"
    using holds_used [OF h(4)] buf_bytes_holds [OF h(4)] by simp_all
  obtain w bufs where w: "request_header (bytes ''Sec-WebSocket-Protocol'') s = Some w"
    "(case w of None \<Rightarrow> Some ?s | Some p \<Rightarrow> Option.bind (sv_buf (Some p) (buffer_append_char 0) ?s) (sv_buf (Some p) strtok_proto)) =
      Some (?s\<lparr>sv_bufs := bufs\<rparr>)" "buf_get bufs a = Some b"
  proof (cases "table_get (bytes ''Sec-WebSocket-Protocol'') tbl")
    case None
    then have "request_header (bytes ''Sec-WebSocket-Protocol'') s = Some None"
      using request_header_get [OF r, of "bytes ''Sec-WebSocket-Protocol''"] by simp
    from that [OF this, of "sv_bufs s"] h(3) show ?thesis by simp
  next
    case (Some p)
    then obtain x xb where x: "request_header (bytes ''Sec-WebSocket-Protocol'') s = Some (Some x)"
      "buf_get (sv_bufs s) x = Some xb" "holds xb p"
      using request_header_get [OF r, of "bytes ''Sec-WebSocket-Protocol''"] by auto
    have n: "length (bytes ''Sec-WebSocket-Key'') \<noteq> length (bytes ''Sec-WebSocket-Protocol'')" by (simp add: bytes_def)
    have ax: "a \<noteq> x" by (rule headers_apart [OF r(2) n request_header_lookup [OF h(2) r(1)] request_header_lookup [OF x(1) r(1)]])
    obtain b1 where b1: "buffer_append_char 0 xb = Some b1" "holds b1 (p @ [0])" using append_char_holds x(3) by blast
    obtain bufs1 where f1: "buf_upd x (buffer_append_char 0) (sv_bufs s) = Some bufs1" "buf_get bufs1 = (buf_get (sv_bufs s))(x := Some b1)"
      using buf_upd_get [of "sv_bufs s" x xb "buffer_append_char 0" b1, OF x(2) b1(1)] by blast
    obtain b2 where b2: "strtok_proto b1 = Some b2" using strtok_proto_holds [OF b1(2)] pr [OF Some] by blast
    have "buf_get bufs1 x = Some b1" using f1(2) by simp
    from buf_upd_get [of bufs1 x b1 strtok_proto b2, OF this b2] obtain bufs2 where
      f2: "buf_upd x strtok_proto bufs1 = Some bufs2" "buf_get bufs2 = (buf_get bufs1)(x := Some b2)" by blast
    from that [OF x(1), of bufs2] f1 f2 ax h(3) show ?thesis by (simp add: sv_buf_def)
  qed
  then have "http_upgrade env a ?s = Some ((sv_write (upgrade_response (rfc_base64 (fips_sha1 (key @ ws_guid)))) (?s\<lparr>sv_bufs := bufs\<rparr>))
      \<lparr>cl_on_read := On_read_ws, cl_ws_state := Some (ws_init (en_ws env))\<rparr>)"
    using bb ck by (simp add: http_upgrade_def)
  with h(1) show ?thesis by (simp add: sv_write_def)
qed

lemma http_upgrade_crash:
  assumes d: "request_done s st pa path tbl"
    and t: "table_get (bytes ''upgrade'') tbl = Some (bytes '' websocket'')"
      "table_get (bytes ''Sec-WebSocket-Key'') tbl = Some v" "v = [] \<or> 33 < length v"
  shows "ape_server_http_ready env s = None"
proof -
  from http_ready_upgrade [OF d t(1,2), of env] obtain a b where
    h: "ape_server_http_ready env s = http_upgrade env a (s\<lparr>cl_transport := APE_TRANSPORT_WS\<rparr>)"
      "request_header (bytes ''Sec-WebSocket-Key'') s = Some (Some a)" "buf_get (sv_bufs s) a = Some b" "holds b v" by blast
  obtain bs \<sigma> where r: "sv_array s = Some st" "array_table st bs \<sigma> tbl" using d by (auto simp: request_done_def)
  let ?s = "s\<lparr>cl_transport := APE_TRANSPORT_WS\<rparr>"
  have bb: "buf_used b = length v" "buf_bytes (length v) b = Some v"
    using holds_used [OF h(4)] buf_bytes_holds [OF h(4)] by simp_all
  have ck: "ape_ws_compute_key (en_sha env) (tl v) = None" if "v \<noteq> []"
    using that t(3) by (cases v) (auto simp: ape_ws_compute_key_def)
  have nm: "length (bytes ''Sec-WebSocket-Key'') \<noteq> length (bytes ''Sec-WebSocket-Protocol'')" by (simp add: bytes_def)
  have keep: "buf_get bufs a = Some b" if "sv_buf (Some x) f s1 = Some (s1\<lparr>sv_bufs := bufs\<rparr>)" "a \<noteq> x" "buf_get (sv_bufs s1) a = Some b"
    for x f and s1 :: "'a server" and bufs
    using that by (cases s1) (auto simp: sv_buf_def buf_upd_def bind_eq_Some_conv buf_get_def split: if_splits)
  have upd: "\<exists>bufs. s2 = s1\<lparr>sv_bufs := bufs\<rparr>" if "sv_buf p f s1 = Some s2" for p f and s1 s2 :: "'a server"
    using that by (auto simp: sv_buf_def bind_eq_Some_conv)
  show ?thesis
  proof (rule ccontr)
    assume "ape_server_http_ready env s \<noteq> None"
    then obtain w s2 where w: "request_header (bytes ''Sec-WebSocket-Protocol'') s = Some w"
      "(case w of None \<Rightarrow> Some ?s | Some x \<Rightarrow> Option.bind (sv_buf (Some x) (buffer_append_char 0) ?s) (sv_buf (Some x) strtok_proto)) = Some s2"
      and fin: "Option.bind (buf_get (sv_bufs s2) a) (\<lambda>k. if buf_used k = 0 then None
         else Option.bind (buf_bytes (buf_used k) k) (\<lambda>key.
           Option.bind (ape_ws_compute_key (en_sha env) (tl key)) (\<lambda>ck. Some (ck, key)))) \<noteq> None"
      unfolding h(1) http_upgrade_def by (auto simp: bind_eq_Some_conv split: if_splits)
    have "buf_get (sv_bufs s2) a = Some b"
    proof (cases w)
      case None
      with w(2) h(3) show ?thesis by auto
    next
      case (Some x)
      have ax: "a \<noteq> x" by (rule headers_apart [OF r(2) nm request_header_lookup [OF h(2) r(1)] request_header_lookup [OF _ r(1)]]) (use w(1) Some in simp)
      from w(2) Some obtain s1 where s1: "sv_buf (Some x) (buffer_append_char 0) ?s = Some s1" "sv_buf (Some x) strtok_proto s1 = Some s2"
        by (auto simp: bind_eq_Some_conv)
      obtain u1 u2 where u: "s1 = ?s\<lparr>sv_bufs := u1\<rparr>" "s2 = s1\<lparr>sv_bufs := u2\<rparr>" using upd [OF s1(1)] upd [OF s1(2)] by blast
      have "buf_get u1 a = Some b" by (rule keep [OF s1(1) [unfolded u(1)] ax]) (simp add: h(3))
      then have "buf_get (sv_bufs s1) a = Some b" by (simp add: u(1))
      from keep [OF s1(2) [unfolded u(2)] ax this] show ?thesis by (simp add: u(2))
    qed
    with fin bb ck show False by (cases "v = []") auto
  qed
qed

section \<open>The frames of a connection\<close>

lemma json_feed_ctx:
  assumes "je_callback E = Some cb"
  shows "json_feed E jc cs = (jc', ev, v) \<Longrightarrow> jp_ctx jc' = foldl (\<lambda>c e. fst (cb c e)) (jp_ctx jc) ev"
proof (induction cs arbitrary: jc ev)
  case (Cons c cs)
  obtain jc1 ev1 v1 where s: "JSON_parser_char E jc (uint c) = (jc1, ev1, v1)" by (cases "JSON_parser_char E jc (uint c)")
  then have s': "json_char E jc c = (jc1, ev1, v1)" by (simp add: json_char_def)
  have x: "jp_ctx jc1 = foldl (\<lambda>c e. fst (cb c e)) (jp_ctx jc) ev1"
    using follows_char [of E jc "uint c"] assms by (simp add: ctx_follows_def s)
  show ?case
  proof (cases "v1 = Accept")
    case True
    obtain ev2 where "json_feed E jc1 cs = (jc', ev2, v)" "ev = ev1 @ ev2"
      using Cons.prems s' True by (auto split: prod.splits)
    with Cons.IH [of jc1 ev2] x show ?thesis by simp
  next
    case False
    with Cons.prems s' x show ?thesis by auto
  qed
qed simp

text \<open>A context that is gone stays gone.\<close>

definition cj_ok :: "'f client_json \<Rightarrow> bool" where
  "cj_ok j \<longleftrightarrow> (cj_callback j \<longrightarrow> jp_ctx (cj_parser j) = None)"

lemma client_json_feed_ok:
  assumes "client_json_feed env cs j = Some (j', v)" "cj_ok j"
  shows "cj_ok j' \<and> cj_callback j' = cj_callback j"
proof -
  let ?E = "server_json_env env (cj_callback j)"
  obtain jc ev w where f: "json_feed ?E (cj_parser j) cs = (jc, ev, w)" by (cases "json_feed ?E (cj_parser j) cs")
  with assms(1) have j': "j' = j\<lparr>cj_parser := jc\<rparr>" by (auto simp: client_json_feed_def split: if_splits)
  have "jp_ctx jc = None" if c: "cj_callback j"
  proof -
    have cb: "je_callback ?E = Some (json_tree_callback (en_libm env))" using c by (simp add: server_json_env_def)
    have "foldl (\<lambda>x e. fst (json_tree_callback L x e)) None es = None" for L :: "'a json_libm" and es
      by (induction es) (simp_all add: json_tree_callback_def)
    then show ?thesis using json_feed_ctx [OF cb f] assms(2) c by (simp add: cj_ok_def)
  qed
  then show ?thesis by (simp add: j' cj_ok_def)
qed

lemma ws_frame_ignored:
  assumes j: "cl_json s = Some j" "cj_ok j" and r: "ape_server_on_ws_frame env data s = Some s'"
  shows "cl_session s' = cl_session s \<and> sv_global s' = sv_global s \<and> cl_on_read s' = cl_on_read s \<and>
    cl_ws_state s' = cl_ws_state s \<and> (\<exists>j'. cl_json s' = Some j' \<and> cj_ok j')"
proof -
  from r j obtain j1 v where f: "client_json_feed env data j = Some (j1, v)"
    by (auto simp: ape_server_on_ws_frame_def ws_frame_json_def bind_eq_Some_conv)
  note ok = client_json_feed_ok [OF f j(2)]
  obtain jc w where d: "(if v = Accept then (case JSON_parser_done (cj_parser j1) of (jc, ev, v) \<Rightarrow> (jc, v)) else (cj_parser j1, v)) = (jc, w)"
    by (cases "if v = Accept then (case JSON_parser_done (cj_parser j1) of (jc, ev, v) \<Rightarrow> (jc, v)) else (cj_parser j1, v)")
  have "jp_ctx jc = jp_ctx (cj_parser j1)"
    using d follows_done [of "cj_parser j1"] by (auto split: if_splits prod.splits)
  then have c: "(if cj_callback j1 then jp_ctx jc else None) = None" using ok by (auto simp: cj_ok_def)
  let ?s = "s\<lparr>cl_json := Some (j1\<lparr>cj_parser := jc\<lparr>jp_ctx := None\<rparr>\<rparr>)\<rparr>"
  have e: "ws_frame_json env data s = (if w = Abort then None else Some (?s, None, w = Accept))"
    unfolding ws_frame_json_def j(1) Option.bind.bind_lunit f d Let_def prod.case c option.case by (cases s) simp
  have m: "ape_cmd_process_multi os h None cl st = Some st" for os and h :: "'a json_heap" and cl st
    by (simp add: ape_cmd_process_multi_def)
  have k: "cj_ok (j1\<lparr>cj_parser := jc\<lparr>jp_ctx := None\<rparr>\<rparr>)" by (simp add: cj_ok_def)
  show ?thesis
    using r k by (auto simp: ape_server_on_ws_frame_def j(1) e m sv_write_def split: if_splits)
qed

lemma ws_events_ignored:
  "cl_json s = Some j \<Longrightarrow> cj_ok j \<Longrightarrow> ws_events env es s = Some s' \<Longrightarrow>
   cl_session s' = cl_session s \<and> sv_global s' = sv_global s \<and> cl_on_read s' = cl_on_read s \<and>
   cl_ws_state s' = cl_ws_state s \<and> (\<exists>j'. cl_json s' = Some j' \<and> cj_ok j')"
proof (induction es arbitrary: s j)
  case (Cons e es)
  obtain s1 where s1: "(case e of WS_write bs \<Rightarrow> Some (sv_write [bs] s) | WS_shutdown \<Rightarrow> Some (s\<lparr>sv_out := sv_out s @ [SO_shutdown]\<rparr>)
      | WS_on_frame data \<Rightarrow> ape_server_on_ws_frame env data s) = Some s1" "ws_events env es s1 = Some s'"
    using Cons.prems(3) by (auto simp: bind_eq_Some_conv)
  have "cl_session s1 = cl_session s \<and> sv_global s1 = sv_global s \<and> cl_on_read s1 = cl_on_read s \<and>
      cl_ws_state s1 = cl_ws_state s \<and> (\<exists>j'. cl_json s1 = Some j' \<and> cj_ok j')"
    using s1(1) Cons.prems(1,2) ws_frame_ignored [OF Cons.prems(1,2)]
    by (cases e) (auto simp: sv_write_def)
  with Cons.IH s1(2) show ?case by metis
qed auto

lemma ws_on_read_ignored:
  assumes "cl_json s = Some j" "cj_ok j" "ws_on_read env buf s = Some s'"
  shows "cl_session s' = cl_session s \<and> sv_global s' = sv_global s \<and> cl_on_read s' = cl_on_read s \<and>
    cl_ws_state s' \<noteq> None \<and> (\<exists>j'. cl_json s' = Some j' \<and> cj_ok j')"
proof -
  obtain ws where ws: "cl_ws_state s = Some ws" using assms(3) by (auto simp: ws_on_read_def bind_eq_Some_conv)
  obtain ws' ev v where p: "ape_ws_process_frame (en_malloc env) buf ws = (ws', ev, v)"
    by (cases "ape_ws_process_frame (en_malloc env) buf ws")
  with assms(3) ws have "ws_events env ev (s\<lparr>cl_ws_state := Some ws'\<rparr>) = Some s'"
    by (simp add: ws_on_read_def split: if_splits)
  from ws_events_ignored [OF _ assms(2) this] assms(1) show ?thesis by simp
qed

text \<open>The first message: what the document's tree says.\<close>

primrec jt_kids :: "'f jtree \<Rightarrow> 'f jtree list" where "jt_kids (JT a d ts) = ts"

definition env_ok :: "'f server_env \<Rightarrow> bool" where
  "env_ok env \<longleftrightarrow> always_online env \<and> (\<forall>why n. en_alloc env why n) \<and> en_point env = 46 \<and> malloc_ok (en_malloc env) \<and>
     length (sc_buffer (en_sha env)) = 64 \<and> length (ws_frame_payload (en_ws env)) = 10 \<and> length (ws_key_val (en_ws env)) = 4"

lemma env_ok_ws: "env_ok env \<Longrightarrow> ws_ready (ws_init (en_ws env)) \<and> ws_offset (ws_init (en_ws env)) = 0"
  by (auto simp: env_ok_def ws_ready_def ws_init_def ws_set_extended_length_payload payload_set_simps)

definition message_ok :: "jval \<Rightarrow> byte list \<Rightarrow> byte list \<Rightarrow> bool" where
  "message_ok v w0 w1 \<longleftrightarrow> (\<exists>w es ms. v = JArray w es \<or> v = JObject w ms) \<and> jval_ok v \<and> jval_depth v \<le> 15 \<and> json_ws w0 \<and> json_ws w1"

lemma ws_frame_first:
  assumes env: "env_ok env" and v: "message_ok v w0 w1" and j: "cl_json s = None" and c: "cmds_inv (en_os env) (sv_global s)"
    and run: "run_commands (en_os env) (en_client env) (jt_kids (jval_tree v (en_libm env) None w1 (length (sv_items s))))
      (cl_session s, sv_global s) = Some (se, g)"
  shows "\<exists>s'. ape_server_on_ws_frame env (w0 @ jval_text v @ w1) s = Some s' \<and> cl_session s' = se \<and> sv_global s' = g \<and>
    sv_out s' = sv_out s @ [SO_wsframe (w0 @ jval_text v @ w1)] \<and> cl_on_read s' = cl_on_read s \<and>
    cl_ws_state s' = cl_ws_state s \<and> (\<exists>j'. cl_json s' = Some j' \<and> cj_ok j')"
proof -
  let ?E = "server_json_env env True" and ?L = "en_libm env" and ?h = "sv_items s" and ?doc = "w0 @ jval_text v @ w1"
  let ?t = "jval_tree v ?L None w1 (length ?h)"
  from env have al: "\<forall>why n. en_alloc env why n" and pt: "en_point env = 46" by (simp_all add: env_ok_def)
  have E: "?E = json_tree_env ?L (en_alloc env) 46" by (simp add: server_json_env_def json_tree_env_def pt)
  have cfg: "http_json_config = json_tree_config" by (simp add: http_json_config_def json_tree_config_def)
  from v obtain w es ms where va: "v = JArray w es \<or> v = JObject w ms" by (auto simp: message_ok_def)
  have vo: "jval_ok v" "jval_depth v \<le> 15" "json_ws w0" "json_ws w1" using v by (auto simp: message_ok_def)
  obtain jc where jc: "new_JSON_parser ?E (Some http_json_config) (Some (cx_start ?h)) = Some jc"
    "jp_ctx jc = Some (cx_start ?h)" "\<not> jp_handle_floats_manually jc"
    using json_tree_new [OF al, of ?L 46 "Some (cx_start ?h)"] unfolding E cfg by blast
  have d: "json_depth (Some http_json_config) = 15" by (simp add: json_depth_def http_json_config_def)
  have Eok: "json_env_ok ?E" unfolding E by (rule json_tree_env_ok [OF al])
  obtain jc1 where f: "json_feed ?E jc ?doc = (jc1, jval_events v w1, Accept)" "snd (snd (JSON_parser_done jc1)) = Accept"
    using json_document_read [OF Eok _ jc(1) _ _ jc(3) va vo(1) _ vo(3,4)] vo(2)
    by (auto simp: d) (auto simp: server_json_env_def pt)
  have cb: "je_callback ?E = Some (json_tree_callback ?L)" by (simp add: server_json_env_def)
  obtain cx where cx: "cb_run ?L (jval_events v w1) (cx_start ?h) = Some cx"
    "cx_have cx ?t None (Some (length ?h))" "below (length ?h) ?h (cx_heap cx)"
    using cb_text [OF va] by blast
  have c1: "jp_ctx jc1 = Some cx" using json_feed_ctx [OF cb f(1)] cx(1) by (simp add: jc(2) json_tree_fold)
  obtain jc2 ev v2 where dn: "JSON_parser_done jc1 = (jc2, ev, v2)" by (cases "JSON_parser_done jc1")
  with f(2) follows_done [of jc1] c1 have v2: "v2 = Accept" "jp_ctx jc2 = Some cx" by simp_all
  let ?s0 = "s\<lparr>cl_json := Some \<lparr>cj_parser = jc, cj_callback = True\<rparr>\<rparr>"
  let ?j = "\<lparr>cj_parser = jc2\<lparr>jp_ctx := None\<rparr>, cj_callback = True\<rparr>"
  have new: "new_client_json env True (Some (cx_start ?h)) = Some \<lparr>cj_parser = jc, cj_callback = True\<rparr>"
    by (simp add: new_client_json_def jc(1))
  have fd: "client_json_feed env ?doc \<lparr>cj_parser = jc, cj_callback = True\<rparr> = Some (\<lparr>cj_parser = jc1, cj_callback = True\<rparr>, Accept)"
    using f(1) c1 by (simp add: client_json_feed_def)
  have fr: "ws_frame_json env ?doc ?s0 = Some (s\<lparr>cl_json := Some ?j, sv_items := cx_heap cx\<rparr>, cx_head cx, True)"
    using v2 by (cases s) (simp add: ws_frame_json_def fd dn del: append_assoc)
  have r: "jrep (cx_heap cx) None (cx_head cx) [?t]" using cx(2) by (auto simp: cx_have_def jval_tree_at)
  obtain a dd ts where t: "?t = JT a dd ts" by (cases ?t)
  have "ape_cmd_process_multi (en_os env) (cx_heap cx) (cx_head cx) (en_client env) (cl_session s, sv_global s) = Some (se, g)"
    using process_multi_run [of "cx_heap cx" None "cx_head cx" a dd ts "[]" "en_os env" "(cl_session s, sv_global s)" "en_client env"]
      r run c by (simp add: t)
  then have "ape_server_on_ws_frame env ?doc s = Some (s\<lparr>cl_json := Some ?j, sv_items := cx_heap cx, cl_session := se, sv_global := g,
      sv_out := sv_out s @ [SO_wsframe ?doc]\<rparr>)"
    using fr by (simp add: ape_server_on_ws_frame_def j new del: append_assoc)
  then show ?thesis by (auto simp: cj_ok_def)
qed

section \<open>A connection from its start\<close>

lemma sv_reads_nil [simp]: "Option.bind x (sv_reads env []) = x"
  by (cases x) simp_all

lemma sv_reads_append: "sv_reads env (as @ bs) s = Option.bind (sv_reads env as s) (sv_reads env bs)"
  by (induction as arbitrary: s) (auto split: bind_split)

lemma sv_reads_then: "sv_reads env as s = Some s1 \<Longrightarrow> sv_on_read env b s1 = Some s2 \<Longrightarrow> sv_reads env (as @ [b]) s = Some s2"
  by (simp add: sv_reads_append)

text \<open>A request in pieces, the last of which is not empty.\<close>

lemma sv_reads_get_prefix:
  assumes on: "always_online env" and r: "get_ok r" and p: "cl_parser s = http_parser_reset"
    and cells: "pool_blocks (sv_cells s) = {}" and h: "cl_on_read s = On_read_http"
  shows "get_text r = concat bs @ ys \<Longrightarrow> ys \<noteq> [] \<Longrightarrow>
    \<exists>s1. sv_reads env bs s = Some s1 \<and> cl_on_read s1 = On_read_http \<and>
      (\<forall>rest. ape_server_on_read env (concat bs @ rest) s = ape_server_on_read env rest s1)"
proof (induction bs arbitrary: ys rule: rev_induct)
  case Nil
  then show ?case by (simp add: h)
next
  case (snoc b bs)
  obtain s1 where s1: "sv_reads env bs s = Some s1" "cl_on_read s1 = On_read_http"
    "\<And>rest. ape_server_on_read env (concat bs @ rest) s = ape_server_on_read env rest s1"
    using snoc.IH [of "b @ ys"] snoc.prems by auto
  have "get_text r = (concat bs @ b) @ ys" using snoc.prems(1) by simp
  from on_read_get_prefix [OF on r p cells this snoc.prems(2)] obtain s2 where
    s2: "ape_server_on_read env (concat bs @ b) s = Some s2" "cl_on_read s2 = cl_on_read s"
      "\<And>rest. ape_server_on_read env ((concat bs @ b) @ rest) s = ape_server_on_read env rest s2" by blast
  have "sv_on_read env b s1 = Some s2" using s1(2,3) s2(1) by (simp add: sv_on_read_def)
  with s1(1) s2(2,3) h show ?case by (simp add: sv_reads_append)
qed

lemma sv_reads_get:
  assumes "always_online env" "get_ok r" "cl_parser s = http_parser_reset" "pool_blocks (sv_cells s) = {}"
    "cl_on_read s = On_read_http" "get_text r = concat bs @ b" "b \<noteq> []"
  shows "sv_reads env (bs @ [b @ rest]) s = ape_server_on_read env (get_text r @ rest) s"
proof -
  obtain s1 where "sv_reads env bs s = Some s1" "cl_on_read s1 = On_read_http"
    "\<And>rest. ape_server_on_read env (concat bs @ rest) s = ape_server_on_read env rest s1"
    using sv_reads_get_prefix [OF assms] by blast
  then show ?thesis by (simp add: sv_reads_append assms(6) sv_on_read_def)
qed

lemma on_connect_simps [simp]:
  "cl_parser (ape_server_on_connect s) = http_parser_reset" "sv_cells (ape_server_on_connect s) = sv_cells s"
  "cl_on_read (ape_server_on_connect s) = On_read_http" "sv_out (ape_server_on_connect s) = []"
  "cl_session (ape_server_on_connect s) = None" "sv_global (ape_server_on_connect s) = sv_global s"
  "sv_items (ape_server_on_connect s) = sv_items s" "cl_json (ape_server_on_connect s) = None"
  "cl_path (ape_server_on_connect s) = None"
  by (simp_all add: ape_server_on_connect_def)

text \<open>A request that is only reported, and what the report says.\<close>

definition plain_get :: "get_request \<Rightarrow> bool" where
  "plain_get r \<longleftrightarrow> get_ok r \<and> \<not> APE_TRANSPORT_QS_ISJSON (transport_of (get_path r)) \<and>
     table_get (bytes ''upgrade'') (get_table r) \<noteq> Some (bytes '' websocket'')"

definition get_reported :: "get_request \<Rightarrow> server_out \<Rightarrow> bool" where
  "get_reported r out \<longleftrightarrow>
     (\<exists>a b st. out = SO_request HTTP_GET a st \<and> buf_get (as_bufs st) a = Some b \<and> holds b (get_path r @ [0]) \<and>
        (\<forall>name. case table_get name (get_table r) of
            None \<Rightarrow> ape_array_lookup name st = Some None
          | Some v \<Rightarrow> \<exists>x b. ape_array_lookup name st = Some (Some (Ptr_Buf x)) \<and> buf_get (as_bufs st) x = Some b \<and> holds b v))"

lemma request_done_reported:
  assumes "request_done s st pa (get_path r @ [0]) (get_table r)"
  shows "get_reported r (SO_request HTTP_GET pa st)"
proof -
  obtain bs \<sigma> where d: "array_table st bs \<sigma> (get_table r)" "array_fresh st \<sigma> pa (get_path r @ [0])"
    using assms by (auto simp: request_done_def)
  from d(2) obtain b where "buf_get (as_bufs st) pa = Some b" "holds b (get_path r @ [0])" by (auto simp: array_fresh_def)
  with array_table_get [OF d(1)] show ?thesis by (auto simp: get_reported_def)
qed

lemma on_read_gets:
  assumes on: "always_online env"
  shows "list_all plain_get rs \<Longrightarrow> cl_parser s = http_parser_reset \<Longrightarrow> pool_blocks (sv_cells s) = {} \<Longrightarrow>
    \<exists>s' out. ape_server_on_read env (concat (map get_text rs)) s = Some s' \<and> sv_out s' = sv_out s @ out \<and>
      list_all2 get_reported rs out \<and> cl_parser s' = http_parser_reset \<and> pool_blocks (sv_cells s') = {} \<and>
      (cl_path s = None \<longrightarrow> cl_path s' = None) \<and> sv_keep s' = sv_keep s"
proof (induction rs arbitrary: s)
  case Nil
  then show ?case by simp
next
  case (Cons r rs)
  from Cons.prems(1) have pl: "plain_get r" and rs: "list_all plain_get rs" by simp_all
  then have r: "get_ok r" "\<not> APE_TRANSPORT_QS_ISJSON (transport_of (get_path r))"
    "table_get (bytes ''upgrade'') (get_table r) \<noteq> Some (bytes '' websocket'')"
    by (simp_all add: plain_get_def)
  from on_read_get [OF on r(1) Cons.prems(2,3)] obtain s1 where
    1: "get_done env r s s1" "\<And>rest. ape_server_on_read env (get_text r @ rest) s =
      (case ape_server_http_ready env s1 of None \<Rightarrow> None | Some s' \<Rightarrow> ape_server_on_read env rest s')" by blast
  obtain st pa where d: "request_done s1 st pa (get_path r @ [0]) (get_table r)" using 1(1) by (auto simp: get_done_def)
  have t: "cl_transport s1 = APE_TRANSPORT_NU \<or> cl_transport s1 = APE_TRANSPORT_FT"
    using 1(1) r(2) by (auto simp: get_done_def APE_TRANSPORT_QS_ISJSON_def)
  from http_ready_plain [OF d t r(3), of env] obtain s2 where
    2: "ape_server_http_ready env s1 = Some s2" "sv_out s2 = sv_out s1 @ [SO_request (cl_method s1) pa st]"
      "cl_parser s2 = http_parser_reset" "cl_path s2 = None" "pool_blocks (sv_cells s2) = {}" "sv_keep s2 = sv_keep s1" by blast
  have k: "cl_method s1 = HTTP_GET" "sv_out s1 = sv_out s" "sv_keep s1 = sv_keep s" using 1(1) by (simp_all add: get_done_def)
  from Cons.IH [OF rs 2(3,5)] obtain s' out where
    3: "ape_server_on_read env (concat (map get_text rs)) s2 = Some s'" "sv_out s' = sv_out s2 @ out"
      "list_all2 get_reported rs out" "cl_parser s' = http_parser_reset" "pool_blocks (sv_cells s') = {}"
      "cl_path s' = None" "sv_keep s' = sv_keep s2" using 2(4) by blast
  have "sv_out s' = sv_out s @ SO_request HTTP_GET pa st # out" using 3(2) 2(2) k by simp
  moreover have "list_all2 get_reported (r # rs) (SO_request HTTP_GET pa st # out)"
    using 3(3) request_done_reported [OF d] by simp
  moreover have "ape_server_on_read env (concat (map get_text (r # rs))) s = Some s'" using 1(2) 2(1) 3(1) by simp
  ultimately show ?case using 3(4-7) 2(6) k(3) by metis
qed


lemma handshake:
  assumes on: "always_online env" and r: "get_ok r" and u: "upgrade_ok (get_table r) key" "length key \<le> 32"
    and sha: "length (sc_buffer (en_sha env)) = 64" and cells: "pool_blocks (sv_cells s0) = {}"
    and reads: "get_text r = concat bs @ b" "b \<noteq> []"
  shows "\<exists>s'. sv_reads env (bs @ [b]) (ape_server_on_connect s0) = Some s' \<and>
    (\<forall>rest. sv_reads env (bs @ [b @ rest]) (ape_server_on_connect s0) = ape_server_on_read env rest s') \<and>
    sv_out s' = map SO_write (upgrade_response (rfc_base64 (fips_sha1 (key @ ws_guid)))) \<and>
    cl_on_read s' = On_read_ws \<and> cl_ws_state s' = Some (ws_init (en_ws env)) \<and>
    cl_json s' = (if APE_TRANSPORT_QS_ISJSON (transport_of (get_path r)) then new_client_json env False None else None) \<and>
    cl_session s' = None \<and> sv_items s' = sv_items s0 \<and> sv_global s' = sv_global s0 \<and> http_isready (cl_parser s')"
proof -
  let ?s = "ape_server_on_connect s0"
  have c: "cl_parser ?s = http_parser_reset" "pool_blocks (sv_cells ?s) = {}" "cl_on_read ?s = On_read_http" using cells by simp_all
  from on_read_get [OF on r c(1,2)] obtain s1 where
    1: "get_done env r ?s s1" "\<And>rest. ape_server_on_read env (get_text r @ rest) ?s =
      (case ape_server_http_ready env s1 of None \<Rightarrow> None | Some s' \<Rightarrow> ape_server_on_read env rest s')" by blast
  obtain st pa where d: "request_done s1 st pa (get_path r @ [0]) (get_table r)" using 1(1) by (auto simp: get_done_def)
  from http_upgrade_ok [OF d u sha] obtain s' where
    2: "ape_server_http_ready env s1 = Some s'"
      "sv_out s' = sv_out s1 @ map SO_write (upgrade_response (rfc_base64 (fips_sha1 (key @ ws_guid))))"
      "cl_on_read s' = On_read_ws" "cl_ws_state s' = Some (ws_init (en_ws env))" "cl_json s' = cl_json s1"
      "cl_session s' = cl_session s1" "sv_items s' = sv_items s1" "sv_global s' = sv_global s1" "cl_parser s' = cl_parser s1"
    by blast
  have w: "sv_reads env (bs @ [b @ rest]) ?s = ape_server_on_read env rest s'" for rest
    using sv_reads_get [OF on r c reads, of rest] 1(2) [of rest] 2(1) by simp
  have "sv_reads env (bs @ [b]) ?s = Some s'" using w [of "[]"] by simp
  moreover have "sv_out s1 = []" "cl_session s1 = None" "sv_items s1 = sv_items s0" "sv_global s1 = sv_global s0" "http_isready (cl_parser s1)"
    "cl_json s1 = (if APE_TRANSPORT_QS_ISJSON (transport_of (get_path r)) then new_client_json env False None else None)"
    using 1(1) by (simp_all add: get_done_def sv_keep_def)
  ultimately show ?thesis using w 2(2-9) by (intro exI [of _ s']) simp
qed



text \<open>A read that is one masked data frame.\<close>

definition data_frame :: "byte \<Rightarrow> byte list \<Rightarrow> byte list \<Rightarrow> bool" where
  "data_frame op mk doc \<longleftrightarrow> op AND 0x0F \<noteq> 0x8 \<and> op AND 0x0F \<noteq> 0x9 \<and> op AND 0x0F \<noteq> 0xA \<and> length mk = 4 \<and>
     doc \<noteq> [] \<and> length doc < 2 ^ 31"

lemma ws_on_read_frame:
  assumes f: "data_frame op mk doc" and m: "malloc_ok (en_malloc env)" and ws: "cl_ws_state s = Some ws" "ws_ready ws" "ws_offset ws = 0"
  shows "\<exists>ws'. ws_on_read env (rfc_client_frame op mk doc) s = ape_server_on_ws_frame env doc (s\<lparr>cl_ws_state := Some ws'\<rparr>) \<and>
    ws_ready ws' \<and> ws_offset ws' = 0"
proof -
  have fs: "ws_client_frames [(op, mk, doc)]" "ws_frames_bytes [(op, mk, doc)] = rfc_client_frame op mk doc"
    "ws_frames_reports [(op, mk, doc)] = [WS_on_frame doc]"
    using f by (simp_all add: data_frame_def ws_client_frames_def ws_frames_bytes_def ws_frames_reports_def ws_reports_def)
  from ws_feed_frames [OF fs(1) _ m ws(2) refl] fs(2,3) ws(3) obtain ws' where
    "ape_ws_process_frame (en_malloc env) (rfc_client_frame op mk doc) ws = (ws', [WS_on_frame doc], Reject)"
    "ws_ready ws'" "ws_offset ws' = 0"
    by (auto simp: ape_ws_process_frame_def)
  moreover have e: "ws_events env [] = Some" by (rule ext) simp
  ultimately show ?thesis using ws(1) by (auto simp: ws_on_read_def e)
qed

definition server_start :: "'f server_env \<Rightarrow> 'f server \<Rightarrow> get_request \<Rightarrow> byte list \<Rightarrow> bool" where
  "server_start env s0 r key \<longleftrightarrow> env_ok env \<and> pool_blocks (sv_cells s0) = {} \<and> get_ok r \<and>
     upgrade_ok (get_table r) key \<and> length key \<le> 32"

lemma first_message:
  assumes st: "server_start env s0 r key" and t: "\<not> APE_TRANSPORT_QS_ISJSON (transport_of (get_path r))"
    and reads: "get_text r = concat bs @ b" "b \<noteq> []"
    and f: "data_frame op mk (w0 @ jval_text v @ w1)" and v: "message_ok v w0 w1" and c: "cmds_inv (en_os env) (sv_global s0)"
    and run: "run_commands (en_os env) (en_client env) (jt_kids (jval_tree v (en_libm env) None w1 (length (sv_items s0))))
      (None, sv_global s0) = Some (se, g)"
  shows "\<exists>s'. sv_reads env (bs @ [b, rfc_client_frame op mk (w0 @ jval_text v @ w1)]) (ape_server_on_connect s0) = Some s' \<and>
    sv_out s' = map SO_write (upgrade_response (rfc_base64 (fips_sha1 (key @ ws_guid)))) @ [SO_wsframe (w0 @ jval_text v @ w1)] \<and>
    cl_session s' = se \<and> sv_global s' = g \<and> cl_on_read s' = On_read_ws \<and> (\<exists>j. cl_json s' = Some j \<and> cj_ok j) \<and>
    (\<exists>ws. cl_ws_state s' = Some ws \<and> ws_ready ws \<and> ws_offset ws = 0)"
proof -
  let ?doc = "w0 @ jval_text v @ w1"
  have e: "env_ok env" "pool_blocks (sv_cells s0) = {}" "get_ok r" "upgrade_ok (get_table r) key" "length key \<le> 32"
    "always_online env" "length (sc_buffer (en_sha env)) = 64" "malloc_ok (en_malloc env)"
    using st by (simp_all add: server_start_def env_ok_def)
  from handshake [OF e(6,3,4,5,7,2) reads] t obtain s1 where
    1: "sv_reads env (bs @ [b]) (ape_server_on_connect s0) = Some s1"
      "sv_out s1 = map SO_write (upgrade_response (rfc_base64 (fips_sha1 (key @ ws_guid))))"
      "cl_on_read s1 = On_read_ws" "cl_ws_state s1 = Some (ws_init (en_ws env))" "cl_json s1 = None" "cl_session s1 = None"
      "sv_items s1 = sv_items s0" "sv_global s1 = sv_global s0" by auto
  note wr = env_ok_ws [OF e(1)]
  from ws_on_read_frame [OF f e(8) 1(4) conjunct1 [OF wr] conjunct2 [OF wr]] obtain ws' where
    2: "ws_on_read env (rfc_client_frame op mk ?doc) s1 = ape_server_on_ws_frame env ?doc (s1\<lparr>cl_ws_state := Some ws'\<rparr>)"
      "ws_ready ws'" "ws_offset ws' = 0" by blast
  obtain s' where s': "ape_server_on_ws_frame env ?doc (s1\<lparr>cl_ws_state := Some ws'\<rparr>) = Some s'" "cl_session s' = se"
    "sv_global s' = g" "sv_out s' = sv_out s1 @ [SO_wsframe ?doc]" "cl_on_read s' = On_read_ws" "\<exists>j. cl_json s' = Some j \<and> cj_ok j"
    "cl_ws_state s' = Some ws'"
    using ws_frame_first [OF e(1) v, of "s1\<lparr>cl_ws_state := Some ws'\<rparr>" se g] 1(3,5-8) c run by auto
  have "sv_reads env ((bs @ [b]) @ [rfc_client_frame op mk ?doc]) (ape_server_on_connect s0) = Some s'"
    unfolding sv_reads_append [of env "bs @ [b]"] using 1(1,3) 2(1) s'(1) by (simp add: sv_on_read_def)
  with s'(2-7) 1(2) 2(2,3) show ?thesis by (intro exI [of _ s']) simp
qed


text \<open>A ping is silent.\<close>

lemma ws_on_read_ping:
  assumes "cl_on_read s = On_read_ws" "cl_ws_state s = Some ws" "ws_ready ws" "ws_offset ws = 0" "malloc_ok (en_malloc env)"
    "length mk = 4" "doc \<noteq> []" "length doc < 2 ^ 31"
  shows "\<exists>s'. sv_on_read env (rfc_client_frame 0x89 mk doc) s = Some s'"
proof -
  have fs: "ws_client_frames [(0x89, mk, doc)]" "ws_frames_bytes [(0x89, mk, doc)] = rfc_client_frame 0x89 mk doc"
    "ws_frames_reports [(0x89, mk, doc)] = []"
    using assms(6-8) by (simp_all add: ws_client_frames_def ws_frames_bytes_def ws_frames_reports_def ws_reports_def)
  from ws_feed_frames [OF fs(1) _ assms(5,3) refl] fs(2,3) assms(4) obtain ws' where
    "ape_ws_process_frame (en_malloc env) (rfc_client_frame 0x89 mk doc) ws = (ws', [], Reject)"
    by (auto simp: ape_ws_process_frame_def)
  with assms(1,2) show ?thesis by (simp add: sv_on_read_def ws_on_read_def)
qed

lemma later_reads:
  "sv_reads env bs s = Some s' \<Longrightarrow> cl_on_read s = On_read_ws \<Longrightarrow> cl_json s = Some j \<Longrightarrow> cj_ok j \<Longrightarrow>
   cl_session s' = cl_session s \<and> sv_global s' = sv_global s"
proof (induction bs arbitrary: s j)
  case (Cons b bs)
  then obtain s1 where s1: "ws_on_read env b s = Some s1" "sv_reads env bs s1 = Some s'"
    by (auto simp: bind_eq_Some_conv sv_on_read_def)
  from ws_on_read_ignored [OF Cons.prems(3,4) s1(1)] Cons.prems(2) obtain j1 where
    k: "cl_session s1 = cl_session s" "sv_global s1 = sv_global s" "cl_on_read s1 = On_read_ws" "cl_json s1 = Some j1" "cj_ok j1" by auto
  from Cons.IH [OF s1(2) k(3-5)] k(1,2) show ?case by simp
qed simp



section \<open>The client's structure\<close>

text \<open>
  The pointers of the structure are typed by the connection's state: a WebSocket state exactly when frames are
  read, a session and a parser with a callback only then, and no callback ever has a live context between reads.
\<close>

definition client_ok :: "'f server \<Rightarrow> bool" where
  "client_ok s \<longleftrightarrow> (cl_on_read s = On_read_ws \<longleftrightarrow> cl_ws_state s \<noteq> None) \<and>
     (cl_session s \<noteq> None \<longrightarrow> cl_on_read s = On_read_ws) \<and>
     (\<forall>j. cl_json s = Some j \<longrightarrow> cj_ok j \<and> (cj_callback j \<longrightarrow> cl_on_read s = On_read_ws))"

definition client_state ::
    "'f server \<Rightarrow> read_callback \<times> websocket_state option \<times> addr option \<times> 'f client_json option" where
  "client_state s = (cl_on_read s, cl_ws_state s, cl_session s, cl_json s)"

lemma client_ok_state: "client_state s' = client_state s \<Longrightarrow> client_ok s \<Longrightarrow> client_ok s'"
  by (simp add: client_ok_def client_state_def)

lemma client_ok_json: "client_ok s \<Longrightarrow> cj_ok j \<Longrightarrow> \<not> cj_callback j \<Longrightarrow> client_ok (s\<lparr>cl_json := Some j\<rparr>)"
  by (auto simp: client_ok_def)

lemma sv_buf_state: "sv_buf p f s = Some s' \<Longrightarrow> client_state s' = client_state s"
  by (auto simp: sv_buf_def bind_eq_Some_conv client_state_def)

lemma sv_free_buf_state: "sv_free_buf p s = Some s' \<Longrightarrow> client_state s' = client_state s"
  by (auto simp: sv_free_buf_def bind_eq_Some_conv client_state_def)

lemma new_request_state [simp]: "client_state (new_header s) = client_state s" "client_state (new_request s) = client_state s"
  "client_state (sv_set_array s st) = client_state s" "client_state (s\<lparr>cl_method := m\<rparr>) = client_state s"
  "client_state (s\<lparr>cl_parser := q\<rparr>) = client_state s" "client_state (s\<lparr>sv_out := w\<rparr>) = client_state s"
  "client_state (s\<lparr>cl_transport := t\<rparr>) = client_state s"
  by (simp_all add: new_request_def new_header_def sv_malloc_buf_def sv_set_array_def client_state_def split: prod.splits)

lemma http_request_state: "http_request s = Some s' \<Longrightarrow> client_state s' = client_state s"
  by (auto simp: http_request_def bind_eq_Some_conv Let_def client_state_def sv_free_buf_def split: if_splits)

lemma path_end_ok:
  assumes "path_end env s = Some s'" "client_ok s"
  shows "client_ok s'"
proof -
  obtain s1 p b t b' s2 where p: "sv_buf (cl_path s) (buffer_append_char 0) s = Some s1" "sv_buf (Some p) (\<lambda>_. Some b') s1 = Some s2"
    "(if APE_TRANSPORT_QS_ISJSON t then Some (s2\<lparr>cl_transport := t, cl_json := new_client_json env False None\<rparr>)
      else Some (s2\<lparr>cl_transport := t\<rparr>)) = Some s'"
    using assms(1) by (auto simp: path_end_def bind_eq_Some_conv Let_def)
  have "client_ok s2" using client_ok_state [OF trans [OF sv_buf_state [OF p(2)] sv_buf_state [OF p(1)]]] assms(2) by blast
  then show ?thesis using p(3) by (auto simp: client_ok_def new_client_json_def cj_ok_def split: if_splits)
qed

lemma http_json_char_ok:
  assumes "http_json_char env c s = Some s'" "client_ok s"
  shows "client_ok s'"
proof (cases "cl_json s")
  case (Some j)
  with assms(1) obtain j' v where f: "client_json_feed env [c] j = Some (j', v)" "s' = s\<lparr>cl_json := Some j'\<rparr>"
    by (auto simp: http_json_char_def)
  have "cj_ok j" using assms(2) Some by (simp add: client_ok_def)
  from client_json_feed_ok [OF f(1) this] assms(2) Some f(2) show ?thesis by (auto simp: client_ok_def)
qed (use assms in \<open>simp add: http_json_char_def\<close>)

lemma ready_ok:
  assumes "ape_server_http_ready env s = Some s'" "client_ok s"
  shows "client_ok s'"
proof -
  have u: "client_ok s2" if "http_upgrade env k s1 = Some s2" "client_ok s1" for k s1 s2
  proof -
    from that(1) obtain w s3 ck where p: "(case w of None \<Rightarrow> Some s1
        | Some a \<Rightarrow> Option.bind (sv_buf (Some a) (buffer_append_char 0) s1) (sv_buf (Some a) strtok_proto)) = Some s3"
      "s2 = (sv_write (upgrade_response ck) s3)\<lparr>cl_on_read := On_read_ws, cl_ws_state := Some (ws_init (en_ws env))\<rparr>"
      by (auto simp: http_upgrade_def bind_eq_Some_conv split: if_splits)
    have "client_state s3 = client_state s1" using p(1) by (auto simp: bind_eq_Some_conv dest!: sv_buf_state split: option.splits)
    from client_ok_state [OF this that(2)] show ?thesis by (auto simp: p(2) client_ok_def sv_write_def)
  qed
  have r: "client_ok s2" if "http_request s1 = Some s2" "client_ok s1" for s1 s2
    using client_ok_state [OF http_request_state [OF that(1)] that(2)] .
  have t: "client_ok (s\<lparr>cl_transport := APE_TRANSPORT_WS\<rparr>)" by (rule client_ok_state [OF _ assms(2)]) simp
  from assms(1) show ?thesis
    by (auto simp: ape_server_http_ready_def bind_eq_Some_conv Let_def split: if_splits option.splits
        dest: u [OF _ t] r [OF _ t] r [OF _ assms(2)])
qed

lemma callback_ok:
  assumes "ape_http_callback env t v s = Some s'" "client_ok s"
  shows "client_ok s'"
proof -
  have b: "client_ok s2" if "sv_buf p f s1 = Some s2" "client_ok s1" for p f s1 s2
    using client_ok_state [OF sv_buf_state [OF that(1)] that(2)] .
  have fr: "client_ok s2" if "sv_free_buf p s1 = Some s2" "client_ok s1" for p s1 s2
    using client_ok_state [OF sv_free_buf_state [OF that(1)] that(2)] .
  have n: "client_ok (new_request (s\<lparr>cl_method := m\<rparr>))" "client_ok (new_request s)" "client_ok (new_header (sv_set_array s st))" for m st
    by (rule client_ok_state [OF _ assms(2)], simp)+
  show ?thesis
    using assms
    by (cases t) (auto simp: ape_http_callback_def bind_eq_Some_conv n split: if_splits
        intro: b [OF _ assms(2)] path_end_ok [OF _ assms(2)] http_json_char_ok [OF _ assms(2)] ready_ok fr [OF _ fr [OF _ assms(2)]])
qed

lemma callbacks_ok: "http_callbacks env es s = Some s' \<Longrightarrow> client_ok s \<Longrightarrow> client_ok s'"
  by (induction es arbitrary: s) (auto simp: bind_eq_Some_conv dest: callback_ok)

lemma on_read_ok: "ape_server_on_read env cs s = Some s' \<Longrightarrow> client_ok s \<Longrightarrow> client_ok s'"
proof (induction cs arbitrary: s)
  case (Cons c cs)
  obtain p ev v where c: "parse_http_char (cl_parser s) c = (p, ev, v)" by (cases "parse_http_char (cl_parser s) c")
  with Cons.prems(1) obtain s1 where s1: "http_callbacks env (http_strip ev) (s\<lparr>cl_parser := p\<rparr>) = Some s1"
    "(if v = Abort then None else if v = Reject then Some (s1\<lparr>sv_out := sv_out s1 @ [SO_shutdown]\<rparr>)
      else if \<not> en_online env s1 then Some s1 else ape_server_on_read env cs s1) = Some s'"
    by (auto simp: bind_eq_Some_conv)
  have ok: "client_ok s1" by (rule callbacks_ok [OF s1(1)], rule client_ok_state [OF _ Cons.prems(2)]) simp
  have "client_ok (s1\<lparr>sv_out := w\<rparr>)" for w by (rule client_ok_state [OF _ ok]) simp
  with s1(2) ok Cons.IH [of s1] show ?case by (auto split: if_splits)
qed simp

lemma ws_frame_json_shape:
  assumes "ws_frame_json env data s = Some (s', head, ok)"
  shows "\<exists>j items. s' = s\<lparr>cl_json := Some j, sv_items := items\<rparr> \<and> cj_ok j"
proof -
  from assms obtain j where j: "cl_json s = Some j" by (auto simp: ws_frame_json_def bind_eq_Some_conv)
  from assms obtain j1 v where f: "client_json_feed env data j = Some (j1, v)"
    by (auto simp: ws_frame_json_def j bind_eq_Some_conv)
  obtain jc w where d: "(if v = Accept then (case JSON_parser_done (cj_parser j1) of (jc, ev, v) \<Rightarrow> (jc, v)) else (cj_parser j1, v)) = (jc, w)"
    by (cases "if v = Accept then (case JSON_parser_done (cj_parser j1) of (jc, ev, v) \<Rightarrow> (jc, v)) else (cj_parser j1, v)")
  obtain hd its where i: "(case (if cj_callback j1 then jp_ctx jc else None) of
      None \<Rightarrow> (None, sv_items s) | Some cx \<Rightarrow> (cx_head cx, cx_heap cx)) = (hd, its)"
    by (cases "case (if cj_callback j1 then jp_ctx jc else None) of None \<Rightarrow> (None, sv_items s) | Some cx \<Rightarrow> (cx_head cx, cx_heap cx)")
  have "s' = s\<lparr>cl_json := Some (j1\<lparr>cj_parser := jc\<lparr>jp_ctx := None\<rparr>\<rparr>), sv_items := its\<rparr>"
    using assms unfolding ws_frame_json_def j Option.bind.bind_lunit f d Let_def prod.case i by (auto split: if_splits)
  then show ?thesis by (auto simp: cj_ok_def)
qed

lemma ws_frame_ok:
  assumes "ape_server_on_ws_frame env data s = Some s'" "client_ok s" "cl_on_read s = On_read_ws"
  shows "client_ok s' \<and> cl_on_read s' = On_read_ws"
proof -
  obtain s1 where s1: "s1 = (case cl_json s of Some _ \<Rightarrow> s | None \<Rightarrow> s\<lparr>cl_json := new_client_json env True (Some (cx_start (sv_items s)))\<rparr>)"
    by simp
  have c1: "cl_on_read s1 = On_read_ws" "cl_ws_state s1 \<noteq> None"
    using assms(2,3) by (auto simp: s1 client_ok_def split: option.splits)
  show ?thesis
  proof (cases "cl_json s1")
    case None
    with assms(1) c1 show ?thesis by (auto simp: ape_server_on_ws_frame_def Let_def client_ok_def sv_write_def s1 [symmetric])
  next
    case (Some j)
    with assms(1) obtain s2 head ok where f: "ws_frame_json env data s1 = Some (s2, head, ok)"
      "(if \<not> ok then Some (sv_write (ape_ws_write PATTERN_ERR_BAD_JSON) s2)
        else Option.bind (ape_cmd_process_multi (en_os env) (sv_items s2) head (en_client env) (cl_session s2, sv_global s2))
          (\<lambda>(session, g). Some (s2\<lparr>cl_session := session, sv_global := g, sv_out := sv_out s2 @ [SO_wsframe data]\<rparr>))) = Some s'"
      by (auto simp: ape_server_on_ws_frame_def Let_def s1 [symmetric] bind_eq_Some_conv)
    have g: "cl_on_read s2 = On_read_ws" "cl_ws_state s2 \<noteq> None" "\<forall>j. cl_json s2 = Some j \<longrightarrow> cj_ok j"
      using ws_frame_json_shape [OF f(1)] c1 by auto
    with f(2) show ?thesis by (auto simp: client_ok_def sv_write_def bind_eq_Some_conv split: if_splits)
  qed
qed

lemma ws_events_ok:
  "ws_events env es s = Some s' \<Longrightarrow> client_ok s \<Longrightarrow> cl_on_read s = On_read_ws \<Longrightarrow> client_ok s'"
proof (induction es arbitrary: s)
  case (Cons e es)
  obtain s1 where s1: "(case e of WS_write bs \<Rightarrow> Some (sv_write [bs] s) | WS_shutdown \<Rightarrow> Some (s\<lparr>sv_out := sv_out s @ [SO_shutdown]\<rparr>)
      | WS_on_frame data \<Rightarrow> ape_server_on_ws_frame env data s) = Some s1" "ws_events env es s1 = Some s'"
    using Cons.prems(1) by (auto simp: bind_eq_Some_conv)
  have w: "client_ok (s\<lparr>sv_out := x\<rparr>)" for x by (rule client_ok_state [OF _ Cons.prems(2)]) simp
  have "client_ok s1 \<and> cl_on_read s1 = On_read_ws"
    using s1(1) w Cons.prems(2,3) by (cases e) (auto simp: sv_write_def dest: ws_frame_ok [OF _ Cons.prems(2,3)])
  with Cons.IH s1(2) show ?case by blast
qed simp

lemma sv_on_read_ok:
  assumes "sv_on_read env buf s = Some s'" "client_ok s"
  shows "client_ok s'"
proof (cases "cl_on_read s")
  case On_read_http
  with assms show ?thesis using on_read_ok by (simp add: sv_on_read_def)
next
  case On_read_ws
  with assms(1) obtain w where w: "cl_ws_state s = Some w" "ws_on_read env buf s = Some s'"
    by (auto simp: sv_on_read_def ws_on_read_def bind_eq_Some_conv)
  obtain ws ev v where p: "ape_ws_process_frame (en_malloc env) buf w = (ws, ev, v)"
    by (cases "ape_ws_process_frame (en_malloc env) buf w")
  with w have "ws_events env ev (s\<lparr>cl_ws_state := Some ws\<rparr>) = Some s'"
    by (simp add: ws_on_read_def split: if_splits)
  moreover have "client_ok (s\<lparr>cl_ws_state := Some ws\<rparr>)" using assms(2) On_read_ws by (simp add: client_ok_def)
  ultimately show ?thesis using ws_events_ok [of env ev "s\<lparr>cl_ws_state := Some ws\<rparr>" s'] On_read_ws by simp
qed

text \<open>C14: whatever a client sends, its structure stays well typed: there is a WebSocket state exactly when the
  connection reads frames, a session and a JSON parser with the tree callback only then, and the callback's
  context, a local variable of the frame handler, is dead between two reads.\<close>

theorem server_client_typed:
  assumes "sv_reads env reads (ape_server_on_connect s0) = Some s'"
  shows "client_ok s'"
proof -
  have "client_ok (ape_server_on_connect s0)" by (simp add: client_ok_def ape_server_on_connect_def)
  moreover have "sv_reads env reads s = Some s' \<Longrightarrow> client_ok s \<Longrightarrow> client_ok s'" for s
    by (induction reads arbitrary: s) (auto simp: bind_eq_Some_conv dest: sv_on_read_ok)
  ultimately show ?thesis using assms by blast
qed

section \<open>Witnesses\<close>

text \<open>A server with the core commands, and a client that asks for an upgrade with the key of RFC 6455.\<close>

definition demo_os :: ape_os where
  "demo_os = \<lparr>os_rand = (\<lambda>_. 9), os_time = 5, os_seed = 0\<rparr>"

definition demo_env :: "nat server_env" where
  "demo_env = \<lparr>en_os = demo_os, en_libm = digits_libm, en_alloc = (\<lambda>why n. True), en_point = 46, en_malloc = zero_malloc,
     en_sha = \<lparr>sc_total0 = 0, sc_total1 = 0, sc_state = (0, 0, 0, 0, 0), sc_buffer = replicate 64 0\<rparr>,
     en_ws = ws_zero, en_online = (\<lambda>s. True), en_client = 7\<rparr>"

definition demo_server :: "ape_global \<Rightarrow> nat server" where
  "demo_server g = \<lparr>cl_session = None, cl_ws_state = None, cl_parser = http_parser_reset, cl_method = HTTP_GET,
     cl_transport = APE_TRANSPORT_NU, cl_path = None, cl_list = None, cl_tkey = None, cl_tval = None, cl_json = None,
     cl_on_read = On_read_http, sv_bufs = [], sv_cells = [], sv_items = [], sv_global = g, sv_out = []\<rparr>"

definition demo_get :: "byte list \<Rightarrow> byte list \<Rightarrow> get_request" where
  "demo_get path key = (map Plain path, None, 49, 49,
     [(bytes ''Upgrade'', bytes '' websocket''), (bytes ''Sec-WebSocket-Key'', key)])"

definition demo_plain :: get_request where
  "demo_plain = (map Plain (bytes ''/static/a''), Some [Plain 63], 49, 49, [(bytes ''Host'', bytes '' ape'')])"

definition demo_key :: "byte list" where
  "demo_key = bytes ''dGhlIHNhbXBsZSBub25jZQ==''"

lemma demo_plain_ok: "plain_get demo_plain" "get_ok demo_plain"
  "get_path demo_plain = bytes ''/static/a''"
  by code_simp+

lemma demo_env_ok: "env_ok demo_env" "always_online demo_env" "length (sc_buffer (en_sha demo_env)) = 64"
  "en_os demo_env = demo_os" "en_libm demo_env = digits_libm" "en_client demo_env = 7"
  using ws_zero_ready by (simp_all add: env_ok_def demo_env_def always_online_def zero_malloc_ok ws_ready_def)

lemma demo_server_simps: "pool_blocks (sv_cells (demo_server g)) = {}" "sv_global (demo_server g) = g" "sv_items (demo_server g) = []"
  by (simp_all add: demo_server_def pool_blocks_def)

lemma demo_get_ok: "get_ok (demo_get (bytes ''/ws'') (32 # demo_key))" "get_ok (demo_get (bytes ''/2/'') (32 # demo_key))"
  "get_ok (demo_get (bytes ''/ws'') [])"
  by code_simp+

lemma demo_get_path: "APE_TRANSPORT_QS_ISJSON (transport_of (get_path (demo_get (bytes ''/2/'') (32 # demo_key))))"
  "\<not> APE_TRANSPORT_QS_ISJSON (transport_of (get_path (demo_get (bytes ''/ws'') (32 # demo_key))))"
  by code_simp+

lemma demo_upgrade: "upgrade_ok (get_table (demo_get (bytes ''/ws'') (32 # demo_key))) demo_key"
  "upgrade_ok (get_table (demo_get (bytes ''/2/'') (32 # demo_key))) demo_key" "length demo_key = 24"
proof -
  have "table_get (bytes ''upgrade'') (get_table (demo_get p (32 # demo_key))) = Some (bytes '' websocket'')"
    "table_get (bytes ''Sec-WebSocket-Key'') (get_table (demo_get p (32 # demo_key))) = Some (32 # demo_key)"
    "table_get (bytes ''Sec-WebSocket-Protocol'') (get_table (demo_get p (32 # demo_key))) = None" for p
    by code_simp+
  then show "upgrade_ok (get_table (demo_get (bytes ''/ws'') (32 # demo_key))) demo_key"
    "upgrade_ok (get_table (demo_get (bytes ''/2/'') (32 # demo_key))) demo_key" by (simp_all add: upgrade_ok_def)
  show "length demo_key = 24" by code_simp
qed

lemma demo_start: "server_start demo_env (demo_server g) (demo_get (bytes ''/ws'') (32 # demo_key)) demo_key"
  "server_start demo_env (demo_server g) (demo_get (bytes ''/2/'') (32 # demo_key)) demo_key"
  using demo_env_ok demo_server_simps demo_get_ok demo_upgrade by (simp_all add: server_start_def)

text \<open>The message \<open>[[1,2,"connect"]]\<close>.\<close>

definition demo_message :: jval where
  "demo_message = JArray [] (JElem [] (JArray [] (JElem [] (JNumber (JNum False [49] None None)) []
     (JElem [] (JNumber (JNum False [50] None None)) [] (JElem [] (JString (map JChar (bytes ''connect''))) [] JNoElem)))) [] JNoElem)"

definition demo_text :: "byte list" where
  "demo_text = [] @ jval_text demo_message @ []"

lemma demo_text_bytes: "demo_text = bytes ''[[1,2,\"connect\"]]''"
  by code_simp

lemma demo_text_length: "length demo_text = 17" "demo_text \<noteq> []"
  by code_simp+

lemma demo_message_ok: "message_ok demo_message [] []" "data_frame 0x81 [1, 2, 3, 4] demo_text"
proof -
  have "jval_ok demo_message" "jval_depth demo_message \<le> 15" "json_ws []" by code_simp+
  then show "message_ok demo_message [] []" by (simp add: message_ok_def demo_message_def)
  have "(0x81 :: byte) AND 0x0F \<noteq> 0x8" "(0x81 :: byte) AND 0x0F \<noteq> 0x9" "(0x81 :: byte) AND 0x0F \<noteq> 0xA" by code_simp+
  then show "data_frame 0x81 [1, 2, 3, 4] demo_text" using demo_text_length by (simp add: data_frame_def)
qed

lemma demo_commands:
  "\<exists>g g'. ape_cmd_init_core demo_os ape_global_init = Some g \<and> cmds_inv demo_os g \<and>
     run_commands demo_os 7 (jt_kids (jval_tree demo_message digits_libm None [] 0)) (None, g) = Some (Some 0, g')"
proof -
  obtain g where g: "ape_cmd_init_core demo_os ape_global_init = Some g" "cmds_inv demo_os g" "g_ok g" "g_pipes g = []"
    "g_sessions g = []" "cmds_of demo_os g (Some (bytes ''connect'')) = Some connect_spec" using core_start by blast
  have kids: "jt_kids (jval_tree demo_message digits_libm None [] 0) = [JT 1 (jcontainer digits_libm None JSON_C_T_ARR)
      [JT 2 (jscalar digits_libm None (hd (json_token JSON_T_INTEGER [49]))) [],
       JT 3 (jscalar digits_libm None (hd (json_token JSON_T_INTEGER [50]))) [],
       JT 4 (jscalar digits_libm None (JSON_T_STRING, JV_str (bytes ''connect''))) []]]"
    by (simp add: demo_message_def jstring_value_def)
  have i: "ji_type (jscalar digits_libm None (hd (json_token JSON_T_INTEGER [49]))) = Some JSON_T_INTEGER"
    "ji_type (jscalar digits_libm None (JSON_T_STRING, JV_str (bytes ''connect''))) = Some JSON_T_STRING"
    "ji_str (jscalar digits_libm None (JSON_T_STRING, JV_str (bytes ''connect''))) = Some (bytes ''connect'')"
    "ji_ctype (jcontainer digits_libm None JSON_C_T_ARR) = JSON_C_T_ARR"
    by code_simp+
  have f: "cs_flags connect_spec AND APE_CMD_REQ_USER = 0" by code_simp
  let ?n = "word_of_int (ji_integer (jscalar digits_libm None (hd (json_token JSON_T_INTEGER [49]))))"
  have o: "demo_os = demo_os\<lparr>os_rand := \<lambda>_. 9\<rparr>" by (simp add: demo_os_def)
  obtain g' where g': "ape_cmd__connect demo_os (cmd_message demo_os 7 ?n connect_spec) (None, g) = Some (Some 0, g')"
    using constant_source [OF g(3,4), where os = demo_os and c = 9 and msg = "cmd_message demo_os 7 ?n connect_spec"] g(5) o by auto
  have "cmd_run demo_os connect_spec m s = ape_cmd__connect demo_os m s" for m s
    by (simp add: cmd_run_def connect_spec_def)
  then have "run_commands demo_os 7 (jt_kids (jval_tree demo_message digits_libm None [] 0)) (None, g) = Some (Some 0, g')"
    unfolding kids using i f g(6) g' by simp
  with g(1,2) show ?thesis by blast
qed







lemma server_client_typed_witness:
  "\<exists>s'. sv_reads demo_env ([] @ [get_text (demo_get (bytes ''/2/'') (32 # demo_key))])
      (ape_server_on_connect (demo_server ape_global_init)) = Some s' \<and> cl_on_read s' = On_read_ws \<and> client_ok s'"
proof -
  let ?t = "get_text (demo_get (bytes ''/2/'') (32 # demo_key))"
  have t: "?t = concat [] @ ?t" "?t \<noteq> []" by (simp, code_simp)
  have k: "length demo_key \<le> 32" using demo_upgrade(3) by simp
  from handshake [OF demo_env_ok(2) demo_get_ok(2) demo_upgrade(2) k demo_env_ok(3) demo_server_simps(1) t, of ape_global_init]
  obtain s' where s': "sv_reads demo_env ([] @ [?t]) (ape_server_on_connect (demo_server ape_global_init)) = Some s'"
    "cl_on_read s' = On_read_ws" by blast
  from server_client_typed [OF s'(1)] s' show ?thesis by blast
qed

end
