(* ===== verification/Socket.thy ===== *)
theory Socket
  imports Array Buffer
begin

text \<open>
  Sockets and their queue of jobs: \<^verbatim>\<open>ape_socket.c\<close>, and what the event loop does with a client's socket. The
  record \<open>sock\<close> is one socket with the memory it works on: the cells of the job list and of the packet lists
  (\<^verbatim>\<open>Pool\<close>), the blocks of data with their owners, and the read buffer (\<^verbatim>\<open>Buffer\<close>). The results of the system
  calls and of OpenSSL are the record \<open>sys\<close>, and what reaches the system and the callbacks is the list
  \<open>sk_out\<close>. The invariant \<open>sock_inv\<close> is that of a socket that is only written to: one job, whose list
  holds the packets that are still to be written and behind them at least one spare cell; with \<open>mem_ok\<close> it says
  which blocks are allocated. \<open>None\<close> is a null, freed or confused pointer, or a loop that does not end.
\<close>

unbundle bit_operations_syntax

section \<open>A socket\<close>

datatype ape_socket_state =
    APE_SOCKET_ST_ONLINE | APE_SOCKET_ST_PROGRESS | APE_SOCKET_ST_PENDING | APE_SOCKET_ST_OFFLINE

datatype ape_socket_data_autorelease =
    APE_DATA_STATIC | APE_DATA_GLOBAL_STATIC | APE_DATA_AUTORELEASE | APE_DATA_OWN | APE_DATA_COPY

definition APE_SOCKET_WOULD_BLOCK :: byte where "APE_SOCKET_WOULD_BLOCK = push_bit 0 1"

definition APE_SOCKET_JOB_WRITEV :: u32 where "APE_SOCKET_JOB_WRITEV = push_bit 1 1"
definition APE_SOCKET_JOB_SENDFILE :: u32 where "APE_SOCKET_JOB_SENDFILE = push_bit 2 1"
definition APE_SOCKET_JOB_SHUTDOWN :: u32 where "APE_SOCKET_JOB_SHUTDOWN = push_bit 3 1"
definition APE_SOCKET_JOB_ACTIVE :: u32 where "APE_SOCKET_JOB_ACTIVE = push_bit 4 1"

text \<open>
  The pointer of a job is a union: a list of packets, or a file. The cells of the two pools extend
  \<open>ape_pool_t\<close>; what \<open>malloc\<close> leaves in the rest of a new cell is written before it is read.
\<close>

datatype job_ptr = Ptr_list addr | Ptr_fd int

record job = "job_ptr pool" +
  jb_offset :: int

record packet = "addr pool" +
  pk_len :: nat
  pk_offset :: nat
  pk_type :: ape_socket_data_autorelease

definition raw_job :: job where
  "raw_job = \<lparr>pl_ptr = None, pl_next = None, pl_flags = 0, jb_offset = 0\<rparr>"

definition raw_packet :: packet where
  "raw_packet = \<lparr>pl_ptr = None, pl_next = None, pl_flags = 0, pk_len = 0, pk_offset = 0, pk_type = APE_DATA_STATIC\<rparr>"

text \<open>What reaches the system and the owner of the socket, in the order of the calls.\<close>

datatype sock_out =
    Sock_bytes "byte list" | Sock_file int nat | Sock_close_fd int | Sock_ssl_shutdown | Sock_shutdown
  | Sock_on_disconnect | Sock_close | Sock_free_later | Sock_on_read "byte list" | Sock_on_connected

text \<open>
  The socket with the memory it works on: the cells of its jobs and of the packets, the packet lists,
  and the blocks of data (\<open>None\<close> is a block that was freed). \<open>sk_calls\<close> counts the calls of the system.
\<close>

record sock =
  sk_state :: ape_socket_state
  sk_flags :: byte
  sk_secure :: bool
  sk_jobs :: pool_list
  sk_data_in :: buffer
  sk_on_read :: bool
  sk_on_connected :: bool
  sk_on_disconnect :: bool
  sk_job_cells :: "job list option list"
  sk_lists :: "pool_list list"
  sk_packets :: "packet list option list"
  sk_mem :: "byte list option list"
  sk_calls :: nat
  sk_out :: "sock_out list"

text \<open>
  The system: the results of its calls by their number and by the number of bytes that were asked for.
  \<open>Sys_again\<close> is \<open>-1\<close> with \<open>EAGAIN\<close>, \<open>Sys_error\<close> any other \<open>-1\<close>. OpenSSL's result \<open>Ssl_done\<close> is anything but \<open>-1\<close>.
\<close>

datatype sys_result = Sys_done nat | Sys_again | Sys_error

datatype ssl_result = Ssl_done | Ssl_zero_return | Ssl_want | Ssl_failed

datatype read_result = Read_bytes "byte list" | Read_eof | Read_again | Read_intr

datatype ssl_read = Ssl_read_bytes "byte list" | Ssl_read_zero | Ssl_read_want | Ssl_read_failed

record sys =
  sy_write :: "nat \<Rightarrow> nat \<Rightarrow> sys_result"
  sy_ssl_write :: "nat \<Rightarrow> nat \<Rightarrow> ssl_result"
  sy_sendfile :: "nat \<Rightarrow> sys_result"
  sy_open :: "nat \<Rightarrow> int option"
  sy_shutdown :: "nat \<Rightarrow> bool"
  sy_read :: "nat \<Rightarrow> nat \<Rightarrow> read_result"
  sy_ssl_read :: "nat \<Rightarrow> nat \<Rightarrow> ssl_read"
  sy_iov_max :: nat

definition sk_emit :: "sock_out list \<Rightarrow> sock \<Rightarrow> sock" where
  "sk_emit os s = s\<lparr>sk_out := sk_out s @ os\<rparr>"

text \<open>A call: its number is used up.\<close>

definition sk_called :: "sock \<Rightarrow> sock" where
  "sk_called s = s\<lparr>sk_calls := sk_calls s + 1\<rparr>"

section \<open>Memory\<close>

definition mem_new :: "byte list \<Rightarrow> sock \<Rightarrow> addr \<times> sock" where
  "mem_new bs s = (length (sk_mem s), s\<lparr>sk_mem := sk_mem s @ [Some bs]\<rparr>)"

definition mem_get :: "addr \<Rightarrow> sock \<Rightarrow> byte list option" where
  "mem_get a s = (if a < length (sk_mem s) then sk_mem s ! a else None)"

definition mem_free :: "addr \<Rightarrow> sock \<Rightarrow> sock option" where
  "mem_free a s = (if mem_get a s = None then None else Some (s\<lparr>sk_mem := (sk_mem s)[a := None]\<rparr>))"

text \<open>The bytes from an offset to the length, undefined when the block is freed or too short.\<close>

definition mem_bytes :: "addr \<Rightarrow> nat \<Rightarrow> nat \<Rightarrow> sock \<Rightarrow> byte list option" where
  "mem_bytes a off len s =
     Option.bind (mem_get a s) (\<lambda>bs. if length bs < len then None else Some (drop off (take len bs)))"

definition ape_socket_release_data :: "addr \<Rightarrow> ape_socket_data_autorelease \<Rightarrow> sock \<Rightarrow> sock option" where
  "ape_socket_release_data data data_type s =
     (if data_type = APE_DATA_AUTORELEASE \<or> data_type = APE_DATA_COPY then mem_free data s else Some s)"

definition sk_job_upd :: "paddr \<Rightarrow> (job \<Rightarrow> job) \<Rightarrow> sock \<Rightarrow> sock option" where
  "sk_job_upd a f s = map_option (\<lambda>h. s\<lparr>sk_job_cells := h\<rparr>) (pool_upd a f (sk_job_cells s))"

definition sk_packet_upd :: "paddr \<Rightarrow> (packet \<Rightarrow> packet) \<Rightarrow> sock \<Rightarrow> sock option" where
  "sk_packet_upd a f s = map_option (\<lambda>h. s\<lparr>sk_packets := h\<rparr>) (pool_upd a f (sk_packets s))"

section \<open>Life\<close>

definition ape_init_job_list :: "nat \<Rightarrow> sock \<Rightarrow> sock" where
  "ape_init_job_list n s =
     (let (l, h) = ape_init_pool_list raw_job n (sk_job_cells s) in s\<lparr>sk_jobs := l, sk_job_cells := h\<rparr>)"

text \<open>A new socket: pending, without callbacks, with two cells for jobs.\<close>

definition APE_socket_new :: "bool \<Rightarrow> sock \<Rightarrow> sock" where
  "APE_socket_new secure s =
     ape_init_job_list 2
       (s\<lparr>sk_state := APE_SOCKET_ST_PENDING, sk_flags := 0, sk_secure := secure, sk_data_in := buffer_init,
          sk_on_read := False, sk_on_connected := False, sk_on_disconnect := False\<rparr>)"

definition APE_socket_destroy :: "sock \<Rightarrow> int \<times> sock" where
  "APE_socket_destroy s =
     (if sk_state s = APE_SOCKET_ST_OFFLINE then (-1, s)
      else (0, sk_emit ((if sk_on_disconnect s then [Sock_on_disconnect] else []) @ [Sock_close, Sock_free_later])
                 (s\<lparr>sk_state := APE_SOCKET_ST_OFFLINE\<rparr>)))"

text \<open>The end of the two shutdowns and of the job.\<close>

definition sk_shutdown :: "sys \<Rightarrow> sock \<Rightarrow> sock" where
  "sk_shutdown K s =
     (let s = (if sk_secure s then sk_emit [Sock_ssl_shutdown] s else s);
          ok = sy_shutdown K (sk_calls s);
          s = sk_called (sk_emit [Sock_shutdown] s)
      in if ok then s else snd (APE_socket_destroy s))"

definition ape_socket_shutdown_force :: "sys \<Rightarrow> sock \<Rightarrow> sock" where
  "ape_socket_shutdown_force K s = (if sk_state s \<noteq> APE_SOCKET_ST_ONLINE then s else sk_shutdown K s)"

text \<open>What the deferred call frees: the buffer's block and the jobs; the packet lists and their cells are kept.\<close>

definition ape_socket_free :: "sock \<Rightarrow> sock option" where
  "ape_socket_free s =
     map_option (\<lambda>h. s\<lparr>sk_job_cells := h, sk_data_in := buffer_init\<rparr>) (ape_destroy_pool (ps_head (sk_jobs s)) (sk_job_cells s))"

section \<open>The queue of jobs\<close>

definition ape_socket_job_get_slot :: "u32 \<Rightarrow> sock \<Rightarrow> (paddr \<times> sock) option" where
  "ape_socket_job_get_slot type s =
     Option.bind (ps_current (sk_jobs s)) (\<lambda>jobs.
     Option.bind (pool_get (sk_job_cells s) jobs) (\<lambda>c.
     if type = APE_SOCKET_JOB_WRITEV \<and> pl_flags c AND APE_SOCKET_JOB_WRITEV \<noteq> 0 \<or> pl_flags c AND APE_SOCKET_JOB_ACTIVE = 0
     then map_option (\<lambda>s. (jobs, s)) (sk_job_upd jobs (\<lambda>c. c\<lparr>pl_flags := pl_flags c OR (APE_SOCKET_JOB_ACTIVE OR type)\<rparr>) s)
     else
       Option.bind
         (if Some jobs = ps_queue (sk_jobs s)
          then map_option (\<lambda>(pool, l, h). (pool, s\<lparr>sk_jobs := l, sk_job_cells := h\<rparr>))
                 (ape_grow_pool raw_job 2 (sk_jobs s) (sk_job_cells s))
          else map_option (\<lambda>jobs. (jobs, s)) (pl_next c)) (\<lambda>(jobs, s).
       let s = s\<lparr>sk_jobs := (sk_jobs s)\<lparr>ps_current := Some jobs\<rparr>\<rparr>
       in map_option (\<lambda>s. (jobs, s)) (sk_job_upd jobs (\<lambda>c. c\<lparr>pl_flags := pl_flags c OR (APE_SOCKET_JOB_ACTIVE OR type)\<rparr>) s))))"

text \<open>The pointer of a job that is taken for writing is a list or null; to follow a file number is undefined.\<close>

definition job_list :: "paddr \<Rightarrow> sock \<Rightarrow> (addr \<times> sock) option" where
  "job_list job s =
     Option.bind (pool_get (sk_job_cells s) job) (\<lambda>c.
     case pl_ptr c of
       Some (Ptr_list li) \<Rightarrow> Some (li, s)
     | Some (Ptr_fd _) \<Rightarrow> None
     | None \<Rightarrow>
         let (l, h) = ape_new_pool_list raw_packet 8 (sk_packets s);
             li = length (sk_lists s)
         in map_option (\<lambda>s. (li, s)) (sk_job_upd job (\<lambda>c. c\<lparr>pl_ptr := Some (Ptr_list li)\<rparr>)
              (s\<lparr>sk_lists := sk_lists s @ [l], sk_packets := h\<rparr>)))"

definition sk_list :: "addr \<Rightarrow> sock \<Rightarrow> pool_list option" where
  "sk_list li s = (if li < length (sk_lists s) then Some (sk_lists s ! li) else None)"

definition sk_set_list :: "addr \<Rightarrow> pool_list \<Rightarrow> sock \<Rightarrow> sock" where
  "sk_set_list li l s = s\<lparr>sk_lists := (sk_lists s)[li := l]\<rparr>"

text \<open>The packet goes into the current cell, and there is always a spare one behind it.\<close>

definition queue_packet :: "addr \<Rightarrow> addr \<Rightarrow> nat \<Rightarrow> nat \<Rightarrow> ape_socket_data_autorelease \<Rightarrow> sock \<Rightarrow> sock option" where
  "queue_packet li data len offset data_type s =
     Option.bind (sk_list li s) (\<lambda>l.
     Option.bind (ps_current l) (\<lambda>packets.
     Option.bind (sk_packet_upd packets (\<lambda>c. c\<lparr>pl_ptr := Some data, pk_len := len, pk_offset := offset, pk_type := data_type\<rparr>) s) (\<lambda>s.
     Option.bind (pool_get (sk_packets s) packets) (\<lambda>c.
     Option.bind
       (if pl_next c = None then map_option (\<lambda>(_, l, h). (l, s\<lparr>sk_packets := h\<rparr>)) (ape_grow_pool raw_packet 8 l (sk_packets s))
        else Some (l, s)) (\<lambda>(l, s).
     map_option (\<lambda>c. sk_set_list li (l\<lparr>ps_current := pl_next c\<rparr>) s) (pool_get (sk_packets s) packets))))))"

definition ape_socket_queue_data ::
    "addr \<Rightarrow> nat \<Rightarrow> nat \<Rightarrow> ape_socket_data_autorelease \<Rightarrow> sock \<Rightarrow> sock option" where
  "ape_socket_queue_data data len offset data_type s =
     (let data_type = (if data_type = APE_DATA_STATIC then APE_DATA_COPY else data_type)
      in Option.bind
           (if data_type = APE_DATA_COPY then map_option (\<lambda>bs. mem_new bs s) (mem_bytes data 0 len s) else Some (data, s)) (\<lambda>(data, s).
         Option.bind (ape_socket_job_get_slot APE_SOCKET_JOB_WRITEV s) (\<lambda>(job, s).
         Option.bind (job_list job s) (\<lambda>(li, s). queue_packet li data len offset data_type s))))"

definition sk_head_active :: "sock \<Rightarrow> bool option" where
  "sk_head_active s =
     Option.bind (ps_head (sk_jobs s)) (\<lambda>a. map_option (\<lambda>c. pl_flags c AND APE_SOCKET_JOB_ACTIVE \<noteq> 0) (pool_get (sk_job_cells s) a))"

text \<open>Whether a call has to wait for the ones before it; the head is only looked at without the flag.\<close>

definition sk_busy :: "sock \<Rightarrow> bool option" where
  "sk_busy s = (if sk_flags s AND APE_SOCKET_WOULD_BLOCK \<noteq> 0 then Some True else sk_head_active s)"

definition sk_would_block :: "sock \<Rightarrow> sock" where
  "sk_would_block s = s\<lparr>sk_flags := sk_flags s OR APE_SOCKET_WOULD_BLOCK\<rparr>"

definition APE_socket_shutdown :: "sys \<Rightarrow> sock \<Rightarrow> sock option" where
  "APE_socket_shutdown K s =
     (if sk_state s \<noteq> APE_SOCKET_ST_ONLINE then Some s
      else
        Option.bind (sk_busy s) (\<lambda>b.
        if b then map_option snd (ape_socket_job_get_slot APE_SOCKET_JOB_SHUTDOWN s) else Some (sk_shutdown K s)))"

section \<open>Writing\<close>

text \<open>The loop of \<open>write\<close>: done, queued with this many bytes left, or an error.\<close>

datatype write_end = Write_done | Write_queued nat | Write_error

partial_function (option) write_loop ::
    "sys \<Rightarrow> addr \<Rightarrow> nat \<Rightarrow> ape_socket_data_autorelease \<Rightarrow> nat \<Rightarrow> sock \<Rightarrow> (write_end \<times> sock) option" where
  "write_loop K data len data_type t_bytes s =
     (if t_bytes < len then
        Option.bind (mem_bytes data t_bytes len s) (\<lambda>bs.
        case sy_write K (sk_calls s) (len - t_bytes) of
          Sys_done n \<Rightarrow> write_loop K data len data_type (t_bytes + n) (sk_emit [Sock_bytes (take n bs)] (sk_called s))
        | Sys_again \<Rightarrow>
            map_option (Pair (Write_queued (len - t_bytes)))
              (ape_socket_queue_data data len t_bytes data_type (sk_would_block (sk_called s)))
        | Sys_error \<Rightarrow> Some (Write_error, sk_called s))
      else Some (Write_done, s))"

declare write_loop.simps [code]

definition ssl_write ::
    "sys \<Rightarrow> addr \<Rightarrow> nat \<Rightarrow> ape_socket_data_autorelease \<Rightarrow> sock \<Rightarrow> (write_end \<times> sock) option" where
  "ssl_write K data len data_type s =
     Option.bind (mem_bytes data 0 len s) (\<lambda>bs.
     case sy_ssl_write K (sk_calls s) len of
       Ssl_done \<Rightarrow> Some (Write_done, sk_emit [Sock_bytes bs] (sk_called s))
     | Ssl_zero_return \<Rightarrow> Some (Write_done, sk_called s)
     | Ssl_want \<Rightarrow>
         map_option (Pair (Write_queued 1)) (ape_socket_queue_data data len 0 data_type (sk_would_block (sk_called s)))
     | Ssl_failed \<Rightarrow> Some (Write_error, sk_called s))"

definition APE_socket_write ::
    "sys \<Rightarrow> addr \<Rightarrow> nat \<Rightarrow> ape_socket_data_autorelease \<Rightarrow> sock \<Rightarrow> (int \<times> sock) option" where
  "APE_socket_write K data len data_type s =
     (let release = ape_socket_release_data data (if data_type = APE_DATA_COPY then APE_DATA_OWN else data_type)
      in if sk_state s \<noteq> APE_SOCKET_ST_ONLINE \<or> len = 0 then map_option (Pair (-1)) (release s)
         else
           Option.bind (sk_busy s) (\<lambda>b.
           if b then map_option (Pair (int len)) (ape_socket_queue_data data len 0 data_type s)
           else
             Option.bind (if sk_secure s then ssl_write K data len data_type s else write_loop K data len data_type 0 s) (\<lambda>(e, s).
             case e of
               Write_queued n \<Rightarrow> Some (int n, s)
             | Write_done \<Rightarrow> map_option (Pair 0) (release s)
             | Write_error \<Rightarrow> map_option (\<lambda>s. (-1, ape_socket_shutdown_force K s)) (release s))))"

text \<open>\<open>writev\<close> with the caller's blocks: its result is not looked at, so what the system does not take is lost.\<close>

definition APE_socket_writev :: "sys \<Rightarrow> byte list list \<Rightarrow> sock \<Rightarrow> int \<times> sock" where
  "APE_socket_writev K iov s =
     (if sk_state s \<noteq> APE_SOCKET_ST_ONLINE \<or> iov = [] \<or> sk_secure s then (-1, s)
      else
        let bs = concat iov
        in (0, case sy_write K (sk_calls s) (length bs) of
                 Sys_done n \<Rightarrow> sk_emit [Sock_bytes (take n bs)] (sk_called s)
               | _ \<Rightarrow> sk_called s))"

text \<open>The loop of \<open>sendfile\<close>: whether it ended with \<open>EAGAIN\<close>.\<close>

partial_function (option) sendfile_loop :: "sys \<Rightarrow> int \<Rightarrow> sock \<Rightarrow> (bool \<times> sock) option" where
  "sendfile_loop K fd s =
     (case sy_sendfile K (sk_calls s) of
        Sys_done n \<Rightarrow>
          if 0 < n then sendfile_loop K fd (sk_emit [Sock_file fd n] (sk_called s)) else Some (False, sk_called s)
      | Sys_again \<Rightarrow> Some (True, sk_called s)
      | Sys_error \<Rightarrow> Some (False, sk_called s))"

declare sendfile_loop.simps [code]

definition sk_file_job :: "int \<Rightarrow> sock \<Rightarrow> sock option" where
  "sk_file_job fd s =
     Option.bind (ape_socket_job_get_slot APE_SOCKET_JOB_SENDFILE (sk_would_block s)) (\<lambda>(job, s).
     sk_job_upd job (\<lambda>c. c\<lparr>pl_ptr := Some (Ptr_fd fd)\<rparr>) s)"

definition APE_sendfile :: "sys \<Rightarrow> sock \<Rightarrow> (int \<times> sock) option" where
  "APE_sendfile K s =
     (if sk_state s \<noteq> APE_SOCKET_ST_ONLINE then Some (0, s)
      else case sy_open K (sk_calls s) of
        None \<Rightarrow> Some (0, sk_called s)
      | Some fd \<Rightarrow>
          let s = sk_called s
          in Option.bind (sk_busy s) (\<lambda>b.
             if b then map_option (Pair 1) (sk_file_job fd s)
             else
               Option.bind (sendfile_loop K fd s) (\<lambda>(again, s).
               if again then map_option (Pair 1) (sk_file_job fd s) else Some (1, sk_emit [Sock_close_fd fd] s))))"

section \<open>Doing the jobs\<close>

text \<open>The blocks of one \<open>writev\<close>, at most as many as the system takes.\<close>

fun gather_chunks :: "nat \<Rightarrow> paddr option \<Rightarrow> sock \<Rightarrow> byte list list option" where
  "gather_chunks 0 packet s = Some []"
| "gather_chunks (Suc n) packet s =
     (case packet of
        None \<Rightarrow> Some []
      | Some a \<Rightarrow>
          Option.bind (pool_get (sk_packets s) a) (\<lambda>c.
          case pl_ptr c of
            None \<Rightarrow> Some []
          | Some d \<Rightarrow>
              Option.bind (mem_bytes d (pk_offset c) (pk_len c) s) (\<lambda>bs.
              map_option ((#) bs) (gather_chunks n (pl_next c) s))))"

text \<open>The data of a packet is released, and the packet becomes a spare one at the end of the list; the next one.\<close>

definition packet_done :: "addr \<Rightarrow> paddr \<Rightarrow> sock \<Rightarrow> (paddr option \<times> sock) option" where
  "packet_done li a s =
     Option.bind (pool_get (sk_packets s) a) (\<lambda>c.
     Option.bind (Option.bind (pl_ptr c) (\<lambda>d. ape_socket_release_data d (pk_type c) s)) (\<lambda>s.
     Option.bind (sk_packet_upd a (\<lambda>c. c\<lparr>pl_ptr := None\<rparr>) s) (\<lambda>s.
     Option.bind (sk_list li s) (\<lambda>l.
     Option.bind (ape_pool_head_to_queue l (sk_packets s)) (\<lambda>(l, h).
     Some (ps_head l, sk_set_list li l (s\<lparr>sk_packets := h\<rparr>)))))))"

text \<open>What was taken, packet by packet; the packet at which the loop ends.\<close>

partial_function (option) consume_loop :: "addr \<Rightarrow> int \<Rightarrow> paddr option \<Rightarrow> sock \<Rightarrow> (paddr option \<times> sock) option" where
  "consume_loop li n packet s =
     (case packet of
        None \<Rightarrow> Some (None, s)
      | Some a \<Rightarrow>
          Option.bind (pool_get (sk_packets s) a) (\<lambda>c.
          if pl_ptr c = None then Some (Some a, s)
          else
            let n = n - (int (pk_len c) - int (pk_offset c))
            in if n < 0
               then map_option (Pair (Some a)) (sk_packet_upd a (\<lambda>c. c\<lparr>pk_offset := nat (int (pk_len c) + n)\<rparr>) s)
               else
                 Option.bind (packet_done li a s) (\<lambda>(packet, s).
                 if n = 0 then Some (packet, s) else consume_loop li n packet s)))"

partial_function (option) ssl_packets :: "sys \<Rightarrow> addr \<Rightarrow> paddr option \<Rightarrow> sock \<Rightarrow> (bool \<times> sock) option" where
  "ssl_packets K li packet s =
     (case packet of
        None \<Rightarrow> Some (True, s)
      | Some a \<Rightarrow>
          Option.bind (pool_get (sk_packets s) a) (\<lambda>c.
          case pl_ptr c of
            None \<Rightarrow> Some (True, s)
          | Some d \<Rightarrow>
              Option.bind (mem_bytes d 0 (pk_len c) s) (\<lambda>bs.
              let r = sy_ssl_write K (sk_calls s) (pk_len c); s = sk_called s
              in if r = Ssl_want then Some (False, sk_would_block s)
                 else if r = Ssl_failed then Some (False, ape_socket_shutdown_force K s)
                 else
                   Option.bind (packet_done li a (if r = Ssl_done then sk_emit [Sock_bytes bs] s else s)) (\<lambda>(packet, s).
                   ssl_packets K li packet s))))"

declare consume_loop.simps [code] ssl_packets.simps [code]

text \<open>One job of each kind: whether it is done, so that the loop goes on.\<close>

definition job_writev :: "sys \<Rightarrow> paddr \<Rightarrow> sock \<Rightarrow> (bool \<times> sock) option" where
  "job_writev K job s =
     Option.bind (pool_get (sk_job_cells s) job) (\<lambda>c.
     case pl_ptr c of
       Some (Ptr_list li) \<Rightarrow>
         Option.bind (sk_list li s) (\<lambda>l.
         if sk_secure s then ssl_packets K li (ps_head l) s
         else
           Option.bind (gather_chunks (sy_iov_max K) (ps_head l) s) (\<lambda>chunks.
           case sy_write K (sk_calls s) (length (concat chunks)) of
             Sys_done n \<Rightarrow>
               Option.bind (consume_loop li (int n) (ps_head l) (sk_emit [Sock_bytes (take n (concat chunks))] (sk_called s))) (\<lambda>(packet, s).
               Option.bind packet (\<lambda>a.
               map_option (\<lambda>c. if pl_ptr c \<noteq> None then (False, sk_would_block s) else (True, s)) (pool_get (sk_packets s) a)))
           | _ \<Rightarrow> Some (False, sk_would_block (sk_called s))))
     | _ \<Rightarrow> None)"

definition job_sendfile :: "sys \<Rightarrow> paddr \<Rightarrow> sock \<Rightarrow> (bool \<times> sock) option" where
  "job_sendfile K job s =
     Option.bind (pool_get (sk_job_cells s) job) (\<lambda>c.
     case pl_ptr c of
       Some (Ptr_fd fd) \<Rightarrow>
         Option.bind (sendfile_loop K fd s) (\<lambda>(again, s).
         if again then Some (False, sk_would_block s)
         else map_option (Pair True) (sk_job_upd job (\<lambda>c. c\<lparr>jb_offset := 0, pl_ptr := None\<rparr>) (sk_emit [Sock_close_fd fd] s)))
     | _ \<Rightarrow> None)"

definition do_job :: "sys \<Rightarrow> u32 \<Rightarrow> paddr \<Rightarrow> sock \<Rightarrow> (bool \<times> sock) option" where
  "do_job K flags job s =
     (let kind = flags AND NOT (APE_POOL_ALL_FLAGS OR APE_SOCKET_JOB_ACTIVE)
      in if kind = APE_SOCKET_JOB_WRITEV then job_writev K job s
         else if kind = APE_SOCKET_JOB_SENDFILE then job_sendfile K job s
         else if kind = APE_SOCKET_JOB_SHUTDOWN then Some (False, sk_shutdown K s)
         else Some (True, s))"

partial_function (option) do_jobs_loop :: "sys \<Rightarrow> paddr option \<Rightarrow> sock \<Rightarrow> sock option" where
  "do_jobs_loop K job s =
     (case job of
        None \<Rightarrow> Some s
      | Some a \<Rightarrow>
          Option.bind (pool_get (sk_job_cells s) a) (\<lambda>c.
          if pl_flags c AND APE_SOCKET_JOB_ACTIVE = 0 then Some s
          else
            Option.bind (do_job K (pl_flags c) a s) (\<lambda>(go, s).
            if \<not> go then Some s
            else
              Option.bind (sk_job_upd a (\<lambda>c. c\<lparr>pl_flags := pl_flags c AND NOT APE_SOCKET_JOB_ACTIVE\<rparr>) s) (\<lambda>s.
              Option.bind (ape_pool_head_to_current (sk_jobs s) (sk_job_cells s)) (\<lambda>(l, h).
              do_jobs_loop K (ps_head l) (s\<lparr>sk_jobs := l, sk_job_cells := h\<rparr>))))))"

declare do_jobs_loop.simps [code]

definition ape_socket_do_jobs :: "sys \<Rightarrow> sock \<Rightarrow> sock option" where
  "ape_socket_do_jobs K s = do_jobs_loop K (ps_head (sk_jobs s)) s"

section \<open>Reading\<close>

text \<open>
  One round: the bytes go behind those that are there. The loop ends with the end of the stream, with nothing
  to read, or (\<open>None\<close>) because the TLS connection was shut down.
\<close>

datatype read_round = Read_more sock | Read_end "bool option" sock

definition read_data :: "byte list \<Rightarrow> sock \<Rightarrow> read_round option" where
  "read_data bs s =
     map_option (\<lambda>b. if bs = [] then Read_end (Some True) s else Read_more (s\<lparr>sk_data_in := b\<lparr>buf_used := buf_used b + length bs\<rparr>\<rparr>))
       (buf_write (buf_used (sk_data_in s)) bs (sk_data_in s))"

definition read_once :: "sys \<Rightarrow> sock \<Rightarrow> read_round option" where
  "read_once K s =
     (let b = buffer_prepare 2048 (sk_data_in s);
          room = buf_size b - buf_used b; i = sk_calls s;
          s = sk_called (s\<lparr>sk_data_in := b\<rparr>)
      in if sk_secure s
         then (case sy_ssl_read K i room of
                 Ssl_read_bytes bs \<Rightarrow> read_data bs s
               | Ssl_read_zero \<Rightarrow> Some (Read_end (Some True) s)
               | Ssl_read_want \<Rightarrow> Some (Read_end (Some False) s)
               | Ssl_read_failed \<Rightarrow> Some (Read_end None (ape_socket_shutdown_force K s)))
         else (case sy_read K i room of
                 Read_bytes bs \<Rightarrow> read_data bs s
               | Read_eof \<Rightarrow> Some (Read_end (Some True) s)
               | Read_again \<Rightarrow> Some (Read_end (Some False) s)
               | Read_intr \<Rightarrow> Some (Read_more s)))"

partial_function (option) read_loop :: "sys \<Rightarrow> sock \<Rightarrow> (bool option \<times> sock) option" where
  "read_loop K s =
     Option.bind (read_once K s) (\<lambda>r.
     case r of Read_more s \<Rightarrow> read_loop K s | Read_end eof s \<Rightarrow> Some (eof, s))"

declare read_loop.simps [code]

text \<open>
  The owner's callback works on a state of its own and on the socket, which it may write to. The buffer is
  empty when it has returned, whatever it left there.
\<close>

definition ape_socket_read ::
    "sys \<Rightarrow> (byte list \<Rightarrow> 'v \<times> sock \<Rightarrow> ('v \<times> sock) option) \<Rightarrow> 'v \<times> sock \<Rightarrow> (int \<times> 'v \<times> sock) option" where
  "ape_socket_read K on_read c =
     (case c of (v, s) \<Rightarrow>
      if sk_state s \<noteq> APE_SOCKET_ST_ONLINE then Some (0, v, s)
      else
        Option.bind (read_loop K s) (\<lambda>(eof, s).
        case eof of
          None \<Rightarrow> Some (0, v, s)
        | Some eof \<Rightarrow>
            Option.bind
              (if buf_used (sk_data_in s) \<noteq> 0
               then
                 Option.bind (buf_bytes (buf_used (sk_data_in s)) (sk_data_in s)) (\<lambda>bs.
                 map_option (\<lambda>(v, s). (v, s\<lparr>sk_data_in := (sk_data_in s)\<lparr>buf_used := 0\<rparr>\<rparr>))
                   (if sk_on_read s then on_read bs (v, s) else Some (v, s)))
               else Some (v, s)) (\<lambda>(v, s).
            if eof then Some (-1, v, snd (APE_socket_destroy s)) else Some (int (buf_used (sk_data_in s)), v, s))))"

text \<open>What the loop of events does with a client's socket.\<close>

definition ape_socket_connected :: "sock \<Rightarrow> sock" where
  "ape_socket_connected s = (if sk_on_connected s then sk_emit [Sock_on_connected] s else s)"

definition client_event ::
    "sys \<Rightarrow> (byte list \<Rightarrow> 'v \<times> sock \<Rightarrow> ('v \<times> sock) option) \<Rightarrow> bool \<Rightarrow> bool \<Rightarrow> bool \<Rightarrow> 'v \<times> sock \<Rightarrow> ('v \<times> sock) option" where
  "client_event K on_read readable writable connected c =
     (let c = (if writable then map_prod id (\<lambda>s. s\<lparr>sk_flags := sk_flags s AND NOT APE_SOCKET_WOULD_BLOCK\<rparr>) c else c)
      in Option.bind (if readable then ape_socket_read K on_read c else Some (0, c)) (\<lambda>(r, v, s).
         map_option (Pair v)
           (if readable \<and> r = -1 then Some s
            else if \<not> writable then Some s
            else if sk_state s = APE_SOCKET_ST_ONLINE \<and> sk_flags s AND APE_SOCKET_WOULD_BLOCK = 0 then ape_socket_do_jobs K s
            else if sk_state s = APE_SOCKET_ST_PROGRESS \<and> connected
            then Some (ape_socket_connected (s\<lparr>sk_state := APE_SOCKET_ST_ONLINE\<rparr>))
            else Some s)))"

section \<open>Operations of an owner\<close>

text \<open>
  What is done with a socket, with the memory of the caller: a block that is passed as \<open>APE_DATA_STATIC\<close> or as
  \<open>APE_DATA_COPY\<close> is the caller's again when the call returns, and is freed here; one that is passed as
  \<open>APE_DATA_AUTORELEASE\<close> belongs to the socket, and the others stay as they are.
\<close>

datatype sock_op = Op_write "byte list" ape_socket_data_autorelease | Op_sendfile | Op_shutdown | Op_writable

definition sock_write :: "sys \<Rightarrow> byte list \<Rightarrow> ape_socket_data_autorelease \<Rightarrow> sock \<Rightarrow> sock option" where
  "sock_write K bs data_type s =
     (let (a, s) = mem_new bs s
      in Option.bind (APE_socket_write K a (length bs) data_type s) (\<lambda>(r, s).
         if data_type = APE_DATA_STATIC \<or> data_type = APE_DATA_COPY then mem_free a s else Some s))"

text \<open>An owner that only takes note of what was read.\<close>

definition sk_note :: "byte list \<Rightarrow> unit \<times> sock \<Rightarrow> (unit \<times> sock) option" where
  "sk_note bs c = Some (map_prod id (sk_emit [Sock_on_read bs]) c)"

fun sock_do :: "sys \<Rightarrow> sock_op \<Rightarrow> sock \<Rightarrow> sock option" where
  "sock_do K (Op_write bs t) s = sock_write K bs t s"
| "sock_do K Op_sendfile s = map_option snd (APE_sendfile K s)"
| "sock_do K Op_shutdown s = APE_socket_shutdown K s"
| "sock_do K Op_writable s = map_option snd (client_event K sk_note False True False ((), s))"

primrec sock_run :: "sys \<Rightarrow> sock_op list \<Rightarrow> sock \<Rightarrow> sock option" where
  "sock_run K [] s = Some s"
| "sock_run K (op # ops) s = Option.bind (sock_do K op s) (sock_run K ops)"

text \<open>A new client, accepted and online.\<close>

definition sock_zero :: sock where
  "sock_zero = \<lparr>sk_state = APE_SOCKET_ST_PENDING, sk_flags = 0, sk_secure = False,
     sk_jobs = \<lparr>ps_head = None, ps_queue = None, ps_current = None\<rparr>, sk_data_in = buffer_init,
     sk_on_read = False, sk_on_connected = False, sk_on_disconnect = False, sk_job_cells = [], sk_lists = [],
     sk_packets = [], sk_mem = [], sk_calls = 0, sk_out = []\<rparr>"

definition sock_start :: sock where
  "sock_start = (APE_socket_new False sock_zero)\<lparr>sk_state := APE_SOCKET_ST_ONLINE\<rparr>"

declare split_paired_All [simp del] split_paired_Ex [simp del]

section \<open>The queue\<close>

lemma mem_new_simps:
  assumes "mem_new bs s = (a, s')"
  shows "a = length (sk_mem s)" "s' = s\<lparr>sk_mem := sk_mem s @ [Some bs]\<rparr>"
    "mem_get x s' = (if x = a then Some bs else mem_get x s)"
  using assms by (auto simp: mem_new_def mem_get_def nth_append)

lemma mem_get_less: "mem_get a s \<noteq> None \<Longrightarrow> a < length (sk_mem s)"
  by (auto simp: mem_get_def split: if_splits)

lemma mem_free_get:
  assumes "mem_get a s \<noteq> None"
  shows "\<exists>m. mem_free a s = Some (s\<lparr>sk_mem := m\<rparr>) \<and> (\<forall>x. mem_get x (s\<lparr>sk_mem := m\<rparr>) = (if x = a then None else mem_get x s))"
  using assms by (auto simp: mem_free_def mem_get_def nth_list_update split: if_splits)

lemma mem_bytes_some: "mem_bytes a off len s = Some bs \<Longrightarrow> mem_get a s \<noteq> None \<and> length bs = len - off"
  by (auto simp: mem_bytes_def bind_eq_Some_conv split: if_splits)

lemma mem_bytes_cong: "mem_get a s' = mem_get a s \<Longrightarrow> mem_bytes a off len s' = mem_bytes a off len s"
  by (simp add: mem_bytes_def)

lemma mem_bytes_drop:
  "mem_bytes a off len s = Some bs \<Longrightarrow> off \<le> off' \<Longrightarrow> mem_bytes a off' len s = Some (drop (off' - off) bs)"
  by (auto simp: mem_bytes_def bind_eq_Some_conv split: if_splits)

text \<open>What the invariant looks at.\<close>

definition sk_core where
  "sk_core s = (sk_state s, sk_secure s, sk_jobs s, sk_job_cells s, sk_lists s, sk_packets s, sk_mem s)"

lemma sk_core_simps [simp]:
  "sk_core (sk_emit os s) = sk_core s" "sk_core (sk_called s) = sk_core s" "sk_core (sk_would_block s) = sk_core s"
  "sk_core (s\<lparr>sk_flags := f\<rparr>) = sk_core s"
  by (simp_all add: sk_core_def sk_emit_def sk_called_def sk_would_block_def)

text \<open>
  A pending packet: its cell, its block and the bytes that are still to be written. The cells in front of the
  current one are the packets, the others are spare.
\<close>

type_synonym pending = "(paddr \<times> addr \<times> byte list) list"

definition owned :: "addr set \<Rightarrow> ape_socket_data_autorelease \<Rightarrow> addr \<Rightarrow> bool" where
  "owned ks ty d \<longleftrightarrow>
     (if ty = APE_DATA_AUTORELEASE \<or> ty = APE_DATA_COPY then d \<notin> ks else ty \<noteq> APE_DATA_STATIC \<and> d \<in> ks)"

definition packet_holds :: "addr set \<Rightarrow> sock \<Rightarrow> paddr \<times> addr \<times> byte list \<Rightarrow> bool" where
  "packet_holds ks s q \<longleftrightarrow> (case q of (a, d, bs) \<Rightarrow>
     \<exists>c. pool_get (sk_packets s) a = Some c \<and> pl_ptr c = Some d \<and> mem_bytes d (pk_offset c) (pk_len c) s = Some bs \<and>
       pk_offset c < pk_len c \<and> owned ks (pk_type c) d)"

definition packet_spare :: "sock \<Rightarrow> paddr \<Rightarrow> bool" where
  "packet_spare s a \<longleftrightarrow> (\<exists>c. pool_get (sk_packets s) a = Some c \<and> pl_ptr c = None)"

definition packets_ok :: "addr set \<Rightarrow> pool_list \<Rightarrow> sock \<Rightarrow> pending \<Rightarrow> paddr \<Rightarrow> paddr list \<Rightarrow> bool" where
  "packets_ok ks l s qs cur spare \<longleftrightarrow>
     pool_ok l (sk_packets s) (map fst qs @ cur # spare) \<and> ps_current l = Some cur \<and>
     (\<forall>q\<in>set qs. packet_holds ks s q) \<and> distinct (map (fst \<circ> snd) qs) \<and> (\<forall>a\<in>set (cur # spare). packet_spare s a)"

definition job_ok :: "addr set \<Rightarrow> sock \<Rightarrow> job \<Rightarrow> pending \<Rightarrow> bool" where
  "job_ok ks s c qs \<longleftrightarrow>
     (if pl_flags c = 1 then pl_ptr c = None \<and> qs = [] \<and> pool_blocks (sk_packets s) = {}
      else pl_flags c = (if qs = [] then 3 else 19) \<and>
        (\<exists>li l cur spare. pl_ptr c = Some (Ptr_list li) \<and> sk_list li s = Some l \<and> packets_ok ks l s qs cur spare))"

definition sock_inv :: "addr set \<Rightarrow> sock \<Rightarrow> pending \<Rightarrow> bool" where
  "sock_inv ks s qs \<longleftrightarrow> sk_state s = APE_SOCKET_ST_ONLINE \<and> \<not> sk_secure s \<and>
     (\<exists>a c. ps_head (sk_jobs s) = Some a \<and> ps_current (sk_jobs s) = Some a \<and> pool_get (sk_job_cells s) a = Some c \<and> job_ok ks s c qs)"

lemma sock_inv_cong:
  assumes e: "sk_state s' = sk_state s" "sk_secure s' = sk_secure s" "sk_jobs s' = sk_jobs s" "sk_job_cells s' = sk_job_cells s"
    "sk_lists s' = sk_lists s" "sk_packets s' = sk_packets s"
    and m: "\<And>q. q \<in> set qs \<Longrightarrow> mem_get (fst (snd q)) s' = mem_get (fst (snd q)) s"
  shows "sock_inv ks s' qs = sock_inv ks s qs"
proof -
  have "packet_holds ks s' q = packet_holds ks s q" if "q \<in> set qs" for q
  proof -
    obtain a d bs where q: "q = (a, d, bs)" by (cases q)
    have "mem_bytes d off n s' = mem_bytes d off n s" for off n using m [OF that] by (simp add: q mem_bytes_def)
    then show ?thesis by (simp add: packet_holds_def q e)
  qed
  moreover have "packet_spare s' a = packet_spare s a" for a unfolding packet_spare_def e ..
  ultimately have pk: "packets_ok ks l s' qs = packets_ok ks l s qs" for l
    by (intro ext) (simp add: packets_ok_def e)
  show ?thesis unfolding sock_inv_def job_ok_def sk_list_def e pk ..
qed

lemma sock_inv_core:
  assumes "sk_core s' = sk_core s"
  shows "sock_inv ks s' qs = sock_inv ks s qs"
  using assms by (intro sock_inv_cong) (simp_all add: sk_core_def mem_get_def)

lemma sock_inv_simps [simp]:
  "sock_inv ks (sk_emit os s) qs = sock_inv ks s qs" "sock_inv ks (sk_called s) qs = sock_inv ks s qs"
  "sock_inv ks (sk_would_block s) qs = sock_inv ks s qs" "sock_inv ks (s\<lparr>sk_flags := f\<rparr>) qs = sock_inv ks s qs"
  by (rule sock_inv_core, simp)+

text \<open>Other blocks do not matter.\<close>

lemma sock_inv_mem:
  assumes "sock_inv ks s qs" "\<And>d. d \<in> (fst \<circ> snd) ` set qs \<Longrightarrow> mem_get d (s\<lparr>sk_mem := m\<rparr>) = mem_get d s"
  shows "sock_inv ks (s\<lparr>sk_mem := m\<rparr>) qs"
  using assms sock_inv_cong [of "s\<lparr>sk_mem := m\<rparr>" s qs] by simp

lemma packet_holds_mem: "packet_holds ks s q \<Longrightarrow> mem_get (fst (snd q)) s \<noteq> None"
  by (cases q) (auto simp: packet_holds_def dest: mem_bytes_some)

lemma sock_inv_live:
  assumes "sock_inv ks s qs" "q \<in> set qs"
  shows "mem_get (fst (snd q)) s \<noteq> None"
proof -
  have "packet_holds ks s q" using assms by (auto simp: sock_inv_def job_ok_def packets_ok_def split: if_splits)
  then show ?thesis by (rule packet_holds_mem)
qed

lemma job_flags: "(1 :: u32) AND APE_SOCKET_JOB_WRITEV = 0" "(1 :: u32) AND APE_SOCKET_JOB_ACTIVE = 0"
  "(3 :: u32) AND APE_SOCKET_JOB_WRITEV \<noteq> 0" "(3 :: u32) AND APE_SOCKET_JOB_ACTIVE = 0"
  "(19 :: u32) AND APE_SOCKET_JOB_WRITEV \<noteq> 0" "(19 :: u32) AND APE_SOCKET_JOB_ACTIVE \<noteq> 0"
  "(1 :: u32) OR (APE_SOCKET_JOB_ACTIVE OR APE_SOCKET_JOB_WRITEV) = 19"
  "(3 :: u32) OR (APE_SOCKET_JOB_ACTIVE OR APE_SOCKET_JOB_WRITEV) = 19"
  "(19 :: u32) OR (APE_SOCKET_JOB_ACTIVE OR APE_SOCKET_JOB_WRITEV) = 19"
  "(19 :: u32) AND NOT APE_SOCKET_JOB_ACTIVE = 3"
  "(19 :: u32) AND NOT (APE_POOL_ALL_FLAGS OR APE_SOCKET_JOB_ACTIVE) = APE_SOCKET_JOB_WRITEV"
  by code_simp+

lemma would_block_flags: "sk_flags (sk_would_block s) AND APE_SOCKET_WOULD_BLOCK \<noteq> 0"
  "(f AND NOT APE_SOCKET_WOULD_BLOCK) AND APE_SOCKET_WOULD_BLOCK = 0"
proof -
  have "bit (sk_flags (sk_would_block s) AND APE_SOCKET_WOULD_BLOCK) 0"
    by (simp add: sk_would_block_def APE_SOCKET_WOULD_BLOCK_def bit_simps)
  then show "sk_flags (sk_would_block s) AND APE_SOCKET_WOULD_BLOCK \<noteq> 0" by auto
  show "(f AND NOT APE_SOCKET_WOULD_BLOCK) AND APE_SOCKET_WOULD_BLOCK = 0"
    by (rule bit_eqI) (simp add: bit_simps)
qed

text \<open>Busy means that something is pending, or that the flag says so.\<close>

lemma sk_busy_inv:
  assumes "sock_inv ks s qs"
  shows "sk_busy s = Some (sk_flags s AND APE_SOCKET_WOULD_BLOCK \<noteq> 0 \<or> qs \<noteq> [])"
  using assms job_flags
  by (auto simp: sock_inv_def job_ok_def sk_busy_def sk_head_active_def split: if_splits)

text \<open>What a change of the links leaves of a cell.\<close>

definition same_cells :: "('p, 'z) pool_heap \<Rightarrow> ('p, 'z) pool_heap \<Rightarrow> bool" where
  "same_cells h h' \<longleftrightarrow> (\<forall>a c. pool_get h a = Some c \<longrightarrow> (\<exists>q. pool_get h' a = Some (c\<lparr>pl_next := q\<rparr>)))"

lemma same_cellsI:
  assumes "\<And>a. pool_get h a \<noteq> None \<Longrightarrow>
    map_option (\<lambda>c. c\<lparr>pl_next := None\<rparr>) (pool_get h' a) = map_option (\<lambda>c. c\<lparr>pl_next := None\<rparr>) (pool_get h a)"
  shows "same_cells h h'"
  unfolding same_cells_def
proof (intro allI impI)
  fix a c
  assume c: "pool_get h a = Some c"
  with assms [of a] obtain c' where c': "pool_get h' a = Some c'" "c'\<lparr>pl_next := None\<rparr> = c\<lparr>pl_next := None\<rparr>" by auto
  have "c' = (c'\<lparr>pl_next := None\<rparr>)\<lparr>pl_next := pl_next c'\<rparr>" by simp
  then have "c' = c\<lparr>pl_next := pl_next c'\<rparr>" unfolding c'(2) by simp
  with c'(1) show "\<exists>q. pool_get h' a = Some (c\<lparr>pl_next := q\<rparr>)" by metis
qed

lemma packet_holds_same:
  assumes "same_cells (sk_packets s) (sk_packets s')" "packet_holds ks s q" "mem_get (fst (snd q)) s' = mem_get (fst (snd q)) s"
  shows "packet_holds ks s' q"
proof -
  obtain a d bs where q: "q = (a, d, bs)" by (cases q)
  obtain c where c: "pool_get (sk_packets s) a = Some c" "pl_ptr c = Some d" "mem_bytes d (pk_offset c) (pk_len c) s = Some bs"
    "pk_offset c < pk_len c" "owned ks (pk_type c) d" using assms(2) by (auto simp: packet_holds_def q)
  obtain n where "pool_get (sk_packets s') a = Some (c\<lparr>pl_next := n\<rparr>)" using assms(1) c(1) by (auto simp: same_cells_def)
  moreover have "mem_bytes d (pk_offset c) (pk_len c) s' = Some bs" using c(3) assms(3) mem_bytes_cong [of d s' s] by (simp add: q)
  ultimately show ?thesis using c by (auto simp: packet_holds_def q)
qed

lemma packet_spare_same: "same_cells (sk_packets s) (sk_packets s') \<Longrightarrow> packet_spare s a \<Longrightarrow> packet_spare s' a"
  by (fastforce simp: same_cells_def packet_spare_def)

lemma packets_ok_set_list: "packets_ok ks l (sk_set_list li l' s) = packets_ok ks l s"
proof -
  have "packet_holds ks (sk_set_list li l' s) q = packet_holds ks s q" for q
    by (cases q) (simp add: packet_holds_def sk_set_list_def mem_bytes_def mem_get_def)
  then show ?thesis by (intro ext) (simp add: packets_ok_def packet_spare_def sk_set_list_def)
qed

text \<open>The current cell is taken, and the next one becomes the current one.\<close>

lemma packet_taken:
  assumes pk: "packets_ok ks l s qs cur spare"
    and d: "mem_bytes data offset len s = Some bs" "offset < len" "owned ks ty data" "data \<notin> (fst \<circ> snd) ` set qs"
  shows "\<exists>h. sk_packet_upd cur (\<lambda>c. c\<lparr>pl_ptr := Some data, pk_len := len, pk_offset := offset, pk_type := ty\<rparr>) s = Some (s\<lparr>sk_packets := h\<rparr>) \<and>
    pool_ok l h (map fst qs @ cur # spare) \<and> (\<forall>q\<in>set (qs @ [(cur, data, bs)]). packet_holds ks (s\<lparr>sk_packets := h\<rparr>) q) \<and>
    (\<forall>a\<in>set spare. packet_spare (s\<lparr>sk_packets := h\<rparr>) a) \<and>
    (\<exists>c. pool_get h cur = Some c \<and> pl_next c = (if spare = [] then None else Some (hd spare)))"
proof -
  have p: "pool_ok l (sk_packets s) (map fst qs @ cur # spare)" "\<forall>q\<in>set qs. packet_holds ks s q" "\<forall>a\<in>set (cur # spare). packet_spare s a"
    using pk by (simp_all add: packets_ok_def)
  obtain c where c: "pool_get (sk_packets s) cur = Some c" using p(3) by (auto simp: packet_spare_def)
  let ?f = "\<lambda>c :: packet. c\<lparr>pl_ptr := Some data, pk_len := len, pk_offset := offset, pk_type := ty\<rparr>"
  obtain h where h: "pool_upd cur ?f (sk_packets s) = Some h" "pool_get h = (pool_get (sk_packets s))(cur := Some (?f c))"
    "pool_blocks h = pool_blocks (sk_packets s)" using pool_upd_get [OF c] by blast
  have ok: "pool_ok l h (map fst qs @ cur # spare)"
    by (rule pool_ok_write [OF p(1) c h(2)]) (simp_all add: h(3))
  have nc: "cur \<notin> fst ` set qs" "cur \<notin> set spare" using pool_okD(2) [OF p(1)] by auto
  have m: "mem_bytes d' off n (s\<lparr>sk_packets := h\<rparr>) = mem_bytes d' off n s" for d' off n by (simp add: mem_bytes_def mem_get_def)
  have "packet_holds ks (s\<lparr>sk_packets := h\<rparr>) q" if "q \<in> set qs" for q
    using p(2) that nc(1) by (cases q) (force simp: packet_holds_def h(2) m)
  moreover have "packet_holds ks (s\<lparr>sk_packets := h\<rparr>) (cur, data, bs)"
    using d(1,2,3) by (simp add: packet_holds_def h(2) m)
  moreover have "packet_spare (s\<lparr>sk_packets := h\<rparr>) a" if "a \<in> set spare" for a
    using p(3) that nc(2) by (auto simp: packet_spare_def h(2))
  moreover have "pool_next h cur = (if spare = [] then None else Some (hd spare))"
    by (rule chain_middle [OF pool_okD(1) [OF ok]])
  then have "pl_next (?f c) = (if spare = [] then None else Some (hd spare))" by (simp add: pool_next_def h(2))
  ultimately show ?thesis using h(1) ok by (auto simp: sk_packet_upd_def h(2))
qed

lemma queue_packet_ok:
  assumes pk: "packets_ok ks l s qs cur spare" and l: "sk_list li s = Some l"
    and d: "mem_bytes data offset len s = Some bs" "offset < len" "owned ks ty data" "data \<notin> (fst \<circ> snd) ` set qs"
  shows "\<exists>l' h cur' spare'. queue_packet li data len offset ty s = Some (sk_set_list li l' (s\<lparr>sk_packets := h\<rparr>)) \<and>
    packets_ok ks l' (s\<lparr>sk_packets := h\<rparr>) (qs @ [(cur, data, bs)]) cur' spare'"
proof -
  from packet_taken [OF pk d] obtain h c where
    h: "sk_packet_upd cur (\<lambda>c. c\<lparr>pl_ptr := Some data, pk_len := len, pk_offset := offset, pk_type := ty\<rparr>) s = Some (s\<lparr>sk_packets := h\<rparr>)"
      "pool_ok l h (map fst qs @ cur # spare)" "\<forall>q\<in>set (qs @ [(cur, data, bs)]). packet_holds ks (s\<lparr>sk_packets := h\<rparr>) q"
      "\<forall>a\<in>set spare. packet_spare (s\<lparr>sk_packets := h\<rparr>) a"
      "pool_get h cur = Some c" "pl_next c = (if spare = [] then None else Some (hd spare))" by blast
  have cur: "ps_current l = Some cur" and dist: "distinct (map (fst \<circ> snd) (qs @ [(cur, data, bs)]))"
    using pk d(4) by (simp_all add: packets_ok_def)
  show ?thesis
  proof (cases spare)
    case (Cons b spare')
    have "packets_ok ks (l\<lparr>ps_current := Some b\<rparr>) (s\<lparr>sk_packets := h\<rparr>) (qs @ [(cur, data, bs)]) b spare'"
      using h(2,3,4) dist Cons by (simp add: packets_ok_def pool_ok_def)
    moreover have "queue_packet li data len offset ty s = Some (sk_set_list li (l\<lparr>ps_current := Some b\<rparr>) (s\<lparr>sk_packets := h\<rparr>))"
      using l cur h(1,5,6) Cons by (simp add: queue_packet_def)
    ultimately show ?thesis by blast
  next
    case Nil
    have eight: "0 < (8 :: nat)" by simp
    let ?b = "length h"
    from ape_grow_pool_ok [OF h(2) eight, of raw_packet] obtain l1 h1 where
      g: "ape_grow_pool raw_packet 8 l h = Some ((?b, 0), l1, h1)"
        "pool_ok l1 h1 ((map fst qs @ cur # spare) @ map (Pair ?b) [0..<8])"
        "\<forall>a. fst a \<noteq> ?b \<longrightarrow> map_option (\<lambda>c. c\<lparr>pl_next := None\<rparr>) (pool_get h1 a) = map_option (\<lambda>c. c\<lparr>pl_next := None\<rparr>) (pool_get h a)"
        "\<forall>i<8. \<exists>q. pool_get h1 (?b, i) = Some (raw_packet\<lparr>pl_next := q, pl_ptr := None, pl_flags := (if i = 0 then APE_POOL_ALLOC else 0)\<rparr>)"
      by blast
    have sc: "same_cells h h1"
    proof (rule same_cellsI)
      fix a
      assume "pool_get h a \<noteq> None"
      then have "fst a \<noteq> ?b" using pool_get_block [of h a] by (auto simp: pool_blocks_def)
      with g(3) show "map_option (\<lambda>c. c\<lparr>pl_next := None\<rparr>) (pool_get h1 a) = map_option (\<lambda>c. c\<lparr>pl_next := None\<rparr>) (pool_get h a)" by simp
    qed
    let ?s = "s\<lparr>sk_packets := h1\<rparr>"
    have hold: "\<forall>q\<in>set (qs @ [(cur, data, bs)]). packet_holds ks ?s q"
      using h(3) packet_holds_same [of "s\<lparr>sk_packets := h\<rparr>" ?s] sc by (simp add: mem_get_def)
    have u: "map (Pair ?b) [0..<8] = (?b, 0) # map (Pair ?b) [1..<8]" by (simp add: upt_rec)
    have sp: "packet_spare ?s (?b, i)" if "i < 8" for i using g(4) that by (auto simp: packet_spare_def)
    have n: "pool_next h1 cur = Some (?b, 0)"
      using chain_middle [OF pool_okD(1) [OF g(2) [unfolded Nil append_Cons append_Nil append_assoc]]] u by simp
    then obtain c1 where c1: "pool_get h1 cur = Some c1" "pl_next c1 = Some (?b, 0)" by (auto simp: pool_next_def bind_eq_Some_conv)
    have "packets_ok ks (l1\<lparr>ps_current := Some (?b, 0)\<rparr>) ?s (qs @ [(cur, data, bs)]) (?b, 0) (map (Pair ?b) [1..<8])"
      using g(2) hold dist sp u Nil by (simp add: packets_ok_def pool_ok_def)
    moreover have "queue_packet li data len offset ty s = Some (sk_set_list li (l1\<lparr>ps_current := Some (?b, 0)\<rparr>) ?s)"
      using l cur h(1,5,6) Nil g(1) c1 by (simp add: queue_packet_def)
    ultimately show ?thesis by blast
  qed
qed

text \<open>The slot that is asked for is the first job, with its list.\<close>

lemma job_slot_ok:
  assumes i: "sock_inv ks s qs"
  shows "\<exists>a li l s' cur spare. Option.bind (ape_socket_job_get_slot APE_SOCKET_JOB_WRITEV s) (\<lambda>(job, s). job_list job s) = Some (li, s') \<and>
    s' = s\<lparr>sk_job_cells := sk_job_cells s', sk_lists := sk_lists s', sk_packets := sk_packets s'\<rparr> \<and>
    ps_head (sk_jobs s) = Some a \<and> ps_current (sk_jobs s) = Some a \<and>
    (\<exists>c. pool_get (sk_job_cells s') a = Some c \<and> pl_flags c = 19 \<and> pl_ptr c = Some (Ptr_list li)) \<and>
    sk_list li s' = Some l \<and> packets_ok ks l s' qs cur spare"
proof -
  from i obtain a c where a: "ps_head (sk_jobs s) = Some a" "ps_current (sk_jobs s) = Some a" "pool_get (sk_job_cells s) a = Some c"
    and ok: "job_ok ks s c qs" by (auto simp: sock_inv_def)
  let ?f = "\<lambda>c :: job. c\<lparr>pl_flags := pl_flags c OR (APE_SOCKET_JOB_ACTIVE OR APE_SOCKET_JOB_WRITEV)\<rparr>"
  obtain h where h: "pool_upd a ?f (sk_job_cells s) = Some h" "pool_get h = (pool_get (sk_job_cells s))(a := Some (?f c))"
    using pool_upd_get [OF a(3)] by blast
  have fl: "pl_flags c = 1 \<or> pl_flags c = 3 \<or> pl_flags c = 19" using ok by (auto simp: job_ok_def split: if_splits)
  have f19: "pl_flags (?f c) = 19" using fl job_flags by auto
  have slot: "ape_socket_job_get_slot APE_SOCKET_JOB_WRITEV s = Some (a, s\<lparr>sk_job_cells := h\<rparr>)"
    using a fl job_flags h(1) by (auto simp: ape_socket_job_get_slot_def sk_job_upd_def)
  have g: "pool_get h a = Some (?f c)" by (simp add: h(2))
  have m: "mem_bytes d off n (s\<lparr>sk_job_cells := x, sk_lists := y\<rparr>) = mem_bytes d off n s" for d off n x y
    by (simp add: mem_bytes_def mem_get_def)
  show ?thesis
  proof (cases "pl_flags c = 1")
    case False
    with ok obtain li l cur spare where l: "pl_ptr c = Some (Ptr_list li)" "sk_list li s = Some l" "packets_ok ks l s qs cur spare"
      by (auto simp: job_ok_def)
    let ?s = "s\<lparr>sk_job_cells := h\<rparr>"
    have "packets_ok ks l ?s qs cur spare"
    proof -
      have "packet_holds ks ?s q = packet_holds ks s q" for q by (cases q) (simp add: packet_holds_def mem_bytes_def mem_get_def)
      with l(3) show ?thesis by (simp add: packets_ok_def packet_spare_def)
    qed
    moreover have "job_list a ?s = Some (li, ?s)" using g l(1) by (simp add: job_list_def)
    moreover have "sk_list li ?s = Some l" using l(2) by (simp add: sk_list_def split: if_splits)
    ultimately show ?thesis using slot a(1,2) g f19 l(1)
      by (intro exI [of _ a] exI [of _ li] exI [of _ l] exI [of _ ?s] exI [of _ cur] exI [of _ spare]) auto
  next
    case True
    with ok have e: "pl_ptr c = None" "qs = []" "pool_blocks (sk_packets s) = {}" by (auto simp: job_ok_def)
    obtain l hp where l: "ape_init_pool_list raw_packet 8 (sk_packets s) = (l, hp)" by (cases "ape_init_pool_list raw_packet 8 (sk_packets s)")
    have eight: "0 < (8 :: nat)" by simp
    let ?b = "length (sk_packets s)"
    note li = ape_init_pool_list_ok [OF eight e(3) l]
    have u: "map (Pair ?b) [0..<8] = (?b, 0) # map (Pair ?b) [1..<8]" by (simp add: upt_rec)
    have g2: "pl_ptr (?f c) = None" using e(1) by simp
    let ?li = "length (sk_lists s)"
    obtain h2 where h2: "pool_upd a (\<lambda>c. c\<lparr>pl_ptr := Some (Ptr_list ?li)\<rparr>) h = Some h2"
      "pool_get h2 = (pool_get h)(a := Some ((?f c)\<lparr>pl_ptr := Some (Ptr_list ?li)\<rparr>))"
      using pool_upd_get [OF g] by blast
    let ?s = "s\<lparr>sk_job_cells := h2, sk_lists := sk_lists s @ [l], sk_packets := hp\<rparr>"
    have sp: "packet_spare ?s (?b, i)" if "i < 8" for i using li that by (auto simp: packet_spare_def)
    have "packets_ok ks l ?s qs (?b, 0) (map (Pair ?b) [1..<8])"
      using li sp u e(2) by (simp add: packets_ok_def)
    moreover have "job_list a (s\<lparr>sk_job_cells := h\<rparr>) = Some (?li, ?s)"
      using g g2 l h2(1) by (simp add: job_list_def ape_new_pool_list_def sk_job_upd_def)
    moreover have "sk_list ?li ?s = Some l" by (simp add: sk_list_def)
    moreover have "pool_get h2 a = Some ((?f c)\<lparr>pl_ptr := Some (Ptr_list ?li)\<rparr>)" by (simp add: h2(2))
    ultimately show ?thesis using slot a(1,2) f19
      by (intro exI [of _ a] exI [of _ ?li] exI [of _ l] exI [of _ ?s] exI [of _ "(?b, 0)"] exI [of _ "map (Pair ?b) [1..<8]"]) auto
  qed
qed

lemma sock_inv_packets:
  assumes i: "sock_inv ks s qs"
    and a: "ps_head (sk_jobs s) = Some a" "ps_current (sk_jobs s) = Some a" "pool_get h a = Some c"
    and c: "pl_flags c = (if qs' = [] then 3 else 19)" "pl_ptr c = Some (Ptr_list li)"
    and l: "li < length ls" "packets_ok ks l (s\<lparr>sk_packets := hp, sk_mem := m\<rparr>) qs' cur spare"
  shows "sock_inv ks (sk_set_list li l (s\<lparr>sk_job_cells := h, sk_lists := ls, sk_packets := hp, sk_mem := m\<rparr>)) qs'"
proof -
  let ?s = "sk_set_list li l (s\<lparr>sk_job_cells := h, sk_lists := ls, sk_packets := hp, sk_mem := m\<rparr>)"
  have "packet_holds ks ?s q = packet_holds ks (s\<lparr>sk_packets := hp, sk_mem := m\<rparr>) q" for q
    by (cases q) (simp add: packet_holds_def mem_bytes_def mem_get_def sk_set_list_def)
  with l(2) have "packets_ok ks l ?s qs' cur spare" by (simp add: packets_ok_def packet_spare_def sk_set_list_def)
  moreover have "sk_list li ?s = Some l" using l(1) by (simp add: sk_list_def sk_set_list_def)
  ultimately have "job_ok ks ?s c qs'" unfolding job_ok_def using c by auto
  then show ?thesis using i a by (auto simp: sock_inv_def sk_set_list_def)
qed

lemma queue_data_ok:
  assumes i: "sock_inv ks s qs" and d: "mem_bytes data 0 len s = Some bs" "offset < len"
    and fresh: "if ty = APE_DATA_STATIC \<or> ty = APE_DATA_COPY then length (sk_mem s) \<notin> ks
      else data \<notin> (fst \<circ> snd) ` set qs \<and> (if ty = APE_DATA_AUTORELEASE then data \<notin> ks else data \<in> ks)"
  shows "\<exists>s' a d. ape_socket_queue_data data len offset ty s = Some s' \<and> sock_inv ks s' (qs @ [(a, d, drop offset bs)]) \<and>
    sk_out s' = sk_out s \<and> sk_flags s' = sk_flags s \<and> sk_calls s' = sk_calls s \<and>
    (\<forall>x. mem_get x s \<noteq> None \<longrightarrow> mem_get x s' = mem_get x s) \<and>
    (if ty = APE_DATA_STATIC \<or> ty = APE_DATA_COPY then d = length (sk_mem s) \<and> sk_mem s' = sk_mem s @ [Some bs]
     else d = data \<and> sk_mem s' = sk_mem s)"
proof -
  let ?ty = "if ty = APE_DATA_STATIC then APE_DATA_COPY else ty"
  let ?copy = "ty = APE_DATA_STATIC \<or> ty = APE_DATA_COPY"
  obtain m dd where md: "m = (if ?copy then sk_mem s @ [Some bs] else sk_mem s)" "dd = (if ?copy then length (sk_mem s) else data)" by simp
  let ?s = "s\<lparr>sk_mem := m\<rparr>"
  have keep: "mem_get x ?s = mem_get x s" if "mem_get x s \<noteq> None" for x
    using mem_get_less [OF that] by (simp add: mem_get_def nth_append md)
  have inv: "sock_inv ks ?s qs"
    by (rule sock_inv_mem [OF i]) (use sock_inv_live [OF i] keep in auto)
  have len: "length bs = len" using mem_bytes_some [OF d(1)] by simp
  have b: "mem_bytes dd offset len ?s = Some (drop offset bs)"
    using mem_bytes_drop [OF d(1), of offset] len by (auto simp: mem_bytes_def mem_get_def nth_append md split: if_splits)
  have nd: "dd \<notin> (fst \<circ> snd) ` set qs"
  proof (cases ?copy)
    case True
    have "fst (snd q) < length (sk_mem s)" if "q \<in> set qs" for q by (rule mem_get_less [OF sock_inv_live [OF i that]])
    then have "dd \<noteq> fst (snd q)" if "q \<in> set qs" for q using that True by (fastforce simp: md)
    then show ?thesis by auto
  next
    case False
    with fresh show ?thesis by (simp add: md)
  qed
  obtain a li l s1 cur spare where s1:
    "Option.bind (ape_socket_job_get_slot APE_SOCKET_JOB_WRITEV ?s) (\<lambda>(job, s). job_list job s) = Some (li, s1)"
    "s1 = ?s\<lparr>sk_job_cells := sk_job_cells s1, sk_lists := sk_lists s1, sk_packets := sk_packets s1\<rparr>"
    "ps_head (sk_jobs ?s) = Some a" "ps_current (sk_jobs ?s) = Some a"
    "\<exists>c. pool_get (sk_job_cells s1) a = Some c \<and> pl_flags c = 19 \<and> pl_ptr c = Some (Ptr_list li)"
    "sk_list li s1 = Some l" "packets_ok ks l s1 qs cur spare"
    using job_slot_ok [OF inv] by blast
  have f1: "sk_mem s1 = m" "sk_out s1 = sk_out s" "sk_flags s1 = sk_flags s" "sk_calls s1 = sk_calls s"
    by (subst s1(2), simp)+
  have b1: "mem_bytes dd offset len s1 = Some (drop offset bs)" using b mem_bytes_cong [of dd s1 ?s] f1(1) by (simp add: mem_get_def)
  have t: "owned ks ?ty dd"
    using fresh by (cases ty) (auto simp: md owned_def)
  from queue_packet_ok [OF s1(7,6) b1 d(2) t nd] obtain l' h cur' spare' where
    q: "queue_packet li dd len offset ?ty s1 = Some (sk_set_list li l' (s1\<lparr>sk_packets := h\<rparr>))"
      "packets_ok ks l' (s1\<lparr>sk_packets := h\<rparr>) (qs @ [(cur, dd, drop offset bs)]) cur' spare'" by blast
  let ?s' = "sk_set_list li l' (s1\<lparr>sk_packets := h\<rparr>)"
  have e: "?s' = sk_set_list li l' (?s\<lparr>sk_job_cells := sk_job_cells s1, sk_lists := sk_lists s1, sk_packets := h, sk_mem := m\<rparr>)"
    by (subst s1(2)) (cases s, simp add: sk_set_list_def)
  obtain c where c: "pool_get (sk_job_cells s1) a = Some c" "pl_flags c = 19" "pl_ptr c = Some (Ptr_list li)" using s1(5) by blast
  have li: "li < length (sk_lists s1)" using s1(6) by (simp add: sk_list_def split: if_splits)
  have pk: "packets_ok ks l' (?s\<lparr>sk_packets := h, sk_mem := m\<rparr>) (qs @ [(cur, dd, drop offset bs)]) cur' spare'"
  proof -
    have "packet_holds ks (?s\<lparr>sk_packets := h, sk_mem := m\<rparr>) x = packet_holds ks (s1\<lparr>sk_packets := h\<rparr>) x" for x
      using f1(1) by (cases x) (simp add: packet_holds_def mem_bytes_def mem_get_def)
    with q(2) show ?thesis by (simp add: packets_ok_def packet_spare_def)
  qed
  have "sock_inv ks ?s' (qs @ [(cur, dd, drop offset bs)])"
    unfolding e by (rule sock_inv_packets [OF inv s1(3,4) c(1) _ c(3) li pk]) (simp add: c(2))
  moreover have "ape_socket_queue_data data len offset ty s = Some ?s'"
  proof -
    obtain job s2 where sl: "ape_socket_job_get_slot APE_SOCKET_JOB_WRITEV ?s = Some (job, s2)" "job_list job s2 = Some (li, s1)"
      using s1(1) by (auto simp: bind_eq_Some_conv)
    have "(if ?ty = APE_DATA_COPY then map_option (\<lambda>bs. mem_new bs s) (mem_bytes data 0 len s) else Some (data, s)) = Some (dd, ?s)"
      using d(1) by (auto simp: mem_new_def md)
    then show ?thesis using sl q(1) by (simp add: ape_socket_queue_data_def Let_def)
  qed
  moreover have "sk_out ?s' = sk_out s" "sk_flags ?s' = sk_flags s" "sk_calls ?s' = sk_calls s" "sk_mem ?s' = m"
    using f1 by (simp_all add: sk_set_list_def)
  moreover have "mem_get x ?s' = mem_get x s" if "mem_get x s \<noteq> None" for x
  proof -
    have "mem_get x ?s' = mem_get x ?s" using f1(1) by (simp add: mem_get_def sk_set_list_def)
    with keep [OF that] show ?thesis by simp
  qed
  ultimately show ?thesis
    by (intro exI [of _ ?s'] exI [of _ cur] exI [of _ dd]) (auto simp: md)
qed

lemma sock_inv_mono:
  assumes "sock_inv ks s qs" "ks' = ks \<or> ks' = insert a ks" "a \<notin> (fst \<circ> snd) ` set qs"
  shows "sock_inv ks' s qs"
proof -
  have h: "packet_holds ks' s q" if "packet_holds ks s q" "q \<in> set qs" for q
  proof -
    have "fst (snd q) \<noteq> a" using assms(3) that(2) by auto
    then have "owned ks ty (fst (snd q)) \<Longrightarrow> owned ks' ty (fst (snd q))" for ty using assms(2) by (auto simp: owned_def)
    with that(1) show ?thesis by (cases q) (auto simp: packet_holds_def)
  qed
  have "packets_ok ks l s qs cur spare \<Longrightarrow> packets_ok ks' l s qs cur spare" for l cur spare
    using h by (auto simp: packets_ok_def)
  then have "job_ok ks s c qs \<Longrightarrow> job_ok ks' s c qs" for c unfolding job_ok_def by (metis (no_types))
  then show ?thesis using assms(1) unfolding sock_inv_def by blast
qed

text \<open>What is still to be written, and what was.\<close>

definition to_write :: "pending \<Rightarrow> byte list" where
  "to_write qs = concat (map (snd \<circ> snd) qs)"

definition sent :: "sock \<Rightarrow> byte list" where
  "sent s = concat (map (\<lambda>e. case e of Sock_bytes bs \<Rightarrow> bs | _ \<Rightarrow> []) (sk_out s))"

lemma sent_simps [simp]:
  "sent (sk_called s) = sent s" "sent (sk_would_block s) = sent s" "sent (sk_emit [Sock_bytes bs] s) = sent s @ bs"
  "to_write [] = []" "to_write (q # qs) = snd (snd q) @ to_write qs" "to_write (qs @ qs') = to_write qs @ to_write qs'"
  by (simp_all add: sent_def sk_called_def sk_would_block_def sk_emit_def to_write_def)

lemma gather_chunks_ok:
  assumes "chain (pool_next (sk_packets s)) p (map fst qs @ cur # spare)" "\<forall>q\<in>set qs. packet_holds ks s q" "packet_spare s cur"
  shows "gather_chunks n p s = Some (map (snd \<circ> snd) (take n qs))"
  using assms(1,2)
proof (induction n arbitrary: p qs)
  case (Suc n)
  show ?case
  proof (cases qs)
    case Nil
    with Suc.prems(1) have "p = Some cur" by simp
    with assms(3) Nil show ?thesis by (auto simp: packet_spare_def)
  next
    case (Cons q qs')
    obtain a d bs where q: "q = (a, d, bs)" by (cases q)
    obtain c where c: "pool_get (sk_packets s) a = Some c" "pl_ptr c = Some d" "mem_bytes d (pk_offset c) (pk_len c) s = Some bs"
      using Suc.prems(2) Cons by (auto simp: packet_holds_def q)
    have "pool_next (sk_packets s) a = pl_next c" using c(1) by (simp add: pool_next_def)
    then have p: "p = Some a" "chain (pool_next (sk_packets s)) (pl_next c) (map fst qs' @ cur # spare)"
      using Suc.prems(1) Cons by (simp_all add: q)
    from Suc.IH [OF p(2)] Suc.prems(2) Cons c p(1) show ?thesis by (simp add: q)
  qed
qed simp

text \<open>A packet is done: its block is freed if the socket owns it.\<close>

lemma packet_done_ok:
  assumes pk: "packets_ok ks l s ((a, d, bs) # qs) cur spare" and l: "sk_list li s = Some l"
  shows "\<exists>l' h m. packet_done li a s = Some (ps_head l', sk_set_list li l' (s\<lparr>sk_packets := h, sk_mem := m\<rparr>)) \<and>
    packets_ok ks l' (s\<lparr>sk_packets := h, sk_mem := m\<rparr>) qs cur (spare @ [a]) \<and>
    (\<forall>x. mem_get x (s\<lparr>sk_mem := m\<rparr>) = mem_get x s \<or> x = d \<and> x \<notin> ks \<and> mem_get x (s\<lparr>sk_mem := m\<rparr>) = None) \<and>
    (mem_get d (s\<lparr>sk_mem := m\<rparr>) = None \<or> d \<in> ks)"
proof -
  have p: "pool_ok l (sk_packets s) (a # map fst qs @ cur # spare)" "ps_current l = Some cur"
    "packet_holds ks s (a, d, bs)" "\<forall>q\<in>set qs. packet_holds ks s q" "\<forall>x\<in>set (cur # spare). packet_spare s x"
    "d \<notin> (fst \<circ> snd) ` set qs" "distinct (map (fst \<circ> snd) qs)"
    using pk by (simp_all add: packets_ok_def)
  obtain c where c: "pool_get (sk_packets s) a = Some c" "pl_ptr c = Some d" "mem_bytes d (pk_offset c) (pk_len c) s = Some bs"
    "owned ks (pk_type c) d"
    using p(3) by (auto simp: packet_holds_def)
  obtain m where m: "ape_socket_release_data d (pk_type c) s = Some (s\<lparr>sk_mem := m\<rparr>)"
    "\<And>x. mem_get x (s\<lparr>sk_mem := m\<rparr>) = mem_get x s \<or> x = d \<and> x \<notin> ks \<and> mem_get x (s\<lparr>sk_mem := m\<rparr>) = None"
    "mem_get d (s\<lparr>sk_mem := m\<rparr>) = None \<or> d \<in> ks"
  proof (cases "pk_type c = APE_DATA_AUTORELEASE \<or> pk_type c = APE_DATA_COPY")
    case True
    from mem_bytes_some [OF c(3)] mem_free_get [of d s] obtain m where
      "mem_free d s = Some (s\<lparr>sk_mem := m\<rparr>)" "\<forall>x. mem_get x (s\<lparr>sk_mem := m\<rparr>) = (if x = d then None else mem_get x s)" by blast
    with True c(4) show ?thesis by (intro that [of m]) (auto simp: ape_socket_release_data_def owned_def)
  next
    case False
    with c(4) show ?thesis by (intro that [of "sk_mem s"]) (auto simp: ape_socket_release_data_def owned_def)
  qed
  let ?f = "\<lambda>c :: packet. c\<lparr>pl_ptr := None\<rparr>"
  obtain h1 where h1: "pool_upd a ?f (sk_packets s) = Some h1" "pool_get h1 = (pool_get (sk_packets s))(a := Some (?f c))"
    "pool_blocks h1 = pool_blocks (sk_packets s)" using pool_upd_get [OF c(1)] by blast
  have ok1: "pool_ok l h1 (a # map fst qs @ cur # spare)" by (rule pool_ok_write [OF p(1) c(1) h1(2)]) (simp_all add: h1(3))
  have ne: "map fst qs @ cur # spare \<noteq> []" by simp
  from head_to_queue_ok [OF ok1 ne] obtain l' h where
    h: "ape_pool_head_to_queue l h1 = Some (l', h)" "pool_ok l' h ((map fst qs @ cur # spare) @ [a])" "ps_current l' = ps_current l"
      "\<forall>x. map_option (\<lambda>c. c\<lparr>pl_next := None\<rparr>) (pool_get h x) = map_option (\<lambda>c. c\<lparr>pl_next := None\<rparr>) (pool_get h1 x)"
    by blast
  have sc: "same_cells h1 h" using h(4) by (intro same_cellsI) blast
  let ?s = "s\<lparr>sk_packets := h, sk_mem := m\<rparr>"
  have na: "a \<notin> fst ` set qs" "a \<noteq> cur" "a \<notin> set spare" using pool_okD(2) [OF p(1)] by auto
  have hold: "packet_holds ks ?s q" if q: "q \<in> set qs" for q
  proof -
    have "packet_holds ks (s\<lparr>sk_packets := h1\<rparr>) q"
      using p(4) q na(1) by (cases q) (force simp: packet_holds_def h1(2) mem_bytes_def mem_get_def)
    moreover have "fst (snd q) \<noteq> d" using p(6) q by force
    then have "mem_get (fst (snd q)) ?s = mem_get (fst (snd q)) (s\<lparr>sk_packets := h1\<rparr>)"
      using m(2) [of "fst (snd q)"] by (auto simp: mem_get_def)
    ultimately show ?thesis using packet_holds_same [of "s\<lparr>sk_packets := h1\<rparr>" ?s ks q] sc by simp
  qed
  have spare1: "packet_spare (s\<lparr>sk_packets := h1\<rparr>) x" if "x \<in> set (cur # spare @ [a])" for x
    using p(5) that by (auto simp: packet_spare_def h1(2))
  have spare: "packet_spare ?s x" if "x \<in> set (cur # spare @ [a])" for x
    using packet_spare_same [of "s\<lparr>sk_packets := h1\<rparr>" ?s x] sc spare1 [OF that] by simp
  have "packets_ok ks l' ?s qs cur (spare @ [a])"
    using h(2,3) p(2,7) hold spare by (simp add: packets_ok_def)
  moreover have "packet_done li a s = Some (ps_head l', sk_set_list li l' ?s)"
    using c(1,2) m(1) h1(1) h(1) l by (cases s) (simp add: packet_done_def sk_packet_upd_def sk_list_def sk_set_list_def split: if_splits)
  ultimately show ?thesis using m(2,3) by blast
qed

lemma sk_set_list_upd: "(sk_set_list li l s)\<lparr>sk_packets := h, sk_mem := m\<rparr> = sk_set_list li l (s\<lparr>sk_packets := h, sk_mem := m\<rparr>)"
  "sk_set_list li l' (sk_set_list li l s) = sk_set_list li l' s"
  "s\<lparr>sk_packets := h, sk_mem := m, sk_packets := h', sk_mem := m'\<rparr> = s\<lparr>sk_packets := h', sk_mem := m'\<rparr>"
  "sk_set_list li l s\<lparr>sk_packets := h\<rparr> = sk_set_list li l (s\<lparr>sk_packets := h\<rparr>)"
  by (cases s; simp add: sk_set_list_def)+

lemma sk_set_list_simps [simp]: "sk_mem (sk_set_list li l s) = sk_mem s" "sk_packets (sk_set_list li l s) = sk_packets s"
  "sk_list li s \<noteq> None \<Longrightarrow> sk_list li (sk_set_list li l s) = Some l"
  by (auto simp: sk_set_list_def sk_list_def split: if_splits)

lemma mem_get_simps [simp]: "mem_get x (sk_set_list li l s) = mem_get x s" "mem_get x (s\<lparr>sk_packets := h\<rparr>) = mem_get x s"
  "mem_get x (s\<lparr>sk_packets := h, sk_mem := m\<rparr>) = mem_get x (s\<lparr>sk_mem := m\<rparr>)"
  by (simp_all add: mem_get_def)

definition addrs :: "pending \<Rightarrow> addr set" where
  "addrs qs = (fst \<circ> snd) ` set qs"

text \<open>What a step may do to the memory, when the packets \<open>qs\<close> become \<open>qs'\<close>.\<close>

definition mem_step :: "addr set \<Rightarrow> sock \<Rightarrow> pending \<Rightarrow> sock \<Rightarrow> pending \<Rightarrow> bool" where
  "mem_step ks s qs s' qs' \<longleftrightarrow>
     (\<forall>x. mem_get x s' = mem_get x s \<or> x \<in> addrs qs \<and> x \<notin> ks \<and> mem_get x s' = None) \<and>
     (\<forall>x\<in>addrs qs. mem_get x s' = None \<or> x \<in> ks \<or> x \<in> addrs qs')"

lemma packet_begun:
  assumes pk: "packets_ok ks l s ((a, d, bs) # qs) cur spare" and c: "pool_get (sk_packets s) a = Some c" and n: "n < length bs"
  shows "\<exists>h. sk_packet_upd a (\<lambda>c. c\<lparr>pk_offset := pk_offset c + n\<rparr>) s = Some (s\<lparr>sk_packets := h\<rparr>) \<and>
    packets_ok ks l (s\<lparr>sk_packets := h\<rparr>) ((a, d, drop n bs) # qs) cur spare"
proof -
  have p: "pool_ok l (sk_packets s) (a # map fst qs @ cur # spare)" "ps_current l = Some cur"
    "packet_holds ks s (a, d, bs)" "\<forall>q\<in>set qs. packet_holds ks s q" "\<forall>x\<in>set (cur # spare). packet_spare s x"
    "distinct (map (fst \<circ> snd) ((a, d, drop n bs) # qs))"
    using pk by (simp_all add: packets_ok_def)
  have c1: "pl_ptr c = Some d" "mem_bytes d (pk_offset c) (pk_len c) s = Some bs"
    "owned ks (pk_type c) d"
    using p(3) c by (auto simp: packet_holds_def)
  let ?f = "\<lambda>c :: packet. c\<lparr>pk_offset := pk_offset c + n\<rparr>"
  obtain h where h: "pool_upd a ?f (sk_packets s) = Some h" "pool_get h = (pool_get (sk_packets s))(a := Some (?f c))"
    "pool_blocks h = pool_blocks (sk_packets s)" using pool_upd_get [OF c] by blast
  have ok: "pool_ok l h (a # map fst qs @ cur # spare)" by (rule pool_ok_write [OF p(1) c h(2)]) (simp_all add: h(3))
  have na: "a \<notin> fst ` set qs" "a \<noteq> cur" "a \<notin> set spare" using pool_okD(2) [OF p(1)] by auto
  let ?s = "s\<lparr>sk_packets := h\<rparr>"
  have m: "mem_bytes d' off k ?s = mem_bytes d' off k s" for d' off k by (simp add: mem_bytes_def)
  have "packet_holds ks ?s q" if "q \<in> set qs" for q
    using p(4) that na(1) by (cases q) (force simp: packet_holds_def h(2) m)
  moreover have "packet_holds ks ?s (a, d, drop n bs)"
    using c1 n mem_bytes_some [OF c1(2)] mem_bytes_drop [OF c1(2), of "pk_offset c + n"] by (auto simp: packet_holds_def h(2) m)
  moreover have "packet_spare ?s x" if "x \<in> set (cur # spare)" for x
    using p(5) that na by (auto simp: packet_spare_def h(2))
  ultimately have "packets_ok ks l ?s ((a, d, drop n bs) # qs) cur spare"
    using ok p(2,6) by (simp add: packets_ok_def)
  then show ?thesis using h(1) by (auto simp: sk_packet_upd_def)
qed

lemma consume_ok:
  "packets_ok ks l s qs cur spare \<Longrightarrow> sk_list li s = Some l \<Longrightarrow> 0 \<le> n \<Longrightarrow>
   \<exists>l' h m qs' spare'. consume_loop li n (ps_head l) s = Some (ps_head l', sk_set_list li l' (s\<lparr>sk_packets := h, sk_mem := m\<rparr>)) \<and>
     packets_ok ks l' (s\<lparr>sk_packets := h, sk_mem := m\<rparr>) qs' cur spare' \<and> to_write qs' = drop (nat n) (to_write qs) \<and>
     mem_step ks s qs (s\<lparr>sk_mem := m\<rparr>) qs'"
proof (induction qs arbitrary: l s spare n)
  case Nil
  from Nil.prems(1) have "pool_ok l (sk_packets s) (cur # spare)" "packet_spare s cur" by (simp_all add: packets_ok_def)
  then have "ps_head l = Some cur" "packet_spare s cur" using pool_okD(1) by fastforce+
  then have "consume_loop li n (ps_head l) s = Some (ps_head l, s)"
    by (subst consume_loop.simps) (auto simp: packet_spare_def)
  moreover have "sk_set_list li l s = s" using Nil.prems(2) by (cases s) (auto simp: sk_set_list_def sk_list_def split: if_splits)
  ultimately show ?case using Nil.prems(1)
    by (intro exI [of _ l] exI [of _ "sk_packets s"] exI [of _ "sk_mem s"] exI [of _ "[]"] exI [of _ spare]) (simp add: mem_step_def addrs_def)
next
  case (Cons q qs)
  obtain a d bs where q: "q = (a, d, bs)" by (cases q)
  note pk = Cons.prems(1) [unfolded q]
  have p: "pool_ok l (sk_packets s) (a # map fst qs @ cur # spare)" "packet_holds ks s (a, d, bs)" using pk by (simp_all add: packets_ok_def)
  then have hd: "ps_head l = Some a" using pool_okD(1) by fastforce
  obtain c where c: "pool_get (sk_packets s) a = Some c" "pl_ptr c = Some d" "mem_bytes d (pk_offset c) (pk_len c) s = Some bs"
    "pk_offset c < pk_len c" using p(2) by (auto simp: packet_holds_def)
  have len: "int (pk_len c) - int (pk_offset c) = int (length bs)" using mem_bytes_some [OF c(3)] c(4) by simp
  let ?n = "n - int (length bs)"
  show ?case
  proof (cases "?n < 0")
    case True
    then have nl: "nat n < length bs" using Cons.prems(3) by simp
    have off: "nat (int (pk_len c) + ?n) = pk_offset c + nat n" using len Cons.prems(3) by simp
    from packet_begun [OF pk c(1) nl] obtain h where
      h: "sk_packet_upd a (\<lambda>c. c\<lparr>pk_offset := pk_offset c + nat n\<rparr>) s = Some (s\<lparr>sk_packets := h\<rparr>)"
        "packets_ok ks l (s\<lparr>sk_packets := h\<rparr>) ((a, d, drop (nat n) bs) # qs) cur spare" by blast
    have u: "sk_packet_upd a (\<lambda>x. x\<lparr>pk_offset := nat (int (pk_len x) + ?n)\<rparr>) s = sk_packet_upd a (\<lambda>c. c\<lparr>pk_offset := pk_offset c + nat n\<rparr>) s"
      using c(1) off by (simp add: sk_packet_upd_def pool_upd_def)
    have sl: "sk_set_list li l (s\<lparr>sk_packets := h, sk_mem := sk_mem s\<rparr>) = s\<lparr>sk_packets := h\<rparr>"
      using Cons.prems(2) by (cases s) (auto simp: sk_set_list_def sk_list_def split: if_splits)
    have "consume_loop li n (ps_head l) s = Some (ps_head l, s\<lparr>sk_packets := h\<rparr>)"
      using True c(1,2) h(1) u len by (subst consume_loop.simps) (simp add: hd)
    moreover have "s\<lparr>sk_packets := h, sk_mem := sk_mem s\<rparr> = s\<lparr>sk_packets := h\<rparr>" by (cases s) simp
    ultimately show ?thesis using h(2) nl sl
      by (intro exI [of _ l] exI [of _ h] exI [of _ "sk_mem s"] exI [of _ "(a, d, drop (nat n) bs) # qs"] exI [of _ spare])
        (simp add: q mem_step_def addrs_def)
  next
    case False
    from packet_done_ok [OF pk Cons.prems(2)] obtain l1 h1 m1 where
      1: "packet_done li a s = Some (ps_head l1, sk_set_list li l1 (s\<lparr>sk_packets := h1, sk_mem := m1\<rparr>))"
        "packets_ok ks l1 (s\<lparr>sk_packets := h1, sk_mem := m1\<rparr>) qs cur (spare @ [a])"
        "\<forall>x. mem_get x (s\<lparr>sk_mem := m1\<rparr>) = mem_get x s \<or> x = d \<and> x \<notin> ks \<and> mem_get x (s\<lparr>sk_mem := m1\<rparr>) = None"
        "mem_get d (s\<lparr>sk_mem := m1\<rparr>) = None \<or> d \<in> ks" by blast
    let ?s1 = "sk_set_list li l1 (s\<lparr>sk_packets := h1, sk_mem := m1\<rparr>)"
    have step: "consume_loop li n (ps_head l) s = (if ?n = 0 then Some (ps_head l1, ?s1) else consume_loop li ?n (ps_head l1) ?s1)"
      using False c(1,2) 1(1) len by (subst consume_loop.simps) (simp add: hd)
    have ms: "mem_step ks s ((a, d, bs) # qs) (s\<lparr>sk_mem := m1\<rparr>) qs" using 1(3,4) by (auto simp: mem_step_def addrs_def)
    show ?thesis
    proof (cases "?n = 0")
      case True
      then have "drop (nat n) (bs @ to_write qs) = to_write qs" by simp
      then show ?thesis using step True 1(2) ms
        by (intro exI [of _ l1] exI [of _ h1] exI [of _ m1] exI [of _ qs] exI [of _ "spare @ [a]"]) (simp add: q)
    next
      case nz: False
      have pk1: "packets_ok ks l1 ?s1 qs cur (spare @ [a])" using 1(2) by (simp add: packets_ok_set_list)
      have l1: "sk_list li ?s1 = Some l1" using Cons.prems(2) by (simp add: sk_list_def sk_set_list_def split: if_splits)
      have n1: "0 \<le> ?n" using False by simp
      from Cons.IH [OF pk1 l1 n1] obtain l' h m qs' spare' where
        2: "consume_loop li ?n (ps_head l1) ?s1 = Some (ps_head l', sk_set_list li l' (?s1\<lparr>sk_packets := h, sk_mem := m\<rparr>))"
          "packets_ok ks l' (?s1\<lparr>sk_packets := h, sk_mem := m\<rparr>) qs' cur spare'" "to_write qs' = drop (nat ?n) (to_write qs)"
          "mem_step ks ?s1 qs (?s1\<lparr>sk_mem := m\<rparr>) qs'" by blast
      have e: "?s1\<lparr>sk_packets := h, sk_mem := m\<rparr> = sk_set_list li l1 (s\<lparr>sk_packets := h, sk_mem := m\<rparr>)"
        by (cases s) (simp add: sk_set_list_def)
      have g: "mem_get x ?s1 = mem_get x (s\<lparr>sk_mem := m1\<rparr>)" "mem_get x (?s1\<lparr>sk_mem := m\<rparr>) = mem_get x (s\<lparr>sk_mem := m\<rparr>)" for x
        by (simp_all add: mem_get_def)
      have "mem_step ks s ((a, d, bs) # qs) (s\<lparr>sk_mem := m\<rparr>) qs'"
        unfolding mem_step_def
      proof (intro conjI allI ballI)
        fix x
        have x1: "mem_get x (s\<lparr>sk_mem := m1\<rparr>) = mem_get x s \<or> x \<in> addrs ((a, d, bs) # qs) \<and> x \<notin> ks \<and> mem_get x (s\<lparr>sk_mem := m1\<rparr>) = None"
          using ms unfolding mem_step_def by blast
        have x2: "mem_get x (s\<lparr>sk_mem := m\<rparr>) = mem_get x (s\<lparr>sk_mem := m1\<rparr>) \<or> x \<in> addrs qs \<and> x \<notin> ks \<and> mem_get x (s\<lparr>sk_mem := m\<rparr>) = None"
          using 2(4) unfolding mem_step_def g by blast
        show "mem_get x (s\<lparr>sk_mem := m\<rparr>) = mem_get x s \<or> x \<in> addrs ((a, d, bs) # qs) \<and> x \<notin> ks \<and> mem_get x (s\<lparr>sk_mem := m\<rparr>) = None"
          using x1 x2 by (auto simp: addrs_def)
        assume x: "x \<in> addrs ((a, d, bs) # qs)"
        show "mem_get x (s\<lparr>sk_mem := m\<rparr>) = None \<or> x \<in> ks \<or> x \<in> addrs qs'"
        proof (cases "x \<in> addrs qs")
          case True
          with 2(4) show ?thesis unfolding mem_step_def g by blast
        next
          case False
          with x have "x = d" by (auto simp: addrs_def)
          with 1(4) x2 False show ?thesis by auto
        qed
      qed
      moreover have "to_write qs' = drop (nat n) (bs @ to_write qs)"
        using 2(3) False Cons.prems(3) by (simp add: nat_diff_distrib')
      moreover have "packets_ok ks l' (s\<lparr>sk_packets := h, sk_mem := m\<rparr>) qs' cur spare'"
        using 2(2) unfolding e by (simp add: packets_ok_set_list)
      moreover have "consume_loop li n (ps_head l) s = Some (ps_head l', sk_set_list li l' (s\<lparr>sk_packets := h, sk_mem := m\<rparr>))"
        using step nz 2(1) unfolding e by (simp add: sk_set_list_upd(2))
      ultimately show ?thesis unfolding q
        by (intro exI [of _ l'] exI [of _ h] exI [of _ m] exI [of _ qs'] exI [of _ spare']) simp
    qed
  qed
qed

lemma packets_ok_cong:
  assumes "sk_packets s' = sk_packets s" "sk_mem s' = sk_mem s"
  shows "packets_ok ks l s' = packets_ok ks l s"
proof -
  have "packet_holds ks s' q = packet_holds ks s q" for q
    using assms by (cases q) (simp add: packet_holds_def mem_bytes_def mem_get_def)
  then show ?thesis using assms by (intro ext) (simp add: packets_ok_def packet_spare_def)
qed

lemma mem_step_refl: "mem_step ks s qs s' qs" if "sk_mem s' = sk_mem s"
  using that by (auto simp: mem_step_def mem_get_def)

lemma mem_step_cong:
  assumes "sk_mem s1 = sk_mem s" "sk_mem s2 = sk_mem s'"
  shows "mem_step ks s1 qs s2 qs' = mem_step ks s qs s' qs'"
proof -
  have "mem_get x s1 = mem_get x s" "mem_get x s2 = mem_get x s'" for x using assms by (simp_all add: mem_get_def)
  then show ?thesis by (simp add: mem_step_def)
qed

lemma packets_nonempty: "packets_ok ks l s qs cur spare \<Longrightarrow> q \<in> set qs \<Longrightarrow> snd (snd q) \<noteq> []"
  by (cases q) (fastforce simp: packets_ok_def packet_holds_def dest: mem_bytes_some)

lemma to_write_Nil: "packets_ok ks l s qs cur spare \<Longrightarrow> to_write qs = [] \<longleftrightarrow> qs = []"
  using packets_nonempty by (cases qs) fastforce+

lemma to_write_take: "to_write (take n qs) = take (length (to_write (take n qs))) (to_write qs)"
  using sent_simps(6) [of "take n qs" "drop n qs"] by (metis append_eq_conv_conj append_take_drop_id)

definition sys_takes :: "sys \<Rightarrow> bool" where
  "sys_takes K \<longleftrightarrow> (\<forall>i n. 0 < n \<longrightarrow> (case sy_write K i n of Sys_done k \<Rightarrow> 0 < k \<and> k \<le> n | Sys_again \<Rightarrow> True | Sys_error \<Rightarrow> False)) \<and>
     0 < sy_iov_max K"

definition only_bytes :: "sock \<Rightarrow> sock \<Rightarrow> bool" where
  "only_bytes s s' \<longleftrightarrow> (\<exists>bss. sk_out s' = sk_out s @ map Sock_bytes bss)"

lemma only_bytes_simps [simp]: "only_bytes s s" "only_bytes s (sk_emit [Sock_bytes bs] (sk_called s))"
  "only_bytes s (sk_would_block s') = only_bytes s s'" "only_bytes s (sk_called s') = only_bytes s s'"
  by (auto simp: only_bytes_def sk_emit_def sk_called_def sk_would_block_def intro: exI [of _ "[]"] exI [of _ "[bs]"])

lemma only_bytes_trans: "only_bytes s s1 \<Longrightarrow> only_bytes s1 s2 \<Longrightarrow> only_bytes s s2"
  by (auto simp: only_bytes_def) (metis map_append)

text \<open>The bytes that one \<open>writev\<close> takes.\<close>

definition taken :: "sys \<Rightarrow> sock \<Rightarrow> pending \<Rightarrow> nat" where
  "taken K s qs = (case sy_write K (sk_calls s) (length (to_write (take (sy_iov_max K) qs))) of Sys_done n \<Rightarrow> n | _ \<Rightarrow> 0)"

lemma do_jobs_ok:
  assumes i: "sock_inv ks s qs" and K: "sys_takes K"
  shows "\<exists>s' qs'. ape_socket_do_jobs K s = Some s' \<and> sock_inv ks s' qs' \<and>
    (qs = [] \<longrightarrow> s' = s \<and> qs' = []) \<and>
    (qs \<noteq> [] \<longrightarrow> taken K s qs \<le> length (to_write qs) \<and> to_write qs' = drop (taken K s qs) (to_write qs) \<and>
       sent s' = sent s @ take (taken K s qs) (to_write qs)) \<and>
    mem_step ks s qs s' qs' \<and> only_bytes s s'"
proof -
  from i obtain a c where a: "ps_head (sk_jobs s) = Some a" "ps_current (sk_jobs s) = Some a" "pool_get (sk_job_cells s) a = Some c"
    and ok: "job_ok ks s c qs" by (auto simp: sock_inv_def)
  show ?thesis
  proof (cases "qs = []")
    case True
    with ok have "pl_flags c AND APE_SOCKET_JOB_ACTIVE = 0" using job_flags by (auto simp: job_ok_def split: if_splits)
    with a have "ape_socket_do_jobs K s = Some s" by (simp add: ape_socket_do_jobs_def do_jobs_loop.simps)
    with i True mem_step_refl [OF refl] show ?thesis by auto
  next
    case False
    with ok obtain li l cur spare where c: "pl_flags c = 19" "pl_ptr c = Some (Ptr_list li)" "sk_list li s = Some l"
      "packets_ok ks l s qs cur spare" by (auto simp: job_ok_def split: if_splits)
    have ch: "chain (pool_next (sk_packets s)) (ps_head l) (map fst qs @ cur # spare)" "\<forall>q\<in>set qs. packet_holds ks s q" "packet_spare s cur"
      using c(4) pool_okD(1) by (auto simp: packets_ok_def)
    let ?qs1 = "take (sy_iov_max K) qs" and ?n = "taken K s qs"
    have g: "gather_chunks (sy_iov_max K) (ps_head l) s = Some (map (snd \<circ> snd) ?qs1)"
      by (rule gather_chunks_ok [OF ch])
    have cc: "concat (map (snd \<circ> snd) ?qs1) = to_write ?qs1" by (simp add: to_write_def)
    have pos: "0 < length (to_write ?qs1)"
    proof -
      obtain q qs2 where "qs = q # qs2" using False by (cases qs) auto
      then show ?thesis using packets_nonempty [OF c(4), of q] K by (cases "sy_iov_max K") (auto simp: sys_takes_def)
    qed
    have l1: "length (to_write ?qs1) \<le> length (to_write qs)"
      using arg_cong [OF to_write_take, of length] by (metis length_take min.cobounded1)
    have k: "case sy_write K (sk_calls s) (length (to_write ?qs1)) of Sys_done k \<Rightarrow> 0 < k \<and> k \<le> length (to_write ?qs1)
        | Sys_again \<Rightarrow> True | Sys_error \<Rightarrow> False" using K pos by (simp add: sys_takes_def)
    then have nl: "?n \<le> length (to_write ?qs1)" by (auto simp: taken_def split: sys_result.splits)
    have jobs: "ape_socket_do_jobs K s = Option.bind (job_writev K a s) (\<lambda>(go, s).
        if \<not> go then Some s
        else
          Option.bind (sk_job_upd a (\<lambda>c. c\<lparr>pl_flags := pl_flags c AND NOT APE_SOCKET_JOB_ACTIVE\<rparr>) s) (\<lambda>s.
          Option.bind (ape_pool_head_to_current (sk_jobs s) (sk_job_cells s)) (\<lambda>(l, h).
          do_jobs_loop K (ps_head l) (s\<lparr>sk_jobs := l, sk_job_cells := h\<rparr>))))"
      using a(1,3) c(1) job_flags by (simp add: ape_socket_do_jobs_def do_job_def do_jobs_loop.simps [of K "Some a"])
    show ?thesis
    proof (cases "sy_write K (sk_calls s) (length (to_write ?qs1))")
      case Sys_again
      then have "job_writev K a s = Some (False, sk_would_block (sk_called s))"
        using a(3) c(2,3) g cc i by (simp add: job_writev_def sock_inv_def)
      moreover have "?n = 0" using Sys_again by (simp add: taken_def)
      moreover have "mem_step ks s qs (sk_would_block (sk_called s)) qs"
        by (rule mem_step_refl) (simp add: sk_would_block_def sk_called_def)
      ultimately show ?thesis unfolding jobs using i False
        by (intro exI [of _ "sk_would_block (sk_called s)"] exI [of _ qs]) simp
    next
      case Sys_error
      with k show ?thesis by simp
    next
      case (Sys_done n)
      then have n: "?n = n" by (simp add: taken_def)
      let ?s1 = "sk_emit [Sock_bytes (take n (to_write ?qs1))] (sk_called s)"
      have f1: "sk_packets ?s1 = sk_packets s" "sk_mem ?s1 = sk_mem s" "sk_lists ?s1 = sk_lists s" "sk_jobs ?s1 = sk_jobs s"
        "sk_job_cells ?s1 = sk_job_cells s" by (simp_all add: sk_emit_def sk_called_def)
      have i1: "sock_inv ks ?s1 qs" using i by simp
      have pk1: "packets_ok ks l ?s1 qs cur spare" using c(4) packets_ok_cong [OF f1(1,2)] by simp
      have sl1: "sk_list li ?s1 = Some l" using c(3) f1(3) by (simp add: sk_list_def split: if_splits)
      from consume_ok [OF pk1 sl1, of "int n"] obtain l' h m qs' spare' where
        2: "consume_loop li (int n) (ps_head l) ?s1 = Some (ps_head l', sk_set_list li l' (?s1\<lparr>sk_packets := h, sk_mem := m\<rparr>))"
          "packets_ok ks l' (?s1\<lparr>sk_packets := h, sk_mem := m\<rparr>) qs' cur spare'" "to_write qs' = drop n (to_write qs)"
          "mem_step ks ?s1 qs (?s1\<lparr>sk_mem := m\<rparr>) qs'" by auto
      let ?s2 = "sk_set_list li l' (?s1\<lparr>sk_packets := h, sk_mem := m\<rparr>)"
      have li: "li < length (sk_lists s)" using c(3) by (simp add: sk_list_def split: if_splits)
      have pk2: "packets_ok ks l' (?s1\<lparr>sk_packets := h, sk_mem := m\<rparr>) qs' cur spare'" by (rule 2(2))
      obtain a' c' where c': "ps_head l' = Some a'" "pool_get h a' = Some c'" "pl_ptr c' = None \<longleftrightarrow> qs' = []"
      proof (cases qs')
        case Nil
        with pk2 have "ps_head l' = Some cur" "packet_spare (?s1\<lparr>sk_packets := h, sk_mem := m\<rparr>) cur"
          using pool_okD(1) by (fastforce simp: packets_ok_def)+
        then obtain c' where c1: "ps_head l' = Some cur" "pool_get h cur = Some c'" "pl_ptr c' = None" by (auto simp: packet_spare_def)
        show ?thesis by (rule that [OF c1(1,2)]) (use c1(3) Nil in simp)
      next
        case (Cons q qs2)
        obtain a' d' bs' where q: "q = (a', d', bs')" by (cases q)
        with pk2 Cons have "ps_head l' = Some a'" "packet_holds ks (?s1\<lparr>sk_packets := h, sk_mem := m\<rparr>) (a', d', bs')"
          using pool_okD(1) by (fastforce simp: packets_ok_def)+
        then obtain c' where c1: "ps_head l' = Some a'" "pool_get h a' = Some c'" "pl_ptr c' \<noteq> None" by (auto simp: packet_holds_def)
        show ?thesis by (rule that [OF c1(1,2)]) (use c1(3) Cons in simp)
      qed
      have jw: "job_writev K a s = Some (if qs' \<noteq> [] then (False, sk_would_block ?s2) else (True, ?s2))"
        using a(3) c(2,3) g cc i Sys_done 2(1) c' by (simp add: job_writev_def sock_inv_def sk_set_list_def del: not_None_eq)
      have pk3: "packets_ok ks l' (?s1\<lparr>sk_job_cells := hj, sk_packets := h, sk_mem := m\<rparr>) qs' cur spare'" for hj
        using pk2 packets_ok_cong [of "?s1\<lparr>sk_job_cells := hj, sk_packets := h, sk_mem := m\<rparr>" "?s1\<lparr>sk_packets := h, sk_mem := m\<rparr>" ks l'] by simp
      have e: "sk_set_list li l' (?s1\<lparr>sk_job_cells := hj, sk_lists := sk_lists s, sk_packets := h, sk_mem := m\<rparr>) = ?s2\<lparr>sk_job_cells := hj\<rparr>" for hj
        by (cases s) (simp add: sk_set_list_def sk_emit_def sk_called_def)
      have ms: "mem_step ks s qs ?s2 qs'"
        using 2(4) mem_step_cong [of ?s1 s "?s1\<lparr>sk_mem := m\<rparr>" ?s2 ks qs qs'] f1(2) by simp
      have se: "sent ?s2 = sent s @ take n (to_write qs)"
      proof -
        have "sent ?s2 = sent s @ take n (to_write ?qs1)"
          by (simp add: sent_def sk_set_list_def sk_emit_def sk_called_def)
        moreover have "take n (to_write ?qs1) = take n (to_write qs)"
          using arg_cong [OF to_write_take, of "take n" "sy_iov_max K" qs] nl n by (simp add: min_absorb1)
        ultimately show ?thesis by simp
      qed
      have ob: "only_bytes s ?s2"
        by (auto simp: only_bytes_def sk_set_list_def sk_emit_def sk_called_def intro: exI [of _ "[take n (to_write ?qs1)]"])
      have inv: "sock_inv ks (?s2\<lparr>sk_job_cells := hj\<rparr>) qs'"
        if "pool_get hj a = Some cj" "pl_flags cj = (if qs' = [] then 3 else 19)" "pl_ptr cj = Some (Ptr_list li)" for hj cj
        unfolding e [symmetric]
        by (rule sock_inv_packets [OF i1 _ _ that li]) (use a(1,2) f1 pk2 in simp_all)
      show ?thesis
      proof (cases "qs' = []")
        case False
        have s2: "?s2\<lparr>sk_job_cells := sk_job_cells s\<rparr> = ?s2" by (cases s) (simp add: sk_set_list_def sk_emit_def sk_called_def)
        have "sock_inv ks ?s2 qs'" using inv [of "sk_job_cells s" c] a(3) c(1,2) False s2 by simp
        moreover have "mem_step ks s qs (sk_would_block ?s2) qs'" 
          using ms mem_step_cong [of s s "sk_would_block ?s2" ?s2 ks qs qs'] by (simp add: sk_would_block_def)
        ultimately show ?thesis unfolding jobs jw n using False \<open>qs \<noteq> []\<close> 2(3) se ob nl l1 n
          by (intro exI [of _ "sk_would_block ?s2"] exI [of _ qs']) simp
      next
        case True
        let ?f = "\<lambda>c :: job. c\<lparr>pl_flags := pl_flags c AND NOT APE_SOCKET_JOB_ACTIVE\<rparr>"
        obtain hj where hj: "pool_upd a ?f (sk_job_cells s) = Some hj" "pool_get hj = (pool_get (sk_job_cells s))(a := Some (?f c))"
          using pool_upd_get [OF a(3)] by blast
        let ?s3 = "?s2\<lparr>sk_job_cells := hj\<rparr>"
        have f2: "sk_job_cells ?s2 = sk_job_cells s" "sk_jobs ?s2 = sk_jobs s" "sk_jobs ?s3 = sk_jobs s"
          by (simp_all add: sk_set_list_def sk_emit_def sk_called_def)
        have fc: "pl_flags (?f c) = 3" using c(1) job_flags by simp
        have "sock_inv ks ?s3 qs'" by (rule inv [of hj "?f c"]) (use hj(2) fc True c(2) in simp_all)
        moreover have "ape_socket_do_jobs K s = Some ?s3"
        proof -
          have 1: "sk_job_upd a ?f ?s2 = Some ?s3" using hj(1) f2(1) by (simp add: sk_job_upd_def)
          have 2: "ape_pool_head_to_current (sk_jobs ?s3) (sk_job_cells ?s3) = Some (sk_jobs s, hj)"
            using a(1,2) f2(3) by (simp add: ape_pool_head_to_current_def)
          have 3: "?s3\<lparr>sk_jobs := sk_jobs s, sk_job_cells := hj\<rparr> = ?s3" by (cases s) (simp add: sk_set_list_def sk_emit_def sk_called_def)
          have 4: "do_jobs_loop K (Some a) ?s3 = Some ?s3"
            using hj(2) fc job_flags by (simp add: do_jobs_loop.simps)
          show ?thesis unfolding jobs jw using True 1 2 3 4 a(1) by simp
        qed
        moreover have "mem_step ks s qs ?s3 qs'" using ms mem_step_cong [of s s ?s3 ?s2 ks qs qs'] by simp
        moreover have "sent ?s3 = sent ?s2" "only_bytes s ?s3 = only_bytes s ?s2" by (simp_all add: sent_def only_bytes_def)
        ultimately show ?thesis using True \<open>qs \<noteq> []\<close> 2(3) se ob nl l1 n
          by (intro exI [of _ ?s3] exI [of _ qs']) simp
      qed
    qed
  qed
qed

section \<open>Writes\<close>

text \<open>What is allocated: the blocks that are pending, and those the socket must not free.\<close>

definition mem_ok :: "addr set \<Rightarrow> sock \<Rightarrow> pending \<Rightarrow> bool" where
  "mem_ok ks s qs \<longleftrightarrow> (\<forall>x. mem_get x s \<noteq> None \<longrightarrow> x \<in> ks \<or> x \<in> addrs qs) \<and> (\<forall>x\<in>ks. mem_get x s \<noteq> None)"

lemma mem_ok_step: "mem_ok ks s qs \<Longrightarrow> mem_step ks s qs s' qs' \<Longrightarrow> mem_ok ks s' qs'"
  unfolding mem_ok_def mem_step_def by metis

lemma queue_mem:
  assumes i: "sock_inv ks s qs" and m: "mem_ok (insert a ks) s qs" and d: "mem_bytes a 0 len s = Some bs" "offset < len"
    and fresh: "a \<notin> addrs qs" "a \<notin> ks" and ks': "ks' = (if ty = APE_DATA_OWN \<or> ty = APE_DATA_GLOBAL_STATIC then insert a ks else ks)"
  shows "\<exists>s' qs'. ape_socket_queue_data a len offset ty s = Some s' \<and> sock_inv ks' s' (qs @ qs') \<and>
    to_write qs' = drop offset bs \<and> sk_out s' = sk_out s \<and> mem_get a s' \<noteq> None \<and>
    (if ty = APE_DATA_STATIC \<or> ty = APE_DATA_COPY then a \<notin> addrs (qs @ qs') \<and> mem_ok (insert a ks) s' (qs @ qs')
     else mem_ok ks' s' (qs @ qs')) \<and> length qs' = 1"
proof -
  have "ks' = ks \<or> ks' = insert a ks" by (simp add: ks')
  from sock_inv_mono [OF i this] fresh(1) have i': "sock_inv ks' s qs" unfolding addrs_def by blast
  have nk: "length (sk_mem s) \<notin> ks" using m mem_get_less [of "length (sk_mem s)" s] unfolding mem_ok_def by blast
  have fr: "if ty = APE_DATA_STATIC \<or> ty = APE_DATA_COPY then length (sk_mem s) \<notin> ks'
      else a \<notin> (fst \<circ> snd) ` set qs \<and> (if ty = APE_DATA_AUTORELEASE then a \<notin> ks' else a \<in> ks')"
    using fresh nk by (cases ty) (simp_all add: addrs_def ks')
  from queue_data_ok [OF i' d fr] obtain s' p x where
    s': "ape_socket_queue_data a len offset ty s = Some s'" "sock_inv ks' s' (qs @ [(p, x, drop offset bs)])" "sk_out s' = sk_out s"
      "\<forall>y. mem_get y s \<noteq> None \<longrightarrow> mem_get y s' = mem_get y s"
      "if ty = APE_DATA_STATIC \<or> ty = APE_DATA_COPY then x = length (sk_mem s) \<and> sk_mem s' = sk_mem s @ [Some bs]
       else x = a \<and> sk_mem s' = sk_mem s" by blast
  have al: "mem_get a s \<noteq> None" using mem_bytes_some [OF d(1)] by simp
  have live: "mem_get y s \<noteq> None \<or> y = x" if "mem_get y s' \<noteq> None" for y
    using s'(5) that by (auto simp: mem_get_def nth_append split: if_splits)
  have "mem_ok (insert a ks) s' (qs @ [(p, x, drop offset bs)])"
    using live m s'(4) unfolding mem_ok_def addrs_def by (auto simp del: not_None_eq)
  moreover have "mem_ok ks' s' (qs @ [(p, x, drop offset bs)])" if "ty \<noteq> APE_DATA_STATIC" "ty \<noteq> APE_DATA_COPY"
  proof -
    have "x = a" using s'(5) that by simp
    with calculation show ?thesis unfolding mem_ok_def addrs_def ks' by (auto simp del: not_None_eq)
  qed
  moreover have "a \<notin> addrs (qs @ [(p, x, drop offset bs)])" if "ty = APE_DATA_STATIC \<or> ty = APE_DATA_COPY"
    using fresh(1) s'(5) that mem_get_less [OF al] by (auto simp: addrs_def)
  ultimately show ?thesis using s'(1-4) al
    by (intro exI [of _ s'] exI [of _ "[(p, x, drop offset bs)]"]) auto
qed

lemma write_loop_ok:
  assumes K: "sys_takes K"
  shows "sock_inv ks s [] \<Longrightarrow> mem_ok (insert a ks) s [] \<Longrightarrow> mem_bytes a 0 len s = Some bs \<Longrightarrow> t \<le> len \<Longrightarrow> a \<notin> ks \<Longrightarrow>
    ks' = (if ty = APE_DATA_OWN \<or> ty = APE_DATA_GLOBAL_STATIC then insert a ks else ks) \<Longrightarrow>
    \<exists>e s' qs'. write_loop K a len ty t s = Some (e, s') \<and> sock_inv ks' s' qs' \<and> sent s' @ to_write qs' = sent s @ drop t bs \<and>
      only_bytes s s' \<and> mem_get a s' \<noteq> None \<and> length qs' \<le> 1 \<and>
      (e = Write_done \<and> qs' = [] \<and> mem_ok (insert a ks) s' [] \<or>
       (\<exists>n. e = Write_queued n) \<and>
         (if ty = APE_DATA_STATIC \<or> ty = APE_DATA_COPY then a \<notin> addrs qs' \<and> mem_ok (insert a ks) s' qs' else mem_ok ks' s' qs'))"
proof (induction "len - t" arbitrary: t s rule: less_induct)
  case less
  have len: "length bs = len" and al: "mem_get a s \<noteq> None" using mem_bytes_some [OF less.prems(3)] by simp_all
  show ?case
  proof (cases "t < len")
    case False
    then have "write_loop K a len ty t s = Some (Write_done, s)" by (simp add: write_loop.simps)
    moreover have "sock_inv ks' s []" by (rule sock_inv_mono [OF less.prems(1), of _ a]) (simp_all add: less.prems(6))
    ultimately show ?thesis using less.prems len False al
      by (intro exI [of _ Write_done] exI [of _ s] exI [of _ "[]"]) simp
  next
    case True
    have b: "mem_bytes a t len s = Some (drop t bs)" using mem_bytes_drop [OF less.prems(3), of t] by simp
    have k: "case sy_write K (sk_calls s) (len - t) of Sys_done k \<Rightarrow> 0 < k \<and> k \<le> len - t | Sys_again \<Rightarrow> True | Sys_error \<Rightarrow> False"
      using K True by (simp add: sys_takes_def)
    show ?thesis
    proof (cases "sy_write K (sk_calls s) (len - t)")
      case Sys_error
      with k show ?thesis by simp
    next
      case Sys_again
      let ?s = "sk_would_block (sk_called s)"
      have f: "sk_mem ?s = sk_mem s" "sk_out ?s = sk_out s" by (simp_all add: sk_would_block_def sk_called_def)
      have g: "mem_get x ?s = mem_get x s" for x by (simp add: mem_get_def f)
      have "sock_inv ks ?s []" "mem_ok (insert a ks) ?s []" "mem_bytes a 0 len ?s = Some bs" "a \<notin> addrs []"
        using less.prems g mem_bytes_cong [of a ?s s] by (simp_all add: mem_ok_def addrs_def)
      from queue_mem [OF this(1-3) True this(4) less.prems(5,6)] obtain s' qs' where
        q: "ape_socket_queue_data a len t ty ?s = Some s'" "sock_inv ks' s' qs'" "to_write qs' = drop t bs" "sk_out s' = sk_out ?s"
          "mem_get a s' \<noteq> None" "if ty = APE_DATA_STATIC \<or> ty = APE_DATA_COPY then a \<notin> addrs qs' \<and> mem_ok (insert a ks) s' qs'
           else mem_ok ks' s' qs'" "length qs' = 1" unfolding append_Nil by blast
      have "write_loop K a len ty t s = Some (Write_queued (len - t), s')"
        using True b Sys_again q(1) by (subst write_loop.simps) simp
      moreover have "sent s' = sent s" "only_bytes s s'" using q(4) f(2) by (auto simp: sent_def only_bytes_def intro: exI [of _ "[]"])
      ultimately show ?thesis using q by (intro exI [of _ "Write_queued (len - t)"] exI [of _ s'] exI [of _ qs']) simp
    next
      case (Sys_done n)
      with k have n: "0 < n" "n \<le> len - t" by simp_all
      let ?s = "sk_emit [Sock_bytes (take n (drop t bs))] (sk_called s)"
      have f: "sk_mem ?s = sk_mem s" by (simp add: sk_emit_def sk_called_def)
      have g: "mem_get x ?s = mem_get x s" for x by (simp add: mem_get_def f)
      have p: "sock_inv ks ?s []" "mem_ok (insert a ks) ?s []" "mem_bytes a 0 len ?s = Some bs"
        using less.prems g mem_bytes_cong [of a ?s s] by (simp_all add: mem_ok_def)
      have "len - (t + n) < len - t" "t + n \<le> len" using n True by simp_all
      from less.hyps [OF this(1) p this(2) less.prems(5,6)] obtain e s' qs' where
        r: "write_loop K a len ty (t + n) ?s = Some (e, s')" "sock_inv ks' s' qs'" "sent s' @ to_write qs' = sent ?s @ drop (t + n) bs"
          "only_bytes ?s s'" "mem_get a s' \<noteq> None" "length qs' \<le> 1"
          "e = Write_done \<and> qs' = [] \<and> mem_ok (insert a ks) s' [] \<or>
       (\<exists>n. e = Write_queued n) \<and>
         (if ty = APE_DATA_STATIC \<or> ty = APE_DATA_COPY then a \<notin> addrs qs' \<and> mem_ok (insert a ks) s' qs' else mem_ok ks' s' qs')"
        by blast
      have "write_loop K a len ty t s = Some (e, s')" using True b Sys_done r(1) by (subst write_loop.simps) simp
      moreover have "sent ?s @ drop (t + n) bs = sent s @ drop t bs"
        by (simp add: add.commute [of t] drop_drop [symmetric] del: drop_drop)
      moreover have "only_bytes s s'" by (rule only_bytes_trans [OF _ r(4)]) simp
      ultimately show ?thesis using r by (intro exI [of _ e] exI [of _ s'] exI [of _ qs']) simp
    qed
  qed
qed

definition sock_ok :: "addr set \<Rightarrow> sock \<Rightarrow> pending \<Rightarrow> bool" where
  "sock_ok ks s qs \<longleftrightarrow> sock_inv ks s qs \<and> mem_ok ks s qs"

definition kept :: "ape_socket_data_autorelease \<Rightarrow> bool" where
  "kept ty \<longleftrightarrow> ty = APE_DATA_OWN \<or> ty = APE_DATA_GLOBAL_STATIC"

text \<open>The caller's block is free again, or the socket's, or it is kept.\<close>

lemma free_after:
  assumes "sock_inv ks s qs" "mem_ok (insert a ks) s qs" "a \<notin> addrs qs" "a \<notin> ks" "mem_get a s \<noteq> None"
  shows "\<exists>m. mem_free a s = Some (s\<lparr>sk_mem := m\<rparr>) \<and> sock_ok ks (s\<lparr>sk_mem := m\<rparr>) qs"
proof -
  from mem_free_get [OF assms(5)] obtain m where m: "mem_free a s = Some (s\<lparr>sk_mem := m\<rparr>)"
    "\<And>x. mem_get x (s\<lparr>sk_mem := m\<rparr>) = (if x = a then None else mem_get x s)" by blast
  have "sock_inv ks (s\<lparr>sk_mem := m\<rparr>) qs"
    by (rule sock_inv_mem [OF assms(1)]) (use assms(3) m(2) in \<open>auto simp: addrs_def\<close>)
  moreover have "mem_ok ks (s\<lparr>sk_mem := m\<rparr>) qs"
    using assms(2,4) unfolding mem_ok_def m(2) by (auto simp del: not_None_eq split: if_splits)
  ultimately show ?thesis using m(1) by (auto simp: sock_ok_def)
qed

lemma write_result:
  assumes K: "sys_takes K" and i: "sock_inv ks s qs" and m: "mem_ok (insert a ks) s qs"
    and b: "mem_get a s = Some bs" "bs \<noteq> []" and fresh: "a \<notin> addrs qs" "a \<notin> ks"
    and ks': "ks' = (if kept ty then insert a ks else ks)"
  shows "\<exists>r s' qs'. APE_socket_write K a (length bs) ty s = Some (r, s') \<and> sock_inv ks' s' qs' \<and>
    sent s' @ to_write qs' = sent s @ to_write qs @ bs \<and> only_bytes s s' \<and> length qs' \<le> length qs + 1 \<and>
    (if ty = APE_DATA_STATIC \<or> ty = APE_DATA_COPY then a \<notin> addrs qs' \<and> mem_get a s' \<noteq> None \<and> mem_ok (insert a ks) s' qs'
     else mem_ok ks' s' qs')"
proof -
  have st: "sk_state s = APE_SOCKET_ST_ONLINE" "\<not> sk_secure s" using i by (simp_all add: sock_inv_def)
  have mb: "mem_bytes a 0 (length bs) s = Some bs" using b(1) by (simp add: mem_bytes_def)
  have k: "ks' = (if ty = APE_DATA_OWN \<or> ty = APE_DATA_GLOBAL_STATIC then insert a ks else ks)" using ks' by (simp add: kept_def)
  have pos: "0 < length bs" using b(2) by simp
  note busy = sk_busy_inv [OF i]
  show ?thesis
  proof (cases "sk_flags s AND APE_SOCKET_WOULD_BLOCK \<noteq> 0 \<or> qs \<noteq> []")
    case True
    from queue_mem [OF i m mb pos fresh k] obtain s' qs' where
      q: "ape_socket_queue_data a (length bs) 0 ty s = Some s'" "sock_inv ks' s' (qs @ qs')" "to_write qs' = bs" "sk_out s' = sk_out s"
        "mem_get a s' \<noteq> None" "if ty = APE_DATA_STATIC \<or> ty = APE_DATA_COPY then a \<notin> addrs (qs @ qs') \<and> mem_ok (insert a ks) s' (qs @ qs')
         else mem_ok ks' s' (qs @ qs')" "length qs' = 1" unfolding drop_0 by blast
    have "APE_socket_write K a (length bs) ty s = Some (int (length bs), s')"
      using st b(2) busy True q(1) by (simp add: APE_socket_write_def Let_def)
    moreover have "sent s' = sent s" "only_bytes s s'" using q(4) by (auto simp: sent_def only_bytes_def intro: exI [of _ "[]"])
    ultimately show ?thesis using q
      by (intro exI [of _ "int (length bs)"] exI [of _ s'] exI [of _ "qs @ qs'"]) simp
  next
    case False
    then have qs: "qs = []" by simp
    from write_loop_ok [OF K i [unfolded qs] m [unfolded qs] mb _ fresh(2) k, of 0] obtain e s' qs' where
      r: "write_loop K a (length bs) ty 0 s = Some (e, s')" "sock_inv ks' s' qs'" "sent s' @ to_write qs' = sent s @ bs"
        "only_bytes s s'" "mem_get a s' \<noteq> None" "length qs' \<le> 1"
        "e = Write_done \<and> qs' = [] \<and> mem_ok (insert a ks) s' [] \<or>
         (\<exists>n. e = Write_queued n) \<and>
           (if ty = APE_DATA_STATIC \<or> ty = APE_DATA_COPY then a \<notin> addrs qs' \<and> mem_ok (insert a ks) s' qs' else mem_ok ks' s' qs')"
      unfolding drop_0 by blast
    show ?thesis
    proof (cases "e = Write_done")
      case nd: False
      with r(7) obtain n where n: "e = Write_queued n"
        "if ty = APE_DATA_STATIC \<or> ty = APE_DATA_COPY then a \<notin> addrs qs' \<and> mem_ok (insert a ks) s' qs' else mem_ok ks' s' qs'" by blast
      have "APE_socket_write K a (length bs) ty s = Some (int n, s')"
        using st b(2) busy False r(1) n(1) by (simp add: APE_socket_write_def Let_def)
      then show ?thesis using r n(2) qs by (intro exI [of _ "int n"] exI [of _ s'] exI [of _ qs']) simp
    next
      case True
      with r(7) have d: "qs' = []" "mem_ok (insert a ks) s' []" by auto
      have w: "APE_socket_write K a (length bs) ty s =
          map_option (Pair 0) (ape_socket_release_data a (if ty = APE_DATA_COPY then APE_DATA_OWN else ty) s')"
        using st b(2) busy False r(1) True by (simp add: APE_socket_write_def Let_def)
      show ?thesis
      proof (cases "ty = APE_DATA_AUTORELEASE")
        case True
        then have ks1: "ks' = ks" by (simp add: ks' kept_def)
        from free_after [OF r(2) [unfolded ks1 d(1)] d(2) _ fresh(2) r(5)] obtain mm where
          f: "mem_free a s' = Some (s'\<lparr>sk_mem := mm\<rparr>)" "sock_ok ks (s'\<lparr>sk_mem := mm\<rparr>) []" by (auto simp: addrs_def)
        have "sent (s'\<lparr>sk_mem := mm\<rparr>) = sent s'" "only_bytes s (s'\<lparr>sk_mem := mm\<rparr>) = only_bytes s s'" by (simp_all add: sent_def only_bytes_def)
        then show ?thesis using w True f r(3,4) d(1) qs ks1
          by (intro exI [of _ 0] exI [of _ "s'\<lparr>sk_mem := mm\<rparr>"] exI [of _ "[]"]) (simp add: ape_socket_release_data_def sock_ok_def)
      next
        case na: False
        then have "APE_socket_write K a (length bs) ty s = Some (0, s')" using w by (auto simp: ape_socket_release_data_def)
        moreover have "ty \<noteq> APE_DATA_STATIC \<Longrightarrow> ty \<noteq> APE_DATA_COPY \<Longrightarrow> ks' = insert a ks" using na by (cases ty) (simp_all add: ks' kept_def)
        ultimately show ?thesis using r(2-5) d qs
          by (intro exI [of _ 0] exI [of _ s'] exI [of _ "[]"]) (auto simp: addrs_def)
      qed
    qed
  qed
qed

lemma sock_write_ok:
  assumes K: "sys_takes K" and s: "sock_ok ks s qs"
  shows "\<exists>ks' s' qs'. sock_write K bs ty s = Some s' \<and> sock_ok ks' s' qs' \<and> sent s' @ to_write qs' = sent s @ to_write qs @ bs \<and>
    only_bytes s s' \<and> length qs' \<le> length qs + 1 \<and> finite ks = finite ks' \<and> card ks' \<le> card ks + (if kept ty then 1 else 0)"
proof -
  let ?a = "length (sk_mem s)" and ?s = "s\<lparr>sk_mem := sk_mem s @ [Some bs]\<rparr>"
  have i: "sock_inv ks s qs" and m: "mem_ok ks s qs" using s by (simp_all add: sock_ok_def)
  have g: "mem_get x ?s = (if x = ?a then Some bs else mem_get x s)" for x by (simp add: mem_get_def nth_append)
  have na: "mem_get ?a s = None" by (simp add: mem_get_def)
  have fq: "fst (snd q) < ?a" if "q \<in> set qs" for q by (rule mem_get_less [OF sock_inv_live [OF i that]])
  have fresh: "?a \<notin> addrs qs" "?a \<notin> ks"
    using fq na m by (force simp: addrs_def, force simp: mem_ok_def)
  have i1: "sock_inv ks ?s qs"
  proof (rule sock_inv_mem [OF i])
    fix d assume "d \<in> (fst \<circ> snd) ` set qs"
    then have "d \<noteq> ?a" using fresh(1) unfolding addrs_def by blast
    then show "mem_get d ?s = mem_get d s" using g by simp
  qed
  have m1: "mem_ok (insert ?a ks) ?s qs" using m unfolding mem_ok_def g by auto
  have ob: "sent ?s = sent s" "only_bytes ?s s' = only_bytes s s'" for s' by (simp_all add: sent_def only_bytes_def)
  have w: "sock_write K bs ty s = Option.bind (APE_socket_write K ?a (length bs) ty ?s) (\<lambda>(r, s).
      if ty = APE_DATA_STATIC \<or> ty = APE_DATA_COPY then mem_free ?a s else Some s)"
    by (simp add: sock_write_def mem_new_def)
  have c: "finite (insert ?a ks) = finite ks" "card (insert ?a ks) \<le> card ks + 1" by (simp_all add: card_insert_le_m1 card_insert_if)
  show ?thesis
  proof (cases "bs = []")
    case False
    have ga: "mem_get ?a ?s = Some bs" by (simp add: g)
    from write_result [OF K i1 m1 ga False fresh refl, of ty] obtain r s' qs' where
      r: "APE_socket_write K ?a (length bs) ty ?s = Some (r, s')" "sock_inv (if kept ty then insert ?a ks else ks) s' qs'"
        "sent s' @ to_write qs' = sent ?s @ to_write qs @ bs" "only_bytes ?s s'" "length qs' \<le> length qs + 1"
        "if ty = APE_DATA_STATIC \<or> ty = APE_DATA_COPY then ?a \<notin> addrs qs' \<and> mem_get ?a s' \<noteq> None \<and> mem_ok (insert ?a ks) s' qs'
         else mem_ok (if kept ty then insert ?a ks else ks) s' qs'" by blast
    show ?thesis
    proof (cases "ty = APE_DATA_STATIC \<or> ty = APE_DATA_COPY")
      case True
      then have nk: "\<not> kept ty" by (auto simp: kept_def)
      from r(6) True have r6: "?a \<notin> addrs qs'" "mem_get ?a s' \<noteq> None" "mem_ok (insert ?a ks) s' qs'" by simp_all
      from free_after [OF _ r6(3,1) fresh(2) r6(2)] r(2) nk obtain mm where
        f: "mem_free ?a s' = Some (s'\<lparr>sk_mem := mm\<rparr>)" "sock_ok ks (s'\<lparr>sk_mem := mm\<rparr>) qs'" by auto
      have "sent (s'\<lparr>sk_mem := mm\<rparr>) = sent s'" "only_bytes s (s'\<lparr>sk_mem := mm\<rparr>) = only_bytes s s'" by (simp_all add: sent_def only_bytes_def)
      then show ?thesis using w r(1,3-5) True f nk ob
        by (intro exI [of _ ks] exI [of _ "s'\<lparr>sk_mem := mm\<rparr>"] exI [of _ qs']) auto
    next
      case False
      then have "sock_write K bs ty s = Some s'" "sock_ok (if kept ty then insert ?a ks else ks) s' qs'"
        using w r(1,2,6) by (simp_all add: sock_ok_def)
      then show ?thesis using r(3-5) ob c
        by (intro exI [of _ "if kept ty then insert ?a ks else ks"] exI [of _ s'] exI [of _ qs']) simp
    qed
  next
    case True
    have ga: "mem_get ?a ?s \<noteq> None" by (simp add: g)
    from free_after [OF i1 m1 fresh ga] obtain mm where
      f: "mem_free ?a ?s = Some (?s\<lparr>sk_mem := mm\<rparr>)" "sock_ok ks (?s\<lparr>sk_mem := mm\<rparr>) qs" by blast
    have w1: "APE_socket_write K ?a (length bs) ty ?s = map_option (Pair (-1)) (ape_socket_release_data ?a (if ty = APE_DATA_COPY then APE_DATA_OWN else ty) ?s)"
      using True by (simp add: APE_socket_write_def Let_def)
    have o1: "sent (?s\<lparr>sk_mem := mm\<rparr>) = sent s" "only_bytes s (?s\<lparr>sk_mem := mm\<rparr>)" "sent ?s = sent s" "only_bytes s ?s"
      by (auto simp: sent_def only_bytes_def intro: exI [of _ "[]"])
    show ?thesis
    proof (cases "kept ty")
      case True
      then have "sock_write K bs ty s = Some ?s" using w w1 by (auto simp: kept_def ape_socket_release_data_def)
      moreover have "sock_ok (insert ?a ks) ?s qs"
        using sock_inv_mono [OF i1, of "insert ?a ks" ?a] fresh(1) m1 by (simp add: sock_ok_def addrs_def)
      ultimately show ?thesis using o1 c True \<open>bs = []\<close>
        by (intro exI [of _ "insert ?a ks"] exI [of _ ?s] exI [of _ qs]) simp
    next
      case False
      then have "ty = APE_DATA_AUTORELEASE \<or> ty = APE_DATA_STATIC \<or> ty = APE_DATA_COPY" by (cases ty) (simp_all add: kept_def)
      then have "sock_write K bs ty s = Some (?s\<lparr>sk_mem := mm\<rparr>)"
        using w w1 f(1) by (auto simp: ape_socket_release_data_def)
      then show ?thesis using o1 f(2) False \<open>bs = []\<close>
        by (intro exI [of _ ks] exI [of _ "?s\<lparr>sk_mem := mm\<rparr>"] exI [of _ qs]) simp
    qed
  qed
qed

section \<open>Runs of writes\<close>

text \<open>What the callers wrote, and a history of writes and of events that the socket can be written to.\<close>

fun op_written :: "sock_op \<Rightarrow> byte list" where
  "op_written (Op_write bs t) = bs"
| "op_written _ = []"

definition written :: "sock_op list \<Rightarrow> byte list" where
  "written ops = concat (map op_written ops)"

fun op_writes :: "sock_op \<Rightarrow> bool" where
  "op_writes (Op_write bs t) = True"
| "op_writes Op_writable = True"
| "op_writes _ = False"

fun op_kept :: "sock_op \<Rightarrow> bool" where
  "op_kept (Op_write bs t) = kept t"
| "op_kept _ = False"

text \<open>The blocks that are not freed.\<close>

definition sk_live :: "sock \<Rightarrow> addr list" where
  "sk_live s = filter (\<lambda>a. mem_get a s \<noteq> None) [0..<length (sk_mem s)]"

text \<open>A system that takes at least a byte each time.\<close>

definition sys_progress :: "sys \<Rightarrow> bool" where
  "sys_progress K \<longleftrightarrow> (\<forall>i n. 0 < n \<longrightarrow> (\<exists>k. sy_write K i n = Sys_done k \<and> 0 < k \<and> k \<le> n)) \<and> 0 < sy_iov_max K"

lemma sys_progress_takes: "sys_progress K \<Longrightarrow> sys_takes K"
proof -
  assume p: "sys_progress K"
  have "case sy_write K i n of Sys_done k \<Rightarrow> 0 < k \<and> k \<le> n | Sys_again \<Rightarrow> True | Sys_error \<Rightarrow> False" if "0 < n" for i n
  proof -
    from p [unfolded sys_progress_def, THEN conjunct1, rule_format, OF that] obtain k where
      "sy_write K i n = Sys_done k" "0 < k" "k \<le> n" by blast
    then show ?thesis by simp
  qed
  then show ?thesis using p by (simp add: sys_takes_def sys_progress_def)
qed

lemma sock_start_fields:
  assumes "ape_init_pool_list raw_job 2 [] = (l, h)"
  shows "sk_state sock_start = APE_SOCKET_ST_ONLINE" "\<not> sk_secure sock_start" "sk_jobs sock_start = l" "sk_job_cells sock_start = h"
    "sk_packets sock_start = []" "sk_mem sock_start = []" "sk_out sock_start = []"
  using assms by (simp_all add: sock_start_def APE_socket_new_def ape_init_job_list_def sock_zero_def)

lemma sock_start_ok: "sock_ok {} sock_start []" "sk_out sock_start = []"
proof -
  obtain l h where i: "ape_init_pool_list raw_job 2 [] = (l, h)" by (cases "ape_init_pool_list raw_job 2 []")
  note f = sock_start_fields [OF i]
  have "0 < (2 :: nat)" "pool_blocks ([] :: job list option list) = {}" by (simp_all add: pool_blocks_def)
  note ok = ape_init_pool_list_ok [OF this i]
  have u: "map (Pair 0) [0..<2] = [(0 :: nat, 0), (0, 1 :: nat)]" by (simp add: upt_rec)
  have p: "pool_ok l h [(0, 0), (0, 1)]" "ps_current l = Some (0, 0)" using ok by (simp_all add: u)
  have "\<exists>q. pool_get h (0, 0) = Some (raw_job\<lparr>pl_next := q, pl_ptr := None, pl_flags := APE_POOL_ALLOC\<rparr>)"
    using conjunct2 [OF conjunct2 [OF conjunct2 [OF ok]], rule_format, of 0] by simp
  have "ps_head l = Some (0, 0)" using pool_okD(1) [OF p(1)] by simp
  with p \<open>\<exists>q. _\<close> have "sock_inv {} sock_start []"
    by (auto simp: sock_inv_def job_ok_def f pool_blocks_def raw_job_def APE_POOL_ALLOC_def)
  moreover have "mem_ok {} sock_start []" by (simp add: mem_ok_def mem_get_def f)
  ultimately show "sock_ok {} sock_start []" by (simp add: sock_ok_def)
  show "sk_out sock_start = []" by (rule f(7))
qed

lemma sock_ok_drained:
  assumes "sock_ok ks s qs"
  shows "to_write qs = [] \<longleftrightarrow> qs = []"
  using assms to_write_Nil by (cases "qs = []") (auto simp: sock_ok_def sock_inv_def job_ok_def split: if_splits)

text \<open>An event: what the system takes leaves the queue, and memory stays as it should.\<close>

lemma sock_event_ok:
  assumes K: "sys_takes K" and s: "sock_ok ks s qs"
  shows "\<exists>s' qs'. sock_do K Op_writable s = Some s' \<and> sock_ok ks s' qs' \<and> sent s' @ to_write qs' = sent s @ to_write qs \<and>
    only_bytes s s' \<and> (sys_progress K \<longrightarrow> qs \<noteq> [] \<longrightarrow> length (to_write qs') < length (to_write qs))"
proof -
  let ?s = "s\<lparr>sk_flags := sk_flags s AND NOT APE_SOCKET_WOULD_BLOCK\<rparr>"
  have g: "mem_get x ?s = mem_get x s" for x by (simp add: mem_get_def)
  have i: "sock_inv ks ?s qs" and m: "mem_ok ks ?s qs"
    using s by (simp_all add: sock_ok_def mem_ok_def g)
  from do_jobs_ok [OF i K] obtain s' qs' where
    r: "ape_socket_do_jobs K ?s = Some s'" "sock_inv ks s' qs'" "qs = [] \<longrightarrow> s' = ?s \<and> qs' = []"
      "qs \<noteq> [] \<longrightarrow> taken K ?s qs \<le> length (to_write qs) \<and> to_write qs' = drop (taken K ?s qs) (to_write qs) \<and>
         sent s' = sent ?s @ take (taken K ?s qs) (to_write qs)"
      "mem_step ks ?s qs s' qs'" "only_bytes ?s s'" by blast
  have f: "sent ?s = sent s" "only_bytes ?s s' = only_bytes s s'" by (simp_all add: sent_def only_bytes_def)
  have "sock_do K Op_writable s = Some s'"
    using r(1) i would_block_flags(2) by (simp add: client_event_def Let_def sock_inv_def)
  moreover have "sock_ok ks s' qs'" using r(2) mem_ok_step [OF m r(5)] by (simp add: sock_ok_def)
  moreover have "sent s' @ to_write qs' = sent s @ to_write qs" using r(3,4) f(1) by (cases "qs = []") simp_all
  moreover have "length (to_write qs') < length (to_write qs)" if p: "sys_progress K" and ne: "qs \<noteq> []"
  proof -
    obtain q qs1 where q: "qs = q # qs1" using ne by (cases qs) auto
    obtain n where n: "sy_iov_max K = Suc n" using p by (cases "sy_iov_max K") (simp_all add: sys_progress_def)
    have "to_write [q] \<noteq> []" using i q packets_nonempty [of ks _ ?s qs _ _ q]
      by (auto simp: sock_inv_def job_ok_def split: if_splits)
    then have "0 < length (to_write (take (sy_iov_max K) qs))" by (simp add: q n)
    with p obtain k where "sy_write K (sk_calls ?s) (length (to_write (take (sy_iov_max K) qs))) = Sys_done k" "0 < k"
      unfolding sys_progress_def by blast
    then have "0 < taken K ?s qs" by (simp add: taken_def)
    moreover have "taken K ?s qs \<le> length (to_write qs)" "length (to_write qs') = length (to_write qs) - taken K ?s qs"
      using r(4) ne by simp_all
    ultimately show ?thesis by linarith
  qed
  ultimately show ?thesis using r(6) f(2) by blast
qed

lemma sock_run_ok:
  "sys_takes K \<Longrightarrow> sock_ok ks s qs \<Longrightarrow> finite ks \<Longrightarrow> list_all op_writes ops \<Longrightarrow>
   \<exists>ks' s' qs'. sock_run K ops s = Some s' \<and> sock_ok ks' s' qs' \<and> sent s' @ to_write qs' = sent s @ to_write qs @ written ops \<and>
     only_bytes s s' \<and> finite ks' \<and> card ks' \<le> card ks + length (filter op_kept ops)"
proof (induction ops arbitrary: ks s qs)
  case Nil
  then show ?case by (intro exI [of _ ks] exI [of _ s] exI [of _ qs]) (simp add: written_def)
next
  case (Cons op ops)
  have "\<exists>ks1 s1 qs1. sock_do K op s = Some s1 \<and> sock_ok ks1 s1 qs1 \<and> sent s1 @ to_write qs1 = sent s @ to_write qs @ op_written op \<and>
     only_bytes s s1 \<and> finite ks1 \<and> card ks1 \<le> card ks + (if op_kept op then 1 else 0)"
  proof (cases op)
    case (Op_write bs t)
    from sock_write_ok [OF Cons.prems(1,2), of bs t] obtain ks1 s1 qs1 where
      "sock_write K bs t s = Some s1" "sock_ok ks1 s1 qs1" "sent s1 @ to_write qs1 = sent s @ to_write qs @ bs" "only_bytes s s1"
      "finite ks = finite ks1" "card ks1 \<le> card ks + (if kept t then 1 else 0)" by blast
    with Cons.prems(3) Op_write show ?thesis by (intro exI [of _ ks1] exI [of _ s1] exI [of _ qs1]) simp
  next
    case Op_writable
    from sock_event_ok [OF Cons.prems(1,2)] obtain s1 qs1 where
      "sock_do K Op_writable s = Some s1" "sock_ok ks s1 qs1" "sent s1 @ to_write qs1 = sent s @ to_write qs" "only_bytes s s1" by blast
    with Cons.prems(3) Op_writable show ?thesis by (intro exI [of _ ks] exI [of _ s1] exI [of _ qs1]) simp
  qed (use Cons.prems(4) in simp_all)
  then obtain ks1 s1 qs1 where 1: "sock_do K op s = Some s1" "sock_ok ks1 s1 qs1"
    "sent s1 @ to_write qs1 = sent s @ to_write qs @ op_written op" "only_bytes s s1" "finite ks1"
    "card ks1 \<le> card ks + (if op_kept op then 1 else 0)" by blast
  from Cons.IH [OF Cons.prems(1) 1(2,5)] Cons.prems(4) obtain ks' s' qs' where
    2: "sock_run K ops s1 = Some s'" "sock_ok ks' s' qs'" "sent s' @ to_write qs' = sent s1 @ to_write qs1 @ written ops"
      "only_bytes s1 s'" "finite ks'" "card ks' \<le> card ks1 + length (filter op_kept ops)" by auto
  have "sent s' @ to_write qs' = sent s @ to_write qs @ written (op # ops)"
    using 2(3) arg_cong [OF 1(3), of "\<lambda>x. x @ written ops"] by (simp add: written_def)
  then show ?case using 1(1,6) 2 only_bytes_trans [OF 1(4) 2(4)]
    by (intro exI [of _ ks'] exI [of _ s'] exI [of _ qs']) auto
qed

text \<open>Enough events empty the queue.\<close>

lemma sock_drain_ok:
  "sys_progress K \<Longrightarrow> sock_ok ks s qs \<Longrightarrow> length (to_write qs) \<le> n \<Longrightarrow>
   \<exists>s'. sock_run K (replicate n Op_writable) s = Some s' \<and> sock_ok ks s' [] \<and> sent s' = sent s @ to_write qs \<and> only_bytes s s'"
proof (induction n arbitrary: s qs)
  case 0
  then show ?case using sock_ok_drained [OF 0(2)] by simp
next
  case (Suc n)
  from sock_event_ok [OF sys_progress_takes [OF Suc.prems(1)] Suc.prems(2)] obtain s1 qs1 where
    1: "sock_do K Op_writable s = Some s1" "sock_ok ks s1 qs1" "sent s1 @ to_write qs1 = sent s @ to_write qs" "only_bytes s s1"
      "qs \<noteq> [] \<longrightarrow> length (to_write qs1) < length (to_write qs)" using Suc.prems(1) by blast
  have "length (to_write qs1) \<le> n"
  proof (cases "qs = []")
    case True
    with 1(1) Suc.prems(2) have "length (sent s1 @ to_write qs1) = length (sent s)" using 1(3) by simp
    moreover obtain bss where "sent s1 = sent s @ bss" using 1(4)
      by (auto simp: only_bytes_def sent_def)
    ultimately show ?thesis by simp
  next
    case False
    with 1(5) Suc.prems(3) show ?thesis by simp
  qed
  from Suc.IH [OF Suc.prems(1) 1(2) this] 1(1,3) only_bytes_trans [OF 1(4)] show ?case by auto
qed

lemma sk_live_ok: "sock_ok ks s [] \<Longrightarrow> finite ks \<Longrightarrow> length (sk_live s) \<le> card ks"
proof -
  assume s: "sock_ok ks s []" and f: "finite ks"
  have "set (sk_live s) \<subseteq> ks" using s by (auto simp: sk_live_def sock_ok_def mem_ok_def addrs_def)
  then have "card (set (sk_live s)) \<le> card ks" by (rule card_mono [OF f])
  moreover have "distinct (sk_live s)" by (simp add: sk_live_def)
  ultimately show ?thesis by (simp add: distinct_card)
qed

section \<open>What is read\<close>

definition sys_gives :: "sys \<Rightarrow> nat \<Rightarrow> byte list list \<Rightarrow> bool \<Rightarrow> bool" where
  "sys_gives K i bss eof \<longleftrightarrow>
     (\<forall>j<length bss. bss ! j \<noteq> [] \<and> length (bss ! j) \<le> 2048 \<and> (\<forall>n. length (bss ! j) \<le> n \<longrightarrow> sy_read K (i + j) n = Read_bytes (bss ! j))) \<and>
     (\<forall>n. 0 < n \<longrightarrow> sy_read K (i + length bss) n = (if eof then Read_eof else Read_again))"

lemma sys_gives_Cons:
  "sys_gives K i (bs # bss) eof \<longleftrightarrow>
     bs \<noteq> [] \<and> length bs \<le> 2048 \<and> (\<forall>n. length bs \<le> n \<longrightarrow> sy_read K i n = Read_bytes bs) \<and> sys_gives K (Suc i) bss eof"
proof -
  have "(\<forall>j<length (bs # bss). P j ((bs # bss) ! j)) = (P 0 bs \<and> (\<forall>j<length bss. P (Suc j) (bss ! j)))" for P :: "nat \<Rightarrow> byte list \<Rightarrow> bool"
    by (simp add: All_less_Suc2)
  note a = this [of "\<lambda>j b. b \<noteq> [] \<and> length b \<le> 2048 \<and> (\<forall>n. length b \<le> n \<longrightarrow> sy_read K (i + j) n = Read_bytes b)"]
  show ?thesis unfolding sys_gives_def a by simp
qed

lemma read_room:
  assumes "holds b xs"
  shows "buf_used (buffer_prepare 2048 b) = length xs" "length xs + 2048 \<le> buf_size (buffer_prepare 2048 b)"
    "length ys \<le> 2048 \<Longrightarrow> \<exists>b'. buf_write (length xs) ys (buffer_prepare 2048 b) = Some b' \<and> buf_used b' = length xs \<and>
       holds (b'\<lparr>buf_used := length xs + length ys\<rparr>) (xs @ ys)"
proof -
  obtain block where p: "holds (buffer_prepare 2048 b) xs" "buf_data (buffer_prepare 2048 b) = Some block" "length xs + 2048 \<le> length block"
    using prepare_room [OF assms, of 2048] by blast
  then show u: "buf_used (buffer_prepare 2048 b) = length xs" "length xs + 2048 \<le> buf_size (buffer_prepare 2048 b)"
    by (simp_all add: holds_def)
  show "\<exists>b'. buf_write (length xs) ys (buffer_prepare 2048 b) = Some b' \<and> buf_used b' = length xs \<and>
     holds (b'\<lparr>buf_used := length xs + length ys\<rparr>) (xs @ ys)" if "length ys \<le> 2048"
    using write_holds [OF p(1,2), of ys "length (xs @ ys)"] p(3) u that by auto
qed

lemma read_loop_ok:
  "sys_gives K (sk_calls s) bss eof \<Longrightarrow> \<not> sk_secure s \<Longrightarrow> holds (sk_data_in s) xs \<Longrightarrow>
   \<exists>b. read_loop K s = Some (Some eof, s\<lparr>sk_data_in := b, sk_calls := sk_calls s + length bss + 1\<rparr>) \<and> holds b (xs @ concat bss)"
proof (induction bss arbitrary: s xs)
  case Nil
  let ?b = "buffer_prepare 2048 (sk_data_in s)"
  have "0 < buf_size ?b - buf_used ?b" using read_room(1,2) [OF Nil.prems(3)] by simp
  then have "sy_read K (sk_calls s) (buf_size ?b - buf_used ?b) = (if eof then Read_eof else Read_again)"
    using Nil.prems(1) by (simp add: sys_gives_def)
  then have "read_once K s = Some (Read_end (Some eof) (s\<lparr>sk_data_in := ?b, sk_calls := sk_calls s + 1\<rparr>))"
    using Nil.prems(2) by (simp add: read_once_def sk_called_def Let_def)
  then have "read_loop K s = Some (Some eof, s\<lparr>sk_data_in := ?b, sk_calls := sk_calls s + 1\<rparr>)" by (simp add: read_loop.simps)
  moreover have "holds ?b xs" using prepare_room [OF Nil.prems(3), of 2048] by blast
  ultimately show ?case by (intro exI [of _ ?b]) simp
next
  case (Cons bs bss)
  let ?b = "buffer_prepare 2048 (sk_data_in s)"
  have g: "bs \<noteq> []" "length bs \<le> 2048" "\<forall>n. length bs \<le> n \<longrightarrow> sy_read K (sk_calls s) n = Read_bytes bs" "sys_gives K (Suc (sk_calls s)) bss eof"
    using Cons.prems(1) by (simp_all add: sys_gives_Cons)
  note room = read_room [OF Cons.prems(3)]
  from room(3) [OF g(2)] obtain b where
    b: "buf_write (length xs) bs ?b = Some b" "buf_used b = length xs" "holds (b\<lparr>buf_used := length xs + length bs\<rparr>) (xs @ bs)" by blast
  let ?b' = "b\<lparr>buf_used := length xs + length bs\<rparr>"
  let ?s = "s\<lparr>sk_data_in := ?b', sk_calls := sk_calls s + 1\<rparr>"
  have "length bs \<le> buf_size ?b - buf_used ?b" using room(1,2) g(2) by simp
  then have "sy_read K (sk_calls s) (buf_size ?b - buf_used ?b) = Read_bytes bs" using g(3) by blast
  then have "read_once K s = Some (Read_more ?s)"
    using Cons.prems(2) room(1) b(1,2) g(1) by (cases s) (simp add: read_once_def read_data_def sk_called_def Let_def)
  then have l: "read_loop K s = read_loop K ?s" by (subst read_loop.simps) simp
  have "sys_gives K (sk_calls ?s) bss eof" "\<not> sk_secure ?s" "holds (sk_data_in ?s) (xs @ bs)" using g(4) Cons.prems(2) b(3) by simp_all
  from Cons.IH [OF this] l show ?case by (cases s) auto
qed

lemma read_ok:
  assumes g: "sys_gives K (sk_calls s) bss eof" and s: "sk_state s = APE_SOCKET_ST_ONLINE" "\<not> sk_secure s" and b: "holds (sk_data_in s) []"
  shows "\<exists>b. holds b (concat bss) \<and> ape_socket_read K on_read (v, s) =
    Option.bind
      (let s1 = s\<lparr>sk_data_in := b, sk_calls := sk_calls s + length bss + 1\<rparr>
       in if bss = [] then Some (v, s1)
          else map_option (\<lambda>(v, s). (v, s\<lparr>sk_data_in := (sk_data_in s)\<lparr>buf_used := 0\<rparr>\<rparr>))
            (if sk_on_read s then on_read (concat bss) (v, s1) else Some (v, s1)))
      (\<lambda>(v, s). if eof then Some (-1, v, snd (APE_socket_destroy s)) else Some (int (buf_used (sk_data_in s)), v, s))"
proof -
  from read_loop_ok [OF g s(2) b] obtain b' where
    l: "read_loop K s = Some (Some eof, s\<lparr>sk_data_in := b', sk_calls := sk_calls s + length bss + 1\<rparr>)" and h: "holds b' (concat bss)" by auto
  have u: "buf_used b' = length (concat bss)" by (rule holds_used [OF h])
  have "concat bss = [] \<longleftrightarrow> bss = []"
    using g by (cases bss) (simp_all add: sys_gives_Cons)
  then show ?thesis using l s u h buf_bytes_holds [OF h]
    by (intro exI [of _ b']) (auto simp: ape_socket_read_def Let_def)
qed

lemma holds_empty: "holds b xs \<Longrightarrow> holds (b\<lparr>buf_used := 0\<rparr>) []"
  by (auto simp: holds_def split: option.splits)

section \<open>What writing leaves alone\<close>

definition sk_rest where
  "sk_rest s = (sk_data_in s, sk_on_read s, sk_on_connected s, sk_on_disconnect s)"

lemma sk_rest_simps [simp]:
  "sk_rest (sk_emit os s) = sk_rest s" "sk_rest (sk_called s) = sk_rest s" "sk_rest (sk_would_block s) = sk_rest s"
  "sk_rest (s\<lparr>sk_flags := f\<rparr>) = sk_rest s" "sk_rest (sk_set_list li l s) = sk_rest s" "sk_rest (s\<lparr>sk_mem := m\<rparr>) = sk_rest s"
  "sk_rest (s\<lparr>sk_packets := h\<rparr>) = sk_rest s" "sk_rest (s\<lparr>sk_jobs := l\<rparr>) = sk_rest s" "sk_rest (s\<lparr>sk_job_cells := j\<rparr>) = sk_rest s"
  "sk_rest (s\<lparr>sk_lists := ls\<rparr>) = sk_rest s" "sk_rest (s\<lparr>sk_state := x\<rparr>) = sk_rest s"
  by (simp_all add: sk_rest_def sk_emit_def sk_called_def sk_would_block_def sk_set_list_def)

lemma rest_shutdown [simp]: "sk_rest (snd (APE_socket_destroy s)) = sk_rest s" "sk_rest (sk_shutdown K s) = sk_rest s"
  "sk_rest (ape_socket_shutdown_force K s) = sk_rest s"
  by (simp_all add: APE_socket_destroy_def sk_shutdown_def ape_socket_shutdown_force_def Let_def)

lemma rest_simple:
  "mem_free a s = Some s' \<Longrightarrow> sk_rest s' = sk_rest s" "mem_new bs s = (a, s') \<Longrightarrow> sk_rest s' = sk_rest s"
  "ape_socket_release_data a ty s = Some s' \<Longrightarrow> sk_rest s' = sk_rest s"
  "sk_job_upd p f s = Some s' \<Longrightarrow> sk_rest s' = sk_rest s" "sk_packet_upd p g s = Some s' \<Longrightarrow> sk_rest s' = sk_rest s"
  by (auto simp: mem_free_def mem_new_def ape_socket_release_data_def sk_job_upd_def sk_packet_upd_def split: if_splits)

lemma rest_job_list:
  assumes "job_list j s = Some (li, s')"
  shows "sk_rest s' = sk_rest s"
proof -
  obtain c where c: "pool_get (sk_job_cells s) j = Some c" using assms by (auto simp: job_list_def bind_eq_Some_conv)
  show ?thesis
  proof (cases "pl_ptr c")
    case None
    with assms c show ?thesis by (auto simp: job_list_def Let_def split: prod.split_asm dest!: rest_simple)
  next
    case (Some p)
    with assms c show ?thesis by (cases p) (simp_all add: job_list_def)
  qed
qed

lemma rest_queue:
  "ape_socket_job_get_slot ty s = Some (j, s') \<Longrightarrow> sk_rest s' = sk_rest s"
  "queue_packet li d len off dt s = Some s' \<Longrightarrow> sk_rest s' = sk_rest s"
  by (auto simp: ape_socket_job_get_slot_def queue_packet_def bind_eq_Some_conv Let_def
      split: if_splits dest!: rest_simple)

lemma rest_queue_data: "ape_socket_queue_data d len off dt s = Some s' \<Longrightarrow> sk_rest s' = sk_rest s"
  by (auto simp: ape_socket_queue_data_def bind_eq_Some_conv Let_def split: if_splits dest!: rest_queue rest_job_list rest_simple)

lemma rest_write_loop: "write_loop K d len dt t s = Some r \<Longrightarrow> sk_rest (snd r) = sk_rest s"
proof (rule write_loop.raw_induct [where P = "\<lambda>K d len dt t s r. sk_rest (snd r) = sk_rest s"])
  fix f K d len dt t s r
  assume IH: "\<And>K d len dt t s r. f K d len dt t s = Some r \<Longrightarrow> sk_rest (snd r) = sk_rest s"
    and eq: "(if t < len then
        Option.bind (mem_bytes d t len s) (\<lambda>bs.
        case sy_write K (sk_calls s) (len - t) of
          Sys_done n \<Rightarrow> f K d len dt (t + n) (sk_emit [Sock_bytes (take n bs)] (sk_called s))
        | Sys_again \<Rightarrow> map_option (Pair (Write_queued (len - t))) (ape_socket_queue_data d len t dt (sk_would_block (sk_called s)))
        | Sys_error \<Rightarrow> Some (Write_error, sk_called s))
      else Some (Write_done, s)) = Some r"
  show "sk_rest (snd r) = sk_rest s"
  proof (cases "t < len")
    case True
    with eq obtain bs where "(case sy_write K (sk_calls s) (len - t) of
          Sys_done n \<Rightarrow> f K d len dt (t + n) (sk_emit [Sock_bytes (take n bs)] (sk_called s))
        | Sys_again \<Rightarrow> map_option (Pair (Write_queued (len - t))) (ape_socket_queue_data d len t dt (sk_would_block (sk_called s)))
        | Sys_error \<Rightarrow> Some (Write_error, sk_called s)) = Some r" by (auto simp: bind_eq_Some_conv)
    then show ?thesis using IH
      by (cases "sy_write K (sk_calls s) (len - t)") (auto dest!: rest_queue_data IH)
  qed (use eq in auto)
qed

lemma rest_packet_done: "packet_done li a s = Some (p, s') \<Longrightarrow> sk_rest s' = sk_rest s"
  by (auto simp: packet_done_def bind_eq_Some_conv dest!: rest_simple)

lemma rest_consume_loop: "consume_loop li n p s = Some r \<Longrightarrow> sk_rest (snd r) = sk_rest s"
proof (rule consume_loop.raw_induct [where P = "\<lambda>li n p s r. sk_rest (snd r) = sk_rest s"])
  fix f li n p s r
  assume IH: "\<And>li n p s r. f li n p s = Some r \<Longrightarrow> sk_rest (snd r) = sk_rest s"
    and eq: "(case p of None \<Rightarrow> Some (None, s)
      | Some a \<Rightarrow>
          Option.bind (pool_get (sk_packets s) a) (\<lambda>c.
          if pl_ptr c = None then Some (Some a, s)
          else
            let n = n - (int (pk_len c) - int (pk_offset c))
            in if n < 0
               then map_option (Pair (Some a)) (sk_packet_upd a (\<lambda>c. c\<lparr>pk_offset := nat (int (pk_len c) + n)\<rparr>) s)
               else
                 Option.bind (packet_done li a s) (\<lambda>(packet, s).
                 if n = 0 then Some (packet, s) else f li n packet s))) = Some r"
  show "sk_rest (snd r) = sk_rest s"
  proof (cases p)
    case (Some a)
    with eq show ?thesis
      by (auto simp: bind_eq_Some_conv Let_def split: if_splits dest!: IH rest_packet_done rest_simple)
  qed (use eq in auto)
qed

lemma rest_ssl_packets: "ssl_packets K li p s = Some r \<Longrightarrow> sk_rest (snd r) = sk_rest s"
proof (rule ssl_packets.raw_induct [where P = "\<lambda>K li p s r. sk_rest (snd r) = sk_rest s"])
  fix f K li p s r
  assume IH: "\<And>K li p s r. f K li p s = Some r \<Longrightarrow> sk_rest (snd r) = sk_rest s"
    and eq: "(case p of
        None \<Rightarrow> Some (True, s)
      | Some a \<Rightarrow>
          Option.bind (pool_get (sk_packets s) a) (\<lambda>c.
          case pl_ptr c of
            None \<Rightarrow> Some (True, s)
          | Some d \<Rightarrow>
              Option.bind (mem_bytes d 0 (pk_len c) s) (\<lambda>bs.
              let r = sy_ssl_write K (sk_calls s) (pk_len c); s = sk_called s
              in if r = Ssl_want then Some (False, sk_would_block s)
                 else if r = Ssl_failed then Some (False, ape_socket_shutdown_force K s)
                 else
                   Option.bind (packet_done li a (if r = Ssl_done then sk_emit [Sock_bytes bs] s else s)) (\<lambda>(packet, s).
                   f K li packet s)))) = Some r"
  show "sk_rest (snd r) = sk_rest s"
  proof (cases p)
    case (Some a)
    with eq obtain c where c: "pool_get (sk_packets s) a = Some c" by (auto simp: bind_eq_Some_conv)
    show ?thesis
    proof (cases "pl_ptr c")
      case (Some d)
      with eq \<open>p = Some a\<close> c show ?thesis
        by (auto simp: bind_eq_Some_conv Let_def split: if_split_asm dest!: IH rest_packet_done)
    qed (use eq \<open>p = Some a\<close> c in auto)
  qed (use eq in auto)
qed

lemma rest_sendfile_loop: "sendfile_loop K fd s = Some r \<Longrightarrow> sk_rest (snd r) = sk_rest s"
proof (rule sendfile_loop.raw_induct [where P = "\<lambda>K fd s r. sk_rest (snd r) = sk_rest s"])
  fix f K fd s r
  assume IH: "\<And>K fd s r. f K fd s = Some r \<Longrightarrow> sk_rest (snd r) = sk_rest s"
    and eq: "(case sy_sendfile K (sk_calls s) of
        Sys_done n \<Rightarrow> if 0 < n then f K fd (sk_emit [Sock_file fd n] (sk_called s)) else Some (False, sk_called s)
      | Sys_again \<Rightarrow> Some (True, sk_called s)
      | Sys_error \<Rightarrow> Some (False, sk_called s)) = Some r"
  then show "sk_rest (snd r) = sk_rest s"
    by (cases "sy_sendfile K (sk_calls s)") (auto split: if_splits dest!: IH)
qed

lemma rest_job_writev:
  assumes "job_writev K j s = Some r"
  shows "sk_rest (snd r) = sk_rest s"
proof -
  from assms obtain c where c: "pool_get (sk_job_cells s) j = Some c" by (auto simp: job_writev_def bind_eq_Some_conv)
  with assms obtain li where li: "pl_ptr c = Some (Ptr_list li)"
    by (cases "pl_ptr c") (auto simp: job_writev_def split: job_ptr.split_asm)
  with assms c obtain l where l: "sk_list li s = Some l" by (auto simp: job_writev_def bind_eq_Some_conv)
  show ?thesis
  proof (cases "sk_secure s")
    case True
    with assms c li l show ?thesis by (auto simp: job_writev_def dest: rest_ssl_packets)
  next
    case False
    with assms c li l obtain chunks where "gather_chunks (sy_iov_max K) (ps_head l) s = Some chunks"
      by (auto simp: job_writev_def bind_eq_Some_conv)
    with False assms c li l show ?thesis
      by (cases "sy_write K (sk_calls s) (length (concat chunks))")
         (auto simp: job_writev_def bind_eq_Some_conv split: if_split_asm dest!: rest_consume_loop)
  qed
qed

lemma rest_job_sendfile:
  assumes "job_sendfile K j s = Some r"
  shows "sk_rest (snd r) = sk_rest s"
proof -
  from assms obtain c where c: "pool_get (sk_job_cells s) j = Some c" by (auto simp: job_sendfile_def bind_eq_Some_conv)
  with assms obtain fd where "pl_ptr c = Some (Ptr_fd fd)"
    by (cases "pl_ptr c") (auto simp: job_sendfile_def split: job_ptr.split_asm)
  with assms c show ?thesis
    by (auto simp: job_sendfile_def bind_eq_Some_conv split: if_split_asm dest!: rest_sendfile_loop rest_simple)
qed

lemma rest_do_job: "do_job K fl j s = Some r \<Longrightarrow> sk_rest (snd r) = sk_rest s"
  by (auto simp: do_job_def Let_def split: if_split_asm dest: rest_job_writev rest_job_sendfile)

lemma rest_do_jobs_loop: "do_jobs_loop K j s = Some r \<Longrightarrow> sk_rest r = sk_rest s"
proof (rule do_jobs_loop.raw_induct [where P = "\<lambda>K j s r. sk_rest r = sk_rest s"])
  fix f K j s r
  assume IH: "\<And>K j s r. f K j s = Some r \<Longrightarrow> sk_rest r = sk_rest s"
    and eq: "(case j of
        None \<Rightarrow> Some s
      | Some a \<Rightarrow>
          Option.bind (pool_get (sk_job_cells s) a) (\<lambda>c.
          if pl_flags c AND APE_SOCKET_JOB_ACTIVE = 0 then Some s
          else
            Option.bind (do_job K (pl_flags c) a s) (\<lambda>(go, s).
            if \<not> go then Some s
            else
              Option.bind (sk_job_upd a (\<lambda>c. c\<lparr>pl_flags := pl_flags c AND NOT APE_SOCKET_JOB_ACTIVE\<rparr>) s) (\<lambda>s.
              Option.bind (ape_pool_head_to_current (sk_jobs s) (sk_job_cells s)) (\<lambda>(l, h).
              f K (ps_head l) (s\<lparr>sk_jobs := l, sk_job_cells := h\<rparr>)))))) = Some r"
  show "sk_rest r = sk_rest s"
  proof (cases j)
    case (Some a)
    with eq show ?thesis
      by (auto simp: bind_eq_Some_conv split: if_split_asm dest!: IH rest_do_job rest_simple)
  qed (use eq in auto)
qed

lemma rest_do_jobs: "ape_socket_do_jobs K s = Some s' \<Longrightarrow> sk_rest s' = sk_rest s"
  unfolding ape_socket_do_jobs_def by (rule rest_do_jobs_loop)

lemma rest_write:
  assumes "sock_write K bs ty s = Some s'" "\<not> sk_secure s"
  shows "sk_rest s' = sk_rest s"
proof -
  obtain a s1 where a: "mem_new bs s = (a, s1)" by (cases "mem_new bs s")
  note s1 = rest_simple(2) [OF a]
  have sec: "\<not> sk_secure s1" using assms(2) a by (auto simp: mem_new_def)
  from assms(1) a obtain r s2 where w: "APE_socket_write K a (length bs) ty s1 = Some (r, s2)"
    "(if ty = APE_DATA_STATIC \<or> ty = APE_DATA_COPY then mem_free a s2 else Some s2) = Some s'"
    by (auto simp: sock_write_def bind_eq_Some_conv)
  have "sk_rest s' = sk_rest s2" using w(2) by (auto split: if_split_asm dest: rest_simple)
  also have "sk_rest s2 = sk_rest s1"
  proof (cases "sk_state s1 \<noteq> APE_SOCKET_ST_ONLINE \<or> length bs = 0")
    case True
    with w(1) show ?thesis by (auto simp: APE_socket_write_def Let_def dest: rest_simple)
  next
    case False
    with w(1) obtain b where b: "sk_busy s1 = Some b" by (auto simp: APE_socket_write_def Let_def bind_eq_Some_conv)
    show ?thesis
    proof (cases b)
      case True
      with w(1) b False show ?thesis by (auto simp: APE_socket_write_def Let_def dest: rest_queue_data)
    next
      case nb: False
      with w(1) b False sec obtain e s3 where l: "write_loop K a (length bs) ty 0 s1 = Some (e, s3)"
        by (auto simp: APE_socket_write_def Let_def bind_eq_Some_conv)
      with w(1) b False nb sec rest_write_loop [OF l] show ?thesis
        by (cases e) (auto simp: APE_socket_write_def Let_def dest!: rest_simple)
    qed
  qed
  finally show ?thesis using s1 by simp
qed

section \<open>Properties\<close>

text \<open>A system for the examples: it cannot write at the calls in the list, and takes at most so many bytes at the others.\<close>

definition sys_stalls :: "nat \<Rightarrow> nat list \<Rightarrow> sys" where
  "sys_stalls most ws =
     \<lparr>sy_write = (\<lambda>i n. if i \<in> set ws then Sys_again else Sys_done (min n most)),
      sy_ssl_write = (\<lambda>i n. if i \<in> set ws then Ssl_want else Ssl_done),
      sy_sendfile = (\<lambda>i. if i \<in> set ws then Sys_again else Sys_done 0), sy_open = (\<lambda>i. Some 5), sy_shutdown = (\<lambda>i. True),
      sy_read = (\<lambda>i n. if i = 0 then Read_bytes [71, 69] else if i = 1 then Read_bytes [84] else Read_eof),
      sy_ssl_read = (\<lambda>i n. Ssl_read_want), sy_iov_max = 1024\<rparr>"

lemma sys_stalls_takes: "0 < most \<Longrightarrow> sys_takes (sys_stalls most ws)" "0 < most \<Longrightarrow> sys_progress (sys_stalls most [])"
  by (simp_all add: sys_takes_def sys_progress_def sys_stalls_def)

lemma only_bytes_start: "only_bytes sock_start s \<Longrightarrow> \<exists>bss. sk_out s = map Sock_bytes bss \<and> sent s = concat bss"
  by (auto simp: only_bytes_def sock_start_ok(2) sent_def comp_def)

lemma sock_run_append: "sock_run K (xs @ ys) = (\<lambda>s. Option.bind (sock_run K xs s) (sock_run K ys))"
proof
  show "sock_run K (xs @ ys) s = Option.bind (sock_run K xs s) (sock_run K ys)" for s
    by (induction xs arbitrary: s) (simp_all split: bind_split)
qed

text \<open>C0: On a socket that is only written to, whatever the system does short of an error - it takes part of
  the bytes, or none, at any call - no byte is lost, repeated or overtaken: what has been sent is always a
  first part of what the callers wrote, in the order of the calls. This holds for every way in which
  the data is handed over, and no block is read or freed after it was freed.\<close>

theorem socket_fifo:
  assumes "sys_takes K" "list_all op_writes ops"
  shows "\<exists>s bss rest. sock_run K ops sock_start = Some s \<and> sk_out s = map Sock_bytes bss \<and> written ops = concat bss @ rest"
proof -
  from sock_run_ok [OF assms(1) sock_start_ok(1) _ assms(2)] obtain ks s qs where
    r: "sock_run K ops sock_start = Some s" "sent s @ to_write qs = sent sock_start @ to_write [] @ written ops" "only_bytes sock_start s" by blast
  have "sent sock_start = []" by (simp add: sent_def sock_start_ok(2))
  with r only_bytes_start [OF r(3)] show ?thesis by (metis append_Nil sent_simps(4))
qed

theorem socket_fifo_witness:
  "\<exists>s bss rest. sock_run (sys_stalls 2 [0, 2]) [Op_write [65, 66, 67] APE_DATA_STATIC, Op_write [68] APE_DATA_COPY, Op_writable, Op_writable]
     sock_start = Some s \<and> sk_out s = map Sock_bytes bss \<and> [65, 66, 67, 68] = concat bss @ rest"
  using socket_fifo [OF sys_stalls_takes(1), of 2 "[Op_write [65, 66, 67] APE_DATA_STATIC, Op_write [68] APE_DATA_COPY, Op_writable, Op_writable]" "[0, 2]"]
  by (simp add: written_def)

text \<open>C0: After any history of writes, once the system takes at least a byte at each call, as many events as
  bytes were written are enough for everything to be sent; then every block that the socket took over has been
  freed, and at most the blocks of the writes whose data is not the socket's to free are left.\<close>

theorem socket_drains:
  assumes "sys_takes K" "list_all op_writes ops" "sys_progress K'"
  shows "\<exists>s bss. Option.bind (sock_run K ops sock_start) (sock_run K' (replicate (length (written ops)) Op_writable)) = Some s \<and>
    sk_out s = map Sock_bytes bss \<and> concat bss = written ops \<and> length (sk_live s) \<le> length (filter op_kept ops)"
proof -
  from sock_run_ok [OF assms(1) sock_start_ok(1) _ assms(2)] obtain ks s qs where
    r: "sock_run K ops sock_start = Some s" "sock_ok ks s qs" "sent s @ to_write qs = sent sock_start @ to_write [] @ written ops"
      "only_bytes sock_start s" "finite ks" "card ks \<le> card ({} :: addr set) + length (filter op_kept ops)" by blast
  have w: "sent s @ to_write qs = written ops" using r(3) by (simp add: sent_def sock_start_ok(2))
  then have "length (to_write qs) \<le> length (written ops)" by (metis le_add2 length_append)
  from sock_drain_ok [OF assms(3) r(2) this] obtain s' where
    s': "sock_run K' (replicate (length (written ops)) Op_writable) s = Some s'" "sock_ok ks s' []" "sent s' = sent s @ to_write qs" "only_bytes s s'"
    by blast
  from only_bytes_start [OF only_bytes_trans [OF r(4) s'(4)]] obtain bss where "sk_out s' = map Sock_bytes bss" "sent s' = concat bss" by blast
  then show ?thesis using r(1,6) s'(1,3) w sk_live_ok [OF s'(2) r(5)] by (intro exI [of _ s'] exI [of _ bss]) simp
qed

theorem socket_drains_witness:
  "\<exists>s bss. Option.bind (sock_run (sys_stalls 1 [0]) [Op_write [65, 66] APE_DATA_STATIC, Op_write [67] APE_DATA_AUTORELEASE] sock_start)
     (sock_run (sys_stalls 1 []) (replicate 3 Op_writable)) = Some s \<and>
    sk_out s = map Sock_bytes bss \<and> concat bss = [65, 66, 67] \<and> sk_live s = []"
  using socket_drains [OF sys_stalls_takes(1) _ sys_stalls_takes(2), of 1 "[Op_write [65, 66] APE_DATA_STATIC, Op_write [67] APE_DATA_AUTORELEASE]" 1 "[0]"]
  by (simp add: written_def kept_def numeral_3_eq_3)


lemma sys_stalls_gives: "sys_gives (sys_stalls n ws) 0 [[71, 69], [84]] True"
  by (simp add: sys_gives_Cons) (simp add: sys_gives_def sys_stalls_def)


text \<open>Events after which nothing changes any more.\<close>

definition sk_idle :: "sys \<Rightarrow> sock_op list \<Rightarrow> bool" where
  "sk_idle K ops \<longleftrightarrow>
     (case sock_run K (ops @ [Op_writable]) sock_start of None \<Rightarrow> False | Some s \<Rightarrow> sock_do K Op_writable s = Some s)"

lemma sk_idle_run:
  assumes "sk_idle K ops"
  shows "sock_run K (ops @ replicate (Suc n) Op_writable @ ops') sock_start = sock_run K (ops @ Op_writable # ops') sock_start"
proof -
  obtain s where s: "sock_run K (ops @ [Op_writable]) sock_start = Some s" "sock_do K Op_writable s = Some s"
    using assms by (auto simp: sk_idle_def split: option.splits)
  have r: "sock_run K (replicate n Op_writable) s = Some s" by (induction n) (simp_all add: s(2) del: sock_do.simps)
  have "sock_run K (ops @ replicate (Suc n) Op_writable @ ops') sock_start =
      Option.bind (sock_run K (ops @ [Op_writable]) sock_start) (\<lambda>s. Option.bind (sock_run K (replicate n Op_writable) s) (sock_run K ops'))"
    by (cases "sock_run K ops sock_start") (simp_all add: sock_run_append)
  also have "\<dots> = Option.bind (sock_run K (ops @ [Op_writable]) sock_start) (sock_run K ops')" using s(1) r by simp
  finally show ?thesis by (cases "sock_run K ops sock_start") (simp_all add: sock_run_append)
qed



end
