(* ===== verification/Timers.thy ===== *)
theory Timers
  imports Ape_Prelude
begin

text \<open>
  The timers of \<^verbatim>\<open>src/core/ape_timers.c\<close> and the ticks of \<^verbatim>\<open>events_loop\<close>: a linked list in an
  explicit heap, each timer with the difference of its deadline to that of the one before it. The
  abstraction is the schedule: the timers in order with their absolute deadlines.

  A callback is a parameter: it gets the state and may change it, through the functions of this
  theory or otherwise. \<open>None\<close> is undefined behaviour (a freed timer that is followed, an \<open>int\<close>
  that overflows); for \<open>process_tick\<close>, which may not return, that is \<open>Some None\<close>, and \<open>None\<close> is the
  loop that does not end.
\<close>

section \<open>Timers\<close>

text \<open>\<open>int\<close>: subtraction and addition are undefined outside its range.\<close>

definition c_int :: "int \<Rightarrow> int option" where
  "c_int x = (if - (2 ^ 31) \<le> x \<and> x < 2 ^ 31 then Some x else None)"

record ('f, 'p) ticks_callback =
  tk_ticks_need :: int
  tk_delta :: int
  tk_times :: int
  tk_identifier :: u32
  tk_protect :: u32
  tk_func :: 'f
  tk_params :: 'p
  tk_next :: "addr option"

text \<open>
  The fields of \<open>ape->timers\<close> and the heap of the timers; \<open>tm_world\<close> is whatever else the callbacks
  read and write.
\<close>

record ('f, 'p, 'w) ape_timers =
  tm_timers :: "addr option"
  tm_ntimers :: u32
  tm_heap :: "('f, 'p) ticks_callback option list"
  tm_world :: 'w

definition tk_get :: "('f, 'p, 'w) ape_timers \<Rightarrow> addr \<Rightarrow> ('f, 'p) ticks_callback option" where
  "tk_get t a = (if a < length (tm_heap t) then tm_heap t ! a else None)"

definition tk_upd ::
    "addr \<Rightarrow> (('f, 'p) ticks_callback \<Rightarrow> ('f, 'p) ticks_callback) \<Rightarrow> ('f, 'p, 'w) ape_timers \<Rightarrow>
     ('f, 'p, 'w) ape_timers option" where
  "tk_upd a f t =
     (case tk_get t a of
        None \<Rightarrow> None
      | Some it \<Rightarrow> Some (t\<lparr>tm_heap := (tm_heap t)[a := Some (f it)]\<rparr>))"

definition tk_free :: "addr \<Rightarrow> ('f, 'p, 'w) ape_timers \<Rightarrow> ('f, 'p, 'w) ape_timers option" where
  "tk_free a t =
     (case tk_get t a of None \<Rightarrow> None | Some _ \<Rightarrow> Some (t\<lparr>tm_heap := (tm_heap t)[a := None]\<rparr>))"

section \<open>Adding a timer\<close>

text \<open>
  The loop of \<open>add_timeout\<close>. The new timer is not linked yet, so nothing else sees it: it is carried
  along, with \<open>prev\<close>.
\<close>

partial_function (option) add_timeout_loop ::
    "('f, 'p) ticks_callback \<Rightarrow> addr option \<Rightarrow> addr option \<Rightarrow> ('f, 'p, 'w) ape_timers \<Rightarrow>
     (('f, 'p) ticks_callback \<times> addr option \<times> ('f, 'p, 'w) ape_timers) option" where
  "add_timeout_loop new_timer prev timers t =
     (case timers of
        None \<Rightarrow> Some (new_timer, prev, t)
      | Some a \<Rightarrow> Option.bind (tk_get t a) (\<lambda>it.
          if tk_delta new_timer \<le> tk_delta it then
            Option.bind (c_int (tk_delta it - tk_delta new_timer)) (\<lambda>d.
            Option.bind (tk_upd a (\<lambda>it. it\<lparr>tk_delta := d\<rparr>) t) (\<lambda>t.
            Some (new_timer\<lparr>tk_next := Some a\<rparr>, prev, t)))
          else
            Option.bind (c_int (tk_delta new_timer - tk_delta it)) (\<lambda>d.
            add_timeout_loop (new_timer\<lparr>tk_delta := d\<rparr>) (Some a) (tk_next it) t)))"

text \<open>\<open>msec\<close> is unsigned; assigned to an \<open>int\<close> it is taken modulo \<open>2^32\<close>.\<close>

definition add_timeout ::
    "u32 \<Rightarrow> 'f \<Rightarrow> 'p \<Rightarrow> ('f, 'p, 'w) ape_timers \<Rightarrow> (addr \<times> ('f, 'p, 'w) ape_timers) option" where
  "add_timeout msec callback params t =
     (let new_timer = \<lparr>tk_ticks_need = sint msec, tk_delta = sint msec, tk_times = 1,
            tk_identifier = tm_ntimers t, tk_protect = 1, tk_func = callback, tk_params = params, tk_next = None\<rparr>
      in Option.bind (add_timeout_loop new_timer None (tm_timers t) t) (\<lambda>(new_timer, prev, t).
         let a = length (tm_heap t); t = t\<lparr>tm_heap := tm_heap t @ [Some new_timer]\<rparr>
         in Option.bind
              (case prev of
                 Some p \<Rightarrow> tk_upd p (\<lambda>it. it\<lparr>tk_next := Some a\<rparr>) t
               | None \<Rightarrow> Some (t\<lparr>tm_timers := Some a\<rparr>)) (\<lambda>t.
            Some (a, t\<lparr>tm_ntimers := tm_ntimers t + 1\<rparr>))))"

definition add_periodical ::
    "u32 \<Rightarrow> int \<Rightarrow> 'f \<Rightarrow> 'p \<Rightarrow> ('f, 'p, 'w) ape_timers \<Rightarrow> (addr \<times> ('f, 'p, 'w) ape_timers) option" where
  "add_periodical msec n callback params t =
     Option.bind (add_timeout msec callback params t) (\<lambda>(new_timer, t).
     Option.bind (tk_upd new_timer (\<lambda>it. it\<lparr>tk_times := n\<rparr>) t) (\<lambda>t.
     Some (new_timer, t)))"

section \<open>A tick\<close>

type_synonym ('f, 'p, 'w) timer_call =
  "'f \<Rightarrow> 'p \<Rightarrow> int \<Rightarrow> ('f, 'p, 'w) ape_timers \<Rightarrow> (int \<times> ('f, 'p, 'w) ape_timers) option"

text \<open>\<open>--timers->delta <= 0\<close>.\<close>

definition tick_due :: "addr \<Rightarrow> ('f, 'p, 'w) ape_timers \<Rightarrow> (bool \<times> ('f, 'p, 'w) ape_timers) option" where
  "tick_due a t =
     Option.bind (tk_get t a) (\<lambda>it.
     Option.bind (c_int (tk_delta it - 1)) (\<lambda>d.
     Option.bind (tk_upd a (\<lambda>it. it\<lparr>tk_delta := d\<rparr>) t) (\<lambda>t.
     Some (d \<le> 0, t))))"

text \<open>A timer that is not at its last call is added again, under its identifier.\<close>

definition tick_again :: "addr \<Rightarrow> ('f, 'p, 'w) ape_timers \<Rightarrow> ('f, 'p, 'w) ape_timers option" where
  "tick_again a t =
     Option.bind (tk_get t a) (\<lambda>it.
     Option.bind (add_timeout (word_of_int (tk_ticks_need it)) (tk_func it) (tk_params it) t) (\<lambda>(new_timer, t).
     Option.bind (tk_get t a) (\<lambda>it.
     tk_upd new_timer
       (\<lambda>new. new\<lparr>tk_identifier := tk_identifier it, tk_times := tk_times it, tk_protect := tk_protect it\<rparr>)
       (t\<lparr>tm_ntimers := tm_ntimers t - 1\<rparr>))))"

definition tick_fire ::
    "('f, 'p, 'w) timer_call \<Rightarrow> addr \<Rightarrow> ('f, 'p, 'w) ape_timers \<Rightarrow> ('f, 'p, 'w) ape_timers option" where
  "tick_fire call a t =
     Option.bind (tk_get t a) (\<lambda>it.
     let left = (if 0 < tk_times it then tk_times it - 1 else tk_times it);
         lastcall = (if 0 < tk_times it \<and> left = 0 then 1 else 0)
     in
     Option.bind (tk_upd a (\<lambda>it. it\<lparr>tk_times := left\<rparr>) t) (\<lambda>t.
     Option.bind (call (tk_func it) (tk_params it) lastcall t) (\<lambda>(lastcall, t).
     Option.bind (tk_get t a) (\<lambda>it.
     let t = t\<lparr>tm_timers := tk_next it\<rparr>
     in
     Option.bind (if lastcall = 0 then tick_again a t else Some t) (\<lambda>t.
     Option.bind (tk_free a t) (\<lambda>t.
     case tm_timers t of
       None \<Rightarrow> Some t
     | Some b \<Rightarrow>
         Option.bind (tk_get t b) (\<lambda>next.
         Option.bind (c_int (tk_delta next + 1)) (\<lambda>d.
         tk_upd b (\<lambda>it. it\<lparr>tk_delta := d\<rparr>) t))))))))"

partial_function (option) tick_loop ::
    "('f, 'p, 'w) timer_call \<Rightarrow> addr option \<Rightarrow> ('f, 'p, 'w) ape_timers \<Rightarrow> ('f, 'p, 'w) ape_timers option option" where
  "tick_loop call timers t =
     (case timers of
        None \<Rightarrow> Some (Some t)
      | Some a \<Rightarrow>
          (case tick_due a t of
             None \<Rightarrow> Some None
           | Some (due, t) \<Rightarrow>
               if due then
                 (case tick_fire call a t of
                    None \<Rightarrow> Some None
                  | Some t \<Rightarrow> tick_loop call (tm_timers t) t)
               else Some (Some t)))"

definition process_tick ::
    "('f, 'p, 'w) timer_call \<Rightarrow> ('f, 'p, 'w) ape_timers \<Rightarrow> ('f, 'p, 'w) ape_timers option option" where
  "process_tick call t = tick_loop call (tm_timers t) t"

text \<open>The end of a turn of \<open>events_loop\<close>: a tick for each full millisecond since the last.\<close>

partial_function (option) events_ticks ::
    "('f, 'p, 'w) timer_call \<Rightarrow> int \<Rightarrow> ('f, 'p, 'w) ape_timers \<Rightarrow>
     (int \<times> ('f, 'p, 'w) ape_timers) option option" where
  "events_ticks call lticks t =
     (if 1000 \<le> lticks then
        Option.bind (process_tick call t) (\<lambda>r.
        case r of
          None \<Rightarrow> Some None
        | Some t \<Rightarrow> events_ticks call (lticks - 1000) t)
      else Some (Some (lticks, t)))"

section \<open>Finding, deleting and freeing\<close>

text \<open>The loop of the two functions: the timer and the one before it.\<close>

partial_function (option) timer_scan ::
    "u32 \<Rightarrow> addr option \<Rightarrow> addr option \<Rightarrow> ('f, 'p, 'w) ape_timers \<Rightarrow> (addr option \<times> addr option) option" where
  "timer_scan identifier prev timers t =
     (case timers of
        None \<Rightarrow> Some (prev, None)
      | Some a \<Rightarrow> Option.bind (tk_get t a) (\<lambda>it.
          if tk_identifier it = identifier then Some (prev, Some a)
          else timer_scan identifier (Some a) (tk_next it) t))"

definition get_timer_identifier :: "u32 \<Rightarrow> ('f, 'p, 'w) ape_timers \<Rightarrow> addr option option" where
  "get_timer_identifier identifier t = map_option snd (timer_scan identifier None (tm_timers t) t)"

definition del_timer_identifier :: "u32 \<Rightarrow> ('f, 'p, 'w) ape_timers \<Rightarrow> ('f, 'p, 'w) ape_timers option" where
  "del_timer_identifier identifier t =
     Option.bind (timer_scan identifier None (tm_timers t) t) (\<lambda>(prev, hit).
     case hit of
       None \<Rightarrow> Some t
     | Some a \<Rightarrow>
         Option.bind (tk_get t a) (\<lambda>it.
         Option.bind
           (case prev of
              Some p \<Rightarrow> tk_upd p (\<lambda>pi. pi\<lparr>tk_next := tk_next it\<rparr>) t
            | None \<Rightarrow> Some (t\<lparr>tm_timers := tk_next it\<rparr>)) (tk_free a)))"

definition get_first_timer_ms :: "('f, 'p, 'w) ape_timers \<Rightarrow> int option" where
  "get_first_timer_ms t =
     (case tm_timers t of None \<Rightarrow> Some (- 1) | Some a \<Rightarrow> map_option tk_delta (tk_get t a))"

partial_function (option) timers_free_loop ::
    "addr option \<Rightarrow> ('f, 'p, 'w) ape_timers \<Rightarrow> ('f, 'p, 'w) ape_timers option" where
  "timers_free_loop timers t =
     (case timers of
        None \<Rightarrow> Some t
      | Some a \<Rightarrow>
          Option.bind (tk_get t a) (\<lambda>it.
          Option.bind (tk_free a t) (timers_free_loop (tk_next it))))"

definition timers_free :: "('f, 'p, 'w) ape_timers \<Rightarrow> ('f, 'p, 'w) ape_timers option" where
  "timers_free t = timers_free_loop (tm_timers t) t"

section \<open>The schedule\<close>

text \<open>A timer as an entry of the schedule: without its place in the list.\<close>

definition tk_entry :: "('f, 'p) ticks_callback \<Rightarrow> ('f, 'p) ticks_callback" where
  "tk_entry it = it\<lparr>tk_delta := 0, tk_next := None\<rparr>"

lemma tk_entry_simps [simp]:
  "tk_ticks_need (tk_entry it) = tk_ticks_need it" "tk_times (tk_entry it) = tk_times it"
  "tk_identifier (tk_entry it) = tk_identifier it" "tk_protect (tk_entry it) = tk_protect it"
  "tk_func (tk_entry it) = tk_func it" "tk_params (tk_entry it) = tk_params it"
  "tk_entry (it\<lparr>tk_delta := d\<rparr>) = tk_entry it" "tk_entry (it\<lparr>tk_next := q\<rparr>) = tk_entry it"
  "tk_entry (it\<lparr>tk_times := n\<rparr>) = (tk_entry it)\<lparr>tk_times := n\<rparr>"
  by (simp_all add: tk_entry_def)

text \<open>
  The cells from \<open>p\<close> to \<open>q\<close>, each with its deadline and its entry; \<open>c\<close> is the deadline before the
  first, \<open>c'\<close> that of the last.
\<close>

type_synonym ('f, 'p) schedule = "(int \<times> ('f, 'p) ticks_callback) list"

fun tm_seg ::
    "(addr \<Rightarrow> ('f, 'p) ticks_callback option) \<Rightarrow> addr option \<Rightarrow> int \<Rightarrow> (addr \<times> int \<times> ('f, 'p) ticks_callback) list \<Rightarrow>
     addr option \<Rightarrow> int \<Rightarrow> bool" where
  "tm_seg g p c [] q c' = (p = q \<and> c = c')"
| "tm_seg g p c ((a, d, e) # xs) q c' =
     (p = Some a \<and> c \<le> d \<and>
      (\<exists>it. g a = Some it \<and> tk_entry it = e \<and> tk_delta it = d - c \<and> tm_seg g (tk_next it) d xs q c'))"

lemma tm_seg_append:
  "tm_seg g p c (xs @ ys) q c' = (\<exists>r b. tm_seg g p c xs r b \<and> tm_seg g r b ys q c')"
proof (induction xs arbitrary: p c)
  case (Cons x xs)
  then show ?case by (cases x) auto
qed simp

lemma tm_seg_cong:
  "(\<And>a. a \<in> fst ` set xs \<Longrightarrow> g' a = g a) \<Longrightarrow> tm_seg g' p c xs q c' = tm_seg g p c xs q c'"
proof (induction xs arbitrary: p c)
  case (Cons x xs)
  then have "tm_seg g' p c xs q c' = tm_seg g p c xs q c'" for p c by simp
  with Cons.prems show ?case by (cases x) auto
qed simp

lemma tm_seg_live: "tm_seg g p c xs q c' \<Longrightarrow> a \<in> fst ` set xs \<Longrightarrow> g a \<noteq> None"
  by (induction g p c xs q c' rule: tm_seg.induct) auto

lemma tm_seg_end: "tm_seg g p c xs q c' \<Longrightarrow> c \<le> c' \<and> (\<forall>x\<in>set xs. c \<le> fst (snd x) \<and> fst (snd x) \<le> c')"
  by (induction g p c xs q c' rule: tm_seg.induct) (auto, force+)

text \<open>The cell before \<open>q\<close> gets another successor.\<close>

lemma tm_seg_relink:
  "tm_seg g p c xs q c' \<Longrightarrow> xs \<noteq> [] \<Longrightarrow> distinct (map fst xs) \<Longrightarrow>
   \<exists>it. g (fst (last xs)) = Some it \<and>
     tm_seg (g(fst (last xs) := Some (it\<lparr>tk_next := r\<rparr>))) p c xs r c'"
proof (induction xs arbitrary: p c)
  case (Cons x xs)
  obtain a d e where x: "x = (a, d, e)" by (cases x)
  with Cons.prems(1) obtain it where it: "p = Some a" "c \<le> d" "g a = Some it" "tk_entry it = e"
    "tk_delta it = d - c" "tm_seg g (tk_next it) d xs q c'" by auto
  show ?case
  proof (cases "xs = []")
    case True
    with it show ?thesis by (simp add: x)
  next
    case False
    have "distinct (map fst xs)" using Cons.prems(3) by simp
    from Cons.IH [OF it(6) False this] obtain li where
      "g (fst (last xs)) = Some li"
      "tm_seg (g(fst (last xs) := Some (li\<lparr>tk_next := r\<rparr>))) (tk_next it) d xs r c'" by blast
    moreover have "fst (last xs) \<noteq> a" using Cons.prems(3) False x by force
    moreover have l: "last (x # xs) = last xs" using False by simp
    ultimately have "(g(fst (last xs) := Some (li\<lparr>tk_next := r\<rparr>))) a = Some it" using it(3) by simp
    with it x \<open>tm_seg (g(fst (last xs) := _)) _ _ _ _ _\<close> \<open>g (fst (last xs)) = Some li\<close>
    show ?thesis unfolding l unfolding x tm_seg.simps by blast
  qed
qed simp

lemma tk_upd_get:
  assumes "tk_get t a = Some it"
  shows "\<exists>t'. tk_upd a f t = Some t' \<and> tk_get t' = (tk_get t)(a := Some (f it)) \<and>
    length (tm_heap t') = length (tm_heap t) \<and> tm_timers t' = tm_timers t \<and>
    tm_ntimers t' = tm_ntimers t \<and> tm_world t' = tm_world t"
  using assms by (auto simp: tk_upd_def tk_get_def fun_eq_iff split: if_splits)

lemma tk_free_get:
  assumes "tk_get t a = Some it"
  shows "\<exists>t'. tk_free a t = Some t' \<and> tk_get t' = (tk_get t)(a := None) \<and>
    length (tm_heap t') = length (tm_heap t) \<and> tm_timers t' = tm_timers t \<and>
    tm_ntimers t' = tm_ntimers t \<and> tm_world t' = tm_world t"
  using assms by (auto simp: tk_free_def tk_get_def fun_eq_iff split: if_splits)

lemma tk_get_fields [simp]:
  "tk_get (t\<lparr>tm_timers := p\<rparr>) = tk_get t" "tk_get (t\<lparr>tm_ntimers := n\<rparr>) = tk_get t"
  "tk_get (t\<lparr>tm_world := w\<rparr>) = tk_get t"
  by (simp_all add: tk_get_def fun_eq_iff)

lemma tk_get_malloc: "tk_get (t\<lparr>tm_heap := tm_heap t @ [Some it]\<rparr>) = (tk_get t)(length (tm_heap t) := Some it)"
  by (auto simp: tk_get_def fun_eq_iff nth_append)

lemma tk_get_fresh: "tk_get t a \<noteq> None \<Longrightarrow> a < length (tm_heap t)"
  by (auto simp: tk_get_def split: if_splits)

text \<open>
  The invariant: the list holds every timer that is allocated, apart from those of \<open>X\<close>, and nothing
  else. The deadlines are at most \<open>M\<close>. The periods are positive and at most \<open>2 ^ 31 - 2\<close>, and so are
  the deadlines between the ticks.
\<close>

definition tm_max :: int where "tm_max = 2 ^ 31 - 2"

definition tm_list ::
    "addr set \<Rightarrow> int \<Rightarrow> ('f, 'p, 'w) ape_timers \<Rightarrow> (addr \<times> int \<times> ('f, 'p) ticks_callback) list \<Rightarrow> bool" where
  "tm_list X M t xs \<longleftrightarrow>
     (\<exists>c'. tm_seg (tk_get t) (tm_timers t) 0 xs None c') \<and> distinct (map fst xs) \<and>
     {a. tk_get t a \<noteq> None} = X \<union> fst ` set xs \<and> X \<inter> fst ` set xs = {} \<and>
     (\<forall>(a, d, e)\<in>set xs. d \<le> M \<and> 1 \<le> tk_ticks_need e \<and> tk_ticks_need e \<le> tm_max)"

definition tm_within :: "int \<Rightarrow> ('f, 'p, 'w) ape_timers \<Rightarrow> ('f, 'p) schedule \<Rightarrow> bool" where
  "tm_within M t q \<longleftrightarrow> (\<exists>xs. tm_list {} M t xs \<and> map snd xs = q) \<and> (\<forall>x\<in>set q. 1 \<le> fst x)"

definition tm_ok :: "('f, 'p, 'w) ape_timers \<Rightarrow> ('f, 'p) schedule \<Rightarrow> bool" where
  "tm_ok t q \<longleftrightarrow> tm_within tm_max t q"

text \<open>A timer is put before the first with the same or a later deadline.\<close>

definition insert_due :: "int \<times> 'e \<Rightarrow> (int \<times> 'e) list \<Rightarrow> (int \<times> 'e) list" where
  "insert_due x q = takeWhile (\<lambda>y. fst y < fst x) q @ x # dropWhile (\<lambda>y. fst y < fst x) q"

section \<open>Adding\<close>

lemma add_timeout_loop_seg:
  assumes "tm_seg (tk_get t) p c xs None z" "tk_delta new = m - c" "c \<le> m" "m \<le> tm_max" "0 \<le> c"
    and "\<forall>(a, d, e)\<in>set xs. d \<le> tm_max"
  shows "\<exists>ys zs q b. xs = ys @ zs \<and> (\<forall>(a, d, e)\<in>set ys. d < m) \<and> (zs \<noteq> [] \<longrightarrow> m \<le> fst (snd (hd zs))) \<and>
    tm_seg (tk_get t) p c ys q b \<and> tm_seg (tk_get t) q b zs None z \<and> b \<le> m \<and>
    (let prev' = (if ys = [] then prev else Some (fst (last ys))) in
     case zs of
       [] \<Rightarrow> add_timeout_loop new prev p t = Some (new\<lparr>tk_delta := m - b\<rparr>, prev', t)
     | (a, d, e) # _ \<Rightarrow> \<exists>it t'. tk_get t a = Some it \<and>
         add_timeout_loop new prev p t = Some (new\<lparr>tk_delta := m - b, tk_next := Some a\<rparr>, prev', t') \<and>
         tk_upd a (\<lambda>it. it\<lparr>tk_delta := d - m\<rparr>) t = Some t')"
  using assms
proof (induction xs arbitrary: p c prev new)
  case Nil
  have "new\<lparr>tk_delta := m - c\<rparr> = new" using Nil.prems(2) by (metis ticks_callback.surjective ticks_callback.update_convs(2))
  with Nil show ?case by (simp add: add_timeout_loop.simps)
next
  case (Cons x xs)
  obtain a d e where x: "x = (a, d, e)" by (cases x)
  with Cons.prems(1) obtain it where it: "p = Some a" "c \<le> d" "tk_get t a = Some it" "tk_entry it = e"
    "tk_delta it = d - c" "tm_seg (tk_get t) (tk_next it) d xs None z" by auto
  have d: "d \<le> tm_max" using Cons.prems(6) x by simp
  show ?case
  proof (cases "m \<le> d")
    case True
    obtain t' where u: "tk_upd a (\<lambda>it. it\<lparr>tk_delta := d - m\<rparr>) t = Some t'" using tk_upd_get [OF it(3)] by blast
    moreover have "c_int (d - m) = Some (d - m)" using True d Cons.prems(3,4,5) by (simp add: c_int_def tm_max_def)
    ultimately have "add_timeout_loop new prev p t = Some (new\<lparr>tk_next := Some a\<rparr>, prev, t')"
      using True it(1,3,5) Cons.prems(2) by (subst add_timeout_loop.simps) simp
    moreover have "new\<lparr>tk_delta := m - c\<rparr> = new" using Cons.prems(2) by (metis ticks_callback.surjective ticks_callback.update_convs(2))
    then have "new\<lparr>tk_delta := m - c, tk_next := Some a\<rparr> = new\<lparr>tk_next := Some a\<rparr>" by simp
    ultimately have "\<exists>it t'. tk_get t a = Some it \<and>
        add_timeout_loop new prev p t = Some (new\<lparr>tk_delta := m - c, tk_next := Some a\<rparr>, prev, t') \<and>
        tk_upd a (\<lambda>it. it\<lparr>tk_delta := d - m\<rparr>) t = Some t'" using it(3) u by simp
    moreover have "tm_seg (tk_get t) p c (x # xs) None z" by (rule Cons.prems(1))
    ultimately show ?thesis using True Cons.prems(3)
      by (intro exI [of _ "[]"] exI [of _ "x # xs"] exI [of _ p] exI [of _ c]) (simp add: x)
  next
    case False
    have n: "tk_delta (new\<lparr>tk_delta := m - d\<rparr>) = m - d" by simp
    have "c_int (m - d) = Some (m - d)" using False Cons.prems it(2) by (simp add: c_int_def tm_max_def)
    then have l: "add_timeout_loop new prev p t = add_timeout_loop (new\<lparr>tk_delta := m - d\<rparr>) (Some a) (tk_next it) t"
      using False it(1,3,5) Cons.prems(2) by (subst add_timeout_loop.simps) simp
    have r: "new\<lparr>tk_delta := m - d\<rparr>\<lparr>tk_delta := y\<rparr> = new\<lparr>tk_delta := y\<rparr>" for y by simp
    have m: "d \<le> m" "0 \<le> d" using False Cons.prems(5) it(2) by simp_all
    have dues: "\<forall>(a, d, e)\<in>set xs. d \<le> tm_max" using Cons.prems(6) by simp
    obtain ys zs q b where ih: "xs = ys @ zs" "\<forall>(a, d, e)\<in>set ys. d < m" "zs \<noteq> [] \<longrightarrow> m \<le> fst (snd (hd zs))"
      "tm_seg (tk_get t) (tk_next it) d ys q b" "tm_seg (tk_get t) q b zs None z" "b \<le> m"
      "let prev' = (if ys = [] then Some a else Some (fst (last ys))) in
       case zs of
         [] \<Rightarrow> add_timeout_loop new prev p t = Some (new\<lparr>tk_delta := m - b\<rparr>, prev', t)
       | (a, d, e) # _ \<Rightarrow> \<exists>it t'. tk_get t a = Some it \<and>
           add_timeout_loop new prev p t = Some (new\<lparr>tk_delta := m - b, tk_next := Some a\<rparr>, prev', t') \<and>
           tk_upd a (\<lambda>it. it\<lparr>tk_delta := d - m\<rparr>) t = Some t'"
      using Cons.IH [OF it(6) n _ Cons.prems(4) _ dues, of "Some a"] m unfolding l r by blast
    have e: "(if x # ys = [] then prev else Some (fst (last (x # ys)))) =
        (if ys = [] then Some a else Some (fst (last ys)))" by (simp add: x)
    have "tm_seg (tk_get t) p c (x # ys) q b" using it ih(4) by (simp add: x)
    moreover have "\<forall>(a, d, e)\<in>set (x # ys). d < m" using ih(2) False by (simp add: x)
    moreover have "x # xs = (x # ys) @ zs" using ih(1) by simp
    ultimately show ?thesis using ih(3,5,6,7) unfolding e [symmetric] by blast
  qed
qed

definition new_entry :: "u32 \<Rightarrow> 'f \<Rightarrow> 'p \<Rightarrow> u32 \<Rightarrow> ('f, 'p) ticks_callback" where
  "new_entry msec callback params identifier =
     \<lparr>tk_ticks_need = sint msec, tk_delta = 0, tk_times = 1, tk_identifier = identifier, tk_protect = 1,
      tk_func = callback, tk_params = params, tk_next = None\<rparr>"

text \<open>A new timer is in the heap; the one before it, if any, is made to point at it.\<close>

lemma tm_link:
  assumes "tm_seg g p 0 ys q b" "tm_seg g q b zs None z" "distinct (map fst (ys @ zs))"
    and "n \<notin> fst ` set (ys @ zs)" "b \<le> m" "zs \<noteq> [] \<longrightarrow> m \<le> fst (snd (hd zs))"
    and h: "\<And>a. a \<notin> fst ` set (take 1 zs) \<Longrightarrow> a \<noteq> n \<Longrightarrow> h a = g a"
    and n: "h n = Some it" "tk_delta it = m - b" "tk_next it = q"
    and hd: "case zs of [] \<Rightarrow> True | (a, d, e) # _ \<Rightarrow> \<exists>ai. g a = Some ai \<and> h a = Some (ai\<lparr>tk_delta := d - m\<rparr>)"
  shows "if ys = [] then \<exists>z. tm_seg h (Some n) 0 ((n, m, tk_entry it) # zs) None z
    else \<exists>li z. h (fst (last ys)) = Some li \<and>
      tm_seg (h(fst (last ys) := Some (li\<lparr>tk_next := Some n\<rparr>))) p 0 (ys @ (n, m, tk_entry it) # zs) None z"
proof -
  have zs: "\<exists>z. tm_seg h q m zs None z"
  proof (cases zs)
    case Nil
    with assms(2) show ?thesis by simp
  next
    case (Cons x zs')
    obtain a d e where x: "x = (a, d, e)" by (cases x)
    with Cons hd obtain ai where ai: "g a = Some ai" "h a = Some (ai\<lparr>tk_delta := d - m\<rparr>)" by auto
    have "tm_seg h (tk_next ai) d zs' None z = tm_seg g (tk_next ai) d zs' None z"
      by (rule tm_seg_cong, rule h) (use assms(3,4) Cons x in \<open>auto simp: image_iff\<close>)
    with assms(2,6) ai Cons x show ?thesis by auto
  qed
  have new: "\<exists>z. tm_seg h (Some n) b ((n, m, tk_entry it) # zs) None z"
    using zs n assms(5) by auto
  show ?thesis
  proof (cases "ys = []")
    case True
    then have "b = 0" using assms(1) by simp
    with True new show ?thesis by (simp del: tm_seg.simps)
  next
    case False
    let ?l = "fst (last ys)"
    have l: "?l \<in> fst ` set ys" using False by simp
    have ys: "tm_seg h p 0 ys q b = tm_seg g p 0 ys q b"
      by (rule tm_seg_cong, rule h) (use assms(3,4) in \<open>cases zs; auto simp: image_iff\<close>)+
    have d: "distinct (map fst ys)" using assms(3) by simp
    obtain li where li: "h ?l = Some li" "tm_seg (h(?l := Some (li\<lparr>tk_next := Some n\<rparr>))) p 0 ys (Some n) b"
      using tm_seg_relink [of h p 0 ys q b] ys assms(1) False d by blast
    have "tm_seg (h(?l := Some (li\<lparr>tk_next := Some n\<rparr>))) (Some n) b ((n, m, tk_entry it) # zs) None z' =
        tm_seg h (Some n) b ((n, m, tk_entry it) # zs) None z'" for z'
      by (rule tm_seg_cong) (use l assms(3,4) in \<open>auto simp: image_iff\<close>)
    with new li False show ?thesis unfolding tm_seg_append by auto
  qed
qed

lemma add_timeout_list:
  assumes t: "tm_list X tm_max t xs" and m: "1 \<le> sint msec" "sint msec \<le> tm_max"
  shows "\<exists>ys zs t'. add_timeout msec f p t = Some (length (tm_heap t), t') \<and> xs = ys @ zs \<and>
    (\<forall>(a, d, e)\<in>set ys. d < sint msec) \<and> (zs \<noteq> [] \<longrightarrow> sint msec \<le> fst (snd (hd zs))) \<and>
    tm_list X tm_max t' (ys @ (length (tm_heap t), sint msec, new_entry msec f p (tm_ntimers t)) # zs) \<and>
    tm_ntimers t' = tm_ntimers t + 1 \<and> tm_world t' = tm_world t \<and> (\<forall>x\<in>X. tk_get t' x = tk_get t x)"
proof -
  let ?n = "length (tm_heap t)" and ?m = "sint msec"
  let ?new = "(new_entry msec f p (tm_ntimers t))\<lparr>tk_delta := ?m\<rparr>"
  from t obtain c' where xs: "tm_seg (tk_get t) (tm_timers t) 0 xs None c'" and d: "distinct (map fst xs)"
    and live: "{a. tk_get t a \<noteq> None} = X \<union> fst ` set xs" "X \<inter> fst ` set xs = {}"
    and b: "\<forall>(a, d, e)\<in>set xs. d \<le> tm_max \<and> 1 \<le> tk_ticks_need e \<and> tk_ticks_need e \<le> tm_max"
    by (auto simp: tm_list_def)
  have "\<forall>(a, d, e)\<in>set xs. d \<le> tm_max" using b by auto
  from add_timeout_loop_seg [OF xs, of ?new ?m None, OF _ _ m(2) _ this] m(1)
  obtain ys zs q b where l: "xs = ys @ zs" "\<forall>(a, d, e)\<in>set ys. d < ?m" "zs \<noteq> [] \<longrightarrow> ?m \<le> fst (snd (hd zs))"
    "tm_seg (tk_get t) (tm_timers t) 0 ys q b" "tm_seg (tk_get t) q b zs None c'" "b \<le> ?m"
    and r: "let prev' = (if ys = [] then None else Some (fst (last ys))) in
     case zs of
       [] \<Rightarrow> add_timeout_loop ?new None (tm_timers t) t = Some (?new\<lparr>tk_delta := ?m - b\<rparr>, prev', t)
     | (a, d, e) # _ \<Rightarrow> \<exists>it t'. tk_get t a = Some it \<and>
         add_timeout_loop ?new None (tm_timers t) t = Some (?new\<lparr>tk_delta := ?m - b, tk_next := Some a\<rparr>, prev', t') \<and>
         tk_upd a (\<lambda>it. it\<lparr>tk_delta := d - ?m\<rparr>) t = Some t'"
    by auto
  have fresh: "?n \<notin> X \<union> fst ` set xs" using live(1) tk_get_fresh [of t] by blast
  let ?prev = "if ys = [] then None else Some (fst (last ys))"
  obtain it t1 where loop: "add_timeout_loop ?new None (tm_timers t) t = Some (it, ?prev, t1)"
    and it: "tk_entry it = new_entry msec f p (tm_ntimers t)" "tk_delta it = ?m - b" "tk_next it = q"
    and g1: "\<And>a. a \<notin> fst ` set (take 1 zs) \<Longrightarrow> tk_get t1 a = tk_get t a" "length (tm_heap t1) = ?n"
      "tm_timers t1 = tm_timers t" "tm_ntimers t1 = tm_ntimers t" "tm_world t1 = tm_world t"
      "{a. tk_get t1 a \<noteq> None} = {a. tk_get t a \<noteq> None}"
    and hd: "case zs of [] \<Rightarrow> True | (a, d, e) # _ \<Rightarrow>
      \<exists>ai. tk_get t a = Some ai \<and> tk_get t1 a = Some (ai\<lparr>tk_delta := d - ?m\<rparr>)"
  proof (cases zs)
    case Nil
    with r l(5) that [of "?new\<lparr>tk_delta := ?m - b\<rparr>" t] show ?thesis
      by (simp add: new_entry_def tk_entry_def)
  next
    case (Cons z zs')
    obtain a d e where z: "z = (a, d, e)" by (cases z)
    with r Cons obtain ai t' where ai: "tk_get t a = Some ai"
      "add_timeout_loop ?new None (tm_timers t) t = Some (?new\<lparr>tk_delta := ?m - b, tk_next := Some a\<rparr>, ?prev, t')"
      "tk_upd a (\<lambda>it. it\<lparr>tk_delta := d - ?m\<rparr>) t = Some t'" by (auto simp: Let_def)
    have q: "q = Some a" using l(5) Cons z by simp
    have g: "tk_get t' = (tk_get t)(a := Some (ai\<lparr>tk_delta := d - ?m\<rparr>))" "length (tm_heap t') = ?n"
      "tm_timers t' = tm_timers t" "tm_ntimers t' = tm_ntimers t" "tm_world t' = tm_world t"
      using tk_upd_get [OF ai(1), of "\<lambda>it. it\<lparr>tk_delta := d - ?m\<rparr>"] ai(3) by auto
    then have "{a. tk_get t' a \<noteq> None} = {a. tk_get t a \<noteq> None}" using ai(1) by auto
    with that [OF ai(2), of] g ai(1) q Cons z show ?thesis
      by (simp add: new_entry_def tk_entry_def)
  qed
  let ?t2 = "t1\<lparr>tm_heap := tm_heap t1 @ [Some it]\<rparr>"
  have g2: "tk_get ?t2 = (tk_get t1)(?n := Some it)" using tk_get_malloc [of t1 it] g1(2) by simp
  have h: "tk_get ?t2 a = tk_get t a" if "a \<notin> fst ` set (take 1 zs)" "a \<noteq> ?n" for a using g1(1) that by (simp add: g2)
  have hd2: "case zs of [] \<Rightarrow> True | (a, d, e) # _ \<Rightarrow>
      \<exists>ai. tk_get t a = Some ai \<and> tk_get ?t2 a = Some (ai\<lparr>tk_delta := d - ?m\<rparr>)"
    using hd fresh l(1) by (cases zs) (auto simp: g2)
  have lnk: "if ys = [] then \<exists>z. tm_seg (tk_get ?t2) (Some ?n) 0 ((?n, ?m, tk_entry it) # zs) None z
    else \<exists>li z. tk_get ?t2 (fst (last ys)) = Some li \<and>
      tm_seg ((tk_get ?t2)(fst (last ys) := Some (li\<lparr>tk_next := Some ?n\<rparr>))) (tm_timers t) 0 (ys @ (?n, ?m, tk_entry it) # zs) None z"
    by (rule tm_link [OF l(4,5) _ _ l(6,3) h _ it(2,3) hd2]) (use d l(1) fresh in \<open>auto simp: g2\<close>)
  have X2: "tk_get ?t2 x = tk_get t x" "x \<notin> fst ` set ys" if "x \<in> X" for x
  proof -
    have x: "x \<notin> fst ` set xs" "x \<noteq> ?n" using that live(2) fresh by auto
    moreover have "fst ` set (take 1 zs) \<subseteq> fst ` set xs" using set_take_subset [of 1 zs] l(1) by auto
    ultimately have "x \<notin> fst ` set (take 1 zs)" "x \<noteq> ?n" by blast+
    from h [OF this] show "tk_get ?t2 x = tk_get t x" .
    show "x \<notin> fst ` set ys" using x l(1) by auto
  qed
  obtain t3 where t3: "(case ?prev of Some p \<Rightarrow> tk_upd p (\<lambda>it. it\<lparr>tk_next := Some ?n\<rparr>) ?t2
      | None \<Rightarrow> Some (?t2\<lparr>tm_timers := Some ?n\<rparr>)) = Some t3"
    "\<exists>z. tm_seg (tk_get t3) (tm_timers t3) 0 (ys @ (?n, ?m, tk_entry it) # zs) None z"
    "tm_ntimers t3 = tm_ntimers t" "tm_world t3 = tm_world t"
    "{a. tk_get t3 a \<noteq> None} = insert ?n {a. tk_get t a \<noteq> None}" "\<forall>x\<in>X. tk_get t3 x = tk_get t x"
  proof (cases "ys = []")
    case True
    have "{a. tk_get (?t2\<lparr>tm_timers := Some ?n\<rparr>) a \<noteq> None} = insert ?n {a. tk_get t a \<noteq> None}"
      using g1(6) by (auto simp: g2)
    with True lnk g1 X2 show ?thesis by (intro that [of "?t2\<lparr>tm_timers := Some ?n\<rparr>"]) (simp_all del: tm_seg.simps)
  next
    case False
    with lnk obtain li z where li: "tk_get ?t2 (fst (last ys)) = Some li"
      "tm_seg ((tk_get ?t2)(fst (last ys) := Some (li\<lparr>tk_next := Some ?n\<rparr>))) (tm_timers t) 0 (ys @ (?n, ?m, tk_entry it) # zs) None z"
      by auto
    obtain t3 where t3: "tk_upd (fst (last ys)) (\<lambda>it. it\<lparr>tk_next := Some ?n\<rparr>) ?t2 = Some t3"
      "tk_get t3 = (tk_get ?t2)(fst (last ys) := Some (li\<lparr>tk_next := Some ?n\<rparr>))"
      "tm_timers t3 = tm_timers ?t2" "tm_ntimers t3 = tm_ntimers ?t2" "tm_world t3 = tm_world ?t2"
      using tk_upd_get [OF li(1), of "\<lambda>it. it\<lparr>tk_next := Some ?n\<rparr>"] by blast
    have "{a. tk_get t3 a \<noteq> None} = {a. tk_get ?t2 a \<noteq> None}" unfolding t3(2) using li(1) by auto
    also have "\<dots> = insert ?n {a. tk_get t a \<noteq> None}" using g1(6) by (auto simp: g2)
    finally have live3: "{a. tk_get t3 a \<noteq> None} = insert ?n {a. tk_get t a \<noteq> None}" .
    have "\<exists>z. tm_seg (tk_get t3) (tm_timers t3) 0 (ys @ (?n, ?m, tk_entry it) # zs) None z"
      using li(2) g1(3) unfolding t3(2,3) by auto
    moreover have "\<forall>x\<in>X. tk_get t3 x = tk_get t x" using X2 False unfolding t3(2) by fastforce
    moreover have "tm_ntimers t3 = tm_ntimers t" "tm_world t3 = tm_world t" using t3(4,5) g1(4,5) by simp_all
    ultimately show ?thesis
      by (intro that [of t3]) (use t3(1) False live3 in \<open>simp_all only: if_False option.case\<close>)
  qed
  have "tm_list X tm_max (t3\<lparr>tm_ntimers := tm_ntimers t3 + 1\<rparr>) (ys @ (?n, ?m, tk_entry it) # zs)"
    using t3(2,5) live fresh d b l(1) m by (auto simp: tm_list_def it(1) new_entry_def)
  moreover have "add_timeout msec f p t = Some (?n, t3\<lparr>tm_ntimers := tm_ntimers t3 + 1\<rparr>)"
    using loop t3(1) g1(2) by (simp add: add_timeout_def new_entry_def)
  ultimately show ?thesis using l t3(3,4,6) it(1) by (intro exI [of _ ys] exI [of _ zs] exI) auto
qed

section \<open>Callbacks\<close>

text \<open>
  What a callback usually does: it changes the rest of the state, adds timers, and answers whether
  this was its last call. \<open>act\<close> is the callback's code: the answer, the new rest of the state, and
  the timers to add (period, number of calls, function, argument).
\<close>

type_synonym ('f, 'p, 'w) timer_act =
  "'f \<Rightarrow> 'p \<Rightarrow> int \<Rightarrow> 'w \<Rightarrow> int \<times> 'w \<times> (u32 \<times> int \<times> 'f \<times> 'p) list"

primrec add_all :: "(u32 \<times> int \<times> 'f \<times> 'p) list \<Rightarrow> ('f, 'p, 'w) ape_timers \<Rightarrow> ('f, 'p, 'w) ape_timers option" where
  "add_all [] t = Some t"
| "add_all (x # xs) t =
     (case x of (msec, n, f, p) \<Rightarrow> Option.bind (add_periodical msec n f p t) (\<lambda>(_, t). add_all xs t))"

definition adding_callback :: "('f, 'p, 'w) timer_act \<Rightarrow> ('f, 'p, 'w) timer_call" where
  "adding_callback act f p lastcall t =
     (case act f p lastcall (tm_world t) of
        (lastcall, w, new) \<Rightarrow> map_option (Pair lastcall) (add_all new (t\<lparr>tm_world := w\<rparr>)))"

definition period_ok :: "u32 \<Rightarrow> bool" where
  "period_ok msec \<longleftrightarrow> 1 \<le> sint msec \<and> sint msec \<le> tm_max"

definition act_ok :: "('f, 'p, 'w) timer_act \<Rightarrow> bool" where
  "act_ok act \<longleftrightarrow> (\<forall>f p l w. \<forall>x\<in>set (snd (snd (act f p l w))). period_ok (fst x))"

text \<open>The same on schedules: the counter of identifiers, and the schedule.\<close>

fun sched_add ::
    "u32 \<times> ('f, 'p) schedule \<Rightarrow> u32 \<times> int \<times> 'f \<times> 'p \<Rightarrow> u32 \<times> ('f, 'p) schedule" where
  "sched_add (k, q) (msec, n, f, p) =
     (k + 1, insert_due (sint msec, (new_entry msec f p k)\<lparr>tk_times := n\<rparr>) q)"

lemma insert_due_split:
  "\<forall>y\<in>set ys. fst y < fst x \<Longrightarrow> (zs \<noteq> [] \<longrightarrow> fst x \<le> fst (hd zs)) \<Longrightarrow> insert_due x (ys @ zs) = ys @ x # zs"
  by (cases zs) (simp_all add: insert_due_def)

lemma insert_due_prefix: "\<forall>y\<in>set ys. fst y < fst x \<Longrightarrow> insert_due x (ys @ zs) = ys @ insert_due x zs"
  by (simp add: insert_due_def)

lemma set_insert_due: "set (insert_due x q) = insert x (set q)"
  unfolding insert_due_def using takeWhile_dropWhile_id [of "\<lambda>y. fst y < fst x" q]
  by (metis (no_types, lifting) Un_insert_right list.simps(15) set_append)

text \<open>The entry of a cell is changed.\<close>

lemma tm_list_entry:
  assumes t: "tm_list X M t (ys @ (a, d, e) # zs)"
    and f: "\<And>it. tk_delta (f it) = tk_delta it \<and> tk_next (f it) = tk_next it \<and>
      tk_ticks_need (f it) = tk_ticks_need it \<and> tk_entry (f it) = f (tk_entry it)"
  shows "\<exists>t'. tk_upd a f t = Some t' \<and> tm_list X M t' (ys @ (a, d, f e) # zs) \<and>
    tm_timers t' = tm_timers t \<and> tm_ntimers t' = tm_ntimers t \<and> tm_world t' = tm_world t"
proof -
  from t obtain c' where s: "tm_seg (tk_get t) (tm_timers t) 0 (ys @ (a, d, e) # zs) None c'"
    and d: "distinct (map fst (ys @ (a, d, e) # zs))" by (auto simp: tm_list_def)
  then obtain b it where it: "tm_seg (tk_get t) (tm_timers t) 0 ys (Some a) b" "b \<le> d" "tk_get t a = Some it"
    "tk_entry it = e" "tk_delta it = d - b" "tm_seg (tk_get t) (tk_next it) d zs None c'"
    unfolding tm_seg_append by auto
  obtain t' where t': "tk_upd a f t = Some t'" "tk_get t' = (tk_get t)(a := Some (f it))"
    "tm_timers t' = tm_timers t" "tm_ntimers t' = tm_ntimers t" "tm_world t' = tm_world t"
    using tk_upd_get [OF it(3)] by blast
  have "tm_seg (tk_get t') (tm_timers t) 0 ys (Some a) b = tm_seg (tk_get t) (tm_timers t) 0 ys (Some a) b"
    by (rule tm_seg_cong) (use d in \<open>auto simp: t'(2) image_iff\<close>)
  moreover have "tm_seg (tk_get t') (tk_next it) d zs None c' = tm_seg (tk_get t) (tk_next it) d zs None c'"
    by (rule tm_seg_cong) (use d in \<open>auto simp: t'(2) image_iff\<close>)
  moreover have "tk_get t' a = Some (f it)" by (simp add: t'(2))
  ultimately have "tm_seg (tk_get t') (tm_timers t') 0 (ys @ (a, d, f e) # zs) None c'"
    using it f unfolding tm_seg_append t'(3) by auto
  moreover have "{a. tk_get t' a \<noteq> None} = {a. tk_get t a \<noteq> None}" using it(3) by (auto simp: t'(2))
  moreover have "tk_ticks_need (f e) = tk_ticks_need e" using f by blast
  ultimately have "tm_list X M t' (ys @ (a, d, f e) # zs)" using t by (auto simp: tm_list_def)
  with t' show ?thesis by blast
qed

lemma sched_split:
  assumes "xs = ys @ zs" "\<forall>(a, d, e)\<in>set ys. d < m" "zs \<noteq> [] \<longrightarrow> m \<le> fst (snd (hd zs))"
  shows "map snd (ys @ (a, m, e) # zs) = insert_due (m, e) (map snd xs)"
proof -
  have "insert_due (m, e) (map snd ys @ map snd zs) = map snd ys @ (m, e) # map snd zs"
    by (rule insert_due_split) (use assms in \<open>auto simp: hd_map\<close>)
  with assms(1) show ?thesis by simp
qed

lemma add_periodical_list:
  assumes t: "tm_list X tm_max t xs" and m: "period_ok msec"
  shows "\<exists>ys zs t'. add_periodical msec n f p t = Some (length (tm_heap t), t') \<and> xs = ys @ zs \<and>
    (\<forall>(a, d, e)\<in>set ys. d < sint msec) \<and> (zs \<noteq> [] \<longrightarrow> sint msec \<le> fst (snd (hd zs))) \<and>
    tm_list X tm_max t' (ys @ (length (tm_heap t), sint msec, (new_entry msec f p (tm_ntimers t))\<lparr>tk_times := n\<rparr>) # zs) \<and>
    tm_ntimers t' = tm_ntimers t + 1 \<and> tm_world t' = tm_world t"
proof -
  obtain ys zs t1 where r: "add_timeout msec f p t = Some (length (tm_heap t), t1)" "xs = ys @ zs"
    "\<forall>(a, d, e)\<in>set ys. d < sint msec" "zs \<noteq> [] \<longrightarrow> sint msec \<le> fst (snd (hd zs))"
    "tm_list X tm_max t1 (ys @ (length (tm_heap t), sint msec, new_entry msec f p (tm_ntimers t)) # zs)"
    "tm_ntimers t1 = tm_ntimers t + 1" "tm_world t1 = tm_world t"
    using add_timeout_list [OF t] m unfolding period_ok_def by blast
  obtain t2 where "tk_upd (length (tm_heap t)) (\<lambda>it. it\<lparr>tk_times := n\<rparr>) t1 = Some t2"
    "tm_list X tm_max t2 (ys @ (length (tm_heap t), sint msec, (new_entry msec f p (tm_ntimers t))\<lparr>tk_times := n\<rparr>) # zs)"
    "tm_ntimers t2 = tm_ntimers t1" "tm_world t2 = tm_world t1"
    using tm_list_entry [OF r(5), of "\<lambda>it. it\<lparr>tk_times := n\<rparr>"] by auto
  with r show ?thesis by (intro exI [of _ ys] exI [of _ zs] exI [of _ t2]) (simp add: add_periodical_def)
qed

text \<open>Timers that are added while the timer at the front is due: it stays at the front.\<close>

lemma add_all_list:
  assumes "tm_list {} tm_max t ((a, 0, e) # xs)" "\<forall>x\<in>set new. period_ok (fst x)"
  shows "\<exists>t' xs'. add_all new t = Some t' \<and> tm_list {} tm_max t' ((a, 0, e) # xs') \<and> tm_world t' = tm_world t \<and>
    foldl sched_add (tm_ntimers t, map snd xs) new = (tm_ntimers t', map snd xs')"
  using assms
proof (induction new arbitrary: t xs)
  case (Cons x new)
  obtain msec n f p where x: "x = (msec, n, f, p)" by (cases x)
  with Cons.prems(2) have m: "period_ok msec" by simp
  obtain ys zs t1 where t1: "add_periodical msec n f p t = Some (length (tm_heap t), t1)" "(a, 0, e) # xs = ys @ zs"
    "\<forall>(a, d, e)\<in>set ys. d < sint msec" "zs \<noteq> [] \<longrightarrow> sint msec \<le> fst (snd (hd zs))"
    "tm_list {} tm_max t1 (ys @ (length (tm_heap t), sint msec, (new_entry msec f p (tm_ntimers t))\<lparr>tk_times := n\<rparr>) # zs)"
    "tm_ntimers t1 = tm_ntimers t + 1" "tm_world t1 = tm_world t"
    using add_periodical_list [OF Cons.prems(1) m] by blast
  then obtain ys' where ys: "ys = (a, 0, e) # ys'" "xs = ys' @ zs"
    using m by (cases ys) (auto simp: period_ok_def)
  let ?e = "(new_entry msec f p (tm_ntimers t))\<lparr>tk_times := n\<rparr>"
  have q: "map snd (ys' @ (length (tm_heap t), sint msec, ?e) # zs) = insert_due (sint msec, ?e) (map snd xs)"
    by (rule sched_split [OF ys(2) _ t1(4)]) (use t1(3) ys(1) in simp)
  have "\<forall>x\<in>set new. period_ok (fst x)" using Cons.prems(2) by simp
  moreover have "tm_list {} tm_max t1 ((a, 0, e) # ys' @ (length (tm_heap t), sint msec, ?e) # zs)"
    using t1(5) ys(1) by simp
  ultimately obtain t' xs' where "add_all new t1 = Some t'" "tm_list {} tm_max t' ((a, 0, e) # xs')"
    "tm_world t' = tm_world t1"
    "foldl sched_add (tm_ntimers t1, map snd (ys' @ (length (tm_heap t), sint msec, ?e) # zs)) new = (tm_ntimers t', map snd xs')"
    using Cons.IH by blast
  with t1(1,6,7) show ?case unfolding q x by (intro exI [of _ t'] exI [of _ xs']) simp
qed auto

section \<open>A tick\<close>

lemma tm_list_fields [simp]:
  "tm_list X M (t\<lparr>tm_world := w\<rparr>) xs = tm_list X M t xs"
  "tm_list X M (t\<lparr>tm_ntimers := n\<rparr>) xs = tm_list X M t xs"
  by (simp_all add: tm_list_def)

lemma tm_list_mono: "tm_list X M t xs \<Longrightarrow> M \<le> N \<Longrightarrow> tm_list X N t xs"
  by (fastforce simp: tm_list_def)

lemma tm_list_head:
  assumes "tm_list X M t ((a, d, e) # xs)"
  shows "tm_timers t = Some a \<and> 0 \<le> d \<and>
    (\<exists>it. tk_get t a = Some it \<and> tk_entry it = e \<and> tk_delta it = d)"
  using assms by (auto simp: tm_list_def)

text \<open>All deadlines are moved by moving the first.\<close>

definition tm_shift :: "int \<Rightarrow> (int \<times> 'e) list \<Rightarrow> (int \<times> 'e) list" where
  "tm_shift k = map (\<lambda>(d, e). (d + k, e))"

lemma tm_shift_simps [simp]:
  "tm_shift k [] = []" "tm_shift k (x # q) = (fst x + k, snd x) # tm_shift k q"
  "tm_shift k (q @ r) = tm_shift k q @ tm_shift k r" "tm_shift k (tm_shift l q) = tm_shift (k + l) q"
  "tm_shift 0 q = q" "length (tm_shift k q) = length q" "map snd (tm_shift k q) = map snd q"
  by (auto simp: tm_shift_def split: prod.splits)

lemma tm_seg_shift:
  "tm_seg g p c xs q c' \<Longrightarrow> tm_seg g p (c + k) (map (\<lambda>(a, d, e). (a, d + k, e)) xs) q (c' + k)"
  by (induction g p c xs q c' rule: tm_seg.induct) auto

lemma tm_list_bump:
  assumes t: "tm_list X M t ((a, d, e) # xs)" and k: "0 \<le> d + k" "M + k \<le> N"
  shows "\<exists>t'. tk_upd a (\<lambda>it. it\<lparr>tk_delta := d + k\<rparr>) t = Some t' \<and>
    tm_list X N t' (map (\<lambda>(a, d, e). (a, d + k, e)) ((a, d, e) # xs)) \<and>
    tm_timers t' = tm_timers t \<and> tm_ntimers t' = tm_ntimers t \<and> tm_world t' = tm_world t"
proof -
  from t obtain c' it where p: "tm_timers t = Some a" and it: "tk_get t a = Some it" "tk_entry it = e" "tk_delta it = d"
    "0 \<le> d" "tm_seg (tk_get t) (tk_next it) d xs None c'" and d: "distinct (map fst ((a, d, e) # xs))"
    by (auto simp: tm_list_def)
  obtain t' where t': "tk_upd a (\<lambda>it. it\<lparr>tk_delta := d + k\<rparr>) t = Some t'"
    "tk_get t' = (tk_get t)(a := Some (it\<lparr>tk_delta := d + k\<rparr>))"
    "tm_timers t' = tm_timers t" "tm_ntimers t' = tm_ntimers t" "tm_world t' = tm_world t"
    using tk_upd_get [OF it(1), of "\<lambda>it. it\<lparr>tk_delta := d + k\<rparr>"] by blast
  let ?xs = "map (\<lambda>(a, d, e). (a, d + k, e)) xs"
  have fst: "fst ` set ?xs = fst ` set xs" "map fst ?xs = map fst xs" by (force split: prod.splits)+
  have "tm_seg (tk_get t') (tk_next it) (d + k) ?xs None (c' + k) = tm_seg (tk_get t) (tk_next it) (d + k) ?xs None (c' + k)"
    by (rule tm_seg_cong) (use d fst(1) in \<open>auto simp: t'(2)\<close>)
  with tm_seg_shift [OF it(5), of k] have "tm_seg (tk_get t') (tk_next it) (d + k) ?xs None (c' + k)" by simp
  moreover have "tk_get t' a = Some (it\<lparr>tk_delta := d + k\<rparr>)" by (simp add: t'(2))
  ultimately have seg: "tm_seg (tk_get t') (tm_timers t') 0 ((a, d + k, e) # ?xs) None (c' + k)"
    using k(1) it(2) p by (simp add: t'(3))
  have live: "{a. tk_get t' a \<noteq> None} = X \<union> fst ` set ((a, d, e) # xs)" "X \<inter> fst ` set ((a, d, e) # xs) = {}"
    using t it(1) by (auto simp: t'(2) tm_list_def)
  have bnd: "\<forall>(a, d, e)\<in>set ((a, d + k, e) # ?xs). d \<le> N \<and> 1 \<le> tk_ticks_need e \<and> tk_ticks_need e \<le> tm_max"
    using t k(2) by (auto simp: tm_list_def)
  have fst': "fst ` set ((a, d + k, e) # ?xs) = fst ` set ((a, d, e) # xs)" "map fst ((a, d + k, e) # ?xs) = map fst ((a, d, e) # xs)"
    using fst by simp_all
  have "tm_list X N t' ((a, d + k, e) # ?xs)"
    unfolding tm_list_def fst' by (intro conjI exI) (fact seg d live bnd)+
  with t' show ?thesis by auto
qed

text \<open>The calls of a tick, one after the other.\<close>

definition times_left :: "('f, 'p) ticks_callback \<Rightarrow> int" where
  "times_left e = (if 0 < tk_times e then tk_times e - 1 else tk_times e)"

fun tick_run ::
    "('f, 'p, 'w) timer_act \<Rightarrow> ('f, 'p) ticks_callback list \<Rightarrow> u32 \<times> 'w \<times> ('f, 'p) schedule \<Rightarrow>
     u32 \<times> 'w \<times> ('f, 'p) schedule" where
  "tick_run act [] s = s"
| "tick_run act (e # es) (k, w, q) =
     (let (lastcall, w, new) = act (tk_func e) (tk_params e) (if tk_times e = 1 then 1 else 0) w;
          (k, q) = foldl sched_add (k, q) new;
          q = (if lastcall = 0 then insert_due (tk_ticks_need e, e\<lparr>tk_times := times_left e\<rparr>) q else q)
      in tick_run act es (k, w, q))"

lemma tick_again_list:
  assumes t: "tm_list {a} tm_max t xs" and it: "tk_get t a = Some it" "1 \<le> tk_ticks_need it" "tk_ticks_need it \<le> tm_max"
  shows "\<exists>t' xs'. tick_again a t = Some t' \<and> tm_list {a} tm_max t' xs' \<and> tm_ntimers t' = tm_ntimers t \<and>
    tm_world t' = tm_world t \<and> map snd xs' = insert_due (tk_ticks_need it, tk_entry it) (map snd xs)"
proof -
  let ?m = "word_of_int (tk_ticks_need it) :: u32" and ?n = "length (tm_heap t)"
  have m: "sint ?m = tk_ticks_need it"
    using it(2,3) by (simp add: tm_max_def signed_of_int signed_take_bit_int_eq_self)
  obtain ys zs t1 where r: "add_timeout ?m (tk_func it) (tk_params it) t = Some (?n, t1)" "xs = ys @ zs"
    "\<forall>(a, d, e)\<in>set ys. d < tk_ticks_need it" "zs \<noteq> [] \<longrightarrow> tk_ticks_need it \<le> fst (snd (hd zs))"
    "tm_list {a} tm_max t1 (ys @ (?n, tk_ticks_need it, new_entry ?m (tk_func it) (tk_params it) (tm_ntimers t)) # zs)"
    "tm_ntimers t1 = tm_ntimers t + 1" "tm_world t1 = tm_world t" "tk_get t1 a = tk_get t a"
    using add_timeout_list [OF t, of ?m] it(2,3) unfolding m by blast
  let ?f = "\<lambda>new :: ('a, 'b) ticks_callback.
    new\<lparr>tk_identifier := tk_identifier it, tk_times := tk_times it, tk_protect := tk_protect it\<rparr>"
  obtain t2 where t2: "tk_upd ?n ?f t1 = Some t2"
    "tm_list {a} tm_max t2 (ys @ (?n, tk_ticks_need it, ?f (new_entry ?m (tk_func it) (tk_params it) (tm_ntimers t))) # zs)"
    "tm_world t2 = tm_world t1"
    using tm_list_entry [OF r(5), of ?f] by (auto simp: tk_entry_def)
  have e: "?f (new_entry ?m (tk_func it) (tk_params it) (tm_ntimers t)) = tk_entry it"
    unfolding new_entry_def m tk_entry_def by simp
  have "tk_upd ?n ?f (t1\<lparr>tm_ntimers := tm_ntimers t\<rparr>) = Some (t2\<lparr>tm_ntimers := tm_ntimers t\<rparr>)"
    using t2(1) by (auto simp: tk_upd_def split: option.splits)
  then have "tick_again a t = Some (t2\<lparr>tm_ntimers := tm_ntimers t\<rparr>)"
    using it(1) r(1,6,8) by (simp add: tick_again_def)
  moreover have "map snd (ys @ (?n, tk_ticks_need it, tk_entry it) # zs) = insert_due (tk_ticks_need it, tk_entry it) (map snd xs)"
    by (rule sched_split [OF r(2,3,4)])
  ultimately show ?thesis using t2(2,3) r(7) unfolding e by (intro exI) (auto simp del: map_append)
qed

lemma tm_list_unlink:
  assumes t: "tm_list {} M t ((a, 0, e) # xs)" and it: "tk_get t a = Some it"
  shows "tm_list {a} M (t\<lparr>tm_timers := tk_next it\<rparr>) xs"
  using assms by (auto simp: tm_list_def)

lemma tm_list_free:
  assumes t: "tm_list {a} M t xs"
  shows "\<exists>t'. tk_free a t = Some t' \<and> tm_list {} M t' xs \<and> tm_timers t' = tm_timers t \<and>
    tm_ntimers t' = tm_ntimers t \<and> tm_world t' = tm_world t"
proof -
  from t obtain c' where s: "tm_seg (tk_get t) (tm_timers t) 0 xs None c'" and a: "a \<notin> fst ` set xs" "tk_get t a \<noteq> None"
    and live: "{a. tk_get t a \<noteq> None} = insert a (fst ` set xs)"
    by (auto simp: tm_list_def set_eq_iff)
  from a(2) obtain it where "tk_get t a = Some it" by blast
  from tk_free_get [OF this] obtain t' where t': "tk_free a t = Some t'" "tk_get t' = (tk_get t)(a := None)" "tm_timers t' = tm_timers t"
    "tm_ntimers t' = tm_ntimers t" "tm_world t' = tm_world t" by blast
  have "tm_seg (tk_get t') (tm_timers t) 0 xs None c' = tm_seg (tk_get t) (tm_timers t) 0 xs None c'"
    by (rule tm_seg_cong) (use a in \<open>auto simp: t'(2)\<close>)
  moreover have "{a. tk_get t' a \<noteq> None} = fst ` set xs" using live a(1) by (auto simp: t'(2))
  ultimately have "tm_list {} M t' xs" using t s by (auto simp: tm_list_def t'(3))
  with t' show ?thesis by blast
qed

lemma tm_shift_map: "map snd (map (\<lambda>(a, d, e). (a, d + k, e)) xs) = tm_shift k (map snd xs)"
  by (simp add: tm_shift_def split_def comp_def)

lemma tm_list_dues: "tm_list X M t xs \<Longrightarrow> x \<in> set (map snd xs) \<Longrightarrow> 0 \<le> fst x \<and> fst x \<le> M"
  by (fastforce simp: tm_list_def dest!: tm_seg_end)

lemma tick_fire_run:
  assumes t: "tm_list {} tm_max t ((a, 0, e) # xs)" and act: "act_ok act"
  shows "\<exists>t' xs' k w q. tick_fire (adding_callback act) a t = Some t' \<and> tm_list {} (tm_max + 1) t' xs' \<and>
    tick_run act [e] (tm_ntimers t, tm_world t, map snd xs) = (k, w, q) \<and>
    tm_ntimers t' = k \<and> tm_world t' = w \<and> map snd xs' = tm_shift 1 q \<and> (\<forall>x\<in>set q. 0 \<le> fst x)"
proof -
  let ?e = "e\<lparr>tk_times := times_left e\<rparr>" and ?last = "if tk_times e = 1 then 1 else 0 :: int"
  obtain it where it: "tk_get t a = Some it" "tk_entry it = e" using tm_list_head [OF t] by blast
  have f: "tk_func it = tk_func e" "tk_params it = tk_params e" "tk_times it = tk_times e" using it(2) by auto
  obtain t1 where t1: "tk_upd a (\<lambda>it. it\<lparr>tk_times := times_left e\<rparr>) t = Some t1"
    "tm_list {} tm_max t1 ((a, 0, ?e) # xs)" "tm_ntimers t1 = tm_ntimers t" "tm_world t1 = tm_world t"
    using tm_list_entry [of "{}" tm_max t "[]" a 0 e xs "\<lambda>it. it\<lparr>tk_times := times_left e\<rparr>"] t by auto
  obtain l w new where a1: "act (tk_func e) (tk_params e) ?last (tm_world t) = (l, w, new)"
    by (cases "act (tk_func e) (tk_params e) ?last (tm_world t)")
  then have new: "\<forall>x\<in>set new. period_ok (fst x)" using act unfolding act_ok_def by (metis snd_conv)
  have "tm_list {} tm_max (t1\<lparr>tm_world := w\<rparr>) ((a, 0, ?e) # xs)" using t1(2) by simp
  from add_all_list [OF this new] obtain t2 xs2 where
    t2: "add_all new (t1\<lparr>tm_world := w\<rparr>) = Some t2" "tm_list {} tm_max t2 ((a, 0, ?e) # xs2)" "tm_world t2 = w"
    "foldl sched_add (tm_ntimers t, map snd xs) new = (tm_ntimers t2, map snd xs2)"
    using t1(3) by auto
  obtain it2 where it2: "tk_get t2 a = Some it2" "tk_entry it2 = ?e" using tm_list_head [OF t2(2)] by blast
  let ?t3 = "t2\<lparr>tm_timers := tk_next it2\<rparr>"
  have t3: "tm_list {a} tm_max ?t3 xs2" by (rule tm_list_unlink [OF t2(2) it2(1)])
  have need: "1 \<le> tk_ticks_need e" "tk_ticks_need e \<le> tm_max" using t by (auto simp: tm_list_def)
  have n2: "tk_ticks_need it2 = tk_ticks_need e" using arg_cong [OF it2(2), of tk_ticks_need] by simp
  let ?q = "if l = 0 then insert_due (tk_ticks_need e, ?e) (map snd xs2) else map snd xs2"
  obtain t4 xs4 where t4: "(if l = 0 then tick_again a ?t3 else Some ?t3) = Some t4" "tm_list {a} tm_max t4 xs4"
    "tm_ntimers t4 = tm_ntimers t2" "tm_world t4 = w" "map snd xs4 = ?q"
  proof (cases "l = 0")
    case True
    have g: "tk_get ?t3 a = Some it2" using it2(1) by simp
    obtain t' xs' where "tick_again a ?t3 = Some t'" "tm_list {a} tm_max t' xs'" "tm_ntimers t' = tm_ntimers ?t3"
      "tm_world t' = tm_world ?t3" "map snd xs' = insert_due (tk_ticks_need it2, tk_entry it2) (map snd xs2)"
      using tick_again_list [OF t3 g] need n2 by auto
    with True t2(3) show ?thesis by (intro that [of t' xs']) (simp_all add: n2 it2(2))
  next
    case False
    with t2(3) t3 that [of ?t3 xs2] show ?thesis by simp
  qed
  obtain t5 where t5: "tk_free a t4 = Some t5" "tm_list {} tm_max t5 xs4" "tm_timers t5 = tm_timers t4"
    "tm_ntimers t5 = tm_ntimers t4" "tm_world t5 = tm_world t4" using tm_list_free [OF t4(2)] by blast
  obtain t6 xs6 where t6: "(case tm_timers t5 of None \<Rightarrow> Some t5
     | Some b \<Rightarrow> Option.bind (tk_get t5 b) (\<lambda>next. Option.bind (c_int (tk_delta next + 1)) (\<lambda>d.
         tk_upd b (\<lambda>it. it\<lparr>tk_delta := d\<rparr>) t5))) = Some t6" "tm_list {} (tm_max + 1) t6 xs6"
    "map snd xs6 = tm_shift 1 ?q" "tm_ntimers t6 = tm_ntimers t5" "tm_world t6 = tm_world t5"
  proof (cases xs4)
    case Nil
    then have "tm_timers t5 = None" using t5(2) by (auto simp: tm_list_def)
    with Nil t4(5) t5(2) tm_list_mono [OF t5(2), of "tm_max + 1"] that [of t5 "[]"] show ?thesis by simp
  next
    case (Cons y ys)
    obtain b d eb where y: "y = (b, d, eb)" by (cases y)
    note l5 = t5(2) [unfolded Cons y]
    obtain ib where ib: "tm_timers t5 = Some b" "0 \<le> d" "tk_get t5 b = Some ib" "tk_delta ib = d"
      using tm_list_head [OF l5] by blast
    have "d \<le> tm_max" using l5 by (auto simp: tm_list_def)
    then have c: "c_int (d + 1) = Some (d + 1)" using ib(2) by (simp add: c_int_def tm_max_def)
    obtain t' where "tk_upd b (\<lambda>it. it\<lparr>tk_delta := d + 1\<rparr>) t5 = Some t'"
      "tm_list {} (tm_max + 1) t' (map (\<lambda>(a, d, e). (a, d + 1, e)) ((b, d, eb) # ys))"
      "tm_ntimers t' = tm_ntimers t5" "tm_world t' = tm_world t5"
      using tm_list_bump [OF l5, of 1 "tm_max + 1"] ib(2) by auto
    moreover have "map snd (map (\<lambda>(a, d, e). (a, d + 1, e)) ((b, d, eb) # ys)) = tm_shift 1 ?q"
      unfolding tm_shift_map t4(5) [symmetric] by (simp add: Cons y)
    ultimately show ?thesis using ib c by (intro that [of t']) auto
  qed
  have "tick_fire (adding_callback act) a t = Some t6"
    using it(1) t1(1) a1 t1(4) t2(1) it2(1) t4(1) t5(1) t6(1)
    by (simp add: tick_fire_def adding_callback_def f times_left_def Let_def split: if_splits)
  moreover have "\<forall>x\<in>set ?q. 0 \<le> fst x" using tm_list_dues [OF t4(2)] unfolding t4(5) by blast
  ultimately show ?thesis using t6 t5 t4 t2(4) a1 by (intro exI [of _ t6] exI [of _ xs6]) simp
qed

text \<open>A timer with a positive period is put behind those that are due.\<close>

lemma tick_run_append: "tick_run act (es @ fs) s = tick_run act fs (tick_run act es s)"
  by (induction act es s rule: tick_run.induct) (auto simp: Let_def split: prod.splits)

lemma sched_add_prefix:
  assumes "\<forall>x\<in>set ys. fst x \<le> 0" "\<forall>x\<in>set new. period_ok (fst x)"
  shows "foldl sched_add (k, ys @ q) new = (let (k, q) = foldl sched_add (k, q) new in (k, ys @ q))"
  using assms(2)
proof (induction new arbitrary: k q)
  case (Cons x new)
  obtain msec n f p where x: "x = (msec, n, f, p)" by (cases x)
  have "insert_due (sint msec, e) (ys @ q) = ys @ insert_due (sint msec, e) q" for e
    by (rule insert_due_prefix) (use assms(1) Cons.prems in \<open>force simp: x period_ok_def\<close>)
  with Cons show ?case by (simp add: x)
qed simp

lemma tick_run_prefix:
  assumes "\<forall>x\<in>set ys. fst x \<le> 0" "act_ok act" "1 \<le> tk_ticks_need e"
  shows "tick_run act [e] (k, w, ys @ q) = (let (k, w, q) = tick_run act [e] (k, w, q) in (k, w, ys @ q))"
proof -
  obtain l w' new where a: "act (tk_func e) (tk_params e) (if tk_times e = 1 then 1 else 0) w = (l, w', new)"
    by (cases "act (tk_func e) (tk_params e) (if tk_times e = 1 then 1 else 0) w")
  then have "\<forall>x\<in>set new. period_ok (fst x)" using assms(2) unfolding act_ok_def by (metis snd_conv)
  from sched_add_prefix [OF assms(1) this] have s: "foldl sched_add (k, ys @ q) new =
    (let (k, q) = foldl sched_add (k, q) new in (k, ys @ q))" .
  have "insert_due (tk_ticks_need e, e') (ys @ q) = ys @ insert_due (tk_ticks_need e, e') q" for e' q
    by (rule insert_due_prefix) (use assms(1,3) in force)
  with a s show ?thesis by (auto simp: Let_def split: prod.splits)
qed

lemma tm_seg_sorted: "tm_seg g p c xs q c' \<Longrightarrow> sorted (map fst (map snd xs))"
  by (induction g p c xs q c' rule: tm_seg.induct) (auto dest: tm_seg_end)

lemma tm_within_sorted: "tm_within M t q \<Longrightarrow> sorted (map fst q)"
  by (auto simp: tm_within_def tm_list_def dest: tm_seg_sorted)

lemma foldl_sched_add_dues:
  assumes "\<forall>x\<in>set q. 1 \<le> fst x" "\<forall>x\<in>set new. period_ok (fst x)"
  shows "\<forall>x\<in>set (snd (foldl sched_add (k, q) new)). 1 \<le> fst x"
  using assms
proof (induction new arbitrary: k q)
  case (Cons x new)
  obtain msec n f p where x: "x = (msec, n, f, p)" by (cases x)
  with Cons.prems show ?case by (simp, intro Cons.IH) (auto simp: set_insert_due period_ok_def)
qed simp

lemma tick_run_one_dues:
  assumes "\<forall>x\<in>set q. 1 \<le> fst x" "act_ok act" "1 \<le> tk_ticks_need e" "tick_run act [e] (k, w, q) = (k', w', q')"
  shows "\<forall>x\<in>set q'. 1 \<le> fst x"
proof -
  obtain l w1 new where a: "act (tk_func e) (tk_params e) (if tk_times e = 1 then 1 else 0) w = (l, w1, new)"
    by (cases "act (tk_func e) (tk_params e) (if tk_times e = 1 then 1 else 0) w")
  then have "\<forall>x\<in>set new. period_ok (fst x)" using assms(2) unfolding act_ok_def by (metis snd_conv)
  from foldl_sched_add_dues [OF assms(1) this, of k] assms(3,4) a show ?thesis
    by (auto simp: Let_def set_insert_due split: prod.splits if_splits)
qed

lemma take_drop_due:
  assumes "\<forall>x\<in>set r. 1 \<le> fst x" "\<forall>x\<in>set ds. fst x \<le> 1"
  shows "takeWhile (\<lambda>x. fst x \<le> (1 :: int)) (ds @ tm_shift 1 r) = ds"
    and "dropWhile (\<lambda>x. fst x \<le> (1 :: int)) (ds @ tm_shift 1 r) = tm_shift 1 r"
  using assms by (cases r; simp)+

lemma tick_loop_run:
  assumes "tm_within (tm_max + 1) t q" "act_ok act"
  shows "\<exists>t' q'. tick_loop (adding_callback act) (tm_timers t) t = Some (Some t') \<and> tm_ok t' q' \<and>
    tick_run act (map snd (takeWhile (\<lambda>x. fst x \<le> 1) q))
      (tm_ntimers t, tm_world t, tm_shift (- 1) (dropWhile (\<lambda>x. fst x \<le> 1) q)) =
      (tm_ntimers t', tm_world t', q')"
  using assms(1)
proof (induction "length (takeWhile (\<lambda>x. fst x \<le> 1) q)" arbitrary: t q rule: less_induct)
  case less
  from less.prems obtain xs where xs: "tm_list {} (tm_max + 1) t xs" "map snd xs = q" and dues: "\<forall>x\<in>set q. 1 \<le> fst x"
    by (auto simp: tm_within_def)
  note srt = tm_within_sorted [OF less.prems]
  show ?case
  proof (cases xs)
    case Nil
    then have "tm_timers t = None" using xs(1) by (auto simp: tm_list_def)
    moreover have "tm_ok t []" using xs(1) Nil by (auto simp: tm_ok_def tm_within_def tm_list_def)
    ultimately show ?thesis using Nil xs(2) by (auto simp: tick_loop.simps)
  next
    case (Cons x xs')
    obtain a d e where x: "x = (a, d, e)" by (cases x)
    let ?q = "map snd xs'"
    have q: "q = (d, e) # ?q" using xs(2) Cons x by simp
    note l = xs(1) [unfolded Cons x]
    obtain it where it: "tm_timers t = Some a" "tk_get t a = Some it" "tk_delta it = d" using tm_list_head [OF l] by blast
    have d: "1 \<le> d" "d \<le> tm_max + 1" using dues q l by (auto simp: tm_list_def)
    then have c: "c_int (d - 1) = Some (d - 1)" by (simp add: c_int_def tm_max_def)
    obtain t1 where t1: "tk_upd a (\<lambda>it. it\<lparr>tk_delta := d - 1\<rparr>) t = Some t1"
      "tm_list {} tm_max t1 (map (\<lambda>(a, d, e). (a, d + - 1, e)) ((a, d, e) # xs'))"
      "tm_ntimers t1 = tm_ntimers t" "tm_world t1 = tm_world t"
      using tm_list_bump [OF l, of "- 1" tm_max] d(1) by auto
    have due: "tick_due a t = Some (d - 1 \<le> 0, t1)" using it c t1(1) by (simp add: tick_due_def)
    show ?thesis
    proof (cases "d = 1")
      case False
      then have "1 < d" using d by simp
      moreover have "tm_ok t1 (tm_shift (- 1) q)"
        using t1(2) srt \<open>1 < d\<close> unfolding tm_ok_def tm_within_def q
        by (intro conjI exI [of _ "map (\<lambda>(a, d, e). (a, d + - 1, e)) ((a, d, e) # xs')"])
          (auto simp: tm_shift_def)
      ultimately show ?thesis using it(1) due t1(3,4) by (simp add: tick_loop.simps q)
    next
      case True
      let ?D = "takeWhile (\<lambda>x. fst x \<le> 1) ?q" and ?R = "dropWhile (\<lambda>x. fst x \<le> 1) ?q"
      let ?xs = "map (\<lambda>(a, d, e). (a, d + - 1, e)) xs'"
      have t1': "tm_list {} tm_max t1 ((a, 0, e) # ?xs)" using t1(2) True by simp
      obtain t2 xs2 k w q1 where t2: "tick_fire (adding_callback act) a t1 = Some t2" "tm_list {} (tm_max + 1) t2 xs2"
        "tick_run act [e] (tm_ntimers t, tm_world t, tm_shift (- 1) ?q) = (k, w, q1)"
        "tm_ntimers t2 = k" "tm_world t2 = w" "map snd xs2 = tm_shift 1 q1" "\<forall>x\<in>set q1. 0 \<le> fst x"
        using tick_fire_run [OF t1' assms(2)] t1(3,4) unfolding tm_shift_map by auto
      have D: "\<forall>x\<in>set ?D. fst x = 1" using dues q by (fastforce dest!: set_takeWhileD)
      have R: "\<forall>x\<in>set ?R. 2 \<le> fst x"
      proof (cases ?R)
        case (Cons y r)
        then have "\<not> fst y \<le> 1" by (metis hd_dropWhile list.distinct(1) list.sel(1))
        moreover have "sorted (map fst (?D @ ?R))" using srt q by simp
        then have "sorted (map fst (y # r))" unfolding Cons by (simp add: sorted_append)
        ultimately show ?thesis unfolding Cons by force
      next
        case Nil
        show ?thesis unfolding Nil by simp
      qed
      have need: "1 \<le> tk_ticks_need e" using l by (auto simp: tm_list_def)
      obtain k' w' r where r: "tick_run act [e] (tm_ntimers t, tm_world t, tm_shift (- 1) ?R) = (k', w', r)"
        by (cases "tick_run act [e] (tm_ntimers t, tm_world t, tm_shift (- 1) ?R)")
      have z: "\<forall>x\<in>set (tm_shift (- 1) ?D). fst x \<le> 0" using D by (auto simp: tm_shift_def)
      have "tm_shift (- 1) ?q = tm_shift (- 1) ?D @ tm_shift (- 1) ?R"
        by (metis takeWhile_dropWhile_id tm_shift_simps(3))
      with tick_run_prefix [OF z assms(2) need, of "tm_ntimers t" "tm_world t" "tm_shift (- 1) ?R"] r t2(3)
      have q1: "k = k'" "w = w'" "q1 = tm_shift (- 1) ?D @ r" by (auto simp: Let_def)
      have r1: "\<forall>x\<in>set r. 1 \<le> fst x"
        by (rule tick_run_one_dues [OF _ assms(2) need r]) (use R in \<open>auto simp: tm_shift_def\<close>)
      have sq: "tm_shift 1 q1 = ?D @ tm_shift 1 r" by (simp add: q1(3))
      have w2: "tm_within (tm_max + 1) t2 (?D @ tm_shift 1 r)"
        using t2(2,6,7) unfolding sq [symmetric] tm_within_def by (auto simp: tm_shift_def)
      have D1: "\<forall>x\<in>set ?D. fst x \<le> 1" using D by simp
      note td = take_drop_due [OF r1 D1]
      have lt: "length (takeWhile (\<lambda>x. fst x \<le> 1) (?D @ tm_shift 1 r)) < length (takeWhile (\<lambda>x. fst x \<le> 1) q)"
        unfolding td using True by (simp add: q)
      from less.hyps [OF lt w2] obtain t' q' where t': "tick_loop (adding_callback act) (tm_timers t2) t2 = Some (Some t')" "tm_ok t' q'"
        "tick_run act (map snd ?D) (k', w', r) = (tm_ntimers t', tm_world t', q')"
        unfolding td using t2(4,5) q1(1,2) by auto
      have "tick_loop (adding_callback act) (tm_timers t) t = Some (Some t')"
        using it(1) due True t2(1) t'(1) by (subst tick_loop.simps) simp
      moreover have "tick_run act (map snd (takeWhile (\<lambda>x. fst x \<le> 1) q))
          (tm_ntimers t, tm_world t, tm_shift (- 1) (dropWhile (\<lambda>x. fst x \<le> 1) q)) = (tm_ntimers t', tm_world t', q')"
        using tick_run_append [of act "[e]" "map snd ?D" "(tm_ntimers t, tm_world t, tm_shift (- 1) ?R)"] r t'(3) True
        by (simp add: q)
      ultimately show ?thesis using t'(2) by blast
    qed
  qed
qed

section \<open>The ticks of the event loop\<close>

lemma process_tick_run:
  assumes "tm_ok t q" "act_ok act"
  shows "\<exists>t' q'. process_tick (adding_callback act) t = Some (Some t') \<and> tm_ok t' q' \<and>
    tick_run act (map snd (takeWhile (\<lambda>x. fst x \<le> 1) q))
      (tm_ntimers t, tm_world t, tm_shift (- 1) (dropWhile (\<lambda>x. fst x \<le> 1) q)) =
      (tm_ntimers t', tm_world t', q')"
proof -
  have "tm_within (tm_max + 1) t q"
    using assms(1) tm_list_mono [of "{}" tm_max t _ "tm_max + 1"] by (auto simp: tm_ok_def tm_within_def)
  from tick_loop_run [OF this assms(2)] show ?thesis by (simp add: process_tick_def)
qed

lemma tick_run_one_keeps:
  assumes "tick_run act [e] (k, w, q) = (k', w', q')"
  shows "set q \<subseteq> set q'"
proof -
  have add: "set q \<subseteq> set (snd (foldl sched_add (k, q) new))" for k new q
  proof (induction new arbitrary: k q)
    case (Cons x new)
    obtain msec n f p where x: "x = (msec, n, f, p)" by (cases x)
    show ?case using Cons.IH [of "insert_due (sint msec, (new_entry msec f p k)\<lparr>tk_times := n\<rparr>) q" "k + 1"]
      by (simp add: x set_insert_due)
  qed simp
  obtain l w1 new where a: "act (tk_func e) (tk_params e) (if tk_times e = 1 then 1 else 0) w = (l, w1, new)"
    by (cases "act (tk_func e) (tk_params e) (if tk_times e = 1 then 1 else 0) w")
  obtain k1 q1 where "foldl sched_add (k, q) new = (k1, q1)" by (cases "foldl sched_add (k, q) new")
  with add [of q k new] a assms show ?thesis by (auto simp: set_insert_due split: if_splits)
qed

lemma tick_run_keeps: "tick_run act es (k, w, q) = (k', w', q') \<Longrightarrow> set q \<subseteq> set q'"
proof (induction es arbitrary: k w q)
  case (Cons e es)
  obtain k1 w1 q1 where r: "tick_run act [e] (k, w, q) = (k1, w1, q1)" by (cases "tick_run act [e] (k, w, q)")
  have "tick_run act (e # es) (k, w, q) = tick_run act es (tick_run act [e] (k, w, q))"
    using tick_run_append [of act "[e]" es "(k, w, q)"] by (simp only: append_Cons append_Nil)
  then have "tick_run act es (k1, w1, q1) = (k', w', q')" unfolding r Cons.prems by simp
  from Cons.IH [OF this] tick_run_one_keeps [OF r] show ?case by blast
qed simp

lemma set_tm_shift: "(d, e) \<in> set q \<Longrightarrow> (d + k, e) \<in> set (tm_shift k q)"
  by (force simp: tm_shift_def)

lemma process_tick_waits:
  assumes t: "tm_ok t q" "act_ok act" and e: "(d, e) \<in> set q" "1 < d"
  shows "\<exists>t' q'. process_tick (adding_callback act) t = Some (Some t') \<and> tm_ok t' q' \<and> (d - 1, e) \<in> set q'"
proof -
  have "(d, e) \<in> set (dropWhile (\<lambda>x. fst x \<le> 1) q)"
    using e takeWhile_dropWhile_id [of "\<lambda>x. fst x \<le> 1" q] by (metis Un_iff fst_conv not_le set_append set_takeWhileD)
  from set_tm_shift [OF this, of "- 1"]
  have m: "(d - 1, e) \<in> set (tm_shift (- 1) (dropWhile (\<lambda>x. fst x \<le> 1) q))" by simp
  from process_tick_run [OF t] obtain t' q' where
    t': "process_tick (adding_callback act) t = Some (Some t')" "tm_ok t' q'"
    and r: "tick_run act (map snd (takeWhile (\<lambda>x. fst x \<le> 1) q))
      (tm_ntimers t, tm_world t, tm_shift (- 1) (dropWhile (\<lambda>x. fst x \<le> 1) q)) = (tm_ntimers t', tm_world t', q')"
    by blast
  have "(d - 1, e) \<in> set q'" using tick_run_keeps [OF r] m by blast
  with t' show ?thesis by blast
qed

lemma events_ticks_waits:
  assumes "tm_ok t q" "act_ok act" "(d, e) \<in> set q" "int k < d" "0 \<le> r" "r < 1000"
  shows "\<exists>t' q'. events_ticks (adding_callback act) (1000 * int k + r) t = Some (Some (r, t')) \<and> tm_ok t' q' \<and>
    (d - int k, e) \<in> set q'"
  using assms(1,3,4)
proof (induction k arbitrary: t q d)
  case 0
  then show ?case using assms(5,6) by (auto simp: events_ticks.simps)
next
  case (Suc k)
  obtain t1 q1 where t1: "process_tick (adding_callback act) t = Some (Some t1)" "tm_ok t1 q1" "(d - 1, e) \<in> set q1"
    using process_tick_waits [OF Suc.prems(1) assms(2) Suc.prems(2)] Suc.prems(3) by auto
  obtain t' q' where "events_ticks (adding_callback act) (1000 * int k + r) t1 = Some (Some (r, t'))" "tm_ok t' q'"
    "(d - 1 - int k, e) \<in> set q'"
    using Suc.IH [OF t1(2,3)] Suc.prems(3) by auto
  moreover have "events_ticks (adding_callback act) (1000 * int (Suc k) + r) t =
      events_ticks (adding_callback act) (1000 * int k + r) t1"
    using t1(1) assms(5) by (subst events_ticks.simps) (simp add: algebra_simps)
  ultimately show ?case by (auto simp: algebra_simps)
qed

section \<open>A period of zero\<close>

text \<open>A periodical timer with period 0 at the front, which is due.\<close>

definition spinning :: "'f \<Rightarrow> 'p \<Rightarrow> ('f, 'p, 'w) ape_timers \<Rightarrow> bool" where
  "spinning f p t \<longleftrightarrow>
     (\<exists>a it. tm_timers t = Some a \<and> tk_get t a = Some it \<and> tk_ticks_need it = 0 \<and> tk_times it \<le> 0 \<and>
        tk_func it = f \<and> tk_params it = p \<and> (tk_delta it = 0 \<or> tk_delta it = 1) \<and>
        (\<forall>b. tk_next it = Some b \<longrightarrow> b \<noteq> a \<and> (\<exists>ib. tk_get t b = Some ib \<and> 0 \<le> tk_delta ib \<and> tk_delta ib \<le> tm_max)))"

lemma add_timeout_front:
  assumes "\<forall>b. tm_timers t = Some b \<longrightarrow> (\<exists>ib. tk_get t b = Some ib \<and> 0 \<le> tk_delta ib \<and> tk_delta ib \<le> tm_max)"
  shows "\<exists>t'. add_timeout 0 f p t = Some (length (tm_heap t), t') \<and> tm_timers t' = Some (length (tm_heap t)) \<and>
    tk_get t' = (tk_get t)(length (tm_heap t) :=
      Some ((new_entry 0 f p (tm_ntimers t))\<lparr>tk_next := tm_timers t\<rparr>)) \<and>
    length (tm_heap t') = length (tm_heap t) + 1"
proof (cases "tm_timers t")
  case None
  let ?new = "new_entry 0 f p (tm_ntimers t)"
  have n: "?new\<lparr>tk_next := None\<rparr> = ?new" by (simp add: new_entry_def)
  have "add_timeout_loop ?new None None t = Some (?new, None, t)" by (simp add: add_timeout_loop.simps)
  then have "add_timeout 0 f p t = Some (length (tm_heap t),
      t\<lparr>tm_heap := tm_heap t @ [Some ?new], tm_timers := Some (length (tm_heap t)), tm_ntimers := tm_ntimers t + 1\<rparr>)"
    using None by (simp add: add_timeout_def new_entry_def Let_def)
  moreover have "tk_get (t\<lparr>tm_heap := tm_heap t @ [Some ?new]\<rparr>) = (tk_get t)(length (tm_heap t) := Some (?new\<lparr>tk_next := None\<rparr>))"
    using tk_get_malloc [of t ?new] n by simp
  ultimately show ?thesis using None n by simp
next
  case (Some b)
  then obtain ib where ib: "tk_get t b = Some ib" "0 \<le> tk_delta ib" "tk_delta ib \<le> tm_max" using assms by blast
  let ?new = "new_entry 0 f p (tm_ntimers t)"
  have c: "c_int (tk_delta ib) = Some (tk_delta ib)" using ib by (simp add: c_int_def tm_max_def)
  obtain t1 where t1: "tk_upd b (\<lambda>it. it\<lparr>tk_delta := tk_delta ib\<rparr>) t = Some t1"
    "tk_get t1 = (tk_get t)(b := Some (ib\<lparr>tk_delta := tk_delta ib\<rparr>))" "length (tm_heap t1) = length (tm_heap t)"
    using tk_upd_get [OF ib(1), of "\<lambda>it. it\<lparr>tk_delta := tk_delta ib\<rparr>"] by blast
  then have g1: "tk_get t1 = tk_get t" using ib(1) by (auto simp: fun_eq_iff)
  have "add_timeout_loop ?new None (Some b) t = Some (?new\<lparr>tk_next := Some b\<rparr>, None, t1)"
    using ib c t1(1) by (subst add_timeout_loop.simps) (simp add: new_entry_def)
  then have "add_timeout 0 f p t = Some (length (tm_heap t),
      t1\<lparr>tm_heap := tm_heap t1 @ [Some (?new\<lparr>tk_next := Some b\<rparr>)], tm_timers := Some (length (tm_heap t)),
        tm_ntimers := tm_ntimers t1 + 1\<rparr>)"
    using Some t1(3) by (simp add: add_timeout_def new_entry_def Let_def)
  moreover have "tk_get (t1\<lparr>tm_heap := tm_heap t1 @ [Some (?new\<lparr>tk_next := Some b\<rparr>)]\<rparr>) =
      (tk_get t)(length (tm_heap t) := Some (?new\<lparr>tk_next := Some b\<rparr>))"
    using tk_get_malloc [of t1 "?new\<lparr>tk_next := Some b\<rparr>"] t1(3) g1 by simp
  ultimately show ?thesis using Some t1(3) by simp
qed

lemma spinning_step:
  assumes s: "spinning f p t" and call: "\<forall>t. \<exists>w. call f p 0 t = Some (0, t\<lparr>tm_world := w\<rparr>)"
  shows "\<exists>a t1 t2. tm_timers t = Some a \<and> tick_due a t = Some (True, t1) \<and> tick_fire call a t1 = Some t2 \<and>
    spinning f p t2"
proof -
  from s obtain a it where a: "tm_timers t = Some a" "tk_get t a = Some it" "tk_ticks_need it = 0" "tk_times it \<le> 0"
    "tk_func it = f" "tk_params it = p" "tk_delta it = 0 \<or> tk_delta it = 1"
    and nx: "\<forall>b. tk_next it = Some b \<longrightarrow> b \<noteq> a \<and> (\<exists>ib. tk_get t b = Some ib \<and> 0 \<le> tk_delta ib \<and> tk_delta ib \<le> tm_max)"
    unfolding spinning_def by blast
  let ?d = "tk_delta it - 1"
  have c: "c_int ?d = Some ?d" "?d \<le> 0" using a(7) by (auto simp: c_int_def)
  obtain t1 where t1: "tk_upd a (\<lambda>it. it\<lparr>tk_delta := ?d\<rparr>) t = Some t1"
    "tk_get t1 = (tk_get t)(a := Some (it\<lparr>tk_delta := ?d\<rparr>))"
    using tk_upd_get [OF a(2), of "\<lambda>it. it\<lparr>tk_delta := ?d\<rparr>"] by blast
  have due: "tick_due a t = Some (True, t1)" using a(2) c t1(1) by (simp add: tick_due_def)
  let ?i1 = "it\<lparr>tk_delta := ?d\<rparr>"
  let ?i2 = "?i1\<lparr>tk_times := tk_times it\<rparr>"
  have g1: "tk_get t1 a = Some ?i1" by (simp add: t1(2))
  obtain t2 where t2: "tk_upd a (\<lambda>i. i\<lparr>tk_times := tk_times it\<rparr>) t1 = Some t2" "tk_get t2 = (tk_get t1)(a := Some ?i2)"
    using tk_upd_get [OF g1, of "\<lambda>i. i\<lparr>tk_times := tk_times it\<rparr>"] by blast
  obtain w where w: "call f p 0 t2 = Some (0, t2\<lparr>tm_world := w\<rparr>)" using call by blast
  let ?t3 = "t2\<lparr>tm_world := w, tm_timers := tk_next it\<rparr>"
  have g3: "tk_get ?t3 = (tk_get t)(a := Some ?i2)" by (simp add: t2(2) t1(2))
  have nx3: "\<forall>b. tm_timers ?t3 = Some b \<longrightarrow> (\<exists>ib. tk_get ?t3 b = Some ib \<and> 0 \<le> tk_delta ib \<and> tk_delta ib \<le> tm_max)"
    using nx unfolding g3 by auto
  let ?n = "length (tm_heap ?t3)"
  obtain t4 where t4: "add_timeout 0 f p ?t3 = Some (?n, t4)" "tm_timers t4 = Some ?n"
    "tk_get t4 = (tk_get ?t3)(?n := Some ((new_entry 0 f p (tm_ntimers ?t3))\<lparr>tk_next := tk_next it\<rparr>))"
    using add_timeout_front [OF nx3, of f p] by auto
  have n: "?n \<noteq> a" "\<forall>b. tk_next it = Some b \<longrightarrow> b \<noteq> ?n"
  proof -
    have "tk_get ?t3 a \<noteq> None" unfolding g3 by simp
    from tk_get_fresh [OF this] show "?n \<noteq> a" by simp
    show "\<forall>b. tk_next it = Some b \<longrightarrow> b \<noteq> ?n"
    proof (intro allI impI)
      fix b assume "tk_next it = Some b"
      then have "tk_get ?t3 b \<noteq> None" using nx3 by auto
      from tk_get_fresh [OF this] show "b \<noteq> ?n" by simp
    qed
  qed
  have g4: "tk_get t4 a = Some ?i2" using n t4(3) g3 by simp
  let ?f = "\<lambda>new :: ('a, 'b) ticks_callback.
    new\<lparr>tk_identifier := tk_identifier it, tk_times := tk_times it, tk_protect := tk_protect it\<rparr>"
  let ?new = "?f ((new_entry 0 f p (tm_ntimers ?t3))\<lparr>tk_next := tk_next it\<rparr>)"
  have n4: "tk_get (t4\<lparr>tm_ntimers := tm_ntimers t4 - 1\<rparr>) ?n = Some ((new_entry 0 f p (tm_ntimers ?t3))\<lparr>tk_next := tk_next it\<rparr>)"
    by (simp add: t4(3))
  obtain t5 where t5: "tk_upd ?n ?f (t4\<lparr>tm_ntimers := tm_ntimers t4 - 1\<rparr>) = Some t5"
    "tk_get t5 = (tk_get t4)(?n := Some ?new)" "tm_timers t5 = Some ?n"
    using tk_upd_get [OF n4, of ?f] t4(2) by auto
  have again: "tick_again a ?t3 = Some t5"
    using g3 g4 t4(1) t5(1) a(3,5,6) by (simp add: tick_again_def)
  obtain t6 where t6: "tk_free a t5 = Some t6" "tk_get t6 = (tk_get t5)(a := None)" "tm_timers t6 = Some ?n"
    using tk_free_get [of t5 a ?i2] g4 n t5(2,3) by auto
  have g6: "tk_get t6 ?n = Some ?new" using n t6(2) t5(2) by simp
  obtain t7 where t7: "tk_upd ?n (\<lambda>it. it\<lparr>tk_delta := 1\<rparr>) t6 = Some t7"
    "tk_get t7 = (tk_get t6)(?n := Some (?new\<lparr>tk_delta := 1\<rparr>))" "tm_timers t7 = Some ?n"
    using tk_upd_get [OF g6, of "\<lambda>it. it\<lparr>tk_delta := 1\<rparr>"] t6(3) by auto
  have d0: "tk_delta ?new = 0" "c_int 1 = Some 1" by (simp_all add: new_entry_def c_int_def)
  have "tick_fire call a t1 = Some t7"
    using g1 t2 a(4,5,6) w again t6 t7 g6 d0
    by (simp add: tick_fire_def Let_def)
  moreover have "spinning f p t7"
    unfolding spinning_def
  proof (rule exI [of _ ?n], rule exI [of _ "?new\<lparr>tk_delta := 1\<rparr>"], intro conjI allI impI)
    fix b assume "tk_next (?new\<lparr>tk_delta := 1\<rparr>) = Some b"
    then have b: "tk_next it = Some b" by simp
    with nx n show "b \<noteq> ?n" by blast
    from b nx obtain ib where "b \<noteq> a" "tk_get t b = Some ib" "0 \<le> tk_delta ib" "tk_delta ib \<le> tm_max" by blast
    with \<open>b \<noteq> ?n\<close> show "\<exists>ib. tk_get t7 b = Some ib \<and> 0 \<le> tk_delta ib \<and> tk_delta ib \<le> tm_max"
      unfolding t7(2) t6(2) t5(2) t4(3) g3 by simp
  qed (use t7 a in \<open>simp_all add: new_entry_def\<close>)
  ultimately show ?thesis using a(1) due by blast
qed

lemma spinning_never_returns:
  assumes "spinning f p t" "\<forall>t. \<exists>w. call f p 0 t = Some (0, t\<lparr>tm_world := w\<rparr>)"
  shows "process_tick call t = None"
proof (rule ccontr)
  assume "process_tick call t \<noteq> None"
  then obtain r where r: "tick_loop call (tm_timers t) t = Some r" by (auto simp: process_tick_def)
  have "\<not> (timers = tm_timers t \<and> spinning f p t)" if "tick_loop call timers t = Some r" for timers t r
  proof (rule tick_loop.raw_induct [where P = "\<lambda>c timers t r. c = call \<longrightarrow> \<not> (timers = tm_timers t \<and> spinning f p t)",
      OF _ that, THEN mp, OF _ refl])
    fix tick_loop' c timers t r
    assume IH: "\<And>c timers t r. tick_loop' c timers t = Some r \<Longrightarrow> c = call \<longrightarrow> \<not> (timers = tm_timers t \<and> spinning f p t)"
      and eq: "(case timers of None \<Rightarrow> Some (Some t)
        | Some a \<Rightarrow> (case tick_due a t of None \<Rightarrow> Some None
           | Some (due, t) \<Rightarrow> if due then
                 (case tick_fire c a t of None \<Rightarrow> Some None | Some t \<Rightarrow> tick_loop' c (tm_timers t) t)
               else Some (Some t))) = Some r"
    show "c = call \<longrightarrow> \<not> (timers = tm_timers t \<and> spinning f p t)"
    proof (intro impI notI)
      assume c: "c = call" and s: "timers = tm_timers t \<and> spinning f p t"
      obtain a t1 t2 where "tm_timers t = Some a" "tick_due a t = Some (True, t1)" "tick_fire call a t1 = Some t2"
        "spinning f p t2" using spinning_step [of f p t call] s assms(2) by blast
      with eq s c have "tick_loop' call (tm_timers t2) t2 = Some r" by simp
      from IH [OF this] \<open>spinning f p t2\<close> show False by simp
    qed
  qed
  from this [OF r] assms(1) show False by simp
qed

lemma add_periodical_spins:
  assumes t: "tm_ok t q" and n: "n \<le> 0"
  shows "\<exists>a t'. add_periodical 0 n f p t = Some (a, t') \<and> spinning f p t'"
proof -
  from t obtain xs where xs: "tm_list {} tm_max t xs" "map snd xs = q" by (auto simp: tm_ok_def tm_within_def)
  have h: "\<forall>b. tm_timers t = Some b \<longrightarrow> (\<exists>ib. tk_get t b = Some ib \<and> 0 \<le> tk_delta ib \<and> tk_delta ib \<le> tm_max)"
  proof (cases xs)
    case Nil
    then show ?thesis using xs(1) by (auto simp: tm_list_def)
  next
    case (Cons x xs')
    then show ?thesis using xs(1) by (cases x) (auto simp: tm_list_def)
  qed
  let ?n = "length (tm_heap t)" and ?e = "(new_entry 0 f p (tm_ntimers t))\<lparr>tk_next := tm_timers t\<rparr>"
  obtain t1 where t1: "add_timeout 0 f p t = Some (?n, t1)" "tm_timers t1 = Some ?n" "tk_get t1 = (tk_get t)(?n := Some ?e)"
    using add_timeout_front [OF h] by blast
  have g: "tk_get t1 ?n = Some ?e" by (simp add: t1(3))
  obtain t2 where t2: "tk_upd ?n (\<lambda>it. it\<lparr>tk_times := n\<rparr>) t1 = Some t2" "tm_timers t2 = Some ?n"
    "tk_get t2 = (tk_get t1)(?n := Some (?e\<lparr>tk_times := n\<rparr>))"
    using tk_upd_get [OF g, of "\<lambda>it. it\<lparr>tk_times := n\<rparr>"] t1(2) by auto
  have "b \<noteq> ?n" if "tm_timers t = Some b" for b using h that tk_get_fresh [of t b] by auto
  then have "spinning f p t2"
    unfolding spinning_def using t2(2) h n
    by (intro exI [of _ ?n] exI [of _ "?e\<lparr>tk_times := n\<rparr>"]) (auto simp: t2(3) t1(3) new_entry_def)
  with t1(1) t2(1) show ?thesis by (simp add: add_periodical_def)
qed

section \<open>Finding and deleting\<close>

lemma timer_scan_hit:
  assumes "tm_seg (tk_get t) p c (ys @ (a, d, e) # zs) None z" "\<forall>(a, d, e)\<in>set ys. tk_identifier e \<noteq> k"
    and "tk_identifier e = k"
  shows "timer_scan k prev p t = Some (if ys = [] then prev else Some (fst (last ys)), Some a)"
  using assms
proof (induction ys arbitrary: p c prev)
  case Nil
  then show ?case by (subst timer_scan.simps) auto
next
  case (Cons y ys)
  obtain b d' e' where y: "y = (b, d', e')" by (cases y)
  with Cons.prems(1) obtain it where it: "p = Some b" "tk_get t b = Some it" "tk_entry it = e'"
    "tm_seg (tk_get t) (tk_next it) d' (ys @ (a, d, e) # zs) None z" by auto
  have "tk_identifier it \<noteq> k" using Cons.prems(2) it(3) by (auto simp: y)
  moreover have "\<forall>(a, d, e)\<in>set ys. tk_identifier e \<noteq> k" using Cons.prems(2) by simp
  note Cons.IH [OF it(4) this assms(3), of "Some b"]
  ultimately show ?case using it(1,2) by (subst timer_scan.simps) (simp add: y)
qed

lemma timer_scan_miss:
  assumes "tm_seg (tk_get t) p c xs None z" "\<forall>(a, d, e)\<in>set xs. tk_identifier e \<noteq> k"
  shows "\<exists>prev'. timer_scan k prev p t = Some (prev', None)"
  using assms
proof (induction xs arbitrary: p c prev)
  case Nil
  then show ?case by (subst timer_scan.simps) simp
next
  case (Cons y ys)
  obtain b d' e' where y: "y = (b, d', e')" by (cases y)
  with Cons.prems(1) obtain it where it: "p = Some b" "tk_get t b = Some it" "tk_entry it = e'"
    "tm_seg (tk_get t) (tk_next it) d' ys None z" by auto
  have "tk_identifier it \<noteq> k" using Cons.prems(2) it(3) by (auto simp: y)
  moreover have "\<forall>(a, d, e)\<in>set ys. tk_identifier e \<noteq> k" using Cons.prems(2) by simp
  note Cons.IH [OF it(4) this, of "Some b"]
  ultimately show ?case using it(1,2) by (subst timer_scan.simps) simp
qed

text \<open>The timers behind a deleted one keep their differences: their deadlines move forward.\<close>

definition due_of :: "(int \<times> 'e) list \<Rightarrow> int" where
  "due_of q = (if q = [] then 0 else fst (last q))"

lemma tm_seg_due: "tm_seg g p c xs q z \<Longrightarrow> z = (if xs = [] then c else fst (snd (last xs)))"
  by (induction g p c xs q z rule: tm_seg.induct) auto

lemma del_timer_list:
  assumes t: "tm_list {} tm_max t (ys @ (a, d, e) # zs)" and k: "\<forall>(a, d, e)\<in>set ys. tk_identifier e \<noteq> tk_identifier e0"
    and e: "tk_identifier e = tk_identifier e0"
  shows "\<exists>t' zs'. del_timer_identifier (tk_identifier e0) t = Some t' \<and> tm_list {} tm_max t' (ys @ zs') \<and>
    map snd zs' = tm_shift (due_of (map snd ys) - d) (map snd zs) \<and> tm_ntimers t' = tm_ntimers t"
proof -
  from t obtain z where s: "tm_seg (tk_get t) (tm_timers t) 0 (ys @ (a, d, e) # zs) None z"
    and dist: "distinct (map fst (ys @ (a, d, e) # zs))" by (auto simp: tm_list_def)
  then obtain b it where it: "tm_seg (tk_get t) (tm_timers t) 0 ys (Some a) b" "b \<le> d" "tk_get t a = Some it"
    "tk_entry it = e" "tm_seg (tk_get t) (tk_next it) d zs None z"
    unfolding tm_seg_append by auto
  have b: "b = due_of (map snd ys)" using tm_seg_due [OF it(1)] by (auto simp: due_of_def last_map)
  let ?zs = "map (\<lambda>(a, d', e). (a, d' + (b - d), e)) zs"
  have fst: "fst ` set ?zs = fst ` set zs" "map fst ?zs = map fst zs" by (force split: prod.splits)+
  have zs: "tm_seg (tk_get t) (tk_next it) b ?zs None (z + (b - d))"
    using tm_seg_shift [OF it(5), of "b - d"] by simp
  obtain t1 where t1: "(case if ys = [] then None else Some (fst (last ys)) of
       Some p \<Rightarrow> tk_upd p (\<lambda>pi. pi\<lparr>tk_next := tk_next it\<rparr>) t
     | None \<Rightarrow> Some (t\<lparr>tm_timers := tk_next it\<rparr>)) = Some t1"
    "tm_seg (tk_get t1) (tm_timers t1) 0 (ys @ ?zs) None (z + (b - d))"
    "{a. tk_get t1 a \<noteq> None} = {a. tk_get t a \<noteq> None}" "tm_ntimers t1 = tm_ntimers t"
  proof (cases "ys = []")
    case True
    then have "b = 0" using it(1) by simp
    with True zs show ?thesis by (intro that [of "t\<lparr>tm_timers := tk_next it\<rparr>"]) simp_all
  next
    case False
    let ?l = "fst (last ys)"
    have d: "distinct (map fst ys)" using dist by simp
    obtain li where li: "tk_get t ?l = Some li"
      "tm_seg ((tk_get t)(?l := Some (li\<lparr>tk_next := tk_next it\<rparr>))) (tm_timers t) 0 ys (tk_next it) b"
      using tm_seg_relink [OF it(1) False d] by blast
    obtain t1 where t1: "tk_upd ?l (\<lambda>pi. pi\<lparr>tk_next := tk_next it\<rparr>) t = Some t1"
      "tk_get t1 = (tk_get t)(?l := Some (li\<lparr>tk_next := tk_next it\<rparr>))" "tm_timers t1 = tm_timers t"
      "tm_ntimers t1 = tm_ntimers t" using tk_upd_get [OF li(1), of "\<lambda>pi. pi\<lparr>tk_next := tk_next it\<rparr>"] by blast
    have "?l \<in> fst ` set ys" using False by simp
    then have "?l \<notin> fst ` set zs" using dist by auto
    then have "tm_seg (tk_get t1) (tk_next it) b ?zs None (z + (b - d)) = tm_seg (tk_get t) (tk_next it) b ?zs None (z + (b - d))"
      by (intro tm_seg_cong, unfold fst t1(2)) (metis fun_upd_other)
    with zs have "tm_seg (tk_get t1) (tk_next it) b ?zs None (z + (b - d))" by simp
    then have "tm_seg (tk_get t1) (tm_timers t1) 0 (ys @ ?zs) None (z + (b - d))"
      unfolding tm_seg_append t1(3) using li(2) t1(2) by auto
    moreover have "{a. tk_get t1 a \<noteq> None} = {a. tk_get t a \<noteq> None}" using li(1) by (auto simp: t1(2))
    ultimately show ?thesis using t1(1,4) False by (intro that [of t1]) (simp_all only: if_False option.case)
  qed
  have live: "{a. tk_get t1 a \<noteq> None} = insert a (fst ` set (ys @ ?zs))"
    unfolding t1(3) set_append image_Un fst using t by (auto simp: tm_list_def)
  have a: "a \<notin> fst ` set (ys @ ?zs)" "distinct (map fst (ys @ ?zs))"
    using dist unfolding set_append image_Un map_append fst by auto
  have bnd: "\<forall>(a, d, e)\<in>set (ys @ ?zs). d \<le> tm_max \<and> 1 \<le> tk_ticks_need e \<and> tk_ticks_need e \<le> tm_max"
    using t it(2) b by (auto simp: tm_list_def ball_Un)
  have "tm_list {a} tm_max t1 (ys @ ?zs)"
    unfolding tm_list_def using t1(2) live a bnd by (intro conjI exI) (fact | simp)+
  then obtain t2 where t2: "tk_free a t1 = Some t2" "tm_list {} tm_max t2 (ys @ ?zs)" "tm_ntimers t2 = tm_ntimers t1"
    using tm_list_free by blast
  have "timer_scan (tk_identifier e0) None (tm_timers t) t = Some (if ys = [] then None else Some (fst (last ys)), Some a)"
    by (rule timer_scan_hit [OF s k e])
  then have "del_timer_identifier (tk_identifier e0) t = Some t2"
    using it(3) t1(1) t2(1) by (simp add: del_timer_identifier_def)
  with t2(2,3) t1(4) tm_shift_map [of "b - d" zs] show ?thesis
    unfolding b [symmetric] by (intro exI [of _ t2] exI [of _ ?zs]) (simp only: refl simp_thms)
qed

text \<open>Freeing them all.\<close>

lemma timers_free_loop_seg:
  assumes "tm_seg (tk_get t) p c xs None z" "distinct (map fst xs)"
  shows "\<exists>t'. timers_free_loop p t = Some t' \<and> (\<forall>a. tk_get t' a = (if a \<in> fst ` set xs then None else tk_get t a))"
  using assms
proof (induction xs arbitrary: t p c)
  case Nil
  then show ?case by (simp add: timers_free_loop.simps)
next
  case (Cons x xs)
  obtain a d e where x: "x = (a, d, e)" by (cases x)
  with Cons.prems(1) obtain it where it: "p = Some a" "tk_get t a = Some it" "tm_seg (tk_get t) (tk_next it) d xs None z"
    by auto
  obtain t1 where t1: "tk_free a t = Some t1" "tk_get t1 = (tk_get t)(a := None)" using tk_free_get [OF it(2)] by blast
  have "tm_seg (tk_get t1) (tk_next it) d xs None z"
    using it(3) Cons.prems(2) by (subst tm_seg_cong [of xs _ "tk_get t"]) (auto simp: t1(2) x)
  from Cons.IH [OF this] Cons.prems(2) obtain t' where t': "timers_free_loop (tk_next it) t1 = Some t'"
    "\<forall>a. tk_get t' a = (if a \<in> fst ` set xs then None else tk_get t1 a)" by (auto simp: x)
  have "timers_free_loop p t = Some t'" using it t1(1) t'(1) by (subst timers_free_loop.simps) simp
  with t'(2) t1(2) show ?case by (auto simp: x)
qed

lemma timers_free_all:
  assumes "tm_ok t q"
  shows "\<exists>t'. timers_free t = Some t' \<and> (\<forall>a. tk_get t' a = None)"
proof -
  from assms obtain xs z where xs: "tm_seg (tk_get t) (tm_timers t) 0 xs None z" "distinct (map fst xs)"
    "{a. tk_get t a \<noteq> None} = fst ` set xs" by (auto simp: tm_ok_def tm_within_def tm_list_def)
  from timers_free_loop_seg [OF xs(1,2)] xs(3) show ?thesis unfolding timers_free_def by (metis (mono_tags) mem_Collect_eq)
qed

section \<open>Properties\<close>

lemma tm_ok_init: "tm_ok \<lparr>tm_timers = None, tm_ntimers = k, tm_heap = [], tm_world = w\<rparr> []"
  by (auto simp: tm_ok_def tm_within_def tm_list_def tk_get_def)

text \<open>C28: a timer that is added, with a period from 1 to \<open>2 ^ 31 - 2\<close>, goes into the schedule at its
  deadline, before the timers that have the same one, and no other deadline changes; it gets the next
  identifier. The list stays well formed, and holds every timer that is allocated.\<close>

theorem add_timer_schedule:
  assumes "tm_ok t q" "period_ok msec"
  shows "(\<exists>t'. add_timeout msec f p t = Some (length (tm_heap t), t') \<and>
      tm_ok t' (insert_due (sint msec, new_entry msec f p (tm_ntimers t)) q) \<and>
      tm_ntimers t' = tm_ntimers t + 1 \<and> tm_world t' = tm_world t) \<and>
    (\<exists>t'. add_periodical msec n f p t = Some (length (tm_heap t), t') \<and>
      tm_ok t' (insert_due (sint msec, (new_entry msec f p (tm_ntimers t))\<lparr>tk_times := n\<rparr>) q) \<and>
      tm_ntimers t' = tm_ntimers t + 1 \<and> tm_world t' = tm_world t)"
proof -
  from assms(1) obtain xs where xs: "tm_list {} tm_max t xs" "map snd xs = q" and q: "\<forall>x\<in>set q. 1 \<le> fst x"
    by (auto simp: tm_ok_def tm_within_def)
  have m: "1 \<le> sint msec" "sint msec \<le> tm_max" using assms(2) by (simp_all add: period_ok_def)
  have ok: "tm_ok t' (insert_due (sint msec, e) q)"
    if "xs = ys @ zs" "\<forall>(a, d, e)\<in>set ys. d < sint msec" "zs \<noteq> [] \<longrightarrow> sint msec \<le> fst (snd (hd zs))"
      "tm_list {} tm_max t' (ys @ (a, sint msec, e) # zs)" for ys zs t' a e
    using that(4) sched_split [OF that(1-3), of a e] q m xs(2)
    unfolding tm_ok_def tm_within_def by (auto simp: set_insert_due)
  show ?thesis
    using add_timeout_list [OF xs(1) m, of f p] add_periodical_list [OF xs(1) assms(2), of n f p] ok by metis
qed

text \<open>C26: a tick returns, if every callback adds only timers with a period of at least 1. It has then
  called exactly the timers whose deadline it was, in the order of the schedule, each told whether it
  is its last call; the timers they add and those that go on are in the schedule at their deadlines,
  and every other deadline is one tick nearer.\<close>

theorem process_tick_schedule:
  assumes "tm_ok t q" "act_ok act"
  shows "\<exists>t' q'. process_tick (adding_callback act) t = Some (Some t') \<and> tm_ok t' q' \<and>
    tick_run act (map snd (takeWhile (\<lambda>x. fst x \<le> 1) q))
      (tm_ntimers t, tm_world t, tm_shift (- 1) (dropWhile (\<lambda>x. fst x \<le> 1) q)) =
      (tm_ntimers t', tm_world t', q')"
  by (rule process_tick_run [OF assms])

text \<open>C27: a timer whose deadline is \<open>d\<close> ticks away waits in the schedule until \<open>1000 * d\<close>
  microseconds have been counted, whatever the other callbacks add meanwhile; then the tick calls it.\<close>

theorem timer_fires_on_time:
  assumes "tm_ok t q" "act_ok act" "(d, e) \<in> set q" "0 \<le> r" "r < 1000"
  shows "(\<forall>k < nat d. \<exists>t' q'. events_ticks (adding_callback act) (1000 * int k + r) t = Some (Some (r, t')) \<and>
      tm_ok t' q' \<and> (d - int k, e) \<in> set q') \<and>
    (\<exists>t1 q1 t2 q2 es fs. events_ticks (adding_callback act) (1000 * (d - 1) + r) t = Some (Some (r, t1)) \<and>
      process_tick (adding_callback act) t1 = Some (Some t2) \<and> tm_ok t2 q2 \<and>
      tick_run act (es @ e # fs) (tm_ntimers t1, tm_world t1, q1) = (tm_ntimers t2, tm_world t2, q2))"
proof
  show "\<forall>k < nat d. \<exists>t' q'. events_ticks (adding_callback act) (1000 * int k + r) t = Some (Some (r, t')) \<and>
      tm_ok t' q' \<and> (d - int k, e) \<in> set q'"
    using events_ticks_waits [OF assms(1,2,3) _ assms(4,5)] by simp
  have "1 \<le> d" using assms(1,3) by (force simp: tm_ok_def tm_within_def)
  then obtain t1 q1 where t1: "events_ticks (adding_callback act) (1000 * (d - 1) + r) t = Some (Some (r, t1))"
    "tm_ok t1 q1" "(1, e) \<in> set q1"
    using events_ticks_waits [OF assms(1,2,3) _ assms(4,5), of "nat (d - 1)"] by auto
  have "(1, e) \<in> set (takeWhile (\<lambda>x. fst x \<le> 1) q1)"
  proof -
    from t1(3) obtain us vs where u: "q1 = us @ (1, e) # vs" by (meson split_list)
    have "\<forall>x\<in>set us. fst x \<le> 1" using tm_within_sorted [of tm_max t1 q1] t1(2) by (auto simp: u tm_ok_def sorted_append)
    then show ?thesis by (simp add: u)
  qed
  then have "e \<in> set (map snd (takeWhile (\<lambda>x. fst x \<le> 1) q1))" by force
  then obtain es fs where es: "map snd (takeWhile (\<lambda>x. fst x \<le> 1) q1) = es @ e # fs" by (meson split_list)
  with process_tick_run [OF t1(2) assms(2)] t1(1)
  show "\<exists>t1 q1 t2 q2 es fs. events_ticks (adding_callback act) (1000 * (d - 1) + r) t = Some (Some (r, t1)) \<and>
      process_tick (adding_callback act) t1 = Some (Some t2) \<and> tm_ok t2 q2 \<and>
      tick_run act (es @ e # fs) (tm_ntimers t1, tm_world t1, q1) = (tm_ntimers t2, tm_world t2, q2)"
    by metis
qed

text \<open>C35: a timer with period 0 that goes on for ever, whose callback leaves the timers alone and never
  makes a call its last, is called again and again within one tick: \<open>process_tick\<close> does not return.\<close>

theorem zero_period_never_returns:
  assumes "tm_ok t q" "n \<le> 0" "\<forall>t. \<exists>w. call f p 0 t = Some (0, t\<lparr>tm_world := w\<rparr>)"
  shows "\<exists>a t'. add_periodical 0 n f p t = Some (a, t') \<and> process_tick call t' = None"
  using add_periodical_spins [OF assms(1,2), of f p] spinning_never_returns [of f p _ call] assms(3) by blast

text \<open>C39: deleting a timer frees it and keeps those before it, but its difference is not given to the
  timer behind it: every timer behind it fires too early, by the time from the one before it.\<close>

theorem del_timer_moves_deadlines:
  assumes "tm_ok t (us @ (d, e) # vs)" "\<forall>x\<in>set us. tk_identifier (snd x) \<noteq> tk_identifier e"
  shows "\<exists>t' xs. del_timer_identifier (tk_identifier e) t = Some t' \<and> tm_list {} tm_max t' xs \<and>
    map snd xs = us @ tm_shift (due_of us - d) vs"
proof -
  from assms(1) obtain xs where xs: "tm_list {} tm_max t xs" "map snd xs = us @ (d, e) # vs"
    by (auto simp: tm_ok_def tm_within_def)
  then obtain ys a zs where s: "xs = ys @ (a, d, e) # zs" "map snd ys = us" "map snd zs = vs"
    by (auto simp: map_eq_append_conv)
  with assms(2) del_timer_list [of t ys a d e zs e] xs(1) show ?thesis by fastforce
qed

text \<open>Examples: a world that is the list of the calls.\<close>

definition log_act :: "nat \<Rightarrow> unit \<Rightarrow> int \<Rightarrow> (nat \<times> int) list \<Rightarrow>
    int \<times> (nat \<times> int) list \<times> (u32 \<times> int \<times> nat \<times> unit) list" where
  "log_act f p lastcall w = (lastcall, w @ [(f, lastcall)], [])"

definition no_timers :: "(nat, unit, (nat \<times> int) list) ape_timers" where
  "no_timers = \<lparr>tm_timers = None, tm_ntimers = 0, tm_heap = [], tm_world = []\<rparr>"

lemma log_act_ok: "act_ok log_act"
  by (simp add: act_ok_def log_act_def)

lemma no_timers_ok: "tm_ok no_timers []"
  unfolding no_timers_def by (rule tm_ok_init)

lemma small_period: "period_ok 2" "period_ok 5"
  by (simp_all add: period_ok_def tm_max_def)

theorem add_timer_schedule_witness:
  "\<exists>t'. add_timeout 5 7 () no_timers = Some (0, t') \<and> tm_ok t' [(5, new_entry 5 7 () 0)]"
proof -
  from add_timer_schedule [OF no_timers_ok small_period(2), of 7 "()" 1] obtain t' where
    "add_timeout 5 7 () no_timers = Some (length (tm_heap no_timers), t')"
    "tm_ok t' (insert_due (sint (5 :: u32), new_entry 5 7 () (tm_ntimers no_timers)) [])" by blast
  then show ?thesis by (simp add: no_timers_def insert_due_def)
qed

lemma tm_okI: "tm_list {} tm_max t xs \<Longrightarrow> \<forall>x\<in>set xs. 1 \<le> fst (snd x) \<Longrightarrow> tm_ok t (map snd xs)"
  by (auto simp: tm_ok_def tm_within_def)

lemma first_timer:
  assumes "period_ok m"
  shows "\<exists>t. add_timeout m 7 () no_timers = Some (0, t) \<and> tm_list {} tm_max t [(0, sint m, new_entry m 7 () 0)] \<and>
    tm_ok t [(sint m, new_entry m 7 () 0)] \<and> tm_ntimers t = 1 \<and> tm_world t = []"
proof -
  have l: "tm_list {} tm_max no_timers []" by (simp add: tm_list_def no_timers_def tk_get_def)
  have m: "1 \<le> sint m" "sint m \<le> tm_max" using assms by (simp_all add: period_ok_def)
  from add_timeout_list [OF l m, of 7 "()"] obtain t where
    t: "add_timeout m 7 () no_timers = Some (0, t)" "tm_list {} tm_max t [(0, sint m, new_entry m 7 () 0)]"
    "tm_ntimers t = 1" "tm_world t = []" by (auto simp: no_timers_def)
  with tm_okI [OF t(2)] m(1) show ?thesis by auto
qed

theorem process_tick_schedule_witness:
  "\<exists>t t' q'. add_timeout 1 7 () no_timers = Some (0, t) \<and>
     process_tick (adding_callback log_act) t = Some (Some t') \<and> tm_ok t' q' \<and> tm_world t' = [(7, 1)] \<and> q' = []"
proof -
  obtain t where t: "add_timeout 1 7 () no_timers = Some (0, t)" "tm_ok t [(1, new_entry 1 7 () 0)]" "tm_world t = []"
    using first_timer [of 1] by (auto simp: period_ok_def tm_max_def)
  from process_tick_schedule [OF t(2) log_act_ok] t show ?thesis
    by (auto simp: log_act_def new_entry_def)
qed

theorem timer_fires_on_time_witness:
  "\<exists>t t1. add_timeout 5 7 () no_timers = Some (0, t) \<and>
     events_ticks (adding_callback log_act) 4321 t = Some (Some (321, t1)) \<and>
     (\<exists>t2. process_tick (adding_callback log_act) t1 = Some (Some t2))"
proof -
  obtain t where t: "add_timeout 5 7 () no_timers = Some (0, t)" "tm_ok t [(5, new_entry 5 7 () 0)]"
    using first_timer [OF small_period(2)] by auto
  from timer_fires_on_time [OF t(2) log_act_ok, of 5 "new_entry 5 7 () 0" 321] t(1) show ?thesis by auto
qed

theorem zero_period_never_returns_witness:
  "\<exists>a t. add_periodical 0 0 7 () no_timers = Some (a, t) \<and> process_tick (adding_callback log_act) t = None"
proof -
  have "\<forall>t. \<exists>w. adding_callback log_act 7 () 0 t = Some (0, t\<lparr>tm_world := w\<rparr>)"
    by (simp add: adding_callback_def log_act_def) blast
  with zero_period_never_returns [OF no_timers_ok, of 0 "adding_callback log_act" 7 "()"] show ?thesis by simp
qed

text \<open>Timers after 2 and 5 ticks: when the first is deleted, the second is called after 3.\<close>

theorem del_timer_moves_deadlines_witness:
  "\<exists>t a b u v xs. add_timeout 2 7 () no_timers = Some (a, t) \<and> add_timeout 5 8 () t = Some (b, u) \<and>
     del_timer_identifier 0 u = Some v \<and> tm_list {} tm_max v xs \<and> map snd xs = [(3, new_entry 5 8 () 1)]"
proof -
  obtain t where t: "add_timeout 2 7 () no_timers = Some (0, t)" "tm_list {} tm_max t [(0, 2, new_entry 2 7 () 0)]"
    "tm_ntimers t = 1" using first_timer [OF small_period(1)] by auto
  have m: "1 \<le> sint (5 :: u32)" "sint (5 :: u32) \<le> tm_max" by (simp_all add: tm_max_def)
  from add_timeout_list [OF t(2) m, of 8 "()"] obtain ys zs u where
    u: "add_timeout 5 8 () t = Some (length (tm_heap t), u)" "[(0, 2, new_entry 2 7 () 0)] = ys @ zs"
      "zs \<noteq> [] \<longrightarrow> 5 \<le> fst (snd (hd zs))"
      "tm_list {} tm_max u (ys @ (length (tm_heap t), 5, new_entry 5 8 () 1) # zs)"
    by (auto simp: t(3))
  then have "zs = []" "ys = [(0, 2, new_entry 2 7 () 0)]" by (cases ys; auto)+
  then have "tm_ok u ([] @ (2, new_entry 2 7 () 0) # [(5, new_entry 5 8 () 1)])"
    using tm_okI [OF u(4)] by simp
  from del_timer_moves_deadlines [OF this] obtain v xs where
    "del_timer_identifier (tk_identifier (new_entry 2 (7 :: nat) () 0)) u = Some v" "tm_list {} tm_max v xs"
    "map snd xs = [(3, new_entry 5 8 () 1)]" by (auto simp: due_of_def)
  moreover have "tk_identifier (new_entry 2 (7 :: nat) () 0) = 0" by (simp add: new_entry_def)
  ultimately show ?thesis using t(1) u(1) by metis
qed

end
