(* ===== verification/Spec2Isabelle.thy ===== *)
theory Spec2Isabelle
  imports Array Base64 Buffer Command Hash Http_Parser Json_Parser Json_Tree Keyed_Table Pool Server Sha1 Socket Timers Websocket 
begin

text \<open>
  A verification development of the APE (Ajax Push Engine) server, version 2: the C sources under
  \<^verbatim>\<open>src/core\<close>.

  \<^bold>\<open>The program.\<close> APE is an event-driven push server. The event loop (\<^verbatim>\<open>ape_events_loop.c\<close>) tells the sockets
  (\<^verbatim>\<open>ape_socket.c\<close>) that they can be read or written and counts ticks for the timers. A connection
  (\<^verbatim>\<open>ape_server.c\<close>) gives what its socket reads to the HTTP parser, whose callback fills the request's header
  table and drives the JSON parser over the query string or the body; an upgrade request turns the connection
  over to the WebSocket machine, whose frames are JSON again. Commands are trees of JSON items
  (\<^verbatim>\<open>ape_cmd.c\<close>); users, sessions and pipes are in hash tables.

  \<^bold>\<open>The theories.\<close>
  \<^item> \<^verbatim>\<open>Ape_Prelude\<close>: C types, the loop \<open>feed\<close> that gives a machine its bytes, the result of a step (state,
    events, verdict: accepted, refused, or undefined behaviour), the locales \<open>safe_machine\<close> and
    \<open>protocol_machine\<close> (the contracts under which a machine never aborts, and under which its events
    follow a protocol), and chains of cells.
  \<^item> \<^verbatim>\<open>Http_Parser\<close> (\<^verbatim>\<open>ape_http_parser.c\<close>): the state table and every action. Interpretations \<open>http_safe\<close>
    and \<open>http_proto\<close>; well formed GET and POST requests are reported exactly.
  \<^item> \<^verbatim>\<open>Json_Parser\<close> (\<^verbatim>\<open>JSON_parser.c\<close>): the table, the stack, the growing parse buffer, every action,
    configuration. Interpretations \<open>json_safe\<close> and \<open>json_proto\<close>; the documents of a grammar are read as
    their events.
  \<^item> \<^verbatim>\<open>Json_Tree\<close> (\<^verbatim>\<open>ape_json.c\<close>): items in a heap, setters, serializer, copy, release, lookup, and the
    parser with the callback that builds a tree, composed with \<^verbatim>\<open>Json_Parser\<close>.
  \<^item> \<^verbatim>\<open>Sha1\<close> (\<^verbatim>\<open>ape_sha1.c\<close>): against FIPS 180-1 and RFC 2104; the locale \<open>incremental_digest\<close>.
  \<^item> \<^verbatim>\<open>Base64\<close> (\<^verbatim>\<open>ape_base64.c\<close>): against RFC 4648, and the round trip.
  \<^item> \<^verbatim>\<open>Websocket\<close> (\<^verbatim>\<open>ape_websocket.c\<close>): the frame machine with its memory accesses, against RFC 6455.
  \<^item> \<^verbatim>\<open>Keyed_Table\<close>: the locale \<open>keyed_table\<close>, the contract of a table of pointers under keys, interpreted for
    both kinds of hash table and for the properties in \<^verbatim>\<open>Array\<close>.
  \<^item> \<^verbatim>\<open>Hash\<close> (\<^verbatim>\<open>ape_hash.c\<close>): MurmurHash2 and the two kinds of table on a heap.
  \<^item> \<^verbatim>\<open>Buffer\<close> (\<^verbatim>\<open>ape_buffer.c\<close>, \<^verbatim>\<open>ape_string.c\<close>): blocks of cells, growth, appends, the conversions; and
    buffers on a heap, as the structures that hold pointers to them need them.
  \<^item> \<^verbatim>\<open>Pool\<close> (\<^verbatim>\<open>ape_pool.c\<close>): lists of cells that are allocated in blocks, grown, rotated and destroyed.
  \<^item> \<^verbatim>\<open>Array\<close> (\<^verbatim>\<open>ape_array.c\<close>, \<^verbatim>\<open>ape_extend.c\<close>): tables of buffers in a pool, and the properties of pipes and users.
  \<^item> \<^verbatim>\<open>Timers\<close> (\<^verbatim>\<open>ape_timers.c\<close>, and the ticks of \<^verbatim>\<open>ape_events_loop.c\<close>): the list of differences on a heap,
    against a schedule of absolute deadlines.
  \<^item> \<^verbatim>\<open>Command\<close> (\<^verbatim>\<open>ape_cmd.c\<close>, \<^verbatim>\<open>ape_user.c\<close>, \<^verbatim>\<open>ape_pipe.c\<close>): commands, users, sessions, pipes and their
    identifiers, over \<^verbatim>\<open>Json_Tree\<close> and \<^verbatim>\<open>Hash\<close>; what a message means is a function of its document.
  \<^item> \<^verbatim>\<open>Socket\<close> (\<^verbatim>\<open>ape_socket.c\<close>, and the events of a client in \<^verbatim>\<open>ape_events_loop.c\<close>): writing, the queue of jobs
    in a \<^verbatim>\<open>Pool\<close>, reading into a \<^verbatim>\<open>Buffer\<close>, shutdown; the system's results are a parameter.
  \<^item> \<^verbatim>\<open>Server\<close> (\<^verbatim>\<open>ape_server.c\<close>, \<^verbatim>\<open>ape_transports.h\<close>): a connection with everything it drives, from its first
    byte to the commands of a WebSocket message.

  \<^bold>\<open>How the code is modelled.\<close> Structures are records, enumerations datatypes; machine integers are words
  where they can wrap, and signed ones integers with their overflow as undefined behaviour where the
  code can reach it. Memory that the code shares is an explicit heap, a list of cells that are
  allocated (\<open>Some\<close>) or freed (\<open>None\<close>). Undefined behaviour (a null or freed pointer that is followed,
  an access outside a block, a failed \<open>assert\<close>) is a value: the verdict \<open>Abort\<close> of a machine, \<open>None\<close> of
  a function into \<open>option\<close>; the theorems that a function returns a result therefore also say that it
  does nothing undefined. Loops are structural or have a measure; those over linked cells, which a
  cycle would never leave, and those that the system or a random source has to end, are
  \<open>partial_function\<close>, where \<open>None\<close> is also the loop that does not end. \<open>process_tick\<close> tells the two apart.
  What a component calls outside itself - callbacks, system calls, OpenSSL - is the list of its events, in the
  order of the calls; what it gets from there (results of calls, answers of callbacks, random numbers,
  allocation failures) is an argument of the definitions.

  \<^bold>\<open>What the lemmas show.\<close> Each theory goes from the operations (definitions), over the effect of each
  operation on an abstract view (the phase of a protocol, the tree of a document, the chain of a
  bucket, the schedule, the bytes that are still to be written), to the properties, which are about whole
  inputs or whole runs. Properties that state a defect of the code give the inputs that reach it.

  \<^bold>\<open>Bounds.\<close> No fuel is used. The nesting of JSON documents is bounded by the configuration's depth (15
  for the trees); lengths and sizes are unbounded naturals where the code has \<open>size_t\<close>; the timers'
  deadlines are at most \<open>2 ^ 31 - 2\<close> ticks.

  \<^bold>\<open>Not modelled.\<close> Listening, connecting and accepting (\<^verbatim>\<open>ape_socket.c\<close>), the event backends
  (\<^verbatim>\<open>ape_event_epoll.c\<close>, \<^verbatim>\<open>ape_event_kqueue.c\<close>), TLS (\<^verbatim>\<open>ape_ssl.c\<close>) and DNS (\<^verbatim>\<open>ape_dns.c\<close>) are calls of the
  system or of libraries; the start of the server (\<open>ape_server_init\<close>), configuration, logging and start-up are
  glue over libconfuse and stdio, and the MessagePack variant of the server is not compiled in; the
  JavaScript binding (\<^verbatim>\<open>src/modules\<close>) is glue over SpiderMonkey; \<^verbatim>\<open>deps\<close> is third-party code.
  A callback that calls the socket again is an event of its own, behind the one it is called from.
\<close>

end
